(* ===== verification/Prelude.thy ===== *)
theory Prelude
  imports Main "HOL-Library.Word"
begin

text \<open>
  Shared vocabulary of the uCache development: the machine types of the sources, the
  wrap-around of \<^verbatim>\<open>uint64_t\<close> sums written out on \<^typ>\<open>nat\<close>, byte-list slices and
  overwrites (what \<^verbatim>\<open>memcpy\<close> into a \<^verbatim>\<open>std::vector\<close> does), the little-endian loads and stores
  of \<^verbatim>\<open>put<T>\<close> / \<^verbatim>\<open>get<T>\<close>, and the page arithmetic every component of the cache uses.
  Lemmas are declared \<^verbatim>\<open>simp\<close> or collected in the named collections below, so that the
  component theories stay short.
\<close>

unbundle bit_operations_syntax

type_synonym byte = "8 word"
type_synonym bytes = "byte list"
type_synonym u32 = "32 word"
type_synonym u64w = "64 word"

named_theorems slice_simps \<open>equations of slices, overwrites and their lengths\<close>
named_theorems page_arith \<open>page index and page boundary arithmetic\<close>

section \<open>Unsigned machine arithmetic on nat\<close>

text \<open>\<^verbatim>\<open>uint64_t\<close> and \<^verbatim>\<open>size_t\<close> values are naturals below \<open>2 ^ 64\<close>; a sum that may leave that
  range is written with \<open>u64\<close>, the wrap-around of the type, and a difference that may go
  below zero with \<open>sub64\<close>.\<close>

definition u64 :: "nat \<Rightarrow> nat" where
  "u64 n = n mod 2 ^ 64"

definition u32n :: "nat \<Rightarrow> nat" where
  "u32n n = n mod 2 ^ 32"

definition sub64 :: "nat \<Rightarrow> nat \<Rightarrow> nat" where
  "sub64 a b = (if b \<le> a then a - b else (a + 2 ^ 64) - b)"

lemma u64_id [simp]: "n < 2 ^ 64 \<Longrightarrow> u64 n = n"
  by (simp add: u64_def)

lemma u64_less [simp]: "u64 n < 2 ^ 64"
  by (simp add: u64_def)

lemma u64_le: "u64 n \<le> n"
  by (simp add: u64_def)

lemma u32n_id [simp]: "n < 2 ^ 32 \<Longrightarrow> u32n n = n"
  by (simp add: u32n_def)

lemma u32n_less [simp]: "u32n n < 2 ^ 32"
  by (simp add: u32n_def)

lemma sub64_ge [simp]: "b \<le> a \<Longrightarrow> sub64 a b = a - b"
  by (simp add: sub64_def)

text \<open>The sources test a range with \<^verbatim>\<open>off + len < off\<close>: exactly the sums that wrap.\<close>

lemma u64_wrap_test:
  assumes "a < 2 ^ 64" and "b < 2 ^ 64"
  shows "u64 (a + b) < a \<longleftrightarrow> 2 ^ 64 \<le> a + b"
proof (cases "a + b < 2 ^ 64")
  case True
  then show ?thesis by simp
next
  case False
  then have "u64 (a + b) = a + b - 2 ^ 64"
    using assms by (simp add: u64_def mod_if)
  with False assms show ?thesis by simp
qed

section \<open>Slices and overwrites of byte lists\<close>

definition slice :: "nat \<Rightarrow> nat \<Rightarrow> 'a list \<Rightarrow> 'a list" where
  "slice off len xs = take len (drop off xs)"

lemma length_slice [simp]: "length (slice off len xs) = min len (length xs - off)"
  by (simp add: slice_def min.commute)

lemma slice_0 [simp]: "slice off 0 xs = []"
  by (simp add: slice_def)

lemma slice_append_left [slice_simps]:
  "off + len \<le> length xs \<Longrightarrow> slice off len (xs @ ys) = slice off len xs"
  by (simp add: slice_def)

lemma slice_append_right [slice_simps]:
  "length xs \<le> off \<Longrightarrow> slice off len (xs @ ys) = slice (off - length xs) len ys"
  by (simp add: slice_def)

lemma slice_all [slice_simps]: "len = length xs \<Longrightarrow> slice 0 len xs = xs"
  by (simp add: slice_def)

lemma slice_nth: "i < len \<Longrightarrow> off + i < length xs \<Longrightarrow> slice off len xs ! i = xs ! (off + i)"
  by (simp add: slice_def)

lemma slice_slice [slice_simps]:
  "off2 + len2 \<le> len1 \<Longrightarrow> slice off2 len2 (slice off1 len1 xs) = slice (off1 + off2) len2 xs"
  by (simp add: slice_def drop_take add.commute)

lemma slice_split: "slice off (a + b) xs = slice off a xs @ slice (off + a) b xs"
  by (simp add: slice_def take_add add.commute)

lemma slice_length_self: "slice off (length (slice off k xs)) xs = slice off k xs"
  unfolding slice_def by (metis append_eq_conv_conj append_take_drop_id)

lemma slice_min [simp]: "slice off (min k (length xs - off)) xs = slice off k xs"
  using slice_length_self [of off k xs] by simp

lemma slice_eqI:
  assumes "length xs = length ys"
    and "\<And>i. off \<le> i \<Longrightarrow> i < off + len \<Longrightarrow> i < length xs \<Longrightarrow> xs ! i = ys ! i"
  shows "slice off len xs = slice off len ys"
  by (rule nth_equalityI) (use assms in \<open>auto simp: slice_nth\<close>)

text \<open>\<^verbatim>\<open>overwrite xs off ys\<close> is \<^verbatim>\<open>memcpy(xs.data() + off, ys.data(), ys.size())\<close> inside the
  vector; \<^verbatim>\<open>pwrite_bytes\<close> is the same on a file, which grows with zeros when the write
  starts past its end.\<close>

definition overwrite :: "'a list \<Rightarrow> nat \<Rightarrow> 'a list \<Rightarrow> 'a list" where
  "overwrite xs off ys = take off xs @ ys @ drop (off + length ys) xs"

lemma length_overwrite [simp]:
  "off + length ys \<le> length xs \<Longrightarrow> length (overwrite xs off ys) = length xs"
  by (simp add: overwrite_def)

lemma overwrite_Nil [simp]: "overwrite xs off [] = xs"
  by (simp add: overwrite_def)

lemma slice_overwrite_same [slice_simps]:
  "off + length ys \<le> length xs \<Longrightarrow> len = length ys \<Longrightarrow> slice off len (overwrite xs off ys) = ys"
  by (simp add: slice_def overwrite_def)

lemma nth_overwrite:
  assumes "off + length ys \<le> length xs" and "i < length xs"
  shows "overwrite xs off ys ! i =
    (if off \<le> i \<and> i < off + length ys then ys ! (i - off) else xs ! i)"
proof -
  have "i - off < length ys" if "off \<le> i" "i < off + length ys"
    using that by linarith
  moreover have "off + length ys + (i - off - length ys) = i" if "\<not> i < off + length ys"
    using that by linarith
  ultimately show ?thesis
    using assms by (auto simp: overwrite_def nth_append)
qed

lemma slice_overwrite_other [slice_simps]:
  assumes "off + length ys \<le> length xs" and "o2 + len \<le> off \<or> off + length ys \<le> o2"
  shows "slice o2 len (overwrite xs off ys) = slice o2 len xs"
  by (rule slice_eqI) (use assms in \<open>auto simp: nth_overwrite\<close>)

section \<open>Little-endian loads and stores\<close>

primrec le_bytes :: "nat \<Rightarrow> nat \<Rightarrow> bytes" where
  "le_bytes 0 n = []"
| "le_bytes (Suc k) n = word_of_nat (n mod 256) # le_bytes k (n div 256)"

fun le_val :: "bytes \<Rightarrow> nat" where
  "le_val [] = 0"
| "le_val (b # bs) = unat b + 256 * le_val bs"

lemma length_le_bytes [simp]: "length (le_bytes k n) = k"
  by (induction k arbitrary: n) auto

lemma unat_byte_less: "unat (b :: byte) < 256"
  using unsigned_less [of b] by simp

lemma unat_byte_mod [simp]: "unat (word_of_nat (n mod 256) :: byte) = n mod 256"
  by (simp add: unat_of_nat)

lemma le_val_le_bytes: "le_val (le_bytes k n) = n mod 256 ^ k"
proof (induction k arbitrary: n)
  case 0
  show ?case by simp
next
  case (Suc k)
  then show ?case
    by (simp add: mod_mult2_eq [of n 256 "256 ^ k"])
qed

lemma le_val_le_bytes_id [simp]: "n < 256 ^ k \<Longrightarrow> le_val (le_bytes k n) = n"
  by (simp add: le_val_le_bytes)

lemma le_val_bound: "le_val bs < 256 ^ length bs"
proof (induction bs)
  case (Cons b bs)
  have "unat b < 256" by (rule unat_byte_less)
  with Cons show ?case by simp
qed simp

lemma le_bytes_le_val [simp]: "k = length bs \<Longrightarrow> le_bytes k (le_val bs) = bs"
proof (induction bs arbitrary: k)
  case (Cons b bs)
  have "unat b < 256" by (rule unat_byte_less)
  with Cons show ?case by (simp add: div_add)
qed simp

text \<open>\<^verbatim>\<open>put<T>(buf, off, v)\<close> and \<^verbatim>\<open>get<T>(p + off)\<close> for a \<open>k\<close>-byte integer type.\<close>

definition put_le :: "nat \<Rightarrow> bytes \<Rightarrow> nat \<Rightarrow> nat \<Rightarrow> bytes" where
  "put_le k buf off v = overwrite buf off (le_bytes k v)"

definition get_le :: "nat \<Rightarrow> bytes \<Rightarrow> nat \<Rightarrow> nat" where
  "get_le k buf off = le_val (slice off k buf)"

lemma length_put_le [simp]: "off + k \<le> length buf \<Longrightarrow> length (put_le k buf off v) = length buf"
  by (simp add: put_le_def)

lemma get_put_le_mod:
  "off + k \<le> length buf \<Longrightarrow> get_le k (put_le k buf off v) off = v mod 256 ^ k"
  by (simp add: get_le_def put_le_def slice_simps le_val_le_bytes)

lemma get_put_le_same [slice_simps]:
  "off + k \<le> length buf \<Longrightarrow> v < 256 ^ k \<Longrightarrow> get_le k (put_le k buf off v) off = v"
  by (simp add: get_le_def put_le_def slice_simps)

lemma get_put_le_other [slice_simps]:
  "off + k \<le> length buf \<Longrightarrow> o2 + k2 \<le> off \<or> off + k \<le> o2 \<Longrightarrow>
   get_le k2 (put_le k buf off v) o2 = get_le k2 buf o2"
  by (simp add: get_le_def put_le_def slice_simps)

lemma slice_put_le_other [slice_simps]:
  "off + k \<le> length buf \<Longrightarrow> o2 + k2 \<le> off \<or> off + k \<le> o2 \<Longrightarrow>
   slice o2 k2 (put_le k buf off v) = slice o2 k2 buf"
  by (simp add: put_le_def slice_simps)

lemma get_le_overwrite_other [slice_simps]:
  "off + length ys \<le> length buf \<Longrightarrow> o2 + k2 \<le> off \<or> off + length ys \<le> o2 \<Longrightarrow>
   get_le k2 (overwrite buf off ys) o2 = get_le k2 buf o2"
  by (simp add: get_le_def slice_simps)

lemma get_le_bound: "get_le k buf off < 256 ^ k"
proof -
  have "get_le k buf off < 256 ^ length (slice off k buf)"
    unfolding get_le_def by (rule le_val_bound)
  also have "\<dots> \<le> 256 ^ k"
    by (rule power_increasing) auto
  finally show ?thesis .
qed

section \<open>Little-endian arrays of 32-bit words\<close>

fun le32_list :: "u32 list \<Rightarrow> bytes" where
  "le32_list [] = []"
| "le32_list (w # ws) = le_bytes 4 (unat w) @ le32_list ws"

primrec rd32_list :: "nat \<Rightarrow> bytes \<Rightarrow> u32 list" where
  "rd32_list 0 bs = []"
| "rd32_list (Suc n) bs = word_of_nat (le_val (take 4 bs)) # rd32_list n (drop 4 bs)"

lemma length_le32_list [simp]: "length (le32_list ws) = 4 * length ws"
  by (induction ws) auto

lemma length_rd32_list [simp]: "length (rd32_list n bs) = n"
  by (induction n arbitrary: bs) auto

lemma unat_u32_bound: "unat (w :: u32) < 256 ^ 4"
  using unsigned_less [of w] by simp

lemma rd32_le32 [simp]: "n = length ws \<Longrightarrow> rd32_list n (le32_list ws @ rest) = ws"
proof (induction ws arbitrary: n)
  case (Cons w ws)
  then show ?case using unat_u32_bound [of w] by simp
qed simp

lemma le32_rd32: "length bs = 4 * n \<Longrightarrow> le32_list (rd32_list n bs) = bs"
proof (induction n arbitrary: bs)
  case (Suc n)
  have "le_val (take 4 bs) < 2 ^ 32"
    using le_val_bound [of "take 4 bs"] Suc.prems by simp
  with Suc show ?case
    by (simp add: unat_of_nat)
qed simp

lemma bit_of_nat_word_iff:
  "bit (word_of_nat m :: 'a::len word) n \<longleftrightarrow> n < LENGTH('a) \<and> bit m n"
proof -
  have "bit (word_of_nat m :: 'a word) n \<longleftrightarrow> bit (unat (word_of_nat m :: 'a word)) n"
    by (simp add: bit_unsigned_iff)
  also have "\<dots> \<longleftrightarrow> n < LENGTH('a) \<and> bit m n"
    by (simp add: unsigned_of_nat bit_take_bit_iff)
  finally show ?thesis .
qed

section \<open>Characters as bytes\<close>

definition byte_of_char :: "char \<Rightarrow> byte" where
  "byte_of_char c = word_of_nat (of_char c)"

definition char_of_byte :: "byte \<Rightarrow> char" where
  "char_of_byte b = char_of (unat b)"

lemma char_of_byte_of_char [simp]: "char_of_byte (byte_of_char c) = c"
proof -
  have "(of_char c :: nat) < 256" by simp
  then show ?thesis by (simp add: char_of_byte_def byte_of_char_def unat_of_nat)
qed

lemma byte_of_char_of_byte [simp]: "byte_of_char (char_of_byte b) = b"
  using unat_byte_less [of b] by (simp add: char_of_byte_def byte_of_char_def)

section \<open>Page arithmetic\<close>

text \<open>\<open>ceil_div n p\<close> is the \<^verbatim>\<open>(n + p - 1) / p\<close> of the sources, without wrap-around.\<close>

definition ceil_div :: "nat \<Rightarrow> nat \<Rightarrow> nat" where
  "ceil_div n p = (n + p - 1) div p"

lemma ceil_div_0 [simp]: "0 < p \<Longrightarrow> ceil_div 0 p = 0"
  by (simp add: ceil_div_def)

lemma less_ceil_div_iff [page_arith]: "0 < p \<Longrightarrow> i < ceil_div n p \<longleftrightarrow> i * p < n"
proof -
  assume p: "0 < p"
  have "i < ceil_div n p \<longleftrightarrow> Suc i * p \<le> n + p - 1"
    using p by (simp add: ceil_div_def Suc_le_eq [symmetric] less_eq_div_iff_mult_less_eq)
  also have "\<dots> \<longleftrightarrow> i * p < n"
    using p by auto
  finally show ?thesis .
qed

lemma ceil_div_le_iff [page_arith]: "0 < p \<Longrightarrow> ceil_div n p \<le> i \<longleftrightarrow> n \<le> i * p"
  using less_ceil_div_iff [of p i n] by (simp add: not_less [symmetric])

lemma ceil_div_mult_ge: "0 < p \<Longrightarrow> n \<le> ceil_div n p * p"
  using ceil_div_le_iff [of p n "ceil_div n p"] by simp

lemma div_less_ceil_div [page_arith]: "0 < p \<Longrightarrow> x < n \<Longrightarrow> x div p < ceil_div n p"
  by (subst less_ceil_div_iff) (auto intro: le_less_trans [OF div_times_less_eq_dividend])

lemma page_of_offset: "0 < p \<Longrightarrow> (x div p) * p \<le> x \<and> x < (x div p + 1) * (p::nat)"
  using dividend_less_times_div [of p x] by (simp add: algebra_simps)

text \<open>The pages a byte range touches are those from its first byte's to its last byte's.\<close>

lemma pages_of_range:
  assumes P: "0 < P" and len: "0 < len"
  shows "(\<exists>y. off \<le> y \<and> y < off + len \<and> y div P = i) \<longleftrightarrow> off div P \<le> i \<and> i \<le> (off + len - 1) div (P :: nat)"
proof
  assume "\<exists>y. off \<le> y \<and> y < off + len \<and> y div P = i"
  then show "off div P \<le> i \<and> i \<le> (off + len - 1) div P" by (auto intro!: div_le_mono)
next
  assume i: "off div P \<le> i \<and> i \<le> (off + len - 1) div P"
  let ?x = "max off (i * P)"
  have "i * P \<le> off + len - 1" using i P by (simp add: less_eq_div_iff_mult_less_eq)
  moreover have "off < Suc i * P" using i P by (metis div_less_iff_less_mult less_Suc_eq_le)
  moreover from this have "?x div P = i" using P by (intro div_nat_eqI) (auto simp: mult.commute max_def)
  ultimately show "\<exists>y. off \<le> y \<and> y < off + len \<and> y div P = i" using len by (intro exI [of _ ?x]) auto
qed

lemma all_pages_of_range:
  assumes "0 < P" and "0 < len"
  shows "(\<forall>x. off \<le> x \<and> x < off + len \<longrightarrow> Q (x div P)) \<longleftrightarrow> (\<forall>i. off div P \<le> i \<and> i \<le> (off + len - 1) div (P :: nat) \<longrightarrow> Q i)"
  using pages_of_range [OF assms, of off] by metis

lemma slice_eq_nth:
  assumes "slice a n xs = slice a n ys" and "a \<le> x" and "x < a + n" and "a + n \<le> length ys"
  shows "xs ! x = ys ! x"
proof -
  have "length (slice a n xs) = n" using assms(1,4) by simp
  then have l: "x < length xs" using assms(2,3) by (simp add: min_def split: if_splits)
  have "slice a n xs ! (x - a) = xs ! x" "slice a n ys ! (x - a) = ys ! x"
    using assms(2-4) l by (auto simp: slice_nth)
  then show ?thesis using assms(1) by simp
qed

end
