(* ===== verification/Crc32c.thy ===== *)
theory Crc32c
  imports Prelude
begin

text \<open>
  CRC-32C as \<^verbatim>\<open>src/src/core/vendor/crc32c.cc\<close> computes it: the table initialisation, the
  software routine with its alignment head, eight-byte slicing loop and tail, and the
  hardware routine over the CRC instructions, which are parameters here. The reference
  definition shifts one bit at a time. The main result is that both routines compute the
  reference value at every buffer alignment, so the checksum of a page does not depend on
  where it lies in memory or on the machine that wrote it; and that checksums chain.
\<close>

unbundle bit_operations_syntax

section \<open>Tables and the software routine\<close>

definition poly :: u32 where
  "poly = 0x82F63B78"

definition crc_bit :: "u32 \<Rightarrow> u32" where
  "crc_bit c = (if c AND 1 \<noteq> 0 then poly XOR drop_bit 1 c else drop_bit 1 c)"

text \<open>\<^verbatim>\<open>table[0][i]\<close> is eight bit steps from \<open>i\<close>; \<^verbatim>\<open>table[s][i]\<close> looks the previous row up
  once more.\<close>

definition table0 :: "u32 list" where
  "table0 = map (\<lambda>i. (crc_bit ^^ 8) (word_of_nat i)) [0..<256]"

definition next_row :: "u32 list \<Rightarrow> u32 list" where
  "next_row row = map (\<lambda>t. (table0 ! unat (t AND 0xFF)) XOR drop_bit 8 t) row"

definition initTables :: "u32 list list" where
  "initTables = map (\<lambda>s. (next_row ^^ s) table0) [0..<8]"

definition byte_step :: "u32 list list \<Rightarrow> u32 \<Rightarrow> byte \<Rightarrow> u32" where
  "byte_step table crc b = (table ! 0 ! unat ((crc XOR ucast b) AND 0xFF)) XOR drop_bit 8 crc"

text \<open>The head loop runs while bytes are left and the address is not a multiple of eight.\<close>

fun sw_head :: "u32 list list \<Rightarrow> nat \<Rightarrow> u32 \<Rightarrow> bytes \<Rightarrow> u32 \<times> bytes" where
  "sw_head table p crc [] = (crc, [])"
| "sw_head table p crc (b # bs) =
     (if p mod 8 \<noteq> 0 then sw_head table (Suc p) (byte_step table crc b) bs else (crc, b # bs))"

definition load64 :: "bytes \<Rightarrow> u64w" where
  "load64 bs = word_of_nat (le_val bs)"

definition idx :: "nat \<Rightarrow> u64w \<Rightarrow> nat" where
  "idx k v = unat (drop_bit (8 * k) v AND 0xFF)"

definition slice8 :: "u32 list list \<Rightarrow> u32 \<Rightarrow> bytes \<Rightarrow> u32" where
  "slice8 table crc bs =
     (let v = load64 bs XOR ucast crc in
      (table ! 7 ! idx 0 v) XOR (table ! 6 ! idx 1 v) XOR (table ! 5 ! idx 2 v) XOR
      (table ! 4 ! idx 3 v) XOR (table ! 3 ! idx 4 v) XOR
      (table ! 2 ! idx 5 v) XOR (table ! 1 ! idx 6 v) XOR (table ! 0 ! idx 7 v))"

fun sw_main :: "u32 list list \<Rightarrow> u32 \<Rightarrow> bytes \<Rightarrow> u32 \<times> bytes" where
  "sw_main table crc (b0 # b1 # b2 # b3 # b4 # b5 # b6 # b7 # rest) =
     sw_main table (slice8 table crc [b0, b1, b2, b3, b4, b5, b6, b7]) rest"
| "sw_main table crc bs = (crc, bs)"

definition sw_tail :: "u32 list list \<Rightarrow> u32 \<Rightarrow> bytes \<Rightarrow> u32" where
  "sw_tail table crc bs = foldl (byte_step table) crc bs"

definition swCrc :: "nat \<Rightarrow> u32 \<Rightarrow> bytes \<Rightarrow> u32" where
  "swCrc p crc bs =
     (let (c1, bs1) = sw_head initTables p (NOT crc) bs;
          (c2, bs2) = sw_main initTables c1 bs1
      in NOT (sw_tail initTables c2 bs2))"

section \<open>The hardware routine\<close>

text \<open>\<^verbatim>\<open>_mm_crc32_u8\<close> / \<^verbatim>\<open>__crc32cb\<close> and \<^verbatim>\<open>_mm_crc32_u64\<close> / \<^verbatim>\<open>__crc32cd\<close> are processor
  instructions, passed as \<open>u8i\<close> and \<open>u64i\<close>. Head, main loop and tail have the shape of
  the software routine.\<close>

fun hw_head :: "(u32 \<Rightarrow> byte \<Rightarrow> u32) \<Rightarrow> nat \<Rightarrow> u32 \<Rightarrow> bytes \<Rightarrow> u32 \<times> bytes" where
  "hw_head u8i p c [] = (c, [])"
| "hw_head u8i p c (b # bs) =
     (if p mod 8 \<noteq> 0 then hw_head u8i (Suc p) (u8i c b) bs else (c, b # bs))"

fun hw_main :: "(u32 \<Rightarrow> u64w \<Rightarrow> u32) \<Rightarrow> u32 \<Rightarrow> bytes \<Rightarrow> u32 \<times> bytes" where
  "hw_main u64i c (b0 # b1 # b2 # b3 # b4 # b5 # b6 # b7 # rest) =
     hw_main u64i (u64i c (load64 [b0, b1, b2, b3, b4, b5, b6, b7])) rest"
| "hw_main u64i c bs = (c, bs)"

definition hwCrc :: "(u32 \<Rightarrow> byte \<Rightarrow> u32) \<Rightarrow> (u32 \<Rightarrow> u64w \<Rightarrow> u32) \<Rightarrow> nat \<Rightarrow> u32 \<Rightarrow> bytes \<Rightarrow> u32" where
  "hwCrc u8i u64i p crc bs =
     (let (c1, bs1) = hw_head u8i p (NOT crc) bs;
          (c2, bs2) = hw_main u64i c1 bs1
      in NOT (foldl u8i c2 bs2))"

text \<open>The software slicing step read as an eight-byte instruction.\<close>

definition sw_u64 :: "u32 \<Rightarrow> u64w \<Rightarrow> u32" where
  "sw_u64 c v = slice8 initTables c (le_bytes 8 (unat v))"

section \<open>The bitwise reference\<close>

definition crc_byte :: "u32 \<Rightarrow> u32" where
  "crc_byte = crc_bit ^^ 8"

definition feed :: "u32 \<Rightarrow> byte \<Rightarrow> u32" where
  "feed c b = crc_byte (c XOR ucast b)"

definition crc32c_from :: "u32 \<Rightarrow> bytes \<Rightarrow> u32" where
  "crc32c_from crc bs = NOT (foldl feed (NOT crc) bs)"

text \<open>The checksum of a buffer, seeded with zero as the sources call it. Evaluation goes
  through the reference; the theorems below show that it is what the routine returns.\<close>

definition crc32c :: "bytes \<Rightarrow> u32" where
  "crc32c bs = crc32c_from 0 bs"

section \<open>Linearity of the bit step\<close>

lemma and_one_bit: "(c AND 1 \<noteq> 0) = bit (c :: u32) 0"
  by (simp add: bit_0 and_one_eq mod2_eq_if)

lemma crc_bit_xor: "crc_bit (a XOR b) = crc_bit a XOR crc_bit b"
  unfolding crc_bit_def and_one_bit bit_xor_iff
  by (auto simp: bit_eq_iff bit_xor_iff bit_drop_bit_eq)

lemma crc_bits_xor: "(crc_bit ^^ n) (a XOR b) = (crc_bit ^^ n) a XOR (crc_bit ^^ n) b"
  by (induction n arbitrary: a b) (auto simp: crc_bit_xor)

lemma crc_byte_xor: "crc_byte (a XOR b) = crc_byte a XOR crc_byte b"
  by (simp add: crc_byte_def crc_bits_xor)

lemma crc_bytes_xor: "(crc_byte ^^ n) (a XOR b) = (crc_byte ^^ n) a XOR (crc_byte ^^ n) b"
  by (induction n arbitrary: a b) (auto simp: crc_byte_xor)

lemma crc_bits_shift: "take_bit n c = 0 \<Longrightarrow> (crc_bit ^^ n) c = drop_bit n c"
proof (induction n arbitrary: c)
  case 0
  then show ?case by simp
next
  case (Suc n)
  have b: "\<not> bit c i" if "i < Suc n" for i
    using Suc.prems that by (metis bit_0_eq bit_take_bit_iff bot_apply bot_bool_def)
  have "crc_bit c = drop_bit 1 c"
    unfolding crc_bit_def and_one_bit using b [of 0] by simp
  moreover have "take_bit n (drop_bit 1 c) = 0"
    using b by (auto simp: bit_eq_iff bit_take_bit_iff bit_drop_bit_eq)
  ultimately show ?case
    using Suc.IH [of "drop_bit 1 c"] by (simp add: funpow_swap1 del: funpow.simps(2))
      (simp add: funpow_swap1 drop_bit_drop_bit)
qed

lemma crc_byte_split: "crc_byte c = crc_byte (c AND 0xFF) XOR drop_bit 8 c"
proof -
  have ff: "(0xFF :: u32) = mask 8" by (simp add: mask_eq_exp_minus_1)
  have "c = (c AND 0xFF) XOR (c AND NOT 0xFF)"
    unfolding ff by (auto simp: bit_eq_iff bit_xor_iff bit_and_iff bit_not_iff)
  moreover have "crc_byte (c AND NOT 0xFF) = drop_bit 8 c"
    unfolding crc_byte_def
    by (subst crc_bits_shift)
      (auto simp: ff bit_eq_iff bit_take_bit_iff bit_and_iff bit_not_iff bit_mask_iff bit_drop_bit_eq
        dest: bit_imp_le_length)
  ultimately show ?thesis
    by (metis crc_byte_xor)
qed

section \<open>The tables hold iterated byte steps\<close>

lemma length_table0 [simp]: "length table0 = 256"
  by (simp add: table0_def)

lemma unat_and_ff: "unat (w AND 0xFF :: 'a::len word) < 256"
proof -
  have "unat (w AND 0xFF) \<le> unat (0xFF :: 'a word)"
    by (rule word_and_le1 [THEN word_le_nat_alt [THEN iffD1]])
  also have "\<dots> \<le> 0xFF"
    by (simp add: unsigned_numeral take_bit_nat_less_eq_self)
  finally show ?thesis by simp
qed

lemma table0_lookup: "i < 256 \<Longrightarrow> table0 ! i = crc_byte (word_of_nat i)"
  by (simp add: table0_def crc_byte_def)

lemma table0_and_ff: "table0 ! unat (t AND 0xFF) = crc_byte (t AND 0xFF)"
  using unat_and_ff [of t] by (simp add: table0_lookup)

lemma next_row_step: "next_row row = map crc_byte row"
  unfolding next_row_def table0_and_ff by (simp add: crc_byte_split [symmetric])

lemma rows: "(next_row ^^ s) table0 = map (\<lambda>i. (crc_byte ^^ Suc s) (word_of_nat i)) [0..<256]"
proof (induction s)
  case 0
  show ?case by (simp add: table0_def crc_byte_def)
next
  case (Suc s)
  then show ?case by (simp add: next_row_step)
qed

lemma initTables_lookup:
  "s < 8 \<Longrightarrow> i < 256 \<Longrightarrow> initTables ! s ! i = (crc_byte ^^ Suc s) (word_of_nat i)"
  by (simp add: initTables_def rows)

lemma byte_step_feed: "byte_step initTables crc b = feed crc b"
proof -
  have "initTables ! 0 = table0" by (simp add: initTables_def)
  moreover have "drop_bit 8 (crc XOR ucast b) = drop_bit 8 crc"
    by (auto simp: bit_eq_iff bit_drop_bit_eq bit_xor_iff bit_unsigned_iff dest: bit_imp_le_length)
  ultimately show ?thesis
    unfolding byte_step_def feed_def
    by (simp add: table0_and_ff crc_byte_split [of "crc XOR ucast b"])
qed

section \<open>Eight bytes at once\<close>

lemma crc_byte_0 [simp]: "crc_byte 0 = 0"
  using crc_byte_xor [of 0 0] by simp

lemma crc_bytes_0 [simp]: "(crc_byte ^^ n) 0 = 0"
  by (induction n) simp_all

lemma crc_bytes_peel:
  "(crc_byte ^^ Suc n) x = (crc_byte ^^ Suc n) (x AND 0xFF) XOR (crc_byte ^^ n) (drop_bit 8 x)"
proof -
  have "(crc_byte ^^ Suc n) x = (crc_byte ^^ n) (crc_byte x)"
    by (simp add: funpow_swap1)
  also have "\<dots> = (crc_byte ^^ n) (crc_byte (x AND 0xFF)) XOR (crc_byte ^^ n) (drop_bit 8 x)"
    by (subst crc_byte_split) (rule crc_bytes_xor)
  finally show ?thesis by (simp add: funpow_swap1)
qed

lemma bit_le_val:
  "bit (le_val bs) n \<longleftrightarrow> n div 8 < length bs \<and> bit (bs ! (n div 8)) (n mod 8)"
proof (induction bs arbitrary: n)
  case Nil
  show ?case by simp
next
  case (Cons b bs)
  have lt: "unat b < 2 ^ 8" using unat_byte_less [of b] by simp
  have "le_val (b # bs) = push_bit 8 (le_val bs) + unat b"
    by (simp add: push_bit_eq_mult)
  also have "\<dots> = push_bit 8 (le_val bs) OR unat b"
    using lt by (intro disjunctive_add)
      (auto simp: bit_push_bit_iff bit_unsigned_iff dest: bit_imp_le_length)
  finally have "bit (le_val (b # bs)) n \<longleftrightarrow> 8 \<le> n \<and> bit (le_val bs) (n - 8) \<or> bit b n"
    by (simp add: bit_or_iff bit_push_bit_iff bit_unsigned_iff)
  moreover have "\<not> bit b n" if "8 \<le> n"
    using that by (auto dest: bit_imp_le_length)
  ultimately show ?case
    using Cons.IH [of "n - 8"]
    by (cases "8 \<le> n") (auto simp: div_if [of n 8] mod_if [of n 8] nth_Cons split: nat.splits)
qed

lemma idx_less [simp]: "idx k v < 256"
  by (simp add: idx_def unat_and_ff)

text \<open>Byte \<open>k\<close> of the eight, after the register has been folded into the low four.\<close>

lemma idx_word:
  assumes "length bs = 8" and "k < 8"
  shows "(word_of_nat (idx k (load64 bs XOR ucast crc)) :: u32) =
    (drop_bit (8 * k) crc AND 0xFF) XOR ucast (bs ! k)"
proof -
  have ff: "(0xFF :: u32) = mask 8" "(0xFF :: u64w) = mask 8"
    by (simp_all add: mask_eq_exp_minus_1)
  have div8: "(8 * k + n) div 8 = k" "(8 * k + n) mod 8 = n" if "n < 8" for n
    using that by simp_all
  have "bit (word_of_nat (idx k (load64 bs XOR ucast crc)) :: u32) n \<longleftrightarrow>
      bit ((drop_bit (8 * k) crc AND 0xFF) XOR ucast (bs ! k)) n" if "n < 32" for n
    using that assms div8 [of n] bit_imp_le_length [of "bs ! k" n] unfolding idx_def load64_def ff
    by (cases "n < 8") (auto simp: bit_of_nat_word_iff bit_unsigned_iff bit_and_iff bit_xor_iff bit_mask_iff
        bit_drop_bit_eq bit_le_val dest: bit_imp_le_length)
  then show ?thesis by (simp add: bit_eq_iff)
qed

lemma table_idx:
  assumes "length bs = 8" and "k < 8" and "s < 8"
  shows "initTables ! s ! idx k (load64 bs XOR ucast crc) =
    (crc_byte ^^ Suc s) (drop_bit (8 * k) crc AND 0xFF) XOR (crc_byte ^^ Suc s) (ucast (bs ! k))"
  using assms by (simp add: initTables_lookup idx_word crc_bytes_xor del: funpow.simps(2))

lemma crc_bytes8:
  "(crc_byte ^^ 8) c = (crc_byte ^^ 8) (c AND 0xFF) XOR (crc_byte ^^ 7) (drop_bit 8 c AND 0xFF) XOR
     (crc_byte ^^ 6) (drop_bit 16 c AND 0xFF) XOR (crc_byte ^^ 5) (drop_bit 24 c AND 0xFF)"
proof -
  have "drop_bit 32 c = 0"
    by (auto simp: bit_eq_iff bit_drop_bit_eq dest: bit_imp_le_length)
  then show ?thesis
    using crc_bytes_peel [of 7 c] crc_bytes_peel [of 6 "drop_bit 8 c"]
      crc_bytes_peel [of 5 "drop_bit 16 c"] crc_bytes_peel [of 4 "drop_bit 24 c"]
    by (simp add: drop_bit_drop_bit eval_nat_numeral xor.assoc del: funpow.simps(2))
qed

lemma foldl_feed8:
  "foldl feed c [b0, b1, b2, b3, b4, b5, b6, b7] =
     (crc_byte ^^ 8) c XOR (crc_byte ^^ 8) (ucast b0) XOR (crc_byte ^^ 7) (ucast b1) XOR
     (crc_byte ^^ 6) (ucast b2) XOR (crc_byte ^^ 5) (ucast b3) XOR (crc_byte ^^ 4) (ucast b4) XOR
     (crc_byte ^^ 3) (ucast b5) XOR (crc_byte ^^ 2) (ucast b6) XOR (crc_byte ^^ 1) (ucast b7)"
  by (simp add: feed_def crc_byte_xor eval_nat_numeral xor.assoc)

lemma slice8_feed:
  assumes "length bs = 8"
  shows "slice8 initTables c bs = foldl feed c bs"
proof -
  have dz: "drop_bit (8 * k) c = 0" if "4 \<le> k" for k
    using that by (auto simp: bit_eq_iff bit_drop_bit_eq dest: bit_imp_le_length)
  obtain b0 b1 b2 b3 b4 b5 b6 b7 where bs: "bs = [b0, b1, b2, b3, b4, b5, b6, b7]"
    using assms by (auto simp: length_Suc_conv eval_nat_numeral)
  have t: "initTables ! s ! idx k (load64 bs XOR ucast c) =
      (crc_byte ^^ Suc s) (drop_bit (8 * k) c AND 0xFF) XOR (crc_byte ^^ Suc s) (ucast (bs ! k))"
    if "k < 8" "s < 8" for k s
    using table_idx [OF assms that] .
  let ?v = "load64 bs XOR ucast c"
  have lo: "initTables ! 7 ! idx 0 ?v = (crc_byte ^^ 8) (c AND 0xFF) XOR (crc_byte ^^ 8) (ucast b0)"
    "initTables ! 6 ! idx 1 ?v = (crc_byte ^^ 7) (drop_bit 8 c AND 0xFF) XOR (crc_byte ^^ 7) (ucast b1)"
    "initTables ! 5 ! idx 2 ?v = (crc_byte ^^ 6) (drop_bit 16 c AND 0xFF) XOR (crc_byte ^^ 6) (ucast b2)"
    "initTables ! 4 ! idx 3 ?v = (crc_byte ^^ 5) (drop_bit 24 c AND 0xFF) XOR (crc_byte ^^ 5) (ucast b3)"
    using t [of 0 7] t [of 1 6] t [of 2 5] t [of 3 4] by (simp_all add: bs del: funpow.simps(2))
  have hi: "initTables ! 3 ! idx 4 ?v = (crc_byte ^^ 4) (ucast b4)"
    "initTables ! 2 ! idx 5 ?v = (crc_byte ^^ 3) (ucast b5)"
    using t [of 4 3] t [of 5 2] dz [of 4] dz [of 5] by (simp_all add: bs del: funpow.simps(2))
  have top: "initTables ! 1 ! idx 6 ?v = (crc_byte ^^ 2) (ucast b6)"
    "initTables ! 0 ! idx 7 ?v = (crc_byte ^^ 1) (ucast b7)"
    using t [of 6 1] t [of 7 0] dz [of 6] dz [of 7]
    by (simp_all add: bs numeral_2_eq_2 del: funpow.simps(2))
  show ?thesis
    unfolding slice8_def Let_def lo hi top unfolding bs foldl_feed8 crc_bytes8 [of c]
    by (simp only: xor.assoc xor.commute xor.left_commute)
qed

section \<open>Head, main loop and tail compose to the reference\<close>

lemma sw_head_feed:
  "sw_head initTables p c bs = (c', bs') \<Longrightarrow> foldl feed c bs = foldl feed c' bs'"
  by (induction initTables p c bs rule: sw_head.induct)
    (auto simp: byte_step_feed split: if_splits)

lemma sw_main_feed:
  "sw_main initTables c bs = (c', bs') \<Longrightarrow> foldl feed c bs = foldl feed c' bs'"
proof (induction initTables c bs rule: sw_main.induct)
  case (1 c b0 b1 b2 b3 b4 b5 b6 b7 rest)
  have "foldl feed c (b0 # b1 # b2 # b3 # b4 # b5 # b6 # b7 # rest) =
      foldl feed (foldl feed c [b0, b1, b2, b3, b4, b5, b6, b7]) rest"
    by simp
  also have "\<dots> = foldl feed (slice8 initTables c [b0, b1, b2, b3, b4, b5, b6, b7]) rest"
    by (subst slice8_feed) simp_all
  finally show ?case using 1 by simp
qed simp_all

lemma sw_tail_feed: "sw_tail initTables c bs = foldl feed c bs"
  by (simp add: sw_tail_def byte_step_feed cong: foldl_cong)

lemma swCrc_from: "swCrc p crc bs = crc32c_from crc bs"
  unfolding swCrc_def crc32c_from_def
  by (simp add: sw_tail_feed split: prod.splits) (metis sw_head_feed sw_main_feed)

lemma crc32c_from_append: "crc32c_from crc (xs @ ys) = crc32c_from (crc32c_from crc xs) ys"
  by (simp add: crc32c_from_def)

section \<open>The instruction set as an interface\<close>

text \<open>What the CRC instructions are documented to do: the byte form advances the register by
  one byte, the eight-byte form by the eight bytes of its operand in memory order.\<close>

locale crc_unit =
  fixes u8i :: "u32 \<Rightarrow> byte \<Rightarrow> u32" and u64i :: "u32 \<Rightarrow> u64w \<Rightarrow> u32"
  assumes u8i: "u8i c b = feed c b"
    and u64i: "length bs = 8 \<Longrightarrow> u64i c (load64 bs) = foldl feed c bs"
begin

lemma hw_head_feed: "hw_head u8i p c bs = (c', bs') \<Longrightarrow> foldl feed c bs = foldl feed c' bs'"
  by (induction bs arbitrary: p c) (auto simp: u8i split: if_splits)

lemma hw_main_feed: "hw_main u64i c bs = (c', bs') \<Longrightarrow> foldl feed c bs = foldl feed c' bs'"
proof (induction bs arbitrary: c rule: length_induct)
  case (1 bs)
  show ?case
  proof (cases "8 \<le> length bs")
    case True
    then obtain b0 b1 b2 b3 b4 b5 b6 b7 rest
      where bs: "bs = b0 # b1 # b2 # b3 # b4 # b5 # b6 # b7 # rest"
      by (auto simp: Suc_le_length_iff eval_nat_numeral)
    then show ?thesis
      using "1.IH" [rule_format, of rest "u64i c (load64 [b0, b1, b2, b3, b4, b5, b6, b7])"]
        "1.prems" u64i [of "[b0, b1, b2, b3, b4, b5, b6, b7]" c] by simp
  next
    case False
    then have "hw_main u64i c bs = (c, bs)"
      by (cases "(u64i, c, bs)" rule: hw_main.cases) auto
    with "1.prems" show ?thesis by simp
  qed
qed

lemma hwCrc_from: "hwCrc u8i u64i p crc bs = crc32c_from crc bs"
proof -
  have "u8i = feed" by (intro ext) (rule u8i)
  then show ?thesis
    unfolding hwCrc_def crc32c_from_def
    by (simp split: prod.splits) (metis hw_head_feed hw_main_feed)
qed

end

text \<open>The software's own byte step and slicing step satisfy the contract, so the two code
  paths are interchangeable.\<close>

lemma le_bytes_load64: "length bs = 8 \<Longrightarrow> le_bytes 8 (unat (load64 bs)) = bs"
  using le_val_bound [of bs] by (simp add: load64_def unat_of_nat)

interpretation sw_unit: crc_unit "byte_step initTables" sw_u64
  by unfold_locales (simp_all add: byte_step_feed sw_u64_def le_bytes_load64 slice8_feed)

section \<open>One changed byte changes the checksum\<close>

text \<open>The bit step is injective, so a difference in the register never vanishes.\<close>

lemma xor_eq_0D: "x XOR y = 0 \<Longrightarrow> x = (y :: u32)"
  by (metis xor.assoc xor.left_neutral xor.right_neutral xor_self_eq)

lemma crc_bit_inj:
  assumes "crc_bit c = 0"
  shows "c = 0"
proof (cases "bit c 0")
  case True
  then have "poly XOR drop_bit 1 c = 0" using assms unfolding crc_bit_def and_one_bit by simp
  then have "poly = drop_bit 1 c" by (rule xor_eq_0D)
  then have "bit (drop_bit 1 c) 31" by (simp add: poly_def flip: \<open>poly = drop_bit 1 c\<close>)
  then have "bit c 32" by (simp add: bit_drop_bit_eq)
  then show ?thesis by (auto dest: bit_imp_le_length)
next
  case False
  then have d: "drop_bit 1 c = 0" using assms unfolding crc_bit_def and_one_bit by simp
  have "\<not> bit c n" for n
  proof (cases n)
    case (Suc k)
    have "bit (drop_bit 1 c) k = bit c (Suc k)" by (simp add: bit_drop_bit_eq)
    with d Suc show ?thesis by simp
  qed (use False in simp)
  then show ?thesis by (simp add: bit_eq_iff)
qed

lemma crc_byte_inj: "crc_byte c = 0 \<Longrightarrow> c = 0"
proof -
  have "(crc_bit ^^ n) c = 0 \<Longrightarrow> c = 0" for n
    by (induction n) (auto dest: crc_bit_inj)
  then show "crc_byte c = 0 \<Longrightarrow> c = 0" by (simp add: crc_byte_def)
qed

lemma crc_byte_eqD: "crc_byte x = crc_byte y \<Longrightarrow> x = y"
  using crc_byte_inj [of "x XOR y"] xor_eq_0D [of x y] by (simp add: crc_byte_xor)

lemma xor_left_cancel: "z XOR x = z XOR y \<Longrightarrow> x = (y :: u32)"
  by (metis xor.assoc xor.left_neutral xor_self_eq)

lemma feed_inj: "feed a b = feed c b \<Longrightarrow> a = c"
  unfolding feed_def by (metis crc_byte_eqD xor_left_cancel xor.commute)

lemma feed_byte_inj: "feed a b = feed a b' \<Longrightarrow> b = b'"
proof -
  assume "feed a b = feed a b'"
  then have "(ucast b :: u32) = ucast b'"
    unfolding feed_def by (metis crc_byte_eqD xor_left_cancel)
  then have e: "bit (ucast b :: u32) n \<longleftrightarrow> bit (ucast b' :: u32) n" for n by simp
  have "bit b n \<longleftrightarrow> bit b' n" if "n < 8" for n
    using e [of n] that by (simp add: bit_unsigned_iff)
  then show ?thesis by (simp add: bit_eq_iff)
qed

lemma foldl_feed_inj: "foldl feed a bs = foldl feed c bs \<Longrightarrow> a = c"
  by (induction bs arbitrary: a c) (auto dest: feed_inj)

lemma crc32c_one_byte:
  assumes "p < length bs" and "b \<noteq> bs ! p"
  shows "crc32c (bs[p := b]) \<noteq> crc32c bs"
proof
  assume eq: "crc32c (bs[p := b]) = crc32c bs"
  let ?c = "foldl feed (NOT 0) (take p bs)"
  have "bs = take p bs @ bs ! p # drop (Suc p) bs" "bs[p := b] = take p bs @ b # drop (Suc p) bs"
    using assms(1) by (simp_all add: id_take_nth_drop upd_conv_take_nth_drop)
  then have "foldl feed (feed ?c b) (drop (Suc p) bs) = foldl feed (feed ?c (bs ! p)) (drop (Suc p) bs)"
    using eq unfolding crc32c_def crc32c_from_def by (metis bit.double_compl foldl_Cons foldl_append)
  then have "feed ?c b = feed ?c (bs ! p)" by (rule foldl_feed_inj)
  then show False using assms(2) feed_byte_inj by blast
qed

section \<open>A checksum field inside an image\<close>

text \<open>An image that carries, at offset \<open>c\<close>, the checksum of itself with that field zeroed. Changing
  one byte anywhere, the field included, breaks the match.\<close>

definition crc_field_ok :: "nat \<Rightarrow> bytes \<Rightarrow> bool" where
  "crc_field_ok c s \<longleftrightarrow> unat (crc32c (overwrite s c (replicate 4 0))) = get_le 4 s c"

lemma overwrite_restore: "slice off (length ys) xs = ys \<Longrightarrow> off + length zs \<le> length xs \<Longrightarrow>
  length zs = length ys \<Longrightarrow> overwrite (overwrite xs off zs) off ys = xs"
  by (simp add: overwrite_def slice_def) (metis append_take_drop_id drop_drop add.commute)

lemma overwrite_list_update:
  "off + length ys \<le> length xs \<Longrightarrow> p < length xs \<Longrightarrow> overwrite (xs[p := b]) off ys =
   (if off \<le> p \<and> p < off + length ys then overwrite xs off ys else (overwrite xs off ys)[p := b])"
  by (rule nth_equalityI) (auto simp: nth_overwrite nth_list_update)

lemma crc_field_flip:
  assumes ok: "crc_field_ok c s" and n: "c + 4 \<le> length s" and p: "p < length s" and b: "b \<noteq> s ! p"
  shows "\<not> crc_field_ok c (s[p := b])"
proof
  assume "crc_field_ok c (s[p := b])"
  then have c: "unat (crc32c (overwrite (s[p := b]) c (replicate 4 0))) = get_le 4 (s[p := b]) c"
    by (simp only: crc_field_ok_def)
  note ok = ok [unfolded crc_field_ok_def]
  let ?z = "overwrite s c (replicate 4 0)"
  show False
  proof (cases "c \<le> p \<and> p < c + 4")
    case True
    then have "get_le 4 (s[p := b]) c = get_le 4 s c"
      using c ok n p by (simp add: overwrite_list_update del: replicate.simps)
    then have "le_bytes 4 (le_val (slice c 4 (s[p := b]))) = le_bytes 4 (le_val (slice c 4 s))"
      by (simp add: get_le_def)
    then have "slice c 4 (s[p := b]) ! (p - c) = slice c 4 s ! (p - c)"
      using n by (subst (asm) (1 2) le_bytes_le_val) auto
    moreover have "p - c < 4" "c + (p - c) = p" using True by linarith+
    ultimately show False using n p b by (simp add: slice_nth)
  next
    case False
    then have "get_le 4 (s[p := b]) c = get_le 4 s c"
      unfolding get_le_def by (intro arg_cong [of _ _ le_val] slice_eqI) auto
    moreover have "overwrite (s[p := b]) c (replicate 4 0) = ?z[p := b]"
      using False n p by (auto simp add: overwrite_list_update simp del: replicate.simps)
    ultimately have "crc32c (?z[p := b]) = crc32c ?z"
      using c ok by (metis unsigned_word_eqI)
    moreover have "?z ! p = s ! p" "p < length ?z" using False n p by (auto simp: nth_overwrite)
    ultimately show False using crc32c_one_byte [of p ?z b] b by simp
  qed
qed

lemma crc_field_put:
  assumes "slice c 4 z = replicate 4 0" and "c + 4 \<le> length z"
  shows "crc_field_ok c (put_le 4 z c (unat (crc32c z)))" "overwrite (put_le 4 z c (unat (crc32c z))) c (replicate 4 0) = z"
proof -
  show z: "overwrite (put_le 4 z c (unat (crc32c z))) c (replicate 4 0) = z"
    using assms by (simp add: put_le_def overwrite_restore)
  show "crc_field_ok c (put_le 4 z c (unat (crc32c z)))"
    unfolding crc_field_ok_def z using assms(2) unat_u32_bound [of "crc32c z"] by (simp add: get_put_le_same)
qed

section \<open>Properties\<close>

text \<open>C31. The table-driven software routine, with its alignment head, eight-byte slicing loop and
  tail, computes the bitwise CRC-32C of the buffer for every start address \<open>p\<close> and every
  seed.\<close>

theorem swCrc_is_bitwise_crc: "swCrc p crc bs = crc32c_from crc bs"
  by (rule swCrc_from)

text \<open>The hardware routine returns what the software routine returns, whatever the two
  buffers' alignments, for any instructions that behave as documented (\<open>crc_unit\<close>).\<close>

theorem hwCrc_equals_swCrc:
  assumes "crc_unit u8i u64i"
  shows "hwCrc u8i u64i p crc bs = swCrc q crc bs"
  using crc_unit.hwCrc_from [OF assms] by (simp add: swCrc_from)

theorem hwCrc_equals_swCrc_witness:
  "crc_unit (byte_step initTables) sw_u64 \<and>
   hwCrc (byte_step initTables) sw_u64 3 0 [1, 2, 3] = swCrc 0 0 [1, 2, 3]"
  using hwCrc_equals_swCrc [OF sw_unit.crc_unit_axioms, of 3 0 "[1, 2, 3]" 0]
    sw_unit.crc_unit_axioms by simp

text \<open>Checksums chain: the checksum of a concatenation is the checksum of the second part
  seeded with that of the first, so a buffer may be summed in pieces at any addresses.\<close>

theorem swCrc_chains: "swCrc p crc (xs @ ys) = swCrc r (swCrc q crc xs) ys"
  by (simp add: swCrc_from crc32c_from_append)

end
