(* ===== verification/Page_Bitmap.thy ===== *)
theory Page_Bitmap
  imports Prelude
begin

text \<open>
  The presence bitmap of \<^verbatim>\<open>src/src/core/PageBitmap.h\<close>: one bit per page in a byte vector, with a
  running count. The component's contract is the locale \<open>page_set\<close>: the operations act on
  a finite set of page numbers below \<open>npages\<close>, and the count is that set's size. The
  interpretation at the end proves the contract for the byte-vector code.
  Reading a bit outside the vector is undefined behaviour in the source; every law is stated
  for pages below \<open>npages\<close>.
\<close>

unbundle bit_operations_syntax

section \<open>The class\<close>

record pageBitmap =
  pb_bits :: "byte list"
  pb_npages :: nat
  pb_count :: nat

definition bm_mask :: "nat \<Rightarrow> byte" where
  "bm_mask i = push_bit (i mod 8) 1"

definition bm_reset :: "nat \<Rightarrow> pageBitmap" where
  "bm_reset np = \<lparr>pb_bits = replicate (u64 (np + 7) div 8) 0, pb_npages = np, pb_count = 0\<rparr>"

definition bm_get :: "pageBitmap \<Rightarrow> nat \<Rightarrow> bool" where
  "bm_get b i \<longleftrightarrow> pb_bits b ! (i div 8) AND bm_mask i \<noteq> 0"

definition bm_set :: "pageBitmap \<Rightarrow> nat \<Rightarrow> pageBitmap" where
  "bm_set b i =
     (if pb_bits b ! (i div 8) AND bm_mask i = 0
      then b\<lparr>pb_bits := (pb_bits b)[i div 8 := pb_bits b ! (i div 8) OR bm_mask i],
             pb_count := pb_count b + 1\<rparr>
      else b)"

definition bm_clear :: "pageBitmap \<Rightarrow> nat \<Rightarrow> pageBitmap" where
  "bm_clear b i =
     (if pb_bits b ! (i div 8) AND bm_mask i \<noteq> 0
      then b\<lparr>pb_bits := (pb_bits b)[i div 8 := pb_bits b ! (i div 8) AND NOT (bm_mask i)],
             pb_count := pb_count b - 1\<rparr>
      else b)"

definition bm_clearAll :: "pageBitmap \<Rightarrow> pageBitmap" where
  "bm_clearAll b = b\<lparr>pb_bits := replicate (length (pb_bits b)) 0, pb_count := 0\<rparr>"

text \<open>\<^verbatim>\<open>rangeSet\<close> walks the inclusive range and stops at the first absent page.\<close>

function bm_rangeSet :: "pageBitmap \<Rightarrow> nat \<Rightarrow> nat \<Rightarrow> bool" where
  "bm_rangeSet b i l =
     (if i \<le> l then (if \<not> bm_get b i then False else bm_rangeSet b (Suc i) l) else True)"
  by pat_completeness auto
termination
  by (relation "measure (\<lambda>(b, i, l). Suc l - i)") auto

declare bm_rangeSet.simps [simp del]

text \<open>\<^verbatim>\<open>recount\<close> after the raw bytes were loaded from a sidecar.\<close>

definition bm_recount :: "pageBitmap \<Rightarrow> pageBitmap" where
  "bm_recount b = b\<lparr>pb_count := length (filter (bm_get b) [0..<pb_npages b])\<rparr>"

definition bm_load_raw :: "pageBitmap \<Rightarrow> bytes \<Rightarrow> pageBitmap" where
  "bm_load_raw b raw = b\<lparr>pb_bits := raw\<rparr>"

section \<open>Abstraction and invariant\<close>

definition bm_pages :: "pageBitmap \<Rightarrow> nat set" where
  "bm_pages b = {i. i < pb_npages b \<and> bm_get b i}"

text \<open>The vector covers every page, and the running count is the number of present pages.\<close>

definition bm_ok :: "pageBitmap \<Rightarrow> bool" where
  "bm_ok b \<longleftrightarrow> pb_npages b + 7 < 2 ^ 64 \<and> length (pb_bits b) = (pb_npages b + 7) div 8 \<and>
     pb_count b = card (bm_pages b)"

text \<open>A run of \<^verbatim>\<open>set(i)\<close> (\<open>True\<close>) and \<^verbatim>\<open>clear(i)\<close> (\<open>False\<close>) calls.\<close>

fun bm_run :: "pageBitmap \<Rightarrow> (bool \<times> nat) list \<Rightarrow> pageBitmap" where
  "bm_run b [] = b"
| "bm_run b ((True, i) # ops) = bm_run (bm_set b i) ops"
| "bm_run b ((False, i) # ops) = bm_run (bm_clear b i) ops"

section \<open>Bits\<close>

lemma bm_get_bit: "bm_get b i = bit (pb_bits b ! (i div 8)) (i mod 8)"
  by (simp add: bm_get_def bm_mask_def push_bit_of_1 and_exp_eq_0_iff_not_bit)

lemma bit_bm_mask: "bit (bm_mask i) n \<longleftrightarrow> n = i mod 8"
  by (auto simp: bm_mask_def bit_exp_iff)

lemma finite_bm_pages [simp]: "finite (bm_pages b)"
  by (simp add: bm_pages_def)

lemma bm_pages_bound: "bm_pages b \<subseteq> {..<pb_npages b}"
  by (auto simp: bm_pages_def)

lemma byte_index [page_arith]: "i < n \<Longrightarrow> i div 8 < (n + 7) div (8::nat)"
  by linarith

lemma div_mod_8_eq: "i div 8 = j div 8 \<Longrightarrow> i mod 8 = j mod 8 \<Longrightarrow> i = (j::nat)"
  by (metis div_mult_mod_eq)

lemma bm_set_alt:
  "bm_set b i = (if bm_get b i then b else b\<lparr>pb_bits := (pb_bits b)[i div 8 :=
     pb_bits b ! (i div 8) OR bm_mask i], pb_count := pb_count b + 1\<rparr>)"
  by (simp add: bm_set_def bm_get_def)

lemma bm_clear_alt:
  "bm_clear b i = (if bm_get b i then b\<lparr>pb_bits := (pb_bits b)[i div 8 :=
     pb_bits b ! (i div 8) AND NOT (bm_mask i)], pb_count := pb_count b - 1\<rparr> else b)"
  by (simp add: bm_clear_def bm_get_def)

text \<open>Two distinct pages differ in their byte or in their bit.\<close>

lemma page_cases:
  fixes i j :: nat
  obtains "j = i" | "j div 8 \<noteq> i div 8" | "j div 8 = i div 8" "j mod 8 \<noteq> i mod 8"
  using div_mod_8_eq [of j i] by blast

lemma bm_get_set:
  assumes "i div 8 < length (pb_bits b)"
  shows "bm_get (bm_set b i) j \<longleftrightarrow> j = i \<or> bm_get b j"
proof (cases rule: page_cases [of j i])
  case 1
  with assms show ?thesis by (simp add: bm_set_alt bm_get_bit bit_or_iff bit_bm_mask)
next
  case 2
  then show ?thesis by (auto simp: bm_set_alt bm_get_bit)
next
  case 3
  then have "j \<noteq> i" by auto
  with 3 assms show ?thesis by (simp add: bm_set_alt bm_get_bit bit_or_iff bit_bm_mask)
qed

lemma bm_get_clear:
  assumes "i div 8 < length (pb_bits b)"
  shows "bm_get (bm_clear b i) j \<longleftrightarrow> j \<noteq> i \<and> bm_get b j"
proof (cases rule: page_cases [of j i])
  case 1
  with assms show ?thesis
    by (simp add: bm_clear_alt bm_get_bit bit_and_iff bit_not_iff bit_bm_mask)
next
  case 2
  then show ?thesis by (auto simp: bm_clear_alt bm_get_bit)
next
  case 3
  then have "j \<noteq> i" by auto
  with 3 assms show ?thesis
    by (simp add: bm_clear_alt bm_get_bit bit_and_iff bit_not_iff bit_bm_mask)
qed

lemma npages_bm_set [simp]: "pb_npages (bm_set b i) = pb_npages b"
  and npages_bm_clear [simp]: "pb_npages (bm_clear b i) = pb_npages b"
  and npages_bm_clearAll [simp]: "pb_npages (bm_clearAll b) = pb_npages b"
  and npages_bm_reset [simp]: "pb_npages (bm_reset n) = n"
  and length_bm_set [simp]: "length (pb_bits (bm_set b i)) = length (pb_bits b)"
  and length_bm_clear [simp]: "length (pb_bits (bm_clear b i)) = length (pb_bits b)"
  by (simp_all add: bm_set_def bm_clear_def bm_clearAll_def bm_reset_def)

lemma bm_ok_index: "bm_ok b \<Longrightarrow> i < pb_npages b \<Longrightarrow> i div 8 < length (pb_bits b)"
  by (simp add: bm_ok_def byte_index)

lemma bm_pages_set: "bm_ok b \<Longrightarrow> i < pb_npages b \<Longrightarrow> bm_pages (bm_set b i) = insert i (bm_pages b)"
  using bm_get_set [of i b, OF bm_ok_index] by (auto simp: bm_pages_def)

lemma bm_pages_clear: "bm_ok b \<Longrightarrow> i < pb_npages b \<Longrightarrow> bm_pages (bm_clear b i) = bm_pages b - {i}"
  using bm_get_clear [of i b, OF bm_ok_index] by (auto simp: bm_pages_def)

lemma bm_ok_set:
  assumes "bm_ok b" and "i < pb_npages b"
  shows "bm_ok (bm_set b i)"
proof -
  have "pb_count (bm_set b i) = card (insert i (bm_pages b))"
  proof (cases "bm_get b i")
    case True
    then show ?thesis
      using assms by (simp add: bm_set_alt bm_ok_def insert_absorb bm_pages_def)
  next
    case False
    then have "i \<notin> bm_pages b" by (simp add: bm_pages_def)
    with False show ?thesis
      using assms by (simp add: bm_set_alt bm_ok_def)
  qed
  with assms show ?thesis by (simp add: bm_ok_def bm_pages_set)
qed

lemma bm_ok_clear:
  assumes "bm_ok b" and "i < pb_npages b"
  shows "bm_ok (bm_clear b i)"
proof -
  have "pb_count (bm_clear b i) = card (bm_pages b - {i})"
  proof (cases "bm_get b i")
    case True
    then have "i \<in> bm_pages b" using assms by (simp add: bm_pages_def)
    with True show ?thesis
      using assms by (simp add: bm_clear_alt bm_ok_def card_Diff_singleton)
  next
    case False
    then show ?thesis
      using assms by (simp add: bm_clear_alt bm_ok_def bm_pages_def)
  qed
  with assms show ?thesis by (simp add: bm_ok_def bm_pages_clear)
qed

lemma bm_reset_ok: "n + 7 < 2 ^ 64 \<Longrightarrow> bm_ok (bm_reset n) \<and> bm_pages (bm_reset n) = {}"
  by (auto simp: bm_ok_def bm_reset_def bm_pages_def bm_get_bit byte_index)

lemma bm_clearAll_ok: "bm_ok b \<Longrightarrow> bm_ok (bm_clearAll b) \<and> bm_pages (bm_clearAll b) = {}"
  by (auto simp: bm_ok_def bm_clearAll_def bm_pages_def bm_get_bit byte_index)

lemma bm_count: "bm_ok b \<Longrightarrow> pb_count b = card (bm_pages b)"
  by (simp add: bm_ok_def)

lemma count_pages: "length (filter (bm_get b) [0..<pb_npages b]) = card (bm_pages b)"
  unfolding length_filter_conv_card by (rule arg_cong [of _ _ card]) (auto simp: bm_pages_def)

lemma bm_recount_ok:
  "pb_npages b + 7 < 2 ^ 64 \<Longrightarrow> length (pb_bits b) = (pb_npages b + 7) div 8 \<Longrightarrow>
   bm_ok (bm_recount b) \<and> bm_pages (bm_recount b) = bm_pages b"
  using count_pages [of b] by (auto simp: bm_ok_def bm_recount_def bm_pages_def bm_get_def)

lemma bm_rangeSet_iff: "bm_rangeSet b i l \<longleftrightarrow> (\<forall>j. i \<le> j \<and> j \<le> l \<longrightarrow> bm_get b j)"
proof (induction b i l rule: bm_rangeSet.induct)
  case (1 b i l)
  then show ?case
    by (subst bm_rangeSet.simps) (metis le_antisym not_less_eq_eq nat_le_linear le_trans)
qed

section \<open>The contract\<close>

text \<open>What the sidecar and the cache entry rely on: a bounded set of page numbers with constant
  time count. The consequences proved here are the ones those clients use.\<close>

locale page_set =
  fixes reset :: "nat \<Rightarrow> 's" and get :: "'s \<Rightarrow> nat \<Rightarrow> bool"
    and put :: "'s \<Rightarrow> nat \<Rightarrow> 's" and del :: "'s \<Rightarrow> nat \<Rightarrow> 's" and wipe :: "'s \<Rightarrow> 's"
    and total :: "'s \<Rightarrow> nat" and bound :: "'s \<Rightarrow> nat"
    and pages :: "'s \<Rightarrow> nat set" and ok :: "'s \<Rightarrow> bool"
  assumes bound_put: "bound (put s i) = bound s"
    and bound_del: "bound (del s i) = bound s"
    and bound_wipe: "bound (wipe s) = bound s"
    and pages_bound: "pages s \<subseteq> {..<bound s}"
    and get_pages: "i < bound s \<Longrightarrow> get s i \<longleftrightarrow> i \<in> pages s"
    and reset_ok: "n + 7 < 2 ^ 64 \<Longrightarrow> ok (reset n) \<and> pages (reset n) = {} \<and> bound (reset n) = n"
    and put_ok: "ok s \<Longrightarrow> i < bound s \<Longrightarrow> ok (put s i) \<and> pages (put s i) = insert i (pages s)"
    and del_ok: "ok s \<Longrightarrow> i < bound s \<Longrightarrow> ok (del s i) \<and> pages (del s i) = pages s - {i}"
    and wipe_ok: "ok s \<Longrightarrow> ok (wipe s) \<and> pages (wipe s) = {}"
    and total_card: "ok s \<Longrightarrow> total s = card (pages s)"
begin

lemma finite_pages: "finite (pages s)"
  by (rule finite_subset [OF pages_bound]) simp

text \<open>The \<^verbatim>\<open>complete\<close> test of the cache entry: the count reaches the number of pages exactly
  when every page is present.\<close>

lemma full_iff: "ok s \<Longrightarrow> total s = bound s \<longleftrightarrow> pages s = {..<bound s}"
  using pages_bound [of s] by (simp add: total_card) (metis card_lessThan card_subset_eq finite_lessThan)

lemma total_le: "ok s \<Longrightarrow> total s \<le> bound s"
  using pages_bound [of s] card_mono [of "{..<bound s}" "pages s"] by (simp add: total_card)

text \<open>A batch of published pages.\<close>

lemma fold_put:
  "ok s \<Longrightarrow> set is \<subseteq> {..<bound s} \<Longrightarrow>
   ok (fold (\<lambda>i s. put s i) is s) \<and> bound (fold (\<lambda>i s. put s i) is s) = bound s \<and>
   pages (fold (\<lambda>i s. put s i) is s) = pages s \<union> set is"
proof (induction "is" arbitrary: s)
  case (Cons i "is")
  then show ?case using put_ok [of s i] by (simp add: bound_put)
qed simp

lemma fold_del:
  "ok s \<Longrightarrow> set is \<subseteq> {..<bound s} \<Longrightarrow>
   ok (fold (\<lambda>i s. del s i) is s) \<and> bound (fold (\<lambda>i s. del s i) is s) = bound s \<and>
   pages (fold (\<lambda>i s. del s i) is s) = pages s - set is"
proof (induction "is" arbitrary: s)
  case (Cons i "is")
  then show ?case using del_ok [of s i] by (auto simp: bound_del)
qed simp

end

interpretation bm: page_set bm_reset bm_get bm_set bm_clear bm_clearAll pb_count pb_npages bm_pages bm_ok
proof unfold_locales
  show "\<And>s. bm_pages s \<subseteq> {..<pb_npages s}" by (rule bm_pages_bound)
  show "\<And>i s. i < pb_npages s \<Longrightarrow> bm_get s i = (i \<in> bm_pages s)" by (simp add: bm_pages_def)
  show "\<And>n. n + 7 < 2 ^ 64 \<Longrightarrow>
      bm_ok (bm_reset n) \<and> bm_pages (bm_reset n) = {} \<and> pb_npages (bm_reset n) = n"
    using bm_reset_ok by simp
qed (simp_all add: bm_ok_set bm_pages_set bm_ok_clear bm_pages_clear bm_clearAll_ok bm_count)

lemma bm_rangeSet_pages:
  "l < pb_npages b \<Longrightarrow> bm_rangeSet b i l \<longleftrightarrow> {i..l} \<subseteq> bm_pages b"
  by (auto simp: bm_rangeSet_iff bm.get_pages subset_iff)

section \<open>Properties\<close>

text \<open>Every run of \<^verbatim>\<open>set\<close> and \<^verbatim>\<open>clear\<close> calls on pages below \<open>npages\<close>, from a fresh bitmap, keeps
  the running count equal to the number of present pages, and the bitmap holds exactly the pages
  whose last call was \<^verbatim>\<open>set\<close>.\<close>

theorem bm_run_counts:
  assumes "n + 7 < 2 ^ 64" and "snd ` set ops \<subseteq> {..<n}"
  shows "pb_count (bm_run (bm_reset n) ops) = card (bm_pages (bm_run (bm_reset n) ops)) \<and>
    bm_pages (bm_run (bm_reset n) ops) =
      {i. map_of (map prod.swap (rev ops)) i = Some True}"
proof -
  have "bm_ok (bm_run (bm_reset n) ops) \<and> pb_npages (bm_run (bm_reset n) ops) = n \<and>
    bm_pages (bm_run (bm_reset n) ops) = {i. map_of (map prod.swap (rev ops)) i = Some True}"
    using assms(2)
  proof (induction ops rule: rev_induct)
    case Nil
    then show ?case using bm_reset_ok [OF assms(1)] by simp
  next
    case (snoc op ops)
    obtain v i where op: "op = (v, i)" by (cases op)
    have "bm_run b (ops @ [(v, i)]) = (if v then bm_set else bm_clear) (bm_run b ops) i" for b
      by (induction b ops rule: bm_run.induct) auto
    with snoc op show ?case by (auto simp: bm_ok_set bm_ok_clear bm_pages_set bm_pages_clear)
  qed
  then show ?thesis by (simp add: bm_count)
qed

theorem bm_run_counts_witness:
  "pb_count (bm_run (bm_reset 10) [(True, 3), (True, 9), (False, 3), (True, 9)]) =
     card (bm_pages (bm_run (bm_reset 10) [(True, 3), (True, 9), (False, 3), (True, 9)]))"
  using bm_run_counts [of 10 "[(True, 3), (True, 9), (False, 3), (True, 9)]"] by simp

text \<open>\<^verbatim>\<open>rangeSet\<close> answers whether the whole inclusive range is present, and the count
  reaches \<open>npages\<close> exactly when every page is present: the test behind the sidecar's
  complete flag.\<close>

theorem bm_rangeSet_and_full:
  assumes "bm_ok b" and "l < pb_npages b"
  shows "(bm_rangeSet b i l \<longleftrightarrow> {i..l} \<subseteq> bm_pages b) \<and>
    (pb_count b = pb_npages b \<longleftrightarrow> bm_rangeSet b 0 (pb_npages b - 1))"
proof -
  have "{0..pb_npages b - 1} = {..<pb_npages b}" using assms(2) by auto
  then show ?thesis
    using assms bm_pages_bound [of b] by (auto simp: bm_rangeSet_pages bm.full_iff)
qed

theorem bm_rangeSet_and_full_witness:
  "bm_ok (bm_reset 4) \<and> \<not> bm_rangeSet (bm_reset 4) 1 2"
proof -
  have ok: "bm_ok (bm_reset 4)" and e: "bm_pages (bm_reset 4) = {}"
    using bm_reset_ok [of 4] by simp_all
  show ?thesis
    using bm_rangeSet_and_full [OF ok, of 2 1] ok e by simp
qed

end
