(* ===== verification/IO_Backend.thy ===== *)
theory IO_Backend
  imports Prelude "HOL-Library.AList"
begin

text \<open>
  The file-system interface of \<^verbatim>\<open>src/src/core/IOBackend.h\<close>. \<^verbatim>\<open>RealIO\<close> passes every call to
  POSIX, so the model holds what POSIX keeps for the calls the core makes (names, inodes,
  open descriptors), together with the environment's choice of outcome for each call to
  come: success, an error number, or a transfer that stops early. A schedule of such
  choices is what \<^verbatim>\<open>FaultIO\<close> injects in the tests; theorems quantify over every schedule.
  The retry loops \<^verbatim>\<open>pwriteFull\<close> and \<^verbatim>\<open>preadFull\<close> are translated with their error cases.
  Results are the sources' integers: non-negative on success, \<^verbatim>\<open>-errno\<close> on failure.
  The mode and close-on-exec flags of \<^verbatim>\<open>open\<close> have no effect on what is modelled.
\<close>

section \<open>State\<close>

datatype outcome = Done | Err nat | Partial nat

record io =
  io_names :: "(string \<times> nat) list"
  io_inodes :: "(nat \<times> bytes) list"
  io_fds :: "(nat \<times> nat) list"
  io_next :: nat
  io_sched :: "outcome list"

definition EINTR :: int where "EINTR = 4"
definition EIO :: int where "EIO = 5"
definition ENOENT :: int where "ENOENT = 2"
definition EBADF :: int where "EBADF = 9"
definition EEXIST :: int where "EEXIST = 17"
definition ENOSYS :: int where "ENOSYS = 38"
definition EOPNOTSUPP :: int where "EOPNOTSUPP = 95"

lemmas errno_defs = EINTR_def EIO_def ENOENT_def EBADF_def EEXIST_def ENOSYS_def EOPNOTSUPP_def

definition errval :: "nat \<Rightarrow> int" where
  "errval e = - int (if e = 0 then 5 else e)"

definition next_outcome :: "io \<Rightarrow> outcome \<times> io" where
  "next_outcome io =
     (case io_sched io of [] \<Rightarrow> (Done, io) | x # xs \<Rightarrow> (x, io\<lparr>io_sched := xs\<rparr>))"

definition content :: "io \<Rightarrow> nat \<Rightarrow> bytes" where
  "content io i = (case map_of (io_inodes io) i of None \<Rightarrow> [] | Some bs \<Rightarrow> bs)"

definition set_content :: "io \<Rightarrow> nat \<Rightarrow> bytes \<Rightarrow> io" where
  "set_content io i bs = io\<lparr>io_inodes := AList.update i bs (io_inodes io)\<rparr>"

definition nlink :: "io \<Rightarrow> nat \<Rightarrow> nat" where
  "nlink io i = length (filter (\<lambda>e. snd e = i) (io_names io))"

text \<open>A write past the end of a file leaves a hole of zeros before it.\<close>

definition pwrite_bytes :: "bytes \<Rightarrow> nat \<Rightarrow> bytes \<Rightarrow> bytes" where
  "pwrite_bytes bs off xs =
     (if xs = [] then bs else take off (bs @ replicate (off - length bs) 0) @ xs @ drop (off + length xs) bs)"

section \<open>Calls\<close>

definition io_open :: "io \<Rightarrow> string \<Rightarrow> bool \<Rightarrow> bool \<Rightarrow> int \<times> io" where
  "io_open io path creat trunc =
     (case next_outcome io of
        (Err e, io1) \<Rightarrow> (errval e, io1)
      | (_, io1) \<Rightarrow>
          (case map_of (io_names io1) path of
             Some i \<Rightarrow>
               (let fd = io_next io1;
                    io2 = (if trunc then set_content io1 i [] else io1)
                in (int fd, io2\<lparr>io_fds := AList.update fd i (io_fds io2), io_next := fd + 1\<rparr>))
           | None \<Rightarrow>
               if creat
               then (let n = io_next io1
                     in (int n, (set_content io1 n [])\<lparr>io_names := AList.update path n (io_names io1),
                          io_fds := AList.update n n (io_fds io1), io_next := n + 1\<rparr>))
               else (- ENOENT, io1)))"

definition io_close :: "io \<Rightarrow> nat \<Rightarrow> int \<times> io" where
  "io_close io fd =
     (case next_outcome io of
        (Err e, io1) \<Rightarrow> (errval e, io1)
      | (_, io1) \<Rightarrow>
          if map_of (io_fds io1) fd = None then (- EBADF, io1)
          else (0, io1\<lparr>io_fds := AList.delete fd (io_fds io1)\<rparr>))"

definition io_pread :: "io \<Rightarrow> nat \<Rightarrow> nat \<Rightarrow> nat \<Rightarrow> int \<times> bytes \<times> io" where
  "io_pread io fd cnt off =
     (case next_outcome io of
        (Err e, io1) \<Rightarrow> (errval e, [], io1)
      | (oc, io1) \<Rightarrow>
          (case map_of (io_fds io1) fd of
             None \<Rightarrow> (- EBADF, [], io1)
           | Some i \<Rightarrow>
               (let n = (case oc of Partial k \<Rightarrow> min k cnt | _ \<Rightarrow> cnt);
                    xs = slice off n (content io1 i)
                in (int (length xs), xs, io1))))"

definition io_pwrite :: "io \<Rightarrow> nat \<Rightarrow> bytes \<Rightarrow> nat \<Rightarrow> int \<times> io" where
  "io_pwrite io fd xs off =
     (case next_outcome io of
        (Err e, io1) \<Rightarrow> (errval e, io1)
      | (oc, io1) \<Rightarrow>
          (case map_of (io_fds io1) fd of
             None \<Rightarrow> (- EBADF, io1)
           | Some i \<Rightarrow>
               (let ys = (case oc of Partial k \<Rightarrow> take k xs | _ \<Rightarrow> xs)
                in (int (length ys), set_content io1 i (pwrite_bytes (content io1 i) off ys)))))"

definition io_fdatasync :: "io \<Rightarrow> nat \<Rightarrow> int \<times> io" where
  "io_fdatasync io fd =
     (case next_outcome io of
        (Err e, io1) \<Rightarrow> (errval e, io1)
      | (_, io1) \<Rightarrow> (if map_of (io_fds io1) fd = None then - EBADF else 0, io1))"

definition io_ftruncate :: "io \<Rightarrow> nat \<Rightarrow> nat \<Rightarrow> int \<times> io" where
  "io_ftruncate io fd len =
     (case next_outcome io of
        (Err e, io1) \<Rightarrow> (errval e, io1)
      | (_, io1) \<Rightarrow>
          (case map_of (io_fds io1) fd of
             None \<Rightarrow> (- EBADF, io1)
           | Some i \<Rightarrow>
               (0, set_content io1 i
                     (take len (content io1 i @ replicate (len - length (content io1 i)) 0)))))"

text \<open>\<^verbatim>\<open>fstat\<close> is called for the link count, \<^verbatim>\<open>stat\<close> for existence and size.\<close>

definition io_fstat_nlink :: "io \<Rightarrow> nat \<Rightarrow> (int + nat) \<times> io" where
  "io_fstat_nlink io fd =
     (case next_outcome io of
        (Err e, io1) \<Rightarrow> (Inl (errval e), io1)
      | (_, io1) \<Rightarrow>
          (case map_of (io_fds io1) fd of
             None \<Rightarrow> (Inl (- EBADF), io1)
           | Some i \<Rightarrow> (Inr (nlink io1 i), io1)))"

definition io_stat :: "io \<Rightarrow> string \<Rightarrow> (int + nat) \<times> io" where
  "io_stat io path =
     (case next_outcome io of
        (Err e, io1) \<Rightarrow> (Inl (errval e), io1)
      | (_, io1) \<Rightarrow>
          (case map_of (io_names io1) path of
             None \<Rightarrow> (Inl (- ENOENT), io1)
           | Some i \<Rightarrow> (Inr (length (content io1 i)), io1)))"

definition io_unlink :: "io \<Rightarrow> string \<Rightarrow> int \<times> io" where
  "io_unlink io path =
     (case next_outcome io of
        (Err e, io1) \<Rightarrow> (errval e, io1)
      | (_, io1) \<Rightarrow>
          if map_of (io_names io1) path = None then (- ENOENT, io1)
          else (0, io1\<lparr>io_names := AList.delete path (io_names io1)\<rparr>))"

definition io_rename :: "io \<Rightarrow> string \<Rightarrow> string \<Rightarrow> int \<times> io" where
  "io_rename io from to =
     (case next_outcome io of
        (Err e, io1) \<Rightarrow> (errval e, io1)
      | (_, io1) \<Rightarrow>
          (case map_of (io_names io1) from of
             None \<Rightarrow> (- ENOENT, io1)
           | Some i \<Rightarrow>
               (0, if from = to then io1
                   else io1\<lparr>io_names := AList.update to i (AList.delete from (io_names io1))\<rparr>)))"

definition io_link :: "io \<Rightarrow> string \<Rightarrow> string \<Rightarrow> int \<times> io" where
  "io_link io from to =
     (case next_outcome io of
        (Err e, io1) \<Rightarrow> (errval e, io1)
      | (_, io1) \<Rightarrow>
          (case (map_of (io_names io1) from, map_of (io_names io1) to) of
             (None, _) \<Rightarrow> (- ENOENT, io1)
           | (Some i, Some _) \<Rightarrow> (- EEXIST, io1)
           | (Some i, None) \<Rightarrow> (0, io1\<lparr>io_names := AList.update to i (io_names io1)\<rparr>)))"

text \<open>Calls whose only effect here is their outcome: directories and advisory locks. The
  critical sections the locks protect are the atomic steps of the component models.\<close>

definition io_call :: "io \<Rightarrow> int \<times> io" where
  "io_call io = (case next_outcome io of (Err e, io1) \<Rightarrow> (errval e, io1) | (_, io1) \<Rightarrow> (0, io1))"

definition io_punchHole :: "io \<Rightarrow> nat \<Rightarrow> nat \<Rightarrow> nat \<Rightarrow> int \<times> io" where
  "io_punchHole io fd off len =
     (if len = 0 then (0, io)
      else case next_outcome io of
        (Err e, io1) \<Rightarrow> (errval e, io1)
      | (_, io1) \<Rightarrow>
          (case map_of (io_fds io1) fd of
             None \<Rightarrow> (- EBADF, io1)
           | Some i \<Rightarrow>
               (let bs = content io1 i;
                    n = min len (length bs - off)
                in (0, set_content io1 i (overwrite bs (min off (length bs)) (replicate n 0))))))"

section \<open>The retry loops\<close>

lemma next_outcome_sched: "next_outcome io = (oc, io1) \<Longrightarrow> io_sched io1 = tl (io_sched io)"
  by (auto simp: next_outcome_def split: list.splits)

lemma io_pread_eintr:
  "io_pread io fd cnt off = (- EINTR, xs, io1) \<Longrightarrow> length (io_sched io1) < length (io_sched io)"
  by (cases "io_sched io")
    (auto simp: io_pread_def next_outcome_def errno_defs Let_def split: outcome.splits option.splits)

lemma io_pread_result:
  "io_pread io fd cnt off = (n, xs, io1) \<Longrightarrow> 0 \<le> n \<Longrightarrow>
   length (io_sched io1) \<le> length (io_sched io) \<and> n = int (length xs)"
  by (cases "io_sched io")
    (auto simp: io_pread_def next_outcome_def errval_def errno_defs Let_def simp del: length_slice
      split: outcome.splits option.splits)

lemma io_pread_pos:
  "io_pread io fd cnt off = (n, xs, io1) \<Longrightarrow> 0 < n \<Longrightarrow>
   length (io_sched io1) \<le> length (io_sched io) \<and> (\<exists>k. length xs = Suc k)"
  using io_pread_result [of io fd cnt off n xs io1] by (cases xs) auto

lemma io_pwrite_eintr:
  "io_pwrite io fd xs off = (- EINTR, io1) \<Longrightarrow> length (io_sched io1) < length (io_sched io)"
  by (cases "io_sched io")
    (auto simp: io_pwrite_def next_outcome_def errno_defs Let_def set_content_def
      split: outcome.splits option.splits)

lemma io_pwrite_pos:
  "io_pwrite io fd xs off = (n, io1) \<Longrightarrow> 0 < n \<Longrightarrow>
   length (io_sched io1) \<le> length (io_sched io) \<and> nat n \<le> length xs"
  by (cases "io_sched io")
    (auto simp: io_pwrite_def next_outcome_def errval_def errno_defs Let_def set_content_def
      split: outcome.splits option.splits)

function preadFull :: "io \<Rightarrow> nat \<Rightarrow> nat \<Rightarrow> nat \<Rightarrow> bytes \<Rightarrow> int \<times> bytes \<times> io" where
  "preadFull io fd cnt off acc =
     (if length acc < cnt
      then (case io_pread io fd (cnt - length acc) (off + length acc) of
              (n, xs, io1) \<Rightarrow>
                if n < 0
                then (if n = - EINTR then preadFull io1 fd cnt off acc else (n, acc, io1))
                else if n = 0 then (int (length acc), acc, io1)
                else preadFull io1 fd cnt off (acc @ xs))
      else (int (length acc), acc, io))"
  by pat_completeness auto
termination
  by (relation "measure (\<lambda>(io, fd, cnt, off, acc). length (io_sched io) + (cnt - length acc))")
    (auto dest!: io_pread_eintr [OF sym] io_pread_pos [OF sym])

text \<open>\<open>k\<close> counts the bytes written so far (\<^verbatim>\<open>done\<close>).\<close>

function pwriteFull :: "io \<Rightarrow> nat \<Rightarrow> bytes \<Rightarrow> nat \<Rightarrow> nat \<Rightarrow> int \<times> io" where
  "pwriteFull io fd buf off k =
     (if k < length buf
      then (case io_pwrite io fd (drop k buf) (off + k) of
              (n, io1) \<Rightarrow>
                if n < 0
                then (if n = - EINTR then pwriteFull io1 fd buf off k else (n, io1))
                else if n = 0 then (- EIO, io1)
                else pwriteFull io1 fd buf off (k + nat n))
      else (int k, io))"
  by pat_completeness auto
termination
  by (relation "measure (\<lambda>(io, fd, buf, off, k). length (io_sched io) + (length buf - k))")
    (auto dest!: io_pwrite_eintr [OF sym] io_pwrite_pos [OF sym])

declare preadFull.simps [simp del] pwriteFull.simps [simp del]

text \<open>What a reader finds under a name, and the well-formedness the model keeps: identifiers in
  use are below the next fresh one.\<close>

definition file_at :: "io \<Rightarrow> string \<Rightarrow> bytes option" where
  "file_at io p = map_option (content io) (map_of (io_names io) p)"

definition io_ok :: "io \<Rightarrow> bool" where
  "io_ok io \<longleftrightarrow> (\<forall>e\<in>set (io_names io). snd e < io_next io) \<and>
     (\<forall>e\<in>set (io_fds io). fst e < io_next io \<and> snd e < io_next io)"

text \<open>Schedules in which every interruption is one the loops are written to survive.\<close>

definition benign :: "outcome list \<Rightarrow> bool" where
  "benign = list_all (\<lambda>x. case x of Done \<Rightarrow> True | Err e \<Rightarrow> e = 4 | Partial k \<Rightarrow> 0 < k)"

section \<open>What the calls keep and change\<close>

text \<open>A call that only consumes an outcome leaves the store as it was.\<close>

definition io_same :: "io \<Rightarrow> io \<Rightarrow> bool" where
  "io_same io io1 \<longleftrightarrow> (\<exists>sch. io1 = io\<lparr>io_sched := sch\<rparr>)"

lemma io_same_refl [simp]: "io_same io io"
  unfolding io_same_def by (rule exI [of _ "io_sched io"]) simp

lemma io_same_trans [trans]: "io_same a b \<Longrightarrow> io_same b c \<Longrightarrow> io_same a c"
  by (auto simp: io_same_def)

lemma io_sameD:
  assumes "io_same io io1"
  shows "io_names io1 = io_names io" "io_inodes io1 = io_inodes io" "io_fds io1 = io_fds io"
    "io_next io1 = io_next io" "content io1 i = content io i" "nlink io1 i = nlink io i"
  using assms by (auto simp: io_same_def content_def nlink_def)

lemma next_outcome_same: "next_outcome io = (oc, io1) \<Longrightarrow> io_same io io1"
  by (auto simp: next_outcome_def io_same_def split: list.splits) (metis io.surjective io.update_convs(5))

lemma next_outcome_empty [simp]: "io_sched io = [] \<Longrightarrow> next_outcome io = (Done, io)"
  by (simp add: next_outcome_def)

lemma io_call_same: "io_call io = (r, io1) \<Longrightarrow> io_same io io1"
  by (auto simp: io_call_def split: prod.splits outcome.splits dest: next_outcome_same)

lemma io_stat_same: "io_stat io p = (r, io1) \<Longrightarrow> io_same io io1"
  by (auto simp: io_stat_def split: prod.splits outcome.splits option.splits dest: next_outcome_same)

lemma io_fstat_same: "io_fstat_nlink io fd = (r, io1) \<Longrightarrow> io_same io io1"
  by (auto simp: io_fstat_nlink_def split: prod.splits outcome.splits option.splits
      dest: next_outcome_same)

lemma io_fdatasync_same: "io_fdatasync io fd = (r, io1) \<Longrightarrow> io_same io io1"
  by (auto simp: io_fdatasync_def split: prod.splits outcome.splits if_splits dest: next_outcome_same)

lemma io_pread_same: "io_pread io fd cnt off = (n, xs, io1) \<Longrightarrow> io_same io io1"
  by (auto simp: io_pread_def Let_def split: prod.splits outcome.splits option.splits
      dest: next_outcome_same)

lemma io_pread_data:
  assumes "io_pread io fd cnt off = (n, xs, io1)" and "map_of (io_fds io) fd = Some i" and "0 \<le> n"
  shows "xs = slice off (length xs) (content io i) \<and> length xs \<le> cnt"
proof -
  obtain oc io2 where o: "next_outcome io = (oc, io2)" by fastforce
  have "content io2 i = content io i" "map_of (io_fds io2) fd = Some i"
    using io_sameD [OF next_outcome_same [OF o]] assms(2) by simp_all
  with assms o have "\<exists>k\<le>cnt. xs = slice off k (content io i)"
    by (cases oc) (auto simp: io_pread_def Let_def errval_def intro: exI [of _ cnt] exI [of _ "min _ cnt"]
        split: if_splits)
  then show ?thesis by (metis length_slice min.bounded_iff min.commute min.idem slice_length_self
        min.cobounded1 order_trans)
qed

lemma preadFull_spec:
  assumes "preadFull io fd cnt off acc = (r, xs, io1)" and "map_of (io_fds io) fd = Some i"
    and "acc = slice off (length acc) (content io i)" and "length acc \<le> cnt"
  shows "io_same io io1 \<and> xs = slice off (length xs) (content io i) \<and> length xs \<le> cnt \<and>
    (0 \<le> r \<longrightarrow> r = int (length xs))"
  using assms
proof (induction io fd cnt off acc rule: preadFull.induct)
  case (1 io fd cnt off acc)
  show ?case
  proof (cases "length acc < cnt")
    case False
    then have "r = int (length acc)" "xs = acc" "io1 = io"
      using "1.prems"(1) by (auto simp add: preadFull.simps [of io])
    with "1.prems"(3,4) show ?thesis by simp
  next
    case True
    obtain n ys io2 where p: "io_pread io fd (cnt - length acc) (off + length acc) = (n, ys, io2)"
      by (metis prod_cases3)
    have same: "io_same io io2" using io_pread_same [OF p] .
    note sd = io_sameD [OF same]
    consider "n < 0" "n \<noteq> - EINTR" | "n = - EINTR" | "n = 0" | "0 < n" by linarith
    then show ?thesis
    proof cases
      case 1
      with True p "1.prems" same show ?thesis by (auto simp: preadFull.simps [of io])
    next
      case 2
      with True p "1.prems" "1.IH"(1) [OF True p [symmetric] refl] same sd show ?thesis
        by (auto simp: preadFull.simps [of io] errno_defs dest: io_same_trans)
    next
      case 3
      with True p "1.prems" same show ?thesis by (auto simp: preadFull.simps [of io])
    next
      case 4
      have ys: "ys = slice (off + length acc) (length ys) (content io i)" "length ys \<le> cnt - length acc"
        using io_pread_data [OF p "1.prems"(2)] 4 by simp_all
      have "acc @ ys = slice off (length (acc @ ys)) (content io i)"
        using "1.prems"(3) ys(1) slice_split [of off "length acc" "length ys" "content io i"] by simp
      moreover have "preadFull io2 fd cnt off (acc @ ys) = (r, xs, io1)"
        using True p 4 "1.prems"(1) by (simp add: preadFull.simps [of io])
      moreover have "length (acc @ ys) \<le> cnt" using ys(2) True by simp
      ultimately have "io_same io2 io1 \<and> xs = slice off (length xs) (content io2 i) \<and> length xs \<le> cnt \<and>
          (0 \<le> r \<longrightarrow> r = int (length xs))"
        using 4 "1.prems"(2) by (intro "1.IH"(2) [OF True p [symmetric] refl]) (simp_all add: sd)
      then show ?thesis using same sd by (auto dest: io_same_trans)
    qed
  qed
qed

lemma map_of_content: "content (set_content io i bs) j = (if j = i then bs else content io j)"
  by (simp add: content_def set_content_def AList.update_conv')

lemma set_content_simps [simp]:
  "io_names (set_content io i bs) = io_names io" "io_fds (set_content io i bs) = io_fds io"
  "io_next (set_content io i bs) = io_next io" "io_sched (set_content io i bs) = io_sched io"
  "nlink (set_content io i bs) j = nlink io j"
  by (simp_all add: set_content_def nlink_def)

text \<open>A call that writes one inode keeps every other inode, the names and the descriptors.\<close>

definition io_frame :: "nat \<Rightarrow> io \<Rightarrow> io \<Rightarrow> bool" where
  "io_frame i io io1 \<longleftrightarrow> io_names io1 = io_names io \<and> io_fds io1 = io_fds io \<and>
     io_next io1 = io_next io \<and> (\<forall>j. j \<noteq> i \<longrightarrow> content io1 j = content io j)"

lemma io_same_frame: "io_same io io1 \<Longrightarrow> io_frame i io io1"
  using io_sameD [of io io1] by (auto simp: io_frame_def)

lemma io_frame_trans [trans]: "io_frame i a b \<Longrightarrow> io_frame i b c \<Longrightarrow> io_frame i a c"
  by (simp add: io_frame_def)

lemma io_frame_set_content: "io_same io io1 \<Longrightarrow> io_frame i io (set_content io1 i bs)"
  using io_sameD [of io io1] by (auto simp: io_frame_def map_of_content)

lemma content_upd [simp]:
  "content (x\<lparr>io_names := a\<rparr>) j = content x j" "content (x\<lparr>io_fds := b\<rparr>) j = content x j"
  "content (x\<lparr>io_next := n\<rparr>) j = content x j" "content (x\<lparr>io_sched := s\<rparr>) j = content x j"
  by (simp_all add: content_def)

section \<open>Opening, closing and renaming\<close>

lemma io_ok_names: "io_ok io \<Longrightarrow> map_of (io_names io) p = Some i \<Longrightarrow> i < io_next io"
  by (auto simp: io_ok_def dest!: map_of_SomeD)

lemma io_same_ok: "io_same io io1 \<Longrightarrow> io_ok io \<Longrightarrow> io_ok io1"
  using io_sameD [of io io1] by (simp add: io_ok_def)

text \<open>Opening a scratch name for writing: the name now denotes an empty file, open under the
  returned descriptor; every other name keeps its inode, every other inode its bytes.\<close>

lemma io_open_trunc:
  assumes "io_open io p True True = (fd, io1)" and "io_ok io"
  shows "(fd < 0 \<and> io_same io io1) \<or>
    (\<exists>i. 0 \<le> fd \<and> map_of (io_fds io1) (nat fd) = Some i \<and> map_of (io_names io1) p = Some i \<and>
       (\<forall>q. q \<noteq> p \<longrightarrow> map_of (io_names io1) q = map_of (io_names io) q) \<and> content io1 i = [] \<and>
       (\<forall>j. j \<noteq> i \<longrightarrow> content io1 j = content io j) \<and>
       (map_of (io_names io) p = Some i \<or> map_of (io_names io) p = None \<and> i = io_next io))"
proof -
  obtain oc io2 where o: "next_outcome io = (oc, io2)" by fastforce
  note same = next_outcome_same [OF o] and sd = io_sameD [OF next_outcome_same [OF o]]
  show ?thesis
  proof (cases oc)
    case (Err e)
    with assms(1) o same show ?thesis by (auto simp: io_open_def errval_def split: if_splits)
  next
    case Done
    with assms(1) o sd show ?thesis
      by (cases "map_of (io_names io) p")
        (auto simp: io_open_def Let_def map_of_content AList.update_conv')
  next
    case (Partial k)
    with assms(1) o sd show ?thesis
      by (cases "map_of (io_names io) p")
        (auto simp: io_open_def Let_def map_of_content AList.update_conv')
  qed
qed

lemma io_close_keeps:
  assumes "io_close io fd = (r, io1)"
  shows "io_names io1 = io_names io" "content io1 i = content io i"
proof -
  obtain oc io2 where o: "next_outcome io = (oc, io2)" by fastforce
  note sd = io_sameD [OF next_outcome_same [OF o]]
  show "io_names io1 = io_names io" "content io1 i = content io i"
    using assms o sd by (auto simp: io_close_def split: outcome.splits if_splits)
qed

lemma io_unlink_keeps:
  assumes "io_unlink io p = (r, io1)"
  shows "q \<noteq> p \<Longrightarrow> map_of (io_names io1) q = map_of (io_names io) q" "content io1 i = content io i"
proof -
  obtain oc io2 where o: "next_outcome io = (oc, io2)" by fastforce
  note sd = io_sameD [OF next_outcome_same [OF o]]
  show "q \<noteq> p \<Longrightarrow> map_of (io_names io1) q = map_of (io_names io) q" "content io1 i = content io i"
    using assms o sd by (auto simp: io_unlink_def AList.delete_conv' split: outcome.splits if_splits)
qed

lemma io_rename_effect:
  assumes "io_rename io p q = (r, io1)" and "p \<noteq> q"
  shows "content io1 i = content io i" "x \<noteq> p \<Longrightarrow> x \<noteq> q \<Longrightarrow> map_of (io_names io1) x = map_of (io_names io) x"
    "r = 0 \<Longrightarrow> map_of (io_names io1) q = map_of (io_names io) p \<and> map_of (io_names io) p \<noteq> None"
    "r \<noteq> 0 \<Longrightarrow> io_same io io1"
proof -
  obtain oc io2 where o: "next_outcome io = (oc, io2)" by fastforce
  note same = next_outcome_same [OF o] and sd = io_sameD [OF next_outcome_same [OF o]]
  show "content io1 i = content io i" "x \<noteq> p \<Longrightarrow> x \<noteq> q \<Longrightarrow> map_of (io_names io1) x = map_of (io_names io) x"
    "r = 0 \<Longrightarrow> map_of (io_names io1) q = map_of (io_names io) p \<and> map_of (io_names io) p \<noteq> None"
    "r \<noteq> 0 \<Longrightarrow> io_same io io1"
    using assms o sd same
    by (auto simp: io_rename_def AList.delete_conv' AList.update_conv' errval_def errno_defs
        split: outcome.splits option.splits if_splits)
qed

section \<open>Full writes\<close>

lemma length_pwrite_bytes: "xs \<noteq> [] \<Longrightarrow> length (pwrite_bytes bs off xs) = max (length bs) (off + length xs)"
  by (simp add: pwrite_bytes_def)

lemma pwrite_bytes_within:
  "off + length xs \<le> length bs \<Longrightarrow> pwrite_bytes bs off xs = overwrite bs off xs"
  by (simp add: pwrite_bytes_def overwrite_def)

lemma pwrite_bytes_Nil [simp]: "pwrite_bytes bs off [] = bs"
  by (simp add: pwrite_bytes_def)

lemma pwrite_bytes_append:
  "pwrite_bytes (pwrite_bytes bs off xs) (off + length xs) ys = pwrite_bytes bs off (xs @ ys)"
proof -
  have m: "min (length bs) off + (off - length bs) = off" "off - length bs + min off (length bs) = off"
    by simp_all
  show ?thesis
    by (cases "xs = []"; cases "ys = []") (simp_all add: pwrite_bytes_def m ac_simps)
qed

lemma io_pwrite_data:
  assumes "io_pwrite io fd xs off = (n, io1)" and "map_of (io_fds io) fd = Some i"
  shows "\<exists>k\<le>length xs. content io1 i = pwrite_bytes (content io i) off (take k xs) \<and>
    (0 \<le> n \<longrightarrow> n = int k) \<and> (n < 0 \<longrightarrow> k = 0) \<and> io_frame i io io1"
proof -
  obtain oc io2 where o: "next_outcome io = (oc, io2)" by fastforce
  note same = next_outcome_same [OF o]
  have c: "content io2 i = content io i" "map_of (io_fds io2) fd = Some i"
    using io_sameD [OF same] assms(2) by simp_all
  show ?thesis
  proof (cases oc)
    case Done
    with assms o c same show ?thesis
      by (intro exI [of _ "length xs"]) (auto simp: io_pwrite_def map_of_content intro: io_frame_set_content)
  next
    case (Err e)
    with assms o c same show ?thesis
      by (intro exI [of _ 0]) (auto simp: io_pwrite_def errval_def intro: io_same_frame split: if_splits)
  next
    case (Partial k)
    with assms o c same show ?thesis
      by (intro exI [of _ "min k (length xs)"])
        (auto simp: io_pwrite_def map_of_content min_def intro: io_frame_set_content)
  qed
qed

lemma pwriteFull_spec:
  assumes "pwriteFull io fd buf off k = (r, io1)" and "map_of (io_fds io) fd = Some i"
    and "k \<le> length buf" and "content io i = pwrite_bytes bs off (take k buf)"
  shows "io_frame i io io1 \<and> (\<exists>m. k \<le> m \<and> m \<le> length buf \<and> content io1 i = pwrite_bytes bs off (take m buf) \<and>
    (0 \<le> r \<longrightarrow> m = length buf \<and> r = int (length buf)))"
  using assms
proof (induction io fd buf off k rule: pwriteFull.induct)
  case (1 io fd buf off k)
  show ?case
  proof (cases "k < length buf")
    case False
    with "1.prems" show ?thesis by (auto simp: pwriteFull.simps [of io] intro: io_same_frame)
  next
    case True
    obtain n io2 where p: "io_pwrite io fd (drop k buf) (off + k) = (n, io2)" by fastforce
    obtain m where m: "m \<le> length buf - k"
        "content io2 i = pwrite_bytes (content io i) (off + k) (take m (drop k buf))"
        "0 \<le> n \<longrightarrow> n = int m" "n < 0 \<longrightarrow> m = 0" "io_frame i io io2"
      using io_pwrite_data [OF p "1.prems"(2)] by auto
    have lk: "length (take k buf) = k" using True by simp
    have c2: "content io2 i = pwrite_bytes bs off (take (k + m) buf)"
      using m(2) "1.prems"(4) pwrite_bytes_append [of bs off "take k buf" "take m (drop k buf)"]
      unfolding lk take_add by simp
    have fd2: "map_of (io_fds io2) fd = Some i" using m(5) "1.prems"(2) by (simp add: io_frame_def)
    consider "n < 0" "n \<noteq> - EINTR" | "n = - EINTR" | "n = 0" | "0 < n" by linarith
    then show ?thesis
    proof cases
      case 1
      with True p "1.prems"(1,3) m c2 show ?thesis by (auto simp: pwriteFull.simps [of io])
    next
      case 2
      with True p "1.prems"(1,3) m c2 "1.IH"(1) [OF True p [symmetric] _ _ _ fd2] show ?thesis
        by (auto simp: pwriteFull.simps [of io] errno_defs dest: io_frame_trans)
    next
      case 3
      with True p "1.prems"(1,3) m c2 show ?thesis
        by (intro conjI exI [of _ "k + m"]) (auto simp: pwriteFull.simps [of io] errno_defs)
    next
      case 4
      then have nm: "nat n = m" using m(3) by simp
      have "pwriteFull io2 fd buf off (k + m) = (r, io1)"
        using True p 4 "1.prems"(1) nm by (simp add: pwriteFull.simps [of io])
      moreover have "k + m \<le> length buf" using m(1) True by simp
      ultimately have "io_frame i io2 io1 \<and> (\<exists>ma\<ge>k + m. ma \<le> length buf \<and>
          content io1 i = pwrite_bytes bs off (take ma buf) \<and>
          (0 \<le> r \<longrightarrow> ma = length buf \<and> r = int (length buf)))"
        using "1.IH"(2) [OF True p [symmetric]] 4 nm fd2 c2 by simp
      then obtain ma where "k + m \<le> ma" "ma \<le> length buf"
          "content io1 i = pwrite_bytes bs off (take ma buf)"
          "0 \<le> r \<longrightarrow> ma = length buf \<and> r = int (length buf)" "io_frame i io2 io1"
        by blast
      then show ?thesis using io_frame_trans [OF m(5)] by (intro conjI exI [of _ ma]) auto
    qed
  qed
qed

section \<open>Benign schedules\<close>

lemma benign_tl: "benign xs \<Longrightarrow> benign (tl xs)"
  by (cases xs) (auto simp: benign_def)

lemma io_pwrite_benign:
  assumes "benign (io_sched io)" and "map_of (io_fds io) fd = Some i" and "xs \<noteq> []"
  shows "\<exists>n io1. io_pwrite io fd xs off = (n, io1) \<and> (n = - EINTR \<or> 0 < n) \<and> benign (io_sched io1)"
  using assms
  by (cases "io_sched io")
    (auto simp: io_pwrite_def next_outcome_def benign_def errval_def errno_defs split: outcome.splits)

lemma pwriteFull_benign:
  "benign (io_sched io) \<Longrightarrow> map_of (io_fds io) fd = Some i \<Longrightarrow> k \<le> length buf \<Longrightarrow>
   fst (pwriteFull io fd buf off k) = int (length buf)"
proof (induction io fd buf off k rule: pwriteFull.induct)
  case (1 io fd buf off k)
  show ?case
  proof (cases "k < length buf")
    case False
    with "1.prems" show ?thesis by (simp add: pwriteFull.simps [of io])
  next
    case True
    then obtain n io2 where p: "io_pwrite io fd (drop k buf) (off + k) = (n, io2)"
        and n: "n = - EINTR \<or> 0 < n" and b: "benign (io_sched io2)"
      using io_pwrite_benign [OF "1.prems"(1,2), of "drop k buf" "off + k"] by auto
    have fd2: "map_of (io_fds io2) fd = Some i"
      using io_pwrite_data [OF p "1.prems"(2)] "1.prems"(2) by (auto simp: io_frame_def)
    from n show ?thesis
    proof
      assume "n = - EINTR"
      then show ?thesis
        using True p "1.IH"(1) [OF True p [symmetric] _ _ b fd2] "1.prems"(3)
        by (auto simp: pwriteFull.simps [of io] errno_defs)
    next
      assume n: "0 < n"
      then have "nat n \<le> length buf - k" using io_pwrite_pos [OF p] by simp
      then show ?thesis
        using True p n "1.IH"(2) [OF True p [symmetric] _ _ b fd2]
        by (auto simp: pwriteFull.simps [of io])
    qed
  qed
qed

lemma io_pread_benign:
  assumes "benign (io_sched io)" and "map_of (io_fds io) fd = Some i" and "0 < cnt"
  shows "\<exists>n xs io1. io_pread io fd cnt off = (n, xs, io1) \<and> benign (io_sched io1) \<and>
    (n = - EINTR \<or> 0 \<le> n) \<and> (n = 0 \<longrightarrow> length (content io i) \<le> off)"
proof (cases "io_sched io")
  case Nil
  with assms show ?thesis by (auto simp: io_pread_def benign_def)
next
  case (Cons x sch)
  have c: "content (io\<lparr>io_sched := sch\<rparr>) i = content io i" by (simp add: content_def)
  from Cons assms c show ?thesis
    by (cases x) (auto simp: io_pread_def next_outcome_def benign_def errval_def errno_defs Let_def)
qed

lemma preadFull_benign:
  "benign (io_sched io) \<Longrightarrow> map_of (io_fds io) fd = Some i \<Longrightarrow> acc = slice off (length acc) (content io i) \<Longrightarrow>
   length acc \<le> cnt \<Longrightarrow> fst (preadFull io fd cnt off acc) = int (min cnt (length (content io i) - off))"
proof (induction io fd cnt off acc rule: preadFull.induct)
  case (1 io fd cnt off acc)
  have la: "length acc \<le> length (content io i) - off"
    using arg_cong [OF "1.prems"(3), of length] by simp
  show ?case
  proof (cases "length acc < cnt")
    case False
    with "1.prems"(4) la show ?thesis by (simp add: preadFull.simps [of io])
  next
    case True
    then obtain n ys io2 where p: "io_pread io fd (cnt - length acc) (off + length acc) = (n, ys, io2)"
        and b: "benign (io_sched io2)" and n: "n = - EINTR \<or> 0 \<le> n"
        and z: "n = 0 \<longrightarrow> length (content io i) \<le> off + length acc"
      using io_pread_benign [OF "1.prems"(1,2), of "cnt - length acc" "off + length acc"] by auto
    note sd = io_sameD [OF io_pread_same [OF p]]
    consider "n = - EINTR" | "n = 0" | "0 < n" using n by linarith
    then show ?thesis
    proof cases
      case 1
      with True p "1.IH"(1) [OF True p [symmetric] refl _ _ b] "1.prems" sd show ?thesis
        by (simp add: preadFull.simps [of io] errno_defs)
    next
      case 2
      with True p z la show ?thesis by (simp add: preadFull.simps [of io])
    next
      case 3
      have ys: "ys = slice (off + length acc) (length ys) (content io i)" "length ys \<le> cnt - length acc"
        using io_pread_data [OF p "1.prems"(2)] 3 by simp_all
      have "acc @ ys = slice off (length (acc @ ys)) (content io2 i)"
        using "1.prems"(3) ys(1) slice_split [of off "length acc" "length ys" "content io i"]
        by (simp add: sd)
      then have "fst (preadFull io2 fd cnt off (acc @ ys)) = int (min cnt (length (content io2 i) - off))"
        using 3 b ys(2) True "1.prems"(2)
        by (intro "1.IH"(2) [OF True p [symmetric] refl]) (simp_all add: sd)
      with True p 3 sd show ?thesis by (simp add: preadFull.simps [of io])
    qed
  qed
qed

section \<open>Properties\<close>

text \<open>\<^verbatim>\<open>preadFull\<close> on an open descriptor: whatever the calls below it return, a non-negative
  result counts delivered bytes that are exactly the file's bytes from the offset, at most
  as many as asked, and nothing in the file system changes.\<close>

theorem preadFull_delivers_file_bytes:
  assumes "map_of (io_fds io) fd = Some i" and "preadFull io fd cnt off [] = (r, xs, io1)" and "0 \<le> r"
  shows "xs = slice off (nat r) (content io i) \<and> nat r \<le> cnt \<and> length xs = nat r \<and> io_same io io1"
  using preadFull_spec [OF assms(2,1)] assms(3) by simp

theorem preadFull_delivers_file_bytes_witness:
  "(let io = \<lparr>io_names = [], io_inodes = [(7, [1, 2, 3])], io_fds = [(0, 7)], io_next = 8,
        io_sched = [Err 4, Partial 1]\<rparr>
    in map_of (io_fds io) 0 = Some 7 \<and> fst (preadFull io 0 2 1 []) = 2 \<and>
       fst (snd (preadFull io 0 2 1 [])) = slice 1 2 (content io 7))"
proof -
  define io where "io = \<lparr>io_names = [], io_inodes = [(7, [1, 2, 3])], io_fds = [(0, 7)], io_next = 8,
        io_sched = [Err 4, Partial 1]\<rparr>"
  have b: "benign (io_sched io)" and fd: "map_of (io_fds io) 0 = Some 7"
    by (simp_all add: io_def benign_def)
  have r: "fst (preadFull io 0 2 1 []) = 2"
    using preadFull_benign [OF b fd, of "[]" 1 2] by (simp add: io_def content_def)
  obtain xs io1 where p: "preadFull io 0 2 1 [] = (2, xs, io1)"
    using r by (metis fst_conv prod_cases3)
  show ?thesis
    unfolding io_def [symmetric]
    using preadFull_delivers_file_bytes [OF fd p] r fd p by simp
qed

text \<open>\<^verbatim>\<open>pwriteFull\<close> on an open descriptor: on every path the file ends with a prefix of the
  buffer written at the offset, the whole buffer when the result is non-negative; other files,
  names and descriptors are untouched; and when no call fails other than by being
  interrupted or cut short after at least one byte, it returns the full length.\<close>

theorem pwriteFull_prefix_or_all:
  assumes "map_of (io_fds io) fd = Some i" and "pwriteFull io fd buf off 0 = (r, io1)"
  shows "io_frame i io io1 \<and>
    (\<exists>m\<le>length buf. content io1 i = pwrite_bytes (content io i) off (take m buf) \<and>
       (0 \<le> r \<longrightarrow> m = length buf \<and> r = int (length buf))) \<and>
    (benign (io_sched io) \<longrightarrow> r = int (length buf))"
  using pwriteFull_spec [OF assms(2,1), of "content io i"] pwriteFull_benign [OF _ assms(1), of 0 buf off]
    assms(2) by auto

theorem pwriteFull_prefix_or_all_witness:
  "(let io = \<lparr>io_names = [], io_inodes = [(7, [1, 2, 3])], io_fds = [(0, 7)], io_next = 8,
        io_sched = [Err 4, Partial 1]\<rparr>
    in fst (pwriteFull io 0 [8, 9] 2 0) = 2 \<and>
       content (snd (pwriteFull io 0 [8, 9] 2 0)) 7 = [1, 2, 8, 9])"
proof -
  define io where "io = \<lparr>io_names = [], io_inodes = [(7, [1, 2, 3])], io_fds = [(0, 7)], io_next = 8,
        io_sched = [Err 4, Partial 1]\<rparr>"
  have fd: "map_of (io_fds io) 0 = Some 7" and b: "benign (io_sched io)"
    by (simp_all add: io_def benign_def)
  obtain r io1 where p: "pwriteFull io 0 [8, 9] 2 0 = (r, io1)" by fastforce
  have c: "content io 7 = [1, 2, 3]" by (simp add: io_def content_def)
  show ?thesis
    unfolding io_def [symmetric] Let_def
    using pwriteFull_prefix_or_all [OF fd p] b p c by (auto simp: pwrite_bytes_def)
qed

end
