(* ===== verification/Meta_Image.thy ===== *)
theory Meta_Image
  imports Crc32c Page_Bitmap
begin

text \<open>
  The metadata of a cache entry and its on-disk image, from \<^verbatim>\<open>src/src/core/MetaFile.h\<close> and
  \<^verbatim>\<open>MetaFile.cc\<close>: the fields, the page count and page extents, \<open>serialize\<close> and
  \<open>deserialize\<close>. Sizes are the sources' unsigned integers with their wrap-around (\<open>u64\<close>).
  Shown: the round trip, and that every truncated or one-byte-corrupted image is rejected.
\<close>

unbundle bit_operations_syntax

section \<open>MetaData\<close>

record metaData =
  pageSize :: nat
  flags :: u32
  fileSize :: nat
  atime :: nat
  originMtime :: nat
  cksumKind :: nat
  originCksum :: nat
  key :: string
  bitmap :: pageBitmap
  pageCrcs :: "u32 list"

definition kFormatVersion :: nat where "kFormatVersion = 1"
definition kFlagPinned :: u32 where "kFlagPinned = 1"
definition kFlagComplete :: u32 where "kFlagComplete = 2"
definition kCksumNone :: nat where "kCksumNone = 0"

definition npages :: "metaData \<Rightarrow> nat" where
  "npages m = (if pageSize m \<noteq> 0 then u64 (fileSize m + pageSize m - 1) div pageSize m else 0)"

definition pageBytes :: "metaData \<Rightarrow> nat \<Rightarrow> nat" where
  "pageBytes m i =
     (let start = u64 (i * pageSize m);
          e = min (u64 (start + pageSize m)) (fileSize m)
      in u32n (sub64 e start))"

definition cachedBytes :: "metaData \<Rightarrow> nat" where
  "cachedBytes m =
     (let n = pb_count (bitmap m) in
      if n = 0 then 0
      else let bytes = u64 (n * pageSize m);
               lst = npages m - 1
           in if bm_get (bitmap m) lst
              then sub64 bytes (pageSize m - pageBytes m lst) else bytes)"

definition fresh :: "string \<Rightarrow> nat \<Rightarrow> nat \<Rightarrow> nat \<Rightarrow> metaData" where
  "fresh k fs ps now =
     (let m = \<lparr>pageSize = ps, flags = 0, fileSize = fs, atime = now, originMtime = 0,
               cksumKind = kCksumNone, originCksum = 0, key = k, bitmap = bm_reset 0, pageCrcs = []\<rparr>
      in m\<lparr>bitmap := bm_reset (npages m), pageCrcs := replicate (npages m) 0\<rparr>)"

section \<open>The image\<close>

definition kMagic :: bytes where "kMagic = map byte_of_char ''UCAC''"
definition kHeaderSize :: nat where "kHeaderSize = 56"
definition kCrcFieldOff :: nat where "kCrcFieldOff = 52"

definition align8 :: "nat \<Rightarrow> nat" where
  "align8 n = u64 (n + 7) div 8 * 8"

text \<open>The image with a zero checksum field, over which the checksum is computed.\<close>

definition image0 :: "metaData \<Rightarrow> bytes" where
  "image0 m =
     (let np = npages m;
          keyOff = kHeaderSize;
          bitmapOff = align8 (keyOff + length (key m));
          crcsOff = bitmapOff + length (pb_bits (bitmap m));
          total = crcsOff + np * 4;
          b0 = replicate total 0;
          b1 = overwrite b0 0 kMagic;
          b2 = put_le 4 b1 4 kFormatVersion;
          b3 = put_le 4 b2 8 (pageSize m);
          b4 = put_le 4 b3 12 (unat (flags m));
          b5 = put_le 8 b4 16 (fileSize m);
          b6 = put_le 8 b5 24 (atime m);
          b7 = put_le 8 b6 32 (originMtime m);
          b8 = put_le 1 b7 40 (cksumKind m);
          b9 = put_le 4 b8 44 (originCksum m);
          b10 = put_le 4 b9 48 (u32n (length (key m)));
          b11 = overwrite b10 keyOff (map byte_of_char (key m));
          b12 = overwrite b11 bitmapOff (pb_bits (bitmap m))
      in if np \<noteq> 0 \<and> length (pageCrcs m) = np
         then overwrite b12 crcsOff (le32_list (pageCrcs m)) else b12)"

definition serialize :: "metaData \<Rightarrow> bytes" where
  "serialize m = put_le 4 (image0 m) kCrcFieldOff (unat (crc32c (image0 m)))"

text \<open>The header fields every load reads, before the key and the arrays.\<close>

definition header :: "bytes \<Rightarrow> metaData" where
  "header p =
     \<lparr>pageSize = get_le 4 p 8, flags = word_of_nat (get_le 4 p 12), fileSize = get_le 8 p 16,
      atime = get_le 8 p 24, originMtime = get_le 8 p 32, cksumKind = get_le 1 p 40,
      originCksum = get_le 4 p 44, key = [], bitmap = bm_reset 0, pageCrcs = []\<rparr>"

definition bad_pageSize :: "nat \<Rightarrow> bool" where
  "bad_pageSize ps \<longleftrightarrow> ps = 0 \<or> ps AND (ps - 1) \<noteq> 0"

definition deserialize :: "bytes \<Rightarrow> metaData option" where
  "deserialize p =
     (let n = length p in
      if n < kHeaderSize \<or> slice 0 4 p \<noteq> kMagic then None
      else if get_le 4 p 4 \<noteq> kFormatVersion then None
      else
        let m = header p;
            keyLen = get_le 4 p 48;
            storedCrc = get_le 4 p kCrcFieldOff
        in if bad_pageSize (pageSize m) then None
           else
             let np = npages m;
                 keyOff = kHeaderSize;
                 bitmapOff = align8 (keyOff + keyLen);
                 bitmapSize = u64 (np + 7) div 8;
                 crcsOff = u64 (bitmapOff + bitmapSize);
                 total = u64 (crcsOff + u64 (np * 4))
             in if n \<noteq> total \<or> keyLen > 64 * 1024 then None
                else if unat (crc32c (overwrite p kCrcFieldOff (replicate 4 0))) \<noteq> storedCrc then None
                else Some (m\<lparr>key := map char_of_byte (slice keyOff keyLen p),
                    bitmap := bm_recount (bm_load_raw (bm_reset np) (slice bitmapOff bitmapSize p)),
                    pageCrcs := rd32_list np (drop crcsOff p)\<rparr>))"

section \<open>Well-formed metadata\<close>

text \<open>The bounds of the C++ field types, a page size that is a power of two, a bitmap and a
  checksum table of \<open>npages\<close> entries, and a file size whose page count does not wrap.\<close>

definition meta_ok :: "metaData \<Rightarrow> bool" where
  "meta_ok m \<longleftrightarrow> \<not> bad_pageSize (pageSize m) \<and> pageSize m < 2 ^ 32 \<and>
     fileSize m + pageSize m \<le> 2 ^ 64 \<and> atime m < 2 ^ 64 \<and> originMtime m < 2 ^ 64 \<and>
     cksumKind m < 2 ^ 8 \<and> originCksum m < 2 ^ 32 \<and> length (key m) < 2 ^ 32 \<and>
     npages m < 2 ^ 61 \<and> bm_ok (bitmap m) \<and> pb_npages (bitmap m) = npages m \<and>
     length (pageCrcs m) = npages m"

lemma meta_ok_pageSize: "meta_ok m \<Longrightarrow> 0 < pageSize m"
  by (simp add: meta_ok_def bad_pageSize_def)

lemma npages_ceil: "meta_ok m \<Longrightarrow> npages m = ceil_div (fileSize m) (pageSize m)"
  by (auto simp: meta_ok_def npages_def ceil_div_def bad_pageSize_def)

definition bitmap_off :: "nat \<Rightarrow> nat" where
  "bitmap_off klen = (63 + klen) div 8 * 8"

lemma align8_eq: "klen < 2 ^ 32 \<Longrightarrow> align8 (56 + klen) = bitmap_off klen"
  by (simp add: align8_def bitmap_off_def)

lemma bitmap_off_ge: "56 + klen \<le> bitmap_off klen" "bitmap_off klen \<le> 63 + klen"
  unfolding bitmap_off_def by linarith+

definition crcs_off :: "metaData \<Rightarrow> nat" where
  "crcs_off m = bitmap_off (length (key m)) + (npages m + 7) div 8"

definition image_size :: "metaData \<Rightarrow> nat" where
  "image_size m = crcs_off m + npages m * 4"

lemma length_kMagic [simp]: "length kMagic = 4"
  by (simp add: kMagic_def)

lemma image0_bounds:
  assumes "meta_ok m"
  shows "56 + length (key m) \<le> bitmap_off (length (key m))"
    "bitmap_off (length (key m)) + length (pb_bits (bitmap m)) = crcs_off m"
    "crcs_off m + 4 * length (pageCrcs m) = image_size m"
    "image_size m < 2 ^ 64"
proof -
  show "56 + length (key m) \<le> bitmap_off (length (key m))" by (rule bitmap_off_ge)
  show "bitmap_off (length (key m)) + length (pb_bits (bitmap m)) = crcs_off m"
    "crcs_off m + 4 * length (pageCrcs m) = image_size m"
    using assms by (auto simp: meta_ok_def bm_ok_def crcs_off_def image_size_def)
  have "npages m < 2 ^ 61" "length (key m) < 2 ^ 32" using assms by (auto simp: meta_ok_def)
  moreover have "(npages m + 7) div 8 \<le> npages m + 7" by simp
  ultimately show "image_size m < 2 ^ 64"
    using bitmap_off_ge(2) [of "length (key m)"] unfolding image_size_def crcs_off_def by simp
qed

text \<open>The fixed header as a chain of stores into a zeroed buffer.\<close>

definition hdr_chain :: "metaData \<Rightarrow> bytes \<Rightarrow> bytes" where
  "hdr_chain m z =
     put_le 4 (put_le 4 (put_le 1 (put_le 8 (put_le 8 (put_le 8 (put_le 4 (put_le 4 (put_le 4
        (overwrite z 0 kMagic)
        4 kFormatVersion) 8 (pageSize m)) 12 (unat (flags m))) 16 (fileSize m)) 24 (atime m))
        32 (originMtime m)) 40 (cksumKind m)) 44 (originCksum m)) 48 (length (key m))"

lemma length_hdr_chain [simp]: "56 \<le> length z \<Longrightarrow> length (hdr_chain m z) = length z"
  by (simp add: hdr_chain_def)

lemma hdr_chain_magic: "56 \<le> length z \<Longrightarrow> slice 0 4 (hdr_chain m z) = kMagic"
  by (simp add: hdr_chain_def slice_simps)

lemma hdr_chain_fields:
  assumes "56 \<le> length z"
  shows "get_le 4 (hdr_chain m z) 4 = kFormatVersion mod 256 ^ 4"
    "get_le 4 (hdr_chain m z) 8 = pageSize m mod 256 ^ 4"
    "get_le 4 (hdr_chain m z) 12 = unat (flags m) mod 256 ^ 4"
    "get_le 8 (hdr_chain m z) 16 = fileSize m mod 256 ^ 8"
    "get_le 8 (hdr_chain m z) 24 = atime m mod 256 ^ 8"
    "get_le 8 (hdr_chain m z) 32 = originMtime m mod 256 ^ 8"
    "get_le 1 (hdr_chain m z) 40 = cksumKind m mod 256"
    "get_le 4 (hdr_chain m z) 44 = originCksum m mod 256 ^ 4"
    "get_le 4 (hdr_chain m z) 48 = length (key m) mod 256 ^ 4"
    "slice 52 4 (hdr_chain m z) = slice 52 4 z"
  using assms by (simp_all add: hdr_chain_def get_put_le_mod get_put_le_other slice_put_le_other
      slice_overwrite_other)

lemma image0_eq:
  assumes "meta_ok m"
  shows "image0 m =
    overwrite (overwrite (overwrite (hdr_chain m (replicate (image_size m) 0))
      56 (map byte_of_char (key m)))
      (bitmap_off (length (key m))) (pb_bits (bitmap m)))
      (crcs_off m) (le32_list (pageCrcs m))"
proof -
  have l: "length (pb_bits (bitmap m)) = (npages m + 7) div 8" "length (pageCrcs m) = npages m"
    "length (key m) < 2 ^ 32"
    using assms by (simp_all add: meta_ok_def bm_ok_def)
  have z: "overwrite xs off (le32_list (pageCrcs m)) = xs" if "npages m = 0" for xs off
    using that l(2) by simp
  show ?thesis
    unfolding image0_def hdr_chain_def Let_def kHeaderSize_def using l z
    by (cases "npages m = 0") (simp_all add: align8_eq crcs_off_def image_size_def)
qed

lemma image0_low:
  assumes "meta_ok m" and "o2 + k \<le> 56"
  shows "slice o2 k (image0 m) = slice o2 k (hdr_chain m (replicate (image_size m) 0))"
    and "get_le k (image0 m) o2 = get_le k (hdr_chain m (replicate (image_size m) 0)) o2"
proof -
  note b = image0_bounds [OF assms(1)]
  have n: "56 \<le> image_size m" using b by linarith
  show "slice o2 k (image0 m) = slice o2 k (hdr_chain m (replicate (image_size m) 0))"
    unfolding image0_eq [OF assms(1)] using b n assms(2) by (simp add: slice_overwrite_other)
  then show "get_le k (image0 m) o2 = get_le k (hdr_chain m (replicate (image_size m) 0)) o2"
    by (simp add: get_le_def)
qed

lemma length_image0: "meta_ok m \<Longrightarrow> length (image0 m) = image_size m"
  using image0_bounds [of m] by (simp add: image0_eq)

lemma image0_header:
  assumes "meta_ok m"
  shows "slice 0 4 (image0 m) = kMagic" "get_le 4 (image0 m) 4 = kFormatVersion"
    "header (image0 m) = m\<lparr>key := [], bitmap := bm_reset 0, pageCrcs := []\<rparr>"
    "get_le 4 (image0 m) 48 = length (key m)" "slice 52 4 (image0 m) = replicate 4 0"
proof -
  let ?z = "replicate (image_size m) (0 :: byte)"
  have z: "56 \<le> length ?z" using image0_bounds [OF assms] by simp
  have zero: "slice 52 4 ?z = replicate 4 0" using z by (simp add: slice_def)
  note low = image0_low [OF assms] hdr_chain_magic [OF z] hdr_chain_fields [OF z]
  have f: "pageSize m mod 256 ^ 4 = pageSize m" "fileSize m mod 256 ^ 8 = fileSize m"
    "atime m mod 256 ^ 8 = atime m" "originMtime m mod 256 ^ 8 = originMtime m"
    "cksumKind m mod 256 = cksumKind m" "originCksum m mod 256 ^ 4 = originCksum m"
    "length (key m) mod 256 ^ 4 = length (key m)" "unat (flags m) mod 256 ^ 4 = unat (flags m)"
    "kFormatVersion mod 256 ^ 4 = kFormatVersion"
    using assms unat_u32_bound [of "flags m"]
    by (auto simp: meta_ok_def bad_pageSize_def kFormatVersion_def)
  show "slice 0 4 (image0 m) = kMagic" by (simp add: low)
  show "get_le 4 (image0 m) 4 = kFormatVersion" using f(9) by (simp add: low)
  show "get_le 4 (image0 m) 48 = length (key m)" using f(7) by (simp add: low)
  show "slice 52 4 (image0 m) = replicate 4 0" by (simp add: low zero)
  show "header (image0 m) = m\<lparr>key := [], bitmap := bm_reset 0, pageCrcs := []\<rparr>"
    unfolding header_def using f by (simp add: low del: One_nat_def)
qed

lemma image0_body:
  assumes "meta_ok m"
  shows "slice 56 (length (key m)) (image0 m) = map byte_of_char (key m)"
    "slice (bitmap_off (length (key m))) (length (pb_bits (bitmap m))) (image0 m) = pb_bits (bitmap m)"
    "drop (crcs_off m) (image0 m) = le32_list (pageCrcs m)"
proof -
  note b = image0_bounds [OF assms]
  have n: "56 \<le> image_size m" using b by linarith
  show "slice 56 (length (key m)) (image0 m) = map byte_of_char (key m)"
    "slice (bitmap_off (length (key m))) (length (pb_bits (bitmap m))) (image0 m) = pb_bits (bitmap m)"
    unfolding image0_eq [OF assms] using b n
    by (simp_all add: slice_overwrite_same slice_overwrite_other)
  have "drop off (overwrite xs off ys) = ys" if "off + length ys = length xs" for off and xs ys :: bytes
    using that by (simp add: overwrite_def)
  then show "drop (crcs_off m) (image0 m) = le32_list (pageCrcs m)"
    unfolding image0_eq [OF assms] using b n by simp
qed

section \<open>Round trip\<close>

lemma serialize_low:
  assumes "meta_ok m" and "o2 + k \<le> 52 \<or> 56 \<le> o2"
  shows "slice o2 k (serialize m) = slice o2 k (image0 m)" "get_le k (serialize m) o2 = get_le k (image0 m) o2"
proof -
  have "56 \<le> length (image0 m)" using image0_bounds [OF assms(1)] by (simp add: length_image0 [OF assms(1)])
  with assms(2) show "slice o2 k (serialize m) = slice o2 k (image0 m)"
    by (auto simp: serialize_def kCrcFieldOff_def slice_put_le_other)
  then show "get_le k (serialize m) o2 = get_le k (image0 m) o2"
    by (simp add: get_le_def)
qed

lemma length_serialize: "meta_ok m \<Longrightarrow> length (serialize m) = image_size m"
  using image0_bounds [of m] by (simp add: serialize_def kCrcFieldOff_def length_image0)

lemma serialize_crc:
  assumes "meta_ok m"
  shows "get_le 4 (serialize m) 52 = unat (crc32c (image0 m))"
    "overwrite (serialize m) 52 (replicate 4 0) = image0 m"
proof -
  have n: "56 \<le> length (image0 m)" using image0_bounds [OF assms] by (simp add: length_image0 [OF assms])
  show "get_le 4 (serialize m) 52 = unat (crc32c (image0 m))"
    using n unat_u32_bound [of "crc32c (image0 m)"]
    by (simp add: serialize_def kCrcFieldOff_def get_put_le_same)
  show "overwrite (serialize m) 52 (replicate 4 0) = image0 m"
    using n image0_header(5) [OF assms]
    by (simp add: serialize_def kCrcFieldOff_def put_le_def overwrite_restore)
qed

lemma header_serialize: "meta_ok m \<Longrightarrow> header (serialize m) = header (image0 m)"
  by (simp add: header_def serialize_low)

lemma bm_reload:
  assumes "bm_ok b"
  shows "bm_recount (bm_load_raw (bm_reset (pb_npages b)) (pb_bits b)) = b"
proof -
  have "length (filter (bm_get b) [0..<pb_npages b]) = pb_count b"
    using assms by (simp add: count_pages bm_count)
  moreover have "bm_get (bm_load_raw (bm_reset (pb_npages b)) (pb_bits b)) = bm_get b"
    by (intro ext) (simp add: bm_get_def bm_load_raw_def)
  ultimately show ?thesis by (simp add: bm_recount_def bm_load_raw_def bm_reset_def)
qed

lemma deserialize_serialize:
  assumes "meta_ok m"
  shows "deserialize (serialize m) = (if length (key m) \<le> 64 * 1024 then Some m else None)"
proof -
  note b = image0_bounds [OF assms] and s = serialize_low [OF assms] and h = image0_header [OF assms]
    and bd = image0_body [OF assms]
  have np: "npages (header (serialize m)) = npages m"
    using h(3) header_serialize [OF assms] by (simp add: npages_def)
  have small: "npages m + 7 < 2 ^ 64" "npages m * 4 < 2 ^ 64" "crcs_off m < 2 ^ 64"
    "length (key m) < 2 ^ 32" "\<not> bad_pageSize (pageSize m)"
    "length (pb_bits (bitmap m)) = (npages m + 7) div 8" "length (pageCrcs m) = npages m"
    using assms b by (auto simp: meta_ok_def bm_ok_def)
  have bm: "bm_recount (bm_load_raw (bm_reset (npages m)) (pb_bits (bitmap m))) = bitmap m"
    using assms bm_reload [of "bitmap m"] by (simp add: meta_ok_def)
  have dr: "drop (crcs_off m) (serialize m) = le32_list (pageCrcs m)"
    using s(1) [of "crcs_off m" "image_size m"] b bd(3)
    by (simp add: slice_def length_serialize [OF assms] length_image0 [OF assms])
  have cr: "rd32_list (npages m) (le32_list (pageCrcs m)) = pageCrcs m"
    using rd32_le32 [of "npages m" "pageCrcs m" "[]"] small(7) by simp
  have sl: "slice (bitmap_off (length (key m))) ((npages m + 7) div 8) (image0 m) = pb_bits (bitmap m)"
    using bd(2) small(6) by simp
  have ks: "map (char_of_byte \<circ> byte_of_char) (key m) = key m"
    by (simp add: o_def)
  have "56 \<le> crcs_off m" using b by linarith
  with small b bm dr cr np show ?thesis
    by (simp add: sl ks deserialize_def Let_def kHeaderSize_def kCrcFieldOff_def length_serialize [OF assms]
        s h header_serialize [OF assms] serialize_crc [OF assms] align8_eq bd
        crcs_off_def [symmetric] image_size_def)
qed

section \<open>Corruption\<close>

lemma deserialize_SomeD:
  assumes "deserialize p = Some m"
  shows "56 \<le> length p" "slice 0 4 p = kMagic" "get_le 4 p 48 \<le> 65536"
    "crc_field_ok 52 p"
    "length p = u64 (u64 (align8 (56 + get_le 4 p 48) + u64 (npages (header p) + 7) div 8) +
       u64 (npages (header p) * 4))"
    "\<not> bad_pageSize (pageSize (header p))"
  using assms
  by (auto simp: deserialize_def Let_def kHeaderSize_def kCrcFieldOff_def crc_field_ok_def split: if_splits)

lemma one_byte_rejected:
  assumes "crc_field_ok 52 s" and "56 \<le> length s" and "p < length s" and "b \<noteq> s ! p"
  shows "deserialize (s[p := b]) = None"
proof -
  have "deserialize (s[p := b]) = Some m \<Longrightarrow> crc_field_ok 52 (s[p := b])" for m
    using deserialize_SomeD(4) by blast
  then show ?thesis using crc_field_flip [OF assms(1) _ assms(3,4)] assms(2) by fastforce
qed

lemma truncated_rejected:
  assumes "deserialize s = Some m" and "k < length s"
  shows "deserialize (take k s) = None"
proof (cases "56 \<le> k")
  case False
  with assms(2) show ?thesis by (simp add: deserialize_def Let_def kHeaderSize_def)
next
  case True
  have g: "get_le n (take k s) o2 = get_le n s o2" if "o2 + n \<le> 56" for n o2
    using that True assms(2) by (simp add: get_le_def slice_def drop_take min_def)
  have "header (take k s) = header s" by (simp add: header_def g)
  moreover have "get_le 4 (take k s) 48 = get_le 4 s 48" by (simp add: g)
  ultimately show ?thesis
    using deserialize_SomeD(5) [OF assms(1)] deserialize_SomeD(5) [of "take k s"] assms(2)
    by (cases "deserialize (take k s)") auto
qed

section \<open>Decoded images are well-formed\<close>

text \<open>Any accepted image whose file size is below \<open>2 ^ 61\<close> gives well-formed metadata. Without
  the bound the geometry test can be passed by sums that wrap.\<close>

lemma header_bounds:
  "pageSize (header p) < 2 ^ 32" "fileSize (header p) < 2 ^ 64" "atime (header p) < 2 ^ 64"
  "originMtime (header p) < 2 ^ 64" "cksumKind (header p) < 2 ^ 8" "originCksum (header p) < 2 ^ 32"
  using get_le_bound [of 4 p 8] get_le_bound [of 8 p 16] get_le_bound [of 8 p 24]
    get_le_bound [of 8 p 32] get_le_bound [of 1 p 40] get_le_bound [of 4 p 44]
  by (simp_all add: header_def)

lemma deserialize_eq:
  assumes "deserialize p = Some m"
  shows "\<exists>klen np bo co. klen = get_le 4 p 48 \<and> np = npages (header p) \<and> bo = align8 (56 + klen) \<and>
    co = u64 (bo + u64 (np + 7) div 8) \<and> m = (header p)\<lparr>key := map char_of_byte (slice 56 klen p),
      bitmap := bm_recount (bm_load_raw (bm_reset np) (slice bo (u64 (np + 7) div 8) p)),
      pageCrcs := rd32_list np (drop co p)\<rparr>"
  using assms
  by (auto simp: deserialize_def Let_def kHeaderSize_def kCrcFieldOff_def split: if_splits)

lemma deserialize_meta_ok:
  assumes d: "deserialize p = Some m" and fs: "fileSize m < 2 ^ 61"
  shows "meta_ok m \<and> length p = image_size m"
proof -
  obtain klen np bo co where k: "klen = get_le 4 p 48" "np = npages (header p)" "bo = align8 (56 + klen)"
      "co = u64 (bo + u64 (np + 7) div 8)" and m: "m = (header p)\<lparr>key := map char_of_byte (slice 56 klen p),
      bitmap := bm_recount (bm_load_raw (bm_reset np) (slice bo (u64 (np + 7) div 8) p)),
      pageCrcs := rd32_list np (drop co p)\<rparr>"
    using deserialize_eq [OF d] by blast
  note D = deserialize_SomeD [OF d] and hb = header_bounds [of p]
  have f: "fileSize (header p) < 2 ^ 61" using fs m by simp
  have ps: "0 < pageSize (header p)" using D(6) by (simp add: bad_pageSize_def)
  have "npages (header p) = ceil_div (fileSize (header p)) (pageSize (header p))"
    using f ps hb(1) by (simp add: npages_def ceil_div_def)
  also have "\<dots> < 2 ^ 61"
  proof -
    have "fileSize (header p) \<le> fileSize (header p) * pageSize (header p)" using ps by simp
    then have "ceil_div (fileSize (header p)) (pageSize (header p)) \<le> fileSize (header p)"
      using ceil_div_le_iff [OF ps] by blast
    then show ?thesis using f by simp
  qed
  finally have np: "np < 2 ^ 61" using k by simp
  have kl: "klen \<le> 65536" using D(3) k by simp
  have bo: "bo = bitmap_off klen" using kl k(3) by (simp add: align8_eq)
  note bob = bitmap_off_ge [of klen]
  have u: "u64 (np + 7) = np + 7" "co = bo + (np + 7) div 8"
    using np kl bob k(4) bo by simp_all
  have "length p = u64 (u64 (bo + u64 (np + 7) div 8) + u64 (np * 4))"
    using D(5) by (simp only: k)
  also have "u64 (bo + u64 (np + 7) div 8) = bo + (np + 7) div 8"
    using u k(4) by simp
  also have "u64 (bo + (np + 7) div 8 + u64 (np * 4)) = bo + (np + 7) div 8 + np * 4"
    using np kl bob bo by simp
  finally have len: "length p = bo + (np + 7) div 8 + np * 4" .
  have npm: "npages m = np" using m k by (simp add: npages_def)
  have bits: "length (slice bo (u64 (np + 7) div 8) p) = (np + 7) div 8"
    using len u by simp
  have "bm_ok (bitmap m)" "pb_npages (bitmap m) = np"
    using bm_recount_ok [of "bm_load_raw (bm_reset np) (slice bo (u64 (np + 7) div 8) p)"] bits np
    by (simp_all add: m bm_load_raw_def bm_reset_def bm_recount_def)
  moreover have "length (key m) = klen" using m len bo bob by simp
  ultimately show ?thesis
    using hb f D(6) np npm kl len bo m
    by (auto simp: meta_ok_def image_size_def crcs_off_def)
qed

lemma bad_pageSize_small [simp]: "\<not> bad_pageSize 4" "\<not> bad_pageSize (Suc 0)" "bad_pageSize 0"
  by (simp_all add: bad_pageSize_def)

lemma fresh_fields:
  assumes "\<not> bad_pageSize ps" and "ps < 2 ^ 32" and "fs < 2 ^ 61"
  shows "npages (fresh k fs ps now) = ceil_div fs ps" "bitmap (fresh k fs ps now) = bm_reset (ceil_div fs ps)"
    "pageCrcs (fresh k fs ps now) = replicate (ceil_div fs ps) 0"
proof -
  have "0 < ps" using assms(1) by (simp add: bad_pageSize_def)
  moreover have "fs + ps - Suc 0 < 2 ^ 64" using assms by simp
  ultimately show "npages (fresh k fs ps now) = ceil_div fs ps"
      "bitmap (fresh k fs ps now) = bm_reset (ceil_div fs ps)"
      "pageCrcs (fresh k fs ps now) = replicate (ceil_div fs ps) 0"
    by (simp_all add: fresh_def Let_def npages_def ceil_div_def)
qed

lemma fresh_meta_ok:
  assumes "\<not> bad_pageSize ps" and "ps < 2 ^ 32" and "fs < 2 ^ 61" and "now < 2 ^ 64" and "length k < 2 ^ 32"
  shows "meta_ok (fresh k fs ps now)"
proof -
  note f = fresh_fields [OF assms(1-3)]
  have p: "0 < ps" using assms(1) by (simp add: bad_pageSize_def)
  have "fs \<le> fs * ps" using p by simp
  then have "ceil_div fs ps \<le> fs" using ceil_div_le_iff [OF p] by blast
  then have b: "ceil_div fs ps < 2 ^ 61" using assms by simp
  then have "bm_ok (bm_reset (ceil_div fs ps))" by (simp add: bm_reset_ok)
  moreover have "pageSize (fresh k fs ps now) = ps" "fileSize (fresh k fs ps now) = fs"
      "atime (fresh k fs ps now) = now" "originMtime (fresh k fs ps now) = 0" "key (fresh k fs ps now) = k"
      "cksumKind (fresh k fs ps now) = 0" "originCksum (fresh k fs ps now) = 0"
    by (simp_all add: fresh_def Let_def kCksumNone_def)
  ultimately show ?thesis
    unfolding meta_ok_def using f b assms by simp
qed

text \<open>An image whose declared geometry wraps (checksum field still zero).\<close>

definition wrapped0 :: bytes where
  "wrapped0 = kMagic @ le_bytes 4 1 @ le_bytes 4 1 @ le_bytes 4 0 @ le_bytes 8 (2 ^ 64 - 1) @
     replicate 24 0 @ le_bytes 4 8 @ replicate 8 0"

section \<open>Properties\<close>

text \<open>C26. The image codec is a round trip on well-formed metadata with a key of at most 64 KiB; a
  longer key is written but never read back.\<close>

theorem serialize_roundtrip:
  assumes "meta_ok m"
  shows "deserialize (serialize m) = (if length (key m) \<le> 64 * 1024 then Some m else None) \<and>
    length (serialize m) = image_size m"
  using deserialize_serialize [OF assms] length_serialize [OF assms] by simp

theorem serialize_roundtrip_witness:
  "meta_ok (fresh ''k'' 10 4 0) \<and>
   deserialize (serialize (fresh ''k'' 10 4 0)) = Some (fresh ''k'' 10 4 0)"
  using serialize_roundtrip [of "fresh ''k'' 10 4 0"] fresh_meta_ok [of 4 10 0 "''k''"]
  by (simp add: fresh_def Let_def)

text \<open>C27. No accepted image stays acceptable when one byte of it changes or when it is cut short,
  so a torn or flipped sidecar is a load failure and never different metadata.\<close>

theorem corrupt_image_rejected:
  assumes "deserialize s = Some m"
  shows "(\<forall>p b. p < length s \<and> b \<noteq> s ! p \<longrightarrow> deserialize (s[p := b]) = None) \<and>
    (\<forall>k<length s. deserialize (take k s) = None)"
  using one_byte_rejected [OF deserialize_SomeD(4,1) [OF assms]] truncated_rejected [OF assms] by blast

theorem corrupt_image_rejected_witness:
  "deserialize (take 56 (serialize (fresh ''k'' 10 4 0))) = None"
proof -
  have ok: "meta_ok (fresh ''k'' 10 4 0)" using fresh_meta_ok [of 4 10 0 "''k''"] by simp
  have d: "deserialize (serialize (fresh ''k'' 10 4 0)) = Some (fresh ''k'' 10 4 0)"
    using deserialize_serialize [OF ok] by (simp add: fresh_def Let_def)
  have "56 < length (serialize (fresh ''k'' 10 4 0))"
    using length_serialize [OF ok] image0_bounds(1) [OF ok]
    by (simp add: image_size_def crcs_off_def fresh_def Let_def)
  with corrupt_image_rejected [OF d] show ?thesis by blast
qed

text \<open>The size test of \<^verbatim>\<open>deserialize\<close> compares sums that wrap: a 60-byte image with page size 1 and
  file size \<open>2 ^ 64 - 1\<close> passes every test, although it declares \<open>2 ^ 64 - 1\<close> pages and has
  no room for their bitmap.\<close>

theorem geometry_wraps:
  "\<exists>p m. length p = 60 \<and> deserialize p = Some m \<and> npages m = 2 ^ 64 - 1 \<and>
     length (pb_bits (bitmap m)) = 0"
proof -
  let ?p = "put_le 4 wrapped0 kCrcFieldOff (unat (crc32c wrapped0))"
  note ss = slice_simps wrapped0_def get_le_def kFormatVersion_def
  have l: "length wrapped0 = 60" by (simp add: wrapped0_def)
  have f: "slice 0 4 wrapped0 = kMagic" "get_le 4 wrapped0 4 = 1" "get_le 4 wrapped0 8 = 1"
      "get_le 8 wrapped0 16 = 2 ^ 64 - 1" "get_le 4 wrapped0 48 = 8"
    by (simp_all add: ss)
  have z: "slice 52 4 wrapped0 = replicate 4 0"
    by (simp add: ss slice_def)
  have g: "slice 0 4 ?p = kMagic" "get_le 4 ?p 4 = 1" "get_le 4 ?p 8 = 1"
      "get_le 8 ?p 16 = 2 ^ 64 - 1" "get_le 4 ?p 48 = 8" "get_le 4 ?p 52 = unat (crc32c wrapped0)"
      "length ?p = 60"
    using l f unat_u32_bound [of "crc32c wrapped0"]
    by (simp_all add: kCrcFieldOff_def slice_put_le_other get_put_le_other get_put_le_same)
  have r: "overwrite ?p 52 (replicate 4 0) = wrapped0"
    using l z by (simp add: kCrcFieldOff_def put_le_def overwrite_restore)
  define p where "p = ?p"
  have h: "pageSize (header p) = 1" "npages (header p) = 2 ^ 64 - 1"
    using g unfolding p_def [symmetric] by (simp_all add: npages_def header_def)
  have "deserialize p \<noteq> None"
    using g r h unfolding p_def [symmetric]
    by (simp add: deserialize_def Let_def kHeaderSize_def kCrcFieldOff_def kFormatVersion_def align8_def
        u64_def)
  then obtain m where m: "deserialize p = Some m" by blast
  have "npages m = 2 ^ 64 - 1 \<and> length (pb_bits (bitmap m)) = 0"
    using deserialize_eq [OF m] h by (auto simp: npages_def bm_load_raw_def bm_recount_def u64_def)
  with m g(7) p_def show ?thesis by blast
qed

end
