(* ===== verification/Image_File.thy ===== *)
theory Image_File
  imports IO_Backend
begin

text \<open>
  Sidecar images on disk. \<^verbatim>\<open>MetaFile\<close> and \<^verbatim>\<open>ReplicaFile\<close> (\<^verbatim>\<open>src/src/core\<close>) each have a \<open>load\<close>,
  which reads the whole file, and a \<open>store\<close>, which writes a scratch file and renames it into
  place; the two copies differ only in the image they decode and encode, so the file
  operations are modelled once, over bytes. Shown for every schedule of faults: a load returns
  the bytes under the name or nothing and changes no name and no byte; the rewrite
  replaces the image whole or leaves the old one.
\<close>

section \<open>The whole-file read and the atomic rewrite\<close>

definition read_image :: "io \<Rightarrow> string \<Rightarrow> bytes option \<times> io" where
  "read_image io path =
     (case io_stat io path of
        (Inl _, io1) \<Rightarrow> (None, io1)
      | (Inr sz, io1) \<Rightarrow>
          if sz = 0 \<or> sz > 2 ^ 31 then (None, io1)
          else case io_open io1 path False False of (fd, io2) \<Rightarrow>
            if fd < 0 then (None, io2)
            else case preadFull io2 (nat fd) sz 0 [] of (r, buf, io3) \<Rightarrow>
              let io4 = snd (io_close io3 (nat fd))
              in if r \<noteq> int sz then (None, io4) else (Some buf, io4))"

definition write_image :: "io \<Rightarrow> string \<Rightarrow> bytes \<Rightarrow> bool \<Rightarrow> int \<times> io" where
  "write_image io path buf fsyncMeta =
     (let tmp = path @ ''.tmp''
      in case io_open io tmp True True of (fd, io1) \<Rightarrow>
         if fd < 0 then (fd, io1)
         else case pwriteFull io1 (nat fd) buf 0 0 of (w, io2) \<Rightarrow>
           let rc0 = (if w \<noteq> int (length buf) then (if w < 0 then w else - EIO) else 0);
               (rc1, io3) = (if rc0 = 0 \<and> fsyncMeta then io_fdatasync io2 (nat fd) else (rc0, io2));
               (c, io4) = io_close io3 (nat fd);
               rc2 = (if rc1 = 0 \<and> c < 0 then c else rc1)
           in if rc2 \<noteq> 0 then (rc2, snd (io_unlink io4 tmp))
              else case io_rename io4 tmp path of (rc3, io5) \<Rightarrow>
                if rc3 \<noteq> 0 then (rc3, snd (io_unlink io5 tmp)) else (rc3, io5))"

section \<open>The rewrite is atomic\<close>

text \<open>Only the scratch name \<^verbatim>\<open>path.tmp\<close> may denote its inode: the hypothesis under which a
  write through it cannot reach another file.\<close>

definition tmp_private :: "io \<Rightarrow> string \<Rightarrow> bool" where
  "tmp_private io path \<longleftrightarrow>
     (case map_of (io_names io) (path @ ''.tmp'') of None \<Rightarrow> True
      | Some i \<Rightarrow> list_all (\<lambda>e. snd e = i \<longrightarrow> fst e = path @ ''.tmp'') (io_names io))"

lemma tmp_privateD:
  "tmp_private io path \<Longrightarrow> map_of (io_names io) (path @ ''.tmp'') = Some i \<Longrightarrow>
   map_of (io_names io) q = Some i \<Longrightarrow> q = path @ ''.tmp''"
  by (auto simp: tmp_private_def list_all_iff dest!: map_of_SomeD [of _ q])

lemma store_frame:
  assumes "\<And>p. p \<noteq> tmp \<Longrightarrow> map_of (io_names b) p = map_of (io_names a) p"
    and "\<And>j. j \<noteq> i \<Longrightarrow> content b j = content a j" and "map_of (io_names a) q \<noteq> Some i" and "q \<noteq> tmp"
  shows "file_at b q = file_at a q"
  using assms by (cases "map_of (io_names a) q") (auto simp: file_at_def)

lemma write_image_spec:
  assumes s: "write_image io path buf sync = (rc, io1)" and ok: "io_ok io" and tp: "tmp_private io path"
    and q: "q \<noteq> path @ ''.tmp''"
  shows "file_at io1 q = (if q = path \<and> rc = 0 then Some (buf) else file_at io q)"
proof -
  let ?tmp = "path @ ''.tmp''" and ?buf = "buf"
  have ne: "?tmp \<noteq> path" by simp
  obtain fd a where o: "io_open io ?tmp True True = (fd, a)" by fastforce
  show ?thesis
  proof (cases "fd < 0")
    case True
    then have "io_same io a" "rc = fd" "io1 = a"
      using io_open_trunc [OF o ok] s o by (auto simp: write_image_def Let_def)
    then show ?thesis using io_sameD [of io a] True by (auto simp: file_at_def cong: option.map_cong)
  next
    case False
    then obtain i where i: "map_of (io_fds a) (nat fd) = Some i" "map_of (io_names a) ?tmp = Some i"
        "\<And>x. x \<noteq> ?tmp \<Longrightarrow> map_of (io_names a) x = map_of (io_names io) x" "content a i = []"
        "\<And>j. j \<noteq> i \<Longrightarrow> content a j = content io j"
        "map_of (io_names io) ?tmp = Some i \<or> map_of (io_names io) ?tmp = None \<and> i = io_next io"
      using io_open_trunc [OF o ok] by auto
    have free: "map_of (io_names io) x \<noteq> Some i" if "x \<noteq> ?tmp" for x
      using i(6) that tmp_privateD [OF tp] io_ok_names [OF ok] by blast
    obtain w b where w: "pwriteFull a (nat fd) ?buf 0 0 = (w, b)" by fastforce
    have b: "io_frame i a b" "w = int (length ?buf) \<Longrightarrow> content b i = ?buf"
      using pwriteFull_spec [OF w i(1), of "[]"] i(4) by (auto simp: pwrite_bytes_def)
    define rc0 where "rc0 = (if w \<noteq> int (length ?buf) then (if w < 0 then w else - EIO) else 0)"
    obtain rc1 c where c: "(if rc0 = 0 \<and> sync then io_fdatasync b (nat fd) else (rc0, b)) = (rc1, c)"
      by fastforce
    have cs: "io_same b c" using c io_fdatasync_same [of b "nat fd" rc1 c] by (auto split: if_splits)
    have r01: "rc1 = 0 \<Longrightarrow> rc0 = 0" using c by (auto split: if_splits)
    obtain k d where d: "io_close c (nat fd) = (k, d)" by fastforce
    have dn: "io_names d = io_names a" "\<And>j. j \<noteq> i \<Longrightarrow> content d j = content io j"
        "rc0 = 0 \<Longrightarrow> content d i = ?buf"
      using io_close_keeps [OF d] io_sameD [OF cs] b i(5)
      by (auto simp: io_frame_def rc0_def EIO_def split: if_splits)
    define rc2 where "rc2 = (if rc1 = 0 \<and> k < 0 then k else rc1)"
    have s': "(if rc2 \<noteq> 0 then (rc2, snd (io_unlink d ?tmp)) else case io_rename d ?tmp path of
        (rc3, e) \<Rightarrow> if rc3 \<noteq> 0 then (rc3, snd (io_unlink e ?tmp)) else (rc3, e)) = (rc, io1)"
      using s o False w c d by (simp only: write_image_def Let_def rc0_def rc2_def split if_False case_prod_conv)
    have unl: "file_at (snd (io_unlink e ?tmp)) q = file_at io q"
      if "\<And>x. x \<noteq> ?tmp \<Longrightarrow> map_of (io_names e) x = map_of (io_names io) x"
        "\<And>j. j \<noteq> i \<Longrightarrow> content e j = content io j" for e
      using io_unlink_keeps [of e ?tmp] that free [OF q] q
      by (intro store_frame [of ?tmp _ _ i]) (metis surjective_pairing)+
    show ?thesis
    proof (cases "rc2 = 0")
      case False
      with s' unl [of d] dn i(3) show ?thesis by auto
    next
      case rc2: True
      obtain rc3 e where e: "io_rename d ?tmp path = (rc3, e)" by fastforce
      note ef = io_rename_effect [OF e ne]
      show ?thesis
      proof (cases "rc3 = 0")
        case False
        then have "io_same d e" using ef(4) by simp
        with False s' e rc2 unl [of e] dn i(3) io_sameD [of d e] show ?thesis by auto
      next
        case True
        have "rc0 = 0" using rc2 r01 unfolding rc2_def by (auto split: if_splits)
        then have "file_at e path = Some ?buf"
          using ef(1,3) True dn i(2) by (simp add: file_at_def)
        moreover have "file_at e q = file_at io q" if "q \<noteq> path"
          using ef(1,2) dn i(3) free [OF q] q that
          by (cases "map_of (io_names io) q") (auto simp: file_at_def)
        ultimately show ?thesis using s' e rc2 True by auto
      qed
    qed
  qed
qed

section \<open>Loads\<close>

lemma io_open_existing:
  assumes "io_open io p False False = (fd, io1)"
  shows "io_names io1 = io_names io \<and> (\<forall>i. content io1 i = content io i) \<and>
    (0 \<le> fd \<longrightarrow> (\<exists>i. map_of (io_names io) p = Some i \<and> map_of (io_fds io1) (nat fd) = Some i))"
proof -
  obtain oc io2 where o: "next_outcome io = (oc, io2)" by fastforce
  note sd = io_sameD [OF next_outcome_same [OF o]]
  show ?thesis
    using assms o sd
    by (auto simp: io_open_def Let_def errval_def errno_defs AList.update_conv'
        split: outcome.splits option.splits if_splits)
qed

text \<open>What a load may change: open descriptors and the schedule, never a name or a byte.\<close>

definition store_eq :: "io \<Rightarrow> io \<Rightarrow> bool" where
  "store_eq a b \<longleftrightarrow> io_names b = io_names a \<and> (\<forall>i. content b i = content a i)"

lemma store_eq_file_at: "store_eq a b \<Longrightarrow> file_at b p = file_at a p"
  by (simp add: store_eq_def file_at_def cong: option.map_cong)

lemma store_eq_trans [trans]: "store_eq a b \<Longrightarrow> store_eq b c \<Longrightarrow> store_eq a c"
  by (simp add: store_eq_def)

lemma io_same_store_eq: "io_same a b \<Longrightarrow> store_eq a b"
  using io_sameD [of a b] by (simp add: store_eq_def)

lemma close_store_eq: "store_eq a (snd (io_close a fd))"
  using io_close_keeps [of a fd "fst (io_close a fd)" "snd (io_close a fd)"] by (simp add: store_eq_def)

lemma preadFull_length_le:
  assumes "preadFull io fd cnt off [] = (r, xs, io1)" and "map_of (io_fds io) fd = Some i" and "r = int cnt"
  shows "xs = slice off cnt (content io i) \<and> length xs = cnt"
  using preadFull_spec [OF assms(1,2)] assms(3) by auto

lemma stat_size:
  assumes "io_stat io p = (Inr sz, io1)"
  shows "file_at io p \<noteq> None \<and> sz = length (the (file_at io p))"
proof -
  obtain oc io2 where o: "next_outcome io = (oc, io2)" by fastforce
  note sd = io_sameD [OF next_outcome_same [OF o]]
  show ?thesis using assms o sd
    by (auto simp: io_stat_def file_at_def split: outcome.splits option.splits)
qed

lemma read_image_spec:
  assumes l: "read_image io path = (res, io1)"
  shows "store_eq io io1 \<and> (\<forall>bs. res = Some bs \<longrightarrow> file_at io path = Some bs)"
proof -
  obtain st a where s: "io_stat io path = (st, a)" by fastforce
  have sa: "store_eq io a" using io_stat_same [OF s] io_same_store_eq by blast
  show ?thesis
  proof (cases st)
    case (Inl e)
    with l s sa show ?thesis by (auto simp: read_image_def)
  next
    case (Inr sz)
    note size = stat_size [OF s [unfolded Inr]]
    obtain fd b where o: "io_open a path False False = (fd, b)" by fastforce
    note ob = io_open_existing [OF o]
    have sb: "store_eq io b" using sa ob by (simp add: store_eq_def)
    show ?thesis
    proof (cases "sz = 0 \<or> sz > 2 ^ 31 \<or> fd < 0")
      case True
      with l s o Inr sa sb show ?thesis by (auto simp: read_image_def split: if_splits)
    next
      case False
      obtain r buf c where p: "preadFull b (nat fd) sz 0 [] = (r, buf, c)" by (metis prod_cases3)
      obtain i where i: "map_of (io_names a) path = Some i" "map_of (io_fds b) (nat fd) = Some i"
        using ob False by auto
      have fa: "file_at io path = Some (content io i)"
        using i(1) sa by (simp add: file_at_def store_eq_def)
      have sc: "store_eq io c" using store_eq_trans [OF sb] preadFull_spec [OF p i(2)] io_same_store_eq by auto
      have sd: "store_eq io (snd (io_close c (nat fd)))" using store_eq_trans [OF sc close_store_eq] .
      have eq: "(res, io1) = (if r \<noteq> int sz then None else Some buf, snd (io_close c (nat fd)))"
        using l s o Inr False p by (auto simp: read_image_def Let_def)
      have "buf = content io i" if "r = int sz"
        using preadFull_length_le [OF p i(2) that] fa size sb by (simp add: store_eq_def slice_all)
      with eq sd fa show ?thesis by auto
    qed
  qed
qed

text \<open>Without faults both loads read the whole image.\<close>

lemma preadFull_quiet:
  assumes "io_sched io = []" and "map_of (io_fds io) fd = Some i" and "off + cnt \<le> length (content io i)"
  shows "\<exists>io1. preadFull io fd cnt off [] = (int cnt, slice off cnt (content io i), io1) \<and>
    io_sched io1 = [] \<and> io_same io io1"
proof -
  obtain r xs io1 where p: "preadFull io fd cnt off [] = (r, xs, io1)" by (metis prod_cases3)
  have r: "r = int cnt"
    using preadFull_benign [of io fd i "[]" off cnt] assms p by (simp add: benign_def)
  have s: "io_sched io1 = []"
    using p assms by (auto simp: preadFull.simps [of io] io_pread_def Let_def preadFull.simps [of io1]
        split: if_splits)
  show ?thesis using preadFull_length_le [OF p assms(2) r] preadFull_spec [OF p assms(2)] p r s by simp
qed

lemma open_quiet:
  assumes "io_sched io = []" and "map_of (io_names io) p = Some i"
  shows "io_open io p False False =
    (int (io_next io), io\<lparr>io_fds := AList.update (io_next io) i (io_fds io), io_next := io_next io + 1\<rparr>)"
  using assms by (simp add: io_open_def Let_def)

lemma stat_quiet:
  assumes "io_sched io = []" and "map_of (io_names io) p = Some i"
  shows "io_stat io p = (Inr (length (content io i)), io)"
  using assms by (simp add: io_stat_def)

lemma file_atE:
  assumes "file_at io p = Some bs"
  obtains i where "map_of (io_names io) p = Some i" "content io i = bs"
  using assms by (auto simp: file_at_def)

lemma read_image_quiet:
  assumes "io_sched io = []" and "file_at io path = Some bs" and "0 < length bs" and "length bs \<le> 2 ^ 31"
  shows "fst (read_image io path) = Some bs"
proof -
  obtain i where i: "map_of (io_names io) path = Some i" "content io i = bs"
    using file_atE [OF assms(2)] .
  let ?a = "io\<lparr>io_fds := AList.update (io_next io) i (io_fds io), io_next := io_next io + 1\<rparr>"
  obtain io1 where "preadFull ?a (io_next io) (length bs) 0 [] = (int (length bs), bs, io1)"
    using preadFull_quiet [of ?a "io_next io" i 0 "length bs"] assms(1) i
    by (auto simp: AList.update_conv' slice_all)
  with assms i show ?thesis
    by (simp add: read_image_def Let_def stat_quiet [OF assms(1) i(1)] open_quiet [OF assms(1) i(1)])
qed

text \<open>An empty file system without faults, the start of the examples.\<close>

definition empty_io :: io where
  "empty_io = \<lparr>io_names = [], io_inodes = [], io_fds = [], io_next = 3, io_sched = []\<rparr>"

lemma empty_io_ok [simp]: "io_ok empty_io" "tmp_private empty_io p" "io_sched empty_io = []"
  by (simp_all add: io_ok_def empty_io_def tmp_private_def)

lemma pwriteFull_quiet:
  assumes "io_sched io = []" and "map_of (io_fds io) fd = Some i"
  shows "fst (pwriteFull io fd buf 0 0) = int (length buf) \<and> io_sched (snd (pwriteFull io fd buf 0 0)) = []"
  using assms
  by (cases "buf = []")
    (simp_all add: pwriteFull.simps [of io] io_pwrite_def Let_def pwriteFull.simps [of "set_content _ _ _"])

lemma write_image_quiet:
  assumes "io_sched io = []" and "io_ok io"
  shows "fst (write_image io path buf sync) = 0 \<and> io_sched (snd (write_image io path buf sync)) = []"
proof -
  let ?tmp = "path @ ''.tmp''"
  obtain fd a where o: "io_open io ?tmp True True = (fd, a)" by fastforce
  have fd: "0 \<le> fd" "io_sched a = []"
    using o assms(1) by (auto simp: io_open_def Let_def split: option.splits)
  then obtain i where i: "map_of (io_fds a) (nat fd) = Some i" "map_of (io_names a) ?tmp = Some i"
    using io_open_trunc [OF o assms(2)] by auto
  obtain w b where w: "pwriteFull a (nat fd) (buf) 0 0 = (w, b)" by fastforce
  have b: "w = int (length (buf))" "io_sched b = []" "io_fds b = io_fds a" "io_names b = io_names a"
    using pwriteFull_quiet [OF fd(2) i(1), of "buf"] w pwriteFull_spec [OF w i(1), of "content a i"]
    by (simp_all add: io_frame_def)
  with o fd i w show ?thesis
    by (simp add: write_image_def Let_def io_fdatasync_def io_close_def io_rename_def)
qed

lemma preadFull_sched: "io_sched io = [] \<Longrightarrow> preadFull io fd cnt off acc = (r, xs, io1) \<Longrightarrow> io_sched io1 = []"
proof (induction io fd cnt off acc rule: preadFull.induct)
  case (1 io fd cnt off acc)
  obtain n ys io2 where p: "io_pread io fd (cnt - length acc) (off + length acc) = (n, ys, io2)" by (metis prod_cases3)
  have q: "io_sched io2 = []" using p "1.prems"(1) by (auto simp: io_pread_def Let_def split: option.splits)
  show ?case
    using "1.prems" "1.IH"(1) [OF _ p [symmetric] refl _ _ q] "1.IH"(2) [OF _ p [symmetric] refl _ _ q] p q
    by (auto simp: preadFull.simps [of io] split: if_splits)
qed

lemma read_image_sched: "io_sched io = [] \<Longrightarrow> io_sched (snd (read_image io path)) = []"
proof -
  assume q: "io_sched io = []"
  have o: "io_sched (snd (io_open io path False False)) = []" using q by (auto simp: io_open_def Let_def split: option.split)
  have "io_sched (snd (io_close c fd)) = []" if "io_sched c = []" for c fd using that by (simp add: io_close_def)
  with q o show ?thesis
    by (auto simp: read_image_def Let_def io_stat_def split: sum.splits prod.splits option.splits dest!: preadFull_sched [rotated])
qed

text \<open>The store reports zero or a negative error.\<close>

lemma errval_neg: "errval e < 0"
  by (simp add: errval_def)

lemma store_calls_rc:
  "fst (io_fdatasync io fd) \<le> 0" "fst (io_close io fd) \<le> 0" "fst (io_rename io a b) \<le> 0"
  using less_imp_le [OF errval_neg]
  by (auto simp: io_fdatasync_def io_close_def io_rename_def errno_defs split: outcome.split prod.split option.split)

lemma write_image_rc:
  assumes "write_image io path buf sync = (rc, io1)" shows "rc \<le> 0"
proof -
  let ?tmp = "path @ ''.tmp''" and ?buf = "buf"
  obtain r a where o: "io_open io ?tmp True True = (r, a)" by fastforce
  obtain w b where w: "pwriteFull a (nat r) ?buf 0 0 = (w, b)" by fastforce
  define rc0 where "rc0 = (if w \<noteq> int (length ?buf) then (if w < 0 then w else - EIO) else 0)"
  obtain rc1 c where c: "(if rc0 = 0 \<and> sync then io_fdatasync b (nat r) else (rc0, b)) = (rc1, c)" by fastforce
  obtain k d where d: "io_close c (nat r) = (k, d)" by fastforce
  define rc2 where "rc2 = (if rc1 = 0 \<and> k < 0 then k else rc1)"
  obtain rc3 e where e: "io_rename d ?tmp path = (rc3, e)" by fastforce
  have "rc0 \<le> 0" by (simp add: rc0_def EIO_def)
  then have r2: "rc2 \<le> 0" using c store_calls_rc(1) [of b "nat r"] by (auto simp: rc2_def split: if_splits)
  have r3: "rc3 \<le> 0" using e store_calls_rc(3) [of d ?tmp path] by simp
  show ?thesis
  proof (cases "r < 0")
    case True
    with assms o show ?thesis by (simp add: write_image_def Let_def)
  next
    case False
    have "(if rc2 \<noteq> 0 then (rc2, snd (io_unlink d ?tmp)) else case io_rename d ?tmp path of
        (rc3, e) \<Rightarrow> if rc3 \<noteq> 0 then (rc3, snd (io_unlink e ?tmp)) else (rc3, e)) = (rc, io1)"
      using assms o False w c d by (simp only: write_image_def Let_def rc0_def rc2_def split if_False case_prod_conv)
    with r2 r3 e show ?thesis by (auto split: if_splits)
  qed
qed

end
