(* ===== verification/Meta_File.thy ===== *)
theory Meta_File
  imports Meta_Image Image_File
begin

text \<open>
  The sidecar on disk (\<^verbatim>\<open>MetaFile::load\<close>, \<^verbatim>\<open>loadSummary\<close> and \<^verbatim>\<open>store\<close> of
  \<^verbatim>\<open>src/src/core/MetaFile.cc\<close>) over the file-system model. Shown for every schedule of faults:
  a load returns what the image on disk decodes to or nothing; \<open>store\<close> replaces the image
  whole or leaves the old one; and a load after a successful store gives the metadata back.
\<close>

section \<open>Loads and the atomic rewrite\<close>

definition meta_load :: "io \<Rightarrow> string \<Rightarrow> metaData option \<times> io" where
  "meta_load io path = (case read_image io path of (b, io1) \<Rightarrow> (Option.bind b deserialize, io1))"

definition meta_store :: "io \<Rightarrow> string \<Rightarrow> metaData \<Rightarrow> bool \<Rightarrow> int \<times> io" where
  "meta_store io path m fsyncMeta = write_image io path (serialize m) fsyncMeta"

definition meta_loadSummary :: "io \<Rightarrow> string \<Rightarrow> metaData option \<times> io" where
  "meta_loadSummary io path =
     (case io_stat io path of
        (Inl _, io1) \<Rightarrow> (None, io1)
      | (Inr sz, io1) \<Rightarrow>
          if sz < kHeaderSize \<or> sz > 2 ^ 31 then (None, io1)
          else case io_open io1 path False False of (fd, io2) \<Rightarrow>
            if fd < 0 then (None, io2)
            else case preadFull io2 (nat fd) kHeaderSize 0 [] of (r, hdr, io3) \<Rightarrow>
              if r \<noteq> int kHeaderSize \<or> slice 0 4 hdr \<noteq> kMagic \<or> get_le 4 hdr 4 \<noteq> kFormatVersion
              then (None, snd (io_close io3 (nat fd)))
              else
                let m = header hdr;
                    keyLen = get_le 4 hdr 48
                in if bad_pageSize (pageSize m) \<or> keyLen > 64 * 1024
                   then (None, snd (io_close io3 (nat fd)))
                   else
                     let np = npages m;
                         keyOff = kHeaderSize;
                         bitmapOff = align8 (keyOff + keyLen);
                         bitmapSize = u64 (np + 7) div 8;
                         crcsOff = u64 (bitmapOff + bitmapSize);
                         total = u64 (crcsOff + u64 (np * 4))
                     in if sz \<noteq> total then (None, snd (io_close io3 (nat fd)))
                        else case preadFull io3 (nat fd) (sub64 crcsOff keyOff) keyOff [] of (r2, buf, io4) \<Rightarrow>
                          let io5 = snd (io_close io4 (nat fd))
                          in if r2 \<noteq> int (sub64 crcsOff keyOff) then (None, io5)
                             else (Some (m\<lparr>key := map char_of_byte (slice 0 keyLen buf),
                                 bitmap := bm_recount (bm_load_raw (bm_reset np)
                                   (slice (bitmapOff - keyOff) bitmapSize buf))\<rparr>), io5))"

lemma meta_store_spec:
  "meta_store io path m sync = (rc, io1) \<Longrightarrow> io_ok io \<Longrightarrow> tmp_private io path \<Longrightarrow> q \<noteq> path @ ''.tmp'' \<Longrightarrow>
   file_at io1 q = (if q = path \<and> rc = 0 then Some (serialize m) else file_at io q)"
  unfolding meta_store_def by (rule write_image_spec)

lemma meta_store_quiet:
  "io_sched io = [] \<Longrightarrow> io_ok io \<Longrightarrow> fst (meta_store io path m sync) = 0 \<and> io_sched (snd (meta_store io path m sync)) = []"
  unfolding meta_store_def by (rule write_image_quiet)

lemma meta_store_rc: "meta_store io path m sync = (rc, io1) \<Longrightarrow> rc \<le> 0"
  unfolding meta_store_def by (rule write_image_rc)

lemma meta_load_spec:
  assumes "meta_load io path = (res, io1)"
  shows "store_eq io io1 \<and> (\<forall>m. res = Some m \<longrightarrow> (\<exists>bs. file_at io path = Some bs \<and> deserialize bs = Some m))"
proof -
  obtain b where "read_image io path = (b, io1)" "res = Option.bind b deserialize"
    using assms by (auto simp: meta_load_def split: prod.splits)
  then show ?thesis using read_image_spec [of io path b io1] by (cases b) auto
qed

lemma meta_load_quiet:
  assumes "io_sched io = []" and "file_at io path = Some bs" and "0 < length bs" and "length bs \<le> 2 ^ 31"
  shows "fst (meta_load io path) = deserialize bs"
  using read_image_quiet [OF assms] by (cases "read_image io path") (simp add: meta_load_def)

lemma meta_load_sched: "io_sched io = [] \<Longrightarrow> io_sched (snd (meta_load io path)) = []"
  using read_image_sched [of io path] by (cases "read_image io path") (simp add: meta_load_def)

lemma get_le_take: "off + k \<le> n \<Longrightarrow> get_le k (take n p) off = get_le k p off"
  by (simp add: get_le_def slice_def drop_take min_def)

lemma slice_take: "off + k \<le> n \<Longrightarrow> slice off k (take n p) = slice off k p"
  by (simp add: slice_def drop_take min_def)

lemma header_take: "56 \<le> n \<Longrightarrow> header (take n p) = header p"
  by (simp add: header_def get_le_take)

lemma meta_loadSummary_quiet:
  assumes sch: "io_sched io = []" and fa: "file_at io path = Some bs" and l: "length bs \<le> 2 ^ 31"
    and d: "deserialize bs = Some m" and fs: "fileSize m < 2 ^ 61"
  shows "fst (meta_loadSummary io path) = Some (m\<lparr>pageCrcs := []\<rparr>)"
proof -
  obtain i where i: "map_of (io_names io) path = Some i" "content io i = bs"
    using file_atE [OF fa] .
  obtain klen np bo co where k: "klen = get_le 4 bs 48" "np = npages (header bs)" "bo = align8 (56 + klen)"
      "co = u64 (bo + u64 (np + 7) div 8)" and m: "m = (header bs)\<lparr>key := map char_of_byte (slice 56 klen bs),
      bitmap := bm_recount (bm_load_raw (bm_reset np) (slice bo (u64 (np + 7) div 8) bs)),
      pageCrcs := rd32_list np (drop co bs)\<rparr>"
    using deserialize_eq [OF d] by blast
  note D = deserialize_SomeD [OF d]
  have ver: "get_le 4 bs 4 = kFormatVersion"
    using d by (auto simp: deserialize_def Let_def split: if_splits)
  have np: "np < 2 ^ 61"
  proof -
    have "npages m = np" unfolding k(2) m by (simp add: npages_def)
    then show ?thesis using deserialize_meta_ok [OF d fs] by (simp add: meta_ok_def)
  qed
  have kl: "klen \<le> 65536" using D(3) k(1) by simp
  then have bo: "bo = bitmap_off klen" using k(3) by (simp add: align8_eq)
  note bob = bitmap_off_ge [of klen]
  have "np + 7 < 2 ^ 64" "bo + (np + 7) div 8 < 2 ^ 64" using np kl bob bo by simp_all
  then have co: "co = bo + u64 (np + 7) div 8" unfolding k(4) by simp
  have tot: "length bs = u64 (co + u64 (np * 4))" using D(5) k by simp
  moreover have "np * 4 < 2 ^ 64" "co + np * 4 < 2 ^ 64"
    using np kl bob bo \<open>np + 7 < 2 ^ 64\<close> unfolding co by simp_all
  ultimately have "length bs = co + np * 4" by simp
  then have geo: "56 + klen \<le> bo" "co \<le> length bs" "klen \<le> 65536" "56 + klen \<le> co"
    using kl bob unfolding co bo by simp_all
  let ?a = "io\<lparr>io_fds := AList.update (io_next io) i (io_fds io), io_next := io_next io + 1\<rparr>"
  have fd: "map_of (io_fds ?a) (io_next io) = Some i" by (simp add: AList.update_conv')
  obtain b where b: "preadFull ?a (io_next io) 56 0 [] = (56, take 56 bs, b)" "io_sched b = []" "io_same ?a b"
    using preadFull_quiet [OF _ fd, of 0 56] sch i D(1) by (auto simp: slice_def)
  have fdb: "map_of (io_fds b) (io_next io) = Some i" using fd io_sameD [OF b(3)] by simp
  have cb: "content b i = bs" using i io_sameD [OF b(3)] by simp
  obtain c where c: "preadFull b (io_next io) (co - 56) 56 [] = (int (co - 56), slice 56 (co - 56) bs, c)"
    using preadFull_quiet [OF b(2) fdb, of 56 "co - 56"] geo D(1) cb by auto
  have hd: "header (take 56 bs) = header bs" "get_le 4 (take 56 bs) 4 = kFormatVersion"
      "get_le 4 (take 56 bs) 48 = klen" "slice 0 4 (take 56 bs) = kMagic"
    using D(2) ver k(1) by (simp_all add: header_take get_le_take slice_take)
  have sl: "slice 0 klen (slice 56 (co - 56) bs) = slice 56 klen bs"
      "slice (bo - 56) (u64 (np + 7) div 8) (slice 56 (co - 56) bs) = slice bo (u64 (np + 7) div 8) bs"
    using geo co by (simp_all add: slice_slice)
  have s56: "sub64 co 56 = co - 56" using geo by simp
  have "fst (meta_loadSummary io path) = Some ((header bs)\<lparr>key := map char_of_byte (slice 56 klen bs),
      bitmap := bm_recount (bm_load_raw (bm_reset np) (slice bo (u64 (np + 7) div 8) bs))\<rparr>)"
    using sch l i D(1,6) hd b(1) c sl tot s56 geo(3)
    by (simp add: meta_loadSummary_def Let_def stat_quiet [OF sch i(1)] open_quiet [OF sch i(1)]
        kHeaderSize_def k(2,3,4) [symmetric])
  then show ?thesis by (simp add: m header_def)
qed

section \<open>Properties\<close>

text \<open>C6. The sidecar rewrite is atomic under every schedule of faults: a reader of any name other
  than the scratch name finds the new image exactly when \<^verbatim>\<open>store\<close> returned 0 and the name is
  the sidecar's, and otherwise the bytes it would have found before.\<close>

theorem store_is_atomic:
  assumes "io_ok io" and "tmp_private io path" and "meta_store io path m sync = (rc, io1)"
    and "q \<noteq> path @ ''.tmp''"
  shows "file_at io1 q = (if q = path \<and> rc = 0 then Some (serialize m) else file_at io q)"
  using meta_store_spec [OF assms(3,1,2,4)] .

theorem store_is_atomic_witness:
  "io_ok empty_io \<and> tmp_private empty_io ''e'' \<and> (\<exists>io1. meta_store empty_io ''e'' (fresh ''k'' 10 4 0) True = (0, io1) \<and>
   file_at io1 ''e'' = Some (serialize (fresh ''k'' 10 4 0)))"
proof -
  obtain rc io1 where s: "meta_store empty_io ''e'' (fresh ''k'' 10 4 0) True = (rc, io1)" by fastforce
  then have "rc = 0" using meta_store_quiet [of empty_io "''e''" "fresh ''k'' 10 4 0" True] by simp
  with s show ?thesis using store_is_atomic [OF _ _ s, of "''e''"] by simp
qed

text \<open>C7. A load never invents metadata: on any file system and under any schedule of faults it returns nothing or exactly what the image stored under the name decodes to, and it changes no name and
  no byte. Directly after a successful store it returns nothing or the stored metadata, and the stored metadata for certain when no fault is left in the schedule.\<close>

theorem load_after_store:
  assumes "meta_load io1 path = (res, io2)"
  shows "(\<forall>q. file_at io2 q = file_at io1 q) \<and>
    (\<forall>m0. res = Some m0 \<longrightarrow> (\<exists>bs. file_at io1 path = Some bs \<and> deserialize bs = Some m0)) \<and>
    (io_ok io \<and> tmp_private io path \<and> meta_ok m \<and> length (key m) \<le> 64 * 1024 \<and> meta_store io path m sync = (0, io1) \<longrightarrow>
      (res = None \<or> res = Some m) \<and> (io_sched io1 = [] \<and> image_size m \<le> 2 ^ 31 \<longrightarrow> res = Some m))"
proof -
  have any: "(\<forall>q. file_at io2 q = file_at io1 q) \<and> (\<forall>m0. res = Some m0 \<longrightarrow> (\<exists>bs. file_at io1 path = Some bs \<and> deserialize bs = Some m0))"
    using meta_load_spec [OF assms] store_eq_file_at by auto
  have "(res = None \<or> res = Some m) \<and> (io_sched io1 = [] \<and> image_size m \<le> 2 ^ 31 \<longrightarrow> res = Some m)"
    if s: "io_ok io" "tmp_private io path" "meta_ok m" "length (key m) \<le> 64 * 1024" "meta_store io path m sync = (0, io1)"
  proof -
    have f: "file_at io1 path = Some (serialize m)"
      using meta_store_spec [OF s(5,1,2), of path] by simp
    have d: "deserialize (serialize m) = Some m" using deserialize_serialize [OF s(3)] s(4) by simp
    have l: "length (serialize m) = image_size m" "0 < image_size m"
      using length_serialize [OF s(3)] deserialize_SomeD(1) [OF d] by simp_all
    have "res = Some m" if "io_sched io1 = []" "image_size m \<le> 2 ^ 31"
      using meta_load_quiet [OF that(1) f] l that(2) d assms by simp
    with any f d show ?thesis by (cases res) auto
  qed
  with any show ?thesis by blast
qed

text \<open>A load whose first call fails, and a load after a store.\<close>

theorem load_after_store_witness:
  "\<exists>io1. meta_store empty_io ''e'' (fresh ''k'' 10 4 0) True = (0, io1) \<and>
     fst (meta_load io1 ''e'') = Some (fresh ''k'' 10 4 0) \<and>
     (\<forall>q. file_at (snd (meta_load (io1\<lparr>io_sched := [Err 5]\<rparr>) ''e'')) q = file_at io1 q)"
proof -
  let ?m = "fresh ''k'' 10 4 0"
  obtain rc io1 where s: "meta_store empty_io ''e'' ?m True = (rc, io1)" by fastforce
  then have rc: "rc = 0" "io_sched io1 = []"
    using meta_store_quiet [of empty_io "''e''" ?m True] by simp_all
  obtain res io2 where l: "meta_load io1 ''e'' = (res, io2)" by fastforce
  obtain res0 io0' where l0: "meta_load (io1\<lparr>io_sched := [Err 5]\<rparr>) ''e'' = (res0, io0')" by fastforce
  have ok: "meta_ok ?m" using fresh_meta_ok [of 4 10 0 "''k''"] by simp
  have k: "key ?m = ''k''" "npages ?m = 3"
    using fresh_fields(1) [of 4 10 "''k''" 0] by (simp_all add: fresh_def Let_def ceil_div_def)
  have sz: "image_size ?m \<le> 2 ^ 31" by (simp add: image_size_def crcs_off_def bitmap_off_def k)
  have "file_at (io1\<lparr>io_sched := [Err 5]\<rparr>) q = file_at io1 q" for q by (simp add: file_at_def content_def [abs_def])
  then show ?thesis
    using load_after_store [OF l0] load_after_store [OF l, of empty_io ?m True] ok k rc l l0 s sz by auto
qed

text \<open>Without faults \<^verbatim>\<open>loadSummary\<close> reports of an acceptable sidecar exactly what the full load
  reports except for the page checksums, which it does not read.\<close>

theorem summary_agrees_with_load:
  assumes "io_sched io = []" and "file_at io path = Some bs" and "length bs \<le> 2 ^ 31"
    and "deserialize bs = Some m" and "fileSize m < 2 ^ 61"
  shows "fst (meta_load io path) = Some m \<and> fst (meta_loadSummary io path) = Some (m\<lparr>pageCrcs := []\<rparr>)"
  using meta_load_quiet [OF assms(1,2) _ assms(3)] meta_loadSummary_quiet [OF assms]
    deserialize_SomeD(1) [OF assms(4)] assms(4) by fastforce

theorem summary_agrees_with_load_witness:
  "\<exists>io. file_at io ''e'' = Some (serialize (fresh ''k'' 10 4 0)) \<and>
     fst (meta_loadSummary io ''e'') = Some ((fresh ''k'' 10 4 0)\<lparr>pageCrcs := []\<rparr>)"
proof -
  let ?m = "fresh ''k'' 10 4 0"
  define io where "io = \<lparr>io_names = [(''e'', 1)], io_inodes = [(1, serialize ?m)], io_fds = [], io_next = 3, io_sched = []\<rparr>"
  have f: "file_at io ''e'' = Some (serialize ?m)" "io_sched io = []"
    by (simp_all add: io_def file_at_def content_def)
  have ok: "meta_ok ?m" using fresh_meta_ok [of 4 10 0 "''k''"] by simp
  have k: "key ?m = ''k''" "npages ?m = 3" "fileSize ?m = 10"
    using fresh_fields(1) [of 4 10 "''k''" 0] by (simp_all add: fresh_def Let_def ceil_div_def)
  have l: "length (serialize ?m) \<le> 2 ^ 31"
    by (simp add: length_serialize [OF ok] image_size_def crcs_off_def bitmap_off_def k)
  have d: "deserialize (serialize ?m) = Some ?m" using deserialize_serialize [OF ok] k by simp
  show ?thesis using summary_agrees_with_load [OF f(2,1) l d] f k by auto
qed

end
