(* ===== verification/Settings.thy ===== *)
theory Settings
  imports Prelude Complex_Main
begin

text \<open>
  The runtime configuration of \<^verbatim>\<open>src/src/core/Config.h\<close> and \<^verbatim>\<open>Config.cc\<close>: the record of settings
  with its defaults, the parsers of single values, \<open>applyKey\<close>, and the layers (plugin
  conf, state file, environment) with the final clamping. Files and the environment
  enter as arguments: the text of a file (\<open>None\<close> when it cannot be opened) and a
  \<^verbatim>\<open>getenv\<close> function. Log lines are not modelled. A \<^verbatim>\<open>double\<close> is a real, an infinity or
  NaN, compared as IEEE 754 compares; \<^verbatim>\<open>atof\<close> is an argument \<open>af\<close>, so the statements hold for
  every reading of a decimal string, \<^verbatim>\<open>nan\<close> included. \<^verbatim>\<open>atoi\<close> and the \<^verbatim>\<open>strto\<close> functions
  are written out with the saturation and truncation of glibc.
\<close>

unbundle bit_operations_syntax

section \<open>Floating-point settings\<close>

text \<open>Every comparison with NaN is false.\<close>

datatype dbl = Dbl real | PosInf | NegInf | NaN

fun dbl_lt :: "dbl \<Rightarrow> dbl \<Rightarrow> bool" where
  "dbl_lt (Dbl x) (Dbl y) = (x < y)"
| "dbl_lt NegInf y = (y \<noteq> NegInf \<and> y \<noteq> NaN)"
| "dbl_lt (Dbl x) PosInf = True"
| "dbl_lt _ _ = False"

definition dbl_le :: "dbl \<Rightarrow> dbl \<Rightarrow> bool" where
  "dbl_le x y \<longleftrightarrow> dbl_lt x y \<or> (x = y \<and> x \<noteq> NaN)"

section \<open>Config\<close>

datatype validateMode = kNone | kSize | kSizeMtime | kCksum
datatype fsyncMode = kOff | kData | kAll
datatype reclaim = kSuperseded | kFull

record config =
  c_cacheDir :: string
  c_pageSize :: nat
  c_maxBytes :: nat
  c_budgetAuto :: bool
  c_minFreeBytes :: nat
  c_evictCheckSeconds :: int
  c_evictProtectSeconds :: nat
  c_highWater :: dbl
  c_lowWater :: dbl
  c_validate :: validateMode
  c_fsync :: fsyncMode
  c_threads :: int
  c_maxErrors :: int
  c_metaFlushSeconds :: int
  c_fillBufferMb :: int
  c_fillBufferTotalMb :: int
  c_prefetch :: bool
  c_prefetchWindowMb :: int
  c_prefetchRamMb :: int
  c_prefetchJoin :: bool
  c_prefetchDepth :: int
  c_prefetchBridgeKb :: int
  c_prefetchThreads :: int
  c_prefetchMapCacheMb :: int
  c_revalidateSeconds :: int
  c_openRetries :: int
  c_openRetryBaseMs :: int
  c_openRetryMaxMs :: int
  c_disable :: bool
  c_transpose :: bool
  c_copyDetect :: bool
  c_maxReadFraction :: int
  c_recompress :: bool
  c_recompressKeepOriginals :: bool
  c_recompressCodecs :: "string list"
  c_recompressReclaim :: reclaim
  c_trace :: string
  c_traceSample :: int
  c_keepCgi :: "string list"
  c_allowHosts :: "string list"
  c_denyHosts :: "string list"
  c_announce :: bool
  c_sources :: "(string \<times> string) list"

definition default_config :: config where
  "default_config =
     \<lparr>c_cacheDir = [], c_pageSize = 4096, c_maxBytes = 0, c_budgetAuto = False, c_minFreeBytes = 0,
      c_evictCheckSeconds = 10, c_evictProtectSeconds = 86400, c_highWater = Dbl (90 / 100),
      c_lowWater = Dbl (75 / 100), c_validate = kSize, c_fsync = kOff, c_threads = 0, c_maxErrors = 5,
      c_metaFlushSeconds = 30, c_fillBufferMb = 48, c_fillBufferTotalMb = 1024, c_prefetch = False,
      c_prefetchWindowMb = 32, c_prefetchRamMb = 1024, c_prefetchJoin = True, c_prefetchDepth = 1,
      c_prefetchBridgeKb = 0, c_prefetchThreads = 4, c_prefetchMapCacheMb = 256,
      c_revalidateSeconds = 604800, c_openRetries = 0, c_openRetryBaseMs = 200,
      c_openRetryMaxMs = 5000, c_disable = False, c_transpose = True, c_copyDetect = True,
      c_maxReadFraction = 25, c_recompress = False, c_recompressKeepOriginals = False,
      c_recompressCodecs = [''lzma'', ''zlib''], c_recompressReclaim = kSuperseded, c_trace = [],
      c_traceSample = 64, c_keepCgi = [], c_allowHosts = [], c_denyHosts = [], c_announce = True,
      c_sources = []\<rparr>"

definition validPageSize :: "nat \<Rightarrow> bool" where
  "validPageSize p \<longleftrightarrow> p \<ge> 4096 \<and> p \<le> 2 ^ 20 \<and> p AND (p - 1) = 0"

section \<open>Strings and numbers\<close>

text \<open>\<^verbatim>\<open>getline\<close> with a delimiter: the pieces between delimiters; a last empty piece is not read.\<close>

fun split_at_char :: "char \<Rightarrow> string \<Rightarrow> string list" where
  "split_at_char d [] = [[]]"
| "split_at_char d (c # cs) =
     (case split_at_char d cs of
        [] \<Rightarrow> [[c]]
      | p # ps \<Rightarrow> if c = d then [] # p # ps else (c # p) # ps)"

definition getlines :: "char \<Rightarrow> string \<Rightarrow> string list" where
  "getlines d s = (let ps = split_at_char d s in if last ps = [] then butlast ps else ps)"

definition splitCommas :: "string \<Rightarrow> string list" where
  "splitCommas s = filter (\<lambda>item. item \<noteq> []) (getlines (CHR '','') s)"

definition is_ws :: "char \<Rightarrow> bool" where
  "is_ws c \<longleftrightarrow> c \<in> {CHR '' '', CHR 0x09, CHR 0x0D, CHR 0x0A}"

definition trim :: "string \<Rightarrow> string" where
  "trim s = rev (dropWhile is_ws (rev (dropWhile is_ws s)))"

definition unquote :: "string \<Rightarrow> string" where
  "unquote s =
     (if length s \<ge> 2 \<and> (hd s = CHR 0x22 \<or> hd s = CHR 0x27) \<and> last s = hd s
      then butlast (tl s) else s)"

text \<open>\<open>q\<close> is the open quote, if any.\<close>

fun stripComment_from :: "char option \<Rightarrow> string \<Rightarrow> string" where
  "stripComment_from q [] = []"
| "stripComment_from (Some q) (c # cs) =
     c # stripComment_from (if c = q then None else Some q) cs"
| "stripComment_from None (c # cs) =
     (if c = CHR 0x22 \<or> c = CHR 0x27 then c # stripComment_from (Some c) cs
      else if c = CHR ''#'' then [] else c # stripComment_from None cs)"

definition stripComment :: "string \<Rightarrow> string" where
  "stripComment line = stripComment_from None line"

definition is_digit :: "char \<Rightarrow> bool" where
  "is_digit c \<longleftrightarrow> (of_char c :: nat) \<ge> 48 \<and> (of_char c :: nat) \<le> 57"

definition digit_val :: "char \<Rightarrow> nat" where
  "digit_val c = of_char c - 48"

fun dec_val :: "nat \<Rightarrow> string \<Rightarrow> nat" where
  "dec_val acc [] = acc"
| "dec_val acc (c # cs) = dec_val (acc * 10 + digit_val c) cs"

text \<open>The white space \<^verbatim>\<open>isspace\<close> accepts, the optional sign, the digits.\<close>

definition is_space :: "char \<Rightarrow> bool" where
  "is_space c \<longleftrightarrow> c = CHR '' '' \<or> (of_char c :: nat) \<in> {9..13}"

definition scan_int :: "string \<Rightarrow> bool \<times> nat" where
  "scan_int s =
     (let t = dropWhile is_space s;
          neg = (t \<noteq> [] \<and> hd t = CHR ''-'');
          u = (if t \<noteq> [] \<and> (hd t = CHR ''-'' \<or> hd t = CHR ''+'') then tl t else t)
      in (neg, dec_val 0 (takeWhile is_digit u)))"

definition strtol :: "string \<Rightarrow> int" where
  "strtol s = (case scan_int s of (neg, n) \<Rightarrow>
     if neg then max (- (2 ^ 63)) (- int n) else min (2 ^ 63 - 1) (int n))"

definition strtoul :: "string \<Rightarrow> nat" where
  "strtoul s = (case scan_int s of (neg, n) \<Rightarrow>
     if n \<ge> 2 ^ 64 then 2 ^ 64 - 1 else if neg then sub64 0 n else n)"

text \<open>The conversions of \<^verbatim>\<open>long\<close> to \<^verbatim>\<open>int\<close> and to \<^verbatim>\<open>uint32_t\<close>.\<close>

definition atoi :: "string \<Rightarrow> int" where
  "atoi s = (strtol s + 2 ^ 31) mod 2 ^ 32 - 2 ^ 31"

definition atol_u32 :: "string \<Rightarrow> nat" where
  "atol_u32 s = nat (strtol s mod 2 ^ 32)"

definition parseBytes :: "string \<Rightarrow> nat option" where
  "parseBytes v =
     (if v = [] \<or> \<not> is_digit (hd v) then None
      else let n = strtoul v;
               rest = dropWhile is_digit v;
               mult = (if rest = [] then 1
                  else if hd rest \<in> {CHR ''k'', CHR ''K''} then 2 ^ 10
                  else if hd rest \<in> {CHR ''m'', CHR ''M''} then 2 ^ 20
                  else if hd rest \<in> {CHR ''g'', CHR ''G''} then 2 ^ 30
                  else if hd rest \<in> {CHR ''t'', CHR ''T''} then 2 ^ 40 else 1)
           in Some (u64 (n * mult)))"

section \<open>Setting one key\<close>

definition setPageSize :: "config \<Rightarrow> string \<Rightarrow> config" where
  "setPageSize c v =
     (let p0 = u32n (strtoul v);
          s = dropWhile is_digit v;
          p = (if s \<noteq> [] \<and> hd s \<in> {CHR ''k'', CHR ''K''} then u32n (p0 * 1024)
               else if s \<noteq> [] \<and> hd s \<in> {CHR ''m'', CHR ''M''} then u32n (p0 * (1024 * 1024)) else p0)
      in if validPageSize p then c\<lparr>c_pageSize := p\<rparr> else c)"

definition setValidate :: "config \<Rightarrow> string \<Rightarrow> config" where
  "setValidate c s =
     (if s = ''none'' then c\<lparr>c_validate := kNone\<rparr>
      else if s = ''size'' then c\<lparr>c_validate := kSize\<rparr>
      else if s = ''size+mtime'' then c\<lparr>c_validate := kSizeMtime\<rparr>
      else if s = ''cksum'' then c\<lparr>c_validate := kCksum\<rparr> else c)"

definition setFsync :: "config \<Rightarrow> string \<Rightarrow> config" where
  "setFsync c s =
     (if s = ''off'' then c\<lparr>c_fsync := kOff\<rparr>
      else if s = ''data'' then c\<lparr>c_fsync := kData\<rparr>
      else if s = ''all'' then c\<lparr>c_fsync := kAll\<rparr> else c)"

definition truthy :: "string \<Rightarrow> bool" where
  "truthy v \<longleftrightarrow> v = ''1'' \<or> v = ''true'' \<or> v = ''on''"

definition falsy :: "string \<Rightarrow> bool" where
  "falsy v \<longleftrightarrow> v = ''0'' \<or> v = ''off'' \<or> v = ''false''"

text \<open>The result: was the key recognised, the settings, and whether a positive byte cap was
  given (\<^verbatim>\<open>explicitMax\<close>). A key that is unknown, retired or XrdCl's own changes nothing.\<close>

definition applyKey ::
  "(string \<Rightarrow> dbl) \<Rightarrow> config \<Rightarrow> string \<Rightarrow> string \<Rightarrow> bool \<Rightarrow> bool \<times> config \<times> bool" where
  "applyKey af c k v em =
     (if k = ''dir'' then (True, c\<lparr>c_cacheDir := v\<rparr>, em)
      else if k = ''page_size'' then (True, setPageSize c v, em)
      else if k = ''max_bytes'' then
        (case parseBytes v of
           Some mb \<Rightarrow> (True, c\<lparr>c_maxBytes := mb\<rparr>, em \<or> mb > 0)
         | None \<Rightarrow> (True, c, em))
      else if k = ''min_free_bytes'' then
        (case parseBytes v of
           Some n \<Rightarrow> (True, c\<lparr>c_minFreeBytes := n\<rparr>, em)
         | None \<Rightarrow> (True, c, em))
      else if k = ''disable'' then (True, c\<lparr>c_disable := truthy v\<rparr>, em)
      else if k = ''high_water'' then (True, c\<lparr>c_highWater := af v\<rparr>, em)
      else if k = ''low_water'' then (True, c\<lparr>c_lowWater := af v\<rparr>, em)
      else if k = ''evict_check_seconds'' then (True, c\<lparr>c_evictCheckSeconds := atoi v\<rparr>, em)
      else if k = ''evict_protect_seconds'' then (True, c\<lparr>c_evictProtectSeconds := atol_u32 v\<rparr>, em)
      else if k = ''validate'' then (True, setValidate c v, em)
      else if k = ''fsync'' then (True, setFsync c v, em)
      else if k = ''threads'' then (True, c\<lparr>c_threads := atoi v\<rparr>, em)
      else if k = ''max_errors'' then (True, c\<lparr>c_maxErrors := atoi v\<rparr>, em)
      else if k = ''meta_flush_seconds'' then (True, c\<lparr>c_metaFlushSeconds := atoi v\<rparr>, em)
      else if k = ''fill_buffer_mb'' then (True, c\<lparr>c_fillBufferMb := atoi v\<rparr>, em)
      else if k = ''fill_buffer_total_mb'' then (True, c\<lparr>c_fillBufferTotalMb := atoi v\<rparr>, em)
      else if k = ''prefetch'' then (True, c\<lparr>c_prefetch := \<not> falsy v\<rparr>, em)
      else if k = ''prefetch_window_mb'' then (True, c\<lparr>c_prefetchWindowMb := atoi v\<rparr>, em)
      else if k = ''prefetch_join'' then (True, c\<lparr>c_prefetchJoin := \<not> falsy v\<rparr>, em)
      else if k = ''prefetch_ram_mb'' then (True, c\<lparr>c_prefetchRamMb := atoi v\<rparr>, em)
      else if k = ''prefetch_depth'' then (True, c\<lparr>c_prefetchDepth := atoi v\<rparr>, em)
      else if k = ''prefetch_bridge_kb'' then (True, c\<lparr>c_prefetchBridgeKb := atoi v\<rparr>, em)
      else if k = ''prefetch_threads'' then (True, c\<lparr>c_prefetchThreads := atoi v\<rparr>, em)
      else if k = ''prefetch_map_cache_mb'' then (True, c\<lparr>c_prefetchMapCacheMb := atoi v\<rparr>, em)
      else if k = ''revalidate_seconds'' then (True, c\<lparr>c_revalidateSeconds := atoi v\<rparr>, em)
      else if k = ''open_retries'' then (True, c\<lparr>c_openRetries := atoi v\<rparr>, em)
      else if k = ''open_retry_base_ms'' then (True, c\<lparr>c_openRetryBaseMs := atoi v\<rparr>, em)
      else if k = ''open_retry_max_ms'' then (True, c\<lparr>c_openRetryMaxMs := atoi v\<rparr>, em)
      else if k = ''transpose'' then (True, c\<lparr>c_transpose := \<not> falsy v\<rparr>, em)
      else if k = ''announce'' then (True, c\<lparr>c_announce := \<not> falsy v\<rparr>, em)
      else if k = ''copy_detect'' then (True, c\<lparr>c_copyDetect := \<not> falsy v\<rparr>, em)
      else if k = ''max_read_fraction'' then
        (let pct = atoi v in
         if pct \<ge> 1 \<and> pct \<le> 100 then (True, c\<lparr>c_maxReadFraction := pct\<rparr>, em) else (False, c, em))
      else if k = ''recompress'' then (True, c\<lparr>c_recompress := truthy v\<rparr>, em)
      else if k = ''recompress_keep_originals'' then (True, c\<lparr>c_recompressKeepOriginals := truthy v\<rparr>, em)
      else if k = ''recompress_codecs'' then (True, c\<lparr>c_recompressCodecs := splitCommas v\<rparr>, em)
      else if k = ''recompress_reclaim'' then
        (if v = ''superseded'' then (True, c\<lparr>c_recompressReclaim := kSuperseded\<rparr>, em)
         else if v = ''full'' then (True, c\<lparr>c_recompressReclaim := kFull\<rparr>, em) else (False, c, em))
      else if k = ''trace'' then
        (if v = ''io'' then (True, c\<lparr>c_trace := ''io''\<rparr>, em)
         else if v = ''off'' \<or> falsy v then (True, c\<lparr>c_trace := []\<rparr>, em) else (False, c, em))
      else if k = ''trace_sample'' then (True, c\<lparr>c_traceSample := atoi v\<rparr>, em)
      else if k = ''keep_cgi'' then (True, c\<lparr>c_keepCgi := splitCommas v\<rparr>, em)
      else if k = ''allow'' then (True, c\<lparr>c_allowHosts := splitCommas v\<rparr>, em)
      else if k = ''deny'' then (True, c\<lparr>c_denyHosts := splitCommas v\<rparr>, em)
      else if k = ''log'' then (True, c, em)
      else (False, c, em))"

section \<open>The layers\<close>

definition record_source :: "string \<Rightarrow> string \<Rightarrow> bool \<times> config \<times> bool \<Rightarrow> config \<times> bool" where
  "record_source k tag r = (case r of (hit, c, em) \<Rightarrow>
     (if hit then c\<lparr>c_sources := (k, tag) # filter (\<lambda>e. fst e \<noteq> k) (c_sources c)\<rparr> else c, em))"

definition kv_line :: "(string \<Rightarrow> dbl) \<Rightarrow> string \<Rightarrow> string \<Rightarrow> config \<times> bool \<Rightarrow> config \<times> bool" where
  "kv_line af tag line0 st =
     (let line = stripComment line0 in
      if CHR ''='' \<notin> set line then st
      else let k = trim (takeWhile (\<lambda>x. x \<noteq> CHR ''='') line);
               v = unquote (trim (tl (dropWhile (\<lambda>x. x \<noteq> CHR ''='') line)))
           in if k = [] \<or> v = [] then st
              else if tag \<noteq> ''conf'' \<and> k = ''dir'' then st
              else record_source k tag (applyKey af (fst st) k v (snd st)))"

definition loadKeyValueFile ::
  "(string \<Rightarrow> dbl) \<Rightarrow> string option \<Rightarrow> string \<Rightarrow> config \<times> bool \<Rightarrow> config \<times> bool" where
  "loadKeyValueFile af txt tag st =
     (case txt of None \<Rightarrow> st | Some t \<Rightarrow> fold (kv_line af tag) (getlines (CHR 0x0A) t) st)"

definition knownKeys :: "(string \<times> string) list" where
  "knownKeys =
     [(''dir'', ''UCACHE_DIR''), (''page_size'', ''UCACHE_PAGE_SIZE''),
      (''max_bytes'', ''UCACHE_MAX_BYTES''), (''min_free_bytes'', ''UCACHE_MIN_FREE_BYTES''),
      (''evict_check_seconds'', ''UCACHE_EVICT_CHECK_S''),
      (''evict_protect_seconds'', ''UCACHE_EVICT_PROTECT_S''),
      (''high_water'', ''UCACHE_HIGH_WATER''), (''low_water'', ''UCACHE_LOW_WATER''),
      (''validate'', ''UCACHE_VALIDATE''), (''fsync'', ''UCACHE_FSYNC''),
      (''threads'', ''UCACHE_THREADS''), (''max_errors'', ''UCACHE_MAX_ERRORS''),
      (''meta_flush_seconds'', ''UCACHE_META_FLUSH_S''),
      (''fill_buffer_mb'', ''UCACHE_FILL_BUFFER_MB''),
      (''fill_buffer_total_mb'', ''UCACHE_FILL_BUFFER_TOTAL_MB''),
      (''prefetch'', ''UCACHE_PREFETCH''), (''prefetch_window_mb'', ''UCACHE_PREFETCH_WINDOW_MB''),
      (''prefetch_ram_mb'', ''UCACHE_PREFETCH_RAM_MB''), (''prefetch_join'', ''UCACHE_PREFETCH_JOIN''),
      (''prefetch_depth'', ''UCACHE_PREFETCH_DEPTH''),
      (''prefetch_bridge_kb'', ''UCACHE_PREFETCH_BRIDGE_KB''),
      (''prefetch_threads'', ''UCACHE_PREFETCH_THREADS''),
      (''prefetch_map_cache_mb'', ''UCACHE_PREFETCH_MAP_CACHE_MB''),
      (''revalidate_seconds'', ''UCACHE_REVALIDATE_S''), (''open_retries'', ''UCACHE_OPEN_RETRIES''),
      (''open_retry_base_ms'', ''UCACHE_OPEN_RETRY_BASE_MS''),
      (''open_retry_max_ms'', ''UCACHE_OPEN_RETRY_MAX_MS''), (''disable'', ''UCACHE_DISABLE''),
      (''transpose'', ''UCACHE_TRANSPOSE''), (''announce'', ''UCACHE_ANNOUNCE''),
      (''copy_detect'', ''UCACHE_COPY_DETECT''),
      (''max_read_fraction'', ''UCACHE_MAX_READ_FRACTION''), (''recompress'', ''UCACHE_RECOMPRESS''),
      (''recompress_keep_originals'', ''UCACHE_RECOMPRESS_KEEP_ORIGINALS''),
      (''recompress_codecs'', ''UCACHE_RECOMPRESS_CODECS''),
      (''recompress_reclaim'', ''UCACHE_RECOMPRESS_RECLAIM''), (''trace'', ''UCACHE_TRACE''),
      (''trace_sample'', ''UCACHE_TRACE_SAMPLE''), (''keep_cgi'', ''UCACHE_KEEP_CGI''),
      (''allow'', ''UCACHE_ALLOW''), (''deny'', ''UCACHE_DENY''), (''log'', ''UCACHE_LOG'')]"

definition env_key :: "(string \<Rightarrow> dbl) \<Rightarrow> (string \<Rightarrow> string option) \<Rightarrow> string \<times> string \<Rightarrow> config \<times> bool \<Rightarrow> config \<times> bool" where
  "env_key af getenv spec st =
     (case getenv (snd spec) of
        None \<Rightarrow> st
      | Some v \<Rightarrow> if v = [] then st
          else record_source (fst spec) ''env'' (applyKey af (fst st) (fst spec) v (snd st)))"

definition applyEnvLayer :: "(string \<Rightarrow> dbl) \<Rightarrow> (string \<Rightarrow> string option) \<Rightarrow> config \<times> bool \<Rightarrow> config \<times> bool" where
  "applyEnvLayer af getenv st = fold (env_key af getenv) knownKeys st"

definition clampAndFinish :: "config \<Rightarrow> bool \<Rightarrow> config" where
  "clampAndFinish c em =
     (let c1 = (if c_evictCheckSeconds c < 0 then c\<lparr>c_evictCheckSeconds := 10\<rparr> else c);
          c2 = (if dbl_le (c_lowWater c1) (Dbl 0) \<or> dbl_lt (Dbl 1) (c_highWater c1) \<or> dbl_le (c_highWater c1) (c_lowWater c1)
                then c1\<lparr>c_highWater := Dbl (90 / 100), c_lowWater := Dbl (75 / 100)\<rparr> else c1)
      in c2\<lparr>c_budgetAuto := \<not> em\<rparr>)"

text \<open>\<open>files\<close> is the text of each readable file.\<close>

definition finishLoad ::
  "(string \<Rightarrow> dbl) \<Rightarrow> (string \<Rightarrow> string option) \<Rightarrow> (string \<Rightarrow> string option) \<Rightarrow> config \<times> bool \<Rightarrow> config" where
  "finishLoad af getenv files st =
     (let dir = (case getenv ''UCACHE_DIR'' of Some v \<Rightarrow> if v = [] then c_cacheDir (fst st) else v
                 | None \<Rightarrow> c_cacheDir (fst st));
          st1 = (if dir \<noteq> [] then loadKeyValueFile af (files (dir @ ''/state'')) ''state'' st else st);
          st2 = applyEnvLayer af getenv st1
      in clampAndFinish (fst st2) (snd st2))"

definition fromEnv_file ::
  "(string \<Rightarrow> dbl) \<Rightarrow> (string \<Rightarrow> string option) \<Rightarrow> (string \<Rightarrow> string option) \<Rightarrow> string \<Rightarrow> config" where
  "fromEnv_file af getenv files path =
     finishLoad af getenv files
       (if path \<noteq> [] then loadKeyValueFile af (files path) ''conf'' (default_config, False)
        else (default_config, False))"

definition fromEnv_map ::
  "(string \<Rightarrow> dbl) \<Rightarrow> (string \<Rightarrow> string option) \<Rightarrow> (string \<Rightarrow> string option) \<Rightarrow> (string \<times> string) list \<Rightarrow> config" where
  "fromEnv_map af getenv files conf =
     finishLoad af getenv files
       (fold (\<lambda>(k, v) st. if k = [] \<or> v = [] then st
                else record_source k ''conf'' (applyKey af (fst st) k v (snd st)))
          conf (default_config, False))"

definition retired_names :: "string list" where
  "retired_names = [''recompress_drain_jobs'', ''UCACHE_RECOMPRESS_DRAIN_JOBS'', ''UCACHE_RECOMPRESS_HELPER'']"

definition retiredReason :: "string \<Rightarrow> bool" where
  "retiredReason k \<longleftrightarrow> k \<in> set retired_names"

definition stateSettable :: "string \<Rightarrow> bool" where
  "stateSettable k \<longleftrightarrow> k \<noteq> ''dir'' \<and> k \<in> set (map fst knownKeys)"

section \<open>Printing the current value of a key\<close>

definition digit_char :: "nat \<Rightarrow> char" where
  "digit_char d = char_of (48 + d)"

fun show_nat :: "nat \<Rightarrow> string" where
  "show_nat n = (if n < 10 then [digit_char n] else show_nat (n div 10) @ [digit_char (n mod 10)])"

declare show_nat.simps [simp del]

definition show_int :: "int \<Rightarrow> string" where
  "show_int i = (if i < 0 then CHR ''-'' # show_nat (nat (- i)) else show_nat (nat i))"

definition onoff :: "bool \<Rightarrow> string" where
  "onoff x = (if x then ''on'' else ''off'')"

definition join_list :: "string list \<Rightarrow> string" where
  "join_list v =
     (let s = foldl (\<lambda>s e. (if s \<noteq> [] then s @ '','' else s) @ e) [] v in if s = [] then ''-'' else s)"

text \<open>\<open>fmt\<close> stands for the \<^verbatim>\<open>%.2f\<close> conversion.\<close>

definition valueOf :: "(dbl \<Rightarrow> string) \<Rightarrow> config \<Rightarrow> string \<Rightarrow> string" where
  "valueOf fmt c key =
     (if key = ''dir'' then (if c_cacheDir c = [] then ''(unset)'' else c_cacheDir c)
      else if key = ''page_size'' then show_nat (c_pageSize c)
      else if key = ''max_bytes'' then show_nat (c_maxBytes c)
      else if key = ''min_free_bytes'' then
        (if c_minFreeBytes c \<noteq> 0 then show_nat (c_minFreeBytes c)
         else if c_budgetAuto c then ''0 (auto)'' else ''0'')
      else if key = ''evict_check_seconds'' then show_int (c_evictCheckSeconds c)
      else if key = ''evict_protect_seconds'' then show_nat (c_evictProtectSeconds c)
      else if key = ''high_water'' then fmt (c_highWater c)
      else if key = ''low_water'' then fmt (c_lowWater c)
      else if key = ''validate'' then
        (case c_validate c of kNone \<Rightarrow> ''none'' | kSize \<Rightarrow> ''size'' | kSizeMtime \<Rightarrow> ''size+mtime'' | kCksum \<Rightarrow> ''cksum'')
      else if key = ''fsync'' then (case c_fsync c of kOff \<Rightarrow> ''off'' | kData \<Rightarrow> ''data'' | kAll \<Rightarrow> ''all'')
      else if key = ''threads'' then show_int (c_threads c)
      else if key = ''max_errors'' then show_int (c_maxErrors c)
      else if key = ''fill_buffer_mb'' then show_int (c_fillBufferMb c)
      else if key = ''fill_buffer_total_mb'' then show_int (c_fillBufferTotalMb c)
      else if key = ''prefetch'' then onoff (c_prefetch c)
      else if key = ''prefetch_window_mb'' then show_int (c_prefetchWindowMb c)
      else if key = ''prefetch_ram_mb'' then show_int (c_prefetchRamMb c)
      else if key = ''prefetch_join'' then onoff (c_prefetchJoin c)
      else if key = ''prefetch_depth'' then show_int (c_prefetchDepth c)
      else if key = ''prefetch_bridge_kb'' then show_int (c_prefetchBridgeKb c)
      else if key = ''prefetch_threads'' then show_int (c_prefetchThreads c)
      else if key = ''prefetch_map_cache_mb'' then show_int (c_prefetchMapCacheMb c)
      else if key = ''meta_flush_seconds'' then show_int (c_metaFlushSeconds c)
      else if key = ''revalidate_seconds'' then show_int (c_revalidateSeconds c)
      else if key = ''open_retries'' then show_int (c_openRetries c)
      else if key = ''open_retry_base_ms'' then show_int (c_openRetryBaseMs c)
      else if key = ''open_retry_max_ms'' then show_int (c_openRetryMaxMs c)
      else if key = ''disable'' then onoff (c_disable c)
      else if key = ''transpose'' then onoff (c_transpose c)
      else if key = ''announce'' then onoff (c_announce c)
      else if key = ''copy_detect'' then onoff (c_copyDetect c)
      else if key = ''max_read_fraction'' then show_int (c_maxReadFraction c)
      else if key = ''recompress'' then onoff (c_recompress c)
      else if key = ''recompress_keep_originals'' then onoff (c_recompressKeepOriginals c)
      else if key = ''recompress_codecs'' then join_list (c_recompressCodecs c)
      else if key = ''recompress_reclaim'' then (if c_recompressReclaim c = kFull then ''full'' else ''superseded'')
      else if key = ''trace'' then (if c_trace c = [] then ''off'' else c_trace c)
      else if key = ''trace_sample'' then show_int (c_traceSample c)
      else if key = ''keep_cgi'' then join_list (c_keepCgi c)
      else if key = ''allow'' then join_list (c_allowHosts c)
      else if key = ''deny'' then join_list (c_denyHosts c)
      else if key = ''log'' then ''-''
      else ''?'')"

section \<open>Every loaded configuration is usable\<close>

definition settings_ok :: "config \<Rightarrow> bool" where
  "settings_ok c \<longleftrightarrow> validPageSize (c_pageSize c) \<and> 1 \<le> c_maxReadFraction c \<and> c_maxReadFraction c \<le> 100"

lemma set_ok [simp]:
  "settings_ok c \<Longrightarrow> settings_ok (setPageSize c v)" "settings_ok c \<Longrightarrow> settings_ok (setValidate c v)"
  "settings_ok c \<Longrightarrow> settings_ok (setFsync c v)"
  by (simp_all add: settings_ok_def setPageSize_def setValidate_def setFsync_def Let_def)

text \<open>\<open>applyKey\<close> is one long chain of tests; a fact about its result is proved link by link.\<close>

lemma if_pred: "P a \<Longrightarrow> P b \<Longrightarrow> P (if x then a else b)"
  by simp

lemma if_pred_key: "(x \<Longrightarrow> P a) \<Longrightarrow> (\<not> x \<Longrightarrow> P b) \<Longrightarrow> P (if x then a else b)"
  by simp

lemma applyKey_ok:
  assumes "settings_ok c"
  shows "settings_ok (fst (snd (applyKey af c k v em)))"
  unfolding applyKey_def Let_def
  by ((rule if_pred [of "\<lambda>r. settings_ok (fst (snd r))"],
      ((use assms in \<open>simp add: settings_ok_def split: option.split; fail\<close>) | (use assms in \<open>simp; fail\<close>)))+,
      use assms in simp)

text \<open>Invariants of the settings pass through every layer.\<close>

lemma record_source_fst: "fst (record_source k tag r) = (if fst r then (fst (snd r))\<lparr>c_sources := (k, tag) #
   filter (\<lambda>e. fst e \<noteq> k) (c_sources (fst (snd r)))\<rparr> else fst (snd r))"
  by (simp add: record_source_def split: prod.split)

lemma fold_ok: "(\<And>x st. x \<in> set xs \<Longrightarrow> P (fst st) \<Longrightarrow> P (fst (f x st))) \<Longrightarrow> P (fst st) \<Longrightarrow> P (fst (fold f xs st))"
  by (induction xs arbitrary: st) auto

locale settings_inv =
  fixes af :: "string \<Rightarrow> dbl" and P :: "config \<Rightarrow> bool"
  assumes key: "\<And>c k v em. P c \<Longrightarrow> P (fst (snd (applyKey af c k v em)))"
    and sources: "\<And>c s. P (c\<lparr>c_sources := s\<rparr>) = P c"
    and default: "P default_config"
begin

lemma inv_record: "P c \<Longrightarrow> P (fst (record_source k tag (applyKey af c k v em)))"
  by (simp add: record_source_fst sources key)

lemma inv_file: "P (fst st) \<Longrightarrow> P (fst (loadKeyValueFile af txt tag st))"
  by (auto simp: loadKeyValueFile_def kv_line_def Let_def inv_record intro!: fold_ok [of _ P] split: option.split)

lemma inv_env: "P (fst st) \<Longrightarrow> P (fst (applyEnvLayer af getenv st))"
  unfolding applyEnvLayer_def by (rule fold_ok [of _ P]) (auto simp: env_key_def inv_record split: option.split)

text \<open>What the last step, the clamping, makes of an invariant holds of every configuration loaded.\<close>

lemma inv_finish: "(\<And>c em. P c \<Longrightarrow> Q (clampAndFinish c em)) \<Longrightarrow> P (fst st) \<Longrightarrow> Q (finishLoad af getenv files st)"
  by (simp add: finishLoad_def Let_def inv_env inv_file)

lemma inv_load:
  assumes "\<And>c em. P c \<Longrightarrow> Q (clampAndFinish c em)"
  shows "Q (fromEnv_file af getenv files path)" "Q (fromEnv_map af getenv files conf)"
proof -
  show "Q (fromEnv_file af getenv files path)"
    unfolding fromEnv_file_def by (rule inv_finish [of Q]) (simp_all add: assms inv_file default)
  have "P (fst (fold (\<lambda>(k, v) st. if k = [] \<or> v = [] then st
      else record_source k ''conf'' (applyKey af (fst st) k v (snd st))) conf (default_config, False)))"
    by (rule fold_ok [of _ P]) (auto simp: inv_record default)
  then show "Q (fromEnv_map af getenv files conf)" unfolding fromEnv_map_def using inv_finish [of Q] assms by blast
qed

end

lemma default_ok: "settings_ok default_config"
  by (simp add: settings_ok_def default_config_def validPageSize_def)

interpretation ok_inv: settings_inv af settings_ok for af
  by unfold_locales (simp_all add: applyKey_ok default_ok, simp add: settings_ok_def)

text \<open>The watermarks come from \<^verbatim>\<open>atof\<close> or are the defaults; only \<^verbatim>\<open>atof\<close> can make one NaN.\<close>

definition no_nan :: "(string \<Rightarrow> dbl) \<Rightarrow> config \<Rightarrow> bool" where
  "no_nan af c \<longleftrightarrow> (\<forall>s. af s \<noteq> NaN) \<longrightarrow> c_lowWater c \<noteq> NaN \<and> c_highWater c \<noteq> NaN"

lemma set_no_nan [simp]:
  "no_nan af (setPageSize c v) = no_nan af c" "no_nan af (setValidate c v) = no_nan af c"
  "no_nan af (setFsync c v) = no_nan af c"
  by (simp_all add: no_nan_def setPageSize_def setValidate_def setFsync_def Let_def)

lemma applyKey_no_nan:
  assumes "no_nan af c"
  shows "no_nan af (fst (snd (applyKey af c k v em)))"
  unfolding applyKey_def Let_def
  by ((rule if_pred [of "\<lambda>r. no_nan af (fst (snd r))"],
      ((use assms in \<open>simp add: no_nan_def split: option.split; fail\<close>) | (use assms in \<open>simp; fail\<close>)))+,
      use assms in simp)

interpretation nan_inv: settings_inv af "no_nan af" for af
  by unfold_locales (simp_all add: applyKey_no_nan, simp_all add: no_nan_def default_config_def)

text \<open>The clamping: watermarks that pass the three tests are in order, unless one is NaN.\<close>

definition marks_ok :: "config \<Rightarrow> bool" where
  "marks_ok c \<longleftrightarrow> (\<exists>l h. c_lowWater c = Dbl l \<and> c_highWater c = Dbl h \<and> 0 < l \<and> l < h \<and> h \<le> 1)"

lemma marks_okI: "c_lowWater c = Dbl l \<Longrightarrow> c_highWater c = Dbl h \<Longrightarrow> 0 < l \<Longrightarrow> l < h \<Longrightarrow> h \<le> 1 \<Longrightarrow> marks_ok c"
  by (simp add: marks_ok_def)

lemma clamp_marks:
  "marks_ok (clampAndFinish c em) \<or> c_lowWater c = NaN \<and> c_lowWater (clampAndFinish c em) = NaN \<or>
     c_highWater c = NaN \<and> c_highWater (clampAndFinish c em) = NaN"
proof (cases "dbl_le (c_lowWater c) (Dbl 0) \<or> dbl_lt (Dbl 1) (c_highWater c) \<or> dbl_le (c_highWater c) (c_lowWater c)")
  case True
  have "marks_ok (clampAndFinish c em)"
    by (rule marks_okI [of _ "75 / 100" "90 / 100"]) (use True in \<open>auto simp: clampAndFinish_def Let_def\<close>)
  then show ?thesis by blast
next
  case False
  then show ?thesis
    by (cases "c_lowWater c"; cases "c_highWater c") (simp_all add: clampAndFinish_def Let_def marks_ok_def dbl_le_def)
qed

lemma clamp_ok: "settings_ok c \<Longrightarrow> settings_ok (clampAndFinish c em) \<and> 0 \<le> c_evictCheckSeconds (clampAndFinish c em)"
  by (auto simp: clampAndFinish_def Let_def settings_ok_def)

lemma clamp_nan:
  "c_lowWater c = NaN \<and> \<not> dbl_lt (Dbl 1) (c_highWater c) \<Longrightarrow> c_lowWater (clampAndFinish c em) = NaN"
  "c_highWater c = NaN \<and> \<not> dbl_le (c_lowWater c) (Dbl 0) \<Longrightarrow> c_highWater (clampAndFinish c em) = NaN"
  by (cases "c_highWater c"; simp add: clampAndFinish_def Let_def dbl_le_def)
    (cases "c_lowWater c"; simp add: clampAndFinish_def Let_def dbl_le_def)

section \<open>Which layer wins\<close>

text \<open>A key touches only its own setting: shown for the cache directory and the two kill
  switches.\<close>

lemma set_frame [simp]:
  "c_cacheDir (setPageSize c v) = c_cacheDir c" "c_disable (setPageSize c v) = c_disable c"
  "c_transpose (setPageSize c v) = c_transpose c" "c_cacheDir (setValidate c v) = c_cacheDir c"
  "c_disable (setValidate c v) = c_disable c" "c_transpose (setValidate c v) = c_transpose c"
  "c_cacheDir (setFsync c v) = c_cacheDir c" "c_disable (setFsync c v) = c_disable c"
  "c_transpose (setFsync c v) = c_transpose c"
  by (simp_all add: setPageSize_def setValidate_def setFsync_def Let_def)

lemma applyKey_dir: "c_cacheDir (fst (snd (applyKey af c k v em))) = (if k = ''dir'' then v else c_cacheDir c)"
  unfolding applyKey_def Let_def
  by ((rule if_pred_key [of _ "\<lambda>r. c_cacheDir (fst (snd r)) = (if k = ''dir'' then v else c_cacheDir c)"],
      (simp split: option.split; fail))+, simp)

lemma applyKey_disable: "c_disable (fst (snd (applyKey af c k v em))) = (if k = ''disable'' then truthy v else c_disable c)"
  unfolding applyKey_def Let_def
  by ((rule if_pred_key [of _ "\<lambda>r. c_disable (fst (snd r)) = (if k = ''disable'' then truthy v else c_disable c)"],
      (simp split: option.split; fail))+, simp)

lemma applyKey_transpose:
  "c_transpose (fst (snd (applyKey af c k v em))) = (if k = ''transpose'' then \<not> falsy v else c_transpose c)"
  unfolding applyKey_def Let_def
  by ((rule if_pred_key [of _ "\<lambda>r. c_transpose (fst (snd r)) = (if k = ''transpose'' then \<not> falsy v else c_transpose c)"],
      (simp split: option.split; fail))+, simp)

text \<open>A slot: one setting, read by \<open>f\<close>, that only the key \<open>K\<close> changes, to \<open>g v\<close>.\<close>

locale setting_slot =
  fixes af :: "string \<Rightarrow> dbl" and f :: "config \<Rightarrow> 'a" and K :: string and g :: "string \<Rightarrow> 'a"
  assumes slot: "\<And>c k v em. f (fst (snd (applyKey af c k v em))) = (if k = K then g v else f c)"
    and sources: "\<And>c s. f (c\<lparr>c_sources := s\<rparr>) = f c"
    and clamp: "\<And>c em. f (clampAndFinish c em) = f c"
begin

lemma slot_record: "f (fst (record_source k tag (applyKey af c k v em))) = (if k = K then g v else f c)"
  by (simp add: record_source_fst sources slot)

lemma slot_env_key:
  "f (fst (env_key af ge spec st)) =
   (case ge (snd spec) of Some v \<Rightarrow> if v \<noteq> [] \<and> fst spec = K then g v else f (fst st) | None \<Rightarrow> f (fst st))"
  by (simp add: env_key_def slot_record split: option.split)

lemma slot_env_fold:
  "distinct (map fst xs) \<Longrightarrow> f (fst (fold (env_key af ge) xs st)) =
   (case Option.bind (map_of xs K) ge of Some v \<Rightarrow> if v \<noteq> [] then g v else f (fst st) | None \<Rightarrow> f (fst st))"
proof (induction xs arbitrary: st)
  case (Cons x xs)
  show ?case
  proof (cases "fst x = K")
    case True
    then have "map_of xs K = None" using Cons.prems by (auto simp: map_of_eq_None_iff)
    with Cons True show ?thesis by (cases x) (simp add: slot_env_key split: option.split)
  next
    case False
    with Cons show ?thesis by (cases x) (auto simp add: slot_env_key split: option.split)
  qed
qed simp

lemma slot_kv_line: "tag \<noteq> ''conf'' \<Longrightarrow> K = ''dir'' \<Longrightarrow> f (fst (kv_line af tag l st)) = f (fst st)"
  by (simp add: kv_line_def Let_def slot_record)

lemma slot_state: "K = ''dir'' \<Longrightarrow> f (fst (loadKeyValueFile af txt ''state'' st)) = f (fst st)"
proof -
  assume K: "K = ''dir''"
  have "f (fst (fold (kv_line af ''state'') ls st)) = f (fst st)" for ls
    by (induction ls arbitrary: st) (simp_all add: slot_kv_line K)
  then show ?thesis by (simp add: loadKeyValueFile_def split: option.split)
qed

end

lemma clamp_frame [simp]:
  "c_cacheDir (clampAndFinish c em) = c_cacheDir c" "c_disable (clampAndFinish c em) = c_disable c"
  "c_transpose (clampAndFinish c em) = c_transpose c"
  by (simp_all add: clampAndFinish_def Let_def)

interpretation dir_slot: setting_slot af c_cacheDir "''dir''" "\<lambda>v. v" for af
  by unfold_locales (simp_all add: applyKey_dir)

interpretation disable_slot: setting_slot af c_disable "''disable''" truthy for af
  by unfold_locales (simp_all add: applyKey_disable)

interpretation transpose_slot: setting_slot af c_transpose "''transpose''" "\<lambda>v. \<not> falsy v" for af
  by unfold_locales (simp_all add: applyKey_transpose)

lemma knownKeys_distinct: "distinct (map fst knownKeys)"
  by (simp add: knownKeys_def)

lemma knownKeys_env:
  "map_of knownKeys ''dir'' = Some ''UCACHE_DIR''" "map_of knownKeys ''disable'' = Some ''UCACHE_DISABLE''"
  "map_of knownKeys ''transpose'' = Some ''UCACHE_TRANSPOSE''"
  by (simp_all add: knownKeys_def)

section \<open>Numbers survive printing\<close>

lemma digit_char [simp]: "d < 10 \<Longrightarrow> is_digit (digit_char d)" "d < 10 \<Longrightarrow> digit_val (digit_char d) = d"
  by (simp_all add: is_digit_def digit_val_def digit_char_def)

lemma dec_val_append: "dec_val a (xs @ ys) = dec_val (dec_val a xs) ys"
  by (induction xs arbitrary: a) auto

lemma show_nat_digits: "list_all is_digit (show_nat n) \<and> show_nat n \<noteq> []"
  by (induction n rule: show_nat.induct) (auto simp: show_nat.simps)

lemma dec_val_show_nat: "dec_val 0 (show_nat n) = n"
proof (induction n rule: show_nat.induct)
  case (1 n)
  then show ?case by (cases "n < 10") (simp_all add: show_nat.simps [of n] dec_val_append)
qed

lemma takeWhile_digits [simp]: "list_all P xs \<Longrightarrow> takeWhile P xs = xs" "list_all P xs \<Longrightarrow> dropWhile P xs = []"
  by (induction xs) auto

lemma digit_not: "is_digit c \<Longrightarrow> \<not> is_space c \<and> c \<noteq> CHR ''-'' \<and> c \<noteq> CHR ''+''"
  by (auto simp: is_digit_def is_space_def)

lemma scan_show_nat: "scan_int (show_nat n) = (False, n)"
proof -
  obtain c cs where s: "show_nat n = c # cs" "is_digit c"
    using show_nat_digits [of n] by (cases "show_nat n") auto
  then show ?thesis
    using show_nat_digits [of n] dec_val_show_nat [of n] digit_not [of c] by (simp add: scan_int_def Let_def)
qed

lemma scan_show_neg: "scan_int (CHR ''-'' # show_nat n) = (True, n)"
  using show_nat_digits [of n] dec_val_show_nat [of n] by (simp add: scan_int_def Let_def is_space_def)

section \<open>Properties\<close>

text \<open>C35. Whatever the plugin's configuration (a file or the map XrdCl passes), the state file and the
  environment contain, the loaded configuration has a legal page size, a read fraction between
  1 and 100 and a non-negative eviction interval; its watermarks satisfy 0 < low < high \<open>\<le>\<close> 1
  or one of them is NaN, and they are in order for certain when \<^verbatim>\<open>atof\<close> never gave NaN. The
  exception is real: the three tests of the clamping let a NaN pass.\<close>

theorem fromEnv_sane:
  assumes "c = fromEnv_file af getenv files path \<or> c = fromEnv_map af getenv files conf"
  shows "settings_ok c \<and> 0 \<le> c_evictCheckSeconds c \<and>
    (marks_ok c \<or> c_lowWater c = NaN \<or> c_highWater c = NaN) \<and> ((\<forall>s. af s \<noteq> NaN) \<longrightarrow> marks_ok c) \<and>
    (c_lowWater c0 = NaN \<and> \<not> dbl_lt (Dbl 1) (c_highWater c0) \<longrightarrow> c_lowWater (clampAndFinish c0 em) = NaN) \<and>
    (c_highWater c0 = NaN \<and> \<not> dbl_le (c_lowWater c0) (Dbl 0) \<longrightarrow> c_highWater (clampAndFinish c0 em) = NaN)"
proof -
  have "settings_ok c \<and> 0 \<le> c_evictCheckSeconds c \<and> (marks_ok c \<or> c_lowWater c = NaN \<or> c_highWater c = NaN)"
    using assms ok_inv.inv_load [of "\<lambda>c. settings_ok c \<and> 0 \<le> c_evictCheckSeconds c \<and> (marks_ok c \<or> c_lowWater c = NaN \<or> c_highWater c = NaN)"]
      clamp_ok clamp_marks by blast
  moreover have "marks_ok c" if "\<forall>s. af s \<noteq> NaN"
    using assms nan_inv.inv_load [of af marks_ok] clamp_marks that unfolding no_nan_def by blast
  ultimately show ?thesis using clamp_nan by blast
qed

theorem fromEnv_sane_witness:
  "(\<exists>c. c = fromEnv_map (\<lambda>s. if s = ''0.5'' then Dbl (1 / 2) else Dbl 0) (\<lambda>_. None) (\<lambda>_. None) [(''low_water'', ''0.5'')] \<and>
     marks_ok c \<and> c_lowWater c = Dbl (1 / 2)) \<and>
   (\<exists>c. c = fromEnv_map (\<lambda>s. if s = ''nan'' then NaN else Dbl 0) (\<lambda>_. None) (\<lambda>_. None) [(''low_water'', ''nan'')] \<and>
     settings_ok c \<and> c_lowWater c = NaN)"
proof -
  let ?a = "\<lambda>s. if s = ''0.5'' then Dbl (1 / 2) else Dbl 0" and ?b = "\<lambda>s. if s = ''nan'' then NaN else Dbl 0"
  have "fold (env_key af (\<lambda>_. None)) ks st = st" for af ks st by (induction ks arbitrary: st) (simp_all add: env_key_def)
  then have env: "applyEnvLayer af (\<lambda>_. None) st = st" for af st by (simp add: applyEnvLayer_def)
  note ev = fromEnv_map_def finishLoad_def env applyKey_def record_source_def default_config_def clampAndFinish_def dbl_le_def Let_def
  have "c_lowWater (fromEnv_map ?a (\<lambda>_. None) (\<lambda>_. None) [(''low_water'', ''0.5'')]) = Dbl (1 / 2)"
    "c_lowWater (fromEnv_map ?b (\<lambda>_. None) (\<lambda>_. None) [(''low_water'', ''nan'')]) = NaN" by (simp_all add: ev)
  then show ?thesis
    using fromEnv_sane [of _ ?a "\<lambda>_. None" "\<lambda>_. None" "[]" "[(''low_water'', ''0.5'')]"]
      fromEnv_sane [of _ ?b "\<lambda>_. None" "\<lambda>_. None" "[]" "[(''low_water'', ''nan'')]"] by auto
qed

text \<open>The environment wins over both files for the cache directory and the kill switches, and the
  state file, which lives inside the cache directory, never relocates it.\<close>

theorem environment_wins:
  "let c = finishLoad af getenv files st;
       set = (\<lambda>n. getenv n \<noteq> None \<and> getenv n \<noteq> Some [])
   in c_cacheDir c = (if set ''UCACHE_DIR'' then the (getenv ''UCACHE_DIR'') else c_cacheDir (fst st)) \<and>
      (set ''UCACHE_DISABLE'' \<longrightarrow> c_disable c = truthy (the (getenv ''UCACHE_DISABLE''))) \<and>
      (set ''UCACHE_TRANSPOSE'' \<longrightarrow> c_transpose c = (\<not> falsy (the (getenv ''UCACHE_TRANSPOSE''))))"
  by (auto simp: finishLoad_def Let_def applyEnvLayer_def knownKeys_env dir_slot.slot_state
      dir_slot.slot_env_fold [OF knownKeys_distinct] disable_slot.slot_env_fold [OF knownKeys_distinct]
      transpose_slot.slot_env_fold [OF knownKeys_distinct])

theorem environment_wins_witness:
  "c_disable (finishLoad (\<lambda>_. Dbl 0) (\<lambda>n. if n = ''UCACHE_DISABLE'' then Some ''1'' else None) (\<lambda>p. Some ''disable = off'')
     (default_config\<lparr>c_cacheDir := ''d''\<rparr>, False))"
  using environment_wins [of "\<lambda>_. Dbl 0" "\<lambda>n. if n = ''UCACHE_DISABLE'' then Some ''1'' else None"
      "\<lambda>p. Some ''disable = off''" "(default_config\<lparr>c_cacheDir := ''d''\<rparr>, False)"]
  by (simp add: Let_def truthy_def)

text \<open>The printed form of a number reads back as the number: a byte size below \<open>2 ^ 64\<close> and a
  32-bit integer setting printed by \<^verbatim>\<open>valueOf\<close> are what \<^verbatim>\<open>applyKey\<close> sets from that text.\<close>

theorem numbers_roundtrip:
  "(n < 2 ^ 64 \<longrightarrow> parseBytes (show_nat n) = Some n) \<and>
   (- (2 ^ 31) \<le> i \<and> i < 2 ^ 31 \<longrightarrow> atoi (show_int i) = i)"
proof -
  obtain c cs where s: "show_nat n = c # cs" "is_digit c"
    using show_nat_digits [of n] by (cases "show_nat n") auto
  have "parseBytes (show_nat n) = Some n" if "n < 2 ^ 64"
    using s that show_nat_digits [of n] scan_show_nat [of n] by (simp add: parseBytes_def Let_def strtoul_def)
  moreover have "atoi (show_int i) = i" if "- (2 ^ 31) \<le> i" "i < 2 ^ 31"
    using that by (auto simp: atoi_def strtol_def show_int_def scan_show_nat scan_show_neg)
  ultimately show ?thesis by blast
qed

theorem numbers_roundtrip_witness: "parseBytes (show_nat 4096) = Some 4096 \<and> atoi (show_int (- 7)) = - 7"
  using numbers_roundtrip [of 4096 "- 7"] by simp

text \<open>A size with a fraction is not refused: \<^verbatim>\<open>1.5g\<close> is read as one byte, and an invalid
  page size is reported as applied although nothing changed.\<close>

theorem typo_reinterpreted:
  "parseBytes ''1.5g'' = Some 1 \<and> applyKey af c ''page_size'' ''5000'' em = (True, c, em)"
proof -
  note evals = strtoul_def scan_int_def is_digit_def is_space_def digit_val_def Let_def
  have "parseBytes ''1.5g'' = Some 1" by (simp add: parseBytes_def evals)
  moreover have "strtoul ''5000'' = 5000" "dropWhile is_digit ''5000'' = []" by (simp_all add: evals)
  moreover have "\<not> validPageSize 5000" by (simp add: validPageSize_def and_nat_def)
  ultimately show ?thesis by (simp add: applyKey_def setPageSize_def Let_def u32n_def)
qed

end
