(* ===== verification/Stage_Map.thy ===== *)
theory Stage_Map
  imports Prelude
begin

text \<open>
  The \<^verbatim>\<open>std::map<uint64_t, T>\<close> of the sources as an association list with strictly increasing
  keys, so that iteration is the map's own order: \<open>sm_insert\<close> is \<^verbatim>\<open>emplace\<close> (which keeps an
  existing element), \<open>sm_erase\<close> is \<^verbatim>\<open>erase\<close>, \<open>sm_modify\<close> a change through an iterator.
  The contract the components use is the locale \<open>ordered_map\<close>: lookups after each
  operation, and the weight of the elements, which is how byte pools are accounted.
\<close>

fun sm_insert :: "nat \<Rightarrow> 'a \<Rightarrow> (nat \<times> 'a) list \<Rightarrow> (nat \<times> 'a) list" where
  "sm_insert k v [] = [(k, v)]"
| "sm_insert k v ((k', v') # xs) =
     (if k < k' then (k, v) # (k', v') # xs
      else if k = k' then (k', v') # xs else (k', v') # sm_insert k v xs)"

definition sm_modify :: "nat \<Rightarrow> ('a \<Rightarrow> 'a) \<Rightarrow> (nat \<times> 'a) list \<Rightarrow> (nat \<times> 'a) list" where
  "sm_modify k f xs = map (\<lambda>e. if fst e = k then (fst e, f (snd e)) else e) xs"

definition sm_erase :: "nat \<Rightarrow> (nat \<times> 'a) list \<Rightarrow> (nat \<times> 'a) list" where
  "sm_erase k xs = filter (\<lambda>e. fst e \<noteq> k) xs"

definition sm_ok :: "(nat \<times> 'a) list \<Rightarrow> bool" where
  "sm_ok xs \<longleftrightarrow> sorted_wrt (<) (map fst xs)"

definition sm_sum :: "(nat \<Rightarrow> 'a \<Rightarrow> nat) \<Rightarrow> (nat \<times> 'a) list \<Rightarrow> nat" where
  "sm_sum w xs = sum_list (map (\<lambda>e. w (fst e) (snd e)) xs)"

section \<open>Order\<close>

lemma sm_ok_distinct: "sm_ok xs \<Longrightarrow> distinct (map fst xs)"
  by (simp add: sm_ok_def strict_sorted_iff)

lemma sm_ok_Nil [simp]: "sm_ok []"
  by (simp add: sm_ok_def)

lemma fst_sm_modify [simp]: "map fst (sm_modify k f xs) = map fst xs"
  by (simp add: sm_modify_def)

lemma set_fst_sm_insert [simp]: "fst ` set (sm_insert k v xs) = insert k (fst ` set xs)"
  by (induction k v xs rule: sm_insert.induct) auto

lemma sm_ok_insert: "sm_ok xs \<Longrightarrow> sm_ok (sm_insert k v xs)"
proof (induction k v xs rule: sm_insert.induct)
  case (2 k v k' v' xs)
  have "\<forall>x\<in>fst ` set (sm_insert k v xs). k' < x" if "k' < k"
    using "2.prems" that by (auto simp: sm_ok_def)
  with 2 show ?case by (auto simp: sm_ok_def)
qed (simp add: sm_ok_def)

lemma sm_ok_filter: "sm_ok xs \<Longrightarrow> sm_ok (filter P xs)"
  by (induction xs) (auto simp: sm_ok_def)

lemma sm_ok_modify: "sm_ok xs \<Longrightarrow> sm_ok (sm_modify k f xs)"
  by (simp add: sm_ok_def)

section \<open>Lookup\<close>

lemma map_of_sm_insert:
  "sm_ok xs \<Longrightarrow> map_of (sm_insert k v xs) j = (if j = k \<and> map_of xs k = None then Some v else map_of xs j)"
proof (induction k v xs rule: sm_insert.induct)
  case (2 k v k' v' xs)
  have "map_of xs k = None" if "k < k'"
    using "2.prems" that by (auto simp: sm_ok_def map_of_eq_None_iff)
  with 2 show ?case by (auto simp: sm_ok_def)
qed auto

lemma sm_ok_erase: "sm_ok xs \<Longrightarrow> sm_ok (sm_erase k xs)"
  by (simp add: sm_erase_def sm_ok_filter)

lemma map_of_sm_modify: "map_of (sm_modify k f xs) j = (if j = k then map_option f (map_of xs j) else map_of xs j)"
  by (induction xs) (auto simp: sm_modify_def)

lemma map_of_sm_erase: "map_of (sm_erase k xs) j = (if j = k then None else map_of xs j)"
  by (induction xs) (auto simp: sm_erase_def)

lemma map_of_filter:
  "sm_ok xs \<Longrightarrow> map_of (filter P xs) j = (case map_of xs j of Some v \<Rightarrow> if P (j, v) then Some v else None | None \<Rightarrow> None)"
proof (induction xs)
  case (Cons x xs)
  have "map_of (filter P xs) (fst x) = None"
    using Cons.prems by (auto simp: sm_ok_def map_of_eq_None_iff)
  with Cons show ?case by (cases x) (auto simp: sm_ok_def)
qed simp

section \<open>Weight\<close>

lemma sm_sum_Nil [simp]: "sm_sum w [] = 0"
  by (simp add: sm_sum_def)

lemma sm_sum_insert: "map_of xs k = None \<Longrightarrow> sm_sum w (sm_insert k v xs) = w k v + sm_sum w xs"
  by (induction k v xs rule: sm_insert.induct) (auto simp: sm_sum_def split: if_splits)

lemma sm_sum_erase:
  "sm_ok xs \<Longrightarrow> map_of xs k = Some v \<Longrightarrow> sm_sum w xs = w k v + sm_sum w (sm_erase k xs)"
proof (induction xs)
  case (Cons x xs)
  have "fst x = k \<Longrightarrow> sm_erase k xs = xs"
    using Cons.prems by (auto simp: sm_erase_def sm_ok_def filter_id_conv)
  with Cons show ?case by (cases x) (auto simp: sm_sum_def sm_erase_def sm_ok_def split: if_splits)
qed simp

lemma sm_sum_modify:
  "sm_ok xs \<Longrightarrow> map_of xs k = Some v \<Longrightarrow> sm_sum w (sm_modify k f xs) + w k v = sm_sum w xs + w k (f v)"
proof (induction xs)
  case (Cons x xs)
  have e: "fst x = k \<Longrightarrow> sm_modify k f xs = xs"
    using Cons.prems by (auto simp: sm_modify_def sm_ok_def intro!: map_idI)
  have c: "sm_modify k f (x # xs) = (if fst x = k then (k, f (snd x)) else x) # sm_modify k f xs"
    by (simp add: sm_modify_def)
  show ?case
  proof (cases "fst x = k")
    case True
    with Cons.prems e show ?thesis unfolding c by (cases x) (simp add: sm_sum_def)
  next
    case False
    with Cons show ?thesis unfolding c by (cases x) (auto simp: sm_sum_def sm_ok_def)
  qed
qed simp

lemma sm_sum_filter: "sm_sum w xs = sm_sum w (filter P xs) + sm_sum w (filter (\<lambda>e. \<not> P e) xs)"
  by (induction xs) (auto simp: sm_sum_def)

lemma sm_sum_zero: "(\<And>k v. (k, v) \<in> set xs \<Longrightarrow> w k v = 0) \<Longrightarrow> sm_sum w xs = 0"
  by (auto simp: sm_sum_def)

lemma sm_sum_cong: "(\<And>k v. (k, v) \<in> set xs \<Longrightarrow> w k v = w' k v) \<Longrightarrow> sm_sum w xs = sm_sum w' xs"
  by (auto simp: sm_sum_def intro!: arg_cong [of _ _ sum_list])

lemma sm_sum_add: "sm_sum (\<lambda>k v. w k v + w' k v) xs = sm_sum w xs + sm_sum w' xs"
  by (induction xs) (auto simp: sm_sum_def)

section \<open>The interface\<close>

text \<open>What the stage relies on: an ordered map with lookup, in which a weight changes by
  exactly the weight of the element concerned.\<close>

locale ordered_map =
  fixes ok :: "'m \<Rightarrow> bool" and look :: "'m \<Rightarrow> nat \<Rightarrow> 'a option"
    and ins :: "nat \<Rightarrow> 'a \<Rightarrow> 'm \<Rightarrow> 'm" and del :: "nat \<Rightarrow> 'm \<Rightarrow> 'm" and upd :: "nat \<Rightarrow> ('a \<Rightarrow> 'a) \<Rightarrow> 'm \<Rightarrow> 'm"
    and weight :: "(nat \<Rightarrow> 'a \<Rightarrow> nat) \<Rightarrow> 'm \<Rightarrow> nat"
  assumes ok_ins: "ok m \<Longrightarrow> ok (ins k v m)" and ok_del: "ok m \<Longrightarrow> ok (del k m)" and ok_upd: "ok m \<Longrightarrow> ok (upd k f m)"
    and look_ins: "ok m \<Longrightarrow> look (ins k v m) j = (if j = k \<and> look m k = None then Some v else look m j)"
    and look_del: "ok m \<Longrightarrow> look (del k m) j = (if j = k then None else look m j)"
    and look_upd: "ok m \<Longrightarrow> look (upd k f m) j = (if j = k then map_option f (look m j) else look m j)"
    and weight_ins: "look m k = None \<Longrightarrow> weight w (ins k v m) = w k v + weight w m"
    and weight_del: "ok m \<Longrightarrow> look m k = Some v \<Longrightarrow> weight w m = w k v + weight w (del k m)"
    and weight_upd: "ok m \<Longrightarrow> look m k = Some v \<Longrightarrow> weight w (upd k f m) + w k v = weight w m + w k (f v)"
begin

lemma weight_ins_del: "ok m \<Longrightarrow> look m k = None \<Longrightarrow> weight w (del k (ins k v m)) = weight w m"
  using weight_del [OF ok_ins, of m k v k v w] weight_ins [of m k w v] look_ins [of m k v k] by simp

lemma weight_ge: "ok m \<Longrightarrow> look m k = Some v \<Longrightarrow> w k v \<le> weight w m"
  using weight_del [of m k v w] by simp

lemma weight_upd_word:
  assumes "ok m" and "look m k = Some v"
  shows "word_of_nat (weight w (upd k f m)) = (word_of_nat (weight w m) + word_of_nat (w k (f v)) - word_of_nat (w k v) :: u64w)"
  using arg_cong [OF weight_upd [OF assms, of w f], of "word_of_nat :: nat \<Rightarrow> u64w"] by (simp add: algebra_simps)

lemma weight_del_word:
  assumes "ok m" and "look m k = Some v"
  shows "word_of_nat (weight w (del k m)) = (word_of_nat (weight w m) - word_of_nat (w k v) :: u64w)"
  using arg_cong [OF weight_del [OF assms, of w], of "word_of_nat :: nat \<Rightarrow> u64w"] by (simp add: algebra_simps)

end

interpretation sm: ordered_map sm_ok map_of sm_insert sm_erase sm_modify sm_sum
  by unfold_locales
    (simp_all add: sm_ok_insert sm_ok_erase sm_ok_modify map_of_sm_insert map_of_sm_erase map_of_sm_modify
      sm_sum_insert sm_sum_erase sm_sum_modify)

end
