(* ===== verification/Entry_State.thy ===== *)
theory Entry_State
  imports Meta_File Stage_Map Settings
begin

text \<open>
  One cached object (\<^verbatim>\<open>FileEntry\<close> of \<^verbatim>\<open>src/src/core/FileEntry.h\<close> and \<^verbatim>\<open>FileEntry.cc\<close>): its state and the
  operations that touch only memory. The fields of the class are the record \<open>entry\<close>; what
  all entries of a process share (the file system, the three process-wide byte pools, the
  counters) is the record \<open>proc\<close>. Byte pools are 64-bit words, because the sources
  subtract from them and a subtraction that is not matched would wrap. A body under the
  entry mutex is one function; the file I/O between two lock scopes is a separate function in
  the theories above this one. Callbacks are identified by numbers, time is an
  argument; latency histograms, spans, log and trace lines are left out.
\<close>

section \<open>State\<close>

record stats =
  opens :: nat
  validationsFailed :: nat
  metaCorrupt :: nat
  failopenEvents :: nat
  crcFailures :: nat
  prefetchServedBytes :: nat
  prefetchRefetchedBytes :: nat
  prefetchDroppedUnread :: nat
  ramHitBytes :: nat
  hitDiskReads :: nat
  hitDiskBytes :: nat
  hitDiskSeq :: nat
  firstTouchBytes :: nat
  hitBytes :: nat
  pageWrites :: nat
  flushRuns :: nat
  flushRunBytes :: nat
  bufferStalls :: nat
  fetchesJoined :: nat

record proc =
  p_io :: io
  g_bufTotal :: u64w
  g_specTotal :: u64w
  g_specDropped :: u64w
  p_stats :: stats

record obs =
  o_servedBytes :: nat
  o_ramBytes :: nat
  o_diskReads :: nat
  o_diskSeq :: nat
  o_diskBytes :: nat
  o_firstTouchBytes :: nat
  o_wireBytes :: nat
  o_prefetchServed :: nat
  o_prefetchDropped :: nat

record bufPage =
  bp_data :: bytes
  bp_crc :: u32
  bp_spec :: bool
  bp_touched :: bool

type_synonym stage = "(nat \<times> bufPage) list"

record entry =
  e_key :: string
  e_metaPath :: string
  e_dataFd :: nat
  e_closing :: bool
  e_meta :: metaData
  e_dirty :: bool
  e_lastFlushS :: nat
  e_setSince :: pageBitmap
  e_clearedSince :: pageBitmap
  e_pinTouched :: bool
  e_buf :: stage
  e_flushing :: stage
  e_bufBytes :: u64w
  e_specBytes :: u64w
  e_lastBufFlushS :: nat
  e_flushInProgress :: bool
  e_inflight :: "((nat \<times> nat) \<times> nat list) list"
  e_flight :: "(nat \<times> nat) list"
  e_flightWaiters :: "nat list"
  e_servedOnce :: pageBitmap
  e_lastDiskEnd :: nat
  e_obs :: obs

text \<open>The entry as \<^verbatim>\<open>open\<close> leaves it: the constructor's initial values and the adopted or fresh
  metadata.\<close>

definition new_entry :: "string \<Rightarrow> string \<Rightarrow> nat \<Rightarrow> metaData \<Rightarrow> bool \<Rightarrow> nat \<Rightarrow> entry" where
  "new_entry k mpath fd m dirty now =
     \<lparr>e_key = k, e_metaPath = mpath, e_dataFd = fd, e_closing = False, e_meta = m, e_dirty = dirty,
      e_lastFlushS = now, e_setSince = bm_reset (npages m), e_clearedSince = bm_reset (npages m),
      e_pinTouched = False, e_buf = [], e_flushing = [], e_bufBytes = 0, e_specBytes = 0,
      e_lastBufFlushS = now, e_flushInProgress = False, e_inflight = [], e_flight = [],
      e_flightWaiters = [], e_servedOnce = bm_reset 0, e_lastDiskEnd = 2 ^ 64 - 1,
      e_obs = \<lparr>o_servedBytes = 0, o_ramBytes = 0, o_diskReads = 0, o_diskSeq = 0, o_diskBytes = 0,
        o_firstTouchBytes = 0, o_wireBytes = 0, o_prefetchServed = 0, o_prefetchDropped = 0\<rparr>\<rparr>"

abbreviation P_of :: "entry \<Rightarrow> nat" where
  "P_of e \<equiv> pageSize (e_meta e)"

abbreviation nbytes_of :: "entry \<Rightarrow> nat \<Rightarrow> nat" where
  "nbytes_of e i \<equiv> pageBytes (e_meta e) i"

section \<open>Presence\<close>

definition publishPage :: "entry \<Rightarrow> nat \<Rightarrow> u32 \<Rightarrow> entry" where
  "publishPage e pg crc =
     e\<lparr>e_meta := (e_meta e)\<lparr>bitmap := bm_set (bitmap (e_meta e)) pg,
                             pageCrcs := (pageCrcs (e_meta e))[pg := crc]\<rparr>,
       e_setSince := bm_set (e_setSince e) pg,
       e_clearedSince := bm_clear (e_clearedSince e) pg\<rparr>"

definition retractPage :: "entry \<Rightarrow> nat \<Rightarrow> entry" where
  "retractPage e pg =
     e\<lparr>e_meta := (e_meta e)\<lparr>bitmap := bm_clear (bitmap (e_meta e)) pg,
                             pageCrcs := (pageCrcs (e_meta e))[pg := 0]\<rparr>,
       e_clearedSince := bm_set (e_clearedSince e) pg,
       e_setSince := bm_clear (e_setSince e) pg\<rparr>"

definition pageHere :: "entry \<Rightarrow> nat \<Rightarrow> bool" where
  "pageHere e i \<longleftrightarrow> bm_get (bitmap (e_meta e)) i \<or> map_of (e_buf e) i \<noteq> None \<or> map_of (e_flushing e) i \<noteq> None"

definition hasRange :: "entry \<Rightarrow> nat \<Rightarrow> nat \<Rightarrow> bool" where
  "hasRange e off len =
     (if len = 0 \<or> u64 (off + len) < off \<or> u64 (off + len) > fileSize (e_meta e) then False
      else let first = off div P_of e;
               lst = (u64 (off + len) - 1) div P_of e
           in if e_buf e = [] \<and> e_flushing e = [] then bm_rangeSet (bitmap (e_meta e)) first lst
              else list_all (pageHere e) [first..<Suc lst])"

section \<open>The stage\<close>

text \<open>Clearing a speculative mark moves the page's bytes from the speculative to the fill pool.\<close>

definition unmarkSpeculative :: "entry \<Rightarrow> nat \<Rightarrow> entry" where
  "unmarkSpeculative e i =
     e\<lparr>e_buf := sm_modify i (\<lambda>b. b\<lparr>bp_spec := False\<rparr>) (e_buf e),
       e_specBytes := e_specBytes e - word_of_nat (nbytes_of e i),
       e_bufBytes := e_bufBytes e + word_of_nat (nbytes_of e i)\<rparr>"

definition new_page :: "bytes \<Rightarrow> bool \<Rightarrow> bufPage" where
  "new_page d spec = \<lparr>bp_data = d, bp_crc = crc32c d, bp_spec = spec, bp_touched = False\<rparr>"

text \<open>One page of the locked loop of \<^verbatim>\<open>writePages\<close>; the loop counts the bytes newly staged and
  those of predictions the fill covered. It stops at the first page that does not
  end inside the range (\<open>stop\<close> is \<^verbatim>\<open>end\<close>): a partial edge page stays unstaged.\<close>

definition fill_page :: "nat \<Rightarrow> bytes \<Rightarrow> nat \<Rightarrow> entry \<times> nat \<times> nat \<Rightarrow> entry \<times> nat \<times> nat" where
  "fill_page off inp i st =
     (case st of (e, staged, covered) \<Rightarrow>
        let n = nbytes_of e i in
        case map_of (e_buf e) i of
          Some b \<Rightarrow> if bp_spec b then (unmarkSpeculative e i, staged, covered + n) else st
        | None \<Rightarrow>
            if bm_get (bitmap (e_meta e)) i \<or> map_of (e_flushing e) i \<noteq> None then st
            else (e\<lparr>e_buf := sm_insert i (new_page (slice (i * P_of e - off) n inp) False) (e_buf e),
                    e_bufBytes := e_bufBytes e + word_of_nat n\<rparr>, staged + n, covered))"

definition spec_page :: "nat \<Rightarrow> bytes \<Rightarrow> nat \<Rightarrow> entry \<times> nat \<Rightarrow> entry \<times> nat" where
  "spec_page off inp i st =
     (case st of (e, staged) \<Rightarrow>
        let n = nbytes_of e i in
        if bm_get (bitmap (e_meta e)) i \<or> map_of (e_buf e) i \<noteq> None \<or> map_of (e_flushing e) i \<noteq> None then st
        else (e\<lparr>e_buf := sm_insert i (new_page (slice (i * P_of e - off) n inp) True) (e_buf e),
                e_specBytes := e_specBytes e + word_of_nat n\<rparr>, staged + n))"

text \<open>The pages of the loops \<^verbatim>\<open>for (i = (off + P - 1) / P; i * P < end; ++i)\<close> up to their \<^verbatim>\<open>break\<close>.\<close>

definition loop_pages :: "entry \<Rightarrow> nat \<Rightarrow> nat \<Rightarrow> nat list" where
  "loop_pages e off stop =
     takeWhile (\<lambda>i. i * P_of e + nbytes_of e i \<le> stop)
       [u64 (off + P_of e - 1) div P_of e..<ceil_div stop (P_of e)]"

definition stageSpeculative :: "config \<Rightarrow> proc \<Rightarrow> entry \<Rightarrow> nat \<Rightarrow> nat \<Rightarrow> bytes \<Rightarrow> nat \<times> proc \<times> entry" where
  "stageSpeculative cfg p e off len inp =
     (let stop = min (u64 (off + len)) (fileSize (e_meta e)) in
      if len = 0 \<or> c_fillBufferMb cfg \<le> 0 \<or> off \<ge> stop then (0, p, e)
      else case fold (spec_page off inp) (loop_pages e off stop) (e, 0) of (e1, staged) \<Rightarrow>
        (staged, if staged \<noteq> 0 then p\<lparr>g_specTotal := g_specTotal p + word_of_nat staged\<rparr> else p, e1))"

definition noteSpeculativeDropped :: "proc \<Rightarrow> entry \<Rightarrow> nat \<Rightarrow> proc \<times> entry" where
  "noteSpeculativeDropped p e n =
     (p\<lparr>g_specDropped := g_specDropped p + word_of_nat n,
        p_stats := (p_stats p)\<lparr>prefetchDroppedUnread := prefetchDroppedUnread (p_stats p) + n\<rparr>\<rparr>,
      e\<lparr>e_obs := (e_obs e)\<lparr>o_prefetchDropped := o_prefetchDropped (e_obs e) + n\<rparr>\<rparr>)"

text \<open>The pages wholly inside the range, first and one past the last; the short page at the end
  of the file counts as whole when the range reaches it.\<close>

definition inner_pages :: "entry \<Rightarrow> nat \<Rightarrow> nat \<Rightarrow> nat \<times> nat" where
  "inner_pages e off stop =
     (u64 (off + P_of e - 1) div P_of e,
      if stop = fileSize (e_meta e) then u64 (stop + P_of e - 1) div P_of e else stop div P_of e)"

definition spec_in :: "nat \<Rightarrow> nat \<Rightarrow> nat \<times> bufPage \<Rightarrow> bool" where
  "spec_in a b x \<longleftrightarrow> a \<le> fst x \<and> fst x < b \<and> bp_spec (snd x)"

definition dropSpeculative :: "proc \<Rightarrow> entry \<Rightarrow> nat \<Rightarrow> nat \<Rightarrow> nat \<times> proc \<times> entry" where
  "dropSpeculative p e off len =
     (let stop = min (u64 (off + len)) (fileSize (e_meta e)) in
      if len = 0 \<or> u64 (off + len) < off \<or> off \<ge> stop then (0, p, e)
      else let (firstPage, stopPage) = inner_pages e off stop in
        if firstPage \<ge> stopPage then (0, p, e)
        else
          let gone = filter (spec_in firstPage stopPage) (e_buf e);
              dropped = sm_sum (\<lambda>i b. nbytes_of e i) gone;
              unread = sm_sum (\<lambda>i b. if bp_touched b then 0 else nbytes_of e i) gone;
              e1 = e\<lparr>e_buf := filter (\<lambda>x. \<not> spec_in firstPage stopPage x) (e_buf e),
                     e_specBytes := e_specBytes e - word_of_nat dropped\<rparr>;
              p1 = (if dropped \<noteq> 0 then p\<lparr>g_specTotal := g_specTotal p - word_of_nat dropped\<rparr> else p)
          in if unread \<noteq> 0 then (dropped, noteSpeculativeDropped p1 e1 unread) else (dropped, p1, e1))"

definition dropAllSpeculative :: "proc \<Rightarrow> entry \<Rightarrow> nat \<times> proc \<times> entry" where
  "dropAllSpeculative p e = dropSpeculative p e 0 (fileSize (e_meta e))"

definition touch_edge :: "nat \<Rightarrow> nat \<Rightarrow> nat \<Rightarrow> stage \<Rightarrow> stage" where
  "touch_edge firstPage stopPage pg buf =
     (if pg < firstPage \<or> pg \<ge> stopPage
      then sm_modify pg (\<lambda>b. if bp_spec b then b\<lparr>bp_touched := True\<rparr> else b) buf else buf)"

definition consumeSpeculative :: "proc \<Rightarrow> entry \<Rightarrow> nat \<Rightarrow> nat \<Rightarrow> nat \<times> proc \<times> entry" where
  "consumeSpeculative p e off len =
     (let stop = min (u64 (off + len)) (fileSize (e_meta e)) in
      if len = 0 \<or> u64 (off + len) < off \<or> off \<ge> stop then (0, p, e)
      else
        let (firstPage, stopPage) = inner_pages e off stop;
            buf1 = touch_edge firstPage stopPage ((stop - 1) div P_of e)
                     (touch_edge firstPage stopPage (off div P_of e) (e_buf e));
            gone = filter (spec_in firstPage stopPage) buf1;
            used = sm_sum (\<lambda>i b. nbytes_of e i) gone;
            e1 = e\<lparr>e_buf := filter (\<lambda>x. \<not> spec_in firstPage stopPage x) buf1,
                   e_specBytes := e_specBytes e - word_of_nat used\<rparr>
        in if used \<noteq> 0
           then (used,
                 p\<lparr>g_specTotal := g_specTotal p - word_of_nat used,
                   p_stats := (p_stats p)\<lparr>prefetchServedBytes := prefetchServedBytes (p_stats p) + used\<rparr>\<rparr>,
                 e1\<lparr>e_obs := (e_obs e1)\<lparr>o_prefetchServed := o_prefetchServed (e_obs e1) + used\<rparr>\<rparr>)
           else (used, p, e1))"

section \<open>Absent runs and ranges on the wire\<close>

definition pageInFlight :: "entry \<Rightarrow> nat \<Rightarrow> bool" where
  "pageInFlight e pg \<longleftrightarrow> list_ex (\<lambda>(a, b). a \<le> pg \<and> b > pg) (e_flight e)"

definition add_run :: "(nat \<times> nat) list \<Rightarrow> nat \<Rightarrow> nat \<Rightarrow> (nat \<times> nat) list" where
  "add_run runs pStart pLen =
     (if runs \<noteq> [] \<and> fst (last runs) + snd (last runs) = pStart
      then butlast runs @ [(fst (last runs), snd (last runs) + pLen)] else runs @ [(pStart, pLen)])"

fun absent_loop :: "entry \<Rightarrow> bool \<Rightarrow> nat list \<Rightarrow> (nat \<times> nat) list \<Rightarrow> (nat \<times> nat) list" where
  "absent_loop e skip [] runs = runs"
| "absent_loop e skip (i # is) runs =
     (if pageHere e i \<or> (skip \<and> pageInFlight e i) then absent_loop e skip is runs
      else absent_loop e skip is (add_run runs (i * P_of e) (nbytes_of e i)))"

definition absentRuns :: "entry \<Rightarrow> nat \<Rightarrow> nat \<Rightarrow> bool \<Rightarrow> (nat \<times> nat) list" where
  "absentRuns e off len skip =
     (let stop = min (u64 (off + len)) (fileSize (e_meta e)) in
      if len = 0 \<or> u64 (off + len) < off \<or> off \<ge> stop then []
      else absent_loop e skip [off div P_of e..<Suc ((stop - 1) div P_of e)] [])"

function covered_from :: "(nat \<times> nat) list \<Rightarrow> nat \<Rightarrow> nat \<Rightarrow> bool" where
  "covered_from fl pos stop =
     (if pos < stop
      then (case List.find (\<lambda>(a, b). a \<le> pos \<and> b > pos) fl of
              Some (a, b) \<Rightarrow> covered_from fl b stop
            | None \<Rightarrow> False)
      else True)"
  by pat_completeness auto
termination
  by (relation "measure (\<lambda>(fl, pos, stop). stop - pos)") (auto simp: find_Some_iff)

declare covered_from.simps [simp del]

definition coveredByFlight :: "entry \<Rightarrow> nat \<Rightarrow> nat \<Rightarrow> bool" where
  "coveredByFlight e firstPage endPage = covered_from (e_flight e) firstPage endPage"

definition flight_range :: "entry \<Rightarrow> nat \<Rightarrow> nat \<Rightarrow> (nat \<times> nat) option" where
  "flight_range e off len =
     (let stop = min (u64 (off + len)) (fileSize (e_meta e)) in
      if len = 0 \<or> u64 (off + len) < off \<or> off \<ge> stop then None
      else Some (off div P_of e, u64 (stop + P_of e - 1) div P_of e))"

definition noteFetchInFlight :: "entry \<Rightarrow> nat \<Rightarrow> nat \<Rightarrow> entry" where
  "noteFetchInFlight e off len =
     (case flight_range e off len of None \<Rightarrow> e | Some r \<Rightarrow> e\<lparr>e_flight := e_flight e @ [r]\<rparr>)"

text \<open>Withdrawing the ranges of one request; the parked readers are returned to be woken.\<close>

definition clearFetchInFlight :: "entry \<Rightarrow> (nat \<times> nat) list \<Rightarrow> nat list \<times> entry" where
  "clearFetchInFlight e ranges =
     (e_flightWaiters e,
      e\<lparr>e_flight := fold (\<lambda>(off, len) fl.
            case flight_range e off len of None \<Rightarrow> fl | Some r \<Rightarrow> remove1 r fl) ranges (e_flight e),
        e_flightWaiters := []\<rparr>)"

definition clearFetchInFlight1 :: "entry \<Rightarrow> nat \<Rightarrow> nat \<Rightarrow> nat list \<times> entry" where
  "clearFetchInFlight1 e off len =
     (case flight_range e off len of
        None \<Rightarrow> ([], e)
      | Some r \<Rightarrow> (e_flightWaiters e, e\<lparr>e_flight := remove1 r (e_flight e), e_flightWaiters := []\<rparr>))"

function next_here :: "entry \<Rightarrow> nat \<Rightarrow> nat \<Rightarrow> nat" where
  "next_here e j lst = (if j \<le> lst \<and> \<not> pageHere e j then next_here e (Suc j) lst else j)"
  by pat_completeness auto
termination by (relation "measure (\<lambda>(e, j, lst). Suc lst - j)") auto

declare next_here.simps [simp del]

lemma next_here_gt: "i \<le> lst \<Longrightarrow> \<not> pageHere e i \<Longrightarrow> i < next_here e i lst"
proof -
  have ge: "j \<le> next_here e j lst" for j
    by (induction e j lst rule: next_here.induct) (metis Suc_leD next_here.simps order_refl)
  assume "i \<le> lst" "\<not> pageHere e i"
  then show ?thesis using ge [of "Suc i"] by (simp add: next_here.simps [of e i])
qed

text \<open>The scan of one range: \<open>None\<close> when an absent run is not covered, otherwise whether an
  absent page was seen.\<close>

function wait_scan :: "entry \<Rightarrow> nat \<Rightarrow> nat \<Rightarrow> bool \<Rightarrow> bool option" where
  "wait_scan e i lst saw =
     (if i \<le> lst
      then if pageHere e i then wait_scan e (Suc i) lst saw
           else let j = next_here e i lst in
             if \<not> coveredByFlight e i j then None else wait_scan e j lst True
      else Some saw)"
  by pat_completeness auto
termination
  by (relation "measure (\<lambda>(e, i, lst, saw). Suc lst - i)") (auto dest: next_here_gt intro: diff_less_mono2)

declare wait_scan.simps [simp del]

fun wait_ranges :: "entry \<Rightarrow> (nat \<times> nat) list \<Rightarrow> bool \<Rightarrow> bool option" where
  "wait_ranges e [] saw = Some saw"
| "wait_ranges e ((off, len) # rs) saw =
     (if len = 0 \<or> u64 (off + len) > fileSize (e_meta e) then None
      else case wait_scan e (off div P_of e) (sub64 (u64 (off + len)) 1 div P_of e) saw of
        None \<Rightarrow> None
      | Some s \<Rightarrow> wait_ranges e rs s)"

definition bump_joined :: "proc \<Rightarrow> proc" where
  "bump_joined p = p\<lparr>p_stats := (p_stats p)\<lparr>fetchesJoined := fetchesJoined (p_stats p) + 1\<rparr>\<rparr>"

definition waitForInFlight :: "proc \<Rightarrow> entry \<Rightarrow> (nat \<times> nat) list \<Rightarrow> nat \<Rightarrow> bool \<times> proc \<times> entry" where
  "waitForInFlight p e ranges cb =
     (if e_flight e = [] then (False, p, e)
      else case wait_ranges e ranges False of
        Some True \<Rightarrow> (True, bump_joined p, e\<lparr>e_flightWaiters := e_flightWaiters e @ [cb]\<rparr>)
      | _ \<Rightarrow> (False, p, e))"

section \<open>The fetch gate\<close>

definition beginFetch :: "proc \<Rightarrow> entry \<Rightarrow> nat \<Rightarrow> nat \<Rightarrow> nat \<Rightarrow> bool \<times> proc \<times> entry" where
  "beginFetch p e off len cb =
     (case map_of (e_inflight e) (off, len) of
        None \<Rightarrow> (True, p, e\<lparr>e_inflight := AList.update (off, len) [] (e_inflight e)\<rparr>)
      | Some cbs \<Rightarrow>
          (False, bump_joined p, e\<lparr>e_inflight := AList.update (off, len) (cbs @ [cb]) (e_inflight e)\<rparr>))"

definition endFetch :: "entry \<Rightarrow> nat \<Rightarrow> nat \<Rightarrow> nat list \<times> entry" where
  "endFetch e off len =
     (case map_of (e_inflight e) (off, len) of
        None \<Rightarrow> ([], e)
      | Some cbs \<Rightarrow> (cbs, e\<lparr>e_inflight := AList.delete (off, len) (e_inflight e)\<rparr>))"

section \<open>Page geometry\<close>

lemma page_in_file: "meta_ok m \<Longrightarrow> i < npages m \<longleftrightarrow> i * pageSize m < fileSize m"
  using meta_ok_pageSize [of m] by (simp add: npages_ceil page_arith)

lemma pageBytes_eq:
  assumes "meta_ok m" and "i < npages m"
  shows "pageBytes m i = min (pageSize m) (fileSize m - i * pageSize m)"
proof -
  have i: "i * pageSize m < fileSize m" using assms page_in_file by simp
  have f: "fileSize m + pageSize m \<le> 2 ^ 64" "pageSize m < 2 ^ 32"
    using assms(1) by (simp_all add: meta_ok_def)
  have s: "i * pageSize m + pageSize m < 2 ^ 64" using i f by linarith
  then have u: "u64 (i * pageSize m) = i * pageSize m" "u64 (i * pageSize m + pageSize m) = i * pageSize m + pageSize m"
    by simp_all
  have "min (i * pageSize m + pageSize m) (fileSize m) - i * pageSize m = min (pageSize m) (fileSize m - i * pageSize m)"
    using i by (auto simp: min_def)
  moreover have "i * pageSize m \<le> min (i * pageSize m + pageSize m) (fileSize m)" using i by simp
  ultimately show ?thesis using f(2) by (simp add: pageBytes_def Let_def u)
qed

lemma pageBytes_pos: "meta_ok m \<Longrightarrow> i < npages m \<Longrightarrow> 0 < pageBytes m i"
  using page_in_file [of m i] meta_ok_pageSize [of m] by (simp add: pageBytes_eq)

lemma page_end:
  assumes "meta_ok m" and "i < npages m"
  shows "i * pageSize m + pageBytes m i = min (Suc i * pageSize m) (fileSize m)"
  using page_in_file [OF assms(1), of i] assms(2) by (auto simp: pageBytes_eq [OF assms] min_def)

text \<open>Page \<open>i\<close> of a file image, short at the end.\<close>

definition page_of :: "nat \<Rightarrow> bytes \<Rightarrow> nat \<Rightarrow> bytes" where
  "page_of P img i = slice (i * P) P img"

lemma page_of_eq:
  assumes "meta_ok m" and "i < npages m" and "length img = fileSize m"
  shows "page_of (pageSize m) img i = slice (i * pageSize m) (pageBytes m i) img"
proof -
  have "pageBytes m i = min (pageSize m) (length img - i * pageSize m)"
    using assms by (simp add: pageBytes_eq)
  then show ?thesis unfolding page_of_def by (simp only: slice_min)
qed

lemma length_page_of:
  assumes "meta_ok m" and "i < npages m" and "length img = fileSize m"
  shows "length (page_of (pageSize m) img i) = pageBytes m i"
  using assms by (simp add: page_of_def pageBytes_eq)

section \<open>The byte pools\<close>

definition spec_w :: "metaData \<Rightarrow> nat \<Rightarrow> bufPage \<Rightarrow> nat" where
  "spec_w m i b = (if bp_spec b then pageBytes m i else 0)"

definition real_w :: "metaData \<Rightarrow> nat \<Rightarrow> bufPage \<Rightarrow> nat" where
  "real_w m i b = (if bp_spec b then 0 else pageBytes m i)"

lemma geometry_frame [simp]:
  "pageBytes (m\<lparr>bitmap := b\<rparr>) = pageBytes m" "pageBytes (m\<lparr>pageCrcs := c\<rparr>) = pageBytes m"
  "pageBytes (m\<lparr>flags := f\<rparr>) = pageBytes m" "pageBytes (m\<lparr>atime := a\<rparr>) = pageBytes m"
  "npages (m\<lparr>bitmap := b\<rparr>) = npages m" "npages (m\<lparr>pageCrcs := c\<rparr>) = npages m"
  "npages (m\<lparr>flags := f\<rparr>) = npages m" "npages (m\<lparr>atime := a\<rparr>) = npages m"
  by (simp_all add: fun_eq_iff pageBytes_def npages_def)

lemma weights_cong:
  "pageBytes m' = pageBytes m \<Longrightarrow> spec_w m' = spec_w m" "pageBytes m' = pageBytes m \<Longrightarrow> real_w m' = real_w m"
  by (simp_all add: spec_w_def real_w_def fun_eq_iff)

text \<open>The stage invariant: both maps are ordered, no page is in both, a page being flushed carries
  no speculative mark, and each pool counts exactly the bytes of its pages.\<close>

definition stage_ok :: "entry \<Rightarrow> bool" where
  "stage_ok e \<longleftrightarrow> sm_ok (e_buf e) \<and> sm_ok (e_flushing e) \<and>
     (\<forall>i. map_of (e_flushing e) i \<noteq> None \<longrightarrow> map_of (e_buf e) i = None) \<and>
     (\<forall>x\<in>set (e_flushing e). \<not> bp_spec (snd x)) \<and>
     e_specBytes e = word_of_nat (sm_sum (spec_w (e_meta e)) (e_buf e)) \<and>
     e_bufBytes e = word_of_nat (sm_sum (real_w (e_meta e)) (e_buf e))"

lemma stage_okD:
  assumes "stage_ok e"
  shows "sm_ok (e_buf e)" "sm_ok (e_flushing e)"
    "e_specBytes e = word_of_nat (sm_sum (spec_w (e_meta e)) (e_buf e))"
    "e_bufBytes e = word_of_nat (sm_sum (real_w (e_meta e)) (e_buf e))"
    "map_of (e_flushing e) i \<noteq> None \<Longrightarrow> map_of (e_buf e) i = None"
    "map_of (e_flushing e) i = Some b \<Longrightarrow> \<not> bp_spec b"
  using assms by (auto simp: stage_ok_def dest!: map_of_SomeD [of "e_flushing e"])

text \<open>What an operation on one entry may do to the process-wide pools: exactly what it does to
  the entry's own.\<close>

definition pools_move :: "proc \<Rightarrow> entry \<Rightarrow> proc \<Rightarrow> entry \<Rightarrow> bool" where
  "pools_move p e p' e' \<longleftrightarrow>
     g_bufTotal p' - e_bufBytes e' = g_bufTotal p - e_bufBytes e \<and>
     g_specTotal p' - e_specBytes e' = g_specTotal p - e_specBytes e"

lemma pools_move_refl [simp]: "pools_move p e p e"
  by (simp add: pools_move_def)

lemma pools_move_trans [trans]: "pools_move p e p1 e1 \<Longrightarrow> pools_move p1 e1 p2 e2 \<Longrightarrow> pools_move p e p2 e2"
  by (simp add: pools_move_def)

lemma unmark_stage_ok:
  assumes ok: "stage_ok e" and b: "map_of (e_buf e) i = Some b" and s: "bp_spec b"
  shows "stage_ok (unmarkSpeculative e i)"
proof -
  note D = stage_okD [OF ok]
  let ?f = "\<lambda>b. b\<lparr>bp_spec := False\<rparr>"
  have w: "spec_w m i (?f b) = 0" "spec_w m i b = pageBytes m i" "real_w m i (?f b) = pageBytes m i" "real_w m i b = 0"
    for m using s by (simp_all add: spec_w_def real_w_def)
  have sums: "word_of_nat (sm_sum (spec_w (e_meta e)) (sm_modify i ?f (e_buf e))) = e_specBytes e - word_of_nat (nbytes_of e i)"
      "word_of_nat (sm_sum (real_w (e_meta e)) (sm_modify i ?f (e_buf e))) = e_bufBytes e + word_of_nat (nbytes_of e i)"
    using sm.weight_upd_word [OF D(1) b, of _ ?f] D(3,4) w by simp_all
  show ?thesis
    using ok sums by (simp add: stage_ok_def unmarkSpeculative_def sm_ok_modify map_of_sm_modify)
qed

lemma insert_stage_ok:
  assumes ok: "stage_ok e" and n: "map_of (e_buf e) i = None" "map_of (e_flushing e) i = None"
  shows "stage_ok (e\<lparr>e_buf := sm_insert i (new_page d False) (e_buf e), e_bufBytes := e_bufBytes e + word_of_nat (nbytes_of e i)\<rparr>)"
    and "stage_ok (e\<lparr>e_buf := sm_insert i (new_page d True) (e_buf e), e_specBytes := e_specBytes e + word_of_nat (nbytes_of e i)\<rparr>)"
  using ok n stage_okD(1) [OF ok]
  by (auto simp: stage_ok_def sm.weight_ins sm.ok_ins sm.look_ins spec_w_def real_w_def new_page_def)

lemma fold_invariant: "(\<And>x s. x \<in> set xs \<Longrightarrow> I s \<Longrightarrow> I (f x s)) \<Longrightarrow> I s \<Longrightarrow> I (fold f xs s)"
  by (induction xs arbitrary: s) auto

definition fill_rel :: "entry \<Rightarrow> entry \<times> nat \<times> nat \<Rightarrow> bool" where
  "fill_rel e0 st \<longleftrightarrow> (case st of (e, s, c) \<Rightarrow>
     stage_ok e \<and> e_meta e = e_meta e0 \<and> e_flushing e = e_flushing e0 \<and>
     e_bufBytes e = e_bufBytes e0 + word_of_nat s + word_of_nat c \<and>
     e_specBytes e = e_specBytes e0 - word_of_nat c)"

lemma unmark_fields [simp]:
  "e_meta (unmarkSpeculative e i) = e_meta e" "e_flushing (unmarkSpeculative e i) = e_flushing e"
  "e_specBytes (unmarkSpeculative e i) = e_specBytes e - word_of_nat (nbytes_of e i)"
  "e_bufBytes (unmarkSpeculative e i) = e_bufBytes e + word_of_nat (nbytes_of e i)"
  by (simp_all add: unmarkSpeculative_def)

lemma fill_page_rel: assumes "fill_rel e0 st" shows "fill_rel e0 (fill_page off inp i st)"
proof -
  obtain e s c where st: "st = (e, s, c)" by (metis prod_cases3)
  have ok: "stage_ok e" using assms st by (simp add: fill_rel_def)
  show ?thesis
  proof (cases "map_of (e_buf e) i")
    case (Some b)
    with assms st unmark_stage_ok [OF ok Some] show ?thesis
      by (cases "bp_spec b") (simp_all add: fill_rel_def fill_page_def Let_def)
  next
    case None
    with assms st insert_stage_ok(1) [OF ok None] show ?thesis
      by (cases "bm_get (bitmap (e_meta e)) i \<or> map_of (e_flushing e) i \<noteq> None")
        (auto simp: fill_rel_def fill_page_def Let_def)
  qed
qed

lemma fill_loop_rel: "stage_ok e \<Longrightarrow> fill_rel e (fold (fill_page off inp) is (e, 0, 0))"
  by (rule fold_invariant [of _ "fill_rel e"]) (simp_all add: fill_page_rel, simp add: fill_rel_def)

definition spec_rel :: "entry \<Rightarrow> entry \<times> nat \<Rightarrow> bool" where
  "spec_rel e0 st \<longleftrightarrow> (case st of (e, s) \<Rightarrow>
     stage_ok e \<and> e_meta e = e_meta e0 \<and> e_flushing e = e_flushing e0 \<and>
     e_bufBytes e = e_bufBytes e0 \<and> e_specBytes e = e_specBytes e0 + word_of_nat s)"

lemma spec_page_rel: assumes "spec_rel e0 st" shows "spec_rel e0 (spec_page off inp i st)"
proof -
  obtain e s where st: "st = (e, s)" by fastforce
  have ok: "stage_ok e" using assms st by (simp add: spec_rel_def)
  show ?thesis
    using assms st insert_stage_ok(2) [OF ok, of i]
    by (cases "bm_get (bitmap (e_meta e)) i \<or> map_of (e_buf e) i \<noteq> None \<or> map_of (e_flushing e) i \<noteq> None")
      (auto simp: spec_rel_def spec_page_def Let_def)
qed

lemma spec_loop_rel: "stage_ok e \<Longrightarrow> spec_rel e (fold (spec_page off inp) is (e, 0))"
  by (rule fold_invariant [of _ "spec_rel e"]) (simp_all add: spec_page_rel, simp add: spec_rel_def)

lemma stageSpeculative_pools:
  assumes "stage_ok e" and "stageSpeculative cfg p e off len inp = (n, p', e')"
  shows "stage_ok e' \<and> pools_move p e p' e' \<and> e_meta e' = e_meta e \<and> p_io p' = p_io p"
proof -
  let ?stop = "min (u64 (off + len)) (fileSize (e_meta e))"
  obtain e1 s where l: "fold (spec_page off inp) (loop_pages e off ?stop) (e, 0) = (e1, s)" by fastforce
  have "spec_rel e (e1, s)" using spec_loop_rel [OF assms(1), of off inp "loop_pages e off ?stop"] l by simp
  with assms l show ?thesis
    by (auto simp: stageSpeculative_def Let_def spec_rel_def pools_move_def split: if_splits)
qed

text \<open>Removing speculative pages, whichever.\<close>

lemma drop_stage_ok:
  assumes ok: "stage_ok e" and sel: "\<And>x. S x \<Longrightarrow> bp_spec (snd x)"
  shows "stage_ok (e\<lparr>e_buf := filter (\<lambda>x. \<not> S x) (e_buf e),
    e_specBytes := e_specBytes e - word_of_nat (sm_sum (\<lambda>i b. nbytes_of e i) (filter S (e_buf e)))\<rparr>)"
proof -
  note D = stage_okD [OF ok]
  have s: "sm_sum (spec_w (e_meta e)) (filter S (e_buf e)) = sm_sum (\<lambda>i b. nbytes_of e i) (filter S (e_buf e))"
    by (rule sm_sum_cong) (auto simp: spec_w_def dest: sel)
  have r: "sm_sum (real_w (e_meta e)) (filter S (e_buf e)) = 0"
    by (rule sm_sum_zero) (auto simp: real_w_def dest: sel)
  have "e_specBytes e - word_of_nat (sm_sum (\<lambda>i b. nbytes_of e i) (filter S (e_buf e))) =
      word_of_nat (sm_sum (spec_w (e_meta e)) (filter (\<lambda>x. \<not> S x) (e_buf e)))"
    using D(3) sm_sum_filter [of "spec_w (e_meta e)" "e_buf e" S] s by simp
  moreover have "e_bufBytes e = word_of_nat (sm_sum (real_w (e_meta e)) (filter (\<lambda>x. \<not> S x) (e_buf e)))"
    using D(4) sm_sum_filter [of "real_w (e_meta e)" "e_buf e" S] r by simp
  ultimately show ?thesis
    using ok by (auto simp: stage_ok_def sm_ok_filter map_of_filter split: option.split)
qed

lemma spec_in_spec: "spec_in a b x \<Longrightarrow> bp_spec (snd x)"
  by (simp add: spec_in_def)

lemma stage_ok_obs [simp]: "stage_ok (e\<lparr>e_obs := x\<rparr>) = stage_ok e"
  by (simp add: stage_ok_def)

lemma dropSpeculative_pools:
  assumes ok: "stage_ok e" and d: "dropSpeculative p e off len = (n, p', e')"
  shows "stage_ok e' \<and> pools_move p e p' e' \<and> e_meta e' = e_meta e \<and> p_io p' = p_io p"
proof -
  let ?stop = "min (u64 (off + len)) (fileSize (e_meta e))"
  obtain a b where ab: "inner_pages e off ?stop = (a, b)" by fastforce
  have s: "stage_ok (e\<lparr>e_buf := filter (\<lambda>x. \<not> spec_in a b x) (e_buf e),
    e_specBytes := e_specBytes e - word_of_nat (sm_sum (\<lambda>i b. nbytes_of e i) (filter (spec_in a b) (e_buf e)))\<rparr>)"
    by (rule drop_stage_ok [OF ok spec_in_spec])
  with ok d ab show ?thesis
    by (auto simp: dropSpeculative_def Let_def noteSpeculativeDropped_def pools_move_def split: if_splits)
qed

lemma sm_sum_modify_same:
  "(\<And>b. w k (f b) = w k b) \<Longrightarrow> sm_sum w (sm_modify k f xs) = sm_sum w xs"
  by (induction xs) (auto simp: sm_sum_def sm_modify_def)

lemma touch_stage_ok:
  assumes "stage_ok e"
  shows "stage_ok (e\<lparr>e_buf := touch_edge a b pg (e_buf e)\<rparr>)"
proof -
  let ?f = "\<lambda>b. if bp_spec b then b\<lparr>bp_touched := True\<rparr> else b"
  have "sm_sum (spec_w m) (sm_modify pg ?f xs) = sm_sum (spec_w m) xs"
    "sm_sum (real_w m) (sm_modify pg ?f xs) = sm_sum (real_w m) xs" for m xs
    by (rule sm_sum_modify_same, simp add: spec_w_def real_w_def)+
  with assms show ?thesis
    by (auto simp: stage_ok_def touch_edge_def sm_ok_modify map_of_sm_modify)
qed

lemma consumeSpeculative_pools:
  assumes ok: "stage_ok e" and d: "consumeSpeculative p e off len = (n, p', e')"
  shows "stage_ok e' \<and> pools_move p e p' e' \<and> e_meta e' = e_meta e \<and> p_io p' = p_io p"
proof -
  let ?stop = "min (u64 (off + len)) (fileSize (e_meta e))"
  obtain a b where ab: "inner_pages e off ?stop = (a, b)" by fastforce
  define b1 where "b1 = touch_edge a b ((?stop - 1) div P_of e) (touch_edge a b (off div P_of e) (e_buf e))"
  define e1 where "e1 = e\<lparr>e_buf := b1\<rparr>"
  define used where "used = sm_sum (\<lambda>i b. nbytes_of e i) (filter (spec_in a b) b1)"
  define e2 where "e2 = e\<lparr>e_buf := filter (\<lambda>x. \<not> spec_in a b x) b1, e_specBytes := e_specBytes e - word_of_nat used\<rparr>"
  have "stage_ok e1"
    using touch_stage_ok [OF touch_stage_ok [OF ok, of a b "off div P_of e"], of a b "(?stop - 1) div P_of e"]
    by (simp add: e1_def b1_def)
  from drop_stage_ok [OF this, of "spec_in a b"] have s: "stage_ok e2"
    by (simp add: e1_def e2_def used_def spec_in_spec)
  have f: "e_meta e2 = e_meta e" "e_bufBytes e2 = e_bufBytes e" "e_specBytes e2 = e_specBytes e - word_of_nat used"
    by (simp_all add: e2_def)
  show ?thesis
  proof (cases "len = 0 \<or> u64 (off + len) < off \<or> off \<ge> ?stop")
    case True
    with d ok show ?thesis by (auto simp: consumeSpeculative_def Let_def)
  next
    case False
    have "(if used \<noteq> 0
           then (used,
                 p\<lparr>g_specTotal := g_specTotal p - word_of_nat used,
                   p_stats := (p_stats p)\<lparr>prefetchServedBytes := prefetchServedBytes (p_stats p) + used\<rparr>\<rparr>,
                 e2\<lparr>e_obs := (e_obs e2)\<lparr>o_prefetchServed := o_prefetchServed (e_obs e2) + used\<rparr>\<rparr>)
           else (used, p, e2)) = (n, p', e')"
      using d unfolding consumeSpeculative_def Let_def ab b1_def used_def e2_def
      by (simp only: if_not_P [OF False] prod.case)
    with s f show ?thesis by (auto simp: pools_move_def split: if_splits)
  qed
qed

section \<open>Which pages a fill stages\<close>

lemma set_takeWhile_upt:
  assumes "\<And>i j. a \<le> i \<Longrightarrow> i \<le> j \<Longrightarrow> j < b \<Longrightarrow> Q j \<Longrightarrow> Q i"
  shows "set (takeWhile Q [a..<b]) = {i. a \<le> i \<and> i < b \<and> Q i}"
  using assms
proof (induction b)
  case (Suc b)
  show ?case
  proof (cases "a \<le> b")
    case False
    then show ?thesis by auto
  next
    case True
    have ih: "set (takeWhile Q [a..<b]) = {i. a \<le> i \<and> i < b \<and> Q i}"
      using Suc.IH Suc.prems by (metis less_SucI)
    show ?thesis
    proof (cases "\<forall>i. a \<le> i \<and> i < b \<longrightarrow> Q i")
      case all: True
      have "takeWhile Q ([a..<b] @ [b]) = [a..<b] @ takeWhile Q [b]"
        by (rule takeWhile_append2) (use all in simp)
      then have "takeWhile Q [a..<Suc b] = [a..<b] @ takeWhile Q [b]"
        using True by simp
      with all True show ?thesis by (auto simp: less_Suc_eq)
    next
      case False
      then obtain i where i: "a \<le> i" "i < b" "\<not> Q i" by blast
      then have "takeWhile Q [a..<Suc b] = takeWhile Q [a..<b]"
        using True by (simp add: takeWhile_append1 [of i])
      moreover have "\<not> Q b" using Suc.prems [of i b] i by auto
      ultimately show ?thesis using ih by (auto simp: less_Suc_eq)
    qed
  qed
qed simp

lemma round_up_div: "0 < P \<Longrightarrow> (off + P - 1) div P \<le> i \<longleftrightarrow> off \<le> i * (P :: nat)"
  using ceil_div_le_iff [of P off i] by (simp add: ceil_div_def)

lemma set_loop_pages:
  assumes m: "meta_ok (e_meta e)" and s: "off < stop" "stop \<le> fileSize (e_meta e)"
  shows "set (loop_pages e off stop) =
    {i. off \<le> i * P_of e \<and> i < npages (e_meta e) \<and> i * P_of e + nbytes_of e i \<le> stop}"
proof -
  note P = meta_ok_pageSize [OF m]
  have f: "fileSize (e_meta e) + P_of e \<le> 2 ^ 64" using m by (simp add: meta_ok_def)
  then have u: "u64 (off + P_of e - 1) = off + P_of e - 1" using s P by (intro u64_id) linarith
  have mono: "i * P_of e + nbytes_of e i \<le> stop"
    if "i \<le> j" "j * P_of e < stop" "j * P_of e + nbytes_of e j \<le> stop" for i j
  proof -
    have j: "j < npages (e_meta e)" using that(2) s(2) page_in_file [OF m] by simp
    show ?thesis
    proof (cases "i = j")
      case False
      then have "Suc i * P_of e \<le> j * P_of e" using that(1) by (intro mult_le_mono1) simp
      moreover have "i < npages (e_meta e)" using j that(1) by simp
      ultimately show ?thesis using page_end [OF m] that(2) by simp
    qed (use that in simp)
  qed
  have "set (loop_pages e off stop) = {i. u64 (off + P_of e - 1) div P_of e \<le> i \<and> i < ceil_div stop (P_of e) \<and>
      i * P_of e + nbytes_of e i \<le> stop}"
    unfolding loop_pages_def using P by (intro set_takeWhile_upt) (auto simp: page_arith intro: mono)
  moreover have "u64 (off + P_of e - 1) div P_of e \<le> i \<longleftrightarrow> off \<le> i * P_of e" for i
    unfolding u by (rule round_up_div [OF P])
  moreover have "i * P_of e < stop" if "i * P_of e + nbytes_of e i \<le> stop" "i < npages (e_meta e)" for i
    using that pageBytes_pos [OF m that(2)] by simp
  moreover have "i < npages (e_meta e)" if "i * P_of e < stop" for i
    using that s(2) page_in_file [OF m] by simp
  ultimately show ?thesis using less_ceil_div_iff [OF P] by auto
qed

end
