(* ===== verification/Entry_Stage.thy ===== *)
theory Entry_Stage
  imports Entry_State
begin

text \<open>
  Correctness of the in-memory side of \<^verbatim>\<open>FileEntry\<close>: presence tests without wrap-around, exactly
  which pages a fill stages and with which bytes, absent runs, the ranges on the wire, and
  the fetch gate.
\<close>

section \<open>Presence\<close>

lemma page_of_byte:
  assumes "meta_ok m" and "x < fileSize m"
  shows "x div pageSize m < npages m"
  using assms meta_ok_pageSize [of m] by (simp add: npages_ceil div_less_ceil_div)

lemma hasRange_iff:
  assumes "meta_ok (e_meta e)" and "off < 2 ^ 64" and "len < 2 ^ 64"
  shows "hasRange e off len \<longleftrightarrow> 0 < len \<and> off + len \<le> fileSize (e_meta e) \<and>
    (\<forall>x. off \<le> x \<and> x < off + len \<longrightarrow> pageHere e (x div P_of e))"
proof -
  have P: "0 < P_of e" using assms(1) by (rule meta_ok_pageSize)
  have fs: "fileSize (e_meta e) < 2 ^ 64" using assms(1) P by (auto simp: meta_ok_def)
  show ?thesis
  proof (cases "0 < len \<and> off + len \<le> fileSize (e_meta e)")
    case False
    have "len = 0 \<or> u64 (off + len) < off \<or> u64 (off + len) > fileSize (e_meta e)"
      using False u64_wrap_test [OF assms(2,3)] by (metis not_gr_zero not_le_imp_less u64_id)
    with False show ?thesis by (auto simp: hasRange_def)
  next
    case True
    then have u: "u64 (off + len) = off + len" using fs by simp
    let ?A = "off div P_of e" and ?B = "(off + len - 1) div P_of e"
    have pages: "(\<forall>x. off \<le> x \<and> x < off + len \<longrightarrow> Q (x div P_of e)) \<longleftrightarrow> (\<forall>i. ?A \<le> i \<and> i \<le> ?B \<longrightarrow> Q i)" for Q
      using all_pages_of_range [OF P, of len] True by blast
    have "pageHere e i \<longleftrightarrow> bm_get (bitmap (e_meta e)) i" if "e_buf e = []" "e_flushing e = []" for i
      using that by (simp add: pageHere_def)
    then show ?thesis
      using True unfolding pages
      by (auto simp: hasRange_def u bm_rangeSet_iff list_all_iff Let_def less_Suc_eq_le simp del: upt_Suc)
  qed
qed

section \<open>Staged bytes\<close>

text \<open>Every staged page holds the origin's bytes of that page and their checksum.\<close>

definition staged_from :: "bytes \<Rightarrow> entry \<Rightarrow> bool" where
  "staged_from orig e \<longleftrightarrow> (\<forall>i b. map_of (e_buf e) i = Some b \<or> map_of (e_flushing e) i = Some b \<longrightarrow>
     i < npages (e_meta e) \<and> bp_data b = page_of (P_of e) orig i \<and> bp_crc b = crc32c (page_of (P_of e) orig i))"

lemma staged_fromD:
  assumes "staged_from orig e" and "map_of (e_buf e) i = Some b \<or> map_of (e_flushing e) i = Some b"
  shows "i < npages (e_meta e)" "bp_data b = page_of (P_of e) orig i" "bp_crc b = crc32c (page_of (P_of e) orig i)"
  using assms by (auto simp: staged_from_def)

text \<open>The span handed to a fill is a slice of the origin file.\<close>

definition fill_input :: "bytes \<Rightarrow> nat \<Rightarrow> nat \<Rightarrow> bytes \<Rightarrow> bool" where
  "fill_input orig off stop inp \<longleftrightarrow> slice 0 (stop - off) inp = slice off (stop - off) orig"

lemma fill_input_page:
  assumes "fill_input orig off stop inp" and "off \<le> a" and "a + n \<le> stop" and "stop \<le> length orig"
  shows "slice (a - off) n inp = slice a n orig"
proof -
  have "slice (a - off) n inp = slice (a - off) n (slice 0 (stop - off) inp)"
    using assms(2,3) by (simp add: slice_slice)
  also have "\<dots> = slice a n orig"
    using assms by (simp add: fill_input_def slice_slice)
  finally show ?thesis .
qed

lemma modify_staged:
  assumes "staged_from orig e" and "\<And>b. bp_data (f b) = bp_data b \<and> bp_crc (f b) = bp_crc b"
  shows "staged_from orig (e\<lparr>e_buf := sm_modify k f (e_buf e)\<rparr>)"
  using assms by (fastforce simp: staged_from_def map_of_sm_modify)

lemma filter_staged:
  assumes "staged_from orig e" and "sm_ok (e_buf e)"
  shows "staged_from orig (e\<lparr>e_buf := filter Q (e_buf e)\<rparr>)"
  using assms by (fastforce simp: staged_from_def map_of_filter split: option.splits if_splits)

lemma insert_staged:
  assumes "staged_from orig e" and "sm_ok (e_buf e)" and "i < npages (e_meta e)" and "d = page_of (P_of e) orig i"
  shows "staged_from orig (e\<lparr>e_buf := sm_insert i (new_page d s) (e_buf e)\<rparr>)"
  using assms by (auto simp: staged_from_def map_of_sm_insert new_page_def)

lemma staged_from_upd [simp]:
  "staged_from orig (e\<lparr>e_bufBytes := x\<rparr>) = staged_from orig e"
  "staged_from orig (e\<lparr>e_specBytes := x\<rparr>) = staged_from orig e"
  "staged_from orig (e\<lparr>e_obs := y\<rparr>) = staged_from orig e"
  by (simp_all add: staged_from_def)

text \<open>One page of a fill: it is present afterwards, other pages as before.\<close>

lemma fill_page_here:
  assumes "stage_ok (fst st)"
  shows "pageHere (fst (fill_page off inp i st)) j \<longleftrightarrow> pageHere (fst st) j \<or> j = i"
  using stage_okD(1) [OF assms]
  by (cases st)
    (auto simp: fill_page_def Let_def pageHere_def unmarkSpeculative_def map_of_sm_modify map_of_sm_insert
      split: option.split)

lemma fill_page_staged:
  assumes "staged_from orig (fst st)" and "stage_ok (fst st)" and "meta_ok (e_meta (fst st))"
    and "length orig = fileSize (e_meta (fst st))" and "stop \<le> length orig" and "fill_input orig off stop inp"
    and "off \<le> i * P_of (fst st)" "i < npages (e_meta (fst st))" "i * P_of (fst st) + nbytes_of (fst st) i \<le> stop"
  shows "staged_from orig (fst (fill_page off inp i st))"
proof -
  obtain e s c where st: "st = (e, s, c)" by (metis prod_cases3)
  have d: "slice (i * P_of e - off) (nbytes_of e i) inp = page_of (P_of e) orig i"
    using assms st by (simp add: fill_input_page page_of_eq)
  have "staged_from orig (unmarkSpeculative e i)"
    using modify_staged [of orig e "\<lambda>b. b\<lparr>bp_spec := False\<rparr>" i] assms(1) st
    by (simp add: unmarkSpeculative_def)
  moreover have "staged_from orig (e\<lparr>e_buf := sm_insert i (new_page (page_of (P_of e) orig i) False) (e_buf e),
      e_bufBytes := e_bufBytes e + word_of_nat (nbytes_of e i)\<rparr>)"
    using insert_staged [of orig e i _ False] assms(1,8) st stage_okD(1) [OF assms(2)]
    by simp
  ultimately show ?thesis
    using assms(1) st d by (auto simp: fill_page_def Let_def split: option.split)
qed

lemma fill_loop:
  assumes "set is \<subseteq> {i. off \<le> i * P_of e \<and> i < npages (e_meta e) \<and> i * P_of e + nbytes_of e i \<le> stop}"
    and "staged_from orig e" and "stage_ok e" and "meta_ok (e_meta e)" and "length orig = fileSize (e_meta e)"
    and "stop \<le> length orig" and "fill_input orig off stop inp"
  shows "staged_from orig (fst (fold (fill_page off inp) is (e, 0, 0))) \<and>
    (\<forall>j. pageHere (fst (fold (fill_page off inp) is (e, 0, 0))) j \<longleftrightarrow> pageHere e j \<or> j \<in> set is)"
proof -
  have "staged_from orig (fst (fold (fill_page off inp) is st)) \<and>
    (\<forall>j. pageHere (fst (fold (fill_page off inp) is st)) j \<longleftrightarrow> pageHere (fst st) j \<or> j \<in> set is)"
    if "set is \<subseteq> {i. off \<le> i * P_of e \<and> i < npages (e_meta e) \<and> i * P_of e + nbytes_of e i \<le> stop}"
      "staged_from orig (fst st)" "fill_rel e st" for st "is"
    using that
  proof (induction "is" arbitrary: st)
    case (Cons i "is")
    have m: "e_meta (fst st) = e_meta e" "stage_ok (fst st)" using Cons.prems(3) by (auto simp: fill_rel_def)
    have "staged_from orig (fst (fill_page off inp i st))"
      using Cons.prems(1,2) m assms by (intro fill_page_staged [of _ _ stop]) auto
    with Cons.IH [of "fill_page off inp i st"] Cons.prems fill_page_rel [OF Cons.prems(3)]
      fill_page_here [OF m(2), of off inp i]
    show ?case by auto
  qed simp
  from this [OF assms(1), of "(e, 0, 0)"] assms(2,3) show ?thesis by (simp add: fill_rel_def)
qed

section \<open>Absent runs\<close>

text \<open>The bytes a list of runs covers.\<close>

definition run_bytes :: "(nat \<times> nat) list \<Rightarrow> nat set" where
  "run_bytes runs = {x. \<exists>r\<in>set runs. fst r \<le> x \<and> x < fst r + snd r}"

definition runs_ok :: "nat \<Rightarrow> (nat \<times> nat) list \<Rightarrow> bool" where
  "runs_ok stop runs \<longleftrightarrow> sorted_wrt (\<lambda>r s. fst r + snd r < fst s) runs \<and>
     (\<forall>r\<in>set runs. 0 < snd r \<and> fst r + snd r \<le> stop)"

lemma run_bytes_append [simp]: "run_bytes (xs @ ys) = run_bytes xs \<union> run_bytes ys"
  by (auto simp: run_bytes_def)

lemma run_bytes_single [simp]: "run_bytes [r] = {fst r..<fst r + snd r}"
  by (auto simp: run_bytes_def)

lemma run_bytes_Nil [simp]: "run_bytes [] = {}"
  by (simp add: run_bytes_def)

lemma add_run_ok:
  assumes "runs_ok stop runs" and "stop \<le> a" and "0 < n"
  shows "runs_ok (a + n) (add_run runs a n) \<and> run_bytes (add_run runs a n) = run_bytes runs \<union> {a..<a + n}"
proof (cases "runs = []")
  case True
  with assms show ?thesis by (simp add: add_run_def runs_ok_def)
next
  case False
  then obtain rs r where r: "runs = rs @ [r]" by (metis rev_exhaust)
  show ?thesis
  proof (cases "fst r + snd r = a")
    case True
    then have "add_run runs a n = rs @ [(fst r, snd r + n)]" using r by (simp add: add_run_def)
    moreover have "{fst r..<fst r + (snd r + n)} = {fst r..<fst r + snd r} \<union> {a..<a + n}" using True by auto
    ultimately show ?thesis
      using assms r True by (fastforce simp: runs_ok_def sorted_wrt_append)
  next
    case False
    then have "add_run runs a n = runs @ [(a, n)]" using r by (simp add: add_run_def)
    moreover have "fst s + snd s < a" if "s \<in> set runs" for s
      using assms(1,2) that r False by (fastforce simp: runs_ok_def sorted_wrt_append)
    ultimately show ?thesis
      using assms by (fastforce simp: runs_ok_def sorted_wrt_append)
  qed
qed

lemma runs_ok_mono: "runs_ok a runs \<Longrightarrow> a \<le> b \<Longrightarrow> runs_ok b runs"
  by (fastforce simp: runs_ok_def)

definition wanted :: "entry \<Rightarrow> bool \<Rightarrow> nat \<Rightarrow> bool" where
  "wanted e skip i \<longleftrightarrow> \<not> pageHere e i \<and> \<not> (skip \<and> pageInFlight e i)"

lemma page_bytes_range:
  assumes "meta_ok m" and "i < npages m"
  shows "{i * pageSize m..<i * pageSize m + pageBytes m i} = {x. x < fileSize m \<and> x div pageSize m = i}"
proof -
  have P: "0 < pageSize m" using assms(1) by (rule meta_ok_pageSize)
  have q: "x div pageSize m = i \<longleftrightarrow> i * pageSize m \<le> x \<and> x < Suc i * pageSize m" for x
  proof
    assume "x div pageSize m = i"
    then show "i * pageSize m \<le> x \<and> x < Suc i * pageSize m" using page_of_offset [OF P, of x] by simp
  next
    assume "i * pageSize m \<le> x \<and> x < Suc i * pageSize m"
    then show "x div pageSize m = i" by (intro div_nat_eqI) (simp_all add: mult.commute [of "pageSize m"])
  qed
  show ?thesis
  proof (rule set_eqI)
    fix x
    show "x \<in> {i * pageSize m..<i * pageSize m + pageBytes m i} \<longleftrightarrow> x \<in> {x. x < fileSize m \<and> x div pageSize m = i}"
      unfolding mem_Collect_eq atLeastLessThan_iff q page_end [OF assms] by auto
  qed
qed

lemma absent_loop_spec:
  assumes m: "meta_ok (e_meta e)"
  shows "b \<le> npages (e_meta e) \<Longrightarrow> runs_ok (a * P_of e) runs \<Longrightarrow> a \<le> b \<Longrightarrow>
    runs_ok (b * P_of e) (absent_loop e skip [a..<b] runs) \<and>
    run_bytes (absent_loop e skip [a..<b] runs) = run_bytes runs \<union>
      {x. x < fileSize (e_meta e) \<and> a \<le> x div P_of e \<and> x div P_of e < b \<and> wanted e skip (x div P_of e)}"
proof (induction "b - a" arbitrary: a runs)
  case (Suc d)
  then have ab: "a < b" and an: "a < npages (e_meta e)" by simp_all
  let ?r = "if wanted e skip a then add_run runs (a * P_of e) (nbytes_of e a) else runs"
  have l: "absent_loop e skip [a..<b] runs = absent_loop e skip [Suc a..<b] ?r"
    using ab by (simp add: upt_rec [of a] wanted_def)
  have e1: "a * P_of e + nbytes_of e a \<le> Suc a * P_of e" using page_end [OF m an] by simp
  have "runs_ok (Suc a * P_of e) ?r \<and> run_bytes ?r = run_bytes runs \<union>
      {x. x < fileSize (e_meta e) \<and> x div P_of e = a \<and> wanted e skip a}"
  proof (cases "wanted e skip a")
    case True
    with add_run_ok [OF Suc.prems(2) le_refl pageBytes_pos [OF m an]] e1 page_bytes_range [OF m an]
    show ?thesis by (auto intro: runs_ok_mono)
  next
    case False
    then show ?thesis using Suc.prems(2) by (auto intro: runs_ok_mono)
  qed
  moreover have "x div P_of e = a \<or> Suc a \<le> x div P_of e \<longleftrightarrow> a \<le> x div P_of e" for x by auto
  ultimately show ?case
    unfolding l using Suc.hyps(1) [of "Suc a" ?r] Suc.hyps(2) Suc.prems ab by fastforce
qed auto

section \<open>Ranges on the wire\<close>

lemma covered_from_iff:
  "covered_from fl pos stop \<longleftrightarrow> (\<forall>pg. pos \<le> pg \<and> pg < stop \<longrightarrow> (\<exists>r\<in>set fl. fst r \<le> pg \<and> pg < snd r))"
proof (induction fl pos stop rule: covered_from.induct)
  case (1 fl pos stop)
  show ?case
  proof (cases "pos < stop")
    case False
    then show ?thesis by (auto simp: covered_from.simps [of fl pos])
  next
    case True
    show ?thesis
    proof (cases "List.find (\<lambda>(a, b). a \<le> pos \<and> b > pos) fl")
      case None
      then have "\<not> (\<exists>r\<in>set fl. fst r \<le> pos \<and> pos < snd r)" by (auto simp: find_None_iff)
      with True None show ?thesis by (auto simp: covered_from.simps [of fl pos])
    next
      case (Some r)
      then obtain a b where r: "r = (a, b)" "(a, b) \<in> set fl" "a \<le> pos" "pos < b"
        by (auto simp: find_Some_iff) (metis nth_mem)
      have ih: "covered_from fl b stop \<longleftrightarrow> (\<forall>pg. b \<le> pg \<and> pg < stop \<longrightarrow> (\<exists>r\<in>set fl. fst r \<le> pg \<and> pg < snd r))"
        using "1.IH" [OF True Some r(1) [symmetric]] by simp
      have "\<exists>r\<in>set fl. fst r \<le> pg \<and> pg < snd r" if "pos \<le> pg" "pg < b" for pg
        using that r by (intro bexI [of _ "(a, b)"]) auto
      with ih True Some r show ?thesis
        by (auto simp: covered_from.simps [of fl pos]) (metis not_le_imp_less less_imp_le order_trans)+
    qed
  qed
qed

lemma coveredByFlight_iff:
  "coveredByFlight e a b \<longleftrightarrow> (\<forall>pg. a \<le> pg \<and> pg < b \<longrightarrow> pageInFlight e pg)"
  by (auto simp: coveredByFlight_def covered_from_iff pageInFlight_def list_ex_iff split_beta)

lemma next_here_props:
  "i \<le> next_here e i lst \<and> (\<forall>j. i \<le> j \<and> j < next_here e i lst \<longrightarrow> \<not> pageHere e j) \<and>
   (i \<le> Suc lst \<longrightarrow> next_here e i lst \<le> Suc lst)"
proof (induction e i lst rule: next_here.induct)
  case (1 e i lst)
  show ?case
  proof (cases "i \<le> lst \<and> \<not> pageHere e i")
    case True
    with 1 show ?thesis
      by (subst (1 2 3) next_here.simps) (auto simp: True dest: Suc_leD le_neq_implies_less)
  next
    case False
    then have "next_here e i lst = i" by (subst next_here.simps) (simp only: if_False)
    then show ?thesis by auto
  qed
qed

lemma wait_scan_iff:
  "i \<le> Suc lst \<Longrightarrow> wait_scan e i lst saw =
   (if \<forall>j. i \<le> j \<and> j \<le> lst \<and> \<not> pageHere e j \<longrightarrow> pageInFlight e j
    then Some (saw \<or> (\<exists>j. i \<le> j \<and> j \<le> lst \<and> \<not> pageHere e j)) else None)"
proof (induction e i lst saw rule: wait_scan.induct)
  case (1 e i lst saw)
  consider "\<not> i \<le> lst" | "i \<le> lst" "pageHere e i" | "i \<le> lst" "\<not> pageHere e i" by blast
  then show ?case
  proof cases
    case 1
    then show ?thesis by (auto simp: wait_scan.simps [of e i])
  next
    case 2
    then have s: "(i \<le> j \<and> j \<le> lst \<and> \<not> pageHere e j) \<longleftrightarrow> (Suc i \<le> j \<and> j \<le> lst \<and> \<not> pageHere e j)" for j
      by (metis Suc_leD le_antisym not_less_eq_eq)
    show ?thesis unfolding s using 2 "1.IH"(1) by (subst wait_scan.simps) simp
  next
    case 3
    define n where "n = next_here e i lst"
    note np = next_here_props [of i e lst, folded n_def]
    have gt: "i < n" using next_here_gt 3 n_def by simp
    have n1: "n \<le> Suc lst" using np 3 by simp
    have ih: "coveredByFlight e i n \<Longrightarrow> wait_scan e n lst True =
       (if \<forall>j. n \<le> j \<and> j \<le> lst \<and> \<not> pageHere e j \<longrightarrow> pageInFlight e j then Some True else None)"
      using "1.IH"(2) [OF 3 n_def] n1 by (auto split: if_splits)
    have w: "wait_scan e i lst saw = (if coveredByFlight e i n then wait_scan e n lst True else None)"
      using 3 by (subst wait_scan.simps) (simp add: n_def)
    have all: "(\<forall>j. i \<le> j \<and> j \<le> lst \<and> \<not> pageHere e j \<longrightarrow> pageInFlight e j) \<longleftrightarrow>
       coveredByFlight e i n \<and> (\<forall>j. n \<le> j \<and> j \<le> lst \<and> \<not> pageHere e j \<longrightarrow> pageInFlight e j)"
    proof (intro iffI conjI)
      assume "\<forall>j. i \<le> j \<and> j \<le> lst \<and> \<not> pageHere e j \<longrightarrow> pageInFlight e j"
      with np n1 gt show "coveredByFlight e i n"
          "\<forall>j. n \<le> j \<and> j \<le> lst \<and> \<not> pageHere e j \<longrightarrow> pageInFlight e j"
        unfolding coveredByFlight_iff by auto
    next
      assume c: "coveredByFlight e i n \<and> (\<forall>j. n \<le> j \<and> j \<le> lst \<and> \<not> pageHere e j \<longrightarrow> pageInFlight e j)"
      show "\<forall>j. i \<le> j \<and> j \<le> lst \<and> \<not> pageHere e j \<longrightarrow> pageInFlight e j"
      proof (intro allI impI)
        fix j assume "i \<le> j \<and> j \<le> lst \<and> \<not> pageHere e j"
        with c show "pageInFlight e j" unfolding coveredByFlight_iff by (cases "j < n") auto
      qed
    qed
    show ?thesis unfolding w all using ih 3 by auto
  qed
qed

lemma wait_ranges_iff:
  assumes "\<And>off len. (off, len) \<in> set rs \<Longrightarrow> off + len < 2 ^ 64" and "0 < P_of e"
  shows "wait_ranges e rs saw =
    (if \<forall>(off, len)\<in>set rs. 0 < len \<and> off + len \<le> fileSize (e_meta e) \<and>
          (\<forall>j. off div P_of e \<le> j \<and> j \<le> (off + len - 1) div P_of e \<and> \<not> pageHere e j \<longrightarrow> pageInFlight e j)
     then Some (saw \<or> (\<exists>(off, len)\<in>set rs. \<exists>j. off div P_of e \<le> j \<and> j \<le> (off + len - 1) div P_of e \<and> \<not> pageHere e j))
     else None)"
  using assms
proof (induction e rs saw rule: wait_ranges.induct)
  case (2 e off len rs saw)
  have u: "u64 (off + len) = off + len" using "2.prems"(1) [of off len] by simp
  show ?case
  proof (cases "len = 0 \<or> off + len > fileSize (e_meta e)")
    case True
    then show ?thesis by (auto simp: u)
  next
    case False
    let ?b = "(off + len - 1) div P_of e"
    have s: "sub64 (off + len) 1 = off + len - 1" using False by simp
    have le: "off div P_of e \<le> Suc ?b" using False by (intro le_SucI div_le_mono) linarith
    have r: "wait_ranges e ((off, len) # rs) saw =
        (case wait_scan e (off div P_of e) ?b saw of None \<Rightarrow> None | Some s \<Rightarrow> wait_ranges e rs s)"
      using False by (simp add: u)
    have ih: "wait_ranges e rs s =
      (if \<forall>(off, len)\<in>set rs. 0 < len \<and> off + len \<le> fileSize (e_meta e) \<and>
          (\<forall>j. off div P_of e \<le> j \<and> j \<le> (off + len - 1) div P_of e \<and> \<not> pageHere e j \<longrightarrow> pageInFlight e j)
       then Some (s \<or> (\<exists>(off, len)\<in>set rs. \<exists>j. off div P_of e \<le> j \<and> j \<le> (off + len - 1) div P_of e \<and> \<not> pageHere e j))
       else None)" if "wait_scan e (off div P_of e) ?b saw = Some s" for s
      using "2.IH" [of s] "2.prems" False that s u by (auto simp only: list.set insert_iff)
    show ?thesis
    proof (cases "\<forall>j. off div P_of e \<le> j \<and> j \<le> ?b \<and> \<not> pageHere e j \<longrightarrow> pageInFlight e j")
      case True
      note w = wait_scan_iff [OF le, of e saw, unfolded if_P [OF True]]
      show ?thesis unfolding r w option.case ih [OF w] using True False by auto
    next
      case F: False
      note w = wait_scan_iff [OF le, of e saw, unfolded if_not_P [OF F]]
      show ?thesis unfolding r w option.case using F by auto
    qed
  qed
qed simp

section \<open>Properties\<close>

text \<open>An empty entry of a 10-byte file with 4-byte pages, for the examples.\<close>

definition sample_entry :: entry where
  "sample_entry = new_entry ''k'' ''m'' 0 (fresh ''k'' 10 4 0) False 0"

definition sample_proc :: proc where
  "sample_proc = \<lparr>p_io = empty_io, g_bufTotal = 0, g_specTotal = 0, g_specDropped = 0,
     p_stats = \<lparr>opens = 0, validationsFailed = 0, metaCorrupt = 0, failopenEvents = 0, crcFailures = 0,
       prefetchServedBytes = 0, prefetchRefetchedBytes = 0, prefetchDroppedUnread = 0, ramHitBytes = 0,
       hitDiskReads = 0, hitDiskBytes = 0, hitDiskSeq = 0, firstTouchBytes = 0, hitBytes = 0,
       pageWrites = 0, flushRuns = 0, flushRunBytes = 0, bufferStalls = 0, fetchesJoined = 0\<rparr>\<rparr>"

lemma sample_meta: "e_meta sample_entry = fresh ''k'' 10 4 0" "meta_ok (fresh ''k'' 10 4 0)"
    "pageSize (fresh ''k'' 10 4 0) = 4" "fileSize (fresh ''k'' 10 4 0) = 10" "npages (fresh ''k'' 10 4 0) = 3"
    "bitmap (fresh ''k'' 10 4 0) = bm_reset 3" "key (fresh ''k'' 10 4 0) = ''k''"
  using fresh_meta_ok [of 4 10 0 "''k''"] fresh_fields [of 4 10 "''k''" 0]
  by (simp_all add: sample_entry_def new_entry_def fresh_def Let_def ceil_div_def)

text \<open>\<^verbatim>\<open>hasRange\<close> answers yes exactly when the range is non-empty, lies inside the file and every
  byte of it is on a page that is present, staged or being flushed; a sum of offset and
  length that wraps is refused.\<close>

theorem hasRange_correct:
  assumes "meta_ok (e_meta e)" and "off < 2 ^ 64" and "len < 2 ^ 64"
  shows "hasRange e off len \<longleftrightarrow> 0 < len \<and> off + len \<le> fileSize (e_meta e) \<and>
    (\<forall>x. off \<le> x \<and> x < off + len \<longrightarrow> pageHere e (x div P_of e))"
  using hasRange_iff [OF assms] .

theorem hasRange_correct_witness: "\<not> hasRange sample_entry (2 ^ 64 - 1) 2"
  using hasRange_correct [of sample_entry "2 ^ 64 - 1" 2] sample_meta by simp

text \<open>\<^verbatim>\<open>absentRuns\<close> lists exactly the bytes of the absent pages that the range touches (without the
  pages on the wire when asked to skip them), as disjoint runs in order, each maximal: two
  neighbouring runs never touch.\<close>

theorem absentRuns_exact:
  assumes "meta_ok (e_meta e)" and "off < 2 ^ 64" and "len < 2 ^ 64" and "off + len < 2 ^ 64"
  shows "(let runs = absentRuns e off len skip; stop = min (off + len) (fileSize (e_meta e)) in
     sorted_wrt (\<lambda>r s. fst r + snd r < fst s) runs \<and> (\<forall>r\<in>set runs. 0 < snd r) \<and>
     run_bytes runs = {x. x < fileSize (e_meta e) \<and> wanted e skip (x div P_of e) \<and>
       (\<exists>y. off \<le> y \<and> y < stop \<and> y div P_of e = x div P_of e)})"
proof -
  have P: "0 < P_of e" using assms(1) by (rule meta_ok_pageSize)
  define stop where "stop = min (off + len) (fileSize (e_meta e))"
  have u: "u64 (off + len) = off + len" using assms(4) by simp
  show ?thesis
  proof (cases "off < stop")
    case False
    then have "absentRuns e off len skip = []" using u by (auto simp: absentRuns_def stop_def Let_def)
    with False show ?thesis by (auto simp: stop_def [symmetric] Let_def)
  next
    case True
    let ?a = "off div P_of e" and ?b = "Suc ((stop - 1) div P_of e)"
    have r: "absentRuns e off len skip = absent_loop e skip [?a..<?b] []"
      using True u by (auto simp: absentRuns_def stop_def Let_def simp del: upt_Suc)
    have b: "?b \<le> npages (e_meta e)"
    proof -
      have "stop - 1 < fileSize (e_meta e)" using True by (simp add: stop_def min_def split: if_splits)
      from page_of_byte [OF assms(1) this] show ?thesis by simp
    qed
    have ab: "?a \<le> ?b" using True by (intro le_SucI div_le_mono) simp
    have pg: "(\<exists>y. off \<le> y \<and> y < stop \<and> y div P_of e = i) \<longleftrightarrow> ?a \<le> i \<and> i < ?b" for i
      using pages_of_range [OF P, of "stop - off" off i] True by (simp add: less_Suc_eq_le)
    have "runs_ok (?a * P_of e) []" by (simp add: runs_ok_def)
    from absent_loop_spec [OF assms(1) b this ab, of skip] show ?thesis
      unfolding Let_def stop_def [symmetric] r pg runs_ok_def by auto
  qed
qed

theorem absentRuns_exact_witness:
  "run_bytes (absentRuns sample_entry 5 2 False) =
     {x. x < 10 \<and> wanted sample_entry False (x div 4) \<and> (\<exists>y. 5 \<le> y \<and> y < 7 \<and> y div 4 = x div 4)}"
  using absentRuns_exact [of sample_entry 5 2 False] sample_meta by (simp add: Let_def)

text \<open>C28. A read parks behind the wire exactly when something is on the wire, every range lies in the
  file, some page is absent, and each absent page is inside the union of the ranges on the
  wire; a request that parks is recorded to be woken, and any withdrawal wakes all.\<close>

theorem waitForInFlight_parks:
  assumes "meta_ok (e_meta e)" and "\<And>off len. (off, len) \<in> set ranges \<Longrightarrow> off + len < 2 ^ 64"
    and "waitForInFlight p e ranges cb = (res, p1, e1)"
  shows "(res \<longleftrightarrow> e_flight e \<noteq> [] \<and>
      (\<forall>(off, len)\<in>set ranges. 0 < len \<and> off + len \<le> fileSize (e_meta e) \<and>
        (\<forall>j. off div P_of e \<le> j \<and> j \<le> (off + len - 1) div P_of e \<and> \<not> pageHere e j \<longrightarrow> pageInFlight e j)) \<and>
      (\<exists>(off, len)\<in>set ranges. \<exists>j. off div P_of e \<le> j \<and> j \<le> (off + len - 1) div P_of e \<and> \<not> pageHere e j)) \<and>
    (res \<longrightarrow> cb \<in> set (fst (clearFetchInFlight e1 rs))) \<and> (\<not> res \<longrightarrow> e1 = e)"
proof -
  define A where "A \<longleftrightarrow> (\<forall>(off, len)\<in>set ranges. 0 < len \<and> off + len \<le> fileSize (e_meta e) \<and>
        (\<forall>j. off div P_of e \<le> j \<and> j \<le> (off + len - 1) div P_of e \<and> \<not> pageHere e j \<longrightarrow> pageInFlight e j))"
  define B where "B \<longleftrightarrow> (\<exists>(off, len)\<in>set ranges. \<exists>j. off div P_of e \<le> j \<and> j \<le> (off + len - 1) div P_of e \<and> \<not> pageHere e j)"
  have w: "wait_ranges e ranges False = (if A then Some B else None)"
    unfolding A_def B_def
    using wait_ranges_iff [of ranges e False, OF assms(2) meta_ok_pageSize [OF assms(1)]] by (simp only: simp_thms)
  have "waitForInFlight p e ranges cb = (if e_flight e \<noteq> [] \<and> A \<and> B
      then (True, bump_joined p, e\<lparr>e_flightWaiters := e_flightWaiters e @ [cb]\<rparr>) else (False, p, e))"
    by (simp add: waitForInFlight_def w)
  then show ?thesis
    unfolding A_def [symmetric] B_def [symmetric] using assms(3)
    by (auto simp: clearFetchInFlight_def split: if_splits)
qed

theorem waitForInFlight_parks_witness:
  "fst (waitForInFlight sample_proc (sample_entry\<lparr>e_flight := [(0, 3)]\<rparr>) [(1, 6)] 7)"
proof -
  let ?e = "sample_entry\<lparr>e_flight := [(0, 3)]\<rparr>"
  obtain res p1 e1 where w: "waitForInFlight sample_proc ?e [(1, 6)] 7 = (res, p1, e1)" by (metis prod_cases3)
  have m: "meta_ok (e_meta ?e)" using sample_meta by simp
  have h: "\<not> pageHere ?e 0"
    by (simp add: pageHere_def sample_entry_def new_entry_def fresh_def Let_def bm_get_def bm_reset_def npages_def)
  have f: "pageInFlight ?e j" if "j \<le> Suc 0" for j using that by (simp add: pageInFlight_def)
  have "res"
    using waitForInFlight_parks [OF m _ w] h f sample_meta by (auto simp: Let_def intro!: exI [of _ 0])
  with w show ?thesis by simp
qed

text \<open>The guard of \<^verbatim>\<open>waitForInFlight\<close> does not test for wrap-around: an offset and a length whose sum is
  \<open>2 ^ 64\<close> pass it, and the scan then runs up to a page far behind the end of the file.\<close>

theorem waitForInFlight_guard_wraps:
  "\<exists>off len. off < 2 ^ 64 \<and> len < 2 ^ 64 \<and> \<not> (len = 0 \<or> u64 (off + len) > fileSize (e_meta sample_entry)) \<and>
     sub64 (u64 (off + len)) 1 div P_of sample_entry > npages (e_meta sample_entry)"
  by (rule exI [of _ "2 ^ 64 - 1"], rule exI [of _ 1]) (simp add: sample_meta u64_def sub64_def)

text \<open>The fetch gate has one owner per range: a begin owns the range exactly when none is
  outstanding, and ending it hands back every caller parked since, in order, and frees the range.\<close>

theorem fetch_gate_one_owner:
  assumes "beginFetch p e off len cb = (own, p1, e1)"
  shows "(own \<longleftrightarrow> map_of (e_inflight e) (off, len) = None) \<and>
    (let (cbs, e2) = endFetch e1 off len in
       cbs = (case map_of (e_inflight e) (off, len) of None \<Rightarrow> [] | Some old \<Rightarrow> old @ [cb]) \<and>
       map_of (e_inflight e2) (off, len) = None \<and>
       (\<forall>r. r \<noteq> (off, len) \<longrightarrow> map_of (e_inflight e2) r = map_of (e_inflight e) r))"
  using assms
  by (auto simp: beginFetch_def endFetch_def AList.update_conv' AList.delete_conv' Let_def split: option.splits)

theorem fetch_gate_one_owner_witness:
  "fst (beginFetch sample_proc sample_entry 0 4 1) \<and> \<not> fst (beginFetch sample_proc (snd (snd (beginFetch sample_proc sample_entry 0 4 1))) 0 4 2)"
proof -
  obtain own p1 e1 where b: "beginFetch sample_proc sample_entry 0 4 1 = (own, p1, e1)" by (metis prod_cases3)
  obtain own2 p2 e2 where b2: "beginFetch sample_proc e1 0 4 2 = (own2, p2, e2)" by (metis prod_cases3)
  have "own" using fetch_gate_one_owner [OF b] by (simp add: sample_entry_def new_entry_def)
  moreover have "map_of (e_inflight e1) (0, 4) \<noteq> None"
    using b by (auto simp: beginFetch_def AList.update_conv' split: option.splits)
  ultimately show ?thesis using fetch_gate_one_owner [OF b2] b b2 by simp
qed

end
