(* ===== verification/Entry_Read.thy ===== *)
theory Entry_Read
  imports Entry_Stage
begin

text \<open>
  The hit path of \<^verbatim>\<open>FileEntry\<close>: \<open>readCached\<close> plans under the lock (staged pages are copied out,
  pages on disk collect into contiguous runs), then reads each run with one \<^verbatim>\<open>pread\<close> and
  verifies every page's checksum, demoting what it cannot trust. The plan and the rest are
  separate functions, since other operations may run between them. Shown: a read that
  answers yes delivers the origin's bytes.
\<close>

unbundle bit_operations_syntax

section \<open>Verified reads from the data file\<close>

definition touchAtime :: "nat \<Rightarrow> entry \<Rightarrow> entry" where
  "touchAtime now e =
     (if now \<ge> u64 (atime (e_meta e) + 60) then e\<lparr>e_meta := (e_meta e)\<lparr>atime := now\<rparr>, e_dirty := True\<rparr> else e)"

definition drop_complete :: "entry \<Rightarrow> entry" where
  "drop_complete e = e\<lparr>e_meta := (e_meta e)\<lparr>flags := flags (e_meta e) AND NOT kFlagComplete\<rparr>\<rparr>"

definition demoteRun :: "proc \<times> entry \<Rightarrow> nat \<Rightarrow> nat \<Rightarrow> proc \<times> entry" where
  "demoteRun pe firstPage lastPage =
     (case pe of (p, e) \<Rightarrow>
        (p\<lparr>p_stats := (p_stats p)\<lparr>crcFailures := crcFailures (p_stats p) + 1\<rparr>\<rparr>,
         (drop_complete (fold (\<lambda>i e. retractPage e i) [firstPage..<Suc lastPage] e))\<lparr>e_dirty := True\<rparr>))"

definition demote_page :: "nat \<times> u32 \<Rightarrow> proc \<times> entry \<Rightarrow> proc \<times> entry" where
  "demote_page ic pe =
     (case (ic, pe) of ((i, c), (p, e)) \<Rightarrow>
        let n = nbytes_of e i in
        case preadFull (p_io p) (e_dataFd e) n (i * P_of e) [] of (r, xs, io1) \<Rightarrow>
          let p1 = p\<lparr>p_io := io1\<rparr> in
          if r \<noteq> int n then demoteRun (p1, e) i i
          else if crc32c xs \<noteq> c then demoteRun (p1, e) i i else (p1, e))"

text \<open>Pages are given with their expected checksums.\<close>

definition demoteBadPages :: "(nat \<times> u32) list \<Rightarrow> proc \<times> entry \<Rightarrow> proc \<times> entry" where
  "demoteBadPages ics pe = fold demote_page ics pe"

definition runBytes :: "metaData \<Rightarrow> nat \<Rightarrow> nat \<Rightarrow> nat" where
  "runBytes m firstPage lastPage = lastPage * pageSize m + pageBytes m lastPage - firstPage * pageSize m"

fun verify_loop :: "(nat \<times> u32) list \<Rightarrow> bytes \<Rightarrow> nat \<Rightarrow> nat \<Rightarrow> proc \<times> entry \<Rightarrow> bool \<times> proc \<times> entry" where
  "verify_loop [] dst got pos pe = (True, pe)"
| "verify_loop ((i, c) # ics) dst got pos pe =
     (let n = nbytes_of (snd pe) i in
      if pos + n > got then (False, demoteBadPages ((i, c) # ics) pe)
      else if crc32c (slice pos n dst) \<noteq> c then (False, demoteRun pe i i)
      else verify_loop ics dst got (pos + n) pe)"

text \<open>The delivered bytes are what the read left in the destination, verified or not.\<close>

definition readVerifyRun :: "nat \<Rightarrow> nat \<Rightarrow> u32 list \<Rightarrow> proc \<times> entry \<Rightarrow> bool \<times> bytes \<times> proc \<times> entry" where
  "readVerifyRun firstPage lastPage expect pe =
     (case pe of (p, e) \<Rightarrow>
        case preadFull (p_io p) (e_dataFd e) (runBytes (e_meta e) firstPage lastPage) (firstPage * P_of e) [] of
          (r, xs, io1) \<Rightarrow>
            let got = (if r > 0 then nat r else 0);
                (ok, pe1) = verify_loop (zip [firstPage..<Suc lastPage] expect) xs got 0 (p\<lparr>p_io := io1\<rparr>, e)
            in (ok, xs, pe1))"

section \<open>The plan\<close>

definition kMaxCoalescedRead :: nat where "kMaxCoalescedRead = 2 ^ 20"

record plan =
  pl_e :: entry
  pl_out :: bytes
  pl_ramB :: nat
  pl_ftB :: nat
  pl_specServed :: nat
  pl_runs :: "(nat \<times> nat \<times> u32 list) list"

definition add_page_run :: "metaData \<Rightarrow> (nat \<times> nat \<times> u32 list) list \<Rightarrow> nat \<Rightarrow> u32 \<Rightarrow> (nat \<times> nat \<times> u32 list) list" where
  "add_page_run m runs i c =
     (if runs \<noteq> [] \<and> fst (snd (last runs)) + 1 = i \<and> runBytes m (fst (last runs)) i \<le> kMaxCoalescedRead
      then butlast runs @ [(fst (last runs), i, snd (snd (last runs)) @ [c])]
      else runs @ [(i, i, [c])])"

definition staged_at :: "entry \<Rightarrow> nat \<Rightarrow> bufPage option" where
  "staged_at e i = (case map_of (e_buf e) i of Some b \<Rightarrow> Some b | None \<Rightarrow> map_of (e_flushing e) i)"

definition plan_page :: "nat \<Rightarrow> nat \<Rightarrow> bool \<Rightarrow> nat \<Rightarrow> plan \<Rightarrow> plan option" where
  "plan_page off stop account i st =
     (let e = pl_e st;
          pStart = i * P_of e;
          cStart = max off pStart;
          cEnd = min stop (pStart + nbytes_of e i)
      in case staged_at e i of
        Some b \<Rightarrow>
          (let promote = (bp_spec b \<and> account);
               e1 = (if promote then unmarkSpeculative e i else e);
               touch = (account \<and> \<not> bm_get (e_servedOnce e1) i);
               e2 = (if touch then e1\<lparr>e_servedOnce := bm_set (e_servedOnce e1) i\<rparr> else e1)
           in Some (st\<lparr>pl_e := e2,
                    pl_out := overwrite (pl_out st) (cStart - off) (slice (cStart - pStart) (cEnd - cStart) (bp_data b)),
                    pl_ramB := pl_ramB st + (cEnd - cStart),
                    pl_ftB := pl_ftB st + (if touch then cEnd - cStart else 0),
                    pl_specServed := pl_specServed st + (if promote then nbytes_of e i else 0)\<rparr>))
      | None \<Rightarrow>
          if \<not> bm_get (bitmap (e_meta e)) i then None
          else Some (st\<lparr>pl_runs := add_page_run (e_meta e) (pl_runs st) i (pageCrcs (e_meta e) ! i)\<rparr>))"

primrec plan_pages :: "nat \<Rightarrow> nat \<Rightarrow> bool \<Rightarrow> nat list \<Rightarrow> plan \<Rightarrow> bool \<times> plan" where
  "plan_pages off stop account [] st = (True, st)"
| "plan_pages off stop account (i # is) st =
     (case plan_page off stop account i st of
        None \<Rightarrow> (False, st)
      | Some st1 \<Rightarrow> plan_pages off stop account is st1)"

definition rc_plan :: "entry \<Rightarrow> nat \<Rightarrow> nat \<Rightarrow> bytes \<Rightarrow> bool \<Rightarrow> bool \<times> plan" where
  "rc_plan e off len buf account =
     (let e0 = (if pb_npages (e_servedOnce e) = 0 then e\<lparr>e_servedOnce := bm_reset (npages (e_meta e))\<rparr> else e);
          stop = off + len
      in plan_pages off stop account [off div P_of e..<Suc ((stop - 1) div P_of e)]
           \<lparr>pl_e = e0, pl_out = buf, pl_ramB = 0, pl_ftB = 0, pl_specServed = 0, pl_runs = []\<rparr>)"

section \<open>The rest\<close>

record disk_count =
  dReads :: nat
  dBytes :: nat
  dSeq :: nat

type_synonym reading = "bytes \<times> disk_count \<times> proc \<times> entry"

definition read_run :: "nat \<Rightarrow> nat \<Rightarrow> nat \<times> nat \<times> u32 list \<Rightarrow> reading \<Rightarrow> bool \<times> reading" where
  "read_run off stop run s =
     (case (run, s) of ((a, b, cs), (out, d, pe)) \<Rightarrow>
        let m = e_meta (snd pe);
            rStart = a * pageSize m;
            rBytes = runBytes m a b;
            direct = (rStart \<ge> off \<and> rStart + rBytes \<le> stop)
        in case readVerifyRun a b cs pe of (ok, xs, p1, e1) \<Rightarrow>
          let out1 = (if direct then overwrite out (rStart - off) xs else out) in
          if \<not> ok then (False, out1, d, p1, e1)
          else
            let cStart = max off rStart;
                cEnd = min stop (rStart + rBytes);
                out2 = (if direct then out1
                        else overwrite out1 (cStart - off) (slice (cStart - rStart) (cEnd - cStart) xs))
            in (True, out2,
                \<lparr>dReads = dReads d + 1, dBytes = dBytes d + rBytes,
                 dSeq = dSeq d + (if rStart = e_lastDiskEnd e1 then 1 else 0)\<rparr>,
                p1, e1\<lparr>e_lastDiskEnd := rStart + rBytes\<rparr>))"

primrec read_runs :: "nat \<Rightarrow> nat \<Rightarrow> (nat \<times> nat \<times> u32 list) list \<Rightarrow> reading \<Rightarrow> bool \<times> reading" where
  "read_runs off stop [] s = (True, s)"
| "read_runs off stop (r # rs) s =
     (let (ok, s1) = read_run off stop r s in if ok then read_runs off stop rs s1 else (False, s1))"

definition first_touch :: "nat \<Rightarrow> nat \<Rightarrow> nat \<Rightarrow> entry \<times> nat \<Rightarrow> entry \<times> nat" where
  "first_touch off stop i s =
     (case s of (e, ftB) \<Rightarrow>
        if bm_get (e_servedOnce e) i then s
        else (e\<lparr>e_servedOnce := bm_set (e_servedOnce e) i\<rparr>,
              ftB + (min stop (i * P_of e + nbytes_of e i) - max off (i * P_of e))))"

text \<open>\<^verbatim>\<open>publish\<close>: the process-wide pools follow the marks this request cleared, at every exit.\<close>

definition rc_publish :: "bool \<Rightarrow> bool \<Rightarrow> nat \<Rightarrow> nat \<Rightarrow> nat \<Rightarrow> disk_count \<Rightarrow> proc \<times> entry \<Rightarrow> proc \<times> entry" where
  "rc_publish account servedOk specServed ramB ftB d pe =
     (case pe of (p, e) \<Rightarrow>
        let p1 = p\<lparr>g_specTotal := g_specTotal p - word_of_nat specServed,
                   g_bufTotal := g_bufTotal p + word_of_nat specServed\<rparr>;
            s = p_stats p1;
            sv = (if servedOk then specServed else 0)
        in if \<not> account then (p1, e)
           else (p1\<lparr>p_stats := s\<lparr>prefetchServedBytes := prefetchServedBytes s + sv,
                     ramHitBytes := ramHitBytes s + ramB, hitDiskReads := hitDiskReads s + dReads d,
                     hitDiskBytes := hitDiskBytes s + dBytes d, hitDiskSeq := hitDiskSeq s + dSeq d,
                     firstTouchBytes := firstTouchBytes s + ftB\<rparr>\<rparr>,
                 e\<lparr>e_obs := (e_obs e)\<lparr>o_prefetchServed := o_prefetchServed (e_obs e) + sv,
                     o_ramBytes := o_ramBytes (e_obs e) + ramB, o_diskReads := o_diskReads (e_obs e) + dReads d,
                     o_diskBytes := o_diskBytes (e_obs e) + dBytes d, o_diskSeq := o_diskSeq (e_obs e) + dSeq d,
                     o_firstTouchBytes := o_firstTouchBytes (e_obs e) + ftB\<rparr>\<rparr>))"

definition no_disk :: disk_count where
  "no_disk = \<lparr>dReads = 0, dBytes = 0, dSeq = 0\<rparr>"

definition rc_rest :: "nat \<Rightarrow> nat \<Rightarrow> nat \<Rightarrow> bool \<Rightarrow> bool \<times> plan \<Rightarrow> proc \<times> entry \<Rightarrow> bool \<times> bytes \<times> proc \<times> entry" where
  "rc_rest now off len account planned pe =
     (case planned of (found, st) \<Rightarrow>
        if \<not> found
        then (False, pl_out st, rc_publish account False (pl_specServed st) (pl_ramB st) (pl_ftB st) no_disk pe)
        else case read_runs off (off + len) (pl_runs st) (pl_out st, no_disk, pe) of
          (ok, out, d, pe1) \<Rightarrow>
            if \<not> ok
            then (False, out, rc_publish account False (pl_specServed st) (pl_ramB st) (pl_ftB st) d pe1)
            else
              let (e2, ftB) = (if pl_runs st \<noteq> [] \<and> account
                    then fold (first_touch off (off + len)) (concat (map (\<lambda>(a, b, cs). [a..<Suc b]) (pl_runs st)))
                           (snd pe1, pl_ftB st)
                    else (snd pe1, pl_ftB st));
                  (p3, e3) = rc_publish account True (pl_specServed st) (pl_ramB st) ftB d (fst pe1, e2)
              in if \<not> account then (True, out, p3, e3)
                 else (True, out,
                   p3\<lparr>p_stats := (p_stats p3)\<lparr>hitBytes := hitBytes (p_stats p3) + len\<rparr>\<rparr>,
                   (touchAtime now e3)\<lparr>e_obs := (e_obs e3)\<lparr>o_servedBytes := o_servedBytes (e_obs e3) + len\<rparr>\<rparr>))"

definition readCached :: "nat \<Rightarrow> proc \<times> entry \<Rightarrow> nat \<Rightarrow> nat \<Rightarrow> bytes \<Rightarrow> bool \<Rightarrow> bool \<times> bytes \<times> proc \<times> entry" where
  "readCached now pe off len buf account =
     (if len = 0 then (True, buf, pe)
      else if u64 (off + len) < off \<or> u64 (off + len) > fileSize (e_meta (snd pe)) then (False, buf, pe)
      else let planned = rc_plan (snd pe) off len buf account
           in rc_rest now off len account planned (fst pe, pl_e (snd planned)))"

section \<open>Runs of pages\<close>

lemma runBytes_end:
  assumes "meta_ok m" and "a \<le> b" and "b < npages m"
  shows "a * pageSize m + runBytes m a b = min (Suc b * pageSize m) (fileSize m)"
proof -
  have "a * pageSize m \<le> b * pageSize m" using assms(2) by simp
  then show ?thesis using page_end [OF assms(1,3)] unfolding runBytes_def by linarith
qed

lemma run_range:
  assumes "meta_ok m" and "a \<le> b" and "b < npages m" and "x < fileSize m"
  shows "a * pageSize m \<le> x \<and> x < a * pageSize m + runBytes m a b \<longleftrightarrow> a \<le> x div pageSize m \<and> x div pageSize m \<le> b"
proof -
  have P: "0 < pageSize m" using assms(1) by (rule meta_ok_pageSize)
  have "a \<le> x div pageSize m \<longleftrightarrow> a * pageSize m \<le> x" using P by (rule less_eq_div_iff_mult_less_eq)
  moreover have "x div pageSize m \<le> b \<longleftrightarrow> x < Suc b * pageSize m"
    using P by (metis div_less_iff_less_mult less_Suc_eq_le)
  ultimately show ?thesis using runBytes_end [OF assms(1-3)] assms(4) by auto
qed

lemma inner_pageBytes:
  assumes "meta_ok m" and "i < b" and "b < npages m"
  shows "pageBytes m i = pageSize m"
proof -
  have "Suc i * pageSize m \<le> b * pageSize m" using assms(2) by (intro mult_le_mono1) simp
  moreover have "b * pageSize m < fileSize m" using assms(1,3) page_in_file by simp
  moreover have "i < npages m" using assms(2,3) by simp
  ultimately show ?thesis using assms(1) by (simp add: pageBytes_eq)
qed

section \<open>Verification\<close>

text \<open>What a demotion keeps: the file system's content and all but the presence of pages.\<close>

lemma verify_loop_ok:
  assumes m: "meta_ok (e_meta (snd pe))" and b: "b < npages (e_meta (snd pe))"
  shows "a \<le> i \<Longrightarrow> i \<le> Suc b \<Longrightarrow> length cs = Suc b - i \<Longrightarrow>
    verify_loop (zip [i..<Suc b] cs) dst got ((i - a) * P_of (snd pe)) pe = (True, pe1) \<Longrightarrow>
    pe1 = pe \<and> (\<forall>j. i \<le> j \<and> j \<le> b \<longrightarrow>
      (j - a) * P_of (snd pe) + nbytes_of (snd pe) j \<le> got \<and>
      crc32c (slice ((j - a) * P_of (snd pe)) (nbytes_of (snd pe) j) dst) = cs ! (j - i))"
proof (induction "Suc b - i" arbitrary: i cs)
  case (Suc d)
  then have ib: "i \<le> b" by simp
  obtain c cs' where cs: "cs = c # cs'" using Suc.prems(3) ib by (cases cs) auto
  have z: "zip [i..<Suc b] cs = (i, c) # zip [Suc i..<Suc b] cs'" using ib cs by (simp add: upt_rec [of i])
  let ?P = "P_of (snd pe)"
  have here: "(i - a) * ?P + nbytes_of (snd pe) i \<le> got" "crc32c (slice ((i - a) * ?P) (nbytes_of (snd pe) i) dst) = c"
    and rest: "verify_loop (zip [Suc i..<Suc b] cs') dst got ((i - a) * ?P + nbytes_of (snd pe) i) pe = (True, pe1)"
    using Suc.prems(4) unfolding z by (auto simp: Let_def split: if_splits)
  show ?case
  proof (cases "i = b")
    case True
    with rest have "pe1 = pe" by simp
    with True here cs show ?thesis by (auto dest: antisym)
  next
    case False
    then have "nbytes_of (snd pe) i = ?P" using inner_pageBytes [OF m _ b] ib by simp
    then have "(i - a) * ?P + nbytes_of (snd pe) i = (Suc i - a) * ?P" using Suc.prems(1) by (simp add: Suc_diff_le)
    with rest have "verify_loop (zip [Suc i..<Suc b] cs') dst got ((Suc i - a) * ?P) pe = (True, pe1)" by simp
    then have ih: "pe1 = pe \<and> (\<forall>j. Suc i \<le> j \<and> j \<le> b \<longrightarrow> (j - a) * ?P + nbytes_of (snd pe) j \<le> got \<and>
        crc32c (slice ((j - a) * ?P) (nbytes_of (snd pe) j) dst) = cs' ! (j - Suc i))"
      using Suc.hyps(1) [of "Suc i" cs'] Suc.hyps(2) Suc.prems(1,3) ib cs by simp
    show ?thesis
    proof (intro conjI allI impI; (elim conjE)?)
      show "pe1 = pe" using ih by simp
      fix j assume j: "i \<le> j" "j \<le> b"
      show "(j - a) * ?P + nbytes_of (snd pe) j \<le> got"
          "crc32c (slice ((j - a) * ?P) (nbytes_of (snd pe) j) dst) = cs ! (j - i)"
        using here ih j cs by (cases "j = i"; simp add: nth_Cons')+
    qed
  qed
qed auto

text \<open>The inode behind the entry's descriptor, and its bytes.\<close>

definition data_ino :: "proc \<Rightarrow> entry \<Rightarrow> nat option" where
  "data_ino p e = map_of (io_fds (p_io p)) (e_dataFd e)"

definition data_of :: "proc \<Rightarrow> entry \<Rightarrow> bytes" where
  "data_of p e = (case data_ino p e of None \<Rightarrow> [] | Some i \<Rightarrow> content (p_io p) i)"

lemma data_of_same: "io_same (p_io p) io1 \<Longrightarrow> data_of (p\<lparr>p_io := io1\<rparr>) e = data_of p e"
    "io_same (p_io p) io1 \<Longrightarrow> data_ino (p\<lparr>p_io := io1\<rparr>) e = data_ino p e"
  by (simp_all add: data_of_def data_ino_def io_sameD split: option.split)

lemma readVerifyRun_ok:
  assumes m: "meta_ok (e_meta e)" and ab: "a \<le> b" and b: "b < npages (e_meta e)" and l: "length cs = Suc b - a"
    and fd: "data_ino p e \<noteq> None"
    and r: "readVerifyRun a b cs (p, e) = (True, xs, p1, e1)"
  shows "\<exists>io1. p1 = p\<lparr>p_io := io1\<rparr> \<and> io_same (p_io p) io1 \<and> e1 = e \<and>
    xs = slice (a * P_of e) (runBytes (e_meta e) a b) (data_of p e) \<and> length xs = runBytes (e_meta e) a b \<and>
    (\<forall>j. a \<le> j \<and> j \<le> b \<longrightarrow> crc32c (slice (j * P_of e) (nbytes_of e j) (data_of p e)) = cs ! (j - a))"
proof -
  obtain ino where ino: "map_of (io_fds (p_io p)) (e_dataFd e) = Some ino" using fd by (auto simp: data_ino_def)
  have disk: "content (p_io p) ino = data_of p e" using ino by (simp add: data_of_def data_ino_def)
  obtain rc ys io1 where pr: "preadFull (p_io p) (e_dataFd e) (runBytes (e_meta e) a b) (a * P_of e) [] = (rc, ys, io1)"
    by (metis prod_cases3)
  note sp = preadFull_spec [OF pr ino]
  let ?got = "if rc > 0 then nat rc else 0"
  have v: "verify_loop (zip [a..<Suc b] cs) ys ?got ((a - a) * P_of (snd (p\<lparr>p_io := io1\<rparr>, e))) (p\<lparr>p_io := io1\<rparr>, e) = (True, p1, e1)"
    and xs: "xs = ys"
    using r by (auto simp: readVerifyRun_def pr Let_def simp del: upt_Suc split: prod.splits)
  note vl = verify_loop_ok [where a = a, OF _ _ le_refl _ l v] 
  have V: "(p1, e1) = (p\<lparr>p_io := io1\<rparr>, e)" "\<And>j. a \<le> j \<Longrightarrow> j \<le> b \<Longrightarrow> (j - a) * P_of e + nbytes_of e j \<le> ?got \<and>
      crc32c (slice ((j - a) * P_of e) (nbytes_of e j) ys) = cs ! (j - a)"
    using vl m b ab by simp_all
  have full: "(b - a) * P_of e + nbytes_of e b = runBytes (e_meta e) a b"
    using ab by (simp add: runBytes_def diff_mult_distrib)
  have "runBytes (e_meta e) a b \<le> ?got" using V(2) [of b] ab full by simp
  moreover have "0 < runBytes (e_meta e) a b" using full pageBytes_pos [OF m b] by simp
  ultimately have got: "rc = int (length ys)" "length ys = runBytes (e_meta e) a b"
    using sp by (auto split: if_splits)
  have ys: "ys = slice (a * P_of e) (runBytes (e_meta e) a b) (data_of p e)"
    using sp got disk by simp
  have "slice ((j - a) * P_of e) (nbytes_of e j) ys = slice (j * P_of e) (nbytes_of e j) (data_of p e)"
    if "a \<le> j" "j \<le> b" for j
  proof -
    have "(j - a) * P_of e + nbytes_of e j \<le> runBytes (e_meta e) a b"
      using V(2) [OF that] got by (auto split: if_splits)
    moreover have "a * P_of e + (j - a) * P_of e = j * P_of e" using that(1) by (simp flip: add_mult_distrib)
    ultimately show ?thesis unfolding ys by (simp add: slice_slice)
  qed
  with V sp xs ys got show ?thesis by (intro exI [of _ io1]) auto
qed

section \<open>What the buffer holds\<close>

text \<open>A run of a plan: pages of the file, with the checksums of the origin's pages.\<close>

definition run_ok :: "bytes \<Rightarrow> metaData \<Rightarrow> nat \<times> nat \<times> u32 list \<Rightarrow> bool" where
  "run_ok orig m r = (case r of (a, b, cs) \<Rightarrow> a \<le> b \<and> b < npages m \<and> length cs = Suc b - a \<and>
     (\<forall>j. a \<le> j \<and> j \<le> b \<longrightarrow> cs ! (j - a) = crc32c (page_of (pageSize m) orig j)))"

definition run_pages :: "(nat \<times> nat \<times> u32 list) list \<Rightarrow> nat set" where
  "run_pages rs = (\<Union>(a, b, cs)\<in>set rs. {a..b})"

lemma run_pages_simps [simp]:
  "run_pages [] = {}" "run_pages ((a, b, cs) # rs) = {a..b} \<union> run_pages rs" "run_pages (xs @ ys) = run_pages xs \<union> run_pages ys"
  by (auto simp: run_pages_def)

text \<open>A page of the data file that passes for the origin's: its checksum is the origin page's.\<close>

definition disk_page_ok :: "bytes \<Rightarrow> metaData \<Rightarrow> bytes \<Rightarrow> nat \<Rightarrow> bool" where
  "disk_page_ok orig m disk j \<longleftrightarrow> crc32c (slice (j * pageSize m) (pageBytes m j) disk) = crc32c (page_of (pageSize m) orig j)"

lemma nth_overwrite_slice:
  assumes "c \<le> d" and "off \<le> c" and "d \<le> off + length out" and "r \<le> c" and "d \<le> r + length xs" and "k < length out"
    and "\<And>i. i < length xs \<Longrightarrow> xs ! i = disk ! (r + i)"
  shows "overwrite out (c - off) (slice (c - r) (d - c) xs) ! k =
    (if c \<le> off + k \<and> off + k < d then disk ! (off + k) else out ! k)"
proof -
  have l: "length (slice (c - r) (d - c) xs) = d - c" using assms by simp
  have "overwrite out (c - off) (slice (c - r) (d - c) xs) ! k =
      (if c - off \<le> k \<and> k < c - off + (d - c) then slice (c - r) (d - c) xs ! (k - (c - off)) else out ! k)"
    using assms by (subst nth_overwrite) (simp_all add: l)
  moreover have "slice (c - r) (d - c) xs ! (k - (c - off)) = disk ! (off + k)" if "c \<le> off + k" "off + k < d"
  proof -
    have "k - (c - off) < d - c" "c - r + (k - (c - off)) < length xs" "r + (c - r + (k - (c - off))) = off + k"
      using that assms by linarith+
    then show ?thesis
      using assms(7) [of "c - r + (k - (c - off))"] slice_nth [of "k - (c - off)" "d - c" "c - r" xs] by metis
  qed
  moreover have "c - off \<le> k \<and> k < c - off + (d - c) \<longleftrightarrow> c \<le> off + k \<and> off + k < d" using assms by auto
  ultimately show ?thesis by auto
qed

lemma read_run_ok:
  assumes m: "meta_ok (e_meta e)" and ok: "run_ok orig (e_meta e) r" and r: "r = (a, b, cs)"
    and fd: "data_ino p e \<noteq> None" and out: "length out = len" and fs: "off + len \<le> fileSize (e_meta e)"
    and ov: "a * P_of e < off + len" "off < a * P_of e + runBytes (e_meta e) a b"
    and rr: "read_run off (off + len) r (out, d, p, e) = (True, out2, d2, p2, e2)"
  shows "length out2 = len \<and> (\<exists>io1. p2 = p\<lparr>p_io := io1\<rparr> \<and> io_same (p_io p) io1) \<and>
    (\<exists>x. e2 = e\<lparr>e_lastDiskEnd := x\<rparr>) \<and>
    (\<forall>k<len. out2 ! k = (if (off + k) div P_of e \<in> {a..b} then data_of p e ! (off + k) else out ! k)) \<and>
    (\<forall>j\<in>{a..b}. disk_page_ok orig (e_meta e) (data_of p e) j)"
proof -
  let ?m = "e_meta e" let ?R = "a * P_of e" let ?n = "runBytes ?m a b"
  have ab: "a \<le> b" "b < npages ?m" "length cs = Suc b - a"
    and cs: "\<And>j. a \<le> j \<Longrightarrow> j \<le> b \<Longrightarrow> cs ! (j - a) = crc32c (page_of (P_of e) orig j)"
    using ok r by (auto simp: run_ok_def)
  obtain okv xs p1 e1 where rv: "readVerifyRun a b cs (p, e) = (okv, xs, p1, e1)" by (metis prod_cases4)
  have okv: "okv" using rr r rv by (auto simp: read_run_def Let_def split: if_splits)
  obtain io1 where V: "p1 = p\<lparr>p_io := io1\<rparr>" "io_same (p_io p) io1" "e1 = e" "xs = slice ?R ?n (data_of p e)"
      "length xs = ?n" "\<And>j. a \<le> j \<Longrightarrow> j \<le> b \<Longrightarrow> crc32c (slice (j * P_of e) (nbytes_of e j) (data_of p e)) = cs ! (j - a)"
    using readVerifyRun_ok [OF m ab fd rv [unfolded eqTrueI [OF okv]]] by blast
  have nth: "xs ! i = data_of p e ! (?R + i)" if "i < length xs" for i
    using that V(4,5) by (metis length_slice min_less_iff_conj slice_nth less_diff_conv add.commute)
  let ?c = "max off ?R" and ?d = "min (off + len) (?R + ?n)"
  have eff: "out2 = overwrite out (?c - off) (slice (?c - ?R) (?d - ?c) xs)" "p2 = p1" "e2 = e1\<lparr>e_lastDiskEnd := ?R + ?n\<rparr>"
  proof -
    have dir: "overwrite out (?R - off) xs = overwrite out (?c - off) (slice (?c - ?R) (?d - ?c) xs)"
      if "off \<le> ?R" "?R + ?n \<le> off + len"
      using that V(5) by (simp add: max_absorb2 min_absorb2 slice_all)
    show "out2 = overwrite out (?c - off) (slice (?c - ?R) (?d - ?c) xs)" "p2 = p1" "e2 = e1\<lparr>e_lastDiskEnd := ?R + ?n\<rparr>"
      using rr r rv okv dir by (auto simp: read_run_def Let_def split: if_splits)
  qed
  have cd: "?c \<le> ?d" using ov fs by (auto simp: max_def min_def)
  have l2: "length out2 = len" unfolding eff(1) using cd out V(5) by (subst length_overwrite) auto
  have pg: "out2 ! k = (if (off + k) div P_of e \<in> {a..b} then data_of p e ! (off + k) else out ! k)" if k: "k < len" for k
  proof -
    have "out2 ! k = (if ?c \<le> off + k \<and> off + k < ?d then data_of p e ! (off + k) else out ! k)"
      unfolding eff(1) using cd out V(5) k by (intro nth_overwrite_slice nth) auto
    moreover have "?c \<le> off + k \<and> off + k < ?d \<longleftrightarrow> ?R \<le> off + k \<and> off + k < ?R + ?n" using k by auto
    ultimately show ?thesis using run_range [OF m ab(1,2), of "off + k"] k fs by simp
  qed
  show ?thesis
    using l2 V eff pg cs by (auto simp: disk_page_ok_def)
qed

lemma data_of_lastDiskEnd [simp]: "data_of p (e\<lparr>e_lastDiskEnd := x\<rparr>) = data_of p e" "data_ino p (e\<lparr>e_lastDiskEnd := x\<rparr>) = data_ino p e"
  by (simp_all add: data_of_def data_ino_def)

lemma read_runs_ok:
  assumes "meta_ok (e_meta e)" and "data_ino p e \<noteq> None" and "length out = len" and "off + len \<le> fileSize (e_meta e)"
    and "\<forall>r\<in>set rs. run_ok orig (e_meta e) r \<and>
      (case r of (a, b, cs) \<Rightarrow> a * P_of e < off + len \<and> off < a * P_of e + runBytes (e_meta e) a b)"
    and "read_runs off (off + len) rs (out, d, p, e) = (True, out2, d2, p2, e2)"
  shows "length out2 = len \<and> (\<exists>io1. p2 = p\<lparr>p_io := io1\<rparr> \<and> io_same (p_io p) io1) \<and>
    (\<exists>x. e2 = e\<lparr>e_lastDiskEnd := x\<rparr>) \<and>
    (\<forall>k<len. out2 ! k = (if (off + k) div P_of e \<in> run_pages rs then data_of p e ! (off + k) else out ! k)) \<and>
    (\<forall>j\<in>run_pages rs. disk_page_ok orig (e_meta e) (data_of p e) j)"
  using assms
proof (induction rs arbitrary: out d p e)
  case Nil
  then have "out2 = out" "p2 = p" "e2 = e" by simp_all
  with Nil.prems(3) show ?case
    by (intro conjI exI [of _ "p_io p"] exI [of _ "e_lastDiskEnd e"]) simp_all
next
  case (Cons r rs)
  obtain a b cs where r: "r = (a, b, cs)" by (metis prod_cases3)
  obtain ok out1 d1 p1 e1 where rr: "read_run off (off + len) r (out, d, p, e) = (ok, out1, d1, p1, e1)"
    by (metis prod_cases5)
  have ok: "ok" and rest: "read_runs off (off + len) rs (out1, d1, p1, e1) = (True, out2, d2, p2, e2)"
    using Cons.prems(6) rr by (auto split: if_splits)
  have ro: "run_ok orig (e_meta e) r" "a * P_of e < off + len" "off < a * P_of e + runBytes (e_meta e) a b"
    using Cons.prems(5) r by auto
  note one = read_run_ok [OF Cons.prems(1) ro(1) r Cons.prems(2,3,4) ro(2,3) rr [unfolded eqTrueI [OF ok]]]
  obtain io1 x where p1: "p1 = p\<lparr>p_io := io1\<rparr>" "io_same (p_io p) io1" and e1: "e1 = e\<lparr>e_lastDiskEnd := x\<rparr>"
    using one by blast
  have f: "e_meta e1 = e_meta e" "data_of p1 e1 = data_of p e" "data_ino p1 e1 = data_ino p e"
    using p1 e1 by (simp_all add: data_of_same)
  have two: "length out2 = len \<and> (\<exists>io1. p2 = p1\<lparr>p_io := io1\<rparr> \<and> io_same (p_io p1) io1) \<and>
    (\<exists>x. e2 = e1\<lparr>e_lastDiskEnd := x\<rparr>) \<and>
    (\<forall>k<len. out2 ! k = (if (off + k) div P_of e \<in> run_pages rs then data_of p e ! (off + k) else out1 ! k)) \<and>
    (\<forall>j\<in>run_pages rs. disk_page_ok orig (e_meta e) (data_of p e) j)"
    using Cons.IH [OF _ _ _ _ _ rest] Cons.prems one f by auto
  show ?case
  proof (intro conjI)
    show "\<exists>io1. p2 = p\<lparr>p_io := io1\<rparr> \<and> io_same (p_io p) io1"
      using two p1 by (auto dest: io_same_trans)
    show "\<exists>x. e2 = e\<lparr>e_lastDiskEnd := x\<rparr>" using two e1 by auto
  qed (use one two r in auto)
qed

section \<open>The plan copies staged pages and lists the rest\<close>

text \<open>Every published page carries the checksum of the origin's page.\<close>

definition crcs_from :: "bytes \<Rightarrow> metaData \<Rightarrow> bool" where
  "crcs_from orig m \<longleftrightarrow> (\<forall>i<npages m. bm_get (bitmap m) i \<longrightarrow> pageCrcs m ! i = crc32c (page_of (pageSize m) orig i))"

definition plan_inv :: "bytes \<Rightarrow> entry \<Rightarrow> nat \<Rightarrow> nat \<Rightarrow> nat \<Rightarrow> plan \<Rightarrow> bool" where
  "plan_inv orig e0 off len i st \<longleftrightarrow> e_meta (pl_e st) = e_meta e0 \<and> staged_from orig (pl_e st) \<and> length (pl_out st) = len \<and>
     e_dataFd (pl_e st) = e_dataFd e0 \<and>
     (\<forall>r\<in>set (pl_runs st). run_ok orig (e_meta e0) r) \<and> run_pages (pl_runs st) \<subseteq> {off div P_of e0..<i} \<and>
     (\<forall>j\<in>run_pages (pl_runs st). bm_get (bitmap (e_meta e0)) j) \<and>
     (\<forall>k<len. (off + k) div P_of e0 < i \<longrightarrow> (off + k) div P_of e0 \<in> run_pages (pl_runs st) \<or> pl_out st ! k = orig ! (off + k))"

lemma add_page_run_ok:
  assumes "\<forall>r\<in>set runs. run_ok orig m r" and "i < npages m" and "c = crc32c (page_of (pageSize m) orig i)"
  shows "(\<forall>r\<in>set (add_page_run m runs i c). run_ok orig m r) \<and> run_pages (add_page_run m runs i c) = insert i (run_pages runs)"
proof (cases "runs \<noteq> [] \<and> fst (snd (last runs)) + 1 = i \<and> runBytes m (fst (last runs)) i \<le> kMaxCoalescedRead")
  case False
  then have "add_page_run m runs i c = runs @ [(i, i, [c])]" unfolding add_page_run_def by (rule if_not_P)
  with assms show ?thesis by (auto simp: run_ok_def dest: antisym)
next
  case True
  then obtain rs a b cs where r: "runs = rs @ [(a, b, cs)]" "Suc b = i" by (cases runs rule: rev_cases) auto
  have "add_page_run m runs i c = rs @ [(a, i, cs @ [c])]"
    unfolding add_page_run_def if_P [OF True] by (simp add: r(1))
  moreover have ok: "run_ok orig m (a, b, cs)" using assms(1) r(1) by simp
  moreover have "run_ok orig m (a, i, cs @ [c])"
    using ok assms(2,3) r(2) by (auto simp: run_ok_def nth_append le_Suc_eq Suc_diff_le)
  moreover have "{a..i} = insert i {a..b}" using ok r(2) by (auto simp: run_ok_def)
  ultimately show ?thesis using assms(1) r(1) by auto
qed

lemma staged_at_from:
  assumes "staged_from orig e" and "staged_at e i = Some b"
  shows "i < npages (e_meta e)" "bp_data b = page_of (P_of e) orig i"
  using staged_fromD [OF assms(1), of i b] assms(2) by (auto simp: staged_at_def split: option.splits)

lemma unmark_staged: "staged_from orig e \<Longrightarrow> staged_from orig (unmarkSpeculative e i)"
  using modify_staged [of orig e "\<lambda>b. b\<lparr>bp_spec := False\<rparr>" i] by (simp add: unmarkSpeculative_def)

lemma staged_from_servedOnce [simp]: "staged_from orig (e\<lparr>e_servedOnce := x\<rparr>) = staged_from orig e"
  by (simp add: staged_from_def)

lemma unmark_fd [simp]: "e_dataFd (unmarkSpeculative e i) = e_dataFd e"
  by (simp add: unmarkSpeculative_def)

lemma copied_page:
  assumes m: "meta_ok m" and i: "i < npages m" and fs: "off + len \<le> fileSize m" "length orig = fileSize m"
    and out: "length out = len" and ov: "i * pageSize m < off + len" "off < i * pageSize m + pageBytes m i"
  defines "c \<equiv> max off (i * pageSize m)" and "d \<equiv> min (off + len) (i * pageSize m + pageBytes m i)"
  defines "out1 \<equiv> overwrite out (c - off) (slice (c - i * pageSize m) (d - c) (page_of (pageSize m) orig i))"
  shows "length out1 = len" and "k < len \<Longrightarrow> out1 ! k = (if (off + k) div pageSize m = i then orig ! (off + k) else out ! k)"
proof -
  let ?pg = "page_of (pageSize m) orig i"
  have lp: "length ?pg = pageBytes m i" using length_page_of [OF m i fs(2)] .
  have cd: "c \<le> d" "off \<le> c" "d \<le> off + length out" "i * pageSize m \<le> c" "d \<le> i * pageSize m + length ?pg"
    using ov out lp by (auto simp: c_def d_def)
  have nth: "?pg ! j = orig ! (i * pageSize m + j)" if "j < length ?pg" for j
    using that page_of_eq [OF m i fs(2)] lp by (auto simp: slice_nth)
  have "length (slice (c - i * pageSize m) (d - c) ?pg) = d - c" using cd by simp
  then show "length out1 = len" unfolding out1_def using cd out by (subst length_overwrite) auto
  assume k: "k < len"
  have "out1 ! k = (if c \<le> off + k \<and> off + k < d then orig ! (off + k) else out ! k)"
    unfolding out1_def using cd k out by (intro nth_overwrite_slice nth) auto
  moreover have "c \<le> off + k \<and> off + k < d \<longleftrightarrow> (off + k) div pageSize m = i"
  proof -
    have "off + k \<in> {i * pageSize m..<i * pageSize m + pageBytes m i} \<longleftrightarrow> (off + k) div pageSize m = i"
      using page_bytes_range [OF m i] k fs by simp
    then show ?thesis using k by (auto simp: c_def d_def)
  qed
  ultimately show "out1 ! k = (if (off + k) div pageSize m = i then orig ! (off + k) else out ! k)" by simp
qed

lemma plan_page_inv:
  assumes m: "meta_ok (e_meta e0)" and cr: "crcs_from orig (e_meta e0)" and fs: "off + len \<le> fileSize (e_meta e0)"
      "length orig = fileSize (e_meta e0)" and len: "0 < len"
    and i: "off div P_of e0 \<le> i" "i \<le> (off + len - 1) div P_of e0"
    and inv: "plan_inv orig e0 off len i st" and pp: "plan_page off (off + len) account i st = Some st1"
  shows "plan_inv orig e0 off len (Suc i) st1"
proof -
  let ?m = "e_meta e0" let ?e = "pl_e st"
  have em: "e_meta ?e = ?m" and sf: "staged_from orig ?e" and out: "length (pl_out st) = len" using inv by (auto simp: plan_inv_def)
  have P: "0 < P_of e0" using m by (rule meta_ok_pageSize)
  have ilt: "i * P_of e0 \<le> off + len - 1" using i(2) P by (simp add: less_eq_div_iff_mult_less_eq)
  then have ilt': "i * P_of e0 < off + len" using len by linarith
  then have inp: "i < npages ?m" using fs page_in_file [OF m] by simp
  have "off < Suc i * P_of e0" using i(1) P by (metis div_less_iff_less_mult less_Suc_eq_le)
  then have ov: "off < i * P_of e0 + pageBytes ?m i" using page_end [OF m inp] fs len by simp
  show ?thesis
  proof (cases "staged_at ?e i")
    case (Some b)
    note sb = staged_at_from [OF sf Some]
    note cp = copied_page [OF m inp fs out ilt' ov]
    obtain e2 where e2: "e_meta e2 = ?m" "staged_from orig e2" "e_dataFd e2 = e_dataFd ?e" and
      st1: "pl_e st1 = e2" "pl_runs st1 = pl_runs st" "pl_out st1 = overwrite (pl_out st) (max off (i * P_of e0) - off)
          (slice (max off (i * P_of e0) - i * P_of e0) (min (off + len) (i * P_of e0 + pageBytes ?m i) - max off (i * P_of e0))
            (page_of (P_of e0) orig i))"
      using pp Some em sf sb(2) unmark_staged [OF sf, of i]
      by (fastforce simp: plan_page_def Let_def split: if_splits)
    show ?thesis
      using inv cp e2 unfolding plan_inv_def st1 by (auto simp: less_Suc_eq)
  next
    case None
    then have bit: "bm_get (bitmap ?m) i" and st1: "st1 = st\<lparr>pl_runs := add_page_run ?m (pl_runs st) i (pageCrcs ?m ! i)\<rparr>"
      using pp em by (auto simp: plan_page_def Let_def split: if_splits)
    have "pageCrcs ?m ! i = crc32c (page_of (P_of e0) orig i)" using cr bit inp by (simp add: crcs_from_def)
    note ar = add_page_run_ok [OF _ inp this, of "pl_runs st"]
    show ?thesis
      using inv ar i(1) bit unfolding plan_inv_def st1 by (auto simp: less_Suc_eq)
  qed
qed

lemma plan_pages_inv:
  assumes m: "meta_ok (e_meta e0)" and cr: "crcs_from orig (e_meta e0)" and fs: "off + len \<le> fileSize (e_meta e0)"
      "length orig = fileSize (e_meta e0)" and len: "0 < len"
  shows "off div P_of e0 \<le> a \<Longrightarrow> b \<le> Suc ((off + len - 1) div P_of e0) \<Longrightarrow> a \<le> b \<Longrightarrow> plan_inv orig e0 off len a st \<Longrightarrow>
    plan_pages off (off + len) account [a..<b] st = (True, st1) \<Longrightarrow> plan_inv orig e0 off len b st1"
proof (induction "b - a" arbitrary: a st)
  case (Suc d)
  then have ab: "a < b" by simp
  obtain st2 where s: "plan_page off (off + len) account a st = Some st2" "plan_pages off (off + len) account [Suc a..<b] st2 = (True, st1)"
    using Suc.prems(5) ab by (auto simp: upt_rec [of a] split: option.splits)
  have "plan_inv orig e0 off len (Suc a) st2"
    using plan_page_inv [OF m cr fs len Suc.prems(1) _ Suc.prems(4) s(1)] Suc.prems(2) ab by simp
  with Suc.hyps(1) [of "Suc a" st2] Suc.hyps(2) Suc.prems(1,2) ab s(2) show ?case by simp
qed auto

lemma rc_plan_inv:
  assumes "meta_ok (e_meta e)" and "crcs_from orig (e_meta e)" and "staged_from orig e"
    and "off + len \<le> fileSize (e_meta e)" and "length orig = fileSize (e_meta e)" and "0 < len" and "length buf = len"
    and "rc_plan e off len buf account = (True, st)"
  shows "plan_inv orig e off len (Suc ((off + len - 1) div P_of e)) st"
proof -
  let ?e0 = "if pb_npages (e_servedOnce e) = 0 then e\<lparr>e_servedOnce := bm_reset (npages (e_meta e))\<rparr> else e"
  have "plan_inv orig e off len (off div P_of e)
      \<lparr>pl_e = ?e0, pl_out = buf, pl_ramB = 0, pl_ftB = 0, pl_specServed = 0, pl_runs = []\<rparr>"
  proof -
    have "\<not> (off + k) div P_of e < off div P_of e" for k by (simp add: div_le_mono not_less)
    with assms(3,7) show ?thesis by (auto simp: plan_inv_def)
  qed
  moreover have "off div P_of e \<le> Suc ((off + len - 1) div P_of e)"
    using assms(6) by (intro le_SucI div_le_mono) linarith
  ultimately show ?thesis
    using plan_pages_inv [OF assms(1,2,4,5,6) le_refl le_refl] assms(8) by (simp add: rc_plan_def Let_def del: upt_Suc)
qed

lemma meta_geometry:
  assumes "pageSize m' = pageSize m" and "fileSize m' = fileSize m"
  shows "npages m' = npages m" "pageBytes m' = pageBytes m" "runBytes m' = runBytes m" "run_ok orig m' r = run_ok orig m r"
    "disk_page_ok orig m' disk j = disk_page_ok orig m disk j"
proof -
  show a: "npages m' = npages m" "pageBytes m' = pageBytes m"
    using assms by (simp_all add: npages_def pageBytes_def fun_eq_iff)
  show "runBytes m' = runBytes m" "run_ok orig m' r = run_ok orig m r" "disk_page_ok orig m' disk j = disk_page_ok orig m disk j"
    using assms a by (simp_all add: runBytes_def fun_eq_iff run_ok_def disk_page_ok_def)
qed

lemma rc_rest_serves:
  assumes inv: "plan_inv orig e off len (Suc ((off + len - 1) div P_of e)) st" and len: "0 < len"
    and m: "meta_ok (e_meta e')" and geo: "pageSize (e_meta e') = P_of e" "fileSize (e_meta e') = fileSize (e_meta e)"
    and fs: "off + len \<le> fileSize (e_meta e)" and fd: "data_ino p' e' \<noteq> None"
    and r: "rc_rest now off len account (True, st) (p', e') = (True, out, pe1)"
  shows "length out = len \<and> (\<forall>k<len. out ! k = orig ! (off + k) \<or>
    (out ! k = data_of p' e' ! (off + k) \<and> bm_get (bitmap (e_meta e)) ((off + k) div P_of e) \<and>
     disk_page_ok orig (e_meta e) (data_of p' e') ((off + k) div P_of e)))"
proof -
  let ?lst = "(off + len - 1) div P_of e"
  note g = meta_geometry [OF geo]
  have P: "0 < P_of e" using meta_ok_pageSize [OF m] geo by simp
  have out0: "length (pl_out st) = len" using inv by (simp add: plan_inv_def)
  obtain okv out1 d1 p1 e1 where rr: "read_runs off (off + len) (pl_runs st) (pl_out st, no_disk, p', e') = (okv, out1, d1, p1, e1)"
    by (metis prod_cases5)
  have okv: "okv" "out = out1" using r rr by (auto simp: rc_rest_def Let_def split: if_splits prod.splits)
  have runs: "\<forall>r\<in>set (pl_runs st). run_ok orig (e_meta e') r \<and>
      (case r of (a, b, cs) \<Rightarrow> a * P_of e' < off + len \<and> off < a * P_of e' + runBytes (e_meta e') a b)"
  proof
    fix r assume rin: "r \<in> set (pl_runs st)"
    obtain a b cs where rabc: "r = (a, b, cs)" by (metis prod_cases3)
    have ro: "run_ok orig (e_meta e) r" using inv rin by (simp add: plan_inv_def)
    then have ab: "a \<le> b" "b < npages (e_meta e)" using rabc by (auto simp: run_ok_def)
    have "{a..b} \<subseteq> {off div P_of e..<Suc ?lst}" using inv rin rabc by (fastforce simp: plan_inv_def run_pages_def)
    then have r2: "off div P_of e \<le> a" "a \<le> ?lst" using ab by auto
    have "a * P_of e \<le> off + len - 1" using r2(2) P by (simp add: less_eq_div_iff_mult_less_eq)
    then have o1: "a * P_of e < off + len" using len by linarith
    have "off < Suc a * P_of e" using r2(1) P by (metis div_less_iff_less_mult less_Suc_eq_le)
    also have "\<dots> \<le> Suc b * P_of e" using ab(1) by (intro mult_le_mono1) simp
    finally have o2: "off < a * P_of e + runBytes (e_meta e) a b"
      using runBytes_end [of "e_meta e'" a b] m ab g geo fs len by simp
    show "run_ok orig (e_meta e') r \<and>
      (case r of (a, b, cs) \<Rightarrow> a * P_of e' < off + len \<and> off < a * P_of e' + runBytes (e_meta e') a b)"
      using ro o1 o2 rabc g geo by simp
  qed
  note rok = read_runs_ok [OF m fd out0 _ runs rr [unfolded eqTrueI [OF okv(1)]]]
  have R: "length out1 = len" "\<And>k. k < len \<Longrightarrow> out1 ! k = (if (off + k) div P_of e \<in> run_pages (pl_runs st)
        then data_of p' e' ! (off + k) else pl_out st ! k)"
      "\<And>j. j \<in> run_pages (pl_runs st) \<Longrightarrow> disk_page_ok orig (e_meta e) (data_of p' e') j"
    using rok fs geo g by auto
  have "out1 ! k = orig ! (off + k) \<or> (out1 ! k = data_of p' e' ! (off + k) \<and> bm_get (bitmap (e_meta e)) ((off + k) div P_of e) \<and>
     disk_page_ok orig (e_meta e) (data_of p' e') ((off + k) div P_of e))" if k: "k < len" for k
  proof -
    have "(off + k) div P_of e < Suc ?lst" using k len by (auto simp: less_Suc_eq_le intro!: div_le_mono)
    then show ?thesis using inv R(2) [OF k] R(3) [of "(off + k) div P_of e"] k by (auto simp: plan_inv_def)
  qed
  with R(1) okv(2) show ?thesis by simp
qed

section \<open>A hit succeeds when nothing fails\<close>

text \<open>Every published page is on disk with the origin's bytes.\<close>

definition data_from :: "bytes \<Rightarrow> proc \<Rightarrow> entry \<Rightarrow> bool" where
  "data_from orig p e \<longleftrightarrow> (\<forall>i<npages (e_meta e). bm_get (bitmap (e_meta e)) i \<longrightarrow>
     slice (i * P_of e) (nbytes_of e i) (data_of p e) = page_of (P_of e) orig i)"

lemma verify_loop_passes:
  assumes m: "meta_ok (e_meta (snd pe))" and b: "b < npages (e_meta (snd pe))" and ai: "a \<le> i"
    and all: "\<forall>j. i \<le> j \<and> j \<le> b \<longrightarrow> (j - a) * P_of (snd pe) + nbytes_of (snd pe) j \<le> got \<and>
      crc32c (slice ((j - a) * P_of (snd pe)) (nbytes_of (snd pe) j) dst) = cs ! (j - i)"
    and l: "length cs = Suc b - i"
  shows "verify_loop (zip [i..<Suc b] cs) dst got ((i - a) * P_of (snd pe)) pe = (True, pe)"
  using ai all l
proof (induction "Suc b - i" arbitrary: i cs)
  case (Suc d)
  then have ib: "i \<le> b" by simp
  obtain c cs' where cs: "cs = c # cs'" using Suc.prems(3) ib by (cases cs) auto
  let ?P = "P_of (snd pe)"
  have here: "(i - a) * ?P + nbytes_of (snd pe) i \<le> got" "crc32c (slice ((i - a) * ?P) (nbytes_of (snd pe) i) dst) = c"
    using Suc.prems(2) ib cs by auto
  have v: "verify_loop (zip [i..<Suc b] cs) dst got ((i - a) * ?P) pe =
      verify_loop (zip [Suc i..<Suc b] cs') dst got ((i - a) * ?P + nbytes_of (snd pe) i) pe"
  proof -
    have z: "zip [i..<Suc b] cs = (i, c) # zip [Suc i..<Suc b] cs'" using ib cs by (simp add: upt_conv_Cons del: upt_Suc)
    show ?thesis unfolding z using here by (simp add: Let_def del: upt_Suc)
  qed
  show ?case
  proof (cases "i = b")
    case True
    then show ?thesis unfolding v by simp
  next
    case False
    then have "(i - a) * ?P + nbytes_of (snd pe) i = (Suc i - a) * ?P"
      using inner_pageBytes [OF m _ b, of i] ib Suc.prems(1) by (simp add: Suc_diff_le)
    moreover have "\<forall>j. Suc i \<le> j \<and> j \<le> b \<longrightarrow> (j - a) * ?P + nbytes_of (snd pe) j \<le> got \<and>
        crc32c (slice ((j - a) * ?P) (nbytes_of (snd pe) j) dst) = cs' ! (j - Suc i)"
    proof (intro allI impI)
      fix j assume j: "Suc i \<le> j \<and> j \<le> b"
      then have "j - i = Suc (j - Suc i)" by linarith
      then show "(j - a) * ?P + nbytes_of (snd pe) j \<le> got \<and>
        crc32c (slice ((j - a) * ?P) (nbytes_of (snd pe) j) dst) = cs' ! (j - Suc i)"
        using Suc.prems(2) [rule_format, of j] j cs by simp
    qed
    ultimately show ?thesis
      unfolding v using Suc.hyps(1) [of "Suc i" cs'] Suc.hyps(2) Suc.prems(1,3) cs by simp
  qed
qed simp

lemma readVerifyRun_passes:
  assumes m: "meta_ok (e_meta e)" and ab: "a \<le> b" "b < npages (e_meta e)" and l: "length cs = Suc b - a"
    and fd: "data_ino p e \<noteq> None" and q: "io_sched (p_io p) = []" and fs: "length orig = fileSize (e_meta e)"
    and cs: "\<And>j. a \<le> j \<Longrightarrow> j \<le> b \<Longrightarrow> cs ! (j - a) = crc32c (page_of (P_of e) orig j)"
    and dat: "\<And>j. a \<le> j \<Longrightarrow> j \<le> b \<Longrightarrow> slice (j * P_of e) (nbytes_of e j) (data_of p e) = page_of (P_of e) orig j"
  shows "\<exists>xs io1. readVerifyRun a b cs (p, e) = (True, xs, p\<lparr>p_io := io1\<rparr>, e) \<and> io_sched io1 = []"
proof -
  let ?n = "runBytes (e_meta e) a b"
  obtain ino where ino: "map_of (io_fds (p_io p)) (e_dataFd e) = Some ino" using fd by (auto simp: data_ino_def)
  have disk: "content (p_io p) ino = data_of p e" using ino by (simp add: data_of_def data_ino_def)
  have lb: "length (slice (b * P_of e) (nbytes_of e b) (data_of p e)) = nbytes_of e b"
    using dat [OF ab(1) le_refl] length_page_of [OF m ab(2) fs] by simp
  have full: "(b - a) * P_of e + nbytes_of e b = ?n" using ab by (simp add: runBytes_def diff_mult_distrib)
  have "a * P_of e + ?n = b * P_of e + nbytes_of e b"
    using full ab(1) by (metis add.assoc add_mult_distrib le_add_diff_inverse)
  moreover have "0 < nbytes_of e b" using pageBytes_pos [OF m ab(2)] .
  ultimately have len: "a * P_of e + ?n \<le> length (data_of p e)" "0 < ?n"
    using lb full by (simp_all add: min_def split: if_splits)
  obtain io1 where pr: "preadFull (p_io p) (e_dataFd e) ?n (a * P_of e) [] = (int ?n, slice (a * P_of e) ?n (data_of p e), io1)"
      and q1: "io_sched io1 = []"
    using preadFull_quiet [OF q ino, of "a * P_of e" ?n] len disk by auto
  have "verify_loop (zip [a..<Suc b] cs) (slice (a * P_of e) ?n (data_of p e)) ?n ((a - a) * P_of (snd (p\<lparr>p_io := io1\<rparr>, e)))
      (p\<lparr>p_io := io1\<rparr>, e) = (True, p\<lparr>p_io := io1\<rparr>, e)"
  proof (rule verify_loop_passes)
    show "\<forall>j. a \<le> j \<and> j \<le> b \<longrightarrow> (j - a) * P_of (snd (p\<lparr>p_io := io1\<rparr>, e)) + nbytes_of (snd (p\<lparr>p_io := io1\<rparr>, e)) j \<le> ?n \<and>
      crc32c (slice ((j - a) * P_of (snd (p\<lparr>p_io := io1\<rparr>, e))) (nbytes_of (snd (p\<lparr>p_io := io1\<rparr>, e)) j)
        (slice (a * P_of e) ?n (data_of p e))) = cs ! (j - a)"
    proof (intro allI impI; elim conjE)
      fix j assume j: "a \<le> j" "j \<le> b"
      have s: "a * P_of e + (j - a) * P_of e = j * P_of e" using j(1) by (simp flip: add_mult_distrib)
      have "j * P_of e + nbytes_of e j \<le> b * P_of e + nbytes_of e b"
      proof (cases "j = b")
        case False
        then have "Suc j * P_of e \<le> b * P_of e" using j by (intro mult_le_mono1) simp
        then show ?thesis using inner_pageBytes [OF m _ ab(2), of j] False j by simp
      qed simp
      then have le: "(j - a) * P_of e + nbytes_of e j \<le> ?n" using s full ab(1) \<open>a * P_of e + ?n = b * P_of e + nbytes_of e b\<close> by linarith
      show "(j - a) * P_of (snd (p\<lparr>p_io := io1\<rparr>, e)) + nbytes_of (snd (p\<lparr>p_io := io1\<rparr>, e)) j \<le> ?n \<and>
        crc32c (slice ((j - a) * P_of (snd (p\<lparr>p_io := io1\<rparr>, e))) (nbytes_of (snd (p\<lparr>p_io := io1\<rparr>, e)) j)
          (slice (a * P_of e) ?n (data_of p e))) = cs ! (j - a)"
        using le s cs [OF j] dat [OF j] by (simp add: slice_slice)
    qed
  qed (use m ab l in simp_all)
  then show ?thesis using pr len q1 by (auto simp: readVerifyRun_def Let_def simp del: upt_Suc)
qed

lemma read_runs_passes:
  assumes "meta_ok (e_meta e)" and "data_ino p e \<noteq> None" and "io_sched (p_io p) = []" and "length orig = fileSize (e_meta e)"
    and "\<forall>r\<in>set rs. run_ok orig (e_meta e) r" and "data_from orig p e" and "\<forall>j\<in>run_pages rs. bm_get (bitmap (e_meta e)) j"
  shows "fst (read_runs off stop rs (out, d, p, e))"
  using assms
proof (induction rs arbitrary: out d p e)
  case (Cons r rs)
  obtain a b cs where r: "r = (a, b, cs)" by (metis prod_cases3)
  have ro: "a \<le> b" "b < npages (e_meta e)" "length cs = Suc b - a"
      "\<And>j. a \<le> j \<Longrightarrow> j \<le> b \<Longrightarrow> cs ! (j - a) = crc32c (page_of (P_of e) orig j)"
    using Cons.prems(5) r by (auto simp: run_ok_def)
  have da: "slice (j * P_of e) (nbytes_of e j) (data_of p e) = page_of (P_of e) orig j" if "a \<le> j" "j \<le> b" for j
    using Cons.prems(6,7) r that ro(2) by (simp add: data_from_def)
  obtain xs io1 where v: "readVerifyRun a b cs (p, e) = (True, xs, p\<lparr>p_io := io1\<rparr>, e)" "io_sched io1 = []"
    using readVerifyRun_passes [OF Cons.prems(1) ro(1-3) Cons.prems(2-4) ro(4) da] by blast
  obtain i2 where "readVerifyRun a b cs (p, e) = (True, xs, p\<lparr>p_io := i2\<rparr>, e)" and i2: "io_same (p_io p) i2" "i2 = io1"
    using readVerifyRun_ok [OF Cons.prems(1) ro(1-3) Cons.prems(2) v(1)] by auto (metis proc.update_convs(1) proc.select_convs(1) v(1) proc.surjective)
  let ?p = "p\<lparr>p_io := io1\<rparr>" and ?e = "e\<lparr>e_lastDiskEnd := a * P_of e + runBytes (e_meta e) a b\<rparr>"
  obtain out2 d2 where rr: "read_run off stop r (out, d, p, e) = (True, out2, d2, ?p, ?e)"
    using r v by (simp add: read_run_def Let_def)
  have "data_of ?p ?e = data_of p e" "data_ino ?p ?e = data_ino p e" using i2 by (simp_all add: data_of_same)
  then have "fst (read_runs off stop rs (out2, d2, ?p, ?e))"
    using Cons.prems v(2) by (intro Cons.IH) (auto simp: data_from_def run_pages_def)
  with rr show ?case by simp
qed simp

lemma plan_page_some:
  "plan_page off stop account i st \<noteq> None \<longleftrightarrow> pageHere (pl_e st) i"
  by (auto simp: plan_page_def Let_def staged_at_def pageHere_def split: option.splits)

lemma plan_page_here:
  assumes "plan_page off stop account i st = Some st1"
  shows "pageHere (pl_e st1) = pageHere (pl_e st)"
proof -
  have u: "pageHere (unmarkSpeculative e i) = pageHere e" "pageHere (e\<lparr>e_servedOnce := x\<rparr>) = pageHere e" for e x
    by (auto simp: pageHere_def fun_eq_iff unmarkSpeculative_def map_of_sm_modify)
  show ?thesis using assms by (auto simp: plan_page_def Let_def u split: option.splits if_splits)
qed

lemma plan_pages_found: "fst (plan_pages off stop account is st) \<longleftrightarrow> (\<forall>i\<in>set is. pageHere (pl_e st) i)"
proof (induction "is" arbitrary: st)
  case (Cons i "is")
  show ?case
  proof (cases "plan_page off stop account i st")
    case None
    then show ?thesis using plan_page_some [of off stop account i st] by simp
  next
    case (Some st1)
    then have "pageHere (pl_e st) i" using plan_page_some [of off stop account i st] by simp
    with Some Cons.IH [of st1] plan_page_here [OF Some] show ?thesis by simp
  qed
qed simp

lemma rc_plan_found:
  "fst (rc_plan e off len buf account) \<longleftrightarrow> list_all (pageHere e) [off div P_of e..<Suc ((off + len - 1) div P_of e)]"
proof -
  have "pageHere (e\<lparr>e_servedOnce := x\<rparr>) = pageHere e" for x by (simp add: pageHere_def fun_eq_iff)
  then show ?thesis
    unfolding rc_plan_def Let_def plan_pages_found list_all_iff by simp
qed

lemma rc_rest_true:
  assumes "fst (read_runs off (off + len) (pl_runs st) (pl_out st, no_disk, pe))"
  shows "fst (rc_rest now off len account (True, st) pe)"
  using assms by (auto simp: rc_rest_def Let_def split: prod.splits)

lemma readCached_hit:
  assumes "meta_ok (e_meta e)" and "crcs_from orig (e_meta e)" and "staged_from orig e" and "length orig = fileSize (e_meta e)"
    and "data_ino p e \<noteq> None" and "data_from orig p e" and "off < 2 ^ 64" and "len < 2 ^ 64" and "0 < len" and "length buf = len"
    and "readCached now (p, e) off len buf account = (ok, out, p1, e1)"
  shows "(ok \<longrightarrow> out = slice off len orig) \<and> (hasRange e off len \<and> io_sched (p_io p) = [] \<longrightarrow> ok)"
proof (cases "u64 (off + len) < off \<or> u64 (off + len) > fileSize (e_meta e)")
  case True
  with assms(9,11) show ?thesis by (auto simp: readCached_def hasRange_def)
next
  case False
  have "\<not> 2 ^ 64 \<le> off + len" using False u64_wrap_test [OF assms(7,8)] by simp
  then have fs: "off + len \<le> fileSize (e_meta e)" using False by simp
  obtain found st where pl: "rc_plan e off len buf account = (found, st)" by fastforce
  have r: "rc_rest now off len account (found, st) (p, pl_e st) = (ok, out, p1, e1)"
    using assms(9,11) False pl by (simp add: readCached_def Let_def)
  have same: "found \<Longrightarrow> e_meta (pl_e st) = e_meta e" "found \<Longrightarrow> e_dataFd (pl_e st) = e_dataFd e"
    using rc_plan_inv [OF assms(1-3) fs assms(4,9,10)] pl by (auto simp: plan_inv_def)
  have d: "data_of p (pl_e st) = data_of p e" "data_ino p (pl_e st) = data_ino p e" if found
    using same(2) [OF that] by (simp_all add: data_of_def data_ino_def)
  have "out = slice off len orig" if "ok"
  proof -
    have f: "found" using r that by (auto simp: rc_rest_def split: if_splits)
    note inv = rc_plan_inv [OF assms(1-3) fs assms(4,9,10) pl [unfolded eqTrueI [OF f]]]
    have S: "length out = len" "\<And>k. k < len \<Longrightarrow> out ! k = orig ! (off + k) \<or> (out ! k = data_of p e ! (off + k) \<and>
        bm_get (bitmap (e_meta e)) ((off + k) div P_of e))"
      using rc_rest_serves [OF inv assms(9) _ _ _ fs _ r [unfolded eqTrueI [OF f] eqTrueI [OF that]]]
        assms(1,5) same [OF f] d [OF f] by auto
    have o: "out ! k = orig ! (off + k)" if k: "k < len" for k
    proof (cases "out ! k = orig ! (off + k)")
      case F: False
      let ?i = "(off + k) div P_of e"
      have i: "?i < npages (e_meta e)" using page_of_byte [OF assms(1), of "off + k"] k fs by simp
      have "slice (?i * P_of e) (nbytes_of e ?i) (data_of p e) = slice (?i * P_of e) (nbytes_of e ?i) orig"
        using assms(6) S(2) [OF k] F i page_of_eq [OF assms(1) i assms(4)] by (auto simp: data_from_def)
      moreover have b: "?i * P_of e \<le> off + k" "off + k < ?i * P_of e + nbytes_of e ?i"
      proof -
        have "off + k \<in> {?i * P_of e..<?i * P_of e + nbytes_of e ?i}"
          unfolding page_bytes_range [OF assms(1) i] using k fs by simp
        then show "?i * P_of e \<le> off + k" "off + k < ?i * P_of e + nbytes_of e ?i" by simp_all
      qed
      moreover have "?i * P_of e + nbytes_of e ?i \<le> length orig"
        using page_end [OF assms(1) i] assms(4) by simp
      ultimately have "data_of p e ! (off + k) = orig ! (off + k)" by (rule slice_eq_nth)
      then show ?thesis using S(2) [OF k] by metis
    qed simp
    show ?thesis
      using S(1) o fs assms(4) by (intro nth_equalityI) (auto simp: slice_nth)
  qed
  moreover have "ok" if h: "hasRange e off len" and q: "io_sched (p_io p) = []"
  proof -
    have here: "\<forall>x. off \<le> x \<and> x < off + len \<longrightarrow> pageHere e (x div P_of e)" using hasRange_iff [OF assms(1,7,8)] h by simp
    then have "list_all (pageHere e) [off div P_of e..<Suc ((off + len - 1) div P_of e)]"
      using all_pages_of_range [OF meta_ok_pageSize [OF assms(1)] assms(9), of off "pageHere e"]
      by (auto simp: list_all_iff less_Suc_eq_le simp del: upt_Suc)
    then have f: "found"
      using pl rc_plan_found [of e off len buf account] by simp
    note inv = rc_plan_inv [OF assms(1-3) fs assms(4,9,10) pl [unfolded eqTrueI [OF f]]]
    have "fst (read_runs off (off + len) (pl_runs st) (pl_out st, no_disk, p, pl_e st))"
      using inv assms(1,4-6) q d [OF f] by (intro read_runs_passes [of _ _ orig]) (auto simp: plan_inv_def data_from_def)
    then show ?thesis using r f by (auto simp: rc_rest_def Let_def split: if_splits prod.splits)
  qed
  ultimately show ?thesis by blast
qed

lemma readCached_verified:
  assumes "meta_ok (e_meta e)" and "crcs_from orig (e_meta e)" and "staged_from orig e" and "length orig = fileSize (e_meta e)"
    and "off + len \<le> fileSize (e_meta e)" and "0 < len" and "length buf = len"
    and "rc_plan e off len buf account = (found, st)"
    and "meta_ok (e_meta e')" and "pageSize (e_meta e') = P_of e" and "fileSize (e_meta e') = fileSize (e_meta e)"
    and "data_ino p' e' \<noteq> None" and "rc_rest now off len account (found, st) (p', e') = (True, out, pe1)"
  shows "length out = len \<and> (\<forall>k<len. out ! k = orig ! (off + k) \<or>
    (out ! k = data_of p' e' ! (off + k) \<and> disk_page_ok orig (e_meta e) (data_of p' e') ((off + k) div P_of e)))"
proof -
  have f: "found" using assms(13) by (auto simp: rc_rest_def split: if_splits)
  note inv = rc_plan_inv [OF assms(1-3,5,4,6,7) assms(8) [unfolded eqTrueI [OF f]]]
  show ?thesis
    using rc_rest_serves [OF inv assms(6,9-11,5,12) assms(13) [unfolded eqTrueI [OF f]]] by auto
qed

section \<open>Properties\<close>

text \<open>A read that answers yes never delivers a wrong byte, even when other operations change the
  entry or the disk between its plan and its reads: every delivered byte is the
  origin's, or comes from a page of the data file whose checksum is that of the origin's page.\<close>

theorem readCached_bytes_verified:
  assumes "meta_ok (e_meta e)" and "crcs_from orig (e_meta e)" and "staged_from orig e" and "length orig = fileSize (e_meta e)"
    and "off + len \<le> fileSize (e_meta e)" and "0 < len" and "length buf = len"
    and "rc_plan e off len buf account = (found, st)"
    and "meta_ok (e_meta e')" and "pageSize (e_meta e') = P_of e" and "fileSize (e_meta e') = fileSize (e_meta e)"
    and "data_ino p' e' \<noteq> None" and "rc_rest now off len account (found, st) (p', e') = (True, out, pe1)"
  shows "length out = len \<and> (\<forall>k<len. out ! k = orig ! (off + k) \<or>
    (out ! k = data_of p' e' ! (off + k) \<and> disk_page_ok orig (e_meta e) (data_of p' e') ((off + k) div P_of e)))"
  by (rule readCached_verified [OF assms])

text \<open>An entry with one page staged, for the examples.\<close>

definition staged_sample :: entry where
  "staged_sample = sample_entry\<lparr>e_buf := [(0, new_page [1, 2, 3, 4] False)], e_bufBytes := 4\<rparr>"

definition sample_orig :: bytes where
  "sample_orig = [1, 2, 3, 4, 5, 6, 7, 8, 9, 10]"

definition open_proc :: proc where
  "open_proc = sample_proc\<lparr>p_io := \<lparr>io_names = [], io_inodes = [], io_fds = [(0, 7)], io_next = 8, io_sched = []\<rparr>\<rparr>"

lemma sample_facts:
  "meta_ok (e_meta staged_sample)" "crcs_from sample_orig (e_meta staged_sample)" "staged_from sample_orig staged_sample"
  "length sample_orig = fileSize (e_meta staged_sample)" "P_of staged_sample = 4" "data_ino open_proc staged_sample \<noteq> None"
  "data_from sample_orig open_proc staged_sample" "fileSize (e_meta staged_sample) = 10"
  "hasRange staged_sample 1 2" "io_sched (p_io open_proc) = []" "stage_ok staged_sample"
proof -
  show m: "meta_ok (e_meta staged_sample)" "length sample_orig = fileSize (e_meta staged_sample)" "P_of staged_sample = 4"
      "fileSize (e_meta staged_sample) = 10" "io_sched (p_io open_proc) = []" "data_ino open_proc staged_sample \<noteq> None"
    by (simp_all add: staged_sample_def sample_orig_def sample_meta open_proc_def data_ino_def sample_entry_def new_entry_def)
  have b: "\<not> bm_get (bm_reset 3) i" if "i < 3" for i
    using that bm.reset_ok [of 3] bm.get_pages [of i "bm_reset 3"] by simp
  show "crcs_from sample_orig (e_meta staged_sample)" "data_from sample_orig open_proc staged_sample"
    using b by (simp_all add: crcs_from_def data_from_def staged_sample_def sample_meta)
  have buf: "e_buf staged_sample = [(0, new_page [1, 2, 3, 4] False)]" "e_flushing staged_sample = []" "e_bufBytes staged_sample = 4"
      "e_specBytes staged_sample = 0" "npages (e_meta staged_sample) = 3"
    by (simp_all add: staged_sample_def sample_entry_def new_entry_def sample_meta)
  have "page_of 4 sample_orig 0 = [1, 2, 3, 4]" by (simp add: page_of_def slice_def sample_orig_def numeral_eq_Suc)
  then show "staged_from sample_orig staged_sample"
    by (auto simp: staged_from_def buf m(3) new_page_def split: if_splits)
  have "nbytes_of staged_sample 0 = 4" using pageBytes_eq [OF m(1), of 0] buf m by simp
  then show "stage_ok staged_sample"
    by (simp add: stage_ok_def buf sm_ok_def sm_sum_def spec_w_def real_w_def new_page_def)
  show "hasRange staged_sample 1 2"
    using hasRange_iff [OF m(1), of 1 2] m(3,4) by (auto simp: pageHere_def buf)
qed

theorem readCached_bytes_verified_witness:
  "\<exists>out pe1. rc_rest 0 1 2 True (rc_plan staged_sample 1 2 [0, 0] True) (open_proc, staged_sample) = (True, out, pe1) \<and>
     length out = 2"
proof -
  have f: "fst (rc_plan staged_sample 1 2 [0, 0] True)"
    using sample_facts(5) by (simp add: rc_plan_found pageHere_def staged_sample_def)
  then obtain st where st: "rc_plan staged_sample 1 2 [0, 0] True = (True, st)" by (metis fst_conv surj_pair)
  have inv: "plan_inv sample_orig staged_sample 1 2 (Suc ((1 + 2 - 1) div P_of staged_sample)) st"
    using rc_plan_inv [OF sample_facts(1-3) _ sample_facts(4) _ _ st] sample_facts(8) by simp
  have "fst (rc_rest 0 1 2 True (True, st) (open_proc, staged_sample))"
    using inv by (intro rc_rest_true read_runs_passes [OF sample_facts(1,6,10,4)] sample_facts(7)) (auto simp: plan_inv_def)
  then obtain out pe1 where r: "rc_rest 0 1 2 True (True, st) (open_proc, staged_sample) = (True, out, pe1)"
    by (metis fst_conv surj_pair)
  then show ?thesis
    using readCached_bytes_verified [OF sample_facts(1-4) _ _ _ st sample_facts(1) refl refl sample_facts(6) r] st sample_facts
    by auto
qed

text \<open>C5. The hit path returns exactly the origin's bytes of the range when the published pages
  on disk hold the origin's bytes; and with no fault from the file system it does
  succeed on every range for which \<^verbatim>\<open>hasRange\<close> answers yes.\<close>

theorem readCached_serves_origin:
  assumes "meta_ok (e_meta e)" and "crcs_from orig (e_meta e)" and "staged_from orig e" and "length orig = fileSize (e_meta e)"
    and "data_ino p e \<noteq> None" and "data_from orig p e" and "off < 2 ^ 64" and "len < 2 ^ 64" and "0 < len" and "length buf = len"
    and "readCached now (p, e) off len buf account = (ok, out, p1, e1)"
  shows "(ok \<longrightarrow> out = slice off len orig) \<and> (hasRange e off len \<and> io_sched (p_io p) = [] \<longrightarrow> ok)"
  by (rule readCached_hit [OF assms])

theorem readCached_serves_origin_witness:
  "fst (readCached 0 (open_proc, staged_sample) 1 2 [0, 0] True) \<and>
   fst (snd (readCached 0 (open_proc, staged_sample) 1 2 [0, 0] True)) = slice 1 2 sample_orig"
proof -
  obtain ok out p1 e1 where r: "readCached 0 (open_proc, staged_sample) 1 2 [0, 0] True = (ok, out, p1, e1)"
    by (metis prod_cases4)
  show ?thesis
    using readCached_serves_origin [OF sample_facts(1-4,6,7) _ _ _ _ r] sample_facts r by simp
qed

end
