(* ===== verification/Entry_Flush.thy ===== *)
theory Entry_Flush
  imports Entry_Read
begin

text \<open>
  The persist path of \<^verbatim>\<open>FileEntry\<close>: draining the fill buffer (\<open>flushBuffer\<close>), committing the sidecar
  (\<open>flushMeta\<close>), the immediate write path, pinning, releasing ranges, the scrub, and
  opening and closing an entry. Each function is cut where the sources release the entry
  mutex: \<open>fb_begin\<close>, \<open>fb_write\<close>, \<open>fb_publish\<close> for the drain; \<open>fm_begin\<close>, \<open>fm_commit\<close>, \<open>fm_finish\<close> for
  the commit. The file lock around a commit makes it one step with respect to other
  processes.
\<close>

unbundle bit_operations_syntax

definition u64_of_int :: "int \<Rightarrow> nat" where
  "u64_of_int i = nat (i mod 2 ^ 64)"

section \<open>Sidecar commits\<close>

definition adoptable :: "config \<Rightarrow> metaData \<Rightarrow> string \<Rightarrow> nat \<Rightarrow> nat \<Rightarrow> nat \<Rightarrow> nat \<Rightarrow> bool" where
  "adoptable cfg m k osize omtime ckind ocksum \<longleftrightarrow>
     key m = k \<and> fileSize m = osize \<and> validPageSize (pageSize m) \<and> npages m = length (pageCrcs m) \<and>
     (c_validate cfg = kSizeMtime \<longrightarrow> originMtime m = omtime) \<and>
     (c_validate cfg = kCksum \<and> ckind \<noteq> kCksumNone \<longrightarrow> cksumKind m = ckind \<and> originCksum m = ocksum)"

record snapshot =
  sn_meta :: metaData
  sn_sets :: pageBitmap
  sn_clears :: pageBitmap
  sn_pin :: bool

definition fm_begin :: "config \<Rightarrow> nat \<Rightarrow> bool \<Rightarrow> entry \<Rightarrow> (snapshot \<times> entry) option" where
  "fm_begin cfg now force e =
     (if \<not> e_dirty e then None
      else if \<not> force \<and> now < u64 (e_lastFlushS e + u64_of_int (c_metaFlushSeconds cfg)) then None
      else Some (\<lparr>sn_meta = e_meta e, sn_sets = e_setSince e, sn_clears = e_clearedSince e, sn_pin = e_pinTouched e\<rparr>,
                 e\<lparr>e_setSince := bm_clearAll (e_setSince e), e_clearedSince := bm_clearAll (e_clearedSince e),
                   e_pinTouched := False, e_dirty := False, e_lastFlushS := now\<rparr>))"

definition merge_page :: "snapshot \<Rightarrow> nat \<Rightarrow> metaData \<Rightarrow> metaData" where
  "merge_page sn i m =
     (if bm_get (sn_clears sn) i then m\<lparr>bitmap := bm_clear (bitmap m) i, pageCrcs := (pageCrcs m)[i := 0]\<rparr>
      else if bm_get (sn_sets sn) i
      then m\<lparr>bitmap := bm_set (bitmap m) i, pageCrcs := (pageCrcs m)[i := pageCrcs (sn_meta sn) ! i]\<rparr>
      else m)"

definition pin_from :: "u32 \<Rightarrow> u32 \<Rightarrow> u32" where
  "pin_from f g = (f AND NOT kFlagPinned) OR (g AND kFlagPinned)"

text \<open>The complete flag follows the bitmap.\<close>

definition fix_complete :: "metaData \<Rightarrow> metaData" where
  "fix_complete m =
     (let f = flags m AND NOT kFlagComplete; n = npages m
      in m\<lparr>flags := (if n \<noteq> 0 \<and> pb_count (bitmap m) = n then f OR kFlagComplete else f)\<rparr>)"

definition merge_image :: "snapshot \<Rightarrow> metaData \<Rightarrow> metaData" where
  "merge_image sn disk =
     (let out1 = fold (merge_page sn) [0..<npages disk] disk;
          out2 = (if sn_pin sn then out1\<lparr>flags := pin_from (flags out1) (flags (sn_meta sn))\<rparr> else out1);
          out3 = fix_complete out2
      in out3\<lparr>atime := max (atime out3) (atime (sn_meta sn))\<rparr>)"

text \<open>\<open>None\<close>: the data file has no name any more, nothing is stored.\<close>

definition fm_commit :: "config \<Rightarrow> snapshot \<Rightarrow> proc \<Rightarrow> entry \<Rightarrow> (int \<times> bool \<times> metaData) option \<times> proc" where
  "fm_commit cfg sn p e =
     (let io1 = snd (io_call (p_io p)) in
      case io_fstat_nlink io1 (e_dataFd e) of (nl, io2) \<Rightarrow>
        if nl = Inr 0 then (None, p\<lparr>p_io := snd (io_call io2)\<rparr>)
        else case meta_load io2 (e_metaPath e) of (disk, io3) \<Rightarrow>
          let s = sn_meta sn;
              usable = (\<lambda>d. pageSize d = pageSize s \<and>
                 adoptable cfg d (e_key e) (fileSize s) (originMtime s) (cksumKind s) (originCksum s));
              (merged, out) = (case disk of Some d \<Rightarrow> if usable d then (True, merge_image sn d) else (False, s)
                               | None \<Rightarrow> (False, s))
          in case meta_store io3 (e_metaPath e) out (c_fsync cfg = kAll) of (rc, io4) \<Rightarrow>
               (Some (rc, merged, out), p\<lparr>p_io := snd (io_call io4)\<rparr>))"

definition rearm_page :: "snapshot \<Rightarrow> nat \<Rightarrow> entry \<Rightarrow> entry" where
  "rearm_page sn i e =
     (let e1 = (if bm_get (sn_sets sn) i \<and> \<not> bm_get (e_clearedSince e) i
                then e\<lparr>e_setSince := bm_set (e_setSince e) i\<rparr> else e)
      in if bm_get (sn_clears sn) i \<and> \<not> bm_get (e_setSince e1) i
         then e1\<lparr>e_clearedSince := bm_set (e_clearedSince e1) i\<rparr> else e1)"

definition adopt_page :: "metaData \<Rightarrow> nat \<Rightarrow> entry \<Rightarrow> entry" where
  "adopt_page out i e =
     (if bm_get (e_setSince e) i \<or> bm_get (e_clearedSince e) i then e
      else let m = e_meta e in
        if bm_get (bitmap out) i
        then e\<lparr>e_meta := m\<lparr>bitmap := bm_set (bitmap m) i, pageCrcs := (pageCrcs m)[i := pageCrcs out ! i]\<rparr>\<rparr>
        else e\<lparr>e_meta := m\<lparr>bitmap := bm_clear (bitmap m) i, pageCrcs := (pageCrcs m)[i := 0]\<rparr>\<rparr>)"

definition bump_failopen :: "proc \<Rightarrow> proc" where
  "bump_failopen p = p\<lparr>p_stats := (p_stats p)\<lparr>failopenEvents := failopenEvents (p_stats p) + 1\<rparr>\<rparr>"

definition fm_finish :: "snapshot \<Rightarrow> int \<times> bool \<times> metaData \<Rightarrow> proc \<times> entry \<Rightarrow> proc \<times> entry" where
  "fm_finish sn res pe =
     (case (res, pe) of ((rc, merged, out), (p, e)) \<Rightarrow>
        if rc < 0
        then (bump_failopen p,
              (fold (rearm_page sn) [0..<npages (e_meta e)] (e\<lparr>e_dirty := True\<rparr>))
                \<lparr>e_pinTouched := e_pinTouched e \<or> sn_pin sn\<rparr>)
        else if \<not> merged then (p, e)
        else
          let e1 = fold (adopt_page out) [0..<npages (e_meta e)] e;
              m1 = e_meta e1;
              m2 = (if e_pinTouched e1 then m1 else m1\<lparr>flags := pin_from (flags m1) (flags out)\<rparr>);
              m3 = fix_complete m2
          in (p, e1\<lparr>e_meta := m3\<lparr>atime := max (atime m3) (atime out)\<rparr>\<rparr>))"

definition flushMeta :: "config \<Rightarrow> nat \<Rightarrow> bool \<Rightarrow> proc \<times> entry \<Rightarrow> proc \<times> entry" where
  "flushMeta cfg now force pe =
     (case fm_begin cfg now force (snd pe) of
        None \<Rightarrow> pe
      | Some (sn, e1) \<Rightarrow>
          (case fm_commit cfg sn (fst pe) e1 of
             (None, p2) \<Rightarrow> (p2, e1)
           | (Some res, p2) \<Rightarrow> fm_finish sn res (p2, e1)))"

section \<open>Draining the fill buffer\<close>

text \<open>A forced drain waits for one in progress, so it starts only when none is; an unforced
  one returns at once. The result: the bytes of the snapshot and whether a cap forced
  the drain.\<close>

definition fb_begin :: "config \<Rightarrow> nat \<Rightarrow> bool \<Rightarrow> proc \<Rightarrow> entry \<Rightarrow> (u64w \<times> bool \<times> entry) option" where
  "fb_begin cfg now force p e =
     (if e_flushInProgress e then None
      else if e_bufBytes e = 0 then None
      else
        let capB = word_of_int (c_fillBufferMb cfg) * 2 ^ 20 :: u64w;
            totalCapB = word_of_int (c_fillBufferTotalMb cfg) * 2 ^ 20 :: u64w;
            capStall = (\<not> force \<and> (e_bufBytes e \<ge> capB \<or> g_bufTotal p \<ge> totalCapB))
        in if \<not> force \<and> \<not> capStall \<and> now < u64 (e_lastBufFlushS e + u64_of_int (c_metaFlushSeconds cfg)) then None
           else Some (e_bufBytes e, capStall,
                  e\<lparr>e_flushing := filter (\<lambda>x. \<not> bp_spec (snd x)) (e_buf e),
                    e_buf := filter (\<lambda>x. bp_spec (snd x)) (e_buf e),
                    e_bufBytes := 0, e_flushInProgress := True\<rparr>))"

definition kMaxRun :: nat where "kMaxRun = 8 * 2 ^ 20"

text \<open>The pages of one write: consecutive, until the run reaches 8 MiB.\<close>

fun take_run :: "metaData \<Rightarrow> nat \<Rightarrow> bytes \<Rightarrow> (nat \<times> u32) list \<Rightarrow> stage \<Rightarrow> bytes \<times> (nat \<times> u32) list \<times> stage" where
  "take_run m nxt run pages [] = (run, pages, [])"
| "take_run m nxt run pages ((i, b) # st) =
     (if i = nxt \<and> length run < kMaxRun
      then take_run m (Suc nxt) (run @ take (pageBytes m i) (bp_data b)) (pages @ [(i, bp_crc b)]) st
      else (run, pages, (i, b) # st))"

lemma take_run_rest: "take_run m nxt run pages st = (r, ps, rest) \<Longrightarrow> length rest \<le> length st"
  by (induction m nxt run pages st rule: take_run.induct) (auto split: if_splits)

definition count_run :: "nat \<Rightarrow> proc \<Rightarrow> proc" where
  "count_run n p = p\<lparr>p_stats := (p_stats p)\<lparr>flushRuns := flushRuns (p_stats p) + 1,
     flushRunBytes := flushRunBytes (p_stats p) + n\<rparr>\<rparr>"

function fb_write :: "metaData \<Rightarrow> nat \<Rightarrow> stage \<Rightarrow> proc \<Rightarrow> (nat \<times> u32) list \<Rightarrow> nat \<Rightarrow> proc \<times> (nat \<times> u32) list \<times> nat" where
  "fb_write m fd [] p published written = (p, published, written)"
| "fb_write m fd ((i, b) # st) p published written =
     (case take_run m i [] [] ((i, b) # st) of (run, pages, rest) \<Rightarrow>
        case pwriteFull (p_io p) fd run (i * pageSize m) 0 of (w, io1) \<Rightarrow>
          let p1 = p\<lparr>p_io := io1\<rparr> in
          if w \<noteq> int (length run) then (bump_failopen p1, published, written)
          else fb_write m fd rest (count_run (length run) p1) (published @ pages) (written + length run))"
  by pat_completeness auto
termination
  by (relation "measure (\<lambda>(m, fd, st, p, pub, w). length st)") (auto simp: kMaxRun_def less_Suc_eq_le dest: take_run_rest [OF sym])

declare fb_write.simps(2) [simp del]

definition fb_sync :: "config \<Rightarrow> nat \<Rightarrow> proc \<times> (nat \<times> u32) list \<times> nat \<Rightarrow> proc \<times> (nat \<times> u32) list \<times> nat" where
  "fb_sync cfg fd r =
     (case r of (p, published, written) \<Rightarrow>
        if published \<noteq> [] \<and> c_fsync cfg \<noteq> kOff
        then (case io_fdatasync (p_io p) fd of (rc, io1) \<Rightarrow>
               if rc < 0 then (bump_failopen (p\<lparr>p_io := io1\<rparr>), [], 0) else (p\<lparr>p_io := io1\<rparr>, published, written))
        else r)"

definition set_complete :: "entry \<Rightarrow> entry" where
  "set_complete e =
     (if pb_count (bitmap (e_meta e)) = npages (e_meta e)
      then e\<lparr>e_meta := (e_meta e)\<lparr>flags := flags (e_meta e) OR kFlagComplete\<rparr>\<rparr> else e)"

definition publish_all :: "(nat \<times> u32) list \<Rightarrow> entry \<Rightarrow> entry" where
  "publish_all published e = fold (\<lambda>(pg, crc) e. publishPage e pg crc) published e"

definition fb_publish :: "nat \<Rightarrow> (nat \<times> u32) list \<Rightarrow> entry \<Rightarrow> entry" where
  "fb_publish now published e =
     (let e1 = publish_all published e;
          e2 = (if published \<noteq> [] then set_complete (e1\<lparr>e_dirty := True\<rparr>) else e1)
      in e2\<lparr>e_flushing := [], e_flushInProgress := False, e_lastBufFlushS := now\<rparr>)"

text \<open>The hook \<^verbatim>\<open>onPersist(bytes, allowEvict)\<close> is reported as a value.\<close>

type_synonym persist = "(nat \<times> bool) option"

definition flushBuffer :: "config \<Rightarrow> nat \<Rightarrow> bool \<Rightarrow> proc \<times> entry \<Rightarrow> persist \<times> proc \<times> entry" where
  "flushBuffer cfg now force pe =
     (case fb_begin cfg now force (fst pe) (snd pe) of
        None \<Rightarrow> (None, pe)
      | Some (snapBytes, capStall, e1) \<Rightarrow>
          (case fb_sync cfg (e_dataFd e1) (fb_write (e_meta e1) (e_dataFd e1) (e_flushing e1) (fst pe) [] 0) of
             (p1, published, written) \<Rightarrow>
               let e2 = fb_publish now published e1;
                   s = p_stats p1;
                   p2 = p1\<lparr>g_bufTotal := g_bufTotal p1 - snapBytes,
                     p_stats := s\<lparr>pageWrites := pageWrites s + length published,
                                  bufferStalls := bufferStalls s + (if capStall then 1 else 0)\<rparr>\<rparr>
               in (if written \<noteq> 0 then Some (written, \<not> e_closing e2) else None, flushMeta cfg now force (p2, e2))))"

definition flushAll :: "config \<Rightarrow> nat \<Rightarrow> proc \<times> entry \<Rightarrow> persist \<times> proc \<times> entry" where
  "flushAll cfg now pe = (case flushBuffer cfg now True pe of (h, pe1) \<Rightarrow> (h, flushMeta cfg now True pe1))"

definition checkpoint :: "config \<Rightarrow> nat \<Rightarrow> proc \<times> entry \<Rightarrow> persist \<times> proc \<times> entry" where
  "checkpoint cfg now pe =
     (let e = snd pe in
      if e_bufBytes e > 0 \<and> \<not> e_flushInProgress e \<and>
         now \<ge> u64 (e_lastBufFlushS e + u64_of_int (c_metaFlushSeconds cfg))
      then flushBuffer cfg now True pe else (None, flushMeta cfg now False pe))"

section \<open>Fills\<close>

fun direct_pages ::
  "nat \<Rightarrow> bytes \<Rightarrow> nat list \<Rightarrow> proc \<Rightarrow> entry \<Rightarrow> (nat \<times> u32) list \<Rightarrow> nat \<Rightarrow> proc \<times> (nat \<times> u32) list \<times> nat" where
  "direct_pages off inp [] p e don written = (p, don, written)"
| "direct_pages off inp (i # is) p e don written =
     (let n = nbytes_of e i; xs = slice (i * P_of e - off) n inp in
      if bm_get (bitmap (e_meta e)) i then direct_pages off inp is p e don written
      else case pwriteFull (p_io p) (e_dataFd e) xs (i * P_of e) 0 of (w, io1) \<Rightarrow>
        if w \<noteq> int n then (bump_failopen (p\<lparr>p_io := io1\<rparr>), don, written)
        else direct_pages off inp is (p\<lparr>p_io := io1\<rparr>) e (don @ [(i, crc32c xs)]) (written + n))"

definition direct_publish :: "(nat \<times> u32) list \<Rightarrow> entry \<Rightarrow> entry" where
  "direct_publish don e = set_complete ((publish_all don e)\<lparr>e_dirty := True\<rparr>)"

definition writePagesDirect ::
  "config \<Rightarrow> nat \<Rightarrow> proc \<times> entry \<Rightarrow> nat \<Rightarrow> nat \<Rightarrow> bytes \<Rightarrow> persist \<times> proc \<times> entry" where
  "writePagesDirect cfg now pe off len inp =
     (let (p, e) = pe; stop = min (u64 (off + len)) (fileSize (e_meta e)) in
      if len = 0 \<or> off \<ge> stop then (None, pe)
      else case direct_pages off inp (loop_pages e off stop) p e [] 0 of (p1, don, written) \<Rightarrow>
        if don = [] then (None, p1, e)
        else case fb_sync cfg (e_dataFd e) (p1, don, written) of (p2, don2, _) \<Rightarrow>
          if don2 = [] then (None, p2, e)
          else
            let e1 = direct_publish don e;
                s = p_stats p2;
                p3 = p2\<lparr>p_stats := s\<lparr>pageWrites := pageWrites s + length don\<rparr>\<rparr>;
                e2 = touchAtime now (e1\<lparr>e_obs := (e_obs e1)\<lparr>o_wireBytes := o_wireBytes (e_obs e1) + written\<rparr>\<rparr>)
            in (Some (written, True), flushMeta cfg now False (p3, e2)))"

definition writePages ::
  "config \<Rightarrow> nat \<Rightarrow> proc \<times> entry \<Rightarrow> nat \<Rightarrow> nat \<Rightarrow> bytes \<Rightarrow> persist \<times> proc \<times> entry" where
  "writePages cfg now pe off len inp =
     (if c_fillBufferMb cfg \<le> 0 then writePagesDirect cfg now pe off len inp
      else let (p, e) = pe; stop = min (u64 (off + len)) (fileSize (e_meta e)) in
        if len = 0 \<or> off \<ge> stop then (None, pe)
        else case fold (fill_page off inp) (loop_pages e off stop) (e, 0, 0) of (e1, staged, covered) \<Rightarrow>
          let s = p_stats p;
              p1 = (if covered \<noteq> 0
                    then p\<lparr>g_specTotal := g_specTotal p - word_of_nat covered,
                           g_bufTotal := g_bufTotal p + word_of_nat covered,
                           p_stats := s\<lparr>prefetchServedBytes := prefetchServedBytes s + covered,
                                        prefetchRefetchedBytes := prefetchRefetchedBytes s + covered\<rparr>\<rparr> else p);
              e2 = e1\<lparr>e_obs := (e_obs e1)\<lparr>o_prefetchServed := o_prefetchServed (e_obs e1) + covered\<rparr>\<rparr>
          in if staged = 0 then (None, p1, e2)
             else flushBuffer cfg now False
                    (p1\<lparr>g_bufTotal := g_bufTotal p1 + word_of_nat staged\<rparr>,
                     touchAtime now (e2\<lparr>e_obs := (e_obs e2)\<lparr>o_wireBytes := o_wireBytes (e_obs e2) + staged\<rparr>\<rparr>)))"

section \<open>Pins, releases, scrub\<close>

definition pinned :: "entry \<Rightarrow> bool" where
  "pinned e \<longleftrightarrow> flags (e_meta e) AND kFlagPinned \<noteq> 0"

definition setPinned :: "config \<Rightarrow> nat \<Rightarrow> bool \<Rightarrow> proc \<times> entry \<Rightarrow> proc \<times> entry" where
  "setPinned cfg now on pe =
     (let e = snd pe;
          f = (if on then flags (e_meta e) OR kFlagPinned else flags (e_meta e) AND NOT kFlagPinned)
      in flushMeta cfg now True
           (fst pe, e\<lparr>e_meta := (e_meta e)\<lparr>flags := f\<rparr>, e_pinTouched := True, e_dirty := True\<rparr>))"

record release =
  rl_p :: proc
  rl_e :: entry
  rl_any :: bool
  rl_dropped :: nat
  rl_spans :: "(nat \<times> nat \<times> nat) list"

text \<open>One page of a released range: a staged copy leaves its pool, a present page is retracted;
  the result counts the bytes that were resident.\<close>

definition release_page :: "nat \<Rightarrow> release \<times> nat \<Rightarrow> release \<times> nat" where
  "release_page i s =
     (case s of (r, res) \<Rightarrow>
        let p = rl_p r; e = rl_e r; nb = nbytes_of e i;
            r1 = (case map_of (e_buf e) i of
                    None \<Rightarrow> r
                  | Some b \<Rightarrow>
                      if bp_spec b
                      then r\<lparr>rl_e := e\<lparr>e_specBytes := e_specBytes e - word_of_nat nb, e_buf := sm_erase i (e_buf e)\<rparr>,
                             rl_p := p\<lparr>g_specTotal := g_specTotal p - word_of_nat nb\<rparr>,
                             rl_dropped := rl_dropped r + (if bp_touched b then 0 else nb)\<rparr>
                      else r\<lparr>rl_e := e\<lparr>e_bufBytes := e_bufBytes e - word_of_nat nb, e_buf := sm_erase i (e_buf e)\<rparr>,
                             rl_p := p\<lparr>g_bufTotal := g_bufTotal p - word_of_nat nb\<rparr>\<rparr>)
        in if \<not> bm_get (bitmap (e_meta (rl_e r1))) i then (r1, res)
           else (r1\<lparr>rl_e := retractPage (rl_e r1) i, rl_any := True\<rparr>, res + nb))"

definition release_range :: "nat \<times> nat \<Rightarrow> release \<Rightarrow> release" where
  "release_range rng r =
     (case rng of (off, len) \<Rightarrow>
        let m = e_meta (rl_e r); P = pageSize m in
        if len = 0 \<or> u64 (off + len) < off \<or> u64 (off + len) > fileSize m then r
        else let first = u64 (off + P - 1) div P; lastEnd = u64 (off + len) div P in
          if first \<ge> lastEnd then r
          else case fold release_page [first..<lastEnd] (r, 0) of (r1, res) \<Rightarrow>
            r1\<lparr>rl_e := drop_complete (rl_e r1),
               rl_spans := rl_spans r1 @ [(first * P, (lastEnd - first) * P, res)]\<rparr>)"

definition punch_span :: "nat \<Rightarrow> nat \<times> nat \<times> nat \<Rightarrow> io \<times> nat \<Rightarrow> io \<times> nat" where
  "punch_span fd sp s =
     (case (sp, s) of ((off, len, res), (io, punched)) \<Rightarrow>
        case io_punchHole io fd off len of (rc, io1) \<Rightarrow> (io1, if rc = 0 then punched + res else punched))"

definition release_begin :: "proc \<times> entry \<Rightarrow> (nat \<times> nat) list \<Rightarrow> release" where
  "release_begin pe ranges =
     (let r = fold release_range ranges
                \<lparr>rl_p = fst pe, rl_e = snd pe, rl_any = False, rl_dropped = 0, rl_spans = []\<rparr>
      in if rl_any r then r\<lparr>rl_e := (rl_e r)\<lparr>e_dirty := True\<rparr>\<rparr> else r)"

definition releaseRanges :: "config \<Rightarrow> nat \<Rightarrow> proc \<times> entry \<Rightarrow> (nat \<times> nat) list \<Rightarrow> nat \<times> proc \<times> entry" where
  "releaseRanges cfg now pe ranges =
     (let r = release_begin pe ranges;
          pe1 = (if rl_dropped r \<noteq> 0 then noteSpeculativeDropped (rl_p r) (rl_e r) (rl_dropped r) else (rl_p r, rl_e r))
      in if rl_spans r = [] then (0, pe1)
         else
           let (p2, e2) = flushMeta cfg now True pe1;
               (io3, punched) = fold (punch_span (e_dataFd e2)) (rl_spans r) (p_io p2, 0)
           in (punched, p2\<lparr>p_io := io3\<rparr>, e2))"

definition scrub_page :: "nat \<Rightarrow> nat \<times> nat \<times> proc \<times> entry \<Rightarrow> nat \<times> nat \<times> proc \<times> entry" where
  "scrub_page i s =
     (case s of (checked, bad, p, e) \<Rightarrow>
        if \<not> bm_get (bitmap (e_meta e)) i then s
        else case readVerifyRun i i [pageCrcs (e_meta e) ! i] (p, e) of (ok, xs, pe1) \<Rightarrow>
          (checked + 1, if ok then bad else bad + 1, pe1))"

definition verifyAll :: "config \<Rightarrow> nat \<Rightarrow> proc \<times> entry \<Rightarrow> nat \<times> nat \<times> proc \<times> entry" where
  "verifyAll cfg now pe =
     (case fold scrub_page [0..<npages (e_meta (snd pe))] (0, 0, pe) of (checked, bad, pe1) \<Rightarrow>
        (checked, bad, if bad \<noteq> 0 then flushMeta cfg now True pe1 else pe1))"

section \<open>Opening and closing\<close>

definition bump_stat :: "(stats \<Rightarrow> stats) \<Rightarrow> proc \<Rightarrow> proc" where
  "bump_stat f p = p\<lparr>p_stats := f (p_stats p)\<rparr>"

text \<open>The fresh start, under the exclusive lock: \<open>None\<close> when the data file cannot be sized.\<close>

definition fresh_start ::
  "config \<Rightarrow> nat \<Rightarrow> string \<Rightarrow> string \<Rightarrow> nat \<Rightarrow> nat \<Rightarrow> nat \<Rightarrow> nat \<Rightarrow> nat \<Rightarrow> bool \<Rightarrow> proc \<Rightarrow> (metaData \<times> bool) option \<times> proc" where
  "fresh_start cfg now k mpath fd osize omtime ckind ocksum stale p =
     (let p1 = (if stale then bump_stat (\<lambda>s. s\<lparr>validationsFailed := validationsFailed s + 1\<rparr>) p
                else case io_stat (p_io p) mpath of
                  (Inr _, io1) \<Rightarrow> bump_stat (\<lambda>s. s\<lparr>metaCorrupt := metaCorrupt s + 1\<rparr>) (p\<lparr>p_io := io1\<rparr>)
                | (Inl _, io1) \<Rightarrow> p\<lparr>p_io := io1\<rparr>)
      in case io_ftruncate (p_io p1) fd 0 of (rc1, io2) \<Rightarrow>
        if rc1 < 0 then (None, p1\<lparr>p_io := snd (io_close (snd (io_call io2)) fd)\<rparr>)
        else case io_ftruncate io2 fd osize of (rc2, io3) \<Rightarrow>
          if rc2 < 0 then (None, p1\<lparr>p_io := snd (io_close (snd (io_call io3)) fd)\<rparr>)
          else
            let m = (fresh k osize (c_pageSize cfg) now)\<lparr>originMtime := omtime, cksumKind := ckind, originCksum := ocksum\<rparr>
            in case meta_store io3 mpath m (c_fsync cfg = kAll) of (rc3, io4) \<Rightarrow>
              if rc3 \<noteq> 0 then (Some (m, True), bump_failopen (p1\<lparr>p_io := io4\<rparr>))
              else (Some (m, False), p1\<lparr>p_io := io4\<rparr>))"

text \<open>The second look at the sidecar, under the exclusive lock: adopt it or start fresh.\<close>

definition open_exclusive ::
  "config \<Rightarrow> nat \<Rightarrow> string \<Rightarrow> string \<Rightarrow> nat \<Rightarrow> nat \<Rightarrow> nat \<Rightarrow> nat \<Rightarrow> nat \<Rightarrow> proc \<Rightarrow> (metaData \<times> bool) option \<times> proc" where
  "open_exclusive cfg now k mpath fd osize omtime ckind ocksum p =
     (let start = (\<lambda>stale p. case fresh_start cfg now k mpath fd osize omtime ckind ocksum stale p of
            (None, p1) \<Rightarrow> (None, p1)
          | (Some r, p1) \<Rightarrow> (Some r, p1\<lparr>p_io := snd (io_call (p_io p1))\<rparr>))
      in case meta_load (snd (io_call (p_io p))) mpath of
           (Some m, io1) \<Rightarrow>
             if adoptable cfg m k osize omtime ckind ocksum
             then (Some (m, False), p\<lparr>p_io := snd (io_call io1)\<rparr>) else start True (p\<lparr>p_io := io1\<rparr>)
         | (None, io1) \<Rightarrow> start False (p\<lparr>p_io := io1\<rparr>))"

definition entry_open ::
  "config \<Rightarrow> nat \<Rightarrow> string \<Rightarrow> string \<Rightarrow> string \<Rightarrow> nat \<Rightarrow> nat \<Rightarrow> nat \<Rightarrow> nat \<Rightarrow> proc \<Rightarrow> entry option \<times> proc" where
  "entry_open cfg now k dpath mpath osize omtime ckind ocksum p =
     (case io_call (p_io p) of (mk, io0) \<Rightarrow>
        if mk < 0 then (None, p\<lparr>p_io := io0\<rparr>)
        else case io_open io0 dpath True False of (fd, io1) \<Rightarrow>
          if fd < 0 then (None, p\<lparr>p_io := io1\<rparr>)
          else case meta_load (snd (io_call io1)) mpath of (loaded, io3) \<Rightarrow>
            let p4 = p\<lparr>p_io := snd (io_call io3)\<rparr>;
                look = (\<lambda>_ :: unit. open_exclusive cfg now k mpath (nat fd) osize omtime ckind ocksum p4);
                found = (case loaded of
                   Some m \<Rightarrow> if adoptable cfg m k osize omtime ckind ocksum then (Some (m, False), p4) else look ()
                 | None \<Rightarrow> look ())
            in case found of
                 (None, p5) \<Rightarrow> (None, p5)
               | (Some (m, dirty), p5) \<Rightarrow>
                   (Some (new_entry k mpath (nat fd) m dirty now), bump_stat (\<lambda>s. s\<lparr>opens := opens s + 1\<rparr>) p5))"

text \<open>The destructor: predictions are dropped, everything real is flushed, the descriptor closed,
  and bytes that a failed flush left staged leave the process-wide pool.\<close>

definition entry_close :: "config \<Rightarrow> nat \<Rightarrow> proc \<times> entry \<Rightarrow> persist \<times> proc" where
  "entry_close cfg now pe =
     (case dropAllSpeculative (fst pe) ((snd pe)\<lparr>e_closing := True\<rparr>) of (n, p1, e1) \<Rightarrow>
        case flushAll cfg now (p1, e1) of (h, p2, e2) \<Rightarrow>
          (h, p2\<lparr>p_io := snd (io_close (p_io p2) (e_dataFd e2)), g_bufTotal := g_bufTotal p2 - e_bufBytes e2\<rparr>))"

end
