(* ===== verification/Meta_Frame.thy ===== *)
theory Meta_Frame
  imports Meta_File
begin

text \<open>
  What sidecar loads and stores leave alone: the data file the entry holds open. The
  invariant \<open>data_held\<close> says that a descriptor denotes an inode which neither the sidecar's name
  nor its scratch name denotes, and that only the scratch name denotes the scratch inode. Every call
  a load or a store makes keeps it and keeps the bytes of the held inode.
\<close>

definition data_held :: "string \<Rightarrow> nat \<Rightarrow> nat \<Rightarrow> io \<Rightarrow> bool" where
  "data_held path fd i io \<longleftrightarrow> io_ok io \<and> tmp_private io path \<and> map_of (io_fds io) fd = Some i \<and>
     map_of (io_names io) (path @ ''.tmp'') \<noteq> Some i \<and> map_of (io_names io) path \<noteq> Some i"

definition keeps :: "string \<Rightarrow> nat \<Rightarrow> nat \<Rightarrow> io \<Rightarrow> io \<Rightarrow> bool" where
  "keeps path fd i io io1 \<longleftrightarrow> (data_held path fd i io \<longrightarrow> data_held path fd i io1 \<and> content io1 i = content io i)"

lemma keeps_refl [simp]: "keeps path fd i io io"
  by (simp add: keeps_def)

lemma keeps_trans [trans]: "keeps path fd i a b \<Longrightarrow> keeps path fd i b c \<Longrightarrow> keeps path fd i a c"
  by (simp add: keeps_def)

lemma tmp_private_alt:
  "tmp_private io path \<longleftrightarrow> (\<forall>j. map_of (io_names io) (path @ ''.tmp'') = Some j \<longrightarrow>
     (\<forall>e\<in>set (io_names io). snd e = j \<longrightarrow> fst e = path @ ''.tmp''))"
  by (auto simp: tmp_private_def list_all_iff split: option.split)

lemma io_same_keeps: "io_same a b \<Longrightarrow> keeps path fd i a b"
  using io_sameD [of a b] io_same_ok [of a b] by (simp add: keeps_def data_held_def tmp_private_alt)

lemma held_fd_bound: "data_held path fd i io \<Longrightarrow> fd < io_next io \<and> i < io_next io"
  by (auto simp: data_held_def io_ok_def dest!: map_of_SomeD [of "io_fds io"])

text \<open>Names and descriptors after an update of their lists.\<close>

lemma set_update_alist: "x \<in> set (AList.update k v xs) \<Longrightarrow> x = (k, v) \<or> x \<in> set xs"
  by (induction xs) (auto split: if_splits)

lemma set_delete_alist: "x \<in> set (AList.delete k xs) \<longleftrightarrow> x \<in> set xs \<and> fst x \<noteq> k"
  by (auto simp: AList.delete_eq)

lemma open_keeps:
  assumes "io_open io p cr tr = (r, io1)" and "p = path @ ''.tmp'' \<or> \<not> cr \<and> \<not> tr"
  shows "keeps path fd i io io1 \<and> (0 \<le> r \<and> data_held path fd i io \<longrightarrow> nat r \<noteq> fd)"
proof -
  obtain oc io2 where o: "next_outcome io = (oc, io2)" by fastforce
  note same = next_outcome_same [OF o]
  have k: "keeps path fd i io io2" using io_same_keeps [OF same] .
  have ok: "io_ok io3" if "io_ok io2" "io_fds io3 = AList.update (io_next io2) j (io_fds io2)" "io_next io3 = io_next io2 + 1"
      "j \<le> io_next io2" "io_names io3 = io_names io2 \<or> io_names io3 = AList.update p (io_next io2) (io_names io2)" for io3 j
    using that by (fastforce simp: io_ok_def dest: set_update_alist)
  show ?thesis
  proof (cases "(\<exists>e. oc = Err e) \<or> (map_of (io_names io2) p = None \<and> \<not> cr)")
    case True
    then have "io1 = io2 \<and> r < 0" using assms o by (auto simp: io_open_def errval_def errno_defs split: outcome.splits if_splits)
    with k show ?thesis by simp
  next
    case False
    have "keeps path fd i io2 io1 \<and> (0 \<le> r \<and> data_held path fd i io2 \<longrightarrow> nat r \<noteq> fd)"
    proof (cases "map_of (io_names io2) p")
      case (Some j)
      then have io1: "io1 = (let io3 = if tr then set_content io2 j [] else io2
          in io3\<lparr>io_fds := AList.update (io_next io2) j (io_fds io2), io_next := io_next io2 + 1\<rparr>)" and r: "r = int (io_next io2)"
        using assms(1) o False by (auto simp: io_open_def Let_def split: outcome.splits)
      have "i \<noteq> j" if "data_held path fd i io2" "tr" using that assms(2) Some by (auto simp: data_held_def)
      moreover have "j < io_next io2" if "data_held path fd i io2" using that io_ok_names [of io2 p j] Some by (simp add: data_held_def)
      ultimately show ?thesis
        using held_fd_bound [of path fd i io2] ok [of io1 j] r
        by (auto simp: keeps_def data_held_def io1 Let_def AList.update_conv' map_of_content tmp_private_alt)
    next
      case None
      then have p: "p = path @ ''.tmp''" and
        io1: "io1 = (set_content io2 (io_next io2) [])\<lparr>io_names := AList.update p (io_next io2) (io_names io2),
                          io_fds := AList.update (io_next io2) (io_next io2) (io_fds io2), io_next := io_next io2 + 1\<rparr>"
        and r: "r = int (io_next io2)"
        using assms False o by (auto simp: io_open_def Let_def split: outcome.splits)
      have "io_ok io2 \<Longrightarrow> (a, io_next io2) \<notin> set (io_names io2)" for a by (auto simp: io_ok_def)
      then show ?thesis
        using held_fd_bound [of path fd i io2] ok [of io1 "io_next io2"] r
        by (auto simp: keeps_def data_held_def io1 AList.update_conv' map_of_content tmp_private_alt p dest!: set_update_alist)
    qed
    then show ?thesis using k io_same_keeps [OF same, of path fd i] by (auto simp: keeps_def)
  qed
qed

lemma close_keeps:
  assumes "fd' \<noteq> fd"
  shows "keeps path fd i io (snd (io_close io fd'))"
proof -
  obtain oc io2 where o: "next_outcome io = (oc, io2)" by fastforce
  have "keeps path fd i io2 (io2\<lparr>io_fds := AList.delete fd' (io_fds io2)\<rparr>)"
    using assms by (auto simp: keeps_def data_held_def io_ok_def tmp_private_alt AList.delete_conv' set_delete_alist)
  then show ?thesis
    using o keeps_trans [OF io_same_keeps [OF next_outcome_same [OF o]]] io_same_keeps [OF next_outcome_same [OF o]]
    by (auto simp: io_close_def split: outcome.split)
qed

lemma frame_keeps: "io_frame j a b \<Longrightarrow> j \<noteq> i \<Longrightarrow> keeps path fd i a b"
  by (auto simp: keeps_def data_held_def io_frame_def io_ok_def tmp_private_alt)

lemma unlink_tmp_keeps: "keeps path fd i io (snd (io_unlink io (path @ ''.tmp'')))"
proof -
  obtain oc io2 where o: "next_outcome io = (oc, io2)" by fastforce
  have "keeps path fd i io2 (io2\<lparr>io_names := AList.delete (path @ ''.tmp'') (io_names io2)\<rparr>)"
    by (auto simp: keeps_def data_held_def io_ok_def tmp_private_alt AList.delete_conv' set_delete_alist)
  then show ?thesis
    using o keeps_trans [OF io_same_keeps [OF next_outcome_same [OF o]]] io_same_keeps [OF next_outcome_same [OF o]]
    by (auto simp: io_unlink_def split: outcome.split)
qed

lemma rename_tmp_keeps:
  assumes "io_rename io (path @ ''.tmp'') path = (r, io1)"
  shows "keeps path fd i io io1"
proof -
  obtain oc io2 where o: "next_outcome io = (oc, io2)" by fastforce
  note k = io_same_keeps [OF next_outcome_same [OF o], of path fd i]
  have "keeps path fd i io2 (io2\<lparr>io_names := AList.update path j (AList.delete (path @ ''.tmp'') (io_names io2))\<rparr>)"
    if "map_of (io_names io2) (path @ ''.tmp'') = Some j" for j
    using that io_ok_names [of io2 _ j]
    by (auto simp: keeps_def data_held_def io_ok_def tmp_private_alt AList.delete_conv' AList.update_conv' set_delete_alist
        dest!: set_update_alist)
  then show ?thesis
    using assms o keeps_trans [OF k] k by (auto simp: io_rename_def split: outcome.splits option.splits)
qed

section \<open>Loads and stores\<close>

lemma preadFull_io_same:
  assumes "preadFull io fd cnt off [] = (r, xs, io1)"
  shows "io_same io io1"
proof (cases "map_of (io_fds io) fd")
  case (Some i)
  then show ?thesis using preadFull_spec [OF assms Some] by simp
next
  case None
  have "preadFull io fd cnt off acc = (r, xs, io1) \<Longrightarrow> map_of (io_fds io) fd = None \<Longrightarrow> io_same io io1" for acc
  proof (induction io fd cnt off acc rule: preadFull.induct)
    case (1 io fd cnt off acc)
    obtain n ys io2 where p: "io_pread io fd (cnt - length acc) (off + length acc) = (n, ys, io2)" by (metis prod_cases3)
    have same: "io_same io io2" using io_pread_same [OF p] .
    have "n < 0" using p "1.prems"(2) io_sameD(3) [OF next_outcome_same]
      by (auto simp: io_pread_def errval_def errno_defs split: outcome.splits option.splits prod.splits if_splits)
    then show ?case
      using "1.prems" "1.IH"(1) [OF _ p [symmetric] refl] p same io_sameD(3) [OF same]
      by (auto simp: preadFull.simps [of io] split: if_splits intro: io_same_trans)
  qed
  from this [of "[]"] assms None show ?thesis by simp
qed

lemma read_image_keeps:
  assumes "read_image io path' = (res, io1)"
  shows "keeps path fd i io io1"
proof (cases "data_held path fd i io")
  case False then show ?thesis by (simp add: keeps_def)
next
  case held: True
  obtain st a where s: "io_stat io path' = (st, a)" by fastforce
  have ka: "keeps path fd i io a" using io_same_keeps [OF io_stat_same [OF s]] .
  obtain r b where o: "io_open a path' False False = (r, b)" by fastforce
  have kb: "keeps path fd i a b" and ne: "0 \<le> r \<longrightarrow> nat r \<noteq> fd"
    using open_keeps [OF o, of path fd i] ka held by (auto simp: keeps_def)
  have kc: "keeps path fd i b (snd (io_close c (nat r)))" if "preadFull b (nat r) n 0 [] = (x, xs, c)" "0 \<le> r" for n x xs c
    using io_same_keeps [OF preadFull_io_same [OF that(1)]] close_keeps [of "nat r" fd] ne that(2) keeps_trans by blast
  show ?thesis
  proof (cases "(\<exists>x. st = Inl x) \<or> (\<exists>sz. st = Inr sz \<and> (sz = 0 \<or> sz > 2 ^ 31))")
    case True
    then have "io1 = a" using assms s by (auto simp: read_image_def)
    with ka show ?thesis by simp
  next
    case False
    then obtain sz where sz: "st = Inr sz" "sz \<noteq> 0" "\<not> sz > 2 ^ 31" by (cases st) auto
    obtain x xs c where c: "preadFull b (nat r) sz 0 [] = (x, xs, c)" by (metis prod_cases3)
    have "io1 = (if r < 0 then b else snd (io_close c (nat r)))"
      using assms s sz o c by (auto simp: read_image_def Let_def split: if_splits)
    with keeps_trans [OF ka kb] kc [OF c] keeps_trans [of path fd i io b] show ?thesis by (auto split: if_splits)
  qed
qed

lemma write_image_keeps:
  assumes s: "write_image io path buf sync = (rc, io1)"
  shows "keeps path fd i io io1"
proof (cases "data_held path fd i io")
  case False then show ?thesis by (simp add: keeps_def)
next
  case held: True
  let ?tmp = "path @ ''.tmp''" and ?buf = "buf"
  obtain r a where o: "io_open io ?tmp True True = (r, a)" by fastforce
  have ka: "keeps path fd i io a" and ne: "0 \<le> r \<longrightarrow> nat r \<noteq> fd"
    using open_keeps [OF o, of path fd i] held by auto
  show ?thesis
  proof (cases "r < 0")
    case True
    with s o ka show ?thesis by (simp add: write_image_def Let_def)
  next
    case False
    then obtain j where j: "map_of (io_fds a) (nat r) = Some j" "map_of (io_names a) ?tmp = Some j"
      using io_open_trunc [OF o] held by (auto simp: data_held_def)
    have ji: "j \<noteq> i" using ka held j(2) by (auto simp: keeps_def data_held_def)
    obtain w b where w: "pwriteFull a (nat r) ?buf 0 0 = (w, b)" by fastforce
    have kb: "keeps path fd i a b"
      using pwriteFull_spec [OF w j(1), of "content a j"] frame_keeps [OF _ ji] by auto
    define rc0 where "rc0 = (if w \<noteq> int (length ?buf) then (if w < 0 then w else - EIO) else 0)"
    obtain rc1 c where c: "(if rc0 = 0 \<and> sync then io_fdatasync b (nat r) else (rc0, b)) = (rc1, c)" by fastforce
    have kc: "keeps path fd i b c"
      using c io_fdatasync_same [of b "nat r" rc1 c] io_same_keeps by (auto split: if_splits)
    obtain k d where d: "io_close c (nat r) = (k, d)" by fastforce
    have kd: "keeps path fd i io d"
      using close_keeps [of "nat r" fd path i c] ne False d ka kb kc keeps_trans by (metis linorder_not_less snd_conv)
    define rc2 where "rc2 = (if rc1 = 0 \<and> k < 0 then k else rc1)"
    have s': "(if rc2 \<noteq> 0 then (rc2, snd (io_unlink d ?tmp)) else case io_rename d ?tmp path of
        (rc3, e) \<Rightarrow> if rc3 \<noteq> 0 then (rc3, snd (io_unlink e ?tmp)) else (rc3, e)) = (rc, io1)"
      using s o False w c d by (simp only: write_image_def Let_def rc0_def rc2_def split if_False case_prod_conv)
    obtain rc3 e where e: "io_rename d ?tmp path = (rc3, e)" by fastforce
    have ke: "keeps path fd i d e" using rename_tmp_keeps [OF e] .
    have "io1 = snd (io_unlink d ?tmp) \<or> io1 = snd (io_unlink e ?tmp) \<or> io1 = e"
      using s' e by (auto split: if_splits)
    moreover have "keeps path fd i io (snd (io_unlink d ?tmp))" "keeps path fd i io (snd (io_unlink e ?tmp))" "keeps path fd i io e"
      using keeps_trans [OF kd unlink_tmp_keeps] keeps_trans [OF kd keeps_trans [OF ke unlink_tmp_keeps]] keeps_trans [OF kd ke]
      by simp_all
    ultimately show ?thesis by auto
  qed
qed

lemma meta_load_keeps: "meta_load io path' = (res, io1) \<Longrightarrow> keeps path fd i io io1"
  using read_image_keeps [of io path'] by (auto simp: meta_load_def split: prod.splits)

lemma meta_store_keeps: "meta_store io path m sync = (rc, io1) \<Longrightarrow> keeps path fd i io io1"
  unfolding meta_store_def by (rule write_image_keeps)

end
