(* ===== verification/Entry_Inv.thy ===== *)
theory Entry_Inv
  imports Entry_Flush Meta_Frame
begin

text \<open>
  The invariant of a cache entry and its preservation by every locked section: metadata and
  bitmaps are well-formed, every published page carries the origin's checksum, every staged
  page the origin's bytes, the byte pools count the stage, and what the entry has
  changed since its last commit is consistent with what it publishes.
\<close>

unbundle bit_operations_syntax

section \<open>Metadata updates\<close>

definition put_page :: "nat \<Rightarrow> u32 \<Rightarrow> metaData \<Rightarrow> metaData" where
  "put_page i c m = m\<lparr>bitmap := bm_set (bitmap m) i, pageCrcs := (pageCrcs m)[i := c]\<rparr>"

definition del_page :: "nat \<Rightarrow> metaData \<Rightarrow> metaData" where
  "del_page i m = m\<lparr>bitmap := bm_clear (bitmap m) i, pageCrcs := (pageCrcs m)[i := 0]\<rparr>"

lemma page_upd_fields [simp]:
  "pageSize (put_page i c m) = pageSize m" "fileSize (put_page i c m) = fileSize m" "npages (put_page i c m) = npages m"
  "pageSize (del_page i m) = pageSize m" "fileSize (del_page i m) = fileSize m" "npages (del_page i m) = npages m"
  "pageBytes (put_page i c m) = pageBytes m" "pageBytes (del_page i m) = pageBytes m"
  "flags (put_page i c m) = flags m" "flags (del_page i m) = flags m"
  "atime (put_page i c m) = atime m" "atime (del_page i m) = atime m"
  "key (put_page i c m) = key m" "key (del_page i m) = key m"
  by (simp_all add: put_page_def del_page_def)

lemma meta_ok_pages: "meta_ok m \<Longrightarrow> bm_ok (bitmap m) \<and> pb_npages (bitmap m) = npages m \<and> length (pageCrcs m) = npages m"
  by (simp add: meta_ok_def)

lemma put_page_ok:
  assumes "meta_ok m" and "i < npages m"
  shows "meta_ok (put_page i c m)" "bm_pages (bitmap (put_page i c m)) = insert i (bm_pages (bitmap m))"
  using assms bm.put_ok [of "bitmap m" i] by (simp_all add: meta_ok_def put_page_def)

lemma del_page_ok:
  assumes "meta_ok m" and "i < npages m"
  shows "meta_ok (del_page i m)" "bm_pages (bitmap (del_page i m)) = bm_pages (bitmap m) - {i}"
  using assms bm.del_ok [of "bitmap m" i] by (simp_all add: meta_ok_def del_page_def)

lemma meta_ok_flags [simp]: "meta_ok (m\<lparr>flags := f\<rparr>) = meta_ok m"
  by (simp add: meta_ok_def)

lemma meta_ok_atime: "meta_ok m \<Longrightarrow> a < 2 ^ 64 \<Longrightarrow> meta_ok (m\<lparr>atime := a\<rparr>)"
  by (simp add: meta_ok_def)

text \<open>The checksums of the published pages, on the set of pages.\<close>

lemma crcs_from_pages:
  assumes "meta_ok m"
  shows "crcs_from orig m \<longleftrightarrow> (\<forall>i\<in>bm_pages (bitmap m). pageCrcs m ! i = crc32c (page_of (pageSize m) orig i))"
  using meta_ok_pages [OF assms] bm.get_pages [of _ "bitmap m"] bm.pages_bound [of "bitmap m"]
  by (auto simp: crcs_from_def)

lemma crcs_from_flags [simp]: "crcs_from orig (m\<lparr>flags := f\<rparr>) = crcs_from orig m"
  "crcs_from orig (m\<lparr>atime := a\<rparr>) = crcs_from orig m"
  by (simp_all add: crcs_from_def)

lemma put_page_crcs:
  assumes "meta_ok m" and "i < npages m" and "crcs_from orig m" and "c = crc32c (page_of (pageSize m) orig i)"
  shows "crcs_from orig (put_page i c m)"
  using assms meta_ok_pages [OF assms(1)]
  by (auto simp: crcs_from_pages put_page_ok) (auto simp: put_page_def crcs_from_pages nth_list_update)

lemma del_page_crcs:
  assumes "meta_ok m" and "i < npages m" and "crcs_from orig m"
  shows "crcs_from orig (del_page i m)"
  using assms meta_ok_pages [OF assms(1)]
  by (auto simp: crcs_from_pages del_page_ok) (auto simp: del_page_def crcs_from_pages nth_list_update split: if_splits)

section \<open>The entry invariant\<close>

definition deltas_ok :: "entry \<Rightarrow> bool" where
  "deltas_ok e \<longleftrightarrow> bm_ok (e_setSince e) \<and> pb_npages (e_setSince e) = npages (e_meta e) \<and>
     bm_ok (e_clearedSince e) \<and> pb_npages (e_clearedSince e) = npages (e_meta e) \<and>
     bm_pages (e_setSince e) \<subseteq> bm_pages (bitmap (e_meta e)) \<and>
     bm_pages (e_clearedSince e) \<inter> bm_pages (bitmap (e_meta e)) = {}"

definition entry_inv :: "bytes \<Rightarrow> entry \<Rightarrow> bool" where
  "entry_inv orig e \<longleftrightarrow> meta_ok (e_meta e) \<and> fileSize (e_meta e) < 2 ^ 61 \<and> length orig = fileSize (e_meta e) \<and>
     crcs_from orig (e_meta e) \<and> staged_from orig e \<and> stage_ok e \<and> deltas_ok e"

lemma entry_invD:
  assumes "entry_inv orig e"
  shows "meta_ok (e_meta e)" "length orig = fileSize (e_meta e)" "crcs_from orig (e_meta e)" "staged_from orig e"
    "stage_ok e" "deltas_ok e" "fileSize (e_meta e) < 2 ^ 61"
  using assms by (simp_all add: entry_inv_def)

text \<open>Sections that leave the metadata and the deltas alone.\<close>

lemma entry_inv_stage:
  assumes "entry_inv orig e" and "e_meta e' = e_meta e" and "e_setSince e' = e_setSince e"
    and "e_clearedSince e' = e_clearedSince e" and "stage_ok e'" and "staged_from orig e'"
  shows "entry_inv orig e'"
  using assms by (simp add: entry_inv_def deltas_ok_def)

text \<open>Sections that change the metadata but not the stage, keeping its geometry.\<close>

lemma stage_ok_meta:
  assumes "stage_ok e" and "pageBytes m' = pageBytes (e_meta e)"
  shows "stage_ok (e\<lparr>e_meta := m'\<rparr>)"
  using assms weights_cong [OF assms(2)] by (simp add: stage_ok_def)

lemma staged_from_meta:
  assumes "staged_from orig e" and "npages m' = npages (e_meta e)" and "pageSize m' = P_of e"
  shows "staged_from orig (e\<lparr>e_meta := m'\<rparr>)"
  using assms by (simp add: staged_from_def)

definition same_geo :: "metaData \<Rightarrow> metaData \<Rightarrow> bool" where
  "same_geo m m' \<longleftrightarrow> pageSize m' = pageSize m \<and> fileSize m' = fileSize m"

lemma same_geoD: "same_geo m m' \<Longrightarrow> pageBytes m' = pageBytes m \<and> npages m' = npages m"
  using meta_geometry [of m' m] by (simp add: same_geo_def)

lemma same_geo_simps [simp]: "same_geo m m" "same_geo m (put_page i c m)" "same_geo m (del_page i m)"
  "same_geo m (m\<lparr>flags := f\<rparr>)" "same_geo m (m\<lparr>atime := a\<rparr>)"
  by (simp_all add: same_geo_def)

lemma entry_inv_meta:
  assumes inv: "entry_inv orig e" and g: "same_geo (e_meta e) m'" and m: "meta_ok m'" and c: "crcs_from orig m'"
    and d: "bm_pages (bitmap m') = bm_pages (bitmap (e_meta e))"
  shows "entry_inv orig (e\<lparr>e_meta := m'\<rparr>)"
  using inv stage_ok_meta [OF entry_invD(5) [OF inv], of m'] staged_from_meta [OF entry_invD(4) [OF inv], of m']
    same_geoD [OF g] g m c d
  by (simp add: entry_inv_def deltas_ok_def same_geo_def)

lemma publishPage_eq:
  "publishPage e i c = e\<lparr>e_meta := put_page i c (e_meta e), e_setSince := bm_set (e_setSince e) i,
     e_clearedSince := bm_clear (e_clearedSince e) i\<rparr>"
  by (simp add: publishPage_def put_page_def)

lemma retractPage_eq:
  "retractPage e i = e\<lparr>e_meta := del_page i (e_meta e), e_clearedSince := bm_set (e_clearedSince e) i,
     e_setSince := bm_clear (e_setSince e) i\<rparr>"
  by (simp add: retractPage_def del_page_def)

lemma publishPage_inv:
  assumes inv: "entry_inv orig e" and i: "i < npages (e_meta e)" and c: "c = crc32c (page_of (P_of e) orig i)"
  shows "entry_inv orig (publishPage e i c)"
proof -
  note D = entry_invD [OF inv]
  have "stage_ok (publishPage e i c)" "staged_from orig (publishPage e i c)"
    using stage_ok_meta [OF D(5), of "put_page i c (e_meta e)"] staged_from_meta [OF D(4), of "put_page i c (e_meta e)"]
    by (simp_all add: publishPage_eq stage_ok_def staged_from_def)
  moreover have "deltas_ok (publishPage e i c)"
    using D(6) i bm.put_ok [of "e_setSince e" i] bm.del_ok [of "e_clearedSince e" i] put_page_ok [OF D(1) i, of c]
    by (auto simp: deltas_ok_def publishPage_eq)
  ultimately show ?thesis
    using D put_page_ok(1) [OF D(1) i, of c] put_page_crcs [OF D(1) i D(3) c] by (simp add: entry_inv_def publishPage_eq)
qed

lemma retractPage_inv:
  assumes inv: "entry_inv orig e" and i: "i < npages (e_meta e)"
  shows "entry_inv orig (retractPage e i)"
proof -
  note D = entry_invD [OF inv]
  have "stage_ok (retractPage e i)" "staged_from orig (retractPage e i)"
    using stage_ok_meta [OF D(5), of "del_page i (e_meta e)"] staged_from_meta [OF D(4), of "del_page i (e_meta e)"]
    by (simp_all add: retractPage_eq stage_ok_def staged_from_def)
  moreover have "deltas_ok (retractPage e i)"
    using D(6) i bm.put_ok [of "e_clearedSince e" i] bm.del_ok [of "e_setSince e" i] del_page_ok [OF D(1) i]
    by (auto simp: deltas_ok_def retractPage_eq)
  ultimately show ?thesis
    using D del_page_ok(1) [OF D(1) i] del_page_crcs [OF D(1) i D(3)] by (simp add: entry_inv_def retractPage_eq)
qed

lemma page_change_fields [simp]:
  "same_geo (e_meta e) (e_meta (publishPage e i c))" "same_geo (e_meta e) (e_meta (retractPage e i))"
  "e_dataFd (publishPage e i c) = e_dataFd e" "e_dataFd (retractPage e i) = e_dataFd e"
  "e_metaPath (publishPage e i c) = e_metaPath e" "e_metaPath (retractPage e i) = e_metaPath e"
  "e_buf (publishPage e i c) = e_buf e" "e_buf (retractPage e i) = e_buf e"
  "e_flushing (publishPage e i c) = e_flushing e" "e_flushing (retractPage e i) = e_flushing e"
  "e_bufBytes (publishPage e i c) = e_bufBytes e" "e_bufBytes (retractPage e i) = e_bufBytes e"
  "e_specBytes (publishPage e i c) = e_specBytes e" "e_specBytes (retractPage e i) = e_specBytes e"
  "e_key (publishPage e i c) = e_key e" "e_key (retractPage e i) = e_key e"
  by (simp_all add: publishPage_eq retractPage_eq)

section \<open>Batches\<close>

text \<open>What every section of one handle keeps, whatever it does: the identity of the entry.\<close>

definition same_entry :: "entry \<Rightarrow> entry \<Rightarrow> bool" where
  "same_entry e e' \<longleftrightarrow> same_geo (e_meta e) (e_meta e') \<and> e_dataFd e' = e_dataFd e \<and> e_metaPath e' = e_metaPath e \<and>
     e_key e' = e_key e"

lemma same_entry_refl [simp]: "same_entry e e"
  by (simp add: same_entry_def)

lemma same_entry_trans [trans]: "same_entry a b \<Longrightarrow> same_entry b c \<Longrightarrow> same_entry a c"
  by (simp add: same_entry_def same_geo_def)

lemma same_entry_np: "same_entry e e' \<Longrightarrow> npages (e_meta e') = npages (e_meta e) \<and> P_of e' = P_of e"
  using same_geoD [of "e_meta e" "e_meta e'"] by (simp add: same_entry_def same_geo_def)

lemma same_entry_page [simp]: "same_entry e (publishPage e i c)" "same_entry e (retractPage e i)"
  by (simp_all add: same_entry_def)

lemma retract_all_inv:
  "entry_inv orig e \<Longrightarrow> set is \<subseteq> {..<npages (e_meta e)} \<Longrightarrow>
   entry_inv orig (fold (\<lambda>i e. retractPage e i) is e) \<and> same_entry e (fold (\<lambda>i e. retractPage e i) is e)"
proof (induction "is" arbitrary: e)
  case (Cons i "is")
  have "npages (e_meta (retractPage e i)) = npages (e_meta e)" by (simp add: retractPage_eq)
  with Cons.IH [of "retractPage e i"] Cons.prems retractPage_inv [OF Cons.prems(1), of i]
  show ?case by (auto intro: same_entry_trans [of e "retractPage e i"])
qed simp

definition crc_pairs :: "bytes \<Rightarrow> entry \<Rightarrow> (nat \<times> u32) list \<Rightarrow> bool" where
  "crc_pairs orig e ps \<longleftrightarrow> (\<forall>(i, c)\<in>set ps. i < npages (e_meta e) \<and> c = crc32c (page_of (P_of e) orig i))"

lemma crc_pairs_same: "same_entry e e' \<Longrightarrow> crc_pairs orig e ps = crc_pairs orig e' ps"
  using same_entry_np [of e e'] by (simp add: crc_pairs_def)

lemma publish_all_inv:
  "entry_inv orig e \<Longrightarrow> crc_pairs orig e ps \<Longrightarrow> entry_inv orig (publish_all ps e) \<and> same_entry e (publish_all ps e)"
proof (induction ps arbitrary: e)
  case (Cons ic ps)
  obtain i c where ic: "ic = (i, c)" by fastforce
  have p: "i < npages (e_meta e)" "c = crc32c (page_of (P_of e) orig i)" using Cons.prems(2) ic by (auto simp: crc_pairs_def)
  have "crc_pairs orig (publishPage e i c) ps"
    using Cons.prems(2) crc_pairs_same [of e "publishPage e i c"] by (auto simp: crc_pairs_def)
  with Cons.IH [of "publishPage e i c"] publishPage_inv [OF Cons.prems(1) p]
  show ?case by (auto simp: publish_all_def ic intro: same_entry_trans [of e "publishPage e i c"])
qed (simp add: publish_all_def)

lemma entry_inv_upd [simp]:
  "entry_inv orig (e\<lparr>e_dirty := b\<rparr>) = entry_inv orig e" "entry_inv orig (e\<lparr>e_obs := o1\<rparr>) = entry_inv orig e"
  "entry_inv orig (e\<lparr>e_lastDiskEnd := n\<rparr>) = entry_inv orig e" "entry_inv orig (e\<lparr>e_servedOnce := bm\<rparr>) = entry_inv orig e"
  "entry_inv orig (e\<lparr>e_flushInProgress := b\<rparr>) = entry_inv orig e" "entry_inv orig (e\<lparr>e_lastBufFlushS := n\<rparr>) = entry_inv orig e"
  "entry_inv orig (e\<lparr>e_pinTouched := b\<rparr>) = entry_inv orig e" "entry_inv orig (e\<lparr>e_lastFlushS := n\<rparr>) = entry_inv orig e"
  "entry_inv orig (e\<lparr>e_closing := b\<rparr>) = entry_inv orig e"
  by (simp_all add: entry_inv_def deltas_ok_def stage_ok_def staged_from_def)

lemma same_entry_upd [simp]:
  "same_entry e (e'\<lparr>e_dirty := b\<rparr>) = same_entry e e'" "same_entry e (e'\<lparr>e_obs := o1\<rparr>) = same_entry e e'"
  "same_entry e (e'\<lparr>e_lastDiskEnd := n\<rparr>) = same_entry e e'" "same_entry e (e'\<lparr>e_servedOnce := bm\<rparr>) = same_entry e e'"
  "same_entry e (e'\<lparr>e_flushInProgress := b\<rparr>) = same_entry e e'" "same_entry e (e'\<lparr>e_lastBufFlushS := n\<rparr>) = same_entry e e'"
  "same_entry e (e'\<lparr>e_pinTouched := b\<rparr>) = same_entry e e'" "same_entry e (e'\<lparr>e_lastFlushS := n\<rparr>) = same_entry e e'"
  "same_entry e (e'\<lparr>e_closing := b\<rparr>) = same_entry e e'" "same_entry e (e'\<lparr>e_buf := st\<rparr>) = same_entry e e'"
  "same_entry e (e'\<lparr>e_flushing := st\<rparr>) = same_entry e e'" "same_entry e (e'\<lparr>e_bufBytes := w\<rparr>) = same_entry e e'"
  "same_entry e (e'\<lparr>e_specBytes := w\<rparr>) = same_entry e e'" "same_entry e (e'\<lparr>e_setSince := bm\<rparr>) = same_entry e e'"
  "same_entry e (e'\<lparr>e_clearedSince := bm\<rparr>) = same_entry e e'"
  by (simp_all add: same_entry_def)

lemma entry_inv_flags:
  assumes "entry_inv orig e"
  shows "entry_inv orig (e\<lparr>e_meta := (e_meta e)\<lparr>flags := f\<rparr>\<rparr>)"
  using entry_inv_meta [OF assms, of "(e_meta e)\<lparr>flags := f\<rparr>"] entry_invD [OF assms] by simp

lemma same_entry_flags [simp]: "same_entry e0 (e\<lparr>e_meta := (e_meta e)\<lparr>flags := f\<rparr>\<rparr>) = same_entry e0 e"
  "same_entry e0 (e\<lparr>e_meta := (e_meta e)\<lparr>atime := a\<rparr>\<rparr>) = same_entry e0 e"
  by (simp_all add: same_entry_def same_geo_def)

lemma drop_complete_inv: "entry_inv orig e \<Longrightarrow> entry_inv orig (drop_complete e)" "same_entry e0 (drop_complete e) = same_entry e0 e"
  using entry_inv_flags by (simp_all add: drop_complete_def)

lemma set_complete_inv: "entry_inv orig e \<Longrightarrow> entry_inv orig (set_complete e)" "same_entry e0 (set_complete e) = same_entry e0 e"
  using entry_inv_flags by (simp_all add: set_complete_def)

lemma touchAtime_inv:
  assumes "entry_inv orig e" and "now < 2 ^ 64"
  shows "entry_inv orig (touchAtime now e)" "same_entry e0 (touchAtime now e) = same_entry e0 e"
  using entry_inv_meta [OF assms(1), of "(e_meta e)\<lparr>atime := now\<rparr>"] entry_invD [OF assms(1)] assms
  by (simp_all add: touchAtime_def meta_ok_atime same_entry_def same_geo_def)

section \<open>Reads\<close>

lemma demoteRun_inv:
  assumes "entry_inv orig e" and "b < npages (e_meta e)" and "demoteRun (p, e) a b = (p1, e1)"
  shows "entry_inv orig e1 \<and> same_entry e e1 \<and> p_io p1 = p_io p"
proof -
  have "entry_inv orig (fold (\<lambda>i e. retractPage e i) [a..<Suc b] e) \<and> same_entry e (fold (\<lambda>i e. retractPage e i) [a..<Suc b] e)"
    using assms(2) by (intro retract_all_inv [OF assms(1)]) auto
  with assms(3) show ?thesis by (auto simp: demoteRun_def drop_complete_inv)
qed

text \<open>A read changes the file system at most by consuming outcomes.\<close>

definition read_like :: "proc \<Rightarrow> entry \<Rightarrow> proc \<Rightarrow> entry \<Rightarrow> bytes \<Rightarrow> bool" where
  "read_like p e p1 e1 orig \<longleftrightarrow> entry_inv orig e1 \<and> same_entry e e1 \<and> io_same (p_io p) (p_io p1)"

lemma read_like_trans:
  "read_like p e p1 e1 orig \<Longrightarrow> read_like p1 e1 p2 e2 orig \<Longrightarrow> read_like p e p2 e2 orig"
  by (auto simp: read_like_def intro: same_entry_trans io_same_trans)

end
