(* ===== verification/Entry_Commit.thy ===== *)
theory Entry_Commit
  imports Entry_Inv
begin

text \<open>
  The sidecar commit of \<^verbatim>\<open>flushMeta\<close> against its abstract specification. A sidecar is, for its readers,
  a finite map from page numbers to checksums; a commit applies to the map on disk the
  pages this handle set and cleared since its last commit, and nothing else. The locale
  \<open>page_table\<close> states the interface of such a map and proves what a loop that edits every page
  computes; the metadata of a cache entry implements it.
\<close>

unbundle bit_operations_syntax

section \<open>Page tables\<close>

datatype edit = Keep | Del | Put u32

locale page_table =
  fixes tab :: "'t \<Rightarrow> nat \<Rightarrow> u32 option" and put :: "nat \<Rightarrow> u32 \<Rightarrow> 't \<Rightarrow> 't" and del :: "nat \<Rightarrow> 't \<Rightarrow> 't"
    and ok :: "'t \<Rightarrow> bool" and size_of :: "'t \<Rightarrow> nat"
  assumes ok_put: "ok t \<Longrightarrow> i < size_of t \<Longrightarrow> ok (put i c t) \<and> size_of (put i c t) = size_of t"
    and ok_del: "ok t \<Longrightarrow> i < size_of t \<Longrightarrow> ok (del i t) \<and> size_of (del i t) = size_of t"
    and tab_put: "ok t \<Longrightarrow> i < size_of t \<Longrightarrow> tab (put i c t) = (tab t)(i := Some c)"
    and tab_del: "ok t \<Longrightarrow> i < size_of t \<Longrightarrow> tab (del i t) = (tab t)(i := None)"
    and tab_bound: "ok t \<Longrightarrow> size_of t \<le> i \<Longrightarrow> tab t i = None"
begin

definition apply_edit :: "(nat \<Rightarrow> edit) \<Rightarrow> nat \<Rightarrow> 't \<Rightarrow> 't" where
  "apply_edit g i t = (case g i of Keep \<Rightarrow> t | Del \<Rightarrow> del i t | Put c \<Rightarrow> put i c t)"

definition edited :: "(nat \<Rightarrow> edit) \<Rightarrow> (nat \<Rightarrow> u32 option) \<Rightarrow> nat \<Rightarrow> u32 option" where
  "edited g m i = (case g i of Keep \<Rightarrow> m i | Del \<Rightarrow> None | Put c \<Rightarrow> Some c)"

lemma apply_edit_ok:
  "ok t \<Longrightarrow> i < size_of t \<Longrightarrow> ok (apply_edit g i t) \<and> size_of (apply_edit g i t) = size_of t \<and>
   tab (apply_edit g i t) = (tab t)(i := edited g (tab t) i)"
  using ok_put ok_del tab_put tab_del by (auto simp: apply_edit_def edited_def split: edit.split)

lemma apply_edits:
  "ok t \<Longrightarrow> n \<le> size_of t \<Longrightarrow>
   ok (fold (apply_edit g) [0..<n] t) \<and> size_of (fold (apply_edit g) [0..<n] t) = size_of t \<and>
   tab (fold (apply_edit g) [0..<n] t) = (\<lambda>i. if i < n then edited g (tab t) i else tab t i)"
proof (induction n)
  case (Suc n)
  let ?t = "fold (apply_edit g) [0..<n] t"
  have "ok ?t" "size_of ?t = size_of t" "tab ?t = (\<lambda>i. if i < n then edited g (tab t) i else tab t i)"
    using Suc by auto
  with apply_edit_ok [of ?t n g] Suc.prems show ?case
    by (auto simp: fun_eq_iff edited_def less_Suc_eq split: edit.split)
qed auto

end

text \<open>The page map of a sidecar.\<close>

definition page_map :: "metaData \<Rightarrow> nat \<Rightarrow> u32 option" where
  "page_map m i = (if i \<in> bm_pages (bitmap m) then Some (pageCrcs m ! i) else None)"

lemma page_upd_crcs: "pageCrcs (put_page i c m) = (pageCrcs m)[i := c]" "pageCrcs (del_page i m) = (pageCrcs m)[i := 0]"
  by (simp_all add: put_page_def del_page_def)

interpretation pt: page_table page_map put_page del_page meta_ok npages
proof unfold_locales
  fix t i c assume ok: "meta_ok t" and i: "i < npages t"
  show "meta_ok (put_page i c t) \<and> npages (put_page i c t) = npages t" using put_page_ok [OF ok i] by simp
  show "meta_ok (del_page i t) \<and> npages (del_page i t) = npages t" using del_page_ok [OF ok i] by simp
  show "page_map (put_page i c t) = (page_map t)(i := Some c)"
    using put_page_ok(2) [OF ok i, of c] i meta_ok_pages [OF ok]
    by (simp add: page_map_def fun_eq_iff page_upd_crcs)
  show "page_map (del_page i t) = (page_map t)(i := None)"
    using del_page_ok(2) [OF ok i] by (simp add: page_map_def fun_eq_iff page_upd_crcs)
next
  fix t i assume ok: "meta_ok t" and "npages t \<le> i"
  with bm.pages_bound [of "bitmap t"] meta_ok_pages [OF ok] show "page_map t i = None" by (auto simp: page_map_def)
qed

lemma page_map_upd [simp]: "page_map (m\<lparr>flags := f\<rparr>) = page_map m" "page_map (m\<lparr>atime := a\<rparr>) = page_map m"
  by (simp_all add: page_map_def fun_eq_iff)

lemma page_map_cong:
  "meta_ok m \<Longrightarrow> crcs_from orig m \<longleftrightarrow> (\<forall>i c. page_map m i = Some c \<longrightarrow> c = crc32c (page_of (pageSize m) orig i))"
  by (auto simp: crcs_from_pages page_map_def)

section \<open>The merged image\<close>

definition snap_ok :: "snapshot \<Rightarrow> bool" where
  "snap_ok sn \<longleftrightarrow> meta_ok (sn_meta sn) \<and> bm_ok (sn_sets sn) \<and> pb_npages (sn_sets sn) = npages (sn_meta sn) \<and>
     bm_ok (sn_clears sn) \<and> pb_npages (sn_clears sn) = npages (sn_meta sn)"

text \<open>What the pages this handle touched contribute, and the map a commit is to leave.\<close>

definition merge_edit :: "snapshot \<Rightarrow> nat \<Rightarrow> edit" where
  "merge_edit sn i =
     (if bm_get (sn_clears sn) i then Del
      else if bm_get (sn_sets sn) i then Put (pageCrcs (sn_meta sn) ! i) else Keep)"

definition commit_map :: "snapshot \<Rightarrow> (nat \<Rightarrow> u32 option) \<Rightarrow> nat \<Rightarrow> u32 option" where
  "commit_map sn m i =
     (if i \<in> bm_pages (sn_clears sn) then None
      else if i \<in> bm_pages (sn_sets sn) then Some (pageCrcs (sn_meta sn) ! i) else m i)"

lemma merge_page_edit: "merge_page sn = pt.apply_edit (merge_edit sn)"
  by (simp add: fun_eq_iff merge_page_def pt.apply_edit_def merge_edit_def put_page_def del_page_def)

lemma fix_complete_fields [simp]:
  "page_map (fix_complete m) = page_map m" "meta_ok (fix_complete m) = meta_ok m" "same_geo m0 (fix_complete m) = same_geo m0 m"
  "bitmap (fix_complete m) = bitmap m" "pageCrcs (fix_complete m) = pageCrcs m" "atime (fix_complete m) = atime m"
  "key (fix_complete m) = key m" "npages (fix_complete m) = npages m"
  by (simp_all add: fix_complete_def Let_def same_geo_def)

lemma fold_same: "(\<And>x s. f (g x s) = f s) \<Longrightarrow> f (fold g xs s) = f s"
  by (induction xs arbitrary: s) auto

lemma edit_fields [simp]:
  "pageSize (fold (pt.apply_edit g) xs m) = pageSize m" "fileSize (fold (pt.apply_edit g) xs m) = fileSize m"
  "flags (fold (pt.apply_edit g) xs m) = flags m" "atime (fold (pt.apply_edit g) xs m) = atime m"
  "key (fold (pt.apply_edit g) xs m) = key m"
  by (rule fold_same, simp add: pt.apply_edit_def split: edit.split)+

lemma merge_image_ok:
  assumes sn: "snap_ok sn" and d: "meta_ok d" and np: "npages d = npages (sn_meta sn)"
  shows "meta_ok (merge_image sn d)" "same_geo d (merge_image sn d)" "key (merge_image sn d) = key d"
    "page_map (merge_image sn d) = commit_map sn (page_map d)"
proof -
  let ?m = "fold (pt.apply_edit (merge_edit sn)) [0..<npages d] d"
  note E = pt.apply_edits [OF d order_refl, of "merge_edit sn"]
  have out: "page_map (merge_image sn d) = page_map ?m"
    by (simp add: merge_image_def merge_page_edit Let_def)
  have "meta_ok (fix_complete (if sn_pin sn then ?m\<lparr>flags := pin_from (flags ?m) (flags (sn_meta sn))\<rparr> else ?m))"
    using E by simp
  moreover have "max (atime d) (atime (sn_meta sn)) < 2 ^ 64" using d sn by (simp add: meta_ok_def snap_ok_def)
  ultimately show "meta_ok (merge_image sn d)"
    unfolding merge_image_def merge_page_edit Let_def by (intro meta_ok_atime) (auto split: if_splits)
  show "same_geo d (merge_image sn d)" "key (merge_image sn d) = key d"
    by (simp_all add: merge_image_def merge_page_edit Let_def same_geo_def fix_complete_def)
  have bits: "i < npages d \<Longrightarrow> bm_get (sn_clears sn) i \<longleftrightarrow> i \<in> bm_pages (sn_clears sn)"
    "i < npages d \<Longrightarrow> bm_get (sn_sets sn) i \<longleftrightarrow> i \<in> bm_pages (sn_sets sn)" for i
    using sn np bm.get_pages by (simp_all add: snap_ok_def)
  have off: "i \<notin> bm_pages (sn_clears sn) \<and> i \<notin> bm_pages (sn_sets sn)" if "\<not> i < npages d" for i
    using that sn np bm.pages_bound [of "sn_clears sn"] bm.pages_bound [of "sn_sets sn"] by (auto simp: snap_ok_def)
  show "page_map (merge_image sn d) = commit_map sn (page_map d)"
    unfolding out using E bits off
    by (auto simp: fun_eq_iff commit_map_def pt.edited_def merge_edit_def)
qed

lemma kFlags_disjoint: "kFlagPinned AND kFlagComplete = 0"
  by (simp add: kFlagPinned_def kFlagComplete_def)

lemma complete_flag:
  assumes "meta_ok m"
  shows "flags (fix_complete m) AND kFlagComplete \<noteq> 0 \<longleftrightarrow> npages m \<noteq> 0 \<and> bm_pages (bitmap m) = {..<npages m}"
proof -
  have "(f AND NOT kFlagComplete) AND kFlagComplete = 0" "((f AND NOT kFlagComplete) OR kFlagComplete) AND kFlagComplete = kFlagComplete" for f :: u32
    by (auto simp: bit_eq_iff bit_simps)
  moreover have "kFlagComplete \<noteq> 0" by (simp add: kFlagComplete_def)
  ultimately show ?thesis
    using bm.full_iff [of "bitmap m"] meta_ok_pages [OF assms] by (simp add: fix_complete_def Let_def)
qed

section \<open>Finishing a commit\<close>

text \<open>While a commit is on its way to the disk, other sections of the same handle run. What stays
  true of the snapshot: its pages are still published or have been cleared since, its
  cleared pages still absent or set again.\<close>

definition pending_ok :: "bytes \<Rightarrow> snapshot \<Rightarrow> entry \<Rightarrow> bool" where
  "pending_ok orig sn e \<longleftrightarrow> snap_ok sn \<and> crcs_from orig (sn_meta sn) \<and> same_geo (e_meta e) (sn_meta sn) \<and>
     bm_pages (sn_sets sn) \<subseteq> bm_pages (bitmap (sn_meta sn)) \<and>
     bm_pages (sn_clears sn) \<inter> bm_pages (bitmap (sn_meta sn)) = {} \<and>
     bm_pages (sn_sets sn) \<subseteq> bm_pages (bitmap (e_meta e)) \<union> bm_pages (e_clearedSince e) \<and>
     bm_pages (sn_clears sn) \<inter> bm_pages (bitmap (e_meta e)) \<subseteq> bm_pages (e_setSince e)"

lemma fm_begin_pending:
  assumes inv: "entry_inv orig e" and b: "fm_begin cfg now force e = Some (sn, e1)"
  shows "entry_inv orig e1" "same_entry e e1" "pending_ok orig sn e1" "e_dataFd e1 = e_dataFd e" "e_metaPath e1 = e_metaPath e"
    "e_key e1 = e_key e" "e_meta e1 = e_meta e" "sn_meta sn = e_meta e" "e_dirty e" "\<not> e_dirty e1"
    "bm_pages (e_setSince e1) = {}" "bm_pages (e_clearedSince e1) = {}"
    "bm_pages (sn_sets sn) = bm_pages (e_setSince e)" "bm_pages (sn_clears sn) = bm_pages (e_clearedSince e)"
    "sn_pin sn = e_pinTouched e" "\<not> e_pinTouched e1"
proof -
  note D = entry_invD [OF inv]
  have sn: "sn = \<lparr>sn_meta = e_meta e, sn_sets = e_setSince e, sn_clears = e_clearedSince e, sn_pin = e_pinTouched e\<rparr>"
    and e1: "e1 = e\<lparr>e_setSince := bm_clearAll (e_setSince e), e_clearedSince := bm_clearAll (e_clearedSince e),
                   e_pinTouched := False, e_dirty := False, e_lastFlushS := now\<rparr>" and d: "e_dirty e"
    using b by (auto simp: fm_begin_def split: if_splits)
  have ok: "bm_ok (e_setSince e)" "bm_ok (e_clearedSince e)" using D(6) by (simp_all add: deltas_ok_def)
  note W = bm.wipe_ok [OF ok(1)] bm.wipe_ok [OF ok(2)]
  have "deltas_ok (e\<lparr>e_setSince := bm_clearAll (e_setSince e), e_clearedSince := bm_clearAll (e_clearedSince e)\<rparr>)"
    using D(6) W bm.bound_wipe by (simp add: deltas_ok_def)
  then show "entry_inv orig e1" using inv by (simp add: e1 entry_inv_def stage_ok_def staged_from_def deltas_ok_def)
  show "same_entry e e1" by (simp add: e1)
  show "pending_ok orig sn e1" using D W by (auto simp: sn e1 pending_ok_def snap_ok_def deltas_ok_def)
  show "e_dirty e" by (rule d)
  show "bm_pages (e_setSince e1) = {}" "bm_pages (e_clearedSince e1) = {}" using W by (simp_all add: e1)
qed (use b in \<open>auto simp: fm_begin_def split: if_splits\<close>)

definition adopt_edit :: "metaData \<Rightarrow> pageBitmap \<Rightarrow> pageBitmap \<Rightarrow> nat \<Rightarrow> edit" where
  "adopt_edit out ss cs i =
     (if bm_get ss i \<or> bm_get cs i then Keep else if bm_get (bitmap out) i then Put (pageCrcs out ! i) else Del)"

lemma adopt_page_edit:
  "adopt_page out i e = e\<lparr>e_meta := pt.apply_edit (adopt_edit out (e_setSince e) (e_clearedSince e)) i (e_meta e)\<rparr>"
  by (simp add: adopt_page_def adopt_edit_def pt.apply_edit_def put_page_def del_page_def Let_def)

lemma adopt_pages_edit:
  "fold (adopt_page out) xs e =
   e\<lparr>e_meta := fold (pt.apply_edit (adopt_edit out (e_setSince e) (e_clearedSince e))) xs (e_meta e)\<rparr>"
  by (induction xs arbitrary: e) (simp_all add: adopt_page_edit)

text \<open>The map the entry holds after adopting a committed image: its own pages where it has changed
  them since the snapshot, the committed ones elsewhere.\<close>

definition adopt_map :: "entry \<Rightarrow> (nat \<Rightarrow> u32 option) \<Rightarrow> nat \<Rightarrow> u32 option" where
  "adopt_map e m i = (if i \<in> bm_pages (e_setSince e) \<union> bm_pages (e_clearedSince e) then page_map (e_meta e) i else m i)"

lemma adopted:
  assumes inv: "entry_inv orig e" and out: "meta_ok out" "same_geo (e_meta e) out" "crcs_from orig out"
  defines "m1 \<equiv> fold (pt.apply_edit (adopt_edit out (e_setSince e) (e_clearedSince e))) [0..<npages (e_meta e)] (e_meta e)"
  shows "meta_ok m1" "page_map m1 = adopt_map e (page_map out)" "entry_inv orig (e\<lparr>e_meta := m1\<rparr>)"
proof -
  note D = entry_invD [OF inv]
  note E = pt.apply_edits [OF D(1) order_refl, of "adopt_edit out (e_setSince e) (e_clearedSince e)"]
  have np: "npages out = npages (e_meta e)" using same_geoD [OF out(2)] by simp
  have bits: "i < npages (e_meta e) \<Longrightarrow> bm_get (e_setSince e) i \<longleftrightarrow> i \<in> bm_pages (e_setSince e)"
    "i < npages (e_meta e) \<Longrightarrow> bm_get (e_clearedSince e) i \<longleftrightarrow> i \<in> bm_pages (e_clearedSince e)"
    "i < npages (e_meta e) \<Longrightarrow> bm_get (bitmap out) i \<longleftrightarrow> i \<in> bm_pages (bitmap out)" for i
    using D(6) meta_ok_pages [OF out(1)] np bm.get_pages by (simp_all add: deltas_ok_def)
  show m1: "meta_ok m1" using E by (simp add: m1_def)
  show pm: "page_map m1 = adopt_map e (page_map out)"
  proof
    fix i
    show "page_map m1 i = adopt_map e (page_map out) i"
    proof (cases "i < npages (e_meta e)")
      case True
      then have "page_map m1 i = pt.edited (adopt_edit out (e_setSince e) (e_clearedSince e)) (page_map (e_meta e)) i"
        using E by (simp add: m1_def)
      with bits [OF True] show ?thesis by (simp add: adopt_map_def pt.edited_def adopt_edit_def page_map_def [of out])
    next
      case False
      with E pt.tab_bound [OF out(1), of i] pt.tab_bound [OF D(1), of i] np show ?thesis
        by (simp add: m1_def adopt_map_def)
    qed
  qed
  have geo: "same_geo (e_meta e) m1" by (simp add: m1_def same_geo_def)
  have "crcs_from orig m1"
    using page_map_cong [OF m1] page_map_cong [OF out(1)] page_map_cong [OF D(1)] out(3) D(3) geo out(2)
    unfolding pm by (auto simp: adopt_map_def same_geo_def split: if_splits)
  moreover have "i \<in> bm_pages (bitmap m1) \<longleftrightarrow> i \<in> bm_pages (bitmap (e_meta e))"
    if "i \<in> bm_pages (e_setSince e) \<union> bm_pages (e_clearedSince e)" for i
    using fun_cong [OF pm, of i] that by (auto simp: adopt_map_def page_map_def split: if_splits)
  then have "bm_pages (e_setSince e) \<subseteq> bm_pages (bitmap m1)" "bm_pages (e_clearedSince e) \<inter> bm_pages (bitmap m1) = {}"
    using D(6) by (auto simp: deltas_ok_def)
  ultimately show "entry_inv orig (e\<lparr>e_meta := m1\<rparr>)"
    using D m1 geo same_geoD [OF geo] stage_ok_meta [OF D(5), of m1] staged_from_meta [OF D(4), of m1]
    by (simp add: entry_inv_def deltas_ok_def same_geo_def)
qed

text \<open>Re-arming after a failed store.\<close>

definition rearmed :: "snapshot \<Rightarrow> nat \<Rightarrow> entry \<Rightarrow> entry \<Rightarrow> bool" where
  "rearmed sn n e e' \<longleftrightarrow> (\<exists>ss cs. e' = e\<lparr>e_setSince := ss, e_clearedSince := cs\<rparr> \<and>
     bm_ok ss \<and> pb_npages ss = pb_npages (e_setSince e) \<and> bm_ok cs \<and> pb_npages cs = pb_npages (e_clearedSince e) \<and>
     (\<forall>i. i \<in> bm_pages ss \<longleftrightarrow> i \<in> bm_pages (e_setSince e) \<or> i < n \<and> i \<in> bm_pages (sn_sets sn) \<and> i \<notin> bm_pages (e_clearedSince e)) \<and>
     (\<forall>i. i \<in> bm_pages cs \<longleftrightarrow> i \<in> bm_pages (e_clearedSince e) \<or>
        i < n \<and> i \<in> bm_pages (sn_clears sn) \<and> i \<notin> bm_pages (e_setSince e) \<and>
        \<not> (i \<in> bm_pages (sn_sets sn) \<and> i \<notin> bm_pages (e_clearedSince e))))"

lemma rearm_pages:
  assumes "bm_ok (e_setSince e)" "bm_ok (e_clearedSince e)" "pb_npages (e_setSince e) = N" "pb_npages (e_clearedSince e) = N"
    "pb_npages (sn_sets sn) = N" "pb_npages (sn_clears sn) = N"
  shows "n \<le> N \<Longrightarrow> rearmed sn n e (fold (rearm_page sn) [0..<n] e)"
proof (induction n)
  case 0
  show ?case
    unfolding rearmed_def using assms by (intro exI [of _ "e_setSince e"] exI [of _ "e_clearedSince e"]) simp
next
  case (Suc n)
  then obtain ss cs where h: "fold (rearm_page sn) [0..<n] e = e\<lparr>e_setSince := ss, e_clearedSince := cs\<rparr>"
      "bm_ok ss" "pb_npages ss = N" "bm_ok cs" "pb_npages cs = N"
      "\<And>i. i \<in> bm_pages ss \<longleftrightarrow> i \<in> bm_pages (e_setSince e) \<or> i < n \<and> i \<in> bm_pages (sn_sets sn) \<and> i \<notin> bm_pages (e_clearedSince e)"
      "\<And>i. i \<in> bm_pages cs \<longleftrightarrow> i \<in> bm_pages (e_clearedSince e) \<or> i < n \<and> i \<in> bm_pages (sn_clears sn) \<and> i \<notin> bm_pages (e_setSince e) \<and>
        \<not> (i \<in> bm_pages (sn_sets sn) \<and> i \<notin> bm_pages (e_clearedSince e))"
    using assms by (auto simp: rearmed_def)
  have n: "n < N" using Suc.prems by simp
  define ss1 where "ss1 = (if n \<in> bm_pages (sn_sets sn) \<and> n \<notin> bm_pages cs then bm_set ss n else ss)"
  define cs1 where "cs1 = (if n \<in> bm_pages (sn_clears sn) \<and> n \<notin> bm_pages ss1 then bm_set cs n else cs)"
  have s1: "bm_ok ss1" "pb_npages ss1 = N" "bm_pages ss1 = bm_pages ss \<union> {i. i = n \<and> n \<in> bm_pages (sn_sets sn) \<and> n \<notin> bm_pages cs}"
    using h bm.put_ok [of ss n] n by (auto simp: ss1_def)
  have c1: "bm_ok cs1" "pb_npages cs1 = N" "bm_pages cs1 = bm_pages cs \<union> {i. i = n \<and> n \<in> bm_pages (sn_clears sn) \<and> n \<notin> bm_pages ss1}"
    using h bm.put_ok [of cs n] n by (auto simp: cs1_def)
  have f: "fold (rearm_page sn) [0..<Suc n] e = e\<lparr>e_setSince := ss1, e_clearedSince := cs1\<rparr>"
    using h n s1 assms by (auto simp: rearm_page_def Let_def ss1_def cs1_def bm.get_pages)
  show ?case
    unfolding rearmed_def f
    by (intro exI [of _ ss1] exI [of _ cs1]) (use s1 c1 h assms n in \<open>auto simp: less_Suc_eq\<close>)
qed

end
