(* ===== verification/Entry_Flush_Meta.thy ===== *)
theory Entry_Flush_Meta
  imports Entry_Commit
begin

text \<open>
  \<^verbatim>\<open>flushMeta\<close> as a whole: the snapshot, the commit under the file lock and the adoption of
  the committed image. The invariant of the entry survives whatever the disk does, a
  commit that succeeds leaves on disk the map the specification names, and a commit that
  fails leaves every change pending.
\<close>

section \<open>The sidecar on disk\<close>

text \<open>Every image that decodes for a file of this size carries checksums of the origin's pages: what
  the processes that share the entry keep of its sidecar.\<close>

definition sidecar_from :: "bytes \<Rightarrow> string \<Rightarrow> io \<Rightarrow> bool" where
  "sidecar_from orig path io \<longleftrightarrow> (\<forall>bs d. file_at io path = Some bs \<and> deserialize bs = Some d \<and>
     fileSize d = length orig \<longrightarrow> crcs_from orig d)"

lemma sidecar_from_cong: "file_at io1 path = file_at io path \<Longrightarrow> sidecar_from orig path io1 = sidecar_from orig path io"
  by (simp add: sidecar_from_def)

lemma sidecar_from_store:
  assumes "file_at io path = Some (serialize m)" and "meta_ok m" and "crcs_from orig m"
  shows "sidecar_from orig path io"
  using assms deserialize_serialize [OF assms(2)] by (auto simp: sidecar_from_def split: if_splits)

section \<open>The commit step\<close>

definition usable :: "config \<Rightarrow> snapshot \<Rightarrow> string \<Rightarrow> metaData \<Rightarrow> bool" where
  "usable cfg sn k d \<longleftrightarrow> pageSize d = pageSize (sn_meta sn) \<and>
     adoptable cfg d k (fileSize (sn_meta sn)) (originMtime (sn_meta sn)) (cksumKind (sn_meta sn)) (originCksum (sn_meta sn))"

definition merge_choice :: "config \<Rightarrow> snapshot \<Rightarrow> string \<Rightarrow> metaData option \<Rightarrow> bool \<times> metaData" where
  "merge_choice cfg sn k disk =
     (case disk of Some d \<Rightarrow> if usable cfg sn k d then (True, merge_image sn d) else (False, sn_meta sn)
      | None \<Rightarrow> (False, sn_meta sn))"

lemma fm_commit_eq:
  assumes "io_fstat_nlink (snd (io_call (p_io p))) (e_dataFd e) = (nl, io2)" and "nl \<noteq> Inr 0"
    and "meta_load io2 (e_metaPath e) = (disk, io3)" and "merge_choice cfg sn (e_key e) disk = (merged, out)"
    and "meta_store io3 (e_metaPath e) out (c_fsync cfg = kAll) = (rc, io4)"
  shows "fm_commit cfg sn p e = (Some (rc, merged, out), p\<lparr>p_io := snd (io_call io4)\<rparr>)"
proof -
  have "(case disk of None \<Rightarrow> (False, sn_meta sn)
      | Some d \<Rightarrow> if pageSize d = pageSize (sn_meta sn) \<and> adoptable cfg d (e_key e) (fileSize (sn_meta sn)) (originMtime (sn_meta sn))
          (cksumKind (sn_meta sn)) (originCksum (sn_meta sn)) then (True, merge_image sn d) else (False, sn_meta sn)) = (merged, out)"
    using assms(4) unfolding merge_choice_def usable_def .
  with assms(1-3,5) show ?thesis unfolding fm_commit_def Let_def by simp
qed

lemma call_keeps: "keeps path fd i io (snd (io_call io))"
  using io_same_keeps [OF io_call_same [of io "fst (io_call io)" "snd (io_call io)"]] by simp

lemma call_file_at [simp]: "file_at (snd (io_call io)) q = file_at io q"
  using store_eq_file_at [OF io_same_store_eq [OF io_call_same [of io "fst (io_call io)" "snd (io_call io)"]]] by simp

lemma fm_commit_spec:
  assumes c: "fm_commit cfg sn p e = (res, p1)" and h: "data_held (e_metaPath e) (e_dataFd e) ino (p_io p)"
  shows "keeps (e_metaPath e) (e_dataFd e) ino (p_io p) (p_io p1)" "p1 = p\<lparr>p_io := p_io p1\<rparr>"
    "res = None \<Longrightarrow> nlink (p_io p) ino = 0 \<and> (\<forall>q. file_at (p_io p1) q = file_at (p_io p) q)"
    "res = Some (rc, merged, out) \<Longrightarrow>
       (\<forall>q. q \<noteq> e_metaPath e @ ''.tmp'' \<longrightarrow>
          file_at (p_io p1) q = (if q = e_metaPath e \<and> rc = 0 then Some (serialize out) else file_at (p_io p) q)) \<and>
       (if merged then \<exists>bs d. file_at (p_io p) (e_metaPath e) = Some bs \<and> deserialize bs = Some d \<and>
          usable cfg sn (e_key e) d \<and> out = merge_image sn d else out = sn_meta sn)"
proof -
  let ?path = "e_metaPath e" and ?fd = "e_dataFd e"
  let ?io1 = "snd (io_call (p_io p))"
  have s1: "io_same (p_io p) ?io1" using io_call_same [of "p_io p"] by (metis surjective_pairing)
  obtain nl io2 where f: "io_fstat_nlink ?io1 ?fd = (nl, io2)" by fastforce
  have s2: "io_same (p_io p) io2" using io_fstat_same [OF f] s1 io_same_trans by blast
  have k2: "keeps ?path ?fd ino (p_io p) io2" by (rule io_same_keeps [OF s2])
  have fa2: "file_at io2 q = file_at (p_io p) q" for q by (rule store_eq_file_at [OF io_same_store_eq [OF s2]])
  have "map_of (io_fds ?io1) ?fd = Some ino" using h io_sameD(3) [OF s1] by (simp add: data_held_def)
  then have n0: "nl = Inr 0 \<Longrightarrow> nlink (p_io p) ino = 0"
    using f io_sameD(6) [OF s1] io_sameD(3,6) [OF next_outcome_same]
    by (auto simp: io_fstat_nlink_def split: outcome.splits option.splits prod.splits)
  have all: "keeps ?path ?fd ino (p_io p) (p_io p1) \<and> p1 = p\<lparr>p_io := p_io p1\<rparr> \<and>
    (res = None \<longrightarrow> nlink (p_io p) ino = 0 \<and> (\<forall>q. file_at (p_io p1) q = file_at (p_io p) q)) \<and>
    (\<forall>rc merged out. res = Some (rc, merged, out) \<longrightarrow>
       (\<forall>q. q \<noteq> ?path @ ''.tmp'' \<longrightarrow>
          file_at (p_io p1) q = (if q = ?path \<and> rc = 0 then Some (serialize out) else file_at (p_io p) q)) \<and>
       (if merged then \<exists>bs d. file_at (p_io p) ?path = Some bs \<and> deserialize bs = Some d \<and>
          usable cfg sn (e_key e) d \<and> out = merge_image sn d else out = sn_meta sn))"
  proof (cases "nl = Inr 0")
    case True
    then have "res = None" "p1 = p\<lparr>p_io := snd (io_call io2)\<rparr>"
      using c f by (simp_all add: fm_commit_def Let_def)
    then show ?thesis using keeps_trans [OF k2 call_keeps] n0 [OF True] fa2 by simp
  next
    case False
    obtain disk io3 where l: "meta_load io2 ?path = (disk, io3)" by fastforce
    obtain merged out where mc: "merge_choice cfg sn (e_key e) disk = (merged, out)" by fastforce
    obtain rc io4 where s: "meta_store io3 ?path out (c_fsync cfg = kAll) = (rc, io4)" by fastforce
    have r: "res = Some (rc, merged, out)" "p1 = p\<lparr>p_io := snd (io_call io4)\<rparr>"
      using fm_commit_eq [OF f False l mc s] c by simp_all
    have k3: "keeps ?path ?fd ino (p_io p) io3" using keeps_trans [OF k2 meta_load_keeps [OF l]] .
    have h3: "io_ok io3" "tmp_private io3 ?path" using k3 h by (simp_all add: keeps_def data_held_def)
    have k4: "keeps ?path ?fd ino (p_io p) (p_io p1)"
      unfolding r(2) using keeps_trans [OF k3 keeps_trans [OF meta_store_keeps [OF s] call_keeps]] by simp
    have fa3: "file_at io3 q = file_at (p_io p) q" for q using meta_load_spec [OF l] store_eq_file_at fa2 by metis
    have "file_at (p_io p1) q = (if q = ?path \<and> rc = 0 then Some (serialize out) else file_at (p_io p) q)"
      if "q \<noteq> ?path @ ''.tmp''" for q
      using meta_store_spec [OF s h3 that] fa3 by (simp add: r(2))
    moreover have "if merged then \<exists>bs d. file_at (p_io p) ?path = Some bs \<and> deserialize bs = Some d \<and>
        usable cfg sn (e_key e) d \<and> out = merge_image sn d else out = sn_meta sn"
      using mc meta_load_spec [OF l] fa2 by (auto simp: merge_choice_def split: option.splits if_splits)
    ultimately show ?thesis using k4 r by simp
  qed
  then show "keeps ?path ?fd ino (p_io p) (p_io p1)" "p1 = p\<lparr>p_io := p_io p1\<rparr>" by blast+
  show "res = None \<Longrightarrow> nlink (p_io p) ino = 0 \<and> (\<forall>q. file_at (p_io p1) q = file_at (p_io p) q)" using all by blast
  show "res = Some (rc, merged, out) \<Longrightarrow>
       (\<forall>q. q \<noteq> ?path @ ''.tmp'' \<longrightarrow>
          file_at (p_io p1) q = (if q = ?path \<and> rc = 0 then Some (serialize out) else file_at (p_io p) q)) \<and>
       (if merged then \<exists>bs d. file_at (p_io p) ?path = Some bs \<and> deserialize bs = Some d \<and>
          usable cfg sn (e_key e) d \<and> out = merge_image sn d else out = sn_meta sn)"
    using all by blast
qed

text \<open>The image a commit stores is well-formed and carries the origin's checksums.\<close>

lemma usableD:
  assumes "usable cfg sn k d" and "meta_ok (sn_meta sn)" and "fileSize (sn_meta sn) < 2 ^ 61" and "deserialize bs = Some d"
  shows "meta_ok d" "same_geo (sn_meta sn) d" "npages d = npages (sn_meta sn)" "key d = k"
proof -
  show g: "same_geo (sn_meta sn) d" "key d = k" using assms(1) by (auto simp: usable_def adoptable_def same_geo_def)
  show "meta_ok d" using deserialize_meta_ok [OF assms(4)] g(1) assms(3) by (simp add: same_geo_def)
  show "npages d = npages (sn_meta sn)" using same_geoD [OF g(1)] by simp
qed

lemma merge_crcs:
  assumes "snap_ok sn" "meta_ok d" "npages d = npages (sn_meta sn)" "same_geo (sn_meta sn) d"
    and "crcs_from orig (sn_meta sn)" "crcs_from orig d" "bm_pages (sn_sets sn) \<subseteq> bm_pages (bitmap (sn_meta sn))"
  shows "crcs_from orig (merge_image sn d)"
proof -
  note M = merge_image_ok [OF assms(1-3)]
  have ps: "pageSize (merge_image sn d) = pageSize d" "pageSize (sn_meta sn) = pageSize d"
    using M(2) assms(4) by (simp_all add: same_geo_def)
  have "c = crc32c (page_of (pageSize d) orig i)" if "commit_map sn (page_map d) i = Some c" for i c
  proof (cases "i \<in> bm_pages (sn_sets sn) \<and> i \<notin> bm_pages (sn_clears sn)")
    case True
    then have "page_map (sn_meta sn) i = Some c" using that assms(7) by (auto simp: commit_map_def page_map_def)
    then show ?thesis using page_map_cong [of "sn_meta sn" orig] assms(1,5) ps(2) by (auto simp: snap_ok_def)
  next
    case False
    then have "page_map d i = Some c" using that by (auto simp: commit_map_def split: if_splits)
    then show ?thesis using page_map_cong [OF assms(2), of orig] assms(6) by simp
  qed
  then show ?thesis using page_map_cong [OF M(1), of orig] M(4) ps by simp
qed

lemma fm_commit_out:
  assumes c: "fm_commit cfg sn p e = (Some (rc, merged, out), p1)" and h: "data_held (e_metaPath e) (e_dataFd e) ino (p_io p)"
    and inv: "entry_inv orig e" and pd: "pending_ok orig sn e" and sc: "sidecar_from orig (e_metaPath e) (p_io p)"
  shows "meta_ok out" "same_geo (e_meta e) out" "crcs_from orig out" "sidecar_from orig (e_metaPath e) (p_io p1)"
proof -
  note S = fm_commit_spec(4) [OF c h refl]
  have sn: "snap_ok sn" "meta_ok (sn_meta sn)" "crcs_from orig (sn_meta sn)" "same_geo (e_meta e) (sn_meta sn)"
      "bm_pages (sn_sets sn) \<subseteq> bm_pages (bitmap (sn_meta sn))"
    using pd by (auto simp: pending_ok_def snap_ok_def)
  have fs: "fileSize (sn_meta sn) < 2 ^ 61" "fileSize (sn_meta sn) = length orig"
    using entry_invD [OF inv] sn(4) by (auto simp: same_geo_def)
  have "meta_ok out \<and> same_geo (e_meta e) out \<and> crcs_from orig out"
  proof (cases merged)
    case False
    then show ?thesis using S sn by auto
  next
    case True
    then obtain bs d where d: "file_at (p_io p) (e_metaPath e) = Some bs" "deserialize bs = Some d" "usable cfg sn (e_key e) d"
        "out = merge_image sn d" using S by auto
    note U = usableD [OF d(3) sn(2) fs(1) d(2)]
    have "crcs_from orig d" using sc d U(2) fs(2) by (auto simp: sidecar_from_def same_geo_def)
    then show ?thesis
      using merge_image_ok [OF sn(1) U(1,3)] merge_crcs [OF sn(1) U(1,3,2) sn(3) _ sn(5)] U(2) sn(4) d(4)
      by (simp add: same_geo_def)
  qed
  then show o: "meta_ok out" "same_geo (e_meta e) out" "crcs_from orig out" by auto
  have ne: "e_metaPath e \<noteq> e_metaPath e @ ''.tmp''" by simp
  show "sidecar_from orig (e_metaPath e) (p_io p1)"
  proof (cases "rc = 0")
    case True
    then have "file_at (p_io p1) (e_metaPath e) = Some (serialize out)" using S ne by auto
    then show ?thesis using sidecar_from_store o by blast
  next
    case False
    then have "file_at (p_io p1) (e_metaPath e) = file_at (p_io p) (e_metaPath e)" using S ne by auto
    then show ?thesis using sc sidecar_from_cong by blast
  qed
qed

section \<open>The finish\<close>

lemma fm_finish_fail:
  assumes inv: "entry_inv orig e" and pd: "pending_ok orig sn e"
    and f: "fm_finish sn (rc, merged, out) (p, e) = (p1, e1)" and rc: "rc < 0"
  shows "entry_inv orig e1" "same_entry e e1" "p_io p1 = p_io p" "e_dirty e1" "e_meta e1 = e_meta e"
    "bm_pages (e_setSince e1) = bm_pages (e_setSince e) \<union> (bm_pages (sn_sets sn) - bm_pages (e_clearedSince e))"
    "bm_pages (e_clearedSince e1) = bm_pages (e_clearedSince e) \<union> (bm_pages (sn_clears sn) - bm_pages (e_setSince e1))"
    "e_pinTouched e1 = (e_pinTouched e \<or> sn_pin sn)"
proof -
  note D = entry_invD [OF inv]
  have np: "npages (sn_meta sn) = npages (e_meta e)" using pd same_geoD by (auto simp: pending_ok_def)
  let ?e = "e\<lparr>e_dirty := True\<rparr>"
  have "rearmed sn (npages (e_meta e)) ?e (fold (rearm_page sn) [0..<npages (e_meta e)] ?e)"
    using D(6) pd np by (intro rearm_pages [of _ "npages (e_meta e)"]) (auto simp: deltas_ok_def pending_ok_def snap_ok_def)
  then obtain ss cs where r: "fold (rearm_page sn) [0..<npages (e_meta e)] ?e = ?e\<lparr>e_setSince := ss, e_clearedSince := cs\<rparr>"
      "bm_ok ss" "pb_npages ss = npages (e_meta e)" "bm_ok cs" "pb_npages cs = npages (e_meta e)"
      "\<And>i. i \<in> bm_pages ss \<longleftrightarrow> i \<in> bm_pages (e_setSince e) \<or> i < npages (e_meta e) \<and> i \<in> bm_pages (sn_sets sn) \<and> i \<notin> bm_pages (e_clearedSince e)"
      "\<And>i. i \<in> bm_pages cs \<longleftrightarrow> i \<in> bm_pages (e_clearedSince e) \<or>
         i < npages (e_meta e) \<and> i \<in> bm_pages (sn_clears sn) \<and> i \<notin> bm_pages (e_setSince e) \<and>
        \<not> (i \<in> bm_pages (sn_sets sn) \<and> i \<notin> bm_pages (e_clearedSince e))"
    using D(6) by (auto simp: rearmed_def deltas_ok_def)
  have bnd: "i \<in> bm_pages (sn_sets sn) \<Longrightarrow> i < npages (e_meta e)" "i \<in> bm_pages (sn_clears sn) \<Longrightarrow> i < npages (e_meta e)" for i
    using pd np bm.pages_bound [of "sn_sets sn"] bm.pages_bound [of "sn_clears sn"] by (auto simp: pending_ok_def snap_ok_def)
  have e1: "e1 = ?e\<lparr>e_setSince := ss, e_clearedSince := cs, e_pinTouched := e_pinTouched e \<or> sn_pin sn\<rparr>" and p1: "p1 = bump_failopen p"
    using f rc r(1) by (simp_all add: fm_finish_def)
  have sub: "bm_pages ss \<subseteq> bm_pages (bitmap (e_meta e))" "bm_pages cs \<inter> bm_pages (bitmap (e_meta e)) = {}"
    using r(6,7) D(6) pd by (auto simp: deltas_ok_def pending_ok_def)
  then have "entry_inv orig (e\<lparr>e_setSince := ss, e_clearedSince := cs\<rparr>)"
    using inv r by (simp add: entry_inv_def deltas_ok_def stage_ok_def staged_from_def)
  then show "entry_inv orig e1" by (simp add: e1 entry_inv_def deltas_ok_def stage_ok_def staged_from_def)
  show "same_entry e e1" "p_io p1 = p_io p" "e_dirty e1" "e_meta e1 = e_meta e" "e_pinTouched e1 = (e_pinTouched e \<or> sn_pin sn)"
    by (simp_all add: e1 p1 bump_failopen_def)
  show ss: "bm_pages (e_setSince e1) = bm_pages (e_setSince e) \<union> (bm_pages (sn_sets sn) - bm_pages (e_clearedSince e))"
    using r(6) bnd(1) by (auto simp: e1)
  show "bm_pages (e_clearedSince e1) = bm_pages (e_clearedSince e) \<union> (bm_pages (sn_clears sn) - bm_pages (e_setSince e1))"
    using r(6,7) bnd(2) by (auto simp: e1)
qed

lemma fm_finish_done:
  assumes inv: "entry_inv orig e" and f: "fm_finish sn (rc, merged, out) (p, e) = (p1, e1)" and rc: "0 \<le> rc"
    and out: "meta_ok out" "same_geo (e_meta e) out" "crcs_from orig out"
  shows "entry_inv orig e1" "same_entry e e1" "p1 = p" "e_dirty e1 = e_dirty e" "e_setSince e1 = e_setSince e"
    "e_clearedSince e1 = e_clearedSince e"
    "page_map (e_meta e1) = (if merged then adopt_map e (page_map out) else page_map (e_meta e))"
proof -
  note D = entry_invD [OF inv]
  let ?m1 = "fold (pt.apply_edit (adopt_edit out (e_setSince e) (e_clearedSince e))) [0..<npages (e_meta e)] (e_meta e)"
  note A = adopted [OF inv out]
  let ?f = "if e_pinTouched e then flags ?m1 else pin_from (flags ?m1) (flags out)"
  define m3 where "m3 = fix_complete (if e_pinTouched e then ?m1 else ?m1\<lparr>flags := pin_from (flags ?m1) (flags out)\<rparr>)"
  define m4 where "m4 = m3\<lparr>atime := max (atime m3) (atime out)\<rparr>"
  have e1: "e1 = (if merged then e\<lparr>e_meta := m4\<rparr> else e)" and p1: "p1 = p"
    using f rc by (auto simp: fm_finish_def adopt_pages_edit Let_def m3_def m4_def split: if_splits)
  have m3: "meta_ok m3" "page_map m3 = page_map ?m1" "same_geo ?m1 m3" "bm_pages (bitmap m3) = bm_pages (bitmap ?m1)"
    "pageCrcs m3 = pageCrcs ?m1" using A(1) by (simp_all add: m3_def)
  have m4: "meta_ok m4" "page_map m4 = page_map ?m1" "same_geo ?m1 m4" "bm_pages (bitmap m4) = bm_pages (bitmap ?m1)"
    using m3 meta_ok_atime [OF m3(1), of "max (atime m3) (atime out)"] out(1) by (auto simp: m4_def meta_ok_def same_geo_def)
  have "crcs_from orig m4"
    using A(3) m4 page_map_cong [OF m4(1), of orig] page_map_cong [OF A(1), of orig] entry_invD(3) [OF A(3)]
    by (simp add: same_geo_def)
  then have i4: "entry_inv orig (e\<lparr>e_meta := m4\<rparr>)"
    using entry_inv_meta [OF A(3), of m4] m4 by simp
  then show "entry_inv orig e1" using inv by (simp add: e1)
  show "same_entry e e1" using m4(3) by (simp add: e1 same_entry_def same_geo_def)
  show "p1 = p" "e_dirty e1 = e_dirty e" "e_setSince e1 = e_setSince e" "e_clearedSince e1 = e_clearedSince e"
    by (simp_all add: e1 p1)
  show "page_map (e_meta e1) = (if merged then adopt_map e (page_map out) else page_map (e_meta e))"
    using A(2) m4(2) by (simp add: e1)
qed

section \<open>The whole commit\<close>

lemma flushMeta_cases:
  assumes f: "flushMeta cfg now force (p, e) = (p1, e1)" and inv: "entry_inv orig e"
    and h: "data_held (e_metaPath e) (e_dataFd e) ino (p_io p)" and sc: "sidecar_from orig (e_metaPath e) (p_io p)"
  obtains (skip) "fm_begin cfg now force e = None" "p1 = p" "e1 = e"
  | (gone) sn where "fm_begin cfg now force e = Some (sn, e1)" "nlink (p_io p) ino = 0"
      "\<And>q. file_at (p_io p1) q = file_at (p_io p) q" "p1 = p\<lparr>p_io := p_io p1\<rparr>"
      "keeps (e_metaPath e) (e_dataFd e) ino (p_io p) (p_io p1)"
  | (stored) sn e' p' rc merged out where "fm_begin cfg now force e = Some (sn, e')"
      "fm_commit cfg sn p e' = (Some (rc, merged, out), p')" "fm_finish sn (rc, merged, out) (p', e') = (p1, e1)"
      "meta_ok out" "same_geo (e_meta e') out" "crcs_from orig out" "sidecar_from orig (e_metaPath e) (p_io p')"
      "keeps (e_metaPath e) (e_dataFd e) ino (p_io p) (p_io p')" "p' = p\<lparr>p_io := p_io p'\<rparr>"
proof (cases "fm_begin cfg now force e")
  case None
  then have "p1 = p" "e1 = e" using f by (simp_all add: flushMeta_def)
  with None show thesis by (rule skip)
next
  case (Some r)
  obtain sn e' where b: "fm_begin cfg now force e = Some (sn, e')" using Some by (cases r) auto
  note B = fm_begin_pending [OF inv b]
  obtain res p' where c: "fm_commit cfg sn p e' = (res, p')" by fastforce
  have h': "data_held (e_metaPath e') (e_dataFd e') ino (p_io p)" and sc': "sidecar_from orig (e_metaPath e') (p_io p)"
    using h sc B by simp_all
  note S = fm_commit_spec [OF c h']
  show thesis
  proof (cases res)
    case None
    then have e1: "e1 = e'" "p1 = p'" using f b c by (simp_all add: flushMeta_def)
    have b1: "fm_begin cfg now force e = Some (sn, e1)" using b e1(1) by simp
    show thesis
      by (rule gone [OF b1]) (use S(1,2) S(3) [OF None] B e1 in auto)
  next
    case (Some r)
    obtain rc merged out where r: "r = (rc, merged, out)" by (metis prod_cases3)
    note c' = c [unfolded Some r]
    have fin: "fm_finish sn (rc, merged, out) (p', e') = (p1, e1)" using f b c' by (simp add: flushMeta_def)
    note O = fm_commit_out [OF c' h' B(1,3) sc']
    show thesis by (rule stored [OF b c' fin O(1-3)]) (use O(4) S(1,2) B in auto)
  qed
qed

lemma flushMeta_keeps_inv:
  assumes f: "flushMeta cfg now force (p, e) = (p1, e1)" and inv: "entry_inv orig e"
    and h: "data_held (e_metaPath e) (e_dataFd e) ino (p_io p)" and sc: "sidecar_from orig (e_metaPath e) (p_io p)"
  shows "entry_inv orig e1" "same_entry e e1" "keeps (e_metaPath e) (e_dataFd e) ino (p_io p) (p_io p1)"
    "sidecar_from orig (e_metaPath e) (p_io p1)"
proof -
  have "entry_inv orig e1 \<and> same_entry e e1 \<and> keeps (e_metaPath e) (e_dataFd e) ino (p_io p) (p_io p1) \<and>
    sidecar_from orig (e_metaPath e) (p_io p1)"
    using f inv h sc
  proof (cases rule: flushMeta_cases)
    case skip
    then show ?thesis using inv sc by simp
  next
    case (gone sn)
    show ?thesis using fm_begin_pending(1,2) [OF inv gone(1)] sc sidecar_from_cong [OF gone(3)] gone(5) by simp
  next
    case (stored sn e' p' rc merged out)
    note B = fm_begin_pending [OF inv stored(1)]
    show ?thesis
    proof (cases "rc < 0")
      case True
      note F = fm_finish_fail [OF B(1,3) stored(3) True]
      show ?thesis using F(1-3) B(2) stored(7,8) same_entry_trans by auto
    next
      case False
      then have rc: "0 \<le> rc" by simp
      note F = fm_finish_done [OF B(1) stored(3) rc stored(4-6)]
      show ?thesis using F(1-3) B(2) stored(7,8) same_entry_trans by auto
    qed
  qed
  then show "entry_inv orig e1" "same_entry e e1" "keeps (e_metaPath e) (e_dataFd e) ino (p_io p) (p_io p1)"
    "sidecar_from orig (e_metaPath e) (p_io p1)" by auto
qed

section \<open>Without faults\<close>

lemma deserialize_key: "deserialize p = Some m \<Longrightarrow> length (key m) \<le> 65536"
  by (auto simp: deserialize_def Let_def split: if_splits)

lemma fm_commit_quiet:
  assumes q: "io_sched (p_io p) = []" and h: "data_held (e_metaPath e) (e_dataFd e) ino (p_io p)" and n: "0 < nlink (p_io p) ino"
    and f: "file_at (p_io p) (e_metaPath e) = Some bs" and l: "length bs \<le> 2 ^ 31" and d: "deserialize bs = Some d"
    and u: "usable cfg sn (e_key e) d"
  shows "fst (fm_commit cfg sn p e) = Some (0, True, merge_image sn d) \<and> io_sched (p_io (snd (fm_commit cfg sn p e))) = []"
proof -
  have c: "io_call (p_io p) = (0, p_io p)" "io_fstat_nlink (p_io p) (e_dataFd e) = (Inr (nlink (p_io p) ino), p_io p)"
    using q h by (simp_all add: io_call_def io_fstat_nlink_def data_held_def)
  have "0 < length bs" using deserialize_SomeD(1) [OF d] by linarith
  then obtain io3 where ld: "meta_load (p_io p) (e_metaPath e) = (Some d, io3)" "io_sched io3 = []"
    using meta_load_quiet [OF q f _ l] meta_load_sched [OF q, of "e_metaPath e"] d by (metis prod.collapse)
  have "io_ok io3" using meta_load_keeps [OF ld(1)] h by (auto simp: keeps_def data_held_def)
  from meta_store_quiet [OF ld(2) this]
  obtain io4 where st: "meta_store io3 (e_metaPath e) (merge_image sn d) (c_fsync cfg = kAll) = (0, io4)" "io_sched io4 = []"
    by (metis prod.collapse)
  show ?thesis
    using fm_commit_eq [OF _ _ ld(1) _ st(1), of p "Inr (nlink (p_io p) ino)" sn True] c n u st(2)
    by (simp add: merge_choice_def io_call_def)
qed

lemma fm_commit_rc:
  assumes "fm_commit cfg sn p e = (Some (rc, merged, out), p1)" shows "rc \<le> 0"
proof -
  obtain nl io2 where f: "io_fstat_nlink (snd (io_call (p_io p))) (e_dataFd e) = (nl, io2)" by fastforce
  have nl: "nl \<noteq> Inr 0" using assms f by (auto simp: fm_commit_def Let_def)
  obtain disk io3 where l: "meta_load io2 (e_metaPath e) = (disk, io3)" by fastforce
  obtain mg o1 where mc: "merge_choice cfg sn (e_key e) disk = (mg, o1)" by fastforce
  obtain rc1 io4 where s: "meta_store io3 (e_metaPath e) o1 (c_fsync cfg = kAll) = (rc1, io4)" by fastforce
  show ?thesis using fm_commit_eq [OF f nl l mc s] assms meta_store_rc [OF s] by simp
qed

section \<open>A sample entry\<close>

text \<open>A fresh entry keeps the invariant.\<close>

lemma new_entry_inv:
  assumes "meta_ok m" and "fileSize m < 2 ^ 61" and "length orig = fileSize m" and "crcs_from orig m"
  shows "entry_inv orig (new_entry k mp fd m dirty now)"
proof -
  have n: "npages m + 7 < 2 ^ 64" using assms(1) by (simp add: meta_ok_def)
  show ?thesis
    using assms bm.reset_ok [OF n]
    by (simp add: entry_inv_def new_entry_def stage_ok_def staged_from_def deltas_ok_def sm_ok_def sm_sum_def)
qed

text \<open>Two pages of sevens: this handle has just written page 0, the sidecar on disk holds page 1
  of a sibling.\<close>

definition two_orig :: bytes where "two_orig = replicate 5000 7"
definition two_meta :: metaData where "two_meta = fresh ''k'' 5000 4096 0"
definition two_disk :: metaData where "two_disk = put_page 1 (crc32c (page_of 4096 two_orig 1)) two_meta"
definition two_entry :: entry where
  "two_entry = publishPage (new_entry ''k'' ''m'' 3 two_meta True 0) 0 (crc32c (page_of 4096 two_orig 0))"
definition two_io :: "outcome list \<Rightarrow> io" where
  "two_io sch = \<lparr>io_names = [(''m'', 1), (''d'', 2)], io_inodes = [(1, serialize two_disk), (2, two_orig)], io_fds = [(3, 2)],
     io_next = 4, io_sched = sch\<rparr>"
definition two_proc :: "outcome list \<Rightarrow> proc" where "two_proc sch = sample_proc\<lparr>p_io := two_io sch\<rparr>"

lemma page_4096: "\<not> bad_pageSize 4096" "validPageSize 4096"
proof -
  have "(2 ^ 12 :: nat) AND (2 ^ 12 - 1) = take_bit 12 (2 ^ 12)" by (simp only: take_bit_eq_mask mask_eq_exp_minus_1)
  then have "(4096 :: nat) AND 4095 = 0" by simp
  then show "\<not> bad_pageSize 4096" "validPageSize 4096" by (simp_all add: bad_pageSize_def validPageSize_def)
qed

lemma two_meta_facts:
  "meta_ok two_meta" "npages two_meta = 2" "pageSize two_meta = 4096" "fileSize two_meta = 5000" "key two_meta = ''k''"
  "bm_pages (bitmap two_meta) = {}" "length (pageCrcs two_meta) = 2" "crcs_from two_orig two_meta"
proof -
  note b = page_4096(1)
  note f = fresh_fields [OF b, of 5000 "''k''" 0]
  show m: "meta_ok two_meta" unfolding two_meta_def by (rule fresh_meta_ok [OF b]) simp_all
  show "npages two_meta = 2" "pageSize two_meta = 4096" "fileSize two_meta = 5000" "key two_meta = ''k''" "length (pageCrcs two_meta) = 2"
    using f by (simp_all add: two_meta_def ceil_div_def) (simp_all add: fresh_def Let_def)
  show "bm_pages (bitmap two_meta) = {}" using f bm.reset_ok [of 2] by (simp add: two_meta_def ceil_div_def)
  then show "crcs_from two_orig two_meta" using crcs_from_pages [OF m] by simp
qed

lemma two_disk_facts:
  "meta_ok two_disk" "page_map two_disk 1 \<noteq> None" "crcs_from two_orig two_disk" "deserialize (serialize two_disk) = Some two_disk"
  "length (serialize two_disk) \<le> 2 ^ 31" "pageSize two_disk = 4096" "fileSize two_disk = 5000" "key two_disk = ''k''"
proof -
  note M = two_meta_facts
  note P = put_page_ok [OF M(1), of 1 "crc32c (page_of 4096 two_orig 1)"]
  show m: "meta_ok two_disk" "page_map two_disk 1 \<noteq> None" using P M(2) by (simp_all add: two_disk_def page_map_def)
  show "crcs_from two_orig two_disk" using put_page_crcs [OF M(1) _ M(8), of 1] M(2,3) by (simp add: two_disk_def)
  show k: "pageSize two_disk = 4096" "fileSize two_disk = 5000" "key two_disk = ''k''" using M by (simp_all add: two_disk_def)
  show "deserialize (serialize two_disk) = Some two_disk" using deserialize_serialize [OF m(1)] k by simp
  show "length (serialize two_disk) \<le> 2 ^ 31"
    using length_serialize [OF m(1)] M(2) k by (simp add: image_size_def crcs_off_def bitmap_off_def two_disk_def)
qed

lemma two_facts:
  "entry_inv two_orig two_entry" "e_dirty two_entry"
  "e_metaPath two_entry = ''m''" "e_dataFd two_entry = 3" "e_key two_entry = ''k''" "P_of two_entry = 4096"
  "fileSize (e_meta two_entry) = 5000" "page_map (e_meta two_entry) 0 \<noteq> None" "page_map (e_meta two_entry) 1 = None"
  "bm_pages (e_setSince two_entry) = {0}" "bm_pages (e_clearedSince two_entry) = {}"
  "adoptable default_config two_disk (e_key two_entry) (fileSize (e_meta two_entry)) (originMtime (e_meta two_entry)) (cksumKind (e_meta two_entry)) (originCksum (e_meta two_entry))"
proof -
  note M = two_meta_facts and D = two_disk_facts
  let ?c = "crc32c (page_of 4096 two_orig 0)" and ?e0 = "new_entry ''k'' ''m'' 3 two_meta True 0"
  have e0: "e_meta ?e0 = two_meta" "e_metaPath ?e0 = ''m''" "e_dataFd ?e0 = 3" "e_key ?e0 = ''k''" "e_dirty ?e0"
    "e_setSince ?e0 = bm_reset 2" "e_clearedSince ?e0 = bm_reset 2" using M by (simp_all add: new_entry_def)
  have i0: "entry_inv two_orig ?e0" using new_entry_inv [OF M(1)] M by (simp add: two_orig_def)
  show i: "entry_inv two_orig two_entry" unfolding two_entry_def using publishPage_inv [OF i0] M e0 by simp
  have e: "e_meta two_entry = put_page 0 ?c two_meta" "e_metaPath two_entry = ''m''" "e_dataFd two_entry = 3" "e_key two_entry = ''k''"
    "e_dirty two_entry" "e_setSince two_entry = bm_set (bm_reset 2) 0" "e_clearedSince two_entry = bm_clear (bm_reset 2) 0"
    using e0 by (simp_all add: two_entry_def publishPage_eq)
  then show "e_dirty two_entry" "e_metaPath two_entry = ''m''" "e_dataFd two_entry = 3" "e_key two_entry = ''k''" "P_of two_entry = 4096"
    "fileSize (e_meta two_entry) = 5000" using M by simp_all
  have "bm_pages (bitmap (e_meta two_entry)) = {0}" using put_page_ok(2) [OF M(1), of 0 ?c] M e by simp
  then show "page_map (e_meta two_entry) 0 \<noteq> None" "page_map (e_meta two_entry) 1 = None" by (simp_all add: page_map_def)
  show "bm_pages (e_setSince two_entry) = {0}" "bm_pages (e_clearedSince two_entry) = {}"
    using bm.reset_ok [of 2] bm.put_ok [of "bm_reset 2" 0] bm.del_ok [of "bm_reset 2" 0] by (simp_all add: e)
  show "adoptable default_config two_disk (e_key two_entry) (fileSize (e_meta two_entry)) (originMtime (e_meta two_entry)) (cksumKind (e_meta two_entry)) (originCksum (e_meta two_entry))"
    using meta_ok_pages [OF D(1)] M D e page_4096 by (simp add: adoptable_def default_config_def)
qed

lemma two_io_facts:
  "data_held (e_metaPath two_entry) (e_dataFd two_entry) 2 (p_io (two_proc sch))"
  "sidecar_from two_orig (e_metaPath two_entry) (p_io (two_proc sch))" "0 < nlink (p_io (two_proc sch)) 2"
  "file_at (p_io (two_proc sch)) (e_metaPath two_entry) = Some (serialize two_disk)" "io_sched (p_io (two_proc sch)) = sch"
proof -
  note e = two_facts(3,4)
  show "data_held (e_metaPath two_entry) (e_dataFd two_entry) 2 (p_io (two_proc sch))"
    by (simp add: data_held_def e two_proc_def two_io_def io_ok_def tmp_private_def)
  show f: "file_at (p_io (two_proc sch)) (e_metaPath two_entry) = Some (serialize two_disk)" "0 < nlink (p_io (two_proc sch)) 2"
      "io_sched (p_io (two_proc sch)) = sch"
    by (simp_all add: e two_proc_def two_io_def file_at_def content_def nlink_def)
  show "sidecar_from two_orig (e_metaPath two_entry) (p_io (two_proc sch))" using sidecar_from_store [OF f(1)] two_disk_facts by simp
qed

text \<open>A commit that meets the image of a sibling and no fault.\<close>

lemma commit_page_map:
  assumes "flushMeta cfg now True (p, e) = (p1, e1)" and "entry_inv orig e" and "e_dirty e"
    and "data_held (e_metaPath e) (e_dataFd e) ino (p_io p)" and "sidecar_from orig (e_metaPath e) (p_io p)"
    and "io_sched (p_io p) = []" and "0 < nlink (p_io p) ino"
    and "file_at (p_io p) (e_metaPath e) = Some bs" and "length bs \<le> 2 ^ 31" and "deserialize bs = Some d"
    and "pageSize d = P_of e"
    and "adoptable cfg d (e_key e) (fileSize (e_meta e)) (originMtime (e_meta e)) (cksumKind (e_meta e)) (originCksum (e_meta e))"
  shows "io_sched (p_io p1) = [] \<and> (\<exists>d1. same_geo (e_meta e) d1 \<and> file_at (p_io p1) (e_metaPath e) = Some (serialize d1) \<and> deserialize (serialize d1) = Some d1 \<and>
    page_map d1 = (\<lambda>i. if i \<in> bm_pages (e_clearedSince e) then None
                       else if i \<in> bm_pages (e_setSince e) then Some (pageCrcs (e_meta e) ! i) else page_map d i) \<and>
    page_map (e_meta e1) = page_map d1 \<and> \<not> e_dirty e1 \<and> bm_pages (e_setSince e1) = {} \<and> bm_pages (e_clearedSince e1) = {})"
  using assms(1,2,4,5)
proof (cases rule: flushMeta_cases)
  case skip
  then show ?thesis using assms(3) by (simp add: fm_begin_def)
next
  case (gone sn)
  then show ?thesis using assms(7) by simp
next
  case (stored sn e' p' rc merged out)
  note B = fm_begin_pending [OF assms(2) stored(1)]
  have h': "data_held (e_metaPath e') (e_dataFd e') ino (p_io p)" using assms(4) B by simp
  have us: "usable cfg sn (e_key e') d" using assms(11,12) B by (simp add: usable_def)
  note C = fm_commit_quiet [OF assms(6) h' assms(7) _ assms(9,10) us]
  have rc: "rc = 0" "merged" "out = merge_image sn d" and sch: "io_sched (p_io p') = []" using C stored(2) assms(8) B by auto
  note S = fm_commit_spec(4) [OF stored(2) h' refl]
  have f: "file_at (p_io p') (e_metaPath e) = Some (serialize out)" using S rc(1) B by auto
  have sn: "snap_ok sn" "meta_ok (sn_meta sn)" "fileSize (sn_meta sn) < 2 ^ 61"
    using B(3,8) entry_invD(1,7) [OF assms(2)] by (auto simp: pending_ok_def)
  note U = usableD [OF us sn(2,3) assms(10)]
  note M = merge_image_ok [OF sn(1) U(1,3)]
  have "length (key out) \<le> 64 * 1024" using M(3) deserialize_key [OF assms(10)] rc(3) by simp
  then have d1: "deserialize (serialize out) = Some out" using deserialize_serialize [OF stored(4)] by simp
  have "0 \<le> rc" using rc by simp
  note F = fm_finish_done [OF B(1) stored(3) this stored(4-6)]
  have "adopt_map e' (page_map out) = page_map out" using B(11,12) by (simp add: adopt_map_def fun_eq_iff)
  then show ?thesis
    using stored(5) f d1 F B rc M(4) sch by (intro conjI exI [of _ out]) (auto simp: commit_map_def fun_eq_iff)
qed

section \<open>Properties\<close>

text \<open>C3. The commit of the sidecar refines an edit of a page map. When another process's image is on
  disk and nothing fails, a forced commit of a changed entry leaves on disk, and in memory,
  exactly the map on disk with the pages this handle cleared removed and the pages it set
  added: a page a sibling published survives, a page a sibling cleared stays cleared.
  Nothing stays pending.\<close>

theorem commit_refines_page_map:
  assumes "flushMeta cfg now True (p, e) = (p1, e1)" and "entry_inv orig e" and "e_dirty e"
    and "data_held (e_metaPath e) (e_dataFd e) ino (p_io p)" and "sidecar_from orig (e_metaPath e) (p_io p)"
    and "io_sched (p_io p) = []" and "0 < nlink (p_io p) ino"
    and "file_at (p_io p) (e_metaPath e) = Some bs" and "length bs \<le> 2 ^ 31" and "deserialize bs = Some d"
    and "pageSize d = P_of e"
    and "adoptable cfg d (e_key e) (fileSize (e_meta e)) (originMtime (e_meta e)) (cksumKind (e_meta e)) (originCksum (e_meta e))"
  shows "\<exists>d1. file_at (p_io p1) (e_metaPath e) = Some (serialize d1) \<and> deserialize (serialize d1) = Some d1 \<and>
    page_map d1 = (\<lambda>i. if i \<in> bm_pages (e_clearedSince e) then None
                       else if i \<in> bm_pages (e_setSince e) then Some (pageCrcs (e_meta e) ! i) else page_map d i) \<and>
    page_map (e_meta e1) = page_map d1 \<and> \<not> e_dirty e1 \<and> bm_pages (e_setSince e1) = {} \<and> bm_pages (e_clearedSince e1) = {}"
  using commit_page_map [OF assms] by blast

theorem commit_refines_page_map_witness:
  "page_map (e_meta two_entry) 1 = None \<and> (\<exists>p1 e1. flushMeta default_config 0 True (two_proc [], two_entry) = (p1, e1) \<and>
     page_map (e_meta e1) 0 \<noteq> None \<and> page_map (e_meta e1) 1 \<noteq> None \<and> \<not> e_dirty e1)"
proof -
  obtain p1 e1 where f: "flushMeta default_config 0 True (two_proc [], two_entry) = (p1, e1)" by fastforce
  note T = two_facts and I = two_io_facts [of "[]"]
  have ps: "pageSize two_disk = P_of two_entry" using two_disk_facts T by simp
  from commit_refines_page_map [OF f T(1,2) I(1,2,5,3,4) two_disk_facts(5,4) ps T(12)]
  have "page_map (e_meta e1) = (\<lambda>i. if i \<in> bm_pages (e_clearedSince two_entry) then None
      else if i \<in> bm_pages (e_setSince two_entry) then Some (pageCrcs (e_meta two_entry) ! i) else page_map two_disk i)" "\<not> e_dirty e1"
    by auto
  with f T(9-11) two_disk_facts(2) show ?thesis by auto
qed

text \<open>C4. Whatever fails during a commit, it is all or nothing. Either the sidecar keeps its bytes and
  every change of this handle is still pending, to be committed by a later flush, or the
  sidecar is the image of exactly the pages the entry now publishes and nothing is
  pending. In both cases the data file keeps its bytes.\<close>

theorem commit_all_or_nothing:
  assumes "flushMeta cfg now force (p, e) = (p1, e1)" and "entry_inv orig e"
    and "data_held (e_metaPath e) (e_dataFd e) ino (p_io p)" and "sidecar_from orig (e_metaPath e) (p_io p)"
    and "0 < nlink (p_io p) ino"
  shows "content (p_io p1) ino = content (p_io p) ino \<and> entry_inv orig e1 \<and>
    (file_at (p_io p1) (e_metaPath e) = file_at (p_io p) (e_metaPath e) \<and> e_dirty e1 = e_dirty e \<and>
       bm_pages (e_setSince e1) = bm_pages (e_setSince e) \<and> bm_pages (e_clearedSince e1) = bm_pages (e_clearedSince e) \<and>
       e_pinTouched e1 = e_pinTouched e \<and> page_map (e_meta e1) = page_map (e_meta e) \<or>
     (\<exists>out. file_at (p_io p1) (e_metaPath e) = Some (serialize out) \<and> meta_ok out \<and> page_map (e_meta e1) = page_map out \<and>
       \<not> e_dirty e1 \<and> bm_pages (e_setSince e1) = {} \<and> bm_pages (e_clearedSince e1) = {}))"
proof -
  note K = flushMeta_keeps_inv [OF assms(1-4)]
  have k: "content (p_io p1) ino = content (p_io p) ino" using K(3) assms(3) by (simp add: keeps_def)
  from assms(1-4) show ?thesis
  proof (cases rule: flushMeta_cases)
    case skip
    then show ?thesis using assms(2) by simp
  next
    case (gone sn)
    then show ?thesis using assms(5) by simp
  next
    case (stored sn e' p' rc merged out)
    note B = fm_begin_pending [OF assms(2) stored(1)]
    have h': "data_held (e_metaPath e') (e_dataFd e') ino (p_io p)" using assms(3) B by simp
    note S = fm_commit_spec(4) [OF stored(2) h' refl]
    have ne: "e_metaPath e \<noteq> e_metaPath e @ ''.tmp''" by simp
    have disj: "bm_pages (e_clearedSince e) \<inter> bm_pages (e_setSince e) = {}"
      using entry_invD(6) [OF assms(2)] by (auto simp: deltas_ok_def)
    show ?thesis
    proof (cases "rc < 0")
      case True
      note F = fm_finish_fail [OF B(1,3) stored(3) True]
      have "file_at (p_io p1) (e_metaPath e) = file_at (p_io p) (e_metaPath e)" using S ne True B F(3) by auto
      with K(1) k F(4-8) B(7,9,11-16) disj show ?thesis by auto
    next
      case False
      then have rc: "rc = 0" using fm_commit_rc [OF stored(2)] by simp
      have "0 \<le> rc" using rc by simp
      note F = fm_finish_done [OF B(1) stored(3) this stored(4-6)]
      have f: "file_at (p_io p1) (e_metaPath e) = Some (serialize out)" using S ne rc B F(3) by auto
      have "adopt_map e' (page_map out) = page_map out" using B(11,12) by (simp add: adopt_map_def fun_eq_iff)
      moreover have "\<not> merged \<Longrightarrow> out = e_meta e'" using S B by (auto split: if_splits)
      ultimately have "page_map (e_meta e1) = page_map out" using F(7) by (auto split: if_splits)
      with K(1) k f stored(4) F(4-6) B(10-12) show ?thesis by auto
    qed
  qed
qed

theorem commit_all_or_nothing_witness:
  "\<exists>p1 e1. flushMeta default_config 0 True (two_proc [Done, Err 5, Partial 1, Done, Err 28], two_entry) = (p1, e1) \<and>
     content (p_io p1) 2 = two_orig \<and> entry_inv two_orig e1"
proof -
  let ?p = "two_proc [Done, Err 5, Partial 1, Done, Err 28]"
  obtain p1 e1 where f: "flushMeta default_config 0 True (?p, two_entry) = (p1, e1)" by fastforce
  note I = two_io_facts [of "[Done, Err 5, Partial 1, Done, Err 28]"]
  have "content (p_io ?p) 2 = two_orig" by (simp add: two_proc_def two_io_def content_def)
  with f commit_all_or_nothing [OF f two_facts(1) I(1-3)] show ?thesis by auto
qed

text \<open>C36. A commit cannot tell an absent sidecar from one it failed to read: when the disk image cannot be
  opened because of one transient error, a commit that then succeeds stores this handle's
  whole view, and the pages that siblings had published there are no longer recorded.\<close>

theorem load_error_drops_siblings:
  assumes "flushMeta cfg now True (p, e) = (p1, e1)" and "entry_inv orig e" and "e_dirty e"
    and "data_held (e_metaPath e) (e_dataFd e) ino (p_io p)" and "sidecar_from orig (e_metaPath e) (p_io p)"
    and "0 < nlink (p_io p) ino" and "io_sched (p_io p) = [Done, Done, Err 5]"
  shows "file_at (p_io p1) (e_metaPath e) = Some (serialize (e_meta e)) \<and> page_map (e_meta e1) = page_map (e_meta e) \<and>
    \<not> e_dirty e1"
  using assms(1,2,4,5)
proof (cases rule: flushMeta_cases)
  case skip
  then show ?thesis using assms(3) by (simp add: fm_begin_def)
next
  case (gone sn)
  then show ?thesis using assms(6) by simp
next
  case (stored sn e' p' rc merged out)
  note B = fm_begin_pending [OF assms(2) stored(1)]
  have h': "data_held (e_metaPath e') (e_dataFd e') ino (p_io p)" using assms(4) B by simp
  let ?io = "(p_io p)\<lparr>io_sched := []\<rparr>"
  have c: "snd (io_call (p_io p)) = (p_io p)\<lparr>io_sched := [Done, Err 5]\<rparr>"
    using assms(7) by (simp add: io_call_def next_outcome_def)
  have f: "io_fstat_nlink (snd (io_call (p_io p))) (e_dataFd e') = (Inr (nlink (p_io p) ino), (p_io p)\<lparr>io_sched := [Err 5]\<rparr>)"
    using h' by (simp add: c io_fstat_nlink_def next_outcome_def data_held_def nlink_def)
  have l: "meta_load ((p_io p)\<lparr>io_sched := [Err 5]\<rparr>) (e_metaPath e') = (None, ?io)"
    by (simp add: meta_load_def read_image_def io_stat_def next_outcome_def)
  have "io_ok ?io" using h' by (simp add: data_held_def io_ok_def)
  then have q: "fst (meta_store ?io (e_metaPath e') (sn_meta sn) (c_fsync cfg = kAll)) = 0"
    using meta_store_quiet [of ?io "e_metaPath e'"] by simp
  define io4 where "io4 = snd (meta_store ?io (e_metaPath e') (sn_meta sn) (c_fsync cfg = kAll))"
  have st: "meta_store ?io (e_metaPath e') (sn_meta sn) (c_fsync cfg = kAll) = (0, io4)"
    using q by (simp add: io4_def prod_eq_iff)
  have "fm_commit cfg sn p e' = (Some (0, False, sn_meta sn), p\<lparr>p_io := snd (io_call io4)\<rparr>)"
    by (rule fm_commit_eq [OF f _ l _ st]) (use assms(6) in \<open>simp_all add: merge_choice_def\<close>)
  then have rc: "rc = 0" "\<not> merged" "out = e_meta e" using stored(2) B(8) by auto
  have ne: "e_metaPath e \<noteq> e_metaPath e @ ''.tmp''" by simp
  have "0 \<le> rc" using rc by simp
  note F = fm_finish_done [OF B(1) stored(3) this stored(4-6)]
  have "file_at (p_io p1) (e_metaPath e) = Some (serialize out)"
    using fm_commit_spec(4) [OF stored(2) h' refl] ne rc B F(3) by auto
  with F(4,7) rc B(7,10) show ?thesis by auto
qed

theorem load_error_drops_siblings_witness:
  "page_map two_disk 1 \<noteq> None \<and> (\<exists>p1 e1 d. flushMeta default_config 0 True (two_proc [Done, Done, Err 5], two_entry) = (p1, e1) \<and>
     file_at (p_io p1) ''m'' = Some (serialize d) \<and> page_map d 1 = None \<and> \<not> e_dirty e1)"
proof -
  obtain p1 e1 where f: "flushMeta default_config 0 True (two_proc [Done, Done, Err 5], two_entry) = (p1, e1)" by fastforce
  note I = two_io_facts [of "[Done, Done, Err 5]"]
  from load_error_drops_siblings [OF f two_facts(1,2) I(1-3,5)] f two_facts(3,9) two_disk_facts(2)
  show ?thesis by auto
qed

end
