(* ===== verification/Entry_Drain.thy ===== *)
theory Entry_Drain
  imports Entry_Flush_Meta
begin

text \<open>
  Draining the fill buffer. A page is recorded as present only after its bytes are in the
  data file: whatever the writes below return, every page that the entry or the sidecar
  publishes has the origin's bytes on disk. Speculative pages are never written.
\<close>

section \<open>Writes of origin bytes\<close>

definition good :: "bytes \<Rightarrow> metaData \<Rightarrow> bytes \<Rightarrow> nat \<Rightarrow> bool" where
  "good orig m bs i \<longleftrightarrow> slice (i * pageSize m) (pageBytes m i) bs = page_of (pageSize m) orig i"

lemma slice_same:
  assumes "a + n \<le> length xs" and "a + n \<le> length ys" and "\<And>i. i < n \<Longrightarrow> xs ! (a + i) = ys ! (a + i)"
  shows "slice a n xs = slice a n ys"
  by (rule nth_equalityI) (use assms in \<open>auto simp: slice_nth\<close>)

lemma nth_pwrite_bytes:
  assumes "x < length (pwrite_bytes bs off xs)"
  shows "pwrite_bytes bs off xs ! x =
    (if off \<le> x \<and> x < off + length xs then xs ! (x - off) else if x < length bs then bs ! x else 0)"
  using assms by (auto simp: pwrite_bytes_def nth_append min_def)

lemma pwrite_origin_agrees:
  assumes "slice a n bs = slice a n orig" and "a + n \<le> length orig" and "off + k \<le> length orig"
  shows "slice a n (pwrite_bytes bs off (slice off k orig)) = slice a n orig"
proof (cases "k = 0 \<or> n = 0")
  case False
  let ?xs = "slice off k orig"
  have xs: "?xs \<noteq> []" "length ?xs = k" using assms(3) False by (auto simp: slice_def)
  have "length (slice a n bs) = n" using assms(1,2) by simp
  then have bs: "a + n \<le> length bs" using False by (simp add: min_def split: if_splits)
  have l: "a + n \<le> length (pwrite_bytes bs off ?xs)" using bs length_pwrite_bytes [OF xs(1)] by simp
  have same: "bs ! x = orig ! x" if "a \<le> x" "x < a + n" for x
    using arg_cong [OF assms(1), of "\<lambda>s. s ! (x - a)"] that bs assms(2) by (simp add: slice_nth)
  show ?thesis
  proof (rule slice_same)
    show "a + n \<le> length (pwrite_bytes bs off ?xs)" "a + n \<le> length orig" by (rule l, rule assms(2))
    fix i assume i: "i < n"
    then have "a + i < length (pwrite_bytes bs off ?xs)" using l by simp
    note N = nth_pwrite_bytes [OF this]
    show "pwrite_bytes bs off ?xs ! (a + i) = orig ! (a + i)"
      unfolding N using same [of "a + i"] i bs assms(3) xs(2) by (auto simp: slice_nth)
  qed
qed (auto simp: assms(1))

lemma pwrite_origin_in:
  assumes "off \<le> a" and "a + n \<le> off + k" and "off + k \<le> length orig"
  shows "slice a n (pwrite_bytes bs off (slice off k orig)) = slice a n orig"
proof (cases "n = 0")
  case False
  let ?xs = "slice off k orig"
  have xs: "?xs \<noteq> []" "length ?xs = k" using assms False by (auto simp: slice_def)
  have l: "off + k \<le> length (pwrite_bytes bs off ?xs)" using length_pwrite_bytes [OF xs(1)] xs(2) by simp
  show ?thesis
  proof (rule slice_same)
    show "a + n \<le> length (pwrite_bytes bs off ?xs)" "a + n \<le> length orig" using l assms by simp_all
    fix i assume i: "i < n"
    then have "a + i < length (pwrite_bytes bs off ?xs)" using l assms(2) by simp
    note N = nth_pwrite_bytes [OF this]
    show "pwrite_bytes bs off ?xs ! (a + i) = orig ! (a + i)"
      unfolding N using i assms xs(2) by (auto simp: slice_nth)
  qed
qed simp

lemma page_in_orig:
  "meta_ok m \<Longrightarrow> i < npages m \<Longrightarrow> length orig = fileSize m \<Longrightarrow> i * pageSize m + pageBytes m i \<le> length orig"
  using page_end [of m i] by simp

lemma good_iff:
  assumes "meta_ok m" and "i < npages m" and "length orig = fileSize m"
  shows "good orig m bs i \<longleftrightarrow> slice (i * pageSize m) (pageBytes m i) bs = slice (i * pageSize m) (pageBytes m i) orig"
  using page_of_eq [OF assms] by (simp add: good_def)

section \<open>The runs of a drain\<close>

text \<open>The bytes of pages \<open>a\<close> up to, not including, \<open>n\<close>.\<close>

definition span_bytes :: "bytes \<Rightarrow> metaData \<Rightarrow> nat \<Rightarrow> nat \<Rightarrow> bytes" where
  "span_bytes orig m a n = slice (a * pageSize m) (min (n * pageSize m) (fileSize m) - a * pageSize m) orig"

definition stage_from :: "bytes \<Rightarrow> metaData \<Rightarrow> stage \<Rightarrow> bool" where
  "stage_from orig m st \<longleftrightarrow> (\<forall>(i, b)\<in>set st. i < npages m \<and> bp_data b = page_of (pageSize m) orig i \<and>
     bp_crc b = crc32c (page_of (pageSize m) orig i))"

definition crc_of :: "bytes \<Rightarrow> metaData \<Rightarrow> nat \<Rightarrow> nat \<times> u32" where
  "crc_of orig m i = (i, crc32c (page_of (pageSize m) orig i))"

lemma span_bytes_step:
  assumes m: "meta_ok m" and l: "length orig = fileSize m" and a: "a \<le> i" "i < npages m"
  shows "span_bytes orig m a i @ page_of (pageSize m) orig i = span_bytes orig m a (Suc i)"
proof -
  have "i * pageSize m < fileSize m" using page_in_file [OF m] a(2) by simp
  moreover have "a * pageSize m \<le> i * pageSize m" using a(1) by simp
  moreover have "i * pageSize m + pageBytes m i = min (Suc i * pageSize m) (fileSize m)" by (rule page_end [OF m a(2)])
  ultimately have "min (Suc i * pageSize m) (fileSize m) - a * pageSize m = (min (i * pageSize m) (fileSize m) - a * pageSize m) + pageBytes m i"
    and "a * pageSize m + (min (i * pageSize m) (fileSize m) - a * pageSize m) = i * pageSize m" by linarith+
  then show ?thesis
    unfolding span_bytes_def page_of_eq [OF m a(2) l] by (metis slice_split)
qed

lemma take_run_spec:
  "meta_ok m \<Longrightarrow> length orig = fileSize m \<Longrightarrow> take_run m nxt run ps st = (r, qs, rest) \<Longrightarrow> stage_from orig m st \<Longrightarrow>
   a \<le> nxt \<Longrightarrow> nxt \<le> npages m \<Longrightarrow> run = span_bytes orig m a nxt \<Longrightarrow>
    \<exists>n pre. nxt \<le> n \<and> n \<le> npages m \<and> r = span_bytes orig m a n \<and> qs = ps @ map (crc_of orig m) [nxt..<n] \<and>
      st = pre @ rest \<and> map fst pre = [nxt..<n]"
proof (induction m nxt run ps st rule: take_run.induct)
  case (2 m nxt run pages i b st)
  note pr = "2.prems"
  show ?case
  proof (cases "i = nxt \<and> length run < kMaxRun")
    case False
    then show ?thesis using pr by (intro exI [of _ nxt] exI [of _ "[]"]) auto
  next
    case True
    have p: "nxt < npages m" "bp_data b = page_of (pageSize m) orig nxt" "bp_crc b = crc32c (page_of (pageSize m) orig nxt)"
      "stage_from orig m st"
      using pr(4) True by (auto simp: stage_from_def)
    have run: "run @ take (pageBytes m i) (bp_data b) = span_bytes orig m a (Suc nxt)"
      using length_page_of [OF pr(1) p(1) pr(2)] p(2) True pr(7) span_bytes_step [OF pr(1,2,5) p(1)] by simp
    have t: "take_run m (Suc nxt) (run @ take (pageBytes m i) (bp_data b)) (pages @ [(i, bp_crc b)]) st = (r, qs, rest)"
      using pr(3) True by simp
    have s: "a \<le> Suc nxt" "Suc nxt \<le> npages m" using pr(5) p(1) by simp_all
    from "2.IH" [OF True pr(1,2) t p(4) s run]
    obtain n pre where n: "Suc nxt \<le> n" "n \<le> npages m" "r = span_bytes orig m a n"
        "qs = (pages @ [(i, bp_crc b)]) @ map (crc_of orig m) [Suc nxt..<n]" "st = pre @ rest" "map fst pre = [Suc nxt..<n]"
      by blast
    then show ?thesis
      using True p(3) by (intro exI [of _ n] exI [of _ "(i, b) # pre"]) (auto simp: upt_conv_Cons crc_of_def)
  qed
qed auto

text \<open>What a drain has done to the data file: bytes that agreed with the origin still do, the pages
  it reports are good and were staged; nothing but the data inode changed.\<close>

definition grows :: "bytes \<Rightarrow> bytes \<Rightarrow> bytes \<Rightarrow> bool" where
  "grows orig bs bs' \<longleftrightarrow> (\<forall>a n. a + n \<le> length orig \<longrightarrow> slice a n bs = slice a n orig \<longrightarrow> slice a n bs' = slice a n orig)"

lemma grows_refl [simp]: "grows orig bs bs"
  by (simp add: grows_def)

lemma grows_trans: "grows orig a b \<Longrightarrow> grows orig b c \<Longrightarrow> grows orig a c"
  by (simp add: grows_def)

lemma grows_good:
  assumes "grows orig bs bs'" and "meta_ok m" and "i < npages m" and "length orig = fileSize m" and "good orig m bs i"
  shows "good orig m bs' i"
  using assms good_iff [OF assms(2-4)] page_in_orig [OF assms(2-4)] by (simp add: grows_def)

text \<open>Bytes outside the pages \<open>S\<close> are as before; where the file has grown they are a hole.\<close>

definition untouched :: "metaData \<Rightarrow> nat set \<Rightarrow> bytes \<Rightarrow> bytes \<Rightarrow> bool" where
  "untouched m S bs bs' \<longleftrightarrow> length bs \<le> length bs' \<and> (\<forall>x<length bs'. x div pageSize m \<notin> S \<longrightarrow> bs' ! x = (if x < length bs then bs ! x else 0))"

lemma untouched_trans:
  assumes "untouched m S a b" and "untouched m T b c"
  shows "untouched m (S \<union> T) a c"
proof -
  have l: "length a \<le> length b" "length b \<le> length c" using assms by (simp_all add: untouched_def)
  have "c ! x = (if x < length a then a ! x else 0)" if x: "x < length c" "x div pageSize m \<notin> S \<union> T" for x
  proof -
    have c: "c ! x = (if x < length b then b ! x else 0)" using assms(2) x by (simp add: untouched_def)
    have "b ! x = (if x < length a then a ! x else 0)" if "x < length b" using assms(1) x that by (simp add: untouched_def)
    with c l show ?thesis by simp
  qed
  with l show ?thesis by (simp add: untouched_def)
qed

lemma untouched_mono: "untouched m S a b \<Longrightarrow> S \<subseteq> T \<Longrightarrow> untouched m T a b"
  unfolding untouched_def by blast

lemma untouched_refl [simp]: "untouched m S a a"
  by (simp add: untouched_def)

definition drained :: "bytes \<Rightarrow> metaData \<Rightarrow> nat \<Rightarrow> nat set \<Rightarrow> proc \<Rightarrow> (nat \<times> u32) list \<Rightarrow> proc \<Rightarrow> (nat \<times> u32) list \<Rightarrow> bool" where
  "drained orig m ino S p pub p1 pub1 \<longleftrightarrow> io_frame ino (p_io p) (p_io p1) \<and> g_bufTotal p1 = g_bufTotal p \<and> g_specTotal p1 = g_specTotal p \<and>
     grows orig (content (p_io p) ino) (content (p_io p1) ino) \<and> untouched m S (content (p_io p) ino) (content (p_io p1) ino) \<and>
     (\<exists>is. pub1 = pub @ map (crc_of orig m) is \<and> set is \<subseteq> S \<and> (\<forall>i\<in>set is. i < npages m \<and> good orig m (content (p_io p1) ino) i))"

lemma drained_step:
  assumes "drained orig m ino S p pub p1 pub1" and "drained orig m ino T p1 pub1 p2 pub2"
    and "meta_ok m" and "length orig = fileSize m"
  shows "drained orig m ino (S \<union> T) p pub p2 pub2"
proof -
  obtain xs where xs: "pub1 = pub @ map (crc_of orig m) xs" "set xs \<subseteq> S" "\<forall>i\<in>set xs. i < npages m \<and> good orig m (content (p_io p1) ino) i"
    using assms(1) by (auto simp: drained_def)
  obtain ys where ys: "pub2 = pub1 @ map (crc_of orig m) ys" "set ys \<subseteq> T" "\<forall>i\<in>set ys. i < npages m \<and> good orig m (content (p_io p2) ino) i"
    using assms(2) by (auto simp: drained_def)
  have "\<exists>is. pub2 = pub @ map (crc_of orig m) is \<and> set is \<subseteq> S \<union> T \<and> (\<forall>i\<in>set is. i < npages m \<and> good orig m (content (p_io p2) ino) i)"
    using xs ys assms(2) grows_good [OF _ assms(3) _ assms(4)] by (intro exI [of _ "xs @ ys"]) (auto simp: drained_def)
  moreover have "untouched m (S \<union> T) (content (p_io p) ino) (content (p_io p2) ino)"
    "grows orig (content (p_io p) ino) (content (p_io p2) ino)" "io_frame ino (p_io p) (p_io p2)"
    using assms(1,2) untouched_trans grows_trans io_frame_trans unfolding drained_def by blast+
  ultimately show ?thesis using assms(1,2) by (simp add: drained_def)
qed

lemma drained_refl [simp]: "drained orig m ino S p pub p pub"
  by (auto simp: drained_def io_frame_def)

lemma drained_mono: "drained orig m ino S p pub p1 pub1 \<Longrightarrow> S \<subseteq> T \<Longrightarrow> drained orig m ino T p pub p1 pub1"
  unfolding drained_def using untouched_mono by blast

lemma drained_stats: "drained orig m ino S p pub p1 pub1 \<Longrightarrow> p_io p2 = p_io p1 \<Longrightarrow> g_bufTotal p2 = g_bufTotal p1 \<Longrightarrow>
    g_specTotal p2 = g_specTotal p1 \<Longrightarrow> drained orig m ino S p pub p2 pub1"
  by (simp add: drained_def)

text \<open>One write of a run, successful or not.\<close>

lemma write_run:
  assumes m: "meta_ok m" and l: "length orig = fileSize m" and a: "a \<le> n" "n \<le> npages m" "a < npages m"
    and fd: "map_of (io_fds (p_io p)) fd = Some ino"
    and w: "pwriteFull (p_io p) fd (span_bytes orig m a n) (a * pageSize m) 0 = (r, io1)"
  shows "drained orig m ino {a..<n} p pub (p\<lparr>p_io := io1\<rparr>) pub"
    "r = int (length (span_bytes orig m a n)) \<Longrightarrow>
     drained orig m ino {a..<n} p pub (p\<lparr>p_io := io1\<rparr>) (pub @ map (crc_of orig m) [a..<n])"
proof -
  let ?P = "pageSize m" and ?xs = "span_bytes orig m a n" and ?k = "min (n * pageSize m) (fileSize m) - a * pageSize m"
  have aP: "a * ?P < fileSize m" using page_in_file [OF m] a(3) by simp
  have an: "a * ?P \<le> n * ?P" using a(1) by simp
  have k: "a * ?P + ?k = min (n * ?P) (fileSize m)" "a * ?P + ?k \<le> length orig" using aP an l by linarith+
  have xs: "?xs = slice (a * ?P) ?k orig" by (simp add: span_bytes_def)
  from pwriteFull_spec [OF w fd, of "content (p_io p) ino"]
  obtain j where j: "io_frame ino (p_io p) io1" "j \<le> length ?xs"
      "content io1 ino = pwrite_bytes (content (p_io p) ino) (a * ?P) (take j ?xs)" "0 \<le> r \<Longrightarrow> j = length ?xs"
    by auto
  have tj: "take j ?xs = slice (a * ?P) j orig" "a * ?P + j \<le> length orig"
  proof -
    define kk where "kk = ?k"
    have "length ?xs = kk" using k(2) unfolding xs kk_def by simp
    then have "j \<le> kk" using j(2) by simp
    then show "take j ?xs = slice (a * ?P) j orig" "a * ?P + j \<le> length orig"
      using k(2) unfolding xs kk_def [symmetric] by (simp_all add: slice_def)
  qed
  have g: "grows orig (content (p_io p) ino) (content io1 ino)"
    using pwrite_origin_agrees [OF _ _ tj(2)] j(3) tj(1) by (simp add: grows_def)
  have u: "untouched m {a..<n} (content (p_io p) ino) (content io1 ino)"
  proof -
    let ?bs = "content (p_io p) ino" and ?ys = "slice (a * ?P) j orig"
    have ly: "length ?ys = j" using tj(2) by simp
    have "length ?xs \<le> ?k" unfolding xs by simp
    then have ly2: "a * ?P + j \<le> n * ?P" using j(2) k(1) an by linarith
    have inside: "x div ?P \<in> {a..<n}" if "a * ?P \<le> x" "x < a * ?P + j" for x
      using that ly2 meta_ok_pageSize [OF m] by (auto simp: less_eq_div_iff_mult_less_eq div_less_iff_less_mult)
    have lb: "length ?bs \<le> length (pwrite_bytes ?bs (a * ?P) ?ys)" by (auto simp: pwrite_bytes_def)
    have "pwrite_bytes ?bs (a * ?P) ?ys ! x = (if x < length ?bs then ?bs ! x else 0)"
      if "x < length (pwrite_bytes ?bs (a * ?P) ?ys)" "x div ?P \<notin> {a..<n}" for x
    proof -
      have "\<not> (a * ?P \<le> x \<and> x < a * ?P + length ?ys)" using inside [of x] that(2) ly by auto
      then show ?thesis using nth_pwrite_bytes [OF that(1)] by metis
    qed
    with lb show ?thesis unfolding untouched_def j(3) tj(1) by blast
  qed
  show D: "drained orig m ino {a..<n} p pub (p\<lparr>p_io := io1\<rparr>) pub"
    using j(1) g u by (auto simp: drained_def)
  assume r: "r = int (length ?xs)"
  have all: "take j ?xs = slice (a * ?P) ?k orig" using j(4) r xs by simp
  have "good orig m (content io1 ino) i" if "a \<le> i" "i < n" for i
  proof -
    have i: "i < npages m" using that a by simp
    have "Suc i * ?P \<le> n * ?P" using that(2) by (intro mult_le_mono1) simp
    then have "i * ?P + pageBytes m i \<le> a * ?P + ?k" using page_end [OF m i] k(1) by simp
    moreover have "a * ?P \<le> i * ?P" using that(1) by simp
    ultimately show ?thesis
      using pwrite_origin_in [OF _ _ k(2), of "i * ?P" "pageBytes m i"] good_iff [OF m i l] j(3) all by simp
  qed
  then show "drained orig m ino {a..<n} p pub (p\<lparr>p_io := io1\<rparr>) (pub @ map (crc_of orig m) [a..<n])"
    using j(1) g u a(2) by (auto simp: drained_def intro!: exI [of _ "[a..<n]"])
qed

lemma fb_write_spec:
  "meta_ok m \<Longrightarrow> length orig = fileSize m \<Longrightarrow> stage_from orig m st \<Longrightarrow> map_of (io_fds (p_io p)) fd = Some ino \<Longrightarrow>
   fb_write m fd st p pub w = (p1, pub1, w1) \<Longrightarrow> drained orig m ino (fst ` set st) p pub p1 pub1"
proof (induction m fd st p pub w rule: fb_write.induct)
  case (2 m fd i b st p pub w)
  note pr = "2.prems"
  obtain run pages rest where t: "take_run m i [] [] ((i, b) # st) = (run, pages, rest)" by (metis prod_cases3)
  have i: "i < npages m" using pr(3) by (auto simp: stage_from_def)
  have s0: "[] = span_bytes orig m i i" using page_in_file [OF pr(1)] i by (simp add: span_bytes_def)
  from take_run_spec [OF pr(1,2) t pr(3) order_refl less_imp_le [OF i] s0]
  obtain n pre where n: "i \<le> n" "n \<le> npages m" "run = span_bytes orig m i n" "pages = map (crc_of orig m) [i..<n]"
      "(i, b) # st = pre @ rest" "map fst pre = [i..<n]" by auto
  obtain r io1 where wr: "pwriteFull (p_io p) fd run (i * pageSize m) 0 = (r, io1)" by fastforce
  note W = write_run [OF pr(1,2) n(1,2) i pr(4) wr [unfolded n(3)], where pub = pub]
  have pre: "fst ` set pre = {i..<n}" using n(6) by (metis list.set_map set_upt)
  have sub: "fst ` set ((i, b) # st) = {i..<n} \<union> fst ` set rest" using n(5) pre by (metis image_Un set_append)
  show ?case
  proof (cases "r = int (length run)")
    case False
    then have "p1 = bump_failopen (p\<lparr>p_io := io1\<rparr>)" "pub1 = pub"
      using pr(5) t wr by (simp_all add: fb_write.simps Let_def)
    then have "drained orig m ino {i..<n} p pub p1 pub1" using drained_stats [OF W(1)] by (simp add: bump_failopen_def)
    then show ?thesis unfolding sub by (rule drained_mono) simp
  next
    case True
    let ?p = "count_run (length run) (p\<lparr>p_io := io1\<rparr>)"
    have f: "fb_write m fd rest ?p (pub @ pages) (w + length run) = (p1, pub1, w1)"
      using pr(5) t wr True by (simp add: fb_write.simps Let_def)
    have st: "stage_from orig m rest" using pr(3) n(5) by (simp add: stage_from_def)
    have D1: "drained orig m ino {i..<n} p pub ?p (pub @ pages)"
      using drained_stats [OF W(2)] True n(3,4) by (simp add: count_run_def)
    have fd: "map_of (io_fds (p_io ?p)) fd = Some ino" using D1 pr(4) by (simp add: drained_def io_frame_def)
    have rr: "(run, pages, rest) = take_run m i [] [] ((i, b) # st)" using t by simp
    have "drained orig m ino (fst ` set rest) ?p (pub @ pages) p1 pub1"
      using "2.IH" [OF rr refl wr [symmetric] refl] True pr(1,2) st fd f by simp
    from drained_step [OF D1 this pr(1,2)] show ?thesis unfolding sub .
  qed
qed (auto)

section \<open>The invariant of the store\<close>

definition pages_good :: "bytes \<Rightarrow> metaData \<Rightarrow> bytes \<Rightarrow> bool" where
  "pages_good orig m bs \<longleftrightarrow> (\<forall>i. page_map m i \<noteq> None \<longrightarrow> good orig m bs i)"

definition sidecar_data :: "bytes \<Rightarrow> string \<Rightarrow> nat \<Rightarrow> io \<Rightarrow> bool" where
  "sidecar_data orig path ino io \<longleftrightarrow> (\<forall>bs d. file_at io path = Some bs \<and> deserialize bs = Some d \<and>
     fileSize d = length orig \<longrightarrow> pages_good orig d (content io ino))"

text \<open>The entry, its data file (inode \<open>ino\<close>) and its sidecar: well-formed, and, when \<open>G\<close> says that
  nobody damages the data file, no page is recorded, in memory or on disk, before its bytes
  are in the data file.\<close>

definition store_inv :: "bool \<Rightarrow> bytes \<Rightarrow> nat \<Rightarrow> proc \<Rightarrow> entry \<Rightarrow> bool" where
  "store_inv G orig ino p e \<longleftrightarrow> entry_inv orig e \<and> data_held (e_metaPath e) (e_dataFd e) ino (p_io p) \<and>
     sidecar_from orig (e_metaPath e) (p_io p) \<and>
     (G \<longrightarrow> sidecar_data orig (e_metaPath e) ino (p_io p) \<and> pages_good orig (e_meta e) (content (p_io p) ino))"

lemma store_invD:
  assumes "store_inv G orig ino p e"
  shows "entry_inv orig e" "data_held (e_metaPath e) (e_dataFd e) ino (p_io p)" "sidecar_from orig (e_metaPath e) (p_io p)"
    "G \<Longrightarrow> sidecar_data orig (e_metaPath e) ino (p_io p)" "G \<Longrightarrow> pages_good orig (e_meta e) (content (p_io p) ino)"
  using assms by (simp_all add: store_inv_def)

lemma good_geo: "same_geo m m' \<Longrightarrow> good orig m' bs i = good orig m bs i"
  using same_geoD [of m m'] by (simp add: good_def same_geo_def)

lemma pages_good_mono:
  "pages_good orig m bs \<Longrightarrow> meta_ok m \<Longrightarrow> (\<And>i. i < npages m \<Longrightarrow> good orig m bs i \<Longrightarrow> good orig m bs' i) \<Longrightarrow> pages_good orig m bs'"
  unfolding pages_good_def using pt.tab_bound [of m] by (metis not_le_imp_less)

lemma store_inv_data_from:
  assumes "store_inv True orig ino p e" shows "data_from orig p e"
proof -
  note D = store_invD [OF assms]
  have "data_of p e = content (p_io p) ino" using D(2) by (simp add: data_of_def data_ino_def data_held_def)
  moreover have "page_map (e_meta e) i \<noteq> None" if "i < npages (e_meta e)" "bm_get (bitmap (e_meta e)) i" for i
    using that bm.get_pages [of i "bitmap (e_meta e)"] meta_ok_pages [OF entry_invD(1) [OF D(1)]] by (simp add: page_map_def)
  ultimately show ?thesis using D(5) by (auto simp: data_from_def pages_good_def good_def)
qed

text \<open>Steps that change neither names nor bytes nor what is published.\<close>

lemma store_inv_same:
  assumes inv: "store_inv G orig ino p e" and e: "entry_inv orig e'" "same_entry e e'"
    and pm: "\<And>i. page_map (e_meta e') i \<noteq> None \<Longrightarrow> page_map (e_meta e) i \<noteq> None" and io: "io_same (p_io p) (p_io p')"
  shows "store_inv G orig ino p' e'"
proof -
  note D = store_invD [OF inv]
  have k: "keeps (e_metaPath e) (e_dataFd e) ino (p_io p) (p_io p')" by (rule io_same_keeps [OF io])
  have f: "file_at (p_io p') q = file_at (p_io p) q" "content (p_io p') i = content (p_io p) i" for q i
    using store_eq_file_at [OF io_same_store_eq [OF io]] io_sameD(5) [OF io] by auto
  have g: "same_geo (e_meta e) (e_meta e')" "e_metaPath e' = e_metaPath e" "e_dataFd e' = e_dataFd e"
    using e(2) by (auto simp: same_entry_def)
  have "sidecar_from orig (e_metaPath e) (p_io p')" "G \<Longrightarrow> sidecar_data orig (e_metaPath e) ino (p_io p')"
    using D(3,4) f by (simp_all add: sidecar_from_def sidecar_data_def)
  moreover have "G \<Longrightarrow> pages_good orig (e_meta e') (content (p_io p') ino)"
    using D(5) pm good_geo [OF g(1)] f by (simp add: pages_good_def)
  ultimately show ?thesis using e(1) k D(2) g by (simp add: store_inv_def keeps_def)
qed

lemma flushMeta_store_inv:
  assumes f: "flushMeta cfg now force (p, e) = (p1, e1)" and inv: "store_inv G orig ino p e"
  shows "store_inv G orig ino p1 e1 \<and> same_entry e e1 \<and> content (p_io p1) ino = content (p_io p) ino"
proof -
  note D = store_invD [OF inv]
  note K = flushMeta_keeps_inv [OF f D(1-3)]
  have k: "content (p_io p1) ino = content (p_io p) ino" "data_held (e_metaPath e) (e_dataFd e) ino (p_io p1)"
    using K(3) D(2) by (simp_all add: keeps_def)
  have e1: "e_metaPath e1 = e_metaPath e" "e_dataFd e1 = e_dataFd e" "same_geo (e_meta e) (e_meta e1)"
    using K(2) by (auto simp: same_entry_def)
  have "sidecar_data orig (e_metaPath e) ino (p_io p1) \<and> pages_good orig (e_meta e1) (content (p_io p) ino)" if g: G
  proof -
   note DG = D(4) [OF g] D(5) [OF g]
   show ?thesis
    using f D(1-3)
  proof (cases rule: flushMeta_cases)
    case skip
    then show ?thesis using DG by simp
  next
    case (gone sn)
    then show ?thesis using DG k(1) fm_begin_pending(7) [OF D(1) gone(1)] by (simp add: sidecar_data_def)
  next
    case (stored sn e' p' rc merged out)
    note B = fm_begin_pending [OF D(1) stored(1)]
    have h': "data_held (e_metaPath e') (e_dataFd e') ino (p_io p)" using D(2) B by simp
    note S = fm_commit_spec(4) [OF stored(2) h' refl]
    have ne: "e_metaPath e \<noteq> e_metaPath e @ ''.tmp''" by simp
    have og: "pages_good orig out (content (p_io p) ino)"
    proof (cases merged)
      case False
      then show ?thesis using S B(8) DG(2) by (auto split: if_splits)
    next
      case True
      then obtain bs d where d: "file_at (p_io p) (e_metaPath e) = Some bs" "deserialize bs = Some d" "usable cfg sn (e_key e') d"
          "out = merge_image sn d" using S B(5) by auto
      have sn: "snap_ok sn" "bm_pages (sn_sets sn) \<subseteq> bm_pages (bitmap (sn_meta sn))" "fileSize (sn_meta sn) < 2 ^ 61" "meta_ok (sn_meta sn)"
          "fileSize (sn_meta sn) = length orig"
        using B(3,8) entry_invD [OF D(1)] by (auto simp: pending_ok_def)
      note U = usableD [OF d(3) sn(4,3) d(2)]
      note M = merge_image_ok [OF sn(1) U(1,3)]
      have gd: "pages_good orig d (content (p_io p) ino)" using DG(1) d U(2) sn(5) by (auto simp: sidecar_data_def same_geo_def)
      have "good orig out (content (p_io p) ino) i" if "page_map out i \<noteq> None" for i
      proof (cases "i \<in> bm_pages (sn_sets sn)")
        case True
        then have "page_map (e_meta e) i \<noteq> None" using sn(2) B(8) by (auto simp: page_map_def)
        then show ?thesis using DG(2) good_geo [OF stored(5)] B(7) by (simp add: pages_good_def)
      next
        case False
        then have "page_map d i \<noteq> None" using that M(4) d(4) by (auto simp: commit_map_def split: if_splits)
        then show ?thesis using gd good_geo [OF M(2)] d(4) by (simp add: pages_good_def)
      qed
      then show ?thesis by (simp add: pages_good_def)
    qed
    have side: "sidecar_data orig (e_metaPath e) ino (p_io p')" if "content (p_io p') ino = content (p_io p) ino"
    proof (cases "rc = 0")
      case True
      then have "file_at (p_io p') (e_metaPath e) = Some (serialize out)" using S ne B by auto
      then show ?thesis using that og deserialize_serialize [OF stored(4)] by (auto simp: sidecar_data_def split: if_splits)
    next
      case False
      then have "file_at (p_io p') (e_metaPath e) = file_at (p_io p) (e_metaPath e)" using S ne B by auto
      then show ?thesis using that DG(1) by (simp add: sidecar_data_def)
    qed
    have cp: "content (p_io p') ino = content (p_io p) ino" using stored(8) D(2) by (simp add: keeps_def)
    show ?thesis
    proof (cases "rc < 0")
      case True
      note F = fm_finish_fail [OF B(1,3) stored(3) True]
      show ?thesis using side [OF cp] F(3,5) B(7) DG(2) by simp
    next
      case False
      then have rc: "0 \<le> rc" by simp
      note F = fm_finish_done [OF B(1) stored(3) rc stored(4-6)]
      have "adopt_map e' (page_map out) = page_map out" using B(11,12) by (simp add: adopt_map_def fun_eq_iff)
      then have pm: "page_map (e_meta e1) = (if merged then page_map out else page_map (e_meta e))" using F(7) B(7) by simp
      have "same_geo out (e_meta e1)" using e1(3) stored(5) B(7) by (simp add: same_geo_def)
      then have "pages_good orig (e_meta e1) (content (p_io p) ino)"
        using og DG(2) pm good_geo [of out "e_meta e1"] good_geo [OF e1(3)] by (simp add: pages_good_def)
      then show ?thesis using side [OF cp] F(3) by simp
    qed
  qed
  qed
  then show ?thesis using K(1,2,4) k e1 by (simp add: store_inv_def)
qed

end
