(* ===== verification/Entry_Fill.thy ===== *)
theory Entry_Fill
  imports Entry_Drain
begin

text \<open>
  Fills and drains as whole operations: \<^verbatim>\<open>flushBuffer\<close>, \<^verbatim>\<open>writePages\<close> (staged and direct),
  \<^verbatim>\<open>flushAll\<close>, \<^verbatim>\<open>checkpoint\<close>. Each keeps the invariant of the store whatever the disk does, and
  the process-wide byte pools move by exactly what the entry's own pools move.
\<close>

section \<open>The drain\<close>

lemma fb_begin_inv:
  assumes inv: "entry_inv orig e" and b: "fb_begin cfg now force p e = Some (n, cap, e1)"
  shows "entry_inv orig e1" "same_entry e e1" "e_meta e1 = e_meta e" "stage_from orig (e_meta e) (e_flushing e1)"
    "n = e_bufBytes e" "e_bufBytes e1 = 0" "e_specBytes e1 = e_specBytes e" "e_closing e1 = e_closing e"
    "fst ` set (e_flushing e1) = {i. \<exists>b. map_of (e_buf e) i = Some b \<and> \<not> bp_spec b}"
proof -
  note D = entry_invD [OF inv] and S = stage_okD [OF entry_invD(5) [OF inv]]
  let ?R = "filter (\<lambda>x. \<not> bp_spec (snd x)) (e_buf e)" and ?S = "filter (\<lambda>x. bp_spec (snd x)) (e_buf e)"
  have e1: "e1 = e\<lparr>e_flushing := ?R, e_buf := ?S, e_bufBytes := 0, e_flushInProgress := True\<rparr>" and n: "n = e_bufBytes e"
    using b by (auto simp: fb_begin_def Let_def split: if_splits)
  have mo: "map_of ?R i = (case map_of (e_buf e) i of Some v \<Rightarrow> if \<not> bp_spec v then Some v else None | None \<Rightarrow> None)"
    "map_of ?S i = (case map_of (e_buf e) i of Some v \<Rightarrow> if bp_spec v then Some v else None | None \<Rightarrow> None)" for i
    using map_of_filter [OF S(1)] by (simp_all split: option.split)
  have sums: "sm_sum (spec_w (e_meta e)) ?S = sm_sum (spec_w (e_meta e)) (e_buf e)" "sm_sum (real_w (e_meta e)) ?S = 0"
    using sm_sum_filter [of "spec_w (e_meta e)" "e_buf e" "\<lambda>x. bp_spec (snd x)"] sm_sum_zero [of ?R "spec_w (e_meta e)"]
      sm_sum_zero [of ?S "real_w (e_meta e)"] by (auto simp: spec_w_def real_w_def)
  have "stage_ok e1" using S sums mo by (auto simp: e1 stage_ok_def sm_ok_filter split: option.splits)
  moreover have "staged_from orig e1"
    using D(4) mo unfolding staged_from_def e1 by (fastforce split: option.splits if_splits)
  ultimately show "entry_inv orig e1" by (rule entry_inv_stage [OF inv, rotated 3]) (simp_all add: e1)
  have "(i, b) \<in> set ?R \<Longrightarrow> map_of (e_buf e) i = Some b" for i b
    using sm_ok_distinct [OF S(1)] by (simp add: map_of_is_SomeI)
  then show "stage_from orig (e_meta e) (e_flushing e1)"
    using staged_fromD [OF D(4)] by (auto simp: e1 stage_from_def)
  show "same_entry e e1" "e_meta e1 = e_meta e" "n = e_bufBytes e" "e_bufBytes e1 = 0" "e_specBytes e1 = e_specBytes e"
    "e_closing e1 = e_closing e" using n by (simp_all add: e1)
  have "fst ` set ?R = dom (map_of ?R)" by (simp add: dom_map_of_conv_image_fst)
  also have "\<dots> = {i. \<exists>b. map_of (e_buf e) i = Some b \<and> \<not> bp_spec b}" using mo by (auto simp: dom_def split: option.splits)
  finally show "fst ` set (e_flushing e1) = {i. \<exists>b. map_of (e_buf e) i = Some b \<and> \<not> bp_spec b}" by (simp add: e1)
qed

lemma page_map_publishPage:
  "meta_ok (e_meta e) \<Longrightarrow> i < npages (e_meta e) \<Longrightarrow> page_map (e_meta (publishPage e i c)) = (page_map (e_meta e))(i \<mapsto> c)"
  using pt.tab_put [of "e_meta e" i c] by (simp add: publishPage_eq)

lemma page_map_publish_all:
  "meta_ok (e_meta e) \<Longrightarrow> fst ` set ps \<subseteq> {..<npages (e_meta e)} \<Longrightarrow>
   page_map (e_meta (publish_all ps e)) j \<noteq> None \<longleftrightarrow> page_map (e_meta e) j \<noteq> None \<or> j \<in> fst ` set ps"
proof (induction ps arbitrary: e)
  case (Cons ic ps)
  obtain i c where ic: "ic = (i, c)" by fastforce
  have i: "i < npages (e_meta e)" using Cons.prems(2) ic by auto
  have "npages (e_meta (publishPage e i c)) = npages (e_meta e)" "meta_ok (e_meta (publishPage e i c))"
    using put_page_ok(1) [OF Cons.prems(1) i] by (simp_all add: publishPage_eq)
  with Cons.IH [of "publishPage e i c"] Cons.prems page_map_publishPage [OF Cons.prems(1) i, of c] ic
  show ?case by (auto simp: publish_all_def)
qed (simp add: publish_all_def)

lemma set_complete_fields [simp]:
  "page_map (e_meta (set_complete e)) = page_map (e_meta e)" "e_buf (set_complete e) = e_buf e"
  "e_flushing (set_complete e) = e_flushing e" "e_bufBytes (set_complete e) = e_bufBytes e"
  "e_specBytes (set_complete e) = e_specBytes e" "e_closing (set_complete e) = e_closing e"
  by (simp_all add: set_complete_def)

lemma publish_all_fields [simp]:
  "e_buf (publish_all ps e) = e_buf e" "e_flushing (publish_all ps e) = e_flushing e" "e_bufBytes (publish_all ps e) = e_bufBytes e"
  "e_specBytes (publish_all ps e) = e_specBytes e" "e_closing (publish_all ps e) = e_closing e"
  by (induction ps arbitrary: e) (auto simp: publish_all_def publishPage_eq split: prod.splits)

lemma crc_of_pairs: "set is \<subseteq> {..<npages (e_meta e)} \<Longrightarrow> crc_pairs orig e (map (crc_of orig (e_meta e)) is)"
  by (auto simp: crc_pairs_def crc_of_def)

lemma fst_crc_of [simp]: "fst (crc_of orig m i) = i"
  by (simp add: crc_of_def)

text \<open>Publishing pages that are good on disk.\<close>

lemma frame_held: "io_frame ino io io1 \<Longrightarrow> data_held path fd ino io \<Longrightarrow> data_held path fd ino io1"
  by (auto simp: data_held_def io_frame_def io_ok_def tmp_private_alt)

lemma drained_store_inv:
  assumes inv: "store_inv G orig ino p e" and dr: "drained orig (e_meta e) ino S p pub p1 ps"
  shows "store_inv G orig ino p1 e"
proof -
  note D = store_invD [OF inv] and I = entry_invD [OF store_invD(1) [OF inv]]
  have fr: "io_frame ino (p_io p) (p_io p1)" and g: "grows orig (content (p_io p) ino) (content (p_io p1) ino)"
    using dr by (simp_all add: drained_def)
  have f: "file_at (p_io p1) (e_metaPath e) = file_at (p_io p) (e_metaPath e)"
    using fr D(2) by (cases "map_of (io_names (p_io p)) (e_metaPath e)") (auto simp: file_at_def io_frame_def data_held_def)
  have mono: "pages_good orig m (content (p_io p1) ino)" if "pages_good orig m (content (p_io p) ino)" "meta_ok m" "fileSize m = length orig" for m
    using pages_good_mono [OF that(1,2)] grows_good [OF g that(2)] that(3) by simp
  have "G \<Longrightarrow> sidecar_data orig (e_metaPath e) ino (p_io p1)"
    using D(4) mono deserialize_meta_ok I(2,7) unfolding sidecar_data_def f by (metis (no_types))
  then show ?thesis
    using D(1-3) frame_held [OF fr] sidecar_from_cong [OF f] mono [OF D(5)] I(1,2) by (simp add: store_inv_def)
qed

lemma publish_store_inv:
  assumes inv: "store_inv G orig ino p e" and ps: "ps = map (crc_of orig (e_meta e)) is"
    and good: "\<And>i. i \<in> set is \<Longrightarrow> i < npages (e_meta e) \<and> good orig (e_meta e) (content (p_io p) ino) i"
  shows "store_inv G orig ino p (publish_all ps e)" "same_entry e (publish_all ps e)"
proof -
  note D = store_invD [OF inv] and I = entry_invD [OF store_invD(1) [OF inv]]
  have P: "entry_inv orig (publish_all ps e)" "same_entry e (publish_all ps e)"
    using publish_all_inv [OF D(1), of ps] crc_of_pairs [of "is" e orig] good ps by auto
  show "same_entry e (publish_all ps e)" by (rule P(2))
  have g: "same_geo (e_meta e) (e_meta (publish_all ps e))" "e_metaPath (publish_all ps e) = e_metaPath e"
      "e_dataFd (publish_all ps e) = e_dataFd e" using P(2) by (auto simp: same_entry_def)
  have "fst ` set ps \<subseteq> {..<npages (e_meta e)}" "fst ` set ps = set is" using good ps by (auto simp: image_image)
  then have "G \<Longrightarrow> pages_good orig (e_meta (publish_all ps e)) (content (p_io p) ino)"
    using page_map_publish_all [OF I(1), of ps] D(5) good good_geo [OF g(1)] by (auto simp: pages_good_def)
  then show "store_inv G orig ino p (publish_all ps e)" using P(1) D(2-4) g by (simp add: store_inv_def)
qed

lemma store_inv_flags:
  assumes "store_inv G orig ino p e"
  shows "store_inv G orig ino p (set_complete e)" "store_inv G orig ino p (drop_complete e)" "store_inv G orig ino p (e\<lparr>e_dirty := b\<rparr>)"
    "store_inv G orig ino p (e\<lparr>e_obs := o1\<rparr>)"
  using store_inv_same [OF assms, of "set_complete e" p] store_inv_same [OF assms, of "drop_complete e" p]
    store_inv_same [OF assms, of "e\<lparr>e_dirty := b\<rparr>" p] store_inv_same [OF assms, of "e\<lparr>e_obs := o1\<rparr>" p]
    set_complete_inv drop_complete_inv store_invD(1) [OF assms]
  by (auto simp: drop_complete_def)

lemma fb_sync_spec:
  assumes "fb_sync cfg fd (p, pub, w) = (p1, pub1, w1)"
  shows "io_same (p_io p) (p_io p1)" "pub1 = pub \<and> w1 = w \<or> pub1 = [] \<and> w1 = 0" "g_bufTotal p1 = g_bufTotal p" "g_specTotal p1 = g_specTotal p"
proof -
  obtain rc io1 where f: "io_fdatasync (p_io p) fd = (rc, io1)" by fastforce
  have "io_same (p_io p) io1" by (rule io_fdatasync_same [OF f])
  then show "io_same (p_io p) (p_io p1)" "pub1 = pub \<and> w1 = w \<or> pub1 = [] \<and> w1 = 0" "g_bufTotal p1 = g_bufTotal p" "g_specTotal p1 = g_specTotal p"
    using assms f by (auto simp: fb_sync_def bump_failopen_def split: if_splits)
qed

text \<open>Clearing the snapshot of a drain.\<close>

lemma clear_flushing:
  assumes "store_inv G orig ino p e"
  shows "store_inv G orig ino p (e\<lparr>e_flushing := [], e_flushInProgress := False, e_lastBufFlushS := now\<rparr>)"
proof -
  let ?e = "e\<lparr>e_flushing := []\<rparr>"
  have "stage_ok ?e" "staged_from orig ?e"
    using entry_invD(4,5) [OF store_invD(1) [OF assms]] by (auto simp: stage_ok_def staged_from_def)
  then have "entry_inv orig ?e" by (intro entry_inv_stage [OF store_invD(1) [OF assms]]) simp_all
  then show ?thesis by (intro store_inv_same [OF assms]) (simp_all add: entry_inv_def deltas_ok_def stage_ok_def staged_from_def)
qed

lemma fb_publish_inv:
  assumes inv: "store_inv G orig ino p e" and ps: "ps = map (crc_of orig (e_meta e)) is"
    and good: "\<And>i. i \<in> set is \<Longrightarrow> i < npages (e_meta e) \<and> good orig (e_meta e) (content (p_io p) ino) i"
  shows "store_inv G orig ino p (fb_publish now ps e)" "same_entry e (fb_publish now ps e)"
    "e_bufBytes (fb_publish now ps e) = e_bufBytes e" "e_specBytes (fb_publish now ps e) = e_specBytes e"
proof -
  note P = publish_store_inv [OF inv ps good]
  let ?e2 = "if ps \<noteq> [] then set_complete ((publish_all ps e)\<lparr>e_dirty := True\<rparr>) else publish_all ps e"
  have "store_inv G orig ino p ?e2" using P(1) store_inv_flags(1) [OF store_inv_flags(3) [OF P(1), of True]] by (cases "ps = []") simp_all
  then show "store_inv G orig ino p (fb_publish now ps e)" unfolding fb_publish_def Let_def by (rule clear_flushing)
  show "same_entry e (fb_publish now ps e)" using P(2) by (cases "ps = []") (simp_all add: fb_publish_def Let_def set_complete_inv)
  show "e_bufBytes (fb_publish now ps e) = e_bufBytes e" "e_specBytes (fb_publish now ps e) = e_specBytes e"
    by (simp_all add: fb_publish_def Let_def)
qed

text \<open>A commit leaves the pools alone.\<close>

lemma flushMeta_pools:
  assumes "flushMeta cfg now force (p, e) = (p1, e1)"
  shows "g_bufTotal p1 = g_bufTotal p" "g_specTotal p1 = g_specTotal p" "e_bufBytes e1 = e_bufBytes e" "e_specBytes e1 = e_specBytes e"
    "e_buf e1 = e_buf e" "e_flushing e1 = e_flushing e"
proof -
  have re: "e_bufBytes (fold (rearm_page sn) xs y) = e_bufBytes y" "e_specBytes (fold (rearm_page sn) xs y) = e_specBytes y"
     "e_buf (fold (rearm_page sn) xs y) = e_buf y" "e_flushing (fold (rearm_page sn) xs y) = e_flushing y" for sn xs y
    by (rule fold_same, simp add: rearm_page_def Let_def)+
  define same where "same = (\<lambda>(x :: proc \<times> entry) (y :: proc \<times> entry). g_bufTotal (fst y) = g_bufTotal (fst x) \<and> g_specTotal (fst y) = g_specTotal (fst x) \<and>
      e_bufBytes (snd y) = e_bufBytes (snd x) \<and> e_specBytes (snd y) = e_specBytes (snd x) \<and>
      e_buf (snd y) = e_buf (snd x) \<and> e_flushing (snd y) = e_flushing (snd x))"
  have fin: "same (p', e') (fm_finish sn r (p', e'))" for sn r p' e'
    by (cases r) (auto simp: same_def fm_finish_def bump_failopen_def re adopt_pages_edit Let_def)
  have com: "same (p', e') (snd (fm_commit cfg sn p' e'), e')" for sn p' e'
    by (simp add: same_def fm_commit_def Let_def split: prod.split)
  have "same (p, e) (p1, e1)"
  proof (cases "fm_begin cfg now force e")
    case None
    then show ?thesis using assms by (simp add: flushMeta_def same_def)
  next
    case (Some a)
    obtain sn e' where b: "fm_begin cfg now force e = Some (sn, e')" using Some by (cases a) auto
    have be: "same (p, e) (p, e')" using b by (auto simp: same_def fm_begin_def split: if_splits)
    obtain res p' where c: "fm_commit cfg sn p e' = (res, p')" by fastforce
    have ce: "same (p, e') (p', e')" using com [of p e' sn] c by simp
    have "same (p', e') (p1, e1)"
    proof (cases res)
      case None
      then show ?thesis using assms b c by (simp add: flushMeta_def same_def)
    next
      case (Some r)
      then have "fm_finish sn r (p', e') = (p1, e1)" using assms b c by (simp add: flushMeta_def)
      then show ?thesis using fin [of p' e' sn r] by simp
    qed
    with be ce show ?thesis by (simp add: same_def)
  qed
  then show "g_bufTotal p1 = g_bufTotal p" "g_specTotal p1 = g_specTotal p" "e_bufBytes e1 = e_bufBytes e" "e_specBytes e1 = e_specBytes e"
    "e_buf e1 = e_buf e" "e_flushing e1 = e_flushing e" by (simp_all add: same_def)
qed

lemma flushBuffer_store_inv:
  assumes inv: "store_inv G orig ino p e" and f: "flushBuffer cfg now force (p, e) = (h, p1, e1)"
  shows "store_inv G orig ino p1 e1" "same_entry e e1" "pools_move p e p1 e1"
    "untouched (e_meta e) {i. \<exists>b. map_of (e_buf e) i = Some b \<and> \<not> bp_spec b} (content (p_io p) ino) (content (p_io p1) ino)"
    "\<And>n cap e'. fb_begin cfg now force p e = Some (n, cap, e') \<Longrightarrow>
       content (p_io p1) ino = content (p_io (fst (fb_write (e_meta e') (e_dataFd e') (e_flushing e') p [] 0))) ino"
proof -
  note D = store_invD [OF inv] and I = entry_invD [OF store_invD(1) [OF inv]]
  let ?U = "untouched (e_meta e) {i. \<exists>b. map_of (e_buf e) i = Some b \<and> \<not> bp_spec b} (content (p_io p) ino)"
  let ?W = "\<lambda>bs. \<forall>n cap e'. fb_begin cfg now force p e = Some (n, cap, e') \<longrightarrow>
    bs = content (p_io (fst (fb_write (e_meta e') (e_dataFd e') (e_flushing e') p [] 0))) ino"
  have "store_inv G orig ino p1 e1 \<and> same_entry e e1 \<and> pools_move p e p1 e1 \<and> ?U (content (p_io p1) ino) \<and> ?W (content (p_io p1) ino)"
  proof (cases "fb_begin cfg now force p e")
    case None
    then show ?thesis using f inv by (simp add: flushBuffer_def untouched_def)
  next
    case (Some r)
    obtain n cap e' where b: "fb_begin cfg now force p e = Some (n, cap, e')" using Some by (cases r) auto
    note B = fb_begin_inv [OF D(1) b]
    have inv': "store_inv G orig ino p e'" by (rule store_inv_same [OF inv B(1,2)]) (simp_all add: B(3))
    obtain pw pub w where w: "fb_write (e_meta e') (e_dataFd e') (e_flushing e') p [] 0 = (pw, pub, w)" by (metis prod_cases3)
    obtain ps pub2 w2 where y: "fb_sync cfg (e_dataFd e') (pw, pub, w) = (ps, pub2, w2)" by (metis prod_cases3)
    note Y = fb_sync_spec [OF y]
    have fd: "map_of (io_fds (p_io p)) (e_dataFd e') = Some ino" using store_invD(2) [OF inv'] by (simp add: data_held_def)
    have dr: "drained orig (e_meta e') ino (fst ` set (e_flushing e')) p [] pw pub"
      using fb_write_spec [OF _ _ _ fd w, of orig] B(3,4) I(1,2) by simp
    have iw: "store_inv G orig ino pw e'" by (rule drained_store_inv [OF inv' dr])
    have iy: "store_inv G orig ino ps e'" by (rule store_inv_same [OF iw B(1)]) (simp_all add: Y(1))
    obtain xs where xs: "pub = map (crc_of orig (e_meta e')) xs" "\<forall>i\<in>set xs. i < npages (e_meta e') \<and> good orig (e_meta e') (content (p_io pw) ino) i"
      using dr by (auto simp: drained_def)
    obtain ys where ys: "pub2 = map (crc_of orig (e_meta e')) ys" "set ys \<subseteq> set xs" using Y(2) xs(1) by (cases "pub2 = []") auto
    have gd: "i \<in> set ys \<Longrightarrow> i < npages (e_meta e') \<and> good orig (e_meta e') (content (p_io ps) ino) i" for i
      using xs(2) ys(2) io_sameD(5) [OF Y(1)] by auto
    note P = fb_publish_inv [OF iy ys(1) gd, where now = now]
    define p2 where "p2 = ps\<lparr>g_bufTotal := g_bufTotal ps - n, p_stats := (p_stats ps)\<lparr>pageWrites := pageWrites (p_stats ps) + length pub2,
        bufferStalls := bufferStalls (p_stats ps) + (if cap then 1 else 0)\<rparr>\<rparr>"
    have p2: "p_io p2 = p_io ps" "g_bufTotal p2 = g_bufTotal p - n" "g_specTotal p2 = g_specTotal p"
      using Y(3,4) dr by (simp_all add: p2_def drained_def)
    have i2: "store_inv G orig ino p2 (fb_publish now pub2 e')" using P(1) p2(1) by (simp add: store_inv_def)
    have fm: "flushMeta cfg now force (p2, fb_publish now pub2 e') = (p1, e1)"
      using f b w y unfolding p2_def by (simp add: flushBuffer_def Let_def)
    note M = flushMeta_store_inv [OF fm i2] and Q = flushMeta_pools [OF fm]
    have "pools_move p e p1 e1"
      using Q P(3,4) B(5-7) p2 by (simp add: pools_move_def)
    moreover have eq: "content (p_io p1) ino = content (p_io pw) ino" using M p2(1) io_sameD(5) [OF Y(1)] by simp
    moreover have "?U (content (p_io p1) ino)"
    proof -
      have "untouched (e_meta e) (fst ` set (e_flushing e')) (content (p_io p) ino) (content (p_io pw) ino)"
        using dr B(3) by (simp add: drained_def)
      then show ?thesis unfolding eq by (simp only: B(9))
    qed
    moreover have "?W (content (p_io p1) ino)" using b w eq by simp
    ultimately show ?thesis using M P(2) B(2) same_entry_trans by blast
  qed
  then show "store_inv G orig ino p1 e1" "same_entry e e1" "pools_move p e p1 e1" "?U (content (p_io p1) ino)"
    "\<And>n cap e'. fb_begin cfg now force p e = Some (n, cap, e') \<Longrightarrow>
       content (p_io p1) ino = content (p_io (fst (fb_write (e_meta e') (e_dataFd e') (e_flushing e') p [] 0))) ino" by blast+
qed


section \<open>Fills\<close>

lemma touchAtime_store_inv:
  assumes "store_inv G orig ino p e" and "now < 2 ^ 64"
  shows "store_inv G orig ino p (touchAtime now e)" "same_entry e (touchAtime now e)"
    "e_bufBytes (touchAtime now e) = e_bufBytes e" "e_specBytes (touchAtime now e) = e_specBytes e"
proof -
  note T = touchAtime_inv [OF store_invD(1) [OF assms(1)] assms(2)]
  show same: "same_entry e (touchAtime now e)" using T(2) by simp
  show "store_inv G orig ino p (touchAtime now e)"
    by (rule store_inv_same [OF assms(1) T(1) same]) (simp_all add: touchAtime_def split: if_splits)
  show "e_bufBytes (touchAtime now e) = e_bufBytes e" "e_specBytes (touchAtime now e) = e_specBytes e"
    by (simp_all add: touchAtime_def)
qed

lemma fold_fill_fields:
  "e_setSince (fst (fold (fill_page off inp) xs (e, s, c))) = e_setSince e \<and>
   e_clearedSince (fst (fold (fill_page off inp) xs (e, s, c))) = e_clearedSince e \<and>
   same_entry e (fst (fold (fill_page off inp) xs (e, s, c)))"
proof -
  have one: "e_setSince (fst (fill_page off inp i st)) = e_setSince (fst st) \<and>
      e_clearedSince (fst (fill_page off inp i st)) = e_clearedSince (fst st) \<and> same_entry (fst st) (fst (fill_page off inp i st))" for i st
    by (cases st) (auto simp: fill_page_def Let_def unmarkSpeculative_def same_entry_def split: option.split)
  have "e_setSince (fst (fold (fill_page off inp) xs st)) = e_setSince (fst st) \<and>
      e_clearedSince (fst (fold (fill_page off inp) xs st)) = e_clearedSince (fst st) \<and> same_entry (fst st) (fst (fold (fill_page off inp) xs st))" for st
  proof (induction xs arbitrary: st)
    case (Cons x xs)
    show ?case using Cons.IH [of "fill_page off inp x st"] one [of x st] same_entry_trans by (metis fold_simps(2))
  qed simp
  from this [of "(e, s, c)"] show ?thesis by simp
qed

text \<open>The input of a fill is a span of the origin file.\<close>

definition origin_span :: "bytes \<Rightarrow> nat \<Rightarrow> nat \<Rightarrow> bytes \<Rightarrow> bool" where
  "origin_span orig off len inp \<longleftrightarrow> fill_input orig off (min (u64 (off + len)) (length orig)) inp"

lemma fill_loop_inv:
  assumes inv: "entry_inv orig e" and s: "off < stop" "stop \<le> fileSize (e_meta e)" and i: "fill_input orig off stop inp"
    and f: "fold (fill_page off inp) (loop_pages e off stop) (e, 0, 0) = (e1, staged, covered)"
  shows "entry_inv orig e1" "same_entry e e1" "e_meta e1 = e_meta e"
    "e_bufBytes e1 = e_bufBytes e + word_of_nat staged + word_of_nat covered" "e_specBytes e1 = e_specBytes e - word_of_nat covered"
proof -
  note D = entry_invD [OF inv]
  have R: "fill_rel e (e1, staged, covered)" using fill_loop_rel [OF D(5), of off inp "loop_pages e off stop"] f by simp
  have "staged_from orig e1"
    using fill_loop [of "loop_pages e off stop" off e stop orig inp] set_loop_pages [OF D(1) s] D i s f by simp
  with R fold_fill_fields [of off inp "loop_pages e off stop" e 0 0] f
  show "entry_inv orig e1" "same_entry e e1" "e_meta e1 = e_meta e"
    "e_bufBytes e1 = e_bufBytes e + word_of_nat staged + word_of_nat covered" "e_specBytes e1 = e_specBytes e - word_of_nat covered"
    using entry_inv_stage [OF inv, of e1] by (simp_all add: fill_rel_def)
qed

lemma direct_pages_spec:
  "meta_ok (e_meta e) \<Longrightarrow> length orig = fileSize (e_meta e) \<Longrightarrow> fill_input orig off stop inp \<Longrightarrow> stop \<le> length orig \<Longrightarrow>
   set is \<subseteq> {i. off \<le> i * P_of e \<and> i < npages (e_meta e) \<and> i * P_of e + nbytes_of e i \<le> stop} \<Longrightarrow>
   map_of (io_fds (p_io p)) (e_dataFd e) = Some ino \<Longrightarrow>
   direct_pages off inp is p e don w = (p1, don1, w1) \<Longrightarrow> drained orig (e_meta e) ino (set is) p don p1 don1"
proof (induction off inp "is" p e don w rule: direct_pages.induct)
  case (2 off inp i "is" p e don w)
  note pr = "2.prems"
  let ?P = "P_of e" and ?n = "nbytes_of e i"
  let ?xs = "slice (i * ?P - off) ?n inp"
  have i: "off \<le> i * ?P" "i < npages (e_meta e)" "i * ?P + ?n \<le> stop" using pr(5) by auto
  have xs: "?xs = page_of ?P orig i" using fill_input_page [OF pr(3) i(1,3) pr(4)] page_of_eq [OF pr(1) i(2) pr(2)] by simp
  have sp: "span_bytes orig (e_meta e) i (Suc i) = page_of ?P orig i"
    using span_bytes_step [OF pr(1,2) order_refl i(2)] page_in_file [OF pr(1), of i] i(2) by (simp add: span_bytes_def)
  show ?case
  proof (cases "bm_get (bitmap (e_meta e)) i")
    case True
    then have d: "direct_pages off inp is p e don w = (p1, don1, w1)" using pr(7) by simp
    have sub: "set is \<subseteq> {i. off \<le> i * P_of e \<and> i < npages (e_meta e) \<and> i * P_of e + nbytes_of e i \<le> stop}" using pr(5) by simp
    have "drained orig (e_meta e) ino (set is) p don p1 don1"
      using "2.IH"(1) [OF refl refl True pr(1-4) sub pr(6) d] .
    then show ?thesis by (rule drained_mono) auto
  next
    case False
    obtain r io1 where wr: "pwriteFull (p_io p) (e_dataFd e) ?xs (i * ?P) 0 = (r, io1)" by fastforce
    have "i \<le> Suc i" "Suc i \<le> npages (e_meta e)" using i(2) by simp_all
    note W = write_run [OF pr(1,2) this i(2) pr(6) wr [unfolded xs, folded sp], where pub = don]
    have len: "length (span_bytes orig (e_meta e) i (Suc i)) = ?n" using sp length_page_of [OF pr(1) i(2) pr(2)] by simp
    show ?thesis
    proof (cases "r = int ?n")
      case fail: False
      then have "p1 = bump_failopen (p\<lparr>p_io := io1\<rparr>)" "don1 = don" using pr(7) False wr by (simp_all add: Let_def)
      then have "drained orig (e_meta e) ino {i..<Suc i} p don p1 don1" using drained_stats [OF W(1)] by (simp add: bump_failopen_def)
      then show ?thesis by (rule drained_mono) auto
    next
      case ok: True
      let ?p = "p\<lparr>p_io := io1\<rparr>"
      have d: "direct_pages off inp is ?p e (don @ [(i, crc32c ?xs)]) (w + ?n) = (p1, don1, w1)"
        using pr(7) False wr ok by (simp add: Let_def)
      have D1: "drained orig (e_meta e) ino {i..<Suc i} p don ?p (don @ [(i, crc32c ?xs)])"
        using W(2) ok len xs by (simp add: crc_of_def)
      have fd: "map_of (io_fds (p_io ?p)) (e_dataFd e) = Some ino" using D1 pr(6) by (simp add: drained_def io_frame_def)
      have sub: "set is \<subseteq> {i. off \<le> i * P_of e \<and> i < npages (e_meta e) \<and> i * P_of e + nbytes_of e i \<le> stop}" using pr(5) by simp
      have "drained orig (e_meta e) ino (set is) ?p (don @ [(i, crc32c ?xs)]) p1 don1"
        using "2.IH"(2) [OF refl refl False wr [symmetric] _ pr(1-4) sub fd d] ok by simp
      from drained_step [OF D1 this pr(1,2)] show ?thesis by (simp add: insert_is_Un [symmetric])
    qed
  qed
qed auto


lemma store_inv_io: "p_io p1 = p_io p \<Longrightarrow> store_inv G orig ino p e \<Longrightarrow> store_inv G orig ino p1 e"
  by (simp add: store_inv_def)

lemma writePagesDirect_store_inv:
  assumes inv: "store_inv G orig ino p e" and o: "origin_span orig off len inp" and now: "now < 2 ^ 64"
    and f: "writePagesDirect cfg now (p, e) off len inp = (h, p1, e1)"
  shows "store_inv G orig ino p1 e1 \<and> same_entry e e1 \<and> pools_move p e p1 e1"
proof -
  note D = store_invD [OF inv] and I = entry_invD [OF store_invD(1) [OF inv]]
  define stop where "stop = min (u64 (off + len)) (fileSize (e_meta e))"
  have st0: "min (u64 (off + len)) (fileSize (e_meta e)) = stop" by (simp add: stop_def)
  show ?thesis
  proof (cases "len = 0 \<or> off \<ge> stop")
    case True
    then have "p1 = p \<and> e1 = e" using f by (auto simp: writePagesDirect_def stop_def Let_def)
    then show ?thesis using inv by simp
  next
    case False
    then have s: "off < stop" "stop \<le> fileSize (e_meta e)" by (auto simp: stop_def)
    have fi: "fill_input orig off stop inp" using o I(2) by (simp add: origin_span_def stop_def)
    have fd: "map_of (io_fds (p_io p)) (e_dataFd e) = Some ino" using D(2) by (simp add: data_held_def)
    obtain pd don w where dp: "direct_pages off inp (loop_pages e off stop) p e [] 0 = (pd, don, w)" by (metis prod_cases3)
    have dr: "drained orig (e_meta e) ino (set (loop_pages e off stop)) p [] pd don"
      using direct_pages_spec [OF I(1,2) fi _ _ fd dp] set_loop_pages [OF I(1) s] s I(2) by simp
    have idr: "store_inv G orig ino pd e" by (rule drained_store_inv [OF inv dr])
    have pl: "g_bufTotal pd = g_bufTotal p" "g_specTotal pd = g_specTotal p" using dr by (simp_all add: drained_def)
    obtain py don2 w2 where y: "fb_sync cfg (e_dataFd e) (pd, don, w) = (py, don2, w2)" by (metis prod_cases3)
    note Y = fb_sync_spec [OF y]
    have iy: "store_inv G orig ino py e" by (rule store_inv_same [OF idr D(1)]) (simp_all add: Y(1))
    show ?thesis
    proof (cases "don = [] \<or> don2 = []")
      case True
      then have "(p1 = pd \<or> p1 = py) \<and> e1 = e"
        using f dp y False by (auto simp: writePagesDirect_def st0 Let_def split: if_splits)
      then show ?thesis using idr iy pl Y(3,4) by (auto simp: pools_move_def)
    next
      case wr: False
      then have d2: "don2 = don" using Y(2) by auto
      obtain xs where xs: "don = map (crc_of orig (e_meta e)) xs" "\<forall>i\<in>set xs. i < npages (e_meta e) \<and> good orig (e_meta e) (content (p_io pd) ino) i"
        using dr by (auto simp: drained_def)
      have gd: "i \<in> set xs \<Longrightarrow> i < npages (e_meta e) \<and> good orig (e_meta e) (content (p_io py) ino) i" for i
        using xs(2) io_sameD(5) [OF Y(1)] by auto
      note P = publish_store_inv [OF iy xs(1) gd]
      define ea where "ea = direct_publish don e"
      have a: "store_inv G orig ino py ea" "same_entry e ea" "e_bufBytes ea = e_bufBytes e" "e_specBytes ea = e_specBytes e"
        using store_inv_flags(1) [OF store_inv_flags(3) [OF P(1), of True]] P(2) by (simp_all add: ea_def direct_publish_def set_complete_inv)
      define eb where "eb = touchAtime now (ea\<lparr>e_obs := (e_obs ea)\<lparr>o_wireBytes := o_wireBytes (e_obs ea) + w\<rparr>\<rparr>)"
      note T = touchAtime_store_inv [OF store_inv_flags(4) [OF a(1)] now]
      have b: "store_inv G orig ino py eb" "same_entry e eb" "e_bufBytes eb = e_bufBytes e" "e_specBytes eb = e_specBytes e"
        using T(1) same_entry_trans [OF _ T(2)] T(3,4) a by (simp_all add: eb_def)
      define pz where "pz = py\<lparr>p_stats := (p_stats py)\<lparr>pageWrites := pageWrites (p_stats py) + length don\<rparr>\<rparr>"
      have ib: "store_inv G orig ino pz eb" by (rule store_inv_io [OF _ b(1)]) (simp add: pz_def)
      have fm: "flushMeta cfg now False (pz, eb) = (p1, e1)"
        using f dp y wr False d2 by (simp add: writePagesDirect_def st0 Let_def eb_def ea_def pz_def)
      note M = flushMeta_store_inv [OF fm ib] and Q = flushMeta_pools [OF fm]
      have "pools_move p e p1 e1" using Q b(3,4) pl Y(3,4) by (simp add: pools_move_def pz_def)
      with M b(2) same_entry_trans show ?thesis by blast
    qed
  qed
qed

lemma writePages_store_inv:
  assumes inv: "store_inv G orig ino p e" and o: "origin_span orig off len inp" and now: "now < 2 ^ 64"
    and f: "writePages cfg now (p, e) off len inp = (h, p1, e1)"
  shows "store_inv G orig ino p1 e1 \<and> same_entry e e1 \<and> pools_move p e p1 e1"
proof (cases "c_fillBufferMb cfg \<le> 0")
  case True
  then show ?thesis using writePagesDirect_store_inv [OF inv o now] f by (simp add: writePages_def)
next
  case buffered: False
  note D = store_invD [OF inv] and I = entry_invD [OF store_invD(1) [OF inv]]
  define stop where "stop = min (u64 (off + len)) (fileSize (e_meta e))"
  have st0: "min (u64 (off + len)) (fileSize (e_meta e)) = stop" by (simp add: stop_def)
  show ?thesis
  proof (cases "len = 0 \<or> off \<ge> stop")
    case True
    then have "p1 = p \<and> e1 = e" using f buffered by (auto simp: writePages_def stop_def Let_def)
    then show ?thesis using inv by simp
  next
    case False
    then have s: "off < stop" "stop \<le> fileSize (e_meta e)" by (auto simp: stop_def)
    have fi: "fill_input orig off stop inp" using o I(2) by (simp add: origin_span_def stop_def)
    obtain ea staged covered where fo: "fold (fill_page off inp) (loop_pages e off stop) (e, 0, 0) = (ea, staged, covered)"
      by (metis prod_cases3)
    note F = fill_loop_inv [OF D(1) s fi fo]
    have ia: "store_inv G orig ino p ea" by (rule store_inv_same [OF inv F(1,2)]) (simp_all add: F(3))
    define pa where "pa = (if covered \<noteq> 0
                    then p\<lparr>g_specTotal := g_specTotal p - word_of_nat covered,
                           g_bufTotal := g_bufTotal p + word_of_nat covered,
                           p_stats := (p_stats p)\<lparr>prefetchServedBytes := prefetchServedBytes (p_stats p) + covered,
                                        prefetchRefetchedBytes := prefetchRefetchedBytes (p_stats p) + covered\<rparr>\<rparr> else p)"
    have pa: "p_io pa = p_io p" "g_specTotal pa = g_specTotal p - word_of_nat covered" "g_bufTotal pa = g_bufTotal p + word_of_nat covered"
      by (simp_all add: pa_def)
    define eb where "eb = ea\<lparr>e_obs := (e_obs ea)\<lparr>o_prefetchServed := o_prefetchServed (e_obs ea) + covered\<rparr>\<rparr>"
    have b: "store_inv G orig ino pa eb" "same_entry e eb" "e_bufBytes eb = e_bufBytes ea" "e_specBytes eb = e_specBytes ea"
      using store_inv_io [OF pa(1) store_inv_flags(4) [OF ia]] F(2) by (simp_all add: eb_def)
    show ?thesis
    proof (cases "staged = 0")
      case True
      then have "p1 = pa" "e1 = eb"
        using f buffered False fo by (simp_all add: writePages_def st0 Let_def pa_def eb_def)
      then show ?thesis using b F(4,5) pa True by (simp add: pools_move_def)
    next
      case st: False
      define pc where "pc = pa\<lparr>g_bufTotal := g_bufTotal pa + word_of_nat staged\<rparr>"
      define ec where "ec = touchAtime now (eb\<lparr>e_obs := (e_obs eb)\<lparr>o_wireBytes := o_wireBytes (e_obs eb) + staged\<rparr>\<rparr>)"
      note T = touchAtime_store_inv [OF store_inv_flags(4) [OF b(1)] now]
      have c: "store_inv G orig ino pc ec" "same_entry e ec" "e_bufBytes ec = e_bufBytes ea" "e_specBytes ec = e_specBytes ea"
        using store_inv_io [of pc pa G orig ino ec] T(1) same_entry_trans [OF _ T(2)] T(3,4) b by (simp_all add: ec_def pc_def)
      have fb: "flushBuffer cfg now False (pc, ec) = (h, p1, e1)"
        using f buffered False fo st by (simp add: writePages_def st0 Let_def pa_def eb_def pc_def ec_def)
      note B = flushBuffer_store_inv [OF c(1) fb]
      have "pools_move p e pc ec" using c(3,4) F(4,5) pa by (simp add: pools_move_def pc_def)
      with B c(2) same_entry_trans pools_move_trans show ?thesis by blast
    qed
  qed
qed

lemma flushAll_store_inv:
  assumes "store_inv G orig ino p e" and "flushAll cfg now (p, e) = (h, p1, e1)"
  shows "store_inv G orig ino p1 e1 \<and> same_entry e e1 \<and> pools_move p e p1 e1"
proof -
  obtain pa ea where b: "flushBuffer cfg now True (p, e) = (h, pa, ea)" and m: "flushMeta cfg now True (pa, ea) = (p1, e1)"
    using assms(2) by (auto simp: flushAll_def split: prod.splits)
  note B = flushBuffer_store_inv [OF assms(1) b]
  show ?thesis
    using flushMeta_store_inv [OF m B(1)] flushMeta_pools [OF m] B same_entry_trans by (auto simp: pools_move_def)
qed

lemma checkpoint_store_inv:
  assumes "store_inv G orig ino p e" and "checkpoint cfg now (p, e) = (h, p1, e1)"
  shows "store_inv G orig ino p1 e1 \<and> same_entry e e1 \<and> pools_move p e p1 e1"
proof -
  have "flushBuffer cfg now True (p, e) = (h, p1, e1) \<or> flushMeta cfg now False (p, e) = (p1, e1)"
    using assms(2) by (auto simp: checkpoint_def Let_def split: if_splits)
  then show ?thesis
    using flushBuffer_store_inv [OF assms(1)] flushMeta_store_inv [OF _ assms(1)] flushMeta_pools by (fastforce simp: pools_move_def)
qed

end
