(* ===== verification/Entry_Ops.thy ===== *)
theory Entry_Ops
  imports Entry_Fill
begin

unbundle bit_operations_syntax

text \<open>
  Every operation of a handle as a step that keeps the invariant of the store: predictions,
  reads, the scrub, pins. \<open>kept\<close> is what each of them guarantees: the invariant, the identity of the
  entry, and that the process-wide pools move with the entry's own.
\<close>

definition kept :: "bool \<Rightarrow> bytes \<Rightarrow> nat \<Rightarrow> proc \<times> entry \<Rightarrow> proc \<times> entry \<Rightarrow> bool" where
  "kept G orig ino pe pe1 \<longleftrightarrow> store_inv G orig ino (fst pe1) (snd pe1) \<and> same_entry (snd pe) (snd pe1) \<and>
     pools_move (fst pe) (snd pe) (fst pe1) (snd pe1)"

lemma kept_trans [trans]: "kept G orig ino a b \<Longrightarrow> kept G orig ino b c \<Longrightarrow> kept G orig ino a c"
  using same_entry_trans pools_move_trans unfolding kept_def by blast

lemma kept_refl: "store_inv G orig ino p e \<Longrightarrow> kept G orig ino (p, e) (p, e)"
  by (simp add: kept_def)

lemma keptI:
  assumes "store_inv G orig ino p e" and "entry_inv orig e1" and "same_entry e e1" and "e_meta e1 = e_meta e"
    and "pools_move p e p1 e1" and "p_io p1 = p_io p"
  shows "kept G orig ino (p, e) (p1, e1)"
  using assms store_inv_io [OF assms(6)] store_inv_same [OF assms(1-3), of p] by (simp add: kept_def)

section \<open>Predictions\<close>

lemma spec_page_staged:
  assumes "staged_from orig (fst st)" and "stage_ok (fst st)" and "meta_ok (e_meta (fst st))"
    and "length orig = fileSize (e_meta (fst st))" and "stop \<le> length orig" and "fill_input orig off stop inp"
    and "off \<le> i * P_of (fst st)" "i < npages (e_meta (fst st))" "i * P_of (fst st) + nbytes_of (fst st) i \<le> stop"
  shows "staged_from orig (fst (spec_page off inp i st))"
proof -
  obtain e s where st: "st = (e, s)" by fastforce
  have d: "slice (i * P_of e - off) (nbytes_of e i) inp = page_of (P_of e) orig i"
    using assms st by (simp add: fill_input_page page_of_eq)
  have "staged_from orig (e\<lparr>e_buf := sm_insert i (new_page (page_of (P_of e) orig i) True) (e_buf e),
      e_specBytes := e_specBytes e + word_of_nat (nbytes_of e i)\<rparr>)"
    using insert_staged [of orig e i _ True] assms(1,8) st stage_okD(1) [OF assms(2)] by simp
  then show ?thesis using assms(1) st d by (auto simp: spec_page_def Let_def)
qed

lemma spec_loop_inv:
  assumes inv: "entry_inv orig e" and s: "stop \<le> length orig" and fi: "fill_input orig off stop inp"
  shows "set is \<subseteq> {i. off \<le> i * P_of e \<and> i < npages (e_meta e) \<and> i * P_of e + nbytes_of e i \<le> stop} \<Longrightarrow>
    entry_inv orig (fst (fold (spec_page off inp) is (e, n))) \<and> same_entry e (fst (fold (spec_page off inp) is (e, n))) \<and>
    e_meta (fst (fold (spec_page off inp) is (e, n))) = e_meta e"
  using inv
proof (induction "is" arbitrary: e n)
  case (Cons i "is")
  note D = entry_invD [OF Cons.prems(2)]
  obtain e1 n1 where e1: "spec_page off inp i (e, n) = (e1, n1)" by fastforce
  have f: "e_meta e1 = e_meta e" "e_setSince e1 = e_setSince e" "e_clearedSince e1 = e_clearedSince e" "same_entry e e1"
    using e1 by (auto simp: spec_page_def Let_def same_entry_def split: if_splits)
  have "stage_ok e1" using spec_page_rel [of e "(e, n)" off inp i] D(5) e1 insert_stage_ok(2) [OF D(5), of i]
    by (auto simp: spec_page_def Let_def split: if_splits)
  moreover have "staged_from orig e1" using spec_page_staged [of orig "(e, n)" stop off inp i] D s fi Cons.prems(1) e1 by simp
  ultimately have i1: "entry_inv orig e1" using entry_inv_stage [OF Cons.prems(2)] f by simp
  have "set is \<subseteq> {i. off \<le> i * P_of e1 \<and> i < npages (e_meta e1) \<and> i * P_of e1 + nbytes_of e1 i \<le> stop}" using Cons.prems(1) f by simp
  from Cons.IH [OF this i1, of n1] f e1 show ?case by (auto intro: same_entry_trans)
qed simp

lemma stageSpeculative_kept:
  assumes inv: "store_inv G orig ino p e" and o: "origin_span orig off len inp"
    and f: "stageSpeculative cfg p e off len inp = (n, p1, e1)"
  shows "kept G orig ino (p, e) (p1, e1)"
proof -
  note D = store_invD [OF inv] and I = entry_invD [OF store_invD(1) [OF inv]]
  note P = stageSpeculative_pools [OF I(5) f]
  define stop where "stop = min (u64 (off + len)) (fileSize (e_meta e))"
  have st0: "min (u64 (off + len)) (fileSize (e_meta e)) = stop" by (simp add: stop_def)
  have "entry_inv orig e1 \<and> same_entry e e1"
  proof (cases "len = 0 \<or> c_fillBufferMb cfg \<le> 0 \<or> off \<ge> stop")
    case True
    then show ?thesis using f D(1) by (auto simp: stageSpeculative_def st0 Let_def)
  next
    case False
    then have s: "off < stop" "stop \<le> fileSize (e_meta e)" by (auto simp: stop_def)
    have fi: "fill_input orig off stop inp" using o I(2) by (simp add: origin_span_def stop_def)
    have "e1 = fst (fold (spec_page off inp) (loop_pages e off stop) (e, 0))"
      using f False by (auto simp: stageSpeculative_def st0 Let_def split: prod.splits)
    then show ?thesis using spec_loop_inv [OF D(1) _ fi, of "loop_pages e off stop" 0] set_loop_pages [OF I(1) s] s I(2) by simp
  qed
  then show ?thesis using keptI [OF inv] P by simp
qed

lemma dropSpeculative_kept:
  assumes inv: "store_inv G orig ino p e" and f: "dropSpeculative p e off len = (n, p1, e1)"
  shows "kept G orig ino (p, e) (p1, e1)"
proof -
  note D = store_invD [OF inv] and I = entry_invD [OF store_invD(1) [OF inv]]
  note P = dropSpeculative_pools [OF I(5) f]
  have d: "e_setSince e1 = e_setSince e" "e_clearedSince e1 = e_clearedSince e" "same_entry e e1" "e_flushing e1 = e_flushing e"
      "\<exists>Q. e_buf e1 = filter Q (e_buf e)"
    using f by (auto simp: dropSpeculative_def noteSpeculativeDropped_def Let_def same_entry_def split: if_splits prod.splits
        intro: exI [of _ "\<lambda>_. True"])
  then obtain Q where "e_buf e1 = filter Q (e_buf e)" by blast
  then have "staged_from orig e1"
    using filter_staged [OF I(4) stage_okD(1) [OF I(5)], of Q] P d(4) by (simp add: staged_from_def)
  then have "entry_inv orig e1" using entry_inv_stage [OF D(1)] P d by blast
  then show ?thesis using keptI [OF inv _ d(3)] P by simp
qed

lemma touch_staged: "staged_from orig e \<Longrightarrow> staged_from orig (e\<lparr>e_buf := touch_edge a b pg (e_buf e)\<rparr>)"
  using modify_staged [of orig e "\<lambda>b. if bp_spec b then b\<lparr>bp_touched := True\<rparr> else b" pg] by (simp add: touch_edge_def)

lemma consumeSpeculative_kept:
  assumes inv: "store_inv G orig ino p e" and f: "consumeSpeculative p e off len = (n, p1, e1)"
  shows "kept G orig ino (p, e) (p1, e1)"
proof -
  note D = store_invD [OF inv] and I = entry_invD [OF store_invD(1) [OF inv]]
  note P = consumeSpeculative_pools [OF I(5) f]
  define stop where "stop = min (u64 (off + len)) (fileSize (e_meta e))"
  have st0: "min (u64 (off + len)) (fileSize (e_meta e)) = stop" by (simp add: stop_def)
  obtain a b where ab: "inner_pages e off stop = (a, b)" by fastforce
  define e2 where "e2 = e\<lparr>e_buf := touch_edge a b ((stop - 1) div P_of e) (touch_edge a b (off div P_of e) (e_buf e))\<rparr>"
  have "staged_from orig (e\<lparr>e_buf := touch_edge a b (off div P_of e) (e_buf e)\<rparr>)" by (rule touch_staged [OF I(4)])
  from touch_staged [OF this, of a b "(stop - 1) div P_of e"] have s2: "staged_from orig e2" by (simp add: e2_def)
  have s3: "sm_ok (e_buf e2)" using stage_okD(1) [OF I(5)] by (simp add: e2_def touch_edge_def sm_ok_modify)
  have d: "e_setSince e1 = e_setSince e" "e_clearedSince e1 = e_clearedSince e" "same_entry e e1" "e_flushing e1 = e_flushing e"
      "e_buf e1 = e_buf e \<or> e_buf e1 = filter (\<lambda>x. \<not> spec_in a b x) (e_buf e2)"
    using f ab by (auto simp: consumeSpeculative_def st0 Let_def same_entry_def e2_def split: if_splits)
  have "staged_from orig e1"
    using d(4,5) I(4) filter_staged [OF s2 s3, of "\<lambda>x. \<not> spec_in a b x"] P by (auto simp: staged_from_def e2_def)
  then have "entry_inv orig e1" using entry_inv_stage [OF D(1)] P d by blast
  then show ?thesis using keptI [OF inv _ d(3)] P by simp
qed

section \<open>Reads\<close>

text \<open>What a read may do besides serving: demote pages whose bytes it could not verify.\<close>

definition shrunk :: "bytes \<Rightarrow> proc \<times> entry \<Rightarrow> proc \<times> entry \<Rightarrow> bool" where
  "shrunk orig pe pe1 \<longleftrightarrow> entry_inv orig (snd pe1) \<and> same_entry (snd pe) (snd pe1) \<and> io_same (p_io (fst pe)) (p_io (fst pe1)) \<and>
     (\<forall>i. page_map (e_meta (snd pe1)) i \<noteq> None \<longrightarrow> page_map (e_meta (snd pe)) i \<noteq> None) \<and>
     e_bufBytes (snd pe1) = e_bufBytes (snd pe) \<and> e_specBytes (snd pe1) = e_specBytes (snd pe) \<and>
     g_bufTotal (fst pe1) = g_bufTotal (fst pe) \<and> g_specTotal (fst pe1) = g_specTotal (fst pe)"

lemma shrunk_trans [trans]: "shrunk orig a b \<Longrightarrow> shrunk orig b c \<Longrightarrow> shrunk orig a c"
  unfolding shrunk_def using same_entry_trans io_same_trans by metis

lemma shrunk_refl: "entry_inv orig e \<Longrightarrow> shrunk orig (p, e) (p, e)"
  by (simp add: shrunk_def)

lemma shrunk_kept: "store_inv G orig ino p e \<Longrightarrow> shrunk orig (p, e) (p1, e1) \<Longrightarrow> kept G orig ino (p, e) (p1, e1)"
  using store_inv_same [of G orig ino p e e1 p1] by (auto simp: shrunk_def kept_def pools_move_def)

lemma shrunk_io: "entry_inv orig e \<Longrightarrow> io_same (p_io p) io1 \<Longrightarrow> shrunk orig (p, e) (p\<lparr>p_io := io1\<rparr>, e)"
  by (simp add: shrunk_def)

lemma page_map_retract:
  "entry_inv orig e \<Longrightarrow> i < npages (e_meta e) \<Longrightarrow> page_map (e_meta (retractPage e i)) = (page_map (e_meta e))(i := None)"
  using pt.tab_del [OF entry_invD(1)] by (simp add: retractPage_eq)

lemma demoteRun_shrunk:
  assumes inv: "entry_inv orig e" and b: "b < npages (e_meta e)"
  shows "shrunk orig (p, e) (demoteRun (p, e) a b)"
proof -
  have "entry_inv orig (fold (\<lambda>i e. retractPage e i) is e) \<and> same_entry e (fold (\<lambda>i e. retractPage e i) is e) \<and>
     (\<forall>i. page_map (e_meta (fold (\<lambda>i e. retractPage e i) is e)) i \<noteq> None \<longrightarrow> page_map (e_meta e) i \<noteq> None) \<and>
     e_bufBytes (fold (\<lambda>i e. retractPage e i) is e) = e_bufBytes e \<and> e_specBytes (fold (\<lambda>i e. retractPage e i) is e) = e_specBytes e"
    if "set is \<subseteq> {..<npages (e_meta e)}" "entry_inv orig e" for "is" e
    using that
  proof (induction "is" arbitrary: e)
    case (Cons i "is")
    have i: "i < npages (e_meta e)" using Cons.prems by simp
    have np: "npages (e_meta (retractPage e i)) = npages (e_meta e)" by (simp add: retractPage_eq)
    have pm: "page_map (e_meta (retractPage e i)) j \<noteq> None \<Longrightarrow> page_map (e_meta e) j \<noteq> None" for j
      using page_map_retract [OF Cons.prems(2) i] by (simp split: if_splits)
    from Cons.IH [of "retractPage e i"] Cons.prems retractPage_inv [OF Cons.prems(2) i] np
    show ?case using pm by (simp add: same_entry_trans [of e "retractPage e i"])
  qed simp
  note F = this [OF _ inv]
  define e1 where "e1 = fold (\<lambda>i e. retractPage e i) [a..<Suc b] e"
  have "set [a..<Suc b] \<subseteq> {..<npages (e_meta e)}" using b by auto
  note E = F [OF this, folded e1_def]
  have fields: "page_map (e_meta (drop_complete e1)) = page_map (e_meta e1)" "e_bufBytes (drop_complete e1) = e_bufBytes e1"
    "e_specBytes (drop_complete e1) = e_specBytes e1" by (simp_all add: drop_complete_def)
  show ?thesis
    using E fields by (simp add: shrunk_def demoteRun_def drop_complete_inv e1_def [symmetric] del: upt_Suc)
qed

lemma shrunk_np: "shrunk orig (p, e) (p1, e1) \<Longrightarrow> npages (e_meta e1) = npages (e_meta e)"
  using same_entry_np by (simp add: shrunk_def)

lemma demote_page_shrunk:
  assumes inv: "entry_inv orig e" and i: "fst ic < npages (e_meta e)"
  shows "shrunk orig (p, e) (demote_page ic (p, e))"
proof -
  obtain i c where ic: "ic = (i, c)" by fastforce
  obtain r xs io1 where pr: "preadFull (p_io p) (e_dataFd e) (nbytes_of e i) (i * P_of e) [] = (r, xs, io1)" by (metis prod_cases3)
  have 1: "shrunk orig (p, e) (p\<lparr>p_io := io1\<rparr>, e)" by (rule shrunk_io [OF inv preadFull_io_same [OF pr]])
  have 2: "shrunk orig (p\<lparr>p_io := io1\<rparr>, e) (demoteRun (p\<lparr>p_io := io1\<rparr>, e) i i)" using demoteRun_shrunk [OF inv] i ic by simp
  show ?thesis using shrunk_trans [OF 1 2] 1 pr by (auto simp: demote_page_def ic Let_def)
qed

lemma demoteBadPages_shrunk:
  "entry_inv orig e \<Longrightarrow> fst ` set ics \<subseteq> {..<npages (e_meta e)} \<Longrightarrow> shrunk orig (p, e) (demoteBadPages ics (p, e))"
proof (induction ics arbitrary: p e)
  case Nil
  then show ?case by (simp add: demoteBadPages_def shrunk_refl)
next
  case (Cons ic ics)
  obtain p1 e1 where d: "demote_page ic (p, e) = (p1, e1)" by fastforce
  have 1: "shrunk orig (p, e) (p1, e1)" using demote_page_shrunk [OF Cons.prems(1), of ic p] Cons.prems(2) d by simp
  have "shrunk orig (p1, e1) (demoteBadPages ics (p1, e1))"
    using Cons.IH [of e1 p1] Cons.prems 1 shrunk_np [OF 1] by (auto simp: shrunk_def)
  from shrunk_trans [OF 1 this] show ?case using d by (simp add: demoteBadPages_def)
qed

lemma verify_loop_shrunk:
  "entry_inv orig e \<Longrightarrow> fst ` set ics \<subseteq> {..<npages (e_meta e)} \<Longrightarrow> shrunk orig (p, e) (snd (verify_loop ics dst got pos (p, e)))"
proof (induction ics arbitrary: pos)
  case (Cons ic ics)
  obtain i c where ic: "ic = (i, c)" by fastforce
  show ?case
    using Cons demoteBadPages_shrunk [OF Cons.prems, of p] demoteRun_shrunk [OF Cons.prems(1), of i p i] ic by (auto simp: Let_def)
qed (simp add: shrunk_refl)

lemma readVerifyRun_shrunk:
  assumes inv: "entry_inv orig e" and b: "b < npages (e_meta e)" and r: "readVerifyRun a b cs (p, e) = (ok, xs, p1, e1)"
  shows "shrunk orig (p, e) (p1, e1)"
proof -
  obtain rc ys io1 where pr: "preadFull (p_io p) (e_dataFd e) (runBytes (e_meta e) a b) (a * P_of e) [] = (rc, ys, io1)"
    by (metis prod_cases3)
  have 1: "shrunk orig (p, e) (p\<lparr>p_io := io1\<rparr>, e)" by (rule shrunk_io [OF inv preadFull_io_same [OF pr]])
  have "fst ` set (zip [a..<Suc b] cs) \<subseteq> {..<npages (e_meta e)}" using b by (auto dest: set_zip_leftD simp del: upt_Suc)
  from verify_loop_shrunk [OF inv this, of "p\<lparr>p_io := io1\<rparr>" ys "if rc > 0 then nat rc else 0" 0]
  have "shrunk orig (p\<lparr>p_io := io1\<rparr>, e) (p1, e1)"
    using r pr by (auto simp: readVerifyRun_def Let_def simp del: upt_Suc split: prod.splits)
  from shrunk_trans [OF 1 this] show ?thesis .
qed

text \<open>The plan: speculative pages the reader confirmed become real; nothing else changes.\<close>

definition planned :: "bytes \<Rightarrow> entry \<Rightarrow> plan \<Rightarrow> bool" where
  "planned orig e st \<longleftrightarrow> entry_inv orig (pl_e st) \<and> same_entry e (pl_e st) \<and> e_meta (pl_e st) = e_meta e \<and>
     e_bufBytes (pl_e st) = e_bufBytes e + word_of_nat (pl_specServed st) \<and>
     e_specBytes (pl_e st) = e_specBytes e - word_of_nat (pl_specServed st) \<and>
     (\<forall>(a, b, cs)\<in>set (pl_runs st). b < npages (e_meta e))"

lemma unmark_inv:
  assumes "entry_inv orig e" and "map_of (e_buf e) i = Some b" and "bp_spec b"
  shows "entry_inv orig (unmarkSpeculative e i)" "same_entry e (unmarkSpeculative e i)"
proof -
  have "e_setSince (unmarkSpeculative e i) = e_setSince e" "e_clearedSince (unmarkSpeculative e i) = e_clearedSince e"
    by (simp_all add: unmarkSpeculative_def)
  then show "entry_inv orig (unmarkSpeculative e i)"
    using entry_inv_stage [OF assms(1)] unmark_stage_ok [OF entry_invD(5) [OF assms(1)] assms(2,3)] unmark_staged [OF entry_invD(4) [OF assms(1)]]
    by simp
  show "same_entry e (unmarkSpeculative e i)" by (simp add: same_entry_def unmarkSpeculative_def)
qed

lemma add_page_run_bound:
  "\<forall>(a, b, cs)\<in>set runs. b < n \<Longrightarrow> i < n \<Longrightarrow> \<forall>(a, b, cs)\<in>set (add_page_run m runs i c). b < n"
  by (cases runs rule: rev_cases) (auto simp: add_page_run_def Let_def split: prod.splits if_splits)

lemma plan_page_planned:
  assumes pl: "planned orig e st" and i: "i < npages (e_meta e)" and s: "plan_page off stop account i st = Some st1"
  shows "planned orig e st1"
proof -
  let ?e = "pl_e st"
  have D: "entry_inv orig ?e" "same_entry e ?e" "e_meta ?e = e_meta e" using pl by (simp_all add: planned_def)
  show ?thesis
  proof (cases "staged_at ?e i")
    case None
    then have "st1 = st\<lparr>pl_runs := add_page_run (e_meta ?e) (pl_runs st) i (pageCrcs (e_meta ?e) ! i)\<rparr>"
      using s by (simp add: plan_page_def Let_def split: if_splits)
    moreover have "\<forall>(a, b, cs)\<in>set (pl_runs st). b < npages (e_meta e)" using pl by (simp add: planned_def)
    note add_page_run_bound [OF this i, of "e_meta ?e" "pageCrcs (e_meta ?e) ! i"]
    ultimately show ?thesis using pl by (simp add: planned_def)
  next
    case (Some b)
    define e1 where "e1 = (if bp_spec b \<and> account then unmarkSpeculative ?e i else ?e)"
    have b: "bp_spec b \<Longrightarrow> map_of (e_buf ?e) i = Some b"
      using Some stage_okD(6) [OF entry_invD(5) [OF D(1)], of i b] by (auto simp: staged_at_def split: option.splits)
    have e1: "entry_inv orig e1" "same_entry e e1" "e_meta e1 = e_meta e"
      using unmark_inv [OF D(1) b] D same_entry_trans by (auto simp: e1_def)
    define sv where "sv = (if account \<and> \<not> bm_get (e_servedOnce e1) i then bm_set (e_servedOnce e1) i else e_servedOnce e1)"
    have sv: "pl_e st1 = e1\<lparr>e_servedOnce := sv\<rparr>"
      using s Some by (auto simp: plan_page_def Let_def e1_def sv_def)
    have st1: "pl_runs st1 = pl_runs st"
      "pl_specServed st1 = pl_specServed st + (if bp_spec b \<and> account then nbytes_of ?e i else 0)"
      using s Some by (auto simp: plan_page_def Let_def)
    show ?thesis using pl e1 sv st1 by (auto simp: planned_def e1_def)
  qed
qed

lemma plan_pages_planned:
  "planned orig e st \<Longrightarrow> set is \<subseteq> {..<npages (e_meta e)} \<Longrightarrow> planned orig e (snd (plan_pages off stop account is st))"
  by (induction "is" arbitrary: st) (auto split: option.split dest: plan_page_planned)

lemma rc_plan_planned:
  assumes inv: "entry_inv orig e" and r: "off + len \<le> fileSize (e_meta e)" "0 < len"
  shows "planned orig e (snd (rc_plan e off len buf account))"
proof -
  have m: "meta_ok (e_meta e)" using entry_invD(1) [OF inv] .
  have "(off + len - 1) div P_of e < npages (e_meta e)"
    using r meta_ok_pageSize [OF m] npages_ceil [OF m] div_less_ceil_div by simp
  then have "set [off div P_of e..<Suc ((off + len - 1) div P_of e)] \<subseteq> {..<npages (e_meta e)}" by auto
  then show ?thesis
    unfolding rc_plan_def Let_def using inv by (intro plan_pages_planned) (auto simp: planned_def)
qed

lemma read_run_shrunk:
  assumes inv: "entry_inv orig e" and b: "b < npages (e_meta e)" and r: "read_run off stop (a, b, cs) (out, d, p, e) = (ok, out1, d1, p1, e1)"
  shows "shrunk orig (p, e) (p1, e1)"
proof -
  obtain ok' xs p' e' where v: "readVerifyRun a b cs (p, e) = (ok', xs, p', e')" by (metis prod_cases4)
  note S = readVerifyRun_shrunk [OF inv b v]
  have "p1 = p' \<and> (e1 = e' \<or> (\<exists>n. e1 = e'\<lparr>e_lastDiskEnd := n\<rparr>))"
    using r v by (auto simp: read_run_def Let_def split: if_splits)
  then show ?thesis using S by (auto simp: shrunk_def)
qed

lemma read_runs_shrunk:
  "entry_inv orig e \<Longrightarrow> \<forall>(a, b, cs)\<in>set runs. b < npages (e_meta e) \<Longrightarrow> read_runs off stop runs (out, d, p, e) = (ok, out1, d1, p1, e1) \<Longrightarrow>
   shrunk orig (p, e) (p1, e1)"
proof (induction runs arbitrary: out d p e)
  case Nil
  then show ?case by (simp add: shrunk_refl)
next
  case (Cons r runs)
  obtain a b cs where r: "r = (a, b, cs)" by (metis prod_cases3)
  obtain ok' out' d' p' e' where v: "read_run off stop (a, b, cs) (out, d, p, e) = (ok', out', d', p', e')" by (metis prod_cases5)
  have 1: "shrunk orig (p, e) (p', e')" using read_run_shrunk [OF Cons.prems(1) _ v] Cons.prems(2) r by simp
  show ?case
  proof (cases ok')
    case True
    then have "read_runs off stop runs (out', d', p', e') = (ok, out1, d1, p1, e1)" using Cons.prems(3) v r by simp
    from Cons.IH [OF _ _ this] Cons.prems(2) 1 shrunk_np [OF 1] have "shrunk orig (p', e') (p1, e1)" by (simp add: shrunk_def)
    from shrunk_trans [OF 1 this] show ?thesis .
  next
    case False
    then show ?thesis using Cons.prems(3) v r 1 by simp
  qed
qed

text \<open>At its end a read moves the bytes of the confirmed pages between the process-wide pools.\<close>

lemma rc_publish_fields:
  assumes "rc_publish account ok n ramB ftB d (p, e) = (p1, e1)"
  shows "p_io p1 = p_io p" "g_specTotal p1 = g_specTotal p - word_of_nat n" "g_bufTotal p1 = g_bufTotal p + word_of_nat n"
    "\<exists>o1. e1 = e\<lparr>e_obs := o1\<rparr>"
  using assms by (auto simp: rc_publish_def Let_def intro: exI [of _ "e_obs e"] split: if_splits)

lemma first_touch_fields: "\<exists>sv. fst (fold (first_touch off stop) xs (e, n)) = e\<lparr>e_servedOnce := sv\<rparr>"
proof (induction xs arbitrary: e n)
  case Nil
  show ?case by (intro exI [of _ "e_servedOnce e"]) simp
next
  case (Cons x xs)
  obtain e' n' where f: "first_touch off stop x (e, n) = (e', n')" by fastforce
  have "e' = e \<or> (\<exists>sv. e' = e\<lparr>e_servedOnce := sv\<rparr>)" using f by (auto simp: first_touch_def split: if_splits)
  with Cons.IH [of e' n'] f show ?case by auto
qed

lemma readCached_kept:
  assumes inv: "store_inv G orig ino p e" and now: "now < 2 ^ 64" and range: "off < 2 ^ 64" "len < 2 ^ 64"
    and r: "readCached now (p, e) off len buf account = (ok, out, p1, e1)"
  shows "kept G orig ino (p, e) (p1, e1)"
proof (cases "len = 0 \<or> u64 (off + len) < off \<or> u64 (off + len) > fileSize (e_meta e)")
  case True
  then show ?thesis using r kept_refl [OF inv] by (auto simp: readCached_def split: if_splits)
next
  case False
  note D = store_invD [OF inv]
  have in_range: "off + len \<le> fileSize (e_meta e)" "0 < len"
    using False u64_wrap_test [OF range] entry_invD(7) [OF D(1)] by (auto simp: u64_def)
  obtain found st where pl: "rc_plan e off len buf account = (found, st)" by fastforce
  have P: "planned orig e st" using rc_plan_planned [OF D(1) in_range] pl by (metis snd_conv)
  let ?e0 = "pl_e st" and ?n = "pl_specServed st"
  have rest: "rc_rest now off len account (found, st) (p, ?e0) = (ok, out, p1, e1)"
    using r False pl by (simp add: readCached_def)
  obtain ok' out' d p' e' where rr: "read_runs off (off + len) (pl_runs st) (pl_out st, no_disk, p, ?e0) = (ok', out', d, p', e')"
    by (metis prod_cases5)
  have S: "shrunk orig (p, ?e0) (p', e')" using read_runs_shrunk [OF _ _ rr, of orig] P by (simp add: planned_def)
  have pub: "kept G orig ino (p, e) (pb, eb)"
    if "rc_publish account okb ?n ramB ftB db (pa, ea) = (pb, eb)" "shrunk orig (p, ?e0) (pa, ea)" for okb ramB ftB db pa ea pb eb
  proof -
    note R = rc_publish_fields [OF that(1)]
    then obtain o1 where eb: "eb = ea\<lparr>e_obs := o1\<rparr>" by blast
    have T: "entry_inv orig ea" "same_entry e ea" "io_same (p_io p) (p_io pa)"
        "\<And>i. page_map (e_meta ea) i \<noteq> None \<Longrightarrow> page_map (e_meta e) i \<noteq> None"
      using that(2) P same_entry_trans by (auto simp: shrunk_def planned_def)
    have "store_inv G orig ino pa ea" by (rule store_inv_same [OF inv T(1,2) _ T(3)]) (rule T(4))
    then have "store_inv G orig ino pb eb" unfolding eb by (intro store_inv_io [OF R(1)] store_inv_flags(4))
    moreover have "pools_move p e pb eb" using that(2) P R eb by (simp add: pools_move_def shrunk_def planned_def)
    ultimately show ?thesis using T(2) by (simp add: kept_def eb)
  qed
  have S0: "shrunk orig (p, ?e0) (p, ?e0)" using P by (simp add: shrunk_refl planned_def)
  show ?thesis
  proof (cases "found \<and> ok'")
    case False
    then have "\<exists>okb ramB ftB db pa ea. rc_publish account okb ?n ramB ftB db (pa, ea) = (p1, e1) \<and> shrunk orig (p, ?e0) (pa, ea)"
      using rest rr S S0 by (fastforce simp: rc_rest_def split: if_splits)
    then show ?thesis using pub by blast
  next
    case True
    define s2 where "s2 = (if pl_runs st \<noteq> [] \<and> account
        then fold (first_touch off (off + len)) (concat (map (\<lambda>(a, b, cs). [a..<Suc b]) (pl_runs st))) (e', pl_ftB st) else (e', pl_ftB st))"
    have "\<exists>sv. fst s2 = e'\<lparr>e_servedOnce := sv\<rparr>"
    proof (cases "pl_runs st \<noteq> [] \<and> account")
      case True
      then show ?thesis
        using first_touch_fields [of off "off + len" "concat (map (\<lambda>(a, b, cs). [a..<Suc b]) (pl_runs st))" e' "pl_ftB st"]
        by (simp add: s2_def del: upt_Suc)
    next
      case False
      then show ?thesis by (intro exI [of _ "e_servedOnce e'"]) (auto simp: s2_def)
    qed
    then obtain sv where sv: "fst s2 = e'\<lparr>e_servedOnce := sv\<rparr>" by blast
    have S2: "shrunk orig (p, ?e0) (p', fst s2)" using S sv by (auto simp: shrunk_def)
    obtain p3 e3 where pb: "rc_publish account True ?n (pl_ramB st) (snd s2) d (p', fst s2) = (p3, e3)" by fastforce
    note K = pub [OF pb S2]
    have "(p1 = p3 \<and> e1 = e3) \<or> (p_io p1 = p_io p3 \<and> g_bufTotal p1 = g_bufTotal p3 \<and> g_specTotal p1 = g_specTotal p3 \<and>
        (\<exists>o1. e1 = (touchAtime now e3)\<lparr>e_obs := o1\<rparr>))"
      using rest rr True pb unfolding rc_rest_def s2_def [symmetric] by (auto simp: Let_def s2_def split: if_splits prod.splits)
    then show ?thesis
    proof
      assume "p1 = p3 \<and> e1 = e3"
      then show ?thesis using K by simp
    next
      assume h: "p_io p1 = p_io p3 \<and> g_bufTotal p1 = g_bufTotal p3 \<and> g_specTotal p1 = g_specTotal p3 \<and> (\<exists>o1. e1 = (touchAtime now e3)\<lparr>e_obs := o1\<rparr>)"
      then obtain o1 where o1: "e1 = (touchAtime now e3)\<lparr>e_obs := o1\<rparr>" by blast
      have i3: "store_inv G orig ino p3 e3" using K by (simp add: kept_def)
      note T = touchAtime_store_inv [OF i3 now]
      have "store_inv G orig ino p1 e1" unfolding o1 using h by (intro store_inv_io [of p1 p3] store_inv_flags(4) T(1)) simp
      then show ?thesis using K T(2-4) h o1 same_entry_trans by (auto simp: kept_def pools_move_def)
    qed
  qed
qed

section \<open>Scrub and pins\<close>

lemma scrub_page_shrunk:
  assumes "entry_inv orig e" and "i < npages (e_meta e)" and "scrub_page i (c, b, p, e) = (c1, b1, p1, e1)"
  shows "shrunk orig (p, e) (p1, e1)"
  using assms readVerifyRun_shrunk [OF assms(1,2)] shrunk_refl [OF assms(1)]
  by (auto simp: scrub_page_def split: if_splits prod.splits)

lemma scrub_pages_shrunk:
  "entry_inv orig e \<Longrightarrow> set is \<subseteq> {..<npages (e_meta e)} \<Longrightarrow> fold scrub_page is (c, b, p, e) = (c1, b1, p1, e1) \<Longrightarrow> shrunk orig (p, e) (p1, e1)"
proof (induction "is" arbitrary: c b p e)
  case Nil
  then show ?case by (simp add: shrunk_refl)
next
  case (Cons i "is")
  obtain c' b' p' e' where s: "scrub_page i (c, b, p, e) = (c', b', p', e')" by (metis prod_cases4)
  have 1: "shrunk orig (p, e) (p', e')" using scrub_page_shrunk [OF Cons.prems(1) _ s] Cons.prems(2) by simp
  have "shrunk orig (p', e') (p1, e1)"
    by (rule Cons.IH [of e' c' b' p']) (use Cons.prems s 1 shrunk_np [OF 1] in \<open>auto simp: shrunk_def\<close>)
  from shrunk_trans [OF 1 this] show ?case .
qed

lemma flushMeta_kept: "store_inv G orig ino p e \<Longrightarrow> flushMeta cfg now force (p, e) = (p1, e1) \<Longrightarrow> kept G orig ino (p, e) (p1, e1)"
  using flushMeta_store_inv [of cfg now force p e p1 e1 G orig ino] flushMeta_pools [of cfg now force p e p1 e1] by (simp add: kept_def pools_move_def)

lemma verifyAll_kept:
  assumes inv: "store_inv G orig ino p e" and v: "verifyAll cfg now (p, e) = (c, b, p1, e1)"
  shows "kept G orig ino (p, e) (p1, e1)"
proof -
  obtain c' b' p' e' where f: "fold scrub_page [0..<npages (e_meta e)] (0, 0, p, e) = (c', b', p', e')" by (metis prod_cases4)
  have "set [0..<npages (e_meta e)] \<subseteq> {..<npages (e_meta e)}" by auto
  from scrub_pages_shrunk [OF store_invD(1) [OF inv] this f] have K: "kept G orig ino (p, e) (p', e')" by (rule shrunk_kept [OF inv])
  then have "store_inv G orig ino p' e'" by (simp add: kept_def)
  then show ?thesis
    using v f K kept_trans [OF K flushMeta_kept] by (auto simp: verifyAll_def split: if_splits)
qed

lemma setPinned_kept:
  assumes inv: "store_inv G orig ino p e" and s: "setPinned cfg now on (p, e) = (p1, e1)"
  shows "kept G orig ino (p, e) (p1, e1)"
proof -
  define e' where "e' = e\<lparr>e_meta := (e_meta e)\<lparr>flags := (if on then flags (e_meta e) OR kFlagPinned else flags (e_meta e) AND NOT kFlagPinned)\<rparr>,
     e_pinTouched := True, e_dirty := True\<rparr>"
  have e': "entry_inv orig e'" "same_entry e e'" using entry_inv_flags [OF store_invD(1) [OF inv]] by (simp_all add: e'_def)
  have i': "store_inv G orig ino p e'" by (rule store_inv_same [OF inv e']) (simp_all add: e'_def)
  have f: "flushMeta cfg now True (p, e') = (p1, e1)" using s by (simp add: setPinned_def e'_def Let_def)
  have "kept G orig ino (p, e) (p, e')" using i' e'(2) by (simp add: kept_def pools_move_def e'_def)
  from kept_trans [OF this flushMeta_kept [OF i' f]] show ?thesis .
qed

end
