(* ===== verification/Entry_Release.thy ===== *)
theory Entry_Release
  imports Entry_Ops
begin

text \<open>
  Releasing ranges of an entry whose bytes another tier now holds: staged copies leave their
  pools, published pages are retracted, the sidecar is committed and the spans are punched
  out of the data file. In memory a released page is absent before its bytes vanish; on disk
  only when the commit in between succeeded.
\<close>

definition rel_inv :: "bytes \<Rightarrow> proc \<times> entry \<Rightarrow> release \<Rightarrow> bool" where
  "rel_inv orig pe r \<longleftrightarrow> entry_inv orig (rl_e r) \<and> same_entry (snd pe) (rl_e r) \<and> pools_move (fst pe) (snd pe) (rl_p r) (rl_e r) \<and>
     p_io (rl_p r) = p_io (fst pe) \<and>
     (\<forall>i. page_map (e_meta (rl_e r)) i \<noteq> None \<longrightarrow> page_map (e_meta (snd pe)) i \<noteq> None)"

lemma erase_inv:
  assumes inv: "entry_inv orig e" and b: "map_of (e_buf e) i = Some b"
  shows "entry_inv orig (if bp_spec b then e\<lparr>e_specBytes := e_specBytes e - word_of_nat (nbytes_of e i), e_buf := sm_erase i (e_buf e)\<rparr>
    else e\<lparr>e_bufBytes := e_bufBytes e - word_of_nat (nbytes_of e i), e_buf := sm_erase i (e_buf e)\<rparr>)" (is "entry_inv orig ?e")
proof -
  note D = entry_invD [OF inv] and S = stage_okD [OF entry_invD(5) [OF inv]]
  have w: "word_of_nat (sm_sum wt (sm_erase i (e_buf e))) = word_of_nat (sm_sum wt (e_buf e)) - (word_of_nat (wt i b) :: u64w)" for wt
    using sm.weight_del_word [OF S(1) b] by simp
  have "stage_ok ?e"
    using D(5) w [of "spec_w (e_meta e)"] w [of "real_w (e_meta e)"] S(3,4)
    by (auto simp: stage_ok_def spec_w_def real_w_def sm_ok_erase map_of_sm_erase)
  moreover have "staged_from orig ?e" using D(4) by (auto simp: staged_from_def map_of_sm_erase split: if_splits)
  ultimately show ?thesis by (rule entry_inv_stage [OF inv, rotated 3]) simp_all
qed

lemma release_page_inv:
  assumes r: "rel_inv orig pe r" and i: "i < npages (e_meta (snd pe))" and s: "release_page i (r, n) = (r1, n1)"
  shows "rel_inv orig pe r1"
proof -
  let ?e = "rl_e r"
  have D: "entry_inv orig ?e" "same_entry (snd pe) ?e" using r by (simp_all add: rel_inv_def)
  define r' where "r' = fst (release_page i (r\<lparr>rl_any := rl_any r\<rparr>, n))"
  define ra where "ra = (case map_of (e_buf ?e) i of None \<Rightarrow> r
      | Some b \<Rightarrow> if bp_spec b
                  then r\<lparr>rl_e := ?e\<lparr>e_specBytes := e_specBytes ?e - word_of_nat (nbytes_of ?e i), e_buf := sm_erase i (e_buf ?e)\<rparr>,
                         rl_p := (rl_p r)\<lparr>g_specTotal := g_specTotal (rl_p r) - word_of_nat (nbytes_of ?e i)\<rparr>,
                         rl_dropped := rl_dropped r + (if bp_touched b then 0 else nbytes_of ?e i)\<rparr>
                  else r\<lparr>rl_e := ?e\<lparr>e_bufBytes := e_bufBytes ?e - word_of_nat (nbytes_of ?e i), e_buf := sm_erase i (e_buf ?e)\<rparr>,
                         rl_p := (rl_p r)\<lparr>g_bufTotal := g_bufTotal (rl_p r) - word_of_nat (nbytes_of ?e i)\<rparr>\<rparr>)"
  have a: "rel_inv orig pe ra" "e_meta (rl_e ra) = e_meta ?e"
  proof -
    show "e_meta (rl_e ra) = e_meta ?e" by (simp add: ra_def split: option.split)
    show "rel_inv orig pe ra"
      using r erase_inv [OF D(1), of i] by (auto simp: ra_def rel_inv_def pools_move_def split: option.splits if_splits)
  qed
  have r1: "r1 = ra \<or> r1 = ra\<lparr>rl_e := retractPage (rl_e ra) i, rl_any := True\<rparr>"
    using s unfolding release_page_def Let_def prod.case ra_def [symmetric] by (auto split: if_splits)
  have np: "i < npages (e_meta (rl_e ra))" using i a(2) same_entry_np [OF D(2)] by simp
  have I: "entry_inv orig (rl_e ra)" using a(1) by (simp add: rel_inv_def)
  have "rel_inv orig pe (ra\<lparr>rl_e := retractPage (rl_e ra) i, rl_any := True\<rparr>)"
    using a(1) retractPage_inv [OF I np] page_map_retract [OF I np] same_entry_trans [OF _ same_entry_page(2)]
    by (auto simp: rel_inv_def pools_move_def split: if_splits)
  with r1 a(1) show ?thesis by auto
qed

lemma release_pages_inv:
  "rel_inv orig pe r \<Longrightarrow> set is \<subseteq> {..<npages (e_meta (snd pe))} \<Longrightarrow> fold release_page is (r, n) = (r1, n1) \<Longrightarrow> rel_inv orig pe r1"
proof (induction "is" arbitrary: r n)
  case (Cons i "is")
  obtain r' n' where s: "release_page i (r, n) = (r', n')" by fastforce
  show ?case
    by (rule Cons.IH [of r' n']) (use Cons.prems s release_page_inv [OF Cons.prems(1) _ s] in auto)
qed simp

lemma release_range_inv:
  assumes r: "rel_inv orig pe r" shows "rel_inv orig pe (release_range rng r)"
proof -
  obtain off len where rng: "rng = (off, len)" by fastforce
  let ?m = "e_meta (rl_e r)"
  let ?P = "pageSize ?m"
  have D: "entry_inv orig (rl_e r)" "same_entry (snd pe) (rl_e r)" using r by (simp_all add: rel_inv_def)
  have m: "meta_ok ?m" using entry_invD(1) [OF D(1)] .
  show ?thesis
  proof (cases "len = 0 \<or> u64 (off + len) < off \<or> u64 (off + len) > fileSize ?m \<or> u64 (off + ?P - 1) div ?P \<ge> u64 (off + len) div ?P")
    case True
    then show ?thesis using r by (auto simp: release_range_def rng Let_def)
  next
    case False
    obtain r1 res where f: "fold release_page [u64 (off + ?P - 1) div ?P..<u64 (off + len) div ?P] (r, 0) = (r1, res)" by fastforce
    have "u64 (off + len) div ?P \<le> npages ?m"
      using False meta_ok_pageSize [OF m] npages_ceil [OF m] ceil_div_mult_ge [OF meta_ok_pageSize [OF m], of "fileSize ?m"]
      by (metis div_le_mono div_mult_self_is_m le_trans linorder_not_less)
    then have "set [u64 (off + ?P - 1) div ?P..<u64 (off + len) div ?P] \<subseteq> {..<npages (e_meta (snd pe))}"
      using same_entry_np [OF D(2)] by auto
    from release_pages_inv [OF r this f] have 1: "rel_inv orig pe r1" .
    have eq: "release_range rng r = r1\<lparr>rl_e := drop_complete (rl_e r1),
        rl_spans := rl_spans r1 @ [(u64 (off + ?P - 1) div ?P * ?P, (u64 (off + len) div ?P - u64 (off + ?P - 1) div ?P) * ?P, res)]\<rparr>"
      using False f by (simp add: release_range_def rng Let_def)
    have "page_map (e_meta (drop_complete (rl_e r1))) = page_map (e_meta (rl_e r1))" "e_bufBytes (drop_complete (rl_e r1)) = e_bufBytes (rl_e r1)"
      "e_specBytes (drop_complete (rl_e r1)) = e_specBytes (rl_e r1)" by (simp_all add: drop_complete_def)
    with 1 show ?thesis unfolding eq using drop_complete_inv by (simp add: rel_inv_def pools_move_def)
  qed
qed

lemma release_begin_inv:
  assumes "entry_inv orig e" shows "rel_inv orig (p, e) (release_begin (p, e) ranges)"
proof -
  have "rel_inv orig (p, e) (fold release_range ranges r)" if "rel_inv orig (p, e) r" for r
    using that by (induction ranges arbitrary: r) (auto intro: release_range_inv)
  from this [of "\<lparr>rl_p = p, rl_e = e, rl_any = False, rl_dropped = 0, rl_spans = []\<rparr>"] assms
  show ?thesis by (simp add: release_begin_def Let_def rel_inv_def pools_move_def)
qed

lemma punch_frame:
  assumes "map_of (io_fds io) fd = Some ino" shows "io_frame ino io (snd (io_punchHole io fd off len))"
proof -
  obtain oc io1 where o: "next_outcome io = (oc, io1)" by fastforce
  note same = next_outcome_same [OF o]
  have "map_of (io_fds io1) fd = Some ino" using assms io_sameD(3) [OF same] by simp
  then show ?thesis
    using o io_same_frame [OF same] io_frame_set_content [OF same] io_same_frame [OF io_same_refl]
    by (auto simp: io_punchHole_def Let_def split: outcome.splits)
qed

lemma punch_spans_frame:
  "map_of (io_fds io) fd = Some ino \<Longrightarrow> io_frame ino io (fst (fold (punch_span fd) sps (io, n)))"
proof (induction sps arbitrary: io n)
  case (Cons sp sps)
  obtain off len res where sp: "sp = (off, len, res)" by (metis prod_cases3)
  obtain rc io1 where q: "io_punchHole io fd off len = (rc, io1)" by fastforce
  have 1: "io_frame ino io io1" using punch_frame [OF Cons.prems, of off len] q by simp
  have "map_of (io_fds io1) fd = Some ino" using 1 Cons.prems by (simp add: io_frame_def)
  from io_frame_trans [OF 1 Cons.IH [OF this, of "if rc = 0 then n + res else n"]] q show ?case
    by (simp add: punch_span_def sp)
qed (simp add: io_frame_def)

section \<open>Where the holes are\<close>

text \<open>No page that \<open>m\<close> records overlaps a punched span.\<close>

definition spans_apart :: "(nat \<times> nat \<times> nat) list \<Rightarrow> metaData \<Rightarrow> bool" where
  "spans_apart sps m \<longleftrightarrow> (\<forall>i. page_map m i \<noteq> None \<longrightarrow>
     (\<forall>(off, len, res)\<in>set sps. Suc i * pageSize m \<le> off \<or> off + len \<le> i * pageSize m))"

definition sidecar_apart :: "(nat \<times> nat \<times> nat) list \<Rightarrow> nat \<Rightarrow> string \<Rightarrow> io \<Rightarrow> bool" where
  "sidecar_apart sps n path io \<longleftrightarrow> (\<forall>bs d. file_at io path = Some bs \<and> deserialize bs = Some d \<and> fileSize d = n \<longrightarrow> spans_apart sps d)"

lemma spans_apart_mono: "spans_apart sps m \<Longrightarrow> pageSize m' = pageSize m \<Longrightarrow> (\<And>i. page_map m' i \<noteq> None \<Longrightarrow> page_map m i \<noteq> None) \<Longrightarrow> spans_apart sps m'"
  by (simp add: spans_apart_def)

lemma release_page_meta:
  assumes "release_page i (r, n) = (r1, n1)"
  shows "e_meta (rl_e r1) = (if bm_get (bitmap (e_meta (rl_e r))) i then del_page i (e_meta (rl_e r)) else e_meta (rl_e r))"
    "rl_spans r1 = rl_spans r"
proof -
  have "e_meta (rl_e (fst (release_page i (r, n)))) =
      (if bm_get (bitmap (e_meta (rl_e r))) i then del_page i (e_meta (rl_e r)) else e_meta (rl_e r)) \<and>
    rl_spans (fst (release_page i (r, n))) = rl_spans r"
  proof (cases "map_of (e_buf (rl_e r)) i")
    case (Some b)
    then show ?thesis by (cases "bp_spec b") (simp_all add: release_page_def Let_def retractPage_eq)
  qed (simp add: release_page_def Let_def retractPage_eq)
  with assms show "e_meta (rl_e r1) = (if bm_get (bitmap (e_meta (rl_e r))) i then del_page i (e_meta (rl_e r)) else e_meta (rl_e r))"
    "rl_spans r1 = rl_spans r" by simp_all
qed

lemma release_pages_gone:
  "meta_ok (e_meta (rl_e r)) \<Longrightarrow> set is \<subseteq> {..<npages (e_meta (rl_e r))} \<Longrightarrow> fold release_page is (r, n) = (r1, n1) \<Longrightarrow>
   rl_spans r1 = rl_spans r \<and> pageSize (e_meta (rl_e r1)) = pageSize (e_meta (rl_e r)) \<and>
   (\<forall>j. page_map (e_meta (rl_e r1)) j \<noteq> None \<longrightarrow> page_map (e_meta (rl_e r)) j \<noteq> None \<and> j \<notin> set is)"
proof (induction "is" arbitrary: r n)
  case (Cons i "is")
  obtain r' n' where s: "release_page i (r, n) = (r', n')" by fastforce
  let ?m = "e_meta (rl_e r)" and ?m' = "e_meta (rl_e r')"
  have i: "i < npages ?m" using Cons.prems(2) by simp
  note M = release_page_meta [OF s]
  have m': "meta_ok ?m'" "npages ?m' = npages ?m" "pageSize ?m' = pageSize ?m" "page_map ?m' = (page_map ?m)(i := None)"
  proof -
    note T = pt.tab_del [OF Cons.prems(1) i]
    have "page_map ?m i = None" if "\<not> bm_get (bitmap ?m) i"
      using that bm.get_pages [of i "bitmap ?m"] meta_ok_pages [OF Cons.prems(1)] i by (auto simp: page_map_def)
    then show "page_map ?m' = (page_map ?m)(i := None)" using M(1) T by (auto simp: fun_eq_iff)
    show "meta_ok ?m'" "npages ?m' = npages ?m" "pageSize ?m' = pageSize ?m" using M(1) Cons.prems(1) i pt.ok_del [OF Cons.prems(1) i] by simp_all
  qed
  have "fold release_page is (r', n') = (r1, n1)" using Cons.prems(3) s by simp
  from Cons.IH [OF m'(1) _ this] Cons.prems(2) m'(2)
  have "rl_spans r1 = rl_spans r' \<and> pageSize (e_meta (rl_e r1)) = pageSize ?m' \<and>
    (\<forall>j. page_map (e_meta (rl_e r1)) j \<noteq> None \<longrightarrow> page_map ?m' j \<noteq> None \<and> j \<notin> set is)" by simp
  with m'(3,4) M(2) show ?case by (metis fun_upd_apply set_ConsD)
qed simp

lemma release_range_apart:
  assumes r: "rel_inv orig pe r" and a: "spans_apart (rl_spans r) (e_meta (rl_e r))"
  shows "spans_apart (rl_spans (release_range rng r)) (e_meta (rl_e (release_range rng r)))"
proof -
  obtain off len where rng: "rng = (off, len)" by fastforce
  let ?m = "e_meta (rl_e r)"
  let ?P = "pageSize ?m"
  let ?a = "u64 (off + ?P - 1) div ?P" and ?b = "u64 (off + len) div ?P"
  have m: "meta_ok ?m" using r entry_invD(1) by (auto simp: rel_inv_def)
  show ?thesis
  proof (cases "len = 0 \<or> u64 (off + len) < off \<or> u64 (off + len) > fileSize ?m \<or> ?a \<ge> ?b")
    case True
    then show ?thesis using a by (auto simp: release_range_def rng Let_def)
  next
    case False
    obtain r1 res where f: "fold release_page [?a..<?b] (r, 0) = (r1, res)" by fastforce
    have "?b \<le> npages ?m"
      using False meta_ok_pageSize [OF m] npages_ceil [OF m] ceil_div_mult_ge [OF meta_ok_pageSize [OF m], of "fileSize ?m"]
      by (metis div_le_mono div_mult_self_is_m le_trans linorder_not_less)
    then have "set [?a..<?b] \<subseteq> {..<npages ?m}" by auto
    note G = release_pages_gone [OF m this f]
    have eq: "rl_spans (release_range rng r) = rl_spans r @ [(?a * ?P, (?b - ?a) * ?P, res)]"
      "page_map (e_meta (rl_e (release_range rng r))) = page_map (e_meta (rl_e r1))"
      "pageSize (e_meta (rl_e (release_range rng r))) = ?P"
      using False f G by (simp_all add: release_range_def rng Let_def drop_complete_def)
    have "spans_apart (rl_spans r) (e_meta (rl_e (release_range rng r)))" by (rule spans_apart_mono [OF a eq(3)]) (use eq(2) G in auto)
    moreover have "Suc i * ?P \<le> ?a * ?P \<or> ?a * ?P + (?b - ?a) * ?P \<le> i * ?P" if "page_map (e_meta (rl_e r1)) i \<noteq> None" for i
    proof -
      have "i < ?a \<or> ?b \<le> i" using G that by auto
      then show ?thesis using mult_le_mono1 [of "Suc i" ?a ?P] mult_le_mono1 [of ?b i ?P] False by (auto simp: diff_mult_distrib)
    qed
    ultimately show ?thesis unfolding spans_apart_def eq by auto
  qed
qed

lemma release_begin_apart:
  assumes "entry_inv orig e"
  shows "spans_apart (rl_spans (release_begin (p, e) ranges)) (e_meta (rl_e (release_begin (p, e) ranges)))"
proof -
  have "spans_apart (rl_spans (fold release_range ranges r)) (e_meta (rl_e (fold release_range ranges r)))"
    if "rel_inv orig (p, e) r" "spans_apart (rl_spans r) (e_meta (rl_e r))" for r
    using that by (induction ranges arbitrary: r) (auto intro: release_range_inv release_range_apart)
  from this [of "\<lparr>rl_p = p, rl_e = e, rl_any = False, rl_dropped = 0, rl_spans = []\<rparr>"] assms
  show ?thesis by (simp add: release_begin_def Let_def rel_inv_def pools_move_def spans_apart_def)
qed

text \<open>Punching changes bytes of the spans only.\<close>

lemma punch_bytes:
  assumes "map_of (io_fds io) fd = Some ino" and "a + n \<le> off \<or> off + len \<le> a"
  shows "slice a n (content (snd (io_punchHole io fd off len)) ino) = slice a n (content io ino)"
proof -
  obtain oc io1 where o: "next_outcome io = (oc, io1)" by fastforce
  note same = io_sameD [OF next_outcome_same [OF o]]
  let ?bs = "content io ino" and ?z = "replicate (min len (length (content io ino) - off)) (0 :: byte)"
  have "slice a n (overwrite ?bs (min off (length ?bs)) ?z) = slice a n ?bs"
  proof (cases "off < length ?bs")
    case True
    then show ?thesis using assms(2) by (intro slice_overwrite_other) auto
  qed simp
  then show ?thesis
    using o same assms(1) by (auto simp: io_punchHole_def Let_def map_of_content split: outcome.splits)
qed

lemma punch_spans_bytes:
  "map_of (io_fds io) fd = Some ino \<Longrightarrow> (\<And>off len res. (off, len, res) \<in> set sps \<Longrightarrow> a + n \<le> off \<or> off + len \<le> a) \<Longrightarrow>
   slice a n (content (fst (fold (punch_span fd) sps (io, k))) ino) = slice a n (content io ino)"
proof (induction sps arbitrary: io k)
  case (Cons sp sps)
  obtain off len res where sp: "sp = (off, len, res)" by (metis prod_cases3)
  obtain rc io1 where q: "io_punchHole io fd off len = (rc, io1)" by fastforce
  have "map_of (io_fds io1) fd = Some ino" using punch_frame [OF Cons.prems(1), of off len] q Cons.prems(1) by (simp add: io_frame_def)
  moreover have "slice a n (content io1 ino) = slice a n (content io ino)"
    using punch_bytes [OF Cons.prems(1), of a n off len] Cons.prems(2) [of off len res] sp q by simp
  moreover have "punch_span fd sp (io, k) = (io1, if rc = 0 then k + res else k)" using q by (simp add: punch_span_def sp)
  moreover have "\<And>off len res. (off, len, res) \<in> set sps \<Longrightarrow> a + n \<le> off \<or> off + len \<le> a" 
    using Cons.prems(2) by (meson list.set_intros(2))
  ultimately show ?case using Cons.IH [of io1 "if rc = 0 then k + res else k"] by (simp only: fold_Cons o_apply)
qed simp

lemma spans_apart_good:
  assumes "pages_good orig m bs" and "meta_ok m" and "spans_apart sps m"
    and "\<And>a n. (\<And>off len res. (off, len, res) \<in> set sps \<Longrightarrow> a + n \<le> off \<or> off + len \<le> a) \<Longrightarrow> slice a n bs' = slice a n bs"
  shows "pages_good orig m bs'"
  unfolding pages_good_def
proof (intro allI impI)
  fix i assume i: "page_map m i \<noteq> None"
  then have np: "i < npages m" using pt.tab_bound [OF assms(2), of i] by (meson not_le_imp_less)
  have "i * pageSize m + pageBytes m i \<le> Suc i * pageSize m" using page_end [OF assms(2) np] by simp
  then have "slice (i * pageSize m) (pageBytes m i) bs' = slice (i * pageSize m) (pageBytes m i) bs"
    using assms(3) i by (intro assms(4)) (fastforce simp: spans_apart_def)
  then show "good orig m bs' i" using assms(1) i by (simp add: pages_good_def good_def)
qed

text \<open>What a commit makes the handle publish it had published before or read in the sidecar it stored.\<close>

lemma flushMeta_named:
  assumes f: "flushMeta cfg now force (p, e) = (p1, e1)" and inv: "entry_inv orig e"
    and h: "data_held (e_metaPath e) (e_dataFd e) ino (p_io p)" and sc: "sidecar_from orig (e_metaPath e) (p_io p)"
  shows "(\<forall>i. page_map (e_meta e1) i \<noteq> None \<longrightarrow> page_map (e_meta e) i \<noteq> None) \<or>
    (\<exists>out. file_at (p_io p1) (e_metaPath e) = Some (serialize out) \<and> deserialize (serialize out) = Some out \<and>
       same_geo (e_meta e) out \<and> page_map (e_meta e1) = page_map out)"
  using f inv h sc
proof (cases rule: flushMeta_cases)
  case (stored sn e' p' rc merged out)
  note B = fm_begin_pending [OF inv stored(1)]
  have h': "data_held (e_metaPath e') (e_dataFd e') ino (p_io p)" using h B by simp
  note S = fm_commit_spec(4) [OF stored(2) h' refl]
  show ?thesis
  proof (cases "rc < 0 \<or> \<not> merged")
    case True
    then have "page_map (e_meta e1) = page_map (e_meta e)"
      using fm_finish_fail(5) [OF B(1,3) stored(3)] fm_finish_done(7) [OF B(1) stored(3) _ stored(4-6)] B(7) by (cases "rc < 0") auto
    then show ?thesis by simp
  next
    case False
    then have rc: "rc = 0" "0 \<le> rc" "merged" using fm_commit_rc [OF stored(2)] by auto
    obtain bs d where d: "deserialize bs = Some d" "usable cfg sn (e_key e') d" "out = merge_image sn d" using S rc(3) by auto
    have sn: "snap_ok sn" "meta_ok (sn_meta sn)" "fileSize (sn_meta sn) < 2 ^ 61"
      using B(3,8) entry_invD(1,7) [OF inv] by (auto simp: pending_ok_def)
    note U = usableD [OF d(2) sn(2,3) d(1)]
    have "length (key out) \<le> 64 * 1024" using merge_image_ok(3) [OF sn(1) U(1,3)] deserialize_key [OF d(1)] d(3) by simp
    then have "deserialize (serialize out) = Some out" using deserialize_serialize [OF stored(4)] by simp
    moreover note F = fm_finish_done [OF B(1) stored(3) rc(2) stored(4-6)]
    moreover have "file_at (p_io p1) (e_metaPath e) = Some (serialize out)" using S rc B F(3) by auto
    moreover have "page_map (e_meta e1) = page_map out" using F(7) rc B(11,12) by (simp add: adopt_map_def fun_eq_iff)
    ultimately show ?thesis using stored(5) B(7) by auto
  qed
next
  case (gone sn)
  then show ?thesis using fm_begin_pending(7) [OF inv gone(1)] by simp
qed simp

section \<open>The whole release\<close>

text \<open>A release keeps the safe part of the invariant whatever happens, and all of it when the sidecar
  it leaves records no page it has punched.\<close>

lemma releaseRanges_kept:
  assumes inv: "store_inv G orig ino p e" and f: "releaseRanges cfg now (p, e) ranges = (n, p1, e1)"
    and clear: "G \<Longrightarrow> sidecar_apart (rl_spans (release_begin (p, e) ranges)) (length orig) (e_metaPath e) (p_io p1)"
  shows "kept G orig ino (p, e) (p1, e1)"
proof -
  define r where "r = release_begin (p, e) ranges"
  have R: "rel_inv orig (p, e) r" unfolding r_def by (rule release_begin_inv [OF store_invD(1) [OF inv]])
  obtain pa ea where pa: "(if rl_dropped r \<noteq> 0 then noteSpeculativeDropped (rl_p r) (rl_e r) (rl_dropped r) else (rl_p r, rl_e r)) = (pa, ea)"
    by fastforce
  have io: "p_io pa = p_io p" "entry_inv orig ea" "same_entry e ea" "pools_move p e pa ea"
      "\<And>i. page_map (e_meta ea) i \<noteq> None \<Longrightarrow> page_map (e_meta e) i \<noteq> None"
    using R pa by (cases "rl_dropped r = 0"; force simp: rel_inv_def noteSpeculativeDropped_def pools_move_def)+
  have ia: "store_inv G orig ino pa ea"
    by (rule store_inv_io [OF io(1)], rule store_inv_same [OF inv io(2,3) io(5)]) simp_all
  have ka: "kept G orig ino (p, e) (pa, ea)" using ia io(3,4) by (simp add: kept_def)
  show ?thesis
  proof (cases "rl_spans r = []")
    case True
    then show ?thesis using f ka pa by (simp add: releaseRanges_def r_def [symmetric] Let_def)
  next
    case False
    obtain pb eb where fm: "flushMeta cfg now True (pa, ea) = (pb, eb)" by fastforce
    have kb: "kept G orig ino (pa, ea) (pb, eb)" by (rule flushMeta_kept [OF ia fm])
    have ib: "store_inv G orig ino pb eb" using kb by (simp add: kept_def)
    note Db = store_invD [OF ib]
    define ioc where "ioc = fst (fold (punch_span (e_dataFd eb)) (rl_spans r) (p_io pb, 0))"
    have fr: "io_frame ino (p_io pb) ioc" unfolding ioc_def using Db(2) by (intro punch_spans_frame) (simp add: data_held_def)
    obtain io' n' where iow: "fold (punch_span (e_dataFd eb)) (rl_spans r) (p_io pb, 0) = (io', n')" by fastforce
    have p1: "p1 = pb\<lparr>p_io := ioc\<rparr>" "e1 = eb"
      using f False pa fm iow by (simp_all add: releaseRanges_def r_def [symmetric] Let_def ioc_def)
    have "file_at ioc (e_metaPath eb) = file_at (p_io pb) (e_metaPath eb)"
      using fr Db(2) by (cases "map_of (io_names (p_io pb)) (e_metaPath eb)") (auto simp: file_at_def io_frame_def data_held_def)
    note same = sidecar_from_cong [OF this] this
    have sb: "same_entry e eb" using ka kb same_entry_trans by (auto simp: kept_def)
    have g: "e_metaPath eb = e_metaPath e" "same_geo (e_meta e) (e_meta eb)" using sb by (simp_all add: same_entry_def)
    have bytes: "slice a k (content ioc ino) = slice a k (content (p_io pb) ino)"
      if "\<And>off len res. (off, len, res) \<in> set (rl_spans r) \<Longrightarrow> a + k \<le> off \<or> off + len \<le> a" for a k
      unfolding ioc_def using Db(2) that by (intro punch_spans_bytes) (simp_all add: data_held_def)
    have data: "sidecar_data orig (e_metaPath eb) ino ioc \<and> pages_good orig (e_meta eb) (content ioc ino)" if G
    proof
      have cl: "spans_apart (rl_spans r) d" if "file_at ioc (e_metaPath eb) = Some bs" "deserialize bs = Some d" "fileSize d = length orig" for bs d
        using clear [OF \<open>G\<close>] that g(1) unfolding sidecar_apart_def r_def [symmetric] p1(1) by simp
      show "sidecar_data orig (e_metaPath eb) ino ioc"
        unfolding sidecar_data_def
      proof (intro allI impI)
        fix bs d assume d: "file_at ioc (e_metaPath eb) = Some bs \<and> deserialize bs = Some d \<and> fileSize d = length orig"
        have "pages_good orig d (content (p_io pb) ino)" using Db(4) [OF \<open>G\<close>] d same(2) by (auto simp: sidecar_data_def)
        moreover have "meta_ok d" using d deserialize_meta_ok [of bs d] entry_invD(2,7) [OF Db(1)] by simp
        ultimately show "pages_good orig d (content ioc ino)" by (rule spans_apart_good) (use cl d bytes in auto)
      qed
      have "spans_apart (rl_spans r) (e_meta eb)"
        using flushMeta_named [OF fm store_invD(1-3) [OF ia]]
      proof
        assume sub: "\<forall>i. page_map (e_meta eb) i \<noteq> None \<longrightarrow> page_map (e_meta ea) i \<noteq> None"
        have "spans_apart (rl_spans r) (e_meta ea)" using release_begin_apart [OF store_invD(1) [OF inv], of p ranges] pa
          by (cases "rl_dropped r = 0") (auto simp: r_def [symmetric] noteSpeculativeDropped_def)
        then show ?thesis by (rule spans_apart_mono) (use sub kb in \<open>auto simp: kept_def same_entry_def same_geo_def\<close>)
      next
        assume "\<exists>out. file_at (p_io pb) (e_metaPath ea) = Some (serialize out) \<and> deserialize (serialize out) = Some out \<and>
          same_geo (e_meta ea) out \<and> page_map (e_meta eb) = page_map out"
        then obtain out where out: "file_at (p_io pb) (e_metaPath ea) = Some (serialize out)" "deserialize (serialize out) = Some out"
          "same_geo (e_meta ea) out" "page_map (e_meta eb) = page_map out" by blast
        have "spans_apart (rl_spans r) out"
          by (rule cl [of "serialize out"]) (use out same(2) io(3) g(1) entry_invD(2) [OF io(2)] in \<open>auto simp: same_entry_def same_geo_def\<close>)
        then show ?thesis by (rule spans_apart_mono) (use out kb in \<open>auto simp: kept_def same_entry_def same_geo_def\<close>)
      qed
      then show "pages_good orig (e_meta eb) (content ioc ino)"
        using spans_apart_good [OF Db(5) [OF \<open>G\<close>] entry_invD(1) [OF Db(1)]] bytes by blast
    qed
    from same(1) have "store_inv G orig ino p1 e1"
      using Db(1-3) frame_held [OF fr] data by (simp add: p1 store_inv_def)
    then have "kept G orig ino (pb, eb) (p1, e1)" by (simp add: kept_def p1 pools_move_def)
    from kept_trans [OF ka kept_trans [OF kb this]] show ?thesis .
  qed
qed

end
