(* ===== verification/Entry_System.thy ===== *)
theory Entry_System
  imports Entry_Release
begin

text \<open>
  A handle as a state machine. A step is one operation of the plugin on the handle, or something
  that happens around it: another handle or process commits its own pages, or, when the
  flag \<open>G\<close> is off, anything at all happens to the bytes of the data file. When \<open>G\<close> is on, a release
  of ranges is a step only if the sidecar it leaves records no page it has punched: the code does
  not check that its commit reached the disk, nor that the span holds no page of another
  process, and either omission leaves a recorded page over a hole. Safety is then a
  statement about every reachable state.
\<close>

inductive entry_step :: "config \<Rightarrow> bytes \<Rightarrow> nat \<Rightarrow> bool \<Rightarrow> proc \<times> entry \<Rightarrow> proc \<times> entry \<Rightarrow> bool"
  for cfg orig ino G where
  step_read: "now < 2 ^ 64 \<Longrightarrow> off < 2 ^ 64 \<Longrightarrow> len < 2 ^ 64 \<Longrightarrow> readCached now pe off len buf account = (ok, out, pe1) \<Longrightarrow>
    entry_step cfg orig ino G pe pe1"
| step_fill: "now < 2 ^ 64 \<Longrightarrow> origin_span orig off len inp \<Longrightarrow> writePages cfg now pe off len inp = (h, pe1) \<Longrightarrow>
    entry_step cfg orig ino G pe pe1"
| step_predict: "origin_span orig off len inp \<Longrightarrow> stageSpeculative cfg p e off len inp = (n, pe1) \<Longrightarrow>
    entry_step cfg orig ino G (p, e) pe1"
| step_drop: "dropSpeculative p e off len = (n, pe1) \<Longrightarrow> entry_step cfg orig ino G (p, e) pe1"
| step_consume: "consumeSpeculative p e off len = (n, pe1) \<Longrightarrow> entry_step cfg orig ino G (p, e) pe1"
| step_drain: "flushBuffer cfg now force pe = (h, pe1) \<Longrightarrow> entry_step cfg orig ino G pe pe1"
| step_flush: "flushAll cfg now pe = (h, pe1) \<Longrightarrow> entry_step cfg orig ino G pe pe1"
| step_checkpoint: "checkpoint cfg now pe = (h, pe1) \<Longrightarrow> entry_step cfg orig ino G pe pe1"
| step_commit: "flushMeta cfg now force pe = pe1 \<Longrightarrow> entry_step cfg orig ino G pe pe1"
| step_pin: "setPinned cfg now on pe = pe1 \<Longrightarrow> entry_step cfg orig ino G pe pe1"
| step_scrub: "verifyAll cfg now pe = (checked, bad, pe1) \<Longrightarrow> entry_step cfg orig ino G pe pe1"
| step_release: "releaseRanges cfg now pe ranges = (n, pe1) \<Longrightarrow>
    (G \<Longrightarrow> sidecar_apart (rl_spans (release_begin pe ranges)) (length orig) (e_metaPath (snd pe)) (p_io (fst pe1))) \<Longrightarrow>
    entry_step cfg orig ino G pe pe1"
| step_gate: "beginFetch p e off len cb = (own, p1, e1) \<Longrightarrow> entry_step cfg orig ino G (p, e) (p1, e1)"
| step_release_gate: "endFetch e off len = (cbs, e1) \<Longrightarrow> entry_step cfg orig ino G (p, e) (p, e1)"
| step_wire: "entry_step cfg orig ino G (p, e) (p, noteFetchInFlight e off len)"
| step_landed: "clearFetchInFlight e ranges = (cbs, e1) \<Longrightarrow> entry_step cfg orig ino G (p, e) (p, e1)"
| step_park: "waitForInFlight p e ranges cb = (parked, p1, e1) \<Longrightarrow> entry_step cfg orig ino G (p, e) (p1, e1)"
| step_sibling: "data_held (e_metaPath e) (e_dataFd e) ino io1 \<Longrightarrow> sidecar_from orig (e_metaPath e) io1 \<Longrightarrow>
    (G \<Longrightarrow> sidecar_data orig (e_metaPath e) ino io1) \<Longrightarrow> (G \<Longrightarrow> grows orig (content (p_io p) ino) (content io1 ino)) \<Longrightarrow>
    entry_step cfg orig ino G (p, e) (p\<lparr>p_io := io1, g_bufTotal := b, g_specTotal := s\<rparr>, e)"

text \<open>The table of fetches is none of the store's business.\<close>

lemma gate_inv:
  assumes "store_inv G orig ino p e"
  shows "store_inv G orig ino p (e\<lparr>e_inflight := a, e_flight := b, e_flightWaiters := c\<rparr>)"
  using assms by (simp add: store_inv_def entry_inv_def deltas_ok_def stage_ok_def staged_from_def)

lemma gate_hasRange: "hasRange (e\<lparr>e_inflight := a, e_flight := b, e_flightWaiters := c\<rparr>) off len = hasRange e off len"
  by (simp add: hasRange_def pageHere_def [abs_def])

lemma gate_ops:
  "beginFetch p e off len cb = (own, p1, e1) \<Longrightarrow> p_io p1 = p_io p \<and> (\<exists>a b c. e1 = e\<lparr>e_inflight := a, e_flight := b, e_flightWaiters := c\<rparr>)"
  "endFetch e off len = (cbs, e1) \<Longrightarrow> \<exists>a b c. e1 = e\<lparr>e_inflight := a, e_flight := b, e_flightWaiters := c\<rparr>"
  "\<exists>a b c. noteFetchInFlight e off len = e\<lparr>e_inflight := a, e_flight := b, e_flightWaiters := c\<rparr>"
  "clearFetchInFlight e ranges = (cbs, e1) \<Longrightarrow> \<exists>a b c. e1 = e\<lparr>e_inflight := a, e_flight := b, e_flightWaiters := c\<rparr>"
  "waitForInFlight p e ranges cb = (parked, p1, e1) \<Longrightarrow> p_io p1 = p_io p \<and> (\<exists>a b c. e1 = e\<lparr>e_inflight := a, e_flight := b, e_flightWaiters := c\<rparr>)"
proof -
  have id: "\<exists>a b c. e = e\<lparr>e_inflight := a, e_flight := b, e_flightWaiters := c\<rparr>" for e :: entry
    by (intro exI [of _ "e_inflight e"] exI [of _ "e_flight e"] exI [of _ "e_flightWaiters e"]) simp
  have i: "\<exists>a b c. e\<lparr>e_inflight := x\<rparr> = e\<lparr>e_inflight := a, e_flight := b, e_flightWaiters := c\<rparr>" for x and e :: entry
    by (intro exI [of _ x] exI [of _ "e_flight e"] exI [of _ "e_flightWaiters e"]) simp
  have f: "\<exists>a b c. e\<lparr>e_flight := x\<rparr> = e\<lparr>e_inflight := a, e_flight := b, e_flightWaiters := c\<rparr>" for x and e :: entry
    by (intro exI [of _ "e_inflight e"] exI [of _ x] exI [of _ "e_flightWaiters e"]) simp
  have w: "\<exists>a b c. e\<lparr>e_flightWaiters := x\<rparr> = e\<lparr>e_inflight := a, e_flight := b, e_flightWaiters := c\<rparr>" for x and e :: entry
    by (intro exI [of _ "e_inflight e"] exI [of _ "e_flight e"] exI [of _ x]) simp
  have fw: "\<exists>a b c. e\<lparr>e_flight := x, e_flightWaiters := y\<rparr> = e\<lparr>e_inflight := a, e_flight := b, e_flightWaiters := c\<rparr>" for x y and e :: entry
    by (intro exI [of _ "e_inflight e"] exI [of _ x] exI [of _ y]) simp
  show "beginFetch p e off len cb = (own, p1, e1) \<Longrightarrow> p_io p1 = p_io p \<and> (\<exists>a b c. e1 = e\<lparr>e_inflight := a, e_flight := b, e_flightWaiters := c\<rparr>)"
    using i id by (auto simp: beginFetch_def bump_joined_def Let_def split: option.splits)
  show "endFetch e off len = (cbs, e1) \<Longrightarrow> \<exists>a b c. e1 = e\<lparr>e_inflight := a, e_flight := b, e_flightWaiters := c\<rparr>"
    using i id by (auto simp: endFetch_def Let_def split: option.splits)
  show "\<exists>a b c. noteFetchInFlight e off len = e\<lparr>e_inflight := a, e_flight := b, e_flightWaiters := c\<rparr>"
    using f id by (auto simp: noteFetchInFlight_def split: option.split)
  show "clearFetchInFlight e ranges = (cbs, e1) \<Longrightarrow> \<exists>a b c. e1 = e\<lparr>e_inflight := a, e_flight := b, e_flightWaiters := c\<rparr>"
    using fw id f w by (auto simp: clearFetchInFlight_def Let_def split: if_splits)
  show "waitForInFlight p e ranges cb = (parked, p1, e1) \<Longrightarrow> p_io p1 = p_io p \<and> (\<exists>a b c. e1 = e\<lparr>e_inflight := a, e_flight := b, e_flightWaiters := c\<rparr>)"
    using w id by (auto simp: waitForInFlight_def bump_joined_def Let_def split: if_splits option.splits bool.splits)
qed

lemma gate_step:
  assumes "store_inv G orig ino p e" and "p_io p1 = p_io p" and "\<exists>a b c. e1 = e\<lparr>e_inflight := a, e_flight := b, e_flightWaiters := c\<rparr>"
  shows "store_inv G orig ino p1 e1 \<and> same_entry e e1"
proof -
  obtain a b c where e1: "e1 = e\<lparr>e_inflight := a, e_flight := b, e_flightWaiters := c\<rparr>" using assms(3) by blast
  show ?thesis using store_inv_io [OF assms(2) gate_inv [OF assms(1)]] by (simp add: e1 same_entry_def)
qed

lemma sibling_inv:
  assumes inv: "store_inv G orig ino p e" and h: "data_held (e_metaPath e) (e_dataFd e) ino io1" "sidecar_from orig (e_metaPath e) io1"
    and g: "G \<Longrightarrow> sidecar_data orig (e_metaPath e) ino io1" "G \<Longrightarrow> grows orig (content (p_io p) ino) (content io1 ino)"
  shows "store_inv G orig ino (p\<lparr>p_io := io1, g_bufTotal := b, g_specTotal := s\<rparr>) e"
proof -
  note D = store_invD [OF inv] and I = entry_invD [OF store_invD(1) [OF inv]]
  have "pages_good orig (e_meta e) (content io1 ino)" if G
    using pages_good_mono [OF D(5) [OF that] I(1)] grows_good [OF g(2) [OF that] I(1) _ I(2)] by blast
  with D(1) h g show ?thesis by (simp add: store_inv_def)
qed

lemma step_inv:
  assumes "entry_step cfg orig ino G pe pe1" and "store_inv G orig ino (fst pe) (snd pe)"
  shows "store_inv G orig ino (fst pe1) (snd pe1) \<and> same_entry (snd pe) (snd pe1)"
  using assms
proof (cases rule: entry_step.cases)
  case (step_read now off len buf account ok out)
  then show ?thesis using readCached_kept [OF assms(2) step_read(1-3)] by (cases pe; cases pe1) (simp add: kept_def)
next
  case (step_fill now off len inp h)
  then show ?thesis using writePages_store_inv [OF assms(2) step_fill(2,1)] by (cases pe; cases pe1) simp
next
  case (step_predict off len inp p e n)
  then show ?thesis using stageSpeculative_kept [of G orig ino p e] assms(2) by (cases pe1) (auto simp: kept_def)
next
  case (step_drop p e off len n)
  then show ?thesis using dropSpeculative_kept [of G orig ino p e] assms(2) by (cases pe1) (auto simp: kept_def)
next
  case (step_consume p e off len n)
  then show ?thesis using consumeSpeculative_kept [of G orig ino p e] assms(2) by (cases pe1) (auto simp: kept_def)
next
  case (step_drain now force h)
  then show ?thesis using flushBuffer_store_inv [OF assms(2)] by (cases pe; cases pe1) simp
next
  case (step_flush now h)
  then show ?thesis using flushAll_store_inv [OF assms(2)] by (cases pe; cases pe1) simp
next
  case (step_checkpoint now h)
  then show ?thesis using checkpoint_store_inv [OF assms(2)] by (cases pe; cases pe1) simp
next
  case (step_commit now force)
  then show ?thesis using flushMeta_kept [OF assms(2)] by (cases pe; cases pe1) (simp add: kept_def)
next
  case (step_pin now on)
  then show ?thesis using setPinned_kept [OF assms(2)] by (cases pe; cases pe1) (simp add: kept_def)
next
  case (step_scrub now checked bad)
  then show ?thesis using verifyAll_kept [OF assms(2)] by (cases pe; cases pe1) (simp add: kept_def)
next
  case (step_release now ranges n)
  then show ?thesis using releaseRanges_kept [OF assms(2)] by (cases pe; cases pe1) (simp add: kept_def)
next
  case (step_gate p e off len cb own p1 e1)
  then show ?thesis using gate_step [of G orig ino p e p1 e1] gate_ops(1) assms(2) by simp
next
  case (step_release_gate e off len cbs e1 p)
  then show ?thesis using gate_step [of G orig ino p e p e1] gate_ops(2) assms(2) by simp
next
  case (step_wire p e off len)
  then show ?thesis using gate_step [of G orig ino p e p] gate_ops(3) assms(2) by simp
next
  case (step_landed e ranges cbs e1 p)
  then show ?thesis using gate_step [of G orig ino p e p e1] gate_ops(4) assms(2) by simp
next
  case (step_park p e ranges cb parked p1 e1)
  then show ?thesis using gate_step [of G orig ino p e p1 e1] gate_ops(5) assms(2) by simp
next
  case (step_sibling e io1 p b s)
  then show ?thesis using sibling_inv [of G orig ino p e io1 b s] assms(2) by simp
qed

lemma run_inv:
  assumes "(entry_step cfg orig ino G)\<^sup>*\<^sup>* pe pe1" and "store_inv G orig ino (fst pe) (snd pe)"
  shows "store_inv G orig ino (fst pe1) (snd pe1) \<and> same_entry (snd pe) (snd pe1)"
  using assms
proof (induction rule: rtranclp_induct)
  case (step y z)
  then show ?case using step_inv [of cfg orig ino G y z] same_entry_trans by blast
qed simp

text \<open>What a read gives after any run.\<close>

lemma store_inv_ino: "store_inv G orig ino p e \<Longrightarrow> data_ino p e = Some ino \<and> data_of p e = content (p_io p) ino"
  by (simp add: store_inv_def data_ino_def data_of_def data_held_def)

lemma run_read:
  assumes "(entry_step cfg orig ino True)\<^sup>*\<^sup>* (p0, e0) (p, e)" and "store_inv True orig ino p0 e0"
    and "off < 2 ^ 64" and "len < 2 ^ 64" and "0 < len" and "length buf = len"
    and "readCached now (p, e) off len buf account = (ok, out, p1, e1)"
  shows "(ok \<longrightarrow> out = slice off len orig) \<and> (hasRange e off len \<and> io_sched (p_io p) = [] \<longrightarrow> ok)"
proof -
  have inv: "store_inv True orig ino p e" using run_inv [OF assms(1)] assms(2) by simp
  note I = entry_invD [OF store_invD(1) [OF inv]]
  show ?thesis
    by (rule readCached_hit [OF I(1,3,4,2) _ store_inv_data_from [OF inv] assms(3-7)]) (simp add: store_inv_ino [OF inv])
qed

text \<open>The sample entry, whose sidecar and data file are in step.\<close>

lemma two_store_inv: "store_inv G two_orig 2 (two_proc sch) two_entry"
proof -
  have c: "content (p_io (two_proc sch)) 2 = two_orig" by (simp add: two_proc_def two_io_def content_def)
  have g: "good two_orig m two_orig i" if "meta_ok m" "fileSize m = length two_orig" "i < npages m" for m i
    using page_of_eq [of m i two_orig] that by (simp add: good_def)
  have pg: "pages_good two_orig m two_orig" if "meta_ok m" "fileSize m = length two_orig" for m
    using g that pt.tab_bound [of m] unfolding pages_good_def by (metis not_le_imp_less)
  have "sidecar_data two_orig (e_metaPath two_entry) 2 (p_io (two_proc sch))"
    using pg two_io_facts(4) [of sch] two_disk_facts by (simp add: sidecar_data_def c)
  then show ?thesis
    using two_facts(1) two_io_facts(1,2) [of sch] pg [of "e_meta two_entry"] entry_invD(1,2) [OF two_facts(1)]
    by (simp add: store_inv_def c)
qed

lemma two_hasRange: "hasRange two_entry 10 20"
proof -
  have "bm_get (bitmap (e_meta two_entry)) 0" using two_facts(8) bm.get_pages [of 0 "bitmap (e_meta two_entry)"]
      meta_ok_pages [OF entry_invD(1) [OF two_facts(1)]] pt.tab_bound [OF entry_invD(1) [OF two_facts(1)], of 0]
    by (auto simp: page_map_def split: if_splits)
  then show ?thesis using two_facts(6,7) by (simp add: hasRange_def two_entry_def publishPage_eq new_entry_def bm_rangeSet_iff)
qed

text \<open>Releasing the page the handle holds: the sidecar keeps only the sibling's page, the bytes are a hole.\<close>

lemma two_release:
  "release_begin (p, two_entry) [(0, 4096)] = \<lparr>rl_p = p, rl_e = (drop_complete (retractPage two_entry 0))\<lparr>e_dirty := True\<rparr>,
     rl_any = True, rl_dropped = 0, rl_spans = [(0, 4096, 4096)]\<rparr>"
proof -
  note I = entry_invD [OF two_facts(1)]
  have b: "e_buf two_entry = []" by (simp add: two_entry_def publishPage_eq new_entry_def)
  have np: "0 < npages (e_meta two_entry)" using two_facts(8) pt.tab_bound [OF I(1), of 0] by (meson not_le_imp_less)
  have g: "bm_get (bitmap (e_meta two_entry)) 0"
    using two_facts(8) meta_ok_pages [OF I(1)] bm.get_pages [of 0 "bitmap (e_meta two_entry)"] np by (auto simp: page_map_def split: if_splits)
  have n: "nbytes_of two_entry 0 = 4096" using page_end [OF I(1) np] two_facts(6,7) by simp
  have "release_range (0, 4096) \<lparr>rl_p = p, rl_e = two_entry, rl_any = False, rl_dropped = 0, rl_spans = []\<rparr> =
      \<lparr>rl_p = p, rl_e = drop_complete (retractPage two_entry 0), rl_any = True, rl_dropped = 0, rl_spans = [(0, 4096, 4096)]\<rparr>"
    using two_facts(6,7) b g n by (simp add: release_range_def release_page_def Let_def u64_def)
  then show ?thesis by (simp add: release_begin_def Let_def)
qed

lemma two_released:
  assumes "releaseRanges default_config 0 (two_proc [], two_entry) [(0, 4096)] = (n, p1, e1)"
  shows "\<exists>d. file_at (p_io p1) (e_metaPath two_entry) = Some (serialize d) \<and> deserialize (serialize d) = Some d \<and>
    page_map d 0 = None \<and> page_map d 1 \<noteq> None \<and> fileSize d = length two_orig \<and>
    slice 0 4096 (content (p_io p1) 2) = replicate 4096 0 \<and> e_metaPath e1 = e_metaPath two_entry \<and>
    sidecar_apart (rl_spans (release_begin (two_proc [], two_entry) [(0, 4096)])) (length two_orig) (e_metaPath two_entry) (p_io p1)"
proof -
  let ?p = "two_proc []"
  define ea where "ea = (drop_complete (retractPage two_entry 0))\<lparr>e_dirty := True\<rparr>"
  note T = two_facts and I = two_io_facts [of "[]"] and D = two_disk_facts
  have R: "rel_inv two_orig (?p, two_entry) (release_begin (?p, two_entry) [(0, 4096)])" by (rule release_begin_inv [OF T(1)])
  have ea: "entry_inv two_orig ea" "same_entry two_entry ea" "e_dirty ea" using R unfolding two_release ea_def [symmetric]
    by (simp_all add: rel_inv_def) (simp add: ea_def)
  have g: "e_metaPath ea = e_metaPath two_entry" "e_dataFd ea = e_dataFd two_entry" "e_key ea = e_key two_entry"
    "pageSize two_disk = P_of ea" using ea(2) D(6) T(6) by (simp_all add: same_entry_def same_geo_def)
  have ad: "adoptable default_config two_disk (e_key ea) (fileSize (e_meta ea)) (originMtime (e_meta ea)) (cksumKind (e_meta ea)) (originCksum (e_meta ea))"
    using T(12) by (simp add: ea_def drop_complete_def retractPage_eq del_page_def)
  obtain pb eb where fm: "flushMeta default_config 0 True (?p, ea) = (pb, eb)" by fastforce
  from commit_page_map [OF fm ea(1,3), unfolded g(1,2), OF I(1,2,5,3,4) D(5,4) g(4) ad]
  obtain d where sch: "io_sched (p_io pb) = []"
    and d: "file_at (p_io pb) (e_metaPath two_entry) = Some (serialize d)" "deserialize (serialize d) = Some d"
    "page_map d = (\<lambda>i. if i \<in> bm_pages (e_clearedSince ea) then None
       else if i \<in> bm_pages (e_setSince ea) then Some (pageCrcs (e_meta ea) ! i) else page_map two_disk i)" "same_geo (e_meta ea) d" by blast
  have c: "bm_pages (e_clearedSince ea) = {0}" "bm_pages (e_setSince ea) = {}"
  proof -
    have "bm_ok (e_clearedSince two_entry)" "bm_ok (e_setSince two_entry)" "pb_npages (e_clearedSince two_entry) = npages (e_meta two_entry)"
      "pb_npages (e_setSince two_entry) = npages (e_meta two_entry)"
      "0 < npages (e_meta two_entry)"
      using entry_invD(1,6) [OF T(1)] pt.tab_bound [of "e_meta two_entry" 0] T(8) by (auto simp: deltas_ok_def intro: not_le_imp_less)
    then show "bm_pages (e_clearedSince ea) = {0}" "bm_pages (e_setSince ea) = {}"
      using bm.put_ok [of "e_clearedSince two_entry" 0] bm.del_ok [of "e_setSince two_entry" 0] T(10,11)
      by (simp_all add: ea_def drop_complete_def retractPage_eq)
  qed
  have pm: "page_map d 0 = None" "page_map d 1 \<noteq> None" using d(3) c D(2) by simp_all
  have sz: "pageSize d = 4096" "fileSize d = length two_orig" using d(4) ea(2) T(6,7) by (simp_all add: same_entry_def same_geo_def two_orig_def)
  have kb: "content (p_io pb) 2 = two_orig" "e_metaPath eb = e_metaPath two_entry" "e_dataFd eb = e_dataFd two_entry"
      "map_of (io_fds (p_io pb)) (e_dataFd two_entry) = Some 2" "map_of (io_names (p_io pb)) (e_metaPath two_entry) \<noteq> Some 2"
    using flushMeta_keeps_inv [OF fm ea(1), unfolded g(1,2), OF I(1,2)] I(1) g
    by (auto simp: keeps_def same_entry_def data_held_def two_proc_def two_io_def content_def)
  obtain rc io1 where pu: "io_punchHole (p_io pb) (e_dataFd two_entry) 0 4096 = (rc, io1)" by fastforce
  have p1: "p1 = pb\<lparr>p_io := io1\<rparr>" "e1 = eb"
    using assms fm pu kb(3) by (simp_all add: releaseRanges_def two_release ea_def [symmetric] Let_def punch_span_def)
  have "io_frame 2 (p_io pb) io1" using punch_frame [OF kb(4), of 0 4096] pu by simp
  then have fa: "file_at io1 (e_metaPath two_entry) = Some (serialize d)"
    using d(1) kb(5) by (cases "map_of (io_names (p_io pb)) (e_metaPath two_entry)") (auto simp: file_at_def io_frame_def)
  have "spans_apart [(0, 4096, 4096)] d" using pm(1) sz(1) by (auto simp: spans_apart_def) (metis One_nat_def Suc_leI gr0I mult_le_mono1 nat_mult_1 option.distinct(1))
  then have "sidecar_apart [(0, 4096, 4096)] (length two_orig) (e_metaPath two_entry) io1" using fa d(2) by (simp add: sidecar_apart_def)
  moreover have "slice 0 4096 (content io1 2) = replicate 4096 0"
    using pu sch kb(1,4) by (auto simp: io_punchHole_def Let_def map_of_content two_orig_def slice_overwrite_same)
  ultimately show ?thesis using fa d(2) pm sz(2) kb(2) by (auto simp: p1 two_release)
qed

text \<open>The sibling's page is damaged and no longer recorded.\<close>

definition hurt_proc :: proc where
  "hurt_proc = sample_proc\<lparr>p_io := (two_io [])\<lparr>io_inodes := [(1, serialize two_meta), (2, replicate 4096 7 @ replicate 904 1)]\<rparr>\<rparr>"

lemma two_npages: "npages (e_meta two_entry) = 2"
  by (simp add: two_entry_def publishPage_eq new_entry_def two_meta_facts)

lemma hurt_store_inv: "store_inv G two_orig 2 hurt_proc two_entry"
proof -
  note T = two_facts and M = two_meta_facts
  have h: "data_held (e_metaPath two_entry) (e_dataFd two_entry) 2 (p_io hurt_proc)"
    using T(3,4) by (simp add: hurt_proc_def two_io_def data_held_def io_ok_def tmp_private_def)
  have f: "file_at (p_io hurt_proc) (e_metaPath two_entry) = Some (serialize two_meta)"
    using T(3) by (simp add: hurt_proc_def two_io_def file_at_def content_def)
  have s: "sidecar_from two_orig (e_metaPath two_entry) (p_io hurt_proc)" by (rule sidecar_from_store [OF f M(1,8)])
  have "deserialize (serialize two_meta) = Some two_meta" using deserialize_serialize [OF M(1)] M(5) by simp
  then have d: "sidecar_data two_orig (e_metaPath two_entry) 2 (p_io hurt_proc)"
    using f M(6) by (simp add: sidecar_data_def pages_good_def page_map_def)
  have c: "content (p_io hurt_proc) 2 = replicate 4096 7 @ replicate 904 1" by (simp add: hurt_proc_def two_io_def content_def)
  have pg: "page_map (e_meta two_entry) i = None" if "i \<noteq> 0" for i
    using that T(9) pt.tab_bound [OF entry_invD(1) [OF T(1)], of i] two_npages by (cases "i = 1") auto
  have "good two_orig (e_meta two_entry) (content (p_io hurt_proc) 2) 0"
    using page_of_eq [OF entry_invD(1) [OF T(1)], of 0 two_orig] entry_invD(2) [OF T(1)] page_end [OF entry_invD(1) [OF T(1)], of 0] two_npages T(6,7)
    unfolding c by (simp add: good_def slice_def two_orig_def)
  then have "pages_good two_orig (e_meta two_entry) (content (p_io hurt_proc) 2)" using pg unfolding pages_good_def by metis
  with T(1) h s d show ?thesis by (simp add: store_inv_def)
qed

text \<open>A staging area with a prediction and a requested page.\<close>

definition staged_page :: "nat \<Rightarrow> bool \<Rightarrow> bufPage" where
  "staged_page i spec = \<lparr>bp_data = page_of 4096 two_orig i, bp_crc = crc32c (page_of 4096 two_orig i), bp_spec = spec, bp_touched = False\<rparr>"

definition staged_entry :: entry where
  "staged_entry = (new_entry ''k'' ''m'' 3 two_meta False 0)
     \<lparr>e_buf := [(0, staged_page 0 True), (1, staged_page 1 False)], e_specBytes := 4096, e_bufBytes := 904\<rparr>"

definition staged_proc :: proc where
  "staged_proc = sample_proc\<lparr>p_io := (two_io [])\<lparr>io_inodes := [(1, serialize two_disk), (2, replicate 10 9)]\<rparr>\<rparr>"

lemma two_bytes: "pageBytes two_meta 0 = 4096" "pageBytes two_meta 1 = 904"
  using page_end [OF two_meta_facts(1), of 0] page_end [OF two_meta_facts(1), of 1] two_meta_facts(2-4) by simp_all

lemma staged_store_inv: "store_inv False two_orig 2 staged_proc staged_entry"
proof -
  note M = two_meta_facts
  have i0: "entry_inv two_orig (new_entry ''k'' ''m'' 3 two_meta False 0)" using new_entry_inv [OF M(1)] M by (simp add: two_orig_def)
  have "staged_from two_orig staged_entry" using M by (auto simp: staged_from_def staged_entry_def new_entry_def staged_page_def split: if_splits)
  moreover have "stage_ok staged_entry"
    using two_bytes by (auto simp: stage_ok_def staged_entry_def new_entry_def staged_page_def sm_ok_def sm_sum_def spec_w_def real_w_def)
  moreover have "deltas_ok staged_entry" using entry_invD(6) [OF i0] by (simp add: deltas_ok_def staged_entry_def)
  ultimately have e: "entry_inv two_orig staged_entry" using i0 by (simp add: entry_inv_def staged_entry_def)
  have p: "e_metaPath staged_entry = ''m''" "e_dataFd staged_entry = 3" by (simp_all add: staged_entry_def new_entry_def)
  have f: "file_at (p_io staged_proc) ''m'' = Some (serialize two_disk)" by (simp add: staged_proc_def two_io_def file_at_def content_def)
  have "data_held ''m'' 3 2 (p_io staged_proc)" by (simp add: staged_proc_def two_io_def data_held_def io_ok_def tmp_private_def)
  with e p sidecar_from_store [OF f] two_disk_facts(1,3) show ?thesis by (simp add: store_inv_def)
qed

lemma staged_drained:
  assumes "flushBuffer default_config 0 True (staged_proc, staged_entry) = (h, p1, e1)"
  shows "content (p_io p1) 2 = pwrite_bytes (replicate 10 9) 4096 (replicate 904 7)"
proof -
  let ?e = "staged_entry\<lparr>e_flushing := [(1, staged_page 1 False)], e_buf := [(0, staged_page 0 True)], e_bufBytes := 0, e_flushInProgress := True\<rparr>"
  have b: "fb_begin default_config 0 True staged_proc staged_entry = Some (904, False, ?e)"
    by (simp add: fb_begin_def staged_entry_def new_entry_def staged_page_def)
  have run: "take_run two_meta 1 [] [] [(1, staged_page 1 False)] = (replicate 904 7, [(1, crc32c (page_of 4096 two_orig 1))], [])"
    using two_bytes by (simp add: kMaxRun_def staged_page_def page_of_def two_orig_def slice_def)
  obtain r io1 where w: "pwriteFull (p_io staged_proc) 3 (replicate 904 7) 4096 0 = (r, io1)" by fastforce
  have fd: "map_of (io_fds (p_io staged_proc)) 3 = Some 2" "content (p_io staged_proc) 2 = replicate 10 9" "io_sched (p_io staged_proc) = []"
    by (simp_all add: staged_proc_def two_io_def content_def)
  have r: "r = 904" using pwriteFull_benign [of "p_io staged_proc" 3 2 0 "replicate 904 7" 4096] fd w by (simp add: benign_def)
  have c: "content io1 2 = pwrite_bytes (replicate 10 9) 4096 (replicate 904 7)"
    using pwriteFull_spec [OF w fd(1), of "replicate 10 9"] fd(2) r by auto
  have "fst (fb_write two_meta 3 [(1, staged_page 1 False)] staged_proc [] 0) = count_run 904 (staged_proc\<lparr>p_io := io1\<rparr>)"
    using run w r two_meta_facts(3) by (simp add: fb_write.simps(2) Let_def)
  with flushBuffer_store_inv(5) [OF staged_store_inv assms b] c show ?thesis
    by (simp add: staged_entry_def new_entry_def count_run_def)
qed

section \<open>Properties\<close>

text \<open>C1. However the operations on a handle interleave (releases of ranges that leave no punched page in the
  sidecar among them), with the commits of other processes between
  them and any read, write or sync failing at any point, a read that reports success returns
  exactly the origin's bytes; and a range the handle holds is served when the read itself meets
  no error.\<close>

theorem any_run_reads_origin:
  assumes "store_inv True orig ino p0 e0" and "(entry_step cfg orig ino True)\<^sup>*\<^sup>* (p0, e0) (p, e)"
    and "off < 2 ^ 64" and "len < 2 ^ 64" and "0 < len" and "length buf = len"
    and "readCached now (p, e) off len buf account = (ok, out, p1, e1)"
  shows "(ok \<longrightarrow> out = slice off len orig) \<and> (hasRange e off len \<and> io_sched (p_io p) = [] \<longrightarrow> ok)"
  by (rule run_read [OF assms(2,1,3-7)])

theorem any_run_reads_origin_witness:
  "\<exists>out p1 e1. readCached 0 (two_proc [], noteFetchInFlight two_entry 0 4096) 10 20 (replicate 20 7) True = (True, out, p1, e1) \<and>
     out = slice 10 20 two_orig"
proof -
  let ?e = "noteFetchInFlight two_entry 0 4096"
  have run: "(entry_step default_config two_orig 2 True)\<^sup>*\<^sup>* (two_proc [], two_entry) (two_proc [], ?e)"
    by (rule r_into_rtranclp) (rule step_wire)
  obtain a b c where e: "?e = two_entry\<lparr>e_inflight := a, e_flight := b, e_flightWaiters := c\<rparr>" using gate_ops(3) by blast
  have h: "hasRange ?e 10 20" using two_hasRange by (simp only: e gate_hasRange)
  obtain ok out p1 e1 where r: "readCached 0 (two_proc [], ?e) 10 20 (replicate 20 7) True = (ok, out, p1, e1)"
    by (metis prod_cases4)
  from any_run_reads_origin [OF two_store_inv run _ _ _ _ r] h have "ok" "out = slice 10 20 two_orig"
    by (simp_all add: two_proc_def two_io_def)
  with r show ?thesis by auto
qed

text \<open>C2. Crash consistency. However the operations interleave and whatever fails, the disk never records
  a page before its bytes are in the data file: at any moment, a sidecar image that loads and
  is of this file names only pages whose bytes in the data file are the origin's, each with
  the checksum of those bytes. Releases of ranges are part of the runs as long as each leaves a sidecar
  without the pages it punched; a release whose commit fails does not, and is excluded.\<close>

theorem any_run_crash_consistent:
  assumes "store_inv True orig ino p0 e0" and "(entry_step cfg orig ino True)\<^sup>*\<^sup>* (p0, e0) (p, e)"
    and "file_at (p_io p) (e_metaPath e) = Some bs" and "deserialize bs = Some d"
    and "fileSize d = length orig" and "page_map d i = Some c"
  shows "slice (i * pageSize d) (pageBytes d i) (content (p_io p) ino) = page_of (pageSize d) orig i \<and>
    c = crc32c (page_of (pageSize d) orig i)"
proof -
  have inv: "store_inv True orig ino p e" using run_inv [OF assms(2)] assms(1) by simp
  note D = store_invD [OF inv] and I = entry_invD [OF store_invD(1) [OF inv]]
  have "pages_good orig d (content (p_io p) ino)" using D(4) assms(3-5) by (auto simp: sidecar_data_def)
  then have "slice (i * pageSize d) (pageBytes d i) (content (p_io p) ino) = page_of (pageSize d) orig i"
    using assms(6) by (auto simp: pages_good_def good_def)
  moreover have "meta_ok d" using deserialize_meta_ok [OF assms(4)] assms(5) I(2,7) by simp
  moreover have "crcs_from orig d" using D(3) assms(3-5) by (auto simp: sidecar_from_def)
  ultimately show ?thesis using assms(6) crcs_from_pages [of d orig] by (auto simp: page_map_def split: if_splits)
qed

theorem any_run_crash_consistent_witness:
  "\<exists>n p1 e1 bs d. releaseRanges default_config 0 (two_proc [], two_entry) [(0, 4096)] = (n, p1, e1) \<and>
     slice 0 4096 (content (p_io p1) 2) = replicate 4096 0 \<and>
     file_at (p_io p1) (e_metaPath e1) = Some bs \<and> deserialize bs = Some d \<and> page_map d 0 = None \<and> page_map d 1 \<noteq> None \<and>
     slice (1 * pageSize d) (pageBytes d 1) (content (p_io p1) 2) = page_of (pageSize d) two_orig 1"
proof -
  obtain n p1 e1 where r: "releaseRanges default_config 0 (two_proc [], two_entry) [(0, 4096)] = (n, p1, e1)" by (metis prod_cases3)
  from two_released [OF r] obtain d where d: "file_at (p_io p1) (e_metaPath two_entry) = Some (serialize d)"
    "deserialize (serialize d) = Some d" "page_map d 0 = None" "page_map d 1 \<noteq> None" "fileSize d = length two_orig"
    "slice 0 4096 (content (p_io p1) 2) = replicate 4096 0" "e_metaPath e1 = e_metaPath two_entry"
    "sidecar_apart (rl_spans (release_begin (two_proc [], two_entry) [(0, 4096)])) (length two_orig) (e_metaPath two_entry) (p_io p1)" by blast
  have "(entry_step default_config two_orig 2 True)\<^sup>*\<^sup>* (two_proc [], two_entry) (p1, e1)"
    by (rule r_into_rtranclp, rule step_release [OF r]) (simp add: d(8))
  from any_run_crash_consistent [OF two_store_inv this, unfolded d(7), OF d(1,2,5)]
  have "page_map d i \<noteq> None \<Longrightarrow> slice (i * pageSize d) (pageBytes d i) (content (p_io p1) 2) = page_of (pageSize d) two_orig i" for i
    by blast
  from this [OF d(4)] r d show ?thesis by auto
qed

text \<open>C8. The same with releases of ranges and with any damage to the bytes of the data file: a byte of a
  successful read either is the origin's or was read from a page of the data file whose
  checksum is the one of the origin's page.\<close>

theorem any_run_reads_verified:
  assumes "store_inv False orig ino p0 e0" and "(entry_step cfg orig ino False)\<^sup>*\<^sup>* (p0, e0) (p, e)"
    and "off < 2 ^ 64" and "len < 2 ^ 64" and "0 < len" and "length buf = len"
    and "readCached now (p, e) off len buf account = (True, out, p1, e1)"
  shows "length out = len \<and> (\<forall>k<len. out ! k = orig ! (off + k) \<or>
    (out ! k = content (p_io p) ino ! (off + k) \<and> disk_page_ok orig (e_meta e) (content (p_io p) ino) ((off + k) div P_of e)))"
proof -
  have inv: "store_inv False orig ino p e" using run_inv [OF assms(2)] assms(1) by simp
  note I = entry_invD [OF store_invD(1) [OF inv]]
  have ok: "\<not> (u64 (off + len) < off \<or> u64 (off + len) > fileSize (e_meta e))"
    using assms(5,7) by (auto simp: readCached_def split: if_splits)
  then have fs: "off + len \<le> fileSize (e_meta e)" using u64_wrap_test [OF assms(3,4)] by (auto simp: u64_def)
  obtain found st where pl: "rc_plan e off len buf account = (found, st)" by fastforce
  have r: "rc_rest now off len account (found, st) (p, pl_e st) = (True, out, p1, e1)"
    using assms(5,7) ok pl by (simp add: readCached_def Let_def)
  then have f: "found" by (auto simp: rc_rest_def split: if_splits)
  have same: "e_meta (pl_e st) = e_meta e" "e_dataFd (pl_e st) = e_dataFd e"
    using rc_plan_inv [OF I(1,3,4) fs I(2) assms(5,6)] pl f by (auto simp: plan_inv_def)
  have d: "data_of p (pl_e st) = content (p_io p) ino" "data_ino p (pl_e st) \<noteq> None"
    using store_inv_ino [OF inv] same(2) by (simp_all add: data_of_def data_ino_def)
  from readCached_verified [OF I(1,3,4,2) fs assms(5,6) pl _ _ _ d(2) r] show ?thesis
    unfolding same(1) d(1) using I(1) by simp
qed

theorem any_run_reads_verified_witness:
  "\<exists>out p1 e1. (entry_step default_config two_orig 2 False)\<^sup>*\<^sup>* (two_proc [], two_entry) (hurt_proc, two_entry) \<and>
     content (p_io hurt_proc) 2 ! 4500 \<noteq> two_orig ! 4500 \<and>
     readCached 0 (hurt_proc, two_entry) 10 20 (replicate 20 7) True = (True, out, p1, e1) \<and> length out = 20"
proof -
  let ?b = "g_bufTotal (two_proc [])" and ?s = "g_specTotal (two_proc [])"
  note H = store_invD [OF hurt_store_inv]
  have eq: "hurt_proc = (two_proc [])\<lparr>p_io := p_io hurt_proc, g_bufTotal := ?b, g_specTotal := ?s\<rparr>"
    by (simp add: hurt_proc_def two_proc_def)
  have run: "(entry_step default_config two_orig 2 False)\<^sup>*\<^sup>* (two_proc [], two_entry) (hurt_proc, two_entry)"
    by (rule r_into_rtranclp, subst eq, rule step_sibling [OF H(2,3)]) simp_all
  obtain ok out p1 e1 where r: "readCached 0 (hurt_proc, two_entry) 10 20 (replicate 20 7) True = (ok, out, p1, e1)"
    by (metis prod_cases4)
  have "ok" using run_read [OF rtranclp.rtrancl_refl hurt_store_inv _ _ _ _ r] two_hasRange by (simp add: hurt_proc_def two_io_def)
  then have r': "readCached 0 (hurt_proc, two_entry) 10 20 (replicate 20 7) True = (True, out, p1, e1)" using r by simp
  have "content (p_io hurt_proc) 2 ! 4500 \<noteq> two_orig ! 4500" by (simp add: hurt_proc_def content_def nth_append two_orig_def)
  with any_run_reads_verified [OF two_store_inv run _ _ _ _ r'] r' run show ?thesis by auto
qed

text \<open>C9. Predictions never reach the disk: a drain of the staging area, whatever fails in it, changes the data
  file only within pages that are staged as really requested. The file never shrinks; a byte of a page
  staged as speculative, or of any other page, keeps what the file had, and is zero (a hole) where the
  drain has extended the file.\<close>

theorem predictions_never_written:
  assumes "store_inv G orig ino p e" and "flushBuffer cfg now force (p, e) = (h, p1, e1)"
  shows "length (content (p_io p) ino) \<le> length (content (p_io p1) ino) \<and>
    (\<forall>x<length (content (p_io p1) ino). (\<forall>b. map_of (e_buf e) (x div P_of e) = Some b \<longrightarrow> bp_spec b) \<longrightarrow>
       content (p_io p1) ino ! x = (if x < length (content (p_io p) ino) then content (p_io p) ino ! x else 0))"
  using flushBuffer_store_inv(4) [OF assms] by (auto simp: untouched_def)

text \<open>Page 0 is staged as a prediction and page 1 because it was requested; the data file holds ten
  foreign bytes.\<close>

theorem predictions_never_written_witness:
  "\<exists>h p1 e1. flushBuffer default_config 0 True (staged_proc, staged_entry) = (h, p1, e1) \<and>
     length (content (p_io p1) 2) = 5000 \<and> content (p_io p1) 2 ! 4500 = 7 \<and>
     content (p_io p1) 2 ! 5 = 9 \<and> content (p_io p1) 2 ! 100 = 0 \<and> two_orig ! 5 = 7 \<and> two_orig ! 100 = 7"
proof -
  obtain h p1 e1 where f: "flushBuffer default_config 0 True (staged_proc, staged_entry) = (h, p1, e1)" by (metis prod_cases3)
  have c: "content (p_io p1) 2 = pwrite_bytes (replicate 10 9) 4096 (replicate 904 7)" by (rule staged_drained [OF f])
  then have l: "length (content (p_io p1) 2) = 5000" "content (p_io p1) 2 ! 4500 = 7"
    by (simp_all add: length_pwrite_bytes nth_pwrite_bytes)
  have old: "content (p_io staged_proc) 2 = replicate 10 9" by (simp add: staged_proc_def content_def)
  have b: "map_of (e_buf staged_entry) 0 = Some b \<Longrightarrow> bp_spec b" for b by (auto simp: staged_entry_def staged_page_def)
  have P: "P_of staged_entry = 4096" by (simp add: staged_entry_def new_entry_def two_meta_facts)
  have "content (p_io p1) 2 ! x = (if x < 10 then 9 else 0)" if "x < 4096" for x
    using predictions_never_written [OF staged_store_inv f] that b P l(1) unfolding old by auto
  from this [of 5] this [of 100] l f show ?thesis by (simp add: two_orig_def)
qed

text \<open>The release of one page that is on disk.\<close>

lemma release_one:
  assumes inv: "entry_inv orig e" and pm: "page_map (e_meta e) i \<noteq> None" and full: "Suc i * P_of e \<le> fileSize (e_meta e)"
    and r_def: "r = release_begin (p, e) [(i * P_of e, P_of e)]"
  shows "e_dirty (rl_e r)" "\<exists>res. rl_spans r = [(i * P_of e, P_of e, res)]"
proof -
  note I = entry_invD [OF inv]
  have P: "0 < P_of e" by (rule meta_ok_pageSize [OF I(1)])
  have np: "i < npages (e_meta e)" using pm pt.tab_bound [OF I(1), of i] by (meson not_le_imp_less)
  have b: "bm_get (bitmap (e_meta e)) i"
    using pm meta_ok_pages [OF I(1)] bm.get_pages [of i "bitmap (e_meta e)"] np by (auto simp: page_map_def split: if_splits)
  have le: "Suc i * P_of e < 2 ^ 63" "i * P_of e + P_of e = Suc i * P_of e" using full I(7) by simp_all
  have u: "u64 (i * P_of e + P_of e) = Suc i * P_of e" "u64 (i * P_of e + P_of e - 1) div P_of e = i"
    using le P div_nat_eqI [of "P_of e" i "i * P_of e + P_of e - 1"] by (simp_all add: u64_def mult.commute)
  define r0 where "r0 = \<lparr>rl_p = p, rl_e = e, rl_any = False, rl_dropped = 0, rl_spans = []\<rparr>"
  have r0: "rl_e r0 = e" "rl_p r0 = p" "rl_spans r0 = []" "\<not> rl_any r0" by (simp_all add: r0_def)
  have "\<exists>r1. release_page i (r0, 0) = (r1, nbytes_of e i) \<and> rl_any r1 \<and> rl_spans r1 = []"
    using b r0 by (cases "map_of (e_buf e) i") (simp_all add: release_page_def Let_def)
  then obtain r1 where r1: "release_page i (r0, 0) = (r1, nbytes_of e i)" "rl_any r1" "rl_spans r1 = []" by blast
  have "release_range (i * P_of e, P_of e) r0 =
      r1\<lparr>rl_e := drop_complete (rl_e r1), rl_spans := [(i * P_of e, P_of e, nbytes_of e i)]\<rparr>"
    using u P full r1 r0(1) by (simp add: release_range_def Let_def)
  then have "r = r1\<lparr>rl_e := (drop_complete (rl_e r1))\<lparr>e_dirty := True\<rparr>, rl_spans := [(i * P_of e, P_of e, nbytes_of e i)]\<rparr>"
    using r1 by (simp add: r_def release_begin_def Let_def r0_def [symmetric])
  then show "e_dirty (rl_e r)" "\<exists>res. rl_spans r = [(i * P_of e, P_of e, res)]" by simp_all
qed

text \<open>A forced commit that cannot create the new sidecar.\<close>

lemma failed_commit:
  assumes inv: "entry_inv orig e" and d: "e_dirty e" and h: "data_held (e_metaPath e) (e_dataFd e) ino (p_io p)"
    and nl: "0 < nlink (p_io p) ino" and sch: "io_sched (p_io p) = [Done, Done, Err 5, Err 28]"
    and f: "flushMeta cfg now True (p, e) = (p1, e1)"
  shows "p_io p1 = (p_io p)\<lparr>io_sched := []\<rparr>" "same_entry e e1"
proof -
  obtain sn e' where b: "fm_begin cfg now True e = Some (sn, e')" using d by (simp add: fm_begin_def)
  note B = fm_begin_pending [OF inv b]
  have c: "snd (io_call (p_io p)) = (p_io p)\<lparr>io_sched := [Done, Err 5, Err 28]\<rparr>"
    using sch by (simp add: io_call_def next_outcome_def)
  have fs: "io_fstat_nlink (snd (io_call (p_io p))) (e_dataFd e') = (Inr (nlink (p_io p) ino), (p_io p)\<lparr>io_sched := [Err 5, Err 28]\<rparr>)"
    using h B(4) by (simp add: c io_fstat_nlink_def next_outcome_def data_held_def nlink_def)
  have l: "meta_load ((p_io p)\<lparr>io_sched := [Err 5, Err 28]\<rparr>) (e_metaPath e') = (None, (p_io p)\<lparr>io_sched := [Err 28]\<rparr>)"
    by (simp add: meta_load_def read_image_def io_stat_def next_outcome_def)
  have st: "meta_store ((p_io p)\<lparr>io_sched := [Err 28]\<rparr>) (e_metaPath e') (sn_meta sn) (c_fsync cfg = kAll) = (- 28, (p_io p)\<lparr>io_sched := []\<rparr>)"
    by (simp add: meta_store_def write_image_def io_open_def next_outcome_def errval_def Let_def)
  have cm: "fm_commit cfg sn p e' = (Some (- 28, False, sn_meta sn), p\<lparr>p_io := (p_io p)\<lparr>io_sched := []\<rparr>\<rparr>)"
    using fm_commit_eq [OF fs _ l _ st, of sn False] nl by (simp add: merge_choice_def io_call_def next_outcome_def)
  have fin: "fm_finish sn (- 28, False, sn_meta sn) (p\<lparr>p_io := (p_io p)\<lparr>io_sched := []\<rparr>\<rparr>, e') = (p1, e1)"
    using f b cm by (simp add: flushMeta_def)
  note F = fm_finish_fail [OF B(1,3) fin]
  show "p_io p1 = (p_io p)\<lparr>io_sched := []\<rparr>" "same_entry e e1" using F(2,3) B(2) same_entry_trans by auto
qed

text \<open>C37. Reclaiming a range is not safe against a failed commit: when the sidecar cannot be rewritten
  (no space, say), the pages are punched all the same, so the sidecar on disk keeps their bits over
  a hole. Only the checksum protects a later reader of those pages.\<close>

theorem release_ignores_failed_commit:
  assumes "entry_inv orig e" and "page_map (e_meta e) i \<noteq> None" and "Suc i * P_of e \<le> fileSize (e_meta e)"
    and "data_held (e_metaPath e) (e_dataFd e) ino (p_io p)" and "0 < nlink (p_io p) ino"
    and "io_sched (p_io p) = [Done, Done, Err 5, Err 28]" and "length (content (p_io p) ino) = fileSize (e_meta e)"
    and "releaseRanges cfg now (p, e) [(i * P_of e, P_of e)] = (n, p1, e1)"
  shows "file_at (p_io p1) (e_metaPath e) = file_at (p_io p) (e_metaPath e) \<and>
    slice (i * P_of e) (P_of e) (content (p_io p1) ino) = replicate (P_of e) 0"
proof -
  define r where "r = release_begin (p, e) [(i * P_of e, P_of e)]"
  note R = release_one [OF assms(1-3) r_def] and ri = release_begin_inv [OF assms(1), of p "[(i * P_of e, P_of e)]", folded r_def]
  from R(2) obtain res where sp: "rl_spans r = [(i * P_of e, P_of e, res)]" by blast
  obtain pa ea where pa: "(if rl_dropped r \<noteq> 0 then noteSpeculativeDropped (rl_p r) (rl_e r) (rl_dropped r) else (rl_p r, rl_e r)) = (pa, ea)"
    by fastforce
  have a: "p_io pa = p_io p" "entry_inv orig ea" "same_entry e ea" "e_dirty ea"
    using ri pa R(1) by (cases "rl_dropped r = 0"; force simp: rel_inv_def noteSpeculativeDropped_def pools_move_def)+
  have g: "e_metaPath ea = e_metaPath e" "e_dataFd ea = e_dataFd e" using a(3) by (simp_all add: same_entry_def)
  obtain pb eb where fm: "flushMeta cfg now True (pa, ea) = (pb, eb)" by fastforce
  note F = failed_commit [OF a(2,4) _ _ _ fm, unfolded g a(1), OF assms(4-6)]
  have fd: "e_dataFd eb = e_dataFd e" "map_of (io_fds (p_io pb)) (e_dataFd e) = Some ino"
    using F g assms(4) by (auto simp: same_entry_def data_held_def)
  define io1 where "io1 = set_content (p_io pb) ino (overwrite (content (p_io p) ino) (i * P_of e) (replicate (P_of e) 0))"
  have P: "0 < P_of e" by (rule meta_ok_pageSize [OF entry_invD(1) [OF assms(1)]])
  have pu: "io_punchHole (p_io pb) (e_dataFd e) (i * P_of e) (P_of e) = (0, io1)"
    using F(1) fd P assms(3,7) by (simp add: io_punchHole_def next_outcome_def io1_def content_def Let_def min_def)
  have p1: "p_io p1 = io1"
    using assms(8) sp pa fm pu fd(1) by (auto simp: releaseRanges_def r_def [symmetric] Let_def punch_span_def)
  have "io_frame ino (p_io pb) io1" using punch_frame [OF fd(2), of "i * P_of e" "P_of e"] pu by simp
  then have "file_at io1 (e_metaPath e) = file_at (p_io pb) (e_metaPath e)"
    using assms(4) F(1) by (cases "map_of (io_names (p_io pb)) (e_metaPath e)") (auto simp: file_at_def io_frame_def data_held_def)
  moreover have "file_at (p_io pb) q = file_at (p_io p) q" for q using F(1) by (simp add: file_at_def content_def [abs_def])
  moreover have "slice (i * P_of e) (P_of e) (content io1 ino) = replicate (P_of e) 0"
    using assms(3,7) by (simp add: io1_def map_of_content slice_overwrite_same)
  ultimately show ?thesis by (simp add: p1)
qed

definition one_proc :: proc where
  "one_proc = sample_proc\<lparr>p_io := (two_io [Done, Done, Err 5, Err 28])\<lparr>io_inodes := [(1, serialize (e_meta two_entry)), (2, two_orig)]\<rparr>\<rparr>"

theorem release_ignores_failed_commit_witness:
  "\<exists>n p1 e1. releaseRanges default_config 0 (one_proc, two_entry) [(0, 4096)] = (n, p1, e1) \<and>
     file_at (p_io p1) ''m'' = Some (serialize (e_meta two_entry)) \<and> page_map (e_meta two_entry) 0 \<noteq> None \<and>
     slice 0 4096 two_orig = replicate 4096 7 \<and> slice 0 4096 (content (p_io p1) 2) = replicate 4096 0"
proof -
  note T = two_facts
  have h: "data_held (e_metaPath two_entry) (e_dataFd two_entry) 2 (p_io one_proc)" "0 < nlink (p_io one_proc) 2"
    "io_sched (p_io one_proc) = [Done, Done, Err 5, Err 28]"
    using T(3,4) by (simp_all add: one_proc_def two_io_def data_held_def io_ok_def tmp_private_def nlink_def)
  have c: "length (content (p_io one_proc) 2) = fileSize (e_meta two_entry)" "file_at (p_io one_proc) ''m'' = Some (serialize (e_meta two_entry))"
    using T(7) by (simp_all add: one_proc_def two_io_def content_def two_orig_def file_at_def)
  obtain n p1 e1 where r: "releaseRanges default_config 0 (one_proc, two_entry) [(0 * P_of two_entry, P_of two_entry)] = (n, p1, e1)"
    by (metis prod_cases3)
  have s: "slice 0 4096 two_orig = replicate 4096 7" by (simp add: slice_def two_orig_def)
  have full: "Suc 0 * P_of two_entry \<le> fileSize (e_meta two_entry)" using T by simp
  from release_ignores_failed_commit [OF T(1,8) full h c(1) r] r s c(2) T(3,6,8) show ?thesis by auto
qed

end
