(* ===== verification/Record_Codec.thy ===== *)
theory Record_Codec
  imports Prelude
begin

text \<open>
  Arrays of fixed-width records inside an image, as the sidecars of the replica and of the slot store
  hold them. The interface is what one record type offers: a width, its bytes, the
  store of the encoding loop at a running position and the load of the decoding loop. Two
  facts follow for every such type: the encoding loop lays the records out one after the other,
  and the decoding loop reads them back.
\<close>

lemma overwrite_append:
  "p + length xs + length ys \<le> length b \<Longrightarrow> overwrite (overwrite b p xs) (p + length xs) ys = overwrite b p (xs @ ys)"
  by (simp add: overwrite_def ac_simps)

lemma overwrite_append':
  "q = p + length xs \<Longrightarrow> p + length xs + length ys \<le> length b \<Longrightarrow> overwrite (overwrite b p xs) q ys = overwrite b p (xs @ ys)"
  using overwrite_append by simp

lemma slice_prefix: "slice p n b = xs @ ys \<Longrightarrow> k = length xs \<Longrightarrow> slice p k b = xs"
  by (simp add: slice_def) (metis append_eq_conv_conj min.absorb_iff2 nat_le_linear append_take_drop_id length_append length_take
      le_add1 min.absorb1 take_all_iff take_take)

lemma slice_suffix: "slice p n b = xs @ ys \<Longrightarrow> k = length xs \<Longrightarrow> m = length ys \<Longrightarrow> p + n \<le> length b \<Longrightarrow> slice (p + k) m b = ys"
proof -
  assume a: "slice p n b = xs @ ys" "k = length xs" "m = length ys" "p + n \<le> length b"
  have "length (slice p n b) = n" using a(4) by simp
  then have "n = k + m" using a by simp
  then have "slice p k b @ slice (p + k) m b = xs @ ys" using a(1) slice_split [of p k m b] by simp
  moreover have "length (slice p k b) = length xs" using a \<open>n = k + m\<close> by simp
  ultimately show ?thesis by simp
qed

locale record_codec =
  fixes w :: nat and enc :: "'a \<Rightarrow> bytes" and put :: "'a \<Rightarrow> bytes \<times> nat \<Rightarrow> bytes \<times> nat"
    and dec :: "bytes \<Rightarrow> nat \<Rightarrow> 'a" and ok :: "'a \<Rightarrow> bool"
  assumes enc_length: "length (enc x) = w"
    and put_enc: "p + w \<le> length b \<Longrightarrow> put x (b, p) = (overwrite b p (enc x), p + w)"
    and dec_enc: "ok x \<Longrightarrow> slice p w b = enc x \<Longrightarrow> dec b p = x"
begin

lemma table_length [simp]: "length (concat (map enc xs)) = w * length xs"
  by (induction xs) (simp_all add: enc_length)

lemma put_table:
  "p + w * length xs \<le> length b \<Longrightarrow> fold put xs (b, p) = (overwrite b p (concat (map enc xs)), p + w * length xs)"
proof (induction xs arbitrary: b p)
  case (Cons x xs)
  have "fold put (x # xs) (b, p) = fold put xs (overwrite b p (enc x), p + w)"
    using Cons.prems by (simp add: put_enc)
  also have "\<dots> = (overwrite (overwrite b p (enc x)) (p + w) (concat (map enc xs)), p + w + w * length xs)"
    using Cons.prems by (intro Cons.IH) (simp add: enc_length)
  finally show ?case
    using Cons.prems overwrite_append [of p "enc x" "concat (map enc xs)" b] by (simp add: enc_length)
qed simp

lemma dec_table:
  assumes "list_all ok xs" and "slice p (w * length xs) b = concat (map enc xs)" and "p + w * length xs \<le> length b"
  shows "map (\<lambda>i. dec b (p + w * i)) [0..<length xs] = xs"
proof (rule nth_equalityI)
  fix i assume "i < length (map (\<lambda>i. dec b (p + w * i)) [0..<length xs])"
  then have i: "i < length xs" by simp
  define pre where "pre = concat (map enc (take i xs))"
  define post where "post = concat (map enc (drop (Suc i) xs))"
  have s: "concat (map enc xs) = pre @ enc (xs ! i) @ post"
    unfolding pre_def post_def using id_take_nth_drop [OF i]
    by (metis concat.simps(2) concat_append list.simps(9) map_append)
  have lp: "length pre = w * i" using i by (simp add: pre_def)
  have lq: "length (enc (xs ! i) @ post) = w * length xs - w * i"
    using arg_cong [OF s, of length] lp by simp
  have "slice (p + w * i) (w * length xs - w * i) b = enc (xs ! i) @ post"
    using slice_suffix [of p "w * length xs" b pre "enc (xs ! i) @ post"] assms(2,3) s lp lq by simp
  then have "slice (p + w * i) w b = enc (xs ! i)" by (rule slice_prefix) (simp add: enc_length)
  moreover have "ok (xs ! i)" using assms(1) i by (simp add: list_all_length)
  ultimately show "map (\<lambda>i. dec b (p + w * i)) [0..<length xs] ! i = xs ! i"
    using i dec_enc by simp
qed simp

end

text \<open>The load of one field of a record.\<close>

lemma slice_slice_eq: "slice p w b = xs \<Longrightarrow> o2 + k \<le> w \<Longrightarrow> slice (p + o2) k b = slice o2 k xs"
  by (auto simp: slice_def drop_take min_def add.commute)

lemma get_field: "slice p w b = xs \<Longrightarrow> o2 + k \<le> w \<Longrightarrow> get_le k b (p + o2) = get_le k xs o2"
  by (simp add: get_le_def slice_slice_eq)

lemma get_le_append:
  "length xs = o2 \<Longrightarrow> v < 256 ^ k \<Longrightarrow> get_le k (xs @ le_bytes k v @ ys) o2 = v"
  by (simp add: get_le_def slice_def)

section \<open>Fixed header fields\<close>

text \<open>A sequence of stores \<^verbatim>\<open>put<T>(buf, off, v)\<close>, each a width, an offset and a value.\<close>

definition put_fields :: "(nat \<times> nat \<times> nat) list \<Rightarrow> bytes \<Rightarrow> bytes" where
  "put_fields fs buf = fold (\<lambda>(k, off, v) b. put_le k b off v) fs buf"

text \<open>Fields in rising order, none overlapping the next, all below \<open>n\<close>.\<close>

fun fields_fit :: "nat \<Rightarrow> (nat \<times> nat \<times> nat) list \<Rightarrow> nat \<Rightarrow> bool" where
  "fields_fit lo [] n \<longleftrightarrow> lo \<le> n"
| "fields_fit lo ((k, off, v) # fs) n \<longleftrightarrow> lo \<le> off \<and> fields_fit (off + k) fs n"

lemma put_fields_Cons [simp]: "put_fields ((k, off, v) # fs) b = put_fields fs (put_le k b off v)"
  by (simp add: put_fields_def)

lemma put_fields_Nil [simp]: "put_fields [] b = b"
  by (simp add: put_fields_def)

lemma fields_fit_le: "fields_fit lo fs n \<Longrightarrow> lo \<le> n"
  by (induction fs arbitrary: lo) force+

lemma length_put_fields: "fields_fit lo fs n \<Longrightarrow> n \<le> length b \<Longrightarrow> length (put_fields fs b) = length b"
proof (induction fs arbitrary: lo b)
  case (Cons f fs)
  obtain k off v where f: "f = (k, off, v)" by (metis prod_cases3)
  have l: "off + k \<le> length b" "fields_fit (off + k) fs n" using f Cons.prems fields_fit_le by fastforce+
  with Cons.IH [OF l(2), of "put_le k b off v"] Cons.prems f show ?case by simp
qed simp

lemma slice_put_fields:
  "fields_fit lo fs n \<Longrightarrow> n \<le> length b \<Longrightarrow> list_all (\<lambda>(k, off, v). o2 + k2 \<le> off \<or> off + k \<le> o2) fs \<Longrightarrow>
   slice o2 k2 (put_fields fs b) = slice o2 k2 b"
proof (induction fs arbitrary: lo b)
  case (Cons f fs)
  obtain k off v where f: "f = (k, off, v)" by (metis prod_cases3)
  have l: "off + k \<le> length b" "fields_fit (off + k) fs n" using f Cons.prems fields_fit_le by fastforce+
  with Cons.IH [OF l(2), of "put_le k b off v"] Cons.prems f show ?case by (simp add: slice_put_le_other)
qed simp

lemma fields_above: "fields_fit lo fs n \<Longrightarrow> o2 + k2 \<le> lo \<Longrightarrow> list_all (\<lambda>(k, off, v). o2 + k2 \<le> off \<or> off + k \<le> o2) fs"
  by (induction fs arbitrary: lo) force+

lemma get_put_fields:
  "(k, off, v) \<in> set fs \<Longrightarrow> fields_fit lo fs n \<Longrightarrow> n \<le> length b \<Longrightarrow> get_le k (put_fields fs b) off = v mod 256 ^ k"
proof (induction fs arbitrary: lo b)
  case (Cons f fs)
  obtain k' off' v' where f: "f = (k', off', v')" by (metis prod_cases3)
  then have l: "off' + k' \<le> length b" "fields_fit (off' + k') fs n" using Cons.prems fields_fit_le by fastforce+
  show ?case
  proof (cases "(k, off, v) \<in> set fs")
    case True
    with Cons.IH [OF True l(2), of "put_le k' b off' v'"] Cons.prems f l show ?thesis by simp
  next
    case False
    then have e: "k' = k" "off' = off" "v' = v" using Cons.prems(1) f by auto
    have "slice off k (put_fields fs (put_le k b off v)) = slice off k (put_le k b off v)"
      using slice_put_fields [OF l(2), of "put_le k b off v" off k] fields_above [OF l(2), of off k] l(1) e Cons.prems(3) by simp
    then show ?thesis using l(1) e by (simp add: f get_le_def put_le_def slice_simps le_val_le_bytes)
  qed
qed simp

end
