(* ===== verification/Replica_File.thy ===== *)
theory Replica_File
  imports Record_Codec Crc32c Image_File
begin

text \<open>
  The sidecar of a transposed replica (\<^verbatim>\<open>src/src/core/ReplicaFile.h\<close> and \<^verbatim>\<open>ReplicaFile.cc\<close>): its
  fields, the image codec in both format versions, and \<open>load\<close> and \<open>store\<close>. Shown: the round
  trip, that truncated or one-byte-corrupted images are rejected, that an old image reads as one
  without an origin map, and that every accepted sidecar has a consistent geometry, which the serving layer
  trusts blindly.
\<close>

section \<open>ReplicaMeta\<close>

record extent = x_virtOff :: nat  x_len :: nat  x_tdataOff :: nat
record srange = s_off :: nat  s_len :: nat
record origRange = o_virtOff :: nat  o_len :: nat  o_origOff :: nat  o_origLen :: nat

record replicaMeta =
  rm_flags :: nat
  rm_encoding :: nat
  rm_encoderVersion :: nat
  rm_originSize :: nat
  rm_originMtime :: nat
  rm_cksumKind :: nat
  rm_originCksum :: nat
  rm_virtualSize :: nat
  rm_tdataBytes :: nat
  rm_key :: string
  rm_extents :: "extent list"
  rm_superseded :: "srange list"
  rm_origMap :: "origRange list"
  rm_pageCrcs :: "u32 list"

definition rkFormatVersion :: nat where "rkFormatVersion = 2"
definition rkFormatVersionV1 :: nat where "rkFormatVersionV1 = 1"
definition kOverlayPageSize :: nat where "kOverlayPageSize = 64 * 1024"

definition rm_npages :: "replicaMeta \<Rightarrow> nat" where
  "rm_npages m = u64 (rm_tdataBytes m + kOverlayPageSize - 1) div kOverlayPageSize"

definition rm_pageBytes :: "replicaMeta \<Rightarrow> nat \<Rightarrow> nat" where
  "rm_pageBytes m i =
     (let start = u64 (i * kOverlayPageSize);
          e = min (u64 (start + kOverlayPageSize)) (rm_tdataBytes m)
      in u32n (sub64 e start))"

definition rm_runBytes :: "replicaMeta \<Rightarrow> nat \<Rightarrow> nat \<Rightarrow> nat" where
  "rm_runBytes m first lst =
     sub64 (u64 (u64 (lst * kOverlayPageSize) + rm_pageBytes m lst)) (u64 (first * kOverlayPageSize))"

section \<open>The image\<close>

definition rkMagic :: bytes where "rkMagic = map byte_of_char ''UCTR''"
definition rkHeaderSizeV1 :: nat where "rkHeaderSizeV1 = 72"
definition rkHeaderSize :: nat where "rkHeaderSize = 80"
definition kOrigMapCountOff :: nat where "kOrigMapCountOff = 72"
definition kOrigRangeBytes :: nat where "kOrigRangeBytes = 32"
definition kMaxOrigMap :: nat where "kMaxOrigMap = 2 ^ 22"
definition rkCrcFieldOff :: nat where "rkCrcFieldOff = 68"
definition kMaxKeyLen :: nat where "kMaxKeyLen = 64 * 1024"
definition kMaxExtents :: nat where "kMaxExtents = 2 ^ 20"
definition kMaxSuperseded :: nat where "kMaxSuperseded = 2 ^ 24"

definition ralign8 :: "nat \<Rightarrow> nat" where
  "ralign8 n = (n + 7) div 8 * 8"

definition put_extent :: "extent \<Rightarrow> bytes \<times> nat \<Rightarrow> bytes \<times> nat" where
  "put_extent e s =
     (case s of (buf, p) \<Rightarrow>
        (put_le 8 (put_le 8 (put_le 8 buf p (x_virtOff e)) (p + 8) (x_len e)) (p + 16) (x_tdataOff e), p + 24))"

definition put_range :: "srange \<Rightarrow> bytes \<times> nat \<Rightarrow> bytes \<times> nat" where
  "put_range r s =
     (case s of (buf, p) \<Rightarrow> (put_le 8 (put_le 8 buf p (s_off r)) (p + 8) (s_len r), p + 16))"

definition put_origRange :: "origRange \<Rightarrow> bytes \<times> nat \<Rightarrow> bytes \<times> nat" where
  "put_origRange o1 s =
     (case s of (buf, p) \<Rightarrow>
        (put_le 8 (put_le 8 (put_le 8 (put_le 8 buf p (o_virtOff o1)) (p + 8) (o_len o1)) (p + 16) (o_origOff o1))
           (p + 24) (o_origLen o1), p + kOrigRangeBytes))"

definition get_extent :: "bytes \<Rightarrow> nat \<Rightarrow> extent" where
  "get_extent p q = \<lparr>x_virtOff = get_le 8 p q, x_len = get_le 8 p (q + 8), x_tdataOff = get_le 8 p (q + 16)\<rparr>"

definition get_range :: "bytes \<Rightarrow> nat \<Rightarrow> srange" where
  "get_range p q = \<lparr>s_off = get_le 8 p q, s_len = get_le 8 p (q + 8)\<rparr>"

definition get_origRange :: "bytes \<Rightarrow> nat \<Rightarrow> origRange" where
  "get_origRange p q = \<lparr>o_virtOff = get_le 8 p q, o_len = get_le 8 p (q + 8), o_origOff = get_le 8 p (q + 16),
     o_origLen = get_le 8 p (q + 24)\<rparr>"

text \<open>The fixed fields, in the order the code stores them.\<close>

definition rheader_fields :: "replicaMeta \<Rightarrow> (nat \<times> nat \<times> nat) list" where
  "rheader_fields m =
     [(4, 4, rkFormatVersion), (4, 8, rm_flags m), (1, 12, rm_encoding m), (1, 13, rm_cksumKind m),
      (8, 16, rm_originSize m), (8, 24, rm_originMtime m), (4, 32, rm_originCksum m), (4, 36, rm_encoderVersion m),
      (8, 40, rm_virtualSize m), (8, 48, rm_tdataBytes m), (4, 56, u32n (length (rm_key m))),
      (4, 60, u32n (length (rm_extents m))), (4, 64, u32n (length (rm_superseded m))),
      (4, kOrigMapCountOff, u32n (length (rm_origMap m)))]"

definition put_rheader :: "replicaMeta \<Rightarrow> bytes \<Rightarrow> bytes" where
  "put_rheader m buf = put_fields (rheader_fields m) (overwrite buf 0 rkMagic)"

text \<open>The image with a zero checksum field.\<close>

definition replica_image0 :: "replicaMeta \<Rightarrow> bytes" where
  "replica_image0 m =
     (let np = rm_npages m;
          keyOff = rkHeaderSize;
          extOff = ralign8 (keyOff + length (rm_key m));
          supOff = extOff + length (rm_extents m) * 24;
          omOff = supOff + length (rm_superseded m) * 16;
          crcsOff = omOff + length (rm_origMap m) * kOrigRangeBytes;
          total = crcsOff + np * 4;
          b0 = put_rheader m (replicate total 0);
          b1 = overwrite b0 keyOff (map byte_of_char (rm_key m));
          (b2, p2) = fold put_extent (rm_extents m) (b1, extOff);
          (b3, p3) = fold put_range (rm_superseded m) (b2, p2);
          (b4, p4) = fold put_origRange (rm_origMap m) (b3, p3);
          ncrcs = min np (length (rm_pageCrcs m))
      in overwrite b4 crcsOff (le32_list (take ncrcs (rm_pageCrcs m))))"

definition replica_serialize :: "replicaMeta \<Rightarrow> bytes" where
  "replica_serialize m = put_le 4 (replica_image0 m) rkCrcFieldOff (unat (crc32c (replica_image0 m)))"

definition get_rheader :: "bytes \<Rightarrow> replicaMeta" where
  "get_rheader p =
     \<lparr>rm_flags = get_le 4 p 8, rm_encoding = get_le 1 p 12, rm_encoderVersion = get_le 4 p 36,
      rm_originSize = get_le 8 p 16, rm_originMtime = get_le 8 p 24, rm_cksumKind = get_le 1 p 13,
      rm_originCksum = get_le 4 p 32, rm_virtualSize = get_le 8 p 40, rm_tdataBytes = get_le 8 p 48,
      rm_key = [], rm_extents = [], rm_superseded = [], rm_origMap = [], rm_pageCrcs = []\<rparr>"

text \<open>The consistency tests at the end of \<open>deserialize\<close>.\<close>

fun extents_consistent :: "replicaMeta \<Rightarrow> nat \<Rightarrow> extent list \<Rightarrow> bool" where
  "extents_consistent m prevEnd [] \<longleftrightarrow> True"
| "extents_consistent m prevEnd (e # es) \<longleftrightarrow>
     (if x_len e = 0 \<or> x_virtOff e < prevEnd then False
      else if u64 (x_virtOff e + x_len e) < x_virtOff e \<or> u64 (x_virtOff e + x_len e) > rm_virtualSize m then False
      else if u64 (x_tdataOff e + x_len e) < x_tdataOff e \<or> u64 (x_tdataOff e + x_len e) > rm_tdataBytes m then False
      else extents_consistent m (u64 (x_virtOff e + x_len e)) es)"

definition superseded_bad :: "replicaMeta \<Rightarrow> srange \<Rightarrow> bool" where
  "superseded_bad m r \<longleftrightarrow> s_len r = 0 \<or> u64 (s_off r + s_len r) < s_off r \<or> u64 (s_off r + s_len r) > rm_originSize m"

definition replica_consistent :: "replicaMeta \<Rightarrow> bool" where
  "replica_consistent m \<longleftrightarrow> \<not> rm_virtualSize m < rm_originSize m \<and> extents_consistent m 0 (rm_extents m) \<and>
     \<not> list_ex (superseded_bad m) (rm_superseded m)"

definition replica_deserialize :: "bytes \<Rightarrow> replicaMeta option" where
  "replica_deserialize p =
     (let n = length p in
      if n < rkHeaderSizeV1 \<or> slice 0 4 p \<noteq> rkMagic then None
      else
        let ver = get_le 4 p 4; v2 = (ver = rkFormatVersion)
        in if ver \<noteq> rkFormatVersion \<and> ver \<noteq> rkFormatVersionV1 then None
           else if v2 \<and> n < rkHeaderSize then None
           else
             let m = get_rheader p;
                 keyLen = get_le 4 p 56;
                 nExt = get_le 4 p 60;
                 nSup = get_le 4 p 64;
                 storedCrc = get_le 4 p rkCrcFieldOff;
                 nOrigMap = (if v2 then get_le 4 p kOrigMapCountOff else 0)
             in if keyLen > kMaxKeyLen \<or> nExt > kMaxExtents \<or> nSup > kMaxSuperseded \<or> nOrigMap > kMaxOrigMap then None
                else
                  let np = rm_npages m;
                      keyOff = (if v2 then rkHeaderSize else rkHeaderSizeV1);
                      extOff = ralign8 (keyOff + keyLen);
                      supOff = extOff + nExt * 24;
                      omOff = supOff + nSup * 16;
                      crcsOff = omOff + nOrigMap * kOrigRangeBytes;
                      total = crcsOff + np * 4
                  in if n \<noteq> total then None
                     else if unat (crc32c (overwrite p rkCrcFieldOff (replicate 4 0))) \<noteq> storedCrc then None
                     else
                       let m1 = m\<lparr>rm_key := map char_of_byte (slice keyOff keyLen p),
                                  rm_extents := map (\<lambda>i. get_extent p (extOff + 24 * i)) [0..<nExt],
                                  rm_superseded := map (\<lambda>i. get_range p (supOff + 16 * i)) [0..<nSup],
                                  rm_origMap := map (\<lambda>i. get_origRange p (omOff + kOrigRangeBytes * i)) [0..<nOrigMap],
                                  rm_pageCrcs := rd32_list np (drop crcsOff p)\<rparr>
                       in if replica_consistent m1 then Some m1 else None)"

definition replica_load :: "io \<Rightarrow> string \<Rightarrow> replicaMeta option \<times> io" where
  "replica_load io path = (case read_image io path of (b, io1) \<Rightarrow> (Option.bind b replica_deserialize, io1))"

definition replica_store :: "io \<Rightarrow> string \<Rightarrow> replicaMeta \<Rightarrow> bool \<Rightarrow> int \<times> io" where
  "replica_store io path m fsyncMeta = write_image io path (replica_serialize m) fsyncMeta"

section \<open>The three record types\<close>

definition enc_extent :: "extent \<Rightarrow> bytes" where
  "enc_extent e = le_bytes 8 (x_virtOff e) @ le_bytes 8 (x_len e) @ le_bytes 8 (x_tdataOff e)"

definition enc_range :: "srange \<Rightarrow> bytes" where
  "enc_range r = le_bytes 8 (s_off r) @ le_bytes 8 (s_len r)"

definition enc_origRange :: "origRange \<Rightarrow> bytes" where
  "enc_origRange r = le_bytes 8 (o_virtOff r) @ le_bytes 8 (o_len r) @ le_bytes 8 (o_origOff r) @ le_bytes 8 (o_origLen r)"

definition extent_ok :: "extent \<Rightarrow> bool" where
  "extent_ok e \<longleftrightarrow> x_virtOff e < 2 ^ 64 \<and> x_len e < 2 ^ 64 \<and> x_tdataOff e < 2 ^ 64"

definition range_ok :: "srange \<Rightarrow> bool" where
  "range_ok r \<longleftrightarrow> s_off r < 2 ^ 64 \<and> s_len r < 2 ^ 64"

definition origRange_ok :: "origRange \<Rightarrow> bool" where
  "origRange_ok r \<longleftrightarrow> o_virtOff r < 2 ^ 64 \<and> o_len r < 2 ^ 64 \<and> o_origOff r < 2 ^ 64 \<and> o_origLen r < 2 ^ 64"

lemma pow256_8: "(2 :: nat) ^ 64 = 256 ^ 8"
  by simp

interpretation ext: record_codec 24 enc_extent put_extent get_extent extent_ok
proof unfold_locales
  fix p :: nat and b :: bytes and x assume "p + 24 \<le> length b"
  then show "put_extent x (b, p) = (overwrite b p (enc_extent x), p + 24)"
    by (simp add: put_extent_def put_le_def enc_extent_def overwrite_append')
next
  fix x and p :: nat and b :: bytes assume ok: "extent_ok x" and s: "slice p 24 b = enc_extent x"
  have "get_le 8 b p = x_virtOff x" "get_le 8 b (p + 8) = x_len x" "get_le 8 b (p + 16) = x_tdataOff x"
    using get_field [OF s, of 0 8] get_field [OF s, of 8 8] get_field [OF s, of 16 8] ok
    by (simp_all add: enc_extent_def extent_ok_def get_le_def slice_def del: le_bytes.simps)
  then show "get_extent b p = x" by (simp add: get_extent_def)
qed (simp add: enc_extent_def)

interpretation rng: record_codec 16 enc_range put_range get_range range_ok
proof unfold_locales
  fix p :: nat and b :: bytes and x assume "p + 16 \<le> length b"
  then show "put_range x (b, p) = (overwrite b p (enc_range x), p + 16)"
    by (simp add: put_range_def put_le_def enc_range_def overwrite_append')
next
  fix x and p :: nat and b :: bytes assume ok: "range_ok x" and s: "slice p 16 b = enc_range x"
  have "get_le 8 b p = s_off x" "get_le 8 b (p + 8) = s_len x"
    using get_field [OF s, of 0 8] get_field [OF s, of 8 8] ok
    by (simp_all add: enc_range_def range_ok_def get_le_def slice_def del: le_bytes.simps)
  then show "get_range b p = x" by (simp add: get_range_def)
qed (simp add: enc_range_def)

interpretation orig: record_codec 32 enc_origRange put_origRange get_origRange origRange_ok
proof unfold_locales
  fix p :: nat and b :: bytes and x assume "p + 32 \<le> length b"
  then show "put_origRange x (b, p) = (overwrite b p (enc_origRange x), p + 32)"
    by (simp add: put_origRange_def put_le_def enc_origRange_def overwrite_append' kOrigRangeBytes_def)
next
  fix x and p :: nat and b :: bytes assume ok: "origRange_ok x" and s: "slice p 32 b = enc_origRange x"
  have "get_le 8 b p = o_virtOff x" "get_le 8 b (p + 8) = o_len x" "get_le 8 b (p + 16) = o_origOff x" "get_le 8 b (p + 24) = o_origLen x"
    using get_field [OF s, of 0 8] get_field [OF s, of 8 8] get_field [OF s, of 16 8] get_field [OF s, of 24 8] ok
    by (simp_all add: enc_origRange_def origRange_ok_def get_le_def slice_def del: le_bytes.simps)
  then show "get_origRange b p = x" by (simp add: get_origRange_def)
qed (simp add: enc_origRange_def)

section \<open>Round trip\<close>

text \<open>The bounds of the C++ field types, the limits of the format and a consistent geometry.\<close>

definition replica_ok :: "replicaMeta \<Rightarrow> bool" where
  "replica_ok m \<longleftrightarrow> rm_flags m < 2 ^ 32 \<and> rm_encoding m < 2 ^ 8 \<and> rm_encoderVersion m < 2 ^ 32 \<and> rm_originSize m < 2 ^ 64 \<and>
     rm_originMtime m < 2 ^ 64 \<and> rm_cksumKind m < 2 ^ 8 \<and> rm_originCksum m < 2 ^ 32 \<and> rm_virtualSize m < 2 ^ 64 \<and>
     rm_tdataBytes m < 2 ^ 64 \<and> length (rm_key m) \<le> kMaxKeyLen \<and> length (rm_extents m) \<le> kMaxExtents \<and>
     length (rm_superseded m) \<le> kMaxSuperseded \<and> length (rm_origMap m) \<le> kMaxOrigMap \<and>
     list_all extent_ok (rm_extents m) \<and> list_all range_ok (rm_superseded m) \<and> list_all origRange_ok (rm_origMap m) \<and>
     length (rm_pageCrcs m) = rm_npages m \<and> replica_consistent m"

definition ext_off :: "replicaMeta \<Rightarrow> nat" where "ext_off m = ralign8 (80 + length (rm_key m))"
definition sup_off :: "replicaMeta \<Rightarrow> nat" where "sup_off m = ext_off m + 24 * length (rm_extents m)"
definition om_off :: "replicaMeta \<Rightarrow> nat" where "om_off m = sup_off m + 16 * length (rm_superseded m)"
definition rcrcs_off :: "replicaMeta \<Rightarrow> nat" where "rcrcs_off m = om_off m + 32 * length (rm_origMap m)"
definition replica_size :: "replicaMeta \<Rightarrow> nat" where "replica_size m = rcrcs_off m + 4 * rm_npages m"

lemma ext_off_ge: "80 + length (rm_key m) \<le> ext_off m"
  unfolding ext_off_def ralign8_def by linarith

lemmas rlimits = kMaxKeyLen_def kMaxExtents_def kMaxSuperseded_def kMaxOrigMap_def

lemma length_rkMagic [simp]: "length rkMagic = 4"
  by (simp add: rkMagic_def)

lemma rheader_fit: "fields_fit 4 (rheader_fields m) 80"
  by (simp add: rheader_fields_def kOrigMapCountOff_def)

lemma length_put_rheader [simp]: "80 \<le> length z \<Longrightarrow> length (put_rheader m z) = length z"
  using length_put_fields [OF rheader_fit [of m], of "overwrite z 0 rkMagic"] by (simp add: put_rheader_def)

lemma put_rheader_magic: "80 \<le> length z \<Longrightarrow> slice 0 4 (put_rheader m z) = rkMagic"
  using slice_put_fields [OF rheader_fit, of "overwrite z 0 rkMagic" 0 4 m] fields_above [OF rheader_fit, of 0 4 m]
  by (simp add: put_rheader_def slice_simps)

lemma put_rheader_field: "80 \<le> length z \<Longrightarrow> (k, off, v) \<in> set (rheader_fields m) \<Longrightarrow> get_le k (put_rheader m z) off = v mod 256 ^ k"
  using get_put_fields [OF _ rheader_fit, of k off v m "overwrite z 0 rkMagic"] by (simp add: put_rheader_def)

lemma put_rheader_crc: "80 \<le> length z \<Longrightarrow> slice 68 4 (put_rheader m z) = slice 68 4 z"
  using slice_put_fields [OF rheader_fit, of "overwrite z 0 rkMagic" 68 4 m]
  by (simp add: put_rheader_def slice_overwrite_other rheader_fields_def kOrigMapCountOff_def)

lemma replica_image0_eq:
  assumes "replica_ok m"
  shows "replica_image0 m =
    overwrite (overwrite (overwrite (overwrite (overwrite (put_rheader m (replicate (replica_size m) 0))
      80 (map byte_of_char (rm_key m)))
      (ext_off m) (concat (map enc_extent (rm_extents m))))
      (sup_off m) (concat (map enc_range (rm_superseded m))))
      (om_off m) (concat (map enc_origRange (rm_origMap m))))
      (rcrcs_off m) (le32_list (rm_pageCrcs m))"
proof -
  have l: "length (rm_pageCrcs m) = rm_npages m" using assms by (simp add: replica_ok_def)
  define z where "z = overwrite (put_rheader m (replicate (replica_size m) 0)) 80 (map byte_of_char (rm_key m))"
  have lz: "length z = replica_size m" using ext_off_ge [of m]
    by (simp add: z_def replica_size_def rcrcs_off_def om_off_def sup_off_def)
  note offs = replica_size_def rcrcs_off_def om_off_def sup_off_def
  have f1: "fold put_extent (rm_extents m) (z, ext_off m) = (overwrite z (ext_off m) (concat (map enc_extent (rm_extents m))), sup_off m)"
    using ext.put_table [of "ext_off m" "rm_extents m" z] lz by (simp add: offs)
  define z1 where "z1 = overwrite z (ext_off m) (concat (map enc_extent (rm_extents m)))"
  have l1: "length z1 = replica_size m" using lz by (simp add: z1_def offs)
  have f2: "fold put_range (rm_superseded m) (z1, sup_off m) = (overwrite z1 (sup_off m) (concat (map enc_range (rm_superseded m))), om_off m)"
    using rng.put_table [of "sup_off m" "rm_superseded m" z1] l1 by (simp add: offs)
  define z2 where "z2 = overwrite z1 (sup_off m) (concat (map enc_range (rm_superseded m)))"
  have l2: "length z2 = replica_size m" using l1 by (simp add: z2_def offs)
  have f3: "fold put_origRange (rm_origMap m) (z2, om_off m) = (overwrite z2 (om_off m) (concat (map enc_origRange (rm_origMap m))), rcrcs_off m)"
    using orig.put_table [of "om_off m" "rm_origMap m" z2] l2 by (simp add: offs)
  have sz: "ext_off m + length (rm_extents m) * 24 + length (rm_superseded m) * 16 + length (rm_origMap m) * 32 = rcrcs_off m"
      "rcrcs_off m + rm_npages m * 4 = replica_size m"
    by (simp_all add: offs)
  show ?thesis
    unfolding replica_image0_def Let_def rkHeaderSize_def kOrigRangeBytes_def ext_off_def [symmetric] sz z_def [symmetric]
    by (simp add: f1 z1_def [symmetric] f2 z2_def [symmetric] f3 l)
qed

lemma replica_offsets: "80 + length (rm_key m) \<le> ext_off m" "ext_off m \<le> sup_off m" "sup_off m \<le> om_off m" "om_off m \<le> rcrcs_off m"
  "rcrcs_off m \<le> replica_size m" "80 \<le> replica_size m"
  "sup_off m = ext_off m + 24 * length (rm_extents m)" "om_off m = sup_off m + 16 * length (rm_superseded m)"
  "rcrcs_off m = om_off m + 32 * length (rm_origMap m)" "replica_size m = rcrcs_off m + 4 * rm_npages m"
  using ext_off_ge [of m] by (simp_all add: sup_off_def om_off_def rcrcs_off_def replica_size_def)

lemma length_replica_image0: "replica_ok m \<Longrightarrow> length (replica_image0 m) = replica_size m"
  using replica_offsets [of m] by (simp add: replica_image0_eq replica_ok_def)

lemma replica_image0_low:
  assumes "replica_ok m" and "o2 + k \<le> 80"
  shows "slice o2 k (replica_image0 m) = slice o2 k (put_rheader m (replicate (replica_size m) 0))"
  unfolding replica_image0_eq [OF assms(1)] using replica_offsets [of m] assms
  by (simp add: slice_overwrite_other replica_ok_def)

lemma replica_image0_get: "replica_ok m \<Longrightarrow> o2 + k \<le> 80 \<Longrightarrow>
    get_le k (replica_image0 m) o2 = get_le k (put_rheader m (replicate (replica_size m) 0)) o2"
  by (simp add: get_le_def replica_image0_low)

lemma replica_image0_header:
  assumes "replica_ok m"
  shows "slice 0 4 (replica_image0 m) = rkMagic" "get_le 4 (replica_image0 m) 4 = rkFormatVersion"
    "get_rheader (replica_image0 m) = m\<lparr>rm_key := [], rm_extents := [], rm_superseded := [], rm_origMap := [], rm_pageCrcs := []\<rparr>"
    "get_le 4 (replica_image0 m) 56 = length (rm_key m)" "get_le 4 (replica_image0 m) 60 = length (rm_extents m)"
    "get_le 4 (replica_image0 m) 64 = length (rm_superseded m)" "get_le 4 (replica_image0 m) 72 = length (rm_origMap m)"
    "slice 68 4 (replica_image0 m) = replicate 4 0"
proof -
  let ?z = "replicate (replica_size m) (0 :: byte)"
  have z: "80 \<le> length ?z" using replica_offsets by simp
  have g: "get_le k (replica_image0 m) off = v" if "(k, off, v) \<in> set (rheader_fields m)" "off + k \<le> 80" "v < 256 ^ k" for k off v
    using replica_image0_get [OF assms that(2)] put_rheader_field [OF z that(1)] that(3) by simp
  note R = assms [unfolded replica_ok_def rlimits]
  show "slice 0 4 (replica_image0 m) = rkMagic" using replica_image0_low [OF assms, of 0 4] put_rheader_magic [OF z] by simp
  show "slice 68 4 (replica_image0 m) = replicate 4 0"
    using replica_image0_low [OF assms, of 68 4] put_rheader_crc [OF z] z by (simp add: slice_def)
  show "get_le 4 (replica_image0 m) 4 = rkFormatVersion" by (rule g) (simp_all add: rheader_fields_def rkFormatVersion_def)
  have u: "u32n (length (rm_key m)) = length (rm_key m)" "u32n (length (rm_extents m)) = length (rm_extents m)"
    "u32n (length (rm_superseded m)) = length (rm_superseded m)" "u32n (length (rm_origMap m)) = length (rm_origMap m)"
    using R by (simp_all add: u32n_def)
  show "get_le 4 (replica_image0 m) 56 = length (rm_key m)" by (rule g) (use R u in \<open>simp_all add: rheader_fields_def\<close>)
  show "get_le 4 (replica_image0 m) 60 = length (rm_extents m)" by (rule g) (use R u in \<open>simp_all add: rheader_fields_def\<close>)
  show "get_le 4 (replica_image0 m) 64 = length (rm_superseded m)" by (rule g) (use R u in \<open>simp_all add: rheader_fields_def\<close>)
  show "get_le 4 (replica_image0 m) 72 = length (rm_origMap m)"
    by (rule g) (use R u in \<open>simp_all add: rheader_fields_def kOrigMapCountOff_def\<close>)
  have "get_le 4 (replica_image0 m) 8 = rm_flags m" "get_le (Suc 0) (replica_image0 m) 12 = rm_encoding m"
    "get_le (Suc 0) (replica_image0 m) 13 = rm_cksumKind m"
    "get_le 8 (replica_image0 m) 16 = rm_originSize m" "get_le 8 (replica_image0 m) 24 = rm_originMtime m"
    "get_le 4 (replica_image0 m) 32 = rm_originCksum m" "get_le 4 (replica_image0 m) 36 = rm_encoderVersion m"
    "get_le 8 (replica_image0 m) 40 = rm_virtualSize m" "get_le 8 (replica_image0 m) 48 = rm_tdataBytes m"
    by (rule g; use R in \<open>simp add: rheader_fields_def\<close>)+
  then show "get_rheader (replica_image0 m) = m\<lparr>rm_key := [], rm_extents := [], rm_superseded := [], rm_origMap := [], rm_pageCrcs := []\<rparr>"
    by (simp add: get_rheader_def)
qed

lemma replica_image0_body:
  assumes "replica_ok m"
  shows "slice 80 (length (rm_key m)) (replica_image0 m) = map byte_of_char (rm_key m)"
    "slice (ext_off m) (24 * length (rm_extents m)) (replica_image0 m) = concat (map enc_extent (rm_extents m))"
    "slice (sup_off m) (16 * length (rm_superseded m)) (replica_image0 m) = concat (map enc_range (rm_superseded m))"
    "slice (om_off m) (32 * length (rm_origMap m)) (replica_image0 m) = concat (map enc_origRange (rm_origMap m))"
    "slice (rcrcs_off m) (4 * rm_npages m) (replica_image0 m) = le32_list (rm_pageCrcs m)"
proof -
  have l: "length (rm_pageCrcs m) = rm_npages m" using assms by (simp add: replica_ok_def)
  note O = replica_offsets [of m]
  show "slice 80 (length (rm_key m)) (replica_image0 m) = map byte_of_char (rm_key m)"
    "slice (ext_off m) (24 * length (rm_extents m)) (replica_image0 m) = concat (map enc_extent (rm_extents m))"
    "slice (sup_off m) (16 * length (rm_superseded m)) (replica_image0 m) = concat (map enc_range (rm_superseded m))"
    "slice (om_off m) (32 * length (rm_origMap m)) (replica_image0 m) = concat (map enc_origRange (rm_origMap m))"
    "slice (rcrcs_off m) (4 * rm_npages m) (replica_image0 m) = le32_list (rm_pageCrcs m)"
    unfolding replica_image0_eq [OF assms] using O l by (simp_all add: slice_overwrite_same slice_overwrite_other)
qed

lemma replica_serialize_low:
  assumes "replica_ok m" and "o2 + k \<le> 68 \<or> 72 \<le> o2"
  shows "slice o2 k (replica_serialize m) = slice o2 k (replica_image0 m)" "get_le k (replica_serialize m) o2 = get_le k (replica_image0 m) o2"
proof -
  have "80 \<le> length (replica_image0 m)" using replica_offsets(6) [of m] by (simp add: length_replica_image0 [OF assms(1)])
  with assms(2) show "slice o2 k (replica_serialize m) = slice o2 k (replica_image0 m)"
    by (auto simp: replica_serialize_def rkCrcFieldOff_def slice_put_le_other)
  then show "get_le k (replica_serialize m) o2 = get_le k (replica_image0 m) o2" by (simp add: get_le_def)
qed

lemma length_replica_serialize: "replica_ok m \<Longrightarrow> length (replica_serialize m) = replica_size m"
  using replica_offsets(6) [of m] by (simp add: replica_serialize_def rkCrcFieldOff_def length_replica_image0)

lemma replica_serialize_crc:
  assumes "replica_ok m" shows "crc_field_ok 68 (replica_serialize m)"
  using crc_field_put(1) [OF replica_image0_header(8) [OF assms]] replica_offsets(6) [of m]
  by (simp add: replica_serialize_def rkCrcFieldOff_def length_replica_image0 [OF assms])

lemma replica_deserialize_serialize:
  assumes "replica_ok m"
  shows "replica_deserialize (replica_serialize m) = Some m"
proof -
  let ?s = "replica_serialize m"
  note S = replica_serialize_low [OF assms] and H = replica_image0_header [OF assms] and B = replica_image0_body [OF assms]
    and O = replica_offsets [of m] and L = length_replica_serialize [OF assms]
  have R: "list_all extent_ok (rm_extents m)" "list_all range_ok (rm_superseded m)" "list_all origRange_ok (rm_origMap m)"
    "length (rm_pageCrcs m) = rm_npages m" "replica_consistent m"
    "length (rm_key m) \<le> kMaxKeyLen" "length (rm_extents m) \<le> kMaxExtents" "length (rm_superseded m) \<le> kMaxSuperseded"
    "length (rm_origMap m) \<le> kMaxOrigMap" using assms by (simp_all add: replica_ok_def)
  have h: "get_rheader ?s = m\<lparr>rm_key := [], rm_extents := [], rm_superseded := [], rm_origMap := [], rm_pageCrcs := []\<rparr>"
    using H(3) by (simp add: get_rheader_def S)
  have f: "slice 0 4 ?s = rkMagic" "get_le 4 ?s 4 = rkFormatVersion" "get_le 4 ?s 56 = length (rm_key m)" "get_le 4 ?s 60 = length (rm_extents m)"
    "get_le 4 ?s 64 = length (rm_superseded m)" "get_le 4 ?s 72 = length (rm_origMap m)" using H by (simp_all add: S)
  have np: "rm_npages (get_rheader ?s) = rm_npages m" by (simp add: h rm_npages_def)
  have o: "ralign8 (80 + length (rm_key m)) = ext_off m" "ext_off m + length (rm_extents m) * 24 = sup_off m"
      "sup_off m + length (rm_superseded m) * 16 = om_off m" "om_off m + length (rm_origMap m) * 32 = rcrcs_off m"
      "rcrcs_off m + rm_npages m * 4 = replica_size m" using O by (simp_all add: ext_off_def)
  have e: "map (\<lambda>i. get_extent ?s (ext_off m + 24 * i)) [0..<length (rm_extents m)] = rm_extents m"
    by (rule ext.dec_table [OF R(1)]) (use S B(2) O L in simp_all)
  have r: "map (\<lambda>i. get_range ?s (sup_off m + 16 * i)) [0..<length (rm_superseded m)] = rm_superseded m"
    by (rule rng.dec_table [OF R(2)]) (use S B(3) O L in simp_all)
  have g: "map (\<lambda>i. get_origRange ?s (om_off m + 32 * i)) [0..<length (rm_origMap m)] = rm_origMap m"
    by (rule orig.dec_table [OF R(3)]) (use S B(4) O L in simp_all)
  have "drop (rcrcs_off m) ?s = slice (rcrcs_off m) (4 * rm_npages m) ?s" using O L by (simp add: slice_def)
  also have "\<dots> = le32_list (rm_pageCrcs m)" using B(5) O S(1) [of "rcrcs_off m" "4 * rm_npages m"] by simp
  finally have d: "rd32_list (rm_npages m) (drop (rcrcs_off m) ?s) = rm_pageCrcs m"
    using rd32_le32 [of "rm_npages m" "rm_pageCrcs m" "[]"] R(4) by simp
  have k: "map char_of_byte (slice 80 (length (rm_key m)) ?s) = rm_key m" using B(1) by (simp add: S o_def)
  have c: "unat (crc32c (overwrite ?s 68 (replicate 4 0))) = get_le 4 ?s 68"
    using replica_serialize_crc [OF assms] by (simp only: crc_field_ok_def)
  show ?thesis
    unfolding replica_deserialize_def Let_def rkHeaderSize_def rkHeaderSizeV1_def rkCrcFieldOff_def kOrigMapCountOff_def
      kOrigRangeBytes_def f np
    using R(5-9) O(6) by (simp add: o L c e r g d k h)
qed

section \<open>What an accepted sidecar guarantees\<close>

lemma replica_deserialize_SomeD:
  assumes "replica_deserialize p = Some m"
  shows "72 \<le> length p" "crc_field_ok 68 p" "replica_consistent m"
    "length p = ralign8 ((if get_le 4 p 4 = 2 then 80 else 72) + get_le 4 p 56) + get_le 4 p 60 * 24 + get_le 4 p 64 * 16 +
       (if get_le 4 p 4 = 2 then get_le 4 p 72 else 0) * 32 + rm_npages (get_rheader p) * 4"
    "get_le 4 p 4 = 1 \<Longrightarrow> rm_origMap m = []" "get_le 4 p 4 = 2 \<Longrightarrow> 80 \<le> length p"
  using assms
  by (auto simp: replica_deserialize_def Let_def rkHeaderSize_def rkHeaderSizeV1_def rkCrcFieldOff_def kOrigMapCountOff_def
      kOrigRangeBytes_def rkFormatVersion_def crc_field_ok_def split: if_splits)

lemma replica_truncated:
  assumes "replica_deserialize s = Some m" and "k < length s"
  shows "replica_deserialize (take k s) = None"
proof (rule ccontr)
  assume "replica_deserialize (take k s) \<noteq> None"
  then obtain m' where m': "replica_deserialize (take k s) = Some m'" by blast
  note D = replica_deserialize_SomeD [OF assms(1)] and T = replica_deserialize_SomeD [OF m']
  have k: "72 \<le> k" using T(1) assms(2) by simp
  have g: "get_le n (take k s) o2 = get_le n s o2" if "o2 + n \<le> k" for n o2
    using that by (simp add: get_le_def slice_def drop_take min_def)
  have h: "get_rheader (take k s) = get_rheader s" using k by (simp add: get_rheader_def g)
  have v: "get_le 4 (take k s) 4 = get_le 4 s 4" using k by (simp add: g)
  have om: "get_le 4 (take k s) 72 = get_le 4 s 72" if "get_le 4 s 4 = 2"
    using T(6) v that assms(2) by (intro g) simp
  have "length (take k s) = length s"
    unfolding D(4) T(4) h v using k om by (cases "get_le 4 s 4 = 2") (simp_all add: g)
  then show False using assms(2) by simp
qed

text \<open>What the tests over the extents add up to.\<close>

lemma u64_end:
  assumes "a < 2 ^ 64" and "n < 2 ^ 64" and "hi < 2 ^ 64"
  shows "\<not> (u64 (a + n) < a \<or> u64 (a + n) > hi) \<longleftrightarrow> a + n \<le> hi"
  using u64_wrap_test [OF assms(1,2)] assms(3) by (auto simp: u64_def)

lemma extents_consistent_iff:
  assumes "rm_virtualSize m < 2 ^ 64" "rm_tdataBytes m < 2 ^ 64"
  shows "list_all extent_ok es \<Longrightarrow> extents_consistent m lo es \<longleftrightarrow>
    (\<forall>e\<in>set es. 0 < x_len e \<and> lo \<le> x_virtOff e \<and> x_virtOff e + x_len e \<le> rm_virtualSize m \<and>
       x_tdataOff e + x_len e \<le> rm_tdataBytes m) \<and>
    sorted_wrt (\<lambda>a b. x_virtOff a + x_len a \<le> x_virtOff b) es"
proof (induction es arbitrary: lo)
  case (Cons e es)
  have e: "x_virtOff e < 2 ^ 64" "x_len e < 2 ^ 64" "x_tdataOff e < 2 ^ 64" "list_all extent_ok es"
    using Cons.prems by (simp_all, simp_all add: extent_ok_def)
  note v = u64_end [OF e(1,2) assms(1)] and t = u64_end [OF e(3,2) assms(2)]
  have u: "x_virtOff e + x_len e \<le> rm_virtualSize m \<Longrightarrow> u64 (x_virtOff e + x_len e) = x_virtOff e + x_len e" using assms(1) by (simp add: u64_def)
  have "extents_consistent m lo (e # es) \<longleftrightarrow> 0 < x_len e \<and> lo \<le> x_virtOff e \<and> x_virtOff e + x_len e \<le> rm_virtualSize m \<and>
      x_tdataOff e + x_len e \<le> rm_tdataBytes m \<and> extents_consistent m (x_virtOff e + x_len e) es"
    using v t u by auto
  then show ?case unfolding Cons.IH [OF e(4)] by fastforce
qed simp

lemma replica_decoded:
  assumes "replica_deserialize p = Some m"
  shows "rm_virtualSize m < 2 ^ 64" "rm_tdataBytes m < 2 ^ 64" "rm_originSize m < 2 ^ 64" "list_all extent_ok (rm_extents m)"
    "list_all range_ok (rm_superseded m)" "length (rm_pageCrcs m) = rm_npages m"
proof -
  have b: "get_le 8 p q < 2 ^ 64" for q using get_le_bound [of 8 p q] by simp
  have x: "extent_ok (get_extent p q)" "range_ok (get_range p q)" for q
    using b by (simp_all add: extent_ok_def range_ok_def get_extent_def get_range_def)
  have "rm_virtualSize m = get_le 8 p 40" "rm_tdataBytes m = get_le 8 p 48" "rm_originSize m = get_le 8 p 16"
    using assms by (auto simp: replica_deserialize_def Let_def get_rheader_def split: if_splits)
  then show "rm_virtualSize m < 2 ^ 64" "rm_tdataBytes m < 2 ^ 64" "rm_originSize m < 2 ^ 64" using b by simp_all
  show "list_all extent_ok (rm_extents m)" "list_all range_ok (rm_superseded m)"
    using assms x by (auto simp: replica_deserialize_def Let_def list_all_iff split: if_splits)
  show "length (rm_pageCrcs m) = rm_npages m"
    using assms by (auto simp: replica_deserialize_def Let_def rm_npages_def split: if_splits)
qed

lemma replica_geometry:
  assumes "replica_deserialize p = Some m"
  shows "rm_originSize m \<le> rm_virtualSize m"
    "sorted_wrt (\<lambda>a b. x_virtOff a + x_len a \<le> x_virtOff b) (rm_extents m)"
    "e \<in> set (rm_extents m) \<Longrightarrow> 0 < x_len e \<and> x_virtOff e + x_len e \<le> rm_virtualSize m \<and> x_tdataOff e + x_len e \<le> rm_tdataBytes m"
    "r \<in> set (rm_superseded m) \<Longrightarrow> 0 < s_len r \<and> s_off r + s_len r \<le> rm_originSize m"
proof -
  note D = replica_decoded [OF assms] and C = replica_deserialize_SomeD(3) [OF assms]
  show "rm_originSize m \<le> rm_virtualSize m" using C by (simp add: replica_consistent_def)
  have E: "extents_consistent m 0 (rm_extents m)" using C by (simp add: replica_consistent_def)
  from E show "sorted_wrt (\<lambda>a b. x_virtOff a + x_len a \<le> x_virtOff b) (rm_extents m)"
    unfolding extents_consistent_iff [OF D(1,2,4)] by blast
  show "0 < x_len e \<and> x_virtOff e + x_len e \<le> rm_virtualSize m \<and> x_tdataOff e + x_len e \<le> rm_tdataBytes m" if "e \<in> set (rm_extents m)"
    using E that unfolding extents_consistent_iff [OF D(1,2,4)] by blast
  show "0 < s_len r \<and> s_off r + s_len r \<le> rm_originSize m" if r: "r \<in> set (rm_superseded m)"
  proof -
    have "s_off r < 2 ^ 64" "s_len r < 2 ^ 64" using D(5) r by (auto simp: list_all_iff range_ok_def)
    from u64_end [OF this D(3)] show ?thesis using C r by (auto simp: replica_consistent_def list_ex_iff superseded_bad_def)
  qed
qed

section \<open>Properties\<close>

text \<open>The sidecar of a replica survives its image: what is well-formed is read back exactly, and no image that
  is accepted stays acceptable when it is cut short or when one byte of it changes.\<close>

theorem replica_image_roundtrip:
  shows "(replica_ok m \<longrightarrow> replica_deserialize (replica_serialize m) = Some m) \<and>
    (replica_deserialize s = Some m' \<longrightarrow> (\<forall>k<length s. replica_deserialize (take k s) = None) \<and>
       (\<forall>p b. p < length s \<and> b \<noteq> s ! p \<longrightarrow> replica_deserialize (s[p := b]) = None))"
proof (intro conjI impI allI)
  show "replica_ok m \<Longrightarrow> replica_deserialize (replica_serialize m) = Some m" by (rule replica_deserialize_serialize)
  show "replica_deserialize s = Some m' \<Longrightarrow> k < length s \<Longrightarrow> replica_deserialize (take k s) = None" for k by (rule replica_truncated)
  fix p b assume d: "replica_deserialize s = Some m'" and pb: "p < length s \<and> b \<noteq> s ! p"
  note D = replica_deserialize_SomeD(1,2) [OF d]
  have "\<not> crc_field_ok 68 (s[p := b])" using crc_field_flip [OF D(2)] D(1) pb by simp
  then show "replica_deserialize (s[p := b]) = None"
    using replica_deserialize_SomeD(2) by (cases "replica_deserialize (s[p := b])") blast+
qed

text \<open>A small replica: two extents, the second past the origin's end.\<close>

definition sample_replica :: replicaMeta where
  "sample_replica = \<lparr>rm_flags = 0, rm_encoding = 1, rm_encoderVersion = 10505, rm_originSize = 1000, rm_originMtime = 77,
     rm_cksumKind = 0, rm_originCksum = 0, rm_virtualSize = 1300, rm_tdataBytes = 400, rm_key = ''root://h:1094/f'',
     rm_extents = [\<lparr>x_virtOff = 100, x_len = 100, x_tdataOff = 0\<rparr>, \<lparr>x_virtOff = 1000, x_len = 300, x_tdataOff = 100\<rparr>],
     rm_superseded = [\<lparr>s_off = 300, s_len = 50\<rparr>],
     rm_origMap = [\<lparr>o_virtOff = 1000, o_len = 300, o_origOff = 300, o_origLen = 50\<rparr>], rm_pageCrcs = [42]\<rparr>"

lemma sample_replica_ok: "replica_ok sample_replica"
  by (simp add: sample_replica_def replica_ok_def rlimits extent_ok_def range_ok_def origRange_ok_def rm_npages_def kOverlayPageSize_def
      replica_consistent_def superseded_bad_def u64_def)

theorem replica_image_roundtrip_witness:
  "replica_deserialize (replica_serialize sample_replica) = Some sample_replica"
  using replica_image_roundtrip [of sample_replica "[]" sample_replica] sample_replica_ok by simp

text \<open>The serving layer may trust an accepted sidecar blindly: its extents are non-empty, sorted and
  disjoint, each inside the virtual file and inside the overlay file, the virtual file is no shorter than the
  origin, every superseded range is a non-empty range of the origin, and there is one checksum per
  overlay page. No sum in these tests is fooled by wrap-around.\<close>

theorem accepted_replica_is_consistent:
  assumes "replica_deserialize p = Some m"
  shows "rm_originSize m \<le> rm_virtualSize m \<and> sorted_wrt (\<lambda>a b. x_virtOff a + x_len a \<le> x_virtOff b) (rm_extents m) \<and>
    (\<forall>e\<in>set (rm_extents m). 0 < x_len e \<and> x_virtOff e + x_len e \<le> rm_virtualSize m \<and> x_tdataOff e + x_len e \<le> rm_tdataBytes m) \<and>
    (\<forall>r\<in>set (rm_superseded m). 0 < s_len r \<and> s_off r + s_len r \<le> rm_originSize m) \<and>
    length (rm_pageCrcs m) = rm_npages m"
  using replica_geometry [OF assms] replica_decoded(6) [OF assms] by blast

theorem accepted_replica_is_consistent_witness:
  "rm_originSize sample_replica \<le> rm_virtualSize sample_replica \<and> length (rm_pageCrcs sample_replica) = rm_npages sample_replica"
  using accepted_replica_is_consistent [OF replica_deserialize_serialize [OF sample_replica_ok]] by blast

end
