(* ===== verification/Replica_View.thy ===== *)
theory Replica_View
  imports Replica_File Entry_Flush
begin

text \<open>
  The stitched view of a replica (\<^verbatim>\<open>ReplicaView\<close> of \<^verbatim>\<open>src/src/core/ReplicaStore.cc\<close>): splitting a virtual
  range into overlay and origin segments, naming the original ranges a read carried, and the
  checksum-verified read of the overlay. Shown: the segments are, in order and without gap or overlap,
  exactly the bytes of the virtual file; every byte of a successful overlay read comes from a page
  whose checksum the sidecar records; and a read that fails marks the view invalid.
\<close>

section \<open>Segments\<close>

record seg = g_overlay :: bool  g_off :: nat  g_len :: nat  g_tdataOff :: nat

definition mk_seg :: "bool \<Rightarrow> nat \<Rightarrow> nat \<Rightarrow> nat \<Rightarrow> seg" where
  "mk_seg ov off len toff = \<lparr>g_overlay = ov, g_off = off, g_len = len, g_tdataOff = toff\<rparr>"

fun map_loop :: "nat \<Rightarrow> nat \<Rightarrow> extent list \<Rightarrow> seg list" where
  "map_loop pos en [] = (if pos < en then [mk_seg False pos (en - pos) 0] else [])"
| "map_loop pos en (e # es) =
     (if \<not> pos < en then []
      else if x_virtOff e \<ge> en then [mk_seg False pos (en - pos) 0]
      else
        let gap = (if pos < x_virtOff e then [mk_seg False pos (x_virtOff e - pos) 0] else []);
            pos1 = (if pos < x_virtOff e then x_virtOff e else pos);
            segEnd = min en (x_virtOff e + x_len e)
        in if pos1 < segEnd
           then gap @ mk_seg True pos1 (segEnd - pos1) (x_tdataOff e + (pos1 - x_virtOff e)) # map_loop segEnd en es
           else gap @ map_loop pos1 en es)"

text \<open>\<^verbatim>\<open>std::lower_bound\<close> over the sorted extents skips those that end at or before \<open>off\<close>.\<close>

definition view_map :: "replicaMeta \<Rightarrow> nat \<Rightarrow> nat \<Rightarrow> seg list" where
  "view_map m off len =
     (if off \<ge> rm_virtualSize m then []
      else let en = min (u64 (off + len)) (rm_virtualSize m)
           in if en \<le> off then []
              else map_loop off en (dropWhile (\<lambda>e. x_virtOff e + x_len e \<le> off) (rm_extents m)))"

section \<open>Original ranges\<close>

definition passThrough :: "replicaMeta \<Rightarrow> nat \<Rightarrow> nat \<Rightarrow> srange list" where
  "passThrough m a b = (let hi = min b (rm_originSize m) in if hi > a then [\<lparr>s_off = a, s_len = hi - a\<rparr>] else [])"

fun orig_loop :: "replicaMeta \<Rightarrow> nat \<Rightarrow> nat \<Rightarrow> origRange list \<Rightarrow> srange list" where
  "orig_loop m pos en [] = (if pos < en then passThrough m pos en else [])"
| "orig_loop m pos en (r # rs) =
     (if \<not> pos < en then []
      else if o_virtOff r \<ge> en then passThrough m pos en
      else
        let gap = (if pos < o_virtOff r then passThrough m pos (o_virtOff r) else []);
            pos1 = (if pos < o_virtOff r then o_virtOff r else pos);
            segEnd = min en (o_virtOff r + o_len r)
        in if pos1 < segEnd then gap @ \<lparr>s_off = o_origOff r, s_len = o_origLen r\<rparr> # orig_loop m segEnd en rs
           else gap @ orig_loop m pos1 en rs)"

definition originRanges :: "replicaMeta \<Rightarrow> nat \<Rightarrow> nat \<Rightarrow> srange list" where
  "originRanges m off len =
     (if rm_origMap m = [] \<or> len = 0 then []
      else let en = min (u64 (off + len)) (rm_virtualSize m)
           in if en \<le> off then []
              else orig_loop m off en (dropWhile (\<lambda>r. o_virtOff r + o_len r \<le> off) (rm_origMap m)))"

section \<open>The verified read\<close>

text \<open>\<^verbatim>\<open>Histogram::add\<close>: bucket \<open>floor (log2 v)\<close>, the last one open-ended.\<close>

fun ilog2 :: "nat \<Rightarrow> nat" where
  "ilog2 n = (if n \<le> 1 then 0 else Suc (ilog2 (n div 2)))"

definition hist_add :: "nat \<Rightarrow> nat list \<Rightarrow> nat list" where
  "hist_add us h = (let i = (if us \<le> 1 then 0 else ilog2 us); j = (if i \<ge> 40 then 39 else i) in h[j := h ! j + 1])"

record rstats =
  replicaCrcFailures :: nat
  replicaReads :: nat
  replicaReadBytes :: nat
  replicaReadSize :: "nat list"

record rview =
  rv_meta :: replicaMeta
  rv_fd :: nat
  rv_invalid :: bool

fun rv_verify :: "replicaMeta \<Rightarrow> nat list \<Rightarrow> bytes \<Rightarrow> nat \<Rightarrow> nat \<Rightarrow> bool" where
  "rv_verify m [] dst got pos = True"
| "rv_verify m (i # is) dst got pos =
     (let n = rm_pageBytes m i in
      if pos + n > got \<or> crc32c (slice pos n dst) \<noteq> rm_pageCrcs m ! i then False
      else rv_verify m is dst got (pos + n))"

function coalesce_end :: "replicaMeta \<Rightarrow> nat \<Rightarrow> nat \<Rightarrow> nat \<Rightarrow> nat" where
  "coalesce_end m rf rl lst =
     (if rl < lst \<and> rm_runBytes m rf (rl + 1) \<le> kMaxCoalescedRead then coalesce_end m rf (rl + 1) lst else rl)"
  by pat_completeness auto
termination by (relation "measure (\<lambda>(m, rf, rl, lst). lst - rl)") auto

declare coalesce_end.simps [simp del]

lemma coalesce_end_bounds: "rl \<le> coalesce_end m rf rl lst \<and> (rl \<le> lst \<longrightarrow> coalesce_end m rf rl lst \<le> lst)"
proof (induction m rf rl lst rule: coalesce_end.induct)
  case (1 m rf rl lst)
  then show ?case by (auto simp: coalesce_end.simps [of m rf rl lst])
qed

definition note_read :: "nat \<Rightarrow> rstats \<Rightarrow> rstats" where
  "note_read n st = st\<lparr>replicaReads := replicaReads st + 1, replicaReadBytes := replicaReadBytes st + n,
     replicaReadSize := hist_add n (replicaReadSize st)\<rparr>"

function rv_loop :: "nat \<Rightarrow> nat \<Rightarrow> nat \<Rightarrow> nat \<Rightarrow> bytes \<times> io \<times> rview \<times> rstats \<Rightarrow> bool \<times> bytes \<times> io \<times> rview \<times> rstats" where
  "rv_loop toff len rf lst (out, io, v, st) =
     (if rf > lst then (True, out, io, v, st)
      else
        let m = rv_meta v;
            rl = coalesce_end m rf rf lst;
            rStart = rf * kOverlayPageSize;
            rBytes = rm_runBytes m rf rl;
            direct = (rStart \<ge> toff \<and> rStart + rBytes \<le> toff + len)
        in case preadFull io (rv_fd v) rBytes rStart [] of (r, xs, io1) \<Rightarrow>
          let got = (if r > 0 then nat r else 0);
              out1 = (if direct then overwrite out (rStart - toff) xs else out)
          in if \<not> rv_verify m [rf..<Suc rl] xs got 0
             then (False, out1, io1, v\<lparr>rv_invalid := True\<rparr>, st\<lparr>replicaCrcFailures := replicaCrcFailures st + 1\<rparr>)
             else
               let cStart = max toff rStart;
                   cEnd = min (toff + len) (rStart + rBytes);
                   out2 = (if direct then out1 else overwrite out1 (cStart - toff) (slice (cStart - rStart) (cEnd - cStart) xs))
               in rv_loop toff len (rl + 1) lst (out2, io1, v, note_read rBytes st))"
  by pat_completeness auto
termination
proof (relation "measure (\<lambda>(toff, len, rf, lst, s). Suc lst - rf)")
  show "((toff, len, rl + 1, lst, s'), (toff, len, rf, lst, s)) \<in> measure (\<lambda>(toff, len, rf, lst, s). Suc lst - rf)"
    if "\<not> lst < rf" "rl = coalesce_end m rf rf lst" for toff len rl lst rf m and s s' :: "bytes \<times> io \<times> rview \<times> rstats"
    using that coalesce_end_bounds [of rf m rf lst] by auto
qed simp

declare rv_loop.simps [simp del]

definition rv_read :: "nat \<Rightarrow> nat \<Rightarrow> bytes \<times> io \<times> rview \<times> rstats \<Rightarrow> bool \<times> bytes \<times> io \<times> rview \<times> rstats" where
  "rv_read toff len s =
     (case s of (out, io, v, st) \<Rightarrow>
        if len = 0 then (True, s)
        else if u64 (toff + len) < toff \<or> u64 (toff + len) > rm_tdataBytes (rv_meta v)
        then (False, out, io, v\<lparr>rv_invalid := True\<rparr>, st)
        else rv_loop toff len (toff div kOverlayPageSize) ((toff + len - 1) div kOverlayPageSize) s)"

section \<open>The stitched file\<close>

text \<open>The virtual file over the origin's bytes and the overlay's.\<close>

definition in_extent :: "nat \<Rightarrow> extent \<Rightarrow> bool" where
  "in_extent x e \<longleftrightarrow> x_virtOff e \<le> x \<and> x < x_virtOff e + x_len e"

definition virt_byte :: "extent list \<Rightarrow> (nat \<Rightarrow> byte) \<Rightarrow> (nat \<Rightarrow> byte) \<Rightarrow> nat \<Rightarrow> byte" where
  "virt_byte es origin tdata x =
     (case find (in_extent x) es of Some e \<Rightarrow> tdata (x_tdataOff e + (x - x_virtOff e)) | None \<Rightarrow> origin x)"

definition seg_bytes :: "(nat \<Rightarrow> byte) \<Rightarrow> (nat \<Rightarrow> byte) \<Rightarrow> seg \<Rightarrow> bytes" where
  "seg_bytes origin tdata g =
     (if g_overlay g then map (\<lambda>i. tdata (g_tdataOff g + i)) [0..<g_len g] else map origin [g_off g..<g_off g + g_len g])"

lemma map_upt_split: "a \<le> b \<Longrightarrow> b \<le> c \<Longrightarrow> map f [a..<c] = map f [a..<b] @ map f [b..<c]"
  by (metis le_add_diff_inverse map_append upt_add_eq_append)

lemma virt_gap: "(\<And>e. e \<in> set es \<Longrightarrow> \<not> in_extent x e) \<Longrightarrow> virt_byte es og td x = og x"
  by (simp add: virt_byte_def find_None_iff [THEN iffD2])

lemma map_loop_bytes:
  "sorted_wrt (\<lambda>a b. x_virtOff a + x_len a \<le> x_virtOff b) es \<Longrightarrow> (\<forall>e\<in>set es. 0 < x_len e \<and> pos < x_virtOff e + x_len e) \<Longrightarrow> pos \<le> en \<Longrightarrow>
   concat (map (seg_bytes og td) (map_loop pos en es)) = map (virt_byte es og td) [pos..<en]"
proof (induction pos en es rule: map_loop.induct)
  case (1 pos en)
  then show ?case by (auto simp: mk_seg_def seg_bytes_def virt_byte_def)
next
  case (2 pos en e es)
  show ?case
  proof (cases "pos < en \<and> x_virtOff e < en")
    case False
    have n: "\<not> in_extent x f" if "x_virtOff e \<ge> en" "x < en" "f \<in> set (e # es)" for x f
      using that "2.prems"(1) by (fastforce simp: in_extent_def)
    show ?thesis
    proof (cases "pos < en")
      case True
      then have ge: "x_virtOff e \<ge> en" using False by simp
      have "map (virt_byte (e # es) og td) [pos..<en] = map og [pos..<en]"
        by (rule map_cong) (use n [OF ge] in \<open>auto intro!: virt_gap\<close>)
      then show ?thesis using True ge by (simp add: mk_seg_def seg_bytes_def)
    qed (use "2.prems"(3) in simp)
  next
    case True
    define p1 where "p1 = (if pos < x_virtOff e then x_virtOff e else pos)"
    define se where "se = min en (x_virtOff e + x_len e)"
    have e: "0 < x_len e" "pos < x_virtOff e + x_len e" using "2.prems"(2) by simp_all
    have p: "pos \<le> p1" "x_virtOff e \<le> p1" "p1 < se" "se \<le> en" "se \<le> x_virtOff e + x_len e"
      using True e by (auto simp: p1_def se_def)
    have later: "x_virtOff e + x_len e \<le> x_virtOff f" if "f \<in> set es" for f using "2.prems"(1) that by simp
    have nin: "\<not> in_extent x f" if "f \<in> set (e # es)" "x < x_virtOff e" for f x
      using that later [of f] by (auto simp: in_extent_def)
    have gap: "map (virt_byte (e # es) og td) [pos..<p1] = map og [pos..<p1]"
      by (rule map_cong) (use nin in \<open>auto simp: p1_def split: if_splits intro!: virt_gap\<close>)
    have ov: "map (virt_byte (e # es) og td) [p1..<se] = map (\<lambda>i. td (x_tdataOff e + (p1 - x_virtOff e) + i)) [0..<se - p1]"
      by (rule nth_equalityI) (use p in \<open>auto simp: virt_byte_def in_extent_def algebra_simps\<close>)
    have tl: "map (virt_byte (e # es) og td) [se..<en] = map (virt_byte es og td) [se..<en]"
      by (rule map_cong) (use p in \<open>auto simp: virt_byte_def in_extent_def se_def\<close>)
    have IH: "concat (map (seg_bytes og td) (map_loop se en es)) = map (virt_byte es og td) [se..<en]"
    proof (cases "es = [] \<or> se < en")
      case True
      have "\<forall>f\<in>set es. 0 < x_len f \<and> se < x_virtOff f + x_len f" using "2.prems"(2) later p(5) by fastforce
      then show ?thesis
        using "2.IH"(1) [OF _ _ refl p1_def se_def p(3)] "2.prems"(1) p(4) \<open>pos < en \<and> x_virtOff e < en\<close> by simp
    next
      case False
      then have "se = en" using p(4) by simp
      with False show ?thesis by (cases es) simp_all
    qed
    have "map_loop pos en (e # es) = (if pos < x_virtOff e then [mk_seg False pos (x_virtOff e - pos) 0] else []) @
        mk_seg True p1 (se - p1) (x_tdataOff e + (p1 - x_virtOff e)) # map_loop se en es"
      using True p(3) by (auto simp: Let_def p1_def se_def)
    then have "concat (map (seg_bytes og td) (map_loop pos en (e # es))) = map og [pos..<p1] @
        map (\<lambda>i. td (x_tdataOff e + (p1 - x_virtOff e) + i)) [0..<se - p1] @ map (virt_byte es og td) [se..<en]"
      using IH by (auto simp: seg_bytes_def mk_seg_def p1_def)
    then show ?thesis
      using gap ov tl map_upt_split [OF p(1), of en "virt_byte (e # es) og td"] map_upt_split [OF less_imp_le [OF p(3)] p(4), of "virt_byte (e # es) og td"] p
      by simp
  qed
qed

lemma map_loop_inside:
  "(\<forall>e\<in>set es. x_tdataOff e + x_len e \<le> td) \<Longrightarrow> g \<in> set (map_loop pos en es) \<Longrightarrow> g_overlay g \<Longrightarrow> 0 < g_len g \<and> g_tdataOff g + g_len g \<le> td"
proof (induction pos en es rule: map_loop.induct)
  case (2 pos en e es)
  define p1 where "p1 = (if pos < x_virtOff e then x_virtOff e else pos)"
  define se where "se = min en (x_virtOff e + x_len e)"
  have e: "x_tdataOff e + x_len e \<le> td" using "2.prems"(1) by simp
  have c: "pos < en" "x_virtOff e < en" using "2.prems"(2,3) by (auto simp: mk_seg_def split: if_splits)
  have p: "x_virtOff e \<le> p1" "se \<le> x_virtOff e + x_len e" by (auto simp: p1_def se_def)
  have m: "map_loop pos en (e # es) = (if pos < x_virtOff e then [mk_seg False pos (x_virtOff e - pos) 0] else []) @
      (if p1 < se then mk_seg True p1 (se - p1) (x_tdataOff e + (p1 - x_virtOff e)) # map_loop se en es else map_loop p1 en es)"
    using c by (auto simp: Let_def p1_def se_def)
  show ?case
  proof (cases "p1 < se")
    case True
    have "g = mk_seg True p1 (se - p1) (x_tdataOff e + (p1 - x_virtOff e)) \<or> g \<in> set (map_loop se en es)"
      using "2.prems"(2,3) True unfolding m by (auto simp: mk_seg_def split: if_splits)
    then show ?thesis
    proof
      assume "g \<in> set (map_loop se en es)"
      then show ?thesis using "2.IH"(1) [OF _ _ refl p1_def se_def True] c "2.prems"(1,3) by simp
    qed (use True p e in \<open>auto simp: mk_seg_def\<close>)
  next
    case False
    have "g \<in> set (map_loop p1 en es)" using "2.prems"(2,3) False unfolding m by (auto simp: mk_seg_def split: if_splits)
    then show ?thesis using "2.IH"(2) [OF _ _ refl p1_def se_def False] c "2.prems"(1,3) by simp
  qed
qed (auto simp: mk_seg_def split: if_splits)

lemma find_dropWhile: "(\<And>e. P e \<Longrightarrow> \<not> Q e) \<Longrightarrow> find Q (dropWhile P es) = find Q es"
  by (induction es) auto

lemma sorted_dropWhile:
  assumes "sorted_wrt (\<lambda>a b. x_virtOff a + x_len a \<le> x_virtOff b) es" and "\<forall>e\<in>set es. 0 < x_len e"
  shows "\<forall>e\<in>set (dropWhile (\<lambda>e. x_virtOff e + x_len e \<le> off) es). off < x_virtOff e + x_len e"
  using assms
proof (induction es)
  case (Cons a es)
  then show ?case by (cases "x_virtOff a + x_len a \<le> off") fastforce+
qed simp

lemma sorted_wrt_dropWhile: "sorted_wrt R xs \<Longrightarrow> sorted_wrt R (dropWhile P xs)"
  by (metis dropWhile_eq_drop sorted_wrt_drop)

lemma view_map_bytes:
  assumes "replica_deserialize p = Some m" and "off + len < 2 ^ 64"
  shows "concat (map (seg_bytes og td) (view_map m off len)) = map (virt_byte (rm_extents m) og td) [off..<min (off + len) (rm_virtualSize m)]"
    "g \<in> set (view_map m off len) \<Longrightarrow> g_overlay g \<Longrightarrow> 0 < g_len g \<and> g_tdataOff g + g_len g \<le> rm_tdataBytes m"
proof -
  note G = replica_geometry [OF assms(1)]
  let ?P = "\<lambda>e. x_virtOff e + x_len e \<le> off" and ?en = "min (off + len) (rm_virtualSize m)"
  let ?es = "dropWhile ?P (rm_extents m)"
  have u: "u64 (off + len) = off + len" using assms(2) by simp
  have pos: "\<forall>e\<in>set (rm_extents m). 0 < x_len e" using G(3) by blast
  have sub: "set ?es \<subseteq> set (rm_extents m)" by (rule set_dropWhileD [THEN subsetI])
  have all: "\<forall>e\<in>set ?es. 0 < x_len e \<and> off < x_virtOff e + x_len e"
    using sorted_dropWhile [OF G(2) pos, of off] pos sub by blast
  have vb: "map (virt_byte ?es og td) [off..<?en] = map (virt_byte (rm_extents m) og td) [off..<?en]"
    by (rule map_cong) (auto simp: virt_byte_def in_extent_def intro!: arg_cong2 [of _ _ _ _ "\<lambda>a. case_option _ a"]
        simp: find_dropWhile [of ?P "in_extent _"])
  show "concat (map (seg_bytes og td) (view_map m off len)) = map (virt_byte (rm_extents m) og td) [off..<?en]"
    using map_loop_bytes [OF sorted_wrt_dropWhile [OF G(2)] all, of ?en og td] vb by (auto simp: view_map_def u Let_def)
  show "0 < g_len g \<and> g_tdataOff g + g_len g \<le> rm_tdataBytes m" if "g \<in> set (view_map m off len)" "g_overlay g"
    using map_loop_inside [of ?es "rm_tdataBytes m" g off ?en] G(3) sub that by (auto simp: view_map_def u Let_def split: if_splits)
qed

section \<open>The verified read\<close>

abbreviation "OP \<equiv> kOverlayPageSize"

lemma overlay_arith:
  assumes "rm_tdataBytes m < 2 ^ 63" and "i < rm_npages m"
  shows "i * OP < rm_tdataBytes m" "rm_pageBytes m i = min OP (rm_tdataBytes m - i * OP)"
proof -
  have np: "rm_npages m = (rm_tdataBytes m + 65535) div 65536" using assms(1) by (simp add: rm_npages_def kOverlayPageSize_def)
  then show l: "i * OP < rm_tdataBytes m" using assms(2) by (simp add: kOverlayPageSize_def)
  then have u: "u64 (i * OP) = i * OP" "u64 (i * OP + OP) = i * OP + OP" using assms(1) by (simp_all add: kOverlayPageSize_def)
  have "min (i * OP + OP) (rm_tdataBytes m) - i * OP = min OP (rm_tdataBytes m - i * OP)" by simp
  then show "rm_pageBytes m i = min OP (rm_tdataBytes m - i * OP)"
    unfolding rm_pageBytes_def Let_def u using l by (subst sub64_ge) (auto simp: u32n_def kOverlayPageSize_def)
qed

lemma overlay_run:
  assumes "rm_tdataBytes m < 2 ^ 63" and "a \<le> b" and "b < rm_npages m"
  shows "rm_runBytes m a b = min (Suc b * OP) (rm_tdataBytes m) - a * OP"
    "rm_runBytes m a b = (b - a) * OP + rm_pageBytes m b"
proof -
  note A = overlay_arith [OF assms(1,3)]
  have ab: "a * OP \<le> b * OP" using assms(2) by simp
  have small: "b * OP + rm_pageBytes m b < 2 ^ 64" using A assms(1) by (simp add: kOverlayPageSize_def)
  have u: "u64 (b * OP) = b * OP" "u64 (a * OP) = a * OP" "u64 (b * OP + rm_pageBytes m b) = b * OP + rm_pageBytes m b"
    using small order_le_less_trans [OF ab, of "2 ^ 64"] by (simp_all add: u64_def)
  have r: "rm_runBytes m a b = b * OP + rm_pageBytes m b - a * OP"
    unfolding rm_runBytes_def u using order_trans [OF ab le_add1] by (rule sub64_ge)
  then show "rm_runBytes m a b = min (Suc b * OP) (rm_tdataBytes m) - a * OP" using A by (simp add: min_def add.commute)
  show "rm_runBytes m a b = (b - a) * OP + rm_pageBytes m b" using r ab by (simp add: diff_mult_distrib)
qed

lemma full_page: "rm_tdataBytes m < 2 ^ 63 \<Longrightarrow> Suc i < rm_npages m \<Longrightarrow> rm_pageBytes m i = OP"
  using overlay_arith(1) [of m "Suc i"] overlay_arith(2) [of m i] by simp

lemma rv_verify_ok:
  assumes "rm_tdataBytes m < 2 ^ 63" and "n \<le> rm_npages m" and "a \<le> i"
    and "rv_verify m [i..<n] dst got ((i - a) * OP)"
  shows "\<forall>j\<in>{i..<n}. (j - a) * OP + rm_pageBytes m j \<le> got \<and> crc32c (slice ((j - a) * OP) (rm_pageBytes m j) dst) = rm_pageCrcs m ! j"
  using assms
proof (induction "n - i" arbitrary: i)
  case (Suc k)
  have i: "i < n" using Suc.hyps(2) by simp
  have st: "(i - a) * OP + rm_pageBytes m i \<le> got" "crc32c (slice ((i - a) * OP) (rm_pageBytes m i) dst) = rm_pageCrcs m ! i"
      "rv_verify m [Suc i..<n] dst got ((i - a) * OP + rm_pageBytes m i)"
    using Suc.prems(4) i by (auto simp: upt_conv_Cons Let_def split: if_splits)
  have "\<forall>j\<in>{Suc i..<n}. (j - a) * OP + rm_pageBytes m j \<le> got \<and> crc32c (slice ((j - a) * OP) (rm_pageBytes m j) dst) = rm_pageCrcs m ! j"
  proof (cases "Suc i < n")
    case True
    then have "(i - a) * OP + rm_pageBytes m i = (Suc i - a) * OP"
      using full_page [OF assms(1), of i] Suc.prems(2,3) by (simp add: Suc_diff_le)
    then show ?thesis using Suc.hyps(1) [of "Suc i"] Suc.hyps(2) Suc.prems st(3) by simp
  qed simp
  moreover have "{i..<n} = insert i {Suc i..<n}" using i by auto
  ultimately show ?case using st(1,2) by simp
qed simp

text \<open>A page of the overlay whose bytes have the recorded checksum.\<close>

definition overlay_page_ok :: "replicaMeta \<Rightarrow> bytes \<Rightarrow> nat \<Rightarrow> bool" where
  "overlay_page_ok m disk j \<longleftrightarrow> crc32c (slice (j * OP) (rm_pageBytes m j) disk) = rm_pageCrcs m ! j"

lemma rv_run:
  assumes td: "rm_tdataBytes m < 2 ^ 63" and ab: "a \<le> b" "b < rm_npages m"
    and p: "preadFull io fd (rm_runBytes m a b) (a * OP) [] = (r, xs, io1)" and fd: "map_of (io_fds io) fd = Some ino"
    and v: "rv_verify m [a..<Suc b] xs (if r > 0 then nat r else 0) 0"
  shows "xs = slice (a * OP) (rm_runBytes m a b) (content io ino)" "length xs = rm_runBytes m a b" "io_same io io1"
    "\<forall>j\<in>{a..b}. overlay_page_ok m (content io ino) j"
proof -
  note S = preadFull_spec [OF p fd, of]
  have s: "io_same io io1" "xs = slice (a * OP) (length xs) (content io ino)" "length xs \<le> rm_runBytes m a b" "0 \<le> r \<longrightarrow> r = int (length xs)"
    using S by simp_all
  have V: "\<forall>j\<in>{a..<Suc b}. (j - a) * OP + rm_pageBytes m j \<le> (if r > 0 then nat r else 0) \<and>
      crc32c (slice ((j - a) * OP) (rm_pageBytes m j) xs) = rm_pageCrcs m ! j"
    using rv_verify_ok [OF td, of "Suc b" a a xs "if r > 0 then nat r else 0"] ab(2) v by (simp del: upt_Suc)
  have got: "(if r > 0 then nat r else 0) \<le> length xs" using s(4) by (cases "0 \<le> r") auto
  have "rm_runBytes m a b \<le> length xs" using bspec [OF V, of b] ab(1) got overlay_run(2) [OF td ab] by simp
  then show l: "length xs = rm_runBytes m a b" using s(3) by simp
  show xs: "xs = slice (a * OP) (rm_runBytes m a b) (content io ino)" using s(2) l by simp
  show "io_same io io1" by (rule s(1))
  show "\<forall>j\<in>{a..b}. overlay_page_ok m (content io ino) j"
  proof
    fix j assume j: "j \<in> {a..b}"
    then have v: "(j - a) * OP + rm_pageBytes m j \<le> rm_runBytes m a b" "crc32c (slice ((j - a) * OP) (rm_pageBytes m j) xs) = rm_pageCrcs m ! j"
      using bspec [OF V, of j] got l by (auto simp: less_Suc_eq_le)
    have "a * OP + (j - a) * OP = j * OP" using j by (simp add: diff_mult_distrib)
    then have "slice ((j - a) * OP) (rm_pageBytes m j) xs = slice (j * OP) (rm_pageBytes m j) (content io ino)"
      using slice_slice_eq [of "a * OP" "rm_runBytes m a b" "content io ino" xs "(j - a) * OP" "rm_pageBytes m j"] xs v(1) by simp
    then show "overlay_page_ok m (content io ino) j" using v(2) by (simp add: overlay_page_ok_def)
  qed
qed

lemma rv_copy:
  assumes xs: "xs = slice r0 n disk" "length xs = n" and o: "length out = len" and c: "c = max toff r0" "d = min (toff + len) (r0 + n)" "c < d"
    and k: "k < len"
  shows "overwrite out (c - toff) (slice (c - r0) (d - c) xs) ! k =
    (if r0 \<le> toff + k \<and> toff + k < r0 + n then disk ! (toff + k) else out ! k)"
proof -
  have dn: "r0 + n \<le> length disk \<or> n = 0" using xs by (auto simp: slice_def)
  have l: "length (slice (c - r0) (d - c) xs) = d - c" using c xs(2) by auto
  have "k - (c - toff) < d - c" if "c - toff \<le> k" "k < c - toff + (d - c)" using that c by linarith
  moreover have "xs ! i = disk ! (r0 + i)" if "i < n" for i using that xs dn by (auto simp: slice_nth)
  ultimately show ?thesis
    using c k o l xs(2) by (subst nth_overwrite) (auto simp: slice_nth max_def min_def add.commute split: if_splits)
qed

lemma rv_loop_spec:
  assumes "rm_tdataBytes (rv_meta v) < 2 ^ 63" and "toff + len \<le> rm_tdataBytes (rv_meta v)" and "0 < len"
    and "lst = (toff + len - 1) div OP" and "toff div OP \<le> rf" and "length out = len" and "map_of (io_fds io) (rv_fd v) = Some ino"
    and "rv_loop toff len rf lst (out, io, v, st) = (ok, out1, io1, v1, st1)"
  shows "if ok then length out1 = len \<and> v1 = v \<and> io_same io io1 \<and>
      (\<forall>k<len. out1 ! k = (if rf * OP \<le> toff + k then content io ino ! (toff + k) else out ! k)) \<and>
      (\<forall>j\<in>{rf..lst}. overlay_page_ok (rv_meta v) (content io ino) j)
    else rv_invalid v1"
  using assms
proof (induction "Suc lst - rf" arbitrary: rf out io st rule: less_induct)
  case less
  let ?m = "rv_meta v"
  note td = less.prems(1)
  have P: "0 < OP" by (simp add: kOverlayPageSize_def)
  have np: "lst < rm_npages ?m"
  proof -
    have "rm_npages ?m = (rm_tdataBytes ?m + 65535) div 65536" using td by (simp add: rm_npages_def kOverlayPageSize_def)
    moreover have "lst = (toff + len - 1) div 65536" using less.prems(4) by (simp add: kOverlayPageSize_def)
    ultimately show ?thesis using less.prems(2,3) by linarith
  qed
  show ?case
  proof (cases "lst < rf")
    case True
    then have "\<not> rf * OP \<le> toff + k" if "k < len" for k
    proof -
      have "(toff + k) div OP \<le> lst" unfolding less.prems(4) using that by (intro div_le_mono) simp
      then have "(toff + k) div OP < rf" using True by simp
      then show ?thesis using P by (simp add: div_less_iff_less_mult not_le)
    qed
    then show ?thesis using True less.prems(6,8) by (auto simp: rv_loop.simps [of _ _ _ _ out])
  next
    case False
    define rl where "rl = coalesce_end ?m rf rf lst"
    have rl: "rf \<le> rl" "rl \<le> lst" using coalesce_end_bounds [of rf ?m rf lst] False by (auto simp: rl_def)
    define n where "n = rm_runBytes ?m rf rl"
    define r0 where "r0 = rf * OP"
    obtain r xs io2 where p: "preadFull io (rv_fd v) n r0 [] = (r, xs, io2)" by (metis prod_cases3)
    define direct where "direct = (r0 \<ge> toff \<and> r0 + n \<le> toff + len)"
    define o1 where "o1 = (if direct then overwrite out (r0 - toff) xs else out)"
    define c where "c = max toff r0"
    define d where "d = min (toff + len) (r0 + n)"
    define o2 where "o2 = (if direct then o1 else overwrite o1 (c - toff) (slice (c - r0) (d - c) xs))"
    have step: "rv_loop toff len rf lst (out, io, v, st) =
       (if \<not> rv_verify ?m [rf..<Suc rl] xs (if r > 0 then nat r else 0) 0
        then (False, o1, io2, v\<lparr>rv_invalid := True\<rparr>, st\<lparr>replicaCrcFailures := replicaCrcFailures st + 1\<rparr>)
        else rv_loop toff len (rl + 1) lst (o2, io2, v, note_read n st))"
      using False p by (simp add: rv_loop.simps [of _ _ rf] Let_def rl_def n_def r0_def direct_def o1_def o2_def c_def d_def)
    show ?thesis
    proof (cases "rv_verify ?m [rf..<Suc rl] xs (if r > 0 then nat r else 0) 0")
      case bad: False
      then show ?thesis using less.prems(8) step by auto
    next
      case True
      note R = rv_run [OF td rl(1) le_less_trans [OF rl(2) np] p [unfolded n_def r0_def] less.prems(7) True]
      have nb: "n = min (Suc rl * OP) (rm_tdataBytes ?m) - r0" using overlay_run(1) [OF td rl(1)] rl(2) np by (simp add: n_def r0_def)
      have r0td: "r0 < rm_tdataBytes ?m" using overlay_arith(1) [OF td, of rf] rl np by (simp add: r0_def)
      have lo: "toff < r0 + n"
      proof -
        have "toff < Suc (toff div OP) * OP" using P by (simp add: dividend_less_div_times add.commute)
        also have "\<dots> \<le> Suc rl * OP" using less.prems(5) rl(1) by (intro mult_le_mono1) simp
        finally have "toff < Suc rl * OP" .
        moreover have "r0 \<le> Suc rl * OP" unfolding r0_def using rl(1) by (intro mult_le_mono1) simp
        ultimately show ?thesis using less.prems(2,3) r0td nb by simp
      qed
      have hi: "r0 < toff + len"
      proof -
        have "rf \<le> (toff + len - 1) div OP" using rl less.prems(4) by simp
        then have "rf * OP \<le> toff + len - 1" using P by (simp add: less_eq_div_iff_mult_less_eq)
        then show ?thesis using less.prems(3) by (simp add: r0_def)
      qed
      have "r0 < Suc rl * OP" unfolding r0_def using rl(1) P by (intro mult_strict_right_mono) simp_all
      then have "0 < n" using nb r0td by simp
      then have cd: "c < d" using lo hi less.prems(3) by (auto simp: c_def d_def)
      have oeq: "o2 = overwrite out (c - toff) (slice (c - r0) (d - c) xs)"
        using R(2) cd by (auto simp: o2_def o1_def direct_def c_def d_def n_def slice_def)
      have o2: "o2 ! k = (if r0 \<le> toff + k \<and> toff + k < r0 + n then content io ino ! (toff + k) else out ! k)" if "k < len" for k
        using rv_copy [OF R(1) [folded n_def r0_def] R(2) [folded n_def] less.prems(6) c_def d_def cd that] by (simp add: oeq)
      have lo2: "length o2 = len"
        using oeq less.prems(6) cd R(2) by (auto simp: c_def d_def n_def)
      have rec: "rv_loop toff len (rl + 1) lst (o2, io2, v, note_read n st) = (ok, out1, io1, v1, st1)"
        using less.prems(8) step True by simp
      note S = io_sameD [OF R(3)]
      have IH: "if ok then length out1 = len \<and> v1 = v \<and> io_same io2 io1 \<and>
          (\<forall>k<len. out1 ! k = (if (rl + 1) * OP \<le> toff + k then content io2 ino ! (toff + k) else o2 ! k)) \<and>
          (\<forall>j\<in>{rl + 1..lst}. overlay_page_ok ?m (content io2 ino) j) else rv_invalid v1"
        using less.prems(4,5) rl S(3) less.prems(7)
        by (intro less.hyps [of "rl + 1" o2 io2 "note_read n st"] less.prems(1-4) lo2 rec) auto
      have oc: "o2 ! k = (if rf * OP \<le> toff + k then content io ino ! (toff + k) else out ! k)"
        if k: "k < len" "\<not> (rl + 1) * OP \<le> toff + k" for k
      proof -
        have "toff + k < r0 + n" using nb k less.prems(2) r0td by (auto simp: min_def)
        then show ?thesis using o2 [OF k(1)] by (simp add: r0_def)
      qed
      have ge: "rf * OP \<le> toff + k" if "(rl + 1) * OP \<le> toff + k" for k
        using that rl(1) mult_le_mono1 [of rf "rl + 1" OP] by simp
      show ?thesis
      proof (cases ok)
        case True
        have "out1 ! k = (if rf * OP \<le> toff + k then content io ino ! (toff + k) else out ! k)" if "k < len" for k
          using IH True oc [OF that] ge [of k] that S(5) by auto
        moreover have "overlay_page_ok ?m (content io ino) j" if "j \<in> {rf..lst}" for j
          using IH True R(4) S(5) that by (cases "j \<le> rl") auto
        ultimately show ?thesis using IH True io_same_trans [OF R(3)] by auto
      qed (use IH in simp)
    qed
  qed
qed

lemma rv_read_spec:
  assumes "rm_tdataBytes (rv_meta v) < 2 ^ 63" and "toff < 2 ^ 64" and "len < 2 ^ 64" and "length out = len"
    and "map_of (io_fds io) (rv_fd v) = Some ino" and "rv_read toff len (out, io, v, st) = (ok, out1, io1, v1, st1)"
  shows "if ok then v1 = v \<and> io_same io io1 \<and> toff + len \<le> rm_tdataBytes (rv_meta v) \<or> len = 0
    else rv_invalid v1"
    and "ok \<Longrightarrow> length out1 = len \<and> (\<forall>k<len. out1 ! k = content io ino ! (toff + k) \<and>
      overlay_page_ok (rv_meta v) (content io ino) ((toff + k) div OP))"
proof -
  have P: "0 < OP" by (simp add: kOverlayPageSize_def)
  have r: "len = 0 \<or> \<not> toff + len \<le> rm_tdataBytes (rv_meta v) \<or> rv_loop toff len (toff div OP) ((toff + len - 1) div OP) (out, io, v, st) = (ok, out1, io1, v1, st1)"
    using assms(6) u64_end [OF assms(2,3), of "rm_tdataBytes (rv_meta v)"] assms(1) by (auto simp: rv_read_def split: if_splits)
  consider "len = 0" "ok" "out1 = out" "v1 = v" "io1 = io" | "\<not> ok" "rv_invalid v1" | "0 < len" "toff + len \<le> rm_tdataBytes (rv_meta v)"
      "rv_loop toff len (toff div OP) ((toff + len - 1) div OP) (out, io, v, st) = (ok, out1, io1, v1, st1)"
    using assms(6) r u64_end [OF assms(2,3), of "rm_tdataBytes (rv_meta v)"] assms(1) by (auto simp: rv_read_def split: if_splits)
  then have "(if ok then v1 = v \<and> io_same io io1 \<and> toff + len \<le> rm_tdataBytes (rv_meta v) \<or> len = 0 else rv_invalid v1) \<and>
     (ok \<longrightarrow> length out1 = len \<and> (\<forall>k<len. out1 ! k = content io ino ! (toff + k) \<and>
      overlay_page_ok (rv_meta v) (content io ino) ((toff + k) div OP)))"
  proof cases
    case 3
    note L = rv_loop_spec [OF assms(1) 3(2,1) refl order_refl assms(4,5) 3(3)]
    have k: "toff div OP * OP \<le> toff + k" "(toff + k) div OP \<in> {toff div OP..(toff + len - 1) div OP}" if "k < len" for k
      using that div_le_mono [of toff "toff + k" OP] div_le_mono [of "toff + k" "toff + len - 1" OP] div_times_less_eq_dividend [of toff OP]
      by (auto intro: trans_le_add1)
    show ?thesis using L k 3(2) by (auto split: if_splits)
  qed (use assms(4) in auto)
  then show "if ok then v1 = v \<and> io_same io io1 \<and> toff + len \<le> rm_tdataBytes (rv_meta v) \<or> len = 0 else rv_invalid v1"
    and "ok \<Longrightarrow> length out1 = len \<and> (\<forall>k<len. out1 ! k = content io ino ! (toff + k) \<and>
      overlay_page_ok (rv_meta v) (content io ino) ((toff + k) div OP))" by auto
qed

section \<open>Properties\<close>

text \<open>C16. The stitched view is the virtual file. For an accepted sidecar, the segments of a range, each read from
  where it says, give in order exactly the bytes of the virtual file: the overlay's byte where an
  extent covers the offset and the origin's byte elsewhere, with no gap and no byte twice, clamped at the
  virtual size. Every overlay segment is non-empty and lies inside the overlay file.\<close>

theorem stitched_view_is_virtual_file:
  assumes "replica_deserialize p = Some m" and "off + len < 2 ^ 64"
  shows "concat (map (seg_bytes origin tdata) (view_map m off len)) =
      map (virt_byte (rm_extents m) origin tdata) [off..<min (off + len) (rm_virtualSize m)] \<and>
    (\<forall>g\<in>set (view_map m off len). g_overlay g \<longrightarrow> 0 < g_len g \<and> g_tdataOff g + g_len g \<le> rm_tdataBytes m)"
  using view_map_bytes [OF assms] by blast

theorem stitched_view_is_virtual_file_witness:
  "view_map sample_replica 90 200 = [mk_seg False 90 10 0, mk_seg True 100 100 0, mk_seg False 200 90 0] \<and>
   concat (map (seg_bytes (\<lambda>_. 1) (\<lambda>_. 2)) (view_map sample_replica 90 200)) =
     map (virt_byte (rm_extents sample_replica) (\<lambda>_. 1) (\<lambda>_. 2)) [90..<290]"
proof -
  have v: "rm_virtualSize sample_replica = 1300" by (simp add: sample_replica_def)
  have "view_map sample_replica 90 200 = [mk_seg False 90 10 0, mk_seg True 100 100 0, mk_seg False 200 90 0]"
    by (simp add: view_map_def sample_replica_def u64_def Let_def)
  then show ?thesis
    using stitched_view_is_virtual_file [OF replica_deserialize_serialize [OF sample_replica_ok], of 90 200 "\<lambda>_. 1" "\<lambda>_. 2"] v by simp
qed

text \<open>C17. The overlay is never served unverified: every byte of a successful overlay read is the byte of the overlay
  file and lies on a page whose bytes have the checksum the sidecar records, whatever the reads below
  return; a read that does not succeed marks the view invalid.\<close>

theorem overlay_read_verified:
  assumes "rm_tdataBytes (rv_meta v) < 2 ^ 63" and "toff < 2 ^ 64" and "len < 2 ^ 64" and "length out = len"
    and "map_of (io_fds io) (rv_fd v) = Some ino" and "rv_read toff len (out, io, v, st) = (ok, out1, io1, v1, st1)"
  shows "(ok \<longrightarrow> length out1 = len \<and> (\<forall>k<len. out1 ! k = content io ino ! (toff + k) \<and>
      overlay_page_ok (rv_meta v) (content io ino) ((toff + k) div kOverlayPageSize))) \<and> (\<not> ok \<longrightarrow> rv_invalid v1)"
  using rv_read_spec [OF assms] by (auto split: if_splits)

definition sample_view :: rview where
  "sample_view = \<lparr>rv_meta = sample_replica, rv_fd = 5, rv_invalid = False\<rparr>"

theorem overlay_read_verified_witness:
  "\<exists>out1 io1 v1 st1. rv_read 300 200 (replicate 200 0, \<lparr>io_names = [], io_inodes = [], io_fds = [(5, 9)], io_next = 10, io_sched = []\<rparr>,
     sample_view, \<lparr>replicaCrcFailures = 0, replicaReads = 0, replicaReadBytes = 0, replicaReadSize = replicate 40 0\<rparr>)
     = (False, out1, io1, v1, st1) \<and> rv_invalid v1"
proof -
  let ?io = "\<lparr>io_names = [], io_inodes = [], io_fds = [(5, 9)], io_next = 10, io_sched = []\<rparr>"
  let ?st = "\<lparr>replicaCrcFailures = 0, replicaReads = 0, replicaReadBytes = 0, replicaReadSize = replicate 40 0\<rparr>"
  obtain ok out1 io1 v1 st1 where r: "rv_read 300 200 (replicate 200 0, ?io, sample_view, ?st) = (ok, out1, io1, v1, st1)" by (metis prod_cases5)
  have "\<not> ok" using r by (auto simp: rv_read_def sample_view_def sample_replica_def)
  with overlay_read_verified [OF _ _ _ _ _ r, of 9] r show ?thesis by (auto simp: sample_view_def sample_replica_def)
qed

end
