(* ===== verification/Intervals.thy ===== *)
theory Intervals
  imports Prelude "HOL-Library.Product_Lexorder"
begin

text \<open>
  Merging half-open byte ranges, which the request planner and the read map do with the same
  loop over a sorted vector: extend the last run when the next range starts inside it or touches
  it, start a new run otherwise. Shown: the runs cover the same bytes and are separated by gaps.
\<close>

definition add_ival :: "nat \<times> nat \<Rightarrow> (nat \<times> nat) list \<Rightarrow> (nat \<times> nat) list" where
  "add_ival r runs =
     (if runs \<noteq> [] \<and> fst r \<le> snd (last runs)
      then butlast runs @ [(fst (last runs), max (snd (last runs)) (snd r))] else runs @ [r])"

definition merge_ivals :: "(nat \<times> nat) list \<Rightarrow> (nat \<times> nat) list" where
  "merge_ivals rs = fold add_ival rs []"

definition ivals_bytes :: "(nat \<times> nat) list \<Rightarrow> nat set" where
  "ivals_bytes rs = (\<Union>r\<in>set rs. {fst r..<snd r})"

text \<open>Runs in rising order with a gap between neighbours.\<close>

definition separated :: "(nat \<times> nat) list \<Rightarrow> bool" where
  "separated rs \<longleftrightarrow> sorted_wrt (\<lambda>a b. snd a < fst b) rs \<and> (\<forall>r\<in>set rs. fst r \<le> snd r)"

lemma ivals_bytes_simps [simp]:
  "ivals_bytes [] = {}" "ivals_bytes (r # rs) = {fst r..<snd r} \<union> ivals_bytes rs" "ivals_bytes (xs @ ys) = ivals_bytes xs \<union> ivals_bytes ys"
  by (auto simp: ivals_bytes_def)

lemma add_ival_props:
  assumes "separated runs" and "runs \<noteq> [] \<Longrightarrow> fst (last runs) \<le> fst r" and "fst r \<le> snd r"
  shows "separated (add_ival r runs)" "ivals_bytes (add_ival r runs) = ivals_bytes runs \<union> {fst r..<snd r}"
    "add_ival r runs \<noteq> []" "fst (last (add_ival r runs)) \<le> fst r"
proof -
  have "separated (add_ival r runs) \<and> ivals_bytes (add_ival r runs) = ivals_bytes runs \<union> {fst r..<snd r} \<and>
      add_ival r runs \<noteq> [] \<and> fst (last (add_ival r runs)) \<le> fst r"
  proof (cases "runs = []")
    case True
    then show ?thesis using assms(3) by (simp add: add_ival_def separated_def)
  next
    case False
    then obtain bs l where r: "runs = bs @ [l]" by (metis append_butlast_last_id)
    have l: "fst l \<le> fst r" "fst l \<le> snd l" "\<And>b. b \<in> set bs \<Longrightarrow> snd b < fst l" "sorted_wrt (\<lambda>a b. snd a < fst b) bs"
      "\<forall>b\<in>set bs. fst b \<le> snd b"
      using assms(1,2) r by (auto simp: separated_def sorted_wrt_append)
    show ?thesis
      using l assms(3) by (cases "fst r \<le> snd l")
        (auto simp: r add_ival_def separated_def sorted_wrt_append max_def dest: l(3))
  qed
  then show "separated (add_ival r runs)" "ivals_bytes (add_ival r runs) = ivals_bytes runs \<union> {fst r..<snd r}"
    "add_ival r runs \<noteq> []" "fst (last (add_ival r runs)) \<le> fst r" by auto
qed

lemma fold_add_ival:
  "sorted (map fst rs) \<Longrightarrow> (\<forall>r\<in>set rs. fst r \<le> snd r) \<Longrightarrow> separated runs \<Longrightarrow>
   (runs \<noteq> [] \<Longrightarrow> rs \<noteq> [] \<Longrightarrow> fst (last runs) \<le> fst (hd rs)) \<Longrightarrow>
   separated (fold add_ival rs runs) \<and> ivals_bytes (fold add_ival rs runs) = ivals_bytes runs \<union> ivals_bytes rs"
proof (induction rs arbitrary: runs)
  case (Cons r rs)
  have r: "fst r \<le> snd r" "runs \<noteq> [] \<Longrightarrow> fst (last runs) \<le> fst r" using Cons.prems by auto
  note A = add_ival_props [OF Cons.prems(3) r(2,1)]
  have "fst (last (add_ival r runs)) \<le> fst (hd rs)" if "rs \<noteq> []"
    using A(4) Cons.prems(1) that by (cases rs) auto
  with Cons.IH [of "add_ival r runs"] Cons.prems A(1,2) show ?case by auto
qed simp

lemma merge_ivals:
  assumes "sorted (map fst rs)" and "\<forall>r\<in>set rs. fst r \<le> snd r"
  shows "separated (merge_ivals rs)" "ivals_bytes (merge_ivals rs) = ivals_bytes rs"
  using fold_add_ival [OF assms, of "[]"] by (simp_all add: merge_ivals_def separated_def)

lemma sorted_fst_sort: "sorted (map fst (sort (rs :: (nat \<times> nat) list)))"
proof -
  have "sorted_wrt (\<le>) (sort rs)" by simp
  then have "sorted_wrt (\<lambda>a b. fst a \<le> fst b) (sort rs)"
    by (rule sorted_wrt_mono_rel [rotated]) (auto simp: less_eq_prod_def)
  then show ?thesis by (simp add: sorted_map)
qed

lemma ivals_bytes_sort [simp]: "ivals_bytes (sort rs) = ivals_bytes rs"
  by (simp add: ivals_bytes_def)

lemma add_ival_ends:
  "r' \<in> set (add_ival r runs) \<Longrightarrow> fst r' \<in> insert (fst r) (fst ` set runs) \<and> snd r' \<in> insert (snd r) (snd ` set runs)"
proof (cases "runs = []")
  case False
  assume "r' \<in> set (add_ival r runs)"
  moreover have "last runs \<in> set runs" "set (butlast runs) \<subseteq> set runs" using False in_set_butlastD by auto
  ultimately show ?thesis by (auto simp: add_ival_def max_def split: if_splits)
qed (simp add: add_ival_def)

lemma merge_ends: "r' \<in> set (merge_ivals rs) \<Longrightarrow> fst r' \<in> fst ` set rs \<and> snd r' \<in> snd ` set rs"
proof -
  have "r' \<in> set (fold add_ival rs runs) \<Longrightarrow> fst r' \<in> fst ` set rs \<union> fst ` set runs \<and> snd r' \<in> snd ` set rs \<union> snd ` set runs" for runs
  proof (induction rs arbitrary: runs)
    case (Cons r rs)
    have i: "fst r' \<in> fst ` set rs \<union> fst ` set (add_ival r runs)" "snd r' \<in> snd ` set rs \<union> snd ` set (add_ival r runs)"
      using Cons.IH [of "add_ival r runs"] Cons.prems by simp_all
    have s: "fst ` set (add_ival r runs) \<subseteq> insert (fst r) (fst ` set runs)" "snd ` set (add_ival r runs) \<subseteq> insert (snd r) (snd ` set runs)"
      using add_ival_ends [of _ r runs] by blast+
    show ?case using i subsetD [OF s(1)] subsetD [OF s(2)] by auto
  qed simp
  from this [of "[]"] show "r' \<in> set (merge_ivals rs) \<Longrightarrow> fst r' \<in> fst ` set rs \<and> snd r' \<in> snd ` set rs" by (simp add: merge_ivals_def)
qed

end
