(* ===== verification/Origin_Plan.thy ===== *)
theory Origin_Plan
  imports Intervals Settings
begin

text \<open>
  What is asked of the origin: the page rounding of a request and the cut of a run into legal
  vector-read elements (\<^verbatim>\<open>src/src/plugin/ReadRounding.h\<close>), the plan of a vector read of missing
  chunks (\<^verbatim>\<open>issueMissVRead\<close> of \<^verbatim>\<open>UCacheFile.cc\<close>, up to the call into XrdCl), the open-retry policy
  (\<^verbatim>\<open>OpenRetry.cc\<close>) with the bounded synchronous retry that uses it, and the guard that counts
  origin reads (\<^verbatim>\<open>OriginInFlight.h\<close>).
\<close>

section \<open>Rounding and cutting\<close>

definition kMaxReadvElem :: nat where "kMaxReadvElem = 2 * 1024 * 1024 - 16"

definition roundSpan :: "nat \<Rightarrow> nat \<Rightarrow> nat \<Rightarrow> nat \<Rightarrow> nat \<times> nat" where
  "roundSpan P fileSize off len =
     (let start = off div P * P;
          en = min (u64 (off + len + P - 1) div P * P) fileSize
      in if en \<le> start then (off, u64 (off + len))
         else if en - start > 2 ^ 32 - 1 then (off, u64 (off + len))
         else (start, en))"

definition readvElemEnd :: "nat \<Rightarrow> nat \<Rightarrow> nat \<Rightarrow> nat" where
  "readvElemEnd start en P =
     (if sub64 en start \<le> kMaxReadvElem then en
      else
        let cut0 = u64 (start + kMaxReadvElem);
            cut1 = cut0 - cut0 mod P;
            cut = (if cut1 \<le> start then u64 (start + P) else cut1)
        in min cut en)"

text \<open>The loop that cuts a run \<open>[s, en)\<close> into elements. \<open>None\<close> is a loop that does not end.\<close>

partial_function (option) cut_run :: "nat \<Rightarrow> nat \<Rightarrow> nat \<Rightarrow> (nat \<times> nat) list option" where
  "cut_run P s en =
     (if s < en
      then (let cut = readvElemEnd s en P in Option.bind (cut_run P cut en) (\<lambda>rest. Some ((s, cut) # rest)))
      else Some [])"

section \<open>The plan of a vector read\<close>

text \<open>A chunk is an offset and a length; \<open>direct\<close> tells whether the read rule reads the chunk's bytes
  straight from the origin, exactly as asked.\<close>

definition chunk_ival :: "nat \<Rightarrow> nat \<Rightarrow> (nat \<Rightarrow> nat \<Rightarrow> bool) \<Rightarrow> nat \<times> nat \<Rightarrow> nat \<times> nat" where
  "chunk_ival P fileSize direct c =
     (if direct (fst c) (snd c) then (fst c, u64 (fst c + snd c)) else roundSpan P fileSize (fst c) (snd c))"

definition plan_runs :: "nat \<Rightarrow> nat \<Rightarrow> (nat \<Rightarrow> nat \<Rightarrow> bool) \<Rightarrow> (nat \<times> nat) list \<Rightarrow> nat list \<Rightarrow> (nat \<times> nat) list" where
  "plan_runs P fileSize direct chunks missIdx =
     merge_ivals (sort (map (\<lambda>i. chunk_ival P fileSize direct (chunks ! i)) missIdx))"

definition plan_wire :: "nat \<Rightarrow> nat \<Rightarrow> (nat \<Rightarrow> nat \<Rightarrow> bool) \<Rightarrow> (nat \<times> nat) list \<Rightarrow> nat list \<Rightarrow> (nat \<times> nat) list option" where
  "plan_wire P fileSize direct chunks missIdx =
     map_option concat (those (map (\<lambda>(s, e). cut_run P s e) (plan_runs P fileSize direct chunks missIdx)))"

section \<open>Open retry\<close>

definition isRetryableOpen :: "int \<Rightarrow> int \<Rightarrow> bool" where
  "isRetryableOpen statusCode errNo \<longleftrightarrow>
     (if statusCode \<in> {108, 102, 103, 206, 208} then True
      else if statusCode = 400 then errNo \<in> {3018, 3012, 3005, 3007, 3014, 3017, 3003, 3024}
      else False)"

primrec double_until :: "nat \<Rightarrow> nat \<Rightarrow> nat \<Rightarrow> nat" where
  "double_until 0 cap bound = bound"
| "double_until (Suc n) cap bound = (if bound \<ge> cap then bound else double_until n cap (u64 (bound * 2)))"

definition backoffBoundMs :: "int \<Rightarrow> config \<Rightarrow> nat" where
  "backoffBoundMs attempt cfg =
     (let base = (if c_openRetryBaseMs cfg > 0 then nat (c_openRetryBaseMs cfg) else 0);
          cap = (if c_openRetryMaxMs cfg > 0 then nat (c_openRetryMaxMs cfg) else 0);
          a = (if attempt < 1 then 1 else attempt)
      in min (double_until (nat (a - 1)) cap base) cap)"

text \<open>The draw is a parameter: any value the uniform distribution over \<open>[0, bound]\<close> may give.\<close>

definition backoffMs :: "(nat \<Rightarrow> nat) \<Rightarrow> int \<Rightarrow> config \<Rightarrow> nat" where
  "backoffMs draw attempt cfg = (let bound = backoffBoundMs attempt cfg in if bound = 0 then 0 else draw bound)"

text \<open>The synchronous retry of a lazy open. \<open>opens k\<close> is what the \<open>k\<close>-th open of the handle answers: nothing on success,
  the status code and error number otherwise. The result is the last answer, the opens made so far, the retries
  counted and the time slept.\<close>

function lazy_retry :: "(nat \<Rightarrow> (int \<times> int) option) \<Rightarrow> (nat \<Rightarrow> nat) \<Rightarrow> config \<Rightarrow> int \<Rightarrow> (int \<times> int) option \<Rightarrow> nat \<Rightarrow> nat \<Rightarrow> nat
    \<Rightarrow> (int \<times> int) option \<times> nat \<times> nat \<times> nat \<times> int" where
  "lazy_retry opens draw cfg retry s made retries slept =
     (case s of
        Some (code, err) \<Rightarrow>
          if retry \<le> c_openRetries cfg \<and> isRetryableOpen code err
          then lazy_retry opens draw cfg (retry + 1) (opens (made + 1)) (made + 1) (retries + 1) (slept + backoffMs draw retry cfg)
          else (s, made, retries, slept, retry)
      | None \<Rightarrow> (s, made, retries, slept, retry))"
  by pat_completeness auto
termination
  by (relation "measure (\<lambda>(opens, draw, cfg, retry, s, made, retries, slept). nat (c_openRetries cfg + 1 - retry))") auto

declare lazy_retry.simps [simp del]

text \<open>The open with its retries: the outcome, the opens made, the retries counted, the time slept and whether
  \<^verbatim>\<open>openRetriesExhausted\<close> is counted.\<close>

definition lazy_open :: "(nat \<Rightarrow> (int \<times> int) option) \<Rightarrow> (nat \<Rightarrow> nat) \<Rightarrow> config \<Rightarrow> nat \<Rightarrow> (int \<times> int) option \<times> nat \<times> nat \<times> nat \<times> bool" where
  "lazy_open opens draw cfg made =
     (case lazy_retry opens draw cfg 1 (opens (made + 1)) (made + 1) 0 0 of
        (s, made1, retries, slept, retry) \<Rightarrow> (s, made1, retries, slept, s \<noteq> None \<and> retry > 1))"

text \<open>The lazily opened handle: its latches, the time and the error of the last failed open, and the opens made so far.\<close>

record lazy_handle =
  innerOpened :: bool
  innerOpenOk :: bool
  lazyOpenFailUs :: nat
  lazyOpenError :: "(int \<times> int) option"
  lazyOpenAttempt :: nat

definition kLazyOpenRetryCooldownUs :: nat where "kLazyOpenRetryCooldownUs = 1000000"

text \<open>\<open>now\<close> and \<open>later\<close> are the clock on entry and after the last open. The fresh \<^verbatim>\<open>XrdCl::File\<close> installed after a failure is part
  of \<open>opens\<close>. The counters are the retries and whether they were exhausted.\<close>

definition ensureInnerOpen :: "(nat \<Rightarrow> (int \<times> int) option) \<Rightarrow> (nat \<Rightarrow> nat) \<Rightarrow> config \<Rightarrow> nat \<Rightarrow> nat \<Rightarrow> lazy_handle
    \<Rightarrow> bool \<times> lazy_handle \<times> nat \<times> bool" where
  "ensureInnerOpen opens draw cfg now later h =
     (if innerOpened h then (innerOpenOk h, h, 0, False)
      else if lazyOpenFailUs h \<noteq> 0 \<and> sub64 now (lazyOpenFailUs h) < kLazyOpenRetryCooldownUs then (False, h, 0, False)
      else
        case lazy_open opens draw cfg (lazyOpenAttempt h) of
          (s, made, retries, slept, exhausted) \<Rightarrow>
            let h1 = h\<lparr>lazyOpenAttempt := made, innerOpenOk := (s = None)\<rparr>
            in if s = None then (True, h1\<lparr>innerOpened := True, lazyOpenFailUs := 0\<rparr>, retries, exhausted)
               else (False, h1\<lparr>lazyOpenError := s, lazyOpenFailUs := later\<rparr>, retries, exhausted))"

text \<open>\<^verbatim>\<open>missError\<close>: the origin's own error, or \<^verbatim>\<open>errInvalidOp\<close> (nothing).\<close>

definition missError :: "lazy_handle \<Rightarrow> (int \<times> int) option" where
  "missError h = (if lazyOpenFailUs h \<noteq> 0 \<and> lazyOpenError h \<noteq> None then lazyOpenError h else None)"

section \<open>Reads in flight at the origin\<close>

record inflight =
  originReadsInFlight :: nat
  originReadsInFlightHighWater :: nat

text \<open>A guard holds one read or none. A guard constructed without statistics holds none; moving one onto itself does nothing.\<close>

definition guard_take :: "bool \<Rightarrow> inflight \<Rightarrow> bool \<times> inflight" where
  "guard_take st s =
     (if \<not> st then (False, s)
      else
        let n = originReadsInFlight s + 1
        in (True, s\<lparr>originReadsInFlight := n,
             originReadsInFlightHighWater := (if n > originReadsInFlightHighWater s then n else originReadsInFlightHighWater s)\<rparr>))"

definition guard_release :: "bool \<Rightarrow> inflight \<Rightarrow> bool \<times> inflight" where
  "guard_release held s = (False, if held then s\<lparr>originReadsInFlight := originReadsInFlight s - 1\<rparr> else s)"

definition guard_move :: "bool \<Rightarrow> bool \<Rightarrow> inflight \<Rightarrow> bool \<times> bool \<times> inflight" where
  "guard_move this other s = (other, False, if this then s\<lparr>originReadsInFlight := originReadsInFlight s - 1\<rparr> else s)"

text \<open>The guards a process has made, and what may happen to them next.\<close>

datatype guard_op = Take bool | Release nat | Move nat nat

fun guard_step :: "guard_op \<Rightarrow> bool list \<times> inflight \<Rightarrow> bool list \<times> inflight" where
  "guard_step (Take st) (gs, s) = (case guard_take st s of (g, s') \<Rightarrow> (gs @ [g], s'))"
| "guard_step (Release i) (gs, s) = (if i < length gs then (case guard_release (gs ! i) s of (g, s') \<Rightarrow> (gs[i := g], s')) else (gs, s))"
| "guard_step (Move i j) (gs, s) =
     (if i < length gs \<and> j < length gs \<and> i \<noteq> j
      then (case guard_move (gs ! i) (gs ! j) s of (g, h, s') \<Rightarrow> (gs[i := g, j := h], s')) else (gs, s))"

definition guards_counted :: "bool list \<times> inflight \<Rightarrow> bool" where
  "guards_counted p \<longleftrightarrow> originReadsInFlight (snd p) = count_list (fst p) True \<and>
     originReadsInFlight (snd p) \<le> originReadsInFlightHighWater (snd p)"

section \<open>Rounding\<close>

lemma ceil_mult_ge: "0 < P \<Longrightarrow> x \<le> (x + P - 1) div P * (P :: nat)"
  using ceil_div_mult_ge [of P x] by (simp add: ceil_div_def)

lemma roundSpan_cases:
  assumes P: "0 < P" "P < 2 ^ 32" and s: "off + len + P \<le> 2 ^ 64" "0 < len"
  shows "roundSpan P fs off len = (off, off + len) \<or>
    (\<exists>a b. roundSpan P fs off len = (a, b) \<and> P dvd a \<and> (P dvd b \<or> b = fs) \<and> a \<le> off \<and> min (off + len) fs \<le> b \<and> a < b \<and> b \<le> fs \<and>
       b < off + len + P \<and> off < a + P)"
proof -
  let ?a = "off div P * P" and ?c = "(off + len + P - 1) div P * P"
  have u: "u64 (off + len + P - 1) = off + len + P - 1" "u64 (off + len) = off + len" using s P by simp_all
  have c: "off + len \<le> ?c" "?c < off + len + P"
    using ceil_mult_ge [OF P(1), of "off + len"] le_less_trans [OF div_times_less_eq_dividend [of "off + len + P - 1" P]] P(1) by simp_all
  have a: "?a \<le> off" "off < ?a + P" using P(1) div_times_less_eq_dividend [of off P] dividend_less_div_times [of P off] by (simp_all add: add.commute)
  define A where "A = ?a"
  define C where "C = ?c"
  have r: "roundSpan P fs off len = (if min C fs \<le> A then (off, off + len) else if min C fs - A > 2 ^ 32 - 1 then (off, off + len) else (A, min C fs))"
    unfolding roundSpan_def Let_def u A_def C_def by simp
  have "P dvd A" "P dvd C" by (simp_all add: A_def C_def)
  then show ?thesis
    unfolding r using a c unfolding A_def [symmetric] C_def [symmetric] by (auto simp: min_def)
qed

lemma roundSpan_le:
  assumes "0 < P" "P < 2 ^ 32" "off + len + P \<le> 2 ^ 64" "0 < len"
  shows "fst (roundSpan P fs off len) \<le> snd (roundSpan P fs off len)" "snd (roundSpan P fs off len) < off + len + P"
    "{off..<min (off + len) fs} \<subseteq> {fst (roundSpan P fs off len)..<snd (roundSpan P fs off len)}"
  using roundSpan_cases [OF assms, of fs] assms(1) by (elim disjE exE; force)+

section \<open>Cutting\<close>

lemma readvElemEnd_moves:
  assumes "s < en" and "en < 2 ^ 63" and "0 < P" and "P < 2 ^ 32"
  shows "s < readvElemEnd s en P" "readvElemEnd s en P \<le> en"
    "P \<le> kMaxReadvElem \<Longrightarrow> readvElemEnd s en P = en \<or> P dvd readvElemEnd s en P"
    "P \<le> kMaxReadvElem \<Longrightarrow> readvElemEnd s en P - s \<le> kMaxReadvElem"
proof -
  let ?c0 = "s + kMaxReadvElem"
  let ?c1 = "?c0 - ?c0 mod P"
  have u: "u64 ?c0 = ?c0" "u64 (s + P) = s + P" using assms by (simp_all add: kMaxReadvElem_def)
  have d: "P dvd ?c1" by (simp add: dvd_minus_mod)
  have c1: "?c1 \<le> ?c0" by simp
  have e: "readvElemEnd s en P = (if en - s \<le> kMaxReadvElem then en else min (if ?c1 \<le> s then s + P else ?c1) en)"
    using assms(1) by (simp add: readvElemEnd_def Let_def u)
  show "s < readvElemEnd s en P" "readvElemEnd s en P \<le> en" unfolding e using assms(1,3) by auto
  have small: "?c1 \<le> s \<Longrightarrow> kMaxReadvElem < P" using mod_less_divisor [OF assms(3), of ?c0] by linarith
  show "P \<le> kMaxReadvElem \<Longrightarrow> readvElemEnd s en P = en \<or> P dvd readvElemEnd s en P" unfolding e using d small by (auto simp: min_def)
  show "P \<le> kMaxReadvElem \<Longrightarrow> readvElemEnd s en P - s \<le> kMaxReadvElem" unfolding e using small c1 by (auto simp: min_def)
qed

text \<open>Pieces of a run: back to back, non-empty, legal, and cut on page boundaries.\<close>

definition pieces :: "nat \<Rightarrow> nat \<Rightarrow> nat \<Rightarrow> (nat \<times> nat) list \<Rightarrow> bool" where
  "pieces P s en ps \<longleftrightarrow> ivals_bytes ps = {s..<en} \<and> sorted_wrt (\<lambda>a b. snd a \<le> fst b) ps \<and>
     (\<forall>(a, b)\<in>set ps. s \<le> a \<and> a < b \<and> b \<le> en \<and> b - a \<le> kMaxReadvElem \<and> (a = s \<or> P dvd a) \<and> (b = en \<or> P dvd b))"

lemma cut_run_pieces:
  assumes "en < 2 ^ 63" and "0 < P" and "P \<le> kMaxReadvElem"
  shows "\<exists>ps. cut_run P s en = Some ps \<and> pieces P s en ps"
proof (induction "en - s" arbitrary: s rule: less_induct)
  case less
  show ?case
  proof (cases "s < en")
    case False
    then show ?thesis by (simp add: cut_run.simps [of P s] pieces_def)
  next
    case True
    have P: "P < 2 ^ 32" using assms(3) by (simp add: kMaxReadvElem_def)
    define c where "c = readvElemEnd s en P"
    note R = readvElemEnd_moves [OF True assms(1,2) P, folded c_def]
    have "en - c < en - s" using R(1) True by simp
    from less [OF this] obtain ps where ps: "cut_run P c en = Some ps" "pieces P c en ps" by blast
    have "cut_run P s en = Some ((s, c) # ps)" using True ps(1) by (simp add: cut_run.simps [of P s] c_def [symmetric])
    moreover have "pieces P s en ((s, c) # ps)"
    proof -
      have d: "c = en \<or> P dvd c" using R(3) assms(3) by blast
      have p: "ivals_bytes ps = {c..<en}" "sorted_wrt (\<lambda>a b. snd a \<le> fst b) ps"
          "c \<le> fst r \<and> fst r < snd r \<and> snd r \<le> en \<and> snd r - fst r \<le> kMaxReadvElem \<and> (fst r = c \<or> P dvd fst r) \<and> (snd r = en \<or> P dvd snd r)"
          if "r \<in> set ps" for r
        using ps(2) that by (fastforce simp: pieces_def)+
      have q: "s \<le> fst r \<and> fst r < snd r \<and> snd r \<le> en \<and> snd r - fst r \<le> kMaxReadvElem \<and> (fst r = s \<or> P dvd fst r) \<and> (snd r = en \<or> P dvd snd r)"
          if "r \<in> set ((s, c) # ps)" for r
      proof (cases "r = (s, c)")
        case True
        then show ?thesis using R(1,2) R(4) [OF assms(3)] d by simp
      next
        case False
        then have "r \<in> set ps" using that by simp
        from p(3) [OF this] show ?thesis using d R(1) by auto
      qed
      have "ivals_bytes ((s, c) # ps) = {s..<en}" using ps(2) R(1,2) by (auto simp: pieces_def)
      moreover have "sorted_wrt (\<lambda>a b. snd a \<le> fst b) ((s, c) # ps)" using ps(2) by (fastforce simp: pieces_def)
      ultimately show ?thesis unfolding pieces_def using q by fastforce
    qed
    ultimately show ?thesis by blast
  qed
qed

section \<open>The plan\<close>

lemma those_map: "(\<And>x. x \<in> set xs \<Longrightarrow> f x = Some (g x)) \<Longrightarrow> those (map f xs) = Some (map g xs)"
  by (induction xs) auto

text \<open>The requests of a vector read: inside the address range, so that no sum wraps.\<close>

definition chunk_ok :: "nat \<Rightarrow> nat \<times> nat \<Rightarrow> bool" where
  "chunk_ok P c \<longleftrightarrow> 0 < snd c \<and> fst c + snd c + P < 2 ^ 63"

lemma chunk_ival_bounds:
  assumes "0 < P" "P \<le> kMaxReadvElem" "chunk_ok P c"
  shows "fst (chunk_ival P fs direct c) \<le> snd (chunk_ival P fs direct c)" "snd (chunk_ival P fs direct c) < 2 ^ 63"
    "{fst c..<min (fst c + snd c) fs} \<subseteq> {fst (chunk_ival P fs direct c)..<snd (chunk_ival P fs direct c)}"
proof -
  have c: "0 < P" "P < 2 ^ 32" "fst c + snd c + P \<le> 2 ^ 64" "0 < snd c"
    using assms by (auto simp: chunk_ok_def kMaxReadvElem_def)
  note R = roundSpan_le [OF c, of fs]
  have u: "u64 (fst c + snd c) = fst c + snd c" using c by simp
  show "fst (chunk_ival P fs direct c) \<le> snd (chunk_ival P fs direct c)" "snd (chunk_ival P fs direct c) < 2 ^ 63"
    "{fst c..<min (fst c + snd c) fs} \<subseteq> {fst (chunk_ival P fs direct c)..<snd (chunk_ival P fs direct c)}"
    using R u assms(3) by (auto simp: chunk_ival_def chunk_ok_def)
qed

lemma plan_runs_spec:
  assumes "0 < P" "P \<le> kMaxReadvElem" "\<forall>i\<in>set idx. chunk_ok P (chunks ! i)"
  shows "separated (plan_runs P fs direct chunks idx)"
    "ivals_bytes (plan_runs P fs direct chunks idx) = (\<Union>i\<in>set idx. {fst (chunk_ival P fs direct (chunks ! i))..<snd (chunk_ival P fs direct (chunks ! i))})"
    "r \<in> set (plan_runs P fs direct chunks idx) \<Longrightarrow> snd r < 2 ^ 63"
proof -
  let ?iv = "\<lambda>i. chunk_ival P fs direct (chunks ! i)"
  have b: "\<forall>r\<in>set (sort (map ?iv idx)). fst r \<le> snd r" using chunk_ival_bounds(1) [OF assms(1,2)] assms(3) by auto
  note M = merge_ivals [OF sorted_fst_sort b]
  show "separated (plan_runs P fs direct chunks idx)" using M(1) by (simp add: plan_runs_def)
  show "ivals_bytes (plan_runs P fs direct chunks idx) = (\<Union>i\<in>set idx. {fst (?iv i)..<snd (?iv i)})"
    using M(2) by (auto simp: plan_runs_def ivals_bytes_def)
  show "snd r < 2 ^ 63" if "r \<in> set (plan_runs P fs direct chunks idx)"
  proof -
    have "snd r \<in> snd ` set (map ?iv idx)" using merge_ends [of r "sort (map ?iv idx)"] that by (simp add: plan_runs_def)
    then obtain i where i: "i \<in> set idx" "snd r = snd (?iv i)" by auto
    show ?thesis unfolding i(2) by (rule chunk_ival_bounds(2) [OF assms(1,2)]) (use i(1) assms(3) in blast)
  qed
qed

text \<open>The pieces of separated runs, one run after the other.\<close>

lemma concat_pieces:
  assumes "separated runs" and "\<And>r. r \<in> set runs \<Longrightarrow> pieces P (fst r) (snd r) (g r)"
  shows "ivals_bytes (concat (map g runs)) = ivals_bytes runs \<and> sorted_wrt (\<lambda>a b. snd a \<le> fst b) (concat (map g runs))"
  using assms
proof (induction runs)
  case (Cons r runs)
  have s: "separated runs" "\<And>q. q \<in> set runs \<Longrightarrow> snd r < fst q" "fst r \<le> snd r" using Cons.prems(1) by (auto simp: separated_def)
  have p: "pieces P (fst r) (snd r) (g r)" "\<And>q. q \<in> set runs \<Longrightarrow> pieces P (fst q) (snd q) (g q)" using Cons.prems(2) by simp_all
  note IH = Cons.IH [OF s(1) p(2)]
  have "ivals_bytes (concat (map g (r # runs))) = ivals_bytes (r # runs)"
    using IH p(1) by (simp add: pieces_def)
  moreover have "snd a \<le> fst b" if a: "a \<in> set (g r)" and b: "b \<in> set (concat (map g runs))" for a b
  proof -
    obtain q where q: "q \<in> set runs" "b \<in> set (g q)" using b by auto
    have "snd a \<le> snd r" using p(1) a by (fastforce simp: pieces_def)
    also have "\<dots> < fst q" by (rule s(2) [OF q(1)])
    also have "\<dots> \<le> fst b" using p(2) [OF q(1)] q(2) by (fastforce simp: pieces_def)
    finally show ?thesis by simp
  qed
  then have "sorted_wrt (\<lambda>a b. snd a \<le> fst b) (concat (map g (r # runs)))"
    using IH p(1) by (simp add: sorted_wrt_append pieces_def)
  ultimately show ?case ..
qed simp

lemma plan_wire_spec:
  assumes "0 < P" "P \<le> kMaxReadvElem" "\<forall>i\<in>set idx. chunk_ok P (chunks ! i)"
  shows "\<exists>g. plan_wire P fs direct chunks idx = Some (concat (map g (plan_runs P fs direct chunks idx))) \<and>
    (\<forall>r\<in>set (plan_runs P fs direct chunks idx). pieces P (fst r) (snd r) (g r))"
proof -
  let ?rs = "plan_runs P fs direct chunks idx"
  define g where "g r = the (cut_run P (fst r) (snd r))" for r
  have c: "cut_run P (fst r) (snd r) = Some (g r) \<and> pieces P (fst r) (snd r) (g r)" if "r \<in> set ?rs" for r
    using cut_run_pieces [OF plan_runs_spec(3) [OF assms that] assms(1,2), of "fst r"] by (auto simp: g_def)
  have "those (map (\<lambda>(s, e). cut_run P s e) ?rs) = Some (map g ?rs)"
    by (rule those_map) (use c in \<open>auto simp: case_prod_beta\<close>)
  then show ?thesis using c by (auto simp: plan_wire_def)
qed

section \<open>Retries\<close>

lemma double_until_le_cap:
  assumes "cap < 2 ^ 63"
  shows "min (double_until n cap b) cap = min (b * 2 ^ n) cap"
proof (induction n arbitrary: b)
  case (Suc n)
  show ?case
  proof (cases "b \<ge> cap")
    case True
    have "b * 1 \<le> b * 2 ^ Suc n" by (rule mult_le_mono2) simp
    then have "b * 2 ^ Suc n \<ge> cap" using True by linarith
    then show ?thesis using True by simp
  next
    case False
    then have "u64 (b * 2) = b * 2" using assms by simp
    then show ?thesis using False Suc.IH [of "b * 2"] by (simp add: mult.assoc)
  qed
qed simp

lemma backoffBoundMs_closed:
  assumes "c_openRetryMaxMs cfg < 2 ^ 31"
  shows "backoffBoundMs attempt cfg = min (nat (c_openRetryBaseMs cfg) * 2 ^ nat (attempt - 1)) (nat (c_openRetryMaxMs cfg))"
proof -
  have "nat (c_openRetryMaxMs cfg) < 2 ^ 63" using assms by simp
  from double_until_le_cap [OF this] show ?thesis by (simp add: backoffBoundMs_def Let_def)
qed

lemma backoffMs_le:
  assumes "\<And>b. draw b \<le> b"
  shows "backoffMs draw attempt cfg \<le> nat (c_openRetryMaxMs cfg)"
proof -
  have "backoffMs draw attempt cfg \<le> backoffBoundMs attempt cfg" using assms by (simp add: backoffMs_def Let_def)
  also have "\<dots> \<le> nat (c_openRetryMaxMs cfg)" by (simp add: backoffBoundMs_def Let_def)
  finally show ?thesis .
qed

text \<open>Whether an answer is a failure worth another open.\<close>

definition retryable :: "(int \<times> int) option \<Rightarrow> bool" where
  "retryable s \<longleftrightarrow> (case s of Some (code, err) \<Rightarrow> isRetryableOpen code err | None \<Rightarrow> False)"

lemma lazy_retry_step:
  "lazy_retry opens draw cfg retry s made retries slept =
     (if retry \<le> c_openRetries cfg \<and> retryable s
      then lazy_retry opens draw cfg (retry + 1) (opens (made + 1)) (made + 1) (retries + 1) (slept + backoffMs draw retry cfg)
      else (s, made, retries, slept, retry))"
  by (subst lazy_retry.simps) (auto simp: retryable_def split: option.splits)

lemma lazy_retry_counts:
  assumes "\<And>b. draw b \<le> b" and "s = opens made" and "retry \<ge> 1" and "int retries = retry - 1"
    and "slept \<le> retries * nat (c_openRetryMaxMs cfg)"
    and "lazy_retry opens draw cfg retry s made retries slept = (s', made', retries', slept', retry')"
  shows "s' = opens made' \<and> made' + retries = made + retries' \<and> retries \<le> retries' \<and> int retries' = retry' - 1 \<and>
    int retries' \<le> max (int retries) (c_openRetries cfg) \<and> slept' \<le> retries' * nat (c_openRetryMaxMs cfg) \<and>
    (\<forall>j. made \<le> j \<and> j < made' \<longrightarrow> retryable (opens j)) \<and> (retryable s' \<longrightarrow> retry' > c_openRetries cfg)"
  using assms(2-)
proof (induction "nat (c_openRetries cfg + 1 - retry)" arbitrary: retry s made retries slept rule: less_induct)
  case less
  show ?case
  proof (cases "retry \<le> c_openRetries cfg \<and> retryable s")
    case False
    then show ?thesis using less.prems by (subst (asm) lazy_retry_step) auto
  next
    case True
    have m: "nat (c_openRetries cfg + 1 - (retry + 1)) < nat (c_openRetries cfg + 1 - retry)" using True by simp
    have sl: "slept + backoffMs draw retry cfg \<le> (retries + 1) * nat (c_openRetryMaxMs cfg)"
      using less.prems(4) backoffMs_le [OF assms(1), of retry cfg] by simp
    have eq: "lazy_retry opens draw cfg (retry + 1) (opens (made + 1)) (made + 1) (retries + 1) (slept + backoffMs draw retry cfg) =
        (s', made', retries', slept', retry')"
      using less.prems(5) True by (subst (asm) lazy_retry_step) simp
    note IH = less.hyps [OF m refl _ _ sl eq]
    have step: "retryable (opens j)" if "made \<le> j" "j < made'" "\<forall>j. made + 1 \<le> j \<and> j < made' \<longrightarrow> retryable (opens j)" for j
      using that True less.prems(1) by (cases "j = made") auto
    have I: "s' = opens made'" "made' + (retries + 1) = made + 1 + retries'" "retries + 1 \<le> retries'" "int retries' = retry' - 1"
        "int retries' \<le> max (int (retries + 1)) (c_openRetries cfg)" "slept' \<le> retries' * nat (c_openRetryMaxMs cfg)"
        "\<forall>j. made + 1 \<le> j \<and> j < made' \<longrightarrow> retryable (opens j)" "retryable s' \<longrightarrow> retry' > c_openRetries cfg"
      using IH less.prems(2,3) by (simp_all only: of_nat_add) auto
    have "int retries' \<le> max (int retries) (c_openRetries cfg)" using I(5) True less.prems(3) by simp
    moreover have "\<forall>j. made \<le> j \<and> j < made' \<longrightarrow> retryable (opens j)" using step I(7) by blast
    ultimately show ?thesis using I(1-4,6,8) by simp
  qed
qed

lemma lazy_open_counts:
  assumes "\<And>b. draw b \<le> b" and "lazy_open opens draw cfg made = (s, made', retries, slept, exhausted)"
  shows "s = opens made'" "made' = made + 1 + retries" "int retries \<le> max 0 (c_openRetries cfg)"
    "slept \<le> retries * nat (c_openRetryMaxMs cfg)" "\<forall>j. made < j \<and> j < made' \<longrightarrow> retryable (opens j)"
    "retryable s \<longrightarrow> int retries = max 0 (c_openRetries cfg)" "exhausted \<longleftrightarrow> s \<noteq> None \<and> 0 < retries"
proof -
  obtain retry where r: "lazy_retry opens draw cfg 1 (opens (made + 1)) (made + 1) 0 0 = (s, made', retries, slept, retry)"
    and e: "exhausted \<longleftrightarrow> s \<noteq> None \<and> retry > 1"
    using assms(2) by (auto simp: lazy_open_def split: prod.splits)
  from lazy_retry_counts [OF assms(1) refl _ _ _ r] have c: "s = opens made' \<and> made' = made + 1 + retries \<and> int retries = retry - 1 \<and>
      int retries \<le> max 0 (c_openRetries cfg) \<and> slept \<le> retries * nat (c_openRetryMaxMs cfg) \<and>
      (\<forall>j. made + 1 \<le> j \<and> j < made' \<longrightarrow> retryable (opens j)) \<and> (retryable s \<longrightarrow> retry > c_openRetries cfg)" by simp
  then show "s = opens made'" "made' = made + 1 + retries" "int retries \<le> max 0 (c_openRetries cfg)"
    "slept \<le> retries * nat (c_openRetryMaxMs cfg)" "\<forall>j. made < j \<and> j < made' \<longrightarrow> retryable (opens j)"
    "retryable s \<longrightarrow> int retries = max 0 (c_openRetries cfg)" "exhausted \<longleftrightarrow> s \<noteq> None \<and> 0 < retries"
    using e by auto
qed

section \<open>Reads in flight\<close>

lemma count_list_update: "i < length xs \<Longrightarrow> count_list (xs[i := x]) y + (if xs ! i = y then 1 else 0) = count_list xs y + (if x = y then 1 else 0)"
proof (induction xs arbitrary: i)
  case (Cons a xs)
  show ?case
  proof (cases i)
    case (Suc j)
    then show ?thesis using Cons.IH [of j] Cons.prems by (auto split: if_splits)
  qed simp
qed simp

lemma count_list_pos: "i < length xs \<Longrightarrow> xs ! i = y \<Longrightarrow> 0 < count_list xs y"
  by (induction xs arbitrary: i) (auto simp: less_Suc_eq_0_disj)

lemma guard_step_counted:
  assumes "guards_counted p"
  shows "guards_counted (guard_step op p)"
proof -
  obtain gs s where p: "p = (gs, s)" by (cases p)
  have c: "originReadsInFlight s = count_list gs True" "count_list gs True \<le> originReadsInFlightHighWater s"
    using assms by (simp_all add: p guards_counted_def)
  show ?thesis
  proof (cases op)
    case (Take st)
    then show ?thesis using c by (simp add: p guards_counted_def guard_take_def Let_def)
  next
    case (Release i)
    show ?thesis
    proof (cases "i < length gs")
      case True
      then show ?thesis
        using c count_list_update [OF True, of False True] count_list_pos [OF True, of True]
        by (cases "gs ! i") (simp_all add: p guards_counted_def guard_release_def Release, linarith)
    qed (use c in \<open>simp add: p guards_counted_def Release\<close>)
  next
    case (Move i j)
    show ?thesis
    proof (cases "i < length gs \<and> j < length gs \<and> i \<noteq> j")
      case True
      have "count_list (gs[i := gs ! j, j := False]) True + (if gs ! i then 1 else 0) = count_list gs True"
        using count_list_update [of i gs "gs ! j" True] count_list_update [of j "gs[i := gs ! j]" False True] True
        by (cases "gs ! i"; cases "gs ! j") simp_all
      then show ?thesis using c True by (cases "gs ! i") (simp_all add: p guards_counted_def guard_move_def Move, linarith)
    qed (use c in \<open>auto simp: p guards_counted_def Move\<close>)
  qed
qed

lemma guards_counted_run:
  "guards_counted (fold guard_step ops ([], \<lparr>originReadsInFlight = 0, originReadsInFlightHighWater = 0\<rparr>))"
proof (rule fold_invariant [where Q = "\<lambda>_. True"])
  show "guards_counted ([], \<lparr>originReadsInFlight = 0, originReadsInFlightHighWater = 0\<rparr>)" by (simp add: guards_counted_def)
qed (simp_all add: guard_step_counted)

section \<open>Properties\<close>

text \<open>C25. The vector read issued for missing chunks is legal and complete. For chunks inside the address range
  and a page no larger than the protocol's element ceiling, planning ends; the elements are in
  rising order without overlap, none is empty or above the ceiling, they cover exactly the rounded ranges, hence every byte
  asked for below the end of the file, and every cut inside a run falls on a page boundary.\<close>

theorem vector_plan_is_legal:
  assumes "0 < P" and "P \<le> kMaxReadvElem" and "\<forall>i\<in>set idx. chunk_ok P (chunks ! i)"
  shows "\<exists>wire. plan_wire P fs direct chunks idx = Some wire \<and> sorted_wrt (\<lambda>a b. snd a \<le> fst b) wire \<and>
    ivals_bytes wire = (\<Union>i\<in>set idx. {fst (chunk_ival P fs direct (chunks ! i))..<snd (chunk_ival P fs direct (chunks ! i))}) \<and>
    (\<Union>i\<in>set idx. {fst (chunks ! i)..<min (fst (chunks ! i) + snd (chunks ! i)) fs}) \<subseteq> ivals_bytes wire \<and>
    (\<forall>(a, b)\<in>set wire. a < b \<and> b - a \<le> kMaxReadvElem \<and>
       (P dvd a \<or> a \<in> fst ` set (plan_runs P fs direct chunks idx)) \<and> (P dvd b \<or> b \<in> snd ` set (plan_runs P fs direct chunks idx)))"
proof -
  note R = plan_runs_spec [OF assms, where fs = fs and direct = direct]
  obtain g where g: "plan_wire P fs direct chunks idx = Some (concat (map g (plan_runs P fs direct chunks idx)))"
      "\<And>r. r \<in> set (plan_runs P fs direct chunks idx) \<Longrightarrow> pieces P (fst r) (snd r) (g r)" using plan_wire_spec [OF assms] by blast
  let ?w = "concat (map g (plan_runs P fs direct chunks idx))"
  have C: "ivals_bytes ?w = ivals_bytes (plan_runs P fs direct chunks idx)" "sorted_wrt (\<lambda>a b. snd a \<le> fst b) ?w"
    using concat_pieces [OF R(1) g(2)] by simp_all
  have "(\<Union>i\<in>set idx. {fst (chunks ! i)..<min (fst (chunks ! i) + snd (chunks ! i)) fs}) \<subseteq> ivals_bytes ?w"
    unfolding C(1) R(2) using chunk_ival_bounds(3) [OF assms(1,2)] assms(3) by (intro UN_mono) auto
  moreover have "fst x < snd x \<and> snd x - fst x \<le> kMaxReadvElem \<and> (P dvd fst x \<or> fst x \<in> fst ` set (plan_runs P fs direct chunks idx)) \<and>
      (P dvd snd x \<or> snd x \<in> snd ` set (plan_runs P fs direct chunks idx))" if x: "x \<in> set ?w" for x
  proof -
    obtain r where r: "r \<in> set (plan_runs P fs direct chunks idx)" "x \<in> set (g r)" using x by auto
    have "fst x < snd x \<and> snd x - fst x \<le> kMaxReadvElem \<and> (fst x = fst r \<or> P dvd fst x) \<and> (snd x = snd r \<or> P dvd snd x)"
      using g(2) [OF r(1)] r(2) by (fastforce simp: pieces_def)
    then show ?thesis using r(1) by auto
  qed
  ultimately show ?thesis unfolding case_prod_beta using g(1) C R(2) by (intro exI [of _ ?w] conjI ballI) simp_all
qed

theorem vector_plan_is_legal_witness:
  "\<exists>wire. plan_wire 4096 100000 (\<lambda>_ _. False) [(5000, 100), (9000, 20)] [0, 1] = Some wire \<and> {5000..<5100} \<subseteq> ivals_bytes wire"
proof -
  have k: "\<forall>i\<in>set [0, 1 :: nat]. chunk_ok 4096 ([(5000, 100), (9000, 20)] ! i)" by (simp add: chunk_ok_def)
  have "(4096 :: nat) \<le> kMaxReadvElem" by (simp add: kMaxReadvElem_def)
  from vector_plan_is_legal [OF _ this k, of 100000 "\<lambda>_ _. False"] show ?thesis by fastforce
qed

text \<open>A lazy open retries a bounded number of times and only for failures that may pass. It always ends. An opened
  handle and one that failed less than the cool-down ago make no open at all. Otherwise there is one open more than there are retries; the
  retries never exceed the budget; every open before the last failed with a retryable error, and when the last one did too, the whole budget was spent;
  the call answers yes exactly when the last open succeeded, which latches; when it failed, the next miss reports its very error.\<close>

theorem ensureInnerOpen_bounded:
  assumes "\<And>b. draw b \<le> b" and "0 < later" and "ensureInnerOpen opens draw cfg now later h = (ok, h', retries, exhausted)"
  shows "if innerOpened h then ok = innerOpenOk h \<and> h' = h \<and> retries = 0
    else if lazyOpenFailUs h \<noteq> 0 \<and> sub64 now (lazyOpenFailUs h) < kLazyOpenRetryCooldownUs then \<not> ok \<and> h' = h \<and> retries = 0
    else lazyOpenAttempt h' = lazyOpenAttempt h + 1 + retries \<and> int retries \<le> max 0 (c_openRetries cfg) \<and>
      (\<forall>j. lazyOpenAttempt h < j \<and> j < lazyOpenAttempt h' \<longrightarrow> retryable (opens j)) \<and>
      (retryable (opens (lazyOpenAttempt h')) \<longrightarrow> int retries = max 0 (c_openRetries cfg)) \<and>
      (ok \<longleftrightarrow> opens (lazyOpenAttempt h') = None) \<and> (ok \<longleftrightarrow> innerOpened h') \<and> (\<not> ok \<longrightarrow> missError h' = opens (lazyOpenAttempt h'))"
proof -
  obtain s m r sl ex where l: "lazy_open opens draw cfg (lazyOpenAttempt h) = (s, m, r, sl, ex)" by (rule prod_cases5)
  note L = lazy_open_counts [OF assms(1) l]
  consider (opened) "innerOpened h" | (cool) "\<not> innerOpened h" "lazyOpenFailUs h \<noteq> 0 \<and> sub64 now (lazyOpenFailUs h) < kLazyOpenRetryCooldownUs"
    | (opens) "\<not> innerOpened h" "\<not> (lazyOpenFailUs h \<noteq> 0 \<and> sub64 now (lazyOpenFailUs h) < kLazyOpenRetryCooldownUs)" by blast
  then show ?thesis
  proof cases
    case opens
    have q: "(ok, h', retries, exhausted) = (let h1 = h\<lparr>lazyOpenAttempt := m, innerOpenOk := (s = None)\<rparr>
        in if s = None then (True, h1\<lparr>innerOpened := True, lazyOpenFailUs := 0\<rparr>, r, ex) else (False, h1\<lparr>lazyOpenError := s, lazyOpenFailUs := later\<rparr>, r, ex))"
      unfolding assms(3) [symmetric] ensureInnerOpen_def if_not_P [OF opens(1)] if_not_P [OF opens(2)] l by simp
    have e: "ok = (s = None)" "lazyOpenAttempt h' = m" "retries = r" "innerOpened h' = (s = None)" "s \<noteq> None \<longrightarrow> missError h' = s"
      using q assms(2) opens(1) by (simp_all add: Let_def missError_def split: if_splits)
    show ?thesis unfolding if_not_P [OF opens(1)] if_not_P [OF opens(2)] e using L(1-3,5,6) e(5) by simp
  qed (use assms(3) in \<open>auto simp: ensureInnerOpen_def\<close>)
qed

theorem ensureInnerOpen_bounded_witness:
  "case ensureInnerOpen (\<lambda>k. if k < 3 then Some (108, 0) else None) (\<lambda>b. b div 2) default_config 5 9
       \<lparr>innerOpened = False, innerOpenOk = False, lazyOpenFailUs = 0, lazyOpenError = None, lazyOpenAttempt = 0\<rparr> of
     (ok, h, retries, exhausted) \<Rightarrow> lazyOpenAttempt h = 1 + retries \<and> (\<not> ok \<longrightarrow> missError h \<noteq> None)"
proof -
  let ?o = "\<lambda>k. if k < 3 then Some (108, 0) else None"
  let ?h = "\<lparr>innerOpened = False, innerOpenOk = False, lazyOpenFailUs = 0, lazyOpenError = None, lazyOpenAttempt = 0\<rparr>"
  obtain ok h r ex where e: "ensureInnerOpen ?o (\<lambda>b. b div 2) default_config 5 9 ?h = (ok, h, r, ex)" by (rule prod_cases4)
  have d: "\<And>b :: nat. b div 2 \<le> b" by simp
  from ensureInnerOpen_bounded [OF d _ e] show ?thesis unfolding e by auto
qed

end
