(* ===== verification/Slot_Codec.thy ===== *)
theory Slot_Codec
  imports Record_Codec Crc32c
begin

text \<open>
  The images of the slot store (\<^verbatim>\<open>src/src/core/SlotStore.cc\<close>): its header page, the entries of a commit block, the block
  header, and the checksum of a record, seeded with the store, the slot and the length. Shown: the header
  survives encoding and decoding and a damaged header page is refused; entries read back; a built block has the
  layout its readers expect.
\<close>

section \<open>Data\<close>

record slotHeader =
  sh_layoutVersion :: nat
  sh_container :: nat
  sh_slotFactor100 :: nat
  sh_declined :: bool
  sh_codecs :: string
  sh_originSize :: nat
  sh_originMtime :: nat
  sh_cksumKind :: nat
  sh_originCksum :: nat
  sh_virtualSize :: nat
  sh_nSlots :: nat
  sh_layoutHash :: nat
  sh_storeId :: nat
  sh_blobLen :: nat
  sh_blobCrc :: nat

record slotEntry =
  se_slot :: nat
  se_kind :: nat
  se_off :: nat
  se_len :: nat
  se_crc :: nat

record slotRecord =
  sr_slot :: nat
  sr_kind :: nat
  sr_bytes :: bytes

definition kZstd :: nat where "kZstd = 1"
definition kRaw :: nat where "kRaw = 2"
definition kKept :: nat where "kKept = 3"

definition slotFormatVersion :: nat where "slotFormatVersion = 2"
definition slotMagic :: bytes where "slotMagic = map byte_of_char ''UCSLOTS1''"
definition blockMagic :: bytes where "blockMagic = map byte_of_char ''USBLOCK1''"
definition kHeaderBytes :: nat where "kHeaderBytes = 4096"
definition kAlign :: nat where "kAlign = 4096"
definition kBlockHeader :: nat where "kBlockHeader = 64"
definition kEntry :: nat where "kEntry = 24"
definition kCodecsMax :: nat where "kCodecsMax = 256"

lemmas slot_consts = kHeaderBytes_def kAlign_def kBlockHeader_def kEntry_def kCodecsMax_def slotFormatVersion_def

section \<open>Operations\<close>

definition alignUp :: "nat \<Rightarrow> nat" where
  "alignUp v = u64 (v + kAlign - 1) div kAlign * kAlign"

definition encodeEntry :: "slotEntry \<Rightarrow> bytes" where
  "encodeEntry e = put_fields [(4, 0, se_slot e), (1, 4, se_kind e), (8, 8, se_off e), (4, 16, se_len e), (4, 20, se_crc e)]
     (replicate kEntry 0)"

definition decodeEntry :: "bytes \<Rightarrow> nat \<Rightarrow> slotEntry" where
  "decodeEntry b p =
     \<lparr>se_slot = get_le 4 b p, se_kind = get_le 1 b (p + 4), se_off = get_le 8 b (p + 8), se_len = get_le 4 b (p + 16),
      se_crc = get_le 4 b (p + 20)\<rparr>"

definition entry_known :: "slotEntry \<Rightarrow> bool" where
  "entry_known e \<longleftrightarrow> se_kind e = kZstd \<or> se_kind e = kRaw \<or> se_kind e = kKept"

definition slot_fields :: "slotHeader \<Rightarrow> (nat \<times> nat \<times> nat) list" where
  "slot_fields h =
     [(4, 8, slotFormatVersion), (4, 12, sh_layoutVersion h), (1, 16, sh_container h), (1, 18, if sh_declined h then 1 else 0),
      (4, 20, sh_nSlots h), (8, 24, sh_originSize h), (8, 32, sh_originMtime h), (1, 40, sh_cksumKind h),
      (2, 42, sh_slotFactor100 h), (4, 44, sh_originCksum h), (8, 48, sh_virtualSize h), (8, 56, sh_layoutHash h),
      (8, 64, sh_storeId h), (8, 72, sh_blobLen h), (4, 80, sh_blobCrc h), (2, 84, min (length (sh_codecs h)) kCodecsMax)]"

definition encodeSlotHeader :: "slotHeader \<Rightarrow> bytes" where
  "encodeSlotHeader h =
     (let b = put_fields (slot_fields h) (overwrite (replicate kHeaderBytes 0) 0 slotMagic);
          n = min (length (sh_codecs h)) kCodecsMax;
          b1 = overwrite b 86 (map byte_of_char (take n (sh_codecs h)))
      in put_le 4 b1 (kHeaderBytes - 4) (unat (crc32c (take (kHeaderBytes - 4) b1))))"

definition decodeSlotHeader :: "bytes \<Rightarrow> slotHeader option" where
  "decodeSlotHeader p =
     (if length p < kHeaderBytes \<or> take 8 p \<noteq> slotMagic then None
      else if get_le 4 p (kHeaderBytes - 4) \<noteq> unat (crc32c (take (kHeaderBytes - 4) p)) then None
      else if get_le 4 p 8 \<noteq> slotFormatVersion then None
      else
        let cn = get_le 2 p 84
        in if cn > kCodecsMax then None
           else Some
             \<lparr>sh_layoutVersion = get_le 4 p 12, sh_container = get_le 1 p 16, sh_slotFactor100 = get_le 2 p 42,
              sh_declined = (get_le 1 p 18 \<noteq> 0), sh_codecs = map char_of_byte (slice 86 cn p), sh_originSize = get_le 8 p 24,
              sh_originMtime = get_le 8 p 32, sh_cksumKind = get_le 1 p 40, sh_originCksum = get_le 4 p 44,
              sh_virtualSize = get_le 8 p 48, sh_nSlots = get_le 4 p 20, sh_layoutHash = get_le 8 p 56, sh_storeId = get_le 8 p 64,
              sh_blobLen = get_le 8 p 72, sh_blobCrc = get_le 4 p 80\<rparr>)"

text \<open>A header in a format newer than this build's.\<close>

definition newerFormat :: "bytes \<Rightarrow> bool" where
  "newerFormat p \<longleftrightarrow> length p \<ge> 12 \<and> take 8 p = slotMagic \<and> get_le 4 p 8 > slotFormatVersion"

definition recordCrc :: "nat \<Rightarrow> nat \<Rightarrow> bytes \<Rightarrow> nat" where
  "recordCrc storeId slot p =
     (let seed = put_fields [(8, 0, storeId), (4, 8, slot), (4, 12, u32n (length p))] (replicate 16 0)
      in unat (crc32c_from (crc32c_from 0 seed) p))"

text \<open>The block of a commit at offset \<open>base\<close>: one record after the other, its entry and its bytes, then the block header.\<close>

definition record_entry :: "nat \<Rightarrow> nat \<Rightarrow> slotRecord \<Rightarrow> slotEntry" where
  "record_entry storeId off r =
     (if sr_kind r \<noteq> kKept
      then \<lparr>se_slot = sr_slot r, se_kind = sr_kind r, se_off = off, se_len = u32n (length (sr_bytes r)), se_crc = recordCrc storeId (sr_slot r) (sr_bytes r)\<rparr>
      else \<lparr>se_slot = sr_slot r, se_kind = sr_kind r, se_off = 0, se_len = 0, se_crc = 0\<rparr>)"

definition add_record :: "nat \<Rightarrow> nat \<Rightarrow> slotRecord \<Rightarrow> nat \<times> nat \<times> bytes \<times> slotEntry list \<Rightarrow> nat \<times> nat \<times> bytes \<times> slotEntry list" where
  "add_record storeId base r s =
     (case s of (i, pos, blk, committed) \<Rightarrow>
        let e = record_entry storeId (u64 (base + pos)) r;
            (blk1, pos1) = (if sr_kind r \<noteq> kKept then (overwrite blk pos (sr_bytes r), pos + length (sr_bytes r)) else (blk, pos))
        in (i + 1, pos1, overwrite blk1 (kBlockHeader + i * kEntry) (encodeEntry e), committed @ [e]))"

definition finish_block :: "nat \<Rightarrow> nat \<Rightarrow> bytes \<Rightarrow> bytes" where
  "finish_block storeId n blk =
     (let b1 = put_fields [(8, 8, storeId), (8, 16, length blk), (4, 24, n), (4, 28, unat (crc32c (slice kBlockHeader (n * kEntry) blk)))]
                 (overwrite blk 0 blockMagic)
      in put_le 4 b1 60 (unat (crc32c (take 60 b1))))"

definition build_block :: "nat \<Rightarrow> nat \<Rightarrow> slotRecord list \<Rightarrow> bytes \<times> slotEntry list" where
  "build_block storeId base ws =
     (let n = length ws;
          dataLen = sum_list (map (\<lambda>r. length (sr_bytes r)) ws);
          blk0 = replicate (kBlockHeader + n * kEntry + dataLen) 0;
          (i, pos, blk, committed) = fold (add_record storeId base) ws (0, kBlockHeader + n * kEntry, blk0, [])
      in (finish_block storeId n blk, committed))"

section \<open>Header page\<close>

definition slotHeader_ok :: "slotHeader \<Rightarrow> bool" where
  "slotHeader_ok h \<longleftrightarrow> sh_layoutVersion h < 2 ^ 32 \<and> sh_container h < 2 ^ 8 \<and> sh_slotFactor100 h < 2 ^ 16 \<and>
     sh_originSize h < 2 ^ 64 \<and> sh_originMtime h < 2 ^ 64 \<and> sh_cksumKind h < 2 ^ 8 \<and> sh_originCksum h < 2 ^ 32 \<and>
     sh_virtualSize h < 2 ^ 64 \<and> sh_nSlots h < 2 ^ 32 \<and> sh_layoutHash h < 2 ^ 64 \<and> sh_storeId h < 2 ^ 64 \<and>
     sh_blobLen h < 2 ^ 64 \<and> sh_blobCrc h < 2 ^ 32"

text \<open>The page before its checksum is put.\<close>

definition slot_page0 :: "slotHeader \<Rightarrow> bytes" where
  "slot_page0 h = overwrite (put_fields (slot_fields h) (overwrite (replicate kHeaderBytes 0) 0 slotMagic)) 86
     (map byte_of_char (take (min (length (sh_codecs h)) kCodecsMax) (sh_codecs h)))"

lemma encodeSlotHeader_page0:
  "encodeSlotHeader h = put_le 4 (slot_page0 h) 4092 (unat (crc32c (take 4092 (slot_page0 h))))"
  by (simp add: encodeSlotHeader_def slot_page0_def Let_def slot_consts)

lemma slot_fields_fit: "fields_fit 8 (slot_fields h) 86"
  by (simp add: slot_fields_def)

lemma length_slotMagic [simp]: "length slotMagic = 8" "length blockMagic = 8"
  by (simp_all add: slotMagic_def blockMagic_def)

lemma length_slot_page0 [simp]: "length (slot_page0 h) = 4096"
  using length_put_fields [OF slot_fields_fit, of "overwrite (replicate 4096 0) 0 slotMagic" h]
  by (simp add: slot_page0_def slot_consts)

lemma slot_page0_low:
  assumes "off + k \<le> 86"
  shows "slice off k (slot_page0 h) = slice off k (put_fields (slot_fields h) (overwrite (replicate 4096 0) 0 slotMagic))"
  using assms length_put_fields [OF slot_fields_fit, of "overwrite (replicate 4096 0) 0 slotMagic" h]
  by (simp add: slot_page0_def slot_consts slice_overwrite_other)

lemma slot_page0_field:
  assumes "(k, off, v) \<in> set (slot_fields h)" and "off + k \<le> 86"
  shows "get_le k (slot_page0 h) off = v mod 256 ^ k"
  using get_put_fields [OF assms(1) slot_fields_fit, of "overwrite (replicate 4096 0) 0 slotMagic"] slot_page0_low [OF assms(2), of h]
  by (simp add: get_le_def)

lemma slot_page0_magic: "take 8 (slot_page0 h) = slotMagic"
proof -
  have "slice 0 8 (slot_page0 h) = slice 0 8 (overwrite (replicate 4096 0) 0 slotMagic)"
    unfolding slot_page0_low [of 0 8 h, simplified]
    by (rule slice_put_fields [OF slot_fields_fit _ fields_above [OF slot_fields_fit]]) simp_all
  then show ?thesis by (simp add: slice_simps) (simp add: slice_def)
qed

lemma slot_page0_codecs:
  "slice 86 (min (length (sh_codecs h)) 256) (slot_page0 h) = map byte_of_char (take (min (length (sh_codecs h)) 256) (sh_codecs h))"
  using length_put_fields [OF slot_fields_fit, of "overwrite (replicate 4096 0) 0 slotMagic" h]
  by (simp add: slot_page0_def slot_consts slice_overwrite_same)

text \<open>Below the checksum the encoded page is the plain page.\<close>

lemma encoded_low: "off + k \<le> 4092 \<Longrightarrow> slice off k (encodeSlotHeader h) = slice off k (slot_page0 h)"
  by (simp add: encodeSlotHeader_page0 slice_put_le_other)

lemma length_encodeSlotHeader [simp]: "length (encodeSlotHeader h) = 4096"
  by (simp add: encodeSlotHeader_page0)

lemma encoded_crc: "get_le 4 (encodeSlotHeader h) 4092 = unat (crc32c (take 4092 (encodeSlotHeader h)))"
proof -
  have "take 4092 (encodeSlotHeader h) = take 4092 (slot_page0 h)" using encoded_low [of 0 4092 h] by (simp add: slice_def)
  then show ?thesis using unat_u32_bound [of "crc32c (take 4092 (slot_page0 h))"]
    by (simp add: encodeSlotHeader_page0 get_put_le_same)
qed

lemma decode_encode_header:
  assumes "slotHeader_ok h"
  shows "decodeSlotHeader (encodeSlotHeader h) = Some (h\<lparr>sh_codecs := take 256 (sh_codecs h)\<rparr>)"
proof -
  let ?p = "encodeSlotHeader h"
  let ?n = "min (length (sh_codecs h)) 256"
  have g: "get_le k ?p off = v" if "(k, off, v) \<in> set (slot_fields h)" "off + k \<le> 86" "v < 256 ^ k" for k off v
    using slot_page0_field [OF that(1,2)] encoded_low [of off k h] that(2,3) by (simp add: get_le_def)
  note H = assms [unfolded slotHeader_ok_def]
  have magic: "take 8 ?p = slotMagic" using encoded_low [of 0 8 h] slot_page0_magic [of h] by (simp add: slice_def)
  have n: "get_le 2 ?p 84 = ?n" by (rule g) (simp_all add: slot_fields_def kCodecsMax_def)
  have codecs: "map char_of_byte (slice 86 ?n ?p) = take 256 (sh_codecs h)"
    using encoded_low [of 86 ?n h] by (simp add: slot_page0_codecs comp_def min.commute) (metis min.commute take_all_iff take_take nat_le_linear min_def)
  have ver: "get_le 4 ?p 8 = slotFormatVersion" by (rule g) (simp_all add: slot_fields_def slotFormatVersion_def)
  have f4: "get_le 4 ?p 12 = sh_layoutVersion h" "get_le 4 ?p 20 = sh_nSlots h" "get_le 4 ?p 44 = sh_originCksum h" "get_le 4 ?p 80 = sh_blobCrc h"
    by (rule g; use H in \<open>simp add: slot_fields_def\<close>)+
  have f8: "get_le 8 ?p 24 = sh_originSize h" "get_le 8 ?p 32 = sh_originMtime h" "get_le 8 ?p 48 = sh_virtualSize h"
    "get_le 8 ?p 56 = sh_layoutHash h" "get_le 8 ?p 64 = sh_storeId h" "get_le 8 ?p 72 = sh_blobLen h"
    by (rule g; use H in \<open>simp add: slot_fields_def\<close>)+
  have f1: "get_le (Suc 0) ?p 16 = sh_container h" "get_le (Suc 0) ?p 40 = sh_cksumKind h" "get_le 2 ?p 42 = sh_slotFactor100 h"
    "get_le (Suc 0) ?p 18 = (if sh_declined h then 1 else 0)"
    by (rule g; use H in \<open>simp add: slot_fields_def\<close>)+
  show ?thesis
    unfolding decodeSlotHeader_def
    using magic n codecs ver f4 f8 f1 encoded_crc [of h] by (simp add: slot_consts)
qed

text \<open>A checksum kept behind the bytes it covers: a change of one byte, in either, breaks the match.\<close>

lemma crc_tail_flip:
  assumes ok: "get_le 4 s c = unat (crc32c (take c s))" and n: "c + 4 \<le> length s" and p: "p < c + 4" and b: "b \<noteq> s ! p"
  shows "get_le 4 (s[p := b]) c \<noteq> unat (crc32c (take c (s[p := b])))"
proof (cases "p < c")
  case True
  have "get_le 4 (s[p := b]) c = get_le 4 s c" using True n by (simp add: get_le_def slice_def)
  moreover have "crc32c ((take c s)[p := b]) \<noteq> crc32c (take c s)" using True n b by (intro crc32c_one_byte) simp_all
  ultimately show ?thesis using ok True by (metis take_update_swap word_unat_eq_iff)
next
  case False
  have "slice c 4 (s[p := b]) ! (p - c) = b" "slice c 4 s ! (p - c) = s ! p" using False n p by (simp_all add: slice_nth)
  then have "slice c 4 (s[p := b]) \<noteq> slice c 4 s" using b by auto
  moreover have "length (slice c 4 s) = 4" "length (slice c 4 (s[p := b])) = 4" using n by simp_all
  ultimately have "get_le 4 (s[p := b]) c \<noteq> get_le 4 s c" unfolding get_le_def by (metis le_bytes_le_val)
  then show ?thesis using ok False by simp
qed

lemma decode_flip:
  assumes "decodeSlotHeader p = Some h" and "i < 4096" and "b \<noteq> p ! i"
  shows "decodeSlotHeader (p[i := b]) = None"
proof -
  have "4092 + 4 \<le> length p" "get_le 4 p 4092 = unat (crc32c (take 4092 p))"
    using assms(1) by (auto simp: decodeSlotHeader_def slot_consts split: if_splits)
  from crc_tail_flip [OF this(2,1) _ assms(3)] assms(2) show ?thesis by (simp add: decodeSlotHeader_def slot_consts)
qed

section \<open>Entries\<close>

definition entry_ok :: "slotEntry \<Rightarrow> bool" where
  "entry_ok e \<longleftrightarrow> se_slot e < 2 ^ 32 \<and> se_kind e < 2 ^ 8 \<and> se_off e < 2 ^ 64 \<and> se_len e < 2 ^ 32 \<and> se_crc e < 2 ^ 32"

lemma entry_fields_fit:
  "fields_fit 0 [(4, 0, se_slot e), (1, 4, se_kind e), (8, 8, se_off e), (4, 16, se_len e), (4, 20, se_crc e)] 24"
  by simp

lemma length_encodeEntry [simp]: "length (encodeEntry e) = 24"
  using length_put_fields [OF entry_fields_fit, of "replicate 24 0"] by (simp add: encodeEntry_def kEntry_def)

lemma decode_encodeEntry:
  assumes "entry_ok e" and "slice p 24 b = encodeEntry e"
  shows "decodeEntry b p = e"
proof -
  have g: "get_le k b (p + off) = v"
    if "(k, off, v) \<in> set [(4, 0, se_slot e), (1, 4, se_kind e), (8, 8, se_off e), (4, 16, se_len e), (4, 20, se_crc e)]" "off + k \<le> 24" "v < 256 ^ k" for k off v
    using get_field [OF assms(2) that(2)] get_put_fields [OF that(1) entry_fields_fit, of "replicate 24 0"] that(3)
    by (simp add: encodeEntry_def kEntry_def)
  note E = assms(1) [unfolded entry_ok_def]
  have "get_le 4 b (p + 0) = se_slot e" "get_le 1 b (p + 4) = se_kind e" "get_le 8 b (p + 8) = se_off e" "get_le 4 b (p + 16) = se_len e"
    "get_le 4 b (p + 20) = se_crc e"
    by (rule g; use E in simp)+
  then show ?thesis by (simp add: decodeEntry_def)
qed

text \<open>The entry table of a block is an array of records of the common form.\<close>

definition put_entry :: "slotEntry \<Rightarrow> bytes \<times> nat \<Rightarrow> bytes \<times> nat" where
  "put_entry e s = (overwrite (fst s) (snd s) (encodeEntry e), snd s + 24)"

interpretation ent: record_codec 24 encodeEntry put_entry decodeEntry entry_ok
  by unfold_locales (simp_all add: put_entry_def decode_encodeEntry)

section \<open>Blocks\<close>

text \<open>Where the records of a block lie: each record with its offset inside the block.\<close>

definition placed :: "slotRecord \<Rightarrow> nat" where
  "placed r = (if sr_kind r \<noteq> kKept then length (sr_bytes r) else 0)"

fun places :: "nat \<Rightarrow> slotRecord list \<Rightarrow> (slotRecord \<times> nat) list" where
  "places pos [] = []"
| "places pos (r # rs) = (r, pos) # places (pos + placed r) rs"

definition block_entries :: "nat \<Rightarrow> nat \<Rightarrow> nat \<Rightarrow> slotRecord list \<Rightarrow> slotEntry list" where
  "block_entries storeId base pos ws = map (\<lambda>(r, q). record_entry storeId (u64 (base + q)) r) (places pos ws)"

lemma length_places [simp]: "length (places pos ws) = length ws"
  by (induction ws arbitrary: pos) simp_all

lemma fst_places [simp]: "map fst (places pos ws) = ws"
  by (induction ws arbitrary: pos) simp_all

lemma placed_le: "placed r \<le> length (sr_bytes r)"
  by (simp add: placed_def)

lemma places_bounds: "(r, q) \<in> set (places pos ws) \<Longrightarrow> pos \<le> q \<and> q + placed r \<le> pos + sum_list (map (\<lambda>r. length (sr_bytes r)) ws)"
proof (induction ws arbitrary: pos)
  case (Cons a ws)
  show ?case
  proof (cases "(r, q) = (a, pos)")
    case True
    then show ?thesis using placed_le [of a] by auto
  next
    case False
    then have "(r, q) \<in> set (places (pos + placed a) ws)" using Cons.prems by auto
    from Cons.IH [OF this] show ?thesis using placed_le [of a] by auto
  qed
qed simp

lemma add_records:
  assumes "fold (add_record sid base) ws (i, pos, blk, com) = (i', pos', blk', com')"
    and "64 + (i + length ws) * 24 \<le> p0" and "p0 \<le> pos" and "pos + sum_list (map (\<lambda>r. length (sr_bytes r)) ws) \<le> length blk"
  shows "length blk' = length blk \<and> com' = com @ block_entries sid base pos ws \<and>
    (\<forall>a k. a + k \<le> 64 + i * 24 \<or> p0 \<le> a \<and> a + k \<le> pos \<longrightarrow> slice a k blk' = slice a k blk) \<and>
    slice (64 + i * 24) (24 * length ws) blk' = concat (map encodeEntry (block_entries sid base pos ws)) \<and>
    (\<forall>(r, q)\<in>set (places pos ws). sr_kind r \<noteq> kKept \<longrightarrow> slice q (length (sr_bytes r)) blk' = sr_bytes r)"
  using assms
proof (induction ws arbitrary: i pos blk com)
  case Nil
  then show ?case by (simp add: block_entries_def)
next
  case (Cons r ws)
  define e where "e = record_entry sid (u64 (base + pos)) r"
  define blk1 where "blk1 = (if sr_kind r \<noteq> kKept then overwrite blk pos (sr_bytes r) else blk)"
  define blk2 where "blk2 = overwrite blk1 (64 + i * 24) (encodeEntry e)"
  define pos1 where "pos1 = pos + placed r"
  have B: "64 + i * 24 + 24 + length ws * 24 \<le> p0" "p0 \<le> pos" "pos + length (sr_bytes r) + sum_list (map (\<lambda>r. length (sr_bytes r)) ws) \<le> length blk"
    using Cons.prems(2-4) by simp_all
  have l: "length blk1 = length blk" "length blk2 = length blk" using B by (simp_all add: blk1_def blk2_def)
  have pr: "placed r \<le> length (sr_bytes r)" by (rule placed_le)
  have "add_record sid base r (i, pos, blk, com) = (i + 1, pos1, blk2, com @ [e])"
    by (simp add: add_record_def Let_def e_def blk1_def blk2_def pos1_def placed_def slot_consts)
  then have f: "fold (add_record sid base) ws (i + 1, pos1, blk2, com @ [e]) = (i', pos', blk', com')" using Cons.prems(1) by simp
  have ih: "length blk' = length blk2 \<and> com' = (com @ [e]) @ block_entries sid base pos1 ws \<and>
      (\<forall>a k. a + k \<le> 64 + (i + 1) * 24 \<or> p0 \<le> a \<and> a + k \<le> pos1 \<longrightarrow> slice a k blk' = slice a k blk2) \<and>
      slice (64 + (i + 1) * 24) (24 * length ws) blk' = concat (map encodeEntry (block_entries sid base pos1 ws)) \<and>
      (\<forall>(r, q)\<in>set (places pos1 ws). sr_kind r \<noteq> kKept \<longrightarrow> slice q (length (sr_bytes r)) blk' = sr_bytes r)"
    by (rule Cons.IH [OF f]) (use B pr l in \<open>simp_all add: pos1_def\<close>)
  have keep: "slice a k blk' = slice a k blk2" if "a + k \<le> 64 + (i + 1) * 24 \<or> p0 \<le> a \<and> a + k \<le> pos1" for a k
    using ih that by blast
  have ent: "slice (64 + i * 24) 24 blk' = encodeEntry e"
  proof -
    have "slice (64 + i * 24) 24 blk' = slice (64 + i * 24) 24 blk2" by (rule keep) simp
    also have "\<dots> = encodeEntry e" using B l by (simp add: blk2_def slice_overwrite_same)
    finally show ?thesis .
  qed
  have dat: "slice pos (length (sr_bytes r)) blk' = sr_bytes r" if k: "sr_kind r \<noteq> kKept"
  proof -
    have "slice pos (length (sr_bytes r)) blk' = slice pos (length (sr_bytes r)) blk2" by (rule keep) (use B k in \<open>simp add: pos1_def placed_def\<close>)
    also have "\<dots> = slice pos (length (sr_bytes r)) blk1" unfolding blk2_def using B l by (intro slice_overwrite_other) simp_all
    also have "\<dots> = sr_bytes r" using B k by (simp add: blk1_def slice_overwrite_same)
    finally show ?thesis .
  qed
  have be: "block_entries sid base pos (r # ws) = e # block_entries sid base pos1 ws" by (simp add: block_entries_def e_def pos1_def)
  have out: "slice a k blk' = slice a k blk" if ak: "a + k \<le> 64 + i * 24 \<or> p0 \<le> a \<and> a + k \<le> pos" for a k
  proof -
    have "slice a k blk' = slice a k blk2" by (rule keep) (use ak pr in \<open>auto simp: pos1_def\<close>)
    also have "\<dots> = slice a k blk1" unfolding blk2_def using ak B l by (intro slice_overwrite_other) auto
    also have "\<dots> = slice a k blk" unfolding blk1_def using ak B by (auto intro!: slice_overwrite_other)
    finally show ?thesis .
  qed
  have tab: "slice (64 + i * 24) (24 * length (r # ws)) blk' = encodeEntry e @ concat (map encodeEntry (block_entries sid base pos1 ws))"
    using slice_split [of "64 + i * 24" 24 "24 * length ws" blk'] ent ih by (simp add: ac_simps)
  show ?case
    unfolding be using ih l tab out dat by (simp add: pos1_def)
qed

text \<open>A block header is valid for a store: what a reader tests before it believes any field.\<close>

definition block_header_ok :: "nat \<Rightarrow> bytes \<Rightarrow> bool" where
  "block_header_ok storeId h \<longleftrightarrow> take 8 h = blockMagic \<and> get_le 8 h 8 = storeId \<and> get_le 4 h 60 = unat (crc32c (take 60 h))"

lemma finish_block_spec:
  assumes "64 + 24 * n \<le> length blk"
  shows "length (finish_block sid n blk) = length blk"
    "off \<ge> 64 \<Longrightarrow> slice off k (finish_block sid n blk) = slice off k blk"
    "take 8 (finish_block sid n blk) = blockMagic" "get_le 8 (finish_block sid n blk) 8 = sid mod 2 ^ 64"
    "get_le 8 (finish_block sid n blk) 16 = length blk mod 2 ^ 64" "get_le 4 (finish_block sid n blk) 24 = n mod 2 ^ 32"
    "get_le 4 (finish_block sid n blk) 28 = unat (crc32c (slice 64 (24 * n) blk))"
    "get_le 4 (finish_block sid n blk) 60 = unat (crc32c (take 60 (finish_block sid n blk)))"
proof -
  define fs :: "(nat \<times> nat \<times> nat) list" where "fs = [(8, 8, sid), (8, 16, length blk), (4, 24, n), (4, 28, unat (crc32c (slice 64 (24 * n) blk)))]"
  define z where "z = overwrite blk 0 blockMagic"
  define b1 where "b1 = put_fields fs z"
  have fit: "fields_fit 8 fs 32" by (simp add: fs_def)
  have lz: "length z = length blk" using assms by (simp add: z_def)
  have lb: "length b1 = length blk" unfolding b1_def using length_put_fields [OF fit, of z] assms lz by simp
  have fb: "finish_block sid n blk = put_le 4 b1 60 (unat (crc32c (take 60 b1)))"
    by (simp add: finish_block_def Let_def b1_def fs_def z_def slot_consts mult.commute)
  have low: "slice off k (finish_block sid n blk) = slice off k b1" if "off + k \<le> 60" for off k
    unfolding fb using that lb assms by (intro slice_put_le_other) simp_all
  show "length (finish_block sid n blk) = length blk" using lb assms by (simp add: fb)
  show "slice off k (finish_block sid n blk) = slice off k blk" if "off \<ge> 64"
  proof -
    have "slice off k (finish_block sid n blk) = slice off k b1" unfolding fb using that lb assms by (intro slice_put_le_other) simp_all
    also have "\<dots> = slice off k z" unfolding b1_def by (rule slice_put_fields [OF fit]) (use that lz assms in \<open>simp_all add: fs_def\<close>)
    also have "\<dots> = slice off k blk" unfolding z_def using that assms by (intro slice_overwrite_other) simp_all
    finally show ?thesis .
  qed
  have "slice 0 8 b1 = slice 0 8 z" unfolding b1_def by (rule slice_put_fields [OF fit]) (use lz assms in \<open>simp_all add: fs_def\<close>)
  also have "\<dots> = blockMagic" using slice_overwrite_same [of 0 blockMagic blk] assms by (simp add: z_def)
  finally show "take 8 (finish_block sid n blk) = blockMagic" using low [of 0 8] by (simp add: slice_def)
  have g: "get_le k (finish_block sid n blk) off = v mod 256 ^ k" if "(k, off, v) \<in> set fs" "off + k \<le> 60" for k off v
    using get_put_fields [OF that(1) fit, of z] low [OF that(2)] lz assms by (simp add: get_le_def b1_def)
  show "get_le 8 (finish_block sid n blk) 8 = sid mod 2 ^ 64" "get_le 8 (finish_block sid n blk) 16 = length blk mod 2 ^ 64"
    "get_le 4 (finish_block sid n blk) 24 = n mod 2 ^ 32"
    using g [of 8 8 sid] g [of 8 16 "length blk"] g [of 4 24 n] by (simp_all add: fs_def)
  show "get_le 4 (finish_block sid n blk) 28 = unat (crc32c (slice 64 (24 * n) blk))"
    using g [of 4 28 "unat (crc32c (slice 64 (24 * n) blk))"] unat_u32_bound [of "crc32c (slice 64 (24 * n) blk)"] by (simp add: fs_def)
  have "take 60 (finish_block sid n blk) = take 60 b1" using low [of 0 60] by (simp add: slice_def)
  then show "get_le 4 (finish_block sid n blk) 60 = unat (crc32c (take 60 (finish_block sid n blk)))"
    using unat_u32_bound [of "crc32c (take 60 b1)"] lb assms by (simp add: fb get_put_le_same)
qed

lemma build_block_spec:
  assumes "build_block sid base ws = (blk, com)" and "length blk < 2 ^ 64" and "length ws < 2 ^ 32" and "sid < 2 ^ 64"
  shows "length blk = 64 + 24 * length ws + sum_list (map (\<lambda>r. length (sr_bytes r)) ws)" "com = block_entries sid base (64 + 24 * length ws) ws"
    "slice 64 (24 * length ws) blk = concat (map encodeEntry com)"
    "(r, q) \<in> set (places (64 + 24 * length ws) ws) \<Longrightarrow> sr_kind r \<noteq> kKept \<Longrightarrow> slice q (length (sr_bytes r)) blk = sr_bytes r"
    "block_header_ok sid blk" "get_le 8 blk 16 = length blk" "get_le 4 blk 24 = length ws" "get_le 4 blk 28 = unat (crc32c (slice 64 (24 * length ws) blk))"
proof -
  define n where "n = length ws"
  define z where "z = replicate (64 + n * 24 + sum_list (map (\<lambda>r. length (sr_bytes r)) ws)) (0 :: byte)"
  obtain i' pos' b c where f: "fold (add_record sid base) ws (0, 64 + n * 24, z, []) = (i', pos', b, c)" by (metis prod_cases4)
  have B: "blk = finish_block sid n b" "com = c"
    using assms(1) f by (simp_all add: build_block_def Let_def n_def [symmetric] slot_consts z_def)
  have A: "length b = length z" "c = block_entries sid base (64 + n * 24) ws" "slice 64 (24 * n) b = concat (map encodeEntry c)"
    "\<forall>(r, q)\<in>set (places (64 + n * 24) ws). sr_kind r \<noteq> kKept \<longrightarrow> slice q (length (sr_bytes r)) b = sr_bytes r"
    using add_records [OF f, of "64 + n * 24"] by (simp_all add: z_def n_def [symmetric])
  have lz: "length z = 64 + 24 * n + sum_list (map (\<lambda>r. length (sr_bytes r)) ws)" by (simp add: z_def)
  have l: "64 + 24 * n \<le> length b" using A(1) lz by simp
  note F = finish_block_spec [OF l, where sid = sid, folded B(1)]
  show "length blk = 64 + 24 * length ws + sum_list (map (\<lambda>r. length (sr_bytes r)) ws)" using F(1) A(1) lz by (simp add: n_def)
  show "com = block_entries sid base (64 + 24 * length ws) ws" using A(2) B(2) by (simp add: n_def mult.commute)
  show s: "slice 64 (24 * length ws) blk = concat (map encodeEntry com)" using F(2) [of 64 "24 * n"] A(3) B(2) by (simp add: n_def)
  show "slice q (length (sr_bytes r)) blk = sr_bytes r" if m: "(r, q) \<in> set (places (64 + 24 * length ws) ws)" "sr_kind r \<noteq> kKept"
  proof -
    have "64 \<le> q" using places_bounds [OF m(1)] by simp
    then show ?thesis using F(2) [of q] A(4) m by (auto simp: n_def mult.commute)
  qed
  have lb: "length b = length blk" using F(1) by simp
  show "block_header_ok sid blk" "get_le 8 blk 16 = length blk" "get_le 4 blk 24 = length ws"
    using F(3,4,5,6,8) assms(2-4) lb by (simp_all add: block_header_ok_def n_def)
  show "get_le 4 blk 28 = unat (crc32c (slice 64 (24 * length ws) blk))" using F(7) F(2) [of 64 "24 * n"] by (simp add: n_def)
qed

end
