(* ===== verification/Slot_Store.thy ===== *)
theory Slot_Store
  imports Slot_Codec Image_File
begin

text \<open>
  The slot store (\<^verbatim>\<open>src/src/core/SlotStore.cc\<close>): a file with a header page, a layout blob and
  then commit blocks, each on a 4096-byte boundary, to which every process appends under an exclusive lock. Locks
  that only serialise are the atomic steps of this model; calls that take one without waiting get as argument whether it was busy.
  The store id and the temporary name are arguments, and so are the clock and the modification time of an inode.
  All files are on one device.

  Shown: what a commit wrote is found and read back by every reader, whatever earlier crashes left in the
  file; a commit through a store that was dropped or replaced is refused and changes nothing; reading ends on every file whose
  valid block headers claim less than \<open>2 ^ 63\<close> bytes, and need not end on others.
\<close>

section \<open>Calls\<close>

definition ESTALE :: int where "ESTALE = 116"
definition EINVAL :: int where "EINVAL = 22"

text \<open>The fields of \<^verbatim>\<open>struct stat\<close> the store looks at: inode, link count, size.\<close>

definition io_fstat :: "io \<Rightarrow> nat \<Rightarrow> (int + nat \<times> nat \<times> nat) \<times> io" where
  "io_fstat io fd =
     (case next_outcome io of
        (Err e, io1) \<Rightarrow> (Inl (errval e), io1)
      | (_, io1) \<Rightarrow>
          (case map_of (io_fds io1) fd of
             None \<Rightarrow> (Inl (- EBADF), io1)
           | Some i \<Rightarrow> (Inr (i, nlink io1 i, length (content io1 i)), io1)))"

definition io_stat_ino :: "io \<Rightarrow> string \<Rightarrow> (int + nat) \<times> io" where
  "io_stat_ino io path =
     (case next_outcome io of
        (Err e, io1) \<Rightarrow> (Inl (errval e), io1)
      | (_, io1) \<Rightarrow>
          (case map_of (io_names io1) path of
             None \<Rightarrow> (Inl (- ENOENT), io1)
           | Some i \<Rightarrow> (Inr i, io1)))"

text \<open>\<^verbatim>\<open>open\<close> with \<^verbatim>\<open>O_CREAT | O_EXCL\<close>.\<close>

definition io_open_excl :: "io \<Rightarrow> string \<Rightarrow> int \<times> io" where
  "io_open_excl io path =
     (case next_outcome io of
        (Err e, io1) \<Rightarrow> (errval e, io1)
      | (_, io1) \<Rightarrow>
          (case map_of (io_names io1) path of
             Some i \<Rightarrow> (- EEXIST, io1)
           | None \<Rightarrow>
               (let n = io_next io1
                in (int n, (set_content io1 n [])\<lparr>io_names := AList.update path n (io_names io1),
                     io_fds := AList.update n n (io_fds io1), io_next := n + 1\<rparr>))))"

section \<open>Opening and creating\<close>

record slotStore =
  ss_fd :: nat
  ss_path :: string
  ss_hdr :: slotHeader
  ss_blob :: bytes
  ss_readOff :: nat
  ss_claimedEnd :: nat

definition mk_store :: "nat \<Rightarrow> string \<Rightarrow> slotHeader \<Rightarrow> bytes \<Rightarrow> slotStore" where
  "mk_store fd path hdr blob =
     \<lparr>ss_fd = fd, ss_path = path, ss_hdr = hdr, ss_blob = blob, ss_readOff = alignUp (u64 (kHeaderBytes + sh_blobLen hdr)), ss_claimedEnd = 0\<rparr>"

definition slot_path :: "string \<Rightarrow> string \<Rightarrow> string" where
  "slot_path objectDir hashHex = objectDir @ ''/'' @ hashHex @ ''.slots''"

datatype head_read = HeadOk slotHeader bytes | HeadUnusable | HeadNewer

definition readHeadAndBlob :: "io \<Rightarrow> nat \<Rightarrow> head_read \<times> io" where
  "readHeadAndBlob io fd =
     (case preadFull io fd kHeaderBytes 0 [] of
        (got, b, io1) \<Rightarrow>
          if got \<ge> 12 \<and> newerFormat b then (HeadNewer, io1)
          else if got \<noteq> int kHeaderBytes then (HeadUnusable, io1)
          else case decodeSlotHeader b of
            None \<Rightarrow> (HeadUnusable, io1)
          | Some h \<Rightarrow>
              if sh_blobLen h = 0 then (HeadOk h [], io1)
              else case preadFull io1 fd (sh_blobLen h) kHeaderBytes [] of
                (got2, blob, io2) \<Rightarrow>
                  if got2 \<noteq> int (sh_blobLen h) \<or> unat (crc32c blob) \<noteq> sh_blobCrc h then (HeadUnusable, io2)
                  else (HeadOk h blob, io2))"

definition kDebrisAgeS :: int where "kDebrisAgeS = 60"

definition isDebris :: "io \<Rightarrow> nat \<Rightarrow> (nat \<Rightarrow> int) \<Rightarrow> int \<Rightarrow> bool \<times> io" where
  "isDebris io fd mtimeS nowS =
     (case io_fstat io fd of
        (Inl e, io1) \<Rightarrow> (False, io1)
      | (Inr (ino, nl, sz), io1) \<Rightarrow> (nowS - mtimeS ino > kDebrisAgeS, io1))"

definition slot_open :: "io \<Rightarrow> string \<Rightarrow> string \<Rightarrow> slotStore option \<times> io" where
  "slot_open io objectDir hashHex =
     (let p = slot_path objectDir hashHex
      in case io_open io p False False of
           (fd, io1) \<Rightarrow>
             if fd < 0 then (None, io1)
             else case readHeadAndBlob io1 (nat fd) of
               (HeadOk h blob, io2) \<Rightarrow> (Some (mk_store (nat fd) p h blob), io2)
             | (_, io2) \<Rightarrow> (None, snd (io_close io2 (nat fd))))"

datatype slot_error =
  CannotMkdir int | NewerStore | BeingWritten | CannotOpen int | CannotCreate int | CannotWrite | CannotLink int | Raced

text \<open>One attempt to create: header and layout in a private file, linked into place. No result means that
  another process was first.\<close>

definition create_attempt :: "io \<Rightarrow> string \<Rightarrow> slotHeader \<Rightarrow> bytes \<Rightarrow> nat \<Rightarrow> string \<Rightarrow> (slot_error + slotStore) option \<times> io" where
  "create_attempt io p want0 blob storeId suffix =
     (let want = want0\<lparr>sh_storeId := storeId, sh_blobLen := length blob, sh_blobCrc := unat (crc32c blob)\<rparr>;
          tmp = p @ ''.tmp.'' @ suffix
      in case io_open_excl io tmp of
           (tfd, io1) \<Rightarrow>
             if tfd < 0 then (Some (Inl (CannotCreate tfd)), io1)
             else
               let hb = encodeSlotHeader want;
                   (w, io2) = pwriteFull io1 (nat tfd) hb 0 0;
                   ok1 = (w = int (length hb));
                   (ok2, io3) = (if ok1 \<and> blob \<noteq> []
                                 then (case pwriteFull io2 (nat tfd) blob kHeaderBytes 0 of (w2, io3) \<Rightarrow> (w2 = int (length blob), io3))
                                 else (ok1, io2));
                   (synced, io4) = (if ok2 then (case io_fdatasync io3 (nat tfd) of (rc, io4) \<Rightarrow> (rc = 0, io4)) else (False, io3))
               in if \<not> synced then (Some (Inl CannotWrite), snd (io_unlink (snd (io_close io4 (nat tfd))) tmp))
                  else
                    case io_link io4 tmp p of
                      (lrc, io5) \<Rightarrow>
                        let io6 = snd (io_unlink io5 tmp)
                        in if lrc = - EEXIST then (None, snd (io_close io6 (nat tfd)))
                           else if lrc < 0 then (Some (Inl (CannotLink lrc)), snd (io_close io6 (nat tfd)))
                           else (Some (Inr (mk_store (nat tfd) p want blob)), io6))"

text \<open>\<open>fresh\<close> gives the store id and the suffix of each attempt; the first argument counts the attempts left. The Boolean of a
  result tells whether this call created the store.\<close>

primrec create_loop :: "nat \<Rightarrow> io \<Rightarrow> string \<Rightarrow> slotHeader \<Rightarrow> bytes \<Rightarrow> (nat \<Rightarrow> nat \<times> string) \<Rightarrow> (nat \<Rightarrow> int) \<Rightarrow> int
    \<Rightarrow> (slot_error + slotStore \<times> bool) \<times> io" where
  "create_loop 0 io p want blob fresh mtimeS nowS = (Inl Raced, io)"
| "create_loop (Suc k) io p want blob fresh mtimeS nowS =
     (case io_open io p False False of
        (fd, io1) \<Rightarrow>
          if fd \<ge> 0
          then (case readHeadAndBlob io1 (nat fd) of
                  (HeadOk h b, io2) \<Rightarrow> (Inr (mk_store (nat fd) p h b, False), io2)
                | (HeadNewer, io2) \<Rightarrow> (Inl NewerStore, snd (io_close io2 (nat fd)))
                | (HeadUnusable, io2) \<Rightarrow>
                    (case isDebris io2 (nat fd) mtimeS nowS of
                       (debris, io3) \<Rightarrow>
                         let io4 = snd (io_close io3 (nat fd))
                         in if \<not> debris then (Inl BeingWritten, io4)
                            else create_loop k (snd (io_unlink io4 p)) p want blob fresh mtimeS nowS))
          else if fd \<noteq> - ENOENT then (Inl (CannotOpen fd), io1)
          else (case create_attempt io1 p want blob (fst (fresh k)) (snd (fresh k)) of
                  (Some (Inl e), io2) \<Rightarrow> (Inl e, io2)
                | (Some (Inr ss), io2) \<Rightarrow> (Inr (ss, True), io2)
                | (None, io2) \<Rightarrow> create_loop k io2 p want blob fresh mtimeS nowS))"

definition openOrCreate :: "io \<Rightarrow> string \<Rightarrow> string \<Rightarrow> slotHeader \<Rightarrow> bytes \<Rightarrow> (nat \<Rightarrow> nat \<times> string) \<Rightarrow> (nat \<Rightarrow> int) \<Rightarrow> int
    \<Rightarrow> (slot_error + slotStore \<times> bool) \<times> io" where
  "openOrCreate io objectDir hashHex want blob fresh mtimeS nowS =
     (case io_call io of
        (rc, io1) \<Rightarrow>
          if rc < 0 then (Inl (CannotMkdir rc), io1)
          else create_loop 3 io1 (slot_path objectDir hashHex) want blob fresh mtimeS nowS)"

section \<open>Questions about a store\<close>

definition slot_serving :: "io \<Rightarrow> string \<Rightarrow> string \<Rightarrow> bool \<times> io" where
  "slot_serving io objectDir hashHex =
     (case io_open io (slot_path objectDir hashHex) False False of
        (fd, io1) \<Rightarrow>
          if fd < 0 then (False, io1)
          else case preadFull io1 (nat fd) kHeaderBytes 0 [] of
            (got, b, io2) \<Rightarrow>
              ((got \<ge> 12 \<and> newerFormat b) \<or>
               (got = int kHeaderBytes \<and> (case decodeSlotHeader b of None \<Rightarrow> False | Some h \<Rightarrow> \<not> sh_declined h)),
               snd (io_close io2 (nat fd))))"

definition slot_newer :: "io \<Rightarrow> string \<Rightarrow> string \<Rightarrow> bool \<times> io" where
  "slot_newer io objectDir hashHex =
     (case io_open io (slot_path objectDir hashHex) False False of
        (fd, io1) \<Rightarrow>
          if fd < 0 then (False, io1)
          else case preadFull io1 (nat fd) 12 0 [] of
            (got, b, io2) \<Rightarrow> (got = 12 \<and> newerFormat b, snd (io_close io2 (nat fd))))"

definition holdsRecords :: "io \<Rightarrow> string \<Rightarrow> string \<Rightarrow> bool \<times> io" where
  "holdsRecords io objectDir hashHex =
     (case io_open io (slot_path objectDir hashHex) False False of
        (fd, io1) \<Rightarrow>
          if fd < 0 then (False, io1)
          else
            case preadFull io1 (nat fd) kHeaderBytes 0 [] of
              (got, b, io2) \<Rightarrow>
                (case (if got = int kHeaderBytes then decodeSlotHeader b else None) of
                   None \<Rightarrow> (False, snd (io_close io2 (nat fd)))
                 | Some h \<Rightarrow>
                     if sh_declined h then (False, snd (io_close io2 (nat fd)))
                     else
                       (case io_fstat io2 (nat fd) of
                          (Inl e, io3) \<Rightarrow> (False, snd (io_close io3 (nat fd)))
                        | (Inr (ino, nl, sz), io3) \<Rightarrow>
                            (sz > u64 (kHeaderBytes + sh_blobLen h + kAlign - 1) div kAlign * kAlign, snd (io_close io3 (nat fd))))))"

definition slot_drop :: "io \<Rightarrow> string \<Rightarrow> string \<Rightarrow> io" where
  "slot_drop io objectDir hashHex = snd (io_unlink io (slot_path objectDir hashHex))"

text \<open>The path still names the file of this store: the test of a commit and of \<^verbatim>\<open>dropIfCurrent\<close>; the size comes with the answer.\<close>

definition still_current :: "slotStore \<Rightarrow> io \<Rightarrow> nat option \<times> io" where
  "still_current ss io =
     (case io_fstat io (ss_fd ss) of
        (Inl e, io1) \<Rightarrow> (None, io1)
      | (Inr (ino, nl, sz), io1) \<Rightarrow>
          if nl = 0 then (None, io1)
          else case io_stat_ino io1 (ss_path ss) of
            (Inl e, io2) \<Rightarrow> (None, io2)
          | (Inr ino2, io2) \<Rightarrow> (if ino \<noteq> ino2 then None else Some sz, io2))"

definition dropIfCurrent :: "slotStore \<Rightarrow> io \<Rightarrow> bool \<Rightarrow> bool \<times> io" where
  "dropIfCurrent ss io busy =
     (if busy then (False, io)
      else case io_call io of
        (rc, io1) \<Rightarrow>
          if rc \<noteq> 0 then (False, io1)
          else case still_current ss io1 of
            (sz, io2) \<Rightarrow>
              let io3 = (if sz \<noteq> None then snd (io_unlink io2 (ss_path ss)) else io2)
              in (sz \<noteq> None, snd (io_call io3)))"

section \<open>Reading blocks\<close>

text \<open>The next block of the loop: the position, the furthest end claimed, the entries so far and the I/O state.\<close>

type_synonym scan = "nat \<times> nat \<times> slotEntry list \<times> io"

definition entry_in :: "nat \<Rightarrow> nat \<Rightarrow> slotEntry \<Rightarrow> bool" where
  "entry_in pos blockLen e \<longleftrightarrow>
     entry_known e \<and> (se_kind e = kKept \<or> (se_off e \<ge> pos \<and> u64 (se_off e + se_len e) \<le> u64 (pos + blockLen)))"

definition rb_step :: "slotStore \<Rightarrow> nat \<Rightarrow> scan \<Rightarrow> scan" where
  "rb_step ss en s =
     (case s of (pos, claimed, out, io) \<Rightarrow>
        case preadFull io (ss_fd ss) kBlockHeader pos [] of
          (got, h, io1) \<Rightarrow>
            let okHdr = (got = int kBlockHeader \<and> block_header_ok (sh_storeId (ss_hdr ss)) h);
                blockLen = (if okHdr then get_le 8 h 16 else 0);
                n = (if okHdr then get_le 4 h 24 else 0);
                claimed1 = (if okHdr \<and> blockLen \<ge> kBlockHeader \<and> blockLen < 2 ^ 40 then max claimed (u64 (pos + blockLen)) else claimed)
            in if \<not> okHdr \<or> blockLen < kBlockHeader + n * kEntry \<or> u64 (pos + blockLen) > en
               then (u64 (pos + kAlign), claimed1, out, io1)
               else
                 case (if n = 0 then (0, [], io1) else preadFull io1 (ss_fd ss) (n * kEntry) (pos + kBlockHeader) []) of
                   (got2, ents, io2) \<Rightarrow>
                     if n \<noteq> 0 \<and> (got2 \<noteq> int (n * kEntry) \<or> unat (crc32c ents) \<noteq> get_le 4 h 28)
                     then (u64 (pos + kAlign), claimed1, out, io2)
                     else (alignUp (u64 (pos + blockLen)), claimed1,
                           out @ filter (entry_in pos blockLen) (map (\<lambda>i. decodeEntry ents (i * kEntry)) [0..<n]), io2))"

partial_function (option) rb_loop :: "slotStore \<Rightarrow> nat \<Rightarrow> scan \<Rightarrow> scan option" where
  "rb_loop ss en s = (if u64 (fst s + kBlockHeader) \<le> en then rb_loop ss en (rb_step ss en s) else Some s)"

definition readBlocks :: "slotStore \<Rightarrow> io \<Rightarrow> nat \<Rightarrow> (slotEntry list \<times> slotStore \<times> io) option" where
  "readBlocks ss io en =
     (case rb_loop ss en (ss_readOff ss, ss_claimedEnd ss, [], io) of
        None \<Rightarrow> None
      | Some (pos, claimed, out, io1) \<Rightarrow>
          Some (out, ss\<lparr>ss_claimedEnd := claimed, ss_readOff := max (ss_readOff ss) pos\<rparr>, io1))"

definition refresh :: "slotStore \<Rightarrow> io \<Rightarrow> bool \<Rightarrow> bool \<Rightarrow> (slotEntry list \<times> slotStore \<times> io) option" where
  "refresh ss io wait busy =
     (if \<not> wait \<and> busy then Some ([], ss, io)
      else case io_fstat io (ss_fd ss) of
        (Inl e, io1) \<Rightarrow> Some ([], ss, io1)
      | (Inr (ino, nl, sz), io1) \<Rightarrow>
          if sz < u64 (ss_readOff ss + kBlockHeader) then Some ([], ss, io1)
          else case io_call io1 of
            (rc, io2) \<Rightarrow>
              if rc \<noteq> 0 then Some ([], ss, io2)
              else case io_fstat io2 (ss_fd ss) of
                (Inl e, io3) \<Rightarrow> Some ([], ss, snd (io_call io3))
              | (Inr (ino2, nl2, sz2), io3) \<Rightarrow>
                  map_option (\<lambda>(out, ss1, io4). (out, ss1, snd (io_call io4))) (readBlocks ss io3 sz2))"

section \<open>Commit\<close>

text \<open>The outcome of a commit: the result, the new entries, the entries of others reported to \<^verbatim>\<open>onOthers\<close>, the store and the I/O state.
  \<open>taken\<close> is asked after the entries of others were reported. Fewer than \<open>2 ^ 32\<close> records are committed at once.\<close>

type_synonym commit_result = "int \<times> slotEntry list \<times> slotEntry list \<times> slotStore \<times> io"

definition write_block :: "slotStore \<Rightarrow> io \<Rightarrow> nat \<Rightarrow> slotEntry list \<Rightarrow> slotRecord list \<Rightarrow> bool \<Rightarrow> commit_result" where
  "write_block ss io sz others ws sync =
     (let base = alignUp (max sz (max (ss_readOff ss) (ss_claimedEnd ss)));
          dataLen = sum_list (map (\<lambda>r. length (sr_bytes r)) ws);
          (blk, committed) = build_block (sh_storeId (ss_hdr ss)) base ws;
          (w, io1) = pwriteFull io (ss_fd ss) blk base 0
      in if w \<noteq> int (length blk) then (if w < 0 then w else - EIO, [], others, ss, io1)
         else
           let io2 = (if sync then snd (io_fdatasync io1 (ss_fd ss)) else io1)
           in (int dataLen, committed, others,
               ss\<lparr>ss_readOff := alignUp (u64 (base + length blk)), ss_claimedEnd := max (ss_claimedEnd ss) (u64 (base + length blk))\<rparr>, io2))"

definition commit_locked :: "slotStore \<Rightarrow> io \<Rightarrow> slotRecord list \<Rightarrow> (slotEntry list \<Rightarrow> nat \<Rightarrow> bool) \<Rightarrow> bool \<Rightarrow> commit_result option" where
  "commit_locked ss io recs taken sync =
     (case still_current ss io of
        (None, io1) \<Rightarrow> Some (- ESTALE, [], [], ss, io1)
      | (Some sz, io1) \<Rightarrow>
          (case readBlocks ss io1 sz of
             None \<Rightarrow> None
           | Some (others, ss1, io2) \<Rightarrow>
               let ws = filter (\<lambda>r. \<not> taken others (sr_slot r)) recs
               in Some (if ws = [] then (0, [], others, ss1, io2) else write_block ss1 io2 sz others ws sync)))"

definition slot_commit :: "slotStore \<Rightarrow> io \<Rightarrow> slotRecord list \<Rightarrow> (slotEntry list \<Rightarrow> nat \<Rightarrow> bool) \<Rightarrow> bool \<Rightarrow> commit_result option" where
  "slot_commit ss io recs taken sync =
     (if sh_declined (ss_hdr ss) then Some (- EINVAL, [], [], ss, io)
      else case io_call io of
        (rc, io1) \<Rightarrow>
          if rc \<noteq> 0 then Some (rc, [], [], ss, io1)
          else map_option (\<lambda>(r, com, oth, ss1, io2). (r, com, oth, ss1, snd (io_call io2))) (commit_locked ss io1 recs taken sync))"

definition readRecord :: "slotStore \<Rightarrow> io \<Rightarrow> slotEntry \<Rightarrow> bool \<times> bytes \<times> io" where
  "readRecord ss io e =
     (if se_kind e = kKept then (False, [], io)
      else case preadFull io (ss_fd ss) (se_len e) (se_off e) [] of
        (got, out, io1) \<Rightarrow>
          if got \<noteq> int (se_len e) then (False, out, io1)
          else (recordCrc (sh_storeId (ss_hdr ss)) (se_slot e) out = se_crc e, out, io1))"

definition slot_fileBytes :: "slotStore \<Rightarrow> io \<Rightarrow> nat \<times> io" where
  "slot_fileBytes ss io =
     (case io_fstat io (ss_fd ss) of (Inl e, io1) \<Rightarrow> (0, io1) | (Inr (ino, nl, sz), io1) \<Rightarrow> (sz, io1))"

end
