(* ===== verification/Slot_Log.thy ===== *)
theory Slot_Log
  imports Slot_Store
begin

text \<open>
  The blocks of a slot store as a log. The scan of the blocks of a file is first reduced, for runs without I/O faults, to a function
  of the file's bytes; then: how far a scan moves, what it has claimed at its end, and where it finds a block appended
  behind everything an earlier scan claimed.
\<close>

section \<open>Boundaries\<close>

lemma alignUp_props:
  assumes "v < 2 ^ 63"
  shows "v \<le> alignUp v" "alignUp v < v + 4096" "4096 dvd alignUp v"
proof -
  have u: "u64 (v + 4095) = v + 4095" using assms by simp
  have e: "alignUp v = (v + 4095) div 4096 * 4096" using u by (simp add: alignUp_def kAlign_def add.commute)
  show "4096 dvd alignUp v" by (simp add: e)
  show "v \<le> alignUp v" "alignUp v < v + 4096" unfolding e
    using div_times_less_eq_dividend [of "v + 4095" 4096] dividend_less_div_times [of 4096 "v + 4095"] by linarith+
qed

lemma aligned_next: "4096 dvd a \<Longrightarrow> 4096 dvd b \<Longrightarrow> a < b \<Longrightarrow> a + 4096 \<le> (b :: nat)"
  by (metis add.commute dvd_diff_nat dvd_imp_le le_add_diff_inverse less_imp_le nat_add_left_cancel_le zero_less_diff)

lemma alignUp_le: "v < 2 ^ 63 \<Longrightarrow> 4096 dvd b \<Longrightarrow> v \<le> b \<Longrightarrow> alignUp v \<le> b"
proof (rule ccontr)
  assume a: "v < 2 ^ 63" "4096 dvd b" "v \<le> b" "\<not> alignUp v \<le> b"
  then have "b + 4096 \<le> alignUp v" using aligned_next [OF a(2) alignUp_props(3) [OF a(1)]] by simp
  then show False using alignUp_props(2) [OF a(1)] a(3) by simp
qed

section \<open>The scan as a function of the bytes\<close>

text \<open>A block header at a position of a file, its claims, and the entries it announces.\<close>

definition header_at :: "nat \<Rightarrow> bytes \<Rightarrow> nat \<Rightarrow> bool" where
  "header_at sid f p \<longleftrightarrow> p + 64 \<le> length f \<and> block_header_ok sid (slice p 64 f)"

definition claim_at :: "bytes \<Rightarrow> nat \<Rightarrow> nat" where "claim_at f p = get_le 8 f (p + 16)"
definition count_at :: "bytes \<Rightarrow> nat \<Rightarrow> nat" where "count_at f p = get_le 4 f (p + 24)"

definition table_at :: "bytes \<Rightarrow> nat \<Rightarrow> bool" where
  "table_at f p \<longleftrightarrow> count_at f p = 0 \<or>
     (p + 64 + count_at f p * 24 \<le> length f \<and> unat (crc32c (slice (p + 64) (count_at f p * 24) f)) = get_le 4 f (p + 28))"

definition block_at :: "nat \<Rightarrow> bytes \<Rightarrow> nat \<Rightarrow> nat \<Rightarrow> bool" where
  "block_at sid f en p \<longleftrightarrow> header_at sid f p \<and> 64 + count_at f p * 24 \<le> claim_at f p \<and> u64 (p + claim_at f p) \<le> en \<and> table_at f p"

definition entries_at :: "bytes \<Rightarrow> nat \<Rightarrow> slotEntry list" where
  "entries_at f p = filter (entry_in p (claim_at f p))
     (map (\<lambda>i. decodeEntry (slice (p + 64) (count_at f p * 24) f) (i * 24)) [0..<count_at f p])"

definition claimed_at :: "nat \<Rightarrow> bytes \<Rightarrow> nat \<Rightarrow> nat \<Rightarrow> nat" where
  "claimed_at sid f p c =
     (if header_at sid f p \<and> 64 \<le> claim_at f p \<and> claim_at f p < 2 ^ 40 then max c (u64 (p + claim_at f p)) else c)"

lemma preadFull_exact:
  assumes "io_sched io = []" and "map_of (io_fds io) fd = Some i"
  shows "preadFull io fd cnt off [] = (int (min cnt (length (content io i) - off)), slice off cnt (content io i), io)"
proof -
  obtain r xs io1 where p: "preadFull io fd cnt off [] = (r, xs, io1)" by (metis prod_cases3)
  have r: "r = int (min cnt (length (content io i) - off))"
    using preadFull_benign [of io fd i "[]" off cnt] assms p by (simp add: benign_def)
  have s: "io_same io io1" "xs = slice off (length xs) (content io i)" "r = int (length xs)"
    using preadFull_spec [OF p assms(2)] r by simp_all
  have "io1 = io" using s(1) preadFull_sched [OF assms(1) p] assms(1) unfolding io_same_def by auto
  moreover have "xs = slice off cnt (content io i)" using s(2,3) r by (metis of_nat_eq_iff slice_min)
  ultimately show ?thesis using p r by simp
qed

lemma get_at: "p + 64 \<le> length f \<Longrightarrow> off + k \<le> 64 \<Longrightarrow> get_le k (slice p 64 f) off = get_le k f (p + off)"
  by (simp add: get_le_def slice_slice)

lemma rb_step_quiet:
  assumes "io_sched io = []" and "map_of (io_fds io) (ss_fd ss) = Some i"
  shows "rb_step ss en (pos, c, out, io) =
    (let f = content io i; sid = sh_storeId (ss_hdr ss) in
     if block_at sid f en pos then (alignUp (u64 (pos + claim_at f pos)), claimed_at sid f pos c, out @ entries_at f pos, io)
     else (u64 (pos + 4096), claimed_at sid f pos c, out, io))"
proof -
  define f where "f = content io i"
  define sid where "sid = sh_storeId (ss_hdr ss)"
  note R = preadFull_exact [OF assms, folded f_def]
  define ok where "ok = (min 64 (length f - pos) = 64 \<and> block_header_ok sid (slice pos 64 f))"
  have ok: "ok \<longleftrightarrow> header_at sid f pos" by (auto simp: ok_def header_at_def min_def)
  show ?thesis
  proof (cases "header_at sid f pos")
    case False
    then have "\<not> ok" by (simp add: ok)
    define g where "g = min 64 (length f - pos)"
    define hd where "hd = slice pos 64 f"
    have r: "preadFull io (ss_fd ss) kBlockHeader pos [] = (int g, hd, io)" by (simp add: R g_def hd_def kBlockHeader_def)
    have "g \<noteq> kBlockHeader \<or> \<not> block_header_ok sid hd" using \<open>\<not> ok\<close> by (auto simp: ok_def g_def hd_def kBlockHeader_def)
    then have "rb_step ss en (pos, c, out, io) = (u64 (pos + kAlign), c, out, io)"
      by (cases "g = kBlockHeader") (simp_all add: rb_step_def r sid_def [symmetric] Let_def)
    then show ?thesis using False by (simp add: f_def [symmetric] sid_def [symmetric] block_at_def claimed_at_def kAlign_def)
  next
    case True
    then have o: ok and l: "pos + 64 \<le> length f" by (simp_all add: ok header_at_def)
    have g: "get_le 8 (slice pos 64 f) 16 = claim_at f pos" "get_le 4 (slice pos 64 f) 24 = count_at f pos" "get_le 4 (slice pos 64 f) 28 = get_le 4 f (pos + 28)"
      using get_at [OF l] by (simp_all add: claim_at_def count_at_def)
    define hd where "hd = slice pos 64 f"
    define n where "n = count_at f pos"
    define g2 where "g2 = min (n * 24) (length f - (pos + 64))"
    define tb where "tb = slice (pos + 64) (n * 24) f"
    have r1: "preadFull io (ss_fd ss) kBlockHeader pos [] = (int kBlockHeader, hd, io)" using l by (simp add: R hd_def kBlockHeader_def)
    have r2: "preadFull io (ss_fd ss) (n * kEntry) (pos + kBlockHeader) [] = (int g2, tb, io)" by (simp add: R g2_def tb_def slot_consts)
    have b: "block_header_ok sid hd" using o by (simp add: ok_def hd_def)
    have mn: "g2 = n * kEntry \<longleftrightarrow> pos + 64 + n * 24 \<le> length f" using l by (auto simp: min_def g2_def kEntry_def)
    note g' = g [folded hd_def n_def]
    have cl: "claimed_at sid f pos c = (if claim_at f pos \<ge> kBlockHeader \<and> claim_at f pos < 2 ^ 40 then max c (u64 (pos + claim_at f pos)) else c)"
      by (simp add: claimed_at_def True kBlockHeader_def)
    have en: "entries_at f pos = filter (entry_in pos (claim_at f pos)) (map (\<lambda>i. decodeEntry tb (i * kEntry)) [0..<n])"
      by (simp add: entries_at_def tb_def n_def kEntry_def)
    have zero: "n = 0 \<Longrightarrow> tb = []" by (simp add: tb_def)
    have step: "rb_step ss en (pos, c, out, io) =
        (if claim_at f pos < kBlockHeader + n * kEntry \<or> u64 (pos + claim_at f pos) > en then (u64 (pos + kAlign), claimed_at sid f pos c, out, io)
         else if n \<noteq> 0 \<and> (g2 \<noteq> n * kEntry \<or> unat (crc32c tb) \<noteq> get_le 4 f (pos + 28)) then (u64 (pos + kAlign), claimed_at sid f pos c, out, io)
         else (alignUp (u64 (pos + claim_at f pos)), claimed_at sid f pos c, out @ entries_at f pos, io))"
      unfolding rb_step_def prod.case r1 Let_def sid_def [symmetric] cl en using b zero
      by (cases "n = 0") (simp_all add: g' r2 del: of_nat_mult upt_Suc)
    have bl: "block_at sid f en pos \<longleftrightarrow> \<not> (claim_at f pos < kBlockHeader + n * kEntry \<or> u64 (pos + claim_at f pos) > en) \<and>
        \<not> (n \<noteq> 0 \<and> (g2 \<noteq> n * kEntry \<or> unat (crc32c tb) \<noteq> get_le 4 f (pos + 28)))"
      unfolding mn by (auto simp: block_at_def table_at_def True n_def tb_def slot_consts)
    show ?thesis unfolding step f_def [symmetric] sid_def [symmetric] Let_def bl by (simp add: kAlign_def)
  qed
qed

text \<open>Headers that claim so much that the end of the block wraps around are the only obstacle to a scan's end.\<close>

definition sane_claims :: "nat \<Rightarrow> bytes \<Rightarrow> bool" where
  "sane_claims sid f \<longleftrightarrow> (\<forall>p. 4096 dvd p \<and> header_at sid f p \<longrightarrow> claim_at f p < 2 ^ 63)"

text \<open>A reader of a file without faults.\<close>

definition reads_file :: "slotStore \<Rightarrow> io \<Rightarrow> bytes \<Rightarrow> bool" where
  "reads_file ss io f \<longleftrightarrow> io_sched io = [] \<and> (\<exists>i. map_of (io_fds io) (ss_fd ss) = Some i \<and> content io i = f)"

definition next_pos :: "nat \<Rightarrow> bytes \<Rightarrow> nat \<Rightarrow> nat" where
  "next_pos sid f pos = (if block_at sid f (length f) pos then alignUp (pos + claim_at f pos) else pos + 4096)"

definition next_out :: "nat \<Rightarrow> bytes \<Rightarrow> nat \<Rightarrow> slotEntry list" where
  "next_out sid f pos = (if block_at sid f (length f) pos then entries_at f pos else [])"

lemma block_claim:
  assumes "sane_claims sid f" and "block_at sid f (length f) pos" and "pos \<le> length f" and "length f < 2 ^ 62" and "4096 dvd pos"
  shows "u64 (pos + claim_at f pos) = pos + claim_at f pos" "64 \<le> claim_at f pos" "pos + claim_at f pos \<le> length f"
proof -
  have "claim_at f pos < 2 ^ 63" using assms(1,2,5) by (simp add: sane_claims_def block_at_def)
  then show u: "u64 (pos + claim_at f pos) = pos + claim_at f pos" using assms(3,4) by simp
  show "64 \<le> claim_at f pos" "pos + claim_at f pos \<le> length f" using assms(2) u by (simp_all add: block_at_def)
qed

lemma scan_step:
  assumes "reads_file ss io f" and "sid = sh_storeId (ss_hdr ss)" and "sane_claims sid f" and "pos + 64 \<le> length f" and "length f < 2 ^ 62" and "4096 dvd pos"
  shows "rb_step ss (length f) (pos, c, out, io) = (next_pos sid f pos, claimed_at sid f pos c, out @ next_out sid f pos, io)"
    "pos + 64 \<le> next_pos sid f pos" "next_pos sid f pos \<le> length f + 4096" "4096 dvd next_pos sid f pos"
proof -
  obtain i where i: "io_sched io = []" "map_of (io_fds io) (ss_fd ss) = Some i" "content io i = f" using assms(1) by (auto simp: reads_file_def)
  have u: "u64 (pos + 4096) = pos + 4096" using assms(4,5) by simp
  have p: "pos \<le> length f" using assms(4) by simp
  note B = block_claim [OF assms(3) _ p assms(5,6)]
  show "rb_step ss (length f) (pos, c, out, io) = (next_pos sid f pos, claimed_at sid f pos c, out @ next_out sid f pos, io)"
    using rb_step_quiet [OF i(1,2), of "length f" pos c out] B(1) u
    by (simp add: i(3) assms(2) [symmetric] Let_def next_pos_def next_out_def)
  have "pos + 64 \<le> alignUp (pos + claim_at f pos) \<and> alignUp (pos + claim_at f pos) \<le> length f + 4096 \<and> 4096 dvd alignUp (pos + claim_at f pos)"
    if b: "block_at sid f (length f) pos"
  proof -
    have l: "pos + claim_at f pos < 2 ^ 63" using B(3) [OF b] assms(5) by simp
    show ?thesis using alignUp_props [OF l] B(2,3) [OF b] by simp
  qed
  then show "pos + 64 \<le> next_pos sid f pos" "next_pos sid f pos \<le> length f + 4096" "4096 dvd next_pos sid f pos"
    using p assms(6) by (auto simp: next_pos_def)
qed

lemma scan_loop:
  assumes "reads_file ss io f" and "sid = sh_storeId (ss_hdr ss)" and "sane_claims sid f" and "length f < 2 ^ 62" and "pos < 2 ^ 63" and "4096 dvd pos"
  shows "rb_loop ss (length f) (pos, c, out, io) =
    (if pos + 64 \<le> length f then rb_loop ss (length f) (next_pos sid f pos, claimed_at sid f pos c, out @ next_out sid f pos, io)
     else Some (pos, c, out, io))"
  using scan_step(1) [OF assms(1-3) _ assms(4,6), of c out] assms(5)
  by (subst rb_loop.simps) (simp add: kBlockHeader_def)

lemma claimed_at_ge: "c \<le> claimed_at sid f p c"
  by (simp add: claimed_at_def)

text \<open>A scan ends, has moved forward and kept the claims it met.\<close>

lemma scan_ends:
  assumes "reads_file ss io f" and "sid = sh_storeId (ss_hdr ss)" and "sane_claims sid f" and "length f < 2 ^ 62" and "pos < 2 ^ 63" and "4096 dvd pos"
  shows "\<exists>pos' c' out'. rb_loop ss (length f) (pos, c, out, io) = Some (pos', c', out', io) \<and> pos \<le> pos' \<and> c \<le> c' \<and>
    pos' \<le> max pos (length f + 4096) \<and> c' \<le> max c (length f + 2 ^ 40)"
  using assms(5,6)
proof (induction "length f - pos" arbitrary: pos c out rule: less_induct)
  case less
  show ?case
  proof (cases "pos + 64 \<le> length f")
    case False
    then show ?thesis using scan_loop [OF assms(1-4) less.prems, of c out] by auto
  next
    case True
    note S = scan_step [OF assms(1-3) True assms(4) less.prems(2)]
    have m: "length f - next_pos sid f pos < length f - pos" "next_pos sid f pos < 2 ^ 63" using S(2,3) True assms(4) by simp_all
    have c: "c \<le> claimed_at sid f pos c" "claimed_at sid f pos c \<le> max c (length f + 2 ^ 40)"
      using True u64_le [of "pos + claim_at f pos"] by (auto simp: claimed_at_def max_def)
    obtain pos' c' out' where r: "rb_loop ss (length f) (next_pos sid f pos, claimed_at sid f pos c, out @ next_out sid f pos, io) = Some (pos', c', out', io)"
        "next_pos sid f pos \<le> pos'" "claimed_at sid f pos c \<le> c'" "pos' \<le> max (next_pos sid f pos) (length f + 4096)"
        "c' \<le> max (claimed_at sid f pos c) (length f + 2 ^ 40)"
      using less.hyps [OF m S(4)] by blast
    show ?thesis
      using scan_loop [OF assms(1-4) less.prems, of c out] True r S(2,3) c
      by (intro exI [of _ pos'] exI [of _ c'] exI [of _ out']) (auto simp: max_def split: if_splits)
  qed
qed

section \<open>An appended block\<close>

definition record_ok :: "slotRecord \<Rightarrow> bool" where
  "record_ok r \<longleftrightarrow> sr_slot r < 2 ^ 32 \<and> sr_kind r \<in> {kZstd, kRaw, kKept} \<and> length (sr_bytes r) < 2 ^ 32"

text \<open>The file after a commit: the old bytes, a gap of zeros up to the next boundary, the block. No header comes to life in the gap: a
  header of which a crash left less than 64 bytes does not become valid by zeros.\<close>

definition appended :: "nat \<Rightarrow> bytes \<Rightarrow> nat \<Rightarrow> slotRecord list \<Rightarrow> bytes \<Rightarrow> slotEntry list \<Rightarrow> bytes \<Rightarrow> bool" where
  "appended sid f base ws blk com f' \<longleftrightarrow> f' = f @ replicate (base - length f) 0 @ blk \<and> length f \<le> base \<and> 4096 dvd base \<and>
     build_block sid base ws = (blk, com) \<and> list_all record_ok ws \<and> length ws < 2 ^ 32 \<and> sid < 2 ^ 64 \<and> length f' < 2 ^ 40"

definition no_stub :: "nat \<Rightarrow> bytes \<Rightarrow> bool" where
  "no_stub sid f \<longleftrightarrow> (\<forall>p k. 4096 dvd p \<and> p < length f \<and> length f < p + 64 \<longrightarrow> \<not> block_header_ok sid (slice p 64 (f @ replicate k 0)))"

lemma appended_block:
  assumes "appended sid f base ws blk com f'"
  shows "length f' = base + length blk" "length blk < 2 ^ 40" "off + k \<le> length blk \<Longrightarrow> slice (base + off) k f' = slice off k blk"
    "p + k \<le> length f \<Longrightarrow> slice p k f' = slice p k f" "length f \<le> p \<Longrightarrow> p + k \<le> base \<Longrightarrow> slice p k f' = replicate k 0"
    "p < length f \<Longrightarrow> p + 64 \<le> base \<Longrightarrow> slice p 64 f' = slice p 64 (f @ replicate (base - length f) 0)"
proof -
  have A: "f' = f @ replicate (base - length f) 0 @ blk" "length f \<le> base" "length f' < 2 ^ 40" using assms by (auto simp: appended_def)
  show l: "length f' = base + length blk" using A by simp
  show "length blk < 2 ^ 40" using A(3) l by simp
  have e: "f' = (f @ replicate (base - length f) 0) @ blk" "length (f @ replicate (base - length f) (0 :: byte)) = base" using A by simp_all
  then show "slice (base + off) k f' = slice off k blk" if "off + k \<le> length blk"
    by (simp add: slice_append_right)
  show "slice p k f' = slice p k f" if "p + k \<le> length f" using that by (simp add: A(1) slice_append_left)
  show "slice p k f' = replicate k 0" if "length f \<le> p" "p + k \<le> base"
    using that by (simp add: A(1) slice_def take_replicate)
  show "slice p 64 f' = slice p 64 (f @ replicate (base - length f) 0)" if "p < length f" "p + 64 \<le> base"
    unfolding e(1) using that e(2) by (simp only: slice_append_left)
qed

lemma block_entries_in:
  assumes "list_all record_ok ws" and "base + p0 + sum_list (map (\<lambda>r. length (sr_bytes r)) ws) < 2 ^ 63"
    and "p0 + sum_list (map (\<lambda>r. length (sr_bytes r)) ws) \<le> len" and "base + len < 2 ^ 63"
  shows "list_all entry_ok (block_entries sid base p0 ws)" "filter (entry_in base len) (block_entries sid base p0 ws) = block_entries sid base p0 ws"
proof -
  have k: "kZstd < 2 ^ 8" "kRaw < 2 ^ 8" "kKept < 2 ^ 8" by (simp_all add: kZstd_def kRaw_def kKept_def)
  have crc: "recordCrc sid s p < 2 ^ 32" for s p
    using unat_u32_bound [of "crc32c_from (crc32c_from 0 (put_fields [(8, 0, sid), (4, 8, s), (4, 12, u32n (length p))] (replicate 16 0))) p"]
    unfolding recordCrc_def Let_def by simp
  have e: "entry_ok e \<and> entry_in base len e" if m: "e \<in> set (block_entries sid base p0 ws)" for e
  proof -
    obtain r q where r: "(r, q) \<in> set (places p0 ws)" "e = record_entry sid (u64 (base + q)) r"
      using m by (auto simp: block_entries_def)
    have "r \<in> set ws" using r(1) by (metis fst_conv fst_places image_eqI set_map)
    then have ok: "record_ok r" using assms(1) by (simp add: list_all_iff)
    note b = places_bounds [OF r(1)]
    have u: "u64 (base + q) = base + q" "u64 (base + len) = base + len" using b assms(2,4) by simp_all
    show ?thesis
    proof (cases "sr_kind r = kKept")
      case True
      then show ?thesis using ok k by (simp add: r(2) record_entry_def entry_ok_def entry_in_def entry_known_def record_ok_def)
    next
      case False
      have l: "u32n (length (sr_bytes r)) = length (sr_bytes r)" "placed r = length (sr_bytes r)" using ok False by (simp_all add: record_ok_def placed_def)
      have "q + length (sr_bytes r) \<le> len" using b l assms(3) by simp
      then have v: "u64 (base + q + length (sr_bytes r)) = base + q + length (sr_bytes r)" "base + q + length (sr_bytes r) \<le> base + len" using assms(4) by simp_all
      have "sr_kind r < 2 ^ 8" "sr_kind r \<in> {kZstd, kRaw, kKept}" using ok k by (auto simp: record_ok_def)
      then show ?thesis using ok False crc [of "sr_slot r" "sr_bytes r"] u v l assms(4)
        by (auto simp: r(2) record_entry_def entry_ok_def entry_in_def entry_known_def record_ok_def)
    qed
  qed
  show "list_all entry_ok (block_entries sid base p0 ws)" using e by (simp add: list_all_iff)
  show "filter (entry_in base len) (block_entries sid base p0 ws) = block_entries sid base p0 ws" using e by (simp add: filter_id_conv)
qed

lemma take_slice_0: "take k xs = slice 0 k xs"
  by (simp add: slice_def)

text \<open>At its base a reader finds the block with the entries that were committed.\<close>

lemma appended_found:
  assumes "appended sid f base ws blk com f'"
  shows "header_at sid f' base" "claim_at f' base = length blk" "block_at sid f' (length f') base" "entries_at f' base = com"
proof -
  note L = appended_block [OF assms]
  have A: "build_block sid base ws = (blk, com)" "list_all record_ok ws" "length ws < 2 ^ 32" "sid < 2 ^ 64" "length f' < 2 ^ 40"
    using assms by (auto simp: appended_def)
  have "length blk < 2 ^ 64" using L(2) by simp
  note B = build_block_spec [OF A(1) this A(3,4)]
  have sl: "slice (base + off) k f' = slice off k blk" if "off + k \<le> 64 + 24 * length ws" for off k
    by (rule L(3)) (use that B(1) in simp)
  have g: "get_le k f' (base + off) = get_le k blk off" if "off + k \<le> 64 + 24 * length ws" for off k
    unfolding get_le_def sl [OF that] ..
  show h: "header_at sid f' base"
  proof -
    have "slice base 64 f' = slice 0 64 blk" using sl [of 0 64] by simp
    moreover have "take 8 (slice 0 64 blk) = take 8 blk" "take 60 (slice 0 64 blk) = take 60 blk" by (simp_all add: slice_def min_def)
    moreover have "get_le 8 (slice 0 64 blk) 8 = get_le 8 blk 8" "get_le 4 (slice 0 64 blk) 60 = get_le 4 blk 60"
      using get_at [of 0 blk 8 8] get_at [of 0 blk 60 4] B(1) by simp_all
    ultimately show ?thesis using B(5) L(1) B(1) by (simp add: header_at_def block_header_ok_def)
  qed
  show c: "claim_at f' base = length blk" using g [of 16 8] B(6) by (simp add: claim_at_def)
  have n: "count_at f' base = length ws" using g [of 24 4] B(7) by (simp add: count_at_def)
  have tb: "slice (base + 64) (length ws * 24) f' = slice 64 (24 * length ws) blk" using sl [of 64 "24 * length ws"] by (simp add: mult.commute)
  have "u64 (base + length blk) = base + length blk" using A(5) L(1) by simp
  moreover have "get_le 4 f' (base + 28) = get_le 4 blk 28" using g [of 28 4] by simp
  ultimately show "block_at sid f' (length f') base"
    using h B(1,8) L(1) by (simp add: block_at_def c n table_at_def tb)
  have bound: "base + (64 + 24 * length ws) + sum_list (map (\<lambda>r. length (sr_bytes r)) ws) < 2 ^ 63" "base + length blk < 2 ^ 63"
    using A(5) L(1) B(1) by simp_all
  note E = block_entries_in [OF A(2) bound(1) _ bound(2), of sid, folded B(2)]
  have lc: "length com = length ws" by (simp add: B(2) block_entries_def)
  have ok: "list_all entry_ok com" using E(1) B(1) by simp
  have "map (\<lambda>i. decodeEntry (slice 64 (24 * length ws) blk) (0 + 24 * i)) [0..<length com] = com"
    by (rule ent.dec_table [OF ok]) (simp_all add: B(3) lc slice_all)
  then have "map (\<lambda>i. decodeEntry (slice 64 (24 * length ws) blk) (i * 24)) [0..<length ws] = com" by (simp add: lc mult.commute)
  then show "entries_at f' base = com" using E(2) B(1) by (simp add: entries_at_def c n tb)
qed

lemma scan_tail:
  assumes "appended sid f base ws blk com f'" and "reads_file ss io f'" and "sid = sh_storeId (ss_hdr ss)" and "sane_claims sid f'"
  shows "\<exists>p c'. rb_loop ss (length f') (base, c, out, io) = Some (p, c', out @ com, io)"
proof -
  note L = appended_block [OF assms(1)]
  note F = appended_found [OF assms(1)]
  have l: "length f' < 2 ^ 40" and ba: "4096 dvd base" using assms(1) unfolding appended_def by blast+
  then have l2: "length f' < 2 ^ 62" "base < 2 ^ 63" using L(1) by simp_all
  have h: "base + 64 \<le> length f'" using F(1) by (simp add: header_at_def)
  have np: "next_pos sid f' base = alignUp (length f')" "next_out sid f' base = com" using F L(1) by (simp_all add: next_pos_def next_out_def)
  have lf: "length f' < 2 ^ 63" using l by simp
  have a: "length f' \<le> alignUp (length f')" "alignUp (length f') < 2 ^ 63" using alignUp_props(1,2) [OF lf] l by simp_all
  have "rb_loop ss (length f') (base, c, out, io) = rb_loop ss (length f') (alignUp (length f'), claimed_at sid f' base c, out @ com, io)"
    using scan_loop [OF assms(2-4) l2 ba, of c out] h np by simp
  also have "\<dots> = Some (alignUp (length f'), claimed_at sid f' base c, out @ com, io)"
    using scan_loop [OF assms(2-4) l2(1) a(2) alignUp_props(3) [OF lf], of "claimed_at sid f' base c" "out @ com"] a(1) by simp
  finally show ?thesis by blast
qed

text \<open>Over the gap: from a boundary at or behind the last place an old header fits, up to the block.\<close>

lemma scan_gap:
  assumes "appended sid f base ws blk com f'" and "reads_file ss io f'" and "sid = sh_storeId (ss_hdr ss)" and "sane_claims sid f'"
    and "no_stub sid f" and "4096 dvd pos" and "pos \<le> base" and "length f < pos + 64"
  shows "\<exists>p c'. rb_loop ss (length f') (pos, c, out, io) = Some (p, c', out @ com, io)"
  using assms(6-8)
proof (induction "base - pos" arbitrary: pos c rule: less_induct)
  case less
  show ?case
  proof (cases "pos = base")
    case True
    then show ?thesis using scan_tail [OF assms(1-4)] by simp
  next
    case False
    have bd: "4096 dvd base" "length f' < 2 ^ 40" using assms(1) unfolding appended_def by blast+
    note L = appended_block [OF assms(1)]
    have nx: "pos + 4096 \<le> base" using aligned_next [OF less.prems(1) bd(1)] False less.prems(2) by simp
    have "\<not> block_header_ok sid (slice pos 64 f')"
    proof (cases "length f \<le> pos")
      case True
      then have "slice pos 64 f' = replicate 64 0" using L(5) [of pos 64] nx by simp
      then have "take 8 (slice pos 64 f') = replicate 8 0" by simp
      moreover have "hd (replicate 8 0) \<noteq> hd blockMagic" by (simp add: blockMagic_def byte_of_char_def)
      ultimately show ?thesis unfolding block_header_ok_def by metis
    next
      case False
      then show ?thesis using L(6) [of pos] nx assms(5) less.prems(1,3) by (simp add: no_stub_def)
    qed
    then have nh: "\<not> header_at sid f' pos" by (simp add: header_at_def)
    have l: "length f' < 2 ^ 62" "pos < 2 ^ 63" "pos + 64 \<le> length f'" using bd(2) nx L(1) by simp_all
    have "rb_loop ss (length f') (pos, c, out, io) = rb_loop ss (length f') (pos + 4096, c, out, io)"
      using scan_loop [OF assms(2-4) l(1,2) less.prems(1), of c out] l(3) nh by (simp add: next_pos_def next_out_def block_at_def claimed_at_def)
    moreover have "\<exists>p c'. rb_loop ss (length f') (pos + 4096, c, out, io) = Some (p, c', out @ com, io)"
      by (rule less.hyps) (use nx less.prems in simp_all)
    ultimately show ?thesis by simp
  qed
qed

text \<open>Below the old end both files show the same headers and, for blocks inside it, the same tables.\<close>

lemma appended_same:
  assumes "appended sid f base ws blk com f'" and "p + 64 \<le> length f"
  shows "header_at sid f' p = header_at sid f p" "claim_at f' p = claim_at f p" "count_at f' p = count_at f p"
    "p + 64 + count_at f p * 24 \<le> length f \<Longrightarrow> table_at f' p = table_at f p"
    "p + 64 + count_at f p * 24 \<le> length f \<Longrightarrow> entries_at f' p = entries_at f p"
proof -
  note L = appended_block [OF assms(1)]
  have le: "length f \<le> length f'" using L(1) assms(1) by (simp add: appended_def)
  have g: "get_le k f' (p + off) = get_le k f (p + off)" if "off + k \<le> 64" for off k
    using L(4) [of "p + off" k] that assms(2) by (simp add: get_le_def)
  show "header_at sid f' p = header_at sid f p" using L(4) [of p 64] assms(2) le by (simp add: header_at_def)
  show c: "claim_at f' p = claim_at f p" "count_at f' p = count_at f p" using g [of 16 8] g [of 24 4] by (simp_all add: claim_at_def count_at_def)
  show "table_at f' p = table_at f p" "entries_at f' p = entries_at f p" if t: "p + 64 + count_at f p * 24 \<le> length f"
    using L(4) [of "p + 64" "count_at f p * 24"] t le g [of 28 4] by (simp_all add: table_at_def entries_at_def c)
qed

lemma sane_claims_before:
  assumes "appended sid f base ws blk com f'" and "sane_claims sid f'"
  shows "sane_claims sid f"
  unfolding sane_claims_def
proof (intro allI impI)
  fix p assume h: "4096 dvd p \<and> header_at sid f p"
  then have l: "p + 64 \<le> length f" by (simp add: header_at_def)
  show "claim_at f p < 2 ^ 63" using assms(2) h appended_same(1,2) [OF assms(1) l] unfolding sane_claims_def by metis
qed

lemma scan_sync:
  assumes app: "appended sid f base ws blk com f'" and rd: "reads_file ss io f'" "sid = sh_storeId (ss_hdr ss)"
    and wr: "reads_file wss wio f" "sid = sh_storeId (ss_hdr wss)" and sane: "sane_claims sid f'" and stub: "no_stub sid f"
    and cw: "cw \<le> base" and pos: "4096 dvd pos" "pos \<le> base" and loop: "rb_loop wss (length f) (pos, wc, wout, wio) = Some (pw, cw, ow, wio')"
  shows "\<exists>pre p c'. rb_loop ss (length f') (pos, c, out, io) = Some (p, c', out @ pre @ com, io)"
  using pos loop
proof (induction "length f - pos" arbitrary: pos wc wout c out rule: less_induct)
  case less
  have fl: "length f' < 2 ^ 40" "length f \<le> base" "4096 dvd base" using app unfolding appended_def by blast+
  note L = appended_block [OF app]
  have sf: "sane_claims sid f" by (rule sane_claims_before [OF app sane])
  have b: "length f' < 2 ^ 62" "length f < 2 ^ 62" "pos < 2 ^ 63" using fl L(1) less.prems(2) by simp_all
  show ?case
  proof (cases "pos + 64 \<le> length f")
    case False
    then obtain p c' where "rb_loop ss (length f') (pos, c, out, io) = Some (p, c', out @ com, io)"
      using scan_gap [OF app rd sane stub less.prems(1,2), of c out] by auto
    then show ?thesis by (intro exI [of _ "[]"]) auto
  next
    case True
    define wc1 where "wc1 = claimed_at sid f pos wc"
    have w: "rb_loop wss (length f) (next_pos sid f pos, wc1, wout @ next_out sid f pos, wio) = Some (pw, cw, ow, wio')"
      using less.prems(3) scan_loop [OF wr sf b(2,3) less.prems(1), of wc wout] True by (simp add: wc1_def)
    note SW = scan_step [OF wr sf True b(2) less.prems(1)]
    have np: "next_pos sid f pos < 2 ^ 63" using SW(3) b(2) by simp
    have wc1: "wc1 \<le> base" using scan_ends [OF wr sf b(2) np SW(4), of wc1 "wout @ next_out sid f pos"] w cw by auto
    have rl: "rb_loop ss (length f') (pos, c, out, io) =
        rb_loop ss (length f') (next_pos sid f' pos, claimed_at sid f' pos c, out @ next_out sid f' pos, io)"
      using scan_loop [OF rd sane b(1,3) less.prems(1), of c out] True L(1) fl(2) by simp
    note S = appended_same [OF app True]
    have pos4: "pos + 4096 \<le> base" using aligned_next [OF less.prems(1) fl(3)] True fl(2) by simp
    have sync: "?thesis" if same: "next_pos sid f' pos = next_pos sid f pos" and le: "next_pos sid f pos \<le> base"
    proof -
      have "length f - next_pos sid f pos < length f - pos" using SW(2) True by linarith
      from less.hyps [OF this SW(4) le w, of "claimed_at sid f' pos c" "out @ next_out sid f' pos"]
      obtain pre p c' where "rb_loop ss (length f') (next_pos sid f pos, claimed_at sid f' pos c, out @ next_out sid f' pos, io) =
          Some (p, c', (out @ next_out sid f' pos) @ pre @ com, io)" by blast
      then show ?thesis unfolding rl same by (intro exI [of _ "next_out sid f' pos @ pre"]) auto
    qed
    have jump: "pos + claim_at f' pos \<le> length f'" "u64 (pos + claim_at f' pos) = pos + claim_at f' pos" if bl: "block_at sid f' (length f') pos"
      using block_claim [OF sane bl _ b(1) less.prems(1)] True L(1) fl(2) by simp_all
    consider (both) "block_at sid f (length f) pos" | (old) "\<not> block_at sid f (length f) pos" "\<not> block_at sid f' (length f') pos"
      | (torn) "\<not> block_at sid f (length f) pos" "block_at sid f' (length f') pos" by blast
    then show ?thesis
    proof cases
      case both
      have q: "pos + claim_at f pos \<le> length f" using block_claim(3) [OF sf both _ b(2) less.prems(1)] True by simp
      have t: "pos + 64 + count_at f pos * 24 \<le> length f" using both q by (simp add: block_at_def)
      have "u64 (pos + claim_at f pos) \<le> length f'" using q fl(2) L(1) u64_le [of "pos + claim_at f pos"] by linarith
      then have "block_at sid f' (length f') pos" using both S(1-3) S(4) [OF t] by (simp add: block_at_def)
      then have "next_pos sid f' pos = next_pos sid f pos" using both S(2) by (simp add: next_pos_def)
      moreover have "next_pos sid f pos \<le> base" using alignUp_le [OF _ fl(3), of "pos + claim_at f pos"] q fl(2) b(2) both by (simp add: next_pos_def)
      ultimately show ?thesis by (rule sync)
    next
      case old
      then show ?thesis using pos4 by (intro sync) (simp_all add: next_pos_def)
    next
      case torn
      note J = jump [OF torn(2)]
      have h: "header_at sid f pos" "64 + count_at f pos * 24 \<le> claim_at f pos" using torn(2) S(1-3) by (simp_all add: block_at_def)
      have far: "length f < pos + claim_at f pos"
      proof (rule ccontr)
        assume n: "\<not> ?thesis"
        then have "table_at f pos" using S(4) torn(2) h(2) by (simp add: block_at_def)
        then show False using torn(1) h n u64_le [of "pos + claim_at f pos"] by (simp add: block_at_def)
      qed
      have "pos + claim_at f pos < 2 ^ 40" using J(1) fl(1) S(2) by simp
      then have "pos + claim_at f pos \<le> wc1" using h by (simp add: wc1_def claimed_at_def)
      then have e: "pos + claim_at f pos \<le> base" using wc1 by simp
      have s63: "pos + claim_at f pos < 2 ^ 63" using e fl(1) L(1) by simp
      have nx: "next_pos sid f' pos = alignUp (pos + claim_at f pos)" using torn(2) S(2) by (simp add: next_pos_def)
      have "length f < next_pos sid f' pos + 64" using alignUp_props(1) [OF s63] far nx by simp
      moreover have "next_pos sid f' pos \<le> base" using alignUp_le [OF s63 fl(3) e] nx by simp
      moreover have "4096 dvd next_pos sid f' pos" using alignUp_props(3) [OF s63] nx by simp
      ultimately obtain p c' where "rb_loop ss (length f') (next_pos sid f' pos, claimed_at sid f' pos c, out @ next_out sid f' pos, io) =
          Some (p, c', (out @ next_out sid f' pos) @ com, io)"
        using scan_gap [OF app rd sane stub] by blast
      then show ?thesis unfolding rl by (intro exI [of _ "next_out sid f' pos"]) auto
    qed
  qed
qed

section \<open>Commits without faults\<close>

lemma pwriteFull_exact:
  assumes "io_sched io = []" and "map_of (io_fds io) fd = Some i" and "buf \<noteq> []"
  shows "pwriteFull io fd buf off 0 = (int (length buf), set_content io i (pwrite_bytes (content io i) off buf))"
  using assms by (simp add: pwriteFull.simps [of io] io_pwrite_def Let_def pwriteFull.simps [of "set_content _ _ _"])

lemma io_call_quiet: "io_sched io = [] \<Longrightarrow> io_call io = (0, io)"
  by (simp add: io_call_def)

lemma io_fstat_quiet: "io_sched io = [] \<Longrightarrow> map_of (io_fds io) fd = Some i \<Longrightarrow> io_fstat io fd = (Inr (i, nlink io i, length (content io i)), io)"
  by (simp add: io_fstat_def)

lemma still_current_quiet:
  assumes "io_sched io = []" and "map_of (io_fds io) (ss_fd ss) = Some i"
  shows "still_current ss io = (if nlink io i \<noteq> 0 \<and> map_of (io_names io) (ss_path ss) = Some i then Some (length (content io i)) else None, io)"
  using assms by (auto simp: still_current_def io_fstat_quiet io_stat_ino_def split: option.splits)

lemma finish_block_nonempty: "finish_block sid n blk \<noteq> []"
proof -
  have "le_bytes 4 x \<noteq> []" for x by (metis length_0_conv length_le_bytes zero_neq_numeral)
  then show ?thesis by (simp add: finish_block_def Let_def put_le_def overwrite_def)
qed

text \<open>What a commit that wrote something did: it scanned the file, placed its block behind everything and appended it.\<close>

lemma slot_commit_quiet:
  assumes c: "slot_commit ss io recs taken sync = Some (rc, com, oth, ss', io')" "com \<noteq> []"
    and q: "io_sched io = []" "map_of (io_fds io) (ss_fd ss) = Some i" and f: "f = content io i"
    and sid: "sid = sh_storeId (ss_hdr ss)" and sane: "sane_claims sid f" and b: "length f < 2 ^ 62" "ss_readOff ss < 2 ^ 62" "ss_claimedEnd ss < 2 ^ 62"
      "4096 dvd ss_readOff ss"
  obtains pw cw base blk ws where "rb_loop ss (length f) (ss_readOff ss, ss_claimedEnd ss, [], io) = Some (pw, cw, oth, io)"
    "ws = filter (\<lambda>r. \<not> taken oth (sr_slot r)) recs" "4096 dvd base" "length f \<le> base" "cw \<le> base" "ss_readOff ss \<le> base" "build_block sid base ws = (blk, com)"
    "io' = set_content io i (f @ replicate (base - length f) 0 @ blk)"
proof -
  have rf: "reads_file ss io f" using q f by (auto simp: reads_file_def)
  have "ss_readOff ss < 2 ^ 63" using b(2) by simp
  from scan_ends [OF rf sid sane b(1) this b(4), of "ss_claimedEnd ss" "[]"]
  obtain pw cw out where l: "rb_loop ss (length f) (ss_readOff ss, ss_claimedEnd ss, [], io) = Some (pw, cw, out, io)"
      "pw \<le> max (ss_readOff ss) (length f + 4096)" "cw \<le> max (ss_claimedEnd ss) (length f + 2 ^ 40)" by blast
  define ss1 where "ss1 = ss\<lparr>ss_claimedEnd := cw, ss_readOff := max (ss_readOff ss) pw\<rparr>"
  define ws where "ws = filter (\<lambda>r. \<not> taken out (sr_slot r)) recs"
  define base where "base = alignUp (max (length f) (max (ss_readOff ss1) (ss_claimedEnd ss1)))"
  have rb: "readBlocks ss io (length f) = Some (out, ss1, io)" by (simp add: readBlocks_def l(1) ss1_def)
  obtain blk co where bb: "build_block sid base ws = (blk, co)" by fastforce
  have m: "max (length f) (max (ss_readOff ss1) (ss_claimedEnd ss1)) < 2 ^ 63"
  proof -
    have "pw < 2 ^ 63" using l(2) b by (simp add: max_def split: if_splits)
    moreover have "cw < 2 ^ 63" using l(3) b by (simp add: max_def split: if_splits)
    ultimately show ?thesis using b by (simp add: ss1_def)
  qed
  have cur: "still_current ss io = (Some (length f), io)" "ws \<noteq> []" "\<not> sh_declined (ss_hdr ss)"
    using c still_current_quiet [OF q] rb
    by (auto simp: slot_commit_def io_call_quiet q(1) commit_locked_def f ws_def Let_def split: if_splits)
  have blk: "blk \<noteq> []" using finish_block_nonempty bb by (auto simp: build_block_def Let_def split: prod.splits)
  have w: "pwriteFull io (ss_fd ss) blk base 0 = (int (length blk), set_content io i (pwrite_bytes f base blk))"
    using pwriteFull_exact [OF q blk] f by simp
  have ab: "length f \<le> base" "cw \<le> base" "ss_readOff ss \<le> base" "4096 dvd base"
    using alignUp_props [OF m] by (simp_all add: base_def ss1_def)
  have pw: "pwrite_bytes f base blk = f @ replicate (base - length f) 0 @ blk" using blk ab(1) by (simp add: pwrite_bytes_def)
  have k1: "ss_fd ss1 = ss_fd ss" "ss_hdr ss1 = ss_hdr ss" by (simp_all add: ss1_def)
  have wb: "write_block ss1 io (length f) out ws sync = (int (sum_list (map (\<lambda>r. length (sr_bytes r)) ws)), co, out,
      ss1\<lparr>ss_readOff := alignUp (u64 (base + length blk)), ss_claimedEnd := max (ss_claimedEnd ss1) (u64 (base + length blk))\<rparr>,
      set_content io i (f @ replicate (base - length f) 0 @ blk))"
    using bb w k1 by (simp add: write_block_def base_def [symmetric] sid Let_def pw io_fdatasync_def q)
  have "com = co" "oth = out" "io' = set_content io i (f @ replicate (base - length f) 0 @ blk)"
    using c cur rb wb by (auto simp: slot_commit_def io_call_quiet q(1) commit_locked_def Let_def ws_def [symmetric])
  with that [of pw cw ws base blk] l(1) ab bb show ?thesis by (simp add: ws_def)
qed

section \<open>Records read back\<close>

lemma zip_entries:
  assumes "(e, r) \<in> set (zip (block_entries sid base p0 ws) ws)"
  obtains q where "(r, q) \<in> set (places p0 ws)" "e = record_entry sid (u64 (base + q)) r"
proof -
  have "zip (block_entries sid base p0 ws) ws = map (\<lambda>(r, q). (record_entry sid (u64 (base + q)) r, r)) (places p0 ws)"
  proof -
    have "zip (block_entries sid base p0 ws) ws = zip (block_entries sid base p0 ws) (map fst (places p0 ws))" by simp
    also have "\<dots> = map (\<lambda>(r, q). (record_entry sid (u64 (base + q)) r, r)) (places p0 ws)"
      unfolding block_entries_def zip_map_map zip_same_conv_map by (simp add: case_prod_beta)
    finally show ?thesis .
  qed
  with assms that show ?thesis by auto
qed

lemma appended_record:
  assumes app: "appended sid f base ws blk com f'" and rd: "reads_file ss io f'" "sid = sh_storeId (ss_hdr ss)" and e: "(e, r) \<in> set (zip com ws)"
  shows "se_slot e = sr_slot r" "se_kind e = sr_kind r" "sr_kind r \<noteq> kKept \<Longrightarrow> readRecord ss io e = (True, sr_bytes r, io)"
proof -
  note L = appended_block [OF app]
  have A: "build_block sid base ws = (blk, com)" "list_all record_ok ws" "length ws < 2 ^ 32" "sid < 2 ^ 64" "length f' < 2 ^ 40"
    using app unfolding appended_def by blast+
  have lb: "length blk < 2 ^ 64" using L(2) by simp
  note B = build_block_spec [OF A(1) lb A(3,4)]
  obtain q where q: "(r, q) \<in> set (places (64 + 24 * length ws) ws)" "e = record_entry sid (u64 (base + q)) r"
    using zip_entries e unfolding B(2) by metis
  show "se_slot e = sr_slot r" "se_kind e = sr_kind r" by (simp_all add: q(2) record_entry_def)
  show "readRecord ss io e = (True, sr_bytes r, io)" if k: "sr_kind r \<noteq> kKept"
  proof -
    obtain i where i: "io_sched io = []" "map_of (io_fds io) (ss_fd ss) = Some i" "content io i = f'" using rd(1) by (auto simp: reads_file_def)
    have ok: "length (sr_bytes r) < 2 ^ 32" using A(2) e by (auto simp: list_all_iff record_ok_def dest: set_zip_rightD)
    have b: "q + length (sr_bytes r) \<le> length blk" using places_bounds [OF q(1)] k B(1) by (simp add: placed_def)
    have u: "u64 (base + q) = base + q" "u32n (length (sr_bytes r)) = length (sr_bytes r)" using b A(5) L(1) ok by simp_all
    have d: "slice (base + q) (length (sr_bytes r)) f' = sr_bytes r" using L(3) [OF b] B(4) [OF q(1) k] by simp
    have "preadFull io (ss_fd ss) (length (sr_bytes r)) (base + q) [] = (int (length (sr_bytes r)), sr_bytes r, io)"
      using preadFull_exact [OF i(1,2), of "length (sr_bytes r)" "base + q"] d b L(1) by (simp add: i(3))
    then show ?thesis using k by (simp add: readRecord_def q(2) record_entry_def u rd(2))
  qed
qed

section \<open>Scans under faults\<close>

text \<open>Whatever the reads return, a scan moves forward and only looks.\<close>

lemma rb_step_moves:
  assumes "rb_step ss en (pos, c, out, io) = (pos', c', out', io')" and "map_of (io_fds io) (ss_fd ss) = Some i"
    and "sane_claims (sh_storeId (ss_hdr ss)) (content io i)" and "4096 dvd pos" and "pos + 64 \<le> en" and "en < 2 ^ 62"
  shows "io_same io io'" "pos + 64 \<le> pos'" "pos' \<le> en + 4096" "4096 dvd pos'"
proof -
  obtain g h io1 where p: "preadFull io (ss_fd ss) kBlockHeader pos [] = (g, h, io1)" by (metis prod_cases3)
  note P = preadFull_spec [OF p assms(2)]
  define n where "n = get_le 4 h 24"
  obtain g2 tb io2 where p2: "preadFull io1 (ss_fd ss) (n * kEntry) (pos + kBlockHeader) [] = (g2, tb, io2)" by (metis prod_cases3)
  have s1: "io_same io io1" using P by simp
  have "map_of (io_fds io1) (ss_fd ss) = Some i" using io_sameD(3) [OF s1] assms(2) by simp
  from preadFull_spec [OF p2 this] have s2: "io_same io io2" using s1 io_same_trans by (metis le0 list.size(3) slice_0)
  have u: "u64 (pos + kAlign) = pos + 4096" using assms(5,6) by (simp add: kAlign_def)
  define ok where "ok = (g = int kBlockHeader \<and> block_header_ok (sh_storeId (ss_hdr ss)) h)"
  have claim: "get_le 8 h 16 < 2 ^ 63" if ok
  proof -
    have h: "h = slice pos 64 (content io i)" "length h = 64" using P that by (auto simp: ok_def kBlockHeader_def)
    then have l: "pos + 64 \<le> length (content io i)" by (simp add: min_def split: if_splits)
    then have "claim_at (content io i) pos = get_le 8 h 16" using get_at [of pos "content io i" 16 8] h by (simp add: claim_at_def)
    moreover have "header_at (sh_storeId (ss_hdr ss)) (content io i) pos" using that l h by (simp add: header_at_def ok_def)
    ultimately show ?thesis using assms(3,4) unfolding sane_claims_def by metis
  qed
  have fin: "(pos' = pos + 4096 \<or> ok \<and> get_le 8 h 16 \<ge> 64 \<and> pos' = alignUp (u64 (pos + get_le 8 h 16)) \<and> u64 (pos + get_le 8 h 16) \<le> en) \<and> (io' = io1 \<or> io' = io2)"
    using assms(1) p p2 u
    by (auto simp: rb_step_def Let_def n_def ok_def kBlockHeader_def split: prod.splits if_splits)
  then show "io_same io io'" using s1 s2 by auto
  have j: "pos + 64 \<le> alignUp (u64 (pos + get_le 8 h 16)) \<and> alignUp (u64 (pos + get_le 8 h 16)) \<le> en + 4096 \<and> 4096 dvd alignUp (u64 (pos + get_le 8 h 16))"
    if o: ok "get_le 8 h 16 \<ge> 64" "u64 (pos + get_le 8 h 16) \<le> en"
  proof -
    have v: "u64 (pos + get_le 8 h 16) = pos + get_le 8 h 16" using claim [OF o(1)] assms(5,6) by simp
    then have "pos + get_le 8 h 16 < 2 ^ 63" using o(3) assms(6) by simp
    from alignUp_props [OF this] show ?thesis using v o(2,3) by simp
  qed
  show "pos + 64 \<le> pos'" "pos' \<le> en + 4096" "4096 dvd pos'" using fin j assms(4,5) by auto
qed

lemma rb_loop_ends:
  assumes "map_of (io_fds io) (ss_fd ss) = Some i" and "sane_claims (sh_storeId (ss_hdr ss)) (content io i)" and "4096 dvd pos" and "en < 2 ^ 62" and "pos < 2 ^ 63"
  shows "\<exists>s. rb_loop ss en (pos, c, out, io) = Some s"
  using assms(1-3,5)
proof (induction "en - pos" arbitrary: pos c out io rule: less_induct)
  case less
  show ?case
  proof (cases "pos + 64 \<le> en")
    case False
    then show ?thesis using less.prems(4) by (simp add: rb_loop.simps [of ss en] kBlockHeader_def)
  next
    case True
    obtain pos' c' out' io' where s: "rb_step ss en (pos, c, out, io) = (pos', c', out', io')" by (metis prod_cases4)
    note M = rb_step_moves [OF s less.prems(1-3) True assms(4)]
    have m: "en - pos' < en - pos" "pos' < 2 ^ 63" using M(2,3) True assms(4) by simp_all
    have "\<exists>s. rb_loop ss en (pos', c', out', io') = Some s"
      by (rule less.hyps [OF m(1)]) (use io_sameD [OF M(1)] less.prems M(4) m(2) in simp_all)
    moreover have "u64 (pos + kBlockHeader) \<le> en" using True less.prems(4) by (simp add: kBlockHeader_def)
    ultimately show ?thesis by (simp add: rb_loop.simps [of ss en "(pos, c, out, io)"] s)
  qed
qed

lemma readBlocks_ends:
  assumes "map_of (io_fds io) (ss_fd ss) = Some i" and "sane_claims (sh_storeId (ss_hdr ss)) (content io i)" and "4096 dvd ss_readOff ss"
    and "en < 2 ^ 62" and "ss_readOff ss < 2 ^ 63"
  shows "\<exists>r. readBlocks ss io en = Some r"
  using rb_loop_ends [OF assms, of "ss_claimedEnd ss" "[]"] by (auto simp: readBlocks_def)

lemma io_fstat_any:
  assumes "io_fstat io fd = (r, io1)"
  shows "io_same io io1" "map_of (io_fds io) fd = Some i \<Longrightarrow> r = Inr (ino, nl, sz) \<Longrightarrow> ino = i \<and> nl = nlink io i \<and> sz = length (content io i)"
proof -
  obtain oc io2 where o: "next_outcome io = (oc, io2)" by fastforce
  note sd = io_sameD [OF next_outcome_same [OF o]]
  show "io_same io io1" "map_of (io_fds io) fd = Some i \<Longrightarrow> r = Inr (ino, nl, sz) \<Longrightarrow> ino = i \<and> nl = nlink io i \<and> sz = length (content io i)"
    using assms o sd next_outcome_same [OF o] by (auto simp: io_fstat_def split: outcome.splits option.splits)
qed

lemma still_current_any:
  assumes "still_current ss io = (r, io1)" and "map_of (io_fds io) (ss_fd ss) = Some i"
  shows "io_same io io1" "r = Some sz \<Longrightarrow> sz = length (content io i) \<and> map_of (io_names io) (ss_path ss) = Some i"
proof -
  obtain s io2 where s: "io_fstat io (ss_fd ss) = (s, io2)" by fastforce
  note F = io_fstat_any [OF s]
  obtain oc io3 where o: "next_outcome io2 = (oc, io3)" by fastforce
  note n = next_outcome_same [OF o]
  have st: "io_same io2 (snd (io_stat_ino io2 (ss_path ss)))" using n by (auto simp: io_stat_ino_def o split: outcome.splits option.splits)
  then have st2: "io_same io (snd (io_stat_ino io2 (ss_path ss)))" using F(1) io_same_trans by blast
  have nm: "fst (io_stat_ino io2 (ss_path ss)) = Inr j \<Longrightarrow> map_of (io_names io) (ss_path ss) = Some j" for j
    using io_sameD [OF F(1)] io_sameD [OF n] by (auto simp: io_stat_ino_def o split: outcome.splits option.splits)
  show "io_same io io1" using assms(1) s F(1) st2 by (auto simp: still_current_def split: sum.splits prod.splits if_splits)
  show "sz = length (content io i) \<and> map_of (io_names io) (ss_path ss) = Some i" if "r = Some sz"
    using assms s F(2) [OF assms(2)] nm that by (fastforce simp: still_current_def split: sum.splits prod.splits if_splits)
qed

section \<open>A header that sends a scan backwards\<close>

definition runaway_fields :: "nat \<Rightarrow> bytes" where
  "runaway_fields sid = put_fields [(8, 8, sid), (8, 16, 2 ^ 64 - 4096)] (overwrite (replicate 64 0) 0 blockMagic)"

definition runaway_header :: "nat \<Rightarrow> bytes" where
  "runaway_header sid = put_le 4 (runaway_fields sid) 60 (unat (crc32c (take 60 (runaway_fields sid))))"

definition runaway_file :: "nat \<Rightarrow> bytes" where
  "runaway_file sid = replicate 8192 0 @ runaway_header sid"

lemma runaway_fields_props:
  assumes "sid < 2 ^ 64"
  shows "length (runaway_fields sid) = 64" "take 8 (runaway_fields sid) = blockMagic" "get_le 8 (runaway_fields sid) 8 = sid"
    "get_le 8 (runaway_fields sid) 16 = 2 ^ 64 - 4096" "get_le 4 (runaway_fields sid) 24 = 0"
proof -
  let ?fs = "[(8, 8, sid), (8, 16, 2 ^ 64 - 4096)] :: (nat \<times> nat \<times> nat) list"
  let ?z = "overwrite (replicate 64 0) 0 blockMagic :: bytes"
  have fit: "fields_fit 8 ?fs 24" by simp
  have z: "24 \<le> length ?z" by simp
  show "length (runaway_fields sid) = 64" using length_put_fields [OF fit z] by (simp add: runaway_fields_def)
  have "slice 0 8 (runaway_fields sid) = slice 0 8 ?z" unfolding runaway_fields_def by (rule slice_put_fields [OF fit z]) simp
  also have "\<dots> = blockMagic" using slice_overwrite_same [of 0 blockMagic "replicate 64 0"] by simp
  finally show "take 8 (runaway_fields sid) = blockMagic" by (simp add: slice_def)
  show "get_le 8 (runaway_fields sid) 8 = sid" "get_le 8 (runaway_fields sid) 16 = 2 ^ 64 - 4096"
    using get_put_fields [OF _ fit z, of 8 8 sid] get_put_fields [OF _ fit z, of 8 16 "2 ^ 64 - 4096"] assms by (simp_all add: runaway_fields_def)
  have "slice 24 4 (runaway_fields sid) = slice 24 4 ?z" unfolding runaway_fields_def by (rule slice_put_fields [OF fit z]) simp
  also have "\<dots> = replicate 4 0" by (simp add: slice_overwrite_other) (simp add: slice_def)
  finally show "get_le 4 (runaway_fields sid) 24 = 0" by (simp add: get_le_def eval_nat_numeral)
qed

lemma runaway_at:
  assumes "sid < 2 ^ 64"
  shows "length (runaway_file sid) = 8256" "header_at sid (runaway_file sid) 8192" "claim_at (runaway_file sid) 8192 = 2 ^ 64 - 4096"
    "count_at (runaway_file sid) 8192 = 0" "\<not> header_at sid (runaway_file sid) 4096"
proof -
  let ?f = "runaway_file sid"
  note R = runaway_fields_props [OF assms]
  have lh: "length (runaway_header sid) = 64" by (simp add: runaway_header_def R(1))
  show l: "length ?f = 8256" by (simp add: runaway_file_def lh)
  have low: "slice off k (runaway_header sid) = slice off k (runaway_fields sid)" if "off + k \<le> 60" for off k
    unfolding runaway_header_def using that R(1) by (intro slice_put_le_other) simp_all
  have tl: "take k (runaway_header sid) = take k (runaway_fields sid)" if "k \<le> 60" for k using low [of 0 k] that by (simp add: slice_def)
  have g: "get_le k (runaway_header sid) off = get_le k (runaway_fields sid) off" if "off + k \<le> 60" for off k
    unfolding get_le_def low [OF that] ..
  have at: "slice (8192 + off) k ?f = slice off k (runaway_header sid)" for off k by (simp add: runaway_file_def slice_append_right)
  have crc: "get_le 4 (runaway_header sid) 60 = unat (crc32c (take 60 (runaway_header sid)))"
    unfolding tl [OF order_refl] using unat_u32_bound [of "crc32c (take 60 (runaway_fields sid))"] R(1) by (simp add: runaway_header_def get_put_le_same)
  have "slice 8192 64 ?f = runaway_header sid" using at [of 0 64] lh by (simp add: slice_all)
  then show "header_at sid ?f 8192" using l crc R(2,3) g [of 8 8] tl [of 8] by (simp add: header_at_def block_header_ok_def)
  show "claim_at ?f 8192 = 2 ^ 64 - 4096" "count_at ?f 8192 = 0"
    using at [of 16 8] at [of 24 4] g [of 16 8] g [of 24 4] R(4,5) by (simp_all add: claim_at_def count_at_def get_le_def)
  have "slice 4096 64 ?f = replicate 64 0" by (simp add: runaway_file_def slice_def take_replicate)
  then have "hd (take 8 (slice 4096 64 ?f)) = 0" by simp
  moreover have "hd blockMagic \<noteq> 0" by (simp add: blockMagic_def byte_of_char_def)
  ultimately show "\<not> header_at sid ?f 4096" unfolding header_at_def block_header_ok_def by metis
qed

definition on_runaway :: "nat \<Rightarrow> slotStore \<Rightarrow> nat \<Rightarrow> scan \<Rightarrow> bool" where
  "on_runaway sid ss en s \<longleftrightarrow> reads_file ss (snd (snd (snd s))) (runaway_file sid) \<and> sid = sh_storeId (ss_hdr ss) \<and> sid < 2 ^ 64 \<and> en = 8256"

lemma runaway_scan: "rb_loop ss en s = Some y \<Longrightarrow> on_runaway sid ss en s \<longrightarrow> fst s \<noteq> 4096 \<and> fst s \<noteq> 8192"
proof (rule rb_loop.raw_induct [where P = "\<lambda>ss en s y. on_runaway sid ss en s \<longrightarrow> fst s \<noteq> 4096 \<and> fst s \<noteq> 8192"], rule impI)
  fix rec ss en s y
  assume ih: "\<And>ss en s y. rec ss en s = Some y \<Longrightarrow> on_runaway sid ss en s \<longrightarrow> fst s \<noteq> 4096 \<and> fst s \<noteq> 8192"
    and body: "(if u64 (fst s + kBlockHeader) \<le> en then rec ss en (rb_step ss en s) else Some s) = Some y" and on: "on_runaway sid ss en s"
  have prems: "reads_file ss (snd (snd (snd s))) (runaway_file sid)" "sid = sh_storeId (ss_hdr ss)" "sid < 2 ^ 64" "en = 8256"
    using on unfolding on_runaway_def by blast+
  let ?f = "runaway_file sid"
  obtain pos c out io where s: "s = (pos, c, out, io)" by (metis prod_cases4)
  note R = runaway_at [OF prems(3)]
  obtain i where i: "io_sched io = []" "map_of (io_fds io) (ss_fd ss) = Some i" "content io i = ?f"
    using prems(1) by (auto simp: reads_file_def s)
  note Q = rb_step_quiet [OF i(1,2), of 8256 _ c out, unfolded i(3) prems(2) [symmetric]]
  have up: "\<not> block_at sid ?f 8256 4096" using R(5) by (simp add: block_at_def)
  have wrap: "u64 (8192 + claim_at ?f 8192) = 4096" unfolding R(3) by (simp add: u64_def)
  have down: "block_at sid ?f 8256 8192" unfolding block_at_def using R(2) wrap by (simp add: R(3,4) table_at_def)
  have al: "alignUp 4096 = 4096" by (simp add: alignUp_def kAlign_def u64_def)
  show "fst s \<noteq> 4096 \<and> fst s \<noteq> 8192"
  proof (intro conjI notI)
    assume "fst s = 4096"
    then have p: "pos = 4096" by (simp add: s)
    have st: "rb_step ss 8256 s = (8192, claimed_at sid ?f 4096 c, out, io)" unfolding s p using Q [of 4096] up by (simp add: Let_def u64_def)
    have "rec ss 8256 (rb_step ss 8256 s) = Some y" using body prems(4) p s by (simp add: kBlockHeader_def u64_def)
    from ih [OF this, unfolded st] show False using prems by (simp add: s on_runaway_def)
  next
    assume "fst s = 8192"
    then have p: "pos = 8192" by (simp add: s)
    have st: "rb_step ss 8256 s = (4096, claimed_at sid ?f 8192 c, out @ entries_at ?f 8192, io)"
      unfolding s p using Q [of 8192] down wrap al by (simp add: Let_def)
    have "rec ss 8256 (rb_step ss 8256 s) = Some y" using body prems(4) p s by (simp add: kBlockHeader_def u64_def)
    from ih [OF this, unfolded st] show False using prems by (simp add: s on_runaway_def)
  qed
qed

section \<open>Sample stores\<close>

definition sample_header :: slotHeader where
  "sample_header =
     \<lparr>sh_layoutVersion = 1, sh_container = 0, sh_slotFactor100 = 150, sh_declined = False, sh_codecs = ''zstd'', sh_originSize = 1000,
      sh_originMtime = 7, sh_cksumKind = 0, sh_originCksum = 0, sh_virtualSize = 1500, sh_nSlots = 4, sh_layoutHash = 9, sh_storeId = 77,
      sh_blobLen = 0, sh_blobCrc = 0\<rparr>"

definition sample_slots :: "nat \<Rightarrow> slotStore" where
  "sample_slots off = \<lparr>ss_fd = 5, ss_path = ''d/h.slots'', ss_hdr = sample_header, ss_blob = [], ss_readOff = off, ss_claimedEnd = 0\<rparr>"

definition sample_io :: "bytes \<Rightarrow> io" where
  "sample_io f = \<lparr>io_names = [(''d/h.slots'', 3)], io_inodes = [(3, f)], io_fds = [(5, 3)], io_next = 6, io_sched = []\<rparr>"

lemma sample_reads: "reads_file (sample_slots off) (sample_io f) f"
  by (simp add: reads_file_def sample_slots_def sample_io_def content_def)

lemma sample_slots_simps [simp]:
  "ss_fd (sample_slots off) = 5" "sh_storeId (ss_hdr (sample_slots off)) = 77" "ss_readOff (sample_slots off) = off" "ss_claimedEnd (sample_slots off) = 0"
  "\<not> sh_declined (ss_hdr (sample_slots off))" "ss_path (sample_slots off) = ''d/h.slots''"
  by (simp_all add: sample_slots_def sample_header_def)

lemma sample_io_simps [simp]:
  "io_sched (sample_io f) = []" "io_fds (sample_io f) = [(5, 3)]" "content (sample_io f) 3 = f" "nlink (sample_io f) 3 = 1"
  "io_names (sample_io f) = [(''d/h.slots'', 3)]"
  by (simp_all add: sample_io_def content_def nlink_def)

text \<open>A first commit into an empty file, step by step.\<close>

lemma sample_commit:
  assumes "build_block 77 0 [r] = (blk, com)"
  shows "\<exists>ss'. slot_commit (sample_slots 0) (sample_io []) [r] (\<lambda>_ _. False) False = Some (int (length (sr_bytes r)), com, [], ss', set_content (sample_io []) 3 blk)"
proof -
  have rb: "readBlocks (sample_slots 0) (sample_io []) 0 = Some ([], sample_slots 0, sample_io [])"
    by (simp add: readBlocks_def rb_loop.simps [of "sample_slots 0"] kBlockHeader_def)
  have nb: "blk \<noteq> []" using finish_block_nonempty assms by (auto simp: build_block_def Let_def split: prod.splits)
  have w: "pwriteFull (sample_io []) 5 blk 0 0 = (int (length blk), set_content (sample_io []) 3 blk)"
    using pwriteFull_exact [of "sample_io []" 5 3 blk 0] nb by (simp add: pwrite_bytes_def)
  have c: "still_current (sample_slots 0) (sample_io []) = (Some 0, sample_io [])"
    using still_current_quiet [of "sample_io []" "sample_slots 0" 3] by simp
  have al: "alignUp 0 = 0" by (simp add: alignUp_def kAlign_def)
  show ?thesis
    by (simp add: slot_commit_def io_call_quiet commit_locked_def c rb Let_def write_block_def al assms w)
qed

section \<open>Properties\<close>

text \<open>The header page of a slot store is a round trip for every well-formed header, except that the list of codecs is cut at 256 characters; and
  an accepted page is refused once any byte of it changes.\<close>

theorem slot_header_roundtrip:
  assumes "slotHeader_ok h"
  shows "decodeSlotHeader (encodeSlotHeader h) = Some (h\<lparr>sh_codecs := take 256 (sh_codecs h)\<rparr>) \<and>
    (\<forall>p i b h'. decodeSlotHeader p = Some h' \<and> i < 4096 \<and> b \<noteq> p ! i \<longrightarrow> decodeSlotHeader (p[i := b]) = None)"
  using decode_encode_header [OF assms] decode_flip by blast

theorem slot_header_roundtrip_witness: "decodeSlotHeader (encodeSlotHeader sample_header) = Some sample_header"
proof -
  have "slotHeader_ok sample_header" by (simp add: slotHeader_ok_def sample_header_def)
  from slot_header_roundtrip [OF this] show ?thesis by (simp add: sample_header_def)
qed

text \<open>C22. What a commit wrote reaches every reader, whatever earlier crashes left in the file. When a commit without I/O errors has written
  records, a reader of the same store that had read as far as the writer gets from \<^verbatim>\<open>refresh\<close> the
  committed entries, after those of earlier blocks; \<^verbatim>\<open>readRecord\<close> gives for each of them exactly the bytes of its record;
  and all earlier bytes of the file are as they were. Of the debris only three things are assumed: no valid header claims more
  than \<open>2 ^ 63\<close> bytes, a header cut short at the end of the file does not become valid by the zeros of the gap, and the file stays below
  \<open>2 ^ 40\<close> bytes, the largest claim the scan takes note of.\<close>

theorem committed_records_reach_readers:
  assumes c: "slot_commit ss io recs taken sync = Some (rc, com, oth, ss', io')" "com \<noteq> []"
    and q: "io_sched io = []" "map_of (io_fds io) (ss_fd ss) = Some i" "map_of (io_fds io) (ss_fd rs) = Some i"
    and sid: "sid = sh_storeId (ss_hdr ss)" "sid = sh_storeId (ss_hdr rs)" "sid < 2 ^ 64"
    and off: "ss_readOff rs = ss_readOff ss" "4096 dvd ss_readOff ss" "ss_readOff ss < 2 ^ 62" "ss_claimedEnd ss < 2 ^ 62"
    and recs: "list_all record_ok recs" "length recs < 2 ^ 32"
    and fil: "length (content io' i) < 2 ^ 40" "sane_claims sid (content io i)" "sane_claims sid (content io' i)" "no_stub sid (content io i)"
      "length (content io i) < 2 ^ 62"
  shows "(\<exists>pre rs'. refresh rs io' wait False = Some (pre @ com, rs', io')) \<and>
    (let ws = filter (\<lambda>r. \<not> taken oth (sr_slot r)) recs
     in length com = length ws \<and> (\<forall>(e, r)\<in>set (zip com ws). se_slot e = sr_slot r \<and> se_kind e = sr_kind r \<and>
          (sr_kind r \<noteq> kKept \<longrightarrow> readRecord rs io' e = (True, sr_bytes r, io')))) \<and>
    take (length (content io i)) (content io' i) = content io i"
proof -
  define f where "f = content io i"
  note fil' = fil [folded f_def]
  obtain pw cw base blk ws where C: "rb_loop ss (length f) (ss_readOff ss, ss_claimedEnd ss, [], io) = Some (pw, cw, oth, io)"
      "ws = filter (\<lambda>r. \<not> taken oth (sr_slot r)) recs" "4096 dvd base" "length f \<le> base" "cw \<le> base" "ss_readOff ss \<le> base" "build_block sid base ws = (blk, com)"
      "io' = set_content io i (f @ replicate (base - length f) 0 @ blk)"
    by (rule slot_commit_quiet [OF c q(1,2) f_def sid(1) fil'(2,5) off(3,4,2)])
  define f' where "f' = f @ replicate (base - length f) 0 @ blk"
  have cf: "content io' i = f'" by (simp add: C(8) map_of_content f'_def)
  have lw: "length ws < 2 ^ 32" unfolding C(2) by (rule le_less_trans [OF length_filter_le recs(2)])
  have ok: "list_all record_ok ws" using recs(1) by (auto simp: C(2) list_all_iff)
  have app: "appended sid f base ws blk com f'"
    unfolding appended_def using C(3,4,7) ok lw sid(3) fil(1) cf f'_def by blast
  have rd: "reads_file rs io' f'" "reads_file ss io f" using q f_def by (auto simp: reads_file_def C(8) map_of_content f'_def)
  have sane: "sane_claims sid f'" using fil(3) cf by simp
  obtain pre p c' where sc: "rb_loop rs (length f') (ss_readOff rs, ss_claimedEnd rs, [], io') = Some (p, c', pre @ com, io')"
    using scan_sync [OF app rd(1) sid(2) rd(2) sid(1) sane fil'(4) C(5) _ _ C(1), of "ss_claimedEnd rs" "[]"] off C(6) by auto
  have q': "io_sched io' = []" "map_of (io_fds io') (ss_fd rs) = Some i" using q by (simp_all add: C(8))
  have "header_at sid f' base" by (rule appended_found(1) [OF app])
  then have "base + 64 \<le> length f'" by (simp add: header_at_def)
  moreover have "u64 (ss_readOff rs + kBlockHeader) \<le> ss_readOff rs + 64" using u64_le [of "ss_readOff rs + 64"] by (simp add: kBlockHeader_def)
  ultimately have "\<not> length f' < u64 (ss_readOff rs + kBlockHeader)" using C(6) off(1) by linarith
  then have r: "\<exists>pre rs'. refresh rs io' wait False = Some (pre @ com, rs', io')"
    using io_fstat_quiet [OF q'] io_call_quiet [OF q'(1)] sc by (simp add: refresh_def cf readBlocks_def)
  have "length blk < 2 ^ 64" using appended_block(2) [OF app] by simp
  from build_block_spec(2) [OF C(7) this lw sid(3)] have lc: "length com = length ws" by (simp add: block_entries_def)
  have z: "\<forall>(e, r)\<in>set (zip com ws). se_slot e = sr_slot r \<and> se_kind e = sr_kind r \<and> (sr_kind r \<noteq> kKept \<longrightarrow> readRecord rs io' e = (True, sr_bytes r, io'))"
    using appended_record [OF app rd(1) sid(2)] by blast
  show ?thesis using r lc z by (simp add: C(2) [symmetric] cf f_def [symmetric]) (simp add: f'_def)
qed

theorem committed_records_reach_readers_witness:
  "\<exists>com ss' io'. slot_commit (sample_slots 0) (sample_io []) [\<lparr>sr_slot = 2, sr_kind = kZstd, sr_bytes = [1, 2, 3]\<rparr>] (\<lambda>_ _. False) False = Some (3, com, [], ss', io') \<and>
     (\<exists>pre rs'. refresh (sample_slots 0) io' True False = Some (pre @ com, rs', io')) \<and> readRecord (sample_slots 0) io' (hd com) = (True, [1, 2, 3], io')"
proof -
  let ?r = "\<lparr>sr_slot = 2, sr_kind = kZstd, sr_bytes = [1, 2, 3]\<rparr>"
  obtain blk com where bb: "build_block 77 0 [?r] = (blk, com)" by fastforce
  define io' where "io' = set_content (sample_io []) 3 blk"
  obtain ss' where c: "slot_commit (sample_slots 0) (sample_io []) [?r] (\<lambda>_ _. False) False = Some (3, com, [], ss', io')"
    using sample_commit [OF bb] by (auto simp: io'_def)
  have ro: "list_all record_ok [?r]" by (simp add: record_ok_def)
  have lb: "length blk = 91 \<and> length com = 1"
  proof -
    obtain i' pos' b c where f: "fold (add_record 77 0) [?r] (0, 88, replicate 91 0, []) = (i', pos', b, c)" by (metis prod_cases4)
    have "length b = 91" "c = block_entries 77 0 88 [?r]" using add_records [OF f, of 88] by simp_all
    then show ?thesis using bb f finish_block_spec(1) [of 1 b 77] by (auto simp: build_block_def Let_def slot_consts block_entries_def)
  qed
  have cf: "content io' 3 = blk" by (simp add: io'_def map_of_content)
  have app: "appended 77 [] 0 [?r] blk com blk" unfolding appended_def using bb ro lb by simp
  have sane: "sane_claims 77 blk"
    unfolding sane_claims_def
  proof (intro allI impI)
    fix p assume "4096 dvd p \<and> header_at 77 blk p"
    then have "4096 dvd p" "p + 64 \<le> 91" using lb by (simp_all add: header_at_def)
    then have "p = 0" using dvd_imp_le [of 4096 p] by linarith
    then show "claim_at blk p < 2 ^ 63" using appended_found(2) [OF app] lb by simp
  qed
  have e: "sane_claims 77 []" "no_stub 77 []" by (simp_all add: sane_claims_def no_stub_def header_at_def)
  have h: "com \<noteq> []" using lb by auto
  have "(\<exists>pre rs'. refresh (sample_slots 0) io' True False = Some (pre @ com, rs', io')) \<and>
      (let ws = filter (\<lambda>r. \<not> False) [?r]
       in length com = length ws \<and> (\<forall>(e, r)\<in>set (zip com ws). se_slot e = sr_slot r \<and> se_kind e = sr_kind r \<and>
            (sr_kind r \<noteq> kKept \<longrightarrow> readRecord (sample_slots 0) io' e = (True, sr_bytes r, io')))) \<and>
      take (length (content (sample_io []) 3)) (content io' 3) = content (sample_io []) 3"
    by (rule committed_records_reach_readers [OF c h, where i = 3 and sid = 77]) (use ro e sane lb cf in simp_all)
  then have "(\<exists>pre rs'. refresh (sample_slots 0) io' True False = Some (pre @ com, rs', io')) \<and>
      (\<forall>(e, r)\<in>set (zip com [?r]). sr_kind r \<noteq> kKept \<longrightarrow> readRecord (sample_slots 0) io' e = (True, sr_bytes r, io'))"
    unfolding Let_def filter.simps not_False_eq_True if_True by blast
  moreover have "(hd com, ?r) \<in> set (zip com [?r])" using h by (cases com) auto
  ultimately have "(\<exists>pre rs'. refresh (sample_slots 0) io' True False = Some (pre @ com, rs', io')) \<and> readRecord (sample_slots 0) io' (hd com) = (True, [1, 2, 3], io')"
    by (auto simp: kZstd_def kKept_def)
  then show ?thesis using c by blast
qed

text \<open>C24. Every call that reads blocks returns. If the valid block headers on 4096-byte boundaries of the file claim less than \<open>2 ^ 63\<close> bytes
  each, \<^verbatim>\<open>refresh\<close> and \<^verbatim>\<open>commit\<close> end under every schedule of I/O errors and short transfers.\<close>

theorem slot_calls_return:
  assumes "map_of (io_fds io) (ss_fd ss) = Some i" and "sane_claims (sh_storeId (ss_hdr ss)) (content io i)" and "4096 dvd ss_readOff ss"
    and "length (content io i) < 2 ^ 62" and "ss_readOff ss < 2 ^ 63"
  shows "(\<exists>r. refresh ss io wait busy = Some r) \<and> (\<exists>r. slot_commit ss io recs taken sync = Some r)"
proof -
  have R: "\<exists>r. readBlocks ss io1 (length (content io i)) = Some r" if s: "io_same io io1" for io1
    by (rule readBlocks_ends) (use assms io_sameD [OF s] in simp_all)
  obtain rc io1 where c: "io_call io = (rc, io1)" by fastforce
  have s1: "io_same io io1" by (rule io_call_same [OF c])
  obtain s io2 where st: "still_current ss io1 = (s, io2)" by fastforce
  have fd1: "map_of (io_fds io1) (ss_fd ss) = Some i" using io_sameD(3) [OF s1] assms(1) by simp
  note S = still_current_any [OF st fd1]
  have s2: "io_same io io2" using s1 S(1) io_same_trans by blast
  have "\<exists>r. slot_commit ss io recs taken sync = Some r"
  proof (cases s)
    case None
    then show ?thesis by (simp add: slot_commit_def c commit_locked_def st)
  next
    case (Some sz)
    then obtain r where r: "readBlocks ss io2 sz = Some r" using S(2) [OF Some] R [OF s2] io_sameD(5) [OF s1] by auto
    obtain a b d where "r = (a, b, d)" by (metis prod_cases3)
    then show ?thesis using r Some by (simp add: slot_commit_def c commit_locked_def st Let_def split: prod.splits)
  qed
  moreover have "\<exists>r. refresh ss io wait busy = Some r"
  proof -
    obtain x a where x: "io_fstat io (ss_fd ss) = (x, a)" by fastforce
    have sa: "io_same io a" by (rule io_fstat_any(1) [OF x])
    obtain rc' b where b: "io_call a = (rc', b)" by fastforce
    have sb: "io_same io b" using sa io_call_same [OF b] io_same_trans by blast
    obtain y d where y: "io_fstat b (ss_fd ss) = (y, d)" by fastforce
    have sd: "io_same io d" using sb io_fstat_any(1) [OF y] io_same_trans by blast
    have fb: "map_of (io_fds b) (ss_fd ss) = Some i" using io_sameD(3) [OF sb] assms(1) by simp
    have z: "\<exists>r. readBlocks ss d sz = Some r" if "y = Inr (ino, nl, sz)" for ino nl sz
      using R [OF sd] io_fstat_any(2) [OF y fb that] io_sameD(5) [OF sb] by simp
    show ?thesis using z by (auto simp: refresh_def x b y split: sum.splits prod.splits)
  qed
  ultimately show ?thesis by blast
qed

theorem slot_calls_return_witness:
  "(\<exists>r. refresh (sample_slots 4096) (sample_io (replicate 9000 0)) False True = Some r) \<and>
   (\<exists>r. slot_commit (sample_slots 4096) (sample_io (replicate 9000 0)) [] (\<lambda>_ _. True) True = Some r)"
proof -
  have "\<not> block_header_ok 77 (slice p 64 (replicate 9000 0))" for p
  proof
    assume "block_header_ok 77 (slice p 64 (replicate 9000 0))"
    then have m: "take 8 (slice p 64 (replicate 9000 (0 :: byte))) = blockMagic" by (simp add: block_header_ok_def)
    have "set (slice p 64 (replicate 9000 (0 :: byte))) \<subseteq> {0}" by (auto simp: slice_def take_replicate)
    then have "set blockMagic \<subseteq> {0}" using m by (metis set_take_subset order_trans)
    then show False by (simp add: blockMagic_def byte_of_char_def)
  qed
  then have "sane_claims 77 (replicate 9000 0)" by (simp add: sane_claims_def header_at_def)
  then show ?thesis
    using slot_calls_return [of "sample_io (replicate 9000 0)" "sample_slots 4096" 3 False True "[]" "\<lambda>_ _. True" True] by simp
qed

text \<open>C40. Without that bound a scan need not end. A file of 8256 bytes whose only valid block header, on a boundary and with a correct checksum, claims
  \<open>2 ^ 64 - 4096\<close> bytes sends the scan from 8192 back to 4096 for ever: the sum of the position and the claim wraps, passes the test against the end
  of the file and becomes the next position. Neither \<^verbatim>\<open>refresh\<close> nor \<^verbatim>\<open>commit\<close> returns.\<close>

theorem slot_scan_may_not_end:
  "readBlocks (sample_slots 4096) (sample_io (runaway_file 77)) 8256 = None \<and> refresh (sample_slots 4096) (sample_io (runaway_file 77)) True False = None \<and>
   slot_commit (sample_slots 4096) (sample_io (runaway_file 77)) [] (\<lambda>_ _. True) False = None"
proof -
  have l: "length (runaway_file 77) = 8256" by (rule runaway_at(1)) simp
  have "on_runaway 77 (sample_slots 4096) 8256 (4096, 0, [], sample_io (runaway_file 77))"
    using sample_reads [of 4096 "runaway_file 77"] by (simp add: on_runaway_def)
  then have "rb_loop (sample_slots 4096) 8256 (4096, 0, [], sample_io (runaway_file 77)) = None"
    using runaway_scan by (metis fst_conv not_Some_eq)
  then have r: "readBlocks (sample_slots 4096) (sample_io (runaway_file 77)) 8256 = None" by (simp add: readBlocks_def)
  have "io_fstat (sample_io (runaway_file 77)) 5 = (Inr (3, 1, 8256), sample_io (runaway_file 77))"
    using io_fstat_quiet [of "sample_io (runaway_file 77)" 5 3] l by simp
  then have "refresh (sample_slots 4096) (sample_io (runaway_file 77)) True False = None"
    using r by (simp add: refresh_def io_call_quiet kBlockHeader_def)
  moreover have "still_current (sample_slots 4096) (sample_io (runaway_file 77)) = (Some 8256, sample_io (runaway_file 77))"
    using still_current_quiet [of "sample_io (runaway_file 77)" "sample_slots 4096" 3] l by simp
  then have "slot_commit (sample_slots 4096) (sample_io (runaway_file 77)) [] (\<lambda>_ _. True) False = None"
    using r by (simp add: slot_commit_def io_call_quiet commit_locked_def)
  ultimately show ?thesis using r by blast
qed

text \<open>A store that was dropped or replaced takes no more records: when the path no longer names the store's file, a commit fails under every schedule of
  faults, commits and reports nothing and changes no byte and no name; without faults the error is \<^verbatim>\<open>ESTALE\<close>, and \<^verbatim>\<open>dropIfCurrent\<close> leaves
  whatever the path names alone.\<close>

theorem stale_store_takes_nothing:
  assumes "map_of (io_fds io) (ss_fd ss) = Some i" and "map_of (io_names io) (ss_path ss) \<noteq> Some i"
  shows "(\<exists>rc io'. slot_commit ss io recs taken sync = Some (rc, [], [], ss, io') \<and> rc \<noteq> 0 \<and> io_same io io' \<and>
      (io_sched io = [] \<and> \<not> sh_declined (ss_hdr ss) \<longrightarrow> rc = - ESTALE)) \<and>
    fst (dropIfCurrent ss io busy) = False \<and> io_same io (snd (dropIfCurrent ss io busy))"
proof -
  obtain rc io1 where c: "io_call io = (rc, io1)" by fastforce
  have s1: "io_same io io1" by (rule io_call_same [OF c])
  obtain s io2 where st: "still_current ss io1 = (s, io2)" by fastforce
  have fd1: "map_of (io_fds io1) (ss_fd ss) = Some i" using io_sameD(3) [OF s1] assms(1) by simp
  note S = still_current_any [OF st fd1]
  have n: "s = None" using S(2) io_sameD(1) [OF s1] assms(2) by (cases s) auto
  have s3: "io_same io (snd (io_call io2))" using s1 S(1) io_call_same [of io2] io_same_trans by (metis prod.collapse)
  have rc: "io_sched io = [] \<Longrightarrow> rc = 0" using c by (simp add: io_call_quiet)
  have e: "ESTALE \<noteq> 0" "EINVAL \<noteq> 0" by (simp_all add: ESTALE_def EINVAL_def)
  have "\<exists>rc io'. slot_commit ss io recs taken sync = Some (rc, [], [], ss, io') \<and> rc \<noteq> 0 \<and> io_same io io' \<and> (io_sched io = [] \<and> \<not> sh_declined (ss_hdr ss) \<longrightarrow> rc = - ESTALE)"
    using s1 s3 e rc by (auto simp: slot_commit_def c commit_locked_def st n)
  moreover have "fst (dropIfCurrent ss io busy) = False \<and> io_same io (snd (dropIfCurrent ss io busy))"
    using s1 s3 by (simp add: dropIfCurrent_def c st n Let_def)
  ultimately show ?thesis by blast
qed

theorem stale_store_takes_nothing_witness:
  "\<exists>rc io'. slot_commit (sample_slots 0) ((sample_io [])\<lparr>io_names := [(''d/h.slots'', 4)]\<rparr>) [] (\<lambda>_ _. True) False = Some (rc, [], [], sample_slots 0, io') \<and> rc = - ESTALE"
  using stale_store_takes_nothing [of "(sample_io [])\<lparr>io_names := [(''d/h.slots'', 4)]\<rparr>" "sample_slots 0" 3 "[]" "\<lambda>_ _. True" False True] by auto

end
