(* ===== verification/Slot_Create.thy ===== *)
theory Slot_Create
  imports Slot_Log
begin

text \<open>
  The creation of a slot store: the path never names a store without its whole header and layout. A call that finds no usable store either leaves
  the path as it was, removes what it takes for the debris of a crash, or links a complete file into place. The last
  section shows what a read error does to that judgement.
\<close>

section \<open>What the calls keep of a path\<close>

definition names_old :: "io \<Rightarrow> bool" where
  "names_old io \<longleftrightarrow> (\<forall>q i. map_of (io_names io) q = Some i \<longrightarrow> i < io_next io)"

definition path_kept :: "string \<Rightarrow> io \<Rightarrow> io \<Rightarrow> bool" where
  "path_kept p io io' \<longleftrightarrow> (names_old io \<longrightarrow> names_old io') \<and> file_at io' p = file_at io p"

lemma io_ok_names_old: "io_ok io \<Longrightarrow> names_old io"
  using io_ok_names by (auto simp: names_old_def)

lemma path_kept_trans [trans]: "path_kept p a b \<Longrightarrow> path_kept p b c \<Longrightarrow> path_kept p a c"
  by (simp add: path_kept_def)

lemma same_kept: "io_same io io' \<Longrightarrow> path_kept p io io'"
  using io_sameD [of io io'] io_same_store_eq [of io io'] store_eq_file_at [of io io' p] by (simp add: path_kept_def names_old_def)

lemma close_next: "io_next (snd (io_close io fd)) = io_next io"
proof -
  obtain oc io2 where o: "next_outcome io = (oc, io2)" by fastforce
  note sd = io_sameD [OF next_outcome_same [OF o]]
  show ?thesis using sd by (auto simp: io_close_def o split: outcome.splits)
qed

lemma close_kept: "path_kept p io (snd (io_close io fd))"
  using close_store_eq [of io fd] store_eq_file_at [of io "snd (io_close io fd)" p] close_next [of io fd]
  by (simp add: path_kept_def names_old_def store_eq_def)

lemma open_kept:
  assumes "io_open io q False False = (fd, io')"
  shows "path_kept p io io'"
proof -
  obtain oc io2 where o: "next_outcome io = (oc, io2)" by fastforce
  note sd = io_sameD [OF next_outcome_same [OF o]]
  have "io_next io \<le> io_next io'" using assms sd by (auto simp: io_open_def o Let_def split: outcome.splits option.splits if_splits)
  moreover have "store_eq io io'" using io_open_existing [OF assms] by (simp add: store_eq_def)
  ultimately show ?thesis using store_eq_file_at [of io io' p] by (fastforce simp: path_kept_def names_old_def store_eq_def)
qed

lemma unlink_next: "io_next (snd (io_unlink io q)) = io_next io"
proof -
  obtain oc io2 where o: "next_outcome io = (oc, io2)" by fastforce
  note sd = io_sameD [OF next_outcome_same [OF o]]
  show ?thesis using sd by (auto simp: io_unlink_def o split: outcome.splits)
qed

lemma unlink_names: "map_of (io_names (snd (io_unlink io q))) r = Some i \<Longrightarrow> map_of (io_names io) r = Some i"
proof -
  obtain oc io2 where o: "next_outcome io = (oc, io2)" by fastforce
  note sd = io_sameD [OF next_outcome_same [OF o]]
  show "map_of (io_names (snd (io_unlink io q))) r = Some i \<Longrightarrow> map_of (io_names io) r = Some i"
    using sd by (auto simp: io_unlink_def o AList.delete_conv' split: outcome.splits if_splits)
qed

lemma unlink_old: "names_old io \<Longrightarrow> names_old (snd (io_unlink io q))"
  using unlink_names [of io q] unlink_next [of io q] by (fastforce simp: names_old_def)

lemma unlink_kept: "q \<noteq> p \<Longrightarrow> path_kept p io (snd (io_unlink io q))"
  using io_unlink_keeps [of io q "fst (io_unlink io q)" "snd (io_unlink io q)"] unlink_old [of io q] 
  by (simp add: path_kept_def file_at_def cong: option.map_cong)

lemma unlink_file: "file_at (snd (io_unlink io p)) p \<in> {file_at io p, None}"
  using io_unlink_keeps(2) [of io p "fst (io_unlink io p)" "snd (io_unlink io p)"] unlink_names [of io p p]
  by (cases "map_of (io_names (snd (io_unlink io p))) p") (auto simp: file_at_def)

lemma frame_kept: "io_frame n io io' \<Longrightarrow> map_of (io_names io) p \<noteq> Some n \<Longrightarrow> path_kept p io io'"
  by (auto simp: path_kept_def io_frame_def names_old_def file_at_def split: option.splits) (auto simp: map_option_case split: option.splits)

lemma preadFull_kept:
  assumes "preadFull io fd cnt off [] = (r, xs, io')" and "map_of (io_fds io) fd = Some i"
  shows "io_same io io'"
  using preadFull_spec [OF assms] by simp

lemma readHead_same:
  assumes "readHeadAndBlob io fd = (r, io')" and "map_of (io_fds io) fd = Some i"
  shows "io_same io io'"
proof -
  obtain g b io1 where p: "preadFull io fd kHeaderBytes 0 [] = (g, b, io1)" by (metis prod_cases3)
  have s1: "io_same io io1" by (rule preadFull_kept [OF p assms(2)])
  have fd1: "map_of (io_fds io1) fd = Some i" using io_sameD(3) [OF s1] assms(2) by simp
  have s2: "preadFull io1 fd n m [] = (g2, x, io2) \<Longrightarrow> io_same io io2" for n m g2 x io2
    using preadFull_kept [OF _ fd1] s1 io_same_trans by blast
  show ?thesis using assms(1) s1 s2 by (auto simp: readHeadAndBlob_def p split: if_splits option.splits prod.splits)
qed

section \<open>One attempt\<close>

lemma open_excl_new:
  assumes "io_open_excl io q = (fd, io')" and "names_old io"
  shows "fd < 0 \<and> io_same io io' \<or>
    0 \<le> fd \<and> (let n = io_next io in map_of (io_fds io') (nat fd) = Some n \<and> map_of (io_names io') q = Some n \<and> content io' n = [] \<and> names_old io' \<and>
      (\<forall>p. p \<noteq> q \<longrightarrow> path_kept p io io' \<and> map_of (io_names io') p \<noteq> Some n))"
proof -
  obtain oc io2 where o: "next_outcome io = (oc, io2)" by fastforce
  note same = next_outcome_same [OF o] and sd = io_sameD [OF next_outcome_same [OF o]]
  have old: "map_of (io_names io) p \<noteq> Some (io_next io)" for p using assms(2) by (auto simp: names_old_def)
  show ?thesis
  proof (cases "fd < 0")
    case True
    then show ?thesis using assms(1) same by (auto simp: io_open_excl_def o Let_def split: outcome.splits option.splits)
  next
    case False
    let ?n = "io_next io"
    have e: "fd = int ?n" "io' = (set_content io2 ?n [])\<lparr>io_names := AList.update q ?n (io_names io), io_fds := AList.update ?n ?n (io_fds io), io_next := ?n + 1\<rparr>"
      using assms(1) False sd by (auto simp: io_open_excl_def o Let_def errval_def errno_defs split: outcome.splits option.splits if_splits)
    have nm: "map_of (io_names io') r = (if r = q then Some ?n else map_of (io_names io) r)" for r by (simp add: e(2) AList.update_conv')
    have no: "names_old io'" using assms(2) unfolding names_old_def nm by (auto simp: e(2) intro: less_SucI)
    have ct: "content io' j = (if j = ?n then [] else content io j)" for j using sd by (simp add: e(2) map_of_content)
    have "path_kept p io io' \<and> map_of (io_names io') p \<noteq> Some ?n" if "p \<noteq> q" for p
    proof -
      have "file_at io' p = file_at io p" using that old [of p] by (cases "map_of (io_names io) p") (auto simp: file_at_def nm ct)
      then show ?thesis using no that old [of p] by (simp add: path_kept_def nm)
    qed
    then show ?thesis using False e(1) nm no ct by (simp add: Let_def e(2) AList.update_conv')
  qed
qed

lemma link_effect:
  assumes "io_link io a p = (r, io')" and "map_of (io_names io) a = Some n"
  shows "r < 0 \<and> io_same io io' \<or> r = 0 \<and> map_of (io_names io') p = Some n \<and> (\<forall>j. content io' j = content io j) \<and> (names_old io \<longrightarrow> names_old io')"
proof -
  obtain oc io2 where o: "next_outcome io = (oc, io2)" by fastforce
  note same = next_outcome_same [OF o] and sd = io_sameD [OF next_outcome_same [OF o]]
  show ?thesis
    using assms same sd by (auto simp: io_link_def o names_old_def AList.update_conv' errval_def errno_defs split: outcome.splits option.splits if_splits)
qed

text \<open>The private file is filled completely before it is synchronised, or the attempt gives up; the path is untouched so far.\<close>

definition want_of :: "slotHeader \<Rightarrow> bytes \<Rightarrow> nat \<Rightarrow> slotHeader" where
  "want_of h blob sid = h\<lparr>sh_storeId := sid, sh_blobLen := length blob, sh_blobCrc := unat (crc32c blob)\<rparr>"

definition fill_tmp :: "io \<Rightarrow> nat \<Rightarrow> bytes \<Rightarrow> bytes \<Rightarrow> bool \<times> io" where
  "fill_tmp io1 tfd hb blob =
     (let (w, io2) = pwriteFull io1 tfd hb 0 0;
          ok1 = (w = int (length hb));
          (ok2, io3) = (if ok1 \<and> blob \<noteq> []
                        then (case pwriteFull io2 tfd blob kHeaderBytes 0 of (w2, io3) \<Rightarrow> (w2 = int (length blob), io3))
                        else (ok1, io2))
      in if ok2 then (case io_fdatasync io3 tfd of (rc, io4) \<Rightarrow> (rc = 0, io4)) else (False, io3))"

lemma create_attempt_eq:
  "create_attempt io p want0 blob sid suffix =
     (let want = want_of want0 blob sid; tmp = p @ ''.tmp.'' @ suffix
      in case io_open_excl io tmp of
           (tfd, io1) \<Rightarrow>
             if tfd < 0 then (Some (Inl (CannotCreate tfd)), io1)
             else case fill_tmp io1 (nat tfd) (encodeSlotHeader want) blob of
               (synced, io4) \<Rightarrow>
                 if \<not> synced then (Some (Inl CannotWrite), snd (io_unlink (snd (io_close io4 (nat tfd))) tmp))
                 else case io_link io4 tmp p of
                   (lrc, io5) \<Rightarrow>
                     let io6 = snd (io_unlink io5 tmp)
                     in if lrc = - EEXIST then (None, snd (io_close io6 (nat tfd)))
                        else if lrc < 0 then (Some (Inl (CannotLink lrc)), snd (io_close io6 (nat tfd)))
                        else (Some (Inr (mk_store (nat tfd) p want blob)), io6))"
  by (simp add: create_attempt_def fill_tmp_def want_of_def Let_def split: prod.splits)

lemma fill_tmp_spec:
  assumes "fill_tmp io fd hb blob = (ok, io')" and "map_of (io_fds io) fd = Some n" and "content io n = []" and "length hb = kHeaderBytes"
  shows "io_frame n io io' \<and> (ok \<longrightarrow> content io' n = hb @ blob)"
proof -
  obtain w io2 where w: "pwriteFull io fd hb 0 0 = (w, io2)" by fastforce
  have F1: "io_frame n io io2" "0 \<le> w \<longrightarrow> content io2 n = pwrite_bytes [] 0 hb \<and> w = int (length hb)"
    using pwriteFull_spec [OF w assms(2), of "[]"] assms(3) by auto
  have c1: "pwrite_bytes [] 0 hb = hb" by (simp add: pwrite_bytes_def)
  have fd2: "map_of (io_fds io2) fd = Some n" using F1(1) assms(2) by (simp add: io_frame_def)
  obtain w2 io3 where w2: "pwriteFull io2 fd blob kHeaderBytes 0 = (w2, io3)" by fastforce
  have F2: "io_frame n io2 io3" "0 \<le> w2 \<longrightarrow> content io3 n = pwrite_bytes (content io2 n) kHeaderBytes blob"
    using pwriteFull_spec [OF w2 fd2, of "content io2 n"] by auto
  have c2: "pwrite_bytes hb kHeaderBytes blob = hb @ blob" using assms(4) by (simp add: pwrite_bytes_def)
  have ds: "io_frame n x y \<and> content y n = content x n" if "io_fdatasync x fd = (rc, y)" for x y rc
    using io_same_frame [OF io_fdatasync_same [OF that]] io_sameD(5) [OF io_fdatasync_same [OF that]] by simp
  have h2: "w = int (length hb) \<Longrightarrow> content io2 n = hb" using F1(2) c1 by (metis of_nat_0_le_iff)
  have F3: "io_frame n io io3" by (rule io_frame_trans [OF F1(1) F2(1)])
  have syn: "io_frame n io y \<and> content y n = content x n" if "io_fdatasync x fd = (rc, y)" "io_frame n io x" for x y rc
    using ds [OF that(1)] io_frame_trans [OF that(2)] by blast
  obtain rc2 a where a: "io_fdatasync io2 fd = (rc2, a)" by fastforce
  obtain rc3 b where b: "io_fdatasync io3 fd = (rc3, b)" by fastforce
  consider (short) "w \<noteq> int (length hb)" | (plain) "w = int (length hb)" "blob = []" | (both) "w = int (length hb)" "blob \<noteq> []" by blast
  then show ?thesis
  proof cases
    case short
    then have "\<not> ok" "io' = io2" using assms(1) w by (simp_all add: fill_tmp_def Let_def)
    then show ?thesis using F1(1) by simp
  next
    case plain
    then have "ok = (rc2 = 0)" "io' = a" using assms(1) w a by (simp_all add: fill_tmp_def Let_def)
    moreover have "content io2 n = hb" using h2 plain(1) by blast
    ultimately show ?thesis using syn [OF a F1(1)] plain(2) by auto
  next
    case both
    show ?thesis
    proof (cases "w2 = int (length blob)")
      case True
      then have "ok = (rc3 = 0)" "io' = b" using assms(1) w w2 b both by (simp_all add: fill_tmp_def Let_def)
      moreover have "content io3 n = hb @ blob" using F2(2) h2 both(1) True c2 by (metis of_nat_0_le_iff)
      ultimately show ?thesis using syn [OF b F3] by auto
    next
      case False
      then have "\<not> ok" "io' = io3" using assms(1) w w2 both by (simp_all add: fill_tmp_def Let_def)
      then show ?thesis using F3 by simp
    qed
  qed
qed

lemma create_attempt_spec:
  assumes "create_attempt io p want0 blob sid suffix = (r, io')" and old: "names_old io"
  shows "names_old io' \<and>
    (case r of Some (Inr ss) \<Rightarrow> file_at io' p = Some (encodeSlotHeader (want_of want0 blob sid) @ blob) \<and> (\<exists>fd. ss = mk_store fd p (want_of want0 blob sid) blob)
     | _ \<Rightarrow> file_at io' p = file_at io p)"
proof -
  define want where "want = want_of want0 blob sid"
  define tmp where "tmp = p @ ''.tmp.'' @ suffix"
  have tp: "p \<noteq> tmp" "tmp \<noteq> p" by (simp_all add: tmp_def)
  obtain tfd io1 where o: "io_open_excl io tmp = (tfd, io1)" by fastforce
  note O = open_excl_new [OF o old]
  have ca: "(r, io') = (case io_open_excl io tmp of
      (tfd, io1) \<Rightarrow>
        if tfd < 0 then (Some (Inl (CannotCreate tfd)), io1)
        else case fill_tmp io1 (nat tfd) (encodeSlotHeader want) blob of
          (synced, io4) \<Rightarrow>
            if \<not> synced then (Some (Inl CannotWrite), snd (io_unlink (snd (io_close io4 (nat tfd))) tmp))
            else case io_link io4 tmp p of
              (lrc, io5) \<Rightarrow>
                if lrc = - EEXIST then (None, snd (io_close (snd (io_unlink io5 tmp)) (nat tfd)))
                else if lrc < 0 then (Some (Inl (CannotLink lrc)), snd (io_close (snd (io_unlink io5 tmp)) (nat tfd)))
                else (Some (Inr (mk_store (nat tfd) p want blob)), snd (io_unlink io5 tmp)))"
    unfolding assms(1) [symmetric] create_attempt_eq Let_def tmp_def want_def ..
  show ?thesis
  proof (cases "tfd < 0")
    case True
    then have "path_kept p io io1" using O same_kept by auto
    then show ?thesis using ca o True old by (simp add: path_kept_def)
  next
    case False
    define n where "n = io_next io"
    have N: "map_of (io_fds io1) (nat tfd) = Some n" "map_of (io_names io1) tmp = Some n" "content io1 n = []" "path_kept p io io1" "map_of (io_names io1) p \<noteq> Some n"
      using O False tp by (auto simp: Let_def n_def)
    obtain ok io4 where f: "fill_tmp io1 (nat tfd) (encodeSlotHeader want) blob = (ok, io4)" by fastforce
    have F: "io_frame n io1 io4" "ok \<longrightarrow> content io4 n = encodeSlotHeader want @ blob"
      using fill_tmp_spec [OF f N(1,3)] by (simp_all add: kHeaderBytes_def)
    have k4: "path_kept p io io4" using path_kept_trans [OF N(4) frame_kept [OF F(1) N(5)]] .
    have old4: "names_old io4" using k4 old by (simp add: path_kept_def)
    have tn: "map_of (io_names io4) tmp = Some n" using F(1) N(2) by (simp add: io_frame_def)
    show ?thesis
    proof (cases ok)
      case False
      have "path_kept p io (snd (io_unlink (snd (io_close io4 (nat tfd))) tmp))"
        using path_kept_trans [OF k4 path_kept_trans [OF close_kept unlink_kept [OF tp(2)]]] .
      then show ?thesis using ca o f False \<open>\<not> tfd < 0\<close> old by (simp add: path_kept_def)
    next
      case True
      obtain lrc io5 where l: "io_link io4 tmp p = (lrc, io5)" by fastforce
      note L = link_effect [OF l tn]
      define io6 where "io6 = snd (io_unlink io5 tmp)"
      have k6: "path_kept p io5 io6" unfolding io6_def by (rule unlink_kept [OF tp(2)])
      show ?thesis
      proof (cases "lrc < 0")
        case True
        then have "path_kept p io4 io5" using L same_kept by auto
        then have "path_kept p io (snd (io_close io6 (nat tfd)))" using path_kept_trans [OF path_kept_trans [OF k4] path_kept_trans [OF k6 close_kept]] by blast
        then show ?thesis using ca o f l \<open>ok\<close> True \<open>\<not> tfd < 0\<close> old
          by (simp add: io6_def [symmetric] path_kept_def split: if_splits)
      next
        case False
        then have "file_at io5 p = Some (encodeSlotHeader want @ blob)" "names_old io5" using L F(2) \<open>ok\<close> old4 by (auto simp: file_at_def)
        then have "file_at io6 p = Some (encodeSlotHeader want @ blob)" "names_old io6" using k6 by (auto simp: path_kept_def)
        then show ?thesis using ca o f l \<open>ok\<close> False \<open>\<not> tfd < 0\<close>
          by (auto simp: io6_def [symmetric] want_def [symmetric] errno_defs)
      qed
    qed
  qed
qed

section \<open>The whole call\<close>

text \<open>What the path may name after a call that wanted \<open>want\<close> with \<open>blob\<close>.\<close>

definition whole_or_old :: "slotHeader \<Rightarrow> bytes \<Rightarrow> bytes option \<Rightarrow> bytes option \<Rightarrow> bool" where
  "whole_or_old want blob before after \<longleftrightarrow> after = before \<or> after = None \<or> (\<exists>sid. after = Some (encodeSlotHeader (want_of want blob sid) @ blob))"

lemma whole_or_old_trans: "whole_or_old w b x y \<Longrightarrow> whole_or_old w b y z \<Longrightarrow> whole_or_old w b x z"
  by (auto simp: whole_or_old_def)

lemma debris_same: "isDebris io fd mt now = (d, io') \<Longrightarrow> io_same io io'"
  using io_fstat_any(1) [of io fd] by (auto simp: isDebris_def split: prod.splits sum.splits)

lemma create_loop_spec:
  assumes "create_loop k io p want blob fresh mt now = (res, io')" and "names_old io"
  shows "names_old io' \<and> whole_or_old want blob (file_at io p) (file_at io' p) \<and>
    (\<forall>ss. res = Inr (ss, True) \<longrightarrow> (\<exists>sid. ss_hdr ss = want_of want blob sid \<and> ss_blob ss = blob \<and> file_at io' p = Some (encodeSlotHeader (ss_hdr ss) @ blob)))"
  using assms
proof (induction k arbitrary: io)
  case 0
  then show ?case by (auto simp: whole_or_old_def)
next
  case (Suc k)
  obtain fd io1 where o: "io_open io p False False = (fd, io1)" by fastforce
  have k1: "path_kept p io io1" by (rule open_kept [OF o])
  have old1: "names_old io1" using k1 Suc.prems(2) by (simp add: path_kept_def)
  show ?case
  proof (cases "fd \<ge> 0")
    case True
    then obtain i where i: "map_of (io_fds io1) (nat fd) = Some i" using io_open_existing [OF o] by blast
    obtain h io2 where h: "readHeadAndBlob io1 (nat fd) = (h, io2)" by fastforce
    have k2: "path_kept p io io2" using path_kept_trans [OF k1 same_kept [OF readHead_same [OF h i]]] .
    show ?thesis
    proof (cases h)
      case (HeadOk hd b)
      then show ?thesis using Suc.prems o h True k2 by (auto simp: path_kept_def whole_or_old_def)
    next
      case HeadNewer
      then show ?thesis using Suc.prems o h True path_kept_trans [OF k2 close_kept [of p io2 "nat fd"]] by (auto simp: path_kept_def whole_or_old_def)
    next
      case HeadUnusable
      obtain d io3 where d: "isDebris io2 (nat fd) mt now = (d, io3)" by fastforce
      define io4 where "io4 = snd (io_close io3 (nat fd))"
      have k4: "path_kept p io io4" unfolding io4_def using path_kept_trans [OF path_kept_trans [OF k2 same_kept [OF debris_same [OF d]]] close_kept] .
      show ?thesis
      proof (cases d)
        case False
        then show ?thesis using Suc.prems o h True HeadUnusable d k4 by (auto simp: io4_def [symmetric] path_kept_def whole_or_old_def Let_def)
      next
        case D: True
        define io5 where "io5 = snd (io_unlink io4 p)"
        have old5: "names_old io5" using unlink_old k4 Suc.prems(2) by (simp add: io5_def path_kept_def)
        have w5: "whole_or_old want blob (file_at io p) (file_at io5 p)" using unlink_file [of io4 p] k4 by (auto simp: io5_def path_kept_def whole_or_old_def)
        have "create_loop k io5 p want blob fresh mt now = (res, io')"
          using Suc.prems(1) o h True HeadUnusable d D by (simp add: io4_def io5_def Let_def)
        from Suc.IH [OF this old5] show ?thesis using whole_or_old_trans [OF w5] by blast
      qed
    qed
  next
    case False
    show ?thesis
    proof (cases "fd = - ENOENT")
      case F: False
      then show ?thesis using Suc.prems o False k1 by (auto simp: path_kept_def whole_or_old_def)
    next
      case True
      obtain r io2 where c: "create_attempt io1 p want blob (fst (fresh k)) (snd (fresh k)) = (r, io2)" by fastforce
      note C = create_attempt_spec [OF c old1]
      have f1: "file_at io1 p = file_at io p" using k1 by (simp add: path_kept_def)
      consider (err) e where "r = Some (Inl e)" | (made) ss where "r = Some (Inr ss)" | (lost) "r = None" by (metis option.exhaust sum.exhaust)
      then show ?thesis
      proof cases
        case err
        then show ?thesis using Suc.prems o False True c C f1 by (auto simp: whole_or_old_def)
      next
        case made
        then show ?thesis using Suc.prems o False True c C f1 by (auto simp: whole_or_old_def mk_store_def)
      next
        case lost
        have w: "whole_or_old want blob (file_at io p) (file_at io2 p)" using C f1 lost by (simp add: whole_or_old_def)
        have "create_loop k io2 p want blob fresh mt now = (res, io')" using Suc.prems(1) o False True c lost by simp
        from Suc.IH [OF this] C lost show ?thesis using whole_or_old_trans [OF w] by blast
      qed
    qed
  qed
qed

section \<open>A store and a read error\<close>

text \<open>A store of the sample header with anything behind it, and the calls of \<^verbatim>\<open>openOrCreate\<close> on it up to the first read.\<close>

definition with_sched :: "outcome list \<Rightarrow> bytes \<Rightarrow> io" where
  "with_sched sch f = (sample_io f)\<lparr>io_sched := sch\<rparr>"

definition opened :: "outcome list \<Rightarrow> bytes \<Rightarrow> io" where
  "opened sch f = (with_sched sch f)\<lparr>io_fds := [(5, 3), (6, 3)], io_next := 7\<rparr>"

lemma opened_simps [simp]:
  "io_sched (opened sch f) = sch" "io_fds (opened sch f) = [(5, 3), (6, 3)]" "content (opened sch f) 3 = f" "nlink (opened sch f) 3 = 1"
  "io_names (opened sch f) = [(''d/h.slots'', 3)]" "io_next (opened sch f) = 7" "io_next (with_sched sch f) = 6"
  "io_sched (with_sched sch f) = sch" "io_names (with_sched sch f) = [(''d/h.slots'', 3)]" "io_fds (with_sched sch f) = [(5, 3)]"
  "(with_sched (x # sch) f)\<lparr>io_sched := sch\<rparr> = with_sched sch f" "(opened (x # sch) f)\<lparr>io_sched := sch\<rparr> = opened sch f"
  by (simp_all add: opened_def with_sched_def sample_io_def content_def nlink_def)

lemma sample_open: "io_open (with_sched (Done # sch) f) ''d/h.slots'' False False = (6, opened sch f)"
  by (simp add: io_open_def next_outcome_def opened_def Let_def)

lemma sample_head:
  "readHeadAndBlob (opened [Err 5] f) 6 = (HeadUnusable, opened [] f)"
  "readHeadAndBlob (opened [] (encodeSlotHeader sample_header @ rest)) 6 = (HeadOk sample_header [], opened [] (encodeSlotHeader sample_header @ rest))"
proof -
  have "preadFull (opened [Err 5] f) 6 kHeaderBytes 0 [] = (-5, [], opened [] f)"
    by (subst preadFull.simps) (simp add: io_pread_def next_outcome_def errval_def EINTR_def kHeaderBytes_def)
  then show "readHeadAndBlob (opened [Err 5] f) 6 = (HeadUnusable, opened [] f)" by (simp add: readHeadAndBlob_def kHeaderBytes_def)
  let ?f = "encodeSlotHeader sample_header @ rest"
  have ok: "slotHeader_ok sample_header" by (simp add: slotHeader_ok_def sample_header_def)
  have d: "decodeSlotHeader (encodeSlotHeader sample_header) = Some sample_header"
    unfolding decode_encode_header [OF ok] by (simp add: sample_header_def)
  have nn: "\<not> newerFormat (encodeSlotHeader sample_header)"
    using d by (auto simp: newerFormat_def decodeSlotHeader_def split: if_splits)
  have "preadFull (opened [] ?f) 6 kHeaderBytes 0 [] = (4096, encodeSlotHeader sample_header, opened [] ?f)"
    using preadFull_exact [of "opened [] ?f" 6 3 kHeaderBytes 0] by (simp add: kHeaderBytes_def slice_def)
  then show "readHeadAndBlob (opened [] ?f) 6 = (HeadOk sample_header [], opened [] ?f)"
    using nn d by (simp add: readHeadAndBlob_def kHeaderBytes_def sample_header_def)
qed

text \<open>The path after the removal of what was taken for debris.\<close>

lemma sample_removed:
  "isDebris (opened [] f) 6 (\<lambda>_. 0) 1000 = (True, opened [] f)"
  "names_old (snd (io_unlink (snd (io_close (opened [] f) 6)) ''d/h.slots''))"
  "file_at (snd (io_unlink (snd (io_close (opened [] f) 6)) ''d/h.slots'')) ''d/h.slots'' = None"
  by (simp_all add: isDebris_def io_fstat_quiet kDebrisAgeS_def io_close_def io_unlink_def names_old_def file_at_def)

section \<open>Properties\<close>

text \<open>C23. The path of a store never names a half-made one. Whatever calls fail or stop early, after \<^verbatim>\<open>openOrCreate\<close> the path names what it named before, or
  nothing, or a file that is exactly the header wanted, with some store id, followed by the whole layout; and a call that reports to have created the store left exactly that file
  there and returns its header and layout.\<close>

theorem store_created_whole:
  assumes "openOrCreate io objectDir hashHex want blob fresh mtimeS nowS = (res, io')" and "io_ok io"
  shows "whole_or_old want blob (file_at io (slot_path objectDir hashHex)) (file_at io' (slot_path objectDir hashHex)) \<and>
    (\<forall>ss. res = Inr (ss, True) \<longrightarrow> (\<exists>sid. ss_hdr ss = want_of want blob sid \<and> ss_blob ss = blob \<and>
       file_at io' (slot_path objectDir hashHex) = Some (encodeSlotHeader (ss_hdr ss) @ blob)))"
proof -
  obtain rc io1 where c: "io_call io = (rc, io1)" by fastforce
  have k: "path_kept (slot_path objectDir hashHex) io io1" by (rule same_kept [OF io_call_same [OF c]])
  have old: "names_old io1" using k io_ok_names_old [OF assms(2)] by (simp add: path_kept_def)
  show ?thesis
  proof (cases "rc < 0")
    case True
    then show ?thesis using assms(1) c k by (auto simp: openOrCreate_def path_kept_def whole_or_old_def)
  next
    case False
    then have "create_loop 3 io1 (slot_path objectDir hashHex) want blob fresh mtimeS nowS = (res, io')" using assms(1) c by (simp add: openOrCreate_def)
    from create_loop_spec [OF this old] show ?thesis using k by (simp add: path_kept_def)
  qed
qed

theorem store_created_whole_witness:
  "whole_or_old sample_header [1, 2] None (file_at (snd (openOrCreate empty_io ''d'' ''h'' sample_header [1, 2] (\<lambda>k. (5, ''a'')) (\<lambda>_. 0) 0)) ''d/h.slots'')"
proof -
  have p: "slot_path ''d'' ''h'' = ''d/h.slots''" by (simp add: slot_path_def)
  have n: "file_at empty_io ''d/h.slots'' = None" by (simp add: file_at_def empty_io_def)
  obtain res io' where o: "openOrCreate empty_io ''d'' ''h'' sample_header [1, 2] (\<lambda>k. (5, ''a'')) (\<lambda>_. 0) 0 = (res, io')" by fastforce
  from store_created_whole [OF o empty_io_ok(1)] show ?thesis unfolding p n o by simp
qed

text \<open>One failed read destroys a good store. The store of the sample header with any committed blocks behind it, more than a minute old, is returned as it is
  by \<^verbatim>\<open>openOrCreate\<close> when no call fails. When the read of its header fails once with an I/O error, the same call takes it for the debris of a crash, unlinks it
  and with it every converted record.\<close>

theorem read_error_drops_store:
  assumes "rest \<noteq> []"
  shows "(let f = encodeSlotHeader sample_header @ rest;
      call = (\<lambda>sch. openOrCreate (with_sched sch f) ''d'' ''h'' sample_header [] fresh (\<lambda>_. 0) 1000)
     in (\<exists>ss. fst (call []) = Inr (ss, False)) \<and> file_at (snd (call [])) ''d/h.slots'' = Some f \<and>
        file_at (snd (call [Done, Done, Err 5])) ''d/h.slots'' \<noteq> Some f)"
proof -
  define f where "f = encodeSlotHeader sample_header @ rest"
  have p: "slot_path ''d'' ''h'' = ''d/h.slots''" by (simp add: slot_path_def)
  have c: "io_call (with_sched [] f) = (0, with_sched [] f)" "io_call (with_sched (Done # sch) f) = (0, with_sched sch f)" for sch
    by (simp_all add: io_call_def next_outcome_def)
  have o: "io_open (with_sched [] f) ''d/h.slots'' False False = (6, opened [] f)" by (simp add: io_open_def opened_def Let_def)
  have three: "(3 :: nat) = Suc 2" by simp
  have good: "openOrCreate (with_sched [] f) ''d'' ''h'' sample_header [] fresh (\<lambda>_. 0) 1000 = (Inr (mk_store 6 ''d/h.slots'' sample_header [], False), opened [] f)"
    unfolding openOrCreate_def c(1) p three create_loop.simps using o sample_head(2) [of rest, folded f_def] by simp
  define io5 where "io5 = snd (io_unlink (snd (io_close (opened [] f) 6)) ''d/h.slots'')"
  have bad: "openOrCreate (with_sched [Done, Done, Err 5] f) ''d'' ''h'' sample_header [] fresh (\<lambda>_. 0) 1000 =
      create_loop 2 io5 ''d/h.slots'' sample_header [] fresh (\<lambda>_. 0) 1000"
    unfolding openOrCreate_def c(2) p three create_loop.simps
    using sample_open [of "[Err 5]" f] sample_head(1) [of f] sample_removed(1) [of f] by (simp add: io5_def Let_def)
  obtain res io' where l: "create_loop 2 io5 ''d/h.slots'' sample_header [] fresh (\<lambda>_. 0) 1000 = (res, io')" by fastforce
  have "names_old io5" "file_at io5 ''d/h.slots'' = None" using sample_removed(2,3) [of f] by (simp_all add: io5_def)
  then have "file_at io' ''d/h.slots'' = None \<or> (\<exists>sid. file_at io' ''d/h.slots'' = Some (encodeSlotHeader (want_of sample_header [] sid)))"
    using create_loop_spec [OF l] by (auto simp: whole_or_old_def)
  moreover have "encodeSlotHeader (want_of sample_header [] sid) \<noteq> f" for sid
  proof
    assume "encodeSlotHeader (want_of sample_header [] sid) = f"
    then have "length (encodeSlotHeader (want_of sample_header [] sid)) = length f" by simp
    then show False using assms by (simp add: f_def)
  qed
  ultimately have "file_at io' ''d/h.slots'' \<noteq> Some f" by auto
  then show ?thesis unfolding f_def [symmetric] Let_def using good bad l by (simp add: file_at_def)
qed

theorem read_error_drops_store_witness:
  "file_at (snd (openOrCreate (with_sched [Done, Done, Err 5] (encodeSlotHeader sample_header @ [1])) ''d'' ''h'' sample_header [] (\<lambda>k. (5, ''a'')) (\<lambda>_. 0) 1000))
     ''d/h.slots'' \<noteq> Some (encodeSlotHeader sample_header @ [1])"
  using read_error_drops_store [of "[1]" "\<lambda>k. (5, ''a'')"] by (simp add: Let_def)

end
