(* ===== verification/Cache_Evict.thy ===== *)
theory Cache_Evict
  imports Meta_File Slot_Store Settings
begin

text \<open>
  The cache store's view of the disk and its space policy (\<^verbatim>\<open>src/src/core/CacheStore.cc\<close>): the scan of the sidecars, the free-space floor, the
  rate-limited trigger, the eviction pass with its protection window and admission latch, the sweep of orphaned
  artifacts, the criterion-based cleanup, and the removal and pinning of single entries.

  A directory exists when a name lies below it; it lists the next component of those names. Free space, the clock and modification times are arguments.
  The entries open in this process are given by their hashes together with what flushing them does to the file system (the operation \<^verbatim>\<open>flushAll\<close> of the file
  entry). The threads of a scan and of a cleanup work on disjoint files and are run one after the other. Entries of equal access time stay in the order of the scan, one of the
  orders \<^verbatim>\<open>std::sort\<close> may give them. Water marks and coverages are real numbers; the artifacts of an entry are the list of their suffixes.
\<close>

unbundle bit_operations_syntax

section \<open>Directories\<close>

definition child_of :: "string \<Rightarrow> string \<Rightarrow> string option" where
  "child_of dir path =
     (if take (length dir + 1) path = dir @ ''/'' \<and> drop (length dir + 1) path \<noteq> []
      then Some (takeWhile (\<lambda>c. c \<noteq> CHR ''/'') (drop (length dir + 1) path)) else None)"

definition io_listDir :: "io \<Rightarrow> string \<Rightarrow> string list option \<times> io" where
  "io_listDir io dir =
     (case next_outcome io of
        (Err e, io1) \<Rightarrow> (None, io1)
      | (_, io1) \<Rightarrow>
          (let cs = remdups (List.map_filter (\<lambda>e. child_of dir (fst e)) (io_names io1))
           in (if cs = [] then None else Some cs, io1)))"

definition has_suffix :: "string \<Rightarrow> string \<Rightarrow> bool" where
  "has_suffix suf f \<longleftrightarrow> length f \<ge> length suf \<and> drop (length f - length suf) f = suf"

definition stem_of :: "nat \<Rightarrow> string \<Rightarrow> string" where
  "stem_of k f = take (length f - k) f"

section \<open>The scan\<close>

record metaScan =
  ms_dataPath :: string
  ms_metaPath :: string
  ms_hashHex :: string
  ms_key :: string
  ms_fileSize :: nat
  ms_atime :: nat
  ms_cachedBytes :: nat
  ms_replicaBytes :: nat
  ms_replicated :: bool
  ms_slotDeclined :: bool
  ms_coverage :: real
  ms_artifacts :: "string list"
  ms_pinned :: bool
  ms_complete :: bool

definition art_suffixes :: "string list" where
  "art_suffixes = [''.tdata'', ''.tmeta'', ''.tok'', ''.val'', ''.cost'', ''.slots'']"

definition scan_artifacts :: "string \<Rightarrow> string list \<Rightarrow> string \<Rightarrow> string list" where
  "scan_artifacts dir files stem = filter (\<lambda>suf. stem @ suf \<in> set files) art_suffixes"

definition coverage_of :: "metaData \<Rightarrow> real" where
  "coverage_of m = (if npages m \<noteq> 0 then real (pb_count (bitmap m)) / real (npages m) else 0)"

definition scan_file :: "string \<Rightarrow> string list \<Rightarrow> bool \<Rightarrow> string \<Rightarrow> io \<Rightarrow> metaScan option \<times> io" where
  "scan_file dir files replicated f io =
     (if length f < 5 \<or> \<not> has_suffix ''.meta'' f then (None, io)
      else
        let metaPath = dir @ ''/'' @ f;
            stem = stem_of 5 f
        in case meta_loadSummary io metaPath of
             (None, io1) \<Rightarrow> (None, io1)
           | (Some m, io1) \<Rightarrow>
               let arts = scan_artifacts dir files stem;
                   s = \<lparr>ms_dataPath = dir @ ''/'' @ stem @ ''.data'', ms_metaPath = metaPath, ms_hashHex = stem, ms_key = key m, ms_fileSize = fileSize m,
                        ms_atime = atime m, ms_cachedBytes = cachedBytes m, ms_replicaBytes = 0, ms_replicated = False, ms_slotDeclined = False,
                        ms_coverage = coverage_of m, ms_artifacts = arts, ms_pinned = (flags m AND kFlagPinned \<noteq> 0), ms_complete = (flags m AND kFlagComplete \<noteq> 0)\<rparr>;
                   (s1, io2) = (if ''.tdata'' \<in> set arts
                                then (case io_stat io1 (dir @ ''/'' @ stem @ ''.tdata'') of
                                        (Inr sz, io2) \<Rightarrow> (s\<lparr>ms_replicaBytes := sz, ms_replicated := True\<rparr>, io2)
                                      | (Inl e, io2) \<Rightarrow> (s, io2))
                                else (s, io1))
               in if ''.slots'' \<in> set arts
                  then (case io_stat io2 (dir @ ''/'' @ stem @ ''.slots'') of
                          (Inr sz, io3) \<Rightarrow>
                            if sz > kHeaderBytes
                            then (let s2 = s1\<lparr>ms_replicaBytes := u64 (ms_replicaBytes s1 + sz)\<rparr>
                                  in if replicated \<and> \<not> ms_replicated s2
                                     then (case holdsRecords io3 dir stem of (h, io4) \<Rightarrow> (Some (s2\<lparr>ms_replicated := h\<rparr>), io4))
                                     else (Some s2, io3))
                            else (Some (if sz = kHeaderBytes then s1\<lparr>ms_slotDeclined := True\<rparr> else s1), io3)
                        | (Inl e, io3) \<Rightarrow> (Some s1, io3))
                  else (Some s1, io2))"

fun scan_files :: "string \<Rightarrow> string list \<Rightarrow> bool \<Rightarrow> string list \<Rightarrow> io \<Rightarrow> metaScan list \<times> io" where
  "scan_files dir files replicated [] io = ([], io)"
| "scan_files dir files replicated (f # fs) io =
     (case scan_file dir files replicated f io of
        (r, io1) \<Rightarrow>
          (case scan_files dir files replicated fs io1 of
             (ss, io2) \<Rightarrow> ((case r of None \<Rightarrow> ss | Some s \<Rightarrow> s # ss), io2)))"

definition scanShard :: "string \<Rightarrow> bool \<Rightarrow> string \<Rightarrow> io \<Rightarrow> metaScan list \<times> io" where
  "scanShard objRoot replicated shard io =
     (let dir = objRoot @ ''/'' @ shard
      in case io_listDir io dir of
           (None, io1) \<Rightarrow> ([], io1)
         | (Some files, io1) \<Rightarrow> scan_files dir files replicated files io1)"

fun scan_shards :: "string \<Rightarrow> bool \<Rightarrow> string list \<Rightarrow> io \<Rightarrow> metaScan list \<times> io" where
  "scan_shards objRoot replicated [] io = ([], io)"
| "scan_shards objRoot replicated (sh # shs) io =
     (case scanShard objRoot replicated sh io of
        (ss, io1) \<Rightarrow> (case scan_shards objRoot replicated shs io1 of (ts, io2) \<Rightarrow> (ss @ ts, io2)))"

definition string_code :: "string \<Rightarrow> nat list" where
  "string_code s = map of_char s"

fun code_le :: "nat list \<Rightarrow> nat list \<Rightarrow> bool" where
  "code_le [] ys \<longleftrightarrow> True"
| "code_le (x # xs) [] \<longleftrightarrow> False"
| "code_le (x # xs) (y # ys) \<longleftrightarrow> x < y \<or> x = y \<and> code_le xs ys"

fun insert_string :: "string \<Rightarrow> string list \<Rightarrow> string list" where
  "insert_string s [] = [s]"
| "insert_string s (t # ts) = (if code_le (string_code s) (string_code t) then s # t # ts else t # insert_string s ts)"

definition sort_strings :: "string list \<Rightarrow> string list" where
  "sort_strings ss = foldr insert_string ss []"

definition objects_of :: "config \<Rightarrow> string" where
  "objects_of cfg = c_cacheDir cfg @ ''/objects''"

definition scanObjects :: "config \<Rightarrow> bool \<Rightarrow> io \<Rightarrow> metaScan list \<times> io" where
  "scanObjects cfg replicated io =
     (case io_listDir io (objects_of cfg) of
        (None, io1) \<Rightarrow> ([], io1)
      | (Some shards, io1) \<Rightarrow> scan_shards (objects_of cfg) replicated (sort_strings shards) io1)"

definition scan_bytes :: "metaScan \<Rightarrow> nat" where
  "scan_bytes s = u64 (ms_cachedBytes s + ms_replicaBytes s)"

definition usageBytes :: "config \<Rightarrow> io \<Rightarrow> nat \<times> io" where
  "usageBytes cfg io = (case scanObjects cfg False io of (ss, io1) \<Rightarrow> (u64 (sum_list (map scan_bytes ss)), io1))"

record entryInfo =
  ei_key :: string
  ei_fileSize :: nat
  ei_cachedBytes :: nat
  ei_replicaBytes :: nat
  ei_replicated :: bool
  ei_slotDeclined :: bool
  ei_atime :: nat
  ei_coverage :: real
  ei_pinned :: bool
  ei_complete :: bool

definition entry_info :: "metaScan \<Rightarrow> entryInfo" where
  "entry_info s = \<lparr>ei_key = ms_key s, ei_fileSize = ms_fileSize s, ei_cachedBytes = ms_cachedBytes s, ei_replicaBytes = ms_replicaBytes s,
     ei_replicated = ms_replicated s, ei_slotDeclined = ms_slotDeclined s, ei_atime = ms_atime s, ei_coverage = ms_coverage s, ei_pinned = ms_pinned s,
     ei_complete = ms_complete s\<rparr>"

definition listEntries :: "config \<Rightarrow> io \<Rightarrow> entryInfo list \<times> io" where
  "listEntries cfg io = (case scanObjects cfg True io of (ss, io1) \<Rightarrow> (map entry_info ss, io1))"

section \<open>The floor\<close>

text \<open>\<open>space\<close> is what \<^verbatim>\<open>spaceInfo\<close> answers: available and total bytes, or nothing.\<close>

definition effectiveMinFree :: "config \<Rightarrow> (nat \<times> nat) option \<Rightarrow> nat" where
  "effectiveMinFree cfg space =
     (if c_minFreeBytes cfg \<noteq> 0 then c_minFreeBytes cfg
      else if \<not> c_budgetAuto cfg then 0
      else case space of
        Some (avail, tot) \<Rightarrow> if avail > 0 \<and> tot > 0 then min (min (50 * 2 ^ 30) (tot div 10)) (avail div 2) else 10 * 2 ^ 30
      | None \<Rightarrow> 10 * 2 ^ 30)"

definition headroomToFloor :: "config \<Rightarrow> (nat \<times> nat) option \<Rightarrow> (nat \<times> nat) option \<Rightarrow> nat" where
  "headroomToFloor cfg space1 space2 =
     (let flr = effectiveMinFree cfg space1
      in if flr = 0 then 2 ^ 64 - 1
         else case space2 of
           None \<Rightarrow> 0
         | Some (avail, tot) \<Rightarrow> if tot = 0 then 0 else if avail > flr then avail - flr else 0)"

section \<open>State of the store\<close>

record cacheStore =
  cs_cfg :: config
  cs_lastEvictCheckS :: nat
  cs_approxUsage :: nat
  cs_lastEvictEvicted :: int
  cs_admissionBlocked :: bool
  cs_evictedEntries :: nat
  cs_evictedBytes :: nat
  cs_orphansSwept :: nat
  cs_admissionsBypassed :: nat

definition resolveBudget :: "cacheStore \<Rightarrow> (nat \<times> nat) option \<Rightarrow> io \<Rightarrow> cacheStore \<times> io" where
  "resolveBudget cs space io =
     (let cfg = cs_cfg cs;
          cfg1 = (if c_budgetAuto cfg \<and> c_minFreeBytes cfg = 0 then cfg\<lparr>c_minFreeBytes := effectiveMinFree cfg space\<rparr> else cfg);
          cs1 = cs\<lparr>cs_cfg := cfg1\<rparr>
      in if c_maxBytes cfg1 > 0 then (case usageBytes cfg1 io of (u, io1) \<Rightarrow> (cs1\<lparr>cs_approxUsage := u\<rparr>, io1)) else (cs1, io))"

section \<open>The eviction pass\<close>

text \<open>What a pass decides on: the byte target, the floor to resume at, the protection cutoff and the entries open in this process.\<close>

record evict_ctx =
  ec_maxBytes :: nat
  ec_byteTarget :: nat
  ec_haveSpace :: bool
  ec_resumeFree :: nat
  ec_cutoff :: nat
  ec_live :: "string list"

record evict_state =
  ev_usage :: nat
  ev_avail :: nat
  ev_saw :: bool
  ev_gone :: "metaScan list"
  ev_io :: io

definition needEvict :: "evict_ctx \<Rightarrow> evict_state \<Rightarrow> bool" where
  "needEvict c st \<longleftrightarrow> ec_maxBytes c \<noteq> 0 \<and> ev_usage st > ec_byteTarget c \<or> ec_haveSpace c \<and> ev_avail st < ec_resumeFree c"

definition unlink_list :: "string list \<Rightarrow> io \<Rightarrow> io" where
  "unlink_list ps io = fold (\<lambda>p io. snd (io_unlink io p)) ps io"

definition base_of :: "metaScan \<Rightarrow> string" where
  "base_of s = stem_of 5 (ms_dataPath s)"

definition pinned_now :: "io \<Rightarrow> metaScan \<Rightarrow> bool \<times> io" where
  "pinned_now io s =
     (case meta_load io (ms_metaPath s) of (m, io1) \<Rightarrow> (case m of None \<Rightarrow> (False, io1) | Some m \<Rightarrow> (flags m AND kFlagPinned \<noteq> 0, io1)))"

text \<open>Removing one entry: the data file first; nothing else is touched when that fails.\<close>

definition remove_entry :: "metaScan \<Rightarrow> io \<Rightarrow> bool \<times> io" where
  "remove_entry s io =
     (case io_unlink io (ms_dataPath s) of
        (rc, io1) \<Rightarrow>
          if rc \<noteq> 0 then (False, io1)
          else (True, unlink_list (map (\<lambda>suf. base_of s @ suf) (ms_artifacts s)) (snd (io_unlink io1 (ms_metaPath s)))))"

definition evict_one :: "evict_ctx \<Rightarrow> metaScan \<Rightarrow> evict_state \<Rightarrow> evict_state" where
  "evict_one c s st =
     (if ms_pinned s \<or> ms_hashHex s \<in> set (ec_live c) then st
      else if ec_cutoff c \<noteq> 0 \<and> ms_atime s \<ge> ec_cutoff c then st\<lparr>ev_saw := True\<rparr>
      else case pinned_now (ev_io st) s of
        (pin, io1) \<Rightarrow>
          if pin then st\<lparr>ev_io := io1\<rparr>
          else case remove_entry s io1 of
            (ok, io2) \<Rightarrow>
              if \<not> ok then st\<lparr>ev_io := io2\<rparr>
              else st\<lparr>ev_usage := ev_usage st - min (ev_usage st) (scan_bytes s), ev_avail := u64 (ev_avail st + scan_bytes s),
                     ev_gone := ev_gone st @ [s], ev_io := io2\<rparr>)"

fun evict_loop :: "evict_ctx \<Rightarrow> metaScan list \<Rightarrow> evict_state \<Rightarrow> evict_state" where
  "evict_loop c [] st = st"
| "evict_loop c (s # ss) st = (if \<not> needEvict c st then st else evict_loop c ss (evict_one c s st))"

definition protect_cutoff :: "config \<Rightarrow> nat \<Rightarrow> nat" where
  "protect_cutoff cfg now = (if c_evictProtectSeconds cfg \<noteq> 0 \<and> now > c_evictProtectSeconds cfg then now - c_evictProtectSeconds cfg else 0)"

text \<open>The conversion of a product of doubles to \<^verbatim>\<open>uint64_t\<close>, exact in the reals; C++ leaves it undefined for
  NaN and the infinities, and so does this function.\<close>

definition water :: "dbl \<Rightarrow> nat \<Rightarrow> nat" where
  "water w n = (case w of Dbl x \<Rightarrow> nat \<lfloor>x * real n\<rfloor> | _ \<Rightarrow> undefined)"

definition evict_setup :: "config \<Rightarrow> (nat \<times> nat) option \<Rightarrow> nat \<Rightarrow> string list \<Rightarrow> evict_ctx" where
  "evict_setup cfg space now live =
     \<lparr>ec_maxBytes = c_maxBytes cfg, ec_byteTarget = (if c_maxBytes cfg \<noteq> 0 then water (c_lowWater cfg) (c_maxBytes cfg) else 0),
      ec_haveSpace = (c_minFreeBytes cfg > 0 \<and> space \<noteq> None), ec_resumeFree = u64 (c_minFreeBytes cfg + c_minFreeBytes cfg div 10),
      ec_cutoff = protect_cutoff cfg now, ec_live = live\<rparr>"

definition avail_of :: "config \<Rightarrow> (nat \<times> nat) option \<Rightarrow> nat" where
  "avail_of cfg space = (if c_minFreeBytes cfg > 0 then (case space of Some (a, t) \<Rightarrow> a | None \<Rightarrow> 0) else 0)"

text \<open>The pass between lock and unlock, without the sweep: scan, then remove the oldest until nothing more is needed.\<close>

definition evict_pass :: "config \<Rightarrow> (nat \<times> nat) option \<Rightarrow> nat \<Rightarrow> string list \<Rightarrow> io \<Rightarrow> evict_state" where
  "evict_pass cfg space now live io =
     (case scanObjects cfg False io of
        (ss, io1) \<Rightarrow>
          let c = evict_setup cfg space now live;
              st = \<lparr>ev_usage = u64 (sum_list (map scan_bytes ss)), ev_avail = avail_of cfg space, ev_saw = False, ev_gone = [], ev_io = io1\<rparr>
          in if needEvict c st then evict_loop c (sort_key ms_atime ss) st else st)"

section \<open>The sweep\<close>

definition sweep_suffixes :: "string list" where
  "sweep_suffixes = [''.tdata'', ''.tmeta'', ''.tok'', ''.val'', ''.cost'', ''.tdata.tmp'', ''.tmeta.tmp'', ''.slots'']"

fun find_sub :: "string \<Rightarrow> string \<Rightarrow> nat \<Rightarrow> nat option" where
  "find_sub pat [] k = (if pat = [] then Some k else None)"
| "find_sub pat (c # cs) k = (if take (length pat) (c # cs) = pat then Some k else find_sub pat cs (k + 1))"

text \<open>The hash of a swept artifact and whether it is debris of a store's creation.\<close>

definition artifact_of :: "string \<Rightarrow> (string \<times> bool) option" where
  "artifact_of f =
     (case find (\<lambda>suf. length f > length suf \<and> has_suffix suf f) sweep_suffixes of
        Some suf \<Rightarrow> Some (stem_of (length suf) f, False)
      | None \<Rightarrow> (case find_sub ''.slots.tmp.'' f 0 of Some k \<Rightarrow> Some (take k f, True) | None \<Rightarrow> None))"

definition metas_of :: "string list \<Rightarrow> string list" where
  "metas_of files = map (stem_of 5) (filter (\<lambda>f. length f > 5 \<and> has_suffix ''.meta'' f) files)"

text \<open>The age guard reads the modification time with \<^verbatim>\<open>stat\<close>; \<open>mtimeS\<close> gives it per path.\<close>

definition sweep_file :: "string \<Rightarrow> string list \<Rightarrow> (string \<Rightarrow> nat) \<Rightarrow> nat \<Rightarrow> string \<Rightarrow> nat \<times> io \<Rightarrow> nat \<times> io" where
  "sweep_file dir metas mtimeS now f s =
     (case s of (n, io) \<Rightarrow>
        case artifact_of f of
          None \<Rightarrow> (n, io)
        | Some (hash, debris) \<Rightarrow>
            if hash \<in> set metas \<and> \<not> debris then (n, io)
            else
              let path = dir @ ''/'' @ f
              in case io_stat io path of
                   (Inl e, io1) \<Rightarrow> (n, io1)
                 | (Inr sz, io1) \<Rightarrow>
                     if now < mtimeS path + 3600 then (n, io1)
                     else case io_unlink io1 path of (rc, io2) \<Rightarrow> (if rc = 0 then n + 1 else n, io2))"

definition sweep_shard :: "string \<Rightarrow> (string \<Rightarrow> nat) \<Rightarrow> nat \<Rightarrow> string \<Rightarrow> nat \<times> io \<Rightarrow> nat \<times> io" where
  "sweep_shard objRoot mtimeS now sh s =
     (case s of (n, io) \<Rightarrow>
        let dir = objRoot @ ''/'' @ sh
        in case io_listDir io dir of
             (None, io1) \<Rightarrow> (n, io1)
           | (Some files, io1) \<Rightarrow> fold (sweep_file dir (metas_of files) mtimeS now) files (n, io1))"

definition sweepReplicaOrphans :: "config \<Rightarrow> (string \<Rightarrow> nat) \<Rightarrow> nat \<Rightarrow> io \<Rightarrow> nat \<times> io" where
  "sweepReplicaOrphans cfg mtimeS now io =
     (case io_listDir io (objects_of cfg) of
        (None, io1) \<Rightarrow> (0, io1)
      | (Some shards, io1) \<Rightarrow> fold (sweep_shard (objects_of cfg) mtimeS now) shards (0, io1))"

section \<open>Evicting\<close>

definition lock_path :: "config \<Rightarrow> string" where
  "lock_path cfg = c_cacheDir cfg @ ''/LOCK''"

definition evictNow :: "cacheStore \<Rightarrow> (nat \<times> nat) option \<Rightarrow> nat \<Rightarrow> (string \<Rightarrow> nat) \<Rightarrow> string list \<Rightarrow> (io \<Rightarrow> io) \<Rightarrow> io \<Rightarrow> int \<times> cacheStore \<times> io" where
  "evictNow cs space now mtimeS live flush io =
     (let cfg = cs_cfg cs
      in case io_open io (lock_path cfg) True False of
           (fd, io1) \<Rightarrow>
             if fd < 0 then (-1, cs, io1)
             else case io_call io1 of
               (rc, io2) \<Rightarrow>
                 if rc < 0 then (-1, cs, snd (io_close io2 (nat fd)))
                 else
                   let st = evict_pass cfg space now live (flush io2);
                       c = evict_setup cfg space now live;
                       n = length (ev_gone st);
                       (swept, io3) = sweepReplicaOrphans cfg mtimeS now (ev_io st);
                       cs1 = cs\<lparr>cs_evictedEntries := cs_evictedEntries cs + n,
                         cs_evictedBytes := u64 (cs_evictedBytes cs + sum_list (map scan_bytes (ev_gone st))),
                         cs_orphansSwept := cs_orphansSwept cs + swept,
                         cs_admissionBlocked := (needEvict c st \<and> ev_saw st), cs_approxUsage := ev_usage st, cs_lastEvictEvicted := int n\<rparr>
                   in (int n, cs1, snd (io_close (snd (io_call io3)) (nat fd))))"

definition maybeEvict :: "cacheStore \<Rightarrow> (nat \<times> nat) option \<Rightarrow> (nat \<times> nat) option \<Rightarrow> nat \<Rightarrow> (string \<Rightarrow> nat) \<Rightarrow> string list \<Rightarrow> (io \<Rightarrow> io) \<Rightarrow> io \<Rightarrow> cacheStore \<times> io" where
  "maybeEvict cs space1 space2 now mtimeS live flush io =
     (let cfg = cs_cfg cs
      in if c_maxBytes cfg = 0 \<and> c_minFreeBytes cfg = 0 then (cs, io)
         else
           let over = (c_maxBytes cfg > 0 \<and> cs_approxUsage cs > water (c_highWater cfg) (c_maxBytes cfg));
               bypass = (over \<and> cs_lastEvictEvicted cs \<noteq> 0)
           in if \<not> bypass \<and> c_evictCheckSeconds cfg > 0 \<and> now < u64 (cs_lastEvictCheckS cs + nat (c_evictCheckSeconds cfg)) then (cs, io)
              else
                let cs1 = cs\<lparr>cs_lastEvictCheckS := now\<rparr>;
                    lowDisk = (c_minFreeBytes cfg > 0 \<and> (case space1 of Some (avail, tot) \<Rightarrow> avail < c_minFreeBytes cfg | None \<Rightarrow> False))
                in if over \<or> lowDisk then (case evictNow cs1 space2 now mtimeS live flush io of (n, cs2, io1) \<Rightarrow> (cs2, io1)) else (cs1, io))"

definition notePersisted :: "cacheStore \<Rightarrow> nat \<Rightarrow> bool \<Rightarrow> (nat \<times> nat) option \<Rightarrow> (nat \<times> nat) option \<Rightarrow> nat \<Rightarrow> (string \<Rightarrow> nat) \<Rightarrow> string list \<Rightarrow> (io \<Rightarrow> io) \<Rightarrow> io
    \<Rightarrow> cacheStore \<times> io" where
  "notePersisted cs bytes allowEvict space1 space2 now mtimeS live flush io =
     (if c_maxBytes (cs_cfg cs) = 0 \<and> c_minFreeBytes (cs_cfg cs) = 0 then (cs, io)
      else
        let cs1 = (if c_maxBytes (cs_cfg cs) > 0 then cs\<lparr>cs_approxUsage := u64 (cs_approxUsage cs + bytes)\<rparr> else cs)
        in if allowEvict then maybeEvict cs1 space1 space2 now mtimeS live flush io else (cs1, io))"

text \<open>The decision of \<^verbatim>\<open>open\<close> on a key without a live entry: refresh the verdict for a new entry, then decline it while growth is stopped.\<close>

definition admit :: "cacheStore \<Rightarrow> string \<Rightarrow> (nat \<times> nat) option \<Rightarrow> (nat \<times> nat) option \<Rightarrow> nat \<Rightarrow> (string \<Rightarrow> nat) \<Rightarrow> string list \<Rightarrow> (io \<Rightarrow> io) \<Rightarrow> io
    \<Rightarrow> bool \<times> cacheStore \<times> io" where
  "admit cs metaPath space1 space2 now mtimeS live flush io =
     (case io_stat io metaPath of
        (probe, io1) \<Rightarrow>
          let (cs1, io2) = (case probe of Inl e \<Rightarrow> maybeEvict cs space1 space2 now mtimeS live flush io1 | Inr sz \<Rightarrow> (cs, io1))
          in if cs_admissionBlocked cs1
             then (case io_stat io2 metaPath of
                     (Inl e, io3) \<Rightarrow> (False, cs1\<lparr>cs_admissionsBypassed := cs_admissionsBypassed cs1 + 1\<rparr>, io3)
                   | (Inr sz, io3) \<Rightarrow> (True, cs1, io3))
             else (True, cs1, io2))"

section \<open>Single entries and cleanup\<close>

definition objectDir :: "string \<Rightarrow> string \<Rightarrow> string" where
  "objectDir cacheDir hashHex = cacheDir @ ''/objects/'' @ take 2 hashHex"

definition dataPath :: "string \<Rightarrow> string \<Rightarrow> string" where
  "dataPath cacheDir hashHex = objectDir cacheDir hashHex @ ''/'' @ hashHex @ ''.data''"

definition metaPath :: "string \<Rightarrow> string \<Rightarrow> string" where
  "metaPath cacheDir hashHex = objectDir cacheDir hashHex @ ''/'' @ hashHex @ ''.meta''"

definition invalidate :: "config \<Rightarrow> string \<Rightarrow> io \<Rightarrow> io" where
  "invalidate cfg hashHex io =
     (let base = objectDir (c_cacheDir cfg) hashHex @ ''/'' @ hashHex
      in unlink_list (dataPath (c_cacheDir cfg) hashHex # metaPath (c_cacheDir cfg) hashHex #
           map (\<lambda>suf. base @ suf) [''.tdata'', ''.tmeta'', ''.tok'', ''.val'', ''.slots'']) io)"

text \<open>The tests of \<^verbatim>\<open>removeEntry\<close> stop at the first file found.\<close>

fun any_stat :: "string list \<Rightarrow> io \<Rightarrow> bool \<times> io" where
  "any_stat [] io = (False, io)"
| "any_stat (p # ps) io = (case io_stat io p of (Inr sz, io1) \<Rightarrow> (True, io1) | (Inl e, io1) \<Rightarrow> any_stat ps io1)"

definition removeEntry :: "cacheStore \<Rightarrow> string \<Rightarrow> io \<Rightarrow> bool \<times> cacheStore \<times> io" where
  "removeEntry cs hashHex io =
     (let cfg = cs_cfg cs; d = c_cacheDir cfg; base = objectDir d hashHex @ ''/'' @ hashHex
      in case any_stat [metaPath d hashHex, dataPath d hashHex, base @ ''.tdata'', base @ ''.slots''] io of
           (existed, io1) \<Rightarrow>
             let io2 = invalidate cfg hashHex io1
             in if existed then (case usageBytes cfg io2 of (u, io3) \<Rightarrow> (True, cs\<lparr>cs_approxUsage := u\<rparr>, io3)) else (False, cs, io2))"

datatype cleanupMode = KAll | KOlderThan | KNewerThan | KToSize

text \<open>The victims of a cleanup. Loading a sidecar for the pin test only changes the I/O state.\<close>

definition protectedEntry :: "string list \<Rightarrow> bool \<Rightarrow> metaScan \<Rightarrow> io \<Rightarrow> bool \<times> io" where
  "protectedEntry live keepPinned s io =
     (if ms_hashHex s \<in> set live then (True, io)
      else if keepPinned \<and> ms_pinned s then (True, io)
      else if keepPinned then pinned_now io s
      else (False, io))"

fun victims_to_size :: "string list \<Rightarrow> bool \<Rightarrow> nat \<Rightarrow> nat \<Rightarrow> metaScan list \<Rightarrow> io \<Rightarrow> metaScan list \<times> io" where
  "victims_to_size live keepPinned arg tot [] io = ([], io)"
| "victims_to_size live keepPinned arg tot (s # ss) io =
     (if tot \<le> arg then ([], io)
      else case protectedEntry live keepPinned s io of
        (True, io1) \<Rightarrow> victims_to_size live keepPinned arg tot ss io1
      | (False, io1) \<Rightarrow>
          (case victims_to_size live keepPinned arg (tot - min tot (scan_bytes s)) ss io1 of (vs, io2) \<Rightarrow> (s # vs, io2)))"

fun victims_by_age :: "string list \<Rightarrow> bool \<Rightarrow> cleanupMode \<Rightarrow> nat \<Rightarrow> metaScan list \<Rightarrow> io \<Rightarrow> metaScan list \<times> io" where
  "victims_by_age live keepPinned mode cutoff [] io = ([], io)"
| "victims_by_age live keepPinned mode cutoff (s # ss) io =
     (case protectedEntry live keepPinned s io of
        (prot, io1) \<Rightarrow>
          (case victims_by_age live keepPinned mode cutoff ss io1 of
             (vs, io2) \<Rightarrow>
               (if prot \<or> mode = KOlderThan \<and> ms_atime s \<ge> cutoff \<or> mode = KNewerThan \<and> ms_atime s < cutoff then vs else s # vs, io2)))"

fun remove_victims :: "metaScan list \<Rightarrow> io \<Rightarrow> metaScan list \<times> io" where
  "remove_victims [] io = ([], io)"
| "remove_victims (s # ss) io =
     (case remove_entry s io of
        (ok, io1) \<Rightarrow> (case remove_victims ss io1 of (vs, io2) \<Rightarrow> (if ok then s # vs else vs, io2)))"

definition select_victims :: "cleanupMode \<Rightarrow> nat \<Rightarrow> bool \<Rightarrow> string list \<Rightarrow> nat \<Rightarrow> metaScan list \<Rightarrow> io \<Rightarrow> metaScan list \<times> io" where
  "select_victims mode arg keepPinned live now ss io =
     (if mode = KToSize then victims_to_size live keepPinned arg (u64 (sum_list (map scan_bytes ss))) (sort_key ms_atime ss) io
      else victims_by_age live keepPinned mode (if now > arg then now - arg else 0) ss io)"

text \<open>The report: whether the lock was held, and the victims.\<close>

definition cleanup :: "cacheStore \<Rightarrow> cleanupMode \<Rightarrow> nat \<Rightarrow> bool \<Rightarrow> bool \<Rightarrow> nat \<Rightarrow> (string \<Rightarrow> nat) \<Rightarrow> string list \<Rightarrow> (io \<Rightarrow> io) \<Rightarrow> io
    \<Rightarrow> (bool \<times> metaScan list) \<times> cacheStore \<times> io" where
  "cleanup cs mode arg keepPinned dryRun now mtimeS live flush io =
     (let cfg = cs_cfg cs
      in case io_open io (lock_path cfg) True False of
           (fd, io1) \<Rightarrow>
             if fd < 0 then ((False, []), cs, io1)
             else case io_call io1 of
               (rc, io2) \<Rightarrow>
                 if rc < 0 then ((False, []), cs, snd (io_close io2 (nat fd)))
                 else
                   let (ss, io3) = scanObjects cfg False (flush io2);
                       (vs, io4) = select_victims mode arg keepPinned live now ss io3;
                       (gone, io5) = (if dryRun then (vs, io4) else remove_victims vs io4);
                       (cs1, io6) =
                         (if dryRun then (cs, io5)
                          else let (swept, a) = sweepReplicaOrphans cfg mtimeS now io5; (u, b) = usageBytes cfg a
                               in (cs\<lparr>cs_evictedEntries := cs_evictedEntries cs + length gone,
                                    cs_evictedBytes := u64 (cs_evictedBytes cs + sum_list (map scan_bytes gone)),
                                    cs_orphansSwept := cs_orphansSwept cs + swept, cs_approxUsage := u\<rparr>, b))
                   in ((True, gone), cs1, snd (io_close (snd (io_call io6)) (nat fd))))"

text \<open>\<^verbatim>\<open>setPinnedByKey\<close> on an entry that is not open in this process.\<close>

definition setPinnedByKey :: "config \<Rightarrow> string \<Rightarrow> bool \<Rightarrow> io \<Rightarrow> bool \<times> io" where
  "setPinnedByKey cfg hashHex pin io =
     (case io_open io (dataPath (c_cacheDir cfg) hashHex) False False of
        (fd, io1) \<Rightarrow>
          if fd < 0 then (False, io1)
          else
            let io2 = snd (io_call io1);
                (ok, io5) =
                  (case io_fstat_nlink io2 (nat fd) of
                     (Inl e, io3) \<Rightarrow> (False, io3)
                   | (Inr n, io3) \<Rightarrow>
                       if n = 0 then (False, io3)
                       else case meta_load io3 (metaPath (c_cacheDir cfg) hashHex) of
                         (None, io4) \<Rightarrow> (False, io4)
                       | (Some m, io4) \<Rightarrow>
                           (case meta_store io4 (metaPath (c_cacheDir cfg) hashHex)
                              (m\<lparr>flags := (if pin then flags m OR kFlagPinned else flags m AND NOT kFlagPinned)\<rparr>) (c_fsync cfg = kAll) of
                              (rc, io5) \<Rightarrow> (rc = 0, io5)))
            in (ok, snd (io_close (snd (io_call io5)) (nat fd))))"

end
