(* ===== verification/Cache_Space.thy ===== *)
theory Cache_Space
  imports Cache_Evict Meta_Frame Slot_Create "HOL-Library.Sublist"
begin

text \<open>
  What the space policy guarantees. The scan and the pin tests change no file; the eviction pass removes only files of entries that are neither
  pinned nor open nor read within the protection window, oldest first, and stops as soon as enough is free; the sweep removes only
  old artifacts without a sidecar.
\<close>

section \<open>Calls that keep every file\<close>

lemma store_eq_refl [simp, intro]: "store_eq io io"
  by (simp add: store_eq_def)

lemma stat_store_eq: "io_stat io p = (r, io1) \<Longrightarrow> store_eq io io1"
  using io_stat_same io_same_store_eq by blast

lemma call_store_eq: "io_call io = (r, io1) \<Longrightarrow> store_eq io io1"
  using io_call_same io_same_store_eq by blast

lemma listDir_store_eq: "io_listDir io d = (r, io1) \<Longrightarrow> store_eq io io1"
proof -
  obtain oc io2 where o: "next_outcome io = (oc, io2)" by fastforce
  have "store_eq io io2" using io_same_store_eq [OF next_outcome_same [OF o]] .
  then show "io_listDir io d = (r, io1) \<Longrightarrow> store_eq io io1" by (auto simp: io_listDir_def o Let_def split: outcome.splits)
qed

lemma open_store_eq: "io_open io p False False = (fd, io1) \<Longrightarrow> store_eq io io1"
  using io_open_existing [of io p fd io1] by (simp add: store_eq_def)

lemma pread_store_eq: "preadFull io fd cnt off [] = (r, xs, io1) \<Longrightarrow> store_eq io io1"
  using preadFull_io_same io_same_store_eq by blast

lemma fstat_store_eq: "io_fstat io fd = (r, io1) \<Longrightarrow> store_eq io io1"
proof -
  obtain oc io2 where o: "next_outcome io = (oc, io2)" by fastforce
  have "store_eq io io2" using io_same_store_eq [OF next_outcome_same [OF o]] .
  then show "io_fstat io fd = (r, io1) \<Longrightarrow> store_eq io io1" by (auto simp: io_fstat_def o split: outcome.splits option.splits)
qed

lemma load_store_eq: "meta_load io p = (r, io1) \<Longrightarrow> store_eq io io1"
  using meta_load_spec by blast

lemma summary_spec:
  assumes "meta_loadSummary io p = (r, io')"
  shows "store_eq io io' \<and> (\<forall>m. r = Some m \<longrightarrow> (\<exists>bs. file_at io p = Some bs \<and> flags m = flags (header bs)))"
proof -
  obtain q io1 where st: "io_stat io p = (q, io1)" by fastforce
  obtain fd io2 where op: "io_open io1 p False False = (fd, io2)" by fastforce
  obtain g hdr io3 where pr: "preadFull io2 (nat fd) kHeaderSize 0 [] = (g, hdr, io3)" by (metis prod_cases3)
  have e1: "store_eq io io1" by (rule stat_store_eq [OF st])
  have e2: "store_eq io io2" by (rule store_eq_trans [OF e1 open_store_eq [OF op]])
  have e3: "store_eq io io3" by (rule store_eq_trans [OF e2 pread_store_eq [OF pr]])
  have cl: "store_eq io x \<Longrightarrow> store_eq io (snd (io_close x (nat fd)))" for x using close_store_eq store_eq_trans by blast
  have e4: "preadFull io3 fd' cnt off [] = (g2, b, io4) \<Longrightarrow> store_eq io io4" for fd' cnt off g2 b io4
    using pread_store_eq store_eq_trans [OF e3] by blast
  have hd: "\<exists>bs. file_at io p = Some bs \<and> header hdr = header bs" if pos: "0 \<le> fd" "g = int kHeaderSize"
  proof -
    obtain i where i: "map_of (io_names io1) p = Some i" "map_of (io_fds io2) (nat fd) = Some i" using io_open_existing [OF op] pos(1) by auto
    have c: "content io2 i = content io i" "map_of (io_names io) p = Some i" using i(1) e1 e2 by (simp_all add: store_eq_def)
    have "hdr = take 56 (content io i)" using preadFull_length_le [OF pr i(2) pos(2)] c(1) by (simp add: slice_def kHeaderSize_def)
    then show ?thesis using c(2) by (auto simp: file_at_def header_take)
  qed
  obtain klen np bo co tl where geo: "klen = get_le 4 hdr 48" "np = npages (header hdr)" "bo = align8 (kHeaderSize + klen)"
    "co = u64 (bo + u64 (np + 7) div 8)" "tl = u64 (co + u64 (np * 4))" by blast
  obtain g2 b io4 where p2: "preadFull io3 (nat fd) (sub64 co kHeaderSize) kHeaderSize [] = (g2, b, io4)" by (metis prod_cases3)
  show ?thesis
    using assms e1 e2 cl [OF e3] cl [OF e4 [OF p2]] hd
    unfolding meta_loadSummary_def st op pr prod.case Let_def geo(1) [symmetric] geo(2) [symmetric] geo(3) [symmetric] geo(4) [symmetric] geo(5) [symmetric] p2
    by (auto split: sum.splits if_splits)
qed

lemma holds_store_eq:
  assumes "holdsRecords io d h = (r, io')"
  shows "store_eq io io'"
proof -
  obtain fd io1 where op: "io_open io (slot_path d h) False False = (fd, io1)" by fastforce
  obtain g b io2 where pr: "preadFull io1 (nat fd) kHeaderBytes 0 [] = (g, b, io2)" by (metis prod_cases3)
  obtain q io3 where fs: "io_fstat io2 (nat fd) = (q, io3)" by fastforce
  have e1: "store_eq io io1" by (rule open_store_eq [OF op])
  have e2: "store_eq io io2" by (rule store_eq_trans [OF e1 pread_store_eq [OF pr]])
  have e3: "store_eq io io3" by (rule store_eq_trans [OF e2 fstat_store_eq [OF fs]])
  have cl: "store_eq io x \<Longrightarrow> store_eq io (snd (io_close x (nat fd)))" for x using close_store_eq store_eq_trans by blast
  obtain dec where dec: "dec = (if g = int kHeaderBytes then decodeSlotHeader b else None)" by blast
  show ?thesis
    using assms e1 cl [OF e2] cl [OF e3]
    unfolding holdsRecords_def op pr fs prod.case dec [symmetric]
    by (auto split: sum.splits if_splits option.splits)
qed

section \<open>What a scan sees\<close>

text \<open>An entry of the scan: its paths share the directory and the stem, its pin is the flag of the sidecar stored there.\<close>

definition scan_ok :: "io \<Rightarrow> string \<Rightarrow> metaScan \<Rightarrow> bool" where
  "scan_ok io dir s \<longleftrightarrow>
     ms_metaPath s = dir @ ''/'' @ ms_hashHex s @ ''.meta'' \<and> ms_dataPath s = dir @ ''/'' @ ms_hashHex s @ ''.data'' \<and>
     set (ms_artifacts s) \<subseteq> set art_suffixes \<and>
     (\<exists>bs. file_at io (ms_metaPath s) = Some bs \<and> ms_pinned s = (flags (header bs) AND kFlagPinned \<noteq> 0))"

lemma scan_ok_store_eq: "store_eq a b \<Longrightarrow> scan_ok b d s = scan_ok a d s"
  using store_eq_file_at [of a b] by (simp add: scan_ok_def)

lemma stem_suffix: "has_suffix suf f \<Longrightarrow> stem_of (length suf) f @ suf = f"
  unfolding has_suffix_def stem_of_def by (metis append_take_drop_id)

lemma scan_file_spec:
  assumes "scan_file dir files rep f io = (r, io')"
  shows "store_eq io io' \<and> (\<forall>s. r = Some s \<longrightarrow> scan_ok io dir s)"
proof (cases "length f < 5 \<or> \<not> has_suffix ''.meta'' f")
  case True
  then have "r = None" "io' = io" using assms by (auto simp: scan_file_def)
  then show ?thesis by simp
next
  case False
  define stem where "stem = stem_of 5 f"
  have f: "f = stem @ ''.meta''" using stem_suffix [of "''.meta''" f] False by (simp add: stem_def numeral_eq_Suc)
  obtain sm io1 where ls: "meta_loadSummary io (dir @ ''/'' @ f) = (sm, io1)" by fastforce
  note S = summary_spec [OF ls]
  show ?thesis
  proof (cases sm)
    case None
    then have "r = None" "io' = io1" using assms False ls by (auto simp: scan_file_def)
    then show ?thesis using S by simp
  next
    case (Some m)
    define arts where "arts = scan_artifacts dir files stem"
    have sub: "set arts \<subseteq> set art_suffixes" by (auto simp: arts_def scan_artifacts_def)
    define s0 where "s0 = \<lparr>ms_dataPath = dir @ ''/'' @ stem @ ''.data'', ms_metaPath = dir @ ''/'' @ f, ms_hashHex = stem, ms_key = key m, ms_fileSize = fileSize m,
       ms_atime = atime m, ms_cachedBytes = cachedBytes m, ms_replicaBytes = 0, ms_replicated = False, ms_slotDeclined = False,
       ms_coverage = coverage_of m, ms_artifacts = arts, ms_pinned = (flags m AND kFlagPinned \<noteq> 0), ms_complete = (flags m AND kFlagComplete \<noteq> 0)\<rparr>"
    have ok0: "scan_ok io dir s0" using S Some sub f by (auto simp: scan_ok_def s0_def)
    have okr: "scan_ok io dir (s\<lparr>ms_replicaBytes := a\<rparr>) = scan_ok io dir s" "scan_ok io dir (s\<lparr>ms_replicated := x\<rparr>) = scan_ok io dir s"
      "scan_ok io dir (s\<lparr>ms_slotDeclined := x\<rparr>) = scan_ok io dir s" for s a x by (simp_all add: scan_ok_def)
    obtain s1 io2 where p1: "(if ''.tdata'' \<in> set arts
        then (case io_stat io1 (dir @ ''/'' @ stem @ ''.tdata'') of
                (Inr sz, io2) \<Rightarrow> (s0\<lparr>ms_replicaBytes := sz, ms_replicated := True\<rparr>, io2)
              | (Inl e, io2) \<Rightarrow> (s0, io2))
        else (s0, io1)) = (s1, io2)" by fastforce
    have e2: "store_eq io io2" "scan_ok io dir s1"
      using p1 S ok0 stat_store_eq store_eq_trans by (auto simp: okr split: if_splits prod.splits sum.splits)
    obtain q io3 where st: "io_stat io2 (dir @ ''/'' @ stem @ ''.slots'') = (q, io3)" by fastforce
    have e3: "store_eq io io3" by (rule store_eq_trans [OF e2(1) stat_store_eq [OF st]])
    obtain h io4 where ho: "holdsRecords io3 dir stem = (h, io4)" by fastforce
    have e4: "store_eq io io4" by (rule store_eq_trans [OF e3 holds_store_eq [OF ho]])
    have "scan_file dir files rep f io =
       (if ''.slots'' \<in> set arts
        then (case q of
                Inr sz \<Rightarrow>
                  if sz > kHeaderBytes
                  then (let s2 = s1\<lparr>ms_replicaBytes := u64 (ms_replicaBytes s1 + sz)\<rparr>
                        in if rep \<and> \<not> ms_replicated s2 then (Some (s2\<lparr>ms_replicated := h\<rparr>), io4) else (Some s2, io3))
                  else (Some (if sz = kHeaderBytes then s1\<lparr>ms_slotDeclined := True\<rparr> else s1), io3)
              | Inl e \<Rightarrow> (Some s1, io3))
        else (Some s1, io2))"
      unfolding scan_file_def Let_def stem_def [symmetric] ls prod.case Some option.case arts_def [symmetric] s0_def [symmetric] p1 st ho
      using False by (simp split: sum.splits)
    then show ?thesis using assms e2 e3 e4 by (auto simp: okr Let_def split: sum.splits if_splits)
  qed
qed

lemma scan_files_spec:
  "scan_files dir files rep fs io = (ss, io') \<Longrightarrow> store_eq io io' \<and> (\<forall>s\<in>set ss. scan_ok io dir s)"
proof (induction fs arbitrary: io ss io')
  case Nil
  then show ?case by simp
next
  case (Cons f fs)
  obtain r io1 where a: "scan_file dir files rep f io = (r, io1)" by fastforce
  obtain ts io2 where b: "scan_files dir files rep fs io1 = (ts, io2)" by fastforce
  note A = scan_file_spec [OF a] and B = Cons.IH [OF b]
  have "store_eq io io2" using A B store_eq_trans by blast
  moreover have "\<forall>s\<in>set ts. scan_ok io dir s" using A B scan_ok_store_eq by blast
  ultimately show ?case using Cons.prems a b A by (auto split: option.splits)
qed

lemma scan_shards_spec:
  "scan_shards objRoot rep shs io = (ss, io') \<Longrightarrow> store_eq io io' \<and> (\<forall>s\<in>set ss. \<exists>sh\<in>set shs. scan_ok io (objRoot @ ''/'' @ sh) s)"
proof (induction shs arbitrary: io ss io')
  case Nil
  then show ?case by simp
next
  case (Cons sh shs)
  obtain r io0 where l: "io_listDir io (objRoot @ ''/'' @ sh) = (r, io0)" by fastforce
  obtain us io1 where a: "scanShard objRoot rep sh io = (us, io1)" by fastforce
  obtain ts io2 where b: "scan_shards objRoot rep shs io1 = (ts, io2)" by fastforce
  have A: "store_eq io io1 \<and> (\<forall>s\<in>set us. scan_ok io (objRoot @ ''/'' @ sh) s)"
  proof (cases r)
    case None
    then show ?thesis using a l listDir_store_eq [OF l] by (simp add: scanShard_def)
  next
    case (Some files)
    then have "scan_files (objRoot @ ''/'' @ sh) files rep files io0 = (us, io1)" using a l by (simp add: scanShard_def)
    then show ?thesis using scan_files_spec listDir_store_eq [OF l] store_eq_trans scan_ok_store_eq by blast
  qed
  note B = Cons.IH [OF b]
  have "store_eq io io2" using A B store_eq_trans by blast
  moreover have "\<forall>s\<in>set ts. \<exists>sh\<in>set shs. scan_ok io (objRoot @ ''/'' @ sh) s" using A B scan_ok_store_eq by blast
  ultimately show ?case using Cons.prems a b A by auto
qed

lemma child_no_slash: "child_of d p = Some c \<Longrightarrow> CHR ''/'' \<notin> set c"
  by (auto simp: child_of_def dest: set_takeWhileD split: if_splits)

lemma listDir_children:
  assumes "io_listDir io d = (Some cs, io')"
  shows "set cs = {c. \<exists>p i. (p, i) \<in> set (io_names io) \<and> child_of d p = Some c}"
proof -
  obtain oc io2 where o: "next_outcome io = (oc, io2)" by fastforce
  have n: "io_names io2 = io_names io" using io_sameD(1) [OF next_outcome_same [OF o]] .
  have "cs = remdups (List.map_filter (\<lambda>e. child_of d (fst e)) (io_names io2))"
    using assms by (auto simp: io_listDir_def o Let_def split: outcome.splits if_splits)
  then show ?thesis using n by (force simp: List.map_filter_def)
qed

lemma insert_string_set: "set (insert_string s ts) = insert s (set ts)"
  by (induction ts) auto

lemma sort_strings_set: "set (sort_strings ss) = set ss"
  unfolding sort_strings_def by (induction ss) (simp_all add: insert_string_set)

lemma scanObjects_spec:
  assumes "scanObjects cfg rep io = (ss, io')"
  shows "store_eq io io' \<and> (\<forall>s\<in>set ss. \<exists>sh. CHR ''/'' \<notin> set sh \<and> scan_ok io (objects_of cfg @ ''/'' @ sh) s)"
proof -
  obtain r io1 where l: "io_listDir io (objects_of cfg) = (r, io1)" by fastforce
  note L = listDir_store_eq [OF l]
  show ?thesis
  proof (cases r)
    case None
    then show ?thesis using assms l L by (simp add: scanObjects_def)
  next
    case (Some shs)
    then have "scan_shards (objects_of cfg) rep (sort_strings shs) io1 = (ss, io')" using assms l by (simp add: scanObjects_def)
    note S = scan_shards_spec [OF this]
    have "CHR ''/'' \<notin> set sh" if "sh \<in> set shs" for sh
      using that listDir_children [OF l [unfolded Some]] child_no_slash by auto
    then have "\<exists>sh. CHR ''/'' \<notin> set sh \<and> scan_ok io (objects_of cfg @ ''/'' @ sh) s" if s: "s \<in> set ss" for s
      using S s scan_ok_store_eq [OF L] unfolding sort_strings_set by blast
    then show ?thesis using S L store_eq_trans by blast
  qed
qed

section \<open>What is removed\<close>

definition spares :: "(string \<Rightarrow> bool) \<Rightarrow> io \<Rightarrow> io \<Rightarrow> bool" where
  "spares P io io' \<longleftrightarrow> (\<forall>q. file_at io' q = file_at io q \<or> P q \<and> file_at io' q = None)"

lemma spares_trans: "spares P a b \<Longrightarrow> spares P b c \<Longrightarrow> spares P a c"
  unfolding spares_def by metis

lemma spares_mono: "spares P a b \<Longrightarrow> (\<And>q. P q \<Longrightarrow> Q q) \<Longrightarrow> spares Q a b"
  unfolding spares_def by blast

lemma store_eq_spares: "store_eq a b \<Longrightarrow> spares P a b"
  using store_eq_file_at [of a b] by (simp add: spares_def)

lemma unlink_spares: "P p \<Longrightarrow> spares P io (snd (io_unlink io p))"
proof -
  assume p: "P p"
  have "file_at (snd (io_unlink io p)) q = file_at io q \<or> P q \<and> file_at (snd (io_unlink io p)) q = None" for q
    using unlink_kept [of p q io] unlink_file [of io p] p by (cases "q = p") (auto simp: path_kept_def)
  then show ?thesis by (simp add: spares_def)
qed

lemma unlink_list_spares: "(\<And>p. p \<in> set ps \<Longrightarrow> P p) \<Longrightarrow> spares P io (unlink_list ps io)"
proof (induction ps arbitrary: io)
  case Nil
  then show ?case by (simp add: unlink_list_def spares_def)
next
  case (Cons p ps)
  have "spares P (snd (io_unlink io p)) (unlink_list ps (snd (io_unlink io p)))" using Cons by simp
  then have "spares P io (unlink_list ps (snd (io_unlink io p)))" using Cons.prems spares_trans [OF unlink_spares] by force
  then show ?case by (simp add: unlink_list_def)
qed

definition files_of :: "metaScan \<Rightarrow> string list" where
  "files_of s = ms_dataPath s # ms_metaPath s # map (\<lambda>suf. base_of s @ suf) (ms_artifacts s)"

lemma remove_entry_spares:
  assumes "remove_entry s io = (ok, io')" and "\<And>q. q \<in> set (files_of s) \<Longrightarrow> P q"
  shows "spares P io io'"
proof -
  obtain rc io1 where u: "io_unlink io (ms_dataPath s) = (rc, io1)" by fastforce
  have a: "spares P io io1" using unlink_spares [of P "ms_dataPath s" io] u assms(2) by (simp add: files_of_def)
  have b: "spares P io1 (snd (io_unlink io1 (ms_metaPath s)))" by (rule unlink_spares) (simp add: assms(2) files_of_def)
  have c: "spares P x (unlink_list (map (\<lambda>suf. base_of s @ suf) (ms_artifacts s)) x)" for x
    by (rule unlink_list_spares) (use assms(2) in \<open>auto simp: files_of_def\<close>)
  show ?thesis using assms(1) a spares_trans [OF spares_trans [OF a b] c] by (auto simp: remove_entry_def u split: if_splits)
qed

text \<open>Nothing of an entry goes without its data file.\<close>

lemma remove_entry_data_first:
  assumes "remove_entry s io = (ok, io')" and "\<not> ok"
  shows "store_eq io io'"
proof -
  obtain oc io2 where o: "next_outcome io = (oc, io2)" by fastforce
  have "store_eq io io2" using io_same_store_eq [OF next_outcome_same [OF o]] .
  then show ?thesis using assms by (auto simp: remove_entry_def io_unlink_def o split: outcome.splits if_splits)
qed

definition evictable :: "nat \<Rightarrow> string list \<Rightarrow> metaScan \<Rightarrow> bool" where
  "evictable cutoff live s \<longleftrightarrow> \<not> ms_pinned s \<and> ms_hashHex s \<notin> set live \<and> (cutoff \<noteq> 0 \<longrightarrow> ms_atime s < cutoff)"

lemma pinned_now_store_eq: "pinned_now io s = (p, io') \<Longrightarrow> store_eq io io'"
  using load_store_eq by (auto simp: pinned_now_def split: prod.splits option.splits)

lemma evict_one_spares:
  assumes "evictable (ec_cutoff c) (ec_live c) s \<Longrightarrow> (\<And>q. q \<in> set (files_of s) \<Longrightarrow> P q)"
  shows "spares P (ev_io st) (ev_io (evict_one c s st))"
proof -
  obtain pin io1 where p: "pinned_now (ev_io st) s = (pin, io1)" by fastforce
  obtain ok io2 where r: "remove_entry s io1 = (ok, io2)" by fastforce
  have e: "spares P (ev_io st) io1" by (rule store_eq_spares [OF pinned_now_store_eq [OF p]])
  have f: "evictable (ec_cutoff c) (ec_live c) s \<Longrightarrow> spares P (ev_io st) io2"
    using spares_trans [OF e remove_entry_spares [OF r]] assms by blast
  have "spares P (ev_io st) (ev_io st)" by (simp add: spares_def)
  then show ?thesis using e f by (auto simp: evict_one_def p r evictable_def)
qed

lemma evict_loop_spares:
  assumes "\<And>s q. s \<in> set ss \<Longrightarrow> evictable (ec_cutoff c) (ec_live c) s \<Longrightarrow> q \<in> set (files_of s) \<Longrightarrow> P q"
  shows "spares P (ev_io st) (ev_io (evict_loop c ss st))"
  using assms
proof (induction ss arbitrary: st)
  case Nil
  then show ?case by (simp add: spares_def)
next
  case (Cons s ss)
  have "spares P (ev_io st) (ev_io (evict_one c s st))" by (rule evict_one_spares) (use Cons.prems in auto)
  moreover have "spares P (ev_io (evict_one c s st)) (ev_io (evict_loop c ss (evict_one c s st)))"
    by (rule Cons.IH) (use Cons.prems in auto)
  ultimately show ?case using spares_trans by (auto simp: spares_def)
qed

lemma evict_pass_spares:
  assumes "scanObjects cfg False io = (ss, io1)"
  shows "spares (\<lambda>q. \<exists>s\<in>set ss. evictable (protect_cutoff cfg now) live s \<and> q \<in> set (files_of s)) io (ev_io (evict_pass cfg space now live io))"
    (is "spares ?P io _")
proof -
  have a: "spares ?P io io1" using scanObjects_spec [OF assms] store_eq_spares by blast
  have b: "spares ?P (ev_io st) (ev_io (evict_loop (evict_setup cfg space now live) (sort_key ms_atime ss) st))" for st
    by (rule evict_loop_spares) (auto simp: evict_setup_def)
  show ?thesis using a spares_trans [OF a] b [of "\<lparr>ev_usage = _, ev_avail = _, ev_saw = False, ev_gone = [], ev_io = io1\<rparr>"]
    by (simp add: evict_pass_def assms Let_def)
qed

section \<open>What is swept\<close>

definition sweepable :: "config \<Rightarrow> (string \<Rightarrow> nat) \<Rightarrow> nat \<Rightarrow> io \<Rightarrow> string \<Rightarrow> bool" where
  "sweepable cfg mtimeS now io q \<longleftrightarrow>
     (\<exists>sh f h d. CHR ''/'' \<notin> set sh \<and> CHR ''/'' \<notin> set f \<and> q = objects_of cfg @ ''/'' @ sh @ ''/'' @ f \<and> artifact_of f = Some (h, d) \<and> mtimeS q + 3600 \<le> now \<and>
        (d \<or> file_at io (objects_of cfg @ ''/'' @ sh @ ''/'' @ h @ ''.meta'') = None))"

definition swept :: "config \<Rightarrow> (string \<Rightarrow> nat) \<Rightarrow> nat \<Rightarrow> io \<Rightarrow> io \<Rightarrow> bool" where
  "swept cfg mtimeS now a b \<longleftrightarrow> spares (sweepable cfg mtimeS now b) a b"

lemma swept_trans: "swept cfg m n a b \<Longrightarrow> swept cfg m n b c \<Longrightarrow> swept cfg m n a c"
proof -
  assume ab: "swept cfg m n a b" and bc: "swept cfg m n b c"
  have "sweepable cfg m n c q" if "sweepable cfg m n b q" for q
  proof -
    have "file_at b p = None \<Longrightarrow> file_at c p = None" for p using bc unfolding swept_def spares_def by metis
    then show ?thesis using that unfolding sweepable_def by blast
  qed
  then have "spares (sweepable cfg m n c) a b" using ab spares_mono unfolding swept_def by blast
  then show "swept cfg m n a c" using bc spares_trans unfolding swept_def by blast
qed

lemma store_eq_swept: "store_eq a b \<Longrightarrow> swept cfg m n a b"
  by (simp add: swept_def store_eq_spares)

lemma artifact_stem:
  assumes "artifact_of f = Some (h, d)"
  shows "set h \<subseteq> set f \<and> (\<not> d \<longrightarrow> h \<noteq> [])"
proof (cases "find (\<lambda>suf. length f > length suf \<and> has_suffix suf f) sweep_suffixes")
  case (Some suf)
  then have "h = stem_of (length suf) f" using assms by (simp add: artifact_of_def)
  moreover have "length suf < length f" using Some by (auto simp: find_Some_iff)
  ultimately show ?thesis by (auto simp: stem_of_def dest: in_set_takeD)
next
  case None
  then show ?thesis using assms by (auto simp: artifact_of_def dest: in_set_takeD split: option.splits)
qed

lemma child_of_append: "CHR ''/'' \<notin> set c \<Longrightarrow> c \<noteq> [] \<Longrightarrow> child_of d (d @ ''/'' @ c) = Some c"
  by (auto simp: child_of_def takeWhile_eq_all_conv)

lemma metas_of_listed:
  assumes "io_listDir io d = (Some files, io')" and "h \<notin> set (metas_of files)" and "CHR ''/'' \<notin> set h" and "h \<noteq> []"
  shows "file_at io (d @ ''/'' @ h @ ''.meta'') = None"
proof (rule ccontr)
  assume "file_at io (d @ ''/'' @ h @ ''.meta'') \<noteq> None"
  then obtain i where "(d @ ''/'' @ h @ ''.meta'', i) \<in> set (io_names io)" by (auto simp: file_at_def dest: map_of_SomeD)
  moreover have "child_of d (d @ ''/'' @ h @ ''.meta'') = Some (h @ ''.meta'')" using assms(3) child_of_append [of "h @ ''.meta''" d] by simp
  ultimately have "h @ ''.meta'' \<in> set files" using listDir_children [OF assms(1)] by blast
  then have "h \<in> set (metas_of files)" using assms(4) by (force simp: metas_of_def has_suffix_def stem_of_def image_iff)
  then show False using assms(2) by simp
qed

lemma sweep_file_swept:
  assumes "sweep_file dir metas m now f (n, io) = (n', io')" and "dir = objects_of cfg @ ''/'' @ sh" and "CHR ''/'' \<notin> set sh" and "CHR ''/'' \<notin> set f"
    and ms: "\<And>h. h \<notin> set metas \<Longrightarrow> CHR ''/'' \<notin> set h \<Longrightarrow> h \<noteq> [] \<Longrightarrow> file_at io (dir @ ''/'' @ h @ ''.meta'') = None"
  shows "swept cfg m now io io'"
proof (cases "artifact_of f")
  case None
  then show ?thesis using assms(1) store_eq_swept by (simp add: sweep_file_def)
next
  case (Some hd)
  obtain h d where hd: "hd = (h, d)" by fastforce
  note art = artifact_stem [OF Some [unfolded hd]]
  obtain r io1 where st: "io_stat io (dir @ ''/'' @ f) = (r, io1)" by fastforce
  note e1 = stat_store_eq [OF st]
  obtain rc io2 where un: "io_unlink io1 (dir @ ''/'' @ f) = (rc, io2)" by fastforce
  show ?thesis
  proof (cases "h \<in> set metas \<and> \<not> d \<or> r = Inl (projl r) \<or> now < m (dir @ ''/'' @ f) + 3600")
    case True
    then have "store_eq io io'" using assms(1) e1 Some hd st by (auto simp: sweep_file_def Let_def split: if_splits sum.splits)
    then show ?thesis by (rule store_eq_swept)
  next
    case False
    then have io': "io' = io2" using assms(1) Some hd st un by (auto simp: sweep_file_def Let_def split: if_splits sum.splits)
    have "spares (\<lambda>q. q = dir @ ''/'' @ f) io1 io2" using unlink_spares [of "\<lambda>q. q = dir @ ''/'' @ f" "dir @ ''/'' @ f" io1] un by simp
    then have sp: "spares (\<lambda>q. q = dir @ ''/'' @ f) io io2" using spares_trans [OF store_eq_spares [OF e1]] by blast
    have "file_at io (dir @ ''/'' @ h @ ''.meta'') = None" if "\<not> d"
      by (rule ms) (use False that art assms(4) in auto)
    then have "d \<or> file_at io2 (dir @ ''/'' @ h @ ''.meta'') = None" using sp unfolding spares_def by metis
    then have "sweepable cfg m now io2 (dir @ ''/'' @ f)" unfolding sweepable_def
      using Some hd False assms(2-4) by (intro exI [of _ sh] exI [of _ f] exI [of _ h] exI [of _ d]) auto
    then show ?thesis unfolding swept_def io' using sp spares_mono by blast
  qed
qed

lemma sweep_files_swept:
  assumes "dir = objects_of cfg @ ''/'' @ sh" and "CHR ''/'' \<notin> set sh"
  shows "(\<And>f. f \<in> set fs \<Longrightarrow> CHR ''/'' \<notin> set f) \<Longrightarrow>
     (\<And>h. h \<notin> set metas \<Longrightarrow> CHR ''/'' \<notin> set h \<Longrightarrow> h \<noteq> [] \<Longrightarrow> file_at io (dir @ ''/'' @ h @ ''.meta'') = None) \<Longrightarrow>
     swept cfg m now io (snd (fold (sweep_file dir metas m now) fs (n, io)))"
proof (induction fs arbitrary: n io)
  case Nil
  then show ?case by (simp add: store_eq_swept)
next
  case (Cons f fs)
  obtain n1 io1 where s: "sweep_file dir metas m now f (n, io) = (n1, io1)" by fastforce
  have a: "swept cfg m now io io1" by (rule sweep_file_swept [OF s assms]) (use Cons.prems in auto)
  then have "file_at io p = None \<Longrightarrow> file_at io1 p = None" for p unfolding swept_def spares_def by metis
  then have "swept cfg m now io1 (snd (fold (sweep_file dir metas m now) fs (n1, io1)))"
    by (intro Cons.IH) (use Cons.prems in auto)
  then show ?case using swept_trans [OF a] s by simp
qed

lemma sweep_shard_swept:
  assumes "CHR ''/'' \<notin> set sh"
  shows "swept cfg m now io (snd (sweep_shard (objects_of cfg) m now sh (n, io)))"
proof -
  define dir where "dir = objects_of cfg @ ''/'' @ sh"
  obtain r io1 where l: "io_listDir io dir = (r, io1)" by fastforce
  note e = listDir_store_eq [OF l]
  show ?thesis
  proof (cases r)
    case None
    then show ?thesis using l e store_eq_swept unfolding dir_def by (simp add: sweep_shard_def Let_def)
  next
    case (Some files)
    note L = l [unfolded Some]
    have "swept cfg m now io1 (snd (fold (sweep_file dir (metas_of files) m now) files (n, io1)))"
    proof (rule sweep_files_swept [OF dir_def assms])
      show "CHR ''/'' \<notin> set f" if "f \<in> set files" for f using that listDir_children [OF L] child_no_slash by auto
      show "file_at io1 (dir @ ''/'' @ h @ ''.meta'') = None" if "h \<notin> set (metas_of files)" "CHR ''/'' \<notin> set h" "h \<noteq> []" for h
        using metas_of_listed [OF L that] store_eq_file_at [OF e] by simp
    qed
    then show ?thesis using swept_trans [OF store_eq_swept [OF e]] L unfolding dir_def by (simp add: sweep_shard_def Let_def)
  qed
qed

lemma sweep_shards_swept:
  "(\<And>sh. sh \<in> set shs \<Longrightarrow> CHR ''/'' \<notin> set sh) \<Longrightarrow> swept cfg m now io (snd (fold (sweep_shard (objects_of cfg) m now) shs (n, io)))"
proof (induction shs arbitrary: n io)
  case Nil
  then show ?case by (simp add: store_eq_swept)
next
  case (Cons sh shs)
  obtain n1 io1 where s: "sweep_shard (objects_of cfg) m now sh (n, io) = (n1, io1)" by fastforce
  have "swept cfg m now io io1" using sweep_shard_swept [of sh cfg m now io n] Cons.prems s by simp
  then show ?case using swept_trans Cons s by fastforce
qed

lemma sweep_swept: "sweepReplicaOrphans cfg m now io = (n, io') \<Longrightarrow> swept cfg m now io io'"
proof -
  obtain r io1 where l: "io_listDir io (objects_of cfg) = (r, io1)" by fastforce
  note e = store_eq_swept [OF listDir_store_eq [OF l], of cfg m now]
  show "sweepReplicaOrphans cfg m now io = (n, io') \<Longrightarrow> ?thesis"
  proof (cases r)
    case None
    then show "sweepReplicaOrphans cfg m now io = (n, io') \<Longrightarrow> ?thesis" using e l by (simp add: sweepReplicaOrphans_def)
  next
    case (Some shs)
    have "swept cfg m now io1 (snd (fold (sweep_shard (objects_of cfg) m now) shs (0, io1)))"
      by (rule sweep_shards_swept) (use listDir_children [OF l [unfolded Some]] child_no_slash in auto)
    then show "sweepReplicaOrphans cfg m now io = (n, io') \<Longrightarrow> ?thesis"
      using swept_trans [OF e] l Some by (simp add: sweepReplicaOrphans_def)
  qed
qed

section \<open>The pass as a whole\<close>

text \<open>The state an eviction or a cleanup scans: the lock file is open and locked, the open entries are flushed.\<close>

definition scan_start :: "config \<Rightarrow> (io \<Rightarrow> io) \<Rightarrow> io \<Rightarrow> io" where
  "scan_start cfg flush io = flush (snd (io_call (snd (io_open io (lock_path cfg) True False))))"

definition may_go :: "config \<Rightarrow> (string \<Rightarrow> nat) \<Rightarrow> nat \<Rightarrow> string list \<Rightarrow> metaScan list \<Rightarrow> io \<Rightarrow> string \<Rightarrow> bool" where
  "may_go cfg mtimeS now live ss io q \<longleftrightarrow>
     (\<exists>s\<in>set ss. evictable (protect_cutoff cfg now) live s \<and> q \<in> set (files_of s)) \<or> sweepable cfg mtimeS now io q"

lemma evictNow_spares:
  assumes "evictNow cs space now mtimeS live flush io = (n, cs', io')" and "0 \<le> n"
  shows "spares (may_go (cs_cfg cs) mtimeS now live (fst (scanObjects (cs_cfg cs) False (scan_start (cs_cfg cs) flush io))) io') (scan_start (cs_cfg cs) flush io) io'"
proof -
  define cfg where "cfg = cs_cfg cs"
  obtain fd io1 where op: "io_open io (lock_path cfg) True False = (fd, io1)" by fastforce
  obtain rc io2 where fl: "io_call io1 = (rc, io2)" by fastforce
  have s0: "scan_start cfg flush io = flush io2" by (simp add: scan_start_def op fl)
  define st where "st = evict_pass cfg space now live (flush io2)"
  obtain k io3 where sw: "sweepReplicaOrphans cfg mtimeS now (ev_io st) = (k, io3)" by fastforce
  obtain ss ioa where sc: "scanObjects cfg False (flush io2) = (ss, ioa)" by fastforce
  have "\<not> fd < 0 \<and> \<not> rc < 0" using assms by (auto simp: evictNow_def Let_def cfg_def [symmetric] op fl split: if_splits)
  then have io': "io' = snd (io_close (snd (io_call io3)) (nat fd))"
    using assms(1) sw by (auto simp: evictNow_def Let_def cfg_def [symmetric] op fl st_def [symmetric])
  obtain r ioc where cl: "io_call io3 = (r, ioc)" by fastforce
  have e: "store_eq io3 io'" unfolding io' cl snd_conv using store_eq_trans [OF call_store_eq [OF cl] close_store_eq] .
  have sw3: "swept cfg mtimeS now (ev_io st) io'" using swept_trans [OF sweep_swept [OF sw] store_eq_swept [OF e]] .
  let ?P = "may_go cfg mtimeS now live ss io'"
  have "spares ?P (flush io2) (ev_io st)" unfolding st_def
    by (rule spares_mono [OF evict_pass_spares [OF sc]]) (auto simp: may_go_def)
  moreover have "spares ?P (ev_io st) io'" using sw3 unfolding swept_def by (rule spares_mono) (simp add: may_go_def)
  ultimately show ?thesis unfolding cfg_def [symmetric] s0 sc fst_conv using spares_trans by blast
qed

text \<open>C10. An eviction pass, whatever calls fail below it, only ever removes files: those of entries that its scan saw neither pinned nor
  open in the process nor read within the protection window, and artifacts of the second kind, at least an hour old, whose entry has no sidecar once the pass
  is over or that are debris of a store's creation. Every other file keeps its bytes.\<close>

theorem eviction_spares_protected:
  assumes "evictNow cs space now mtimeS live flush io = (n, cs', io')" and "0 \<le> n"
    and "cfg = cs_cfg cs" and "io0 = scan_start cfg flush io" and "file_at io' q \<noteq> file_at io0 q"
  shows "file_at io' q = None \<and>
    ((\<exists>s\<in>set (fst (scanObjects cfg False io0)). \<not> ms_pinned s \<and> ms_hashHex s \<notin> set live \<and>
        (now > c_evictProtectSeconds cfg \<and> c_evictProtectSeconds cfg \<noteq> 0 \<longrightarrow> ms_atime s + c_evictProtectSeconds cfg < now) \<and> q \<in> set (files_of s)) \<or>
     (\<exists>sh f h d. q = objects_of cfg @ ''/'' @ sh @ ''/'' @ f \<and> artifact_of f = Some (h, d) \<and> mtimeS q + 3600 \<le> now \<and>
        (d \<or> file_at io' (objects_of cfg @ ''/'' @ sh @ ''/'' @ h @ ''.meta'') = None)))"
proof -
  have ev: "evictable (protect_cutoff cfg now) live s \<Longrightarrow> \<not> ms_pinned s \<and> ms_hashHex s \<notin> set live \<and>
      (now > c_evictProtectSeconds cfg \<and> c_evictProtectSeconds cfg \<noteq> 0 \<longrightarrow> ms_atime s + c_evictProtectSeconds cfg < now)" for s
    by (auto simp: evictable_def protect_cutoff_def split: if_splits)
  have "file_at io' q = None \<and> may_go cfg mtimeS now live (fst (scanObjects cfg False io0)) io' q"
    using evictNow_spares [OF assms(1,2)] assms(3-5) unfolding spares_def by metis
  then show ?thesis using ev unfolding may_go_def sweepable_def by blast
qed

section \<open>Pinning\<close>

lemma open_ok:
  assumes "io_open io p cr tr = (r, io1)" and "io_ok io"
  shows "io_ok io1"
proof -
  obtain oc io2 where o: "next_outcome io = (oc, io2)" by fastforce
  have k: "io_ok io2" using io_same_ok [OF next_outcome_same [OF o] assms(2)] .
  then show ?thesis using assms(1) io_ok_names [OF k]
    by (fastforce simp: io_open_def o io_ok_def Let_def dest: set_update_alist split: outcome.splits option.splits if_splits)
qed

lemma pin_word: "(f OR kFlagPinned) AND kFlagPinned \<noteq> (0 :: u32)"
proof -
  have "bit ((f OR kFlagPinned) AND kFlagPinned) 0" by (simp add: kFlagPinned_def bit_simps)
  then show ?thesis by (metis bit_0_eq bot_apply bot_bool_def)
qed

lemma setPinned_pins:
  assumes "setPinnedByKey cfg h True io = (True, io')" and "io_ok io" and "mp = metaPath (c_cacheDir cfg) h" and "tmp_private io mp"
    and "dp = dataPath (c_cacheDir cfg) h" and "map_of (io_names io) dp \<notin> {map_of (io_names io) mp, map_of (io_names io) (mp @ ''.tmp'')}"
    and "\<And>bs m. file_at io mp = Some bs \<Longrightarrow> deserialize bs = Some m \<Longrightarrow> fileSize m < 2 ^ 61"
  shows "\<exists>bs. file_at io' mp = Some bs \<and> flags (header bs) AND kFlagPinned \<noteq> 0"
proof -
  obtain fd io1 where op: "io_open io dp False False = (fd, io1)" by fastforce
  have fd: "0 \<le> fd" using assms(1) op by (auto simp: setPinnedByKey_def assms(5) [symmetric] split: if_splits)
  obtain i where i: "map_of (io_names io) dp = Some i" "map_of (io_fds io1) (nat fd) = Some i" "io_names io1 = io_names io"
    using io_open_existing [OF op] fd by auto
  have h1: "data_held mp (nat fd) i io1"
    using open_ok [OF op assms(2)] assms(4,6) i(1,2) unfolding data_held_def tmp_private_def i(3) by auto
  obtain rc io2 where c: "io_call io1 = (rc, io2)" by fastforce
  obtain nl io3 where f: "io_fstat_nlink io2 (nat fd) = (nl, io3)" by fastforce
  obtain r io4 where l: "meta_load io3 mp = (r, io4)" by fastforce
  have "keeps mp (nat fd) i io1 io4"
    using keeps_trans [OF keeps_trans [OF io_same_keeps [OF io_call_same [OF c]] io_same_keeps [OF io_fstat_same [OF f]]] meta_load_keeps [OF l]] .
  then have h4: "io_ok io4" "tmp_private io4 mp" using h1 by (simp_all add: keeps_def data_held_def)
  have e: "store_eq io io3" using store_eq_trans [OF store_eq_trans [OF open_store_eq [OF op] call_store_eq [OF c]] io_same_store_eq [OF io_fstat_same [OF f]]] .
  obtain n where n: "nl = Inr n" "n \<noteq> 0"
    using assms(1) op fd c f by (auto simp: setPinnedByKey_def assms(3,5) [symmetric] Let_def split: sum.splits if_splits)
  obtain m where m: "r = Some m"
    using assms(1) op fd c f l n by (cases r) (auto simp: setPinnedByKey_def assms(3,5) [symmetric] Let_def)
  obtain rs io5 where s: "meta_store io4 mp (m\<lparr>flags := flags m OR kFlagPinned\<rparr>) (c_fsync cfg = kAll) = (rs, io5)" by fastforce
  have fin: "rs = 0" "io' = snd (io_close (snd (io_call io5)) (nat fd))"
    using assms(1) op fd c f l n m s by (auto simp: setPinnedByKey_def assms(3,5) [symmetric] Let_def)
  have "file_at io5 mp = Some (serialize (m\<lparr>flags := flags m OR kFlagPinned\<rparr>))"
    using meta_store_spec [OF s h4, of mp] fin(1) by simp
  moreover have "store_eq io5 io'" unfolding fin(2) using store_eq_trans [OF call_store_eq close_store_eq] by (metis surjective_pairing)
  ultimately have f': "file_at io' mp = Some (serialize (m\<lparr>flags := flags m OR kFlagPinned\<rparr>))" by (simp add: store_eq_file_at)
  obtain bs where bs: "file_at io mp = Some bs" "deserialize bs = Some m"
    using meta_load_spec [OF l] m store_eq_file_at [OF e, of mp] by auto
  have "meta_ok m" using deserialize_meta_ok [OF bs(2)] assms(7) [OF bs] by blast
  moreover have "npages (m\<lparr>flags := flags m OR kFlagPinned\<rparr>) = npages m" by (simp add: npages_def)
  ultimately have ok: "meta_ok (m\<lparr>flags := flags m OR kFlagPinned\<rparr>)" by (simp add: meta_ok_def)
  have "flags (header (serialize (m\<lparr>flags := flags m OR kFlagPinned\<rparr>))) = flags m OR kFlagPinned"
    by (simp add: header_serialize [OF ok] image0_header(3) [OF ok])
  then show ?thesis using f' pin_word [of "flags m"] by simp
qed

text \<open>The names of an entry are no artifacts, and only its own scan record lists them.\<close>

lemma find_sub_found: "find_sub pat f k = Some j \<Longrightarrow> \<exists>a b. f = a @ pat @ b"
proof (induction f arbitrary: k)
  case Nil
  then show ?case by (auto split: if_splits)
next
  case (Cons c f)
  show ?case
  proof (cases "take (length pat) (c # f) = pat")
    case True
    then have "c # f = [] @ pat @ drop (length pat) (c # f)" by (metis append_Nil append_take_drop_id)
    then show ?thesis by blast
  next
    case False
    then have "find_sub pat f (k + 1) = Some j" using Cons.prems by simp
    then obtain a b where "f = a @ pat @ b" using Cons.IH by blast
    then show ?thesis by (metis append_Cons)
  qed
qed

lemma entry_name_no_artifact:
  assumes "CHR ''.'' \<notin> set h" and "suf = ''.data'' \<or> suf = ''.meta''"
  shows "artifact_of (h @ suf) = None"
proof -
  have "find_sub ''.slots.tmp.'' (h @ suf) 0 = None"
  proof (rule ccontr)
    assume "find_sub ''.slots.tmp.'' (h @ suf) 0 \<noteq> None"
    then obtain a b where e: "h @ suf = a @ ''.slots.tmp.'' @ b" using find_sub_found by blast
    have "count_list h (CHR ''.'') = 0" using assms(1) by (simp add: count_list_0_iff)
    then have "count_list (h @ suf) (CHR ''.'') = 1" using assms(2) by (auto simp: count_list_append)
    then show False unfolding e by (simp add: count_list_append)
  qed
  moreover have "\<not> has_suffix t (h @ suf)" if "t \<in> set sweep_suffixes" for t
  proof
    assume "has_suffix t (h @ suf)"
    then have "\<exists>x. x @ t = h @ suf" using stem_suffix by blast
    then obtain x where "rev t @ rev x = rev suf @ rev h" by (metis rev_append)
    then show False using that assms(2) by (auto simp: sweep_suffixes_def)
  qed
  then have "find (\<lambda>s. length (h @ suf) > length s \<and> has_suffix s (h @ suf)) sweep_suffixes = None" by (auto simp: find_None_iff)
  ultimately show ?thesis unfolding artifact_of_def by (simp only: option.case)
qed

lemma first_component:
  assumes "a @ ''/'' @ x = b @ ''/'' @ y" and "CHR ''/'' \<notin> set a" and "CHR ''/'' \<notin> set b"
  shows "a = b \<and> x = y"
proof -
  have t: "takeWhile (\<lambda>c. c \<noteq> CHR ''/'') (z @ ''/'' @ w) = z" if "CHR ''/'' \<notin> set z" for z w
    using that by (subst takeWhile_append2) auto
  have "a = b" using t [OF assms(2), of x] t [OF assms(3), of y] assms(1) by simp
  then show ?thesis using assms(1) by simp
qed

lemma own_scan_only:
  assumes "scan_ok io (objects_of cfg @ ''/'' @ sh) s" and "CHR ''/'' \<notin> set sh" and "CHR ''/'' \<notin> set h"
    and "q \<in> {dataPath (c_cacheDir cfg) h, metaPath (c_cacheDir cfg) h}" and "q \<in> set (files_of s)"
  shows "ms_metaPath s = metaPath (c_cacheDir cfg) h"
proof -
  have nd: "CHR ''/'' \<notin> set (take 2 h)" using assms(3) by (auto dest: in_set_takeD)
  obtain suf where suf: "suf = ''.data'' \<or> suf = ''.meta''" "q = objects_of cfg @ ''/'' @ take 2 h @ ''/'' @ h @ suf"
    using assms(4) by (auto simp: dataPath_def metaPath_def objectDir_def objects_of_def)
  have b: "base_of s = objects_of cfg @ ''/'' @ sh @ ''/'' @ ms_hashHex s"
    using assms(1) by (simp add: scan_ok_def base_of_def stem_of_def)
  obtain t where t: "t \<in> set (''.data'' # ''.meta'' # art_suffixes)" "q = objects_of cfg @ ''/'' @ sh @ ''/'' @ ms_hashHex s @ t"
    using assms(1,5) b by (auto simp: files_of_def scan_ok_def)
  have "sh @ ''/'' @ ms_hashHex s @ t = take 2 h @ ''/'' @ h @ suf" using t(2) suf(2) by simp
  then have e: "sh = take 2 h" "ms_hashHex s @ t = h @ suf" using first_component [OF _ assms(2) nd] by blast+
  then have "rev t @ rev (ms_hashHex s) = rev suf @ rev h" by (metis rev_append)
  then have "t = suf" using t(1) suf(1) by (auto simp: art_suffixes_def)
  then have "ms_hashHex s = h" using e(2) by simp
  then show ?thesis using assms(1) e(1) by (simp add: scan_ok_def metaPath_def objectDir_def objects_of_def)
qed


section \<open>Oldest first, and no more than needed\<close>

definition need :: "evict_ctx \<Rightarrow> nat \<Rightarrow> nat \<Rightarrow> bool" where
  "need c u a \<longleftrightarrow> ec_maxBytes c \<noteq> 0 \<and> u > ec_byteTarget c \<or> ec_haveSpace c \<and> a < ec_resumeFree c"

lemma needEvict_need: "needEvict c st = need c (ev_usage st) (ev_avail st)"
  by (simp add: needEvict_def need_def)

definition pin_fresh :: "io \<Rightarrow> metaScan \<Rightarrow> bool" where
  "pin_fresh io s \<longleftrightarrow> (\<forall>bs. file_at io (ms_metaPath s) = Some bs \<longrightarrow> ms_pinned s = (flags (header bs) AND kFlagPinned \<noteq> 0))"

lemma pin_fresh_spares: "spares P a b \<Longrightarrow> pin_fresh a s \<Longrightarrow> pin_fresh b s"
  unfolding spares_def pin_fresh_def by (metis option.distinct(1))

lemma pinned_now_false:
  assumes "pinned_now io s = (pin, io')" and "pin_fresh io s" and "\<not> ms_pinned s"
  shows "\<not> pin"
proof -
  obtain r io1 where l: "meta_load io (ms_metaPath s) = (r, io1)" by fastforce
  show ?thesis
  proof (cases r)
    case None
    then show ?thesis using assms(1) l by (simp add: pinned_now_def)
  next
    case (Some m)
    obtain bs where bs: "file_at io (ms_metaPath s) = Some bs" "deserialize bs = Some m" using meta_load_spec [OF l] Some by auto
    have "flags m = flags (header bs)" using deserialize_eq [OF bs(2)] by auto
    then show ?thesis using assms l Some bs(1) by (auto simp: pinned_now_def pin_fresh_def)
  qed
qed

lemma unlink_quiet:
  assumes "io_sched io = []"
  shows "io_sched (snd (io_unlink io p)) = [] \<and> file_at (snd (io_unlink io p)) p = None"
  using assms by (auto simp: io_unlink_def next_outcome_def file_at_def AList.delete_conv')

lemma unlink_list_quiet: "io_sched io = [] \<Longrightarrow> io_sched (unlink_list ps io) = []"
  unfolding unlink_list_def by (induction ps arbitrary: io) (simp_all add: unlink_quiet)

lemma remove_entry_quiet:
  assumes "remove_entry s io = (ok, io')" and "io_sched io = []"
  shows "io_sched io' = [] \<and> file_at io' (ms_dataPath s) = None"
proof -
  obtain rc io1 where u: "io_unlink io (ms_dataPath s) = (rc, io1)" by fastforce
  have q: "io_sched io1 = []" "file_at io1 (ms_dataPath s) = None" using unlink_quiet [OF assms(2), of "ms_dataPath s"] u by simp_all
  define io2 where "io2 = snd (io_unlink io1 (ms_metaPath s))"
  have q2: "io_sched io2 = []" unfolding io2_def using unlink_quiet [OF q(1)] by simp
  have "spares (\<lambda>_. True) io1 (unlink_list ps io2)" for ps
    unfolding io2_def by (rule spares_trans [OF unlink_spares unlink_list_spares]) simp_all
  then have "file_at (unlink_list ps io2) (ms_dataPath s) = None" for ps using q(2) unfolding spares_def by metis
  then show ?thesis using assms(1) q unlink_list_quiet [OF q2] by (auto simp: remove_entry_def u io2_def [symmetric] split: if_splits)
qed

lemma evict_one_quiet:
  assumes "io_sched (ev_io st) = []" and "pin_fresh (ev_io st) s"
  shows "io_sched (ev_io (evict_one c s st)) = []" and
    "evictable (ec_cutoff c) (ec_live c) s \<Longrightarrow> file_at (ev_io (evict_one c s st)) (ms_dataPath s) = None"
proof -
  obtain pin io1 where p: "pinned_now (ev_io st) s = (pin, io1)" by fastforce
  obtain ok io2 where r: "remove_entry s io1 = (ok, io2)" by fastforce
  have q1: "io_sched io1 = []" using meta_load_sched [OF assms(1), of "ms_metaPath s"] p by (auto simp: pinned_now_def split: prod.splits option.splits)
  note R = remove_entry_quiet [OF r q1]
  show "io_sched (ev_io (evict_one c s st)) = []" using assms(1) q1 R by (simp add: evict_one_def p r)
  show "file_at (ev_io (evict_one c s st)) (ms_dataPath s) = None" if "evictable (ec_cutoff c) (ec_live c) s"
    using that R pinned_now_false [OF p assms(2)] by (auto simp: evict_one_def p r evictable_def)
qed

lemma evict_one_counts:
  "(\<exists>io' b. evict_one c s st = st\<lparr>ev_io := io', ev_saw := b\<rparr>) \<or>
   (\<exists>io'. evict_one c s st = st\<lparr>ev_usage := ev_usage st - scan_bytes s, ev_avail := u64 (ev_avail st + scan_bytes s), ev_gone := ev_gone st @ [s], ev_io := io'\<rparr>)"
proof -
  obtain pin io1 where p: "pinned_now (ev_io st) s = (pin, io1)" by fastforce
  obtain ok io2 where r: "remove_entry s io1 = (ok, io2)" by fastforce
  have m: "ev_usage st - min (ev_usage st) (scan_bytes s) = ev_usage st - scan_bytes s" by simp
  show ?thesis
  proof (cases "evict_one c s st = st\<lparr>ev_usage := ev_usage st - scan_bytes s, ev_avail := u64 (ev_avail st + scan_bytes s), ev_gone := ev_gone st @ [s], ev_io := io2\<rparr>")
    case True
    then show ?thesis by blast
  next
    case False
    then have "evict_one c s st = st \<or> evict_one c s st = st\<lparr>ev_saw := True\<rparr> \<or> evict_one c s st = st\<lparr>ev_io := io1\<rparr> \<or> evict_one c s st = st\<lparr>ev_io := io2\<rparr>"
      unfolding evict_one_def p r prod.case m by (auto split: if_splits)
    moreover have "st = st\<lparr>ev_io := ev_io st, ev_saw := ev_saw st\<rparr>" "st\<lparr>ev_saw := True\<rparr> = st\<lparr>ev_io := ev_io st, ev_saw := True\<rparr>"
      "st\<lparr>ev_io := x\<rparr> = st\<lparr>ev_io := x, ev_saw := ev_saw st\<rparr>" for x by simp_all
    ultimately show ?thesis by metis
  qed
qed

text \<open>What the loop took, and that every step of it was needed.\<close>

lemma evict_loop_counts:
  "ev_avail st < 2 ^ 64 \<Longrightarrow> \<exists>k\<le>length ss. (k = length ss \<or> \<not> needEvict c (evict_loop c ss st)) \<and>
     (\<exists>g. ev_gone (evict_loop c ss st) = ev_gone st @ g \<and> subseq g (take k ss) \<and>
        ev_usage (evict_loop c ss st) = ev_usage st - sum_list (map scan_bytes g) \<and>
        ev_avail (evict_loop c ss st) = u64 (ev_avail st + sum_list (map scan_bytes g)) \<and>
        (g \<noteq> [] \<longrightarrow> need c (ev_usage st - sum_list (map scan_bytes (butlast g))) (u64 (ev_avail st + sum_list (map scan_bytes (butlast g)))))) \<and>
     evict_loop c ss st = fold (evict_one c) (take k ss) st"
proof (induction ss arbitrary: st)
  case Nil
  then show ?case by simp
next
  case (Cons s ss)
  show ?case
  proof (cases "needEvict c st")
    case False
    then show ?thesis using Cons.prems by (intro exI [of _ 0]) simp
  next
    case True
    let ?t = "evict_one c s st"
    have st: "evict_loop c (s # ss) st = evict_loop c ss ?t" using True by simp
    have av: "ev_avail ?t < 2 ^ 64" using evict_one_counts [of c s st] Cons.prems by (auto simp: u64_def)
    obtain k g where k: "k \<le> length ss" "k = length ss \<or> \<not> needEvict c (evict_loop c ss ?t)" "ev_gone (evict_loop c ss ?t) = ev_gone ?t @ g"
      "subseq g (take k ss)" "ev_usage (evict_loop c ss ?t) = ev_usage ?t - sum_list (map scan_bytes g)"
      "ev_avail (evict_loop c ss ?t) = u64 (ev_avail ?t + sum_list (map scan_bytes g))"
      "g \<noteq> [] \<longrightarrow> need c (ev_usage ?t - sum_list (map scan_bytes (butlast g))) (u64 (ev_avail ?t + sum_list (map scan_bytes (butlast g))))"
      "evict_loop c ss ?t = fold (evict_one c) (take k ss) ?t"
      using Cons.IH [OF av] by blast
    have wrap: "u64 (u64 a + b) = u64 (a + b)" for a b by (simp add: u64_def mod_add_left_eq)
    show ?thesis
    proof (cases "ev_gone ?t = ev_gone st")
      case same: True
      then have e: "ev_usage ?t = ev_usage st" "ev_avail ?t = ev_avail st" using evict_one_counts [of c s st] by auto
      have "subseq g (take (Suc k) (s # ss))" using k(4) by (simp add: list_emb_Cons)
      then show ?thesis unfolding st using k same e by (intro exI [of _ "Suc k"]) auto
    next
      case False
      then have e: "ev_gone ?t = ev_gone st @ [s]" "ev_usage ?t = ev_usage st - scan_bytes s" "ev_avail ?t = u64 (ev_avail st + scan_bytes s)"
        using evict_one_counts [of c s st] by auto
      have sub: "subseq (s # g) (take (Suc k) (s # ss))" using k(4) by simp
      have n: "need c (ev_usage st - sum_list (map scan_bytes (butlast (s # g)))) (u64 (ev_avail st + sum_list (map scan_bytes (butlast (s # g)))))"
        using k(7) True Cons.prems by (cases "g = []") (simp_all add: e wrap needEvict_need add.assoc)
      show ?thesis unfolding st
      proof (intro exI [of _ "Suc k"] conjI)
        show "\<exists>g'. ev_gone (evict_loop c ss ?t) = ev_gone st @ g' \<and> subseq g' (take (Suc k) (s # ss)) \<and>
            ev_usage (evict_loop c ss ?t) = ev_usage st - sum_list (map scan_bytes g') \<and>
            ev_avail (evict_loop c ss ?t) = u64 (ev_avail st + sum_list (map scan_bytes g')) \<and>
            (g' \<noteq> [] \<longrightarrow> need c (ev_usage st - sum_list (map scan_bytes (butlast g'))) (u64 (ev_avail st + sum_list (map scan_bytes (butlast g')))))"
          using k(3,5,6) e sub n by (intro exI [of _ "s # g"]) (simp add: wrap add.assoc)
      qed (use k in auto)
    qed
  qed
qed

lemma evict_fold_spares: "spares (\<lambda>_. True) (ev_io st) (ev_io (fold (evict_one c) ss st))"
proof (induction ss arbitrary: st)
  case Nil
  then show ?case by (simp add: spares_def)
next
  case (Cons s ss)
  have "spares (\<lambda>_. True) (ev_io st) (ev_io (evict_one c s st))" by (rule evict_one_spares) simp
  then show ?case using spares_trans [OF _ Cons.IH] by simp
qed

lemma evict_fold_quiet:
  assumes "io_sched (ev_io st) = []" and "\<And>s. s \<in> set ss \<Longrightarrow> pin_fresh (ev_io st) s"
  shows "\<forall>s\<in>set ss. evictable (ec_cutoff c) (ec_live c) s \<longrightarrow> file_at (ev_io (fold (evict_one c) ss st)) (ms_dataPath s) = None"
  using assms
proof (induction ss arbitrary: st)
  case Nil
  then show ?case by simp
next
  case (Cons s ss)
  let ?t = "evict_one c s st"
  have sp: "spares (\<lambda>_. True) (ev_io st) (ev_io ?t)" by (rule evict_one_spares) simp
  have "spares (\<lambda>_. True) (ev_io x) (ev_io (fold (evict_one c) ss x))" for x by (rule evict_fold_spares)
  then have "file_at (ev_io ?t) p = None \<Longrightarrow> file_at (ev_io (fold (evict_one c) ss ?t)) p = None" for p unfolding spares_def by metis
  moreover have q: "io_sched (ev_io ?t) = []" "evictable (ec_cutoff c) (ec_live c) s \<Longrightarrow> file_at (ev_io ?t) (ms_dataPath s) = None"
    using evict_one_quiet [of st s c] Cons.prems by auto
  moreover have "\<forall>s\<in>set ss. evictable (ec_cutoff c) (ec_live c) s \<longrightarrow> file_at (ev_io (fold (evict_one c) ss ?t)) (ms_dataPath s) = None"
    using Cons.IH [OF q(1)] Cons.prems(2) pin_fresh_spares [OF sp] by auto
  ultimately show ?case by auto
qed

lemma evict_one_cases_same: "evict_loop c ss st = fold (evict_one c) [] st" if "\<not> needEvict c st"
  using that by (cases ss) simp_all

text \<open>The eviction pass goes through the entries oldest first and takes no more than it needs. It considers the entries up to some point of the order of
  access times, which is the end unless enough is free by then; what it removed comes from there, in that order; its account of the usage is the scanned total
  less what it removed; and before the last removal the need was still there. When no call fails after the scan, no evictable entry it considered keeps its data
  file, so a pass that ends with the need unmet has left only pinned, open and recently read entries.\<close>

theorem eviction_oldest_first:
  assumes "scanObjects cfg False io = (ss, io1)" and "avail_of cfg space < 2 ^ 64"
    and "c = evict_setup cfg space now live" and "st = evict_pass cfg space now live io" and "u = u64 (sum_list (map scan_bytes ss))"
  shows "\<exists>k. (k = length ss \<or> \<not> needEvict c st) \<and> subseq (ev_gone st) (take k (sort_key ms_atime ss)) \<and>
    ev_usage st = u - sum_list (map scan_bytes (ev_gone st)) \<and>
    (ev_gone st \<noteq> [] \<longrightarrow> need c (u - sum_list (map scan_bytes (butlast (ev_gone st))))
       (u64 (avail_of cfg space + sum_list (map scan_bytes (butlast (ev_gone st)))))) \<and>
    (io_sched io1 = [] \<longrightarrow> (\<forall>s\<in>set (take k (sort_key ms_atime ss)). evictable (protect_cutoff cfg now) live s \<longrightarrow> file_at (ev_io st) (ms_dataPath s) = None))"
proof -
  define st0 where "st0 = \<lparr>ev_usage = u, ev_avail = avail_of cfg space, ev_saw = False, ev_gone = [], ev_io = io1\<rparr>"
  define os where "os = sort_key ms_atime ss"
  have st: "st = evict_loop c os st0"
    using evict_one_cases_same [of c st0 os] by (auto simp: assms(1,3,4,5) evict_pass_def st0_def Let_def os_def)
  have f: "ev_usage st0 = u" "ev_avail st0 = avail_of cfg space" "ev_gone st0 = []" "ev_io st0 = io1" by (simp_all add: st0_def)
  obtain k g where k: "k \<le> length os" "k = length os \<or> \<not> needEvict c st" "ev_gone st = ev_gone st0 @ g" "subseq g (take k os)"
    "ev_usage st = ev_usage st0 - sum_list (map scan_bytes g)"
    "g \<noteq> [] \<longrightarrow> need c (ev_usage st0 - sum_list (map scan_bytes (butlast g))) (u64 (ev_avail st0 + sum_list (map scan_bytes (butlast g))))"
    "st = fold (evict_one c) (take k os) st0"
    using evict_loop_counts [of st0 os c] assms(2) unfolding st [symmetric] f(2) by blast
  have fresh: "pin_fresh io1 s" if "s \<in> set os" for s
    using scanObjects_spec [OF assms(1)] that store_eq_file_at [of io io1] by (fastforce simp: os_def scan_ok_def pin_fresh_def)
  have cl: "ec_cutoff c = protect_cutoff cfg now" "ec_live c = live" by (simp_all add: assms(3) evict_setup_def)
  have "\<forall>s\<in>set (take k os). evictable (protect_cutoff cfg now) live s \<longrightarrow> file_at (ev_io st) (ms_dataPath s) = None" if "io_sched io1 = []"
    using evict_fold_quiet [of st0 "take k os" c] fresh that unfolding k(7) [symmetric] cl f(4) by (auto dest: in_set_takeD)
  then show ?thesis using k(2-6) f unfolding os_def by (intro exI [of _ k]) (simp add: os_def)
qed

end
