(* ===== verification/Cache_Sample.thy ===== *)
theory Cache_Sample
  imports Cache_Space
begin

text \<open>
  Two entries in a small cache and the eviction pass over them, the instance at which the properties of the space policy are
  shown to apply; and what the admission latch does after a pass that removed something.
\<close>

definition w_cfg :: config where
  "w_cfg = default_config\<lparr>c_cacheDir := ''c'', c_minFreeBytes := 100, c_maxBytes := 0, c_evictProtectSeconds := 10\<rparr>"

definition w_meta :: "nat \<Rightarrow> metaData" where
  "w_meta t = fresh ''k'' 10 4 t"

definition w_names :: "(string \<times> nat) list" where
  "w_names = [(''c/LOCK'', 1), (''c/objects/aa/aa1.data'', 2), (''c/objects/aa/aa1.meta'', 3), (''c/objects/aa/aa2.data'', 4), (''c/objects/aa/aa2.meta'', 5)]"

text \<open>The first entry was last read at time 5, the second at time 95.\<close>

definition w_io :: io where
  "w_io = \<lparr>io_names = w_names, io_inodes = [(3, serialize (w_meta 5)), (5, serialize (w_meta 95))], io_fds = [], io_next = 6, io_sched = []\<rparr>"

lemma w_children: "List.map_filter (\<lambda>e. child_of ''c/objects'' (fst e)) w_names = [''aa'', ''aa'', ''aa'', ''aa'']"
  "List.map_filter (\<lambda>e. child_of ''c/objects/aa'' (fst e)) w_names = [''aa1.data'', ''aa1.meta'', ''aa2.data'', ''aa2.meta'']"
  by code_simp+

lemma w_listing:
  assumes "io_sched io = []" and "io_names io = w_names"
  shows "io_listDir io ''c/objects'' = (Some [''aa''], io)" "io_listDir io ''c/objects/aa'' = (Some [''aa1.data'', ''aa1.meta'', ''aa2.data'', ''aa2.meta''], io)"
  using assms by (simp_all add: io_listDir_def w_children Let_def)

lemma w_meta_ok: "t < 2 ^ 64 \<Longrightarrow> meta_ok (w_meta t)"
  unfolding w_meta_def by (rule fresh_meta_ok) (simp_all add: bad_pageSize_def)

lemma w_meta_fields [simp]: "key (w_meta t) = ''k''" "fileSize (w_meta t) = 10" "atime (w_meta t) = t" "flags (w_meta t) = 0" "pageSize (w_meta t) = 4"
  "npages (w_meta t) = 3" "cachedBytes (w_meta t) = 0" "pb_count (bitmap (w_meta t)) = 0"
proof -
  show "npages (w_meta t) = 3" using fresh_fields(1) [of 4 10 "''k''" t] by (simp add: w_meta_def bad_pageSize_def ceil_div_def)
  show "cachedBytes (w_meta t) = 0" by (simp add: w_meta_def fresh_def cachedBytes_def Let_def bm_reset_def)
qed (simp_all add: w_meta_def fresh_def Let_def bm_reset_def)

lemma w_image:
  assumes "t < 2 ^ 64"
  shows "deserialize (serialize (w_meta t)) = Some (w_meta t)" "length (serialize (w_meta t)) \<le> 2 ^ 31"
  using deserialize_serialize [OF w_meta_ok [OF assms]] length_serialize [OF w_meta_ok [OF assms]]
  by (simp_all add: image_size_def crcs_off_def bitmap_off_def)

lemma summary_sched:
  assumes "io_sched io = []"
  shows "io_sched (snd (meta_loadSummary io p)) = []"
proof -
  obtain q io1 where st: "io_stat io p = (q, io1)" by fastforce
  obtain fd io2 where op: "io_open io1 p False False = (fd, io2)" by fastforce
  obtain g hdr io3 where pr: "preadFull io2 (nat fd) kHeaderSize 0 [] = (g, hdr, io3)" by (metis prod_cases3)
  have e1: "io_sched io1 = []" using st assms by (auto simp: io_stat_def split: option.splits)
  have e2: "io_sched io2 = []" using op e1 by (auto simp: io_open_def Let_def split: option.splits)
  have e3: "io_sched io3 = []" by (rule preadFull_sched [OF e2 pr])
  have cl: "io_sched x = [] \<Longrightarrow> io_sched (snd (io_close x y)) = []" for x y by (simp add: io_close_def)
  obtain klen np bo co tl where geo: "klen = get_le 4 hdr 48" "np = npages (header hdr)" "bo = align8 (kHeaderSize + klen)"
    "co = u64 (bo + u64 (np + 7) div 8)" "tl = u64 (co + u64 (np * 4))" by blast
  obtain g2 b io4 where p2: "preadFull io3 (nat fd) (sub64 co kHeaderSize) kHeaderSize [] = (g2, b, io4)" by (metis prod_cases3)
  show ?thesis
    using e1 e2 cl [OF e3] cl [OF preadFull_sched [OF e3 p2]]
    unfolding meta_loadSummary_def st op pr prod.case Let_def geo(1) [symmetric] geo(2) [symmetric] geo(3) [symmetric] geo(4) [symmetric] geo(5) [symmetric] p2
    by (simp split: sum.splits)
qed

definition w_scan :: "string \<Rightarrow> nat \<Rightarrow> metaScan" where
  "w_scan h t = \<lparr>ms_dataPath = ''c/objects/aa/'' @ h @ ''.data'', ms_metaPath = ''c/objects/aa/'' @ h @ ''.meta'', ms_hashHex = h, ms_key = ''k'', ms_fileSize = 10,
     ms_atime = t, ms_cachedBytes = 0, ms_replicaBytes = 0, ms_replicated = False, ms_slotDeclined = False, ms_coverage = 0, ms_artifacts = [], ms_pinned = False, ms_complete = False\<rparr>"

definition w_files :: "string list" where
  "w_files = [''aa1.data'', ''aa1.meta'', ''aa2.data'', ''aa2.meta'']"

lemma w_scan_file:
  assumes "io_sched io = []" and "file_at io (''c/objects/aa/'' @ h @ ''.meta'') = Some (serialize (w_meta t))" and "t < 2 ^ 64"
    and "scan_artifacts ''c/objects/aa'' w_files h = []"
  shows "\<exists>io1. scan_file ''c/objects/aa'' w_files False (h @ ''.meta'') io = (Some (w_scan h t), io1) \<and> io_sched io1 = [] \<and> store_eq io io1"
proof -
  obtain r io1 where l: "meta_loadSummary io (''c/objects/aa/'' @ h @ ''.meta'') = (r, io1)" by fastforce
  note im = w_image [OF assms(3)]
  have r: "r = Some ((w_meta t)\<lparr>pageCrcs := []\<rparr>)" using meta_loadSummary_quiet [OF assms(1,2) im(2,1)] l by simp
  have s: "io_sched io1 = []" "store_eq io io1" using summary_sched [OF assms(1)] summary_spec [OF l] l by (metis snd_conv, blast)
  have np: "npages (m\<lparr>pageCrcs := []\<rparr>) = npages m" for m by (simp add: npages_def)
  have pb: "pageBytes (m\<lparr>pageCrcs := []\<rparr>) p = pageBytes m p" for m p by (simp add: pageBytes_def np)
  have cb: "cachedBytes (m\<lparr>pageCrcs := []\<rparr>) = cachedBytes m" for m by (simp add: cachedBytes_def np pb Let_def)
  have "\<not> length (h @ ''.meta'') < 5 \<and> has_suffix ''.meta'' (h @ ''.meta'')" "stem_of 5 (h @ ''.meta'') = h" by (simp_all add: has_suffix_def stem_of_def)
  then have "scan_file ''c/objects/aa'' w_files False (h @ ''.meta'') io = (Some (w_scan h t), io1)"
    using l r assms(4) by (simp add: scan_file_def Let_def w_scan_def cb np coverage_of_def)
  then show ?thesis using s by blast
qed

lemma w_artifacts: "scan_artifacts ''c/objects/aa'' w_files ''aa1'' = []" "scan_artifacts ''c/objects/aa'' w_files ''aa2'' = []"
  by code_simp+

lemma w_skip: "scan_file d fs rep ''aa1.data'' io = (None, io)" "scan_file d fs rep ''aa2.data'' io = (None, io)"
  by (simp_all add: scan_file_def has_suffix_def)

lemma w_files_at: "file_at w_io ''c/objects/aa/aa1.meta'' = Some (serialize (w_meta 5))" "file_at w_io ''c/objects/aa/aa2.meta'' = Some (serialize (w_meta 95))"
  "file_at w_io ''c/objects/aa/aa1.data'' = Some []" "file_at w_io ''c/objects/aa/aa2.data'' = Some []"
  by (simp_all add: file_at_def content_def w_io_def w_names_def)

lemma w_scanned:
  assumes "io_sched io = []" and "store_eq w_io io"
  shows "\<exists>io1. scanObjects w_cfg False io = ([w_scan ''aa1'' 5, w_scan ''aa2'' 95], io1) \<and> io_sched io1 = [] \<and> store_eq w_io io1"
proof -
  have n: "io_names io = w_names" using assms(2) by (simp add: store_eq_def w_io_def)
  note L = w_listing [OF assms(1) n]
  have f1: "file_at io (''c/objects/aa/'' @ ''aa1'' @ ''.meta'') = Some (serialize (w_meta 5))" using store_eq_file_at [OF assms(2)] w_files_at by simp
  obtain io1 where a: "scan_file ''c/objects/aa'' w_files False ''aa1.meta'' io = (Some (w_scan ''aa1'' 5), io1)" "io_sched io1 = []" "store_eq io io1"
    using w_scan_file [OF assms(1) f1] w_artifacts by auto
  have f2: "file_at io1 (''c/objects/aa/'' @ ''aa2'' @ ''.meta'') = Some (serialize (w_meta 95))"
    using store_eq_file_at [OF store_eq_trans [OF assms(2) a(3)]] w_files_at by simp
  obtain io2 where b: "scan_file ''c/objects/aa'' w_files False ''aa2.meta'' io1 = (Some (w_scan ''aa2'' 95), io2)" "io_sched io2 = []" "store_eq io1 io2"
    using w_scan_file [OF a(2) f2] w_artifacts by auto
  have "scan_files ''c/objects/aa'' w_files False w_files io = ([w_scan ''aa1'' 5, w_scan ''aa2'' 95], io2)"
    using a(1) b(1) by (subst (2) w_files_def) (simp add: w_skip)
  moreover have "objects_of w_cfg = ''c/objects''" by (simp add: objects_of_def w_cfg_def)
  moreover have "sort_strings [''aa''] = [''aa'']" by (simp add: sort_strings_def)
  ultimately have "scanObjects w_cfg False io = ([w_scan ''aa1'' 5, w_scan ''aa2'' 95], io2)"
    using L by (simp add: scanObjects_def scanShard_def w_files_def Let_def)
  then show ?thesis using b(2) store_eq_trans [OF store_eq_trans [OF assms(2) a(3)] b(3)] by blast
qed

lemma remove_entry_ok:
  assumes "io_sched io = []" and "file_at io (ms_dataPath s) \<noteq> None"
  shows "fst (remove_entry s io)"
  using assms by (auto simp: remove_entry_def io_unlink_def file_at_def split: if_splits)

text \<open>With 5 bytes free and a floor of 100 the pass removes the first entry and meets the second, which is protected.\<close>

lemma w_pass:
  assumes "io_sched io = []" and "store_eq w_io io" and "st = evict_pass w_cfg (Some (5, 1000)) 100 [] io"
  shows "ev_gone st = [w_scan ''aa1'' 5] \<and> ev_saw st \<and> needEvict (evict_setup w_cfg (Some (5, 1000)) 100 []) st \<and> file_at (ev_io st) ''c/objects/aa/aa1.data'' = None"
proof -
  obtain io1 where sc: "scanObjects w_cfg False io = ([w_scan ''aa1'' 5, w_scan ''aa2'' 95], io1)" "io_sched io1 = []" "store_eq w_io io1"
    using w_scanned [OF assms(1,2)] by blast
  define c where "c = evict_setup w_cfg (Some (5, 1000)) 100 []"
  have c: "ec_maxBytes c = 0" "ec_haveSpace c" "ec_resumeFree c = 110" "ec_cutoff c = 90" "ec_live c = []"
    by (simp_all add: c_def evict_setup_def w_cfg_def protect_cutoff_def)
  define st0 where "st0 = \<lparr>ev_usage = 0, ev_avail = 5, ev_saw = False, ev_gone = [], ev_io = io1\<rparr>"
  have b0: "scan_bytes (w_scan h t) = 0" "ms_atime (w_scan h t) = t" "ms_hashHex (w_scan h t) = h" "\<not> ms_pinned (w_scan h t)" for h t
    by (simp_all add: scan_bytes_def w_scan_def)
  have st: "st = evict_loop c [w_scan ''aa1'' 5, w_scan ''aa2'' 95] st0"
  proof -
    have "avail_of w_cfg (Some (5, 1000)) = 5" by (simp add: avail_of_def w_cfg_def)
    moreover have "sort_key ms_atime [w_scan ''aa1'' 5, w_scan ''aa2'' 95] = [w_scan ''aa1'' 5, w_scan ''aa2'' 95]" by (simp add: b0)
    moreover have "u64 (sum_list (map scan_bytes [w_scan ''aa1'' 5, w_scan ''aa2'' 95])) = 0" by (simp add: b0)
    moreover have "needEvict c st0" by (simp add: needEvict_def c st0_def)
    ultimately show ?thesis unfolding assms(3) evict_pass_def sc(1) prod.case Let_def c_def [symmetric] st0_def by (simp only: if_True)
  qed
  obtain pin io2 where p: "pinned_now io1 (w_scan ''aa1'' 5) = (pin, io2)" by fastforce
  have "pin_fresh io1 (w_scan ''aa1'' 5)"
  proof -
    have "flags (header (serialize (w_meta 5))) = 0"
      using header_serialize [OF w_meta_ok [of 5]] image0_header(3) [OF w_meta_ok [of 5]] by simp
    then show ?thesis using store_eq_file_at [OF sc(3)] w_files_at by (simp add: pin_fresh_def w_scan_def)
  qed
  then have np: "\<not> pin" using pinned_now_false [OF p] b0 by blast
  have q2: "io_sched io2 = []" "store_eq io1 io2"
    using meta_load_sched [OF sc(2), of "ms_metaPath (w_scan ''aa1'' 5)"] p pinned_now_store_eq [OF p] by (auto simp: pinned_now_def split: prod.splits option.splits)
  have d: "ms_dataPath (w_scan ''aa1'' 5) = ''c/objects/aa/aa1.data''" by (simp add: w_scan_def)
  obtain ok io3 where r: "remove_entry (w_scan ''aa1'' 5) io2 = (ok, io3)" by fastforce
  have ok: "ok" using remove_entry_ok [OF q2(1), of "w_scan ''aa1'' 5"] r d store_eq_file_at [OF store_eq_trans [OF sc(3) q2(2)]] w_files_at by simp
  have e1: "evict_one c (w_scan ''aa1'' 5) st0 = st0\<lparr>ev_gone := [w_scan ''aa1'' 5], ev_io := io3\<rparr>"
    by (simp add: evict_one_def b0 c st0_def p np r ok)
  have "st = st0\<lparr>ev_gone := [w_scan ''aa1'' 5], ev_io := io3, ev_saw := True\<rparr>"
    unfolding st by (simp add: e1) (simp add: needEvict_def c st0_def evict_one_def b0)
  then show ?thesis using remove_entry_quiet [OF r q2(1)] d by (simp add: st0_def c_def [symmetric] needEvict_def c)
qed

definition w_cs :: cacheStore where
  "w_cs = \<lparr>cs_cfg = w_cfg, cs_lastEvictCheckS = 0, cs_approxUsage = 0, cs_lastEvictEvicted = 0, cs_admissionBlocked = False, cs_evictedEntries = 0, cs_evictedBytes = 0,
     cs_orphansSwept = 0, cs_admissionsBypassed = 0\<rparr>"

lemma w_lock:
  assumes "io_sched io = []" and "io_names io = w_names"
  shows "\<exists>io1. io_open io (lock_path w_cfg) True False = (int (io_next io), io1) \<and> io_call io1 = (0, io1) \<and> io_sched io1 = [] \<and> store_eq io io1"
proof -
  have "map_of (io_names io) (lock_path w_cfg) = Some 1" by (simp add: assms(2) w_names_def lock_path_def w_cfg_def)
  then show ?thesis using assms(1) by (simp add: io_open_def io_call_def store_eq_def content_def Let_def)
qed

lemma w_evicted:
  "\<exists>cs' io'. evictNow w_cs (Some (5, 1000)) 100 (\<lambda>_. 0) [] (\<lambda>io. io) w_io = (1, cs', io') \<and> cs_admissionBlocked cs' \<and>
     io_sched (scan_start w_cfg (\<lambda>io. io) w_io) = [] \<and> store_eq w_io (scan_start w_cfg (\<lambda>io. io) w_io) \<and> file_at io' ''c/objects/aa/aa1.data'' = None"
proof -
  obtain io1 where l: "io_open w_io (lock_path w_cfg) True False = (int (io_next w_io), io1)" "io_call io1 = (0, io1)" "io_sched io1 = []" "store_eq w_io io1"
    using w_lock [of w_io] by (auto simp: w_io_def)
  define st where "st = evict_pass w_cfg (Some (5, 1000)) 100 [] io1"
  note P = w_pass [OF l(3,4) st_def]
  obtain k io3 where sw: "sweepReplicaOrphans w_cfg (\<lambda>_. 0) 100 (ev_io st) = (k, io3)" by fastforce
  obtain cs' io' where e: "evictNow w_cs (Some (5, 1000)) 100 (\<lambda>_. 0) [] (\<lambda>io. io) w_io = (1, cs', io')" "cs_admissionBlocked cs'"
    "io' = snd (io_close (snd (io_call io3)) (io_next w_io))"
    using P l sw by (simp add: evictNow_def Let_def w_cs_def st_def [symmetric])
  have "store_eq io3 io'" unfolding e(3) using store_eq_trans [OF call_store_eq close_store_eq] by (metis surjective_pairing)
  then have "swept w_cfg (\<lambda>_. 0) 100 (ev_io st) io'" using swept_trans [OF sweep_swept [OF sw] store_eq_swept] by blast
  then have "file_at io' ''c/objects/aa/aa1.data'' = None" using P unfolding swept_def spares_def by metis
  then show ?thesis using e(1,2) l by (simp add: scan_start_def)
qed

theorem eviction_spares_protected_witness:
  "\<exists>cs' io'. evictNow w_cs (Some (5, 1000)) 100 (\<lambda>_. 0) [] (\<lambda>io. io) w_io = (1, cs', io') \<and>
     (\<exists>s\<in>set (fst (scanObjects w_cfg False (scan_start w_cfg (\<lambda>io. io) w_io))). ms_atime s + 10 < 100 \<and> ''c/objects/aa/aa1.data'' \<in> set (files_of s))"
proof -
  obtain cs' io' where e: "evictNow w_cs (Some (5, 1000)) 100 (\<lambda>_. 0) [] (\<lambda>io. io) w_io = (1, cs', io')"
    "store_eq w_io (scan_start w_cfg (\<lambda>io. io) w_io)" "file_at io' ''c/objects/aa/aa1.data'' = None" using w_evicted by blast
  have ch: "file_at io' ''c/objects/aa/aa1.data'' \<noteq> file_at (scan_start w_cfg (\<lambda>io. io) w_io) ''c/objects/aa/aa1.data''"
    using e(3) store_eq_file_at [OF e(2)] w_files_at by simp
  have cfg: "w_cfg = cs_cfg w_cs" by (simp add: w_cs_def)
  have art: "artifact_of ''aa1.data'' = None" using entry_name_no_artifact [of "''aa1''" "''.data''"] by simp
  note E = eviction_spares_protected [OF e(1) _ cfg refl ch]
  have no: False if "''c/objects/aa/aa1.data'' = objects_of w_cfg @ ''/'' @ sh @ ''/'' @ f" "artifact_of f = Some (h, d)" for sh f h d
  proof -
    have "''aa'' @ ''/'' @ ''aa1.data'' = sh @ ''/'' @ f" using that(1) by (simp add: objects_of_def w_cfg_def)
    then obtain u where "''aa/aa1.data'' = sh @ CHR ''/'' # f" by simp
    then have "f = ''aa1.data''" by (auto simp: append_eq_Cons_conv Cons_eq_append_conv)
    then show False using that(2) art by simp
  qed
  show ?thesis using E no e(1) by (auto simp: w_cfg_def)
qed

theorem eviction_oldest_first_witness:
  "ev_gone (evict_pass w_cfg (Some (5, 1000)) 100 [] w_io) = [w_scan ''aa1'' 5] \<and>
   (\<exists>k. subseq [w_scan ''aa1'' 5] (take k [w_scan ''aa1'' 5, w_scan ''aa2'' 95]))"
proof -
  have q: "io_sched w_io = []" "store_eq w_io w_io" by (simp_all add: w_io_def)
  obtain io1 where sc: "scanObjects w_cfg False w_io = ([w_scan ''aa1'' 5, w_scan ''aa2'' 95], io1)" using w_scanned [OF q] by blast
  have g: "ev_gone (evict_pass w_cfg (Some (5, 1000)) 100 [] w_io) = [w_scan ''aa1'' 5]" using w_pass [OF q refl] by blast
  have "avail_of w_cfg (Some (5, 1000)) < 2 ^ 64" by (simp add: avail_of_def w_cfg_def)
  moreover have "sort_key ms_atime [w_scan ''aa1'' 5, w_scan ''aa2'' 95] = [w_scan ''aa1'' 5, w_scan ''aa2'' 95]" by (simp add: w_scan_def)
  ultimately show ?thesis using eviction_oldest_first [OF sc _ refl refl refl, of "Some (5, 1000)" 100 "[]"] g by auto
qed

text \<open>The admission latch is set after a pass that removed an entry. The comment above it says that a pass that frees something re-opens
  admission; the code sets the latch whenever the need is unmet and some entry was found protected, however many entries the same pass
  removed. Here the pass removes the only evictable entry, meets a protected one, and closes admission.\<close>

theorem blocked_although_freed:
  "\<exists>cs' io'. evictNow w_cs (Some (5, 1000)) 100 (\<lambda>_. 0) [] (\<lambda>io. io) w_io = (1, cs', io') \<and> cs_admissionBlocked cs'"
  using w_evicted by blast

section \<open>A pinned entry\<close>

lemma w_pin:
  assumes "mp = metaPath ''c'' ''aa1''" and "dp = dataPath ''c'' ''aa1''"
  shows "mp = ''c/objects/aa/aa1.meta''" "dp = ''c/objects/aa/aa1.data''"
  using assms by (simp_all add: metaPath_def dataPath_def objectDir_def)

lemma w_pinned: "fst (setPinnedByKey w_cfg ''aa1'' True w_io)"
proof -
  define mp where "mp = metaPath ''c'' ''aa1''"
  define dp where "dp = dataPath ''c'' ''aa1''"
  note pa = w_pin [OF mp_def dp_def]
  have q: "io_sched w_io = []" "io_ok w_io" by (simp_all add: w_io_def w_names_def io_ok_def)
  have cd: "c_cacheDir w_cfg = ''c''" by (simp add: w_cfg_def)
  define io1 where "io1 = w_io\<lparr>io_fds := AList.update (io_next w_io) 2 (io_fds w_io), io_next := Suc (io_next w_io)\<rparr>"
  have m2: "map_of (io_names w_io) dp = Some 2" by (simp add: pa w_io_def w_names_def)
  then have op: "io_open w_io dp False False = (int (io_next w_io), io1)" using q by (simp add: io_open_def io1_def Let_def)
  have ok1: "io_ok io1" by (rule open_ok [OF op q(2)])
  have q1: "io_sched io1 = []" "io_call io1 = (0, io1)" using q(1) by (simp_all add: io1_def io_call_def)
  have nl: "io_fstat_nlink io1 (io_next w_io) = (Inr (nlink io1 2), io1)" using q1(1) by (simp add: io_fstat_nlink_def io1_def AList.update_conv')
  have n2: "nlink io1 2 \<noteq> 0" by (simp add: nlink_def io1_def w_io_def w_names_def)
  have f1: "file_at io1 mp = Some (serialize (w_meta 5))" using w_files_at(1) by (simp add: pa file_at_def io1_def content_def)
  have im: "deserialize (serialize (w_meta 5)) = Some (w_meta 5)" "length (serialize (w_meta 5)) \<le> 2 ^ 31" using w_image [of 5] by simp_all
  obtain r io2 where l: "meta_load io1 mp = (r, io2)" by fastforce
  have "0 < length (serialize (w_meta 5))" using deserialize_SomeD(1) [OF im(1)] by linarith
  then have r: "r = Some (w_meta 5)" using meta_load_quiet [OF q1(1) f1] im l by simp
  have s2: "io_sched io2 = []" using meta_load_sched [OF q1(1), of mp] l by simp
  have "data_held mp (io_next w_io) 2 io1"
    using ok1 by (simp add: data_held_def pa tmp_private_def io1_def w_io_def w_names_def)
  then have ok2: "io_ok io2" using meta_load_keeps [OF l, of mp "io_next w_io" 2] by (simp add: keeps_def data_held_def)
  show ?thesis
    using meta_store_quiet [OF s2 ok2, of mp "(w_meta 5)\<lparr>flags := kFlagPinned\<rparr>" "c_fsync w_cfg = kAll"] op q1 nl n2 l r
    by (auto simp: setPinnedByKey_def cd mp_def [symmetric] dp_def [symmetric] Let_def split: prod.splits)
qed


end
