(* ===== verification/Cache_Cleanup.thy ===== *)
theory Cache_Cleanup
  imports Cache_Sample
begin

text \<open>
  The criterion-based cleanup of the cache store: which entries it selects in each mode, that it removes nothing else, and that
  shrinking to a size reaches it unless only protected entries are left.
\<close>

section \<open>Victims\<close>

lemma subseq_set: "subseq xs ys \<Longrightarrow> set xs \<subseteq> set ys"
  by (induction rule: list_emb.induct) auto

definition shielded :: "string list \<Rightarrow> bool \<Rightarrow> metaScan \<Rightarrow> bool" where
  "shielded live keepPinned s \<longleftrightarrow> ms_hashHex s \<in> set live \<or> keepPinned \<and> ms_pinned s"

lemma protectedEntry_spec:
  assumes "protectedEntry live kp s io = (p, io')"
  shows "store_eq io io' \<and> (shielded live kp s \<longrightarrow> p) \<and> (pin_fresh io s \<longrightarrow> p = shielded live kp s)"
proof -
  obtain pin io1 where n: "pinned_now io s = (pin, io1)" by fastforce
  show ?thesis using assms pinned_now_store_eq [OF n] pinned_now_false [OF n] by (auto simp: protectedEntry_def shielded_def n split: if_splits)
qed

lemma pin_fresh_store_eq: "store_eq a b \<Longrightarrow> pin_fresh b s = pin_fresh a s"
  using store_eq_file_at [of a b] by (simp add: pin_fresh_def)

lemma victims_to_size_spec:
  "victims_to_size live kp arg tot ss io = (vs, io') \<Longrightarrow>
     store_eq io io' \<and> subseq vs ss \<and> (\<forall>v\<in>set vs. \<not> shielded live kp v) \<and>
     ((\<forall>s\<in>set ss. pin_fresh io s) \<longrightarrow> tot - sum_list (map scan_bytes vs) \<le> arg \<or> (\<forall>s\<in>set ss. s \<in> set vs \<or> shielded live kp s)) \<and>
     (vs \<noteq> [] \<longrightarrow> arg < tot - sum_list (map scan_bytes (butlast vs)))"
proof (induction ss arbitrary: tot io vs io')
  case Nil
  then show ?case by simp
next
  case (Cons s ss)
  show ?case
  proof (cases "tot \<le> arg")
    case True
    then show ?thesis using Cons.prems by simp
  next
    case False
    obtain p io1 where pe: "protectedEntry live kp s io = (p, io1)" by fastforce
    note P = protectedEntry_spec [OF pe]
    have pf: "pin_fresh io x = pin_fresh io1 x" for x using pin_fresh_store_eq P by blast
    show ?thesis
    proof (cases p)
      case True
      then have "victims_to_size live kp arg tot ss io1 = (vs, io')" using Cons.prems False pe by simp
      note I = Cons.IH [OF this]
      show ?thesis using I P True store_eq_trans [of io io1 io'] by (auto simp: pf list_emb_Cons)
    next
      case np: False
      obtain ws io2 where w: "victims_to_size live kp arg (tot - min tot (scan_bytes s)) ss io1 = (ws, io2)" by fastforce
      have m: "tot - min tot (scan_bytes s) = tot - scan_bytes s" by simp
      note I = Cons.IH [OF w, unfolded m]
      have v: "vs = s # ws" "io' = io2" using Cons.prems False pe np w by simp_all
      have l: "arg < tot - sum_list (map scan_bytes (butlast (s # ws)))" using I False by (cases "ws = []") (simp_all add: diff_diff_left)
      show ?thesis using I P np store_eq_trans [of io io1 io2] l unfolding v by (auto simp: pf diff_diff_left)
    qed
  qed
qed

definition in_window :: "cleanupMode \<Rightarrow> nat \<Rightarrow> metaScan \<Rightarrow> bool" where
  "in_window mode cutoff s \<longleftrightarrow> (mode = KOlderThan \<longrightarrow> ms_atime s < cutoff) \<and> (mode = KNewerThan \<longrightarrow> cutoff \<le> ms_atime s)"

lemma victims_by_age_spec:
  "victims_by_age live kp mode cutoff ss io = (vs, io') \<Longrightarrow>
     store_eq io io' \<and> (\<forall>v\<in>set vs. v \<in> set ss \<and> \<not> shielded live kp v \<and> in_window mode cutoff v) \<and>
     ((\<forall>s\<in>set ss. pin_fresh io s) \<longrightarrow> vs = filter (\<lambda>s. \<not> shielded live kp s \<and> in_window mode cutoff s) ss)"
proof (induction ss arbitrary: io vs io')
  case Nil
  then show ?case by simp
next
  case (Cons s ss)
  obtain p io1 where pe: "protectedEntry live kp s io = (p, io1)" by fastforce
  obtain ws io2 where w: "victims_by_age live kp mode cutoff ss io1 = (ws, io2)" by fastforce
  note P = protectedEntry_spec [OF pe] and I = Cons.IH [OF w]
  have pf: "pin_fresh io x = pin_fresh io1 x" for x using pin_fresh_store_eq P by blast
  have v: "vs = (if p \<or> \<not> in_window mode cutoff s then ws else s # ws)" "io' = io2"
    using Cons.prems pe w by (auto simp: in_window_def)
  have e: "store_eq io io2" using I P store_eq_trans by blast
  have a: "v \<in> set (s # ss) \<and> \<not> shielded live kp v \<and> in_window mode cutoff v" if "v \<in> set vs" for v
    using that I P unfolding v(1) by (cases "p \<or> \<not> in_window mode cutoff s") auto
  have b: "vs = filter (\<lambda>s. \<not> shielded live kp s \<and> in_window mode cutoff s) (s # ss)" if "\<forall>x\<in>set (s # ss). pin_fresh io x"
  proof -
    have "\<forall>x\<in>set ss. pin_fresh io1 x" using that pf by auto
    then have "ws = filter (\<lambda>s. \<not> shielded live kp s \<and> in_window mode cutoff s) ss" using I by blast
    moreover have "p = shielded live kp s" using P that by simp
    ultimately show ?thesis unfolding v(1) by simp
  qed
  show ?case using e a b unfolding v(2) by blast
qed

lemma select_victims_spec:
  assumes "select_victims mode arg kp live now ss io = (vs, io')"
  shows "store_eq io io' \<and> (\<forall>v\<in>set vs. v \<in> set ss \<and> \<not> shielded live kp v \<and> in_window mode (now - arg) v)"
proof (cases "mode = KToSize")
  case True
  then have "victims_to_size live kp arg (u64 (sum_list (map scan_bytes ss))) (sort_key ms_atime ss) io = (vs, io')" using assms by (simp add: select_victims_def)
  note V = victims_to_size_spec [OF this]
  then have "set vs \<subseteq> set (sort_key ms_atime ss)" using subseq_set by blast
  then have "v \<in> set ss" if "v \<in> set vs" for v using that by auto
  moreover have "in_window mode x v" for x v using True by (simp add: in_window_def)
  ultimately show ?thesis using V by blast
next
  case False
  have "(if now > arg then now - arg else 0) = now - arg" by simp
  then show ?thesis using assms False victims_by_age_spec [of live kp mode "now - arg" ss io vs io'] by (simp add: select_victims_def)
qed

section \<open>Removal\<close>

lemma remove_victims_spares:
  "remove_victims ss io = (gone, io') \<Longrightarrow> (\<And>s q. s \<in> set ss \<Longrightarrow> q \<in> set (files_of s) \<Longrightarrow> P q) \<Longrightarrow> spares P io io' \<and> subseq gone ss"
proof (induction ss arbitrary: io gone io')
  case Nil
  then show ?case by (simp add: spares_def)
next
  case (Cons s ss)
  obtain ok io1 where r: "remove_entry s io = (ok, io1)" by fastforce
  obtain g io2 where g: "remove_victims ss io1 = (g, io2)" by fastforce
  have "spares P io io1" by (rule remove_entry_spares [OF r]) (use Cons.prems in auto)
  moreover have "spares P io1 io2 \<and> subseq g ss" by (rule Cons.IH [OF g]) (use Cons.prems in auto)
  moreover have "gone = (if ok then s # g else g)" "io' = io2" using Cons.prems(1) r g by simp_all
  ultimately show ?case using spares_trans by (auto simp: list_emb_Cons)
qed

text \<open>The state after the selection and the removal, before the sweep.\<close>

lemma cleanup_spares:
  assumes "cleanup cs mode arg kp dry now mtimeS live flush io = ((True, gone), cs', io')" and "cfg = cs_cfg cs" and "io0 = scan_start cfg flush io"
    and "scanObjects cfg False io0 = (ss, io1)"
  shows "spares (\<lambda>q. \<not> dry \<and> ((\<exists>s\<in>set ss. \<not> shielded live kp s \<and> in_window mode (now - arg) s \<and> q \<in> set (files_of s)) \<or> sweepable cfg mtimeS now io' q)) io0 io' \<and>
    (\<forall>s\<in>set gone. s \<in> set ss \<and> \<not> shielded live kp s \<and> in_window mode (now - arg) s)"
    (is "spares ?P io0 io' \<and> _")
proof -
  obtain fd a where op: "io_open io (lock_path cfg) True False = (fd, a)" by fastforce
  obtain rc b where fl: "io_call a = (rc, b)" by fastforce
  have io0: "io0 = flush b" by (simp add: assms(3) scan_start_def op fl)
  obtain vs io2 where se: "select_victims mode arg kp live now ss io1 = (vs, io2)" by fastforce
  note S = select_victims_spec [OF se]
  obtain g io3 where rm: "remove_victims vs io2 = (g, io3)" by fastforce
  obtain k io4 where sw: "sweepReplicaOrphans cfg mtimeS now io3 = (k, io4)" by fastforce
  obtain u io5 where us: "usageBytes cfg io4 = (u, io5)" by fastforce
  have locked: "\<not> fd < 0 \<and> \<not> rc < 0" using assms(1) by (auto simp: cleanup_def Let_def assms(2) [symmetric] op fl split: if_splits prod.splits)
  have e01: "store_eq io0 io1" using scanObjects_spec [OF assms(4)] by blast
  have e02: "store_eq io0 io2" using store_eq_trans [OF e01] S by blast
  have fin: "store_eq x (snd (io_close (snd (io_call x)) (nat fd)))" for x using store_eq_trans [OF call_store_eq close_store_eq] by (metis surjective_pairing)
  show ?thesis
  proof (cases dry)
    case True
    then have "gone = vs" "io' = snd (io_close (snd (io_call io2)) (nat fd))"
      using assms(1,4) locked se by (simp_all add: cleanup_def Let_def assms(2) [symmetric] op fl io0)
    then show ?thesis using S store_eq_spares [OF store_eq_trans [OF e02 fin]] by auto
  next
    case False
    then have gi: "gone = g" "io' = snd (io_close (snd (io_call io5)) (nat fd))"
      using assms(1,4) locked se rm sw us by (simp_all add: cleanup_def Let_def assms(2) [symmetric] op fl io0)
    obtain ts c where sc: "scanObjects cfg False io4 = (ts, c)" by fastforce
    have e45: "store_eq io4 io5" using us sc scanObjects_spec [OF sc] by (simp add: usageBytes_def)
    have e4: "store_eq io4 io'" unfolding gi(2) by (rule store_eq_trans [OF e45 fin])
    have sw3: "spares (sweepable cfg mtimeS now io') io3 io'" using swept_trans [OF sweep_swept [OF sw] store_eq_swept [OF e4]] unfolding swept_def .
    have R: "spares ?P io2 io3 \<and> subseq g vs" by (rule remove_victims_spares [OF rm]) (use S False in auto)
    have "spares ?P io3 io'" by (rule spares_mono [OF sw3]) (use False in auto)
    then have "spares ?P io0 io'" using spares_trans [OF store_eq_spares [OF e02] spares_trans] R by blast
    moreover have "set g \<subseteq> set vs" using R subseq_set by blast
    ultimately show ?thesis using S gi(1) by blast
  qed
qed

text \<open>C12. A cleanup that got the lock only ever removes files, and none in a dry run: those of entries its scan saw not open in the process, not pinned when pins are kept,
  and on the asked side of the age limit (last read before it for the stale ones, at or after it for the recent ones), and old artifacts without a
  sidecar. Every other file keeps its bytes, whatever calls fail.\<close>

theorem cleanup_removes_only_matches:
  assumes "cleanup cs mode arg kp dry now mtimeS live flush io = ((True, gone), cs', io')" and "cfg = cs_cfg cs" and "io0 = scan_start cfg flush io"
    and "scanObjects cfg False io0 = (ss, io1)" and "file_at io' q \<noteq> file_at io0 q"
  shows "\<not> dry \<and> file_at io' q = None \<and>
    ((\<exists>s\<in>set ss. ms_hashHex s \<notin> set live \<and> (kp \<longrightarrow> \<not> ms_pinned s) \<and> (mode = KOlderThan \<longrightarrow> ms_atime s < now - arg) \<and>
        (mode = KNewerThan \<longrightarrow> now - arg \<le> ms_atime s) \<and> q \<in> set (files_of s)) \<or>
     sweepable cfg mtimeS now io' q)"
proof -
  have "shielded live kp s = (ms_hashHex s \<in> set live \<or> kp \<and> ms_pinned s)"
    "in_window mode x s = ((mode = KOlderThan \<longrightarrow> ms_atime s < x) \<and> (mode = KNewerThan \<longrightarrow> x \<le> ms_atime s))" for s x
    by (simp_all add: shielded_def in_window_def)
  then show ?thesis using cleanup_spares [OF assms(1-4)] assms(5) unfolding spares_def by metis
qed

lemma remove_victims_quiet:
  "remove_victims ss io = (gone, io') \<Longrightarrow> io_sched io = [] \<Longrightarrow> \<forall>s\<in>set ss. file_at io' (ms_dataPath s) = None"
proof (induction ss arbitrary: io gone io')
  case Nil
  then show ?case by simp
next
  case (Cons s ss)
  obtain ok io1 where r: "remove_entry s io = (ok, io1)" by fastforce
  obtain g io2 where g: "remove_victims ss io1 = (g, io2)" by fastforce
  note R = remove_entry_quiet [OF r Cons.prems(2)]
  have "spares (\<lambda>_. True) io1 io2" by (rule conjunct1 [OF remove_victims_spares [OF g]]) simp
  then have "file_at io2 (ms_dataPath s) = None" using R unfolding spares_def by metis
  moreover have "io' = io2" using Cons.prems(1) r g by simp
  ultimately show ?case using Cons.IH [OF g] R by auto
qed

lemma victims_by_age_sched: "io_sched io = [] \<Longrightarrow> io_sched (snd (victims_by_age live kp mode cutoff ss io)) = []"
proof (induction ss arbitrary: io)
  case Nil
  then show ?case by simp
next
  case (Cons s ss)
  obtain p io1 where pe: "protectedEntry live kp s io = (p, io1)" by fastforce
  obtain m io2 where l: "meta_load io (ms_metaPath s) = (m, io2)" by fastforce
  have q: "io_sched io2 = []" using meta_load_sched [OF Cons.prems, of "ms_metaPath s"] l by simp
  have "snd (pinned_now io s) = io2" by (cases m) (simp_all add: pinned_now_def l)
  moreover have "snd (protectedEntry live kp s io) \<in> {io, snd (pinned_now io s)}" by (simp add: protectedEntry_def)
  ultimately have "io_sched io1 = []" using pe q Cons.prems by (metis insertE singletonD snd_conv)
  note I = Cons.IH [OF this]
  obtain ws io3 where w: "victims_by_age live kp mode cutoff ss io1 = (ws, io3)" by fastforce
  show ?case using I by (simp add: pe w)
qed

theorem cleanup_removes_only_matches_witness:
  "\<exists>gone cs' io'. cleanup w_cs KOlderThan 10 True False 100 (\<lambda>_. 0) [] (\<lambda>io. io) w_io = ((True, gone), cs', io') \<and>
     file_at io' ''c/objects/aa/aa1.data'' = None \<and> file_at w_io ''c/objects/aa/aa1.data'' = Some []"
proof -
  obtain a where l: "io_open w_io (lock_path w_cfg) True False = (int (io_next w_io), a)" "io_call a = (0, a)" "io_sched a = []" "store_eq w_io a"
    using w_lock [of w_io] by (auto simp: w_io_def)
  obtain io1 where sc: "scanObjects w_cfg False a = ([w_scan ''aa1'' 5, w_scan ''aa2'' 95], io1)" "io_sched io1 = []" "store_eq w_io io1"
    using w_scanned [OF l(3,4)] by blast
  obtain vs io2 where se: "select_victims KOlderThan 10 True [] 100 [w_scan ''aa1'' 5, w_scan ''aa2'' 95] io1 = (vs, io2)" by fastforce
  then have v: "victims_by_age [] True KOlderThan 90 [w_scan ''aa1'' 5, w_scan ''aa2'' 95] io1 = (vs, io2)" by (simp add: select_victims_def)
  have q2: "io_sched io2 = []" using victims_by_age_sched [OF sc(2)] v by (metis snd_conv)
  have "flags (header (serialize (w_meta t))) = 0" if "t < 2 ^ 64" for t
    using header_serialize [OF w_meta_ok [OF that]] image0_header(3) [OF w_meta_ok [OF that]] by simp
  then have "\<forall>s\<in>set [w_scan ''aa1'' 5, w_scan ''aa2'' 95]. pin_fresh io1 s"
    using store_eq_file_at [OF sc(3)] w_files_at by (simp add: pin_fresh_def w_scan_def)
  then have "vs = filter (\<lambda>s. \<not> shielded [] True s \<and> in_window KOlderThan 90 s) [w_scan ''aa1'' 5, w_scan ''aa2'' 95]" using victims_by_age_spec [OF v] by blast
  then have vs: "vs = [w_scan ''aa1'' 5]" by (simp add: shielded_def in_window_def w_scan_def)
  obtain g io3 where rm: "remove_victims vs io2 = (g, io3)" by fastforce
  have n3: "file_at io3 ''c/objects/aa/aa1.data'' = None" using remove_victims_quiet [OF rm q2] by (simp add: vs w_scan_def)
  obtain k io4 where sw: "sweepReplicaOrphans w_cfg (\<lambda>_. 0) 100 io3 = (k, io4)" by fastforce
  obtain u io5 where us: "usageBytes w_cfg io4 = (u, io5)" by fastforce
  obtain ts c where sc4: "scanObjects w_cfg False io4 = (ts, c)" by fastforce
  obtain gone cs' io' where e: "cleanup w_cs KOlderThan 10 True False 100 (\<lambda>_. 0) [] (\<lambda>io. io) w_io = ((True, gone), cs', io')"
    "io' = snd (io_close (snd (io_call io5)) (io_next w_io))"
    using l sc(1) se rm sw us by (simp add: cleanup_def Let_def w_cs_def)
  have "store_eq io4 io5" using us sc4 scanObjects_spec [OF sc4] by (simp add: usageBytes_def)
  then have "store_eq io4 io'" unfolding e(2) using store_eq_trans store_eq_trans [OF call_store_eq close_store_eq] by (metis surjective_pairing)
  then have "swept w_cfg (\<lambda>_. 0) 100 io3 io'" using swept_trans [OF sweep_swept [OF sw] store_eq_swept] by blast
  then have n: "file_at io' ''c/objects/aa/aa1.data'' = None" using n3 unfolding swept_def spares_def by metis
  have ss: "scan_start w_cfg (\<lambda>io. io) w_io = a" using l by (simp add: scan_start_def)
  have ch: "file_at io' ''c/objects/aa/aa1.data'' \<noteq> file_at a ''c/objects/aa/aa1.data''" using n store_eq_file_at [OF l(4)] w_files_at by simp
  have "w_cfg = cs_cfg w_cs" by (simp add: w_cs_def)
  from cleanup_removes_only_matches [OF e(1) this ss [symmetric] sc(1) ch] show ?thesis using e(1) w_files_at by blast
qed

text \<open>Shrinking to a size selects the least recently read entries, in that order, until the total of the scan less the selected entries is at most the size asked for;
  only when every entry is selected, open in the process or pinned with pins kept may it stay above; and without the last selected entry the total would still
  have been above.\<close>

theorem cleanup_to_size_reaches:
  assumes "scanObjects cfg False io = (ss, io1)" and "select_victims KToSize arg kp live now ss io1 = (vs, io2)" and "tot = u64 (sum_list (map scan_bytes ss))"
  shows "subseq vs (sort_key ms_atime ss) \<and>
    (tot - sum_list (map scan_bytes vs) \<le> arg \<or> (\<forall>s\<in>set ss. s \<in> set vs \<or> ms_hashHex s \<in> set live \<or> kp \<and> ms_pinned s)) \<and>
    (vs \<noteq> [] \<longrightarrow> arg < tot - sum_list (map scan_bytes (butlast vs)))"
proof -
  have "\<forall>s\<in>set (sort_key ms_atime ss). pin_fresh io1 s"
    using scanObjects_spec [OF assms(1)] store_eq_file_at [of io io1] by (fastforce simp: scan_ok_def pin_fresh_def)
  moreover have "victims_to_size live kp arg tot (sort_key ms_atime ss) io1 = (vs, io2)" using assms(2,3) by (simp add: select_victims_def)
  ultimately show ?thesis using victims_to_size_spec by (fastforce simp: shielded_def)
qed

theorem cleanup_to_size_reaches_witness:
  "\<exists>io1 vs io2. scanObjects w_cfg False w_io = ([w_scan ''aa1'' 5, w_scan ''aa2'' 95], io1) \<and>
     select_victims KToSize 0 True [''aa2''] 100 [w_scan ''aa1'' 5, w_scan ''aa2'' 95] io1 = (vs, io2) \<and> subseq vs [w_scan ''aa1'' 5, w_scan ''aa2'' 95]"
proof -
  have q: "io_sched w_io = []" "store_eq w_io w_io" by (simp_all add: w_io_def)
  obtain io1 where sc: "scanObjects w_cfg False w_io = ([w_scan ''aa1'' 5, w_scan ''aa2'' 95], io1)" using w_scanned [OF q] by blast
  obtain vs io2 where se: "select_victims KToSize 0 True [''aa2''] 100 [w_scan ''aa1'' 5, w_scan ''aa2'' 95] io1 = (vs, io2)" by fastforce
  have "sort_key ms_atime [w_scan ''aa1'' 5, w_scan ''aa2'' 95] = [w_scan ''aa1'' 5, w_scan ''aa2'' 95]" by (simp add: w_scan_def)
  then show ?thesis using cleanup_to_size_reaches [OF sc se refl] sc se by auto
qed

end
