(* ===== verification/Sha256.thy ===== *)
theory Sha256
  imports Prelude
begin

text \<open>
  The vendored SHA-256 (\<^verbatim>\<open>src/src/core/vendor/sha256.cc\<close>) that names the objects of the cache. The routine hashes the full blocks in place and
  builds one or two tail blocks in a zeroed buffer; it is shown to be the standard's fold of the compression function over the padded message.
\<close>

unbundle bit_operations_syntax

section \<open>The compression function\<close>

text \<open>The constants, row by row as the source lists them.\<close>

definition sha_K :: "u32 list" where
  "sha_K = concat
    [[0x428a2f98, 0x71374491, 0xb5c0fbcf, 0xe9b5dba5, 0x3956c25b, 0x59f111f1, 0x923f82a4],
     [0xab1c5ed5, 0xd807aa98, 0x12835b01, 0x243185be, 0x550c7dc3, 0x72be5d74, 0x80deb1fe],
     [0x9bdc06a7, 0xc19bf174, 0xe49b69c1, 0xefbe4786, 0x0fc19dc6, 0x240ca1cc, 0x2de92c6f],
     [0x4a7484aa, 0x5cb0a9dc, 0x76f988da, 0x983e5152, 0xa831c66d, 0xb00327c8, 0xbf597fc7],
     [0xc6e00bf3, 0xd5a79147, 0x06ca6351, 0x14292967, 0x27b70a85, 0x2e1b2138, 0x4d2c6dfc],
     [0x53380d13, 0x650a7354, 0x766a0abb, 0x81c2c92e, 0x92722c85, 0xa2bfe8a1, 0xa81a664b],
     [0xc24b8b70, 0xc76c51a3, 0xd192e819, 0xd6990624, 0xf40e3585, 0x106aa070, 0x19a4c116],
     [0x1e376c08, 0x2748774c, 0x34b0bcb5, 0x391c0cb3, 0x4ed8aa4a, 0x5b9cca4f, 0x682e6ff3],
     [0x748f82ee, 0x78a5636f, 0x84c87814, 0x8cc70208, 0x90befffa, 0xa4506ceb, 0xbef9a3f7],
     [0xc67178f2]]"

definition rotr :: "u32 \<Rightarrow> nat \<Rightarrow> u32" where
  "rotr x n = drop_bit n x OR push_bit (32 - n) x"

definition block_word :: "bytes \<Rightarrow> nat \<Rightarrow> u32" where
  "block_word block i =
     push_bit 24 (ucast (block ! (4 * i))) OR push_bit 16 (ucast (block ! (4 * i + 1))) OR
     push_bit 8 (ucast (block ! (4 * i + 2))) OR ucast (block ! (4 * i + 3))"

definition schedule_next :: "u32 list \<Rightarrow> nat \<Rightarrow> u32" where
  "schedule_next w i =
     (let s0 = rotr (w ! (i - 15)) 7 XOR rotr (w ! (i - 15)) 18 XOR drop_bit 3 (w ! (i - 15));
          s1 = rotr (w ! (i - 2)) 17 XOR rotr (w ! (i - 2)) 19 XOR drop_bit 10 (w ! (i - 2))
      in w ! (i - 16) + s0 + w ! (i - 7) + s1)"

definition sha_schedule :: "bytes \<Rightarrow> u32 list" where
  "sha_schedule block = fold (\<lambda>i w. w @ [schedule_next w i]) [16..<64] (map (block_word block) [0..<16])"

record sha_state =
  sha_a :: u32
  sha_b :: u32
  sha_c :: u32
  sha_d :: u32
  sha_e :: u32
  sha_f :: u32
  sha_g :: u32
  sha_h :: u32

definition sha_round :: "u32 list \<Rightarrow> nat \<Rightarrow> sha_state \<Rightarrow> sha_state" where
  "sha_round w i s =
     (let s1 = rotr (sha_e s) 6 XOR rotr (sha_e s) 11 XOR rotr (sha_e s) 25;
          ch = (sha_e s AND sha_f s) XOR (NOT (sha_e s) AND sha_g s);
          t1 = sha_h s + s1 + ch + sha_K ! i + w ! i;
          s0 = rotr (sha_a s) 2 XOR rotr (sha_a s) 13 XOR rotr (sha_a s) 22;
          maj = (sha_a s AND sha_b s) XOR (sha_a s AND sha_c s) XOR (sha_b s AND sha_c s);
          t2 = s0 + maj
      in \<lparr>sha_a = t1 + t2, sha_b = sha_a s, sha_c = sha_b s, sha_d = sha_c s,
          sha_e = sha_d s + t1, sha_f = sha_e s, sha_g = sha_f s, sha_h = sha_g s\<rparr>)"

definition sha_compress :: "sha_state \<Rightarrow> bytes \<Rightarrow> sha_state" where
  "sha_compress h block =
     (let s = fold (sha_round (sha_schedule block)) [0..<64] h
      in \<lparr>sha_a = sha_a h + sha_a s, sha_b = sha_b h + sha_b s, sha_c = sha_c h + sha_c s, sha_d = sha_d h + sha_d s,
          sha_e = sha_e h + sha_e s, sha_f = sha_f h + sha_f s, sha_g = sha_g h + sha_g s, sha_h = sha_h h + sha_h s\<rparr>)"

definition sha_init :: sha_state where
  "sha_init = \<lparr>sha_a = 0x6a09e667, sha_b = 0xbb67ae85, sha_c = 0x3c6ef372, sha_d = 0xa54ff53a,
     sha_e = 0x510e527f, sha_f = 0x9b05688c, sha_g = 0x1f83d9ab, sha_h = 0x5be0cd19\<rparr>"

section \<open>The routine\<close>

text \<open>The two last blocks, built in a zeroed buffer of 128 bytes of which \<open>tlen\<close> are used.\<close>

definition tail_length :: "nat \<Rightarrow> nat" where
  "tail_length r = (if r < 56 then 64 else 128)"

definition put_bits :: "nat \<Rightarrow> nat \<Rightarrow> bytes \<Rightarrow> bytes" where
  "put_bits tlen bits tail = fold (\<lambda>i t. t[tlen - 1 - i := word_of_nat (bits div 256 ^ i)]) [0..<8] tail"

definition sha_tail :: "bytes \<Rightarrow> bytes" where
  "sha_tail p =
     (let full = length p div 64;
          r = length p - full * 64;
          tail = overwrite (replicate 128 0) 0 (slice (full * 64) r p)
      in put_bits (tail_length r) (u64 (length p * 8)) (tail[r := 0x80]))"

definition word_bytes :: "u32 \<Rightarrow> bytes" where
  "word_bytes x = [ucast (drop_bit 24 x), ucast (drop_bit 16 x), ucast (drop_bit 8 x), ucast x]"

definition sha_digest :: "sha_state \<Rightarrow> bytes" where
  "sha_digest h = concat (map word_bytes [sha_a h, sha_b h, sha_c h, sha_d h, sha_e h, sha_f h, sha_g h, sha_h h])"

definition sha256 :: "bytes \<Rightarrow> bytes" where
  "sha256 p =
     (let full = length p div 64;
          h = fold (\<lambda>i h. sha_compress h (slice (64 * i) 64 p)) [0..<full] sha_init;
          r = length p - full * 64;
          tail = sha_tail p;
          h1 = sha_compress h (slice 0 64 tail);
          h2 = (if tail_length r = 128 then sha_compress h1 (slice 64 64 tail) else h1)
      in sha_digest h2)"

definition hex_char :: "nat \<Rightarrow> char" where
  "hex_char n = ''0123456789abcdef'' ! n"

definition hex_byte :: "byte \<Rightarrow> string" where
  "hex_byte b = [hex_char (unat (drop_bit 4 b)), hex_char (unat (b AND 0xF))]"

definition sha256Hex :: "string \<Rightarrow> string" where
  "sha256Hex s = concat (map hex_byte (sha256 (map byte_of_char s)))"

section \<open>The standard's definition\<close>

text \<open>The message is followed by a one bit, zeros and its length in bits as a big-endian 64-bit number, up to a multiple of the block size; the compression
  function is folded over the blocks.\<close>

definition be64 :: "nat \<Rightarrow> bytes" where
  "be64 n = rev (le_bytes 8 n)"

definition sha_pad :: "bytes \<Rightarrow> bytes" where
  "sha_pad p = p @ [0x80] @ replicate ((119 - length p mod 64) mod 64) 0 @ be64 (u64 (length p * 8))"

definition blocks64 :: "bytes \<Rightarrow> bytes list" where
  "blocks64 p = map (\<lambda>i. slice (64 * i) 64 p) [0..<length p div 64]"

definition sha256_spec :: "bytes \<Rightarrow> bytes" where
  "sha256_spec p = sha_digest (foldl sha_compress sha_init (blocks64 (sha_pad p)))"

lemma byte_mod: "(word_of_nat (m mod 256) :: byte) = word_of_nat m"
proof -
  have "unat (word_of_nat (m mod 256) :: byte) = unat (word_of_nat m :: byte)" by (simp add: unat_of_nat)
  then show ?thesis by (metis unsigned_word_eqI)
qed

lemma le_bytes_nth: "i < k \<Longrightarrow> le_bytes k n ! i = word_of_nat (n div 256 ^ i)"
proof (induction k arbitrary: n i)
  case (Suc k)
  then show ?case by (cases i) (simp_all add: byte_mod div_mult2_eq)
qed simp

lemma be64_nth: "k < 8 \<Longrightarrow> be64 n ! k = word_of_nat (n div 256 ^ (7 - k))"
  by (simp add: be64_def rev_nth le_bytes_nth)

lemma put_loop:
  "n \<le> tlen \<Longrightarrow> tlen \<le> length t \<Longrightarrow>
   length (fold (\<lambda>i t. t[tlen - 1 - i := f i]) [0..<n] t) = length t \<and>
   (\<forall>j<length t. fold (\<lambda>i t. t[tlen - 1 - i := f i]) [0..<n] t ! j = (if tlen - n \<le> j \<and> j < tlen then f (tlen - 1 - j) else t ! j))"
proof (induction n)
  case (Suc n)
  let ?g = "fold (\<lambda>i t. t[tlen - 1 - i := f i]) [0..<n] t"
  have I: "length ?g = length t" "\<forall>j<length t. ?g ! j = (if tlen - n \<le> j \<and> j < tlen then f (tlen - 1 - j) else t ! j)" using Suc by simp_all
  have s: "fold (\<lambda>i t. t[tlen - 1 - i := f i]) [0..<Suc n] t = ?g[tlen - 1 - n := f n]" by simp
  have "?g[tlen - 1 - n := f n] ! j = (if tlen - Suc n \<le> j \<and> j < tlen then f (tlen - 1 - j) else t ! j)" if j: "j < length t" for j
  proof (cases "j = tlen - 1 - n")
    case True
    then have "f (tlen - 1 - j) = f n" "tlen - Suc n \<le> j" "j < tlen" using Suc.prems by simp_all
    then show ?thesis using True j I(1) by simp
  next
    case False
    then have "(tlen - Suc n \<le> j \<and> j < tlen) = (tlen - n \<le> j \<and> j < tlen)" using Suc.prems by auto
    then show ?thesis using False I j by (simp add: nth_list_update)
  qed
  then show ?case using I(1) unfolding s by simp
qed auto

lemma put_bits_eq: "8 \<le> tlen \<Longrightarrow> tlen \<le> length t \<Longrightarrow> put_bits tlen bits t = overwrite t (tlen - 8) (be64 bits)"
proof (rule nth_equalityI)
  assume a: "8 \<le> tlen" "tlen \<le> length t"
  have l: "length (be64 bits) = 8" by (simp add: be64_def)
  note P = put_loop [OF a, of "\<lambda>i. word_of_nat (bits div 256 ^ i)"]
  show "length (put_bits tlen bits t) = length (overwrite t (tlen - 8) (be64 bits))" using P a l by (simp add: put_bits_def)
  show "put_bits tlen bits t ! j = overwrite t (tlen - 8) (be64 bits) ! j" if "j < length (put_bits tlen bits t)" for j
  proof -
    have j: "j < length t" using that P by (simp add: put_bits_def)
    have "be64 bits ! (j - (tlen - 8)) = word_of_nat (bits div 256 ^ (tlen - 1 - j))" if "tlen - 8 \<le> j" "j < tlen"
      using that a by (subst be64_nth) (auto intro!: arg_cong [where f = "\<lambda>k. word_of_nat (bits div 256 ^ k)"])
    then show ?thesis using P j a l nth_overwrite [of "tlen - 8" "be64 bits" t j] by (simp add: put_bits_def)
  qed
qed

lemma sha_tail_eq:
  fixes p :: bytes
  defines "full \<equiv> length p div 64" and "r \<equiv> length p mod 64"
  shows "length (sha_tail p) = 128" and "drop (64 * full) p @ [0x80] @ replicate ((119 - r) mod 64) 0 @ be64 (u64 (length p * 8)) = take (tail_length r) (sha_tail p)"
proof -
  define q where "q = drop (64 * full) p"
  have r: "length p - full * 64 = r" "length q = r" "r < 64" by (simp_all add: full_def r_def q_def minus_div_mult_eq_mod minus_mult_div_eq_mod)
  define t where "t = q @ 0x80 # replicate (127 - r) (0 :: byte)"
  have lt: "length t = 128" using r by (simp add: t_def)
  have l8: "length (be64 x) = 8" for x by (simp add: be64_def)
  have sl: "slice (full * 64) r p = q" using r(2) by (simp add: slice_def q_def mult.commute)
  have "overwrite (replicate 128 0) 0 q = q @ replicate (128 - r) 0" using r(2) by (simp add: overwrite_def)
  moreover have "(q @ replicate (128 - r) 0)[r := 0x80] = t"
    using r by (simp add: t_def list_update_append Suc_diff_Suc [symmetric] flip: Suc_diff_Suc)
  ultimately have st: "sha_tail p = put_bits (tail_length r) (u64 (length p * 8)) t"
    unfolding sha_tail_def Let_def full_def [symmetric] r(1) sl by simp
  have tl: "8 \<le> tail_length r" "tail_length r \<le> length t" by (simp_all add: tail_length_def lt)
  show "length (sha_tail p) = 128" unfolding st put_bits_eq [OF tl] using tl lt l8 by simp
  have k: "tail_length r - 8 = r + 1 + (119 - r) mod 64" 
  proof (cases "r < 56")
    case True
    then have "(119 - r) mod 64 = 55 - r" by (simp add: mod_if)
    then show ?thesis using True by (simp add: tail_length_def)
  next
    case False
    then show ?thesis using r(3) by (simp add: tail_length_def)
  qed
  have "take (tail_length r - 8) t = q @ [0x80] @ replicate ((119 - r) mod 64) 0"
    unfolding k using r by (simp add: t_def min_def mod_if)
  then show "drop (64 * full) p @ [0x80] @ replicate ((119 - r) mod 64) 0 @ be64 (u64 (length p * 8)) = take (tail_length r) (sha_tail p)"
  proof -
    assume e: "take (tail_length r - 8) t = q @ [0x80] @ replicate ((119 - r) mod 64) 0"
    have "take (tail_length r) (overwrite t (tail_length r - 8) b) = take (tail_length r - 8) t @ b" if "length b = 8" for b
      using that tl by (simp add: overwrite_def)
    then show ?thesis unfolding st put_bits_eq [OF tl] q_def [symmetric] using e l8 by simp
  qed
qed

lemma foldl_map_fold: "foldl g h (map f xs) = fold (\<lambda>i h. g h (f i)) xs h"
  by (induction xs arbitrary: h) simp_all

text \<open>C34. The vendored routine, which hashes the full blocks where they lie and builds the last one or two in a buffer, is the standard's SHA-256: the fold of the compression
  function over the blocks of the message with its padding, for every length, those at the block boundary included.\<close>

theorem sha256_is_standard: "sha256 p = sha256_spec p"
proof -
  define full where "full = length p div 64"
  define r where "r = length p mod 64"
  define n where "n = tail_length r"
  define tl where "tl = take n (sha_tail p)"
  have lp: "64 * full \<le> length p" by (simp add: full_def)
  have lt: "length tl = n" using sha_tail_eq(1) [of p] by (simp add: tl_def n_def tail_length_def)
  have pad: "sha_pad p = take (64 * full) p @ tl"
    unfolding sha_pad_def tl_def n_def r_def full_def sha_tail_eq(2) [of p, symmetric] by (metis append_assoc append_take_drop_id)
  have len: "length (sha_pad p) div 64 = full + n div 64" using lp lt by (simp add: pad n_def tail_length_def)
  have low: "slice (64 * i) 64 (sha_pad p) = slice (64 * i) 64 p" if i: "i < full" for i
  proof -
    have "64 * i + 64 \<le> 64 * full" using i by simp
    then show ?thesis using lp unfolding pad by (simp add: slice_def take_drop min_def)
  qed
  have high: "slice (64 * (full + k)) 64 (sha_pad p) = slice (64 * k) 64 (sha_tail p)" if "64 * k + 64 \<le> n" for k
    unfolding pad using lp that by (simp add: slice_def tl_def take_drop min_def distrib_left)
  have m: "map (\<lambda>i. slice (64 * i) 64 (sha_pad p)) [0..<full] = map (\<lambda>i. slice (64 * i) 64 p) [0..<full]" using low by simp
  have "blocks64 (sha_pad p) = map (\<lambda>i. slice (64 * i) 64 p) [0..<full] @ slice 0 64 (sha_tail p) # (if n = 128 then [slice 64 64 (sha_tail p)] else [])"
  proof (cases "n = 128")
    case True
    have "[0..<full + 2] = [0..<full] @ [full, full + 1]" by (simp add: upt_Suc_append numeral_2_eq_2)
    then show ?thesis unfolding blocks64_def len using True m high [of 0] high [of 1] by simp
  next
    case False
    then have "n = 64" by (simp add: n_def tail_length_def split: if_splits)
    then show ?thesis unfolding blocks64_def len using m high [of 0] by simp
  qed
  moreover have "length p - full * 64 = r" by (simp add: full_def r_def minus_div_mult_eq_mod)
  ultimately show ?thesis unfolding sha256_def sha256_spec_def full_def [symmetric] Let_def by (simp add: n_def foldl_map_fold)
qed

section \<open>Object names\<close>

lemma length_sha_digest: "length (sha_digest h) = 32"
  by (simp add: sha_digest_def word_bytes_def)

lemma length_sha256: "length (sha256 p) = 32"
  by (simp add: sha256_def Let_def length_sha_digest)

lemma hex_char_set: "n < 16 \<Longrightarrow> hex_char n \<in> set ''0123456789abcdef''"
  unfolding hex_char_def by (rule nth_mem) simp

lemma hex_byte_set: "set (hex_byte b) \<subseteq> set ''0123456789abcdef''"
proof -
  have "unat (drop_bit 4 b) < 16" 
    unfolding unat_drop_bit_eq drop_bit_eq_div [of 4 "unat b"] using unat_byte_less [of b] by simp
  moreover have "unat (b AND 0xF) < 16"
  proof -
    have "b AND 0xF = take_bit 4 b" by (simp add: take_bit_eq_mask mask_eq_exp_minus_1)
    then have "unat (b AND 0xF) = take_bit 4 (unat b)" by (simp only: unsigned_take_bit_eq)
    then show ?thesis using take_bit_nat_less_exp [of 4 "unat b"] by simp
  qed
  ultimately show ?thesis using hex_char_set by (simp add: hex_byte_def)
qed

lemma sha256Hex_shape: "length (sha256Hex s) = 64" "set (sha256Hex s) \<subseteq> set ''0123456789abcdef''"
proof -
  have "length (concat (map hex_byte bs)) = 2 * length bs" for bs by (induction bs) (simp_all add: hex_byte_def)
  then show "length (sha256Hex s) = 64" by (simp add: sha256Hex_def length_sha256)
  show "set (sha256Hex s) \<subseteq> set ''0123456789abcdef''" 
  proof -
    have "set (concat (map hex_byte bs)) \<subseteq> H" if "\<And>b. set (hex_byte b) \<subseteq> H" for H bs using that by auto
    then show ?thesis unfolding sha256Hex_def using hex_byte_set by blast
  qed
qed

end
