(* ===== verification/Url_Key.thy ===== *)
theory Url_Key
  imports Sha256 Cache_Space "HOL-Library.Char_ord" "HOL-Library.List_Lexorder"
begin

text \<open>
  URL keys (\<^verbatim>\<open>src/src/core/UrlKey.cc\<close>): a URL becomes a normalised key, and the hash of the key names the entry in the cache directory. The normal form is a fixed point
  of the parser, credentials and query parameters stay out of it, and the hash is a legal object name. \<^verbatim>\<open>std::string\<close>s compare byte by byte, the
  lexicographic order of the library on lists of characters.
\<close>

section \<open>Normalisation\<close>

definition lower_char :: "char \<Rightarrow> char" where
  "lower_char c = (if 65 \<le> (of_char c :: nat) \<and> (of_char c :: nat) \<le> 90 then char_of (of_char c + 32 :: nat) else c)"

definition toLower :: "string \<Rightarrow> string" where
  "toLower s = map lower_char s"

definition defaultPort :: "string \<Rightarrow> int" where
  "defaultPort scheme =
     (if scheme \<in> {''root'', ''xroot'', ''roots'', ''xroots''} then 1094
      else if scheme = ''http'' then 80 else if scheme = ''https'' then 443 else 0)"

definition norm_seg :: "string \<Rightarrow> string list \<Rightarrow> string list" where
  "norm_seg seg segs = (if seg = [] \<or> seg = ''.'' then segs else if seg = ''..'' then butlast segs else segs @ [seg])"

definition normalizePath :: "string \<Rightarrow> string" where
  "normalizePath inp =
     (let segs = fold norm_seg (getlines (CHR ''/'') inp) [];
          out = concat (map (\<lambda>s. ''/'' @ s) segs)
      in if out = [] then ''/'' else out)"

text \<open>What follows and what precedes the last occurrence of a character (\<^verbatim>\<open>rfind\<close>).\<close>

definition after_last :: "char \<Rightarrow> string \<Rightarrow> string" where
  "after_last c s = rev (takeWhile (\<lambda>x. x \<noteq> c) (rev s))"

definition before_last :: "char \<Rightarrow> string \<Rightarrow> string" where
  "before_last c s = rev (drop 1 (dropWhile (\<lambda>x. x \<noteq> c) (rev s)))"

definition drop_userinfo :: "string \<Rightarrow> string" where
  "drop_userinfo auth = (if CHR ''@'' \<in> set auth then after_last (CHR ''@'') auth else auth)"

definition host_port :: "string \<Rightarrow> int \<Rightarrow> (string \<times> int) option" where
  "host_port auth dflt =
     (if auth \<noteq> [] \<and> hd auth = CHR ''['' then
        (if CHR '']'' \<notin> set auth then None
         else let host = takeWhile (\<lambda>x. x \<noteq> CHR '']'') auth @ '']''; tail = drop (length host) auth
              in Some (host, if tail \<noteq> [] \<and> hd tail = CHR '':'' then atoi (tl tail) else dflt))
      else if CHR '':'' \<in> set auth then Some (before_last (CHR '':'') auth, atoi (after_last (CHR '':'') auth))
      else Some (auth, dflt))"

section \<open>Query parameters\<close>

fun kv_insert :: "string \<Rightarrow> string \<Rightarrow> (string \<times> string) list \<Rightarrow> (string \<times> string) list" where
  "kv_insert k v [] = [(k, v)]"
| "kv_insert k v ((k', v') # m) =
     (if k < k' then (k, v) # (k', v') # m else if k = k' then (k, v) # m else (k', v') # kv_insert k v m)"

definition param_name :: "string \<Rightarrow> string" where
  "param_name kv = takeWhile (\<lambda>x. x \<noteq> CHR ''='') kv"

definition add_param :: "string list \<Rightarrow> string \<Rightarrow> (string \<times> string) list \<Rightarrow> (string \<times> string) list" where
  "add_param keepCgi kv m =
     (if param_name kv \<in> set keepCgi then kv_insert (param_name kv) (drop 1 (dropWhile (\<lambda>x. x \<noteq> CHR ''='') kv)) m else m)"

definition render_param :: "string \<times> string \<Rightarrow> string \<Rightarrow> string" where
  "render_param p kept = kept @ (if kept = [] then ''?'' else ''&'') @ fst p @ ''='' @ snd p"

definition kept_cgi :: "string list \<Rightarrow> string \<Rightarrow> string" where
  "kept_cgi keepCgi cgi =
     (if keepCgi \<noteq> [] \<and> cgi \<noteq> [] then fold render_param (fold (add_param keepCgi) (getlines (CHR ''&'') cgi) []) [] else [])"

section \<open>The key\<close>

record urlKey =
  uk_key :: string
  uk_hashHex :: string
  uk_scheme :: string
  uk_host :: string

definition mk_key :: "string \<Rightarrow> string \<Rightarrow> int \<Rightarrow> string \<Rightarrow> string \<Rightarrow> urlKey" where
  "mk_key scheme host port path kept =
     (let k = scheme @ ''://'' @ host @ '':'' @ show_int port @ path @ kept
      in \<lparr>uk_key = k, uk_hashHex = sha256Hex k, uk_scheme = scheme, uk_host = host\<rparr>)"

definition url_parse :: "string \<Rightarrow> string list \<Rightarrow> urlKey option" where
  "url_parse url keepCgi =
     (case find_sub ''://'' url 0 of
        None \<Rightarrow> None
      | Some n \<Rightarrow>
          if n = 0 then None
          else
            let scheme = toLower (take n url);
                after = drop (n + 3) url
            in if CHR ''/'' \<notin> set after then None
               else
                 let auth0 = takeWhile (\<lambda>x. x \<noteq> CHR ''/'') after;
                     rest = dropWhile (\<lambda>x. x \<noteq> CHR ''/'') after
                 in if auth0 = [] then None
                    else case host_port (drop_userinfo auth0) (defaultPort scheme) of
                      None \<Rightarrow> None
                    | Some (h, port) \<Rightarrow>
                        if toLower h = [] \<or> port \<le> 0 then None
                        else Some (mk_key scheme (toLower h) port (normalizePath (takeWhile (\<lambda>x. x \<noteq> CHR ''?'') rest))
                                     (kept_cgi keepCgi (drop 1 (dropWhile (\<lambda>x. x \<noteq> CHR ''?'') rest)))))"

definition strip_param :: "string list \<Rightarrow> string \<Rightarrow> string \<Rightarrow> string" where
  "strip_param names param kept =
     (if param = [] \<or> param_name param \<in> set names then kept else kept @ (if kept = [] then [] else ''&'') @ param)"

definition stripCgiParams :: "string \<Rightarrow> string list \<Rightarrow> string" where
  "stripCgiParams url names =
     (if CHR ''?'' \<notin> set url then url
      else
        let base = takeWhile (\<lambda>x. x \<noteq> CHR ''?'') url;
            kept = fold (strip_param names) (getlines (CHR ''&'') (drop 1 (dropWhile (\<lambda>x. x \<noteq> CHR ''?'') url))) []
        in if kept = [] then base else base @ ''?'' @ kept)"

text \<open>\<^verbatim>\<open>fnmatch\<close> is a parameter.\<close>

definition hostMatchesAny :: "(string \<Rightarrow> string \<Rightarrow> bool) \<Rightarrow> string list \<Rightarrow> string \<Rightarrow> bool" where
  "hostMatchesAny fnm globs host \<longleftrightarrow> list_ex (\<lambda>g. fnm g host) globs"

section \<open>Pieces between delimiters\<close>

lemma split_plain: "d \<notin> set a \<Longrightarrow> split_at_char d a = [a]"
  by (induction a) auto

lemma split_nonempty: "split_at_char d s \<noteq> []"
  by (induction s) (auto split: list.splits)

lemma split_cons: "d \<notin> set a \<Longrightarrow> split_at_char d (a @ d # b) = a # split_at_char d b"
proof (induction a)
  case Nil
  then show ?case using split_nonempty [of d b] by (auto split: list.splits)
qed auto

lemma split_pieces: "p \<in> set (split_at_char d s) \<Longrightarrow> d \<notin> set p \<and> set p \<subseteq> set s"
proof (induction s arbitrary: p)
  case (Cons c s)
  obtain q qs where q: "split_at_char d s = q # qs" using split_nonempty by (meson neq_Nil_conv)
  show ?case using Cons.IH [of q] Cons.IH [of p] Cons.prems by (auto simp: q split: if_splits)
qed simp

lemma getlines_cons: "d \<notin> set a \<Longrightarrow> getlines d (a @ d # b) = a # getlines d b"
  using split_nonempty [of d b] by (simp add: getlines_def split_cons Let_def)

lemma getlines_plain: "d \<notin> set a \<Longrightarrow> getlines d a = (if a = [] then [] else [a])"
  by (simp add: getlines_def split_plain Let_def)

lemma getlines_pieces: "p \<in> set (getlines d s) \<Longrightarrow> d \<notin> set p \<and> set p \<subseteq> set s"
  using split_pieces [of p d s] by (auto simp: getlines_def Let_def dest: in_set_butlastD split: if_splits)

lemma getlines_join:
  "(\<And>p. p \<in> set (q # ps) \<Longrightarrow> p \<noteq> [] \<and> d \<notin> set p) \<Longrightarrow> getlines d (q @ concat (map (\<lambda>p. d # p) ps)) = q # ps"
proof (induction ps arbitrary: q)
  case Nil
  then show ?case by (simp add: getlines_plain)
next
  case (Cons p ps)
  have "getlines d (p @ concat (map (\<lambda>p. d # p) ps)) = p # ps" by (rule Cons.IH) (use Cons.prems in auto)
  then show ?case using Cons.prems getlines_cons [of d q "p @ concat (map (\<lambda>p. d # p) ps)"] by simp
qed

section \<open>Paths\<close>

definition plain_seg :: "string \<Rightarrow> bool" where
  "plain_seg s \<longleftrightarrow> s \<noteq> [] \<and> s \<noteq> ''.'' \<and> s \<noteq> ''..'' \<and> CHR ''/'' \<notin> set s"

lemma norm_segs_plain:
  "(\<And>s. s \<in> set ss \<Longrightarrow> CHR ''/'' \<notin> set s) \<Longrightarrow> list_all plain_seg acc \<Longrightarrow>
   list_all plain_seg (fold norm_seg ss acc) \<and> \<Union> (set ` set (fold norm_seg ss acc)) \<subseteq> \<Union> (set ` set acc) \<union> \<Union> (set ` set ss)"
proof (induction ss arbitrary: acc)
  case (Cons s ss)
  have "list_all plain_seg (norm_seg s acc)" using Cons.prems by (auto simp: norm_seg_def plain_seg_def list_all_iff dest: in_set_butlastD)
  moreover have "\<Union> (set ` set (norm_seg s acc)) \<subseteq> \<Union> (set ` set acc) \<union> set s" by (auto simp: norm_seg_def dest: in_set_butlastD)
  ultimately show ?case using Cons.IH [of "norm_seg s acc"] Cons.prems by fastforce
qed simp

lemma norm_plain_id: "list_all plain_seg ss \<Longrightarrow> fold norm_seg ss acc = acc @ ss"
  by (induction ss arbitrary: acc) (auto simp: norm_seg_def plain_seg_def)

lemma normalizePath_shape:
  assumes "p = normalizePath inp"
  shows "\<exists>r. p = CHR ''/'' # r" "set p \<subseteq> insert (CHR ''/'') (set inp)" "normalizePath p = p"
proof -
  define segs where "segs = fold norm_seg (getlines (CHR ''/'') inp) []"
  have P: "list_all plain_seg segs" "\<Union> (set ` set segs) \<subseteq> \<Union> (set ` set (getlines (CHR ''/'') inp))"
    using norm_segs_plain [of "getlines (CHR ''/'') inp" "[]"] getlines_pieces by (auto simp: segs_def)
  have p: "p = (if segs = [] then ''/'' else concat (map (\<lambda>s. CHR ''/'' # s) segs))"
    by (simp add: assms normalizePath_def segs_def [symmetric] Let_def)
  show "\<exists>r. p = CHR ''/'' # r" unfolding p by (cases segs) auto
  have "set p \<subseteq> insert (CHR ''/'') (\<Union> (set ` set segs))" unfolding p by auto
  moreover have "\<Union> (set ` set (getlines (CHR ''/'') inp)) \<subseteq> set inp" using getlines_pieces by blast
  ultimately show "set p \<subseteq> insert (CHR ''/'') (set inp)" using P(2) by blast
  show "normalizePath p = p"
  proof (cases segs)
    case Nil
    then show ?thesis by (simp add: p) code_simp
  next
    case (Cons s ss)
    have "getlines (CHR ''/'') p = [] # s # ss"
      using getlines_cons [of "CHR ''/''" "[]"] getlines_join [of s ss "CHR ''/''"] P(1) by (auto simp: p Cons list_all_iff plain_seg_def)
    then have "fold norm_seg (getlines (CHR ''/'') p) [] = segs" using norm_plain_id [OF P(1), of "[]"] by (simp add: Cons norm_seg_def)
    then show ?thesis using Cons by (simp add: normalizePath_def Let_def p)
  qed
qed

section \<open>Parameters\<close>

lemma kv_insert_keys: "fst ` set (kv_insert k v m) = insert k (fst ` set m)"
  by (induction m rule: kv_insert.induct [where ?a0.0 = k and ?a1.0 = v]) auto

lemma kv_insert_sorted: "sorted_wrt (<) (map fst m) \<Longrightarrow> sorted_wrt (<) (map fst (kv_insert k v m))"
proof (induction m)
  case (Cons p m)
  obtain k' v' where p: "p = (k', v')" by fastforce
  have "fst ` set (kv_insert k v m) = insert k (fst ` set m)" by (rule kv_insert_keys)
  then show ?case using Cons by (auto simp: p image_iff)
qed simp

lemma kv_insert_values: "set (kv_insert k v m) \<subseteq> insert (k, v) (set m)"
  by (induction m) (auto split: if_splits)

lemma kv_insert_last: "(\<And>p. p \<in> set m \<Longrightarrow> fst p < k) \<Longrightarrow> kv_insert k v m = m @ [(k, v)]"
proof (induction m)
  case (Cons p m)
  obtain k' v' where p: "p = (k', v')" by fastforce
  have "k' < k" using Cons.prems [of p] by (simp add: p)
  then show ?case using Cons by (auto simp: p)
qed simp

definition param_ok :: "string list \<Rightarrow> string \<times> string \<Rightarrow> bool" where
  "param_ok keepCgi p \<longleftrightarrow> fst p \<in> set keepCgi \<and> CHR ''='' \<notin> set (fst p) \<and> CHR ''&'' \<notin> set (fst p) \<and> CHR ''&'' \<notin> set (snd p)"

lemma param_name_chars: "CHR ''='' \<notin> set (param_name kv) \<and> set (param_name kv) \<subseteq> set kv"
  by (auto simp: param_name_def dest: set_takeWhileD)

lemma add_params_ok:
  "(\<And>s. s \<in> set ss \<Longrightarrow> CHR ''&'' \<notin> set s) \<Longrightarrow> sorted_wrt (<) (map fst m) \<Longrightarrow> list_all (param_ok keep) m \<Longrightarrow>
   sorted_wrt (<) (map fst (fold (add_param keep) ss m)) \<and> list_all (param_ok keep) (fold (add_param keep) ss m)"
proof (induction ss arbitrary: m)
  case (Cons s ss)
  have sub: "set (drop 1 (dropWhile P s)) \<subseteq> set s" for P by (meson order_trans set_drop_subset set_dropWhileD subsetI)
  have "CHR ''&'' \<notin> set s" using Cons.prems(1) by simp
  then have "param_name s \<in> set keep \<Longrightarrow> param_ok keep (param_name s, drop 1 (dropWhile (\<lambda>x. x \<noteq> CHR ''='') s))"
    using param_name_chars [of s] sub unfolding param_ok_def fst_conv snd_conv by blast
  then have "list_all (param_ok keep) (add_param keep s m)"
    using Cons.prems(3) kv_insert_values [of "param_name s" "drop 1 (dropWhile (\<lambda>x. x \<noteq> CHR ''='') s)" m] by (auto simp: add_param_def list_all_iff)
  moreover have "sorted_wrt (<) (map fst (add_param keep s m))" using kv_insert_sorted [OF Cons.prems(2)] Cons.prems(2) by (simp add: add_param_def)
  ultimately show ?case using Cons.IH [of "add_param keep s m"] Cons.prems(1) by simp
qed simp

definition param_text :: "string \<times> string \<Rightarrow> string" where
  "param_text p = fst p @ ''='' @ snd p"

lemma render_params: "kept \<noteq> [] \<Longrightarrow> fold render_param m kept = kept @ concat (map (\<lambda>p. CHR ''&'' # param_text p) m)"
  by (induction m arbitrary: kept) (simp_all add: render_param_def param_text_def)

lemma render_params_first: "fold render_param (p # m) [] = CHR ''?'' # param_text p @ concat (map (\<lambda>p. CHR ''&'' # param_text p) m)"
  using render_params [of "CHR ''?'' # param_text p" m] by (simp add: render_param_def param_text_def)

lemma add_rendered: "param_ok keep p \<Longrightarrow> add_param keep (param_text p) m = kv_insert (fst p) (snd p) m"
proof -
  assume p: "param_ok keep p"
  then have "takeWhile (\<lambda>x. x \<noteq> CHR ''='') (fst p @ ''='' @ snd p) = fst p" "dropWhile (\<lambda>x. x \<noteq> CHR ''='') (fst p @ ''='' @ snd p) = ''='' @ snd p"
    by (subst takeWhile_append2 dropWhile_append2, auto simp: param_ok_def)+
  then show "add_param keep (param_text p) m = kv_insert (fst p) (snd p) m" using p by (simp add: add_param_def param_name_def param_text_def param_ok_def)
qed

lemma add_rendered_list:
  "sorted_wrt (<) (map fst (acc @ m)) \<Longrightarrow> list_all (param_ok keep) m \<Longrightarrow> fold (add_param keep) (map param_text m) acc = acc @ m"
proof (induction m arbitrary: acc)
  case (Cons p m)
  have "q \<in> set acc \<Longrightarrow> fst q < fst p" for q using Cons.prems(1) by (auto simp: sorted_wrt_append)
  then have "add_param keep (param_text p) acc = acc @ [p]" using kv_insert_last [of acc "fst p" "snd p"] add_rendered [of keep p acc] Cons.prems(2) by simp
  then show ?case using Cons by simp
qed simp

lemma kept_cgi_shape:
  assumes "kept = kept_cgi keep cgi"
  shows "kept = [] \<or> (\<exists>q. kept = CHR ''?'' # q \<and> q \<noteq> [] \<and> kept_cgi keep q = kept)"
proof (cases "keep \<noteq> [] \<and> cgi \<noteq> [] \<and> fold (add_param keep) (getlines (CHR ''&'') cgi) [] \<noteq> []")
  case False
  then have "kept = []" unfolding assms kept_cgi_def by (cases "keep \<noteq> [] \<and> cgi \<noteq> []") auto
  then show ?thesis by blast
next
  case True
  then obtain p m where m: "fold (add_param keep) (getlines (CHR ''&'') cgi) [] = p # m" by (meson neq_Nil_conv)
  have ok: "sorted_wrt (<) (map fst (p # m))" "list_all (param_ok keep) (p # m)"
    using add_params_ok [of "getlines (CHR ''&'') cgi" "[]" keep] getlines_pieces unfolding m by auto
  define q where "q = param_text p @ concat (map (\<lambda>p. CHR ''&'' # param_text p) m)"
  have k: "kept = CHR ''?'' # q" using True m render_params_first [of p m] by (simp add: assms kept_cgi_def q_def)
  have "x \<noteq> [] \<and> CHR ''&'' \<notin> set x" if "x \<in> set (map param_text (p # m))" for x
    using that ok(2) by (auto simp: param_text_def param_ok_def list_all_iff)
  then have "getlines (CHR ''&'') q = map param_text (p # m)"
    using getlines_join [of "param_text p" "map param_text m" "CHR ''&''"] by (auto simp: q_def comp_def)
  then have "fold (add_param keep) (getlines (CHR ''&'') q) [] = p # m" using add_rendered_list [of "[]" "p # m" keep] ok by simp
  moreover have "q \<noteq> []" by (simp add: q_def param_text_def)
  ultimately have "kept_cgi keep q = kept" using True k render_params_first [of p m] by (simp add: kept_cgi_def q_def)
  then show ?thesis using k \<open>q \<noteq> []\<close> by blast
qed

section \<open>The authority\<close>

lemma lower_char_fixed: "lower_char c = d \<Longrightarrow> (of_char d :: nat) < 97 \<or> 122 < (of_char d :: nat) \<Longrightarrow> c = d"
proof -
  assume a: "lower_char c = d" "(of_char d :: nat) < 97 \<or> 122 < (of_char d :: nat)"
  show "c = d"
  proof (cases "65 \<le> (of_char c :: nat) \<and> (of_char c :: nat) \<le> 90")
    case True
    then have "d = char_of (of_char c + 32 :: nat)" using a(1) by (simp add: lower_char_def)
    then have "(of_char d :: nat) = of_char c + 32" using True by (simp add: of_char_of)
    then show ?thesis using True a(2) by simp
  next
    case False
    then show ?thesis using a(1) unfolding lower_char_def by (simp split: if_splits)
  qed
qed

lemma lower_char_idem: "lower_char (lower_char c) = lower_char c"
proof (cases "65 \<le> (of_char c :: nat) \<and> (of_char c :: nat) \<le> 90")
  case True
  then have "(of_char (lower_char c) :: nat) = of_char c + 32" by (simp add: lower_char_def of_char_of)
  then show ?thesis using True by (simp add: lower_char_def)
next
  case False
  then show ?thesis unfolding lower_char_def by auto
qed

lemma toLower_idem: "toLower (toLower s) = toLower s"
  by (simp add: toLower_def lower_char_idem)

lemma toLower_set: "(of_char d :: nat) < 97 \<Longrightarrow> (of_char d :: nat) < 65 \<or> 90 < (of_char d :: nat) \<Longrightarrow> d \<in> set (toLower s) \<longleftrightarrow> d \<in> set s"
proof -
  assume a: "(of_char d :: nat) < 97" "(of_char d :: nat) < 65 \<or> 90 < (of_char d :: nat)"
  have "lower_char d = d" using a(2) by (auto simp: lower_char_def)
  then show "d \<in> set (toLower s) \<longleftrightarrow> d \<in> set s" using lower_char_fixed [of _ d] a(1) by (force simp: toLower_def)
qed

lemma toLower_delims [simp]: "CHR ''/'' \<in> set (toLower s) \<longleftrightarrow> CHR ''/'' \<in> set s" "CHR ''@'' \<in> set (toLower s) \<longleftrightarrow> CHR ''@'' \<in> set s"
  "CHR '']'' \<in> set (toLower s) \<longleftrightarrow> CHR '']'' \<in> set s"
  by (rule toLower_set; simp)+

lemma find_sub_first:
  assumes "pat \<noteq> []"
  shows "find_sub pat s k = Some (k + n) \<longleftrightarrow> take (length pat) (drop n s) = pat \<and> (\<forall>i<n. take (length pat) (drop i s) \<noteq> pat)"
proof (induction s arbitrary: k n)
  case Nil
  then show ?case using assms by auto
next
  case (Cons c s)
  show ?case
  proof (cases "take (length pat) (c # s) = pat")
    case True
    then show ?thesis by (cases n) auto
  next
    case False
    have sub: "find_sub pat s (k + 1) = Some j \<Longrightarrow> k + 1 \<le> j" for j
      by (induction s arbitrary: k) (fastforce split: if_splits)+
    show ?thesis
    proof (cases n)
      case 0
      then show ?thesis using False sub [of k] by auto
    next
      case (Suc m)
      then show ?thesis using False Cons.IH [of "k + 1" m] by (auto simp: less_Suc_eq_0_disj)
    qed
  qed
qed

text \<open>The separator is found at the same place after lowering the scheme, whatever follows.\<close>

lemma scheme_kept:
  assumes "find_sub ''://'' url 0 = Some n"
  shows "length (toLower (take n url)) = n" "find_sub ''://'' (toLower (take n url) @ ''://'' @ rest) 0 = Some n"
proof -
  have F: "take 3 (drop n url) = ''://''" "\<forall>i<n. take 3 (drop i url) \<noteq> ''://''"
    using find_sub_first [of "''://''" url 0 n] assms by (simp_all add: numeral_3_eq_3)
  then have "drop n url \<noteq> []" by auto
  then have ln: "n < length url" by simp
  then show l: "length (toLower (take n url)) = n" by (simp add: toLower_def)
  define pre where "pre = take n url @ ''://''"
  have pre: "url = pre @ drop (n + 3) url" using F(1) ln unfolding pre_def
    by (metis add.commute append_assoc append_take_drop_id drop_drop)
  have lp: "length pre = n + 3" using ln by (simp add: pre_def)
  have lw: "toLower (take n url) @ ''://'' = toLower pre" by (simp add: pre_def toLower_def lower_char_def)
  have "take 3 (drop i (toLower pre @ rest)) \<noteq> ''://''" if i: "i < n" for i
  proof
    assume "take 3 (drop i (toLower pre @ rest)) = ''://''"
    then have "map lower_char (take 3 (drop i pre)) = ''://''" using i lp by (simp add: toLower_def take_map drop_map)
    moreover have "lower_char c = CHR '':'' \<Longrightarrow> c = CHR '':''" "lower_char c = CHR ''/'' \<Longrightarrow> c = CHR ''/''" for c
      by (rule lower_char_fixed; simp)+
    ultimately have "take 3 (drop i pre) = ''://''" by (auto simp: map_eq_Cons_conv)
    then have "take 3 (drop i url) = ''://''" using i lp by (subst pre) simp
    then show False using F(2) i by blast
  qed
  moreover have "take 3 (drop n (toLower pre @ rest)) = ''://''" using l lp unfolding lw [symmetric] by simp
  ultimately show "find_sub ''://'' (toLower (take n url) @ ''://'' @ rest) 0 = Some n"
    using find_sub_first [of "''://''" "toLower pre @ rest" 0 n] unfolding lw [symmetric] by (simp add: numeral_3_eq_3)
qed

lemma after_last_append: "c \<notin> set b \<Longrightarrow> after_last c (a @ c # b) = b" "c \<notin> set b \<Longrightarrow> before_last c (a @ c # b) = a"
proof -
  assume "c \<notin> set b"
  then have "takeWhile (\<lambda>x. x \<noteq> c) (rev b @ c # rev a) = rev b" "dropWhile (\<lambda>x. x \<noteq> c) (rev b @ c # rev a) = c # rev a"
    by (subst takeWhile_append2 dropWhile_append2, auto)+
  then show "after_last c (a @ c # b) = b" "before_last c (a @ c # b) = a" by (simp_all add: after_last_def before_last_def)
qed

lemma after_last_set: "c \<notin> set (after_last c s)" "set (after_last c s) \<subseteq> set s" "set (before_last c s) \<subseteq> set s"
proof -
  show "c \<notin> set (after_last c s)" "set (after_last c s) \<subseteq> set s" by (auto simp: after_last_def dest: set_takeWhileD)
  have "set (drop 1 (dropWhile (\<lambda>x. x \<noteq> c) (rev s))) \<subseteq> set (rev s)" by (meson order_trans set_drop_subset set_dropWhileD subsetI)
  then show "set (before_last c s) \<subseteq> set s" by (simp add: before_last_def)
qed

lemma show_int_pos: "0 < i \<Longrightarrow> list_all is_digit (show_int i) \<and> show_int i \<noteq> []"
  using show_nat_digits [of "nat i"] by (simp add: show_int_def)

lemma digits_delims: "list_all is_digit s \<Longrightarrow> c \<in> {CHR ''/'', CHR ''@'', CHR '':'', CHR ''?'', CHR ''['', CHR '']''} \<Longrightarrow> c \<notin> set s"
  by (auto simp: list_all_iff is_digit_def)

lemma atoi_bound: "atoi s < 2 ^ 31"
proof -
  have "(strtol s + 2 ^ 31) mod 2 ^ 32 < (2 ^ 32 :: int)" by (rule pos_mod_bound) simp
  then show ?thesis unfolding atoi_def by simp
qed

lemma atoi_show_int: "0 < i \<Longrightarrow> i < 2 ^ 31 \<Longrightarrow> atoi (show_int i) = i"
  by (simp add: atoi_def strtol_def show_int_def scan_show_nat)

lemma defaultPort_bound: "defaultPort s < 2 ^ 31"
  by (simp add: defaultPort_def)

text \<open>What the host of a key looks like: read again with its port it gives itself.\<close>

definition host_ok :: "string \<Rightarrow> bool" where
  "host_ok h \<longleftrightarrow> h \<noteq> [] \<and> CHR ''/'' \<notin> set h \<and> CHR ''@'' \<notin> set h \<and> (hd h = CHR ''['' \<longrightarrow> (\<exists>b. h = b @ '']'' \<and> CHR '']'' \<notin> set b))"

lemma host_port_shape:
  assumes "host_port auth d = Some (h, port)" and "h \<noteq> []" and "CHR ''/'' \<notin> set auth" and "CHR ''@'' \<notin> set auth" and "d < 2 ^ 31"
  shows "host_ok (toLower h) \<and> port < 2 ^ 31"
proof -
  have low: "toLower (b @ '']'') = toLower b @ '']''" for b by (simp add: toLower_def lower_char_def)
  show ?thesis
  proof (cases "auth \<noteq> [] \<and> hd auth = CHR ''[''")
    case True
    then have h: "h = takeWhile (\<lambda>x. x \<noteq> CHR '']'') auth @ '']''" and port: "port = d \<or> (\<exists>s. port = atoi s)"
      using assms(1) by (auto simp: host_port_def Let_def split: if_splits)
    have nb: "CHR '']'' \<notin> set (takeWhile (\<lambda>x. x \<noteq> CHR '']'') auth)" and sub: "set h \<subseteq> set auth \<union> {CHR '']''}"
      unfolding h by (auto dest: set_takeWhileD)
    have lw: "toLower h = toLower (takeWhile (\<lambda>x. x \<noteq> CHR '']'') auth) @ '']''" unfolding h by (rule low)
    have "CHR ''/'' \<notin> set h" "CHR ''@'' \<notin> set h" using assms(3,4) sub by auto
    then have "CHR ''/'' \<notin> set (toLower h)" "CHR ''@'' \<notin> set (toLower h)" by simp_all
    moreover have "toLower h \<noteq> []" using assms(2) by (simp add: toLower_def)
    moreover have "port < 2 ^ 31" using port assms(5) atoi_bound by blast
    moreover have "\<exists>b. toLower h = b @ '']'' \<and> CHR '']'' \<notin> set b" using lw nb by (intro exI [of _ "toLower (takeWhile (\<lambda>x. x \<noteq> CHR '']'') auth)"]) simp
    ultimately show ?thesis unfolding host_ok_def by blast
  next
    case False
    have ph: "(h = auth \<and> port = d) \<or> (h = before_last (CHR '':'') auth \<and> port = atoi (after_last (CHR '':'') auth))"
      using False assms(1) by (auto simp: host_port_def split: if_splits)
    have sub: "set h \<subseteq> set auth" using ph after_last_set(3) by auto
    have "hd h = hd auth"
    proof (cases "h = auth")
      case n: False
      have "auth = h @ CHR '':'' # after_last (CHR '':'') auth" if "CHR '':'' \<in> set auth"
        using ph n that split_list_last [OF that] after_last_append [of "CHR '':''"] by metis
      moreover have "CHR '':'' \<in> set auth" using False assms(1) n by (auto simp: host_port_def split: if_splits)
      ultimately show ?thesis using assms(2) by (metis hd_append2)
    qed simp
    then have "hd h \<noteq> CHR ''[''" using False assms(2) sub by (cases auth) auto
    moreover have "lower_char c = CHR ''['' \<Longrightarrow> c = CHR ''[''" for c by (rule lower_char_fixed; simp)
    ultimately have "hd (toLower h) \<noteq> CHR ''[''" using assms(2) by (cases h) (auto simp: toLower_def)
    moreover have "CHR ''/'' \<notin> set (toLower h)" "CHR ''@'' \<notin> set (toLower h)" using sub assms(3,4) by auto
    moreover have "toLower h \<noteq> []" using assms(2) by (simp add: toLower_def)
    moreover have "port < 2 ^ 31" using ph assms(5) atoi_bound by blast
    ultimately show ?thesis unfolding host_ok_def by blast
  qed
qed

lemma host_port_again:
  assumes "host_ok h" and "0 < port" and "port < 2 ^ 31"
  shows "drop_userinfo (h @ '':'' @ show_int port) = h @ '':'' @ show_int port \<and> host_port (h @ '':'' @ show_int port) d = Some (h, port)"
proof -
  note dg = digits_delims [OF conjunct1 [OF show_int_pos [OF assms(2)]]]
  have "CHR ''@'' \<notin> set (h @ '':'' @ show_int port)" using assms(1) dg by (auto simp: host_ok_def)
  moreover have "host_port (h @ '':'' @ show_int port) d = Some (h, port)"
  proof (cases "hd h = CHR ''[''")
    case True
    then obtain b where b: "h = b @ '']''" "CHR '']'' \<notin> set b" using assms(1) by (auto simp: host_ok_def)
    have "takeWhile (\<lambda>x. x \<noteq> CHR '']'') (b @ CHR '']'' # r) = b" for r using b(2) by (subst takeWhile_append2) auto
    moreover have "b \<noteq> []" using True b(1) by auto
    ultimately show ?thesis using True b(1) atoi_show_int assms by (simp add: host_port_def Let_def)
  next
    case False
    have "h \<noteq> []" using assms(1) by (simp add: host_ok_def)
    then show ?thesis using False after_last_append [of "CHR '':''" "show_int port" h] dg atoi_show_int assms by (simp add: host_port_def)
  qed
  ultimately show ?thesis by (simp add: drop_userinfo_def)
qed

section \<open>The key is a normal form\<close>

text \<open>The parts of a key: reading them back gives them again.\<close>

definition key_parts :: "string list \<Rightarrow> string \<Rightarrow> string \<Rightarrow> int \<Rightarrow> string \<Rightarrow> string \<Rightarrow> bool" where
  "key_parts keep scheme host port path kept \<longleftrightarrow>
     scheme \<noteq> [] \<and> toLower scheme = scheme \<and> (\<forall>rest. find_sub ''://'' (scheme @ ''://'' @ rest) 0 = Some (length scheme)) \<and>
     host_ok host \<and> toLower host = host \<and> 0 < port \<and> port < 2 ^ 31 \<and>
     (\<exists>r. path = CHR ''/'' # r) \<and> CHR ''?'' \<notin> set path \<and> normalizePath path = path \<and>
     (kept = [] \<or> (\<exists>q. kept = CHR ''?'' # q \<and> q \<noteq> [] \<and> kept_cgi keep q = kept))"

lemma parse_parts:
  assumes "url_parse url keep = Some k"
  shows "\<exists>scheme host port path kept. k = mk_key scheme host port path kept \<and> key_parts keep scheme host port path kept"
proof -
  obtain n where n: "find_sub ''://'' url 0 = Some n" "n \<noteq> 0" using assms by (auto simp: url_parse_def split: option.splits if_splits)
  define scheme where "scheme = toLower (take n url)"
  define after where "after = drop (n + 3) url"
  define auth0 where "auth0 = takeWhile (\<lambda>x. x \<noteq> CHR ''/'') after"
  define rest where "rest = dropWhile (\<lambda>x. x \<noteq> CHR ''/'') after"
  obtain h port where hp: "host_port (drop_userinfo auth0) (defaultPort scheme) = Some (h, port)" "toLower h \<noteq> []" "0 < port"
    and k: "k = mk_key scheme (toLower h) port (normalizePath (takeWhile (\<lambda>x. x \<noteq> CHR ''?'') rest)) (kept_cgi keep (drop 1 (dropWhile (\<lambda>x. x \<noteq> CHR ''?'') rest)))"
    using assms n by (auto simp: url_parse_def Let_def scheme_def auth0_def rest_def after_def split: if_splits option.splits)
  note S = scheme_kept [OF n(1)]
  have s: "scheme \<noteq> []" "toLower scheme = scheme" "find_sub ''://'' (scheme @ ''://'' @ r) 0 = Some (length scheme)" for r
    using S n(2) toLower_idem by (auto simp: scheme_def)
  have a: "CHR ''/'' \<notin> set (drop_userinfo auth0)" "CHR ''@'' \<notin> set (drop_userinfo auth0)"
  proof -
    have "CHR ''/'' \<notin> set auth0" by (auto simp: auth0_def dest: set_takeWhileD)
    then show "CHR ''/'' \<notin> set (drop_userinfo auth0)" "CHR ''@'' \<notin> set (drop_userinfo auth0)"
      using after_last_set [of "CHR ''@''" auth0] by (auto simp: drop_userinfo_def)
  qed
  have "h \<noteq> []" using hp(2) by (auto simp: toLower_def)
  then have host: "host_ok (toLower h)" "port < 2 ^ 31" using host_port_shape [OF hp(1) _ a defaultPort_bound] by simp_all
  note P = normalizePath_shape [of "normalizePath (takeWhile (\<lambda>x. x \<noteq> CHR ''?'') rest)" "takeWhile (\<lambda>x. x \<noteq> CHR ''?'') rest", OF refl]
  have "CHR ''?'' \<notin> set (takeWhile (\<lambda>x. x \<noteq> CHR ''?'') rest)" by (auto dest: set_takeWhileD)
  then have "CHR ''?'' \<notin> set (normalizePath (takeWhile (\<lambda>x. x \<noteq> CHR ''?'') rest))" using P(2) by auto
  then have "key_parts keep scheme (toLower h) port (normalizePath (takeWhile (\<lambda>x. x \<noteq> CHR ''?'') rest)) (kept_cgi keep (drop 1 (dropWhile (\<lambda>x. x \<noteq> CHR ''?'') rest)))"
    unfolding key_parts_def using s host P(1,3) hp(3) toLower_idem kept_cgi_shape [OF refl] by blast
  then show ?thesis using k by blast
qed

lemma parse_key:
  assumes "key_parts keep scheme host port path kept"
  shows "url_parse (uk_key (mk_key scheme host port path kept)) keep = Some (mk_key scheme host port path kept)"
proof -
  note A = assms [unfolded key_parts_def]
  define auth where "auth = host @ '':'' @ show_int port"
  have key: "uk_key (mk_key scheme host port path kept) = scheme @ ''://'' @ auth @ path @ kept" by (simp add: mk_key_def Let_def auth_def)
  have f: "find_sub ''://'' (scheme @ ''://'' @ auth @ path @ kept) 0 = Some (length scheme)" using A by blast
  have na: "CHR ''/'' \<notin> set auth" "auth \<noteq> []"
    using A digits_delims [OF conjunct1 [OF show_int_pos [of port]]] by (auto simp: auth_def host_ok_def)
  obtain r where r: "path = CHR ''/'' # r" using A by blast
  have tw: "takeWhile (\<lambda>x. x \<noteq> CHR ''/'') (auth @ path @ kept) = auth" "dropWhile (\<lambda>x. x \<noteq> CHR ''/'') (auth @ path @ kept) = path @ kept"
    using na(1) by (subst takeWhile_append2 dropWhile_append2, auto simp: r)+
  have hp: "drop_userinfo auth = auth" "host_port auth (defaultPort scheme) = Some (host, port)"
    using host_port_again [of host port "defaultPort scheme"] A unfolding auth_def by blast+
  have q: "takeWhile (\<lambda>x. x \<noteq> CHR ''?'') (path @ kept) = path \<and> kept_cgi keep (drop 1 (dropWhile (\<lambda>x. x \<noteq> CHR ''?'') (path @ kept))) = kept"
  proof (cases "kept = []")
    case True
    have e: "takeWhile (\<lambda>x. x \<noteq> CHR ''?'') path = path" "dropWhile (\<lambda>x. x \<noteq> CHR ''?'') path = []" using A by (auto simp: takeWhile_eq_all_conv dropWhile_eq_Nil_conv)
    have "kept_cgi keep (drop 1 []) = []" by (simp add: kept_cgi_def)
    then show ?thesis unfolding True append_Nil2 e by blast
  next
    case False
    then obtain q where q: "kept = CHR ''?'' # q" "kept_cgi keep q = kept" using A by blast
    have "takeWhile (\<lambda>x. x \<noteq> CHR ''?'') (path @ kept) = path" "dropWhile (\<lambda>x. x \<noteq> CHR ''?'') (path @ kept) = kept"
      using A by (subst takeWhile_append2 dropWhile_append2, auto simp: q(1))+
    then show ?thesis using q by simp
  qed
  have "CHR ''/'' \<in> set (auth @ path @ kept)" by (simp add: r)
  moreover have "take (length scheme) (scheme @ ''://'' @ auth @ path @ kept) = scheme" "drop (length scheme + 3) (scheme @ ''://'' @ auth @ path @ kept) = auth @ path @ kept"
    by simp_all
  moreover have "host \<noteq> []" using A by (auto simp: host_ok_def)
  ultimately show ?thesis
    unfolding key url_parse_def f option.case Let_def using A tw hp q na(2) by simp
qed

text \<open>The key of a URL is a normal form: read as a URL it gives the same key, the same hash, scheme and host. Case, user information, default ports, redundant slashes, dot segments and the order and
  repetition of kept parameters are therefore resolved once and for all, and every spelling of a URL that normalises to a key names the same entry as the key itself.\<close>

theorem key_is_normal_form:
  assumes "url_parse url keep = Some k"
  shows "url_parse (uk_key k) keep = Some k"
  using parse_parts [OF assms] parse_key by blast

lemma parse_sample: "url_parse ''ROOT://u@Host//a/./b/../c.root?t=1'' [] = Some (mk_key ''root'' ''host'' 1094 ''/a/c.root'' [])"
proof -
  have f: "find_sub ''://'' ''ROOT://u@Host//a/./b/../c.root?t=1'' 0 = Some 4" by code_simp
  have l: "toLower ''ROOT'' = ''root''" "toLower ''Host'' = ''host''" by code_simp+
  have a: "host_port (drop_userinfo ''u@Host'') (defaultPort ''root'') = Some (''Host'', 1094)" by code_simp
  have n: "normalizePath ''//a/./b/../c.root'' = ''/a/c.root''" by code_simp
  show ?thesis unfolding url_parse_def f by (simp add: l a n kept_cgi_def Let_def)
qed

theorem key_is_normal_form_witness:
  "url_parse ''root://host:1094/a/c.root'' [] = Some (mk_key ''root'' ''host'' 1094 ''/a/c.root'' [])"
proof -
  have "uk_key (mk_key ''root'' ''host'' 1094 ''/a/c.root'' []) = ''root://host:1094/a/c.root''"
  proof -
    have "show_int 1094 = ''1094''" by code_simp
    then show ?thesis by (simp add: mk_key_def Let_def)
  qed
  then show ?thesis using key_is_normal_form [OF parse_sample] by simp
qed

section \<open>What stays out of the key\<close>

lemma after_last_skip: "after_last c (a @ c # b) = (if c \<in> set b then after_last c b else b)"
proof (cases "c \<in> set b")
  case True
  then have "takeWhile (\<lambda>x. x \<noteq> c) (rev b @ c # rev a) = takeWhile (\<lambda>x. x \<noteq> c) (rev b)" by (intro takeWhile_append1 [of c]) simp_all
  then show ?thesis using True by (simp add: after_last_def)
next
  case False
  then show ?thesis using after_last_append by simp
qed

lemma plain_scheme: "CHR '':'' \<notin> set s \<Longrightarrow> find_sub ''://'' (s @ ''://'' @ r) 0 = Some (length s)"
proof -
  assume s: "CHR '':'' \<notin> set s"
  have "take 3 (drop i (s @ ''://'' @ r)) \<noteq> ''://''" if i: "i < length s" for i
  proof
    assume "take 3 (drop i (s @ ''://'' @ r)) = ''://''"
    moreover have "drop i (s @ ''://'' @ r) = s ! i # drop (Suc i) s @ ''://'' @ r" using i by (simp add: Cons_nth_drop_Suc [symmetric])
    ultimately have "take 3 (s ! i # drop (Suc i) s @ ''://'' @ r) = ''://''" by (simp only:)
    then have "s ! i = CHR '':''" by (simp add: numeral_3_eq_3)
    then show False using s i nth_mem by metis
  qed
  then show "find_sub ''://'' (s @ ''://'' @ r) 0 = Some (length s)"
    using find_sub_first [of "''://''" "s @ ''://'' @ r" 0 "length s"] by (simp add: numeral_3_eq_3)
qed

text \<open>What the parser does with a URL that has a host.\<close>

lemma split_slash:
  "CHR ''/'' \<notin> set a \<Longrightarrow> takeWhile (\<lambda>x. x \<noteq> CHR ''/'') (a @ CHR ''/'' # b) = a"
  "CHR ''/'' \<notin> set a \<Longrightarrow> dropWhile (\<lambda>x. x \<noteq> CHR ''/'') (a @ CHR ''/'' # b) = CHR ''/'' # b"
  by (subst takeWhile_append2 dropWhile_append2, auto)+

lemma query_cut: "takeWhile (\<lambda>x. x \<noteq> CHR ''?'') (CHR ''/'' # path @ CHR ''?'' # cgi) = takeWhile (\<lambda>x. x \<noteq> CHR ''?'') (CHR ''/'' # path)"
proof (cases "CHR ''?'' \<in> set path")
  case True
  then have "takeWhile (\<lambda>x. x \<noteq> CHR ''?'') (path @ CHR ''?'' # cgi) = takeWhile (\<lambda>x. x \<noteq> CHR ''?'') path" by (intro takeWhile_append1 [of "CHR ''?''"]) simp_all
  then show ?thesis by simp
next
  case False
  then have e: "takeWhile (\<lambda>x. x \<noteq> CHR ''?'') (path @ CHR ''?'' # cgi) = path" by (subst takeWhile_append2) auto
  moreover have "takeWhile (\<lambda>x. x \<noteq> CHR ''?'') path = path" using False by (auto simp: takeWhile_eq_all_conv)
  ultimately have "takeWhile (\<lambda>x. x \<noteq> CHR ''?'') (path @ CHR ''?'' # cgi) = takeWhile (\<lambda>x. x \<noteq> CHR ''?'') path" by (simp only:)
  then show ?thesis by simp
qed

lemma parse_plain:
  assumes "CHR '':'' \<notin> set scheme" and "a \<noteq> []" and "CHR ''/'' \<notin> set a"
  shows "url_parse (scheme @ ''://'' @ a @ CHR ''/'' # r) keepCgi =
    (if scheme = [] then None
     else case host_port (drop_userinfo a) (defaultPort (toLower scheme)) of
            None \<Rightarrow> None
          | Some (h, port) \<Rightarrow> if toLower h = [] \<or> port \<le> 0 then None
              else Some (mk_key (toLower scheme) (toLower h) port (normalizePath (takeWhile (\<lambda>x. x \<noteq> CHR ''?'') (CHR ''/'' # r)))
                     (kept_cgi keepCgi (drop 1 (dropWhile (\<lambda>x. x \<noteq> CHR ''?'') (CHR ''/'' # r))))))"
  unfolding url_parse_def plain_scheme [OF assms(1)] option.case using assms(2) split_slash [OF assms(3)] by (simp add: Let_def split: option.split)

text \<open>C32. Credentials never reach the key or the hash. User information before the host leaves the result of the parser as it is, whatever parameters are whitelisted and whatever follows the host; and when no
  parameter is whitelisted, so does everything after the question mark.\<close>

theorem credentials_stay_out:
  assumes "CHR '':'' \<notin> set scheme" and "auth \<noteq> []" and "CHR ''/'' \<notin> set auth" and "CHR ''/'' \<notin> set user"
  shows "url_parse (scheme @ ''://'' @ user @ ''@'' @ auth @ ''/'' @ rest) keepCgi = url_parse (scheme @ ''://'' @ auth @ ''/'' @ rest) keepCgi \<and>
    url_parse (scheme @ ''://'' @ user @ ''@'' @ auth @ ''/'' @ path @ ''?'' @ cgi) [] = url_parse (scheme @ ''://'' @ auth @ ''/'' @ path) []"
proof -
  have u: "drop_userinfo (user @ ''@'' @ auth) = drop_userinfo auth" by (simp add: drop_userinfo_def after_last_skip)
  have na: "CHR ''/'' \<notin> set (user @ ''@'' @ auth)" using assms(3,4) by simp
  have ne: "user @ ''@'' @ auth \<noteq> []" by simp
  have user: "url_parse (scheme @ ''://'' @ (user @ ''@'' @ auth) @ CHR ''/'' # r) keep = url_parse (scheme @ ''://'' @ auth @ CHR ''/'' # r) keep" for r keep
    unfolding parse_plain [OF assms(1) ne na] parse_plain [OF assms(1-3)] u by (rule refl)
  have "url_parse (scheme @ ''://'' @ auth @ CHR ''/'' # path @ CHR ''?'' # cgi) [] = url_parse (scheme @ ''://'' @ auth @ CHR ''/'' # path) []"
    unfolding parse_plain [OF assms(1-3)] query_cut by (simp add: kept_cgi_def split: option.split)
  with user show ?thesis by simp
qed

theorem credentials_stay_out_witness:
  "url_parse ''root://user:pw@h/f?x=1&authz=secret'' [''x''] = url_parse ''root://h/f?x=1&authz=secret'' [''x''] \<and>
   url_parse ''root://user:pw@h/f?authz=secret'' [] = url_parse ''root://h/f'' []"
  using credentials_stay_out [of "''root''" "''h''" "''user:pw''" "''f?x=1&authz=secret''" "[''x'']" "''f''" "''authz=secret''"] by simp

section \<open>Removing parameters\<close>

definition join_params :: "string list \<Rightarrow> string" where
  "join_params ps = (case ps of [] \<Rightarrow> [] | p # qs \<Rightarrow> p @ concat (map (\<lambda>q. CHR ''&'' # q) qs))"

lemma strip_fold:
  "kept \<noteq> [] \<Longrightarrow> fold (strip_param names) ps kept = kept @ concat (map (\<lambda>q. CHR ''&'' # q) (filter (\<lambda>p. p \<noteq> [] \<and> param_name p \<notin> set names) ps))"
  by (induction ps arbitrary: kept) (simp_all add: strip_param_def)

lemma strip_fold_first: "fold (strip_param names) ps [] = join_params (filter (\<lambda>p. p \<noteq> [] \<and> param_name p \<notin> set names) ps)"
proof (induction ps)
  case Nil
  then show ?case by (simp add: join_params_def)
next
  case (Cons p ps)
  show ?case
  proof (cases "p \<noteq> [] \<and> param_name p \<notin> set names")
    case True
    then have "strip_param names p [] = p" by (simp add: strip_param_def)
    then show ?thesis using True strip_fold [of p names ps] by (simp add: join_params_def)
  next
    case False
    then have "strip_param names p [] = []" by (auto simp: strip_param_def)
    then show ?thesis using False Cons by auto
  qed
qed

text \<open>Stripping parameters from a URL removes exactly the named ones (and empty pieces): the others stay, byte for byte and in order, and so does everything before the question mark.
  Stripping again changes nothing.\<close>

theorem strip_removes_exactly:
  assumes "CHR ''?'' \<notin> set base" and "ps = filter (\<lambda>p. p \<noteq> [] \<and> param_name p \<notin> set names) (getlines (CHR ''&'') q)"
  shows "stripCgiParams (base @ ''?'' @ q) names = base @ (if ps = [] then [] else ''?'' @ join_params ps) \<and>
    getlines (CHR ''&'') (join_params ps) = ps \<and>
    stripCgiParams (stripCgiParams (base @ ''?'' @ q) names) names = stripCgiParams (base @ ''?'' @ q) names"
proof -
  have tw: "takeWhile (\<lambda>x. x \<noteq> CHR ''?'') (base @ CHR ''?'' # r) = base" "dropWhile (\<lambda>x. x \<noteq> CHR ''?'') (base @ CHR ''?'' # r) = CHR ''?'' # r" for r
    using assms(1) by (subst takeWhile_append2 dropWhile_append2, auto)+
  have st: "stripCgiParams (base @ ''?'' @ r) names =
      (let ks = filter (\<lambda>p. p \<noteq> [] \<and> param_name p \<notin> set names) (getlines (CHR ''&'') r) in base @ (if ks = [] then [] else ''?'' @ join_params ks))" for r
  proof -
    let ?ks = "filter (\<lambda>p. p \<noteq> [] \<and> param_name p \<notin> set names) (getlines (CHR ''&'') r)"
    have "\<forall>p\<in>set ?ks. p \<noteq> []" by simp
    then have "join_params ?ks = [] \<longleftrightarrow> ?ks = []" by (cases ?ks) (simp_all add: join_params_def)
    then show ?thesis unfolding stripCgiParams_def Let_def by (simp add: tw strip_fold_first)
  qed
  have ok: "p \<noteq> [] \<and> CHR ''&'' \<notin> set p" if "p \<in> set ps" for p using that getlines_pieces unfolding assms(2) by auto
  have g: "getlines (CHR ''&'') (join_params ps) = ps"
  proof (cases ps)
    case Nil
    then show ?thesis by (simp add: join_params_def getlines_plain)
  next
    case (Cons p qs)
    then show ?thesis using getlines_join [of p qs "CHR ''&''"] ok by (simp add: join_params_def)
  qed
  have s: "stripCgiParams (base @ ''?'' @ q) names = base @ (if ps = [] then [] else ''?'' @ join_params ps)" using st [of q] by (simp add: Let_def assms(2))
  have i: "filter (\<lambda>p. p \<noteq> [] \<and> param_name p \<notin> set names) ps = ps" by (simp add: assms(2))
  have "stripCgiParams (base @ (if ps = [] then [] else ''?'' @ join_params ps)) names = base @ (if ps = [] then [] else ''?'' @ join_params ps)"
  proof (cases "ps = []")
    case True
    then show ?thesis using assms(1) by (simp add: stripCgiParams_def)
  next
    case False
    then show ?thesis using st [of "join_params ps"] g i by (simp add: Let_def)
  qed
  then show ?thesis unfolding s using g by blast
qed

theorem strip_removes_exactly_witness: "stripCgiParams ''root://h/f?tried=a&x=1&&triedrc=b&y'' [''tried'', ''triedrc''] = ''root://h/f?x=1&y''"
proof -
  have "filter (\<lambda>p. p \<noteq> [] \<and> param_name p \<notin> set [''tried'', ''triedrc'']) (getlines (CHR ''&'') ''tried=a&x=1&&triedrc=b&y'') = [''x=1'', ''y'']" by code_simp
  from strip_removes_exactly [of "''root://h/f''", OF _ this [symmetric]] show ?thesis by (simp add: join_params_def)
qed

text \<open>The hash of a key is a legal object name: its paths are those the space policy recognises.\<close>

lemma hash_is_object_name:
  assumes "url_parse url keep = Some k"
  shows "length (uk_hashHex k) = 64 \<and> CHR ''/'' \<notin> set (uk_hashHex k) \<and> CHR ''.'' \<notin> set (uk_hashHex k)"
proof -
  obtain s where "uk_hashHex k = sha256Hex s" using parse_parts [OF assms] by (auto simp: mk_key_def Let_def)
  moreover have "CHR ''/'' \<notin> set ''0123456789abcdef''" "CHR ''.'' \<notin> set ''0123456789abcdef''" by simp_all
  ultimately show ?thesis using sha256Hex_shape [of s] by auto
qed

end
