(* ===== verification/Replica_Store.thy ===== *)
theory Replica_Store
  imports Url_Key Slot_Create Replica_View
begin

text \<open>
  The store of replicas (\<^verbatim>\<open>ReplicaStore\<close> of \<^verbatim>\<open>src/src/core/ReplicaStore.cc\<close>): publication of an overlay with its sidecar, opening a view with the checks that decide
  whether it may serve, removal, and the release of superseded ranges. Times of files and the steps of other processes inside a publication are arguments. Shown for every
  schedule of faults: a sidecar that a publication makes visible has its complete overlay beside it; a view is handed out only for a sidecar that matches the origin and an
  overlay that was verified, now or when its marker was written; what was published can be opened; and a replacement that fails at its sidecar leaves the old sidecar without an overlay.
\<close>

section \<open>Paths and counters\<close>

definition tdataPath :: "urlKey \<Rightarrow> string \<Rightarrow> string" where
  "tdataPath k cacheDir = objectDir cacheDir (uk_hashHex k) @ ''/'' @ uk_hashHex k @ ''.tdata''"

definition tmetaPath :: "urlKey \<Rightarrow> string \<Rightarrow> string" where
  "tmetaPath k cacheDir = objectDir cacheDir (uk_hashHex k) @ ''/'' @ uk_hashHex k @ ''.tmeta''"

definition tokPath :: "urlKey \<Rightarrow> string \<Rightarrow> string" where
  "tokPath k cacheDir = objectDir cacheDir (uk_hashHex k) @ ''/'' @ uk_hashHex k @ ''.tok''"

record rsstats =
  rs_opens :: nat
  rs_invalid :: nat
  rs_published :: nat
  rs_crcFailures :: nat
  rs_punchedBytes :: nat

section \<open>The verify-once marker\<close>

definition kTokMagic :: bytes where "kTokMagic = map byte_of_char ''UCTV''"

definition tokImage :: "nat \<Rightarrow> nat \<Rightarrow> replicaMeta \<Rightarrow> bytes" where
  "tokImage tdataBytes mtNs m =
     (let b0 = overwrite (replicate 28 0) 0 kTokMagic;
          b1 = put_le 8 b0 4 tdataBytes;
          b2 = put_le 8 b1 12 mtNs;
          b3 = put_le 4 b2 20 (unat (crc32c (le32_list (rm_pageCrcs m))))
      in put_le 4 b3 24 (unat (crc32c (take 24 b3))))"

definition tokWrite :: "io \<Rightarrow> string \<Rightarrow> nat \<Rightarrow> nat \<Rightarrow> replicaMeta \<Rightarrow> io" where
  "tokWrite io path tdataBytes mtNs m =
     (case io_open io path True True of
        (fd, io1) \<Rightarrow>
          if fd < 0 then io1
          else case pwriteFull io1 (nat fd) (tokImage tdataBytes mtNs m) 0 0 of
            (w, io2) \<Rightarrow> snd (io_close io2 (nat fd)))"

definition tokMatches :: "io \<Rightarrow> string \<Rightarrow> nat \<Rightarrow> nat \<Rightarrow> replicaMeta \<Rightarrow> bool \<times> io" where
  "tokMatches io path tdataBytes mtNs m =
     (case io_open io path False False of
        (fd, io1) \<Rightarrow>
          if fd < 0 then (False, io1)
          else case preadFull io1 (nat fd) 28 0 [] of
            (r, got, io2) \<Rightarrow> (r = 28 \<and> got = tokImage tdataBytes mtNs m, snd (io_close io2 (nat fd))))"

section \<open>Publication\<close>

definition seal_meta :: "urlKey \<Rightarrow> replicaMeta \<Rightarrow> bytes \<Rightarrow> replicaMeta" where
  "seal_meta k meta tdata =
     (let m = meta\<lparr>rm_key := uk_key k, rm_tdataBytes := length tdata\<rparr>
      in m\<lparr>rm_pageCrcs := map (\<lambda>i. crc32c (slice (i * kOverlayPageSize) (rm_pageBytes m i) tdata)) [0..<rm_npages m]\<rparr>)"

definition write_overlay :: "io \<Rightarrow> string \<Rightarrow> bytes \<Rightarrow> int \<times> io" where
  "write_overlay io dPath tdata =
     (let dTmp = dPath @ ''.tmp''
      in case io_open io dTmp True True of (fd, io1) \<Rightarrow>
         if fd < 0 then (fd, io1)
         else case pwriteFull io1 (nat fd) tdata 0 0 of (w, io2) \<Rightarrow>
           let rc0 = (if w \<noteq> int (length tdata) then (if w < 0 then w else - EIO) else 0);
               (rc1, io3) = (if rc0 = 0 then io_fdatasync io2 (nat fd) else (rc0, io2));
               (c, io4) = io_close io3 (nat fd);
               rc2 = (if rc1 = 0 \<and> c < 0 then c else rc1);
               (rc3, io5) = (if rc2 = 0 then io_rename io4 dTmp dPath else (rc2, io4))
           in if rc3 \<noteq> 0 then (rc3, snd (io_unlink io5 dTmp)) else (rc3, io5))"

text \<open>\<open>others\<close> is what other processes do between the appearance of the sidecar and the second look for a slot store; \<open>mtNs\<close> the time \<^verbatim>\<open>stat\<close> reports.\<close>

definition publish :: "config \<Rightarrow> urlKey \<Rightarrow> replicaMeta \<Rightarrow> bytes \<Rightarrow> (io \<Rightarrow> io) \<Rightarrow> nat \<Rightarrow> io \<times> rsstats \<Rightarrow> int \<times> io \<times> rsstats" where
  "publish cfg k meta tdata others mtNs s =
     (case s of (io, st) \<Rightarrow>
        let m = seal_meta k meta tdata;
            dir = objectDir (c_cacheDir cfg) (uk_hashHex k);
            dPath = tdataPath k (c_cacheDir cfg);
            mPath = tmetaPath k (c_cacheDir cfg)
        in if replica_deserialize (replica_serialize m) = None then (- EINVAL, io, st)
           else case io_call io of (rc, io1) \<Rightarrow>
             if rc < 0 then (rc, io1, st)
             else case slot_serving io1 dir (uk_hashHex k) of (busy, io2) \<Rightarrow>
               if busy then (- EEXIST, io2, st)
               else case write_overlay io2 dPath tdata of (rc, io3) \<Rightarrow>
                 if rc \<noteq> 0 then (rc, io3, st)
                 else case replica_store io3 mPath m True of (rc, io4) \<Rightarrow>
                   if rc \<noteq> 0 then (rc, snd (io_unlink io4 dPath), st)
                   else case slot_serving (others io4) dir (uk_hashHex k) of (busy, io5) \<Rightarrow>
                     if busy then (- EEXIST, snd (io_unlink (snd (io_unlink io5 mPath)) dPath), st)
                     else case io_stat io5 dPath of (r, io6) \<Rightarrow>
                       (0, case r of Inl e \<Rightarrow> io6 | Inr sz \<Rightarrow> tokWrite io6 (tokPath k (c_cacheDir cfg)) sz mtNs m,
                        st\<lparr>rs_published := rs_published st + 1\<rparr>))"

section \<open>Opening a view\<close>

definition replica_drop :: "config \<Rightarrow> urlKey \<Rightarrow> io \<Rightarrow> io" where
  "replica_drop cfg k io =
     (let mPath = tmetaPath k (c_cacheDir cfg); dPath = tdataPath k (c_cacheDir cfg)
      in unlink_list [mPath, dPath, tokPath k (c_cacheDir cfg), mPath @ ''.tmp'', dPath @ ''.tmp''] io)"

definition quarantine :: "config \<Rightarrow> urlKey \<Rightarrow> io \<times> rsstats \<Rightarrow> rview option \<times> io \<times> rsstats" where
  "quarantine cfg k s = (case s of (io, st) \<Rightarrow> (None, replica_drop cfg k io, st\<lparr>rs_invalid := rs_invalid st + 1\<rparr>))"

text \<open>The encodings are numbered from 1 (\<^verbatim>\<open>kZstd1\<close>) to 3 (\<^verbatim>\<open>kRaw\<close>).\<close>

definition origin_matches :: "config \<Rightarrow> urlKey \<Rightarrow> nat \<Rightarrow> nat \<Rightarrow> nat \<Rightarrow> nat \<Rightarrow> replicaMeta \<Rightarrow> bool" where
  "origin_matches cfg k osize omtime ckind ocksum m \<longleftrightarrow>
     rm_key m = uk_key k \<and> rm_originSize m = osize \<and> 1 \<le> rm_encoding m \<and> rm_encoding m \<le> 3 \<and>
     (c_validate cfg = kSizeMtime \<longrightarrow> rm_originMtime m = omtime) \<and>
     (c_validate cfg = kCksum \<and> ckind \<noteq> 0 \<longrightarrow> rm_cksumKind m = ckind \<and> rm_originCksum m = ocksum)"

text \<open>The scan of the whole overlay at open time.\<close>

function verify_overlay :: "replicaMeta \<Rightarrow> nat \<Rightarrow> nat \<Rightarrow> io \<Rightarrow> bool \<times> io" where
  "verify_overlay m fd rf io =
     (if \<not> rf < rm_npages m then (True, io)
      else
        let rl = coalesce_end m rf rf (rm_npages m - 1);
            rBytes = rm_runBytes m rf rl
        in case preadFull io fd rBytes (rf * kOverlayPageSize) [] of (r, xs, io1) \<Rightarrow>
          if \<not> rv_verify m [rf..<Suc rl] xs (if r > 0 then nat r else 0) 0 then (False, io1)
          else verify_overlay m fd (rl + 1) io1)"
  by pat_completeness auto
termination
proof (relation "measure (\<lambda>(m, fd, rf, io). rm_npages m - rf)")
  show "((m, fd, rl + 1, io'), (m, fd, rf, io)) \<in> measure (\<lambda>(m, fd, rf, io). rm_npages m - rf)"
    if "\<not> \<not> rf < rm_npages m" "rl = coalesce_end m rf rf (rm_npages m - 1)" for m rl rf and fd :: nat and io io' :: io
    using that coalesce_end_bounds [of rf m rf "rm_npages m - 1"] by auto
qed simp

declare verify_overlay.simps [simp del]

definition openView :: "config \<Rightarrow> urlKey \<Rightarrow> nat \<Rightarrow> nat \<Rightarrow> nat \<Rightarrow> nat \<Rightarrow> nat \<Rightarrow> io \<times> rsstats \<Rightarrow> rview option \<times> io \<times> rsstats" where
  "openView cfg k osize omtime ckind ocksum mtNs s =
     (case s of (io, st) \<Rightarrow>
        let mPath = tmetaPath k (c_cacheDir cfg); dPath = tdataPath k (c_cacheDir cfg); tPath = tokPath k (c_cacheDir cfg)
        in case io_stat io mPath of
          (Inl e, io1) \<Rightarrow> (None, io1, st)
        | (Inr sz0, io1) \<Rightarrow>
            (case replica_load io1 mPath of
               (None, io2) \<Rightarrow> quarantine cfg k (io2, st)
             | (Some m, io2) \<Rightarrow>
                 if \<not> origin_matches cfg k osize omtime ckind ocksum m then quarantine cfg k (io2, st)
                 else case io_open io2 dPath False False of (fd, io3) \<Rightarrow>
                   if fd < 0 then quarantine cfg k (io3, st)
                   else case io_fstat io3 (nat fd) of
                     (Inl e, io4) \<Rightarrow> quarantine cfg k (snd (io_close io4 (nat fd)), st)
                   | (Inr (ino, nl, sz), io4) \<Rightarrow>
                       if sz \<noteq> rm_tdataBytes m then quarantine cfg k (snd (io_close io4 (nat fd)), st)
                       else
                         let v = \<lparr>rv_meta = m, rv_fd = nat fd, rv_invalid = False\<rparr>
                         in case tokMatches io4 tPath (rm_tdataBytes m) mtNs m of (hit, io5) \<Rightarrow>
                           if hit then (Some v, io5, st\<lparr>rs_opens := rs_opens st + 1\<rparr>)
                           else case verify_overlay m (nat fd) 0 io5 of (ok, io6) \<Rightarrow>
                             if \<not> ok
                             then quarantine cfg k (snd (io_close io6 (nat fd)), st\<lparr>rs_crcFailures := rs_crcFailures st + 1\<rparr>)
                             else (Some v, tokWrite io6 tPath (rm_tdataBytes m) mtNs m, st\<lparr>rs_opens := rs_opens st + 1\<rparr>)))"

definition punchSuperseded :: "config \<Rightarrow> nat \<Rightarrow> (proc \<times> entry) \<times> rsstats \<Rightarrow> srange list \<Rightarrow> nat \<times> (proc \<times> entry) \<times> rsstats" where
  "punchSuperseded cfg now s ranges =
     (case s of (pe, st) \<Rightarrow>
        (case releaseRanges cfg now pe (map (\<lambda>r. (s_off r, s_len r)) ranges) of
           (n, pe1) \<Rightarrow> (n, pe1, st\<lparr>rs_punchedBytes := rs_punchedBytes st + n\<rparr>)))"

section \<open>Names that share no file\<close>

text \<open>The names in \<open>ps\<close> each denote a file of their own: no other name reaches it. The file names of a replica are never linked.\<close>

definition calm :: "string set \<Rightarrow> io \<Rightarrow> bool" where
  "calm ps io \<longleftrightarrow> io_ok io \<and> distinct (map fst (io_names io)) \<and>
     (\<forall>p q i. p \<in> ps \<longrightarrow> map_of (io_names io) p = Some i \<longrightarrow> map_of (io_names io) q = Some i \<longrightarrow> q = p)"

lemma calmD: "calm ps io \<Longrightarrow> io_ok io" "calm ps io \<Longrightarrow> p \<in> ps \<Longrightarrow> map_of (io_names io) p = Some i \<Longrightarrow> map_of (io_names io) q = Some i \<Longrightarrow> q = p"
  by (auto simp: calm_def)

lemma calm_frame: "io_frame i a b \<Longrightarrow> calm ps a \<Longrightarrow> calm ps b"
  by (simp add: calm_def io_frame_def io_ok_def)

lemma calm_same: "io_same a b \<Longrightarrow> calm ps a \<Longrightarrow> calm ps b"
  by (rule calm_frame [OF io_same_frame])

lemma calm_tmp_private: "calm ps io \<Longrightarrow> path @ ''.tmp'' \<in> ps \<Longrightarrow> tmp_private io path"
  by (auto simp: tmp_private_def list_all_iff calm_def split: option.split)

lemma calm_names:
  assumes "calm ps a" and "io_ok b" and "distinct (map fst (io_names b))"
    and "\<And>p i. map_of (io_names b) p = Some i \<Longrightarrow> map_of (io_names a) p = Some i"
  shows "calm ps b"
  using assms by (fastforce simp: calm_def)

lemma set_update_sub: "set (AList.update k v xs) \<subseteq> insert (k, v) (set xs)"
  by (induction xs) auto

lemma set_delete_sub: "set (AList.delete k xs) \<subseteq> set xs"
  by (auto simp: AList.delete_eq)

lemma calm_unlink: "calm ps io \<Longrightarrow> calm ps (snd (io_unlink io q))"
proof -
  assume c: "calm ps io"
  obtain oc io2 where o: "next_outcome io = (oc, io2)" by fastforce
  note s = next_outcome_same [OF o]
  have d: "io_ok (io2\<lparr>io_names := AList.delete q (io_names io2)\<rparr>)" "distinct (map fst (AList.delete q (io_names io2)))"
    using calm_same [OF s c] distinct_delete [of "io_names io2" q] set_delete_sub [of q "io_names io2"] by (auto simp: calm_def io_ok_def)
  show ?thesis
  proof (cases "snd (io_unlink io q) = io2")
    case True
    then show ?thesis using calm_same [OF s c] by simp
  next
    case False
    then have "snd (io_unlink io q) = io2\<lparr>io_names := AList.delete q (io_names io2)\<rparr>"
      by (auto simp: io_unlink_def o split: outcome.splits if_splits)
    then show ?thesis using d by (auto intro: calm_names [OF calm_same [OF s c]] simp: AList.delete_conv' split: if_splits)
  qed
qed

lemma calm_close: "calm ps io \<Longrightarrow> calm ps (snd (io_close io fd))"
proof -
  assume c: "calm ps io"
  obtain oc io2 where o: "next_outcome io = (oc, io2)" by fastforce
  have c2: "calm ps io2" by (rule calm_same [OF next_outcome_same [OF o] c])
  have "calm ps (io2\<lparr>io_fds := AList.delete fd (io_fds io2)\<rparr>)"
    using c2 set_delete_sub [of fd "io_fds io2"] by (auto simp: calm_def io_ok_def)
  then show ?thesis using c2 by (auto simp: io_close_def o split: outcome.splits)
qed

lemma open_fds:
  assumes "io_open io p c t = (fd, io1)"
  shows "fd < 0 \<and> io_same io io1 \<or>
    fd = int (io_next io) \<and> io_next io1 = Suc (io_next io) \<and> (\<forall>g. g \<noteq> nat fd \<longrightarrow> map_of (io_fds io1) g = map_of (io_fds io) g)"
proof -
  obtain oc io2 where o: "next_outcome io = (oc, io2)" by fastforce
  note s = next_outcome_same [OF o] and sd = io_sameD [OF next_outcome_same [OF o]]
  show ?thesis using assms s sd
    by (auto simp: io_open_def o Let_def AList.update_conv' errval_def errno_defs split: outcome.splits option.splits if_splits)
qed

lemma calm_fresh_name:
  assumes "calm ps io" and "io_names b = AList.update p (io_next io) (io_names io)" and "io_ok b"
  shows "calm ps b"
proof -
  have old: "map_of (io_names io) q = Some i \<Longrightarrow> i < io_next io" for q i using io_ok_names [OF calmD(1) [OF assms(1)]] .
  have "q = r" if "r \<in> ps" "map_of (io_names b) r = Some i" "map_of (io_names b) q = Some i" for q r i
  proof (cases "i = io_next io")
    case True
    then show ?thesis using that(2,3) old by (auto simp: assms(2) AList.update_conv' split: if_splits dest!: old)
  next
    case False
    then show ?thesis using that calmD(2) [OF assms(1)] by (auto simp: assms(2) AList.update_conv' split: if_splits)
  qed
  moreover have "distinct (map fst (io_names b))" using assms(1) by (simp add: assms(2) calm_def distinct_update)
  ultimately show ?thesis using assms(3) by (auto simp: calm_def)
qed

lemma calm_open:
  assumes "io_open io p c t = (fd, io1)" and "calm ps io"
  shows "calm ps io1"
proof -
  obtain oc io2 where o: "next_outcome io = (oc, io2)" by fastforce
  have c2: "calm ps io2" by (rule calm_same [OF next_outcome_same [OF o] assms(2)])
  define n where "n = io_next io2"
  have ok: "io_ok io2" using c2 by (rule calmD)
  show ?thesis
  proof (cases "map_of (io_names io2) p")
    case (Some i)
    have i: "i < n" using io_ok_names [OF ok Some] by (simp add: n_def)
    have g: "calm ps (a\<lparr>io_fds := AList.update n i (io_fds a), io_next := n + 1\<rparr>)"
      if "io_names a = io_names io2" "io_fds a = io_fds io2" for a
    proof -
      have "io_ok (a\<lparr>io_fds := AList.update n i (io_fds a), io_next := n + 1\<rparr>)"
        using ok i set_update_sub [of n i "io_fds io2"] that by (fastforce simp: io_ok_def n_def)
      then show ?thesis using c2 that by (simp add: calm_def)
    qed
    show ?thesis
      using assms(1) g [of io2] g [of "set_content io2 i []"] c2 Some
      by (auto simp: io_open_def o Let_def n_def split: outcome.splits if_splits)
  next
    case None
    have "io_ok ((set_content io2 n [])\<lparr>io_names := AList.update p n (io_names io2), io_fds := AList.update n n (io_fds io2), io_next := n + 1\<rparr>)"
      using ok set_update_sub [of n n "io_fds io2"] set_update_sub [of p n "io_names io2"] by (fastforce simp: io_ok_def n_def)
    from calm_fresh_name [OF c2 _ this, of p]
    show ?thesis using assms(1) c2 None by (auto simp: io_open_def o Let_def n_def split: outcome.splits if_splits)
  qed
qed

lemma calm_rename:
  assumes "io_rename io p q = (r, io1)" and "calm ps io" and "p \<in> ps" and "p \<noteq> q"
  shows "calm ps io1"
proof -
  obtain oc io2 where o: "next_outcome io = (oc, io2)" by fastforce
  have c2: "calm ps io2" by (rule calm_same [OF next_outcome_same [OF o] assms(2)])
  show ?thesis
  proof (cases "io1 = io2")
    case False
    then obtain i where i: "map_of (io_names io2) p = Some i" "io1 = io2\<lparr>io_names := AList.update q i (AList.delete p (io_names io2))\<rparr>"
      using assms(1,4) by (auto simp: io_rename_def o split: outcome.splits option.splits)
    have m: "map_of (io_names io1) x = (if x = q then Some i else if x = p then None else map_of (io_names io2) x)" for x
      by (simp add: i(2) AList.update_conv' AList.delete_conv')
    have only: "map_of (io_names io2) x = Some i \<Longrightarrow> x = p" for x using calmD(2) [OF c2 assms(3) i(1)] .
    have "io_ok io1"
      using calmD(1) [OF c2] io_ok_names [OF calmD(1) [OF c2] i(1)] set_update_sub [of q i "AList.delete p (io_names io2)"] set_delete_sub [of p "io_names io2"]
      by (fastforce simp: i(2) io_ok_def)
    moreover have "distinct (map fst (io_names io1))" using c2 by (simp add: i(2) calm_def distinct_update distinct_delete)
    moreover have "y = x" if "x \<in> ps" "map_of (io_names io1) x = Some j" "map_of (io_names io1) y = Some j" for x y j
      using that calmD(2) [OF c2, of x j y] only by (auto simp: m split: if_splits)
    ultimately show ?thesis by (auto simp: calm_def)
  qed (use c2 in simp)
qed

section \<open>What the parts keep\<close>

lemma write_overlay_eq: "write_overlay io dPath tdata = write_image io dPath tdata True"
  by (auto simp: write_overlay_def write_image_def Let_def split: prod.splits if_splits)

lemma write_image_calm:
  assumes w: "write_image io path buf sync = (rc, io1)" and c: "calm ps io" and t: "path @ ''.tmp'' \<in> ps"
  shows "calm ps io1"
proof -
  let ?tmp = "path @ ''.tmp''"
  obtain fd a where o: "io_open io ?tmp True True = (fd, a)" by fastforce
  have ca: "calm ps a" by (rule calm_open [OF o c])
  show ?thesis
  proof (cases "fd < 0")
    case True
    then show ?thesis using w o ca by (simp add: write_image_def Let_def)
  next
    case False
    then obtain i where i: "map_of (io_fds a) (nat fd) = Some i" using io_open_trunc [OF o calmD(1) [OF c]] by auto
    obtain n b where p: "pwriteFull a (nat fd) buf 0 0 = (n, b)" by fastforce
    have cb: "calm ps b" using calm_frame [of i a b] pwriteFull_spec [OF p i, of "content a i"] ca by simp
    obtain rc1 d where d: "(if (if n \<noteq> int (length buf) then (if n < 0 then n else - EIO) else 0) = 0 \<and> sync then io_fdatasync b (nat fd)
        else (if n \<noteq> int (length buf) then (if n < 0 then n else - EIO) else 0, b)) = (rc1, d)" by fastforce
    have cd: "calm ps d" using d cb calm_same [OF io_fdatasync_same [of b "nat fd" rc1 d]] by (auto split: if_splits)
    obtain k e where e: "io_close d (nat fd) = (k, e)" by fastforce
    have ce: "calm ps e" using calm_close [OF cd, of "nat fd"] e by simp
    obtain rc3 g where g: "io_rename e ?tmp path = (rc3, g)" by fastforce
    have cg: "calm ps g" by (rule calm_rename [OF g ce t]) simp
    have "io1 \<in> {snd (io_unlink e ?tmp), snd (io_unlink g ?tmp), g}"
      using w False by (auto simp: write_image_def Let_def o p d e g split: if_splits)
    then show ?thesis using ce cg calm_unlink by auto
  qed
qed

lemma serving_keeps:
  assumes "slot_serving io dir h = (b, io1)"
  shows "store_eq io io1" "calm ps io \<Longrightarrow> calm ps io1"
proof -
  obtain fd a where o: "io_open io (slot_path dir h) False False = (fd, a)" by fastforce
  note ob = io_open_existing [OF o]
  obtain r x c where p: "preadFull a (nat fd) kHeaderBytes 0 [] = (r, x, c)" by (metis prod_cases3)
  have s: "io_same a c" if "0 \<le> fd" using ob that preadFull_kept [OF p] by auto
  have e: "io1 = (if fd < 0 then a else snd (io_close c (nat fd)))" using assms by (auto simp: slot_serving_def o p split: if_splits)
  have "store_eq io a" using ob by (simp add: store_eq_def)
  then show "store_eq io io1"
    using e s io_same_store_eq [of a c] close_store_eq [of c "nat fd"] by (auto simp: store_eq_def)
  show "calm ps io1" if "calm ps io"
    using calm_open [OF o that] calm_same [OF s] calm_close [of ps c "nat fd"] e by auto
qed

lemma close_fds: "g \<noteq> fd \<Longrightarrow> map_of (io_fds (snd (io_close io fd))) g = map_of (io_fds io) g"
proof -
  assume g: "g \<noteq> fd"
  obtain oc io2 where o: "next_outcome io = (oc, io2)" by fastforce
  note sd = io_sameD [OF next_outcome_same [OF o]]
  show ?thesis using sd g by (auto simp: io_close_def o AList.delete_conv' split: outcome.splits)
qed

text \<open>Writing the marker touches no other file and no open descriptor.\<close>

lemma tokWrite_keeps:
  assumes c: "calm ps io" and p: "path \<in> ps" and io1: "io1 = tokWrite io path tb mt m"
  shows "calm ps io1" "q \<noteq> path \<Longrightarrow> map_of (io_names io1) q = map_of (io_names io) q"
    "q \<noteq> path \<Longrightarrow> map_of (io_names io) q = Some i \<Longrightarrow> content io1 i = content io i"
    "map_of (io_fds io) g = Some i \<Longrightarrow> map_of (io_fds io1) g = Some i"
proof -
  obtain fd a where o: "io_open io path True True = (fd, a)" by fastforce
  note ok = calmD(1) [OF c] and ca = calm_open [OF o c]
  have "calm ps io1 \<and> (\<forall>q. q \<noteq> path \<longrightarrow> map_of (io_names io1) q = map_of (io_names io) q) \<and>
    (\<forall>q i. q \<noteq> path \<longrightarrow> map_of (io_names io) q = Some i \<longrightarrow> content io1 i = content io i) \<and>
    (\<forall>g i. map_of (io_fds io) g = Some i \<longrightarrow> map_of (io_fds io1) g = Some i)"
  proof (cases "fd < 0")
    case True
    then have "io_same io io1" using io_open_trunc [OF o ok] o by (auto simp: io1 tokWrite_def)
    then show ?thesis using io_sameD [of io io1] calm_same [OF _ c] by auto
  next
    case False
    then obtain j where j: "map_of (io_fds a) (nat fd) = Some j" "\<And>q. q \<noteq> path \<Longrightarrow> map_of (io_names a) q = map_of (io_names io) q"
        "map_of (io_names a) path = Some j" "\<And>x. x \<noteq> j \<Longrightarrow> content a x = content io x"
        "map_of (io_names io) path = Some j \<or> map_of (io_names io) path = None \<and> j = io_next io"
      using io_open_trunc [OF o ok] by auto
    obtain w b where w: "pwriteFull a (nat fd) (tokImage tb mt m) 0 0 = (w, b)" by fastforce
    have f: "io_frame j a b" using pwriteFull_spec [OF w j(1), of "content a j"] by simp
    have e: "io1 = snd (io_close b (nat fd))" using False by (simp add: io1 tokWrite_def o w)
    have n: "io_names io1 = io_names a" "\<And>x. x \<noteq> j \<Longrightarrow> content io1 x = content a x"
      using close_store_eq [of b "nat fd"] f by (auto simp: e store_eq_def io_frame_def)
    have ne: "i \<noteq> j" if "q \<noteq> path" "map_of (io_names io) q = Some i" for q i
      using j(2) [of q] that calmD(2) [OF ca p j(3)] by auto
    have nf: "fd = int (io_next io)" "\<And>g. g \<noteq> nat fd \<Longrightarrow> map_of (io_fds a) g = map_of (io_fds io) g" using open_fds [OF o] False by auto
    have fds: "map_of (io_fds io1) g = Some i" if "map_of (io_fds io) g = Some i" for g i
    proof -
      have "g \<noteq> nat fd" using that ok nf(1) by (auto simp: io_ok_def dest!: map_of_SomeD)
      then show ?thesis using that nf(2) close_fds [of g "nat fd" b] f by (simp add: e io_frame_def)
    qed
    have "calm ps io1" unfolding e by (rule calm_close [OF calm_frame [OF f ca]])
    then show ?thesis using n j(2,4) ne fds by auto
  qed
  then show "calm ps io1" "q \<noteq> path \<Longrightarrow> map_of (io_names io1) q = map_of (io_names io) q"
    "q \<noteq> path \<Longrightarrow> map_of (io_names io) q = Some i \<Longrightarrow> content io1 i = content io i"
    "map_of (io_fds io) g = Some i \<Longrightarrow> map_of (io_fds io1) g = Some i" by auto
qed

lemma tokWrite_file: "calm ps io \<Longrightarrow> path \<in> ps \<Longrightarrow> q \<noteq> path \<Longrightarrow> file_at (tokWrite io path tb mt m) q = file_at io q"
  using tokWrite_keeps(2,3) [of ps io path _ tb mt m q] by (cases "map_of (io_names io) q") (auto simp: file_at_def)

section \<open>A published replica is whole\<close>

definition replica_names :: "config \<Rightarrow> urlKey \<Rightarrow> string set" where
  "replica_names cfg k =
     (let d = tdataPath k (c_cacheDir cfg); m = tmetaPath k (c_cacheDir cfg) in {d, m, tokPath k (c_cacheDir cfg), d @ ''.tmp'', m @ ''.tmp''})"

lemma replica_paths:
  fixes k and cd defines "d \<equiv> tdataPath k cd" and "m \<equiv> tmetaPath k cd" and "t \<equiv> tokPath k cd"
  shows "d \<noteq> m" "m \<noteq> d" "t \<noteq> d" "t \<noteq> m" "d \<noteq> t" "m \<noteq> t" "d @ ''.tmp'' \<noteq> m" "m @ ''.tmp'' \<noteq> d" "m @ ''.tmp'' \<noteq> m" "d @ ''.tmp'' \<noteq> d"
    "d \<noteq> m @ ''.tmp''" "m \<noteq> d @ ''.tmp''"
  by (simp_all add: d_def m_def t_def tdataPath_def tmetaPath_def tokPath_def)

lemma replica_names_in [simp]:
  "tdataPath k (c_cacheDir cfg) \<in> replica_names cfg k" "tmetaPath k (c_cacheDir cfg) \<in> replica_names cfg k" "tokPath k (c_cacheDir cfg) \<in> replica_names cfg k"
  "tdataPath k (c_cacheDir cfg) @ ''.tmp'' \<in> replica_names cfg k" "tmetaPath k (c_cacheDir cfg) @ ''.tmp'' \<in> replica_names cfg k"
  by (simp_all add: replica_names_def Let_def)

text \<open>What a publication relies on of the others: they leave its two files alone and link none of its names.\<close>

definition leaves_replica :: "config \<Rightarrow> urlKey \<Rightarrow> (io \<Rightarrow> io) \<Rightarrow> bool" where
  "leaves_replica cfg k others \<longleftrightarrow> (\<forall>a. (calm (replica_names cfg k) a \<longrightarrow> calm (replica_names cfg k) (others a)) \<and>
     file_at (others a) (tdataPath k (c_cacheDir cfg)) = file_at a (tdataPath k (c_cacheDir cfg)) \<and>
     file_at (others a) (tmetaPath k (c_cacheDir cfg)) = file_at a (tmetaPath k (c_cacheDir cfg)))"

lemma publish_start:
  assumes "io_call io = (rc0, a)" and "slot_serving a dir h = (busy, b)" and "calm ps io"
  shows "calm ps a" "calm ps b" "file_at a q = file_at io q" "file_at b q = file_at io q"
  using calm_same [OF io_call_same [OF assms(1)] assms(3)] serving_keeps [OF assms(2)] io_same_store_eq [OF io_call_same [OF assms(1)]]
  by (simp_all add: store_eq_file_at)

lemma overlay_spec:
  assumes "write_overlay b d tdata = (rc, c)" and "calm ps b" and "d @ ''.tmp'' \<in> ps"
  shows "calm ps c" "q \<noteq> d @ ''.tmp'' \<Longrightarrow> file_at c q = (if q = d \<and> rc = 0 then Some tdata else file_at b q)"
  using write_image_calm [OF assms(1) [unfolded write_overlay_eq] assms(2,3)]
    write_image_spec [OF assms(1) [unfolded write_overlay_eq] calmD(1) [OF assms(2)] calm_tmp_private [OF assms(2,3)]] by auto

lemma sidecar_spec:
  assumes "replica_store c m meta s = (rc, e)" and "calm ps c" and "m @ ''.tmp'' \<in> ps"
  shows "calm ps e" "q \<noteq> m @ ''.tmp'' \<Longrightarrow> file_at e q = (if q = m \<and> rc = 0 then Some (replica_serialize meta) else file_at c q)"
  using write_image_calm [OF assms(1) [unfolded replica_store_def] assms(2,3)]
    write_image_spec [OF assms(1) [unfolded replica_store_def] calmD(1) [OF assms(2)] calm_tmp_private [OF assms(2,3)]] by auto

lemma unlink_other: "q \<noteq> p \<Longrightarrow> file_at (snd (io_unlink io p)) q = file_at io q"
  using unlink_kept [of p q io] by (auto simp: path_kept_def)

lemma publish_spec:
  fixes cfg k meta tdata
  defines "d \<equiv> tdataPath k (c_cacheDir cfg)" and "m \<equiv> tmetaPath k (c_cacheDir cfg)" and "img \<equiv> replica_serialize (seal_meta k meta tdata)"
  assumes c: "calm (replica_names cfg k) io" and o: "leaves_replica cfg k others"
    and p: "publish cfg k meta tdata others mt (io, st) = (rc, io1, st1)"
  shows "rc = 0 \<Longrightarrow> file_at io1 d = Some tdata \<and> file_at io1 m = Some img \<and> replica_deserialize img \<noteq> None"
    "file_at io1 m \<in> {file_at io m, None, Some img}"
    "file_at io m = None \<Longrightarrow> file_at io1 m \<noteq> None \<Longrightarrow> rc = - EEXIST \<or> file_at io1 d = Some tdata"
    "rc = 0 \<Longrightarrow> calm (replica_names cfg k) io1"
proof -
  let ?R = "replica_names cfg k" and ?dir = "objectDir (c_cacheDir cfg) (uk_hashHex k)" and ?t = "tokPath k (c_cacheDir cfg)"
  note N = replica_paths [of k "c_cacheDir cfg", folded d_def m_def]
  have R: "d @ ''.tmp'' \<in> ?R" "m @ ''.tmp'' \<in> ?R" by (simp_all add: d_def m_def)
  obtain rc0 a where a: "io_call io = (rc0, a)" by fastforce
  obtain busy b where b: "slot_serving a ?dir (uk_hashHex k) = (busy, b)" by fastforce
  note B = publish_start [OF a b c]
  obtain rc1 e where e: "write_overlay b d tdata = (rc1, e)" by fastforce
  note E = overlay_spec [OF e B(2) R(1)]
  obtain rc2 f where f: "replica_store e m (seal_meta k meta tdata) True = (rc2, f)" by fastforce
  note F = sidecar_spec [OF f E(1) R(2), folded img_def]
  obtain busy2 g where g: "slot_serving (others f) ?dir (uk_hashHex k) = (busy2, g)" by fastforce
  have G: "calm ?R g" "file_at g d = file_at f d" "file_at g m = file_at f m"
    using serving_keeps [OF g] o F(1) by (auto simp: leaves_replica_def store_eq_file_at d_def m_def)
  obtain r h where h: "io_stat g d = (r, h)" by fastforce
  have H: "calm ?R h" "file_at h q = file_at g q" for q
    using io_stat_same [OF h] calm_same G(1) io_same_store_eq store_eq_file_at by blast+
  define z where "z = (case r of Inl _ \<Rightarrow> h | Inr sz \<Rightarrow> tokWrite h ?t sz mt (seal_meta k meta tdata))"
  have Z: "calm ?R z" "q \<noteq> ?t \<Longrightarrow> file_at z q = file_at h q" for q
    using H(1) tokWrite_keeps(1) [OF H(1) _ refl, of ?t] tokWrite_file [OF H(1), of ?t] by (auto simp: z_def split: sum.split)
  note P = p [unfolded publish_def, simplified, folded d_def m_def, unfolded Let_def, folded img_def]
  consider (early) "rc \<noteq> 0" "io1 \<in> {io, a, b, e}" "io1 = e \<longrightarrow> rc1 \<noteq> 0 \<or> e \<in> {io, a, b}"
    | (nometa) "rc \<noteq> 0" "rc1 = 0" "rc2 \<noteq> 0" "io1 = snd (io_unlink f d)"
    | (withdrawn) "rc = - EEXIST" "rc1 = 0" "rc2 = 0" "io1 = snd (io_unlink (snd (io_unlink g m)) d)"
    | (ok) "rc = 0" "rc1 = 0" "rc2 = 0" "io1 = z" "replica_deserialize img \<noteq> None"
    using P by (auto simp: a b e f g h z_def errno_defs EINVAL_def split: if_splits)
  note K = this
  have neE: "- EEXIST \<noteq> 0" by (simp add: EEXIST_def)
  have old: "file_at e m = file_at io m" using E(2) [of m] B(4) N by simp
  have fm: "file_at f m = (if rc2 = 0 then Some img else file_at io m)" "rc1 = 0 \<Longrightarrow> file_at f d = Some tdata"
    using F(2) [of m] F(2) [of d] E(2) [of d] old N by auto
  show "file_at io1 m \<in> {file_at io m, None, Some img}"
    using K
  proof cases
    case withdrawn
    then show ?thesis using unlink_file [of g m] unlink_other [of m d "snd (io_unlink g m)"] G fm N by auto
  qed (use old B fm unlink_other [of m d f] Z(2) [of m] H(2) G(3) N in auto)
  show "rc = - EEXIST \<or> file_at io1 d = Some tdata" if "file_at io m = None" "file_at io1 m \<noteq> None"
    using K
  proof cases
    case nometa
    then show ?thesis using that fm unlink_other [of m d f] N by simp
  qed (use that old B Z(2) [of d] H(2) G(2) fm N in auto)
  show "file_at io1 d = Some tdata \<and> file_at io1 m = Some img \<and> replica_deserialize img \<noteq> None" if "rc = 0"
    using K that neE Z(2) H(2) G fm N by cases auto
  show "calm ?R io1" if "rc = 0" using K that neE Z(1) by cases auto
qed

section \<open>A view is verified\<close>

lemma read_image_calm:
  assumes "read_image io path = (b, io1)" and "calm ps io"
  shows "calm ps io1"
proof -
  obtain r a where a: "io_stat io path = (r, a)" by fastforce
  have ca: "calm ps a" by (rule calm_same [OF io_stat_same [OF a] assms(2)])
  obtain fd e where e: "io_open a path False False = (fd, e)" by fastforce
  have ce: "calm ps e" by (rule calm_open [OF e ca])
  have "calm ps (snd (io_close g (nat fd)))" if "preadFull e (nat fd) n 0 [] = (x, buf, g)" "0 \<le> fd" for n x buf g
    using io_open_existing [OF e] that calm_close [OF calm_same [OF preadFull_kept [OF that(1)] ce]] by auto
  then show ?thesis using assms(1) ca ce by (auto simp: read_image_def a e Let_def split: sum.splits if_splits prod.splits)
qed

text \<open>Opening a file for reading, looking at it and closing it again keeps names, bytes and the other descriptors.\<close>

definition fds_kept :: "io \<Rightarrow> io \<Rightarrow> bool" where
  "fds_kept a b \<longleftrightarrow> (\<forall>g i. map_of (io_fds a) g = Some i \<longrightarrow> map_of (io_fds b) g = Some i)"

lemma length_tokImage: "length (tokImage tb mt m) = 28"
  by (simp add: tokImage_def Let_def kTokMagic_def)

lemma tokMatches_spec:
  assumes t: "tokMatches io path tb mt m = (hit, io1)" and c: "calm ps io"
  shows "store_eq io io1" "calm ps io1" "fds_kept io io1"
    "hit \<Longrightarrow> \<exists>bs. file_at io path = Some bs \<and> take 28 bs = tokImage tb mt m"
proof -
  obtain fd a where o: "io_open io path False False = (fd, a)" by fastforce
  note ob = io_open_existing [OF o] and ca = calm_open [OF o c] and of = open_fds [OF o]
  have "store_eq io io1 \<and> calm ps io1 \<and> fds_kept io io1 \<and> (hit \<longrightarrow> (\<exists>bs. file_at io path = Some bs \<and> take 28 bs = tokImage tb mt m))"
  proof (cases "fd < 0")
    case True
    then have "io1 = a" "\<not> hit" "io_same io a" using t of by (auto simp: tokMatches_def o)
    then show ?thesis using ca io_same_store_eq io_sameD(3) [of io a] by (simp add: fds_kept_def)
  next
    case False
    obtain r xs b where p: "preadFull a (nat fd) 28 0 [] = (r, xs, b)" by (metis prod_cases3)
    obtain i where i: "map_of (io_names io) path = Some i" "map_of (io_fds a) (nat fd) = Some i" using ob False by auto
    have s: "io_same a b" by (rule preadFull_kept [OF p i(2)])
    have e: "io1 = snd (io_close b (nat fd))" "hit \<longleftrightarrow> r = 28 \<and> xs = tokImage tb mt m" using t False by (simp_all add: tokMatches_def o p)
    have "store_eq io io1" using ob io_same_store_eq [OF s] close_store_eq [of b "nat fd"] by (simp add: e store_eq_def)
    moreover have "calm ps io1" unfolding e(1) by (rule calm_close [OF calm_same [OF s ca]])
    moreover have "fds_kept io io1"
    proof -
      have "g < io_next io" if "map_of (io_fds io) g = Some j" for g j using that calmD(1) [OF c] by (auto simp: io_ok_def dest!: map_of_SomeD)
      then show ?thesis using of False close_fds [of _ "nat fd" b] io_sameD(3) [OF s] by (auto simp: fds_kept_def e(1)) (metis less_irrefl nat_int)
    qed
    moreover have "take 28 (content io i) = tokImage tb mt m" if hit
      using preadFull_length_le [OF p i(2)] that ob by (simp add: e(2) slice_def)
    ultimately show ?thesis using i(1) by (auto simp: file_at_def)
  qed
  then show "store_eq io io1" "calm ps io1" "fds_kept io io1"
    "hit \<Longrightarrow> \<exists>bs. file_at io path = Some bs \<and> take 28 bs = tokImage tb mt m" by auto
qed

lemma verify_overlay_spec:
  assumes "rm_tdataBytes m < 2 ^ 63" and "map_of (io_fds io) fd = Some ino" and "verify_overlay m fd rf io = (ok, io1)"
  shows "io_same io io1 \<and> (ok \<longrightarrow> (\<forall>j. rf \<le> j \<longrightarrow> j < rm_npages m \<longrightarrow> overlay_page_ok m (content io ino) j))"
  using assms
proof (induction m fd rf io arbitrary: ok rule: verify_overlay.induct)
  case (1 m fd rf io)
  show ?case
  proof (cases "rf < rm_npages m")
    case False
    then show ?thesis using "1.prems"(3) by (simp add: verify_overlay.simps [of m fd rf])
  next
    case True
    define rl where "rl = coalesce_end m rf rf (rm_npages m - 1)"
    have rl: "rf \<le> rl" "rl < rm_npages m" using coalesce_end_bounds [of rf m rf "rm_npages m - 1"] True by (auto simp: rl_def)
    obtain r xs a where p: "preadFull io fd (rm_runBytes m rf rl) (rf * OP) [] = (r, xs, a)" by (metis prod_cases3)
    have s: "io_same io a" by (rule preadFull_kept [OF p "1.prems"(2)])
    note sd = io_sameD [OF s]
    show ?thesis
    proof (cases "rv_verify m [rf..<Suc rl] xs (if r > 0 then nat r else 0) 0")
      case False
      then show ?thesis using "1.prems"(3) True s p by (simp add: verify_overlay.simps [of m fd rf] Let_def rl_def del: upt_Suc)
    next
      case ok: True
      note R = rv_run [OF "1.prems"(1) rl p "1.prems"(2) ok]
      have v: "verify_overlay m fd (rl + 1) a = (ok, io1)"
        using "1.prems"(3) True p ok by (simp add: verify_overlay.simps [of m fd rf] Let_def rl_def del: upt_Suc)
      have "io_same a io1 \<and> (ok \<longrightarrow> (\<forall>j. rl + 1 \<le> j \<longrightarrow> j < rm_npages m \<longrightarrow> overlay_page_ok m (content a ino) j))"
        using "1.IH" [OF _ rl_def refl p [symmetric] refl _ "1.prems"(1) _ v] True ok "1.prems"(2) sd(3) by simp
      moreover have "overlay_page_ok m (content io ino) j" if "rf \<le> j" "j \<le> rl" for j using R(4) that by simp
      ultimately show ?thesis using s io_same_trans sd(5) by (metis Suc_eq_plus1 not_less_eq_eq)
    qed
  qed
qed

lemma verify_overlay_same:
  "map_of (io_fds io) fd = Some ino \<Longrightarrow> verify_overlay m fd rf io = (ok, io1) \<Longrightarrow> io_same io io1"
proof (induction m fd rf io arbitrary: ok rule: verify_overlay.induct)
  case (1 m fd rf io)
  define rl where "rl = coalesce_end m rf rf (rm_npages m - 1)"
  obtain r xs a where p: "preadFull io fd (rm_runBytes m rf rl) (rf * OP) [] = (r, xs, a)" by (metis prod_cases3)
  have s: "io_same io a" by (rule preadFull_kept [OF p "1.prems"(1)])
  have "io_same a io1" if "verify_overlay m fd (rl + 1) a = (ok, io1)" "rf < rm_npages m" "rv_verify m [rf..<Suc rl] xs (if r > 0 then nat r else 0) 0"
    using "1.IH" [OF _ rl_def refl p [symmetric] refl _ _ that(1)] that(2,3) io_sameD(3) [OF s] "1.prems"(1) by simp
  then show ?case
    using "1.prems"(2) [unfolded verify_overlay.simps [of m fd rf io] Let_def, folded rl_def, unfolded p] s io_same_trans [OF s]
    by (auto split: if_splits simp del: upt_Suc)
qed

lemma fstat_spec:
  assumes "io_fstat io fd = (r, io1)"
  shows "io_same io io1" "r = Inr (ino, nl, sz) \<Longrightarrow> map_of (io_fds io) fd = Some ino \<and> sz = length (content io ino)"
proof -
  obtain oc io2 where o: "next_outcome io = (oc, io2)" by fastforce
  note s = next_outcome_same [OF o] and sd = io_sameD [OF next_outcome_same [OF o]]
  show "io_same io io1" "r = Inr (ino, nl, sz) \<Longrightarrow> map_of (io_fds io) fd = Some ino \<and> sz = length (content io ino)"
    using assms s sd by (auto simp: io_fstat_def o split: outcome.splits option.splits)
qed

lemma unlink_list_other: "q \<notin> set ps \<Longrightarrow> file_at (unlink_list ps io) q = file_at io q"
  by (induction ps arbitrary: io) (auto simp: unlink_list_def unlink_other)

lemma quarantine_simps:
  assumes "quarantine cfg k (io, st) = (r, io1, st1)"
  shows "r = None" "q \<notin> replica_names cfg k \<Longrightarrow> file_at io1 q = file_at io q"
  using assms by (auto simp: quarantine_def replica_drop_def Let_def replica_names_def intro!: unlink_list_other)

lemma replica_load_spec:
  assumes "replica_load io path = (r, io1)"
  shows "store_eq io io1" "r = Some m \<Longrightarrow> \<exists>img. file_at io path = Some img \<and> replica_deserialize img = Some m" "calm ps io \<Longrightarrow> calm ps io1"
proof -
  obtain b a where b: "read_image io path = (b, a)" by fastforce
  have e: "r = Option.bind b replica_deserialize" "io1 = a" using assms by (simp_all add: replica_load_def b)
  show "store_eq io io1" "r = Some m \<Longrightarrow> \<exists>img. file_at io path = Some img \<and> replica_deserialize img = Some m"
    using read_image_spec [OF b] by (auto simp: e split: bind_splits)
  show "calm ps io \<Longrightarrow> calm ps io1" using read_image_calm [OF b] by (simp add: e)
qed

text \<open>The steps of an opening up to the token, common to every outcome that reaches it.\<close>

lemma openView_cases:
  fixes cfg k
  defines "d \<equiv> tdataPath k (c_cacheDir cfg)" and "m \<equiv> tmetaPath k (c_cacheDir cfg)" and "t \<equiv> tokPath k (c_cacheDir cfg)"
  assumes c: "calm (replica_names cfg k) io" and v: "openView cfg k osize omtime ckind ocksum mtNs (io, st) = (r, io1, st1)"
  shows "(\<exists>a st'. store_eq io a \<and> (r, io1, st1) \<in> {(None, a, st), quarantine cfg k (a, st')}) \<or>
    (\<exists>img mt ino fd a hit e. file_at io m = Some img \<and> replica_deserialize img = Some mt \<and> origin_matches cfg k osize omtime ckind ocksum mt \<and>
       map_of (io_names io) d = Some ino \<and> length (content io ino) = rm_tdataBytes mt \<and> store_eq io a \<and> calm (replica_names cfg k) a \<and>
       map_of (io_fds a) fd = Some ino \<and> tokMatches a t (rm_tdataBytes mt) mtNs mt = (hit, e) \<and>
       (r, io1, st1) = (let v = \<lparr>rv_meta = mt, rv_fd = fd, rv_invalid = False\<rparr> in
          if hit then (Some v, e, st\<lparr>rs_opens := rs_opens st + 1\<rparr>)
          else case verify_overlay mt fd 0 e of (ok, g) \<Rightarrow>
            if \<not> ok then quarantine cfg k (snd (io_close g fd), st\<lparr>rs_crcFailures := rs_crcFailures st + 1\<rparr>)
            else (Some v, tokWrite g t (rm_tdataBytes mt) mtNs mt, st\<lparr>rs_opens := rs_opens st + 1\<rparr>)))"
    (is "?bad \<or> ?good")
proof -
  let ?R = "replica_names cfg k"
  obtain x a where a: "io_stat io m = (x, a)" by fastforce
  have A: "store_eq io a" "calm ?R a" using io_stat_same [OF a] calm_same [OF _ c] io_same_store_eq by blast+
  obtain l b where b: "replica_load a m = (l, b)" by fastforce
  have B: "store_eq io b" "calm ?R b" using replica_load_spec [OF b] A by (auto intro: store_eq_trans)
  obtain fd e where e: "io_open b d False False = (fd, e)" by fastforce
  note oe = io_open_existing [OF e]
  have E: "store_eq io e" "calm ?R e" using oe B(1) calm_open [OF e B(2)] by (auto simp: store_eq_def)
  obtain y g where g: "io_fstat e (nat fd) = (y, g)" by fastforce
  note fs = fstat_spec [OF g]
  have G: "store_eq io g" "calm ?R g" using E fs(1) calm_same io_same_store_eq store_eq_trans by blast+
  have C: "store_eq io (snd (io_close g (nat fd)))" using G(1) close_store_eq store_eq_trans by blast
  define rest where "rest mt = (let v = \<lparr>rv_meta = mt, rv_fd = nat fd, rv_invalid = False\<rparr> in
        case tokMatches g t (rm_tdataBytes mt) mtNs mt of (hit, e) \<Rightarrow> if hit then (Some v, e, st\<lparr>rs_opens := rs_opens st + 1\<rparr>)
          else case verify_overlay mt (nat fd) 0 e of (ok, g) \<Rightarrow>
            if \<not> ok then quarantine cfg k (snd (io_close g (nat fd)), st\<lparr>rs_crcFailures := rs_crcFailures st + 1\<rparr>)
            else (Some v, tokWrite g t (rm_tdataBytes mt) mtNs mt, st\<lparr>rs_opens := rs_opens st + 1\<rparr>))" for mt
  define q where "q u = quarantine cfg k (u, st)" for u
  have V: "(r, io1, st1) = (case x of Inl _ \<Rightarrow> (None, a, st) | Inr _ \<Rightarrow> (case l of None \<Rightarrow> q b | Some mt \<Rightarrow>
      if \<not> origin_matches cfg k osize omtime ckind ocksum mt then q b else if fd < 0 then q e
      else case y of Inl _ \<Rightarrow> q (snd (io_close g (nat fd))) | Inr (ino, nl, sz) \<Rightarrow>
        if sz \<noteq> rm_tdataBytes mt then q (snd (io_close g (nat fd))) else rest mt))"
    unfolding v [symmetric] openView_def prod.case Let_def d_def [symmetric] m_def [symmetric] t_def [symmetric] a
    by (cases x; cases l; cases y) (auto simp: b e g rest_def q_def Let_def)
  have bad: "?bad" if "(r, io1, st1) = q u" "store_eq io u" for u using that by (auto simp: q_def)
  consider "?bad" | mt ino nl sz where "l = Some mt" "origin_matches cfg k osize omtime ckind ocksum mt" "\<not> fd < 0" "y = Inr (ino, nl, sz)"
      "sz = rm_tdataBytes mt" "(r, io1, st1) = rest mt"
  proof (cases x)
    case (Inl _)
    then have "?bad" using V A(1) by auto
    then show ?thesis ..
  next
    case x: (Inr _)
    show ?thesis
    proof (cases l)
      case None
      then show ?thesis using V x bad [OF _ B(1)] that(1) by simp
    next
      case l: (Some mt)
      consider "\<not> origin_matches cfg k osize omtime ckind ocksum mt" | "fd < 0" "origin_matches cfg k osize omtime ckind ocksum mt"
        | "(r, io1, st1) = q (snd (io_close g (nat fd)))" | "(r, io1, st1) = rest mt" "origin_matches cfg k osize omtime ckind ocksum mt" "\<not> fd < 0"
            "\<exists>ino nl. y = Inr (ino, nl, rm_tdataBytes mt)"
        using V x l by (auto split: sum.splits if_splits prod.splits)
      then show ?thesis
        by cases (use V x l bad [OF _ B(1)] bad [OF _ E(1)] bad [OF _ C] that in auto)
    qed
  qed
  then show ?thesis
  proof cases
    case (2 mt ino nl sz)
    obtain hit z where z: "tokMatches g t (rm_tdataBytes mt) mtNs mt = (hit, z)" by fastforce
    obtain i where i: "map_of (io_names b) d = Some i" "map_of (io_fds e) (nat fd) = Some i" using oe 2(3) by auto
    have I: "ino = i" "sz = length (content e ino)" using fs(2) 2(4) i(2) by auto
    obtain img where img: "file_at io m = Some img" "replica_deserialize img = Some mt"
      using replica_load_spec(2) [OF b 2(1)] A(1) by (auto simp: store_eq_file_at)
    have "?good"
      by (rule exI [of _ img], rule exI [of _ mt], rule exI [of _ ino], rule exI [of _ "nat fd"], rule exI [of _ g], rule exI [of _ hit], rule exI [of _ z])
        (use 2 I i z img G B(1) E(1) io_sameD(3) [OF fs(1)] in \<open>auto simp: store_eq_def Let_def rest_def\<close>)
    then show ?thesis ..
  qed simp
qed

lemma openView_frame:
  assumes c: "calm (replica_names cfg k) io" and v: "openView cfg k osize omtime ckind ocksum mtNs (io, st) = (r, io1, st1)"
    and q: "q \<notin> replica_names cfg k"
  shows "file_at io1 q = file_at io q"
proof -
  let ?R = "replica_names cfg k" and ?t = "tokPath k (c_cacheDir cfg)"
  note C = openView_cases [OF c v]
  have qt: "q \<noteq> ?t" using q by auto
  have frame: "file_at x q = file_at io q" if "calm ?R a" "store_eq io a" "map_of (io_fds a) fd = Some ino" "tokMatches a ?t tb mtNs mt = (hit, e)"
    "x \<in> {e, snd (io_close g fd), tokWrite g ?t tb mtNs mt}" "verify_overlay mt fd 0 e = (ok, g)" for a fd ino tb mt hit e x g ok
  proof -
    note T = tokMatches_spec [OF that(4,1)]
    have g: "io_same e g" by (rule verify_overlay_same [OF _ that(6)]) (use T(3) that(3) in \<open>simp add: fds_kept_def\<close>)
    have fg: "file_at g q = file_at io q" "file_at e q = file_at io q"
      using that(2) T(1) io_same_store_eq [OF g] by (simp_all add: store_eq_file_at)
    then show ?thesis
      using that(5) tokWrite_file [OF calm_same [OF g T(2)] replica_names_in(3) qt] close_store_eq [of g fd]
      by (auto simp: store_eq_file_at)
  qed
  from C show "file_at io1 q = file_at io q"
  proof (elim disjE exE conjE)
    fix a st' assume a: "store_eq io a" "(r, io1, st1) \<in> {(None, a, st), quarantine cfg k (a, st')}"
    then show ?thesis using quarantine_simps(2) [of cfg k a st' r io1 st1 q] q by (auto simp: store_eq_file_at)
  next
    fix img mt ino fd a hit e
    assume A: "store_eq io a" "calm ?R a" "map_of (io_fds a) fd = Some ino" "tokMatches a ?t (rm_tdataBytes mt) mtNs mt = (hit, e)"
      "(r, io1, st1) = (let v = \<lparr>rv_meta = mt, rv_fd = fd, rv_invalid = False\<rparr> in
        if hit then (Some v, e, st\<lparr>rs_opens := rs_opens st + 1\<rparr>)
        else case verify_overlay mt fd 0 e of (ok, g) \<Rightarrow>
          if \<not> ok then quarantine cfg k (snd (io_close g fd), st\<lparr>rs_crcFailures := rs_crcFailures st + 1\<rparr>)
          else (Some v, tokWrite g ?t (rm_tdataBytes mt) mtNs mt, st\<lparr>rs_opens := rs_opens st + 1\<rparr>))"
    obtain ok g where g: "verify_overlay mt fd 0 e = (ok, g)" by fastforce
    note F = frame [OF A(2,1,3,4) _ g]
    show ?thesis
      using A(5) F [of io1] F [of "snd (io_close g fd)"] quarantine_simps(2) [of cfg k "snd (io_close g fd)" _ r io1 st1 q, OF sym, OF _ q]
      by (auto simp: g Let_def split: if_splits)
  qed
qed

lemma openView_verified:
  fixes cfg k
  defines "t \<equiv> tokPath k (c_cacheDir cfg)"
  assumes c: "calm (replica_names cfg k) io" and v: "openView cfg k osize omtime ckind ocksum mtNs (io, st) = (Some v, io1, st1)"
    and td: "rm_tdataBytes (rv_meta v) < 2 ^ 63"
  shows "\<exists>img ino. file_at io (tmetaPath k (c_cacheDir cfg)) = Some img \<and> replica_deserialize img = Some (rv_meta v) \<and>
        origin_matches cfg k osize omtime ckind ocksum (rv_meta v) \<and>
        map_of (io_names io) (tdataPath k (c_cacheDir cfg)) = Some ino \<and> length (content io ino) = rm_tdataBytes (rv_meta v) \<and>
        map_of (io_fds io1) (rv_fd v) = Some ino \<and> content io1 ino = content io ino \<and> \<not> rv_invalid v \<and>
        ((\<forall>j < rm_npages (rv_meta v). overlay_page_ok (rv_meta v) (content io ino) j) \<or>
         (\<exists>bs. file_at io t = Some bs \<and> take 28 bs = tokImage (rm_tdataBytes (rv_meta v)) mtNs (rv_meta v)))"
proof -
  let ?R = "replica_names cfg k" and ?d = "tdataPath k (c_cacheDir cfg)"
  have nb: "(Some v, io1, st1) \<notin> {(None, a, st), quarantine cfg k (a, st')}" for a st' by (simp add: quarantine_def)
  obtain img mt ino fd a hit e where A: "file_at io (tmetaPath k (c_cacheDir cfg)) = Some img" "replica_deserialize img = Some mt"
      "origin_matches cfg k osize omtime ckind ocksum mt" "map_of (io_names io) ?d = Some ino" "length (content io ino) = rm_tdataBytes mt"
      "store_eq io a" "calm ?R a" "map_of (io_fds a) fd = Some ino" "tokMatches a t (rm_tdataBytes mt) mtNs mt = (hit, e)"
      "(Some v, io1, st1) = (let v = \<lparr>rv_meta = mt, rv_fd = fd, rv_invalid = False\<rparr> in
          if hit then (Some v, e, st\<lparr>rs_opens := rs_opens st + 1\<rparr>)
          else case verify_overlay mt fd 0 e of (ok, g) \<Rightarrow>
            if \<not> ok then quarantine cfg k (snd (io_close g fd), st\<lparr>rs_crcFailures := rs_crcFailures st + 1\<rparr>)
            else (Some v, tokWrite g t (rm_tdataBytes mt) mtNs mt, st\<lparr>rs_opens := rs_opens st + 1\<rparr>))"
    using openView_cases [OF c v, folded t_def] nb by (elim disjE exE conjE) blast+
  obtain ok g where g: "verify_overlay mt fd 0 e = (ok, g)" by fastforce
  have V: "v = \<lparr>rv_meta = mt, rv_fd = fd, rv_invalid = False\<rparr>" "hit \<and> io1 = e \<or> ok \<and> io1 = tokWrite g t (rm_tdataBytes mt) mtNs mt"
    using A(10) by (auto simp: g Let_def quarantine_def split: if_splits)
  note T = tokMatches_spec [OF A(9,7)]
  have fe: "map_of (io_fds e) fd = Some ino" "content e ino = content io ino" "io_names e = io_names io"
    using T(1,3) A(6,8) by (simp_all add: fds_kept_def store_eq_def)
  have G: "io_same e g" "ok \<Longrightarrow> \<forall>j < rm_npages mt. overlay_page_ok mt (content io ino) j"
    using verify_overlay_spec [OF _ fe(1) g] td V(1) fe(2) by auto
  note sd = io_sameD [OF G(1)]
  have n: "?d \<noteq> t" using replica_paths(5) by (simp add: t_def)
  have W: "map_of (io_fds (tokWrite g t (rm_tdataBytes mt) mtNs mt)) fd = Some ino" "content (tokWrite g t (rm_tdataBytes mt) mtNs mt) ino = content io ino"
    using tokWrite_keeps(3,4) [OF calm_same [OF G(1) T(2)] _ refl, of t] n A(4) fe sd by (simp_all add: t_def)
  have "hit \<Longrightarrow> \<exists>bs. file_at io t = Some bs \<and> take 28 bs = tokImage (rm_tdataBytes mt) mtNs mt" using T(4) A(6) by (simp add: store_eq_file_at)
  then show ?thesis using A(1-5) V fe(1,2) W G(2) by (intro exI [of _ img] exI [of _ ino]) auto
qed

section \<open>What was published opens\<close>

lemma seal_page_ok: "j < rm_npages (seal_meta k meta tdata) \<Longrightarrow> overlay_page_ok (seal_meta k meta tdata) tdata j"
  by (simp add: overlay_page_ok_def seal_meta_def Let_def rm_npages_def rm_pageBytes_def)

lemma rv_verify_complete:
  assumes td: "rm_tdataBytes m < 2 ^ 63" and n: "n \<le> rm_npages m" and "a \<le> i"
    and "\<And>j. i \<le> j \<Longrightarrow> j < n \<Longrightarrow> (j - a) * OP + rm_pageBytes m j \<le> got \<and> crc32c (slice ((j - a) * OP) (rm_pageBytes m j) dst) = rm_pageCrcs m ! j"
  shows "rv_verify m [i..<n] dst got ((i - a) * OP)"
  using assms(3,4)
proof (induction "n - i" arbitrary: i)
  case (Suc x)
  have i: "i < n" using Suc.hyps(2) by simp
  have rec: "rv_verify m [Suc i..<n] dst got ((Suc i - a) * OP)" using Suc.hyps Suc.prems by simp
  have "rv_verify m [Suc i..<n] dst got ((i - a) * OP + rm_pageBytes m i)"
  proof (cases "Suc i < n")
    case True
    then have "(i - a) * OP + rm_pageBytes m i = (Suc i - a) * OP" using full_page [OF td, of i] n Suc.prems(1) by (simp add: Suc_diff_le)
    then show ?thesis using rec by simp
  qed simp
  then show ?case using Suc.prems(2) [of i] i by (simp add: upt_conv_Cons Let_def)
qed simp

lemma run_verifies:
  assumes td: "rm_tdataBytes m < 2 ^ 63" and ab: "a \<le> b" "b < rm_npages m" and disk: "length disk = rm_tdataBytes m"
    and ok: "\<And>j. a \<le> j \<Longrightarrow> j \<le> b \<Longrightarrow> overlay_page_ok m disk j"
  shows "a * OP + rm_runBytes m a b \<le> length disk" "rv_verify m [a..<Suc b] (slice (a * OP) (rm_runBytes m a b) disk) (rm_runBytes m a b) 0"
proof -
  have r: "rm_runBytes m a b = min (Suc b * OP) (rm_tdataBytes m) - a * OP" by (rule overlay_run(1) [OF td ab])
  have a: "a * OP < rm_tdataBytes m" using overlay_arith(1) [OF td, of a] ab by simp
  have "a * OP \<le> Suc b * OP" using ab(1) by (intro mult_le_mono1) simp
  then have e: "a * OP + rm_runBytes m a b = min (Suc b * OP) (rm_tdataBytes m)" using r a by simp
  then show l: "a * OP + rm_runBytes m a b \<le> length disk" by (simp add: disk)
  let ?xs = "slice (a * OP) (rm_runBytes m a b) disk"
  have lx: "length ?xs = rm_runBytes m a b" using l by simp
  have "(j - a) * OP + rm_pageBytes m j \<le> rm_runBytes m a b \<and> crc32c (slice ((j - a) * OP) (rm_pageBytes m j) ?xs) = rm_pageCrcs m ! j"
    if j: "a \<le> j" "j < Suc b" for j
  proof -
    have jp: "rm_pageBytes m j = min OP (rm_tdataBytes m - j * OP)" "j * OP < rm_tdataBytes m" using overlay_arith [OF td, of j] j ab by simp_all
    have s: "a * OP + (j - a) * OP = j * OP" using j by (simp add: diff_mult_distrib)
    have "j * OP \<le> b * OP" using j by (intro mult_le_mono1) simp
    then have f: "(j - a) * OP + rm_pageBytes m j \<le> rm_runBytes m a b" using e [unfolded mult_Suc] s jp by linarith
    then have "slice ((j - a) * OP) (rm_pageBytes m j) ?xs = slice (j * OP) (rm_pageBytes m j) disk"
      using slice_slice_eq [of "a * OP" "rm_runBytes m a b" disk ?xs "(j - a) * OP" "rm_pageBytes m j"] s by simp
    then show ?thesis using ok [of j] j f by (simp add: overlay_page_ok_def)
  qed
  then show "rv_verify m [a..<Suc b] ?xs (rm_runBytes m a b) 0"
    using rv_verify_complete [OF td, of "Suc b" a a "rm_runBytes m a b" ?xs] ab(2) by simp
qed

lemma verify_overlay_quiet:
  assumes "rm_tdataBytes m < 2 ^ 63" and "io_sched io = []" and "map_of (io_fds io) fd = Some ino"
    and "length (content io ino) = rm_tdataBytes m" and "\<And>j. j < rm_npages m \<Longrightarrow> overlay_page_ok m (content io ino) j"
  shows "fst (verify_overlay m fd rf io)"
  using assms
proof (induction m fd rf io rule: verify_overlay.induct)
  case (1 m fd rf io)
  show ?case
  proof (cases "rf < rm_npages m")
    case True
    define rl where "rl = coalesce_end m rf rf (rm_npages m - 1)"
    have rl: "rf \<le> rl" "rl < rm_npages m" using coalesce_end_bounds [of rf m rf "rm_npages m - 1"] True by (auto simp: rl_def)
    let ?n = "rm_runBytes m rf rl"
    have R: "rf * OP + ?n \<le> length (content io ino)" "rv_verify m [rf..<Suc rl] (slice (rf * OP) ?n (content io ino)) ?n 0"
      using run_verifies [OF "1.prems"(1) rl "1.prems"(4)] "1.prems"(5) rl(2) by auto
    obtain a where p: "preadFull io fd ?n (rf * OP) [] = (int ?n, slice (rf * OP) ?n (content io ino), a)" "io_sched a = []" "io_same io a"
      using preadFull_quiet [OF "1.prems"(2,3) R(1)] by auto
    have R2: "rv_verify m [rf..<Suc rl] (slice (rf * OP) ?n (content io ino)) (if 0 < int ?n then nat (int ?n) else 0) 0"
      using R(2) by (cases "?n = 0") (simp_all del: upt_Suc)
    note sd = io_sameD [OF p(3)]
    have "fst (verify_overlay m fd (rl + 1) a)"
      using "1.IH" [OF _ rl_def refl p(1) [symmetric] refl] True R2 "1.prems" p(2) sd by (simp del: upt_Suc)
    then show ?thesis unfolding verify_overlay.simps [of m fd rf io] Let_def rl_def [symmetric] p(1) using True R2 by (simp del: upt_Suc)
  qed (simp add: verify_overlay.simps [of m fd rf io])
qed

lemma tokMatches_sched: "io_sched io = [] \<Longrightarrow> tokMatches io path tb mt m = (hit, io1) \<Longrightarrow> io_sched io1 = []"
proof -
  assume q: "io_sched io = []" and t: "tokMatches io path tb mt m = (hit, io1)"
  obtain fd a where o: "io_open io path False False = (fd, a)" by fastforce
  have a: "io_sched a = []" using q o by (auto simp: io_open_def Let_def split: option.splits)
  obtain r x b where p: "preadFull a (nat fd) 28 0 [] = (r, x, b)" by (metis prod_cases3)
  have "io_sched (snd (io_close b (nat fd))) = []" using preadFull_sched [OF a p] by (simp add: io_close_def)
  then show ?thesis using t a by (auto simp: tokMatches_def o p split: if_splits)
qed

lemma view_opens:
  fixes cfg k
  defines "d \<equiv> tdataPath k (c_cacheDir cfg)" and "m \<equiv> tmetaPath k (c_cacheDir cfg)" and "t \<equiv> tokPath k (c_cacheDir cfg)"
  assumes c: "calm (replica_names cfg k) io" and q: "io_sched io = []" and f: "file_at io d = Some tdata" "file_at io m = Some img"
    and img: "replica_deserialize img = Some mt" "length img \<le> 2 ^ 31" and om: "origin_matches cfg k osize omtime ckind ocksum mt"
    and td: "length tdata = rm_tdataBytes mt" "rm_tdataBytes mt < 2 ^ 63" and ok: "\<And>j. j < rm_npages mt \<Longrightarrow> overlay_page_ok mt tdata j"
  shows "\<exists>v io1. openView cfg k osize omtime ckind ocksum mtNs (io, st) = (Some v, io1, st\<lparr>rs_opens := rs_opens st + 1\<rparr>) \<and> rv_meta v = mt"
proof -
  obtain j where j: "map_of (io_names io) m = Some j" using f(2) by (auto simp: file_at_def)
  obtain b where b: "read_image io m = (Some img, b)"
    using read_image_quiet [OF q f(2) order_less_le_trans [OF _ replica_deserialize_SomeD(1) [OF img(1)]] img(2)] by (cases "read_image io m") auto
  have qb: "io_sched b = []" using read_image_sched [OF q, of m] b by simp
  have B: "store_eq io b" "calm (replica_names cfg k) b" using read_image_spec [OF b] read_image_calm [OF b c] by simp_all
  obtain ino where i: "map_of (io_names b) d = Some ino" "content b ino = tdata" using f(1) B(1) by (auto simp: file_at_def store_eq_def)
  obtain fd e where e: "io_open b d False False = (int fd, e)" "io_sched e = []" "map_of (io_fds e) fd = Some ino" "content e ino = tdata"
    using open_quiet [OF qb i(1)] qb i(2) by (auto simp: AList.update_conv')
  have ce: "calm (replica_names cfg k) e" by (rule calm_open [OF e(1) B(2)])
  have s: "io_fstat e fd = (Inr (ino, nlink e ino, rm_tdataBytes mt), e)" using io_fstat_quiet [OF e(2,3)] e(4) td(1) by simp
  obtain hit g where g: "tokMatches e t (rm_tdataBytes mt) mtNs mt = (hit, g)" by fastforce
  note G = tokMatches_spec [OF g ce] and qg = tokMatches_sched [OF e(2) g]
  obtain vo z where z: "verify_overlay mt fd 0 g = (vo, z)" by fastforce
  have "vo" using verify_overlay_quiet [OF td(2) qg, of fd ino 0] G(1,3) e(3,4) td(1) ok z by (simp add: fds_kept_def store_eq_def)
  moreover have "io_stat io m = (Inr (length (content io j)), io)" by (rule stat_quiet [OF q j])
  ultimately show ?thesis
    unfolding openView_def prod.case Let_def d_def [symmetric] m_def [symmetric] t_def [symmetric]
    using om by (simp add: replica_load_def b img(1) e(1) s g z)
qed

lemma serving_none: "io_sched io = [] \<Longrightarrow> file_at io (slot_path dir h) = None \<Longrightarrow> slot_serving io dir h = (False, io)"
  by (simp add: slot_serving_def io_open_def file_at_def errno_defs)

lemma publish_quiet:
  assumes q: "io_sched io = []" and c: "calm (replica_names cfg k) io" and img: "replica_deserialize (replica_serialize (seal_meta k meta tdata)) \<noteq> None"
    and n: "file_at io (slot_path (objectDir (c_cacheDir cfg) (uk_hashHex k)) (uk_hashHex k)) = None"
  shows "\<exists>io1. publish cfg k meta tdata (\<lambda>a. a) mtNs (io, st) = (0, io1, st\<lparr>rs_published := rs_published st + 1\<rparr>)"
proof -
  let ?d = "tdataPath k (c_cacheDir cfg)" and ?m = "tmetaPath k (c_cacheDir cfg)" and ?dir = "objectDir (c_cacheDir cfg) (uk_hashHex k)"
  let ?s = "slot_path ?dir (uk_hashHex k)"
  have ne: "?s \<noteq> ?d" "?s \<noteq> ?m" "?s \<noteq> ?d @ ''.tmp''" "?s \<noteq> ?m @ ''.tmp''"
    by (simp_all add: slot_path_def tdataPath_def tmetaPath_def)
  obtain rc1 e where e: "write_overlay io ?d tdata = (rc1, e)" by fastforce
  have e0: "rc1 = 0" "io_sched e = []" using write_image_quiet [OF q calmD(1) [OF c], of ?d tdata True] e by (simp_all add: write_overlay_eq)
  note E = overlay_spec [OF e c replica_names_in(4)]
  obtain rc2 f where f: "replica_store e ?m (seal_meta k meta tdata) True = (rc2, f)" by fastforce
  have f0: "rc2 = 0" "io_sched f = []" using write_image_quiet [OF e0(2) calmD(1) [OF E(1)], of ?m "replica_serialize (seal_meta k meta tdata)" True] f
    by (simp_all add: replica_store_def)
  note F = sidecar_spec [OF f E(1) replica_names_in(5)]
  have "file_at f ?s = None" using E(2) [of ?s] F(2) [of ?s] ne n by simp
  then have s2: "slot_serving f ?dir (uk_hashHex k) = (False, f)" by (rule serving_none [OF f0(2)])
  obtain r h where h: "io_stat f ?d = (r, h)" by fastforce
  show ?thesis
    using img by (auto simp: publish_def Let_def io_call_def q serving_none [OF q n] e e0 f f0 s2 h split: prod.splits)
qed

section \<open>A replacement that fails half way\<close>

lemma write_image_done:
  assumes q: "io_sched io = Done # Done # Done # Done # Done # rest" and ok: "io_ok io" and b: "buf \<noteq> []"
  shows "fst (write_image io path buf True) = 0 \<and> io_sched (snd (write_image io path buf True)) = rest"
proof -
  let ?tmp = "path @ ''.tmp''"
  obtain fd a where o: "io_open io ?tmp True True = (fd, a)" by fastforce
  have fd: "0 \<le> fd" "io_sched a = Done # Done # Done # Done # rest"
    using o q by (auto simp: io_open_def next_outcome_def Let_def split: option.splits)
  then obtain i where i: "map_of (io_fds a) (nat fd) = Some i" "map_of (io_names a) ?tmp = Some i" using io_open_trunc [OF o ok] by auto
  obtain e where e: "pwriteFull a (nat fd) buf 0 0 = (int (length buf), e)" "io_sched e = Done # Done # Done # rest"
      "io_fds e = io_fds a" "io_names e = io_names a"
    using b fd(2) i(1) by (simp add: pwriteFull.simps [of a] io_pwrite_def next_outcome_def Let_def pwriteFull.simps [of "set_content _ _ _"])
  show ?thesis
    using o fd(1) i e by (simp add: write_image_def Let_def io_fdatasync_def io_close_def io_rename_def next_outcome_def)
qed

lemma unlink_done: "io_sched io = [] \<Longrightarrow> file_at (snd (io_unlink io p)) p = None"
  by (simp add: io_unlink_def file_at_def AList.delete_conv')

lemma publish_store_fails:
  assumes q: "io_sched io = Done # Done # Done # Done # Done # Done # Done # [Err e]" and c: "calm (replica_names cfg k) io"
    and img: "replica_deserialize (replica_serialize (seal_meta k meta tdata)) \<noteq> None" and b: "tdata \<noteq> []"
    and n: "file_at io (slot_path (objectDir (c_cacheDir cfg) (uk_hashHex k)) (uk_hashHex k)) = None"
  shows "\<exists>rc io1. publish cfg k meta tdata others mtNs (io, st) = (rc, io1, st) \<and> rc \<noteq> 0 \<and>
    file_at io1 (tdataPath k (c_cacheDir cfg)) = None \<and> file_at io1 (tmetaPath k (c_cacheDir cfg)) = file_at io (tmetaPath k (c_cacheDir cfg))"
proof -
  let ?d = "tdataPath k (c_cacheDir cfg)" and ?m = "tmetaPath k (c_cacheDir cfg)" and ?dir = "objectDir (c_cacheDir cfg) (uk_hashHex k)"
  note N = replica_paths [of k "c_cacheDir cfg"]
  obtain a where a: "io_call io = (0, a)" "io_sched a = Done # Done # Done # Done # Done # Done # [Err e]"
    using q by (simp add: io_call_def next_outcome_def)
  have fa: "file_at a x = file_at io x" for x using store_eq_file_at [OF io_same_store_eq [OF io_call_same [OF a(1)]]] .
  have "map_of (io_names a) (slot_path ?dir (uk_hashHex k)) = None" using fa n by (metis file_at_def option.map_disc_iff)
  then obtain f where f: "slot_serving a ?dir (uk_hashHex k) = (False, f)" "io_sched f = Done # Done # Done # Done # Done # [Err e]"
    using a(2) by (simp add: slot_serving_def io_open_def next_outcome_def errno_defs)
  note B = publish_start [OF a(1) f(1) c]
  obtain g where g: "write_overlay f ?d tdata = (0, g)" "io_sched g = [Err e]"
    using write_image_done [OF f(2) calmD(1) [OF B(2)] b, of ?d] by (cases "write_overlay f ?d tdata") (simp add: write_overlay_eq)
  note G = overlay_spec [OF g(1) B(2) replica_names_in(4)]
  obtain h where h: "replica_store g ?m (seal_meta k meta tdata) True = (errval e, h)" "io_sched h = []"
    using g(2) errval_neg [of e] by (simp add: replica_store_def write_image_def Let_def io_open_def next_outcome_def)
  have r: "errval e \<noteq> 0" using errval_neg [of e] by simp
  note H = sidecar_spec [OF h(1) G(1) replica_names_in(5)]
  have "file_at (snd (io_unlink h ?d)) ?m = file_at io ?m" using unlink_other [of ?m ?d h] H(2) [of ?m] G(2) [of ?m] B(4) N r by simp
  moreover have "publish cfg k meta tdata others mtNs (io, st) = (errval e, snd (io_unlink h ?d), st)"
    using img r by (auto simp: publish_def Let_def a(1) f(1) g(1) h(1))
  ultimately show ?thesis using unlink_done [OF h(2), of ?d] r by simp
qed

section \<open>Properties\<close>

text \<open>C13. A sidecar that becomes visible has its complete overlay beside it. Whatever fails during a publication, the sidecar name holds afterwards what it held before, nothing, or the
  whole new image. A publication that reports success left exactly the given overlay and the sidecar with the checksums of its pages. Where there was no replica
  before, a sidecar that is there afterwards has the complete overlay beside it, except after the withdrawal in favour of a slot store (\<^verbatim>\<open>EEXIST\<close>), whose two removals may fail one by one.\<close>

theorem visible_sidecar_has_overlay:
  assumes "calm (replica_names cfg k) io" and "leaves_replica cfg k others"
    and "publish cfg k meta tdata others mtNs (io, st) = (rc, io1, st1)"
  shows "(rc = 0 \<longrightarrow> file_at io1 (tdataPath k (c_cacheDir cfg)) = Some tdata \<and>
      file_at io1 (tmetaPath k (c_cacheDir cfg)) = Some (replica_serialize (seal_meta k meta tdata))) \<and>
    file_at io1 (tmetaPath k (c_cacheDir cfg)) \<in>
      {file_at io (tmetaPath k (c_cacheDir cfg)), None, Some (replica_serialize (seal_meta k meta tdata))} \<and>
    (file_at io (tmetaPath k (c_cacheDir cfg)) = None \<longrightarrow> file_at io1 (tmetaPath k (c_cacheDir cfg)) \<noteq> None \<longrightarrow>
      rc = - EEXIST \<or> file_at io1 (tdataPath k (c_cacheDir cfg)) = Some tdata)"
  using publish_spec [OF assms] by blast

definition sample_key :: urlKey where
  "sample_key = \<lparr>uk_key = ''root://h:1094/f'', uk_hashHex = ''ab12'', uk_scheme = ''root'', uk_host = ''h''\<rparr>"

definition sample_counts :: rsstats where
  "sample_counts = \<lparr>rs_opens = 0, rs_invalid = 0, rs_published = 0, rs_crcFailures = 0, rs_punchedBytes = 0\<rparr>"

abbreviation "sample_sealed \<equiv> seal_meta sample_key sample_replica (replicate 400 7)"

lemma sample_npages: "rm_npages sample_sealed = 1"
  by (simp add: seal_meta_def Let_def rm_npages_def kOverlayPageSize_def u64_def)

lemma sample_sealed_fields:
  "rm_tdataBytes sample_sealed = 400" "rm_key sample_sealed = ''root://h:1094/f''" "rm_originSize sample_sealed = 1000" "rm_originMtime sample_sealed = 77"
  "rm_encoding sample_sealed = 1" "length (rm_pageCrcs sample_sealed) = 1" "length (rm_extents sample_sealed) = 2" "length (rm_superseded sample_sealed) = 1"
  "length (rm_origMap sample_sealed) = 1"
  using sample_npages by (simp_all add: seal_meta_def Let_def sample_replica_def sample_key_def rm_npages_def)

lemma sample_sealed_ok: "replica_ok sample_sealed"
proof -
  have r: "rm_flags sample_sealed = rm_flags sample_replica" "rm_encoderVersion sample_sealed = rm_encoderVersion sample_replica"
    "rm_cksumKind sample_sealed = rm_cksumKind sample_replica" "rm_originCksum sample_sealed = rm_originCksum sample_replica"
    "rm_virtualSize sample_sealed = rm_virtualSize sample_replica" "rm_extents sample_sealed = rm_extents sample_replica"
    "rm_superseded sample_sealed = rm_superseded sample_replica" "rm_origMap sample_sealed = rm_origMap sample_replica"
    by (simp_all add: seal_meta_def Let_def)
  have c: "replica_consistent sample_sealed"
    by (simp add: replica_consistent_def seal_meta_def Let_def sample_replica_def superseded_bad_def u64_def)
  show ?thesis
    unfolding replica_ok_def r sample_npages using sample_replica_ok c sample_sealed_fields by (simp add: replica_ok_def rlimits)
qed

lemma empty_calm: "calm ps empty_io"
  by (simp add: calm_def empty_io_def io_ok_def)

lemma id_leaves: "leaves_replica cfg k (\<lambda>a. a)"
  by (simp add: leaves_replica_def)

lemma sample_publish:
  "\<exists>io1 st1. publish default_config sample_key sample_replica (replicate 400 7) (\<lambda>a. a) 5 (empty_io, sample_counts) = (0, io1, st1)"
  using publish_quiet [of empty_io default_config sample_key sample_replica "replicate 400 7" 5 sample_counts] empty_calm
    replica_deserialize_serialize [OF sample_sealed_ok]
  by (fastforce simp: file_at_def empty_io_def)

theorem visible_sidecar_has_overlay_witness:
  "\<exists>io1 st1. publish default_config sample_key sample_replica (replicate 400 7) (\<lambda>a. a) 5 (empty_io, sample_counts) = (0, io1, st1) \<and>
     file_at io1 (tdataPath sample_key (c_cacheDir default_config)) = Some (replicate 400 7)"
  using sample_publish visible_sidecar_has_overlay [OF empty_calm id_leaves] by blast

text \<open>C14. A view is handed out only for a replica that matches the origin and whose overlay is verified. The sidecar decodes, names this key and this origin (size, encoding, and time or
  checksum as configured); the overlay has the recorded size and is open under the view's descriptor, unchanged; and either every page of it has the
  recorded checksum or the marker file holds the image of exactly this size, time and checksum list. A refused replica costs no file but its own five.\<close>

theorem view_is_verified:
  assumes c: "calm (replica_names cfg k) io" and v: "openView cfg k osize omtime ckind ocksum mtNs (io, st) = (r, io1, st1)"
  shows "(\<forall>q. q \<notin> replica_names cfg k \<longrightarrow> file_at io1 q = file_at io q) \<and>
    (\<forall>v. r = Some v \<and> rm_tdataBytes (rv_meta v) < 2 ^ 63 \<longrightarrow>
      (\<exists>img ino. file_at io (tmetaPath k (c_cacheDir cfg)) = Some img \<and> replica_deserialize img = Some (rv_meta v) \<and>
        origin_matches cfg k osize omtime ckind ocksum (rv_meta v) \<and>
        map_of (io_names io) (tdataPath k (c_cacheDir cfg)) = Some ino \<and> length (content io ino) = rm_tdataBytes (rv_meta v) \<and>
        map_of (io_fds io1) (rv_fd v) = Some ino \<and> content io1 ino = content io ino \<and> \<not> rv_invalid v \<and>
        ((\<forall>j < rm_npages (rv_meta v). overlay_page_ok (rv_meta v) (content io ino) j) \<or>
         (\<exists>bs. file_at io (tokPath k (c_cacheDir cfg)) = Some bs \<and> take 28 bs = tokImage (rm_tdataBytes (rv_meta v)) mtNs (rv_meta v)))))"
  using openView_frame [OF c v] openView_verified [OF c, of osize omtime ckind ocksum mtNs st _ io1 st1] v by blast

lemma publish_then_open:
  assumes c: "calm (replica_names cfg k) io" and o: "leaves_replica cfg k others"
    and p: "publish cfg k meta tdata others mtNs (io, st) = (0, io1, st1)" and ok: "replica_ok (seal_meta k meta tdata)"
    and l: "length (replica_serialize (seal_meta k meta tdata)) \<le> 2 ^ 31" and t: "length tdata < 2 ^ 63"
    and m: "origin_matches cfg k osize omtime ckind ocksum (seal_meta k meta tdata)"
  shows "\<exists>v io2 st2 ino. openView cfg k osize omtime ckind ocksum mtNs2 (io1\<lparr>io_sched := []\<rparr>, st1) = (Some v, io2, st2) \<and>
    rv_meta v = seal_meta k meta tdata \<and> map_of (io_fds io2) (rv_fd v) = Some ino \<and> content io2 ino = tdata"
proof -
  let ?io = "io1\<lparr>io_sched := []\<rparr>"
  note P = publish_spec [OF c o p]
  have s: "io_same io1 ?io" by (auto simp: io_same_def)
  have c1: "calm (replica_names cfg k) ?io" by (rule calm_same [OF s P(4)]) simp
  have f: "file_at ?io (tdataPath k (c_cacheDir cfg)) = Some tdata" "file_at ?io (tmetaPath k (c_cacheDir cfg)) = Some (replica_serialize (seal_meta k meta tdata))"
    using P(1) store_eq_file_at [OF io_same_store_eq [OF s]] by simp_all
  have td: "length tdata = rm_tdataBytes (seal_meta k meta tdata)" by (simp add: seal_meta_def Let_def)
  obtain v io2 where v: "openView cfg k osize omtime ckind ocksum mtNs2 (?io, st1) = (Some v, io2, st1\<lparr>rs_opens := rs_opens st1 + 1\<rparr>)" "rv_meta v = seal_meta k meta tdata"
    using view_opens [OF c1 _ f replica_deserialize_serialize [OF ok] l m td] td t seal_page_ok by fastforce
  obtain ino where i: "map_of (io_names ?io) (tdataPath k (c_cacheDir cfg)) = Some ino" "map_of (io_fds io2) (rv_fd v) = Some ino" "content io2 ino = content ?io ino"
    using openView_verified [OF c1 v(1)] v(2) td t by auto
  then show ?thesis using v f(1) by (auto simp: file_at_def)
qed

lemma sample_origin: "origin_matches default_config sample_key 1000 77 0 0 sample_sealed"
  unfolding origin_matches_def sample_sealed_fields by (simp add: sample_key_def default_config_def)

lemma sample_image_size: "length (replica_serialize sample_sealed) \<le> 2 ^ 31"
  by (simp add: length_replica_serialize [OF sample_sealed_ok] replica_size_def rcrcs_off_def om_off_def sup_off_def ext_off_def ralign8_def
      sample_sealed_fields sample_npages)

lemma sample_opens:
  "\<exists>io v io2 st2. calm (replica_names default_config sample_key) io \<and> openView default_config sample_key 1000 77 0 0 5 (io, sample_counts) = (Some v, io2, st2) \<and>
     rm_tdataBytes (rv_meta v) < 2 ^ 63"
proof -
  obtain io1 st1 where p: "publish default_config sample_key sample_replica (replicate 400 7) (\<lambda>a. a) 5 (empty_io, sample_counts) = (0, io1, st1)"
    using sample_publish by blast
  let ?io = "io1\<lparr>io_sched := []\<rparr>"
  have s: "io_same io1 ?io" by (auto simp: io_same_def)
  note P = publish_spec [OF empty_calm id_leaves p]
  have c1: "calm (replica_names default_config sample_key) ?io" by (rule calm_same [OF s P(4)]) simp
  have f: "file_at ?io (tdataPath sample_key (c_cacheDir default_config)) = Some (replicate 400 7)"
    "file_at ?io (tmetaPath sample_key (c_cacheDir default_config)) = Some (replica_serialize sample_sealed)"
    using P(1) store_eq_file_at [OF io_same_store_eq [OF s]] by simp_all
  show ?thesis
    using view_opens [OF c1 _ f replica_deserialize_serialize [OF sample_sealed_ok] sample_image_size sample_origin, of 5 sample_counts] c1 seal_page_ok sample_sealed_fields(1)
    by fastforce
qed

theorem view_is_verified_witness:
  "\<exists>io v io2 st2 img. openView default_config sample_key 1000 77 0 0 5 (io, sample_counts) = (Some v, io2, st2) \<and>
     file_at io (tmetaPath sample_key (c_cacheDir default_config)) = Some img \<and> replica_deserialize img = Some (rv_meta v)"
proof -
  obtain io v io2 st2 where o: "calm (replica_names default_config sample_key) io"
      "openView default_config sample_key 1000 77 0 0 5 (io, sample_counts) = (Some v, io2, st2)" "rm_tdataBytes (rv_meta v) < 2 ^ 63"
    using sample_opens by blast
  then show ?thesis using view_is_verified [OF o(1,2)] by blast
qed

text \<open>C15. What was published opens. After a publication that reports success, whatever failed on the way, an opening that meets no fault and presents the origin the replica was made for returns a view
  whose metadata is the published one and whose descriptor is open on exactly the published overlay, whether or not the verify-once marker was written.\<close>

theorem published_replica_opens:
  assumes "calm (replica_names cfg k) io" and "leaves_replica cfg k others"
    and "publish cfg k meta tdata others mtNs (io, st) = (0, io1, st1)" and "replica_ok (seal_meta k meta tdata)"
    and "length (replica_serialize (seal_meta k meta tdata)) \<le> 2 ^ 31" and "length tdata < 2 ^ 63"
    and "origin_matches cfg k osize omtime ckind ocksum (seal_meta k meta tdata)"
  shows "\<exists>v io2 st2 ino. openView cfg k osize omtime ckind ocksum mtNs2 (io1\<lparr>io_sched := []\<rparr>, st1) = (Some v, io2, st2) \<and>
    rv_meta v = seal_meta k meta tdata \<and> map_of (io_fds io2) (rv_fd v) = Some ino \<and> content io2 ino = tdata"
  by (rule publish_then_open [OF assms])

theorem published_replica_opens_witness:
  "\<exists>io1 st1 v io2 st2. publish default_config sample_key sample_replica (replicate 400 7) (\<lambda>a. a) 5 (empty_io, sample_counts) = (0, io1, st1) \<and>
     openView default_config sample_key 1000 77 0 0 9 (io1\<lparr>io_sched := []\<rparr>, st1) = (Some v, io2, st2) \<and> rv_meta v = sample_sealed"
proof -
  obtain io1 st1 where p: "publish default_config sample_key sample_replica (replicate 400 7) (\<lambda>a. a) 5 (empty_io, sample_counts) = (0, io1, st1)"
    using sample_publish by blast
  from published_replica_opens [OF empty_calm id_leaves p sample_sealed_ok sample_image_size _ sample_origin, of 9] p show ?thesis by auto
qed

text \<open>C38. Replacing a replica can leave a sidecar without its overlay: when only the write of the new sidecar fails, the publication removes the overlay it has just put in the place of the old one,
  while the old sidecar stays visible. The next opening finds the overlay missing and drops the replica.\<close>

theorem failed_replacement_strands_sidecar:
  assumes "calm (replica_names cfg k) io" and "io_sched io = Done # Done # Done # Done # Done # Done # Done # [Err e]"
    and "replica_deserialize (replica_serialize (seal_meta k meta tdata)) \<noteq> None" and "tdata \<noteq> []"
    and "file_at io (slot_path (objectDir (c_cacheDir cfg) (uk_hashHex k)) (uk_hashHex k)) = None"
    and "file_at io (tmetaPath k (c_cacheDir cfg)) = Some old" and "file_at io (tdataPath k (c_cacheDir cfg)) = Some overlay"
  shows "\<exists>rc io1. publish cfg k meta tdata others mtNs (io, st) = (rc, io1, st) \<and> rc \<noteq> 0 \<and>
    file_at io1 (tmetaPath k (c_cacheDir cfg)) = Some old \<and> file_at io1 (tdataPath k (c_cacheDir cfg)) = None"
  using publish_store_fails [OF assms(2,1,3-5), of others mtNs st] assms(6) by auto

definition replaced_io :: io where
  "replaced_io = \<lparr>io_names = [(tmetaPath sample_key (c_cacheDir default_config), 1), (tdataPath sample_key (c_cacheDir default_config), 2)],
     io_inodes = [(1, [3]), (2, [4])], io_fds = [], io_next = 5, io_sched = Done # Done # Done # Done # Done # Done # Done # [Err 28]\<rparr>"

theorem failed_replacement_strands_sidecar_witness:
  "\<exists>rc io1. publish default_config sample_key sample_replica (replicate 400 7) (\<lambda>a. a) 5 (replaced_io, sample_counts) = (rc, io1, sample_counts) \<and> rc \<noteq> 0 \<and>
     file_at io1 (tmetaPath sample_key (c_cacheDir default_config)) = Some [3] \<and> file_at io1 (tdataPath sample_key (c_cacheDir default_config)) = None"
proof (rule failed_replacement_strands_sidecar)
  note N = replica_paths [of sample_key "c_cacheDir default_config"]
  show "calm (replica_names default_config sample_key) replaced_io"
    using N by (auto simp: calm_def replaced_io_def io_ok_def split: if_splits)
  show "file_at replaced_io (slot_path (objectDir (c_cacheDir default_config) (uk_hashHex sample_key)) (uk_hashHex sample_key)) = None"
    by (simp add: file_at_def replaced_io_def slot_path_def tmetaPath_def tdataPath_def)
  show "file_at replaced_io (tmetaPath sample_key (c_cacheDir default_config)) = Some [3]"
    "file_at replaced_io (tdataPath sample_key (c_cacheDir default_config)) = Some [4]"
    using N by (simp_all add: file_at_def replaced_io_def content_def)
qed (simp_all add: replaced_io_def replica_deserialize_serialize [OF sample_sealed_ok])

end
