(* ===== verification/Read_Footprint.thy ===== *)
theory Read_Footprint
  imports Sha256
begin

text \<open>
  The read footprint (\<^verbatim>\<open>src/src/core/ReadFootprint.cc\<close>): which buckets of a file a run touched, in a growing vector of 64-bit words, with a count, a listing and a
  signature. The loops that walk the set bits by clearing the lowest one enumerate the touched buckets in ascending order, so all three depend only on the set of buckets, not on
  the order of the reads.
\<close>

unbundle bit_operations_syntax

section \<open>The footprint\<close>

record footprint =
  fp_bits :: "u64w list"
  fp_poisoned :: bool

definition fp_new :: footprint where
  "fp_new = \<lparr>fp_bits = [], fp_poisoned = False\<rparr>"

definition kBucket :: nat where
  "kBucket = 1024 * 1024"

definition kMaxBucket :: nat where
  "kMaxBucket = 2 ^ 24"

definition fp_set_bit :: "nat \<Rightarrow> u64w list \<Rightarrow> u64w list" where
  "fp_set_bit b bits = bits[b div 64 := bits ! (b div 64) OR push_bit (b mod 64) 1]"

definition fp_note :: "footprint \<Rightarrow> nat \<Rightarrow> nat \<Rightarrow> footprint" where
  "fp_note fp off len =
     (if len = 0 then fp
      else
        let first = off div kBucket;
            lst = sub64 (u64 (off + len)) 1 div kBucket
        in if lst < first \<or> lst > kMaxBucket then fp
           else
             let need = lst div 64 + 1;
                 bits = (if length (fp_bits fp) < need then fp_bits fp @ replicate (need - length (fp_bits fp)) 0 else fp_bits fp)
             in fp\<lparr>fp_bits := fold fp_set_bit [first..<Suc lst] bits\<rparr>)"

definition fp_empty :: "footprint \<Rightarrow> bool" where
  "fp_empty fp \<longleftrightarrow> list_all (\<lambda>w. w = 0) (fp_bits fp)"

definition fp_poison :: "footprint \<Rightarrow> footprint" where
  "fp_poison fp = fp\<lparr>fp_poisoned := True\<rparr>"

definition lastBucket :: "nat \<Rightarrow> nat" where
  "lastBucket limitBytes = (if limitBytes \<noteq> 0 then (limitBytes - 1) div kBucket else 2 ^ 64 - 1)"

text \<open>\<^verbatim>\<open>__builtin_ctzll\<close>: the number of zero bits below the lowest set one.\<close>

definition ctz :: "u64w \<Rightarrow> nat" where
  "ctz w = length (takeWhile (\<lambda>i. \<not> bit w i) [0..<64])"

lemma clear_lowest_less: "w \<noteq> 0 \<Longrightarrow> w AND (w - 1) < (w :: u64w)"
proof -
  assume "w \<noteq> 0"
  then have "w - 1 < w" by (simp add: word_less_nat_alt unat_minus_one unat_gt_0)
  moreover have "w AND (w - 1) \<le> w - 1" by (simp add: word_and_le2 word_and_le1)
  ultimately show ?thesis by (rule order_le_less_trans [rotated])
qed

text \<open>The inner loop: the buckets of one word.\<close>

function word_buckets :: "nat \<Rightarrow> u64w \<Rightarrow> nat list" where
  "word_buckets i w = (if w = 0 then [] else (i * 64 + ctz w) # word_buckets i (w AND (w - 1)))"
  by pat_completeness auto

termination
  by (relation "measure (\<lambda>(i, w). unat w)") (simp_all add: clear_lowest_less unat_mono)

declare word_buckets.simps [simp del]

fun scan_words :: "nat \<Rightarrow> u64w list \<Rightarrow> nat list" where
  "scan_words i [] = []"
| "scan_words i (w # ws) = word_buckets i w @ scan_words (i + 1) ws"

definition fp_buckets :: "footprint \<Rightarrow> nat \<Rightarrow> nat list" where
  "fp_buckets fp limitBytes = filter (\<lambda>b. b \<le> lastBucket limitBytes) (scan_words 0 (fp_bits fp))"

definition countLocked :: "footprint \<Rightarrow> nat \<Rightarrow> nat" where
  "countLocked fp limitBytes = foldl (\<lambda>n b. if b \<le> lastBucket limitBytes then n + 1 else n) 0 (scan_words 0 (fp_bits fp))"

definition fp_count :: "footprint \<Rightarrow> nat \<Rightarrow> nat" where
  "fp_count fp limitBytes = (if fp_poisoned fp then 0 else countLocked fp limitBytes)"

definition sig_byte :: "nat \<Rightarrow> u64w \<Rightarrow> nat \<Rightarrow> u64w" where
  "sig_byte b h s = (h XOR (word_of_nat b div 256 ^ s AND 0xff)) * 1099511628211"

definition sig_bucket :: "nat \<Rightarrow> u64w \<Rightarrow> u64w" where
  "sig_bucket b h = foldl (sig_byte b) h [0..<8]"

definition sig_step :: "nat \<Rightarrow> bool \<times> u64w \<Rightarrow> nat \<Rightarrow> bool \<times> u64w" where
  "sig_step lst s b = (if b > lst then s else (True, sig_bucket b (snd s)))"

definition hex12 :: "u64w \<Rightarrow> string" where
  "hex12 h = map (\<lambda>i. hex_char (unat (h AND 0xffffffffffff) div 16 ^ (11 - i) mod 16)) [0..<12]"

definition sigLocked :: "footprint \<Rightarrow> nat \<Rightarrow> string" where
  "sigLocked fp limitBytes =
     (case foldl (sig_step (lastBucket limitBytes)) (False, 1469598103934665603) (scan_words 0 (fp_bits fp)) of
        (any, h) \<Rightarrow> if \<not> any then [] else hex12 h)"

definition fp_sig :: "footprint \<Rightarrow> nat \<Rightarrow> string" where
  "fp_sig fp limitBytes = (if fp_poisoned fp then [] else sigLocked fp limitBytes)"

definition sigAndCount :: "footprint \<Rightarrow> nat \<Rightarrow> (string \<times> nat) option" where
  "sigAndCount fp limitBytes =
     (if fp_poisoned fp then None
      else let sg = sigLocked fp limitBytes in if sg = [] then None else Some (sg, countLocked fp limitBytes))"

section \<open>Walking the bits\<close>

lemma one_bit: "n < 64 \<Longrightarrow> bit (push_bit c (1 :: u64w)) n \<longleftrightarrow> n = c"
  by (auto simp: bit_exp_iff)

lemma ctz_props:
  assumes "w \<noteq> 0"
  shows "ctz w < 64" "bit w (ctz w)" "\<And>i. i < ctz w \<Longrightarrow> \<not> bit w i"
proof -
  let ?t = "takeWhile (\<lambda>i. \<not> bit w i) [0..<64]"
  obtain k where k: "bit w k" using assms by (auto simp: bit_eq_iff)
  then have k64: "k < 64" using bit_imp_le_length by fastforce
  have pre: "?t = [0..<ctz w]" unfolding ctz_def by (metis add.left_neutral diff_zero take_upt takeWhile_eq_take length_takeWhile_le length_upt)
  have "k \<notin> set ?t" using k by (auto dest: set_takeWhileD)
  then have "ctz w \<le> k" unfolding pre by simp
  then show l: "ctz w < 64" using k64 by simp
  have "length ?t < length [0..<64]" using l by (simp add: ctz_def)
  then have "\<not> \<not> bit w ([0..<64] ! length ?t)" by (rule nth_length_takeWhile)
  then show "bit w (ctz w)" using l by (simp add: ctz_def [symmetric])
  show "\<not> bit w i" if "i < ctz w" for i using that pre set_takeWhileD [of i "\<lambda>i. \<not> bit w i" "[0..<64]"] by simp
qed

lemma clear_lowest_bits:
  assumes "w \<noteq> 0"
  shows "bit (w AND (w - 1)) i \<longleftrightarrow> bit w i \<and> i \<noteq> ctz w"
proof -
  note C = ctz_props [OF assms]
  define c where "c = ctz w"
  define x where "x = w AND NOT (mask (Suc c))"
  have bx: "bit x i \<longleftrightarrow> bit w i \<and> c < i" for i using C bit_imp_le_length [of w i] by (auto simp: x_def c_def bit_simps less_Suc_eq_le)
  have "w = push_bit c 1 OR x"
  proof (rule bit_word_eqI)
    fix n
    assume n: "n < LENGTH(64)"
    have "bit (push_bit c (1 :: u64w)) n \<longleftrightarrow> n = c" using one_bit n by simp
    moreover consider "n < c" | "n = c" | "c < n" by linarith
    ultimately show "bit w n = bit (push_bit c 1 OR x) n" using C by cases (auto simp: bit_or_iff bx c_def)
  qed
  also have "\<dots> = push_bit c 1 + x" by (rule disjunctive_add [symmetric]) (auto simp: bx bit_simps)
  finally have "w - 1 = (2 ^ c - 1) + x" by (simp add: push_bit_eq_mult)
  also have "\<dots> = mask c + x" by (simp add: mask_eq_exp_minus_1)
  also have "\<dots> = mask c OR x" by (rule disjunctive_add) (auto simp: bx bit_simps)
  finally show ?thesis using C by (auto simp: bit_and_iff bit_or_iff bx bit_simps c_def)
qed

lemma word_buckets_eq: "word_buckets i w = map (\<lambda>k. i * 64 + k) (filter (bit w) [0..<64])"
proof (induction i w rule: word_buckets.induct)
  case (1 i w)
  show ?case
  proof (cases "w = 0")
    case True
    then show ?thesis by (simp add: word_buckets.simps)
  next
    case False
    note C = ctz_props [OF False] and B = clear_lowest_bits [OF False]
    have s: "[0..<64] = [0..<ctz w] @ ctz w # [Suc (ctz w)..<64]" using C(1) upt_add_eq_append [of 0 "ctz w" "64 - ctz w"] by (simp add: upt_conv_Cons)
    have "filter (bit w) [0..<ctz w] = []" "filter (bit (w AND (w - 1))) [0..<ctz w] = []" using C(3) by (auto simp: filter_empty_conv bit_and_iff)
    moreover have "filter (bit (w AND (w - 1))) [Suc (ctz w)..<64] = filter (bit w) [Suc (ctz w)..<64]" by (rule filter_cong) (auto simp: B)
    ultimately have "filter (bit w) [0..<64] = ctz w # filter (bit (w AND (w - 1))) [0..<64]" unfolding s using C(2) B [of "ctz w"] by simp
    then show ?thesis using 1 [OF False] False by (simp add: word_buckets.simps [of i w])
  qed
qed

text \<open>The buckets whose bit is set.\<close>

definition fp_set :: "u64w list \<Rightarrow> nat set" where
  "fp_set ws = {b. b div 64 < length ws \<and> bit (ws ! (b div 64)) (b mod 64)}"

lemma scan_words_spec: "sorted_wrt (<) (scan_words i ws) \<and> set (scan_words i ws) = (\<lambda>b. i * 64 + b) ` fp_set ws"
proof (induction ws arbitrary: i)
  case Nil
  then show ?case by (simp add: fp_set_def)
next
  case (Cons w ws)
  have w: "set (word_buckets i w) = (\<lambda>k. i * 64 + k) ` {k. k < 64 \<and> bit w k}" by (auto simp: word_buckets_eq)
  have sw: "sorted_wrt (<) (word_buckets i w)"
  proof -
    have "sorted_wrt (<) (filter (bit w) [0..<64])" by (intro sorted_wrt_filter sorted_wrt_upt)
    then show ?thesis by (simp add: word_buckets_eq sorted_wrt_map)
  qed
  have split: "fp_set (w # ws) = {k. k < 64 \<and> bit w k} \<union> (\<lambda>b. 64 + b) ` fp_set ws"
  proof (rule set_eqI)
    fix b
    show "b \<in> fp_set (w # ws) \<longleftrightarrow> b \<in> {k. k < 64 \<and> bit w k} \<union> (\<lambda>b. 64 + b) ` fp_set ws"
    proof (cases "b < 64")
      case True
      then show ?thesis by (auto simp: fp_set_def)
    next
      case False
      then obtain a where a: "b = 64 + a" by (metis le_Suc_ex not_less)
      have "(64 + a) div 64 = Suc (a div 64)" "(64 + a) mod 64 = a mod 64" by simp_all
      then show ?thesis by (auto simp: a fp_set_def)
    qed
  qed
  have "\<forall>x\<in>set (word_buckets i w). \<forall>y\<in>set (scan_words (i + 1) ws). x < y" using Cons [of "i + 1"] by (auto simp: w)
  moreover have "set (scan_words (i + 1) ws) = (\<lambda>b. i * 64 + b) ` (\<lambda>b. 64 + b) ` fp_set ws" using Cons [of "i + 1"] by (auto simp: image_image)
  ultimately show ?case using Cons [of "i + 1"] sw w split by (simp add: sorted_wrt_append image_Un)
qed

lemma fp_set_finite: "finite (fp_set ws)"
proof -
  have "fp_set ws \<subseteq> {..<length ws * 64}" by (auto simp: fp_set_def div_less_iff_less_mult)
  then show ?thesis using finite_subset by blast
qed

lemma scan_words_sorted: "scan_words 0 ws = sorted_list_of_set (fp_set ws)"
  using scan_words_spec [of 0 ws] strict_sorted_equal [of "scan_words 0 ws" "sorted_list_of_set (fp_set ws)"] fp_set_finite [of ws]
  by (simp add: strict_sorted_iff)

lemma fp_set_bit_set: "b div 64 < length ws \<Longrightarrow> fp_set (fp_set_bit b ws) = insert b (fp_set ws)"
proof (rule set_eqI)
  fix x
  assume b: "b div 64 < length ws"
  have m: "bit (push_bit (b mod 64) (1 :: u64w)) k \<longleftrightarrow> k = b mod 64" if "k < 64" for k using one_bit [OF that] .
  have e: "x = b \<longleftrightarrow> x div 64 = b div 64 \<and> x mod 64 = b mod 64" by (metis div_mult_mod_eq)
  show "x \<in> fp_set (fp_set_bit b ws) \<longleftrightarrow> x \<in> insert b (fp_set ws)"
    using b m [of "x mod 64"] by (auto simp: fp_set_def fp_set_bit_def nth_list_update bit_or_iff e)
qed

lemma fp_set_bits_set:
  "(\<And>b. b \<in> set bs \<Longrightarrow> b div 64 < length ws) \<Longrightarrow> fp_set (fold fp_set_bit bs ws) = set bs \<union> fp_set ws"
proof (induction bs arbitrary: ws)
  case (Cons b bs)
  have "length (fp_set_bit b ws) = length ws" by (simp add: fp_set_bit_def)
  then show ?case using Cons fp_set_bit_set [of b ws] by simp
qed simp

lemma fp_set_grow: "fp_set (ws @ replicate n 0) = fp_set ws"
proof -
  have "bit ((ws @ replicate n 0) ! k) i \<longleftrightarrow> k < length ws \<and> bit (ws ! k) i" if "k < length ws + n" for k i
    using that by (auto simp: nth_append)
  then show ?thesis by (auto simp: fp_set_def)
qed

text \<open>The buckets a read marks: those of its range, unless the range wraps or is absurdly far out.\<close>

definition touched :: "nat \<times> nat \<Rightarrow> nat set" where
  "touched r =
     (let first = fst r div kBucket; lst = sub64 (u64 (fst r + snd r)) 1 div kBucket
      in if snd r = 0 \<or> lst < first \<or> lst > kMaxBucket then {} else {first..lst})"

lemma fp_note_set: "fp_set (fp_bits (fp_note fp off len)) = touched (off, len) \<union> fp_set (fp_bits fp)" "fp_poisoned (fp_note fp off len) = fp_poisoned fp"
proof -
  define first where "first = off div kBucket"
  define lst where "lst = sub64 (u64 (off + len)) 1 div kBucket"
  define bits where "bits = (if length (fp_bits fp) < lst div 64 + 1 then fp_bits fp @ replicate (lst div 64 + 1 - length (fp_bits fp)) 0 else fp_bits fp)"
  have len: "b div 64 < length bits" if "b \<in> set [first..<Suc lst]" for b
    using that div_le_mono [of b lst 64] by (auto simp: bits_def)
  have "fp_set bits = fp_set (fp_bits fp)" by (simp add: bits_def fp_set_grow)
  then have "fp_set (fold fp_set_bit [first..<Suc lst] bits) = {first..lst} \<union> fp_set (fp_bits fp)"
    using fp_set_bits_set [of "[first..<Suc lst]" bits, OF len] by (simp only: set_upt atLeastLessThanSuc_atLeastAtMost)
  then show "fp_set (fp_bits (fp_note fp off len)) = touched (off, len) \<union> fp_set (fp_bits fp)"
    unfolding fp_note_def touched_def Let_def fst_conv snd_conv first_def [symmetric] lst_def [symmetric] bits_def [symmetric] by (simp del: upt_Suc)
  show "fp_poisoned (fp_note fp off len) = fp_poisoned fp" by (simp add: fp_note_def Let_def)
qed

section \<open>What the footprint says\<close>

definition fp_run :: "(nat \<times> nat) list \<Rightarrow> footprint" where
  "fp_run rs = fold (\<lambda>r fp. fp_note fp (fst r) (snd r)) rs fp_new"

lemma fp_run_set: "fp_set (fp_bits (fold (\<lambda>r fp. fp_note fp (fst r) (snd r)) rs fp)) = \<Union> (touched ` set rs) \<union> fp_set (fp_bits fp)"
  "fp_poisoned (fold (\<lambda>r fp. fp_note fp (fst r) (snd r)) rs fp) = fp_poisoned fp"
proof (induction rs arbitrary: fp)
  case (Cons r rs)
  { case 1 show ?case using Cons(1) [of "fp_note fp (fst r) (snd r)"] fp_note_set(1) [of fp "fst r" "snd r"] by auto }
  { case 2 show ?case using Cons(2) [of "fp_note fp (fst r) (snd r)"] fp_note_set(2) [of fp "fst r" "snd r"] by simp }
qed simp_all

lemma run_scan: "scan_words 0 (fp_bits (fp_run rs)) = sorted_list_of_set (\<Union> (touched ` set rs))"
  using fp_run_set(1) [of rs fp_new] by (simp add: scan_words_sorted fp_run_def fp_new_def fp_set_def)

lemma count_filter: "foldl (\<lambda>n b. if P b then n + 1 else n) m bs = m + length (filter P bs)"
  by (induction bs arbitrary: m) simp_all

lemma touched_finite: "finite (touched r)"
  by (simp add: touched_def Let_def)

text \<open>The signature of a list of buckets: FNV-1a over the eight bytes of each, nothing for the empty list.\<close>

definition bucket_hash :: "nat list \<Rightarrow> string" where
  "bucket_hash bs = (if bs = [] then [] else hex12 (foldl (\<lambda>h b. sig_bucket b h) 1469598103934665603 bs))"

lemma sig_fold:
  "foldl (sig_step lst) (any, h) bs = (any \<or> filter (\<lambda>b. b \<le> lst) bs \<noteq> [], foldl (\<lambda>h b. sig_bucket b h) h (filter (\<lambda>b. b \<le> lst) bs))"
  by (induction bs arbitrary: any h) (auto simp: sig_step_def)

lemma sigLocked_hash: "sigLocked fp limit = bucket_hash (fp_buckets fp limit)"
  by (auto simp: sigLocked_def sig_fold bucket_hash_def fp_buckets_def)

lemma filter_sorted_list: "finite S \<Longrightarrow> filter P (sorted_list_of_set S) = sorted_list_of_set {b \<in> S. P b}" for S :: "nat set"
proof -
  assume "finite S"
  then have "sorted_wrt (<) (filter P (sorted_list_of_set S))" "set (filter P (sorted_list_of_set S)) = {b \<in> S. P b}"
    by (auto simp: strict_sorted_iff sorted_wrt_filter)
  then show "filter P (sorted_list_of_set S) = sorted_list_of_set {b \<in> S. P b}"
    using \<open>finite S\<close> strict_sorted_equal [of "filter P (sorted_list_of_set S)" "sorted_list_of_set {b \<in> S. P b}"]
    by (simp add: strict_sorted_iff)
qed

text \<open>C33. After any sequence of reads the listing is, in ascending order and without repetition, exactly the buckets the accepted ranges touch up to the limit, the count is their
  number, and the signature is the hash of that listing; so two sequences of reads that touch the same buckets up to the limit sign the same, whatever else they touch. A pair of signature and count is
  either withheld or consistent with both accessors, and a poisoned footprint says nothing, whatever is read before or after.\<close>

theorem footprint_is_bucket_set:
  "let S = (\<lambda>rs. {b \<in> \<Union> (touched ` set rs). b \<le> lastBucket limit}) in
   fp_buckets (fp_run rs) limit = sorted_list_of_set (S rs) \<and>
   fp_count (fp_run rs) limit = card (S rs) \<and>
   fp_sig (fp_run rs) limit = bucket_hash (sorted_list_of_set (S rs)) \<and>
   (S rs' = S rs \<longrightarrow> fp_sig (fp_run rs') limit = fp_sig (fp_run rs) limit) \<and>
   (\<forall>sg n. sigAndCount (fp_run rs) limit = Some (sg, n) \<longrightarrow> sg = fp_sig (fp_run rs) limit \<and> n = fp_count (fp_run rs) limit) \<and>
   (let fp = fold (\<lambda>r fp. fp_note fp (fst r) (snd r)) rs' (fp_poison (fp_run rs)) in fp_sig fp limit = [] \<and> fp_count fp limit = 0 \<and> sigAndCount fp limit = None)"
proof -
  define S where "S = (\<lambda>rs. {b \<in> \<Union> (touched ` set rs). b \<le> lastBucket limit})"
  have fin: "finite (\<Union> (touched ` set rs))" for rs using touched_finite by auto
  have np: "\<not> fp_poisoned (fp_run rs)" for rs using fp_run_set(2) [of rs fp_new] by (simp add: fp_run_def fp_new_def)
  have l: "fp_buckets (fp_run rs) limit = sorted_list_of_set (S rs)" for rs
    unfolding fp_buckets_def run_scan filter_sorted_list [OF fin] S_def ..
  have c: "fp_count (fp_run rs) limit = card (S rs)"
    using np l [of rs] by (simp add: fp_count_def countLocked_def count_filter flip: fp_buckets_def)
  have s: "fp_sig (fp_run rs) limit = bucket_hash (sorted_list_of_set (S rs))" for rs
    using np l by (simp add: fp_sig_def sigLocked_hash)
  have "\<forall>sg n. sigAndCount (fp_run rs) limit = Some (sg, n) \<longrightarrow> sg = fp_sig (fp_run rs) limit \<and> n = fp_count (fp_run rs) limit"
    using np by (auto simp: sigAndCount_def fp_sig_def fp_count_def Let_def split: if_splits)
  moreover have "let fp = fold (\<lambda>r fp. fp_note fp (fst r) (snd r)) rs' (fp_poison (fp_run rs)) in fp_sig fp limit = [] \<and> fp_count fp limit = 0 \<and> sigAndCount fp limit = None"
    using fp_run_set(2) [of rs' "fp_poison (fp_run rs)"] by (simp add: Let_def fp_poison_def fp_sig_def fp_count_def sigAndCount_def)
  ultimately show ?thesis
    unfolding Let_def [of "\<lambda>rs. {b \<in> \<Union> (touched ` set rs). b \<le> lastBucket limit}"] S_def [symmetric] using l c s by simp
qed

text \<open>Two runs of different reads that agree below the limit of two buckets.\<close>

theorem footprint_is_bucket_set_witness:
  "fp_sig (fp_run [(5 * kBucket, 10), (0, 5)]) (2 * kBucket) = fp_sig (fp_run [(7, 3), (3 * kBucket, 10)]) (2 * kBucket)"
proof -
  have t: "touched (5 * kBucket, 10) = {5}" "touched (0, 5) = {0}" "touched (7, 3) = {0}" "touched (3 * kBucket, 10) = {3}"
    by (auto simp: touched_def kBucket_def kMaxBucket_def Let_def)
  have "lastBucket (2 * kBucket) = 1" by (simp add: lastBucket_def kBucket_def)
  with t have "{b \<in> \<Union> (touched ` set [(5 * kBucket, 10), (0, 5)]). b \<le> lastBucket (2 * kBucket)} =
      {b \<in> \<Union> (touched ` set [(7, 3), (3 * kBucket, 10)]). b \<le> lastBucket (2 * kBucket)}"
    by auto
  then show ?thesis
    using footprint_is_bucket_set [of "2 * kBucket" "[(7, 3), (3 * kBucket, 10)]" "[(5 * kBucket, 10), (0, 5)]"] by (simp add: Let_def)
qed

end
