(* ===== verification/Read_Map.thy ===== *)
theory Read_Map
  imports Intervals "HOL-Library.Multiset"
begin

text \<open>
  The read map (\<^verbatim>\<open>src/src/transpose/ReadMap.cc\<close>): which branches of a ROOT file a request touches and which share of the file's data they hold. The three parallel vectors of the units
  (offset, length, branch) are one list of records; what the parsers of \<^verbatim>\<open>TreeMeta\<close> and \<^verbatim>\<open>RNTupleMeta\<close> return enters as the records below. Shown: the sweep over sorted and merged
  ranges finds exactly the branches with a unit at least half covered; the share is the exact sum; the decision follows the rule of the header; and the merged runs answer like the full map.
\<close>

section \<open>Units\<close>

record unit_rec =
  u_off :: nat
  u_len :: nat
  u_group :: nat

record readMap =
  rd_rnt :: bool
  rd_headSkip :: nat
  rd_units :: "unit_rec list"
  rd_groupBytes :: "nat list"
  rd_total :: nat

record share =
  sh_asked :: nat
  sh_total :: nat
  sh_groups :: nat

definition kRNTupleHead :: nat where "kRNTupleHead = 128 * 1024"

text \<open>\<^verbatim>\<open>std::stable_sort\<close> by offset.\<close>

definition sortUnits :: "unit_rec list \<Rightarrow> unit_rec list" where
  "sortUnits us = sort_key u_off us"

text \<open>The bytes per branch and in all.\<close>

definition tally :: "unit_rec \<Rightarrow> nat list \<times> nat \<Rightarrow> nat list \<times> nat" where
  "tally u s = (case s of (gb, n) \<Rightarrow> (gb[u_group u := u64 (gb ! u_group u + u_len u)], u64 (n + u_len u)))"

definition mk_map :: "bool \<Rightarrow> nat \<Rightarrow> unit_rec list \<Rightarrow> nat \<Rightarrow> readMap" where
  "mk_map rnt skip us ngroups =
     (case fold tally us (replicate ngroups 0, 0) of (gb, n) \<Rightarrow>
        \<lparr>rd_rnt = rnt, rd_headSkip = skip, rd_units = us, rd_groupBytes = gb, rd_total = n\<rparr>)"

section \<open>From the file's metadata\<close>

record branchInfo =
  b_basketSeek :: "int list"
  b_basketBytes :: "int list"
  b_externalFile :: bool

definition branch_units :: "nat \<times> branchInfo \<Rightarrow> unit_rec list" where
  "branch_units gb =
     (case gb of (g, b) \<Rightarrow>
        if b_externalFile b then []
        else concat (map (\<lambda>i. if b_basketSeek b ! i \<le> 0 \<or> b_basketBytes b ! i \<le> 0 then []
                              else [\<lparr>u_off = nat (b_basketSeek b ! i), u_len = nat (b_basketBytes b ! i), u_group = g\<rparr>])
               [0..<min (length (b_basketSeek b)) (length (b_basketBytes b))]))"

definition fromTree :: "branchInfo list \<Rightarrow> readMap" where
  "fromTree branches = mk_map False 0 (sortUnits (concat (map branch_units (enumerate 0 branches)))) (length branches)"

record pageInfo =
  pg_offset :: nat
  pg_nbytes :: nat
  pg_hasChecksum :: bool

record columnRange =
  cr_columnId :: nat
  cr_pages :: "pageInfo list"

definition column_units :: "columnRange \<Rightarrow> unit_rec list" where
  "column_units cr =
     concat (map (\<lambda>p. if pg_nbytes p = 0 then []
                      else [\<lparr>u_off = pg_offset p, u_len = u32n (pg_nbytes p + (if pg_hasChecksum p then 8 else 0)), u_group = cr_columnId cr\<rparr>])
            (cr_pages cr))"

text \<open>One unit per offset: the first one of the sorted vector.\<close>

definition keep_unit :: "unit_rec \<Rightarrow> unit_rec list \<Rightarrow> unit_rec list" where
  "keep_unit u kept = (if kept \<noteq> [] \<and> u_off u = u_off (last kept) then kept else kept @ [u])"

definition fromRNTuple :: "columnRange list \<Rightarrow> readMap" where
  "fromRNTuple ranges =
     (let us = concat (map column_units ranges);
          maxColumn = fold max (map u_group us) 0;
          kept = fold keep_unit (sortUnits us) []
      in mk_map True kRNTupleHead kept (if kept = [] then 0 else u32n (maxColumn + 1)))"

section \<open>Branches of a request\<close>

definition clip_range :: "nat \<Rightarrow> nat \<times> nat \<Rightarrow> (nat \<times> nat) list" where
  "clip_range skip r =
     (case r of (off, n) \<Rightarrow>
        if n = 0 \<or> u64 (off + n) < off then []
        else let a = max off skip; b = u64 (off + n) in if a < b then [(a, b)] else [])"

text \<open>The units from the last one that starts at or before \<open>a\<close> on, with the index of the first.\<close>

definition first_unit :: "unit_rec list \<Rightarrow> nat \<Rightarrow> nat" where
  "first_unit us a = length (takeWhile (\<lambda>u. u_off u \<le> a) us) - 1"

fun cover_scan :: "nat \<Rightarrow> nat \<Rightarrow> nat \<Rightarrow> unit_rec list \<Rightarrow> (nat \<times> nat) list" where
  "cover_scan a b k [] = []"
| "cover_scan a b k (u # us) =
     (if \<not> u_off u < b then []
      else let ue = u64 (u_off u + u_len u)
           in (if ue > a then [(u32n k, sub64 (min b ue) (max a (u_off u)))] else []) @ cover_scan a b (Suc k) us)"

definition cover_run :: "unit_rec list \<Rightarrow> nat \<times> nat \<Rightarrow> (nat \<times> nat) list" where
  "cover_run us r = cover_scan (fst r) (snd r) (first_unit us (fst r)) (drop (first_unit us (fst r)) us)"

function half_covered :: "unit_rec list \<Rightarrow> (nat \<times> nat) list \<Rightarrow> nat list" where
  "half_covered us [] = []"
| "half_covered us (p # ps) =
     (let n = fold (\<lambda>q s. u64 (s + snd q)) (p # takeWhile (\<lambda>q. fst q = fst p) ps) 0
      in (if u64 (2 * n) \<ge> u_len (us ! fst p) then [u_group (us ! fst p)] else []) @
         half_covered us (dropWhile (\<lambda>q. fst q = fst p) ps))"
  by pat_completeness auto
termination
  by (relation "measure (\<lambda>(us, ps). length ps)") (simp_all add: length_dropWhile_le less_Suc_eq_le)

definition groupsOf :: "readMap \<Rightarrow> (nat \<times> nat) list \<Rightarrow> nat list" where
  "groupsOf m ranges =
     (if rd_units m = [] then []
      else let merged = merge_ivals (sort (concat (map (clip_range (rd_headSkip m)) ranges)));
               covered = sort (concat (map (cover_run (rd_units m)) merged))
           in remdups_adj (sort (half_covered (rd_units m) covered)))"

section \<open>Shares and the decision\<close>

definition weigh_step :: "readMap \<Rightarrow> nat \<Rightarrow> share \<Rightarrow> share" where
  "weigh_step m g s =
     (if g < length (rd_groupBytes m)
      then s\<lparr>sh_asked := u64 (sh_asked s + rd_groupBytes m ! g), sh_groups := u32n (sh_groups s + 1)\<rparr> else s)"

definition weigh :: "readMap \<Rightarrow> nat list \<Rightarrow> share" where
  "weigh m groups = fold (weigh_step m) groups \<lparr>sh_asked = 0, sh_total = rd_total m, sh_groups = 0\<rparr>"

definition exceeds :: "share \<Rightarrow> int \<Rightarrow> bool" where
  "exceeds s limitPercent \<longleftrightarrow> sh_total s \<noteq> 0 \<and> u64 (sh_asked s * 100) > u64 (nat (limitPercent mod 2 ^ 64) * sh_total s)"

text \<open>\<^verbatim>\<open>std::set_union\<close> of two sorted ranges.\<close>

fun set_union :: "nat list \<Rightarrow> nat list \<Rightarrow> nat list" where
  "set_union [] ys = ys"
| "set_union xs [] = xs"
| "set_union (x # xs) (y # ys) =
     (if x < y then x # set_union xs (y # ys) else if y < x then y # set_union (x # xs) ys else x # set_union xs ys)"

definition map_step :: "readMap \<Rightarrow> nat list \<Rightarrow> (nat \<times> nat) list \<Rightarrow> int \<Rightarrow> int \<times> nat list \<times> share" where
  "map_step m seen ranges limitPercent =
     (let now = groupsOf m ranges
      in if now = [] then (- 1, seen, weigh m seen)
         else
           let a = set_union seen now; out = weigh m a
           in (if exceeds out limitPercent then 1 else if length now \<ge> 2 \<and> \<not> length a > length seen then 0 else - 1, a, out))"

section \<open>Ranges that read data\<close>

fun touch_scan :: "nat \<Rightarrow> nat \<Rightarrow> unit_rec list \<Rightarrow> bool" where
  "touch_scan a b [] = False"
| "touch_scan a b (u # us) = (if \<not> u_off u < b then False else if u64 (u_off u + u_len u) > a then True else touch_scan a b us)"

definition touches :: "readMap \<Rightarrow> nat \<Rightarrow> nat \<Rightarrow> bool" where
  "touches m off len =
     (if rd_units m = [] \<or> len = 0 then False
      else let a = max off (rd_headSkip m); b = u64 (off + len)
           in if a \<ge> b then False else touch_scan a b (drop (first_unit (rd_units m) a) (rd_units m)))"

definition add_data_run :: "nat \<Rightarrow> unit_rec \<Rightarrow> (nat \<times> nat) list \<Rightarrow> (nat \<times> nat) list" where
  "add_data_run skip u runs =
     (let a = max (u_off u) skip; b = u64 (u_off u + u_len u) in if a \<ge> b then runs else add_ival (a, b) runs)"

definition dataRuns :: "readMap \<Rightarrow> (nat \<times> nat) list" where
  "dataRuns m = fold (add_data_run (rd_headSkip m)) (rd_units m) []"

definition memoryBytes :: "readMap \<Rightarrow> nat" where
  "memoryBytes m = length (rd_units m) * (8 + 2 * 4) + length (rd_groupBytes m) * 8"

section \<open>The sweep is exact\<close>

definition unit_bytes :: "unit_rec \<Rightarrow> nat set" where
  "unit_bytes u = {u_off u..<u_off u + u_len u}"

text \<open>Units as a file has them: in order, disjoint, not empty, with the widths of the C++ fields.\<close>

definition units_ok :: "unit_rec list \<Rightarrow> bool" where
  "units_ok us \<longleftrightarrow> sorted_wrt (\<lambda>u v. u_off u + u_len u \<le> u_off v) us \<and> list_all (\<lambda>u. 0 < u_len u \<and> u_len u < 2 ^ 32 \<and> u_off u + u_len u < 2 ^ 64) us \<and>
     length us < 2 ^ 32"

definition weight :: "nat \<Rightarrow> (nat \<times> nat) list \<Rightarrow> nat" where
  "weight k ps = (\<Sum>p\<leftarrow>ps. if fst p = k then snd p else 0)"

lemma weight_simps [simp]: "weight k [] = 0" "weight k (p # ps) = (if fst p = k then snd p else 0) + weight k ps" "weight k (ps @ qs) = weight k ps + weight k qs"
  by (simp_all add: weight_def)

lemma weight_out: "k \<notin> fst ` set ps \<Longrightarrow> weight k ps = 0"
  by (induction ps) auto

lemma weight_sort [simp]: "weight k (sort ps) = weight k ps"
proof -
  have "(\<Sum>p\<leftarrow>sort ps. f p) = (\<Sum>p\<leftarrow>ps. f p)" for f :: "nat \<times> nat \<Rightarrow> nat" by (simp add: mset_map sum_mset_sum_list [symmetric] del: sum_mset_sum_list)
  then show ?thesis by (simp add: weight_def)
qed

lemma overlap_card: "card ({a..<b} \<inter> unit_bytes u) = min b (u_off u + u_len u) - max a (u_off u)"
  by (simp add: unit_bytes_def)

lemma cover_scan_spec:
  assumes "sorted_wrt (\<lambda>u v. u_off u + u_len u \<le> u_off v) us" and "list_all (\<lambda>u. 0 < u_len u \<and> u_len u < 2 ^ 32 \<and> u_off u + u_len u < 2 ^ 64) us"
    and "k + length us < 2 ^ 32" and "a < b"
  shows "fst ` set (cover_scan a b k us) \<subseteq> {k..<k + length us} \<and>
    (\<forall>i < length us. weight (k + i) (cover_scan a b k us) = card ({a..<b} \<inter> unit_bytes (us ! i)))"
  using assms
proof (induction us arbitrary: k)
  case (Cons u us)
  have k: "u32n k = k" using Cons.prems(3) by (simp add: u32n_def)
  have ue: "u64 (u_off u + u_len u) = u_off u + u_len u" using Cons.prems(2) by simp
  have IH: "fst ` set (cover_scan a b (Suc k) us) \<subseteq> {Suc k..<Suc k + length us}"
    "\<And>i. i < length us \<Longrightarrow> weight (Suc k + i) (cover_scan a b (Suc k) us) = card ({a..<b} \<inter> unit_bytes (us ! i))"
    using Cons.IH [of "Suc k"] Cons.prems by auto
  have z: "weight k (cover_scan a b (Suc k) us) = 0" using IH(1) by (intro weight_out) auto
  have "weight (k + i) (cover_scan a b k (u # us)) = card ({a..<b} \<inter> unit_bytes ((u # us) ! i))" if i: "i < length (u # us)" for i
  proof (cases "u_off u < b")
    case False
    have "u_off u \<le> u_off v" if "v \<in> set (u # us)" for v using that Cons.prems(1) by auto
    then have "b \<le> u_off ((u # us) ! i)" using False nth_mem [OF i] by fastforce
    then show ?thesis using False by (auto simp: overlap_card)
  next
    case True
    have c: "u_off u + u_len u > a \<Longrightarrow> sub64 (min b (u_off u + u_len u)) (max a (u_off u)) = card ({a..<b} \<inter> unit_bytes u)"
      using True Cons.prems(2,4) by (simp add: overlap_card sub64_ge)
    show ?thesis
    proof (cases i)
      case 0
      then show ?thesis using True c z by (auto simp: k ue Let_def overlap_card)
    next
      case (Suc j)
      then show ?thesis using True IH(2) [of j] i by (auto simp: k ue Let_def)
    qed
  qed
  moreover have "fst ` set (cover_scan a b k (u # us)) \<subseteq> {k..<k + length (u # us)}" using IH(1) by (auto simp: k Let_def)
  ultimately show ?case by blast
qed simp

lemma first_unit_before:
  assumes "units_ok us" and "i < first_unit us a"
  shows "i < length us" "u_off (us ! i) + u_len (us ! i) \<le> a"
proof -
  let ?n = "length (takeWhile (\<lambda>u. u_off u \<le> a) us)"
  have n: "Suc i < ?n" using assms(2) by (simp add: first_unit_def)
  then show l: "i < length us" using length_takeWhile_le [of _ us] by (meson Suc_lessD order_less_le_trans)
  have l2: "Suc i < length us" using n length_takeWhile_le [of _ us] by (meson order_less_le_trans)
  have "u_off (us ! Suc i) \<le> a" using nth_mem [OF n] takeWhile_nth [OF n] set_takeWhileD by metis
  moreover have "u_off (us ! i) + u_len (us ! i) \<le> u_off (us ! Suc i)" using assms(1) l2 by (simp add: units_ok_def sorted_wrt_iff_nth_less)
  ultimately show "u_off (us ! i) + u_len (us ! i) \<le> a" by simp
qed

lemma cover_run_spec:
  assumes us: "units_ok us" and r: "fst r < snd r" and i: "i < length us"
  shows "weight i (cover_run us r) = card ({fst r..<snd r} \<inter> unit_bytes (us ! i))" "fst ` set (cover_run us r) \<subseteq> {..<length us}"
proof -
  let ?f = "first_unit us (fst r)"
  have f: "?f \<le> length us" using length_takeWhile_le [of "\<lambda>u. u_off u \<le> fst r" us] by (simp add: first_unit_def)
  have d: "sorted_wrt (\<lambda>u v. u_off u + u_len u \<le> u_off v) (drop ?f us)"
    "list_all (\<lambda>u. 0 < u_len u \<and> u_len u < 2 ^ 32 \<and> u_off u + u_len u < 2 ^ 64) (drop ?f us)" "?f + length (drop ?f us) < 2 ^ 32"
    using us f by (auto simp: units_ok_def sorted_wrt_drop list_all_iff dest: in_set_dropD)
  note C = cover_scan_spec [OF d r]
  show "fst ` set (cover_run us r) \<subseteq> {..<length us}" using C f by (auto simp: cover_run_def)
  show "weight i (cover_run us r) = card ({fst r..<snd r} \<inter> unit_bytes (us ! i))"
  proof (cases "i < ?f")
    case True
    have "weight i (cover_run us r) = 0" using C True by (intro weight_out) (auto simp: cover_run_def)
    then show ?thesis using first_unit_before(2) [OF us True] by (simp add: overlap_card)
  next
    case False
    then have "weight (?f + (i - ?f)) (cover_scan (fst r) (snd r) ?f (drop ?f us)) = card ({fst r..<snd r} \<inter> unit_bytes (drop ?f us ! (i - ?f)))"
      using C i False by (metis diff_less_mono length_drop not_less)
    then show ?thesis using False f i by (simp add: cover_run_def)
  qed
qed

lemma separated_Cons: "separated (r # rs) \<Longrightarrow> separated rs \<and> {fst r..<snd r} \<inter> ivals_bytes rs = {}"
  by (fastforce simp: separated_def ivals_bytes_def)

lemma cover_all_spec:
  assumes us: "units_ok us" and i: "i < length us" and "separated rs" and "\<forall>r\<in>set rs. fst r < snd r"
  shows "weight i (concat (map (cover_run us) rs)) = card (ivals_bytes rs \<inter> unit_bytes (us ! i))"
  using assms(3,4)
proof (induction rs)
  case (Cons r rs)
  have "card (ivals_bytes (r # rs) \<inter> unit_bytes (us ! i)) = card ({fst r..<snd r} \<inter> unit_bytes (us ! i)) + card (ivals_bytes rs \<inter> unit_bytes (us ! i))"
    using separated_Cons [OF Cons.prems(1)] by (subst card_Un_disjoint [symmetric]) (auto simp: unit_bytes_def Int_Un_distrib2 intro!: arg_cong [where f = card])
  then show ?case using Cons separated_Cons [OF Cons.prems(1)] cover_run_spec(1) [OF us _ i, of r] by simp
qed simp

lemma fold_u64_sum: "fold (\<lambda>q s. u64 (s + snd q)) qs (u64 s) = u64 (s + (\<Sum>q\<leftarrow>qs. snd q))"
proof (induction qs arbitrary: s)
  case (Cons q qs)
  have "u64 (u64 s + snd q) = u64 (s + snd q)" by (simp add: u64_def mod_simps)
  then show ?case using Cons.IH [of "s + snd q"] by (simp add: add.assoc)
qed simp

lemma takeWhile_weight:
  assumes "sorted (map fst ps)" and "\<forall>q\<in>set ps. k \<le> fst q"
  shows "(\<Sum>q\<leftarrow>takeWhile (\<lambda>q. fst q = k) ps. snd q) = weight k ps \<and> fst ` set (dropWhile (\<lambda>q. fst q = k) ps) = fst ` set ps - {k} \<and>
    (\<forall>j. j \<noteq> k \<longrightarrow> weight j (dropWhile (\<lambda>q. fst q = k) ps) = weight j ps) \<and> sorted (map fst (dropWhile (\<lambda>q. fst q = k) ps))"
  using assms
proof (induction ps)
  case (Cons p ps)
  show ?case
  proof (cases "fst p = k")
    case True
    then show ?thesis using Cons by auto
  next
    case False
    then have k: "k \<notin> fst ` set (p # ps)" using Cons.prems by fastforce
    then show ?thesis using False Cons.prems weight_out [OF k] by auto
  qed
qed simp

lemma half_covered_spec:
  assumes "sorted (map fst ps)" and "\<And>k. weight k ps < 2 ^ 32"
  shows "set (half_covered us ps) = (\<lambda>k. u_group (us ! k)) ` {k \<in> fst ` set ps. u_len (us ! k) \<le> 2 * weight k ps}"
  using assms
proof (induction us ps rule: half_covered.induct)
  case (2 us p ps)
  let ?k = "fst p" and ?d = "dropWhile (\<lambda>q. fst q = fst p) ps"
  have s: "sorted (map fst ps)" "\<forall>q\<in>set ps. ?k \<le> fst q" using "2.prems"(1) by auto
  have T: "(\<Sum>q\<leftarrow>takeWhile (\<lambda>q. fst q = ?k) ps. snd q) = weight ?k ps" "fst ` set ?d = fst ` set ps - {?k}"
      "\<And>j. j \<noteq> ?k \<Longrightarrow> weight j ?d = weight j ps" and sd: "sorted (map fst ?d)"
    using takeWhile_weight [OF s] by auto
  have n: "fold (\<lambda>q s. u64 (s + snd q)) (p # takeWhile (\<lambda>q. fst q = ?k) ps) 0 = weight ?k (p # ps)"
    using fold_u64_sum [of "p # takeWhile (\<lambda>q. fst q = ?k) ps" 0] T(1) "2.prems"(2) [of ?k] by (simp add: u64_def)
  have w: "u64 (2 * weight ?k (p # ps)) = 2 * weight ?k (p # ps)" using "2.prems"(2) [of ?k] by (simp add: u64_def)
  have wd: "weight j ?d = weight j (p # ps)" if "j \<noteq> ?k" for j using T(3) [OF that] that by simp
  have "weight j ?d < 2 ^ 32" for j using "2.prems"(2) [of j] wd [of j] weight_out [of ?k ?d] T(2) by (cases "j = ?k") auto
  then have IH: "set (half_covered us ?d) = (\<lambda>k. u_group (us ! k)) ` {k \<in> fst ` set ?d. u_len (us ! k) \<le> 2 * weight k ?d}"
    using "2.IH" [OF refl sd] n by (simp add: Let_def)
  have K: "{k \<in> fst ` set (p # ps). u_len (us ! k) \<le> 2 * weight k (p # ps)} =
      (if u_len (us ! ?k) \<le> 2 * weight ?k (p # ps) then {?k} else {}) \<union> {k \<in> fst ` set ?d. u_len (us ! k) \<le> 2 * weight k ?d}"
    (is "?L = ?M")
  proof (rule set_eqI)
    fix j show "j \<in> ?L \<longleftrightarrow> j \<in> ?M" using T(2) wd [of j] by (cases "j = ?k") (simp_all del: weight_simps)
  qed
  show ?case unfolding half_covered.simps Let_def n w K using IH by auto
qed simp

lemma remdups_adj_sort: "remdups_adj (sort xs) = sorted_list_of_set (set xs)"
proof -
  have d: "sorted ys \<Longrightarrow> distinct (remdups_adj ys)" for ys :: "'a list" by (induction ys rule: remdups_adj.induct) auto
  show ?thesis by (rule sorted_distinct_set_unique) (simp_all add: d sorted_remdups_adj)
qed

text \<open>The bytes a request asks for, without the head of an RNTuple file.\<close>

definition asked_bytes :: "nat \<Rightarrow> (nat \<times> nat) list \<Rightarrow> nat set" where
  "asked_bytes skip ranges = {x. skip \<le> x \<and> (\<exists>(off, n) \<in> set ranges. off + n < 2 ^ 64 \<and> off \<le> x \<and> x < off + n)}"

lemma clip_bytes:
  assumes "fst r < 2 ^ 64" and "snd r < 2 ^ 64"
  shows "ivals_bytes (clip_range skip r) = asked_bytes skip [r]" "\<forall>q\<in>set (clip_range skip r). fst q < snd q"
proof -
  obtain off n where r: "r = (off, n)" by fastforce
  have "u64 (off + n) < off \<longleftrightarrow> \<not> off + n < 2 ^ 64" using u64_wrap_test [of off n] assms r by (auto simp: u64_def)
  then show "ivals_bytes (clip_range skip r) = asked_bytes skip [r]" "\<forall>q\<in>set (clip_range skip r). fst q < snd q"
    by (auto simp: r clip_range_def asked_bytes_def Let_def split: if_splits)
qed

lemma asked_Cons: "asked_bytes skip (r # rs) = asked_bytes skip [r] \<union> asked_bytes skip rs"
  by (auto simp: asked_bytes_def)

lemma clip_all:
  assumes "\<forall>r\<in>set ranges. fst r < 2 ^ 64 \<and> snd r < 2 ^ 64"
  shows "ivals_bytes (concat (map (clip_range skip) ranges)) = asked_bytes skip ranges"
  using assms
proof (induction ranges)
  case (Cons r rs)
  then show ?case using clip_bytes(1) [of r skip] asked_Cons [of skip r rs] by simp
qed (simp add: asked_bytes_def)

lemma merged_nonempty:
  assumes "sorted (map fst rs)" and "\<forall>r\<in>set rs. fst r < snd r"
  shows "\<forall>r\<in>set (merge_ivals rs). fst r < snd r"
proof -
  have "(\<forall>r\<in>set runs. fst r < snd r) \<Longrightarrow> (\<forall>r\<in>set rs. fst r < snd r) \<Longrightarrow> \<forall>r\<in>set (fold add_ival rs runs). fst r < snd r" for runs rs
  proof (induction rs arbitrary: runs)
    case (Cons r rs)
    have "\<forall>q\<in>set (add_ival r runs). fst q < snd q"
    proof (cases "runs = []")
      case False
      have l: "fst (last runs) < snd (last runs)" using False Cons.prems(1) by simp
      have b: "fst q < snd q" if "q \<in> set (butlast runs)" for q using in_set_butlastD [OF that] Cons.prems(1) by simp
      have r: "fst r < snd r" using Cons.prems(2) by simp
      show ?thesis
      proof (cases "fst r \<le> snd (last runs)")
        case True
        then show ?thesis using l b False by (simp add: add_ival_def less_max_iff_disj)
      next
        case late: False
        then have "add_ival r runs = runs @ [r]" by (simp add: add_ival_def)
        then show ?thesis using r Cons.prems(1) by simp
      qed
    qed (use Cons.prems in \<open>simp add: add_ival_def\<close>)
    then show ?case using Cons.IH [of "add_ival r runs"] Cons.prems(2) by simp
  qed simp
  from this [of "[]" rs] show ?thesis using assms by (simp add: merge_ivals_def)
qed

definition groups_spec :: "readMap \<Rightarrow> (nat \<times> nat) list \<Rightarrow> nat set" where
  "groups_spec m ranges =
     u_group ` {u \<in> set (rd_units m). u_len u \<le> 2 * card (asked_bytes (rd_headSkip m) ranges \<inter> unit_bytes u)}"

lemma groupsOf_eq:
  assumes us: "units_ok (rd_units m)" and r: "\<forall>r\<in>set ranges. fst r < 2 ^ 64 \<and> snd r < 2 ^ 64"
  shows "groupsOf m ranges = sorted_list_of_set (groups_spec m ranges)"
proof (cases "rd_units m = []")
  case True
  then show ?thesis by (simp add: groupsOf_def groups_spec_def)
next
  case False
  let ?us = "rd_units m" and ?A = "asked_bytes (rd_headSkip m) ranges"
  let ?iv = "concat (map (clip_range (rd_headSkip m)) ranges)"
  have pos: "\<forall>q\<in>set ?iv. fst q < snd q" using clip_bytes(2) r by auto
  let ?m = "merge_ivals (sort ?iv)"
  have M: "separated ?m" "ivals_bytes ?m = ?A" "\<forall>q\<in>set ?m. fst q < snd q"
    using merge_ivals [OF sorted_fst_sort, of ?iv] merged_nonempty [OF sorted_fst_sort, of ?iv] pos clip_all [OF r] by (auto simp: less_imp_le)
  define c where "c = concat (map (cover_run ?us) ?m)"
  have W: "weight i c = card (?A \<inter> unit_bytes (?us ! i))" if "i < length ?us" for i
    using cover_all_spec [OF us that M(1,3)] M(2) by (simp add: c_def)
  have F: "k < length ?us" if "k \<in> fst ` set c" for k
    using that cover_run_spec(2) [OF us, of _ 0] M(3) False by (fastforce simp: c_def)
  have small: "weight k c < 2 ^ 32" for k
  proof (cases "k < length ?us")
    case True
    have "card (?A \<inter> unit_bytes (?us ! k)) \<le> u_len (?us ! k)" using card_mono [of "unit_bytes (?us ! k)" "?A \<inter> unit_bytes (?us ! k)"] by (simp add: unit_bytes_def)
    moreover have "u_len (?us ! k) < 2 ^ 32" using us True by (simp add: units_ok_def list_all_length)
    ultimately show ?thesis using W [OF True] by simp
  next
    case False
    then have "k \<notin> fst ` set c" using F by blast
    then show ?thesis using weight_out [of k c] by simp
  qed
  have len: "0 < u_len (?us ! k)" if "k < length ?us" for k using us that by (simp add: units_ok_def list_all_length)
  have "set (half_covered ?us (sort c)) = (\<lambda>k. u_group (?us ! k)) ` {k \<in> fst ` set c. u_len (?us ! k) \<le> 2 * weight k c}"
    using half_covered_spec [OF sorted_fst_sort, of c ?us] small by simp
  also have "{k \<in> fst ` set c. u_len (?us ! k) \<le> 2 * weight k c} = {k. k < length ?us \<and> u_len (?us ! k) \<le> 2 * card (?A \<inter> unit_bytes (?us ! k))}"
    (is "?L = ?M")
  proof (rule set_eqI)
    fix k show "k \<in> ?L \<longleftrightarrow> k \<in> ?M"
    proof (cases "k \<in> fst ` set c")
      case True
      then show ?thesis using F [OF True] W by simp
    next
      case False
      then show ?thesis using weight_out [OF False] W [of k] len [of k] by auto
    qed
  qed
  also have "(\<lambda>k. u_group (?us ! k)) ` ?M = groups_spec m ranges"
    unfolding groups_spec_def by (auto simp: image_iff in_set_conv_nth)
  finally show ?thesis using False by (simp add: groupsOf_def Let_def remdups_adj_sort c_def)
qed

section \<open>The share is exact\<close>

definition group_sum :: "nat set \<Rightarrow> unit_rec list \<Rightarrow> nat" where
  "group_sum G us = (\<Sum>u\<leftarrow>us. if u_group u \<in> G then u_len u else 0)"

lemma group_sum_simps [simp]: "group_sum G [] = 0" "group_sum G (u # us) = (if u_group u \<in> G then u_len u else 0) + group_sum G us" "group_sum {} us = 0"
  by (simp_all add: group_sum_def)

lemma group_sum_le: "group_sum G us \<le> (\<Sum>u\<leftarrow>us. u_len u)"
  by (induction us) auto

lemma group_sum_insert: "g \<notin> G \<Longrightarrow> group_sum (insert g G) us = group_sum {g} us + group_sum G us"
  by (induction us) auto

lemma units_sum: "units_ok us \<Longrightarrow> (\<Sum>u\<leftarrow>us. u_len u) < 2 ^ 64"
proof -
  have "sorted_wrt (\<lambda>u v. u_off u + u_len u \<le> u_off v) us \<Longrightarrow> list_all (\<lambda>u. u_off u + u_len u < 2 ^ 64) us \<Longrightarrow> us \<noteq> [] \<Longrightarrow>
    u_off (hd us) + (\<Sum>u\<leftarrow>us. u_len u) < 2 ^ 64"
  proof (induction us)
    case (Cons u us)
    then show ?case by (cases us) auto
  qed simp
  then show "units_ok us \<Longrightarrow> (\<Sum>u\<leftarrow>us. u_len u) < 2 ^ 64"
    by (cases "us = []") (auto simp: units_ok_def list_all_iff intro: le_less_trans [OF le_add2])
qed

lemma fold_tally:
  assumes "list_all (\<lambda>u. u_group u < length gb) us" and "n + (\<Sum>u\<leftarrow>us. u_len u) < 2 ^ 64"
    and "\<And>g. g < length gb \<Longrightarrow> gb ! g + group_sum {g} us < 2 ^ 64" and "fold tally us (gb, n) = (gb', n')"
  shows "length gb' = length gb \<and> n' = n + (\<Sum>u\<leftarrow>us. u_len u) \<and> (\<forall>g < length gb. gb' ! g = gb ! g + group_sum {g} us)"
  using assms
proof (induction us arbitrary: gb n)
  case (Cons u us)
  let ?g = "u_group u"
  have g: "?g < length gb" using Cons.prems(1) by simp
  have s: "u64 (gb ! ?g + u_len u) = gb ! ?g + u_len u" "u64 (n + u_len u) = n + u_len u"
    using Cons.prems(2) Cons.prems(3) [OF g] by (simp_all add: u64_def)
  let ?gb = "gb[?g := gb ! ?g + u_len u]"
  have b: "?gb ! h + group_sum {h} us < 2 ^ 64" if "h < length ?gb" for h
    using Cons.prems(3) [of h] that by (cases "h = ?g") (simp_all add: add.assoc)
  have "tally u (gb, n) = (?gb, n + u_len u)" by (simp add: tally_def s)
  then have f: "fold tally us (?gb, n + u_len u) = (gb', n')" using Cons.prems(4) by simp
  have "length gb' = length ?gb \<and> n' = n + u_len u + (\<Sum>u\<leftarrow>us. u_len u) \<and> (\<forall>h < length ?gb. gb' ! h = ?gb ! h + group_sum {h} us)"
    by (rule Cons.IH [OF _ _ b f]) (use Cons.prems(1,2) in simp_all)
  then show ?case by (auto simp: nth_list_update)
qed simp

text \<open>A map whose byte counts are those of its units.\<close>

definition map_ok :: "readMap \<Rightarrow> bool" where
  "map_ok m \<longleftrightarrow> units_ok (rd_units m) \<and> list_all (\<lambda>u. u_group u < length (rd_groupBytes m)) (rd_units m) \<and>
     rd_total m = (\<Sum>u\<leftarrow>rd_units m. u_len u) \<and> list_all (\<lambda>g. rd_groupBytes m ! g = group_sum {g} (rd_units m)) [0..<length (rd_groupBytes m)]"

lemma mk_map_ok:
  assumes "units_ok us" and "list_all (\<lambda>u. u_group u < n) us"
  shows "map_ok (mk_map rnt skip us n)"
proof -
  obtain gb k where f: "fold tally us (replicate n 0, 0) = (gb, k)" by fastforce
  have "group_sum {g} us < 2 ^ 64" for g using group_sum_le [of "{g}" us] units_sum [OF assms(1)] by simp
  then have "length gb = n \<and> k = (\<Sum>u\<leftarrow>us. u_len u) \<and> (\<forall>g < n. gb ! g = group_sum {g} us)"
    using fold_tally [OF _ _ _ f] assms units_sum [OF assms(1)] by simp
  then show ?thesis using assms by (simp add: map_ok_def mk_map_def f list_all_iff)
qed

lemma branch_units_group: "u \<in> set (branch_units (g, b)) \<Longrightarrow> u_group u = g"
  by (auto simp: branch_units_def split: if_splits)

lemma fromTree_ok:
  assumes "units_ok (rd_units (fromTree bs))"
  shows "map_ok (fromTree bs)"
proof -
  let ?us = "sortUnits (concat (map branch_units (enumerate 0 bs)))"
  have u: "rd_units (fromTree bs) = ?us" by (simp add: fromTree_def mk_map_def split: prod.split)
  have "list_all (\<lambda>u. u_group u < length bs) ?us"
    by (auto simp: list_all_iff sortUnits_def in_set_enumerate_eq dest!: branch_units_group)
  then show ?thesis unfolding fromTree_def by (rule mk_map_ok [OF assms [unfolded u]])
qed

lemma weigh_fold:
  assumes "map_ok m" and "distinct gs" and "set gs \<inter> G = {}" and "sh_asked s = group_sum G (rd_units m)" and "list_all (\<lambda>g. g < length (rd_groupBytes m)) gs"
  shows "sh_asked (fold (weigh_step m) gs s) = group_sum (set gs \<union> G) (rd_units m) \<and> sh_total (fold (weigh_step m) gs s) = sh_total s"
  using assms(2-)
proof (induction gs arbitrary: G s)
  case (Cons g gs)
  have g: "g < length (rd_groupBytes m)" "rd_groupBytes m ! g = group_sum {g} (rd_units m)"
    using Cons.prems(4) assms(1) by (simp_all add: map_ok_def list_all_iff)
  have i: "group_sum (insert g G) (rd_units m) = group_sum {g} (rd_units m) + group_sum G (rd_units m)"
    using Cons.prems(2) by (intro group_sum_insert) simp
  have "group_sum (insert g G) (rd_units m) < 2 ^ 64"
    using group_sum_le [of "insert g G" "rd_units m"] units_sum [of "rd_units m"] assms(1) by (simp add: map_ok_def)
  then have a: "sh_asked (weigh_step m g s) = group_sum (insert g G) (rd_units m)" using g i Cons.prems(3) by (simp add: weigh_step_def u64_def add.commute)
  have "set gs \<inter> insert g G = {}" using Cons.prems(1,2) by auto
  from Cons.IH [OF _ this a] show ?case using Cons.prems(1,4) by (simp add: weigh_step_def)
qed simp

lemma weigh_exact:
  assumes "map_ok m" and "distinct gs" and "list_all (\<lambda>g. g < length (rd_groupBytes m)) gs"
  shows "sh_asked (weigh m gs) = group_sum (set gs) (rd_units m)" "sh_total (weigh m gs) = (\<Sum>u\<leftarrow>rd_units m. u_len u)"
  using weigh_fold [OF assms(1,2) _ _ assms(3), of "{}" "\<lparr>sh_asked = 0, sh_total = rd_total m, sh_groups = 0\<rparr>"] assms(1)
  by (simp_all add: weigh_def map_ok_def)

section \<open>The decision\<close>

lemma set_union_spec: "sorted_wrt (<) xs \<Longrightarrow> sorted_wrt (<) ys \<Longrightarrow> sorted_wrt (<) (set_union xs ys) \<and> set (set_union xs ys) = set xs \<union> set ys"
proof (induction xs ys rule: set_union.induct)
  case (3 x xs y ys)
  consider "x < y" | "y < x" | "x = y" by linarith
  then show ?case
  proof cases
    case 1
    then show ?thesis using "3.IH"(1) "3.prems" by fastforce
  next
    case 2
    then show ?thesis using "3.IH"(2) "3.prems" by fastforce
  next
    case 3
    then show ?thesis using "3.IH"(3) "3.prems" by auto
  qed
qed simp_all

lemma set_union_eq: "sorted_wrt (<) xs \<Longrightarrow> sorted_wrt (<) ys \<Longrightarrow> set_union xs ys = sorted_list_of_set (set xs \<union> set ys)"
  using set_union_spec [of xs ys] strict_sorted_equal [of "set_union xs ys" "sorted_list_of_set (set xs \<union> set ys)"] by simp

lemma groups_spec_bound: "map_ok m \<Longrightarrow> g \<in> groups_spec m ranges \<Longrightarrow> g < length (rd_groupBytes m)"
  by (auto simp: map_ok_def groups_spec_def list_all_iff)

lemma groups_spec_finite: "finite (groups_spec m ranges)"
  by (simp add: groups_spec_def)

lemma map_step_spec:
  assumes m: "map_ok m" and r: "\<forall>r\<in>set ranges. fst r < 2 ^ 64 \<and> snd r < 2 ^ 64" and seen: "sorted_wrt (<) seen" "list_all (\<lambda>g. g < length (rd_groupBytes m)) seen"
    and st: "map_step m seen ranges limit = (d, seen', sh)"
  shows "seen' = sorted_list_of_set (set seen \<union> groups_spec m ranges)" "list_all (\<lambda>g. g < length (rd_groupBytes m)) seen'"
    "sh_asked sh = group_sum (set seen') (rd_units m)" "sh_total sh = (\<Sum>u\<leftarrow>rd_units m. u_len u)"
    "d = (if groups_spec m ranges = {} then - 1 else if exceeds sh limit then 1
          else if 2 \<le> card (groups_spec m ranges) \<and> groups_spec m ranges \<subseteq> set seen then 0 else - 1)"
proof -
  let ?G = "groups_spec m ranges"
  have us: "units_ok (rd_units m)" using m by (simp add: map_ok_def)
  have now: "groupsOf m ranges = sorted_list_of_set ?G" by (rule groupsOf_eq [OF us r])
  have fin: "finite ?G" by (rule groups_spec_finite)
  have se: "set_union seen (sorted_list_of_set ?G) = sorted_list_of_set (set seen \<union> ?G)" using set_union_eq [OF seen(1), of "sorted_list_of_set ?G"] fin by simp
  have S: "seen' = sorted_list_of_set (set seen \<union> ?G) \<and> sh = weigh m seen'"
  proof (cases "?G = {}")
    case True
    then have "seen' = seen" "sh = weigh m seen" using st by (auto simp: map_step_def now)
    moreover have "sorted_list_of_set (set seen) = seen" using seen(1) strict_sorted_equal [of seen "sorted_list_of_set (set seen)"] by simp
    ultimately show ?thesis using True by simp
  qed (use st fin in \<open>auto simp: map_step_def now se Let_def sorted_list_of_set_eq_Nil_iff\<close>)
  then show s: "seen' = sorted_list_of_set (set seen \<union> ?G)" ..
  show b: "list_all (\<lambda>g. g < length (rd_groupBytes m)) seen'" using seen(2) groups_spec_bound [OF m] fin by (auto simp: s list_all_iff)
  show "sh_asked sh = group_sum (set seen') (rd_units m)" "sh_total sh = (\<Sum>u\<leftarrow>rd_units m. u_len u)"
    using weigh_exact [OF m _ b] S by (simp_all add: s)
  have "length (sorted_list_of_set (set seen \<union> ?G)) > length seen \<longleftrightarrow> \<not> ?G \<subseteq> set seen"
  proof -
    have l: "length seen = card (set seen)" using seen(1) by (metis distinct_card strict_sorted_iff)
    have "card (set seen) < card (set seen \<union> ?G) \<longleftrightarrow> \<not> ?G \<subseteq> set seen"
      using fin psubset_card_mono [of "set seen \<union> ?G" "set seen"] by (auto simp: Un_absorb2)
    then show ?thesis using fin l by simp
  qed
  note grew = this
  define w where "w = sorted_list_of_set (set seen \<union> ?G)"
  have now2: "2 \<le> length (groupsOf m ranges) \<longleftrightarrow> 2 \<le> card ?G" "groupsOf m ranges = [] \<longleftrightarrow> ?G = {}"
    using fin by (simp_all add: now sorted_list_of_set_eq_Nil_iff)
  have "?G \<noteq> {} \<Longrightarrow> (if exceeds (weigh m w) limit then 1 else if 2 \<le> length (groupsOf m ranges) \<and> \<not> length seen < length w then 0 else - 1, w, weigh m w) = (d, seen', sh)"
    using st unfolding map_step_def Let_def now2(2) by (simp only: if_False) (simp only: now se w_def [symmetric])
  then show "d = (if ?G = {} then - 1 else if exceeds sh limit then 1 else if 2 \<le> card ?G \<and> ?G \<subseteq> set seen then 0 else - 1)"
    using st grew [folded w_def] unfolding now2(1) by (cases "?G = {}") (auto simp: map_step_def now2)
qed

lemma exceeds_exact:
  assumes "sh_asked s \<le> sh_total s" and "sh_total s * 100 < 2 ^ 64" and "0 \<le> limit" and "limit \<le> 100"
  shows "exceeds s limit \<longleftrightarrow> sh_asked s * 100 > nat limit * sh_total s"
proof -
  have "nat limit * sh_total s \<le> 100 * sh_total s" using assms(4) by (intro mult_le_mono1) simp
  then have l: "nat limit * sh_total s < 2 ^ 64" using assms(2) by linarith
  have a: "sh_asked s * 100 < 2 ^ 64" using assms(1,2) by linarith
  have "limit mod 2 ^ 64 = limit" using assms(3,4) by simp
  then show ?thesis using a l assms(1) by (auto simp: exceeds_def)
qed

section \<open>Runs of data\<close>

definition data_bytes :: "readMap \<Rightarrow> nat set" where
  "data_bytes m = {x. rd_headSkip m \<le> x \<and> (\<exists>u\<in>set (rd_units m). x \<in> unit_bytes u)}"

lemma touch_scan_spec:
  assumes "sorted_wrt (\<lambda>u v. u_off u + u_len u \<le> u_off v) us" and "list_all (\<lambda>u. u_off u + u_len u < 2 ^ 64 \<and> 0 < u_len u) us" and "a < b"
  shows "touch_scan a b us \<longleftrightarrow> (\<exists>u\<in>set us. {a..<b} \<inter> unit_bytes u \<noteq> {})"
  using assms
proof (induction us)
  case (Cons u us)
  have e: "{a..<b} \<inter> unit_bytes v \<noteq> {} \<longleftrightarrow> u_off v < b \<and> a < u_off v + u_len v" if "v \<in> set (u # us)" for v
    using that Cons.prems(2,3) by (auto simp: unit_bytes_def list_all_iff)
  have "u_off u \<le> u_off v" if "v \<in> set us" for v using Cons.prems(1) that by fastforce
  then have late: "\<not> u_off u < b \<Longrightarrow> \<not> (\<exists>v\<in>set us. {a..<b} \<inter> unit_bytes v \<noteq> {})" using e by force
  have IH: "touch_scan a b us \<longleftrightarrow> (\<exists>v\<in>set us. {a..<b} \<inter> unit_bytes v \<noteq> {})" using Cons.IH Cons.prems by simp
  have "u64 (u_off u + u_len u) = u_off u + u_len u" using Cons.prems(2) by simp
  then show ?case using e [of u] late IH by (cases "u_off u < b") simp_all
qed simp

lemma touches_iff:
  assumes us: "units_ok (rd_units m)" and r: "off + len < 2 ^ 64"
  shows "touches m off len \<longleftrightarrow> {off..<off + len} \<inter> data_bytes m \<noteq> {}"
proof -
  let ?us = "rd_units m" and ?a = "max off (rd_headSkip m)" and ?b = "off + len"
  let ?f = "first_unit ?us ?a"
  have data: "{off..<off + len} \<inter> data_bytes m \<noteq> {} \<longleftrightarrow> (\<exists>u\<in>set ?us. {?a..<?b} \<inter> unit_bytes u \<noteq> {})"
    (is "?L \<longleftrightarrow> ?M")
  proof
    assume ?L
    then obtain x u where "off \<le> x" "x < ?b" "rd_headSkip m \<le> x" "u \<in> set ?us" "x \<in> unit_bytes u" by (auto simp: data_bytes_def)
    then have "x \<in> {?a..<?b} \<inter> unit_bytes u" by simp
    then show ?M using \<open>u \<in> set ?us\<close> by blast
  qed (auto simp: data_bytes_def)
  show ?thesis
  proof (cases "?us = [] \<or> len = 0 \<or> ?b \<le> ?a")
    case True
    then show ?thesis using r by (auto simp: touches_def data Let_def data_bytes_def)
  next
    case False
    have d: "sorted_wrt (\<lambda>u v. u_off u + u_len u \<le> u_off v) (drop ?f ?us)" "list_all (\<lambda>u. u_off u + u_len u < 2 ^ 64 \<and> 0 < u_len u) (drop ?f ?us)"
      using us by (auto simp: units_ok_def sorted_wrt_drop list_all_iff dest: in_set_dropD)
    have "{?a..<?b} \<inter> unit_bytes u = {}" if "u \<in> set (take ?f ?us)" for u
    proof -
      obtain i where "i < ?f" "u = ?us ! i" using \<open>u \<in> set (take ?f ?us)\<close> by (auto simp: in_set_conv_nth)
      then show ?thesis using first_unit_before(2) [OF us, of i ?a] by (auto simp: unit_bytes_def)
    qed
    then have "(\<exists>u\<in>set ?us. {?a..<?b} \<inter> unit_bytes u \<noteq> {}) \<longleftrightarrow> (\<exists>u\<in>set (drop ?f ?us). {?a..<?b} \<inter> unit_bytes u \<noteq> {})"
      by (metis Un_iff append_take_drop_id set_append)
    moreover have ab: "?a < ?b" using False by linarith
    ultimately show ?thesis using False r touch_scan_spec [OF d ab] by (simp add: touches_def data Let_def)
  qed
qed

definition clip_unit :: "nat \<Rightarrow> unit_rec \<Rightarrow> (nat \<times> nat) list" where
  "clip_unit skip u = (if max (u_off u) skip \<ge> u_off u + u_len u then [] else [(max (u_off u) skip, u_off u + u_len u)])"

lemma dataRuns_merge:
  assumes "units_ok (rd_units m)"
  shows "dataRuns m = merge_ivals (concat (map (clip_unit (rd_headSkip m)) (rd_units m)))"
proof -
  have "fold (add_data_run s) us runs = fold add_ival (concat (map (clip_unit s) us)) runs" if "list_all (\<lambda>u. u_off u + u_len u < 2 ^ 64) us" for s us runs
    using that by (induction us arbitrary: runs) (auto simp: add_data_run_def clip_unit_def Let_def)
  then show ?thesis using assms by (simp add: dataRuns_def merge_ivals_def units_ok_def list_all_iff)
qed

lemma clip_units_sorted:
  "sorted_wrt (\<lambda>u v. u_off u + u_len u \<le> u_off v) us \<Longrightarrow> sorted (map fst (concat (map (clip_unit s) us)))"
  by (induction us) (auto simp: clip_unit_def split: if_splits intro: max.coboundedI1)

lemma dataRuns_spec:
  assumes us: "units_ok (rd_units m)"
  shows "separated (dataRuns m)" "ivals_bytes (dataRuns m) = data_bytes m" "r \<in> set (dataRuns m) \<Longrightarrow> fst r < snd r \<and> snd r < 2 ^ 64"
proof -
  let ?cs = "concat (map (clip_unit (rd_headSkip m)) (rd_units m))"
  have u: "sorted_wrt (\<lambda>u v. u_off u + u_len u \<le> u_off v) (rd_units m)" using us by (simp add: units_ok_def)
  have i: "ivals_bytes (concat (map (clip_unit s) us)) = {x. s \<le> x \<and> (\<exists>u\<in>set us. x \<in> unit_bytes u)}" for s us
    by (induction us) (auto simp: clip_unit_def unit_bytes_def)
  have n: "\<forall>r\<in>set ?cs. fst r < snd r" "\<forall>r\<in>set ?cs. snd r < 2 ^ 64" using us by (auto simp: clip_unit_def units_ok_def list_all_iff)
  note M = merge_ivals [OF clip_units_sorted [OF u], of "rd_headSkip m"]
  show "separated (dataRuns m)" "ivals_bytes (dataRuns m) = data_bytes m"
    using M n(1) i [of "rd_headSkip m" "rd_units m"] by (simp_all add: dataRuns_merge [OF us] data_bytes_def less_imp_le)
  show "fst r < snd r \<and> snd r < 2 ^ 64" if "r \<in> set (dataRuns m)"
  proof -
    have r: "r \<in> set (merge_ivals ?cs)" using that by (simp add: dataRuns_merge [OF us])
    obtain q where "q \<in> set ?cs" "snd r = snd q" using merge_ends [OF r] by auto
    then show ?thesis using n(2) merged_nonempty [OF clip_units_sorted [OF u] n(1)] r by metis
  qed
qed

section \<open>Properties\<close>

text \<open>The branches of a request are exactly those with a unit at least half of whose bytes it asks for, in ascending order and once each, however the request is cut into ranges, in whatever order and with whatever
  overlaps. Ranges that wrap are ignored, and so is the head of an RNTuple file.\<close>

theorem groups_are_half_covered:
  assumes "units_ok (rd_units m)" and "\<forall>r\<in>set ranges. fst r < 2 ^ 64 \<and> snd r < 2 ^ 64"
  shows "groupsOf m ranges = sorted_list_of_set (groups_spec m ranges)"
  by (rule groupsOf_eq [OF assms])

definition sample_branches :: "branchInfo list" where
  "sample_branches = [\<lparr>b_basketSeek = [100, 300], b_basketBytes = [50, 40], b_externalFile = False\<rparr>,
     \<lparr>b_basketSeek = [150, 0], b_basketBytes = [150, 7], b_externalFile = False\<rparr>, \<lparr>b_basketSeek = [7], b_basketBytes = [9], b_externalFile = True\<rparr>]"

lemma sample_map: "fromTree sample_branches = \<lparr>rd_rnt = False, rd_headSkip = 0,
  rd_units = [\<lparr>u_off = 100, u_len = 50, u_group = 0\<rparr>, \<lparr>u_off = 150, u_len = 150, u_group = 1\<rparr>, \<lparr>u_off = 300, u_len = 40, u_group = 0\<rparr>],
  rd_groupBytes = [90, 150, 0], rd_total = 240\<rparr>"
  by (simp add: fromTree_def sample_branches_def mk_map_def branch_units_def sortUnits_def tally_def u64_def upt_rec)

lemma sample_units_ok: "units_ok (rd_units (fromTree sample_branches))"
  by (simp add: sample_map units_ok_def)

theorem groups_are_half_covered_witness:
  "groupsOf (fromTree sample_branches) [(310, 30), (120, 10), (130, 15)] = sorted_list_of_set (groups_spec (fromTree sample_branches) [(310, 30), (120, 10), (130, 15)])"
  by (rule groups_are_half_covered [OF sample_units_ok]) simp

text \<open>C29. The decision rule. A request adds its branches to those seen before; the share is the exact sum of the bytes of the units of the branches seen, over the sum of all units, and never more than that. The
  request makes the file read directly exactly when it names a branch and the share then exceeds the limit; it makes the file cached exactly when the share does not, it names two branches or more and all
  of them were seen before; otherwise nothing is decided.\<close>

theorem decision_follows_share:
  assumes "map_ok m" and "\<forall>r\<in>set ranges. fst r < 2 ^ 64 \<and> snd r < 2 ^ 64" and "sorted_wrt (<) seen" and "list_all (\<lambda>g. g < length (rd_groupBytes m)) seen"
    and "0 \<le> limit" and "limit \<le> 100" and "(\<Sum>u\<leftarrow>rd_units m. u_len u) * 100 < 2 ^ 64" and "map_step m seen ranges limit = (d, seen', sh)"
  shows "seen' = sorted_list_of_set (set seen \<union> groups_spec m ranges) \<and> sh_asked sh = group_sum (set seen') (rd_units m) \<and>
    sh_total sh = (\<Sum>u\<leftarrow>rd_units m. u_len u) \<and> sh_asked sh \<le> sh_total sh \<and>
    d = (if groups_spec m ranges = {} then - 1 else if sh_asked sh * 100 > nat limit * sh_total sh then 1
         else if 2 \<le> card (groups_spec m ranges) \<and> groups_spec m ranges \<subseteq> set seen then 0 else - 1)"
proof -
  note S = map_step_spec [OF assms(1-4,8)]
  have le: "sh_asked sh \<le> sh_total sh" using S(3,4) group_sum_le by simp
  have "exceeds sh limit \<longleftrightarrow> sh_asked sh * 100 > nat limit * sh_total sh" using exceeds_exact [OF le _ assms(5,6)] S(4) assms(7) by simp
  then show ?thesis using S le by simp
qed

theorem decision_follows_share_witness:
  "\<exists>d sh. map_step (fromTree sample_branches) [] [(100, 50)] 30 = (d, sorted_list_of_set (groups_spec (fromTree sample_branches) [(100, 50)]), sh) \<and> sh_total sh = 240"
proof -
  obtain d seen' sh where s: "map_step (fromTree sample_branches) [] [(100, 50)] 30 = (d, seen', sh)" by (metis prod_cases3)
  have "(\<Sum>u\<leftarrow>rd_units (fromTree sample_branches). u_len u) = 240" by (simp add: sample_map)
  then show ?thesis using decision_follows_share [OF fromTree_ok [OF sample_units_ok] _ _ _ _ _ _ s] s by simp
qed

end
