(* ===== verification/Read_Rule.thy ===== *)
theory Read_Rule
  imports Read_Map "HOL-Library.AList"
begin

text \<open>
  The rule of \<^verbatim>\<open>max_read_fraction\<close> (\<^verbatim>\<open>src/src/plugin/ReadRule.cc\<close>): whether a process caches a file or reads it from the origin, decided once per file from the first requests. The objects
  of the process are a list of rules named by their position, with the registry by key and the queue of rules that hold a parsed map. What the parsers found in the file is an argument of the
  request that asks for it; whether another rule's lock is free, whether a queued rule is still alive and whether there is a store to count in are arguments too. Shown: no request looks into a map that is not there, a decision is
  never taken back, maps held are bounded, and a direct file's runs tell exactly the ranges that read data.
\<close>

section \<open>Rules\<close>

datatype rule_state = kUndecided | kCache | kDirect | kNoRule

record rule =
  rl_key :: string
  rl_size :: nat
  rl_limit :: int
  rl_state :: rule_state
  rl_parsed :: bool
  rl_map :: "readMap option"
  rl_seen :: "nat list"
  rl_runs :: "(nat \<times> nat) list"

record rules =
  ru_rules :: "rule list"
  ru_registry :: "(string \<times> nat) list"
  ru_maps :: "nat list"
  ru_directFiles :: nat

definition kMinBytes :: nat where "kMinBytes = 64 * 2 ^ 20"
definition kMaxRules :: nat where "kMaxRules = 200000"
definition kMaxMaps :: nat where "kMaxMaps = 64"

definition new_rule :: "string \<Rightarrow> nat \<Rightarrow> int \<Rightarrow> rule" where
  "new_rule k sz limit = \<lparr>rl_key = k, rl_size = sz, rl_limit = limit, rl_state = kUndecided, rl_parsed = False, rl_map = None, rl_seen = [], rl_runs = []\<rparr>"

definition forFile :: "int \<Rightarrow> string \<Rightarrow> nat \<Rightarrow> rules \<Rightarrow> nat option \<times> rules" where
  "forFile limit k originSize s =
     (if limit \<ge> 100 \<or> originSize < kMinBytes then (None, s)
      else
        let it = map_of (ru_registry s) k
        in if (case it of Some i \<Rightarrow> rl_size (ru_rules s ! i) = originSize | None \<Rightarrow> False) then (it, s)
           else if it = None \<and> length (ru_registry s) \<ge> kMaxRules then (None, s)
           else let i = length (ru_rules s)
                in (Some i, s\<lparr>ru_rules := ru_rules s @ [new_rule k originSize limit], ru_registry := AList.update k i (ru_registry s)\<rparr>))"

definition readRuleDirect :: "string \<Rightarrow> rules \<Rightarrow> bool" where
  "readRuleDirect k s = (case map_of (ru_registry s) k of None \<Rightarrow> False | Some i \<Rightarrow> rl_state (ru_rules s ! i) = kDirect)"

section \<open>Maps held\<close>

definition dropMap :: "bool \<Rightarrow> rule \<Rightarrow> rule" where
  "dropMap lockFree r =
     (if \<not> lockFree then r
      else (if rl_map r \<noteq> None \<and> rl_state r = kUndecided then r\<lparr>rl_state := kCache\<rparr> else r)\<lparr>rl_map := None, rl_seen := []\<rparr>)"

definition holdMap :: "(nat \<Rightarrow> bool) \<Rightarrow> (nat \<Rightarrow> bool) \<Rightarrow> nat \<Rightarrow> rules \<Rightarrow> rules" where
  "holdMap alive lockFree i s =
     (let d = ru_maps s @ [i]
      in if length d > kMaxMaps
         then let j = hd d; s1 = s\<lparr>ru_maps := tl d\<rparr>
              in if alive j \<and> j \<noteq> i then s1\<lparr>ru_rules := (ru_rules s1)[j := dropMap (lockFree j) (ru_rules s1 ! j)]\<rparr> else s1
         else s\<lparr>ru_maps := d\<rparr>)"

section \<open>A request\<close>

text \<open>\<open>None\<close> stands for the dereference of a map that is not there.\<close>

definition decide :: "(nat \<times> nat) list \<Rightarrow> rule \<Rightarrow> (rule_state \<times> rule) option" where
  "decide ranges r =
     (case rl_map r of
        None \<Rightarrow> None
      | Some m \<Rightarrow>
          (case map_step m (rl_seen r) ranges (rl_limit r) of
             (d, seen, sh) \<Rightarrow>
               Some (if d < 0 then (kUndecided, r\<lparr>rl_seen := seen\<rparr>)
                     else if d = 0 then (kCache, r\<lparr>rl_seen := [], rl_map := None, rl_state := kCache\<rparr>)
                     else (kDirect, r\<lparr>rl_seen := [], rl_runs := dataRuns m, rl_map := None, rl_state := kDirect\<rparr>))))"

definition observe :: "(nat \<Rightarrow> bool) \<Rightarrow> (nat \<Rightarrow> bool) \<Rightarrow> bool \<Rightarrow> readMap option \<Rightarrow> (nat \<times> nat) list \<Rightarrow> nat \<Rightarrow> rules \<Rightarrow> (rule_state \<times> rules) option" where
  "observe alive lockFree counted found ranges i s =
     (let r = ru_rules s ! i
      in if rl_state r \<noteq> kUndecided then Some (rl_state r, s)
         else if \<not> rl_parsed r \<and> (case found of None \<Rightarrow> True | Some m \<Rightarrow> rd_units m = [])
         then Some (kNoRule, s\<lparr>ru_rules := (ru_rules s)[i := r\<lparr>rl_parsed := True, rl_map := None, rl_state := kNoRule\<rparr>]\<rparr>)
         else
           let s1 = (if rl_parsed r then s
                     else holdMap alive lockFree i (s\<lparr>ru_rules := (ru_rules s)[i := r\<lparr>rl_parsed := True, rl_map := found\<rparr>]\<rparr>))
           in case decide ranges (ru_rules s1 ! i) of
                None \<Rightarrow> None
              | Some (st, r1) \<Rightarrow>
                  Some (st, s1\<lparr>ru_rules := (ru_rules s1)[i := r1],
                               ru_directFiles := ru_directFiles s1 + (if st = kDirect \<and> counted then 1 else 0)\<rparr>))"

section \<open>Ranges of a direct file\<close>

text \<open>\<^verbatim>\<open>std::upper_bound\<close> with the pair of \<open>off\<close> and the largest integer: the first run that starts after \<open>off\<close>.\<close>

definition readsData :: "rule \<Rightarrow> nat \<Rightarrow> nat \<Rightarrow> bool" where
  "readsData r off len =
     (if rl_state r \<noteq> kDirect \<or> len = 0 then False
      else
        let e = u64 (off + len);
            n = length (takeWhile (\<lambda>p. p \<le> (off, 2 ^ 64 - 1)) (rl_runs r))
        in (n \<noteq> 0 \<and> snd (rl_runs r ! (n - 1)) > off) \<or> (n < length (rl_runs r) \<and> fst (rl_runs r ! n) < e))"

section \<open>The invariant\<close>

definition rule_ok :: "rule \<Rightarrow> bool" where
  "rule_ok r \<longleftrightarrow> (rl_map r = None \<and> rl_parsed r \<longrightarrow> rl_state r \<noteq> kUndecided) \<and>
     (\<forall>m. rl_map r = Some m \<longrightarrow> rl_state r = kUndecided \<and> rl_parsed r \<and> units_ok (rd_units m))"

text \<open>A decision, once taken, with the runs that go with it.\<close>

definition settled :: "rule \<Rightarrow> rule \<Rightarrow> bool" where
  "settled r r' \<longleftrightarrow> (rl_state r \<noteq> kUndecided \<longrightarrow> rl_state r' = rl_state r \<and> rl_runs r' = rl_runs r)"

definition rules_ok :: "rules \<Rightarrow> bool" where
  "rules_ok s \<longleftrightarrow> list_all rule_ok (ru_rules s) \<and> list_all (\<lambda>i. i < length (ru_rules s) \<and> rl_parsed (ru_rules s ! i)) (ru_maps s) \<and>
     list_all (\<lambda>e. snd e < length (ru_rules s)) (ru_registry s)"

definition rules_le :: "rules \<Rightarrow> rules \<Rightarrow> bool" where
  "rules_le s s' \<longleftrightarrow> length (ru_rules s) \<le> length (ru_rules s') \<and> (\<forall>i < length (ru_rules s). settled (ru_rules s ! i) (ru_rules s' ! i))"

lemma settled_refl [simp]: "settled r r"
  by (simp add: settled_def)

lemma rules_le_refl [simp]: "rules_le s s"
  by (simp add: rules_le_def)

lemma rules_le_trans: "rules_le a b \<Longrightarrow> rules_le b c \<Longrightarrow> rules_le a c"
  by (auto simp: rules_le_def settled_def)

lemma rules_okD: "rules_ok s \<Longrightarrow> i < length (ru_rules s) \<Longrightarrow> rule_ok (ru_rules s ! i)"
  by (simp add: rules_ok_def list_all_length)

text \<open>Replacing one rule by a good one that is parsed if the old one was.\<close>

lemma set_rule:
  assumes "rules_ok s" and "i < length (ru_rules s)" and "rule_ok r" and "rl_parsed (ru_rules s ! i) \<longrightarrow> rl_parsed r" and "settled (ru_rules s ! i) r"
  shows "rules_ok (s\<lparr>ru_rules := (ru_rules s)[i := r]\<rparr>)" "rules_le s (s\<lparr>ru_rules := (ru_rules s)[i := r]\<rparr>)"
  using assms by (auto simp: rules_ok_def rules_le_def list_all_iff nth_list_update dest!: set_update_subset_insert [THEN subsetD])

lemma dropMap_ok: "rule_ok r \<Longrightarrow> rule_ok (dropMap b r) \<and> settled r (dropMap b r) \<and> rl_parsed (dropMap b r) = rl_parsed r"
  by (auto simp: rule_ok_def dropMap_def settled_def)

lemma holdMap_ok:
  assumes "rules_ok s" and "i < length (ru_rules s)" and "rl_parsed (ru_rules s ! i)"
  shows "rules_ok (holdMap alive lockFree i s)" "rules_le s (holdMap alive lockFree i s)" "ru_rules (holdMap alive lockFree i s) ! i = ru_rules s ! i"
    "length (ru_rules (holdMap alive lockFree i s)) = length (ru_rules s)"
proof -
  let ?d = "ru_maps s @ [i]" and ?s = "s\<lparr>ru_maps := tl (ru_maps s @ [i])\<rparr>" and ?j = "hd (ru_maps s @ [i])"
  have all: "list_all (\<lambda>i. i < length (ru_rules s) \<and> rl_parsed (ru_rules s ! i)) ?d" using assms by (simp add: rules_ok_def)
  have s: "rules_ok ?s" "rules_ok (s\<lparr>ru_maps := ?d\<rparr>)" using assms(1) all by (cases "ru_maps s"; simp add: rules_ok_def)+
  have j: "?j < length (ru_rules s)" using all by (cases "ru_maps s") simp_all
  have D: "rule_ok (dropMap (lockFree ?j) (ru_rules s ! ?j))" "settled (ru_rules s ! ?j) (dropMap (lockFree ?j) (ru_rules s ! ?j))"
    "rl_parsed (dropMap (lockFree ?j) (ru_rules s ! ?j)) = rl_parsed (ru_rules s ! ?j)" using dropMap_ok rules_okD [OF assms(1) j] by blast+
  note U = set_rule [OF s(1), of ?j "dropMap (lockFree ?j) (ru_rules s ! ?j)"]
  show "rules_ok (holdMap alive lockFree i s)" "rules_le s (holdMap alive lockFree i s)" "ru_rules (holdMap alive lockFree i s) ! i = ru_rules s ! i"
    "length (ru_rules (holdMap alive lockFree i s)) = length (ru_rules s)"
    using U j D s by (auto simp: holdMap_def Let_def rules_le_def)
qed

lemma decide_ok:
  assumes "rule_ok r" and "rl_state r = kUndecided" and "rl_parsed r"
  shows "\<exists>st r1. decide ranges r = Some (st, r1) \<and> rule_ok r1 \<and> rl_parsed r1 \<and> st = rl_state r1 \<and> (rl_map r1 = None \<or> rl_map r1 = rl_map r)"
proof -
  obtain m where m: "rl_map r = Some m" using assms by (cases "rl_map r") (auto simp: rule_ok_def)
  obtain d seen sh where "map_step m (rl_seen r) ranges (rl_limit r) = (d, seen, sh)" by (metis prod_cases3)
  then show ?thesis using m assms by (auto simp: decide_def rule_ok_def)
qed

lemma decide_direct:
  assumes "decide ranges r = Some (kDirect, r1)" and "rl_map r = Some m"
  shows "rl_state r1 = kDirect" "rl_runs r1 = dataRuns m"
  using assms by (auto simp: decide_def split: prod.splits if_splits)

lemma observe_ok:
  assumes ok: "rules_ok s" and i: "i < length (ru_rules s)" and found: "\<And>m. found = Some m \<Longrightarrow> units_ok (rd_units m)"
  shows "\<exists>st s'. observe alive lockFree counted found ranges i s = Some (st, s') \<and> rules_ok s' \<and> rules_le s s' \<and> st = rl_state (ru_rules s' ! i)"
proof -
  let ?r = "ru_rules s ! i"
  have r: "rule_ok ?r" by (rule rules_okD [OF ok i])
  consider (fixed) "rl_state ?r \<noteq> kUndecided" | (none) "rl_state ?r = kUndecided" "\<not> rl_parsed ?r" "case found of None \<Rightarrow> True | Some m \<Rightarrow> rd_units m = []"
    | (old) "rl_state ?r = kUndecided" "rl_parsed ?r" | (new) m where "rl_state ?r = kUndecided" "\<not> rl_parsed ?r" "found = Some m" "rd_units m \<noteq> []"
    by (cases found) auto
  then show ?thesis
  proof cases
    case fixed
    then show ?thesis using ok by (simp add: observe_def)
  next
    case none
    let ?n = "?r\<lparr>rl_parsed := True, rl_map := None, rl_state := kNoRule\<rparr>"
    have "rule_ok ?n" "settled ?r ?n" using none by (simp_all add: rule_ok_def settled_def)
    then show ?thesis using set_rule [OF ok i, of ?n] none i by (simp add: observe_def)
  next
    case old
    obtain st r1 where d: "decide ranges ?r = Some (st, r1)" "rule_ok r1" "rl_parsed r1" "st = rl_state r1" using decide_ok [OF r old] by blast
    have "settled ?r r1" using old by (simp add: settled_def)
    then show ?thesis using set_rule [OF ok i d(2)] old d i by (simp add: observe_def Let_def rules_ok_def rules_le_def)
  next
    case new
    let ?p = "?r\<lparr>rl_parsed := True, rl_map := found\<rparr>"
    let ?s = "s\<lparr>ru_rules := (ru_rules s)[i := ?p]\<rparr>"
    have p: "rule_ok ?p" "settled ?r ?p" "rl_state ?p = kUndecided" using new found by (simp_all add: rule_ok_def settled_def)
    note S = set_rule [OF ok i p(1) _ p(2), simplified]
    define h where "h = holdMap alive lockFree i ?s"
    have H: "rules_ok h" "rules_le ?s h" "ru_rules h ! i = ?p" "length (ru_rules h) = length (ru_rules s)"
      using holdMap_ok [OF S(1), of i alive lockFree] i by (simp_all add: h_def)
    obtain st r1 where d: "decide ranges ?p = Some (st, r1)" "rule_ok r1" "rl_parsed r1" "st = rl_state r1" using decide_ok [OF p(1,3), of ranges] by auto
    have ih: "i < length (ru_rules h)" using i H(4) by simp
    have "settled (ru_rules h ! i) r1" using p(3) by (simp add: settled_def H(3))
    then have T: "rules_ok (h\<lparr>ru_rules := (ru_rules h)[i := r1]\<rparr>)" "rules_le h (h\<lparr>ru_rules := (ru_rules h)[i := r1]\<rparr>)"
      using set_rule [OF H(1) ih d(2)] d(3) by simp_all
    have "rules_le s (h\<lparr>ru_rules := (ru_rules h)[i := r1]\<rparr>)" using rules_le_trans [OF S(2) rules_le_trans [OF H(2) T(2)]] .
    moreover have "\<not> (case found of None \<Rightarrow> True | Some m \<Rightarrow> rd_units m = [])" using new by simp
    then have "observe alive lockFree counted found ranges i s = Some (st, h\<lparr>ru_rules := (ru_rules h)[i := r1],
        ru_directFiles := ru_directFiles h + (if st = kDirect \<and> counted then 1 else 0)\<rparr>)"
      using new(1,2) d(1) by (simp add: observe_def Let_def h_def [symmetric] H(3))
    ultimately show ?thesis using T(1) ih d(4) by (simp add: rules_ok_def rules_le_def)
  qed
qed

lemma registry_update: "set (AList.update k v xs) \<subseteq> insert (k, v) (set xs)"
  by (induction xs) auto

lemma forFile_ok:
  assumes ok: "rules_ok s" and f: "forFile limit k sz s = (r, s')"
  shows "rules_ok s'" "rules_le s s'"
proof -
  have "rules_ok s' \<and> rules_le s s'"
  proof (cases "s' = s")
    case False
    then have s': "s' = s\<lparr>ru_rules := ru_rules s @ [new_rule k sz limit], ru_registry := AList.update k (length (ru_rules s)) (ru_registry s)\<rparr>"
      using f by (auto simp: forFile_def Let_def split: if_splits)
    have n: "rule_ok (new_rule k sz limit)" by (simp add: new_rule_def rule_ok_def)
    show ?thesis using ok n registry_update [of k "length (ru_rules s)" "ru_registry s"] by (fastforce simp: s' rules_ok_def rules_le_def list_all_iff nth_append)
  qed (use ok in simp)
  then show "rules_ok s'" "rules_le s s'" by auto
qed

section \<open>Runs of the process\<close>

text \<open>With \<open>free\<close> no queued rule is gone and no lock is taken when a map has to be given up.\<close>

inductive rule_step :: "bool \<Rightarrow> rules \<Rightarrow> rules \<Rightarrow> bool" for free where
  For_File: "forFile limit k sz s = (r, s') \<Longrightarrow> rule_step free s s'"
| Observe: "i < length (ru_rules s) \<Longrightarrow> (\<And>m. found = Some m \<Longrightarrow> units_ok (rd_units m)) \<Longrightarrow> (free \<Longrightarrow> alive = (\<lambda>_. True) \<and> lockFree = (\<lambda>_. True)) \<Longrightarrow>
    observe alive lockFree counted found ranges i s = Some (st, s') \<Longrightarrow> rule_step free s s'"

definition no_rules :: rules where
  "no_rules = \<lparr>ru_rules = [], ru_registry = [], ru_maps = [], ru_directFiles = 0\<rparr>"

lemma step_ok: "rule_step free s s' \<Longrightarrow> rules_ok s \<Longrightarrow> rules_ok s' \<and> rules_le s s'"
proof (induction rule: rule_step.induct)
  case (For_File limit k sz s r s')
  then show ?case using forFile_ok by blast
next
  case (Observe i s found alive lockFree counted ranges st s')
  then show ?case using observe_ok [of s i found alive lockFree counted ranges] by auto
qed

lemma run_ok: "(rule_step free)\<^sup>*\<^sup>* s s' \<Longrightarrow> rules_ok s \<Longrightarrow> rules_ok s' \<and> rules_le s s'"
  by (induction rule: rtranclp_induct) (auto dest: step_ok rules_le_trans)

lemma no_rules_ok [simp]: "rules_ok no_rules"
  by (simp add: no_rules_def rules_ok_def)

section \<open>Maps held are bounded\<close>

definition maps_ok :: "rules \<Rightarrow> bool" where
  "maps_ok s \<longleftrightarrow> length (ru_maps s) \<le> kMaxMaps \<and> (\<forall>i < length (ru_rules s). rl_map (ru_rules s ! i) \<noteq> None \<longrightarrow> i \<in> set (ru_maps s))"

lemma holdMap_maps:
  assumes ok: "rules_ok s" and i: "i < length (ru_rules s)" "i \<notin> set (ru_maps s)" and l: "length (ru_maps s) \<le> kMaxMaps"
    and m: "\<And>x. x < length (ru_rules s) \<Longrightarrow> rl_map (ru_rules s ! x) \<noteq> None \<Longrightarrow> x = i \<or> x \<in> set (ru_maps s)"
  shows "maps_ok (holdMap (\<lambda>_. True) (\<lambda>_. True) i s)"
proof (cases "length (ru_maps s @ [i]) > kMaxMaps")
  case False
  then show ?thesis using m by (fastforce simp: holdMap_def Let_def maps_ok_def)
next
  case True
  then obtain j js where js: "ru_maps s = j # js" by (cases "ru_maps s") (auto simp: kMaxMaps_def)
  have j: "j < length (ru_rules s)" "j \<noteq> i" using ok i js by (auto simp: rules_ok_def)
  have h: "holdMap (\<lambda>_. True) (\<lambda>_. True) i s = s\<lparr>ru_maps := js @ [i], ru_rules := (ru_rules s)[j := dropMap True (ru_rules s ! j)]\<rparr>"
    using True j(2) by (simp add: holdMap_def Let_def js)
  have "rl_map (dropMap True r) = None" for r by (simp add: dropMap_def)
  then show ?thesis using m l js j by (auto simp: h maps_ok_def nth_list_update split: if_splits)
qed

lemma observe_maps:
  assumes ok: "rules_ok s" and mo: "maps_ok s" and i: "i < length (ru_rules s)" and found: "\<And>m. found = Some m \<Longrightarrow> units_ok (rd_units m)"
    and o: "observe (\<lambda>_. True) (\<lambda>_. True) counted found ranges i s = Some (st, s')"
  shows "maps_ok s'"
proof -
  let ?r = "ru_rules s ! i"
  have put: "maps_ok (t\<lparr>ru_rules := (ru_rules t)[i := r1], ru_directFiles := n\<rparr>)"
    if "maps_ok t" "rl_map r1 = None \<or> rl_map r1 = rl_map (ru_rules t ! i)" for t r1 n
    using that by (cases "i < length (ru_rules t)") (auto simp: maps_ok_def nth_list_update list_update_beyond split: if_splits)
  have dm: "rl_map r1 = None \<or> rl_map r1 = rl_map r" if "decide ranges r = Some (x, r1)" for r x r1
    using that by (auto simp: decide_def split: option.splits prod.splits if_splits)
  let ?p = "?r\<lparr>rl_parsed := True, rl_map := found\<rparr>"
  let ?s = "s\<lparr>ru_rules := (ru_rules s)[i := ?p]\<rparr>"
  define t where "t = (if rl_parsed ?r then s else holdMap (\<lambda>_. True) (\<lambda>_. True) i ?s)"
  consider (same) "s' = s" | (none) "s' = s\<lparr>ru_rules := (ru_rules s)[i := ?r\<lparr>rl_parsed := True, rl_map := None, rl_state := kNoRule\<rparr>]\<rparr>"
    | (dec) "rl_state ?r = kUndecided" "rl_parsed ?r \<or> found \<noteq> None" "(case decide ranges (ru_rules t ! i) of None \<Rightarrow> None
         | Some (x, r1) \<Rightarrow> Some (x, t\<lparr>ru_rules := (ru_rules t)[i := r1], ru_directFiles := ru_directFiles t + (if x = kDirect \<and> counted then 1 else 0)\<rparr>)) = Some (st, s')"
    using o unfolding observe_def Let_def t_def [symmetric] by (cases found) (auto split: if_splits)
  then show ?thesis
  proof cases
    case none
    then show ?thesis using put [OF mo, of "?r\<lparr>rl_parsed := True, rl_map := None, rl_state := kNoRule\<rparr>" "ru_directFiles s"] by simp
  next
    case dec
    obtain r1 where d: "decide ranges (ru_rules t ! i) = Some (st, r1)"
        "s' = t\<lparr>ru_rules := (ru_rules t)[i := r1], ru_directFiles := ru_directFiles t + (if st = kDirect \<and> counted then 1 else 0)\<rparr>"
      using dec(3) by (cases "decide ranges (ru_rules t ! i)") auto
    have "maps_ok t"
    proof (cases "rl_parsed ?r")
      case False
      have "i \<notin> set (ru_maps s)" using ok False by (auto simp: rules_ok_def list_all_iff)
      moreover have "rules_ok ?s" using set_rule(1) [OF ok i, of ?p] found dec(1,2) False by (auto simp: rule_ok_def settled_def)
      ultimately have "maps_ok (holdMap (\<lambda>_. True) (\<lambda>_. True) i ?s)"
        using mo i by (intro holdMap_maps) (auto simp: maps_ok_def nth_list_update split: if_splits)
      then show ?thesis using False by (simp add: t_def)
    qed (use mo in \<open>simp add: t_def\<close>)
    then show ?thesis unfolding d(2) by (rule put) (rule dm [OF d(1)])
  qed (use mo in simp)
qed

lemma run_maps: "(rule_step True)\<^sup>*\<^sup>* no_rules s \<Longrightarrow> rules_ok s \<and> maps_ok s"
proof (induction rule: rtranclp_induct)
  case base
  show ?case by (simp add: maps_ok_def no_rules_def rules_ok_def)
next
  case (step s s')
  have ok: "rules_ok s'" using step_ok [OF step(2)] step(3) by blast
  from step(2) show ?case
  proof cases
    case (For_File limit k sz r)
    then have "maps_ok s'" using step(3) by (auto simp: forFile_def Let_def maps_ok_def new_rule_def nth_append split: if_splits)
    then show ?thesis using ok by simp
  next
    case (Observe i found alive lockFree counted ranges st)
    then show ?thesis using observe_maps [of s i found counted ranges st s'] step(3) ok by simp
  qed
qed

text \<open>When no lock is taken, at most 64 files hold a parsed map at any time.\<close>

theorem maps_held_bounded:
  assumes "(rule_step True)\<^sup>*\<^sup>* no_rules s"
  shows "card {i. i < length (ru_rules s) \<and> rl_map (ru_rules s ! i) \<noteq> None} \<le> kMaxMaps"
proof -
  have m: "maps_ok s" using run_maps [OF assms] by simp
  have "card {i. i < length (ru_rules s) \<and> rl_map (ru_rules s ! i) \<noteq> None} \<le> card (set (ru_maps s))"
    using m by (intro card_mono) (auto simp: maps_ok_def)
  also have "\<dots> \<le> length (ru_maps s)" by (rule card_length)
  finally show ?thesis using m by (simp add: maps_ok_def)
qed

section \<open>Runs answer like the map\<close>

lemma readsData_iff:
  assumes sep: "separated (rl_runs r)" and b: "\<And>p. p \<in> set (rl_runs r) \<Longrightarrow> fst p < snd p \<and> snd p < 2 ^ 64" and st: "rl_state r = kDirect" and e: "off + len < 2 ^ 64"
  shows "readsData r off len \<longleftrightarrow> {off..<off + len} \<inter> ivals_bytes (rl_runs r) \<noteq> {}"
proof (cases "len = 0")
  case False
  let ?P = "\<lambda>p. p \<le> (off, 2 ^ 64 - 1 :: nat)"
  define A where "A = takeWhile ?P (rl_runs r)"
  define B where "B = dropWhile ?P (rl_runs r)"
  have AB: "rl_runs r = A @ B" by (simp add: A_def B_def)
  have P: "?P p \<longleftrightarrow> fst p \<le> off" if "p \<in> set (rl_runs r)" for p using b [OF that] by (cases p) auto
  have a: "fst p \<le> off" if "p \<in> set A" for p
    using set_takeWhileD [OF that [unfolded A_def]] P [of p] by blast
  have srt: "sorted_wrt (\<lambda>a b. snd a < fst b) A" "sorted_wrt (\<lambda>a b. snd a < fst b) B" using sep AB by (auto simp: separated_def sorted_wrt_append)
  have early: "snd p \<le> off" if "p \<in> set (butlast A)" for p
  proof -
    have "A \<noteq> []" using that by auto
    then have l: "butlast A @ [last A] = A" "last A \<in> set A" by simp_all
    have "sorted_wrt (\<lambda>a b. snd a < fst b) (butlast A @ [last A])" using srt(1) l(1) by simp
    then have "snd p < fst (last A)" using that by (simp add: sorted_wrt_append)
    then show ?thesis using a [OF l(2)] by simp
  qed
  have inA: "{off..<off + len} \<inter> ivals_bytes A \<noteq> {} \<longleftrightarrow> A \<noteq> [] \<and> off < snd (last A)"
  proof (cases "A = []")
    case ne: False
    then have "ivals_bytes A = ivals_bytes (butlast A) \<union> {fst (last A)..<snd (last A)}" by (metis append_butlast_last_id ivals_bytes_simps(1,2,3) sup_bot_right)
    moreover have "{off..<off + len} \<inter> ivals_bytes (butlast A) = {}" using early by (fastforce simp: ivals_bytes_def)
    moreover have "fst (last A) \<le> off" using a ne by simp
    ultimately show ?thesis using ne False by (simp add: Int_Un_distrib max_def)
  qed simp
  have hdB: "off < fst (hd B) \<and> fst (hd B) < snd (hd B)" if "B \<noteq> []"
  proof -
    have "hd B \<in> set (rl_runs r)" using AB that by simp
    moreover have "\<not> ?P (hd B)" unfolding B_def using hd_dropWhile [of ?P "rl_runs r"] that by (simp add: B_def)
    ultimately show ?thesis using P b by fastforce
  qed
  have lateB: "fst (hd B) \<le> fst p" if "p \<in> set B" for p
    using srt(2) that b [of "hd B"] AB by (cases B) fastforce+
  have inB: "{off..<off + len} \<inter> ivals_bytes B \<noteq> {} \<longleftrightarrow> B \<noteq> [] \<and> fst (hd B) < off + len"
  proof
    assume "{off..<off + len} \<inter> ivals_bytes B \<noteq> {}"
    then obtain p x where "p \<in> set B" "fst p \<le> x" "x < off + len" by (auto simp: ivals_bytes_def)
    then show "B \<noteq> [] \<and> fst (hd B) < off + len" using lateB [of p] by auto
  next
    assume h: "B \<noteq> [] \<and> fst (hd B) < off + len"
    then have "fst (hd B) \<in> {off..<off + len} \<inter> ivals_bytes B" using hdB by (auto simp: ivals_bytes_def intro!: bexI [of _ "hd B"])
    then show "{off..<off + len} \<inter> ivals_bytes B \<noteq> {}" by blast
  qed
  have "readsData r off len \<longleftrightarrow> (A \<noteq> [] \<and> off < snd (last A)) \<or> (B \<noteq> [] \<and> fst (hd B) < off + len)"
  proof -
    have l: "A \<noteq> [] \<Longrightarrow> rl_runs r ! (length A - 1) = last A" "length A < length (rl_runs r) \<longleftrightarrow> B \<noteq> []" "B \<noteq> [] \<Longrightarrow> rl_runs r ! length A = hd B"
      by (simp_all add: AB nth_append last_conv_nth hd_conv_nth)
    have "readsData r off len \<longleftrightarrow> (length A \<noteq> 0 \<and> snd (rl_runs r ! (length A - 1)) > off) \<or> (length A < length (rl_runs r) \<and> fst (rl_runs r ! length A) < off + len)"
      unfolding readsData_def Let_def A_def [symmetric] using False st e by simp
    then show ?thesis using l by auto
  qed
  then show ?thesis using inA inB AB by (simp add: Int_Un_distrib)
qed (simp add: readsData_def)

section \<open>Properties\<close>

text \<open>C30. Every request is answered and no decision is taken back. In every state the process can reach, whatever other files did meanwhile and however the queue of held maps treated this one, a request on a rule
  finds the map it needs, and its answer is the state the rule then has; a rule that was decided gives the same answer, with the same runs, in every later state.\<close>

theorem rule_answers_and_keeps:
  assumes "(rule_step free)\<^sup>*\<^sup>* no_rules s" and "i < length (ru_rules s)" and "\<And>m. found = Some m \<Longrightarrow> units_ok (rd_units m)"
  shows "(\<exists>st s'. observe alive lockFree counted found ranges i s = Some (st, s') \<and> st = rl_state (ru_rules s' ! i)) \<and>
    (\<forall>s2. (rule_step free)\<^sup>*\<^sup>* s s2 \<longrightarrow> rl_state (ru_rules s ! i) \<noteq> kUndecided \<longrightarrow>
      rl_state (ru_rules s2 ! i) = rl_state (ru_rules s ! i) \<and> rl_runs (ru_rules s2 ! i) = rl_runs (ru_rules s ! i))"
proof -
  have ok: "rules_ok s" using run_ok [OF assms(1)] by simp
  have "rl_state (ru_rules s2 ! i) = rl_state (ru_rules s ! i) \<and> rl_runs (ru_rules s2 ! i) = rl_runs (ru_rules s ! i)"
    if "(rule_step free)\<^sup>*\<^sup>* s s2" "rl_state (ru_rules s ! i) \<noteq> kUndecided" for s2
    using run_ok [OF that(1) ok] assms(2) that(2) by (auto simp: rules_le_def settled_def)
  then show ?thesis using observe_ok [OF ok assms(2,3), where alive = alive and lockFree = lockFree and counted = counted and ranges = ranges] by blast
qed

definition one_rule :: rules where
  "one_rule = \<lparr>ru_rules = [new_rule ''k'' (2 ^ 30) 30], ru_registry = [(''k'', 0)], ru_maps = [], ru_directFiles = 0\<rparr>"

lemma one_rule_reached: "(rule_step free)\<^sup>*\<^sup>* no_rules one_rule"
proof (rule r_into_rtranclp, rule For_File)
  show "forFile 30 ''k'' (2 ^ 30) no_rules = (Some 0, one_rule)"
    by (simp add: forFile_def no_rules_def one_rule_def kMinBytes_def kMaxRules_def)
qed

theorem rule_answers_and_keeps_witness:
  "\<exists>st s'. observe (\<lambda>_. True) (\<lambda>_. True) True (Some (fromTree sample_branches)) [(100, 250)] 0 one_rule = Some (st, s') \<and> st = rl_state (ru_rules s' ! 0)"
proof -
  have "0 < length (ru_rules one_rule)" by (simp add: one_rule_def)
  from rule_answers_and_keeps [OF one_rule_reached [of True] this, of "Some (fromTree sample_branches)"] show ?thesis using sample_units_ok by blast
qed

text \<open>After a direct decision the runs kept of the map answer like the map itself: in every later state a range is said to read data exactly when the full map says that it touches a unit, that is when it
  contains a byte of a unit behind the skipped head.\<close>

theorem runs_answer_like_map:
  assumes "(rule_step free)\<^sup>*\<^sup>* no_rules s" and "i < length (ru_rules s)" and "rl_map (ru_rules s ! i) = Some m"
    and "observe alive lockFree counted found ranges i s = Some (kDirect, s')" and "(rule_step free)\<^sup>*\<^sup>* s' s2" and "off + len < 2 ^ 64"
  shows "(readsData (ru_rules s2 ! i) off len \<longleftrightarrow> touches m off len) \<and> (touches m off len \<longleftrightarrow> {off..<off + len} \<inter> data_bytes m \<noteq> {})"
proof -
  have ok: "rules_ok s" using run_ok [OF assms(1)] by simp
  have r: "rl_state (ru_rules s ! i) = kUndecided" "rl_parsed (ru_rules s ! i)" "units_ok (rd_units m)"
    using rules_okD [OF ok assms(2)] assms(3) by (auto simp: rule_ok_def)
  obtain r1 where d: "decide ranges (ru_rules s ! i) = Some (kDirect, r1)" "ru_rules s' = (ru_rules s)[i := r1]"
    using assms(4) r(1,2) by (auto simp: observe_def Let_def split: option.splits)
  note D = decide_direct [OF d(1) assms(3)]
  have s'i: "ru_rules s' ! i = r1" "i < length (ru_rules s')" using d(2) assms(2) by simp_all
  have ok': "rules_ok s'" using observe_ok [OF ok assms(2), of None alive lockFree counted ranges] assms(4) r(1,2)
    by (auto simp: observe_def Let_def split: option.splits)
  have f: "rl_state (ru_rules s2 ! i) = kDirect" "rl_runs (ru_rules s2 ! i) = dataRuns m"
    using run_ok [OF assms(5) ok'] s'i D by (auto simp: rules_le_def settled_def)
  have "readsData (ru_rules s2 ! i) off len \<longleftrightarrow> {off..<off + len} \<inter> data_bytes m \<noteq> {}"
    using readsData_iff [of "ru_rules s2 ! i" off len] dataRuns_spec [OF r(3)] f assms(6) by simp
  then show ?thesis using touches_iff [OF r(3) assms(6)] by simp
qed

lemmas sample_eval = sample_map groupsOf_def clip_range_def merge_ivals_def add_ival_def cover_run_def first_unit_def weigh_def weigh_step_def exceeds_def
  u64_def u32n_def sub64_def Let_def

lemma sample_steps:
  "\<exists>sh. map_step (fromTree sample_branches) [] [(0, 10)] 30 = (- 1, [], sh)"
  "\<exists>sh seen. map_step (fromTree sample_branches) [] [(100, 50)] 30 = (1, seen, sh)"
  by (simp_all add: map_step_def sample_eval)

definition parsed_rule :: rules where
  "parsed_rule = \<lparr>ru_rules = [(new_rule ''k'' (2 ^ 30) 30)\<lparr>rl_parsed := True, rl_map := Some (fromTree sample_branches)\<rparr>], ru_registry = [(''k'', 0)], ru_maps = [0], ru_directFiles = 0\<rparr>"

lemma parsed_rule_reached: "(rule_step True)\<^sup>*\<^sup>* no_rules parsed_rule"
proof (rule rtranclp.rtrancl_into_rtrancl [OF one_rule_reached], rule Observe)
  obtain sh where s: "map_step (fromTree sample_branches) [] [(0, 10)] 30 = (- 1, [], sh)" using sample_steps(1) by blast
  have u: "rd_units (fromTree sample_branches) \<noteq> []" by (simp add: sample_map)
  show "observe (\<lambda>_. True) (\<lambda>_. True) True (Some (fromTree sample_branches)) [(0, 10)] 0 one_rule = Some (kUndecided, parsed_rule)"
    using s u by (simp add: observe_def one_rule_def new_rule_def holdMap_def kMaxMaps_def decide_def parsed_rule_def Let_def)
qed (use sample_units_ok in \<open>simp_all add: one_rule_def\<close>)

theorem runs_answer_like_map_witness:
  "\<exists>s'. observe (\<lambda>_. True) (\<lambda>_. True) True None [(100, 50)] 0 parsed_rule = Some (kDirect, s') \<and>
     (readsData (ru_rules s' ! 0) 330 20 \<longleftrightarrow> touches (fromTree sample_branches) 330 20)"
proof -
  obtain sh seen where s: "map_step (fromTree sample_branches) [] [(100, 50)] 30 = (1, seen, sh)" using sample_steps(2) by blast
  then obtain s' where o: "observe (\<lambda>_. True) (\<lambda>_. True) True None [(100, 50)] 0 parsed_rule = Some (kDirect, s')"
    by (simp add: observe_def parsed_rule_def new_rule_def decide_def Let_def)
  have "rl_map (ru_rules parsed_rule ! 0) = Some (fromTree sample_branches)" "0 < length (ru_rules parsed_rule)" by (simp_all add: parsed_rule_def)
  from runs_answer_like_map [OF parsed_rule_reached this(2,1) o rtranclp.rtrancl_refl, of 330 20] o show ?thesis by simp
qed

end
