(* ===== verification/Root_Key.thy ===== *)
theory Root_Key
  imports Prelude
begin

text \<open>
  The record layer of a ROOT file, as the replica builder reads and writes it: big-endian integers, key headers (\<^verbatim>\<open>parseKey\<close> of \<^verbatim>\<open>src/src/transpose/TreeMeta.cc\<close>, the
  fSeekKey writers of \<^verbatim>\<open>FillLayout.cc\<close> and \<^verbatim>\<open>Transposer.cc\<close>) and the file header. Shown: a key rewritten in place parses as the same key at its new position, and the header window makes the
  header state the new end and nothing else.
\<close>

section \<open>Big-endian integers\<close>

text \<open>\<^verbatim>\<open>bePut\<close> fills from the last byte, \<^verbatim>\<open>beGet\<close> shifts the bytes in; a signed type is the unsigned one of its width, copied.\<close>

primrec be_bytes :: "nat \<Rightarrow> nat \<Rightarrow> bytes" where
  "be_bytes 0 u = []"
| "be_bytes (Suc k) u = be_bytes k (u div 256) @ [word_of_nat (u mod 256)]"

definition be_val :: "bytes \<Rightarrow> nat" where
  "be_val bs = foldl (\<lambda>u b. u * 256 + unat b) 0 bs"

definition to_unsigned :: "nat \<Rightarrow> int \<Rightarrow> nat" where
  "to_unsigned k v = nat (v mod 256 ^ k)"

definition to_signed :: "nat \<Rightarrow> nat \<Rightarrow> int" where
  "to_signed k u = (if 2 * u < 256 ^ k then int u else int u - 256 ^ k)"

definition bePut :: "nat \<Rightarrow> bytes \<Rightarrow> nat \<Rightarrow> int \<Rightarrow> bytes" where
  "bePut k buf off v = overwrite buf off (be_bytes k (to_unsigned k v))"

definition beGetU :: "nat \<Rightarrow> bytes \<Rightarrow> nat \<Rightarrow> nat" where
  "beGetU k buf off = be_val (slice off k buf)"

definition beGet :: "nat \<Rightarrow> bytes \<Rightarrow> nat \<Rightarrow> int" where
  "beGet k buf off = to_signed k (beGetU k buf off)"

lemma length_be_bytes [simp]: "length (be_bytes k u) = k"
  by (induction k arbitrary: u) auto

lemma be_val_snoc: "be_val (bs @ [b]) = be_val bs * 256 + unat b"
  by (simp add: be_val_def)

lemma be_val_be_bytes: "be_val (be_bytes k u) = u mod 256 ^ k"
proof (induction k arbitrary: u)
  case 0
  show ?case by (simp add: be_val_def)
next
  case (Suc k)
  then show ?case
    by (simp add: be_val_snoc mod_mult2_eq [of u 256 "256 ^ k"])
qed

lemma dbl_less_256_iff: "2 * u < 256 ^ k \<longleftrightarrow> 2 * int u < 256 ^ k"
  using of_nat_less_iff [of "2 * u" "256 ^ k", where 'a = int] by simp

text \<open>A value of the signed type survives the copy through the unsigned one.\<close>

lemma to_signed_unsigned:
  assumes "- (256 ^ k) \<le> 2 * v" and "2 * v < 256 ^ k"
  shows "to_signed k (to_unsigned k v) = v"
proof (cases "0 \<le> v")
  case True
  then have "to_unsigned k v = nat v"
    using assms by (simp add: to_unsigned_def)
  moreover have "2 * nat v < 256 ^ k"
    using True assms by (simp add: dbl_less_256_iff)
  ultimately show ?thesis
    using True by (simp add: to_signed_def)
next
  case False
  have "v mod 256 ^ k = (v + 256 ^ k) mod 256 ^ k" by simp
  also have "\<dots> = v + 256 ^ k"
    by (rule mod_pos_pos_trivial) (use False assms in auto)
  finally have u: "to_unsigned k v = nat (v + 256 ^ k)"
    by (simp add: to_unsigned_def)
  have "int (to_unsigned k v) = v + 256 ^ k"
    unfolding u using False assms by simp
  moreover from this have "\<not> 2 * to_unsigned k v < 256 ^ k"
    using assms by (simp add: dbl_less_256_iff)
  ultimately show ?thesis
    by (simp add: to_signed_def)
qed

lemma to_unsigned_less: "to_unsigned k v < 256 ^ k"
  by (simp add: to_unsigned_def nat_less_iff)

lemma length_bePut [simp]: "off + k \<le> length buf \<Longrightarrow> length (bePut k buf off v) = length buf"
  by (simp add: bePut_def)

lemma beGet_bePut_same [slice_simps]:
  assumes "off + k \<le> length buf" and "- (256 ^ k) \<le> 2 * v" and "2 * v < 256 ^ k"
  shows "beGet k (bePut k buf off v) off = v"
  using assms to_unsigned_less [of k v]
  by (simp add: beGet_def beGetU_def bePut_def slice_simps be_val_be_bytes to_signed_unsigned)

lemma slice_bePut_other [slice_simps]:
  "off + k \<le> length buf \<Longrightarrow> o2 + k2 \<le> off \<or> off + k \<le> o2 \<Longrightarrow> slice o2 k2 (bePut k buf off v) = slice o2 k2 buf"
  by (simp add: bePut_def slice_simps)

lemma beGetU_bePut_other [slice_simps]:
  "off + k \<le> length buf \<Longrightarrow> o2 + k2 \<le> off \<or> off + k \<le> o2 \<Longrightarrow> beGetU k2 (bePut k buf off v) o2 = beGetU k2 buf o2"
  by (simp add: beGetU_def slice_simps)

lemma beGet_bePut_other [slice_simps]:
  "off + k \<le> length buf \<Longrightarrow> o2 + k2 \<le> off \<or> off + k \<le> o2 \<Longrightarrow> beGet k2 (bePut k buf off v) o2 = beGet k2 buf o2"
  by (simp add: beGet_def slice_simps)

lemma nth_bePut_other [slice_simps]:
  "off + k \<le> length buf \<Longrightarrow> i < off \<or> off + k \<le> i \<Longrightarrow> i < length buf \<Longrightarrow> bePut k buf off v ! i = buf ! i"
  by (auto simp: bePut_def nth_overwrite)

lemma be_val_bound: "be_val bs < 256 ^ length bs"
proof (induction bs rule: rev_induct)
  case (snoc b bs)
  then show ?case
    using unat_byte_less [of b] by (simp add: be_val_snoc)
qed (simp add: be_val_def)

lemma beGet_range: "- (256 ^ k) \<le> 2 * beGet k buf off" "2 * beGet k buf off < 256 ^ k"
proof -
  have "be_val (slice off k buf) < 256 ^ length (slice off k buf)"
    by (rule be_val_bound)
  also have "\<dots> \<le> 256 ^ k"
    by (rule power_increasing) auto
  finally have "int (beGetU k buf off) < 256 ^ k"
    using of_nat_less_iff [of "beGetU k buf off" "256 ^ k", where 'a = int] by (simp add: beGetU_def)
  moreover have "\<And>x m :: int. 0 \<le> x \<Longrightarrow> x < m \<Longrightarrow>
      - m \<le> 2 * (if 2 * x < m then x else x - m) \<and> 2 * (if 2 * x < m then x else x - m) < m"
    by auto
  ultimately show "- (256 ^ k) \<le> 2 * beGet k buf off" "2 * beGet k buf off < 256 ^ k"
    unfolding beGet_def to_signed_def dbl_less_256_iff using of_nat_0_le_iff by blast+
qed

section \<open>Key headers\<close>

record keyInfo =
  k_nbytes :: int
  k_ver :: nat
  k_objlen :: int
  k_keylen :: nat
  k_cycle :: nat
  k_seekkey :: int
  k_cls :: string
  k_name :: string
  k_title :: string

text \<open>The lambda \<^verbatim>\<open>str\<close>: a length byte and that many characters, both inside the buffer.\<close>

definition key_str :: "bytes \<Rightarrow> nat \<Rightarrow> nat \<Rightarrow> (string \<times> nat) option" where
  "key_str p off q =
     (if length p \<le> u64 (off + q) then None
      else let len = unat (p ! (off + q)) in
        if length p < u64 (off + (q + 1) + len) then None
        else Some (map char_of_byte (slice (off + (q + 1)) len p), q + 1 + len))"

definition parseKey :: "bytes \<Rightarrow> nat \<Rightarrow> keyInfo option" where
  "parseKey p off =
     (if length p < u64 (off + 34) then None
      else let ver = beGetU 2 p (off + 4) in
        case key_str p off (if 1000 < ver then 34 else 26) of
          None \<Rightarrow> None
        | Some (cls, q1) \<Rightarrow> (case key_str p off q1 of
            None \<Rightarrow> None
          | Some (name, q2) \<Rightarrow> (case key_str p off q2 of
              None \<Rightarrow> None
            | Some (title, _) \<Rightarrow>
                Some \<lparr>k_nbytes = beGet 4 p off, k_ver = ver, k_objlen = beGet 4 p (off + 6), k_keylen = beGetU 2 p (off + 14),
                      k_cycle = beGetU 2 p (off + 16), k_seekkey = beGet (if 1000 < ver then 8 else 4) p (off + 18),
                      k_cls = cls, k_name = name, k_title = title\<rparr>)))"

text \<open>\<^verbatim>\<open>putKeySeek\<close> (FillLayout.cc) and \<^verbatim>\<open>patchSeek\<close> (Transposer.cc) on the key at \<open>off\<close> of a buffer: \<^const>\<open>None\<close> is the refusal.\<close>

definition putKeySeek :: "bytes \<Rightarrow> nat \<Rightarrow> nat \<Rightarrow> int \<Rightarrow> bytes option" where
  "putKeySeek buf off ver seek =
     (if 1000 < ver then Some (bePut 8 buf (off + 18) seek)
      else if seek < 0 \<or> 2 ^ 31 \<le> seek then None
      else Some (bePut 4 buf (off + 18) seek))"

definition patchSeek :: "bytes \<Rightarrow> nat \<Rightarrow> nat \<Rightarrow> int \<Rightarrow> bytes option" where
  "patchSeek buf off ver seek =
     (if 1000 < ver then Some (bePut 8 buf (off + 18) seek)
      else if seek < 2 ^ 31 then Some (bePut 4 buf (off + 18) seek)
      else None)"

text \<open>\<^verbatim>\<open>static_cast<int64_t>\<close> of a \<^verbatim>\<open>uint64_t\<close>, and \<^verbatim>\<open>static_cast<int32_t>\<close> of a size.\<close>

definition as_i64 :: "nat \<Rightarrow> int" where "as_i64 n = to_signed 8 (u64 n)"
definition as_i32 :: "nat \<Rightarrow> int" where "as_i32 n = to_signed 4 (u32n n)"

lemma as_i64_id [simp]: "n < 2 ^ 63 \<Longrightarrow> as_i64 n = int n"
  by (simp add: as_i64_def to_signed_def)

lemma as_i32_id [simp]: "n < 2 ^ 31 \<Longrightarrow> as_i32 n = int n"
  by (simp add: as_i32_def to_signed_def)

definition patchKeySeek :: "bytes \<Rightarrow> nat \<Rightarrow> bytes option" where
  "patchKeySeek record seek =
     (if length record < 26 \<or> 2 ^ 63 - 1 < seek then None
      else let ver = beGetU 2 record 4 in
        if 1000 < ver \<and> length record < 34 then None
        else putKeySeek record 0 ver (as_i64 seek))"

section \<open>A key rewritten in place\<close>

lemma key_str_cong:
  assumes "length p' = length p" and "length p < 2 ^ 63" and "\<And>i. off + 26 \<le> i \<Longrightarrow> i < length p \<Longrightarrow> p' ! i = p ! i"
    and "26 \<le> q" and "q \<le> 1000" and "off \<le> length p"
  shows "key_str p' off q = key_str p off q"
proof (cases "length p \<le> u64 (off + q)")
  case True
  then show ?thesis using assms by (simp add: key_str_def)
next
  case False
  have "off + q < 2 ^ 64" using assms by simp
  with False have q: "off + q < length p" by simp
  have "off + (q + 1) + unat (p ! (off + q)) < 2 ^ 64"
    using q assms unat_byte_less [of "p ! (off + q)"] by simp
  moreover have "slice (off + (q + 1)) len p' = slice (off + (q + 1)) len p" for len
    by (rule slice_eqI) (use assms in auto)
  ultimately show ?thesis
    using q assms by (simp add: key_str_def Let_def)
qed

lemma key_str_bounds:
  assumes "key_str p off q = Some (s, q')"
  shows "q < q'" and "q' \<le> q + 256"
  using assms unat_byte_less [of "p ! (off + q)"] by (auto simp: key_str_def Let_def split: if_splits)

text \<open>What \<^verbatim>\<open>parseKey\<close> reads: the fixed fields, and the strings after them.\<close>

lemma parseKey_SomeE:
  assumes "parseKey p off = Some k"
  obtains cls q1 name q2 title q3
  where "\<not> length p < u64 (off + 34)"
    and "key_str p off (if 1000 < beGetU 2 p (off + 4) then 34 else 26) = Some (cls, q1)"
    and "key_str p off q1 = Some (name, q2)" and "key_str p off q2 = Some (title, q3)"
    and "k = \<lparr>k_nbytes = beGet 4 p off, k_ver = beGetU 2 p (off + 4), k_objlen = beGet 4 p (off + 6), k_keylen = beGetU 2 p (off + 14),
              k_cycle = beGetU 2 p (off + 16), k_seekkey = beGet (if 1000 < beGetU 2 p (off + 4) then 8 else 4) p (off + 18),
              k_cls = cls, k_name = name, k_title = title\<rparr>"
  using assms unfolding parseKey_def Let_def
  by (auto split: if_splits option.splits prod.splits)

lemma parseKey_cong:
  assumes "parseKey p off = Some k" and "length p' = length p" and "length p < 2 ^ 63" and "off + 34 \<le> length p"
    and eq: "\<And>i. off + 26 \<le> i \<Longrightarrow> i < length p \<Longrightarrow> p' ! i = p ! i"
    and "beGetU 2 p' (off + 4) = k_ver k" and "beGet 4 p' (off + 6) = k_objlen k"
    and "beGetU 2 p' (off + 14) = k_keylen k" and "beGetU 2 p' (off + 16) = k_cycle k"
  shows "parseKey p' off = Some (k\<lparr>k_nbytes := beGet 4 p' off, k_seekkey := beGet (if 1000 < k_ver k then 8 else 4) p' (off + 18)\<rparr>)"
proof -
  from assms(1) obtain cls q1 name q2 title q3
    where *: "\<not> length p < u64 (off + 34)"
      "key_str p off (if 1000 < beGetU 2 p (off + 4) then 34 else 26) = Some (cls, q1)"
      "key_str p off q1 = Some (name, q2)" "key_str p off q2 = Some (title, q3)"
      "k = \<lparr>k_nbytes = beGet 4 p off, k_ver = beGetU 2 p (off + 4), k_objlen = beGet 4 p (off + 6), k_keylen = beGetU 2 p (off + 14),
            k_cycle = beGetU 2 p (off + 16), k_seekkey = beGet (if 1000 < beGetU 2 p (off + 4) then 8 else 4) p (off + 18),
            k_cls = cls, k_name = name, k_title = title\<rparr>"
    by (rule parseKey_SomeE)
  have cong: "key_str p' off q = key_str p off q" if "26 \<le> q" "q \<le> 1000" for q
    using that assms by (intro key_str_cong) auto
  note b = key_str_bounds [OF *(2)] key_str_bounds [OF *(3)]
  have "26 \<le> q1" "q1 \<le> 1000" "26 \<le> q2" "q2 \<le> 1000"
    using b by (auto split: if_splits)
  then show ?thesis
    using * assms cong [of q1] cong [of q2] cong [of 34] cong [of 26]
    by (simp add: parseKey_def Let_def split: if_splits)
qed

text \<open>A header that parses by itself parses the same in front of a payload.\<close>

lemma key_str_append:
  assumes "key_str p off q = Some r" and "length p < 2 ^ 63" and "off \<le> length p" and "q \<le> 1000" and "length (p @ x) < 2 ^ 63"
  shows "key_str (p @ x) off q = Some r"
proof -
  have q: "off + q < length p"
    using assms by (auto simp: key_str_def split: if_splits)
  have "off + (q + 1) + unat (p ! (off + q)) < 2 ^ 64"
    using q assms unat_byte_less [of "p ! (off + q)"] by simp
  moreover from this have "off + (q + 1) + unat (p ! (off + q)) \<le> length p"
    using assms q by (auto simp: key_str_def Let_def split: if_splits)
  ultimately show ?thesis
    using q assms by (auto simp: key_str_def Let_def nth_append slice_simps split: if_splits)
qed

lemma beGetU_append_left [slice_simps]: "off + k \<le> length xs \<Longrightarrow> beGetU k (xs @ ys) off = beGetU k xs off"
  by (simp add: beGetU_def slice_simps)

lemma beGet_append_left [slice_simps]: "off + k \<le> length xs \<Longrightarrow> beGet k (xs @ ys) off = beGet k xs off"
  by (simp add: beGet_def slice_simps)

lemma parseKey_append:
  assumes k: "parseKey p 0 = Some k" and len: "length (p @ x) < 2 ^ 63"
  shows "parseKey (p @ x) 0 = Some k"
proof -
  from k obtain cls q1 name q2 title q3
    where *: "\<not> length p < u64 (0 + 34)"
      "key_str p 0 (if 1000 < beGetU 2 p (0 + 4) then 34 else 26) = Some (cls, q1)"
      "key_str p 0 q1 = Some (name, q2)" "key_str p 0 q2 = Some (title, q3)"
      "k = \<lparr>k_nbytes = beGet 4 p 0, k_ver = beGetU 2 p (0 + 4), k_objlen = beGet 4 p (0 + 6), k_keylen = beGetU 2 p (0 + 14),
            k_cycle = beGetU 2 p (0 + 16), k_seekkey = beGet (if 1000 < beGetU 2 p (0 + 4) then 8 else 4) p (0 + 18),
            k_cls = cls, k_name = name, k_title = title\<rparr>"
    by (rule parseKey_SomeE)
  note b = key_str_bounds [OF *(2)] key_str_bounds [OF *(3)]
  have q: "q1 \<le> 1000" "q2 \<le> 1000" using b by (auto split: if_splits)
  have "length p < 2 ^ 63" "34 \<le> length p" using len *(1) by auto
  then have "key_str (p @ x) 0 (if 1000 < beGetU 2 p 4 then 34 else 26) = Some (cls, q1)"
    "key_str (p @ x) 0 q1 = Some (name, q2)" "key_str (p @ x) 0 q2 = Some (title, q3)"
    using key_str_append [OF *(2), of x] key_str_append [OF *(3), of x] key_str_append [OF *(4), of x] q len by auto
  with * \<open>34 \<le> length p\<close> show ?thesis
    by (simp add: parseKey_def Let_def slice_simps)
qed

lemma parseKey_min_length: "parseKey p 0 = Some k \<Longrightarrow> 34 \<le> length p"
  by (auto simp: parseKey_def split: if_splits)

text \<open>The length field alone, the position alone, and both.\<close>

lemma parseKey_fields:
  assumes "parseKey buf off = Some k"
  shows "k_ver k = beGetU 2 buf (off + 4)" "k_objlen k = beGet 4 buf (off + 6)" "k_keylen k = beGetU 2 buf (off + 14)"
    "k_cycle k = beGetU 2 buf (off + 16)" "k_nbytes k = beGet 4 buf off" "k_seekkey k = beGet (if 1000 < k_ver k then 8 else 4) buf (off + 18)"
  using assms by (auto elim!: parseKey_SomeE)

lemma parseKey_resized:
  assumes k: "parseKey buf off = Some k" and len: "length buf < 2 ^ 63" "off + 34 \<le> length buf" and nb: "- (2 ^ 31) \<le> nb" "nb < 2 ^ 31"
  shows "parseKey (bePut 4 buf off nb) off = Some (k\<lparr>k_nbytes := nb\<rparr>)"
proof -
  note f = parseKey_fields [OF k]
  let ?b = "bePut 4 buf off nb"
  have "parseKey ?b off = Some (k\<lparr>k_nbytes := beGet 4 ?b off, k_seekkey := beGet (if 1000 < k_ver k then 8 else 4) ?b (off + 18)\<rparr>)"
    by (rule parseKey_cong [OF k]) (use len f in \<open>auto simp: slice_simps\<close>)
  moreover have "beGet 4 ?b off = nb"
    using len nb by (simp add: slice_simps)
  moreover have "beGet (if 1000 < k_ver k then 8 else 4) ?b (off + 18) = k_seekkey k"
    using len f(6) by (cases "1000 < k_ver k") (simp_all add: slice_simps)
  ultimately show ?thesis by simp
qed

lemma putKeySeek_length [simp]:
  "putKeySeek buf off ver seek = Some buf' \<Longrightarrow> off + 26 \<le> length buf \<Longrightarrow> length buf' = length buf"
  by (auto simp: putKeySeek_def split: if_splits)

lemma parseKey_seek:
  assumes k: "parseKey buf off = Some k" and len: "length buf < 2 ^ 63" "off + 34 \<le> length buf"
    and put: "putKeySeek buf off (k_ver k) seek = Some buf'" and seek: "- (2 ^ 63) \<le> seek" "seek < 2 ^ 63"
  shows "parseKey buf' off = Some (k\<lparr>k_seekkey := seek\<rparr>)"
proof -
  note f = parseKey_fields [OF k]
  let ?w = "if 1000 < k_ver k then 8 else 4 :: nat"
  have buf': "buf' = bePut ?w buf (off + 18) seek" and s: "\<not> 1000 < k_ver k \<Longrightarrow> 0 \<le> seek \<and> seek < 2 ^ 31"
    using put by (auto simp: putKeySeek_def split: if_splits)
  have w: "?w \<le> 8" by simp
  have "parseKey buf' off = Some (k\<lparr>k_nbytes := beGet 4 buf' off, k_seekkey := beGet ?w buf' (off + 18)\<rparr>)"
    unfolding buf' by (rule parseKey_cong [OF k]) (use len f in \<open>auto simp: slice_simps\<close>)
  moreover have "beGet 4 buf' off = k_nbytes k"
    using len w f(5) by (simp add: buf' slice_simps)
  moreover have "beGet ?w buf' (off + 18) = seek"
    by (cases "1000 < k_ver k") (use len seek s in \<open>simp_all add: buf' slice_simps\<close>)
  ultimately show ?thesis by simp
qed

text \<open>fNbytes and fSeekKey are set, everything else of the key reads as before; the key's width is respected.\<close>

lemma parseKey_repointed:
  assumes k: "parseKey buf off = Some k" and len: "length buf < 2 ^ 63" "off + 34 \<le> length buf"
    and put: "putKeySeek (bePut 4 buf off nb) off (k_ver k) seek = Some buf'"
    and nb: "- (2 ^ 31) \<le> nb" "nb < 2 ^ 31" and seek: "- (2 ^ 63) \<le> seek" "seek < 2 ^ 63"
  shows "parseKey buf' off = Some (k\<lparr>k_nbytes := nb, k_seekkey := seek\<rparr>)"
  using parseKey_seek [OF parseKey_resized [OF k len nb], of seek buf'] len put seek by simp

section \<open>The file header\<close>

record fileHeader =
  hd_version :: int
  hd_begin :: int
  hd_end :: int
  hd_seekFree :: int
  hd_seekInfo :: int
  hd_nbytesFree :: int
  hd_nfree :: int
  hd_nbytesName :: int
  hd_compress :: int
  hd_nbytesInfo :: int
  hd_units :: byte
  hd_uuid :: bytes
  hd_large :: bool

definition root_magic :: bytes where "root_magic = map byte_of_char ''root''"

definition parseHeader :: "bytes \<Rightarrow> fileHeader option" where
  "parseHeader h =
     (if length h < 75 \<or> slice 0 4 h \<noteq> root_magic then None
      else let version = beGet 4 h 4; begin = beGet 4 h 8; large = 1000000 \<le> version;
          out = (if large
            then \<lparr>hd_version = version, hd_begin = begin, hd_end = beGet 8 h 12, hd_seekFree = beGet 8 h 20, hd_seekInfo = beGet 8 h 45,
                  hd_nbytesFree = beGet 4 h 28, hd_nfree = beGet 4 h 32, hd_nbytesName = beGet 4 h 36, hd_compress = beGet 4 h 41,
                  hd_nbytesInfo = beGet 4 h 53, hd_units = h ! 40, hd_uuid = slice 57 18 h, hd_large = large\<rparr>
            else \<lparr>hd_version = version, hd_begin = begin, hd_end = beGet 4 h 12, hd_seekFree = beGet 4 h 16, hd_seekInfo = beGet 4 h 37,
                  hd_nbytesFree = beGet 4 h 20, hd_nfree = beGet 4 h 24, hd_nbytesName = beGet 4 h 28, hd_compress = beGet 4 h 33,
                  hd_nbytesInfo = beGet 4 h 41, hd_units = h ! 32, hd_uuid = slice 45 18 h, hd_large = large\<rparr>)
        in if 75 \<le> begin then Some out else None)"

definition largeHeader :: "fileHeader \<Rightarrow> int \<Rightarrow> bytes" where
  "largeHeader h newEnd =
     (let w = replicate 75 0;
          w = overwrite w 0 root_magic;
          w = bePut 4 w 4 (if hd_large h then hd_version h else hd_version h + 1000000);
          w = bePut 4 w 8 (hd_begin h);
          w = bePut 8 w 12 newEnd;
          w = bePut 8 w 20 (hd_seekFree h);
          w = bePut 4 w 28 (hd_nbytesFree h);
          w = bePut 4 w 32 (hd_nfree h);
          w = bePut 4 w 36 (hd_nbytesName h);
          w = w[40 := 8];
          w = bePut 4 w 41 (hd_compress h);
          w = bePut 8 w 45 (hd_seekInfo h);
          w = bePut 4 w 53 (hd_nbytesInfo h)
      in overwrite w 57 (hd_uuid h))"

definition headerWindowForEnd :: "bytes \<Rightarrow> nat \<Rightarrow> (nat \<times> bytes) option" where
  "headerWindowForEnd header newEnd =
     (case parseHeader header of
        None \<Rightarrow> None
      | Some H \<Rightarrow>
          if hd_large H then Some (12, bePut 8 (replicate 8 0) 0 (as_i64 newEnd))
          else if newEnd < 2 ^ 31 then Some (12, bePut 4 (replicate 4 0) 0 (as_i32 newEnd))
          else Some (0, largeHeader H (as_i64 newEnd)))"

lemma length_root_magic [simp]: "length root_magic = 4"
  by (simp add: root_magic_def)

lemma slice_list_update_other [slice_simps]:
  "i < o2 \<or> o2 + k2 \<le> i \<Longrightarrow> slice o2 k2 (xs[i := v]) = slice o2 k2 xs"
  by (rule slice_eqI) auto

lemma beGet_list_update_other [slice_simps]:
  "i < o2 \<or> o2 + k2 \<le> i \<Longrightarrow> beGet k2 (xs[i := v]) o2 = beGet k2 xs o2"
  by (simp add: beGet_def beGetU_def slice_simps)

lemma beGet_overwrite_other [slice_simps]:
  "off + length ys \<le> length buf \<Longrightarrow> o2 + k2 \<le> off \<or> off + length ys \<le> o2 \<Longrightarrow> beGet k2 (overwrite buf off ys) o2 = beGet k2 buf o2"
  by (simp add: beGet_def beGetU_def slice_simps)

lemma nth_overwrite_other [slice_simps]:
  "off + length ys \<le> length xs \<Longrightarrow> i < off \<or> off + length ys \<le> i \<Longrightarrow> i < length xs \<Longrightarrow> overwrite xs off ys ! i = xs ! i"
  by (auto simp: nth_overwrite)

lemma overwrite_bePut_zeros: "overwrite h off (bePut k (replicate k 0) 0 v) = bePut k h off v"
  by (simp add: bePut_def overwrite_def)

text \<open>What is written into the 64-bit layout reads back.\<close>

lemma parseHeader_largeHeader:
  assumes uuid: "length (hd_uuid H) = 18" and beg: "75 \<le> hd_begin H" "hd_begin H < 2 ^ 31"
    and ver: "0 \<le> hd_version H" "\<not> hd_large H" "hd_version H < 1000000"
    and e: "- (2 ^ 63) \<le> e" "e < 2 ^ 63"
    and r8: "\<And>x. x \<in> {hd_seekFree H, hd_seekInfo H} \<Longrightarrow> - (2 ^ 63) \<le> x \<and> x < 2 ^ 63"
    and r4: "\<And>x. x \<in> {hd_nbytesFree H, hd_nfree H, hd_nbytesName H, hd_compress H, hd_nbytesInfo H} \<Longrightarrow> - (2 ^ 31) \<le> x \<and> x < 2 ^ 31"
  shows "parseHeader (largeHeader H e @ rest) =
      Some (H\<lparr>hd_version := hd_version H + 1000000, hd_end := e, hd_units := 8, hd_large := True\<rparr>)"
    and "length (largeHeader H e) = 75"
proof -
  show len: "length (largeHeader H e) = 75"
    using uuid by (simp add: largeHeader_def Let_def)
  have rd: "slice 0 4 (largeHeader H e) = root_magic" "beGet 4 (largeHeader H e) 4 = hd_version H + 1000000"
    "beGet 4 (largeHeader H e) 8 = hd_begin H" "beGet 8 (largeHeader H e) 12 = e"
    "beGet 8 (largeHeader H e) 20 = hd_seekFree H" "beGet 4 (largeHeader H e) 28 = hd_nbytesFree H"
    "beGet 4 (largeHeader H e) 32 = hd_nfree H" "beGet 4 (largeHeader H e) 36 = hd_nbytesName H"
    "largeHeader H e ! 40 = 8" "beGet 4 (largeHeader H e) 41 = hd_compress H"
    "beGet 8 (largeHeader H e) 45 = hd_seekInfo H" "beGet 4 (largeHeader H e) 53 = hd_nbytesInfo H"
    "slice 57 18 (largeHeader H e) = hd_uuid H"
    using uuid beg ver e r8 r4 by (simp_all add: largeHeader_def Let_def slice_simps)
  show "parseHeader (largeHeader H e @ rest) =
      Some (H\<lparr>hd_version := hd_version H + 1000000, hd_end := e, hd_units := 8, hd_large := True\<rparr>)"
    using ver beg by (simp add: parseHeader_def Let_def len rd slice_simps nth_append)
qed

text \<open>Every field of a parsed header is a value of its type.\<close>

lemma parseHeader_fields:
  assumes "parseHeader h = Some H"
  shows "75 \<le> length h" and "length (hd_uuid H) = 18" and "75 \<le> hd_begin H" and "hd_begin H < 2 ^ 31"
    and "hd_large H = (1000000 \<le> hd_version H)"
    and "x \<in> {hd_seekFree H, hd_seekInfo H} \<Longrightarrow> - (2 ^ 63) \<le> x \<and> x < 2 ^ 63"
    and "x \<in> {hd_nbytesFree H, hd_nfree H, hd_nbytesName H, hd_compress H, hd_nbytesInfo H} \<Longrightarrow> - (2 ^ 31) \<le> x \<and> x < 2 ^ 31"
proof -
  have r4: "- (2 ^ 31) \<le> beGet 4 h i \<and> beGet 4 h i < 2 ^ 31" for i
    using beGet_range [of 4 h i] by simp
  have r8: "- (2 ^ 63) \<le> beGet 8 h i \<and> beGet 8 h i < 2 ^ 63" for i
    using beGet_range [of 8 h i] by simp
  have r48: "- (2 ^ 63) \<le> beGet 4 h i \<and> beGet 4 h i < 2 ^ 63" for i
    using r4 [of i] by simp
  note r = r4 r8 r48
  from assms show "75 \<le> length h" "length (hd_uuid H) = 18" "75 \<le> hd_begin H" "hd_begin H < 2 ^ 31"
    "hd_large H = (1000000 \<le> hd_version H)"
    using r4 [of 8] by (auto simp: parseHeader_def Let_def split: if_splits)
  show "x \<in> {hd_seekFree H, hd_seekInfo H} \<Longrightarrow> - (2 ^ 63) \<le> x \<and> x < 2 ^ 63"
    using assms r8 [of 20] r8 [of 45] r48 [of 16] r48 [of 37] by (auto simp: parseHeader_def Let_def split: if_splits)
  show "x \<in> {hd_nbytesFree H, hd_nfree H, hd_nbytesName H, hd_compress H, hd_nbytesInfo H} \<Longrightarrow> - (2 ^ 31) \<le> x \<and> x < 2 ^ 31"
    using assms r4 [of 28] r4 [of 32] r4 [of 36] r4 [of 41] r4 [of 53] r4 [of 20] r4 [of 24] r4 [of 33]
    by (auto simp: parseHeader_def Let_def split: if_splits)
qed

lemma parseHeader_set_end:
  assumes "parseHeader h = Some H" and "k = (if hd_large H then 8 else 4)" and "- (256 ^ k) \<le> 2 * e" and "2 * e < 256 ^ k"
  shows "parseHeader (bePut k h 12 e) = Some (H\<lparr>hd_end := e\<rparr>)"
proof (cases "hd_large H")
  case True
  with assms show ?thesis
    by (auto simp: parseHeader_def Let_def slice_simps split: if_splits)
next
  case False
  with assms show ?thesis
    by (auto simp: parseHeader_def Let_def slice_simps split: if_splits)
qed

lemma headerWindow_bounds:
  assumes "headerWindowForEnd h e = Some (off, w)"
  shows "off + length w \<le> 75" and "75 \<le> length h"
  using assms parseHeader_fields(1,2)
  by (auto simp: headerWindowForEnd_def largeHeader_def Let_def split: option.splits if_splits)

text \<open>The header as the reader is shown it: fEND is the new end, at the header's own width or, promoted, in the 64-bit layout; nothing else changes.\<close>

definition header_with_end :: "fileHeader \<Rightarrow> nat \<Rightarrow> fileHeader" where
  "header_with_end H e =
     (if hd_large H \<or> e < 2 ^ 31 then H\<lparr>hd_end := int e\<rparr>
      else H\<lparr>hd_version := hd_version H + 1000000, hd_end := int e, hd_units := 8, hd_large := True\<rparr>)"

theorem header_window_states_end:
  assumes win: "headerWindowForEnd h e = Some (off, w)" and H: "parseHeader h = Some H" and e: "e < 2 ^ 63" and v: "0 \<le> hd_version H"
  shows "parseHeader (overwrite h off w) = Some (header_with_end H e)"
proof -
  note F = parseHeader_fields [OF H]
  consider (large) "hd_large H" | (small) "\<not> hd_large H" "e < 2 ^ 31" | (promoted) "\<not> hd_large H" "\<not> e < 2 ^ 31"
    by blast
  then show ?thesis
  proof cases
    case large
    then have "overwrite h off w = bePut 8 h 12 (int e)"
      using win H e by (auto simp: headerWindowForEnd_def overwrite_bePut_zeros)
    with large e show ?thesis
      using parseHeader_set_end [OF H, of 8 "int e"] by (simp add: header_with_end_def)
  next
    case small
    then have "overwrite h off w = bePut 4 h 12 (int e)"
      using win H e by (auto simp: headerWindowForEnd_def overwrite_bePut_zeros)
    with small show ?thesis
      using parseHeader_set_end [OF H, of 4 "int e"] by (simp add: header_with_end_def)
  next
    case promoted
    have len: "length (largeHeader H (int e)) = 75"
      using parseHeader_largeHeader(2) [of H "int e"] F v promoted e by auto
    from promoted have "overwrite h off w = largeHeader H (int e) @ drop 75 h"
      using win H e len by (auto simp: headerWindowForEnd_def overwrite_def)
    with promoted F v e show ?thesis
      using parseHeader_largeHeader(1) [of H "int e" "drop 75 h"] by (auto simp: header_with_end_def)
  qed
qed

end
