(* ===== verification/Root_Frames.thy ===== *)
theory Root_Frames
  imports Prelude
begin

text \<open>
  ROOT's compression container: a payload is a sequence of frames, each a nine-byte header (codec, method, stored and raw length in 24 bits) and a block of an external codec. The decoder is \<^verbatim>\<open>decompressFrames\<close>
  (\<^verbatim>\<open>src/src/transpose/TreeMeta.cc\<close>), the encoder \<^verbatim>\<open>zstdFrames\<close> (\<^verbatim>\<open>Transposer.cc\<close>). The codecs of the external libraries are the parameters \<open>dec\<close> and \<open>enc\<close>. Shown: what the encoder writes the
  decoder reads back whenever the stored length of every frame fits its 24-bit field, and what happens to a frame that does not fit.
\<close>

datatype codec = LZMA | ZLIB | ZSTD | LZ4

type_synonym decoder = "codec \<Rightarrow> bytes \<Rightarrow> nat \<Rightarrow> bytes option"
type_synonym encoder = "nat \<Rightarrow> bytes \<Rightarrow> bytes option"

section \<open>Decoding\<close>

text \<open>One frame: the block goes to the codec its two magic bytes name, and must give exactly \<open>usize\<close> bytes. An LZ4 block starts after an eight-byte checksum; a build without LZ4 is a decoder that
  refuses it.\<close>

definition magic2 :: "string \<Rightarrow> bytes \<Rightarrow> bool" where
  "magic2 m bs = (take 2 bs = map byte_of_char m)"

definition exactly :: "nat \<Rightarrow> bytes option \<Rightarrow> bytes option" where
  "exactly n r = (case r of None \<Rightarrow> None | Some bs \<Rightarrow> if length bs = n then Some bs else None)"

definition decode_frame :: "decoder \<Rightarrow> bytes \<Rightarrow> bytes \<Rightarrow> nat \<Rightarrow> bytes option" where
  "decode_frame dec m blob usize =
     (if magic2 ''XZ'' m then exactly usize (dec LZMA blob usize)
      else if magic2 ''ZL'' m then exactly usize (dec ZLIB blob usize)
      else if magic2 ''ZS'' m then exactly usize (dec ZSTD blob usize)
      else if magic2 ''L4'' m then (if length blob < 8 then None else exactly usize (dec LZ4 (drop 8 blob) usize))
      else None)"

text \<open>The loop over the frames; the empty list is the failure value. A frame takes at least its nine header bytes, so the loop ends.\<close>

function frames_loop :: "decoder \<Rightarrow> bytes \<Rightarrow> nat \<Rightarrow> nat \<Rightarrow> bytes \<Rightarrow> bytes" where
  "frames_loop dec payload objlen p out =
     (if length out < objlen then
        if length payload < p + 9 then []
        else let csize = le_val (slice (p + 3) 3 payload); usize = le_val (slice (p + 6) 3 payload) in
          if length payload < p + 9 + csize then []
          else (case decode_frame dec (slice p 2 payload) (slice (p + 9) csize payload) usize of
              None \<Rightarrow> []
            | Some bs \<Rightarrow> frames_loop dec payload objlen (p + 9 + csize) (out @ bs))
      else if length out = objlen then out else [])"
  by pat_completeness auto
termination
  by (relation "measure (\<lambda>(dec, payload, objlen, p, out). length payload - p)") auto

declare frames_loop.simps [simp del]

definition decompressFrames :: "decoder \<Rightarrow> bytes \<Rightarrow> nat \<Rightarrow> bytes" where
  "decompressFrames dec payload objlen = frames_loop dec payload objlen 0 []"

section \<open>Encoding\<close>

definition kMaxFrame :: nat where "kMaxFrame = 16777215"

text \<open>The frame around a stored block: 24-bit lengths, written byte by byte.\<close>

definition zs_frame :: "bytes \<Rightarrow> nat \<Rightarrow> bytes" where
  "zs_frame z chunk = map byte_of_char ''ZS'' @ [1] @ le_bytes 3 (length z) @ le_bytes 3 chunk @ z"

function zstd_loop :: "encoder \<Rightarrow> nat \<Rightarrow> bytes \<Rightarrow> nat \<Rightarrow> bytes \<Rightarrow> bytes" where
  "zstd_loop enc level raw i out =
     (if i < length raw then
        let chunk = min kMaxFrame (length raw - i) in
        case enc level (slice i chunk raw) of
          None \<Rightarrow> []
        | Some z \<Rightarrow> zstd_loop enc level raw (i + kMaxFrame) (out @ zs_frame z chunk)
      else out)"
  by pat_completeness auto
termination
  by (relation "measure (\<lambda>(enc, level, raw, i, out). length raw - i)") (auto simp: kMaxFrame_def)

declare zstd_loop.simps [simp del]

definition zstdFrames :: "encoder \<Rightarrow> nat \<Rightarrow> bytes \<Rightarrow> bytes" where
  "zstdFrames enc level raw = zstd_loop enc level raw 0 []"

section \<open>Round trip\<close>

text \<open>What the code relies on of the codec: a block decodes to what was encoded. And the condition on the data, which the code does not check: every chunk's block has a length of 24 bits.\<close>

definition codec_inverse :: "encoder \<Rightarrow> decoder \<Rightarrow> bool" where
  "codec_inverse enc dec \<longleftrightarrow> (\<forall>level c z. enc level c = Some z \<longrightarrow> dec ZSTD z (length c) = Some c)"

definition blocks_fit :: "encoder \<Rightarrow> nat \<Rightarrow> bytes \<Rightarrow> bool" where
  "blocks_fit enc level raw \<longleftrightarrow>
     (\<forall>i<length raw. kMaxFrame dvd i \<longrightarrow> (\<forall>z. enc level (slice i (min kMaxFrame (length raw - i)) raw) = Some z \<longrightarrow> length z < 2 ^ 24))"

text \<open>\<^verbatim>\<open>ZSTD_compressBound\<close>, the capacity of the buffer a chunk is compressed into: no block is longer. A
  record of at most \<open>16711680\<close> bytes is then one chunk whose block length needs 24 bits.\<close>

definition compressBound :: "nat \<Rightarrow> nat" where
  "compressBound n = n + n div 256 + (if n < 131072 then (131072 - n) div 2048 else 0)"

definition enc_bounded :: "encoder \<Rightarrow> bool" where
  "enc_bounded enc \<longleftrightarrow> (\<forall>level c z. enc level c = Some z \<longrightarrow> length z \<le> compressBound (length c))"

lemma compressBound_small: "n \<le> 16711680 \<Longrightarrow> compressBound n < 2 ^ 24"
  using div_le_mono [of n 16711680 256] div_le_mono [of "131072 - n" 131072 2048] by (auto simp: compressBound_def)

lemma blocks_fit_bounded:
  assumes "enc_bounded enc" and "length raw \<le> 16711680"
  shows "blocks_fit enc level raw"
  unfolding blocks_fit_def
proof (intro allI impI)
  fix i z assume i: "i < length raw" and z: "enc level (slice i (min kMaxFrame (length raw - i)) raw) = Some z"
  let ?n = "length (slice i (min kMaxFrame (length raw - i)) raw)"
  have n: "?n \<le> 16711680" using assms(2) by simp
  have "length z \<le> compressBound ?n" using assms(1) z unfolding enc_bounded_def by blast
  also have "\<dots> < 2 ^ 24" by (rule compressBound_small [OF n])
  finally show "length z < 2 ^ 24" .
qed

lemma length_zs_frame [simp]: "length (zs_frame z n) = 9 + length z"
  by (simp add: zs_frame_def)

lemma zs_frame_fields:
  assumes "length out = p"
  shows "slice p 2 (out @ zs_frame z n @ rest) = map byte_of_char ''ZS''"
    and "slice (p + 3) 3 (out @ zs_frame z n @ rest) = le_bytes 3 (length z)"
    and "slice (p + 6) 3 (out @ zs_frame z n @ rest) = le_bytes 3 n"
    and "slice (p + 9) m (out @ zs_frame z n @ rest) = take m (z @ rest)"
  using assms by (simp_all add: slice_def zs_frame_def)

lemma decode_ZS: "decode_frame dec (map byte_of_char ''ZS'') blob usize = exactly usize (dec ZSTD blob usize)"
  by (simp add: decode_frame_def magic2_def byte_of_char_def)

text \<open>One step of the decoder on a frame the encoder wrote: the stored length is what the 24-bit field holds of it.\<close>

lemma frames_loop_zs:
  assumes "length out = p" and "length got < objlen" and "n < 2 ^ 24"
  shows "frames_loop dec (out @ zs_frame z n @ rest) objlen p got =
     (case exactly n (dec ZSTD (take (length z mod 2 ^ 24) z) n) of
        None \<Rightarrow> []
      | Some bs \<Rightarrow> frames_loop dec (out @ zs_frame z n @ rest) objlen (p + 9 + length z mod 2 ^ 24) (got @ bs))"
proof -
  have le: "length z mod 2 ^ 24 \<le> length z" by simp
  let ?P = "out @ zs_frame z n @ rest"
  have f: "slice p 2 ?P = map byte_of_char ''ZS''" "le_val (slice (p + 3) 3 ?P) = length z mod 2 ^ 24"
    "le_val (slice (p + 6) 3 ?P) = n" "slice (p + 9) (length z mod 2 ^ 24) ?P = take (length z mod 2 ^ 24) z"
    using assms(3) by (simp_all add: zs_frame_fields [OF assms(1)] le_val_le_bytes)
  have g: "\<not> length ?P < p + 9" "\<not> length ?P < p + 9 + length z mod 2 ^ 24"
    using le assms(1) by auto
  show ?thesis
    by (subst frames_loop.simps) (simp only: f g Let_def if_True if_False assms(2) decode_ZS)
qed

lemma exactly_Some: "length bs = n \<Longrightarrow> exactly n (Some bs) = Some bs"
  by (simp add: exactly_def)

lemma zstd_loop_decodes:
  assumes inv: "codec_inverse enc dec" and fit: "blocks_fit enc level raw" and "zstd_loop enc level raw i out = F" and "F \<noteq> []" and "kMaxFrame dvd i"
  shows "\<exists>rest. F = out @ rest \<and> frames_loop dec F (length raw) (length out) (take i raw) = raw"
  using assms
proof (induction enc level raw i out rule: zstd_loop.induct)
  case (1 enc level raw i out)
  show ?case
  proof (cases "i < length raw")
    case False
    with 1 show ?thesis
      by (simp add: zstd_loop.simps [of enc level raw i] frames_loop.simps [of dec])
  next
    case True
    let ?n = "min kMaxFrame (length raw - i)"
    from True 1(4,5) obtain z where z: "enc level (slice i ?n raw) = Some z"
      by (auto simp: zstd_loop.simps [of enc level raw i] Let_def split: option.splits)
    then have F: "F = zstd_loop enc level raw (i + kMaxFrame) (out @ zs_frame z ?n)"
      using True 1(4) by (simp add: zstd_loop.simps [of enc level raw i])
    with 1(1) [OF True refl z 1(2,3)] 1(5,6)
    obtain rest where rest: "F = (out @ zs_frame z ?n) @ rest"
      and tail: "frames_loop dec F (length raw) (length (out @ zs_frame z ?n)) (take (i + kMaxFrame) raw) = raw"
      by auto
    have small: "length z < 2 ^ 24"
      using 1(3,6) True z unfolding blocks_fit_def by blast
    have n: "?n < 2 ^ 24" by (simp add: kMaxFrame_def)
    have l: "length (slice i ?n raw) = ?n" using True by simp
    have "dec ZSTD z (length (slice i ?n raw)) = Some (slice i ?n raw)"
      using 1(2) z unfolding codec_inverse_def by blast
    then have d: "exactly ?n (dec ZSTD z ?n) = Some (slice i ?n raw)"
      unfolding l using exactly_Some [OF l] by (simp only:)
    have "take i raw @ slice i ?n raw = take (i + kMaxFrame) raw"
      using True by (simp add: slice_def take_add flip: take_take)
    then show ?thesis
      using frames_loop_zs [of out "length out" "take i raw" "length raw" ?n dec z rest] True n small d rest tail
      by (auto simp: add.assoc)
  qed
qed

text \<open>Whatever the encoder gives back decodes to the bytes it was given.\<close>

theorem zstd_frames_roundtrip:
  assumes "codec_inverse enc dec" and "blocks_fit enc level raw" and "zstdFrames enc level raw \<noteq> []"
  shows "decompressFrames dec (zstdFrames enc level raw) (length raw) = raw"
  using zstd_loop_decodes [OF assms(1,2) refl, of 0 "[]"] assms(3)
  by (auto simp: zstdFrames_def decompressFrames_def)

section \<open>A block longer than its length field\<close>

text \<open>A chunk of \<^const>\<open>kMaxFrame\<close> bytes that does not compress is stored in more bytes than 24 bits can say; the field then holds the length modulo \<open>2 ^ 24\<close>.\<close>

lemma zstdFrames_two:
  assumes "length a = kMaxFrame" and "b \<noteq> []" and "length b \<le> kMaxFrame"
    and "enc level a = Some za" and "enc level b = Some zb"
  shows "zstdFrames enc level (a @ b) = zs_frame za kMaxFrame @ zs_frame zb (length b)"
proof -
  have K: "kMaxFrame \<noteq> 0" by (simp add: kMaxFrame_def)
  have "slice 0 kMaxFrame (a @ b) = a" "slice kMaxFrame (length b) (a @ b) = b"
    using assms by (simp_all add: slice_def)
  then show ?thesis
    using assms K
    by (simp add: zstdFrames_def zstd_loop.simps [of enc level "a @ b" 0] zstd_loop.simps [of enc level "a @ b" kMaxFrame]
        zstd_loop.simps [of enc level "a @ b" "kMaxFrame + kMaxFrame"])
qed

lemma oversized_block_undecodable:
  assumes "zstdFrames enc level (a @ b) = zs_frame za kMaxFrame @ rest"
    and "dec ZSTD (take (length za mod 2 ^ 24) za) kMaxFrame = None" and "a @ b \<noteq> []"
  shows "decompressFrames dec (zstdFrames enc level (a @ b)) (length (a @ b)) = []"
  using frames_loop_zs [of "[]" 0 "[]" "length (a @ b)" kMaxFrame dec za rest] assms
  by (simp add: decompressFrames_def exactly_def kMaxFrame_def)

section \<open>Codec names\<close>

text \<open>\<^verbatim>\<open>frameCodec\<close>, \<^verbatim>\<open>listed\<close> and \<^verbatim>\<open>codecOfSetting\<close> of \<^verbatim>\<open>FillLayout.cc\<close>; C++ division and remainder truncate, and are only reached for a positive setting.\<close>

definition frameCodec :: "bytes \<Rightarrow> string" where
  "frameCodec p =
     (if length p < 9 then ''''
      else if magic2 ''XZ'' p then ''lzma''
      else if magic2 ''ZL'' p then ''zlib''
      else if magic2 ''ZS'' p then ''zstd''
      else if magic2 ''L4'' p then ''lz4''
      else '''')"

definition listed :: "string list \<Rightarrow> string \<Rightarrow> bool" where
  "listed codecs c \<longleftrightarrow> c \<noteq> '''' \<and> c \<in> set codecs"

definition codecOfSetting :: "int \<Rightarrow> int \<Rightarrow> string" where
  "codecOfSetting compress fileCompress =
     (let c = (if compress < 0 then fileCompress else compress) in
      if c \<le> 0 \<or> c mod 100 = 0 then ''''
      else if c div 100 = 1 then ''zlib''
      else if c div 100 = 2 then ''lzma''
      else if c div 100 = 4 then ''lz4''
      else if c div 100 = 5 then ''zstd''
      else '''')"

end
