(* ===== verification/Basket_Slot.thy ===== *)
theory Basket_Slot
  imports Root_Key Root_Frames
begin

text \<open>
  One basket on its way into a slot of the extension (\<^verbatim>\<open>convertBasket\<close> and \<^verbatim>\<open>placeInSlot\<close> of \<^verbatim>\<open>src/src/transpose/FillLayout.cc\<close>): its record is decoded and encoded again, kept raw or kept as it is,
  then written at the slot's position with zeros behind it. Shown: the reader who reads the slot finds a key at its place and, under it, the object bytes of the original record.
\<close>

section \<open>Data\<close>

record fillSlot =
  fs_origSeek :: nat
  fs_origLen :: nat
  fs_vSeek :: nat
  fs_vLen :: nat
  fs_branch :: nat
  fs_basket :: nat

datatype basketKind = KZstd | KRaw | KOriginal

record convertedBasket =
  cb_kind :: basketKind
  cb_record :: bytes
  cb_codec :: string
  cb_error :: string

text \<open>The object under a key, as every reader of the repository takes it from the key's record (\<^verbatim>\<open>readKeyPayloadFrom\<close> after the read).\<close>

definition recordPayload :: "decoder \<Rightarrow> keyInfo \<Rightarrow> bytes \<Rightarrow> bytes" where
  "recordPayload dec k rec =
     (let out = (if k_objlen k = k_nbytes k - int (k_keylen k) then drop (k_keylen k) rec
                 else decompressFrames dec (drop (k_keylen k) rec) (nat (k_objlen k)))
      in if int (length out) \<noteq> k_objlen k then [] else out)"

definition readKeyPayloadFrom :: "decoder \<Rightarrow> (nat \<Rightarrow> nat \<Rightarrow> bytes option) \<Rightarrow> keyInfo \<Rightarrow> bytes \<times> bool" where
  "readKeyPayloadFrom dec rd k =
     (if k_nbytes k \<le> 0 \<or> k_nbytes k < int (k_keylen k) \<or> k_objlen k < 0 \<or> k_seekkey k < 0 then ([], False)
      else case rd (nat (k_nbytes k)) (nat (k_seekkey k)) of
          None \<Rightarrow> ([], True)
        | Some rec \<Rightarrow> (recordPayload dec k rec, False))"

section \<open>Operations\<close>

text \<open>The payload a basket gets: ZSTD when it shrinks and fits, raw when ZSTD cannot shrink it and it fits, otherwise none (the original stays).\<close>

definition choosePayload :: "encoder \<Rightarrow> bytes \<Rightarrow> nat \<Rightarrow> nat \<Rightarrow> (basketKind \<times> bytes) option" where
  "choosePayload enc raw keylen slotLen =
     (let z = zstdFrames enc 1 raw in
      if z \<noteq> [] \<and> length z < length raw then
        (if keylen + length z \<le> slotLen then Some (KZstd, z) else None)
      else if keylen + length raw \<le> slotLen then Some (KRaw, raw)
      else None)"

definition convertBasket :: "decoder \<Rightarrow> encoder \<Rightarrow> bytes \<Rightarrow> nat \<Rightarrow> string list \<Rightarrow> convertedBasket" where
  "convertBasket dec enc rec slotLen codecs =
     (let c = \<lparr>cb_kind = KOriginal, cb_record = [], cb_codec = '''', cb_error = ''''\<rparr>; n = length rec;
          bad = c\<lparr>cb_error := ''not a basket record''\<rparr> in
      case parseKey rec 0 of
        None \<Rightarrow> bad
      | Some k \<Rightarrow>
          if k_cls k \<noteq> ''TBasket'' \<or> k_nbytes k \<le> 0 \<or> k_nbytes k \<noteq> int n \<or> n < k_keylen k then bad
          else if slotLen < n then c\<lparr>cb_error := ''record longer than its slot''\<rparr>
          else if k_objlen k = k_nbytes k - int (k_keylen k) then c\<lparr>cb_record := rec\<rparr>
          else let pay = drop (k_keylen k) rec; codec = frameCodec pay; original = c\<lparr>cb_codec := codec, cb_record := rec\<rparr> in
            if \<not> listed codecs codec \<or> k_objlen k \<le> 0 then original
            else let raw = decompressFrames dec pay (nat (k_objlen k)) in
              if raw = [] then original
              else (case choosePayload enc raw (k_keylen k) slotLen of
                  None \<Rightarrow> original
                | Some (kind, use) \<Rightarrow>
                    let r = take (k_keylen k) rec @ use in
                    c\<lparr>cb_codec := codec, cb_kind := kind, cb_record := bePut 4 r 0 (as_i32 (length r))\<rparr>))"

text \<open>The slot's bytes, or the refusal.\<close>

definition placeInSlot :: "convertedBasket \<Rightarrow> fillSlot \<Rightarrow> string + bytes" where
  "placeInSlot c slot =
     (if cb_error c \<noteq> '''' \<or> length (cb_record c) < 26 then Inl (if cb_error c = '''' then ''empty record'' else cb_error c)
      else if fs_vLen slot < length (cb_record c) then Inl ''record longer than its slot''
      else case putKeySeek (cb_record c) 0 (beGetU 2 (cb_record c) 4) (as_i64 (fs_vSeek slot)) of
          None \<Rightarrow> Inl ''32-bit basket key cannot address a slot past 2 GiB''
        | Some out \<Rightarrow> Inr (out @ replicate (fs_vLen slot - length (cb_record c)) 0))"

section \<open>The object survives\<close>

lemma frames_loop_length: "frames_loop dec payload objlen p out \<noteq> [] \<Longrightarrow> length (frames_loop dec payload objlen p out) = objlen"
proof (induction dec payload objlen p out rule: frames_loop.induct)
  case (1 dec payload objlen p out)
  let ?c = "le_val (slice (p + 3) 3 payload)" and ?u = "le_val (slice (p + 6) 3 payload)"
  show ?case
  proof (cases "length out < objlen \<and> \<not> length payload < p + 9 \<and> \<not> length payload < p + 9 + ?c")
    case False
    then show ?thesis
      using 1(2) by (auto simp: frames_loop.simps [of dec payload objlen p] Let_def split: if_splits)
  next
    case True
    then obtain bs where bs: "decode_frame dec (slice p 2 payload) (slice (p + 9) ?c payload) ?u = Some bs"
      using 1(2) by (auto simp: frames_loop.simps [of dec payload objlen p] Let_def split: option.splits)
    then have "frames_loop dec payload objlen p out = frames_loop dec payload objlen (p + 9 + ?c) (out @ bs)"
      using True by (subst frames_loop.simps) (simp add: Let_def)
    with 1 True bs show ?thesis by metis
  qed
qed

lemma decompressFrames_length: "decompressFrames dec pay n \<noteq> [] \<Longrightarrow> length (decompressFrames dec pay n) = n"
  by (simp add: decompressFrames_def frames_loop_length)

text \<open>What a conversion keeps: the key but for its length, the slot's bound, and the object. \<open>well_headed\<close> says that the key header (names included) lies within its stated length.\<close>

definition well_headed :: "bytes \<Rightarrow> keyInfo \<Rightarrow> bool" where
  "well_headed rec k \<longleftrightarrow> parseKey (take (k_keylen k) rec) 0 = Some k"

lemma well_headed_parse: "well_headed rec k \<Longrightarrow> length rec < 2 ^ 63 \<Longrightarrow> parseKey rec 0 = Some k"
  using parseKey_append [of "take (k_keylen k) rec" k "drop (k_keylen k) rec"] by (simp add: well_headed_def)

text \<open>The new record around a payload.\<close>

lemma rebuilt_record:
  assumes wh: "well_headed rec k" and kl: "k_keylen k \<le> length rec" and r: "r = take (k_keylen k) rec @ use" and len: "length r < 2 ^ 31"
  shows "parseKey (bePut 4 r 0 (as_i32 (length r))) 0 = Some (k\<lparr>k_nbytes := int (length r)\<rparr>)"
    and "drop (k_keylen k) (bePut 4 r 0 (as_i32 (length r))) = use"
    and "length (bePut 4 r 0 (as_i32 (length r))) = length r"
proof -
  have p: "parseKey r 0 = Some k"
    unfolding r by (rule parseKey_append) (use wh len in \<open>simp_all add: well_headed_def r\<close>)
  have "34 \<le> k_keylen k"
    using wh parseKey_min_length [of "take (k_keylen k) rec" k] by (simp add: well_headed_def)
  then show "drop (k_keylen k) (bePut 4 r 0 (as_i32 (length r))) = use"
    using kl by (simp add: bePut_def overwrite_def r)
  show "parseKey (bePut 4 r 0 (as_i32 (length r))) 0 = Some (k\<lparr>k_nbytes := int (length r)\<rparr>)"
    using parseKey_resized [OF p, of "int (length r)"] parseKey_min_length [OF p] len by simp
  show "length (bePut 4 r 0 (as_i32 (length r))) = length r"
    using parseKey_min_length [OF p] by simp
qed

text \<open>The three outcomes of a successful conversion.\<close>

lemma convertBasket_cases:
  assumes k: "parseKey rec 0 = Some k" and ok: "cb_error (convertBasket dec enc rec slotLen codecs) = ''''"
  obtains (original) "cb_record (convertBasket dec enc rec slotLen codecs) = rec" "k_nbytes k = int (length rec)" "length rec \<le> slotLen"
    "k_keylen k \<le> length rec"
  | (payload) kind use r where "k_nbytes k = int (length rec)" "k_keylen k \<le> length rec" "k_objlen k \<noteq> k_nbytes k - int (k_keylen k)"
    "0 < k_objlen k" "decompressFrames dec (drop (k_keylen k) rec) (nat (k_objlen k)) \<noteq> []"
    "choosePayload enc (decompressFrames dec (drop (k_keylen k) rec) (nat (k_objlen k))) (k_keylen k) slotLen = Some (kind, use)"
    "r = take (k_keylen k) rec @ use" "cb_record (convertBasket dec enc rec slotLen codecs) = bePut 4 r 0 (as_i32 (length r))"
proof -
  let ?c = "convertBasket dec enc rec slotLen codecs" and ?pay = "drop (k_keylen k) rec"
  let ?raw = "decompressFrames dec ?pay (nat (k_objlen k))"
  have g: "\<not> (k_cls k \<noteq> ''TBasket'' \<or> k_nbytes k \<le> 0 \<or> k_nbytes k \<noteq> int (length rec) \<or> length rec < k_keylen k)"
    using k ok by (rule_tac notI) (simp add: convertBasket_def Let_def)
  have s: "\<not> slotLen < length rec"
    using k ok g by (rule_tac notI) (simp add: convertBasket_def Let_def)
  show ?thesis
  proof (cases "k_objlen k \<noteq> k_nbytes k - int (k_keylen k) \<and> listed codecs (frameCodec ?pay) \<and> 0 < k_objlen k \<and> ?raw \<noteq> []")
    case False
    then have "cb_record ?c = rec"
      using k g s by (cases "k_objlen k = k_nbytes k - int (k_keylen k)") (auto simp: convertBasket_def Let_def)
    with g s show ?thesis by (intro original) auto
  next
    case True
    note T = True
    show ?thesis
    proof (cases "choosePayload enc ?raw (k_keylen k) slotLen")
      case None
      then have "cb_record ?c = rec"
        using k g s T by (simp add: convertBasket_def Let_def)
      with g s show ?thesis by (intro original) auto
    next
      case (Some ku)
      obtain kind use where ku: "ku = (kind, use)" by (cases ku)
      let ?r = "take (k_keylen k) rec @ use"
      have "cb_record ?c = bePut 4 ?r 0 (as_i32 (length ?r))"
        using k g s T Some ku by (simp add: convertBasket_def Let_def)
      with g T Some ku show ?thesis by (intro payload [of kind use ?r]) auto
    qed
  qed
qed

lemma choosePayload_cases:
  assumes "choosePayload enc raw keylen slotLen = Some (kind, use)"
  obtains (zstd) "use = zstdFrames enc 1 raw" "use \<noteq> []" "length use < length raw" "keylen + length use \<le> slotLen"
  | (raw) "use = raw" "keylen + length use \<le> slotLen"
  using assms unfolding choosePayload_def Let_def by (auto split: if_splits)

lemma conversion_keeps_object:
  assumes wh: "well_headed rec k" and rec: "length rec < 2 ^ 63" and slot: "slotLen < 2 ^ 31"
    and inv: "codec_inverse enc dec" and fit: "blocks_fit enc 1 (recordPayload dec k rec)"
    and ok: "cb_error (convertBasket dec enc rec slotLen codecs) = ''''"
    and r': "r' = cb_record (convertBasket dec enc rec slotLen codecs)"
  shows "length r' \<le> slotLen" and "k_keylen k \<le> length r'" and "parseKey r' 0 = Some (k\<lparr>k_nbytes := int (length r')\<rparr>)"
    and "recordPayload dec (k\<lparr>k_nbytes := int (length r')\<rparr>) r' = recordPayload dec k rec"
proof -
  note k = well_headed_parse [OF wh rec]
  from k ok have "length r' \<le> slotLen \<and> k_keylen k \<le> length r' \<and> parseKey r' 0 = Some (k\<lparr>k_nbytes := int (length r')\<rparr>) \<and>
    recordPayload dec (k\<lparr>k_nbytes := int (length r')\<rparr>) r' = recordPayload dec k rec"
  proof (cases rule: convertBasket_cases)
    case original
    from original(2) have e: "k\<lparr>k_nbytes := int (length rec)\<rparr> = k"
      by (metis keyInfo.surjective keyInfo.update_convs(1))
    have eq: "r' = rec" using original(1) by (simp add: r')
    show ?thesis unfolding eq e using original(3,4) k by blast
  next
    case (payload kind use r)
    let ?raw = "decompressFrames dec (drop (k_keylen k) rec) (nat (k_objlen k))"
    have l: "int (length ?raw) = k_objlen k"
      using payload(4) decompressFrames_length [OF payload(5)] by simp
    then have raw: "recordPayload dec k rec = ?raw"
      using payload(3) by (simp add: recordPayload_def)
    have lr: "length r = k_keylen k + length use"
      using payload(2,7) by simp
    from payload(6) have bound: "length r \<le> slotLen"
      by (cases rule: choosePayload_cases) (use lr in auto)
    with slot have "length r < 2 ^ 31" by simp
    note R = rebuilt_record [OF wh payload(2,7) this]
    have "recordPayload dec (k\<lparr>k_nbytes := int (length r)\<rparr>) r' = ?raw"
      using payload(6)
    proof (cases rule: choosePayload_cases)
      case zstd
      then have "decompressFrames dec use (nat (k_objlen k)) = ?raw"
        using zstd_frames_roundtrip [OF inv, of 1 ?raw] fit l raw by (metis nat_int)
      moreover have "k_objlen k \<noteq> int (length r) - int (k_keylen k)"
        using zstd(3) lr l by linarith
      ultimately show ?thesis
        using R(2) payload(8) l by (simp add: recordPayload_def r')
    next
      case raw
      then show ?thesis
        using R(2) payload(8) l lr by (simp add: recordPayload_def r')
    qed
    with R raw bound payload(8) lr show ?thesis by (simp add: r')
  qed
  then show "length r' \<le> slotLen" "k_keylen k \<le> length r'" "parseKey r' 0 = Some (k\<lparr>k_nbytes := int (length r')\<rparr>)"
    "recordPayload dec (k\<lparr>k_nbytes := int (length r')\<rparr>) r' = recordPayload dec k rec"
    by blast+
qed

section \<open>What the reader of the slot finds\<close>

text \<open>Reading at positions of the virtual file that a slot covers.\<close>

definition slot_reader :: "nat \<Rightarrow> bytes \<Rightarrow> nat \<Rightarrow> nat \<Rightarrow> bytes option" where
  "slot_reader base out n off = (if base \<le> off \<and> off + n \<le> base + length out then Some (slice (off - base) n out) else None)"

lemma placeInSlot_cases:
  assumes "placeInSlot c slot = Inr out"
  obtains buf where "cb_error c = ''''" "26 \<le> length (cb_record c)" "length (cb_record c) \<le> fs_vLen slot"
    "putKeySeek (cb_record c) 0 (beGetU 2 (cb_record c) 4) (as_i64 (fs_vSeek slot)) = Some buf"
    "out = buf @ replicate (fs_vLen slot - length (cb_record c)) 0"
  using assms unfolding placeInSlot_def by (auto split: if_splits option.splits)

lemma recordPayload_seek [simp]: "recordPayload dec (k\<lparr>k_seekkey := s\<rparr>) r = recordPayload dec k r"
  by (simp add: recordPayload_def)

lemma recordPayload_drop: "drop (k_keylen k) r = drop (k_keylen k) r' \<Longrightarrow> recordPayload dec k r = recordPayload dec k r'"
  by (simp add: recordPayload_def)

lemma drop_bePut: "off + w \<le> length buf \<Longrightarrow> off + w \<le> q \<Longrightarrow> drop q (bePut w buf off v) = drop q buf"
  by (simp add: bePut_def overwrite_def)

lemma putKeySeek_drop: "putKeySeek buf 0 ver seek = Some buf' \<Longrightarrow> 26 \<le> q \<Longrightarrow> 26 \<le> length buf \<Longrightarrow> drop q buf' = drop q buf"
  by (auto simp: putKeySeek_def drop_bePut split: if_splits)

text \<open>C18. A basket placed in its slot fills the slot exactly: a key that states the slot's own position and otherwise the original key's data, the rest zeros. Whoever reads the object under that key at that position gets
  the object bytes of the original record, whichever way the basket was stored.\<close>

theorem slot_serves_object:
  assumes wh: "well_headed rec k" and obj: "0 \<le> k_objlen k" and rec: "length rec < 2 ^ 63"
    and slot: "fs_vLen slot < 2 ^ 31" "fs_vSeek slot < 2 ^ 63"
    and inv: "codec_inverse enc dec" and fit: "blocks_fit enc 1 (recordPayload dec k rec)"
    and out: "placeInSlot (convertBasket dec enc rec (fs_vLen slot) codecs) slot = Inr out"
  shows "length out = fs_vLen slot \<and>
    (\<exists>nb \<le> fs_vLen slot. let k' = k\<lparr>k_nbytes := int nb, k_seekkey := int (fs_vSeek slot)\<rparr> in
       parseKey out 0 = Some k' \<and> drop nb out = replicate (fs_vLen slot - nb) 0 \<and>
       readKeyPayloadFrom dec (slot_reader (fs_vSeek slot) out) k' = (recordPayload dec k rec, False))"
proof -
  let ?c = "convertBasket dec enc rec (fs_vLen slot) codecs" and ?kl = "k_keylen k"
  let ?r = "cb_record ?c"
  let ?n = "length ?r"
  from out obtain buf where b: "cb_error ?c = ''''" "?n \<le> fs_vLen slot"
      "putKeySeek ?r 0 (beGetU 2 ?r 4) (as_i64 (fs_vSeek slot)) = Some buf"
      "out = buf @ replicate (fs_vLen slot - ?n) 0"
    by (rule placeInSlot_cases)
  note C = conversion_keeps_object [OF wh rec slot(1) inv fit b(1) refl]
  let ?k = "k\<lparr>k_nbytes := int ?n\<rparr>" and ?k' = "k\<lparr>k_nbytes := int ?n, k_seekkey := int (fs_vSeek slot)\<rparr>"
  have ver: "beGetU 2 ?r 4 = k_ver ?k"
    using parseKey_fields(1) [OF C(3)] by simp
  have small: "?n < 2 ^ 63" using C(1) slot(1) by simp
  have n34: "34 \<le> ?n" by (rule parseKey_min_length [OF C(3)])
  have p: "parseKey buf 0 = Some (?k\<lparr>k_seekkey := int (fs_vSeek slot)\<rparr>)"
    by (rule parseKey_seek [OF C(3)]) (use b(3) ver small n34 slot(2) in simp_all)
  have lb: "length buf = ?n" using b(3) n34 by simp
  have "parseKey out 0 = Some ?k'"
    unfolding b(4) using parseKey_append [OF p, of "replicate (fs_vLen slot - ?n) 0"] slot(1) lb b(2) by simp
  moreover have "readKeyPayloadFrom dec (slot_reader (fs_vSeek slot) out) ?k' = (recordPayload dec ?k' buf, False)"
    using obj C(2) n34 lb b(2) by (auto simp: readKeyPayloadFrom_def slot_reader_def b(4) slice_def)
  moreover have "34 \<le> ?kl"
    using wh parseKey_min_length [of "take ?kl rec" k] by (simp add: well_headed_def)
  then have "recordPayload dec ?k' buf = recordPayload dec k rec"
    using C(4) recordPayload_drop [of ?k buf ?r dec] putKeySeek_drop [OF b(3), of ?kl] n34 by simp
  ultimately show ?thesis
    using lb b(2,4) by (intro conjI exI [of _ ?n]) (simp_all add: Let_def)
qed

section \<open>A basket\<close>

text \<open>A codec that stores a block of zeros as one byte and any other block behind one byte: lossless, and enough to run the code.\<close>

definition toy_enc :: encoder where
  "toy_enc level c = Some (if c = replicate (length c) 0 then [0] else 1 # c)"

definition toy_dec :: decoder where
  "toy_dec codec z n = (case z of [] \<Rightarrow> None | t # r \<Rightarrow> Some (if t = 0 then replicate n 0 else r))"

lemma toy_codec_inverse: "codec_inverse toy_enc toy_dec"
  by (auto simp: codec_inverse_def toy_enc_def toy_dec_def)

text \<open>A basket of forty zero bytes, stored in a zlib frame.\<close>

definition sample_header :: bytes where
  "sample_header = [0, 0, 0, 87, 0, 4, 0, 0, 0, 40, 0, 0, 0, 0, 0, 37, 0, 1, 0, 0, 3, 232, 0, 0, 0, 100, 7, 84, 66, 97, 115, 107, 101, 116, 1, 98, 0]"

definition sample_payload :: bytes where
  "sample_payload = [90, 76, 8, 41, 0, 0, 40, 0, 0, 1] @ replicate 40 0"

definition sample_key :: keyInfo where
  "sample_key = \<lparr>k_nbytes = 87, k_ver = 4, k_objlen = 40, k_keylen = 37, k_cycle = 1, k_seekkey = 1000, k_cls = ''TBasket'', k_name = ''b'', k_title = ''''\<rparr>"

definition sample_slot :: fillSlot where
  "sample_slot = \<lparr>fs_origSeek = 1000, fs_origLen = 87, fs_vSeek = 8192, fs_vLen = 100, fs_branch = 0, fs_basket = 0\<rparr>"

lemma sample_header_parses: "parseKey sample_header 0 = Some sample_key"
  by (simp add: parseKey_def key_str_def sample_header_def sample_key_def beGet_def beGetU_def be_val_def slice_def to_signed_def char_of_byte_def char_of_def bit_Suc_0_iff Let_def)

lemma sample_lengths [simp]: "length sample_header = 37" "length sample_payload = 50"
  by (simp_all add: sample_header_def sample_payload_def)

lemma sample_well_headed: "well_headed (sample_header @ sample_payload) sample_key"
proof -
  have "k_keylen sample_key = 37" by (simp add: sample_key_def)
  then show ?thesis
    by (simp add: well_headed_def sample_header_parses)
qed

lemma sample_raw: "decompressFrames toy_dec sample_payload 40 = replicate 40 0"
proof -
  have s: "slice 0 2 sample_payload = [90, 76]" "slice 3 3 sample_payload = [41, 0, 0]" "slice 6 3 sample_payload = [40, 0, 0]"
    "slice 9 41 sample_payload = 1 # replicate 40 0"
    by (simp_all add: slice_def sample_payload_def)
  have "decode_frame toy_dec [90, 76] (1 # replicate 40 0) 40 = Some (replicate 40 0)"
    by (simp add: decode_frame_def magic2_def byte_of_char_def toy_dec_def exactly_def)
  then show ?thesis
    by (simp add: decompressFrames_def frames_loop.simps [of _ _ _ 0] s) (simp add: frames_loop.simps)
qed

lemma zstdFrames_one:
  assumes "raw \<noteq> []" and "length raw \<le> kMaxFrame" and "enc level raw = Some z"
  shows "zstdFrames enc level raw = zs_frame z (length raw)"
proof -
  have "slice 0 (length raw) raw = raw" by (simp add: slice_def)
  then show ?thesis
    using assms by (simp add: zstdFrames_def zstd_loop.simps [of enc level raw 0] zstd_loop.simps [of enc level raw kMaxFrame] min_absorb2)
qed

lemma sample_frames: "zstdFrames toy_enc 1 (replicate 40 0) = [90, 83, 1, 1, 0, 0, 40, 0, 0, 0]"
proof -
  have "replicate 40 (0 :: byte) \<noteq> []" "length (replicate 40 (0 :: byte)) \<le> kMaxFrame" by (simp_all add: kMaxFrame_def)
  from zstdFrames_one [OF this, of toy_enc 1 "[0]"] show ?thesis
    by (simp add: toy_enc_def zs_frame_def byte_of_char_def numeral_3_eq_3)
qed

definition sample_out :: bytes where
  "sample_out = [0, 0, 0, 47, 0, 4, 0, 0, 0, 40, 0, 0, 0, 0, 0, 37, 0, 1, 0, 0, 32, 0, 0, 0, 0, 100, 7, 84, 66, 97, 115, 107, 101, 116, 1, 98, 0,
     90, 83, 1, 1, 0, 0, 40, 0, 0, 0] @ replicate 53 0"

lemma sample_parses: "parseKey (sample_header @ sample_payload) 0 = Some sample_key"
  using well_headed_parse [OF sample_well_headed] by simp

lemma sample_converted: "convertBasket toy_dec toy_enc (sample_header @ sample_payload) 100 [''zlib''] =
   \<lparr>cb_kind = KZstd, cb_record = bePut 4 (sample_header @ [90, 83, 1, 1, 0, 0, 40, 0, 0, 0]) 0 47, cb_codec = ''zlib'', cb_error = ''''\<rparr>"
proof -
  have c: "frameCodec sample_payload = ''zlib''"
    by (simp add: frameCodec_def magic2_def byte_of_char_def) (simp add: sample_payload_def)
  have r: "replicate 40 (0 :: byte) \<noteq> []" by simp
  have "choosePayload toy_enc (replicate 40 0) 37 100 = Some (KZstd, [90, 83, 1, 1, 0, 0, 40, 0, 0, 0])"
    unfolding choosePayload_def Let_def sample_frames by simp
  with c r show ?thesis
    unfolding convertBasket_def Let_def sample_parses
    by (simp add: sample_key_def sample_raw listed_def)
qed

lemma sample_placed: "placeInSlot (convertBasket toy_dec toy_enc (sample_header @ sample_payload) 100 [''zlib'']) sample_slot = Inr sample_out"
proof -
  have "(4 :: nat) = Suc (Suc (Suc (Suc 0)))" by simp
  then have "be_bytes 4 47 = be_bytes (Suc (Suc (Suc (Suc 0)))) 47" "be_bytes 4 8192 = be_bytes (Suc (Suc (Suc (Suc 0)))) 8192"
    by metis+
  then have b: "be_bytes 4 47 = [0, 0, 0, 47]" "be_bytes 4 8192 = [0, 0, 32, 0]"
    by simp_all
  show ?thesis
    unfolding sample_converted placeInSlot_def putKeySeek_def sample_slot_def
    by (simp add: bePut_def overwrite_def sample_header_def sample_out_def to_unsigned_def b beGetU_def be_val_def slice_def)
qed

lemma sample_fits: "blocks_fit toy_enc 1 (replicate 40 0)"
proof -
  have "i = 0" if "i < 40" "kMaxFrame dvd i" for i
    using that by (auto simp: kMaxFrame_def dest: dvd_imp_le)
  then show ?thesis
    by (auto simp: blocks_fit_def toy_enc_def kMaxFrame_def slice_def)
qed

theorem slot_serves_object_witness:
  "length sample_out = 100 \<and> (\<exists>nb \<le> 100. let k' = sample_key\<lparr>k_nbytes := int nb, k_seekkey := 8192\<rparr> in
     parseKey sample_out 0 = Some k' \<and> drop nb sample_out = replicate (100 - nb) 0 \<and>
     readKeyPayloadFrom toy_dec (slot_reader 8192 sample_out) k' = (replicate 40 0, False))"
proof -
  have p: "recordPayload toy_dec sample_key (sample_header @ sample_payload) = replicate 40 0"
    using sample_raw by (simp add: recordPayload_def sample_key_def)
  show ?thesis
    using slot_serves_object [OF sample_well_headed, of sample_slot toy_enc toy_dec "[''zlib'']" sample_out]
      toy_codec_inverse sample_fits sample_placed p
    by (simp add: sample_slot_def sample_key_def)
qed

section \<open>A block that outgrows its length field\<close>

text \<open>C39. A basket of more than \<open>2 ^ 24 - 1\<close> bytes whose first chunk does not compress while the rest does: the first block is longer than its 24-bit length field can say, the whole still shrinks, and the
  basket is stored in ZSTD frames that do not decode. (A truncated block is refused by the decoder.)\<close>

theorem oversized_block_chosen:
  assumes "length a = kMaxFrame" and "b \<noteq> []" and "length b \<le> kMaxFrame"
    and "enc 1 a = Some za" and "2 ^ 24 \<le> length za" and "enc 1 b = Some zb" and "18 + length za + length zb < length (a @ b)"
    and "keylen + 18 + length za + length zb \<le> slotLen" and "dec ZSTD (take (length za mod 2 ^ 24) za) kMaxFrame = None"
  shows "\<exists>z. choosePayload enc (a @ b) keylen slotLen = Some (KZstd, z) \<and> decompressFrames dec z (length (a @ b)) = []"
proof -
  note z = zstdFrames_two [where enc = enc and level = 1, OF assms(1-3,4,6)]
  have l: "length (zstdFrames enc 1 (a @ b)) = 18 + length za + length zb"
    unfolding z by simp
  moreover have "zstdFrames enc 1 (a @ b) \<noteq> []" using l by auto
  ultimately have "choosePayload enc (a @ b) keylen slotLen = Some (KZstd, zstdFrames enc 1 (a @ b))"
    using assms(7,8) by (simp add: choosePayload_def Let_def)
  moreover have "decompressFrames dec (zstdFrames enc 1 (a @ b)) (length (a @ b)) = []"
    using oversized_block_undecodable [where dec = dec, OF z assms(9)] assms(2) by simp
  ultimately show ?thesis by blast
qed

theorem oversized_block_chosen_witness:
  "\<exists>z. choosePayload toy_enc (replicate kMaxFrame 1 @ replicate 1000 0) 37 20000000 = Some (KZstd, z) \<and>
     decompressFrames toy_dec z (kMaxFrame + 1000) = []"
proof -
  let ?a = "replicate kMaxFrame (1 :: byte)" and ?b = "replicate 1000 (0 :: byte)"
  have K: "kMaxFrame \<noteq> 0" "Suc kMaxFrame = 2 ^ 24" by (simp_all add: kMaxFrame_def)
  have a: "toy_enc 1 ?a = Some (1 # ?a)" and b: "toy_enc 1 ?b = Some [0]"
    using K by (simp_all add: toy_enc_def replicate_eq_replicate)
  have "length (1 # ?a) mod 2 ^ 24 = 0" by (simp add: kMaxFrame_def)
  then have d: "toy_dec ZSTD (take (length (1 # ?a) mod 2 ^ 24) (1 # ?a)) kMaxFrame = None"
    by (simp only: take_0 toy_dec_def list.case)
  have "?b \<noteq> []" "length ?a = kMaxFrame" "length ?b \<le> kMaxFrame" "2 ^ 24 \<le> length (1 # ?a)"
    "18 + length (1 # ?a) + length [0 :: byte] < length (?a @ ?b)" "37 + 18 + length (1 # ?a) + length [0 :: byte] \<le> 20000000"
    by (simp_all add: kMaxFrame_def)
  with oversized_block_chosen [of ?a ?b toy_enc "1 # ?a" "[0]" 37 20000000 toy_dec] a b d show ?thesis
    by simp
qed

end
