(* ===== verification/Fill_Layout.thy ===== *)
theory Fill_Layout
  imports Basket_Slot Read_Map
begin

text \<open>
  The layout a file is presented in while its replica is being made (\<^verbatim>\<open>layoutForFill\<close> of \<^verbatim>\<open>src/src/transpose/FillLayout.cc\<close>): every basket of a relocatable branch gets a slot in an extension past the end of the
  file, the tree record is rewritten to point at the slots and relocated in front of them, the keys list and the header are patched in place. Shown: slots, record and windows lie as the header file promises,
  each original fits its slot, and the relocated tree record decodes to one that names the slots.
\<close>

section \<open>Metadata and layout\<close>

text \<open>What the tree parser returns of a branch and of a file, as far as the layout uses it.\<close>

record branchMeta = branchInfo +
  b_name :: string
  b_leafCount :: string
  b_writeBasket :: int
  b_seekArrayOff :: nat
  b_bytesArrayOff :: nat
  b_compress :: int
  b_zipBytesOff :: nat

record fileMeta =
  fm_error :: string
  fm_fend :: int
  fm_keyslistSeek :: int
  fm_headerSeekWidth :: nat
  fm_treeKey :: keyInfo
  fm_treeBlob :: bytes
  fm_autoFlushOff :: nat
  fm_zipBytes :: int
  fm_zipBytesOff :: nat
  fm_branches :: "branchMeta list"

record fillLayout =
  fl_originSize :: nat
  fl_virtualSize :: nat
  fl_windows :: "(nat \<times> bytes) list"
  fl_metaSeek :: nat
  fl_metaRecord :: bytes
  fl_slotsBegin :: nat
  fl_slots :: "fillSlot list"
  fl_relocated :: "nat list"

datatype layoutError =
    ParseError string | SlotFactor | HeaderUnreadable | EndDisagrees | TreeKeyMissing | FieldsNotLocated | NoRelocatable
  | SizeDiffers nat int | MetaOutgrew | TreeKey32 | KeysListMalformed | KeysListOutside | KeysEntryMalformed | KeysEntry32 | LiveEntryMissing

definition kFillAlign :: nat where "kFillAlign = 4096"
definition kFillMetaZstdLevel :: nat where "kFillMetaZstdLevel = 1"

section \<open>Operations\<close>

text \<open>Which branches move: the setting names a listed codec, and all baskets lie inside the file.\<close>

definition basket_inside :: "int \<Rightarrow> branchMeta \<Rightarrow> nat \<Rightarrow> bool" where
  "basket_inside fend br i \<longleftrightarrow> 0 < b_basketSeek br ! i \<and> 0 < b_basketBytes br ! i \<and>
     nat (b_basketSeek br ! i) + nat (b_basketBytes br ! i) \<le> to_unsigned 8 fend"

definition relocatable :: "fileMeta \<Rightarrow> fileHeader \<Rightarrow> string list \<Rightarrow> nat \<Rightarrow> bool" where
  "relocatable fm H codecs b =
     (let br = fm_branches fm ! b in
      \<not> (b_writeBasket br \<le> 0 \<or> b_externalFile br \<or> b_zipBytesOff br = 0 \<or> \<not> listed codecs (codecOfSetting (b_compress br) (hd_compress H))) \<and>
      list_all (basket_inside (fm_fend fm) br) [0..<nat (b_writeBasket br)])"

definition relocated_branches :: "fileMeta \<Rightarrow> fileHeader \<Rightarrow> string list \<Rightarrow> nat list" where
  "relocated_branches fm H codecs = filter (relocatable fm H codecs) [0..<length (fm_branches fm)]"

text \<open>One slot: \<^verbatim>\<open>slotFactor100\<close> hundredths of the original length, at most \<^verbatim>\<open>INT32_MAX\<close>; its position and length go into the tree record.\<close>

definition slot_len :: "nat \<Rightarrow> nat \<Rightarrow> nat" where
  "slot_len factor origLen = min (origLen * factor div 100) (2 ^ 31 - 1)"

definition new_slot :: "nat \<Rightarrow> branchMeta list \<Rightarrow> nat \<times> nat \<Rightarrow> nat \<Rightarrow> fillSlot" where
  "new_slot factor brs bi at =
     (let br = brs ! fst bi; i = snd bi; origLen = nat (b_basketBytes br ! i) in
      \<lparr>fs_origSeek = nat (b_basketSeek br ! i), fs_origLen = origLen, fs_vSeek = at, fs_vLen = slot_len factor origLen, fs_branch = fst bi, fs_basket = i\<rparr>)"

definition point_at :: "branchMeta list \<Rightarrow> fillSlot \<Rightarrow> bytes \<Rightarrow> bytes" where
  "point_at brs s blob =
     (let br = brs ! fs_branch s; i = fs_basket s in
      bePut 4 (bePut 8 blob (b_seekArrayOff br + 8 * i) (as_i64 (fs_vSeek s))) (b_bytesArrayOff br + 4 * i) (as_i32 (fs_vLen s)))"

definition place_slot :: "nat \<Rightarrow> branchMeta list \<Rightarrow> nat \<times> nat \<Rightarrow> nat \<times> bytes \<times> fillSlot list \<Rightarrow> nat \<times> bytes \<times> fillSlot list" where
  "place_slot factor brs bi st =
     (case st of (at, blob, slots) \<Rightarrow>
        let s = new_slot factor brs bi at in (u64 (at + fs_vLen s), point_at brs s blob, slots @ [s]))"

definition branch_baskets :: "branchMeta list \<Rightarrow> nat list \<Rightarrow> (nat \<times> nat) list" where
  "branch_baskets brs bs = concat (map (\<lambda>b. map (Pair b) [0..<nat (b_writeBasket (brs ! b))]) bs)"

definition place_slots :: "nat \<Rightarrow> branchMeta list \<Rightarrow> (nat \<times> nat) list \<Rightarrow> nat \<Rightarrow> bytes \<Rightarrow> nat \<times> bytes \<times> fillSlot list" where
  "place_slots factor brs bis at blob = fold (place_slot factor brs) bis (at, blob, [])"

text \<open>The loop over the keys list; every entry that is the live tree key is repointed.\<close>

definition live_entry :: "keyInfo \<Rightarrow> keyInfo \<Rightarrow> bool" where
  "live_entry tk e \<longleftrightarrow> k_cls e = ''TTree'' \<and> k_name e = k_name tk \<and> k_seekkey e = k_seekkey tk"

fun patch_keys :: "keyInfo \<Rightarrow> nat \<Rightarrow> nat \<Rightarrow> nat \<Rightarrow> bytes \<Rightarrow> nat \<Rightarrow> bool \<Rightarrow> layoutError + (bytes \<times> bool)" where
  "patch_keys tk nb seek 0 klist pos patched = Inr (klist, patched)"
| "patch_keys tk nb seek (Suc n) klist pos patched =
     (case parseKey klist pos of
        None \<Rightarrow> Inl KeysEntryMalformed
      | Some e \<Rightarrow>
          if live_entry tk e then
            (case putKeySeek (bePut 4 klist pos (as_i32 nb)) pos (k_ver e) (as_i64 seek) of
               None \<Rightarrow> Inl KeysEntry32
             | Some klist' \<Rightarrow> patch_keys tk nb seek n klist' (pos + k_keylen e) True)
          else patch_keys tk nb seek n klist (pos + k_keylen e) patched)"

definition patchKeysList :: "fileMeta \<Rightarrow> nat \<Rightarrow> nat \<Rightarrow> nat \<Rightarrow> bytes \<Rightarrow> layoutError + bytes" where
  "patchKeysList fm originSize nb seek keysList =
     (case parseKey keysList 0 of
        None \<Rightarrow> Inl KeysListMalformed
      | Some kl \<Rightarrow>
          if k_nbytes kl \<le> 0 \<or> k_nbytes kl \<noteq> int (length keysList) \<or> length keysList < k_keylen kl + 4 then Inl KeysListMalformed
          else if fm_keyslistSeek fm < 100 \<or> originSize < u64 (nat (fm_keyslistSeek fm) + length keysList) then Inl KeysListOutside
          else (case patch_keys (fm_treeKey fm) nb seek (nat (beGet 4 keysList (k_keylen kl))) keysList (k_keylen kl + 4) False of
              Inl e \<Rightarrow> Inl e
            | Inr (klist, patched) \<Rightarrow> if patched then Inr klist else Inl LiveEntryMissing))"

text \<open>The relocated tree key: the original header with its length and position set, then the record, compressed when that shrinks it.\<close>

definition metaPayload :: "encoder \<Rightarrow> nat \<Rightarrow> bytes \<Rightarrow> bytes" where
  "metaPayload enc level blob = (let p = zstdFrames enc level blob in if p = [] \<or> length blob \<le> length p then blob else p)"

definition metaKeyRecord :: "nat \<Rightarrow> bytes \<Rightarrow> bytes \<Rightarrow> nat \<Rightarrow> nat \<Rightarrow> layoutError + bytes" where
  "metaKeyRecord ver treeKeyHeader payload reserve metaSeek =
     (let r = treeKeyHeader @ payload in
      if reserve < length r then Inl MetaOutgrew
      else case putKeySeek (bePut 4 r 0 (as_i32 (length r))) 0 ver (as_i64 metaSeek) of
          None \<Rightarrow> Inl TreeKey32
        | Some r' \<Rightarrow> Inr r')"

definition layout_tail :: "encoder \<Rightarrow> fileMeta \<Rightarrow> nat \<Rightarrow> bytes \<Rightarrow> bytes \<Rightarrow> bytes \<Rightarrow> nat \<Rightarrow> nat list \<Rightarrow> layoutError + fillLayout" where
  "layout_tail enc fm fileSize header treeKeyHeader keysList slotFactor100 relocated =
     (let metaSeek = u64 (fileSize + kFillAlign - 1) div kFillAlign * kFillAlign;
          reserve = k_keylen (fm_treeKey fm) + length (fm_treeBlob fm);
          slotsBegin = u64 (metaSeek + reserve)
      in case place_slots slotFactor100 (fm_branches fm) (branch_baskets (fm_branches fm) relocated) slotsBegin (fm_treeBlob fm) of
        (at, blob, slots) \<Rightarrow>
          (case metaKeyRecord (k_ver (fm_treeKey fm)) treeKeyHeader (metaPayload enc kFillMetaZstdLevel blob) reserve metaSeek of
             Inl e \<Rightarrow> Inl e
           | Inr metaRecord \<Rightarrow>
               (case patchKeysList fm fileSize (length metaRecord) metaSeek keysList of
                  Inl e \<Rightarrow> Inl e
                | Inr klist \<Rightarrow>
                    (case headerWindowForEnd header at of
                       None \<Rightarrow> Inl HeaderUnreadable
                     | Some w \<Rightarrow>
                         Inr \<lparr>fl_originSize = fileSize, fl_virtualSize = at, fl_windows = [w, (nat (fm_keyslistSeek fm), klist)], fl_metaSeek = metaSeek,
                              fl_metaRecord = metaRecord, fl_slotsBegin = slotsBegin, fl_slots = slots, fl_relocated = relocated\<rparr>))))"

definition layoutForFill :: "encoder \<Rightarrow> fileMeta \<Rightarrow> nat \<Rightarrow> bytes \<Rightarrow> bytes \<Rightarrow> bytes \<Rightarrow> string list \<Rightarrow> nat \<Rightarrow> layoutError + fillLayout" where
  "layoutForFill enc fm fileSize header treeKeyHeader keysList codecs slotFactor100 =
     (if fm_error fm \<noteq> '''' then Inl (ParseError (fm_error fm))
      else if slotFactor100 < 100 then Inl SlotFactor
      else case parseHeader header of
          None \<Rightarrow> Inl HeaderUnreadable
        | Some H \<Rightarrow>
            if hd_end H \<noteq> fm_fend fm then Inl EndDisagrees
            else if length treeKeyHeader \<noteq> k_keylen (fm_treeKey fm) \<or> k_keylen (fm_treeKey fm) < 26 then Inl TreeKeyMissing
            else if fm_zipBytesOff fm = 0 \<or> fm_autoFlushOff fm = 0 \<or> fm_zipBytes fm \<le> 0 then Inl FieldsNotLocated
            else let relocated = relocated_branches fm H codecs in
              if relocated = [] then Inl NoRelocatable
              else if fileSize \<noteq> to_unsigned 8 (fm_fend fm) then Inl (SizeDiffers fileSize (fm_fend fm))
              else layout_tail enc fm fileSize header treeKeyHeader keysList slotFactor100 relocated)"

section \<open>Slots\<close>

text \<open>The abstract picture: slots side by side from one position to another.\<close>

fun slots_from :: "nat \<Rightarrow> fillSlot list \<Rightarrow> nat \<Rightarrow> bool" where
  "slots_from at [] e = (at = e)"
| "slots_from at (s # ss) e = (fs_vSeek s = at \<and> slots_from (at + fs_vLen s) ss e)"

lemma slots_from_append: "slots_from a (xs @ ys) c \<longleftrightarrow> (\<exists>b. slots_from a xs b \<and> slots_from b ys c)"
  by (induction xs arbitrary: a) auto

lemma slots_from_end: "slots_from a ss e \<Longrightarrow> e = a + sum_list (map fs_vLen ss)"
proof (induction ss arbitrary: a)
  case (Cons s ss)
  have "e = a + fs_vLen s + sum_list (map fs_vLen ss)"
    by (rule Cons.IH) (use Cons.prems in simp)
  then show ?case by simp
qed simp

lemma slots_from_within: "slots_from a ss e \<Longrightarrow> s \<in> set ss \<Longrightarrow> a \<le> fs_vSeek s \<and> fs_vSeek s + fs_vLen s \<le> e"
  by (induction ss arbitrary: a) (use slots_from_end in force)+

text \<open>What a slot records of its basket.\<close>

definition slot_of :: "nat \<Rightarrow> branchMeta list \<Rightarrow> fillSlot \<Rightarrow> bool" where
  "slot_of factor brs s \<longleftrightarrow>
     fs_origSeek s = nat (b_basketSeek (brs ! fs_branch s) ! fs_basket s) \<and> fs_origLen s = nat (b_basketBytes (brs ! fs_branch s) ! fs_basket s) \<and>
     fs_vLen s = slot_len factor (fs_origLen s)"

lemma place_slot_step:
  "place_slot factor brs bi (at, blob, ss) =
     (u64 (at + fs_vLen (new_slot factor brs bi at)), point_at brs (new_slot factor brs bi at) blob, ss @ [new_slot factor brs bi at])"
  by (simp add: place_slot_def Let_def)

lemma place_slots_fold:
  assumes "fold (place_slot factor brs) bis (at, blob, ss) = (at', blob', ss')"
  shows "\<exists>new. ss' = ss @ new \<and> map (\<lambda>s. (fs_branch s, fs_basket s)) new = bis \<and> list_all (slot_of factor brs) new \<and>
    (at + sum_list (map fs_vLen new) < 2 ^ 64 \<longrightarrow> slots_from at new at')"
  using assms
proof (induction bis arbitrary: at blob ss)
  case Nil
  then show ?case by simp
next
  case (Cons bi bis)
  let ?s = "new_slot factor brs bi at"
  have s: "(fs_branch ?s, fs_basket ?s) = bi" "slot_of factor brs ?s" "fs_vSeek ?s = at"
    by (simp_all add: new_slot_def slot_of_def Let_def)
  have "fold (place_slot factor brs) bis (u64 (at + fs_vLen ?s), point_at brs ?s blob, ss @ [?s]) = (at', blob', ss')"
    using Cons.prems by (simp add: place_slot_step)
  from Cons.IH [OF this] obtain new where new: "ss' = (ss @ [?s]) @ new"
      "map (\<lambda>s. (fs_branch s, fs_basket s)) new = bis" "list_all (slot_of factor brs) new"
      "u64 (at + fs_vLen ?s) + sum_list (map fs_vLen new) < 2 ^ 64 \<longrightarrow> slots_from (u64 (at + fs_vLen ?s)) new at'"
    by blast
  have "slots_from at (?s # new) at'" if "at + sum_list (map fs_vLen (?s # new)) < 2 ^ 64"
    using that new(4) s(3) by (simp add: add.assoc)
  with new s show ?case
    by (intro exI [of _ "?s # new"]) simp
qed

lemma slot_len_ge: "100 \<le> factor \<Longrightarrow> n < 2 ^ 31 \<Longrightarrow> n \<le> slot_len factor n"
proof -
  assume "100 \<le> factor" and n: "n < 2 ^ 31"
  then have "n * 100 \<le> n * factor" by simp
  then have "n \<le> n * factor div 100" by (simp add: less_eq_div_iff_mult_less_eq)
  with n show ?thesis by (simp add: slot_len_def)
qed

lemma slot_len_less: "slot_len factor n < 2 ^ 31"
  by (simp add: slot_len_def)

section \<open>The rewritten tree record\<close>

text \<open>The places of the record that a basket owns: eight bytes of seek, four bytes of length; inside the record and apart from one another.\<close>

definition cells :: "branchMeta list \<Rightarrow> nat \<times> nat \<Rightarrow> (nat \<times> nat) list" where
  "cells brs bi = (case bi of (b, i) \<Rightarrow> [(b_seekArrayOff (brs ! b) + 8 * i, 8), (b_bytesArrayOff (brs ! b) + 4 * i, 4)])"

definition apart :: "nat \<times> nat \<Rightarrow> nat \<times> nat \<Rightarrow> bool" where
  "apart c d \<longleftrightarrow> fst c + snd c \<le> fst d \<or> fst d + snd d \<le> fst c"

definition cells_ok :: "branchMeta list \<Rightarrow> (nat \<times> nat) list \<Rightarrow> nat \<Rightarrow> bool" where
  "cells_ok brs bis n \<longleftrightarrow> list_all (\<lambda>c. fst c + snd c \<le> n) (concat (map (cells brs) bis)) \<and> sorted_wrt apart (concat (map (cells brs) bis))"

lemma apart_sym: "apart c d \<Longrightarrow> apart d c"
  by (auto simp: apart_def)

lemma cells_ok_Cons:
  assumes "cells_ok brs (bi # bis) n"
  shows "list_all (\<lambda>c. fst c + snd c \<le> n) (cells brs bi)" and "sorted_wrt apart (cells brs bi)" and "cells_ok brs bis n"
    and "\<And>c d. c \<in> set (cells brs bi) \<Longrightarrow> d \<in> set (concat (map (cells brs) bis)) \<Longrightarrow> apart d c"
  using assms apart_sym unfolding cells_ok_def by (simp_all only: list.map concat.simps list_all_append sorted_wrt_append)

lemma point_at_blob:
  assumes "list_all (\<lambda>c. fst c + snd c \<le> length blob) (cells brs (fs_branch s, fs_basket s))" and "sorted_wrt apart (cells brs (fs_branch s, fs_basket s))"
    and "fs_vSeek s < 2 ^ 63" and "fs_vLen s < 2 ^ 31"
  shows "length (point_at brs s blob) = length blob"
    and "\<forall>d\<in>set (cells brs (fs_branch s, fs_basket s)). apart d c \<Longrightarrow> beGet (snd c) (point_at brs s blob) (fst c) = beGet (snd c) blob (fst c)"
    and "beGet 8 (point_at brs s blob) (b_seekArrayOff (brs ! fs_branch s) + 8 * fs_basket s) = int (fs_vSeek s)"
    and "beGet 4 (point_at brs s blob) (b_bytesArrayOff (brs ! fs_branch s) + 4 * fs_basket s) = int (fs_vLen s)"
proof -
  define p q where "p = b_seekArrayOff (brs ! fs_branch s) + 8 * fs_basket s" and "q = b_bytesArrayOff (brs ! fs_branch s) + 4 * fs_basket s"
  have c: "cells brs (fs_branch s, fs_basket s) = [(p, 8), (q, 4)]"
    by (simp add: cells_def p_def q_def)
  have w: "point_at brs s blob = bePut 4 (bePut 8 blob p (int (fs_vSeek s))) q (int (fs_vLen s))"
    using assms(3,4) by (simp add: point_at_def p_def q_def Let_def)
  have b: "p + 8 \<le> length blob" "q + 4 \<le> length blob" "p + 8 \<le> q \<or> q + 4 \<le> p"
    using assms(1,2) by (auto simp: c apart_def)
  show "length (point_at brs s blob) = length blob"
    using b by (simp add: w)
  show "beGet (snd c) (point_at brs s blob) (fst c) = beGet (snd c) blob (fst c)" if "\<forall>d\<in>set (cells brs (fs_branch s, fs_basket s)). apart d c"
    using that b unfolding c w by (simp add: apart_def beGet_bePut_other disj_commute)
  show "beGet 8 (point_at brs s blob) (b_seekArrayOff (brs ! fs_branch s) + 8 * fs_basket s) = int (fs_vSeek s)"
    unfolding w p_def [symmetric] using b assms(3) by (simp add: beGet_bePut_other beGet_bePut_same)
  show "beGet 4 (point_at brs s blob) (b_bytesArrayOff (brs ! fs_branch s) + 4 * fs_basket s) = int (fs_vLen s)"
    unfolding w q_def [symmetric] using b assms(4) by (simp add: beGet_bePut_same)
qed

lemma fold_blob:
  assumes "fold (place_slot factor brs) bis (at, blob, ss) = (at', blob', ss')" and "cells_ok brs bis (length blob)"
    and "slots_from at new at'" and "map (\<lambda>s. (fs_branch s, fs_basket s)) new = bis" and "list_all (slot_of factor brs) new" and "at' < 2 ^ 63"
  shows "length blob' = length blob \<and>
    (\<forall>c. (\<forall>d\<in>set (concat (map (cells brs) bis)). apart d c) \<longrightarrow> beGet (snd c) blob' (fst c) = beGet (snd c) blob (fst c)) \<and>
    (\<forall>s\<in>set new. beGet 8 blob' (b_seekArrayOff (brs ! fs_branch s) + 8 * fs_basket s) = int (fs_vSeek s) \<and>
       beGet 4 blob' (b_bytesArrayOff (brs ! fs_branch s) + 4 * fs_basket s) = int (fs_vLen s))"
  using assms
proof (induction bis arbitrary: at blob ss new)
  case Nil
  then show ?case by simp
next
  case (Cons bi bis)
  from Cons.prems(4) obtain s new' where new: "new = s # new'" "bi = (fs_branch s, fs_basket s)" "map (\<lambda>s. (fs_branch s, fs_basket s)) new' = bis"
    by auto
  have s: "fs_vSeek s = at" "slots_from (at + fs_vLen s) new' at'" "slot_of factor brs s" "list_all (slot_of factor brs) new'"
    using Cons.prems(3,5) new(1) by auto
  have at': "at + fs_vLen s + sum_list (map fs_vLen new') = at'"
    using slots_from_end [OF s(2)] by simp
  have "new_slot factor brs bi at = s"
    using s(1,3) by (simp add: new_slot_def slot_of_def Let_def new(2))
  then have F: "fold (place_slot factor brs) bis (at + fs_vLen s, point_at brs s blob, ss @ [s]) = (at', blob', ss')"
    using Cons.prems(1,6) at' by (simp add: place_slot_step)
  note ok = cells_ok_Cons [OF Cons.prems(2)]
  have "fs_vSeek s < 2 ^ 63" "fs_vLen s < 2 ^ 31"
    using at' s(1,3) Cons.prems(6) slot_len_less by (auto simp: slot_of_def)
  note P = point_at_blob [OF ok(1,2) [unfolded new(2)] this, folded new(2)]
  have "cells_ok brs bis (length (point_at brs s blob))" using ok(3) P(1) by simp
  note I = Cons.IH [OF F this s(2) new(3) s(4) Cons.prems(6)]
  have own: "beGet (snd c) blob' (fst c) = beGet (snd c) (point_at brs s blob) (fst c)" if "c \<in> set (cells brs bi)" for c
    using I ok(4) [OF that] by blast
  have "beGet 8 blob' (b_seekArrayOff (brs ! fs_branch s) + 8 * fs_basket s) = int (fs_vSeek s)"
    "beGet 4 blob' (b_bytesArrayOff (brs ! fs_branch s) + 4 * fs_basket s) = int (fs_vLen s)"
    using own [of "(b_seekArrayOff (brs ! fs_branch s) + 8 * fs_basket s, 8)"] own [of "(b_bytesArrayOff (brs ! fs_branch s) + 4 * fs_basket s, 4)"] P(3,4)
    by (auto simp: cells_def new(2))
  moreover have "beGet (snd c) blob' (fst c) = beGet (snd c) blob (fst c)" if "\<forall>d\<in>set (concat (map (cells brs) (bi # bis))). apart d c" for c
  proof -
    have "\<forall>d\<in>set (cells brs bi). apart d c" "\<forall>d\<in>set (concat (map (cells brs) bis)). apart d c"
      using that by auto
    then show ?thesis using I P(2) [of c] by metis
  qed
  moreover have "length blob' = length blob" using I P(1) by simp
  ultimately show ?case
    using I unfolding new(1) list.set by blast
qed

section \<open>The layout\<close>

text \<open>The way to a layout: every check passed.\<close>

lemma metaKeyRecord_cases:
  assumes "metaKeyRecord ver hdr payload reserve seek = Inr r'"
  shows "length (hdr @ payload) \<le> reserve"
    and "putKeySeek (bePut 4 (hdr @ payload) 0 (as_i32 (length (hdr @ payload)))) 0 ver (as_i64 seek) = Some r'"
  using assms by (auto simp: metaKeyRecord_def Let_def split: if_splits option.splits)

lemma patch_keys_length:
  "patch_keys tk nb seek n klist pos p = Inr (klist', p') \<Longrightarrow> length klist < 2 ^ 62 \<Longrightarrow> pos < 2 ^ 63 \<Longrightarrow> length klist' = length klist"
proof (induction tk nb seek n klist pos p rule: patch_keys.induct)
  case (2 tk nb seek n klist pos patched)
  from 2(3) obtain e where e: "parseKey klist pos = Some e"
    by (auto split: option.splits)
  then have l: "pos + 34 \<le> length klist"
    using 2(4,5) by (auto simp: parseKey_def split: if_splits)
  have k: "k_keylen e < 2 ^ 16"
    using parseKey_fields(3) [OF e] be_val_bound [of "slice (pos + 14) 2 klist"] l by (simp add: beGetU_def)
  then have pos: "pos + k_keylen e < 2 ^ 63" using l 2(4) by simp
  show ?case
  proof (cases "live_entry tk e")
    case True
    with 2(3) e obtain kl where kl: "putKeySeek (bePut 4 klist pos (as_i32 nb)) pos (k_ver e) (as_i64 seek) = Some kl"
      and rest: "patch_keys tk nb seek n kl (pos + k_keylen e) True = Inr (klist', p')"
      by (auto split: option.splits)
    have "length kl = length klist" using kl l by simp
    with 2(1) [OF e True kl rest] 2(4) pos show ?thesis by simp
  next
    case False
    then have "patch_keys tk nb seek n klist (pos + k_keylen e) patched = Inr (klist', p')"
      using 2(3) e by simp
    with 2(2) [OF e False] 2(4) pos show ?thesis by blast
  qed
qed simp

lemma layoutForFill_cases:
  assumes "layoutForFill enc fm fileSize header hdr keysList codecs factor = Inr L"
  obtains H at blob slots meta w klist where "100 \<le> factor" "parseHeader header = Some H" "hd_end H = fm_fend fm"
    "length hdr = k_keylen (fm_treeKey fm)" "26 \<le> length hdr" "relocated_branches fm H codecs \<noteq> []" "fileSize = to_unsigned 8 (fm_fend fm)"
    "fold (place_slot factor (fm_branches fm)) (branch_baskets (fm_branches fm) (relocated_branches fm H codecs)) (fl_slotsBegin L, fm_treeBlob fm, []) = (at, blob, slots)"
    "metaKeyRecord (k_ver (fm_treeKey fm)) hdr (metaPayload enc kFillMetaZstdLevel blob) (k_keylen (fm_treeKey fm) + length (fm_treeBlob fm)) (fl_metaSeek L) = Inr meta"
    "patchKeysList fm fileSize (length meta) (fl_metaSeek L) keysList = Inr klist" "headerWindowForEnd header at = Some w"
    "L = \<lparr>fl_originSize = fileSize, fl_virtualSize = at, fl_windows = [w, (nat (fm_keyslistSeek fm), klist)],
          fl_metaSeek = u64 (fileSize + kFillAlign - 1) div kFillAlign * kFillAlign, fl_metaRecord = meta,
          fl_slotsBegin = u64 (u64 (fileSize + kFillAlign - 1) div kFillAlign * kFillAlign + (k_keylen (fm_treeKey fm) + length (fm_treeBlob fm))),
          fl_slots = slots, fl_relocated = relocated_branches fm H codecs\<rparr>"
  using assms unfolding layoutForFill_def layout_tail_def place_slots_def Let_def
  by (clarsimp split: if_splits option.splits sum.splits prod.splits)

text \<open>What the types of the metadata say: lengths are 32-bit values, one for each basket written, and a key's length has 16 bits.\<close>

definition meta_typed :: "fileMeta \<Rightarrow> bool" where
  "meta_typed fm \<longleftrightarrow> k_keylen (fm_treeKey fm) < 2 ^ 16 \<and>
     list_all (\<lambda>br. list_all (\<lambda>x. x < 2 ^ 31) (b_basketBytes br) \<and> b_writeBasket br \<le> int (length (b_basketBytes br))) (fm_branches fm)"

lemma aligned_up: "n < 2 ^ 63 \<Longrightarrow> (let m = u64 (n + kFillAlign - 1) div kFillAlign * kFillAlign in n \<le> m \<and> m < n + kFillAlign \<and> kFillAlign dvd m)"
proof -
  assume "n < 2 ^ 63"
  then have "u64 (n + kFillAlign - 1) = n + 4095" by (simp add: kFillAlign_def)
  moreover have "n \<le> (n + 4095) div 4096 * 4096" "(n + 4095) div 4096 * 4096 < n + 4096"
    using div_mult_mod_eq [of "n + 4095" 4096] mod_less_divisor [of 4096 "n + 4095"] by linarith+
  ultimately show ?thesis by (simp add: kFillAlign_def Let_def)
qed

lemma branch_baskets_mem:
  "(b, i) \<in> set (branch_baskets brs bs) \<Longrightarrow> b \<in> set bs \<and> i < nat (b_writeBasket (brs ! b))"
  by (auto simp: branch_baskets_def)

lemma relocated_basket:
  assumes "meta_typed fm" and "(b, i) \<in> set (branch_baskets (fm_branches fm) (relocated_branches fm H codecs))"
  defines "br \<equiv> fm_branches fm ! b"
  shows "0 < nat (b_basketBytes br ! i)" and "nat (b_basketBytes br ! i) < 2 ^ 31"
    and "nat (b_basketSeek br ! i) + nat (b_basketBytes br ! i) \<le> to_unsigned 8 (fm_fend fm)"
proof -
  from branch_baskets_mem [OF assms(2)] have b: "b < length (fm_branches fm)" "relocatable fm H codecs b" and i: "i < nat (b_writeBasket br)"
    by (auto simp: relocated_branches_def br_def)
  from b(2) i have "basket_inside (fm_fend fm) br i"
    by (auto simp: relocatable_def Let_def br_def list_all_iff)
  then show "0 < nat (b_basketBytes br ! i)" "nat (b_basketSeek br ! i) + nat (b_basketBytes br ! i) \<le> to_unsigned 8 (fm_fend fm)"
    by (auto simp: basket_inside_def)
  have "b_basketBytes br ! i < 2 ^ 31"
    using assms(1) b(1) i by (auto simp: meta_typed_def list_all_length br_def)
  then show "nat (b_basketBytes br ! i) < 2 ^ 31" by simp
qed

text \<open>C20. The extension is laid out as promised: the relocated tree key starts at the first page boundary past the end of the file and stays below the slots, the slots lie side by side from there to the virtual end, and each slot
  holds its basket's original record, which lies inside the file.\<close>

theorem layout_geometry:
  assumes L: "layoutForFill enc fm fileSize header hdr keysList codecs factor = Inr L" and typed: "meta_typed fm"
    and small: "fileSize < 2 ^ 62" "length (fm_treeBlob fm) < 2 ^ 61" "sum_list (map fs_vLen (fl_slots L)) < 2 ^ 62"
  shows "fl_originSize L = fileSize \<and> fileSize \<le> fl_metaSeek L \<and> fl_metaSeek L < fileSize + kFillAlign \<and> kFillAlign dvd fl_metaSeek L \<and>
    fl_metaSeek L + length (fl_metaRecord L) \<le> fl_slotsBegin L \<and> slots_from (fl_slotsBegin L) (fl_slots L) (fl_virtualSize L) \<and>
    (\<forall>s\<in>set (fl_slots L). 0 < fs_origLen s \<and> fs_origLen s \<le> fs_vLen s \<and> fs_vLen s < 2 ^ 31 \<and> fs_origSeek s + fs_origLen s \<le> fileSize)"
  using L
proof (cases rule: layoutForFill_cases)
  case (1 H at blob slots meta w klist)
  note f = 1(12)
  have m: "fileSize \<le> fl_metaSeek L" "fl_metaSeek L < fileSize + kFillAlign" "kFillAlign dvd fl_metaSeek L"
    using aligned_up [of fileSize] small(1) by (simp_all add: f Let_def)
  have kl: "k_keylen (fm_treeKey fm) < 2 ^ 16" using typed by (simp add: meta_typed_def)
  have sb: "fl_slotsBegin L = fl_metaSeek L + (k_keylen (fm_treeKey fm) + length (fm_treeBlob fm))" "fl_slotsBegin L < 2 ^ 63"
    using m(2) kl small by (simp_all add: f kFillAlign_def)
  have "length meta = length (hdr @ metaPayload enc kFillMetaZstdLevel blob)"
    using metaKeyRecord_cases(2) [OF 1(9)] 1(5) by auto
  then have room: "fl_metaSeek L + length (fl_metaRecord L) \<le> fl_slotsBegin L"
    using metaKeyRecord_cases(1) [OF 1(9)] by (simp add: sb(1)) (simp add: f)
  from place_slots_fold [OF 1(8)] have ids: "map (\<lambda>s. (fs_branch s, fs_basket s)) slots = branch_baskets (fm_branches fm) (relocated_branches fm H codecs)"
    and so: "list_all (slot_of factor (fm_branches fm)) slots"
    and con: "fl_slotsBegin L + sum_list (map fs_vLen slots) < 2 ^ 64 \<longrightarrow> slots_from (fl_slotsBegin L) slots at"
    by auto
  have "slots_from (fl_slotsBegin L) slots at"
    using con sb(2) small(3) by (simp add: f)
  moreover have "0 < fs_origLen s \<and> fs_origLen s \<le> fs_vLen s \<and> fs_vLen s < 2 ^ 31 \<and> fs_origSeek s + fs_origLen s \<le> fileSize" if s: "s \<in> set slots" for s
  proof -
    have "(fs_branch s, fs_basket s) \<in> set (branch_baskets (fm_branches fm) (relocated_branches fm H codecs))"
      unfolding ids [symmetric] using s by auto
    note B = relocated_basket [OF typed this]
    have "slot_of factor (fm_branches fm) s" using so s by (simp add: list_all_iff)
    with B slot_len_ge [OF 1(1) B(2)] slot_len_less 1(7) show ?thesis by (simp add: slot_of_def)
  qed
  ultimately show ?thesis
    using m room by (simp add: f)
qed

text \<open>What is patched in place lies where the header file promises: the header window within the first 75 bytes, the keys list behind it at its own offset and of its own length, inside the file. With its window the
  file header states the virtual end.\<close>

theorem layout_windows:
  assumes L: "layoutForFill enc fm fileSize header hdr keysList codecs factor = Inr L" and H: "parseHeader header = Some H" "0 \<le> hd_version H"
    and small: "fl_virtualSize L < 2 ^ 63" "length keysList < 2 ^ 62" "fm_keyslistSeek fm < 2 ^ 62"
  shows "\<exists>off w klist. fl_windows L = [(off, w), (nat (fm_keyslistSeek fm), klist)] \<and> off + length w \<le> 75 \<and> 100 \<le> fm_keyslistSeek fm \<and>
    nat (fm_keyslistSeek fm) + length klist \<le> fl_originSize L \<and> length klist = length keysList \<and>
    parseHeader (overwrite header off w) = Some (header_with_end H (fl_virtualSize L))"
  using L
proof (cases rule: layoutForFill_cases)
  case (1 H' at blob slots meta w klist)
  note f = 1(12)
  obtain off win where w: "w = (off, win)" by (cases w)
  have at: "fl_virtualSize L = at" by (simp add: f)
  from 1(10) obtain k p where "parseKey keysList 0 = Some k" "k_keylen k + 4 \<le> length keysList"
      and pk: "patch_keys (fm_treeKey fm) (length meta) (fl_metaSeek L) (nat (beGet 4 keysList (k_keylen k))) keysList (k_keylen k + 4) False = Inr (klist, p)"
      and s: "100 \<le> fm_keyslistSeek fm" "u64 (nat (fm_keyslistSeek fm) + length keysList) \<le> fileSize"
    unfolding patchKeysList_def by (auto split: option.splits if_splits sum.splits prod.splits)
  then have "length klist = length keysList"
    using patch_keys_length [OF pk] small(2) by simp
  moreover have "nat (fm_keyslistSeek fm) + length keysList \<le> fileSize"
    using s(2) small(2,3) by simp
  moreover have "parseHeader (overwrite header off win) = Some (header_with_end H at)"
    using header_window_states_end [OF _ H(1) _ H(2), of at off win] 1(11) small(1) w at by simp
  ultimately show ?thesis
    using headerWindow_bounds(1) [of header at off win] 1(11) s(1) w at by (intro exI [of _ off] exI [of _ win] exI [of _ klist]) (simp add: f)
qed

text \<open>The relocated record is the tree key with its new length and position, and the record under it decodes to what was put in.\<close>

lemma metaKeyRecord_payload:
  assumes meta: "metaKeyRecord (k_ver tk) hdr (metaPayload enc level blob) reserve seek = Inr r'"
    and tk: "parseKey hdr 0 = Some tk" "k_keylen tk = length hdr" "k_objlen tk = int (length blob)"
    and len: "reserve < 2 ^ 31" "seek < 2 ^ 63" and inv: "codec_inverse enc dec" and fit: "blocks_fit enc level blob"
  shows "parseKey r' 0 = Some (tk\<lparr>k_nbytes := int (length r'), k_seekkey := int seek\<rparr>)"
    and "recordPayload dec (tk\<lparr>k_nbytes := int (length r'), k_seekkey := int seek\<rparr>) r' = blob"
proof -
  let ?p = "metaPayload enc level blob"
  let ?r = "hdr @ ?p"
  note M = metaKeyRecord_cases [OF meta]
  have l: "length ?r < 2 ^ 31" using M(1) len(1) by linarith
  have h: "34 \<le> length hdr" using parseKey_min_length [OF tk(1)] .
  have k: "parseKey ?r 0 = Some tk"
    by (rule parseKey_append [OF tk(1)]) (use l in simp)
  have put: "putKeySeek (bePut 4 ?r 0 (int (length ?r))) 0 (k_ver tk) (int seek) = Some r'"
    using M(2) l len(2) by simp
  have len': "length r' = length ?r"
    using put h by simp
  show "parseKey r' 0 = Some (tk\<lparr>k_nbytes := int (length r'), k_seekkey := int seek\<rparr>)"
    unfolding len' by (rule parseKey_repointed [OF k _ _ put]) (use l h len(2) in simp_all)
  have d: "drop (length hdr) r' = ?p"
    using putKeySeek_drop [OF put, of "length hdr"] h by (simp add: drop_bePut)
  have n: "int (length r') - int (length hdr) = int (length ?p)" using len' by simp
  consider (raw) "?p = blob" | (frames) "?p = zstdFrames enc level blob" "?p \<noteq> []" "length ?p < length blob"
    by (cases "zstdFrames enc level blob = [] \<or> length blob \<le> length (zstdFrames enc level blob)") (auto simp: metaPayload_def Let_def)
  then have "(if int (length blob) = int (length ?p) then ?p else decompressFrames dec ?p (length blob)) = blob"
  proof cases
    case frames
    then show ?thesis using zstd_frames_roundtrip [OF inv fit] by simp
  qed simp
  then show "recordPayload dec (tk\<lparr>k_nbytes := int (length r'), k_seekkey := int seek\<rparr>) r' = blob"
    by (auto simp: recordPayload_def Let_def tk(2,3) d n split: if_splits)
qed

text \<open>C19. Who reads the relocated tree key finds the original tree key (class, name, title, version, cycle, object length) with only its
  length and position changed, and decodes under it a tree record of the original length in which every relocated basket has its
  slot's position and length. Tree records of up to 16711680 bytes (just under 16 MiB), for a codec that keeps the
  bound of \<^verbatim>\<open>ZSTD_compressBound\<close>.\<close>

theorem meta_names_slots:
  assumes L: "layoutForFill enc fm fileSize header hdr keysList codecs factor = Inr L" and typed: "meta_typed fm"
    and small: "fileSize < 2 ^ 62" "length (fm_treeBlob fm) \<le> 16711680" "sum_list (map fs_vLen (fl_slots L)) < 2 ^ 61"
    and tk: "parseKey hdr 0 = Some (fm_treeKey fm)" "k_objlen (fm_treeKey fm) = int (length (fm_treeBlob fm))"
    and cells: "cells_ok (fm_branches fm) (branch_baskets (fm_branches fm) (fl_relocated L)) (length (fm_treeBlob fm))"
    and inv: "codec_inverse enc dec" and bound: "enc_bounded enc"
  shows "\<exists>k blob. k = (fm_treeKey fm)\<lparr>k_nbytes := int (length (fl_metaRecord L)), k_seekkey := int (fl_metaSeek L)\<rparr> \<and>
    parseKey (fl_metaRecord L) 0 = Some k \<and> recordPayload dec k (fl_metaRecord L) = blob \<and> length blob = length (fm_treeBlob fm) \<and>
    (\<forall>s\<in>set (fl_slots L). beGet 8 blob (b_seekArrayOff (fm_branches fm ! fs_branch s) + 8 * fs_basket s) = int (fs_vSeek s) \<and>
       beGet 4 blob (b_bytesArrayOff (fm_branches fm ! fs_branch s) + 4 * fs_basket s) = int (fs_vLen s))"
  using L
proof (cases rule: layoutForFill_cases)
  case (1 H at blob slots meta w klist)
  note f = 1(12)
  have fit: "length b = length (fm_treeBlob fm) \<Longrightarrow> blocks_fit enc kFillMetaZstdLevel b" for b
    using blocks_fit_bounded [OF bound] small(2) by simp
  have kl: "k_keylen (fm_treeKey fm) < 2 ^ 16" using typed by (simp add: meta_typed_def)
  have m: "fl_metaSeek L < 2 ^ 62 + 4096"
    using aligned_up [of fileSize] small(1) by (simp add: f Let_def kFillAlign_def)
  then have sb: "fl_slotsBegin L < 2 ^ 62 + 2 ^ 31"
    using kl small(2) by (simp add: f)
  from place_slots_fold [OF 1(8)] have ids: "map (\<lambda>s. (fs_branch s, fs_basket s)) slots = branch_baskets (fm_branches fm) (relocated_branches fm H codecs)"
    and so: "list_all (slot_of factor (fm_branches fm)) slots" and con: "slots_from (fl_slotsBegin L) slots at"
    using sb small(3) by (auto simp: f)
  have "at < 2 ^ 62 + 2 ^ 31 + 2 ^ 61"
    using slots_from_end [OF con] sb small(3) by (simp add: f)
  then have "at < 2 ^ 63" by simp
  note B = fold_blob [OF 1(8) _ con ids so this]
  have "cells_ok (fm_branches fm) (branch_baskets (fm_branches fm) (relocated_branches fm H codecs)) (length (fm_treeBlob fm))"
    using cells by (simp add: f)
  note B = B [OF this]
  have K: "parseKey meta 0 = Some ((fm_treeKey fm)\<lparr>k_nbytes := int (length meta), k_seekkey := int (fl_metaSeek L)\<rparr>)"
    "recordPayload dec ((fm_treeKey fm)\<lparr>k_nbytes := int (length meta), k_seekkey := int (fl_metaSeek L)\<rparr>) meta = blob"
    using metaKeyRecord_payload [OF 1(9) tk(1) 1(4) [symmetric] _ _ _ inv fit] B tk(2) kl small(2) m by simp_all
  then show ?thesis
    using B by (intro exI [of _ "(fm_treeKey fm)\<lparr>k_nbytes := int (length meta), k_seekkey := int (fl_metaSeek L)\<rparr>"] exI [of _ blob]) (simp add: f)
qed

section \<open>The keys list\<close>

text \<open>A key inside a list of keys is the key alone.\<close>

lemma slice_mid: "o1 + n \<le> length e \<Longrightarrow> slice (length pre + o1) n (pre @ e @ post) = slice o1 n e"
  by (simp add: slice_def)

lemma beGet_mid: "o1 + n \<le> length e \<Longrightarrow> beGet n (pre @ e @ post) (length pre + o1) = beGet n e o1"
  "o1 + n \<le> length e \<Longrightarrow> beGetU n (pre @ e @ post) (length pre + o1) = beGetU n e o1"
  by (simp_all add: beGet_def beGetU_def slice_mid)

lemma bePut_mid: "o1 + n \<le> length e \<Longrightarrow> bePut n (pre @ e @ post) (length pre + o1) v = pre @ bePut n e o1 v @ post"
  by (simp add: bePut_def overwrite_def)

lemma putKeySeek_mid:
  "26 \<le> length e \<Longrightarrow> putKeySeek (pre @ e @ post) (length pre) ver seek = map_option (\<lambda>e'. pre @ e' @ post) (putKeySeek e 0 ver seek)"
  by (simp add: putKeySeek_def bePut_mid)

lemma key_str_mid:
  assumes "key_str e 0 q = Some r" and "length (pre @ e @ post) < 2 ^ 63" and "q \<le> 1000"
  shows "key_str (pre @ e @ post) (length pre) q = Some r"
proof -
  have q: "q < length e"
    using assms by (auto simp: key_str_def split: if_splits)
  have u: "unat (e ! q) < 256" by (rule unat_byte_less)
  have le: "q + 1 + unat (e ! q) \<le> length e" and r: "r = (map char_of_byte (slice (q + 1) (unat (e ! q)) e), q + 1 + unat (e ! q))"
    using assms q u by (auto simp: key_str_def Let_def split: if_splits)
  have nth: "(e @ post) ! q = e ! q"
    using q by (simp add: nth_append)
  have "slice (length pre + (q + 1)) (unat (e ! q)) (pre @ e @ post) = slice (q + 1) (unat (e ! q)) e"
    by (rule slice_mid) (use le in simp)
  then show ?thesis
    using le q u assms(2) by (simp add: key_str_def Let_def nth r)
qed

lemma parseKey_mid:
  assumes e: "parseKey e 0 = Some k" and len: "length (pre @ e @ post) < 2 ^ 63"
  shows "parseKey (pre @ e @ post) (length pre) = Some k"
proof -
  from e obtain cls q1 name q2 title q3
    where *: "\<not> length e < u64 (0 + 34)"
      "key_str e 0 (if 1000 < beGetU 2 e (0 + 4) then 34 else 26) = Some (cls, q1)"
      "key_str e 0 q1 = Some (name, q2)" "key_str e 0 q2 = Some (title, q3)"
      "k = \<lparr>k_nbytes = beGet 4 e 0, k_ver = beGetU 2 e (0 + 4), k_objlen = beGet 4 e (0 + 6), k_keylen = beGetU 2 e (0 + 14),
            k_cycle = beGetU 2 e (0 + 16), k_seekkey = beGet (if 1000 < beGetU 2 e (0 + 4) then 8 else 4) e (0 + 18),
            k_cls = cls, k_name = name, k_title = title\<rparr>"
    by (rule parseKey_SomeE)
  note b = key_str_bounds [OF *(2)] key_str_bounds [OF *(3)]
  have q: "q1 \<le> 1000" "q2 \<le> 1000" using b by (auto split: if_splits)
  have l: "34 \<le> length e" using *(1) by simp
  have s: "key_str (pre @ e @ post) (length pre) (if 1000 < beGetU 2 e 4 then 34 else 26) = Some (cls, q1)"
    "key_str (pre @ e @ post) (length pre) q1 = Some (name, q2)" "key_str (pre @ e @ post) (length pre) q2 = Some (title, q3)"
    using key_str_mid [OF *(2) len] key_str_mid [OF *(3) len] key_str_mid [OF *(4) len] q by auto
  have g: "beGetU 2 (pre @ e @ post) (length pre + 4) = beGetU 2 e 4" "beGetU 2 (pre @ e @ post) (length pre + 14) = beGetU 2 e 14"
    "beGetU 2 (pre @ e @ post) (length pre + 16) = beGetU 2 e 16" "beGet 4 (pre @ e @ post) (length pre) = beGet 4 e 0"
    "beGet 4 (pre @ e @ post) (length pre + 6) = beGet 4 e 6" "beGet 4 (pre @ e @ post) (length pre + 18) = beGet 4 e 18"
    using l beGet_mid [of 0 4] beGet_mid [of 6 4] beGet_mid [of 18 4] beGet_mid [of 4 2] beGet_mid [of 14 2] beGet_mid [of 16 2] by auto
  have g8: "beGet 8 (pre @ e @ post) (length pre + 18) = beGet 8 e 18"
    using l beGet_mid [of 18 8] by auto
  have "\<not> length (pre @ e @ post) < u64 (length pre + 34)" using len l by simp
  then show ?thesis
    unfolding parseKey_def Let_def g using s g g8 by (simp add: *(5))
qed

text \<open>The walk as a function on the entries: each live entry is repointed, the others stay.\<close>

definition repoint :: "keyInfo \<Rightarrow> nat \<Rightarrow> nat \<Rightarrow> bytes \<Rightarrow> bytes option" where
  "repoint tk nb seek e =
     (case parseKey e 0 of
        None \<Rightarrow> None
      | Some k \<Rightarrow> if live_entry tk k then putKeySeek (bePut 4 e 0 (as_i32 nb)) 0 (k_ver k) (as_i64 seek) else Some e)"

definition entry_ok :: "bytes \<Rightarrow> bool" where
  "entry_ok e \<longleftrightarrow> (\<exists>k. parseKey e 0 = Some k \<and> k_keylen k = length e)"

definition has_live :: "keyInfo \<Rightarrow> bytes list \<Rightarrow> bool" where
  "has_live tk es \<longleftrightarrow> list_ex (\<lambda>e. case parseKey e 0 of None \<Rightarrow> False | Some k \<Rightarrow> live_entry tk k) es"

lemma patch_keys_entries:
  assumes "list_all entry_ok es" and "length (pre @ concat es @ post) < 2 ^ 63"
    and "patch_keys tk nb seek (length es) (pre @ concat es @ post) (length pre) p = Inr (klist, p')"
  shows "\<exists>es'. list_all2 (\<lambda>e e'. repoint tk nb seek e = Some e') es es' \<and> klist = pre @ concat es' @ post \<and> p' = (p \<or> has_live tk es)"
  using assms
proof (induction es arbitrary: pre p)
  case Nil
  then show ?case by (simp add: has_live_def)
next
  case (Cons e es)
  from Cons.prems(1) obtain k where k: "parseKey e 0 = Some k" "k_keylen k = length e" by (auto simp: entry_ok_def)
  have P: "parseKey (pre @ e @ concat es @ post) (length pre) = Some k"
    using parseKey_mid [OF k(1), of pre "concat es @ post"] Cons.prems(2) by simp
  have l: "34 \<le> length e" using parseKey_min_length [OF k(1)] .
  have put: "putKeySeek (bePut 4 (pre @ e @ concat es @ post) (length pre) (as_i32 nb)) (length pre) (k_ver k) (as_i64 seek) =
      map_option (\<lambda>e'. pre @ e' @ concat es @ post) (putKeySeek (bePut 4 e 0 (as_i32 nb)) 0 (k_ver k) (as_i64 seek))"
    using bePut_mid [of 0 4 e pre "concat es @ post"] putKeySeek_mid [of "bePut 4 e 0 (as_i32 nb)" pre "concat es @ post"] l by simp
  obtain e' where e': "repoint tk nb seek e = Some e'" "length e' = length e"
    and rest: "patch_keys tk nb seek (length es) ((pre @ e') @ concat es @ post) (length (pre @ e')) (p \<or> live_entry tk k) = Inr (klist, p')"
  proof (cases "live_entry tk k")
    case True
    with Cons.prems(3) P put k(2) obtain e' where "putKeySeek (bePut 4 e 0 (as_i32 nb)) 0 (k_ver k) (as_i64 seek) = Some e'"
      "patch_keys tk nb seek (length es) (pre @ e' @ concat es @ post) (length pre + length e) True = Inr (klist, p')"
      by (auto split: option.splits)
    moreover from this l have "length e' = length e" by simp
    ultimately show thesis
      using that [of e'] True k(1) by (simp add: repoint_def)
  next
    case False
    then show thesis
      using that [of e] Cons.prems(3) P k by (simp add: repoint_def)
  qed
  have "length ((pre @ e') @ concat es @ post) < 2 ^ 63" "list_all entry_ok es"
    using Cons.prems(1,2) e'(2) by simp_all
  from Cons.IH [OF this(2,1) rest] obtain es' where es': "list_all2 (\<lambda>e e'. repoint tk nb seek e = Some e') es es'"
      "klist = (pre @ e') @ concat es' @ post" "p' = ((p \<or> live_entry tk k) \<or> has_live tk es)"
    by blast
  then show ?case
    using e'(1) k(1) by (intro exI [of _ "e' # es'"]) (auto simp: has_live_def)
qed

lemma repoint_parses:
  assumes "repoint tk nb seek e = Some e'" and "parseKey e 0 = Some k" and "length e < 2 ^ 63" and "nb < 2 ^ 31" and "seek < 2 ^ 63"
  shows "parseKey e' 0 = Some (if live_entry tk k then k\<lparr>k_nbytes := int nb, k_seekkey := int seek\<rparr> else k)"
proof (cases "live_entry tk k")
  case True
  then have "putKeySeek (bePut 4 e 0 (int nb)) 0 (k_ver k) (int seek) = Some e'"
    using assms by (simp add: repoint_def)
  from parseKey_repointed [OF assms(2,3) _ this] True show ?thesis
    using parseKey_min_length [OF assms(2)] assms(4,5) by simp
qed (use assms in \<open>simp add: repoint_def\<close>)

text \<open>C21. In a keys list made of well-formed entries, patching repoints exactly the live tree entries at the relocated key, with its length, and leaves every other key and the list's own size as they are; a list without a live
  entry is refused.\<close>

theorem keys_list_repointed:
  assumes ok: "patchKeysList fm originSize nb seek keysList = Inr klist"
    and kl: "parseKey keysList 0 = Some kl" "keysList = khdr @ concat es @ post" "length khdr = k_keylen kl + 4" "beGet 4 keysList (k_keylen kl) = int (length es)"
    and es: "list_all entry_ok es" and small: "length keysList < 2 ^ 63" "nb < 2 ^ 31" "seek < 2 ^ 63"
  shows "\<exists>es'. klist = khdr @ concat es' @ post \<and> has_live (fm_treeKey fm) es \<and>
    list_all2 (\<lambda>e e'. \<exists>k. parseKey e 0 = Some k \<and>
      parseKey e' 0 = Some (if live_entry (fm_treeKey fm) k then k\<lparr>k_nbytes := int nb, k_seekkey := int seek\<rparr> else k)) es es'"
proof -
  from ok kl obtain p where "patch_keys (fm_treeKey fm) nb seek (length es) (khdr @ concat es @ post) (length khdr) False = Inr (klist, p)" "p"
    unfolding patchKeysList_def by (auto split: if_splits sum.splits prod.splits)
  from patch_keys_entries [OF es _ this(1)] this(2) small(1) kl(2) obtain es' where e: "list_all2 (\<lambda>e e'. repoint (fm_treeKey fm) nb seek e = Some e') es es'"
      "klist = khdr @ concat es' @ post" "has_live (fm_treeKey fm) es"
    by auto
  have "\<exists>k. parseKey e 0 = Some k \<and> parseKey e' 0 = Some (if live_entry (fm_treeKey fm) k then k\<lparr>k_nbytes := int nb, k_seekkey := int seek\<rparr> else k)"
    if mem: "e \<in> set es" and rep: "repoint (fm_treeKey fm) nb seek e = Some e'" for e e'
  proof -
    have "length e \<le> length (concat es)" 
      unfolding length_concat by (rule member_le_sum_list) (use mem in simp_all)
    then have "length e < 2 ^ 63" using small(1) kl(2) by simp
    moreover obtain k where "parseKey e 0 = Some k" using es mem unfolding list_all_iff entry_ok_def by blast
    ultimately show ?thesis using repoint_parses [OF rep] small by blast
  qed
  with e(1) have "list_all2 (\<lambda>e e'. \<exists>k. parseKey e 0 = Some k \<and>
      parseKey e' 0 = Some (if live_entry (fm_treeKey fm) k then k\<lparr>k_nbytes := int nb, k_seekkey := int seek\<rparr> else k)) es es'"
    by (simp add: list_all2_conv_all_nth)
  with e show ?thesis by blast
qed

section \<open>A file\<close>

text \<open>A file of 2000 bytes with one tree of one branch of one basket.\<close>

definition sample_file_header :: bytes where
  "sample_file_header = [114, 111, 111, 116, 0, 0, 243, 192, 0, 0, 0, 100, 0, 0, 7, 208] @ replicate 16 0 @ [4, 0, 0, 0, 101] @ replicate 38 0"

definition sample_tree_header :: bytes where
  "sample_tree_header = [0, 0, 0, 72, 0, 4, 0, 0, 0, 32, 0, 0, 0, 0, 0, 40, 0, 1, 0, 0, 1, 44, 0, 0, 0, 100, 5, 84, 84, 114, 101, 101, 6, 69, 118, 101, 110, 116, 115, 0]"

definition sample_list_header :: bytes where
  "sample_list_header = [0, 0, 0, 79, 0, 4, 0, 0, 0, 44, 0, 0, 0, 0, 0, 35, 0, 1, 0, 0, 3, 232, 0, 0, 0, 100, 5, 84, 70, 105, 108, 101, 1, 102, 0, 0, 0, 0, 1]"

definition sample_tree_key :: keyInfo where
  "sample_tree_key = \<lparr>k_nbytes = 72, k_ver = 4, k_objlen = 32, k_keylen = 40, k_cycle = 1, k_seekkey = 300, k_cls = ''TTree'', k_name = ''Events'', k_title = ''''\<rparr>"

definition sample_branch :: branchMeta where
  "sample_branch = \<lparr>b_basketSeek = [500], b_basketBytes = [87], b_externalFile = False, b_name = ''b'', b_leafCount = '''', b_writeBasket = 1,
     b_seekArrayOff = 4, b_bytesArrayOff = 20, b_compress = -1, b_zipBytesOff = 9\<rparr>"

definition sample_meta :: fileMeta where
  "sample_meta = \<lparr>fm_error = '''', fm_fend = 2000, fm_keyslistSeek = 1000, fm_headerSeekWidth = 4, fm_treeKey = sample_tree_key, fm_treeBlob = replicate 32 0,
     fm_autoFlushOff = 1, fm_zipBytes = 87, fm_zipBytesOff = 2, fm_branches = [sample_branch]\<rparr>"

lemmas parse_simps = parseKey_def key_str_def beGet_def beGetU_def be_val_def slice_def to_signed_def char_of_byte_def char_of_def bit_Suc_0_iff

lemma sample_tree_header_parses: "parseKey sample_tree_header 0 = Some sample_tree_key"
  by (simp add: parse_simps sample_tree_header_def sample_tree_key_def Let_def)

lemma sample_list_header_parses: "parseKey sample_list_header 0 =
    Some \<lparr>k_nbytes = 79, k_ver = 4, k_objlen = 44, k_keylen = 35, k_cycle = 1, k_seekkey = 1000, k_cls = ''TFile'', k_name = ''f'', k_title = ''''\<rparr>"
  by (simp add: parse_simps sample_list_header_def Let_def)

lemma sample_file_header_parses: "parseHeader sample_file_header =
    Some \<lparr>hd_version = 62400, hd_begin = 100, hd_end = 2000, hd_seekFree = 0, hd_seekInfo = 0, hd_nbytesFree = 0, hd_nfree = 0, hd_nbytesName = 0,
      hd_compress = 101, hd_nbytesInfo = 0, hd_units = 4, hd_uuid = replicate 18 0, hd_large = False\<rparr>"
proof -
  have r: "replicate 16 (0 :: byte) = [0, 0, 0, 0, 0, 0, 0, 0, 0, 0, 0, 0, 0, 0, 0, 0]" "replicate 4 (0 :: byte) = [0, 0, 0, 0]" by (simp_all add: numeral_eq_Suc)
  show ?thesis
    by (simp add: parseHeader_def Let_def sample_file_header_def r root_magic_def byte_of_char_def beGet_def beGetU_def be_val_def slice_def to_signed_def)
qed

definition sample_fill_slot :: fillSlot where
  "sample_fill_slot = \<lparr>fs_origSeek = 500, fs_origLen = 87, fs_vSeek = 4168, fs_vLen = 261, fs_branch = 0, fs_basket = 0\<rparr>"

definition sample_blob :: bytes where
  "sample_blob = replicate 10 0 @ [16, 72] @ replicate 8 0 @ [0, 0, 1, 5] @ replicate 8 0"

definition sample_meta_record :: bytes where
  "sample_meta_record = take 18 sample_tree_header @ [0, 0, 16, 0] @ drop 22 sample_tree_header @ sample_blob"

definition sample_keys :: bytes where
  "sample_keys = sample_list_header @ take 18 sample_tree_header @ [0, 0, 16, 0] @ drop 22 sample_tree_header"

definition sample_layout :: fillLayout where
  "sample_layout = \<lparr>fl_originSize = 2000, fl_virtualSize = 4429, fl_windows = [(12, [0, 0, 17, 77]), (1000, sample_keys)], fl_metaSeek = 4096,
     fl_metaRecord = sample_meta_record, fl_slotsBegin = 4168, fl_slots = [sample_fill_slot], fl_relocated = [0]\<rparr>"

lemma be_bytes_4: "be_bytes 4 u = be_bytes (Suc (Suc (Suc (Suc 0)))) u"
  by (rule arg_cong [of _ _ "\<lambda>k. be_bytes k u"]) simp

lemma be_bytes_8: "be_bytes 8 u = be_bytes (Suc (Suc (Suc (Suc (Suc (Suc (Suc (Suc 0)))))))) u"
  by (rule arg_cong [of _ _ "\<lambda>k. be_bytes k u"]) simp

lemma sample_lengths2 [simp]: "length sample_tree_header = 40" "length sample_list_header = 39" "length sample_blob = 32"
  by (simp_all add: sample_tree_header_def sample_list_header_def sample_blob_def)

lemma sample_relocated: "hd_compress H = 101 \<Longrightarrow> relocated_branches sample_meta H [''zlib''] = [0]"
  by (simp add: relocated_branches_def relocatable_def sample_meta_def sample_branch_def basket_inside_def to_unsigned_def listed_def codecOfSetting_def Let_def)

lemma sample_point_at: "point_at [sample_branch] sample_fill_slot (replicate 32 0) = sample_blob"
proof -
  have b: "be_bytes 4 261 = [0, 0, 1, 5]" "be_bytes 8 4168 = [0, 0, 0, 0, 0, 0, 16, 72]"
    unfolding be_bytes_4 be_bytes_8 by simp_all
  have r: "replicate 10 (0 :: byte) = replicate 4 0 @ [0, 0, 0, 0, 0, 0]" by (simp add: numeral_eq_Suc)
  show ?thesis
    by (simp add: point_at_def sample_branch_def sample_fill_slot_def bePut_def overwrite_def to_unsigned_def b sample_blob_def r Let_def)
qed

lemma sample_slots: "fold (place_slot 300 [sample_branch]) (branch_baskets [sample_branch] [0]) (4168, replicate 32 0, []) = (4429, sample_blob, [sample_fill_slot])"
proof -
  have "branch_baskets [sample_branch] [0] = [(0, 0)]"
    by (simp add: branch_baskets_def sample_branch_def)
  moreover have "new_slot 300 [sample_branch] (0, 0) 4168 = sample_fill_slot"
    by (simp add: new_slot_def sample_branch_def sample_fill_slot_def slot_len_def Let_def)
  moreover have "fs_vLen sample_fill_slot = 261" by (simp add: sample_fill_slot_def)
  ultimately show ?thesis
    by (simp add: place_slot_step sample_point_at)
qed

lemma sample_blob_nonzero: "sample_blob \<noteq> replicate n 0"
proof
  assume "sample_blob = replicate n 0"
  moreover have "(16 :: byte) \<in> set sample_blob" by (simp add: sample_blob_def)
  ultimately have "(16 :: byte) \<in> set (replicate n 0)" by metis
  then show False by simp
qed

lemma sample_payload_raw: "metaPayload toy_enc kFillMetaZstdLevel sample_blob = sample_blob"
proof -
  have "toy_enc 1 sample_blob = Some (1 # sample_blob)"
    using sample_blob_nonzero by (simp add: toy_enc_def)
  then have "zstdFrames toy_enc 1 sample_blob = zs_frame (1 # sample_blob) 32"
    using zstdFrames_one [of sample_blob toy_enc 1 "1 # sample_blob"] by (auto simp: kMaxFrame_def sample_blob_def)
  then show ?thesis by (simp add: metaPayload_def kFillMetaZstdLevel_def Let_def)
qed

lemma sample_put: "putKeySeek (bePut 4 (sample_tree_header @ rest) 0 72) 0 4 4096 = Some (take 18 sample_tree_header @ [0, 0, 16, 0] @ drop 22 sample_tree_header @ rest)"
proof -
  have b: "be_bytes 4 72 = [0, 0, 0, 72]" "be_bytes 4 4096 = [0, 0, 16, 0]"
    unfolding be_bytes_4 by simp_all
  show ?thesis
    by (simp add: putKeySeek_def bePut_def overwrite_def to_unsigned_def b sample_tree_header_def)
qed

lemma sample_meta_key: "metaKeyRecord 4 sample_tree_header sample_blob 72 4096 = Inr sample_meta_record"
  by (simp add: metaKeyRecord_def Let_def sample_put sample_meta_record_def)

lemma sample_list_parses: "parseKey (sample_list_header @ sample_tree_header) 0 =
    Some \<lparr>k_nbytes = 79, k_ver = 4, k_objlen = 44, k_keylen = 35, k_cycle = 1, k_seekkey = 1000, k_cls = ''TFile'', k_name = ''f'', k_title = ''''\<rparr>"
  by (rule parseKey_append [OF sample_list_header_parses]) simp

lemma sample_nkeys: "beGet 4 (sample_list_header @ sample_tree_header) 35 = 1"
  by (simp add: beGet_append_left) (simp add: parse_simps sample_list_header_def)

lemma sample_patched: "patchKeysList sample_meta 2000 72 4096 (sample_list_header @ sample_tree_header) = Inr sample_keys"
proof -
  have e: "parseKey (sample_list_header @ sample_tree_header) 39 = Some sample_tree_key"
    using parseKey_mid [OF sample_tree_header_parses, of sample_list_header "[]"] by simp
  have "putKeySeek (bePut 4 (sample_list_header @ sample_tree_header) 39 72) 39 4 4096 = Some sample_keys"
    using bePut_mid [of 0 4 sample_tree_header sample_list_header "[]"] putKeySeek_mid [of "bePut 4 sample_tree_header 0 72" sample_list_header "[]"] sample_put [of "[]"]
    by (simp add: sample_keys_def)
  then have "patch_keys sample_tree_key 72 4096 (Suc 0) (sample_list_header @ sample_tree_header) 39 False = Inr (sample_keys, True)"
    using e by (simp add: live_entry_def) (simp add: sample_tree_key_def)
  moreover have "nat (beGet 4 (sample_list_header @ sample_tree_header) 35) = Suc 0" by (simp add: sample_nkeys)
  ultimately show ?thesis
    unfolding patchKeysList_def sample_list_parses by (simp add: sample_meta_def del: patch_keys.simps)
qed

lemma sample_window: "headerWindowForEnd sample_file_header 4429 = Some (12, [0, 0, 17, 77])"
proof -
  have "be_bytes 4 4429 = [0, 0, 17, 77]" unfolding be_bytes_4 by simp
  then show ?thesis
    by (simp add: headerWindowForEnd_def sample_file_header_parses bePut_def overwrite_def to_unsigned_def)
qed

lemma sample_layout_computed:
  "layoutForFill toy_enc sample_meta 2000 sample_file_header sample_tree_header (sample_list_header @ sample_tree_header) [''zlib''] 300 = Inr sample_layout"
proof -
  have m: "u64 (2000 + kFillAlign - 1) div kFillAlign * kFillAlign = 4096" by (simp add: kFillAlign_def)
  have r: "length sample_meta_record = 72" by (simp add: sample_meta_record_def)
  have t: "layout_tail toy_enc sample_meta 2000 sample_file_header sample_tree_header (sample_list_header @ sample_tree_header) 300 [0] = Inr sample_layout"
  proof -
    have f: "fm_branches sample_meta = [sample_branch]" "fm_treeBlob sample_meta = replicate 32 0" "fm_treeKey sample_meta = sample_tree_key"
      "k_keylen sample_tree_key = 40" "k_ver sample_tree_key = 4" "fm_keyslistSeek sample_meta = 1000"
      by (simp_all add: sample_meta_def sample_tree_key_def)
    show ?thesis
      unfolding layout_tail_def Let_def m place_slots_def f
      by (simp add: sample_slots sample_payload_raw sample_meta_key r sample_patched sample_window sample_layout_def)
  qed
  have f: "fm_error sample_meta = ''''" "fm_fend sample_meta = 2000" "k_keylen (fm_treeKey sample_meta) = 40" "fm_zipBytesOff sample_meta = 2"
    "fm_autoFlushOff sample_meta = 1" "fm_zipBytes sample_meta = 87"
    by (simp_all add: sample_meta_def sample_tree_key_def)
  show ?thesis
    unfolding layoutForFill_def sample_file_header_parses option.case Let_def f
    by (simp add: sample_relocated t to_unsigned_def)
qed

lemma sample_typed: "meta_typed sample_meta"
  by (simp add: meta_typed_def sample_meta_def sample_tree_key_def sample_branch_def)

theorem layout_geometry_witness:
  "layoutForFill toy_enc sample_meta 2000 sample_file_header sample_tree_header (sample_list_header @ sample_tree_header) [''zlib''] 300 = Inr sample_layout \<and>
   slots_from (fl_slotsBegin sample_layout) (fl_slots sample_layout) (fl_virtualSize sample_layout) \<and>
   fl_metaSeek sample_layout + length (fl_metaRecord sample_layout) \<le> fl_slotsBegin sample_layout"
proof -
  have "length (fm_treeBlob sample_meta) < 2 ^ 61" "sum_list (map fs_vLen (fl_slots sample_layout)) < 2 ^ 62"
    by (simp_all add: sample_meta_def sample_layout_def sample_fill_slot_def)
  from layout_geometry [OF sample_layout_computed sample_typed _ this] sample_layout_computed show ?thesis by simp
qed

theorem layout_windows_witness:
  "\<exists>off w klist. fl_windows sample_layout = [(off, w), (1000, klist)] \<and> off + length w \<le> 75 \<and> 1000 + length klist \<le> 2000 \<and>
     (case parseHeader sample_file_header of None \<Rightarrow> False | Some H \<Rightarrow> parseHeader (overwrite sample_file_header off w) = Some (header_with_end H 4429))"
proof -
  have "fl_virtualSize sample_layout < 2 ^ 63" "fm_keyslistSeek sample_meta < 2 ^ 62"
    by (simp_all add: sample_layout_def sample_meta_def)
  from layout_windows [OF sample_layout_computed sample_file_header_parses _ this(1) _ this(2)] show ?thesis
    unfolding sample_file_header_parses by (simp add: sample_layout_def sample_meta_def)
qed

lemma toy_bounded: "enc_bounded toy_enc"
proof -
  have "Suc n \<le> compressBound n" for n
    by (cases "n < 131072"; cases "n < 256") (auto simp: compressBound_def less_eq_div_iff_mult_less_eq)
  moreover have "1 \<le> compressBound n" for n using \<open>\<And>n. Suc n \<le> compressBound n\<close> [of n] by linarith
  ultimately show ?thesis by (auto simp: enc_bounded_def toy_enc_def)
qed

theorem meta_names_slots_witness:
  "\<exists>k blob. parseKey sample_meta_record 0 = Some k \<and> k_seekkey k = 4096 \<and> k_cls k = k_cls sample_tree_key \<and>
     k_cycle k = k_cycle sample_tree_key \<and> recordPayload toy_dec k sample_meta_record = blob \<and>
     beGet 8 blob 4 = 4168 \<and> beGet 4 blob 20 = 261"
proof -
  have s: "length (fm_treeBlob sample_meta) \<le> 16711680" "sum_list (map fs_vLen (fl_slots sample_layout)) < 2 ^ 61" "2000 < (2 :: nat) ^ 62"
    by (simp_all add: sample_meta_def sample_layout_def sample_fill_slot_def)
  have tk: "parseKey sample_tree_header 0 = Some (fm_treeKey sample_meta)" "k_objlen (fm_treeKey sample_meta) = int (length (fm_treeBlob sample_meta))"
    by (simp_all add: sample_tree_header_parses sample_meta_def) (simp add: sample_tree_key_def)
  have c: "cells_ok (fm_branches sample_meta) (branch_baskets (fm_branches sample_meta) (fl_relocated sample_layout)) (length (fm_treeBlob sample_meta))"
    by (simp add: cells_ok_def cells_def apart_def branch_baskets_def sample_meta_def sample_layout_def sample_branch_def)
  from meta_names_slots [OF sample_layout_computed sample_typed s(3,1,2) tk c toy_codec_inverse toy_bounded]
  show ?thesis
    by (simp add: sample_layout_def sample_fill_slot_def sample_meta_def sample_branch_def)
qed

theorem keys_list_repointed_witness:
  "\<exists>es'. sample_keys = sample_list_header @ concat es' \<and>
     list_all2 (\<lambda>e e'. \<exists>k. parseKey e 0 = Some k \<and>
       parseKey e' 0 = Some (if live_entry sample_tree_key k then k\<lparr>k_nbytes := int 72, k_seekkey := int 4096\<rparr> else k)) [sample_tree_header] es'"
proof -
  have "list_all entry_ok [sample_tree_header]"
    by (simp add: entry_ok_def sample_tree_header_parses) (simp add: sample_tree_key_def)
  then have "\<exists>es'. sample_keys = sample_list_header @ concat es' @ [] \<and> has_live (fm_treeKey sample_meta) [sample_tree_header] \<and>
      list_all2 (\<lambda>e e'. \<exists>k. parseKey e 0 = Some k \<and>
        parseKey e' 0 = Some (if live_entry (fm_treeKey sample_meta) k then k\<lparr>k_nbytes := int 72, k_seekkey := int 4096\<rparr> else k)) [sample_tree_header] es'"
    by (intro keys_list_repointed [OF sample_patched sample_list_parses]) (simp_all add: sample_nkeys)
  moreover have "fm_treeKey sample_meta = sample_tree_key" by (simp add: sample_meta_def)
  ultimately show ?thesis by (simp only: append_Nil2) blast
qed

end
