(* ===== verification/Spec2Isabelle.thy ===== *)
theory Spec2Isabelle
  imports Crc32c Page_Bitmap IO_Backend Meta_Image Meta_File Settings Stage_Map Entry_State Entry_Stage
    Entry_Read Entry_Flush Entry_Inv Entry_System Replica_View Origin_Plan Slot_Log Slot_Create Cache_Cleanup Replica_Store Read_Footprint
    Read_Rule Fill_Layout
begin

text \<open>
  A verification library for xrd-ucache, a local page cache for remote ROOT files that plugs into the XRootD client.

  \<^bold>\<open>The program.\<close> The plugin (\<^verbatim>\<open>src/src/plugin\<close>) stands between an application and XrdCl. A read is served from the cache where the cache holds the pages
  and goes to the origin otherwise; what comes back is kept. The core (\<^verbatim>\<open>src/src/core\<close>) keeps, per remote file, a data file with the pages, a sidecar
  with a presence bitmap and one CRC-32C per page, an optional replica (an overlay with rewritten parts of the file and its own sidecar), and an
  optional slot store (converted records of the file in an append-only log). Several processes share a cache directory and meet only
  in these files, under advisory locks. A directory of command line tools (\<^verbatim>\<open>src/src/cli\<close>) and a rewriter of ROOT files (\<^verbatim>\<open>src/src/transpose\<close>) use the core.

  \<^bold>\<open>Conventions.\<close> Sizes and offsets are natural numbers; where the code computes with 64-bit integers and a wrap is possible, \<open>u64\<close> and \<open>sub64\<close> (theory Prelude)
  write it out. Bytes are 8-bit words, checksums 32-bit words, strings lists of characters. Errors are the code's negative
  integers, options or sums. The file system is a record of names, inodes and descriptors with a schedule that chooses for every call to come whether it
  succeeds, fails or transfers only a part; theorems that mention no schedule hold for every one. A section of the code that runs under a lock is one function; what may
  happen between two such sections is explicit. Clocks, random draws and callbacks are arguments.

  \<^bold>\<open>Components.\<close>
  \<^item> Prelude: slices, overwriting, little-endian fields, page arithmetic. Intervals: merging of byte ranges. Record_Codec: a locale for arrays of fixed-width records, interpreted on the record
    types of the replica sidecar and the slot store.
  \<^item> Crc32c (\<^verbatim>\<open>core/vendor/crc32c.cc\<close>): the sliced software routine and the hardware loop equal the bitwise definition; a change of one byte changes the checksum.
  \<^item> Page_Bitmap (\<^verbatim>\<open>core/PageBitmap.h\<close>): the packed bitmap with its cached count.
  \<^item> IO_Backend (\<^verbatim>\<open>core/IOBackend.cc\<close>, \<^verbatim>\<open>core/testing/FaultIO.cc\<close>): the file system and the retry loops \<^verbatim>\<open>preadFull\<close> and \<^verbatim>\<open>pwriteFull\<close>. Image_File: reading and atomically replacing a small file.
  \<^item> Meta_Image, Meta_Frame, Meta_File (\<^verbatim>\<open>core/MetaFile.cc\<close>): the sidecar codec, its round trip and its rejection of damage; load and store, whose rewrite is atomic under every schedule.
  \<^item> Settings (\<^verbatim>\<open>core/Config.cc\<close>): every key, the layers of configuration and the bounds the result satisfies. A \<^verbatim>\<open>double\<close> is a real, an infinity or NaN; rounding is not modelled.
  \<^item> Stage_Map, Entry_State, Entry_Stage, Entry_Read, Entry_Flush (\<^verbatim>\<open>core/FileEntry.cc\<close>): the entry of one file. State and queries, staged and speculative pages, the fetch gate,
    the hit path with its checksum verification, draining to the data file and the merge commit of the sidecar. Entry_Inv, Entry_Commit, Entry_Flush_Meta,
    Entry_Drain, Entry_Fill, Entry_Ops, Entry_Release: what each operation keeps of the invariant that links memory, data file, sidecar and origin. Entry_System: all operations
    of a handle interleaved with commits of other processes, as a step relation; every run serves the origin's bytes and keeps the sidecar true. Releases of ranges are among the steps of these runs when the sidecar they leave names no page they
    punched, and without that condition in the runs of \<open>any_run_reads_verified\<close>.
  \<^item> Replica_File (\<^verbatim>\<open>core/ReplicaFile.cc\<close>), Replica_View and Replica_Store (\<^verbatim>\<open>core/ReplicaStore.cc\<close>): the replica sidecar; the stitched view of overlay and original; the verified overlay read;
    publication, after which a sidecar that appeared has its overlay, and opening, which hands out only verified views.
  \<^item> Slot_Codec, Slot_Store, Slot_Log, Slot_Create (\<^verbatim>\<open>core/SlotStore.cc\<close>): the slot store. Its images; its operations; that a committed block is found by every reader behind any debris of a crash and
    that its scans end; that creation is all or nothing.
  \<^item> Cache_Evict (\<^verbatim>\<open>core/CacheStore.cc\<close>): the scan of the cache directory, the free-space floor, eviction with its admission latch, the sweep of orphans, cleanup, pinning. Cache_Space:
    whatever fails, a pass only removes files it may remove, oldest entries first and no more than needed, and a pin holds. Cache_Cleanup: the same for the cleanup modes. Cache_Sample: a
    small cache at which these theorems are applied.
  \<^item> Sha256 (\<^verbatim>\<open>core/vendor/sha256.cc\<close>) and Url_Key (\<^verbatim>\<open>core/UrlKey.cc\<close>): the hash routine is the fold of its compression function over the padded message; the key of a URL is a normal form without
    credentials, and its hash a legal object name.
  \<^item> Read_Footprint (\<^verbatim>\<open>core/ReadFootprint.cc\<close>): the listing and the count of a run are those of the buckets it read up to the limit, and the signature is the hash of that listing.
  \<^item> Read_Map (\<^verbatim>\<open>transpose/ReadMap.cc\<close>) and Read_Rule (\<^verbatim>\<open>plugin/ReadRule.cc\<close>): which branches of a ROOT file a request reads and which share of the data they hold; the decision, taken once per
    file of the process, to cache it or to read it from the origin. The process's rules, their registry and the queue of parsed maps are a step relation.
  \<^item> Origin_Plan (\<^verbatim>\<open>plugin/ReadRounding.h\<close>, \<^verbatim>\<open>plugin/OpenRetry.cc\<close>, \<^verbatim>\<open>plugin/OriginInFlight.h\<close> and parts of \<^verbatim>\<open>plugin/UCacheFile.cc\<close>): what is asked of the origin.
  \<^item> Root_Key (\<^verbatim>\<open>parseKey\<close> of \<^verbatim>\<open>transpose/TreeMeta.cc\<close>, the key and header writers of \<^verbatim>\<open>transpose/FillLayout.cc\<close>) and Root_Frames (\<^verbatim>\<open>decompressFrames\<close>, \<^verbatim>\<open>zstdFrames\<close>): the records of a ROOT file as
    the replica builder rewrites them. A key rewritten in place parses as the same key at its new position, the header window states the new end and nothing else, and the frames of the encoder decode to the bytes
    they were made of; the external codecs are parameters.
  \<^item> Basket_Slot and Fill_Layout (\<^verbatim>\<open>transpose/FillLayout.cc\<close>): the layout a file is shown in while its replica is being made. Slots, the relocated tree key and the patched windows lie as promised, the tree record
    names the slots, exactly the live entries of the keys list are repointed, and a basket read from its slot is the object of its original record. A block that outgrows its 24-bit length field is the exception:
    the statements assume that blocks fit, or that the record is below 16 MiB and the codec keeps the bound of \<^verbatim>\<open>ZSTD_compressBound\<close>.

  \<^bold>\<open>Abstract specifications.\<close> The sidecar commit refines an edit of a map from pages to checksums (\<open>commit_refines_page_map\<close>); a run of a handle refines reading the origin file
  (\<open>any_run_reads_origin\<close>); the replica's segments refine the virtual file (\<open>stitched_view_is_virtual_file\<close>).

  \<^bold>\<open>Loops.\<close> Loops over lists and counters are structural or have a termination proof. Two loops of the code may run for ever on some input and are
  \<^theory_text>\<open>partial_function (option)\<close>, \<open>None\<close> being a run that does not end: the cut of a run into vector elements and the scan of the slot store's blocks have theorems that say when
  they end (\<open>vector_plan_is_legal\<close>, \<open>slot_calls_return\<close>), and one that shows an input on which the scan does not (\<open>slot_scan_may_not_end\<close>).
  No fuel is used in a statement about the code.

  \<^bold>\<open>Found on the way.\<close> Some theorems state behaviour that departs from a comment or from the intent of the code: wrapping range tests (\<open>waitForInFlight_guard_wraps\<close>,
  \<open>geometry_wraps\<close>), a commit that forgets the pages of other processes after one read error (\<open>load_error_drops_siblings\<close>), a release that punches after a failed
  commit (\<open>release_ignores_failed_commit\<close>; it also punches pages of its span that only other processes have published), a slot store deleted after one read error (\<open>read_error_drops_store\<close>), a replaced replica whose
  old sidecar is left without an overlay (\<open>failed_replacement_strands_sidecar\<close>), sizes read as their leading digits (\<open>typo_reinterpreted\<close>), a NaN watermark that passes the clamping (\<open>fromEnv_sane\<close>),
  admission closed by a pass that did free something (\<open>blocked_although_freed\<close>).

  \<^bold>\<open>Not modelled.\<close> Of the cache store the registry of live entries (a parameter of its operations) and the statistics files.
  The callbacks of the plugin into XrdCl, prefetching and cold runs depend on an asynchronous library outside the repository. Of the ROOT rewriter the walk over
  streamed objects (trees, branches, RNTuple envelopes) is left out: it interprets the streamer layouts of the ROOT library. The command line tools and benchmarks are input and output around the core; statistics, traces and logs do not influence what is cached or served.
\<close>

end
